(* ===== verification/Prelude.thy ===== *)
theory Prelude
  imports Main "HOL-Library.Word" "HOL-Library.Code_Target_Nat"
begin

text \<open>
  What every component of the development shares: the machine types of the C code, the outcome of
  a C function that reports success as a boolean, state-passing programs over such outcomes with
  the one sequencing operator, relations that every step of a program keeps, and little-endian
  byte strings.

  The C functions modelled here return \<open>bool\<close> (or \<open>int\<close>) and pass results through pointers.
  A run of one of them is a value of \<open>'a res\<close>: \<open>Ret x\<close> is a return of true with the results
  \<open>x\<close>, \<open>Fail\<close> is a return of false, and \<open>Stuck\<close> is a run the model does not follow: a call of a
  null or out-of-table function pointer, an access outside of an object, a failed assertion, or a
  recursion deeper than the bound it was given. A program also passes on the state it changed, in every case: the C code keeps what it has
  written when it fails.
\<close>

section \<open>Machine types\<close>

type_synonym byte = "8 word"
type_synonym u32 = "32 word"
type_synonym u64 = "64 word"
type_synonym addr = nat

named_theorems prog_simps \<open>unfolding the sequencing of programs\<close>
named_theorems keeps_rules \<open>programs that keep a relation between the states before and after\<close>

section \<open>Outcomes and programs\<close>

datatype 'a res = Ret 'a | Fail | Stuck

type_synonym ('s, 'a) prog = "'s \<Rightarrow> 'a res \<times> 's"

definition ret :: "'a \<Rightarrow> ('s, 'a) prog" where
  "ret x = (\<lambda>s. (Ret x, s))"

definition stuck :: "('s, 'a) prog" where
  "stuck = (\<lambda>s. (Stuck, s))"

definition fail :: "('s, 'a) prog" where
  "fail = (\<lambda>s. (Fail, s))"

text \<open>\<open>bnd f g\<close> is the C idiom \<open>if (!f(...)) return false; g(...)\<close>.\<close>

definition bnd :: "('s, 'a) prog \<Rightarrow> ('a \<Rightarrow> ('s, 'b) prog) \<Rightarrow> ('s, 'b) prog" where
  "bnd f g = (\<lambda>s. case f s of
      (Ret x, s') \<Rightarrow> g x s'
    | (Fail, s') \<Rightarrow> (Fail, s')
    | (Stuck, s') \<Rightarrow> (Stuck, s'))"

abbreviation seq :: "('s, 'a) prog \<Rightarrow> ('s, 'b) prog \<Rightarrow> ('s, 'b) prog" where
  "seq f g \<equiv> bnd f (\<lambda>_. g)"

text \<open>A call whose failure the caller looks at.\<close>

definition attempt :: "('s, 'a) prog \<Rightarrow> ('s, 'a option) prog" where
  "attempt f = (\<lambda>s. case f s of
      (Ret x, s') \<Rightarrow> (Ret (Some x), s') | (Fail, s') \<Rightarrow> (Ret None, s') | (Stuck, s') \<Rightarrow> (Stuck, s'))"

lemma ret_apply [simp, prog_simps]: "ret x s = (Ret x, s)"
  by (simp add: ret_def)

lemma stuck_apply [simp, prog_simps]: "stuck s = (Stuck, s)"
  by (simp add: stuck_def)

lemma fail_apply [simp, prog_simps]: "fail s = (Fail, s)"
  by (simp add: fail_def)

lemma bnd_apply [prog_simps]:
  "bnd f g s = (case f s of
      (Ret x, s') \<Rightarrow> g x s' | (Fail, s') \<Rightarrow> (Fail, s') | (Stuck, s') \<Rightarrow> (Stuck, s'))"
  by (simp add: bnd_def)

lemma bnd_Ret [simp]: "f s = (Ret x, s') \<Longrightarrow> bnd f g s = g x s'"
  by (simp add: bnd_def)

lemma bnd_Fail [simp]: "f s = (Fail, s') \<Longrightarrow> bnd f g s = (Fail, s')"
  by (simp add: bnd_def)

lemma bnd_Stuck [simp]: "f s = (Stuck, s') \<Longrightarrow> bnd f g s = (Stuck, s')"
  by (simp add: bnd_def)

lemma bnd_assoc: "bnd (bnd f g) h = bnd f (\<lambda>x. bnd (g x) h)"
  by (auto simp: bnd_def fun_eq_iff split: prod.splits res.splits)

lemma bnd_ret [simp]: "bnd (ret x) g = g x"
  by (simp add: bnd_def fun_eq_iff)

lemma bnd_eq_Ret:
  "bnd f g s = (Ret y, t) \<longleftrightarrow> (\<exists>x s'. f s = (Ret x, s') \<and> g x s' = (Ret y, t))"
  by (auto simp: bnd_def split: prod.splits res.splits)

lemma bnd_RetE:
  assumes "bnd f g s = (Ret y, t)"
  obtains x s' where "f s = (Ret x, s')" and "g x s' = (Ret y, t)"
  using assms by (auto simp: bnd_eq_Ret)

lemma res_cases_prod:
  obtains x s' where "p = (Ret x, s')" | s' where "p = (Fail, s')" | s' where "p = (Stuck, s')"
  by (cases p; cases "fst p") auto

section \<open>Relations that programs keep\<close>

text \<open>
  \<open>keeps R f\<close>: whatever \<open>f\<close> returns, the state after it is related by \<open>R\<close> to the state before.
  For a reflexive and transitive \<open>R\<close> (\<open>bytes_left\<close> does not grow, memory outside a region is
  unchanged, ...) it is enough to know it of the primitive operations.
\<close>

definition keeps :: "('s \<Rightarrow> 's \<Rightarrow> bool) \<Rightarrow> ('s, 'a) prog \<Rightarrow> bool" where
  "keeps R f \<longleftrightarrow> (\<forall>s. R s (snd (f s)))"

lemma keepsI: "(\<And>s. R s (snd (f s))) \<Longrightarrow> keeps R f"
  by (simp add: keeps_def)

lemma keepsD: "keeps R f \<Longrightarrow> R s (snd (f s))"
  by (simp add: keeps_def)

lemma keeps_eqD: "keeps R f \<Longrightarrow> f s = (r, s') \<Longrightarrow> R s s'"
  by (metis keepsD snd_conv)

locale preorder_rel =
  fixes R :: "'s \<Rightarrow> 's \<Rightarrow> bool"
  assumes rel_refl: "R s s"
    and rel_trans: "R s t \<Longrightarrow> R t u \<Longrightarrow> R s u"
begin

lemma keeps_ret: "keeps R (ret x)"
  by (simp add: keeps_def rel_refl)

lemma keeps_stuck: "keeps R stuck"
  by (simp add: keeps_def rel_refl)

lemma keeps_fail: "keeps R fail"
  by (simp add: keeps_def rel_refl)

lemma keeps_bnd:
  assumes "keeps R f" and "\<And>x. keeps R (g x)"
  shows "keeps R (bnd f g)"
proof (rule keepsI)
  fix s
  have f: "R s (snd (f s))"
    using assms(1) by (rule keepsD)
  show "R s (snd (bnd f g s))"
  proof (cases "f s" rule: res_cases_prod)
    case (1 x s')
    with f have "R s s'" by simp
    moreover have "R s' (snd (g x s'))"
      using assms(2) by (rule keepsD)
    ultimately show ?thesis
      using 1 by (auto intro: rel_trans)
  qed (use f in auto)
qed

lemma keeps_if: "keeps R f \<Longrightarrow> keeps R g \<Longrightarrow> keeps R (if b then f else g)"
  by simp

lemma keeps_Let: "(\<And>y. keeps R (f y)) \<Longrightarrow> keeps R (let y = x in f y)"
  by simp

lemma keeps_case_prod: "(\<And>x y. keeps R (f x y)) \<Longrightarrow> keeps R (case p of (x, y) \<Rightarrow> f x y)"
  by (cases p) simp

lemmas keeps_intros =
  keeps_ret keeps_stuck keeps_fail keeps_bnd keeps_if keeps_Let keeps_case_prod

end

end
