(* ===== verification/Bytes.thy ===== *)
theory Bytes
  imports Prelude
begin

text \<open>
  Little-endian byte strings and the flat memory the C code reads and writes. The targets are
  little-endian machines with 8-bit bytes and 64-bit pointers and \<open>size_t\<close> (arm64, x86-64), so a
  typed access is a load or store of consecutive bytes. Addresses are natural numbers; 0 is the
  null pointer.
\<close>

unbundle bit_operations_syntax

section \<open>Little-endian encodings\<close>

definition le_bytes :: "nat \<Rightarrow> 'a::len word \<Rightarrow> byte list" where
  "le_bytes n w = map (\<lambda>i. ucast (drop_bit (8 * i) w)) [0..<n]"

fun le_word :: "byte list \<Rightarrow> 'a::len word" where
  "le_word [] = 0"
| "le_word (b # bs) = ucast b OR push_bit 8 (le_word bs)"

lemma length_le_bytes [simp]: "length (le_bytes n w) = n"
  by (simp add: le_bytes_def)

lemma bit_le_word:
  "bit (le_word bs :: 'a::len word) k \<longleftrightarrow>
     k < LENGTH('a) \<and> k div 8 < length bs \<and> bit (bs ! (k div 8)) (k mod 8)"
proof (induction bs arbitrary: k)
  case Nil
  show ?case by simp
next
  case (Cons b bs)
  show ?case
  proof (cases "k < 8")
    case True
    then show ?thesis
      by (auto simp: bit_simps)
  next
    case False
    then have "k div 8 = Suc ((k - 8) div 8)" and "k mod 8 = (k - 8) mod 8"
      by (simp_all add: div_if mod_if)
    moreover have "\<not> bit b k"
      using False by (auto dest: bit_imp_le_length)
    ultimately show ?thesis
      using False by (auto simp: bit_simps Cons.IH)
  qed
qed

lemma le_word_le_bytes:
  assumes "LENGTH('a) \<le> 8 * n"
  shows "le_word (le_bytes n w) = (w :: 'a::len word)"
proof (rule bit_word_eqI)
  fix k assume k: "k < LENGTH('a)"
  then have "k div 8 < n"
    using assms by auto
  with k show "bit (le_word (le_bytes n w) :: 'a word) k \<longleftrightarrow> bit w k"
    by (simp add: bit_le_word le_bytes_def bit_simps)
qed

lemma le_bytes_le_word:
  assumes "length bs = n" and "8 * n \<le> LENGTH('a)"
  shows "le_bytes n (le_word bs :: 'a::len word) = bs"
proof (rule nth_equalityI)
  show "length (le_bytes n (le_word bs :: 'a word)) = length bs"
    using assms(1) by simp
next
  fix i assume "i < length (le_bytes n (le_word bs :: 'a word))"
  then have i: "i < n" by simp
  show "le_bytes n (le_word bs :: 'a word) ! i = bs ! i"
  proof (rule bit_word_eqI)
    fix k assume k: "k < LENGTH(8)"
    then have "8 * i + k < LENGTH('a)"
      using assms(2) i by simp
    with k show "bit (le_bytes n (le_word bs :: 'a word) ! i) k \<longleftrightarrow> bit (bs ! i) k"
      using i assms(1) by (simp add: le_bytes_def bit_simps bit_le_word)
  qed
qed

section \<open>Words\<close>

lemma unat_drop_bit_div: "unat (drop_bit n (w :: 'a::len word)) = unat w div 2 ^ n"
  by (simp only: unat_drop_bit_eq drop_bit_eq_div [where ?'a = nat])

lemma unat_u64_less: "unat (v :: u64) < 2 ^ 64"
  by (rule order_less_le_trans [OF unsigned_less]) simp

lemma unat_u32_less: "unat (v :: u32) < 2 ^ 32"
  by (rule order_less_le_trans [OF unsigned_less]) simp

lemma unat_byte_less: "unat (v :: byte) < 256"
  by (rule order_less_le_trans [OF unsigned_less]) simp

lemma unat_ucast_u32 [simp]: "unat (ucast (w :: u32) :: u64) = unat w"
  using unat_u32_less [of w] by (simp add: unsigned_ucast_eq take_bit_nat_eq_self)

lemma ucast_ucast_u32 [simp]: "ucast (ucast (w :: u32) :: u64) = w"
  by (rule bit_word_eqI) (simp add: bit_simps)

lemma ucast_of_nat_u32 [simp]: "(ucast (of_nat n :: u64) :: u32) = of_nat n"
  by (simp add: unsigned_of_nat word_of_nat_eq_iff take_bit_take_bit)

lemma unat_of_nat_u32: "n < 2 ^ 32 \<Longrightarrow> unat (of_nat n :: u32) = n"
  by (simp add: unat_of_nat take_bit_nat_eq_self)

lemma unat_of_nat_u64: "n < 2 ^ 64 \<Longrightarrow> unat (of_nat n :: u64) = n"
  by (simp add: unat_of_nat take_bit_nat_eq_self)

lemma bit_times_2: "bit (v * 2 :: 'a::len word) n \<longleftrightarrow> 0 < n \<and> n < LENGTH('a) \<and> bit v (n - 1)"
proof -
  have "v * 2 = push_bit 1 v" by simp
  then show ?thesis
    by (simp only: bit_push_bit_iff) auto
qed

lemma byte_bit_cases:
  "k < LENGTH(8) \<Longrightarrow> k = 0 \<or> k = 1 \<or> k = 2 \<or> k = 3 \<or> k = 4 \<or> k = 5 \<or> k = 6 \<or> k = (7::nat)"
  by auto

section \<open>Memory\<close>

type_synonym mem = "addr \<Rightarrow> byte"

definition load :: "mem \<Rightarrow> addr \<Rightarrow> nat \<Rightarrow> byte list" where
  "load m a n = map (\<lambda>i. m (a + i)) [0..<n]"

definition store :: "mem \<Rightarrow> addr \<Rightarrow> byte list \<Rightarrow> mem" where
  "store m a bs = (\<lambda>x. if a \<le> x \<and> x < a + length bs then bs ! (x - a) else m x)"

definition load_word :: "mem \<Rightarrow> addr \<Rightarrow> nat \<Rightarrow> 'a::len word" where
  "load_word m a n = le_word (load m a n)"

definition store_word :: "mem \<Rightarrow> addr \<Rightarrow> nat \<Rightarrow> 'a::len word \<Rightarrow> mem" where
  "store_word m a n w = store m a (le_bytes n w)"

text \<open>A pointer stored in memory is eight bytes.\<close>

definition load_ptr :: "mem \<Rightarrow> addr \<Rightarrow> addr" where
  "load_ptr m a = unat (load_word m a 8 :: u64)"

definition store_ptr :: "mem \<Rightarrow> addr \<Rightarrow> addr \<Rightarrow> mem" where
  "store_ptr m a p = store_word m a 8 (word_of_nat p :: u64)"

text \<open>A \<open>bool\<close> is one byte, read as true when it is not zero.\<close>

definition load_bool :: "mem \<Rightarrow> addr \<Rightarrow> bool" where
  "load_bool m a \<longleftrightarrow> m a \<noteq> 0"

definition store_bool :: "mem \<Rightarrow> addr \<Rightarrow> bool \<Rightarrow> mem" where
  "store_bool m a b = store m a [if b then 1 else 0]"

lemma length_load [simp]: "length (load m a n) = n"
  by (simp add: load_def)

lemma load_0 [simp]: "load m a 0 = []"
  by (simp add: load_def)

lemma nth_load [simp]: "i < n \<Longrightarrow> load m a n ! i = m (a + i)"
  by (simp add: load_def)

lemma load_Suc: "load m a (Suc n) = m a # load m (Suc a) n"
  by (rule nth_equalityI) (auto simp: nth_Cons split: nat.split)

lemma load_1 [simp]: "load m a (Suc 0) = [m a]"
  by (simp add: load_Suc)

lemma load_append: "load m a (n + k) = load m a n @ load m (a + n) k"
  by (rule nth_equalityI) (auto simp: nth_append)

lemma take_load [simp]: "take k (load m a n) = load m a (min k n)"
  by (rule nth_equalityI) auto

lemma drop_load [simp]: "drop k (load m a n) = load m (a + k) (n - k)"
  by (rule nth_equalityI) (auto simp: add.assoc)

lemma store_Nil [simp]: "store m a [] = m"
  by (auto simp: store_def fun_eq_iff)

lemma store_out: "x < a \<or> a + length bs \<le> x \<Longrightarrow> store m a bs x = m x"
  by (auto simp: store_def)

lemma store_in: "i < length bs \<Longrightarrow> store m a bs (a + i) = bs ! i"
  by (simp add: store_def)

lemma load_cong: "(\<And>i. i < n \<Longrightarrow> m (a + i) = m' (a + i)) \<Longrightarrow> load m a n = load m' a n"
  by (simp add: load_def)

lemma load_store_same [simp]: "n = length bs \<Longrightarrow> load (store m a bs) a n = bs"
  by (rule nth_equalityI) (auto simp: store_in)

lemma load_store_disjoint:
  "a + n \<le> b \<or> b + length bs \<le> a \<Longrightarrow> load (store m b bs) a n = load m a n"
  by (rule load_cong) (auto simp: store_def)

lemma store_store_same: "length bs = length cs \<Longrightarrow> store (store m a bs) a cs = store m a cs"
  by (auto simp: store_def fun_eq_iff)

lemma store_append: "store (store m a bs) (a + length bs) cs = store m a (bs @ cs)"
  by (auto simp: store_def fun_eq_iff nth_append)

lemma store_load_id: "store m a (load m a n) = m"
  by (auto simp: store_def fun_eq_iff)

lemma store_commute:
  "a + length bs \<le> b \<or> b + length cs \<le> a \<Longrightarrow>
     store (store m a bs) b cs = store (store m b cs) a bs"
  by (auto simp: store_def fun_eq_iff)

lemma load_word_store_word:
  "LENGTH('a) \<le> 8 * n \<Longrightarrow> load_word (store_word m a n (w :: 'a::len word)) a n = w"
  by (simp add: load_word_def store_word_def le_word_le_bytes)

lemma load_word_cong:
  "(\<And>i. i < n \<Longrightarrow> m (a + i) = m' (a + i)) \<Longrightarrow> load_word m a n = load_word m' a n"
  unfolding load_word_def by (metis load_cong)

section \<open>Regions\<close>

text \<open>\<open>same_except A m m'\<close>: the memories agree outside the set \<open>A\<close> of addresses.\<close>

definition region :: "addr \<Rightarrow> nat \<Rightarrow> addr set" where
  "region a n = {a ..< a + n}"

definition same_except :: "addr set \<Rightarrow> mem \<Rightarrow> mem \<Rightarrow> bool" where
  "same_except A m m' \<longleftrightarrow> (\<forall>x. x \<notin> A \<longrightarrow> m' x = m x)"

lemma same_except_refl [simp]: "same_except A m m"
  by (simp add: same_except_def)

lemma same_except_trans: "same_except A m m' \<Longrightarrow> same_except A m' m'' \<Longrightarrow> same_except A m m''"
  by (simp add: same_except_def)

lemma same_except_mono: "same_except A m m' \<Longrightarrow> A \<subseteq> B \<Longrightarrow> same_except B m m'"
  by (auto simp: same_except_def)

lemma same_except_store: "region a (length bs) \<subseteq> A \<Longrightarrow> same_except A m (store m a bs)"
  by (auto simp: same_except_def region_def store_def subset_iff)

lemma in_region [simp]: "x \<in> region a n \<longleftrightarrow> a \<le> x \<and> x < a + n"
  by (simp add: region_def)

lemma region_0 [simp]: "region a 0 = {}"
  by (simp add: region_def)

lemma region_disjoint: "region a n \<inter> region b k = {} \<longleftrightarrow> n = 0 \<or> k = 0 \<or> a + n \<le> b \<or> b + k \<le> a"
proof
  assume disj: "region a n \<inter> region b k = {}"
  then have "max a b \<notin> region a n \<inter> region b k" by blast
  then show "n = 0 \<or> k = 0 \<or> a + n \<le> b \<or> b + k \<le> a"
    by (auto simp: max_def split: if_splits)
qed (auto simp: region_def)

lemma same_except_load:
  assumes "same_except A m m'" and "region a n \<inter> A = {}"
  shows "load m' a n = load m a n"
proof (rule load_cong)
  fix i assume "i < n"
  then have "a + i \<in> region a n" by simp
  then have "a + i \<notin> A"
    using assms(2) by blast
  then show "m' (a + i) = m (a + i)"
    using assms(1) by (simp add: same_except_def)
qed

end
