(* ===== verification/Pb_Types.thy ===== *)
theory Pb_Types
  imports Bytes
begin

text \<open>
  The types of \<open>nanopb/pb.h\<close>, \<open>pb_encode.h\<close> and \<open>pb_decode.h\<close>: the descriptor of a message
  field, its type byte, the two streams, and the environment a program that uses nanopb supplies
  (its descriptor tables and its callback functions).

  The build (\<open>Target Support Files/nanopb/nanopb.xcconfig\<close>) sets \<open>PB_FIELD_32BIT\<close>, so
  \<open>pb_size_t\<close> and \<open>pb_ssize_t\<close> have 32 bits, leaves \<open>PB_ENABLE_MALLOC\<close>, \<open>PB_BUFFER_ONLY\<close>,
  \<open>PB_NO_ERRMSG\<close> and \<open>PB_OLD_CALLBACK_STYLE\<close> undefined, and keeps \<open>PB_MAX_REQUIRED_FIELDS\<close> at
  its default 64.
\<close>

unbundle bit_operations_syntax

section \<open>Field descriptors\<close>

text \<open>
  \<open>pb_field_s\<close>. \<open>ptr\<close> is the address of the submessage's descriptor table or of the default
  value, or null.
\<close>

record pb_field =
  tag :: u32
  ftype :: byte
  data_offset :: u32
  size_offset :: u32
  data_size :: u32
  array_size :: u32
  ptr :: addr

definition PB_LAST_FIELD :: pb_field where
  "PB_LAST_FIELD = \<lparr>tag = 0, ftype = 0, data_offset = 0, size_offset = 0, data_size = 0,
     array_size = 0, ptr = 0\<rparr>"

text \<open>
  A descriptor table is the list of its entries up to the terminator \<open>PB_LAST_FIELD\<close>, which the
  list leaves out: \<open>entry fs i\<close> is \<open>fields[i]\<close>.
\<close>

definition entry :: "pb_field list \<Rightarrow> nat \<Rightarrow> pb_field" where
  "entry fs i = (if i < length fs then fs ! i else PB_LAST_FIELD)"

definition PB_SIZE_MAX :: u32 where
  "PB_SIZE_MAX = - 1"

definition PB_ATYPE :: "byte \<Rightarrow> byte" where
  "PB_ATYPE x = x AND 0xC0"

definition PB_HTYPE :: "byte \<Rightarrow> byte" where
  "PB_HTYPE x = x AND 0x30"

definition PB_LTYPE :: "byte \<Rightarrow> byte" where
  "PB_LTYPE x = x AND 0x0F"

abbreviation (input) "PB_LTYPE_VARINT \<equiv> 0x00 :: byte"
abbreviation (input) "PB_LTYPE_UVARINT \<equiv> 0x01 :: byte"
abbreviation (input) "PB_LTYPE_SVARINT \<equiv> 0x02 :: byte"
abbreviation (input) "PB_LTYPE_FIXED32 \<equiv> 0x03 :: byte"
abbreviation (input) "PB_LTYPE_FIXED64 \<equiv> 0x04 :: byte"
abbreviation (input) "PB_LTYPE_LAST_PACKABLE \<equiv> 0x04 :: byte"
abbreviation (input) "PB_LTYPE_BYTES \<equiv> 0x05 :: byte"
abbreviation (input) "PB_LTYPE_STRING \<equiv> 0x06 :: byte"
abbreviation (input) "PB_LTYPE_SUBMESSAGE \<equiv> 0x07 :: byte"
abbreviation (input) "PB_LTYPE_EXTENSION \<equiv> 0x08 :: byte"
abbreviation (input) "PB_LTYPE_FIXED_LENGTH_BYTES \<equiv> 0x09 :: byte"

abbreviation (input) "PB_HTYPE_REQUIRED \<equiv> 0x00 :: byte"
abbreviation (input) "PB_HTYPE_OPTIONAL \<equiv> 0x10 :: byte"
abbreviation (input) "PB_HTYPE_REPEATED \<equiv> 0x20 :: byte"
abbreviation (input) "PB_HTYPE_ONEOF \<equiv> 0x30 :: byte"

abbreviation (input) "PB_ATYPE_STATIC \<equiv> 0x00 :: byte"
abbreviation (input) "PB_ATYPE_POINTER \<equiv> 0x80 :: byte"
abbreviation (input) "PB_ATYPE_CALLBACK \<equiv> 0x40 :: byte"

text \<open>\<open>pb_wire_type_t\<close>: the decoder casts any three bits to it, so it is a word.\<close>

abbreviation (input) "PB_WT_VARINT \<equiv> 0 :: u32"
abbreviation (input) "PB_WT_64BIT \<equiv> 1 :: u32"
abbreviation (input) "PB_WT_STRING \<equiv> 2 :: u32"
abbreviation (input) "PB_WT_32BIT \<equiv> 5 :: u32"

text \<open>\<open>PB_BYTES_ARRAY_T_ALLOCSIZE\<close>: the bytes follow the 4-byte count.\<close>

definition PB_BYTES_ARRAY_T_ALLOCSIZE :: "u64 \<Rightarrow> u64" where
  "PB_BYTES_ARRAY_T_ALLOCSIZE n = n + 4"

lemma entry_less [simp]: "i < length fs \<Longrightarrow> entry fs i = fs ! i"
  by (simp add: entry_def)

lemma entry_beyond: "length fs \<le> i \<Longrightarrow> entry fs i = PB_LAST_FIELD"
  by (simp add: entry_def)

lemma tag_PB_LAST_FIELD [simp]: "tag PB_LAST_FIELD = 0"
  by (simp add: PB_LAST_FIELD_def)

lemma tag_entry_less: "tag (entry fs i) \<noteq> 0 \<Longrightarrow> i < length fs"
  by (rule ccontr) (simp add: entry_beyond)

text \<open>The two high bits and the two middle bits take four values each.\<close>

lemma byte_bits_67:
  "(t :: byte) AND 0xC0 = (if bit t 6 then 0x40 else 0) OR (if bit t 7 then 0x80 else 0)"
  by (rule bit_word_eqI, drule byte_bit_cases, elim disjE) (simp_all add: bit_simps)

lemma byte_bits_45:
  "(t :: byte) AND 0x30 = (if bit t 4 then 0x10 else 0) OR (if bit t 5 then 0x20 else 0)"
  by (rule bit_word_eqI, drule byte_bit_cases, elim disjE) (simp_all add: bit_simps)

lemma byte_mask_cases:
  "(t :: byte) AND 0xC0 \<in> {0, 0x40, 0x80, 0xC0}" "(t :: byte) AND 0x30 \<in> {0, 0x10, 0x20, 0x30}"
  by (simp_all add: byte_bits_67 byte_bits_45)

lemma PB_ATYPE_cases:
  obtains "PB_ATYPE t = PB_ATYPE_STATIC" | "PB_ATYPE t = PB_ATYPE_POINTER"
    | "PB_ATYPE t = PB_ATYPE_CALLBACK" | "PB_ATYPE t = 0xC0"
  using byte_mask_cases(1) [of t] by (auto simp: PB_ATYPE_def)

lemma PB_HTYPE_cases:
  obtains "PB_HTYPE t = PB_HTYPE_REQUIRED" | "PB_HTYPE t = PB_HTYPE_OPTIONAL"
    | "PB_HTYPE t = PB_HTYPE_REPEATED" | "PB_HTYPE t = PB_HTYPE_ONEOF"
  using byte_mask_cases(2) [of t] by (auto simp: PB_HTYPE_def)

section \<open>Streams\<close>

text \<open>
  The \<open>callback\<close> member is null for a stream that only counts (\<open>PB_OSTREAM_SIZING\<close>), the
  library's own buffer function, or a function of the program, here known by its address.
\<close>

datatype ocallback = O_NULL | O_buf_write | O_user addr
datatype icallback = I_buf_read | I_user addr

record pb_ostream =
  o_callback :: ocallback
  o_state :: addr
  max_size :: u64
  bytes_written :: u64
  o_errmsg :: "string option"

record pb_istream =
  i_callback :: icallback
  i_state :: addr
  bytes_left :: u64
  i_errmsg :: "string option"

type_synonym ost = "pb_ostream \<times> mem"
type_synonym ist = "pb_istream \<times> mem"

text \<open>
  What the program that links nanopb supplies. \<open>descs\<close> gives the descriptor table at an address.
  A stream callback may change the memory and the \<open>state\<close> of the stream, as its documentation in
  \<open>pb_decode.h\<close> says; field and extension callbacks are given the stream and may do with it what
  they like. \<open>raw_buf\<close> is the address of the local array \<open>buffer\<close> of \<open>decode_callback_field\<close>,
  the one local object whose address a callback sees.
\<close>

record env =
  descs :: "addr \<Rightarrow> pb_field list"
  write_cb :: "addr \<Rightarrow> addr \<Rightarrow> byte list \<Rightarrow> mem \<Rightarrow> bool \<times> addr \<times> mem"
  read_cb :: "addr \<Rightarrow> addr \<Rightarrow> nat \<Rightarrow> mem \<Rightarrow> byte list option \<times> addr \<times> mem"
  encode_cb :: "addr \<Rightarrow> pb_field \<Rightarrow> addr \<Rightarrow> (ost, unit) prog"
  decode_cb :: "addr \<Rightarrow> pb_field \<Rightarrow> addr \<Rightarrow> (ist, unit) prog"
  ext_encode_cb :: "addr \<Rightarrow> addr \<Rightarrow> (ost, unit) prog"
  raw_buf :: addr
  ext_decode_cb :: "addr \<Rightarrow> addr \<Rightarrow> u32 \<Rightarrow> u32 \<Rightarrow> (ist, unit) prog"

end
