(* ===== verification/Pb_Ostream.thy ===== *)
theory Pb_Ostream
  imports Pb_Types
begin

text \<open>
  The output side of nanopb (\<open>nanopb/pb_encode.c\<close>), up to the encoders of single values: the
  stream, \<open>pb_write\<close>, and the encoders of variable-length and fixed-length integers, tags and
  strings. A program over the pair of the stream and the memory models a function that is given
  a \<open>pb_ostream_t *\<close>.

  A buffer passed to \<open>pb_write\<close> is the list of its bytes at the time of the call, so it is taken
  not to overlap the bytes being written.
\<close>

unbundle bit_operations_syntax

section \<open>The stream\<close>

text \<open>\<open>PB_RETURN_ERROR\<close>: record the message unless there is one already, and return false.\<close>

definition oset_error :: "string \<Rightarrow> pb_ostream \<Rightarrow> pb_ostream" where
  "oset_error msg s = s\<lparr>o_errmsg := (case o_errmsg s of None \<Rightarrow> Some msg | Some e \<Rightarrow> Some e)\<rparr>"

definition oerror :: "string \<Rightarrow> (ost, 'a) prog" where
  "oerror msg = (\<lambda>(s, m). (Fail, (oset_error msg s, m)))"

definition buf_write :: "byte list \<Rightarrow> u64 \<Rightarrow> (ost, unit) prog" where
  "buf_write buf count = (\<lambda>(s, m).
     (Ret (), (s\<lparr>o_state := o_state s + unat count\<rparr>, store m (o_state s) (take (unat count) buf))))"

definition pb_ostream_from_buffer :: "addr \<Rightarrow> u64 \<Rightarrow> pb_ostream" where
  "pb_ostream_from_buffer buf bufsize =
     \<lparr>o_callback = O_buf_write, o_state = buf, max_size = bufsize, bytes_written = 0,
      o_errmsg = None\<rparr>"

definition PB_OSTREAM_SIZING :: pb_ostream where
  "PB_OSTREAM_SIZING =
     \<lparr>o_callback = O_NULL, o_state = 0, max_size = 0, bytes_written = 0, o_errmsg = None\<rparr>"

text \<open>\<open>stream->callback(stream, buf, count)\<close>; only called when the callback is not null.\<close>

definition call_write :: "env \<Rightarrow> byte list \<Rightarrow> u64 \<Rightarrow> (ost, unit) prog" where
  "call_write E buf count = (\<lambda>(s, m).
     case o_callback s of
       O_NULL \<Rightarrow> (Stuck, (s, m))
     | O_buf_write \<Rightarrow> buf_write buf count (s, m)
     | O_user k \<Rightarrow> (case write_cb E k (o_state s) (take (unat count) buf) m of
         (ok, p, m') \<Rightarrow> (if ok then Ret () else Fail, (s\<lparr>o_state := p\<rparr>, m'))))"

definition pb_write :: "env \<Rightarrow> byte list \<Rightarrow> u64 \<Rightarrow> (ost, unit) prog" where
  "pb_write E buf count = (\<lambda>(s, m).
     if o_callback s \<noteq> O_NULL then
       if bytes_written s + count > max_size s then oerror ''stream full'' (s, m)
       else (case call_write E buf count (s, m) of
           (Ret _, (s', m')) \<Rightarrow> (Ret (), (s'\<lparr>bytes_written := bytes_written s' + count\<rparr>, m'))
         | (Fail, w) \<Rightarrow> oerror ''io error'' w
         | (Stuck, w) \<Rightarrow> (Stuck, w))
     else (Ret (), (s\<lparr>bytes_written := bytes_written s + count\<rparr>, m)))"

section \<open>Integers\<close>

text \<open>The \<open>while (value)\<close> loop of \<open>pb_encode_varint\<close>: the bytes it puts into \<open>buffer\<close>.\<close>

function varint_loop :: "u64 \<Rightarrow> byte list" where
  "varint_loop value =
     (if value \<noteq> 0 then ucast ((value AND 0x7F) OR 0x80) # varint_loop (drop_bit 7 value) else [])"
  by pat_completeness auto
termination
proof (relation "measure unat")
  fix v :: u64
  assume "v \<noteq> 0"
  then have "unat v div 2 ^ 7 < unat v"
    by (intro div_less_dividend) (auto simp: unat_gt_0)
  then show "(drop_bit 7 v, v) \<in> measure unat"
    by (simp only: in_measure unat_drop_bit_div)
qed simp

declare varint_loop.simps [simp del]

definition varint_buffer :: "u64 \<Rightarrow> byte list" where
  "varint_buffer value =
     (let buffer = varint_loop value; i = length buffer
      in buffer[i - 1 := buffer ! (i - 1) AND 0x7F])"

definition pb_encode_varint :: "env \<Rightarrow> u64 \<Rightarrow> (ost, unit) prog" where
  "pb_encode_varint E value =
     (if value \<le> 0x7F then pb_write E [ucast value] 1
      else let buffer = varint_buffer value in pb_write E buffer (of_nat (length buffer)))"

text \<open>\<open>int64_t\<close> values are words read by \<open>sint\<close>.\<close>

definition zigzag :: "u64 \<Rightarrow> u64" where
  "zigzag value = (if sint value < 0 then NOT (push_bit 1 value) else push_bit 1 value)"

definition pb_encode_svarint :: "env \<Rightarrow> u64 \<Rightarrow> (ost, unit) prog" where
  "pb_encode_svarint E value = pb_encode_varint E (zigzag value)"

definition fixed32_bytes :: "u32 \<Rightarrow> byte list" where
  "fixed32_bytes val =
     [ucast (val AND 0xFF),
      ucast (drop_bit 8 val AND 0xFF),
      ucast (drop_bit 16 val AND 0xFF),
      ucast (drop_bit 24 val AND 0xFF)]"

definition pb_encode_fixed32 :: "env \<Rightarrow> u32 \<Rightarrow> (ost, unit) prog" where
  "pb_encode_fixed32 E val = pb_write E (fixed32_bytes val) 4"

definition fixed64_bytes :: "u64 \<Rightarrow> byte list" where
  "fixed64_bytes val =
     [ucast (val AND 0xFF),
      ucast (drop_bit 8 val AND 0xFF),
      ucast (drop_bit 16 val AND 0xFF),
      ucast (drop_bit 24 val AND 0xFF),
      ucast (drop_bit 32 val AND 0xFF),
      ucast (drop_bit 40 val AND 0xFF),
      ucast (drop_bit 48 val AND 0xFF),
      ucast (drop_bit 56 val AND 0xFF)]"

definition pb_encode_fixed64 :: "env \<Rightarrow> u64 \<Rightarrow> (ost, unit) prog" where
  "pb_encode_fixed64 E val = pb_write E (fixed64_bytes val) 8"

section \<open>Tags and strings\<close>

definition pb_encode_tag :: "env \<Rightarrow> u32 \<Rightarrow> u32 \<Rightarrow> (ost, unit) prog" where
  "pb_encode_tag E wiretype field_number =
     (let t = push_bit 3 (ucast field_number :: u64) OR ucast wiretype
      in pb_encode_varint E t)"

text \<open>The wire type \<open>pb_encode_tag_for_field\<close> chooses; \<open>None\<close> is its default branch.\<close>

definition field_wiretype :: "pb_field \<Rightarrow> u32 option" where
  "field_wiretype f =
     (let lt = PB_LTYPE (ftype f) in
      if lt = PB_LTYPE_VARINT \<or> lt = PB_LTYPE_UVARINT \<or> lt = PB_LTYPE_SVARINT
      then Some PB_WT_VARINT
      else if lt = PB_LTYPE_FIXED32 then Some PB_WT_32BIT
      else if lt = PB_LTYPE_FIXED64 then Some PB_WT_64BIT
      else if lt = PB_LTYPE_BYTES \<or> lt = PB_LTYPE_STRING \<or> lt = PB_LTYPE_SUBMESSAGE
        \<or> lt = PB_LTYPE_FIXED_LENGTH_BYTES
      then Some PB_WT_STRING
      else None)"

definition pb_encode_tag_for_field :: "env \<Rightarrow> pb_field \<Rightarrow> (ost, unit) prog" where
  "pb_encode_tag_for_field E f =
     (case field_wiretype f of
        None \<Rightarrow> oerror ''invalid field type''
      | Some wiretype \<Rightarrow> pb_encode_tag E wiretype (tag f))"

definition pb_encode_string :: "env \<Rightarrow> byte list \<Rightarrow> u64 \<Rightarrow> (ost, unit) prog" where
  "pb_encode_string E buffer sz =
     seq (pb_encode_varint E sz) (pb_write E buffer sz)"

section \<open>The shape of a varint\<close>

text \<open>The reference encoding: seven bits at a time, the high bit set on all but the last byte.\<close>

function varint :: "u64 \<Rightarrow> byte list" where
  "varint v = (if v \<le> 0x7F then [ucast v] else (ucast (v AND 0x7F) OR 0x80) # varint (drop_bit 7 v))"
  by pat_completeness auto
termination
proof (relation "measure unat")
  fix v :: u64
  assume "\<not> v \<le> 0x7F"
  then have "unat v div 2 ^ 7 < unat v"
    by (intro div_less_dividend) (auto simp: word_le_nat_alt)
  then show "(drop_bit 7 v, v) \<in> measure unat"
    by (simp only: in_measure unat_drop_bit_div)
qed simp

declare varint.simps [simp del]

lemma varint_small: "v \<le> 0x7F \<Longrightarrow> varint v = [ucast v]"
  by (simp add: varint.simps)

lemma varint_big:
  "\<not> v \<le> 0x7F \<Longrightarrow> varint v = (ucast (v AND 0x7F) OR 0x80) # varint (drop_bit 7 v)"
  by (subst varint.simps) simp

lemma varint_nonempty [simp]: "varint v \<noteq> []"
  by (subst varint.simps) simp

lemma ucast_or_80: "(ucast ((v AND 0x7F) OR 0x80) :: byte) = ucast (v AND 0x7F :: u64) OR 0x80"
  by (rule bit_word_eqI, drule byte_bit_cases, elim disjE) (simp_all add: bit_simps)

lemma or80_and7F: "(b OR 0x80) AND 0x7F = b AND (0x7F :: byte)"
  by (rule bit_word_eqI, drule byte_bit_cases, elim disjE) (simp_all add: bit_simps)

lemma le_7F_iff: "v \<le> 0x7F \<longleftrightarrow> drop_bit 7 (v :: u64) = 0"
proof -
  have "v \<le> 0x7F \<longleftrightarrow> unat v div 2 ^ 7 = 0"
    by (simp add: word_le_nat_alt div_eq_0_iff) linarith
  then show ?thesis
    by (simp only: unat_drop_bit_div [symmetric] unat_eq_0)
qed

lemma ucast_small_byte: "v \<le> 0x7F \<Longrightarrow> ucast (v AND 0x7F) = (ucast (v :: u64) :: byte)"
proof -
  assume "v \<le> 0x7F"
  then have "take_bit 7 v = v"
    by (simp add: le_7F_iff take_bit_eq_self_iff_drop_bit_eq_0)
  then show ?thesis
    by (simp add: take_bit_eq_mask mask_eq_exp_minus_1)
qed

lemma small_byte_and7F: "v \<le> 0x7F \<Longrightarrow> ucast (v :: u64) AND 0x7F = (ucast v :: byte)"
proof -
  assume v: "v \<le> 0x7F"
  then have "take_bit 7 (ucast v :: byte) = ucast v"
    by (metis (no_types, lifting) le_7F_iff take_bit_eq_self_iff_drop_bit_eq_0 unsigned_take_bit_eq
        len_num1 linorder_not_less nle_le)
  then show ?thesis
    by (simp add: take_bit_eq_mask mask_eq_exp_minus_1)
qed

lemma varint_buffer_eq: "v \<noteq> 0 \<Longrightarrow> varint_buffer v = varint v"
proof (induction v rule: varint.induct)
  case (1 v)
  let ?x = "ucast ((v AND 0x7F) OR 0x80) :: byte"
  have loop: "varint_loop v = ?x # varint_loop (drop_bit 7 v)"
    using "1.prems" by (subst varint_loop.simps) simp
  show ?case
  proof (cases "v \<le> 0x7F")
    case True
    then have "varint_loop (drop_bit 7 v) = []"
      by (subst varint_loop.simps) (simp add: le_7F_iff)
    then show ?thesis
      using True loop
      by (simp add: varint_buffer_def varint_small ucast_or_80 or80_and7F ucast_small_byte
          small_byte_and7F)
  next
    case False
    then have nz: "drop_bit 7 v \<noteq> 0"
      by (simp only: le_7F_iff) simp
    then have "varint_loop (drop_bit 7 v) \<noteq> []"
      by (subst varint_loop.simps) simp
    then obtain y ys where ys: "varint_loop (drop_bit 7 v) = y # ys"
      by (cases "varint_loop (drop_bit 7 v)") auto
    have "varint_buffer v = ?x # varint_buffer (drop_bit 7 v)"
      unfolding varint_buffer_def loop ys by (simp add: Let_def)
    then show ?thesis
      using "1.IH" [OF False nz] by (simp only: varint_big [OF False] ucast_or_80)
  qed
qed

text \<open>The encoder writes the reference encoding.\<close>

lemma pb_encode_varint_eq:
  "pb_encode_varint E v = pb_write E (varint v) (of_nat (length (varint v)))"
proof (cases "v \<le> 0x7F")
  case True
  then show ?thesis
    by (simp add: pb_encode_varint_def varint_small)
next
  case False
  then have "v \<noteq> 0" by auto
  with False show ?thesis
    by (simp add: pb_encode_varint_def varint_buffer_eq Let_def)
qed

lemma varint_length_le: "unat v < 2 ^ (7 * k) \<Longrightarrow> 0 < k \<Longrightarrow> length (varint v) \<le> k"
proof (induction k arbitrary: v)
  case 0
  then show ?case by simp
next
  case (Suc k)
  show ?case
  proof (cases "v \<le> 0x7F")
    case True
    then show ?thesis by (simp add: varint_small)
  next
    case False
    have "0 < k"
    proof (rule ccontr)
      assume "\<not> 0 < k"
      then have "unat v < 128" using Suc.prems(1) by simp
      then show False using False by (simp add: word_le_nat_alt)
    qed
    moreover have "unat (drop_bit 7 v) < 2 ^ (7 * k)"
      unfolding unat_drop_bit_div
      using Suc.prems(1) by (intro less_mult_imp_div_less) (simp add: power_add algebra_simps)
    ultimately have "length (varint (drop_bit 7 v)) \<le> k"
      by (intro Suc.IH)
    then show ?thesis
      by (simp only: varint_big [OF False]) simp
  qed
qed

lemma varint_length_10: "length (varint v) \<le> 10"
  by (rule varint_length_le) (use unat_u64_less [of v] in auto)

lemma varint_length_pos: "0 < length (varint v)"
  by simp

end
