(* ===== verification/Pb_Istream.thy ===== *)
theory Pb_Istream
  imports Pb_Types
begin

text \<open>
  The input side of nanopb (\<open>nanopb/pb_decode.c\<close>), up to the decoders of single values: the
  stream, \<open>pb_read\<close>, the decoders of variable-length and fixed-length integers, tags, the
  functions that skip a field, and the substreams of length-delimited fields. A program over the
  pair of the stream and the memory models a function that is given a \<open>pb_istream_t *\<close>.

  A read returns the bytes; a caller whose buffer lies in the message structure stores them
  there. The bytes a failing callback may have left in the buffer are not modelled, and a buffer
  is taken not to overlap the bytes being read.
\<close>

unbundle bit_operations_syntax

section \<open>The stream\<close>

definition iset_error :: "string \<Rightarrow> pb_istream \<Rightarrow> pb_istream" where
  "iset_error msg s = s\<lparr>i_errmsg := (case i_errmsg s of None \<Rightarrow> Some msg | Some e \<Rightarrow> Some e)\<rparr>"

definition ierror :: "string \<Rightarrow> (ist, 'a) prog" where
  "ierror msg = (\<lambda>(s, m). (Fail, (iset_error msg s, m)))"

definition buf_read :: "u64 \<Rightarrow> (ist, byte list) prog" where
  "buf_read count = (\<lambda>(s, m).
     (Ret (load m (i_state s) (unat count)), (s\<lparr>i_state := i_state s + unat count\<rparr>, m)))"

definition pb_istream_from_buffer :: "addr \<Rightarrow> u64 \<Rightarrow> pb_istream" where
  "pb_istream_from_buffer buf bufsize =
     \<lparr>i_callback = I_buf_read, i_state = buf, bytes_left = bufsize, i_errmsg = None\<rparr>"

text \<open>\<open>stream->callback(stream, buf, count)\<close>.\<close>

definition call_read :: "env \<Rightarrow> u64 \<Rightarrow> (ist, byte list) prog" where
  "call_read E count = (\<lambda>(s, m).
     case i_callback s of
       I_buf_read \<Rightarrow> buf_read count (s, m)
     | I_user k \<Rightarrow> (case read_cb E k (i_state s) (unat count) m of
         (r, p, m') \<Rightarrow> (case r of Some bs \<Rightarrow> Ret bs | None \<Rightarrow> Fail, (s\<lparr>i_state := p\<rparr>, m'))))"

text \<open>\<open>pb_read\<close> with a buffer: the lines after the skipping of input bytes.\<close>

definition pb_read_buf :: "env \<Rightarrow> u64 \<Rightarrow> (ist, byte list) prog" where
  "pb_read_buf E count = (\<lambda>(s, m).
     if bytes_left s < count then ierror ''end-of-stream'' (s, m)
     else (case call_read E count (s, m) of
         (Ret bs, (s', m')) \<Rightarrow> (Ret bs, (s'\<lparr>bytes_left := bytes_left s' - count\<rparr>, m'))
       | (Fail, w) \<Rightarrow> ierror ''io error'' w
       | (Stuck, w) \<Rightarrow> (Stuck, w)))"

text \<open>Skipping, for a stream that is not a buffer: 16 bytes at a time into a scratch array.\<close>

function pb_skip_chunks :: "env \<Rightarrow> u64 \<Rightarrow> (ist, byte list) prog" where
  "pb_skip_chunks E count =
     (if count > 16 then seq (pb_read_buf E 16) (pb_skip_chunks E (count - 16))
      else pb_read_buf E count)"
  by pat_completeness auto
termination
  by (relation "measure (\<lambda>(E, count). unat count)") (auto simp: word_less_nat_alt unat_sub_if')

declare pb_skip_chunks.simps [simp del]

definition pb_read :: "env \<Rightarrow> bool \<Rightarrow> u64 \<Rightarrow> (ist, byte list) prog" where
  "pb_read E buf_is_null count = (\<lambda>(s, m).
     if buf_is_null \<and> i_callback s \<noteq> I_buf_read then pb_skip_chunks E count (s, m)
     else pb_read_buf E count (s, m))"

definition pb_readbyte :: "env \<Rightarrow> (ist, byte) prog" where
  "pb_readbyte E = (\<lambda>(s, m).
     if bytes_left s = 0 then ierror ''end-of-stream'' (s, m)
     else (case call_read E 1 (s, m) of
         (Ret bs, (s', m')) \<Rightarrow> (Ret (hd (bs @ [0])), (s'\<lparr>bytes_left := bytes_left s' - 1\<rparr>, m'))
       | (Fail, w) \<Rightarrow> ierror ''io error'' w
       | (Stuck, w) \<Rightarrow> (Stuck, w)))"

section \<open>Integers\<close>

text \<open>The \<open>do ... while (byte & 0x80)\<close> loops of the two varint decoders.\<close>

function varint32_loop :: "env \<Rightarrow> nat \<Rightarrow> u32 \<Rightarrow> (ist, u32) prog" where
  "varint32_loop E bitpos result =
     (if bitpos \<ge> 32 then ierror ''varint overflow''
      else bnd (pb_readbyte E) (\<lambda>b.
        let result' = result OR push_bit bitpos (ucast (b AND 0x7F)) in
        if b AND 0x80 \<noteq> 0 then varint32_loop E (bitpos + 7) result' else ret result'))"
  by pat_completeness auto
termination
  by (relation "measure (\<lambda>(E, bitpos, result). 32 - bitpos)") auto

declare varint32_loop.simps [simp del]

definition pb_decode_varint32 :: "env \<Rightarrow> (ist, u32) prog" where
  "pb_decode_varint32 E =
     bnd (pb_readbyte E) (\<lambda>b.
       if b AND 0x80 = 0 then ret (ucast b)
       else varint32_loop E 7 (ucast (b AND 0x7F)))"

function varint64_loop :: "env \<Rightarrow> nat \<Rightarrow> u64 \<Rightarrow> (ist, u64) prog" where
  "varint64_loop E bitpos result =
     (if bitpos \<ge> 64 then ierror ''varint overflow''
      else bnd (pb_readbyte E) (\<lambda>b.
        let result' = result OR push_bit bitpos (ucast (b AND 0x7F)) in
        if b AND 0x80 \<noteq> 0 then varint64_loop E (bitpos + 7) result' else ret result'))"
  by pat_completeness auto
termination
  by (relation "measure (\<lambda>(E, bitpos, result). 64 - bitpos)") auto

declare varint64_loop.simps [simp del]

definition pb_decode_varint :: "env \<Rightarrow> (ist, u64) prog" where
  "pb_decode_varint E = varint64_loop E 0 0"

definition unzigzag :: "u64 \<Rightarrow> u64" where
  "unzigzag v = (if v AND 1 \<noteq> 0 then NOT (drop_bit 1 v) else drop_bit 1 v)"

definition pb_decode_svarint :: "env \<Rightarrow> (ist, u64) prog" where
  "pb_decode_svarint E = bnd (pb_decode_varint E) (\<lambda>v. ret (unzigzag v))"

definition fixed32_value :: "byte list \<Rightarrow> u32" where
  "fixed32_value bs =
     push_bit 0 (ucast (bs ! 0)) OR push_bit 8 (ucast (bs ! 1)) OR
     push_bit 16 (ucast (bs ! 2)) OR push_bit 24 (ucast (bs ! 3))"

definition pb_decode_fixed32 :: "env \<Rightarrow> (ist, u32) prog" where
  "pb_decode_fixed32 E = bnd (pb_read E False 4) (\<lambda>bs. ret (fixed32_value bs))"

definition fixed64_value :: "byte list \<Rightarrow> u64" where
  "fixed64_value bs =
     push_bit 0 (ucast (bs ! 0)) OR push_bit 8 (ucast (bs ! 1)) OR
     push_bit 16 (ucast (bs ! 2)) OR push_bit 24 (ucast (bs ! 3)) OR
     push_bit 32 (ucast (bs ! 4)) OR push_bit 40 (ucast (bs ! 5)) OR
     push_bit 48 (ucast (bs ! 6)) OR push_bit 56 (ucast (bs ! 7))"

definition pb_decode_fixed64 :: "env \<Rightarrow> (ist, u64) prog" where
  "pb_decode_fixed64 E = bnd (pb_read E False 8) (\<lambda>bs. ret (fixed64_value bs))"

section \<open>Tags, and skipping a field\<close>

text \<open>
  The results of \<open>pb_decode_tag\<close> are meaningful also when it returns false, so the C return value
  is a component of them.
\<close>

record tag_result =
  t_ok :: bool
  t_wire_type :: u32
  t_tag :: u32
  t_eof :: bool

definition pb_decode_tag :: "env \<Rightarrow> (ist, tag_result) prog" where
  "pb_decode_tag E =
     bnd (attempt (pb_decode_varint32 E)) (\<lambda>r (s, m).
       case r of
         None \<Rightarrow> (Ret \<lparr>t_ok = False, t_wire_type = 0, t_tag = 0, t_eof = (bytes_left s = 0)\<rparr>, (s, m))
       | Some temp \<Rightarrow>
           if temp = 0
           then (Ret \<lparr>t_ok = False, t_wire_type = 0, t_tag = 0, t_eof = True\<rparr>, (s, m))
           else (Ret \<lparr>t_ok = True, t_wire_type = temp AND 7, t_tag = drop_bit 3 temp,
                      t_eof = False\<rparr>, (s, m)))"

text \<open>
  \<open>pb_skip_varint\<close> reads until a byte without the high bit. Each round takes a byte off
  \<open>bytes_left\<close>, so \<open>bytes_left\<close> bounds the rounds; the count only makes the recursion structural.
\<close>

fun skip_varint_loop :: "env \<Rightarrow> nat \<Rightarrow> (ist, unit) prog" where
  "skip_varint_loop E 0 = stuck"
| "skip_varint_loop E (Suc n) =
     bnd (pb_read E False 1) (\<lambda>bs.
       if hd (bs @ [0]) AND 0x80 \<noteq> 0 then skip_varint_loop E n else ret ())"

definition pb_skip_varint :: "env \<Rightarrow> (ist, unit) prog" where
  "pb_skip_varint E = (\<lambda>(s, m). skip_varint_loop E (Suc (unat (bytes_left s))) (s, m))"

definition pb_skip_string :: "env \<Rightarrow> (ist, unit) prog" where
  "pb_skip_string E =
     bnd (pb_decode_varint32 E) (\<lambda>len. seq (pb_read E True (ucast len)) (ret ()))"

definition pb_skip_field :: "env \<Rightarrow> u32 \<Rightarrow> (ist, unit) prog" where
  "pb_skip_field E wire_type =
     (if wire_type = PB_WT_VARINT then pb_skip_varint E
      else if wire_type = PB_WT_64BIT then seq (pb_read E True 8) (ret ())
      else if wire_type = PB_WT_STRING then pb_skip_string E
      else if wire_type = PB_WT_32BIT then seq (pb_read E True 4) (ret ())
      else ierror ''invalid wire_type'')"

text \<open>
  \<open>read_raw_value\<close> collects a scalar for a callback: the bytes read, at most \<open>mx\<close> of them
  for a varint.
\<close>

fun raw_varint_loop :: "env \<Rightarrow> nat \<Rightarrow> byte list \<Rightarrow> (ist, byte list) prog" where
  "raw_varint_loop E 0 buf = (\<lambda>w. (Fail, w))"
| "raw_varint_loop E (Suc n) buf =
     bnd (pb_read E False 1) (\<lambda>bs.
       let b = hd (bs @ [0]); buf' = buf @ [b] in
       if b AND 0x80 \<noteq> 0 then raw_varint_loop E n buf' else ret buf')"

definition read_raw_value :: "env \<Rightarrow> u32 \<Rightarrow> nat \<Rightarrow> (ist, byte list) prog" where
  "read_raw_value E wire_type mx =
     (if wire_type = PB_WT_VARINT then raw_varint_loop E mx []
      else if wire_type = PB_WT_64BIT then pb_read E False 8
      else if wire_type = PB_WT_32BIT then pb_read E False 4
      else ierror ''invalid wire_type'')"

section \<open>Substreams\<close>

definition pb_make_string_substream :: "env \<Rightarrow> (ist, pb_istream) prog" where
  "pb_make_string_substream E =
     bnd (pb_decode_varint32 E) (\<lambda>len (s, m).
       if bytes_left s < ucast len then ierror ''parent stream too short'' (s, m)
       else (Ret (s\<lparr>bytes_left := ucast len\<rparr>), (s\<lparr>bytes_left := bytes_left s - ucast len\<rparr>, m)))"

text \<open>\<open>on_sub f sub\<close>: call \<open>f\<close> with a stream of its own; its outcome and that stream are the result.\<close>

definition on_sub :: "(ist, 'a) prog \<Rightarrow> pb_istream \<Rightarrow> (ist, 'a res \<times> pb_istream) prog" where
  "on_sub f sub = (\<lambda>(s, m). case f (sub, m) of (r, (sub', m')) \<Rightarrow> (Ret (r, sub'), (s, m')))"

definition lift_res :: "'a res \<Rightarrow> ('s, 'a) prog" where
  "lift_res r = (\<lambda>w. (r, w))"

definition pb_close_string_substream :: "env \<Rightarrow> pb_istream \<Rightarrow> (ist, unit) prog" where
  "pb_close_string_substream E sub =
     bnd (if bytes_left sub \<noteq> 0
          then bnd (on_sub (pb_read E True (bytes_left sub)) sub)
                   (\<lambda>(r, sub'). seq (lift_res r) (ret sub'))
          else ret sub)
       (\<lambda>sub' (s, m). (Ret (), (s\<lparr>i_state := i_state sub', i_errmsg := i_errmsg sub'\<rparr>, m)))"

text \<open>
  \<open>with_substream\<close>: open a substream, run \<open>f\<close> on it, close it, and return what \<open>f\<close> returned.
\<close>

definition finish_substream :: "env \<Rightarrow> 'a res \<Rightarrow> pb_istream \<Rightarrow> (ist, 'a) prog" where
  "finish_substream E r sub =
     (case r of Stuck \<Rightarrow> stuck | _ \<Rightarrow> seq (pb_close_string_substream E sub) (lift_res r))"

definition with_substream :: "env \<Rightarrow> (ist, 'a) prog \<Rightarrow> (ist, 'a) prog" where
  "with_substream E f =
     bnd (pb_make_string_substream E) (\<lambda>sub.
       bnd (on_sub f sub) (\<lambda>(r, sub'). finish_substream E r sub'))"

section \<open>Reading from a buffer\<close>

text \<open>
  \<open>starts bs w\<close>: the unread bytes of the buffer stream begin with \<open>bs\<close>. \<open>parses p bs x\<close>: \<open>p\<close> reads
  exactly \<open>bs\<close> from such a stream, whatever follows, and returns \<open>x\<close>. Parsers of consecutive
  strings compose.
\<close>

definition starts :: "byte list \<Rightarrow> ist \<Rightarrow> bool" where
  "starts bs w \<longleftrightarrow> i_callback (fst w) = I_buf_read \<and> length bs \<le> unat (bytes_left (fst w)) \<and>
     load (snd w) (i_state (fst w)) (length bs) = bs"

definition adv :: "nat \<Rightarrow> pb_istream \<Rightarrow> pb_istream" where
  "adv n s = s\<lparr>i_state := i_state s + n, bytes_left := bytes_left s - of_nat n\<rparr>"

definition parses :: "(ist, 'a) prog \<Rightarrow> byte list \<Rightarrow> 'a \<Rightarrow> bool" where
  "parses p bs x \<longleftrightarrow> (\<forall>s m. starts bs (s, m) \<longrightarrow> p (s, m) = (Ret x, (adv (length bs) s, m)))"

lemma parsesI: "(\<And>s m. starts bs (s, m) \<Longrightarrow> p (s, m) = (Ret x, (adv (length bs) s, m))) \<Longrightarrow> parses p bs x"
  by (simp add: parses_def)

lemma parsesD: "parses p bs x \<Longrightarrow> starts bs (s, m) \<Longrightarrow> p (s, m) = (Ret x, (adv (length bs) s, m))"
  by (simp add: parses_def)

lemma adv_0 [simp]: "adv 0 s = s"
  by (simp add: adv_def)

lemma adv_adv [simp]: "adv k (adv n s) = adv (n + k) s"
  by (simp add: adv_def)

lemma adv_sel [simp]:
  "i_callback (adv n s) = i_callback s" "i_state (adv n s) = i_state s + n"
  "i_errmsg (adv n s) = i_errmsg s" "bytes_left (adv n s) = bytes_left s - of_nat n"
  by (simp_all add: adv_def)

lemma unat_minus_of_nat:
  assumes "n \<le> unat (a :: 'a::len word)"
  shows "unat (a - of_nat n) = unat a - n"
proof -
  have lt: "n < 2 ^ LENGTH('a)"
    using assms unsigned_less [of a] by (rule order_le_less_trans)
  have "of_nat n \<le> a"
    using assms lt by (simp add: word_le_nat_alt unat_of_nat take_bit_nat_eq_self)
  then show ?thesis
    using lt by (simp add: unat_sub unat_of_nat take_bit_nat_eq_self)
qed

lemma starts_Nil: "i_callback s = I_buf_read \<Longrightarrow> starts [] (s, m)"
  by (simp add: starts_def)

lemma starts_append:
  "starts (bs @ cs) (s, m) \<longleftrightarrow> starts bs (s, m) \<and> starts cs (adv (length bs) s, m)"
  by (auto simp: starts_def load_append unat_minus_of_nat)

lemma starts_appendD:
  "starts (bs @ cs) (s, m) \<Longrightarrow> starts bs (s, m)"
  "starts (bs @ cs) (s, m) \<Longrightarrow> starts cs (adv (length bs) s, m)"
  by (simp_all add: starts_append)

lemma parses_ret: "parses (ret x) [] x"
  by (simp add: parses_def)

lemma parses_bnd:
  assumes "parses p bs x" and "parses (q x) cs y"
  shows "parses (bnd p q) (bs @ cs) y"
  by (rule parsesI) (simp add: starts_append parsesD [OF assms(1)] parsesD [OF assms(2)])

lemma parses_bnd_ret:
  assumes "parses p bs x" and "q x = ret y"
  shows "parses (bnd p q) bs y"
  using parses_bnd [OF assms(1), of q "[]" y] assms(2) by (simp add: parses_ret)

lemma pb_read_buf_starts:
  assumes "starts bs (s, m)" and "unat count = length bs"
  shows "pb_read_buf E count (s, m) = (Ret bs, (adv (length bs) s, m))"
proof -
  have "\<not> bytes_left s < count"
    using assms by (simp add: starts_def word_less_nat_alt)
  moreover have "count = of_nat (length bs)"
    unfolding assms(2) [symmetric] by simp
  ultimately show ?thesis
    using assms by (simp add: pb_read_buf_def call_read_def buf_read_def starts_def adv_def)
qed

lemma parses_pb_read: "unat count = length bs \<Longrightarrow> parses (pb_read E b count) bs bs"
  by (rule parsesI) (simp add: pb_read_def pb_read_buf_starts starts_def)

lemma parses_pb_readbyte: "parses (pb_readbyte E) [b] b"
proof (rule parsesI)
  fix s m
  assume "starts [b] (s, m)"
  then have "bytes_left s \<noteq> 0" and "m (i_state s) = b" and "i_callback s = I_buf_read"
    by (auto simp: starts_def)
  then show "pb_readbyte E (s, m) = (Ret b, (adv (length [b]) s, m))"
    by (simp add: pb_readbyte_def call_read_def buf_read_def adv_def)
qed

end
