(* ===== verification/Pb_Codec.thy ===== *)
theory Pb_Codec
  imports Pb_Ostream Pb_Istream
begin

text \<open>
  Round trips of the single-value encoders and decoders: what the decoders of \<open>pb_decode.c\<close> make of
  the bytes the encoders of \<open>pb_encode.c\<close> produce.
\<close>

unbundle bit_operations_syntax

section \<open>Varints\<close>

lemma byte_high_set: "((b AND 0x7F) OR 0x80) AND 0x80 \<noteq> (0 :: byte)"
proof -
  have "bit (((b AND 0x7F) OR 0x80) AND 0x80 :: byte) 7"
    by (simp add: bit_simps)
  then show ?thesis by force
qed

lemma byte_low7: "((ucast (v AND 0x7F) OR 0x80) :: byte) AND 0x7F = ucast ((v :: u64) AND 0x7F)"
  by (rule bit_word_eqI, drule byte_bit_cases, elim disjE) (simp_all add: bit_simps)

lemma byte_high: "((ucast ((v :: u64) AND 0x7F) OR 0x80) :: byte) AND 0x80 \<noteq> 0"
proof -
  have "bit (((ucast (v AND 0x7F) OR 0x80) :: byte) AND 0x80) 7"
    by (simp add: bit_simps)
  then show ?thesis by force
qed

lemma small_bit: "v \<le> 0x7F \<Longrightarrow> bit (v :: u64) n \<Longrightarrow> n < 7"
proof (rule ccontr)
  assume "v \<le> 0x7F" and "bit v n" and "\<not> n < 7"
  then have "bit (drop_bit 7 v) (n - 7)"
    by (simp only: bit_drop_bit_eq) simp
  then show False
    using \<open>v \<le> 0x7F\<close> by (simp add: le_7F_iff)
qed

lemma small_byte_high: "v \<le> 0x7F \<Longrightarrow> (ucast (v :: u64) :: byte) AND 0x80 = 0"
  by (rule bit_word_eqI, drule byte_bit_cases, elim disjE) (auto simp: bit_simps dest: small_bit)

lemma ucast_ucast_small:
  "v \<le> 0x7F \<Longrightarrow> ucast (ucast (v :: u64) :: byte) = (ucast v :: 'a::len word)"
  by (rule bit_word_eqI) (auto simp: bit_simps dest: small_bit)

lemma bit_7F: "bit (0x7F :: int) n \<longleftrightarrow> n < 7"
proof -
  have "(0x7F :: int) = mask 7"
    by (simp add: mask_eq_exp_minus_1)
  then show ?thesis
    by (simp only: bit_mask_iff) auto
qed

lemma varint_step_bits:
  "push_bit k (ucast (ucast (v AND 0x7F) :: byte)) OR push_bit (k + 7) (ucast (drop_bit 7 v)) =
     (push_bit k (ucast (v :: u64)) :: 'a::len word)"
proof (rule bit_word_eqI)
  fix n assume n: "n < LENGTH('a)"
  show "bit (push_bit k (ucast (ucast (v AND 0x7F) :: byte)) OR
          push_bit (k + 7) (ucast (drop_bit 7 v)) :: 'a word) n \<longleftrightarrow>
        bit (push_bit k (ucast v) :: 'a word) n"
  proof (cases "k \<le> n \<and> n - k < 7")
    case True
    then show ?thesis using n by (auto simp: bit_simps bit_7F)
  next
    case False
    then have "k \<le> n \<Longrightarrow> 7 + (n - (k + 7)) = n - k" by simp
    then show ?thesis
      using n False by (auto simp: bit_simps bit_7F)
  qed
qed

lemma varint64_loop_parses:
  "unat v < 2 ^ (64 - k) \<Longrightarrow> k < 64 \<Longrightarrow>
     parses (varint64_loop E k r) (varint v) (r OR push_bit k v)"
proof (induction v arbitrary: k r rule: varint.induct)
  case (1 v)
  show ?case
  proof (cases "v \<le> 0x7F")
    case True
    let ?b = "ucast v :: byte"
    have "ucast (?b AND 0x7F) = v"
      using True by (simp add: small_byte_and7F ucast_ucast_small)
    then have "parses (bnd (pb_readbyte E) (\<lambda>b.
        let result' = r OR push_bit k (ucast (b AND 0x7F)) in
        if b AND 0x80 \<noteq> 0 then varint64_loop E (k + 7) result' else ret result')) [?b]
        (r OR push_bit k v)"
      using True by (intro parses_bnd_ret [OF parses_pb_readbyte]) (simp add: small_byte_high)
    then show ?thesis
      using True "1.prems" by (subst varint64_loop.simps) (simp add: varint_small)
  next
    case False
    let ?b = "ucast (v AND 0x7F) OR 0x80 :: byte"
    have "128 \<le> unat v"
      using False by (simp add: word_le_nat_alt)
    with "1.prems"(1) have "2 ^ 7 < (2::nat) ^ (64 - k)" by simp
    then have "7 < 64 - k"
      by (rule power_less_imp_less_exp [rotated]) simp
    then have k: "k + 7 < 64" by simp
    have "2 ^ (64 - k) = 2 ^ (64 - (k + 7)) * (128::nat)"
      using k power_add [of "2::nat" "64 - (k + 7)" 7] by simp
    then have lt: "unat (drop_bit 7 v) < 2 ^ (64 - (k + 7))"
      unfolding unat_drop_bit_div using "1.prems"(1) by (intro less_mult_imp_div_less) simp
    let ?r = "r OR push_bit k (ucast (?b AND 0x7F))"
    have "?r OR push_bit (k + 7) (drop_bit 7 v) = r OR push_bit k v"
      using varint_step_bits [of k v, where ?'a = 64] by (simp add: byte_low7 or.assoc)
    then have "parses (varint64_loop E (k + 7) ?r) (varint (drop_bit 7 v)) (r OR push_bit k v)"
      using "1.IH" [OF False lt k, of ?r] by simp
    then have "parses (bnd (pb_readbyte E) (\<lambda>b.
        let result' = r OR push_bit k (ucast (b AND 0x7F)) in
        if b AND 0x80 \<noteq> 0 then varint64_loop E (k + 7) result' else ret result'))
        ([?b] @ varint (drop_bit 7 v)) (r OR push_bit k v)"
      by (intro parses_bnd [OF parses_pb_readbyte]) (simp add: byte_high Let_def)
    then show ?thesis
      using False "1.prems" by (subst varint64_loop.simps) (simp add: varint_big)
  qed
qed

lemma pb_decode_varint_parses: "parses (pb_decode_varint E) (varint v) v"
  using varint64_loop_parses [of v 0 E 0] unat_u64_less [of v]
  by (simp add: pb_decode_varint_def)

lemma varint32_loop_parses:
  "unat v < 2 ^ (32 - k) \<Longrightarrow> k < 32 \<Longrightarrow>
     parses (varint32_loop E k r) (varint v) (r OR push_bit k (ucast v))"
proof (induction v arbitrary: k r rule: varint.induct)
  case (1 v)
  show ?case
  proof (cases "v \<le> 0x7F")
    case True
    let ?b = "ucast v :: byte"
    have "ucast (?b AND 0x7F) = (ucast v :: u32)"
      using True by (simp add: small_byte_and7F ucast_ucast_small)
    then have "parses (bnd (pb_readbyte E) (\<lambda>b.
        let result' = r OR push_bit k (ucast (b AND 0x7F)) in
        if b AND 0x80 \<noteq> 0 then varint32_loop E (k + 7) result' else ret result')) [?b]
        (r OR push_bit k (ucast v))"
      using True by (intro parses_bnd_ret [OF parses_pb_readbyte]) (simp add: small_byte_high)
    then show ?thesis
      using True "1.prems" by (subst varint32_loop.simps) (simp add: varint_small)
  next
    case False
    let ?b = "ucast (v AND 0x7F) OR 0x80 :: byte"
    have "128 \<le> unat v"
      using False by (simp add: word_le_nat_alt)
    with "1.prems"(1) have "2 ^ 7 < (2::nat) ^ (32 - k)" by simp
    then have "7 < 32 - k"
      by (rule power_less_imp_less_exp [rotated]) simp
    then have k: "k + 7 < 32" by simp
    have "2 ^ (32 - k) = 2 ^ (32 - (k + 7)) * (128::nat)"
      using k power_add [of "2::nat" "32 - (k + 7)" 7] by simp
    then have lt: "unat (drop_bit 7 v) < 2 ^ (32 - (k + 7))"
      unfolding unat_drop_bit_div using "1.prems"(1) by (intro less_mult_imp_div_less) simp
    let ?r = "r OR push_bit k (ucast (?b AND 0x7F))"
    have "?r OR push_bit (k + 7) (ucast (drop_bit 7 v)) = r OR push_bit k (ucast v)"
      using varint_step_bits [of k v, where ?'a = 32] by (simp add: byte_low7 or.assoc)
    then have "parses (varint32_loop E (k + 7) ?r) (varint (drop_bit 7 v)) (r OR push_bit k (ucast v))"
      using "1.IH" [OF False lt k, of ?r] by simp
    then have "parses (bnd (pb_readbyte E) (\<lambda>b.
        let result' = r OR push_bit k (ucast (b AND 0x7F)) in
        if b AND 0x80 \<noteq> 0 then varint32_loop E (k + 7) result' else ret result'))
        ([?b] @ varint (drop_bit 7 v)) (r OR push_bit k (ucast v))"
      by (intro parses_bnd [OF parses_pb_readbyte]) (simp add: byte_high Let_def)
    then show ?thesis
      using False "1.prems" by (subst varint32_loop.simps) (simp add: varint_big)
  qed
qed

lemma pb_decode_varint32_parses:
  assumes "unat v < 2 ^ 32"
  shows "parses (pb_decode_varint32 E) (varint v) (ucast v)"
proof (cases "v \<le> 0x7F")
  case True
  then show ?thesis
    unfolding pb_decode_varint32_def varint_small [OF True]
    by (intro parses_bnd_ret [OF parses_pb_readbyte]) (simp add: small_byte_high ucast_ucast_small)
next
  case False
  let ?b = "ucast (v AND 0x7F) OR 0x80 :: byte"
  have lt: "unat (drop_bit 7 v) < 2 ^ (32 - 7)"
    unfolding unat_drop_bit_div using assms by (intro less_mult_imp_div_less) simp
  have "ucast (?b AND 0x7F) OR push_bit 7 (ucast (drop_bit 7 v)) = (ucast v :: u32)"
    using varint_step_bits [of 0 v, where ?'a = 32] by (simp add: byte_low7)
  then have "parses (varint32_loop E 7 (ucast (?b AND 0x7F))) (varint (drop_bit 7 v)) (ucast v)"
    using varint32_loop_parses [OF lt, of E "ucast (?b AND 0x7F)"] by simp
  then have "parses (pb_decode_varint32 E) ([?b] @ varint (drop_bit 7 v)) (ucast v)"
    unfolding pb_decode_varint32_def
    by (intro parses_bnd [OF parses_pb_readbyte]) (simp add: byte_high)
  then show ?thesis
    by (simp add: varint_big [OF False])
qed

lemma pb_decode_varint32_parses_u32: "parses (pb_decode_varint32 E) (varint (ucast w)) w"
proof -
  have "unat (ucast w :: u64) < 2 ^ 32"
    using unat_u32_less [of w] by simp
  then show ?thesis
    using pb_decode_varint32_parses [of "ucast w" E] by simp
qed

section \<open>Zigzag\<close>

lemma bit_63: "bit (v :: u64) 63 \<longleftrightarrow> sint v < 0"
  using bit_last_iff [of v] by simp

lemma unzigzag_zigzag: "unzigzag (zigzag v) = v"
proof (cases "sint v < 0")
  case True
  have "zigzag v AND 1 \<noteq> 0"
  proof -
    have "\<not> bit (push_bit 1 v) 0"
      by (simp only: bit_push_bit_iff) simp
    then have "bit (zigzag v AND 1) 0"
      using True by (simp only: zigzag_def bit_and_iff bit_not_iff if_True) simp
    then show ?thesis by force
  qed
  then have "unzigzag (zigzag v) = NOT (drop_bit 1 (NOT (push_bit 1 v)))"
    using True by (simp add: unzigzag_def zigzag_def)
  also have "\<dots> = v"
  proof (rule bit_word_eqI)
    fix n assume "n < LENGTH(64)"
    then show "bit (NOT (drop_bit 1 (NOT (push_bit 1 v)))) n \<longleftrightarrow> bit v n"
      using True bit_63 [of v] by (cases "n = 63") (auto simp: bit_simps bit_times_2)
  qed
  finally show ?thesis .
next
  case False
  have "zigzag v AND 1 = 0"
    using False by (intro bit_word_eqI) (auto simp: zigzag_def bit_simps bit_times_2)
  then have "unzigzag (zigzag v) = drop_bit 1 (push_bit 1 v)"
    using False by (simp add: unzigzag_def zigzag_def)
  also have "\<dots> = v"
  proof (rule bit_word_eqI)
    fix n assume "n < LENGTH(64)"
    then show "bit (drop_bit 1 (push_bit 1 v)) n \<longleftrightarrow> bit v n"
      using False bit_63 [of v] by (cases "n = 63") (auto simp: bit_simps bit_times_2)
  qed
  finally show ?thesis .
qed

lemma pb_decode_svarint_parses: "parses (pb_decode_svarint E) (varint (zigzag v)) v"
  unfolding pb_decode_svarint_def
  by (intro parses_bnd_ret [OF pb_decode_varint_parses]) (simp add: unzigzag_zigzag)

section \<open>Fixed-width integers\<close>

lemma ucast_and_FF: "(ucast (x AND 0xFF) :: byte) = ucast (x :: 'a::len word)"
  by (rule bit_word_eqI, drule byte_bit_cases, elim disjE)
    (auto simp: bit_simps dest: bit_imp_le_length)

lemma fixed32_bytes_le: "fixed32_bytes v = le_bytes 4 v"
  by (simp add: fixed32_bytes_def le_bytes_def ucast_and_FF upt_rec numeral_eq_Suc)

lemma fixed64_bytes_le: "fixed64_bytes v = le_bytes 8 v"
  by (simp add: fixed64_bytes_def le_bytes_def ucast_and_FF upt_rec numeral_eq_Suc)

lemma fixed32_value_le: "length bs = 4 \<Longrightarrow> fixed32_value bs = le_word bs"
  by (auto simp: fixed32_value_def numeral_eq_Suc length_Suc_conv push_bit_or)

lemma fixed64_value_le: "length bs = 8 \<Longrightarrow> fixed64_value bs = le_word bs"
  by (auto simp: fixed64_value_def numeral_eq_Suc length_Suc_conv push_bit_or)

lemma pb_decode_fixed32_parses: "parses (pb_decode_fixed32 E) (fixed32_bytes v) v"
  unfolding pb_decode_fixed32_def fixed32_bytes_le
  by (intro parses_bnd_ret [OF parses_pb_read]) (simp_all add: fixed32_value_le le_word_le_bytes)

lemma pb_decode_fixed64_parses: "parses (pb_decode_fixed64 E) (fixed64_bytes v) v"
  unfolding pb_decode_fixed64_def fixed64_bytes_le
  by (intro parses_bnd_ret [OF parses_pb_read]) (simp_all add: fixed64_value_le le_word_le_bytes)

section \<open>Tags\<close>

text \<open>The number \<open>pb_encode_tag\<close> writes: the field number above three bits of wire type.\<close>

definition tag_word :: "u32 \<Rightarrow> u32 \<Rightarrow> u64" where
  "tag_word wiretype field_number = push_bit 3 (ucast field_number) OR ucast wiretype"

lemma pb_encode_tag_eq:
  "pb_encode_tag E wt t = pb_write E (varint (tag_word wt t)) (of_nat (length (varint (tag_word wt t))))"
  by (simp only: pb_encode_tag_def tag_word_def Let_def pb_encode_varint_eq)

lemma bit_7_u32: "bit (7 :: int) n \<longleftrightarrow> n < 3"
proof -
  have "(7 :: int) = mask 3"
    by (simp add: mask_eq_exp_minus_1)
  then show ?thesis
    by (simp only: bit_mask_iff) auto
qed

text \<open>
  A field number of less than 29 bits fits in the 32-bit number the decoder reads. (Protocol
  buffers allow no larger one.)
\<close>

lemma tag_word_fields:
  assumes "unat t < 2 ^ 29" and "wt < 8"
  shows tag_word_less: "unat (tag_word wt t) < 2 ^ 32"
    and tag_word_wiretype: "(ucast (tag_word wt t) :: u32) AND 7 = wt"
    and tag_word_tag: "drop_bit 3 (ucast (tag_word wt t) :: u32) = t"
proof -
  have wt: "bit wt n \<Longrightarrow> n < 3" for n
  proof (rule ccontr)
    assume "bit wt n" and "\<not> n < 3"
    then have "bit (drop_bit 3 wt) (n - 3)"
      by (simp only: bit_drop_bit_eq) simp
    moreover have "unat (drop_bit 3 wt) = 0"
      using assms(2) unfolding unat_drop_bit_div by (simp add: word_less_nat_alt)
    ultimately show False
      by (simp only: unat_eq_0) simp
  qed
  have t: "bit t n \<Longrightarrow> n < 29" for n
  proof (rule ccontr)
    assume "bit t n" and "\<not> n < 29"
    then have "bit (drop_bit 29 t) (n - 29)"
      by (simp only: bit_drop_bit_eq) simp
    moreover have "unat (drop_bit 29 t) = 0"
      using assms(1) unfolding unat_drop_bit_div by simp
    ultimately show False
      by (simp only: unat_eq_0) simp
  qed
  have bits: "bit (tag_word wt t) n \<longleftrightarrow> (if n < 3 then bit wt n else bit t (n - 3))" for n
    using wt t[of "n - 3"] by (auto simp: tag_word_def bit_simps dest: bit_imp_le_length)
  have "bit (tag_word wt t) n \<Longrightarrow> n < 32" for n
    using bits [of n] t [of "n - 3"] by (auto split: if_splits)
  then have "tag_word wt t = take_bit 32 (tag_word wt t)"
    by (intro bit_word_eqI) (auto simp: bit_take_bit_iff)
  then have "unat (tag_word wt t) = take_bit 32 (unat (tag_word wt t))"
    by (metis unsigned_take_bit_eq)
  then show "unat (tag_word wt t) < 2 ^ 32"
    by (metis take_bit_nat_less_exp)
  show "(ucast (tag_word wt t) :: u32) AND 7 = wt"
    by (rule bit_word_eqI) (use bits wt in \<open>auto simp: bit_simps bit_7_u32\<close>)
  show "drop_bit 3 (ucast (tag_word wt t) :: u32) = t"
    by (rule bit_word_eqI) (use bits t in \<open>auto simp: bit_simps add.commute\<close>)
qed

lemma attempt_parses: "parses p bs x \<Longrightarrow> parses (attempt p) bs (Some x)"
  by (rule parsesI) (simp add: attempt_def parsesD)

definition found_tag :: "u32 \<Rightarrow> u32 \<Rightarrow> tag_result" where
  "found_tag wt t = \<lparr>t_ok = True, t_wire_type = wt, t_tag = t, t_eof = False\<rparr>"

lemma pb_decode_tag_parses:
  assumes t: "unat t < 2 ^ 29" and wt: "wt < 8" and nz: "t \<noteq> 0"
  shows "parses (pb_decode_tag E) (varint (tag_word wt t)) (found_tag wt t)"
proof -
  let ?w = "ucast (tag_word wt t) :: u32"
  have nz': "?w \<noteq> 0"
  proof
    assume "?w = 0"
    then have "drop_bit 3 ?w = 0" by simp
    then show False
      using tag_word_tag [OF t wt] nz by metis
  qed
  have "parses (attempt (pb_decode_varint32 E)) (varint (tag_word wt t)) (Some ?w)"
    by (intro attempt_parses pb_decode_varint32_parses tag_word_less t wt)
  then show ?thesis
    unfolding pb_decode_tag_def found_tag_def
    by (rule parses_bnd_ret)
      (simp add: fun_eq_iff nz' tag_word_wiretype [OF t wt] tag_word_tag [OF t wt])
qed

end
