(* ===== verification/Pb_Writes.thy ===== *)
theory Pb_Writes
  imports Pb_Codec
begin

text \<open>
  What it means that a program of the output side writes a byte string, for the two kinds of
  stream the library makes itself: the one that counts (\<open>PB_OSTREAM_SIZING\<close>) and the one that
  fills a buffer. \<open>writes A m0 p bs\<close> says that \<open>p\<close>, which reads its data from the addresses \<open>A\<close> of
  a memory that is there like \<open>m0\<close>, puts exactly \<open>bs\<close> when they fit, and otherwise stops with the
  message \<open>stream full\<close> having written nowhere but into the free part of the buffer. Writers
  compose: the string of a sequence is the concatenation.
\<close>

section \<open>Streams that the library makes\<close>

definition o_free :: "pb_ostream \<Rightarrow> nat" where
  "o_free s = unat (max_size s) - unat (bytes_written s)"

definition o_ready :: "addr set \<Rightarrow> pb_ostream \<Rightarrow> bool" where
  "o_ready A s \<longleftrightarrow> o_errmsg s = None \<and>
     (o_callback s = O_NULL \<or>
      o_callback s = O_buf_write \<and> bytes_written s \<le> max_size s \<and> unat (max_size s) < 2 ^ 63 \<and>
      region (o_state s) (o_free s) \<inter> A = {})"

definition o_fits :: "pb_ostream \<Rightarrow> nat \<Rightarrow> bool" where
  "o_fits s n \<longleftrightarrow> o_callback s = O_NULL \<or> n \<le> o_free s"

definition o_adv :: "nat \<Rightarrow> pb_ostream \<Rightarrow> pb_ostream" where
  "o_adv n s = s\<lparr>o_state := (if o_callback s = O_NULL then o_state s else o_state s + n),
                 bytes_written := bytes_written s + of_nat n\<rparr>"

definition put :: "byte list \<Rightarrow> ost \<Rightarrow> ost" where
  "put bs = (\<lambda>(s, m).
     (o_adv (length bs) s, if o_callback s = O_NULL then m else store m (o_state s) bs))"

definition same_on :: "addr set \<Rightarrow> mem \<Rightarrow> mem \<Rightarrow> bool" where
  "same_on A m m' \<longleftrightarrow> (\<forall>x \<in> A. m' x = m x)"

text \<open>The stream is full: some bytes may have been written, but only into the free part.\<close>

definition full :: "ost \<Rightarrow> unit res \<times> ost \<Rightarrow> bool" where
  "full w r \<longleftrightarrow> fst r = Fail \<and> o_errmsg (fst (snd r)) = Some ''stream full'' \<and>
     o_callback (fst (snd r)) = O_buf_write \<and>
     same_except (region (o_state (fst w)) (o_free (fst w))) (snd w) (snd (snd r))"

definition writes :: "addr set \<Rightarrow> mem \<Rightarrow> (ost, unit) prog \<Rightarrow> byte list \<Rightarrow> bool" where
  "writes A m0 p bs \<longleftrightarrow> (length bs < 2 ^ 63 \<longrightarrow>
     (\<forall>s m. o_ready A s \<longrightarrow> same_on A m0 m \<longrightarrow>
        (if o_fits s (length bs) then p (s, m) = (Ret (), put bs (s, m))
         else full (s, m) (p (s, m)))))"

lemma writesI:
  assumes "\<And>s m. length bs < 2 ^ 63 \<Longrightarrow> o_ready A s \<Longrightarrow> same_on A m0 m \<Longrightarrow>
      o_fits s (length bs) \<Longrightarrow> p (s, m) = (Ret (), put bs (s, m))"
    and "\<And>s m. length bs < 2 ^ 63 \<Longrightarrow> o_ready A s \<Longrightarrow> same_on A m0 m \<Longrightarrow>
      \<not> o_fits s (length bs) \<Longrightarrow> full (s, m) (p (s, m))"
  shows "writes A m0 p bs"
  using assms by (simp add: writes_def)

lemma writesD:
  assumes "writes A m0 p bs" and "length bs < 2 ^ 63" and "o_ready A s" and "same_on A m0 m"
  shows writes_fits: "o_fits s (length bs) \<Longrightarrow> p (s, m) = (Ret (), put bs (s, m))"
    and writes_full: "\<not> o_fits s (length bs) \<Longrightarrow> full (s, m) (p (s, m))"
  using assms by (simp_all add: writes_def)

lemma o_adv_sel [simp]:
  "o_callback (o_adv n s) = o_callback s" "max_size (o_adv n s) = max_size s"
  "o_errmsg (o_adv n s) = o_errmsg s" "bytes_written (o_adv n s) = bytes_written s + of_nat n"
  "o_state (o_adv n s) = (if o_callback s = O_NULL then o_state s else o_state s + n)"
  by (simp_all add: o_adv_def)

lemma put_Nil [simp]: "put [] w = w"
  by (cases w) (simp add: put_def o_adv_def)

lemma put_append: "put (bs @ cs) w = put cs (put bs w)"
  by (cases w) (simp add: put_def o_adv_def store_append)

lemma put_NULL: "o_callback s = O_NULL \<Longrightarrow> put bs (s, m) = (o_adv (length bs) s, m)"
  by (simp add: put_def)

lemma unat_written_add:
  assumes "n \<le> unat (b :: u64) - unat a" and "a \<le> b"
  shows "unat (a + of_nat n) = unat a + n"
proof -
  have "unat a + n < 2 ^ 64"
    using assms unat_u64_less [of b] by (simp add: word_le_nat_alt)
  moreover from this have "unat (of_nat n :: u64) = n"
    by (simp add: unat_of_nat take_bit_nat_eq_self)
  ultimately show ?thesis
    by (simp add: unat_word_ariths)
qed

lemma o_free_adv:
  assumes "o_ready A s" and "o_callback s = O_buf_write" and "o_fits s n"
  shows "o_free (o_adv n s) = o_free s - n"
    and "bytes_written (o_adv n s) \<le> max_size s"
    and "unat (bytes_written s + of_nat n) = unat (bytes_written s) + n"
proof -
  have "unat (bytes_written s + of_nat n) = unat (bytes_written s) + n"
    by (rule unat_written_add [where b = "max_size s"])
      (use assms in \<open>auto simp: o_ready_def o_fits_def o_free_def\<close>)
  then show "o_free (o_adv n s) = o_free s - n" and "bytes_written (o_adv n s) \<le> max_size s"
    and "unat (bytes_written s + of_nat n) = unat (bytes_written s) + n"
    using assms by (auto simp: o_ready_def o_fits_def o_free_def word_le_nat_alt)
qed

lemma o_ready_adv:
  assumes "o_ready A s" and "o_fits s n"
  shows "o_ready A (o_adv n s)"
proof (cases "o_callback s = O_NULL")
  case True
  with assms show ?thesis by (simp add: o_ready_def)
next
  case False
  then have buf: "o_callback s = O_buf_write"
    using assms by (simp add: o_ready_def)
  have "region (o_state s + n) (o_free s - n) \<subseteq> region (o_state s) (o_free s)"
    by (auto simp: region_def)
  with assms buf o_free_adv [OF assms(1) buf assms(2)] show ?thesis
    by (auto simp: o_ready_def)
qed

lemma o_fits_adv:
  assumes "o_ready A s"
  shows "o_fits s (k + n) \<longleftrightarrow> o_fits s k \<and> o_fits (o_adv k s) n"
proof (cases "o_callback s = O_NULL")
  case True
  then show ?thesis by (simp add: o_fits_def)
next
  case False
  then have buf: "o_callback s = O_buf_write"
    using assms by (simp add: o_ready_def)
  show ?thesis
  proof (cases "o_fits s k")
    case True
    with o_free_adv(1) [OF assms buf True] buf show ?thesis
      by (auto simp: o_fits_def)
  next
    case False
    with buf show ?thesis by (auto simp: o_fits_def)
  qed
qed

lemma same_on_refl [simp]: "same_on A m m"
  by (simp add: same_on_def)

lemma same_on_trans: "same_on A m m' \<Longrightarrow> same_on A m' m'' \<Longrightarrow> same_on A m m''"
  by (simp add: same_on_def)

lemma same_on_mono: "same_on B m m' \<Longrightarrow> A \<subseteq> B \<Longrightarrow> same_on A m m'"
  by (auto simp: same_on_def)

lemma same_on_load: "same_on A m m' \<Longrightarrow> region a n \<subseteq> A \<Longrightarrow> load m' a n = load m a n"
  by (rule load_cong) (auto simp: same_on_def subset_iff)

lemma same_on_load_word:
  "same_on A m m' \<Longrightarrow> region a n \<subseteq> A \<Longrightarrow> load_word m' a n = load_word m a n"
  by (simp only: load_word_def same_on_load)

lemma put_same_on:
  assumes "o_ready A s" and "o_fits s (length bs)"
  shows "same_on A m (snd (put bs (s, m)))"
proof (cases "o_callback s = O_NULL")
  case True
  then show ?thesis by (simp add: put_def)
next
  case False
  then have "x < o_state s \<or> o_state s + length bs \<le> x" if "x \<in> A" for x
    using assms that by (fastforce simp: o_ready_def o_fits_def disjoint_iff not_less)
  then show ?thesis
    using False by (simp add: put_def same_on_def store_out)
qed

lemma put_same_except:
  assumes "o_fits s (length bs)"
  shows "same_except (region (o_state s) (o_free s)) m (snd (put bs (s, m)))"
  using assms
  by (auto simp: put_def o_fits_def same_except_def region_def store_def)

lemma writes_ret: "writes A m0 (ret ()) []"
  by (rule writesI) (simp_all add: o_fits_def)

text \<open>The form in which the simplifier leaves a \<open>ret\<close>.\<close>

lemma writes_Pair [simp]: "writes A m0 (Pair (Ret ())) []"
  by (simp add: writes_def o_fits_def)

lemma writes_seq:
  assumes p: "writes A m0 p bs" and q: "writes A m0 q cs"
  shows "writes A m0 (seq p q) (bs @ cs)"
proof (rule writesI)
  fix s m
  assume len: "length (bs @ cs) < 2 ^ 63" and rdy: "o_ready A s" and mem: "same_on A m0 m"
  note wp = writesD [OF p _ rdy mem]
  { assume fits: "o_fits s (length bs)"
    then have run: "p (s, m) = (Ret (), put bs (s, m))"
      using wp len by simp
    have rdy': "o_ready A (fst (put bs (s, m)))"
      using o_ready_adv [OF rdy fits] by (simp add: put_def)
    have mem': "same_on A m0 (snd (put bs (s, m)))"
      using same_on_trans [OF mem put_same_on [OF rdy fits]] .
    note run rdy' mem' writesD [OF q _ rdy' mem'] }
  note first = this
  show "seq p q (s, m) = (Ret (), put (bs @ cs) (s, m))" if "o_fits s (length (bs @ cs))"
  proof -
    from that have f: "o_fits s (length bs)" "o_fits (o_adv (length bs) s) (length cs)"
      using o_fits_adv [OF rdy, of "length bs" "length cs"] by simp_all
    then have "q (put bs (s, m)) = (Ret (), put cs (put bs (s, m)))"
      using first(4) [OF f(1)] len by (simp add: put_def)
    then show ?thesis
      using first(1) [OF f(1)] by (simp add: put_append)
  qed
  show "full (s, m) (seq p q (s, m))" if nfit: "\<not> o_fits s (length (bs @ cs))"
  proof (cases "o_fits s (length bs)")
    case False
    then have "full (s, m) (p (s, m))"
      using wp len by simp
    then show ?thesis
      by (cases "p (s, m)" rule: res_cases_prod) (auto simp: full_def)
  next
    case True
    have buf: "o_callback s = O_buf_write"
      using nfit rdy by (simp add: o_fits_def o_ready_def)
    have "\<not> o_fits (o_adv (length bs) s) (length cs)"
      using o_fits_adv [OF rdy, of "length bs" "length cs"] nfit True by simp
    then have "full (put bs (s, m)) (q (put bs (s, m)))"
      using first(5) [OF True] len by (simp add: put_def)
    moreover have "region (o_state s + length bs) (o_free (o_adv (length bs) s))
        \<subseteq> region (o_state s) (o_free s)"
      using o_free_adv(1) [OF rdy buf True] True buf by (auto simp: region_def o_fits_def)
    ultimately show ?thesis
      using first(1) [OF True] put_same_except [OF True, of m] buf
      by (auto simp: full_def put_def intro: same_except_trans same_except_mono)
  qed
qed

lemma writes_seq_ret: "writes A m0 p bs \<Longrightarrow> writes A m0 (seq p (ret ())) bs"
  using writes_seq [OF _ writes_ret, of A m0 p bs] by simp

lemma writes_if:
  "(b \<Longrightarrow> writes A m0 p bs) \<Longrightarrow> (\<not> b \<Longrightarrow> writes A m0 q bs) \<Longrightarrow> writes A m0 (if b then p else q) bs"
  by simp

text \<open>A program that first looks at the memory it may read.\<close>

lemma writes_run:
  assumes "writes A m0 q bs" and "\<And>s m. same_on A m0 m \<Longrightarrow> length bs < 2 ^ 63 \<Longrightarrow> p (s, m) = q (s, m)"
  shows "writes A m0 p bs"
  using assms by (simp add: writes_def)

lemma writes_mono:
  "writes A m0 p bs \<Longrightarrow> A \<subseteq> B \<Longrightarrow> writes B m0 p bs"
  unfolding writes_def o_ready_def same_on_def by blast

section \<open>The primitive writers\<close>

lemma pb_write_writes:
  assumes "count = of_nat (length bs)"
  shows "writes A m0 (pb_write E bs count) bs"
proof (rule writesI)
  fix s m
  assume len: "length bs < 2 ^ 63" and rdy: "o_ready A s"
  have n: "unat count = length bs"
    using len assms by (simp add: unat_of_nat take_bit_nat_eq_self)
  have sum: "unat (bytes_written s + count) = unat (bytes_written s) + length bs"
    if "o_callback s = O_buf_write"
  proof -
    have "unat (bytes_written s) + unat count < 2 ^ 64"
      using that rdy len n by (auto simp: o_ready_def word_le_nat_alt)
    then show ?thesis
      using n by (simp add: unat_word_ariths)
  qed
  show "pb_write E bs count (s, m) = (Ret (), put bs (s, m))" if "o_fits s (length bs)"
  proof (cases "o_callback s = O_NULL")
    case True
    then show ?thesis
      using assms by (simp add: pb_write_def put_def o_adv_def)
  next
    case False
    then have buf: "o_callback s = O_buf_write"
      using rdy by (simp add: o_ready_def)
    have "\<not> max_size s < bytes_written s + count"
      unfolding word_less_nat_alt sum [OF buf]
      using that False rdy by (auto simp: o_fits_def o_ready_def o_free_def word_le_nat_alt)
    then show ?thesis
      using buf n assms
      by (simp add: pb_write_def call_write_def buf_write_def put_def o_adv_def)
  qed
  show "full (s, m) (pb_write E bs count (s, m))" if nfit: "\<not> o_fits s (length bs)"
  proof -
    have buf: "o_callback s = O_buf_write"
      using nfit rdy by (simp add: o_fits_def o_ready_def)
    have "max_size s < bytes_written s + count"
      unfolding word_less_nat_alt sum [OF buf]
      using nfit by (auto simp: o_fits_def o_free_def)
    then show ?thesis
      using buf rdy
      by (simp add: pb_write_def oerror_def oset_error_def full_def o_ready_def)
  qed
qed

lemma pb_encode_varint_writes: "writes A m0 (pb_encode_varint E v) (varint v)"
  unfolding pb_encode_varint_eq by (rule pb_write_writes) (rule refl)

lemma pb_encode_svarint_writes: "writes A m0 (pb_encode_svarint E v) (varint (zigzag v))"
  unfolding pb_encode_svarint_def by (rule pb_encode_varint_writes)

lemma pb_encode_fixed32_writes: "writes A m0 (pb_encode_fixed32 E v) (fixed32_bytes v)"
  unfolding pb_encode_fixed32_def by (rule pb_write_writes) (simp add: fixed32_bytes_def)

lemma pb_encode_fixed64_writes: "writes A m0 (pb_encode_fixed64 E v) (fixed64_bytes v)"
  unfolding pb_encode_fixed64_def by (rule pb_write_writes) (simp add: fixed64_bytes_def)

lemma pb_encode_tag_writes: "writes A m0 (pb_encode_tag E wt t) (varint (tag_word wt t))"
  unfolding pb_encode_tag_eq by (rule pb_write_writes) (rule refl)

text \<open>A length-delimited string.\<close>

definition delimited :: "byte list \<Rightarrow> byte list" where
  "delimited bs = varint (of_nat (length bs)) @ bs"

lemma pb_encode_string_writes:
  "sz = of_nat (length bs) \<Longrightarrow> writes A m0 (pb_encode_string E bs sz) (delimited bs)"
  unfolding pb_encode_string_def delimited_def
  by (intro writes_seq) (simp_all add: pb_encode_varint_writes pb_write_writes)

end
