(* ===== verification/Pb_Common.thy ===== *)
theory Pb_Common
  imports Pb_Types
begin

text \<open>
  \<open>nanopb/pb_common.c\<close>: the iterator that walks a descriptor table together with the addresses of
  the fields in the message structure. The lemmas show that, for a table laid out as the
  \<open>PB_FIELD\<close> macros of \<open>pb.h\<close> fill it in, the iterator visits every field at its address and
  counts the required fields passed, and that a search ends after at most one round trip.
\<close>

section \<open>The iterator\<close>

record pb_field_iter =
  it_start :: "pb_field list"
  it_pos :: nat
  it_req :: nat
  it_dest :: addr
  it_pData :: addr
  it_pSize :: addr

abbreviation cur :: "pb_field_iter \<Rightarrow> pb_field" where
  "cur it \<equiv> entry (it_start it) (it_pos it)"

text \<open>Adding a signed \<open>pb_ssize_t\<close> to a pointer.\<close>

definition ptr_add :: "addr \<Rightarrow> u32 \<Rightarrow> addr" where
  "ptr_add a d = nat (int a + sint d)"

definition pb_field_iter_begin :: "pb_field list \<Rightarrow> addr \<Rightarrow> bool \<times> pb_field_iter" where
  "pb_field_iter_begin fs dest =
     (let p = dest + unat (data_offset (entry fs 0));
          it = \<lparr>it_start = fs, it_pos = 0, it_req = 0, it_dest = dest, it_pData = p,
                it_pSize = ptr_add p (size_offset (entry fs 0))\<rparr>
      in (tag (entry fs 0) \<noteq> 0, it))"

text \<open>
  The size a field takes in the structure: an array for a static repeated field, a pointer for a
  pointer field.
\<close>

definition prev_size :: "pb_field \<Rightarrow> nat" where
  "prev_size f =
     (if PB_ATYPE (ftype f) = PB_ATYPE_STATIC \<and> PB_HTYPE (ftype f) = PB_HTYPE_REPEATED
      then unat (data_size f) * unat (array_size f)
      else if PB_ATYPE (ftype f) = PB_ATYPE_POINTER then 8
      else unat (data_size f))"

definition in_union :: "pb_field \<Rightarrow> pb_field \<Rightarrow> bool" where
  "in_union prev_field next_field \<longleftrightarrow>
     PB_HTYPE (ftype prev_field) = PB_HTYPE_ONEOF \<and>
     PB_HTYPE (ftype next_field) = PB_HTYPE_ONEOF \<and>
     data_offset next_field = PB_SIZE_MAX"

definition pb_field_iter_next :: "pb_field_iter \<Rightarrow> bool \<times> pb_field_iter" where
  "pb_field_iter_next it =
     (let prev_field = cur it in
      if tag prev_field = 0 then (False, it)
      else let it1 = it\<lparr>it_pos := Suc (it_pos it)\<rparr> in
        if tag (cur it1) = 0
        then (False, snd (pb_field_iter_begin (it_start it) (it_dest it)))
        else if in_union prev_field (cur it1) then (True, it1)
        else let it2 = (if PB_HTYPE (ftype prev_field) = PB_HTYPE_REQUIRED
                        then it1\<lparr>it_req := Suc (it_req it1)\<rparr> else it1);
                 p = it_pData it + prev_size prev_field + unat (data_offset (cur it1))
             in (True, it2\<lparr>it_pData := p, it_pSize := ptr_add p (size_offset (cur it1))\<rparr>))"

text \<open>
  \<open>find_loop n s p it\<close> is the \<open>do ... while (iter->pos != start)\<close> loop of
  \<open>pb_field_iter_find\<close> and of the decoder's \<open>find_extension_field\<close>, with \<open>p\<close> the test that
  stops it, run for at most \<open>n\<close> rounds.
\<close>

fun find_loop :: "nat \<Rightarrow> nat \<Rightarrow> (pb_field \<Rightarrow> bool) \<Rightarrow> pb_field_iter \<Rightarrow> bool \<times> pb_field_iter" where
  "find_loop 0 s p it = (False, it)"
| "find_loop (Suc n) s p it =
     (if p (cur it) then (True, it)
      else let it' = snd (pb_field_iter_next it) in
        if it_pos it' \<noteq> s then find_loop n s p it' else (False, it'))"

definition matches_tag :: "u32 \<Rightarrow> pb_field \<Rightarrow> bool" where
  "matches_tag t f \<longleftrightarrow> tag f = t \<and> PB_LTYPE (ftype f) \<noteq> PB_LTYPE_EXTENSION"

definition pb_field_iter_find :: "pb_field_iter \<Rightarrow> u32 \<Rightarrow> bool \<times> pb_field_iter" where
  "pb_field_iter_find it t =
     find_loop (Suc (length (it_start it))) (it_pos it) (matches_tag t) it"

section \<open>Structure layout\<close>

text \<open>
  \<open>layout fs off\<close>: \<open>off i\<close> is \<open>offsetof\<close> of the member of entry \<open>i\<close>, and \<open>data_offset\<close> and
  \<open>size_offset\<close> are what \<open>PB_DATAOFFSET_FIRST\<close>, \<open>_OTHER\<close> and \<open>_UNION\<close> make of it: for the first
  entry its offset, for a further member of a union \<open>PB_SIZE_MAX\<close> (at the same offset, with the
  same \<open>which_\<close> member), and otherwise the gap after the previous member.
\<close>

definition layout :: "pb_field list \<Rightarrow> (nat \<Rightarrow> nat) \<Rightarrow> bool" where
  "layout fs off \<longleftrightarrow>
     (\<forall>f \<in> set fs. tag f \<noteq> 0) \<and>
     (fs \<noteq> [] \<longrightarrow> off 0 = unat (data_offset (fs ! 0))) \<and>
     (\<forall>i. Suc i < length fs \<longrightarrow>
        (if in_union (fs ! i) (fs ! Suc i)
         then off (Suc i) = off i \<and> size_offset (fs ! Suc i) = size_offset (fs ! i)
         else off (Suc i) = off i + prev_size (fs ! i) + unat (data_offset (fs ! Suc i))))"

fun field_offset :: "pb_field list \<Rightarrow> nat \<Rightarrow> nat" where
  "field_offset fs 0 = unat (data_offset (entry fs 0))"
| "field_offset fs (Suc i) =
     (if in_union (entry fs i) (entry fs (Suc i)) then field_offset fs i
      else field_offset fs i + prev_size (entry fs i) + unat (data_offset (entry fs (Suc i))))"

text \<open>How many of the first \<open>n\<close> entries are required fields.\<close>

definition is_required :: "pb_field \<Rightarrow> bool" where
  "is_required f \<longleftrightarrow> PB_HTYPE (ftype f) = PB_HTYPE_REQUIRED"

definition required_count :: "pb_field list \<Rightarrow> nat" where
  "required_count fs = length (filter is_required fs)"

text \<open>The iterator at entry \<open>i\<close> of the table \<open>fs\<close> over the structure at \<open>dest\<close>.\<close>

definition iter_at :: "pb_field list \<Rightarrow> (nat \<Rightarrow> nat) \<Rightarrow> addr \<Rightarrow> nat \<Rightarrow> pb_field_iter" where
  "iter_at fs off dest i =
     \<lparr>it_start = fs, it_pos = i, it_req = required_count (take i fs), it_dest = dest,
      it_pData = dest + off i, it_pSize = ptr_add (dest + off i) (size_offset (entry fs i))\<rparr>"

lemma iter_at_sel [simp]:
  "it_start (iter_at fs off dest i) = fs" "it_pos (iter_at fs off dest i) = i"
  "it_req (iter_at fs off dest i) = required_count (take i fs)"
  "it_dest (iter_at fs off dest i) = dest" "it_pData (iter_at fs off dest i) = dest + off i"
  "it_pSize (iter_at fs off dest i) = ptr_add (dest + off i) (size_offset (entry fs i))"
  by (simp_all add: iter_at_def)

lemma layoutD:
  assumes "layout fs off"
  shows "i < length fs \<Longrightarrow> tag (fs ! i) \<noteq> 0"
    and "fs \<noteq> [] \<Longrightarrow> off 0 = unat (data_offset (fs ! 0))"
    and "Suc i < length fs \<Longrightarrow> in_union (fs ! i) (fs ! Suc i) \<Longrightarrow>
      off (Suc i) = off i \<and> size_offset (fs ! Suc i) = size_offset (fs ! i)"
    and "Suc i < length fs \<Longrightarrow> \<not> in_union (fs ! i) (fs ! Suc i) \<Longrightarrow>
      off (Suc i) = off i + prev_size (fs ! i) + unat (data_offset (fs ! Suc i))"
  using assms by (auto simp: layout_def)

lemma begin_iter_at:
  assumes "layout fs off" and "fs \<noteq> []"
  shows "pb_field_iter_begin fs dest = (True, iter_at fs off dest 0)"
  using assms layoutD(1) [OF assms(1), of 0] layoutD(2) [OF assms]
  by (simp add: pb_field_iter_begin_def iter_at_def required_count_def Let_def)

lemma begin_empty: "fst (pb_field_iter_begin [] dest) = False"
  by (simp add: pb_field_iter_begin_def entry_beyond Let_def)

lemma required_count_take_Suc:
  "i < length fs \<Longrightarrow>
     required_count (take (Suc i) fs) = required_count (take i fs) + (if is_required (fs ! i) then 1 else 0)"
  by (simp add: take_Suc_conv_app_nth required_count_def)

lemma next_iter_at:
  assumes lay: "layout fs off" and i: "Suc i < length fs"
  shows "pb_field_iter_next (iter_at fs off dest i) = (True, iter_at fs off dest (Suc i))"
proof -
  have t: "tag (fs ! i) \<noteq> 0" "tag (fs ! Suc i) \<noteq> 0"
    using layoutD(1) [OF lay] i by simp_all
  show ?thesis
  proof (cases "in_union (fs ! i) (fs ! Suc i)")
    case True
    then have "\<not> is_required (fs ! i)"
      by (simp add: in_union_def is_required_def)
    then show ?thesis
      using True t i layoutD(3) [OF lay i True]
      by (simp add: pb_field_iter_next_def iter_at_def required_count_take_Suc Let_def)
  next
    case False
    then show ?thesis
      using t i layoutD(4) [OF lay i False]
      by (simp add: pb_field_iter_next_def iter_at_def required_count_take_Suc is_required_def Let_def
          add.assoc)
  qed
qed

lemma next_iter_at_last:
  assumes "layout fs off" and "fs \<noteq> []" and "Suc i = length fs"
  shows "pb_field_iter_next (iter_at fs off dest i) = (False, iter_at fs off dest 0)"
proof -
  have "tag (fs ! i) \<noteq> 0"
    using layoutD(1) [OF assms(1)] assms(3) by simp
  then show ?thesis
    using assms begin_iter_at [OF assms(1,2)]
    by (simp add: pb_field_iter_next_def entry_beyond Let_def)
qed

lemma next_iter_at_mod:
  assumes "layout fs off" and "i < length fs"
  shows "pb_field_iter_next (iter_at fs off dest i) =
    (Suc i \<noteq> length fs, iter_at fs off dest (Suc i mod length fs))"
proof (cases "Suc i = length fs")
  case True
  with assms(2) have "fs \<noteq> []" by auto
  with True assms(1) show ?thesis
    by (simp add: next_iter_at_last)
next
  case False
  with assms have "Suc i < length fs" by simp
  with assms show ?thesis
    by (simp add: next_iter_at)
qed

text \<open>
  The loops over all fields, \<open>do ... while (pb_field_iter_next(&iter))\<close>, end: the position grows
  until the table is used up.
\<close>

lemma next_pos_less:
  assumes "fst (pb_field_iter_next it)"
  shows "it_pos (snd (pb_field_iter_next it)) = Suc (it_pos it)"
    and "it_start (snd (pb_field_iter_next it)) = it_start it"
    and "Suc (it_pos it) < length (it_start it)"
  using assms tag_entry_less [of "it_start it" "Suc (it_pos it)"]
  by (auto simp: pb_field_iter_next_def Let_def split: if_splits)

text \<open>\<open>do one(iter) while (pb_field_iter_next(iter))\<close>.\<close>

function for_fields :: "(pb_field_iter \<Rightarrow> ('s, unit) prog) \<Rightarrow> pb_field_iter \<Rightarrow> ('s, unit) prog" where
  "for_fields one it =
     seq (one it)
       (if fst (pb_field_iter_next it) then for_fields one (snd (pb_field_iter_next it)) else ret ())"
  by pat_completeness auto
termination
  by (relation "measure (\<lambda>(one, it). length (it_start it) - it_pos it)")
    (auto simp: next_pos_less dest: next_pos_less(3))

declare for_fields.simps [simp del]

fun seqs :: "('s, unit) prog list \<Rightarrow> ('s, unit) prog" where
  "seqs [] = ret ()"
| "seqs (p # ps) = seq p (seqs ps)"

lemma for_fields_iter_at:
  assumes lay: "layout fs off" and i: "i < length fs"
  shows "for_fields one (iter_at fs off dest i) =
    seqs (map (\<lambda>j. one (iter_at fs off dest j)) [i..<length fs])"
  using i
proof (induction "length fs - i" arbitrary: i)
  case 0
  then show ?case by simp
next
  case (Suc n)
  note step = for_fields.simps [of one "iter_at fs off dest i"]
  show ?case
  proof (cases "Suc i < length fs")
    case True
    then have "for_fields one (iter_at fs off dest (Suc i)) =
        seqs (map (\<lambda>j. one (iter_at fs off dest j)) [Suc i..<length fs])"
      using Suc by (intro Suc.hyps(1)) simp_all
    then show ?thesis
      using True Suc.prems by (simp add: step next_iter_at [OF lay] upt_conv_Cons)
  next
    case False
    with Suc.prems have "Suc i = length fs" by simp
    with lay Suc.prems show ?thesis
      by (simp add: step next_iter_at_mod upt_conv_Cons)
  qed
qed

section \<open>Searching\<close>

lemma find_loop_iter_at:
  assumes lay: "layout fs off" and i: "i < length fs" and s: "s < length fs"
    and n: "(if i < s then s - i else length fs - i + s) \<le> n"
  shows "find_loop n s p (iter_at fs off dest i) =
    (case find (\<lambda>j. p (fs ! j)) (if i < s then [i..<s] else [i..<length fs] @ [0..<s]) of
       Some j \<Rightarrow> (True, iter_at fs off dest j)
     | None \<Rightarrow> (False, iter_at fs off dest s))"
  using i n
proof (induction n arbitrary: i)
  case 0
  then show ?case
    using s by (auto split: if_splits)
next
  case (Suc n)
  note nxt = next_iter_at_mod [OF lay Suc.prems(1), of dest]
  show ?case
  proof (cases "p (fs ! i)")
    case True
    then show ?thesis
      using Suc.prems(1) by (simp add: upt_conv_Cons)
  next
    case False
    show ?thesis
    proof (cases "Suc i mod length fs = s")
      case True
      with False nxt Suc.prems(1) s show ?thesis
        by (auto simp: upt_conv_Cons mod_Suc split: if_splits)
    next
      case ne: False
      have lt: "Suc i mod length fs < length fs"
        using s by (intro mod_less_divisor) auto
      have "(if Suc i mod length fs < s then s - Suc i mod length fs
              else length fs - Suc i mod length fs + s) \<le> n"
        using Suc.prems ne s by (auto simp: mod_Suc split: if_splits)
      from Suc.IH [OF lt this] False ne nxt Suc.prems(1) s show ?thesis
        by (auto simp: upt_conv_Cons mod_Suc split: if_splits)
    qed
  qed
qed

text \<open>The entries in the order the search sees them.\<close>

lemma find_iter_at:
  assumes "layout fs off" and "s < length fs"
  shows "pb_field_iter_find (iter_at fs off dest s) t =
    (case find (\<lambda>j. matches_tag t (fs ! j)) ([s..<length fs] @ [0..<s]) of
       Some j \<Rightarrow> (True, iter_at fs off dest j)
     | None \<Rightarrow> (False, iter_at fs off dest s))"
proof -
  have "length fs - s + s \<le> Suc (length fs)"
    using assms(2) by simp
  then show ?thesis
    using find_loop_iter_at [OF assms(1,2,2), of "Suc (length fs)" "matches_tag t" dest]
    by (simp only: pb_field_iter_find_def iter_at_sel less_irrefl if_False)
qed

lemma find_eq_unique:
  assumes "j \<in> set xs" and "P j" and "\<And>k. k \<in> set xs \<Longrightarrow> P k \<Longrightarrow> k = j"
  shows "find P xs = Some j"
proof (cases "find P xs")
  case None
  with assms(1,2) show ?thesis
    by (auto simp: find_None_iff)
next
  case (Some k)
  then have "k \<in> set xs" and "P k"
    by (auto simp: find_Some_iff)
  then have "k = j"
    by (rule assms(3))
  with Some show ?thesis by simp
qed

lemma find_iter_at_unique:
  assumes lay: "layout fs off" and s: "s < length fs" and j: "j < length fs"
    and m: "matches_tag t (fs ! j)"
    and uniq: "\<And>k. k < length fs \<Longrightarrow> matches_tag t (fs ! k) \<Longrightarrow> k = j"
  shows "pb_field_iter_find (iter_at fs off dest s) t = (True, iter_at fs off dest j)"
proof -
  have "find (\<lambda>j. matches_tag t (fs ! j)) ([s..<length fs] @ [0..<s]) = Some j"
  proof (rule find_eq_unique)
    show "j \<in> set ([s..<length fs] @ [0..<s])"
      using j by auto
    show "k = j" if "k \<in> set ([s..<length fs] @ [0..<s])" and "matches_tag t (fs ! k)" for k
      using that s by (intro uniq) auto
  qed (rule m)
  then show ?thesis
    by (simp only: find_iter_at [OF lay s] option.case)
qed

end
