(* ===== verification/Pb_Encode.thy ===== *)
theory Pb_Encode
  imports Pb_Ostream Pb_Common
begin

text \<open>
  The field and message encoders of \<open>nanopb/pb_encode.c\<close>. The source structure is read from the
  memory the program runs in. \<open>pb_encode\<close> calls itself for submessages: the functions between two
  such calls take the inner \<open>pb_encode\<close> as their argument \<open>enc\<close>, and \<open>pb_encode E n\<close> follows a
  nesting of at most \<open>n\<close> messages; deeper ones, which the C code would go on with until its stack
  is used up, are \<open>Stuck\<close>.
\<close>

unbundle bit_operations_syntax

type_synonym encoder = "pb_field \<Rightarrow> addr \<Rightarrow> (ost, unit) prog"
type_synonym msg_encoder = "addr \<Rightarrow> addr \<Rightarrow> (ost, unit) prog"

section \<open>Encoders of single fields\<close>

text \<open>Reading a signed or unsigned integer member of the size the descriptor gives.\<close>

definition load_signed :: "u32 \<Rightarrow> mem \<Rightarrow> addr \<Rightarrow> u64 option" where
  "load_signed sz m src =
     (if sz = 1 then Some (scast (load_word m src 1 :: byte))
      else if sz = 2 then Some (scast (load_word m src 2 :: 16 word))
      else if sz = 4 then Some (scast (load_word m src 4 :: u32))
      else if sz = 8 then Some (load_word m src 8)
      else None)"

definition load_unsigned :: "u32 \<Rightarrow> mem \<Rightarrow> addr \<Rightarrow> u64 option" where
  "load_unsigned sz m src =
     (if sz = 1 then Some (ucast (load_word m src 1 :: byte))
      else if sz = 2 then Some (ucast (load_word m src 2 :: 16 word))
      else if sz = 4 then Some (ucast (load_word m src 4 :: u32))
      else if sz = 8 then Some (load_word m src 8)
      else None)"

definition pb_enc_varint :: "env \<Rightarrow> encoder" where
  "pb_enc_varint E f src = (\<lambda>(s, m).
     case load_signed (data_size f) m src of
       None \<Rightarrow> oerror ''invalid data_size'' (s, m)
     | Some v \<Rightarrow> pb_encode_varint E v (s, m))"

definition pb_enc_uvarint :: "env \<Rightarrow> encoder" where
  "pb_enc_uvarint E f src = (\<lambda>(s, m).
     case load_unsigned (data_size f) m src of
       None \<Rightarrow> oerror ''invalid data_size'' (s, m)
     | Some v \<Rightarrow> pb_encode_varint E v (s, m))"

definition pb_enc_svarint :: "env \<Rightarrow> encoder" where
  "pb_enc_svarint E f src = (\<lambda>(s, m).
     case load_signed (data_size f) m src of
       None \<Rightarrow> oerror ''invalid data_size'' (s, m)
     | Some v \<Rightarrow> pb_encode_svarint E v (s, m))"

definition pb_enc_fixed32 :: "env \<Rightarrow> encoder" where
  "pb_enc_fixed32 E f src = (\<lambda>(s, m). pb_encode_fixed32 E (load_word m src 4) (s, m))"

definition pb_enc_fixed64 :: "env \<Rightarrow> encoder" where
  "pb_enc_fixed64 E f src = (\<lambda>(s, m). pb_encode_fixed64 E (load_word m src 8) (s, m))"

definition pb_enc_bytes :: "env \<Rightarrow> encoder" where
  "pb_enc_bytes E f src = (\<lambda>(s, m).
     if src = 0 then pb_encode_string E [] 0 (s, m)
     else let sz = load_word m src 4 :: u32 in
       if PB_ATYPE (ftype f) = PB_ATYPE_STATIC
          \<and> PB_BYTES_ARRAY_T_ALLOCSIZE (ucast sz) > ucast (data_size f)
       then oerror ''bytes size exceeded'' (s, m)
       else pb_encode_string E (load m (src + 4) (unat sz)) (ucast sz) (s, m))"

text \<open>The loop that counts the characters of a string, at most \<open>k\<close> of them.\<close>

fun strnlen :: "mem \<Rightarrow> addr \<Rightarrow> nat \<Rightarrow> nat" where
  "strnlen m p 0 = 0"
| "strnlen m p (Suc k) = (if m p = 0 then 0 else Suc (strnlen m (Suc p) k))"

definition pb_enc_string :: "env \<Rightarrow> encoder" where
  "pb_enc_string E f src = (\<lambda>(s, m).
     let mx = (if PB_ATYPE (ftype f) = PB_ATYPE_POINTER then 2 ^ 64 - 1 else unat (data_size f));
         sz = (if src = 0 then 0 else strnlen m src mx)
     in pb_encode_string E (load m src sz) (of_nat sz) (s, m))"

definition pb_enc_fixed_length_bytes :: "env \<Rightarrow> encoder" where
  "pb_enc_fixed_length_bytes E f src = (\<lambda>(s, m).
     pb_encode_string E (load m src (unat (data_size f))) (ucast (data_size f)) (s, m))"

section \<open>Submessages\<close>

text \<open>
  The message is encoded twice: once to a stream that only counts, and once to a stream limited to
  that count, which shares the state of the outer one.
\<close>

definition submessage_body :: "msg_encoder \<Rightarrow> env \<Rightarrow> addr \<Rightarrow> addr \<Rightarrow> u64 \<Rightarrow> (ost, unit) prog" where
  "submessage_body enc E flds src sz = (\<lambda>(s, m).
     if o_callback s = O_NULL then pb_write E [] sz (s, m)
     else if bytes_written s + sz > max_size s then oerror ''stream full'' (s, m)
     else case enc flds src (s\<lparr>max_size := sz, bytes_written := 0, o_errmsg := None\<rparr>, m) of
       (status, (sub, m2)) \<Rightarrow>
         let s' = s\<lparr>bytes_written := bytes_written s + bytes_written sub,
                    o_state := o_state sub, o_errmsg := o_errmsg sub\<rparr>
         in if status = Stuck then (Stuck, (s', m2))
            else if bytes_written sub \<noteq> sz then oerror ''submsg size changed'' (s', m2)
            else (status, (s', m2)))"

definition pb_encode_submessage :: "env \<Rightarrow> msg_encoder \<Rightarrow> msg_encoder" where
  "pb_encode_submessage E enc flds src = (\<lambda>(s, m).
     case enc flds src (PB_OSTREAM_SIZING, m) of
       (Stuck, (sub, m1)) \<Rightarrow> (Stuck, (s, m1))
     | (Fail, (sub, m1)) \<Rightarrow> (Fail, (s\<lparr>o_errmsg := o_errmsg sub\<rparr>, m1))
     | (Ret _, (sub, m1)) \<Rightarrow>
         seq (pb_encode_varint E (bytes_written sub))
           (submessage_body enc E flds src (bytes_written sub)) (s, m1))"

definition pb_enc_submessage :: "env \<Rightarrow> msg_encoder \<Rightarrow> encoder" where
  "pb_enc_submessage E enc f src =
     (if ptr f = 0 then oerror ''invalid field descriptor''
      else pb_encode_submessage E enc (ptr f) src)"

text \<open>The table of encoders: a null pointer for extensions, and nothing past its ten entries.\<close>

definition PB_ENCODERS :: "env \<Rightarrow> msg_encoder \<Rightarrow> byte \<Rightarrow> encoder" where
  "PB_ENCODERS E enc lt =
     (if lt = PB_LTYPE_VARINT then pb_enc_varint E
      else if lt = PB_LTYPE_UVARINT then pb_enc_uvarint E
      else if lt = PB_LTYPE_SVARINT then pb_enc_svarint E
      else if lt = PB_LTYPE_FIXED32 then pb_enc_fixed32 E
      else if lt = PB_LTYPE_FIXED64 then pb_enc_fixed64 E
      else if lt = PB_LTYPE_BYTES then pb_enc_bytes E
      else if lt = PB_LTYPE_STRING then pb_enc_string E
      else if lt = PB_LTYPE_SUBMESSAGE then pb_enc_submessage E enc
      else if lt = PB_LTYPE_FIXED_LENGTH_BYTES then pb_enc_fixed_length_bytes E
      else (\<lambda>f src. stuck))"

section \<open>Arrays\<close>

text \<open>The loops over the items of an array, for packed and for separately tagged items.\<close>

fun encode_items :: "encoder \<Rightarrow> pb_field \<Rightarrow> nat \<Rightarrow> addr \<Rightarrow> (ost, unit) prog" where
  "encode_items func f 0 p = ret ()"
| "encode_items func f (Suc k) p =
     seq (func f p) (encode_items func f k (p + unat (data_size f)))"

fun encode_tagged_items :: "env \<Rightarrow> encoder \<Rightarrow> pb_field \<Rightarrow> nat \<Rightarrow> addr \<Rightarrow> (ost, unit) prog" where
  "encode_tagged_items E func f 0 p = ret ()"
| "encode_tagged_items E func f (Suc k) p =
     seq (pb_encode_tag_for_field E f)
       (seq (\<lambda>(s, m).
          if PB_ATYPE (ftype f) = PB_ATYPE_POINTER
             \<and> (PB_LTYPE (ftype f) = PB_LTYPE_STRING \<or> PB_LTYPE (ftype f) = PB_LTYPE_BYTES)
          then func f (load_ptr m p) (s, m) else func f p (s, m))
        (encode_tagged_items E func f k (p + unat (data_size f))))"

text \<open>The size of a packed array: known for fixed-width items, otherwise counted.\<close>

definition packed_size :: "encoder \<Rightarrow> pb_field \<Rightarrow> nat \<Rightarrow> addr \<Rightarrow> (ost, u64) prog" where
  "packed_size func f count pData = (\<lambda>(s, m).
     if PB_LTYPE (ftype f) = PB_LTYPE_FIXED32 then (Ret (4 * of_nat count), (s, m))
     else if PB_LTYPE (ftype f) = PB_LTYPE_FIXED64 then (Ret (8 * of_nat count), (s, m))
     else case encode_items func f count pData (PB_OSTREAM_SIZING, m) of
       (Ret _, (sub, m')) \<Rightarrow> (Ret (bytes_written sub), (s, m'))
     | (Fail, (sub, m')) \<Rightarrow> (Fail, (s, m'))
     | (Stuck, (sub, m')) \<Rightarrow> (Stuck, (s, m')))"

definition encode_array ::
    "env \<Rightarrow> encoder \<Rightarrow> pb_field \<Rightarrow> addr \<Rightarrow> u32 \<Rightarrow> (ost, unit) prog" where
  "encode_array E func f pData count =
     (if count = 0 then ret ()
      else if PB_ATYPE (ftype f) \<noteq> PB_ATYPE_POINTER \<and> count > array_size f
      then oerror ''array max size exceeded''
      else if PB_LTYPE (ftype f) \<le> PB_LTYPE_LAST_PACKABLE then
        seq (pb_encode_tag E PB_WT_STRING (tag f))
          (bnd (packed_size func f (unat count) pData) (\<lambda>sz.
             seq (pb_encode_varint E sz) (\<lambda>(s, m).
               if o_callback s = O_NULL then pb_write E [] sz (s, m)
               else encode_items func f (unat count) pData (s, m))))
      else encode_tagged_items E func f (unat count) pData)"

section \<open>Fields\<close>

text \<open>
  The test for a proto3 default value. \<open>all_default\<close> is the loop over the fields of a submessage;
  \<open>None\<close> is a nesting deeper than the bound, or a submessage field without a descriptor.
\<close>

function all_default ::
    "(pb_field \<Rightarrow> addr \<Rightarrow> bool option) \<Rightarrow> pb_field_iter \<Rightarrow> bool option" where
  "all_default chk it =
     (case chk (cur it) (it_pData it) of
        None \<Rightarrow> None
      | Some False \<Rightarrow> Some False
      | Some True \<Rightarrow>
          (if fst (pb_field_iter_next it) then all_default chk (snd (pb_field_iter_next it))
           else Some True))"
  by pat_completeness auto
termination
  by (relation "measure (\<lambda>(chk, it). length (it_start it) - it_pos it)")
    (auto simp: next_pos_less dest: next_pos_less(3))

declare all_default.simps [simp del]

fun pb_check_proto3_default_value :: "env \<Rightarrow> nat \<Rightarrow> mem \<Rightarrow> pb_field \<Rightarrow> addr \<Rightarrow> bool option" where
  "pb_check_proto3_default_value E 0 m f pData = None"
| "pb_check_proto3_default_value E (Suc n) m f pData =
     (let st = (PB_ATYPE (ftype f) = PB_ATYPE_STATIC); lt = PB_LTYPE (ftype f) in
      if st \<and> lt = PB_LTYPE_BYTES then Some (load_word m pData 4 = (0 :: u32))
      else if st \<and> lt = PB_LTYPE_STRING then Some (m pData = 0)
      else if st \<and> lt = PB_LTYPE_FIXED_LENGTH_BYTES then Some (data_size f = 0)
      else if st \<and> lt = PB_LTYPE_SUBMESSAGE then
        if ptr f = 0 then None
        else (case pb_field_iter_begin (descs E (ptr f)) pData of (nonempty, it) \<Rightarrow>
          if nonempty then all_default (pb_check_proto3_default_value E n m) it else Some True)
      else Some (list_all (\<lambda>b. b = 0) (load m pData (unat (data_size f)))))"

text \<open>
  \<open>encode_basic_field\<close>. A size of \<open>None\<close> stands for \<open>&implicit_has\<close>: only one byte may be read
  there, so a repeated or oneof field without a size member has no defined run.
\<close>

definition encode_basic_field :: "env \<Rightarrow> nat \<Rightarrow> msg_encoder \<Rightarrow> encoder" where
  "encode_basic_field E n enc f pData0 = (\<lambda>(s, m).
     let func = PB_ENCODERS E enc (PB_LTYPE (ftype f));
         pSize = (if size_offset f \<noteq> 0 then Some (ptr_add pData0 (size_offset f)) else None);
         has0 = (if size_offset f \<noteq> 0 then Some True
                 else if PB_HTYPE (ftype f) = PB_HTYPE_OPTIONAL
                 then map_option Not (pb_check_proto3_default_value E n m f pData0)
                 else Some True)
     in case has0 of None \<Rightarrow> (Stuck, (s, m)) | Some implicit0 \<Rightarrow>
       let pointer = (PB_ATYPE (ftype f) = PB_ATYPE_POINTER);
           pData = (if pointer then load_ptr m pData0 else pData0);
           implicit_has = (if pointer then pData \<noteq> 0 else implicit0);
           ht = PB_HTYPE (ftype f)
       in if ht = PB_HTYPE_REQUIRED then
            if pData = 0 then oerror ''missing required field'' (s, m)
            else seq (pb_encode_tag_for_field E f) (func f pData) (s, m)
          else if ht = PB_HTYPE_OPTIONAL then
            if (case pSize of Some p \<Rightarrow> load_bool m p | None \<Rightarrow> implicit_has)
            then seq (pb_encode_tag_for_field E f) (func f pData) (s, m)
            else (Ret (), (s, m))
          else case pSize of None \<Rightarrow> (Stuck, (s, m)) | Some p \<Rightarrow>
            if ht = PB_HTYPE_REPEATED
            then encode_array E func f pData (load_word m p 4) (s, m)
            else if load_word m p 4 = tag f
            then seq (pb_encode_tag_for_field E f) (func f pData) (s, m)
            else (Ret (), (s, m)))"

text \<open>A \<open>pb_callback_t\<close> is a function pointer and, eight bytes on, the argument for it.\<close>

definition encode_callback_field :: "env \<Rightarrow> encoder" where
  "encode_callback_field E f pData = (\<lambda>(s, m).
     let fn = load_ptr m pData in
     if fn \<noteq> 0 then
       (case encode_cb E fn f (pData + 8) (s, m) of
          (Fail, w) \<Rightarrow> oerror ''callback error'' w
        | r \<Rightarrow> r)
     else (Ret (), (s, m)))"

definition encode_field :: "env \<Rightarrow> nat \<Rightarrow> msg_encoder \<Rightarrow> encoder" where
  "encode_field E n enc f pData =
     (let at = PB_ATYPE (ftype f) in
      if at = PB_ATYPE_STATIC \<or> at = PB_ATYPE_POINTER then encode_basic_field E n enc f pData
      else if at = PB_ATYPE_CALLBACK then encode_callback_field E f pData
      else oerror ''invalid field type'')"

section \<open>Extensions\<close>

text \<open>
  A \<open>pb_extension_t\<close> holds \<open>type\<close>, \<open>dest\<close>, \<open>next\<close> (at 0, 8, 16) and \<open>found\<close> (at 24); a
  \<open>pb_extension_type_t\<close> holds \<open>decode\<close>, \<open>encode\<close> and \<open>arg\<close> (at 0, 8, 16).
\<close>

definition default_extension_encoder :: "env \<Rightarrow> nat \<Rightarrow> msg_encoder \<Rightarrow> addr \<Rightarrow> (ost, unit) prog" where
  "default_extension_encoder E n enc ext = (\<lambda>(s, m).
     let f = entry (descs E (load_ptr m (load_ptr m ext + 16))) 0 in
     if PB_ATYPE (ftype f) = PB_ATYPE_POINTER
     then encode_field E n enc f (ext + 8) (s, m)
     else encode_field E n enc f (load_ptr m (ext + 8)) (s, m))"

text \<open>The list of extensions is followed for at most \<open>k\<close> entries.\<close>

fun extension_loop :: "env \<Rightarrow> nat \<Rightarrow> msg_encoder \<Rightarrow> nat \<Rightarrow> addr \<Rightarrow> (ost, unit) prog" where
  "extension_loop E n enc 0 ext = (if ext = 0 then ret () else stuck)"
| "extension_loop E n enc (Suc k) ext =
     (if ext = 0 then ret ()
      else seq (\<lambda>(s, m).
          let fn = load_ptr m (load_ptr m ext + 8) in
          if fn \<noteq> 0 then ext_encode_cb E fn ext (s, m)
          else default_extension_encoder E n enc ext (s, m))
        (\<lambda>(s, m). extension_loop E n enc k (load_ptr m (ext + 16)) (s, m)))"

definition encode_extension_field :: "env \<Rightarrow> nat \<Rightarrow> msg_encoder \<Rightarrow> encoder" where
  "encode_extension_field E n enc f pData = (\<lambda>(s, m).
     extension_loop E n enc n (load_ptr m pData) (s, m))"

section \<open>Messages\<close>

definition encode_iter :: "env \<Rightarrow> nat \<Rightarrow> msg_encoder \<Rightarrow> pb_field_iter \<Rightarrow> (ost, unit) prog" where
  "encode_iter E n enc it =
     (if PB_LTYPE (ftype (cur it)) = PB_LTYPE_EXTENSION
      then encode_extension_field E n enc (cur it) (it_pData it)
      else encode_field E n enc (cur it) (it_pData it))"

fun pb_encode :: "env \<Rightarrow> nat \<Rightarrow> addr \<Rightarrow> addr \<Rightarrow> (ost, unit) prog" where
  "pb_encode E 0 flds src = stuck"
| "pb_encode E (Suc n) flds src =
     (case pb_field_iter_begin (descs E flds) src of (nonempty, it) \<Rightarrow>
        if nonempty then for_fields (encode_iter E n (pb_encode E n)) it else ret ())"

definition pb_encode_delimited :: "env \<Rightarrow> nat \<Rightarrow> addr \<Rightarrow> addr \<Rightarrow> (ost, unit) prog" where
  "pb_encode_delimited E n flds src = pb_encode_submessage E (pb_encode E n) flds src"

definition pb_get_encoded_size :: "env \<Rightarrow> nat \<Rightarrow> addr \<Rightarrow> addr \<Rightarrow> (mem, u64) prog" where
  "pb_get_encoded_size E n flds src = (\<lambda>m.
     case pb_encode E n flds src (PB_OSTREAM_SIZING, m) of
       (Ret _, (s, m')) \<Rightarrow> (Ret (bytes_written s), m')
     | (Fail, (s, m')) \<Rightarrow> (Fail, m')
     | (Stuck, (s, m')) \<Rightarrow> (Stuck, m'))"

end
