(* ===== verification/Pb_Wire.thy ===== *)
theory Pb_Wire
  imports Pb_Writes Pb_Encode "HOL-Library.Monad_Syntax"
begin

text \<open>
  The abstract specification of the encoder: the wire records of a message in memory. A record is
  a field number and a value in one of the four wire formats, where the contents of a
  length-delimited value may be structured: a packed array or the records of a submessage. The
  encoding of a message is the concatenation of the encodings of its records. \<open>msg_records\<close> computes the records from the
  descriptor table and the memory alone, without streams, sizes counted beforehand or substreams.

  The specification reads memory through a reader, a partial function from an address and a
  length to bytes: it is undefined where the encoder would fail, would read outside the addresses
  the reader knows, or would leave the library (callbacks and extension handlers).
\<close>

unbundle bit_operations_syntax

section \<open>Wire records\<close>

datatype wval =
    W_varint u64
  | W_64bit u64
  | W_32bit u32
  | W_string "byte list"
  | W_packed "wval list"
  | W_msg "(u32 \<times> wval) list"

type_synonym record_t = "u32 \<times> wval"

fun wval_type :: "wval \<Rightarrow> u32" where
  "wval_type (W_varint v) = PB_WT_VARINT"
| "wval_type (W_64bit v) = PB_WT_64BIT"
| "wval_type (W_32bit v) = PB_WT_32BIT"
| "wval_type _ = PB_WT_STRING"

fun wval_bytes :: "wval \<Rightarrow> byte list" and record_bytes :: "record_t \<Rightarrow> byte list" where
  "wval_bytes (W_varint v) = varint v"
| "wval_bytes (W_64bit v) = fixed64_bytes v"
| "wval_bytes (W_32bit v) = fixed32_bytes v"
| "wval_bytes (W_string bs) = delimited bs"
| "wval_bytes (W_packed vs) = delimited (concat (map wval_bytes vs))"
| "wval_bytes (W_msg rs) = delimited (concat (map record_bytes rs))"
| "record_bytes (t, v) = varint (tag_word (wval_type v) t) @ wval_bytes v"

definition msg_bytes :: "record_t list \<Rightarrow> byte list" where
  "msg_bytes rs = concat (map record_bytes rs)"

lemma wval_bytes_W_msg [simp]: "wval_bytes (W_msg rs) = delimited (msg_bytes rs)"
  by (simp add: msg_bytes_def)

declare wval_bytes.simps(6) [simp del]

lemma msg_bytes_simps [simp]:
  "msg_bytes [] = []" "msg_bytes (r # rs) = record_bytes r @ msg_bytes rs"
  "msg_bytes (rs @ ss) = msg_bytes rs @ msg_bytes ss"
  by (simp_all add: msg_bytes_def)

section \<open>Readers\<close>

type_synonym reader = "addr \<Rightarrow> nat \<Rightarrow> byte list option"

definition peek :: "addr set \<Rightarrow> mem \<Rightarrow> reader" where
  "peek A m a n = (if region a n \<subseteq> A then Some (load m a n) else None)"

definition peek_word :: "reader \<Rightarrow> addr \<Rightarrow> nat \<Rightarrow> 'a::len word option" where
  "peek_word r a n = map_option le_word (r a n)"

definition peek_ptr :: "reader \<Rightarrow> addr \<Rightarrow> addr option" where
  "peek_ptr r a = map_option (\<lambda>w. unat (w :: u64)) (peek_word r a 8)"

fun peek_string :: "reader \<Rightarrow> addr \<Rightarrow> nat \<Rightarrow> byte list option" where
  "peek_string r p 0 = Some []"
| "peek_string r p (Suc k) = do {
     b \<leftarrow> r p 1;
     if hd b = 0 then Some []
     else do { cs \<leftarrow> peek_string r (Suc p) k; Some (hd b # cs) } }"

lemma peek_same_on: "same_on A m m' \<Longrightarrow> peek A m' = peek A m"
  by (auto simp: peek_def fun_eq_iff same_on_load)

lemma peek_Some: "peek A m a n = Some bs \<longleftrightarrow> region a n \<subseteq> A \<and> bs = load m a n"
  by (auto simp: peek_def)

lemma peek_word_Some: "peek_word (peek A m) a n = Some w \<Longrightarrow> w = load_word m a n"
  by (auto simp: peek_word_def peek_Some load_word_def)

lemma peek_ptr_Some: "peek_ptr (peek A m) a = Some p \<Longrightarrow> p = load_ptr m a"
  by (auto simp: peek_ptr_def load_ptr_def dest: peek_word_Some)

lemma peek_string_Some:
  "peek_string (peek A m) p k = Some bs \<Longrightarrow>
     bs = load m p (strnlen m p k) \<and> length bs = strnlen m p k"
  by (induction k arbitrary: p bs) (auto simp: load_Suc peek_Some split: if_splits bind_splits)

lemma strnlen_le: "strnlen m p k \<le> k"
  by (induction k arbitrary: p) auto

section \<open>The value of a field\<close>

definition peek_signed :: "reader \<Rightarrow> u32 \<Rightarrow> addr \<Rightarrow> u64 option" where
  "peek_signed r sz p =
     (if sz = 1 then map_option (\<lambda>w. scast (w :: byte)) (peek_word r p 1)
      else if sz = 2 then map_option (\<lambda>w. scast (w :: 16 word)) (peek_word r p 2)
      else if sz = 4 then map_option (\<lambda>w. scast (w :: u32)) (peek_word r p 4)
      else if sz = 8 then peek_word r p 8
      else None)"

definition peek_unsigned :: "reader \<Rightarrow> u32 \<Rightarrow> addr \<Rightarrow> u64 option" where
  "peek_unsigned r sz p =
     (if sz = 1 then map_option (\<lambda>w. ucast (w :: byte)) (peek_word r p 1)
      else if sz = 2 then map_option (\<lambda>w. ucast (w :: 16 word)) (peek_word r p 2)
      else if sz = 4 then map_option (\<lambda>w. ucast (w :: u32)) (peek_word r p 4)
      else if sz = 8 then peek_word r p 8
      else None)"

definition bytes_value :: "reader \<Rightarrow> pb_field \<Rightarrow> addr \<Rightarrow> byte list option" where
  "bytes_value r f p =
     (if p = 0 then Some []
      else do {
        sz \<leftarrow> peek_word r p 4;
        if PB_ATYPE (ftype f) = PB_ATYPE_STATIC \<and> unat (data_size f) < unat (sz :: u32) + 4
        then None else r (p + 4) (unat sz) })"

definition string_value :: "reader \<Rightarrow> pb_field \<Rightarrow> addr \<Rightarrow> byte list option" where
  "string_value r f p =
     (if p = 0 then Some []
      else peek_string r p
        (if PB_ATYPE (ftype f) = PB_ATYPE_POINTER then 2 ^ 64 - 1 else unat (data_size f)))"

type_synonym sub_records = "addr \<Rightarrow> addr \<Rightarrow> record_t list option"

definition field_value :: "reader \<Rightarrow> sub_records \<Rightarrow> pb_field \<Rightarrow> addr \<Rightarrow> wval option" where
  "field_value r sub f p =
     (let lt = PB_LTYPE (ftype f) in
      if lt = PB_LTYPE_VARINT then map_option W_varint (peek_signed r (data_size f) p)
      else if lt = PB_LTYPE_UVARINT then map_option W_varint (peek_unsigned r (data_size f) p)
      else if lt = PB_LTYPE_SVARINT
      then map_option (W_varint \<circ> zigzag) (peek_signed r (data_size f) p)
      else if lt = PB_LTYPE_FIXED32 then map_option W_32bit (peek_word r p 4)
      else if lt = PB_LTYPE_FIXED64 then map_option W_64bit (peek_word r p 8)
      else if lt = PB_LTYPE_BYTES then map_option W_string (bytes_value r f p)
      else if lt = PB_LTYPE_STRING then map_option W_string (string_value r f p)
      else if lt = PB_LTYPE_SUBMESSAGE then
        if ptr f = 0 then None else map_option W_msg (sub (ptr f) p)
      else if lt = PB_LTYPE_FIXED_LENGTH_BYTES
      then map_option W_string (r p (unat (data_size f)))
      else None)"

section \<open>The records of a field\<close>

fun array_values :: "(addr \<Rightarrow> wval option) \<Rightarrow> nat \<Rightarrow> nat \<Rightarrow> addr \<Rightarrow> wval list option" where
  "array_values val sz 0 p = Some []"
| "array_values val sz (Suc k) p = do {
     v \<leftarrow> val p;
     vs \<leftarrow> array_values val sz k (p + sz);
     Some (v # vs) }"

text \<open>An item of an array of strings or bytes of a pointer field is itself a pointer.\<close>

definition array_item :: "reader \<Rightarrow> sub_records \<Rightarrow> pb_field \<Rightarrow> addr \<Rightarrow> wval option" where
  "array_item r sub f p =
     (if PB_ATYPE (ftype f) = PB_ATYPE_POINTER
         \<and> (PB_LTYPE (ftype f) = PB_LTYPE_STRING \<or> PB_LTYPE (ftype f) = PB_LTYPE_BYTES)
      then peek_ptr r p \<bind> field_value r sub f else field_value r sub f p)"

definition array_records ::
    "reader \<Rightarrow> sub_records \<Rightarrow> pb_field \<Rightarrow> addr \<Rightarrow> u32 \<Rightarrow> record_t list option" where
  "array_records r sub f p count =
     (if count = 0 then Some []
      else if PB_ATYPE (ftype f) \<noteq> PB_ATYPE_POINTER \<and> count > array_size f then None
      else if PB_LTYPE (ftype f) \<le> PB_LTYPE_LAST_PACKABLE then do {
        vs \<leftarrow> array_values (field_value r sub f) (unat (data_size f)) (unat count) p;
        Some [(tag f, W_packed vs)] }
      else do {
        vs \<leftarrow> array_values (array_item r sub f) (unat (data_size f)) (unat count) p;
        Some (map (Pair (tag f)) vs) })"

text \<open>
  Whether the value of an optional field without a \<open>has_\<close> member (a proto3 field) is the default
  one, and so left out.
\<close>

fun default_value :: "env \<Rightarrow> nat \<Rightarrow> reader \<Rightarrow> pb_field \<Rightarrow> addr \<Rightarrow> bool option" where
  "default_value E 0 r f p = None"
| "default_value E (Suc n) r f p =
     (let st = (PB_ATYPE (ftype f) = PB_ATYPE_STATIC); lt = PB_LTYPE (ftype f) in
      if st \<and> lt = PB_LTYPE_BYTES then map_option (\<lambda>w. w = (0 :: u32)) (peek_word r p 4)
      else if st \<and> lt = PB_LTYPE_STRING then map_option (\<lambda>bs. hd bs = 0) (r p 1)
      else if st \<and> lt = PB_LTYPE_FIXED_LENGTH_BYTES then Some (data_size f = 0)
      else if st \<and> lt = PB_LTYPE_SUBMESSAGE then
        if ptr f = 0 then None
        else (case pb_field_iter_begin (descs E (ptr f)) p of (nonempty, it) \<Rightarrow>
          if nonempty then all_default (default_value E n r) it else Some True)
      else map_option (list_all (\<lambda>b. b = 0)) (r p (unat (data_size f))))"

definition single_record :: "reader \<Rightarrow> sub_records \<Rightarrow> pb_field \<Rightarrow> addr \<Rightarrow> record_t list option" where
  "single_record r sub f p = map_option (\<lambda>v. [(tag f, v)]) (field_value r sub f p)"

definition field_present ::
    "env \<Rightarrow> nat \<Rightarrow> reader \<Rightarrow> pb_field \<Rightarrow> addr \<Rightarrow> addr \<Rightarrow> bool option" where
  "field_present E n r f p0 p =
     (if PB_HTYPE (ftype f) = PB_HTYPE_REQUIRED then if p = 0 then None else Some True
      else if PB_HTYPE (ftype f) = PB_HTYPE_OPTIONAL then
        if size_offset f \<noteq> 0
        then map_option (\<lambda>bs. hd bs \<noteq> 0) (r (ptr_add p0 (size_offset f)) 1)
        else do {
          d \<leftarrow> default_value E n r f p0;
          Some (if PB_ATYPE (ftype f) = PB_ATYPE_POINTER then p \<noteq> 0 else \<not> d) }
      else if size_offset f \<noteq> 0
      then map_option (\<lambda>w. w = tag f) (peek_word r (ptr_add p0 (size_offset f)) 4)
      else None)"

definition field_records ::
    "env \<Rightarrow> nat \<Rightarrow> reader \<Rightarrow> sub_records \<Rightarrow> pb_field \<Rightarrow> addr \<Rightarrow> record_t list option" where
  "field_records E n r sub f p0 =
     (if PB_ATYPE (ftype f) = PB_ATYPE_CALLBACK \<or> PB_LTYPE (ftype f) = PB_LTYPE_EXTENSION then do {
        fn \<leftarrow> peek_ptr r p0;
        if fn = 0 then Some [] else None }
      else if PB_ATYPE (ftype f) \<noteq> PB_ATYPE_STATIC \<and> PB_ATYPE (ftype f) \<noteq> PB_ATYPE_POINTER
      then None
      else do {
        p \<leftarrow> (if PB_ATYPE (ftype f) = PB_ATYPE_POINTER then peek_ptr r p0 else Some p0);
        if PB_HTYPE (ftype f) = PB_HTYPE_REPEATED then
          if size_offset f = 0 then None
          else peek_word r (ptr_add p0 (size_offset f)) 4 \<bind> array_records r sub f p
        else do {
          present \<leftarrow> field_present E n r f p0 p;
          if present then single_record r sub f p else Some [] } })"

section \<open>The records of a message\<close>

text \<open>What \<open>layout\<close> asks of a table for the offsets that \<open>field_offset\<close> computes.\<close>

definition table_ok :: "pb_field list \<Rightarrow> bool" where
  "table_ok fs \<longleftrightarrow> list_all (\<lambda>f. tag f \<noteq> 0) fs \<and>
     list_all (\<lambda>i. in_union (fs ! i) (fs ! Suc i) \<longrightarrow> size_offset (fs ! Suc i) = size_offset (fs ! i))
       [0..<length fs - 1]"

lemma table_ok_layout: "table_ok fs \<Longrightarrow> layout fs (field_offset fs)"
  by (auto simp: table_ok_def layout_def list_all_iff entry_def)

fun all_records :: "(nat \<Rightarrow> record_t list option) \<Rightarrow> nat list \<Rightarrow> record_t list option" where
  "all_records g [] = Some []"
| "all_records g (i # js) = do {
     rs \<leftarrow> g i;
     ss \<leftarrow> all_records g js;
     Some (rs @ ss) }"

fun msg_records :: "env \<Rightarrow> nat \<Rightarrow> reader \<Rightarrow> addr \<Rightarrow> addr \<Rightarrow> record_t list option" where
  "msg_records E 0 r flds src = None"
| "msg_records E (Suc n) r flds src =
     (let fs = descs E flds in
      if table_ok fs
      then all_records (\<lambda>i. field_records E n r (msg_records E n r) (fs ! i)
                               (src + field_offset fs i)) [0..<length fs]
      else None)"

end
