(* ===== verification/Pb_Demo.thy ===== *)
theory Pb_Demo
  imports Pb_Types
begin

text \<open>
  A small message type, in the form the nanopb generator gives it, on which the witnesses of the
  properties run:

    message Sub { required sint32 x = 1; }
    message Demo { required int32 a = 1; optional uint32 b = 2; repeated fixed32 c = 3 (at most 2);
                   required string d = 4 (8 bytes); optional Sub e = 5; }

  The structure has 40 bytes: \<open>a\<close> at 0, \<open>has_b\<close> at 4, \<open>b\<close> at 8, \<open>c_count\<close> at 12, \<open>c\<close> at 16, \<open>d\<close> at 24,
  \<open>has_e\<close> at 32 and \<open>e\<close> at 36.
\<close>

definition demo_field :: "nat \<Rightarrow> nat \<Rightarrow> nat \<Rightarrow> int \<Rightarrow> nat \<Rightarrow> nat \<Rightarrow> addr \<Rightarrow> pb_field" where
  "demo_field t ty doff soff dsize asize p =
     \<lparr>tag = of_nat t, ftype = of_nat ty, data_offset = of_nat doff, size_offset = of_int soff,
      data_size = of_nat dsize, array_size = of_nat asize, ptr = p\<rparr>"

definition demo_fields :: "pb_field list" where
  "demo_fields =
     [demo_field 1 0x00 0 0 4 0 0,
      demo_field 2 0x11 4 (- 4) 4 0 0,
      demo_field 3 0x23 4 (- 4) 4 2 0,
      demo_field 4 0x06 0 0 8 0 0,
      demo_field 5 0x17 4 (- 4) 4 0 32]"

definition demo_sub_fields :: "pb_field list" where
  "demo_sub_fields = [demo_field 1 0x02 0 0 4 0 0]"

text \<open>The tables are at the addresses 16 and 32; the program has no callbacks.\<close>

definition demo_env :: env where
  "demo_env =
     \<lparr>descs = (\<lambda>a. if a = 16 then demo_fields else if a = 32 then demo_sub_fields else []),
      write_cb = (\<lambda>k st bs m. (False, st, m)), read_cb = (\<lambda>k st n m. (None, st, m)),
      encode_cb = (\<lambda>k f a w. (Fail, w)), decode_cb = (\<lambda>k f a w. (Fail, w)),
      ext_encode_cb = (\<lambda>k e w. (Fail, w)), raw_buf = 0,
      ext_decode_cb = (\<lambda>k e t wt w. (Fail, w))\<rparr>"

text \<open>The message at address 100, in a memory that is otherwise zero.\<close>

definition demo_struct :: "byte list" where
  "demo_struct =
     [150, 0, 0, 0,  1, 0, 0, 0,  7, 0, 0, 0,  2, 0, 0, 0,  1, 2, 3, 4,  5, 6, 7, 8,
      104, 105, 0, 0, 0, 0, 0, 0,  1, 0, 0, 0,  255, 255, 255, 255]"

definition demo_mem :: mem where
  "demo_mem = store (\<lambda>_. 0) 100 demo_struct"

end
