(* ===== verification/Pb_Encode_Spec.thy ===== *)
theory Pb_Encode_Spec
  imports Pb_Wire Pb_Demo
begin

text \<open>
  The encoder of \<open>Pb_Encode\<close> implements the specification of \<open>Pb_Wire\<close>: whenever the records of a
  message are defined, \<open>pb_encode\<close> writes exactly their encoding, to the counting stream and to a
  buffer that is large enough, and otherwise reports \<open>stream full\<close> without writing past the
  buffer.
\<close>

unbundle bit_operations_syntax

section \<open>Values\<close>

lemma peek_load_signed:
  "peek_signed (peek A m) sz p = Some v \<Longrightarrow> load_signed sz m p = Some v"
  by (auto simp: peek_signed_def load_signed_def split: if_splits dest!: peek_word_Some)

lemma peek_load_unsigned:
  "peek_unsigned (peek A m) sz p = Some v \<Longrightarrow> load_unsigned sz m p = Some v"
  by (auto simp: peek_unsigned_def load_unsigned_def split: if_splits dest!: peek_word_Some)

text \<open>The second pass of \<open>pb_encode_submessage\<close>, to a stream limited to the counted size.\<close>

lemma submessage_body_writes:
  assumes enc: "writes A m0 (enc flds src) bs"
  shows "writes A m0 (submessage_body enc E flds src (of_nat (length bs))) bs"
proof (rule writesI)
  fix s m
  assume len: "length bs < 2 ^ 63" and rdy: "o_ready A s" and mem: "same_on A m0 m"
  let ?n = "of_nat (length bs) :: u64"
  let ?body = "submessage_body enc E flds src ?n"
  have n: "unat ?n = length bs"
    using len by (simp add: unat_of_nat take_bit_nat_eq_self)
  have room: "max_size s < bytes_written s + ?n \<longleftrightarrow> \<not> o_fits s (length bs)"
    if "o_callback s = O_buf_write"
  proof -
    have "unat (bytes_written s + ?n) = unat (bytes_written s) + length bs"
      using that rdy len n by (auto simp: o_ready_def word_le_nat_alt unat_word_ariths)
    then show ?thesis
      using that rdy by (auto simp: word_less_nat_alt o_ready_def o_fits_def o_free_def word_le_nat_alt)
  qed
  show "?body (s, m) = (Ret (), put bs (s, m))" if fits: "o_fits s (length bs)"
  proof (cases "o_callback s = O_NULL")
    case True
    then show ?thesis
      by (simp add: submessage_body_def pb_write_def put_def o_adv_def)
  next
    case False
    then have buf: "o_callback s = O_buf_write"
      using rdy by (simp add: o_ready_def)
    let ?s = "s\<lparr>max_size := ?n, bytes_written := 0, o_errmsg := None\<rparr>"
    have "region (o_state s) (length bs) \<subseteq> region (o_state s) (o_free s)"
      using fits buf by (auto simp: o_fits_def region_def)
    then have "o_ready A ?s" and "o_fits ?s (length bs)"
      using rdy buf len n by (auto simp: o_ready_def o_fits_def o_free_def)
    from writes_fits [OF enc len this(1) mem this(2)]
    show ?thesis
      using buf room [OF buf] fits rdy
      by (simp add: submessage_body_def put_def o_adv_def o_ready_def Let_def)
  qed
  show "full (s, m) (?body (s, m))" if nfit: "\<not> o_fits s (length bs)"
  proof -
    have buf: "o_callback s = O_buf_write"
      using nfit rdy by (simp add: o_fits_def o_ready_def)
    then show ?thesis
      using room [OF buf] nfit rdy
      by (simp add: submessage_body_def oerror_def oset_error_def full_def o_ready_def)
  qed
qed

lemma encode_submessage_writes:
  assumes enc: "writes A m0 (enc flds src) bs"
  shows "writes A m0 (pb_encode_submessage E enc flds src) (delimited bs)"
proof (rule writesI)
  fix s m
  assume len: "length (delimited bs) < 2 ^ 63" and rdy: "o_ready A s" and mem: "same_on A m0 m"
  let ?n = "of_nat (length bs) :: u64"
  have lenb: "length bs < 2 ^ 63" and n: "unat ?n = length bs"
    using len by (simp_all add: delimited_def unat_of_nat take_bit_nat_eq_self)
  have "enc flds src (PB_OSTREAM_SIZING, m) = (Ret (), put bs (PB_OSTREAM_SIZING, m))"
    by (rule writes_fits [OF enc lenb _ mem])
      (simp_all add: o_ready_def o_fits_def PB_OSTREAM_SIZING_def)
  then have sizing: "enc flds src (PB_OSTREAM_SIZING, m) =
      (Ret (), (o_adv (length bs) PB_OSTREAM_SIZING, m))"
    by (simp add: put_def PB_OSTREAM_SIZING_def)
  have run: "pb_encode_submessage E enc flds src (s, m) =
      seq (pb_encode_varint E ?n) (submessage_body enc E flds src ?n) (s, m)"
    by (simp add: pb_encode_submessage_def sizing) (simp add: PB_OSTREAM_SIZING_def)
  have w: "writes A m0 (seq (pb_encode_varint E ?n) (submessage_body enc E flds src ?n)) (delimited bs)"
    unfolding delimited_def by (intro writes_seq pb_encode_varint_writes submessage_body_writes enc)
  show "o_fits s (length (delimited bs)) \<Longrightarrow>
      pb_encode_submessage E enc flds src (s, m) = (Ret (), put (delimited bs) (s, m))"
    unfolding run by (rule writes_fits [OF w len rdy mem])
  show "\<not> o_fits s (length (delimited bs)) \<Longrightarrow>
      full (s, m) (pb_encode_submessage E enc flds src (s, m))"
    unfolding run by (rule writes_full [OF w len rdy mem])
qed

text \<open>
  \<open>implements A m0 sub enc\<close>: the encoder of submessages writes the records that \<open>sub\<close> gives.
\<close>

definition implements :: "addr set \<Rightarrow> mem \<Rightarrow> sub_records \<Rightarrow> msg_encoder \<Rightarrow> bool" where
  "implements A m0 sub enc \<longleftrightarrow>
     (\<forall>flds p rs. sub flds p = Some rs \<longrightarrow> writes A m0 (enc flds p) (msg_bytes rs))"

lemma implementsD:
  "implements A m0 sub enc \<Longrightarrow> sub flds p = Some rs \<Longrightarrow> writes A m0 (enc flds p) (msg_bytes rs)"
  by (simp add: implements_def)

lemma bytes_size_ok:
  "unat d < unat (sz :: u32) + 4 \<longleftrightarrow> PB_BYTES_ARRAY_T_ALLOCSIZE (ucast sz) > ucast (d :: u32)"
proof -
  have "unat (PB_BYTES_ARRAY_T_ALLOCSIZE (ucast sz)) = unat sz + 4"
    using unat_u32_less [of sz]
    by (simp add: PB_BYTES_ARRAY_T_ALLOCSIZE_def unat_word_ariths)
  then show ?thesis
    by (simp add: word_less_nat_alt)
qed

lemma enc_bytes_writes:
  assumes "bytes_value (peek A m0) f p = Some bs"
  shows "writes A m0 (pb_enc_bytes E f p) (delimited bs)"
proof (rule writes_run)
  show "writes A m0 (pb_encode_string E bs (of_nat (length bs))) (delimited bs)"
    by (rule pb_encode_string_writes) (rule refl)
  fix s m assume m: "same_on A m0 m"
  then have "bytes_value (peek A m) f p = Some bs"
    using assms by (simp add: peek_same_on)
  then show "pb_enc_bytes E f p (s, m) = pb_encode_string E bs (of_nat (length bs)) (s, m)"
    by (auto simp: bytes_value_def pb_enc_bytes_def bytes_size_ok peek_Some Let_def
        split: if_splits bind_splits dest!: peek_word_Some)
qed

lemma enc_string_writes:
  assumes "string_value (peek A m0) f p = Some bs"
  shows "writes A m0 (pb_enc_string E f p) (delimited bs)"
proof (rule writes_run)
  show "writes A m0 (pb_encode_string E bs (of_nat (length bs))) (delimited bs)"
    by (rule pb_encode_string_writes) (rule refl)
  fix s m assume m: "same_on A m0 m"
  then have val: "string_value (peek A m) f p = Some bs"
    using assms by (simp add: peek_same_on)
  show "pb_enc_string E f p (s, m) = pb_encode_string E bs (of_nat (length bs)) (s, m)"
  proof (cases "p = 0")
    case True
    with val show ?thesis
      by (simp add: string_value_def pb_enc_string_def Let_def)
  next
    case False
    let ?mx = "if PB_ATYPE (ftype f) = PB_ATYPE_POINTER then 2 ^ 64 - 1 else unat (data_size f)"
    have "bs = load m p (strnlen m p ?mx) \<and> length bs = strnlen m p ?mx"
      using val False by (intro peek_string_Some [where A = A]) (simp only: string_value_def if_False)
    then show ?thesis
      using False by (simp only: pb_enc_string_def Let_def prod.case if_False length_load)
  qed
qed

text \<open>Every value has an encoder, and the tag written for its field has the wire type of the value.\<close>

lemma field_value_writes:
  assumes impl: "implements A m0 sub enc" and v: "field_value (peek A m0) sub f p = Some v"
  shows "writes A m0 (PB_ENCODERS E enc (PB_LTYPE (ftype f)) f p) (wval_bytes v)"
proof -
  have varint: "writes A m0 (pb_enc_varint E f p) (varint w)"
    if "peek_signed (peek A m0) (data_size f) p = Some w" for w
    by (rule writes_run [OF pb_encode_varint_writes])
      (use that in \<open>simp add: pb_enc_varint_def peek_load_signed [of A] peek_same_on\<close>)
  have uvarint: "writes A m0 (pb_enc_uvarint E f p) (varint w)"
    if "peek_unsigned (peek A m0) (data_size f) p = Some w" for w
    by (rule writes_run [OF pb_encode_varint_writes])
      (use that in \<open>simp add: pb_enc_uvarint_def peek_load_unsigned [of A] peek_same_on\<close>)
  have svarint: "writes A m0 (pb_enc_svarint E f p) (varint (zigzag w))"
    if "peek_signed (peek A m0) (data_size f) p = Some w" for w
    by (rule writes_run [OF pb_encode_svarint_writes])
      (use that in \<open>simp add: pb_enc_svarint_def peek_load_signed [of A] peek_same_on\<close>)
  have fixed32: "writes A m0 (pb_enc_fixed32 E f p) (fixed32_bytes w)"
    if "peek_word (peek A m0) p 4 = Some w" for w
    by (rule writes_run [OF pb_encode_fixed32_writes])
      (use that in \<open>auto simp: pb_enc_fixed32_def peek_same_on [symmetric] dest: peek_word_Some\<close>)
  have fixed64: "writes A m0 (pb_enc_fixed64 E f p) (fixed64_bytes w)"
    if "peek_word (peek A m0) p 8 = Some w" for w
    by (rule writes_run [OF pb_encode_fixed64_writes])
      (use that in \<open>auto simp: pb_enc_fixed64_def peek_same_on [symmetric] dest: peek_word_Some\<close>)
  have fixed_length: "writes A m0 (pb_enc_fixed_length_bytes E f p) (delimited bs)"
    if "peek A m0 p (unat (data_size f)) = Some bs" for bs
  proof (rule writes_run)
    show "writes A m0 (pb_encode_string E bs (of_nat (length bs))) (delimited bs)"
      by (rule pb_encode_string_writes) (rule refl)
    fix s m assume "same_on A m0 m"
    then have "peek A m p (unat (data_size f)) = Some bs"
      using that by (simp add: peek_same_on)
    then show "pb_enc_fixed_length_bytes E f p (s, m) = pb_encode_string E bs (of_nat (length bs)) (s, m)"
      by (simp add: pb_enc_fixed_length_bytes_def peek_Some)
  qed
  have submessage: "writes A m0 (pb_enc_submessage E enc f p) (delimited (msg_bytes rs))"
    if "ptr f \<noteq> 0" and "sub (ptr f) p = Some rs" for rs
    using that encode_submessage_writes [OF implementsD [OF impl]] by (simp add: pb_enc_submessage_def)
  show ?thesis
    using v
    by (auto simp: field_value_def PB_ENCODERS_def Let_def split: if_splits
        intro: varint uvarint svarint fixed32 fixed64 fixed_length submessage enc_bytes_writes
          enc_string_writes)
qed

section \<open>Arrays\<close>

lemma field_value_wiretype:
  "field_value r sub f p = Some v \<Longrightarrow> field_wiretype f = Some (wval_type v)"
  by (auto simp: field_value_def field_wiretype_def Let_def split: if_splits)

lemma array_item_wiretype:
  "array_item r sub f p = Some v \<Longrightarrow> field_wiretype f = Some (wval_type v)"
  by (auto simp: array_item_def intro: field_value_wiretype split: if_splits bind_splits)

lemma tag_for_field_writes:
  "field_wiretype f = Some wt \<Longrightarrow>
     writes A m0 (pb_encode_tag_for_field E f) (varint (tag_word wt (tag f)))"
  by (simp add: pb_encode_tag_for_field_def pb_encode_tag_writes)

lemma encode_items_writes:
  assumes "\<And>p v. val p = Some v \<Longrightarrow> writes A m0 (func f p) (wval_bytes v)"
    and "array_values val (unat (data_size f)) k p = Some vs"
  shows "writes A m0 (encode_items func f k p) (concat (map wval_bytes vs))"
  using assms(2)
proof (induction k arbitrary: p vs)
  case 0
  then show ?case by auto
next
  case (Suc k)
  then obtain v ws where "val p = Some v" and "vs = v # ws"
    and "array_values val (unat (data_size f)) k (p + unat (data_size f)) = Some ws"
    by (auto split: bind_splits)
  with Suc.IH assms(1) show ?case
    by (simp add: writes_seq)
qed

lemma array_item_writes:
  assumes impl: "implements A m0 sub enc" and v: "array_item (peek A m0) sub f p = Some v"
  shows "writes A m0 (\<lambda>(s, m).
      if PB_ATYPE (ftype f) = PB_ATYPE_POINTER
         \<and> (PB_LTYPE (ftype f) = PB_LTYPE_STRING \<or> PB_LTYPE (ftype f) = PB_LTYPE_BYTES)
      then PB_ENCODERS E enc (PB_LTYPE (ftype f)) f (load_ptr m p) (s, m)
      else PB_ENCODERS E enc (PB_LTYPE (ftype f)) f p (s, m)) (wval_bytes v)"
    (is "writes A m0 ?p _")
proof (cases "PB_ATYPE (ftype f) = PB_ATYPE_POINTER
         \<and> (PB_LTYPE (ftype f) = PB_LTYPE_STRING \<or> PB_LTYPE (ftype f) = PB_LTYPE_BYTES)")
  case True
  with v obtain q where q: "peek_ptr (peek A m0) p = Some q"
    and "field_value (peek A m0) sub f q = Some v"
    by (auto simp: array_item_def split: bind_splits)
  then have w: "writes A m0 (PB_ENCODERS E enc (PB_LTYPE (ftype f)) f q) (wval_bytes v)"
    by (intro field_value_writes [OF impl])
  show ?thesis
  proof (rule writes_run [OF w])
    fix s m assume "same_on A m0 m"
    with q have "load_ptr m p = q"
      by (metis peek_same_on peek_ptr_Some)
    with True show "?p (s, m) = PB_ENCODERS E enc (PB_LTYPE (ftype f)) f q (s, m)" by simp
  qed
next
  case False
  with v have "field_value (peek A m0) sub f p = Some v"
    by (simp add: array_item_def split: if_splits)
  then have w: "writes A m0 (PB_ENCODERS E enc (PB_LTYPE (ftype f)) f p) (wval_bytes v)"
    by (rule field_value_writes [OF impl])
  show ?thesis
    by (rule writes_run [OF w]) (simp add: False)
qed

lemma encode_tagged_items_writes:
  assumes impl: "implements A m0 sub enc"
    and "array_values (array_item (peek A m0) sub f) (unat (data_size f)) k p = Some vs"
  shows "writes A m0 (encode_tagged_items E (PB_ENCODERS E enc (PB_LTYPE (ftype f))) f k p)
    (msg_bytes (map (Pair (tag f)) vs))"
  using assms(2)
proof (induction k arbitrary: p vs)
  case 0
  then show ?case by auto
next
  case (Suc k)
  then obtain v ws where v: "array_item (peek A m0) sub f p = Some v" and vs: "vs = v # ws"
    and ws: "array_values (array_item (peek A m0) sub f) (unat (data_size f)) k
        (p + unat (data_size f)) = Some ws"
    by (auto split: bind_splits)
  have "msg_bytes (map (Pair (tag f)) vs) =
      varint (tag_word (wval_type v) (tag f)) @ wval_bytes v @ msg_bytes (map (Pair (tag f)) ws)"
    by (simp add: vs)
  then show ?case
    unfolding encode_tagged_items.simps
    by (simp only:) (intro writes_seq tag_for_field_writes array_item_wiretype [OF v]
        array_item_writes [OF impl v] Suc.IH [OF ws])
qed

lemma array_values_length: "array_values val sz k p = Some vs \<Longrightarrow> length vs = k"
  by (induction k arbitrary: p vs) (auto split: bind_splits)

lemma array_values_elem:
  "array_values val sz k p = Some vs \<Longrightarrow> v \<in> set vs \<Longrightarrow> \<exists>q. val q = Some v"
  by (induction k arbitrary: p vs) (auto split: bind_splits)

text \<open>The size of a packed array, computed or counted, is the length of what the items write.\<close>

lemma packed_length:
  assumes "\<And>v. v \<in> set vs \<Longrightarrow> length (wval_bytes v) = k"
  shows "length (concat (map wval_bytes vs)) = k * length vs"
  using assms by (induction vs) simp_all

lemma packed_size_run:
  assumes impl: "implements A m0 sub enc" and mem: "same_on A m0 m"
    and vs: "array_values (field_value (peek A m0) sub f) (unat (data_size f)) k p = Some vs"
    and len: "length (concat (map wval_bytes vs)) < 2 ^ 63"
  shows "packed_size (PB_ENCODERS E enc (PB_LTYPE (ftype f))) f k p (s, m) =
    (Ret (of_nat (length (concat (map wval_bytes vs)))), (s, m))"
proof -
  let ?bs = "concat (map wval_bytes vs)"
  have len32: "length ?bs = 4 * k" if "PB_LTYPE (ftype f) = PB_LTYPE_FIXED32"
    unfolding array_values_length [OF vs, symmetric]
    by (rule packed_length)
      (use that in \<open>auto simp: field_value_def Let_def fixed32_bytes_def dest!: array_values_elem [OF vs]\<close>)
  have len64: "length ?bs = 8 * k" if "PB_LTYPE (ftype f) = PB_LTYPE_FIXED64"
    unfolding array_values_length [OF vs, symmetric]
    by (rule packed_length)
      (use that in \<open>auto simp: field_value_def Let_def fixed64_bytes_def dest!: array_values_elem [OF vs]\<close>)
  have "writes A m0 (encode_items (PB_ENCODERS E enc (PB_LTYPE (ftype f))) f k p) ?bs"
    by (rule encode_items_writes [OF field_value_writes [OF impl] vs])
  then have "encode_items (PB_ENCODERS E enc (PB_LTYPE (ftype f))) f k p (PB_OSTREAM_SIZING, m) =
      (Ret (), put ?bs (PB_OSTREAM_SIZING, m))"
    by (rule writes_fits [OF _ len _ mem]) (simp_all add: o_ready_def o_fits_def PB_OSTREAM_SIZING_def)
  moreover have "put ?bs (PB_OSTREAM_SIZING, m) = (o_adv (length ?bs) PB_OSTREAM_SIZING, m)"
    by (simp add: put_def PB_OSTREAM_SIZING_def)
  moreover have "bytes_written (o_adv (length ?bs) PB_OSTREAM_SIZING) = of_nat (length ?bs)"
    by (simp add: PB_OSTREAM_SIZING_def)
  ultimately show ?thesis
    using len32 len64 by (simp add: packed_size_def)
qed

lemma encode_packed_writes:
  assumes impl: "implements A m0 sub enc"
    and vs: "array_values (field_value (peek A m0) sub f) (unat (data_size f)) k p = Some vs"
    and func_def: "func = PB_ENCODERS E enc (PB_LTYPE (ftype f))"
  shows "writes A m0
    (bnd (packed_size func f k p) (\<lambda>sz.
       seq (pb_encode_varint E sz) (\<lambda>(s, m).
         if o_callback s = O_NULL then pb_write E [] sz (s, m)
         else encode_items func f k p (s, m))))
    (delimited (concat (map wval_bytes vs)))"
proof (rule writes_run)
  let ?bs = "concat (map wval_bytes vs)"
  let ?n = "of_nat (length ?bs) :: u64"
  let ?items = "\<lambda>(s, m). if o_callback s = O_NULL then pb_write E [] ?n (s, m)
      else encode_items func f k p (s, m)"
  have items: "writes A m0 (encode_items func f k p) ?bs"
    unfolding func_def by (rule encode_items_writes [OF field_value_writes [OF impl] vs])
  have "writes A m0 ?items ?bs"
    using items by (auto simp: writes_def pb_write_def put_def o_adv_def o_fits_def)
  then show "writes A m0 (seq (pb_encode_varint E ?n) ?items) (delimited ?bs)"
    unfolding delimited_def by (intro writes_seq pb_encode_varint_writes)
  fix s m
  assume mem: "same_on A m0 m" and "length (delimited ?bs) < 2 ^ 63"
  then have "length ?bs < 2 ^ 63" by (simp add: delimited_def)
  then have "packed_size func f k p (s, m) = (Ret ?n, (s, m))"
    unfolding func_def by (rule packed_size_run [OF impl mem vs])
  then show "bnd (packed_size func f k p) (\<lambda>sz.
       seq (pb_encode_varint E sz) (\<lambda>(s, m).
         if o_callback s = O_NULL then pb_write E [] sz (s, m)
         else encode_items func f k p (s, m))) (s, m) = seq (pb_encode_varint E ?n) ?items (s, m)"
    by (rule bnd_Ret)
qed

lemma encode_array_writes:
  assumes impl: "implements A m0 sub enc"
    and rs: "array_records (peek A m0) sub f p count = Some rs"
  shows "writes A m0 (encode_array E (PB_ENCODERS E enc (PB_LTYPE (ftype f))) f p count) (msg_bytes rs)"
proof -
  consider "count = 0" "rs = []"
    | vs where "count \<noteq> 0" "\<not> (PB_ATYPE (ftype f) \<noteq> PB_ATYPE_POINTER \<and> count > array_size f)"
        "PB_LTYPE (ftype f) \<le> PB_LTYPE_LAST_PACKABLE"
        "array_values (field_value (peek A m0) sub f) (unat (data_size f)) (unat count) p = Some vs"
        "rs = [(tag f, W_packed vs)]"
    | vs where "count \<noteq> 0" "\<not> (PB_ATYPE (ftype f) \<noteq> PB_ATYPE_POINTER \<and> count > array_size f)"
        "\<not> PB_LTYPE (ftype f) \<le> PB_LTYPE_LAST_PACKABLE"
        "array_values (array_item (peek A m0) sub f) (unat (data_size f)) (unat count) p = Some vs"
        "rs = map (Pair (tag f)) vs"
    using rs by (auto simp: array_records_def split: if_splits bind_splits)
  then show ?thesis
  proof cases
    case 1
    then show ?thesis by (simp add: encode_array_def writes_ret)
  next
    case 2
    have "msg_bytes rs =
        varint (tag_word PB_WT_STRING (tag f)) @ delimited (concat (map wval_bytes vs))"
      by (simp add: 2)
    with 2 show ?thesis
      by (simp only: encode_array_def if_False if_True)
        (intro writes_seq pb_encode_tag_writes encode_packed_writes [OF impl _ refl])
  next
    case 3
    then show ?thesis
      by (simp only: encode_array_def if_False if_True) (rule encode_tagged_items_writes [OF impl])
  qed
qed

section \<open>Fields\<close>

lemma all_default_mono:
  assumes mono: "\<And>f p b. chk f p = Some b \<Longrightarrow> chk' f p = Some b"
    and all: "all_default chk it = Some b"
  shows "all_default chk' it = Some b"
proof -
  have "all_default chk' it = Some b"
    if "\<forall>f p b. chk f p = Some b \<longrightarrow> chk' f p = Some b" and "all_default chk it = Some b"
    using that
  proof (induction chk it rule: all_default.induct [case_names step])
    case (step chk it)
    note unf = all_default.simps [of chk it] all_default.simps [of chk' it]
    from step.prems(2) obtain c where c: "chk (cur it) (it_pData it) = Some c"
      by (cases "chk (cur it) (it_pData it)") (simp_all add: unf)
    with step.prems(1) have "chk' (cur it) (it_pData it) = Some c" by blast
    with c step.IH [OF c] step.prems show ?case
      by (cases c) (simp_all add: unf split: if_splits)
  qed
  with mono all show ?thesis by blast
qed

lemma default_value_Some:
  "default_value E n (peek A m) f p = Some b \<Longrightarrow> pb_check_proto3_default_value E n m f p = Some b"
proof (induction n arbitrary: f p b)
  case 0
  then show ?case by simp
next
  case (Suc n)
  have all: "all_default (pb_check_proto3_default_value E n m) it = Some c"
    if "all_default (default_value E n (peek A m)) it = Some c" for it c
    using that by (rule all_default_mono [rotated]) (rule Suc.IH)
  show ?case
    using Suc.prems
    by (auto simp: Let_def peek_Some load_Suc split: if_splits prod.splits
        dest!: peek_word_Some intro: all)
qed

lemma single_record_writes:
  assumes impl: "implements A m0 sub enc" and rs: "single_record (peek A m0) sub f p = Some rs"
  shows "writes A m0 (seq (pb_encode_tag_for_field E f) (PB_ENCODERS E enc (PB_LTYPE (ftype f)) f p))
    (msg_bytes rs)"
proof -
  from rs obtain v where v: "field_value (peek A m0) sub f p = Some v" and "rs = [(tag f, v)]"
    by (auto simp: single_record_def)
  then have "msg_bytes rs = varint (tag_word (wval_type v) (tag f)) @ wval_bytes v"
    by simp
  then show ?thesis
    by (simp only:) (intro writes_seq tag_for_field_writes field_value_wiretype [OF v]
        field_value_writes [OF impl v])
qed

lemma encode_basic_field_run:
  assumes p: "(if PB_ATYPE (ftype f) = PB_ATYPE_POINTER then peek_ptr (peek A m) p0 else Some p0) = Some p"
    and at: "PB_ATYPE (ftype f) = PB_ATYPE_STATIC \<or> PB_ATYPE (ftype f) = PB_ATYPE_POINTER"
  shows "PB_HTYPE (ftype f) = PB_HTYPE_REPEATED \<Longrightarrow> size_offset f \<noteq> 0 \<Longrightarrow>
      encode_basic_field E n enc f p0 (s, m) =
      encode_array E (PB_ENCODERS E enc (PB_LTYPE (ftype f))) f p
        (load_word m (ptr_add p0 (size_offset f)) 4) (s, m)"
    and "PB_HTYPE (ftype f) \<noteq> PB_HTYPE_REPEATED \<Longrightarrow>
      field_present E n (peek A m) f p0 p = Some present \<Longrightarrow>
      encode_basic_field E n enc f p0 (s, m) =
      (if present then seq (pb_encode_tag_for_field E f) (PB_ENCODERS E enc (PB_LTYPE (ftype f)) f p)
       else ret ()) (s, m)"
proof -
  have ptr: "PB_ATYPE (ftype f) = PB_ATYPE_POINTER \<Longrightarrow> load_ptr m p0 = p"
    and static: "PB_ATYPE (ftype f) \<noteq> PB_ATYPE_POINTER \<Longrightarrow> p0 = p"
    using p by (auto split: if_splits dest: peek_ptr_Some)
  show "PB_HTYPE (ftype f) = PB_HTYPE_REPEATED \<Longrightarrow> size_offset f \<noteq> 0 \<Longrightarrow>
      encode_basic_field E n enc f p0 (s, m) =
      encode_array E (PB_ENCODERS E enc (PB_LTYPE (ftype f))) f p
        (load_word m (ptr_add p0 (size_offset f)) 4) (s, m)"
    using ptr static by (auto simp: encode_basic_field_def Let_def)
  assume nrep: "PB_HTYPE (ftype f) \<noteq> PB_HTYPE_REPEATED"
    and pres: "field_present E n (peek A m) f p0 p = Some present"
  show "encode_basic_field E n enc f p0 (s, m) =
      (if present then seq (pb_encode_tag_for_field E f) (PB_ENCODERS E enc (PB_LTYPE (ftype f)) f p)
       else ret ()) (s, m)"
  proof (cases "PB_HTYPE (ftype f) = PB_HTYPE_REQUIRED")
    case True
    with pres ptr static show ?thesis
      by (auto simp: encode_basic_field_def Let_def field_present_def split: if_splits)
  next
    case nreq: False
    show ?thesis
    proof (cases "PB_HTYPE (ftype f) = PB_HTYPE_OPTIONAL")
      case True
      with nreq pres ptr static show ?thesis
        by (auto simp: encode_basic_field_def Let_def field_present_def peek_Some load_bool_def load_Suc
            split: if_splits bind_splits dest!: default_value_Some)
    next
      case False
      with nreq nrep pres ptr static show ?thesis
        by (auto simp: encode_basic_field_def Let_def field_present_def
            split: if_splits dest!: peek_word_Some)
    qed
  qed
qed

lemma encode_basic_field_writes:
  assumes impl: "implements A m0 sub enc"
    and at: "PB_ATYPE (ftype f) = PB_ATYPE_STATIC \<or> PB_ATYPE (ftype f) = PB_ATYPE_POINTER"
    and lt: "PB_LTYPE (ftype f) \<noteq> PB_LTYPE_EXTENSION"
    and rs: "field_records E n (peek A m0) sub f p0 = Some rs"
  shows "writes A m0 (encode_basic_field E n enc f p0) (msg_bytes rs)"
proof -
  let ?func = "PB_ENCODERS E enc (PB_LTYPE (ftype f))"
  obtain p where p: "(if PB_ATYPE (ftype f) = PB_ATYPE_POINTER then peek_ptr (peek A m0) p0
      else Some p0) = Some p"
    and rest: "(if PB_HTYPE (ftype f) = PB_HTYPE_REPEATED then
          if size_offset f = 0 then None
          else peek_word (peek A m0) (ptr_add p0 (size_offset f)) 4 \<bind> array_records (peek A m0) sub f p
        else do {
          present \<leftarrow> field_present E n (peek A m0) f p0 p;
          if present then single_record (peek A m0) sub f p else Some [] }) = Some rs"
    using rs at lt by (auto simp: field_records_def split: if_splits bind_splits)
  show ?thesis
  proof (cases "PB_HTYPE (ftype f) = PB_HTYPE_REPEATED")
    case True
    with rest obtain count where so: "size_offset f \<noteq> 0"
      and count: "peek_word (peek A m0) (ptr_add p0 (size_offset f)) 4 = Some count"
      and arr: "array_records (peek A m0) sub f p count = Some rs"
      by (auto split: if_splits bind_splits)
    show ?thesis
    proof (rule writes_run [OF encode_array_writes [OF impl arr, of E]])
      fix s m assume "same_on A m0 m"
      then have eq: "peek A m0 = peek A m" by (rule peek_same_on [symmetric])
      have "load_word m (ptr_add p0 (size_offset f)) 4 = count"
        using count peek_word_Some unfolding eq by metis
      then show "encode_basic_field E n enc f p0 (s, m) = encode_array E ?func f p count (s, m)"
        using encode_basic_field_run(1) [OF p [unfolded eq] at True so] by simp
    qed
  next
    case False
    with rest obtain present where pres: "field_present E n (peek A m0) f p0 p = Some present"
      and single: "(if present then single_record (peek A m0) sub f p else Some []) = Some rs"
      by (auto split: bind_splits)
    have "writes A m0 (if present then seq (pb_encode_tag_for_field E f) (?func f p) else ret ())
        (msg_bytes rs)"
      using single single_record_writes [OF impl, of f p rs E]
      by (cases present) (simp_all add: writes_ret)
    then show ?thesis
    proof (rule writes_run)
      fix s m assume "same_on A m0 m"
      then have eq: "peek A m0 = peek A m" by (rule peek_same_on [symmetric])
      show "encode_basic_field E n enc f p0 (s, m) =
          (if present then seq (pb_encode_tag_for_field E f) (?func f p) else ret ()) (s, m)"
        by (rule encode_basic_field_run(2) [OF p [unfolded eq] at False pres [unfolded eq]])
    qed
  qed
qed

lemma encode_iter_writes:
  assumes impl: "implements A m0 sub enc" and pos: "it_pos it < length (it_start it)"
    and rs: "field_records E n (peek A m0) sub (cur it) (it_pData it) = Some rs"
  shows "writes A m0 (encode_iter E n enc it) (msg_bytes rs)"
proof -
  let ?f = "cur it" and ?p = "it_pData it"
  show ?thesis
  proof (cases "PB_ATYPE (ftype ?f) = PB_ATYPE_CALLBACK \<or> PB_LTYPE (ftype ?f) = PB_LTYPE_EXTENSION")
    case True
    with rs have nil: "peek_ptr (peek A m0) ?p = Some 0" "rs = []"
      by (auto simp: field_records_def split: if_splits bind_splits)
    show ?thesis
    proof (rule writes_run)
      show "writes A m0 (ret ()) (msg_bytes rs)"
        using nil by (simp add: writes_ret)
      fix s m assume "same_on A m0 m"
      with nil have "load_ptr m ?p = 0"
        by (metis peek_same_on peek_ptr_Some)
      then show "encode_iter E n enc it (s, m) = ret () (s, m)"
        using True by (cases n)
          (auto simp: encode_iter_def encode_extension_field_def encode_field_def
            encode_callback_field_def Let_def)
    qed
  next
    case False
    with rs have at: "PB_ATYPE (ftype ?f) = PB_ATYPE_STATIC \<or> PB_ATYPE (ftype ?f) = PB_ATYPE_POINTER"
      by (auto simp: field_records_def split: if_splits)
    with False encode_basic_field_writes [OF impl at _ rs] show ?thesis
      by (auto simp: encode_iter_def encode_field_def Let_def)
  qed
qed

section \<open>Messages\<close>

lemma seqs_writes:
  assumes "\<And>i rs. i \<in> set js \<Longrightarrow> g i = Some rs \<Longrightarrow> writes A m0 (one i) (msg_bytes rs)"
    and "all_records g js = Some rs"
  shows "writes A m0 (seqs (map one js)) (msg_bytes rs)"
  using assms
proof (induction js arbitrary: rs)
  case Nil
  then show ?case by (simp add: writes_ret)
next
  case (Cons j js)
  from Cons.prems(2) obtain r1 r2 where r: "g j = Some r1" "all_records g js = Some r2" "rs = r1 @ r2"
    by (auto split: bind_splits)
  have "writes A m0 (one j) (msg_bytes r1)"
    by (rule Cons.prems(1)) (simp_all add: r)
  moreover have "writes A m0 (seqs (map one js)) (msg_bytes r2)"
    by (rule Cons.IH) (auto intro: Cons.prems r)
  ultimately show ?case
    by (simp add: r writes_seq)
qed

lemma pb_encode_implements: "implements A m0 (msg_records E n (peek A m0)) (pb_encode E n)"
proof (induction n)
  case 0
  show ?case by (simp add: implements_def)
next
  case (Suc n)
  show ?case
    unfolding implements_def
  proof (intro allI impI)
    fix flds src rs
    assume rs: "msg_records E (Suc n) (peek A m0) flds src = Some rs"
    let ?fs = "descs E flds" and ?one = "encode_iter E n (pb_encode E n)"
    from rs have ok: "table_ok ?fs"
      and all: "all_records (\<lambda>i. field_records E n (peek A m0) (msg_records E n (peek A m0)) (?fs ! i)
           (src + field_offset ?fs i)) [0..<length ?fs] = Some rs"
      by (auto simp: Let_def split: if_splits)
    have lay: "layout ?fs (field_offset ?fs)"
      using ok by (rule table_ok_layout)
    show "writes A m0 (pb_encode E (Suc n) flds src) (msg_bytes rs)"
    proof (cases "?fs = []")
      case True
      with all begin_empty [of src] show ?thesis
        by (cases "pb_field_iter_begin [] src") (simp add: writes_ret)
    next
      case False
      have "writes A m0 (seqs (map (\<lambda>i. ?one (iter_at ?fs (field_offset ?fs) src i)) [0..<length ?fs]))
          (msg_bytes rs)"
        by (rule seqs_writes [OF _ all]) (rule encode_iter_writes [OF Suc.IH]; simp)
      then have "writes A m0 (for_fields ?one (iter_at ?fs (field_offset ?fs) src 0)) (msg_bytes rs)"
        using False by (simp add: for_fields_iter_at [OF lay])
      then show ?thesis
        by (simp add: begin_iter_at [OF lay False])
    qed
  qed
qed

text \<open>The specification of the encoder, in the form the properties use.\<close>

lemma pb_encode_writes:
  "msg_records E n (peek A m0) flds src = Some rs \<Longrightarrow> writes A m0 (pb_encode E n flds src) (msg_bytes rs)"
  by (rule implementsD [OF pb_encode_implements])

lemma pb_encode_delimited_writes:
  assumes "msg_records E n (peek A m0) flds src = Some rs"
  shows "writes A m0 (pb_encode_delimited E n flds src) (delimited (msg_bytes rs))"
  unfolding pb_encode_delimited_def
  by (rule encode_submessage_writes) (rule pb_encode_writes [OF assms])

section \<open>Properties\<close>

lemma buffer_ready:
  assumes "unat bufsize < 2 ^ 63" and "region buf (unat bufsize) \<inter> A = {}"
  shows "o_ready A (pb_ostream_from_buffer buf bufsize)"
    and "o_fits (pb_ostream_from_buffer buf bufsize) k \<longleftrightarrow> k \<le> unat bufsize"
    and "o_free (pb_ostream_from_buffer buf bufsize) = unat bufsize"
  using assms by (simp_all add: o_ready_def o_fits_def o_free_def pb_ostream_from_buffer_def)

lemma sizing_ready: "o_ready A PB_OSTREAM_SIZING" "o_fits PB_OSTREAM_SIZING k"
  by (simp_all add: o_ready_def o_fits_def PB_OSTREAM_SIZING_def)

definition demo_records :: "record_t list" where
  "demo_records =
     [(1, W_varint 150), (2, W_varint 7), (3, W_packed [W_32bit 0x04030201, W_32bit 0x08070605]),
      (4, W_string [104, 105]), (5, W_msg [(1, W_varint 1)])]"

lemma demo_msg_records:
  "msg_records demo_env 3 (peek (region 100 40) demo_mem) 16 100 = Some demo_records"
  by code_simp

lemma demo_bytes:
  "msg_bytes demo_records =
     [8, 150, 1, 16, 7, 26, 8, 1, 2, 3, 4, 5, 6, 7, 8, 34, 2, 104, 105, 42, 2, 8, 1]"
  by code_simp

text \<open>
  C1: for a message whose wire records are defined, \<open>pb_encode\<close> to a buffer that is large enough
  succeeds, writes exactly the concatenated encodings of the records at the start of the buffer,
  counts them in \<open>bytes_written\<close>, changes nothing else in memory and sets no error message.
\<close>

theorem pb_encode_to_buffer:
  assumes "msg_records E n (peek A m) flds src = Some rs"
    and "length (msg_bytes rs) \<le> unat bufsize" and "unat bufsize < 2 ^ 63"
    and "region buf (unat bufsize) \<inter> A = {}"
  shows "\<exists>s'. pb_encode E n flds src (pb_ostream_from_buffer buf bufsize, m) =
      (Ret (), (s', store m buf (msg_bytes rs))) \<and>
    bytes_written s' = of_nat (length (msg_bytes rs)) \<and> o_errmsg s' = None"
proof -
  let ?s = "pb_ostream_from_buffer buf bufsize"
  have "pb_encode E n flds src (?s, m) = (Ret (), put (msg_bytes rs) (?s, m))"
    by (rule writes_fits [OF pb_encode_writes [OF assms(1)]])
      (use assms buffer_ready [OF assms(3,4)] in simp_all)
  then show ?thesis
    by (simp add: put_def pb_ostream_from_buffer_def)
qed

lemma pb_encode_to_buffer_witness:
  "\<exists>s'. pb_encode demo_env 3 16 100 (pb_ostream_from_buffer 200 30, demo_mem) =
      (Ret (), (s', store demo_mem 200
        [8, 150, 1, 16, 7, 26, 8, 1, 2, 3, 4, 5, 6, 7, 8, 34, 2, 104, 105, 42, 2, 8, 1])) \<and>
    bytes_written s' = 23 \<and> o_errmsg s' = None"
  using pb_encode_to_buffer [OF demo_msg_records, of 30 200] by (simp add: demo_bytes region_disjoint)

text \<open>
  C2: when the encoding does not fit into the buffer, \<open>pb_encode\<close> returns false with the message
  \<open>stream full\<close>, and every byte outside the buffer is unchanged.
\<close>

theorem pb_encode_stream_full:
  assumes "msg_records E n (peek A m) flds src = Some rs"
    and "unat bufsize < length (msg_bytes rs)" and "length (msg_bytes rs) < 2 ^ 63"
    and "region buf (unat bufsize) \<inter> A = {}"
  shows "\<exists>s' m'. pb_encode E n flds src (pb_ostream_from_buffer buf bufsize, m) = (Fail, (s', m')) \<and>
    o_errmsg s' = Some ''stream full'' \<and> same_except (region buf (unat bufsize)) m m'"
proof -
  let ?s = "pb_ostream_from_buffer buf bufsize"
  have "unat bufsize < 2 ^ 63"
    using assms(2,3) by simp
  note rdy = buffer_ready [OF this assms(4)]
  have "full (?s, m) (pb_encode E n flds src (?s, m))"
    by (rule writes_full [OF pb_encode_writes [OF assms(1)]]) (use assms rdy in simp_all)
  then show ?thesis
    using rdy by (cases "pb_encode E n flds src (?s, m)") (auto simp: full_def pb_ostream_from_buffer_def)
qed

lemma pb_encode_stream_full_witness:
  "\<exists>s' m'. pb_encode demo_env 3 16 100 (pb_ostream_from_buffer 200 22, demo_mem) = (Fail, (s', m')) \<and>
    o_errmsg s' = Some ''stream full'' \<and> same_except (region 200 22) demo_mem m'"
  using pb_encode_stream_full [OF demo_msg_records, of 22 200] by (simp add: demo_bytes region_disjoint)

text \<open>
  C3: \<open>pb_get_encoded_size\<close> returns the number of bytes that \<open>pb_encode\<close> writes, and leaves the
  memory alone.
\<close>

theorem pb_get_encoded_size_eq:
  assumes "msg_records E n (peek A m) flds src = Some rs" and "length (msg_bytes rs) < 2 ^ 63"
  shows "pb_get_encoded_size E n flds src m = (Ret (of_nat (length (msg_bytes rs))), m)"
proof -
  have "pb_encode E n flds src (PB_OSTREAM_SIZING, m) = (Ret (), put (msg_bytes rs) (PB_OSTREAM_SIZING, m))"
    by (rule writes_fits [OF pb_encode_writes [OF assms(1)] assms(2)])
      (simp_all add: sizing_ready)
  then show ?thesis
    by (simp add: pb_get_encoded_size_def put_def PB_OSTREAM_SIZING_def)
qed

lemma pb_get_encoded_size_witness: "pb_get_encoded_size demo_env 3 16 100 demo_mem = (Ret 23, demo_mem)"
  using pb_get_encoded_size_eq [OF demo_msg_records] by (simp add: demo_bytes)

text \<open>
  C4: \<open>pb_encode_delimited\<close> to a buffer writes the length of the encoding as a varint followed by
  the encoding; the count it makes beforehand is always the length it then writes, so the error
  \<open>submsg size changed\<close> does not occur without callbacks.
\<close>

theorem pb_encode_delimited_to_buffer:
  assumes "msg_records E n (peek A m) flds src = Some rs"
    and "length (delimited (msg_bytes rs)) \<le> unat bufsize" and "unat bufsize < 2 ^ 63"
    and "region buf (unat bufsize) \<inter> A = {}"
  shows "\<exists>s'. pb_encode_delimited E n flds src (pb_ostream_from_buffer buf bufsize, m) =
      (Ret (), (s', store m buf (varint (of_nat (length (msg_bytes rs))) @ msg_bytes rs))) \<and>
    o_errmsg s' = None"
proof -
  let ?s = "pb_ostream_from_buffer buf bufsize"
  have "pb_encode_delimited E n flds src (?s, m) = (Ret (), put (delimited (msg_bytes rs)) (?s, m))"
    by (rule writes_fits [OF pb_encode_delimited_writes [OF assms(1)]])
      (use assms buffer_ready [OF assms(3,4)] in simp_all)
  then show ?thesis
    by (simp add: put_def pb_ostream_from_buffer_def delimited_def)
qed

lemma pb_encode_delimited_witness:
  "\<exists>s'. pb_encode_delimited demo_env 3 16 100 (pb_ostream_from_buffer 200 30, demo_mem) =
      (Ret (), (s', store demo_mem 200
        (varint 23 @ [8, 150, 1, 16, 7, 26, 8, 1, 2, 3, 4, 5, 6, 7, 8, 34, 2, 104, 105, 42, 2, 8, 1]))) \<and>
    o_errmsg s' = None"
  using pb_encode_delimited_to_buffer [OF demo_msg_records, of 30 200]
  by (simp add: demo_bytes delimited_def varint_small region_disjoint)

end
