(* ===== verification/Pb_Decode.thy ===== *)
theory Pb_Decode
  imports Pb_Istream Pb_Common
begin

text \<open>
  The field and message decoders of \<open>nanopb/pb_decode.c\<close>, as the build compiles them: without
  \<open>PB_ENABLE_MALLOC\<close>, so pointer fields are refused. The destination structure is part of the
  memory the program runs in. As in \<open>Pb_Encode\<close>, the functions between two calls of the message
  decoder take it as their argument \<open>dec\<close>; \<open>dec True\<close> initialises the structure first
  (\<open>pb_decode\<close>) and \<open>dec False\<close> does not (\<open>pb_decode_noinit\<close>).
\<close>

unbundle bit_operations_syntax

type_synonym decoder = "pb_field \<Rightarrow> addr \<Rightarrow> (ist, unit) prog"
type_synonym msg_decoder = "bool \<Rightarrow> addr \<Rightarrow> addr \<Rightarrow> (ist, unit) prog"

definition on_mem :: "(mem, 'a) prog \<Rightarrow> (ist, 'a) prog" where
  "on_mem p = (\<lambda>(s, m). case p m of (r, m') \<Rightarrow> (r, (s, m')))"

section \<open>Decoders of single fields\<close>

text \<open>
  Storing an integer into a member of the size the descriptor gives: the memory afterwards, and
  the value the member then holds (\<open>clamped\<close>).
\<close>

definition store_signed :: "u32 \<Rightarrow> mem \<Rightarrow> addr \<Rightarrow> u64 \<Rightarrow> (mem \<times> u64) option" where
  "store_signed sz m dest v =
     (if sz = 8 then Some (store_word m dest 8 v, v)
      else if sz = 4 then Some (store_word m dest 4 (ucast v :: u32), scast (ucast v :: u32))
      else if sz = 2 then Some (store_word m dest 2 (ucast v :: 16 word), scast (ucast v :: 16 word))
      else if sz = 1 then Some (store_word m dest 1 (ucast v :: byte), scast (ucast v :: byte))
      else None)"

definition store_unsigned :: "u32 \<Rightarrow> mem \<Rightarrow> addr \<Rightarrow> u64 \<Rightarrow> (mem \<times> u64) option" where
  "store_unsigned sz m dest v =
     (if sz = 8 then Some (store_word m dest 8 v, v)
      else if sz = 4 then Some (store_word m dest 4 (ucast v :: u32), ucast (ucast v :: u32))
      else if sz = 2 then Some (store_word m dest 2 (ucast v :: 16 word), ucast (ucast v :: 16 word))
      else if sz = 1 then Some (store_word m dest 1 (ucast v :: byte), ucast (ucast v :: byte))
      else None)"

definition store_checked :: "(mem \<times> u64) option \<Rightarrow> u64 \<Rightarrow> (ist, unit) prog" where
  "store_checked st v = (\<lambda>(s, m).
     case st of
       None \<Rightarrow> ierror ''invalid data_size'' (s, m)
     | Some (m', clamped) \<Rightarrow>
         if clamped \<noteq> v then ierror ''integer too large'' (s, m') else (Ret (), (s, m')))"

definition pb_dec_varint :: "env \<Rightarrow> decoder" where
  "pb_dec_varint E f dest =
     bnd (pb_decode_varint E) (\<lambda>v (s, m).
       let svalue = (if data_size f = 8 then v else scast (ucast v :: u32))
       in store_checked (store_signed (data_size f) m dest svalue) svalue (s, m))"

definition pb_dec_uvarint :: "env \<Rightarrow> decoder" where
  "pb_dec_uvarint E f dest =
     bnd (pb_decode_varint E) (\<lambda>v (s, m).
       store_checked (store_unsigned (data_size f) m dest v) v (s, m))"

definition pb_dec_svarint :: "env \<Rightarrow> decoder" where
  "pb_dec_svarint E f dest =
     bnd (pb_decode_svarint E) (\<lambda>v (s, m).
       store_checked (store_signed (data_size f) m dest v) v (s, m))"

definition pb_dec_fixed32 :: "env \<Rightarrow> decoder" where
  "pb_dec_fixed32 E f dest =
     bnd (pb_decode_fixed32 E) (\<lambda>v (s, m). (Ret (), (s, store_word m dest 4 v)))"

definition pb_dec_fixed64 :: "env \<Rightarrow> decoder" where
  "pb_dec_fixed64 E f dest =
     bnd (pb_decode_fixed64 E) (\<lambda>v (s, m). (Ret (), (s, store_word m dest 8 v)))"

definition pb_dec_bytes :: "env \<Rightarrow> decoder" where
  "pb_dec_bytes E f dest =
     bnd (pb_decode_varint32 E) (\<lambda>sz.
       let alloc_size = PB_BYTES_ARRAY_T_ALLOCSIZE (ucast sz) in
       if sz > PB_SIZE_MAX then ierror ''bytes overflow''
       else if ucast sz > alloc_size then ierror ''size too large''
       else if PB_ATYPE (ftype f) = PB_ATYPE_POINTER then ierror ''no malloc support''
       else if alloc_size > ucast (data_size f) then ierror ''bytes overflow''
       else seq (\<lambda>(s, m). (Ret (), (s, store_word m dest 4 sz)))
         (bnd (pb_read E False (ucast sz)) (\<lambda>bs (s, m). (Ret (), (s, store m (dest + 4) bs)))))"

text \<open>The terminating zero is written also when the read fails.\<close>

definition pb_dec_string :: "env \<Rightarrow> decoder" where
  "pb_dec_string E f dest =
     bnd (pb_decode_varint32 E) (\<lambda>sz.
       let alloc_size = ucast (sz + 1) :: u64 in
       if alloc_size < ucast sz then ierror ''size too large''
       else if PB_ATYPE (ftype f) = PB_ATYPE_POINTER then ierror ''no malloc support''
       else if alloc_size > ucast (data_size f) then ierror ''string overflow''
       else bnd (attempt (pb_read E False (ucast sz))) (\<lambda>r (s, m).
         case r of
           Some bs \<Rightarrow> (Ret (), (s, store (store m dest bs) (dest + unat sz) [0]))
         | None \<Rightarrow> (Fail, (s, store m (dest + unat sz) [0]))))"

definition pb_dec_submessage :: "env \<Rightarrow> msg_decoder \<Rightarrow> decoder" where
  "pb_dec_submessage E dec f dest =
     bnd (pb_make_string_substream E) (\<lambda>sub.
       if ptr f = 0 then ierror ''invalid field descriptor''
       else bnd (on_sub (dec (PB_HTYPE (ftype f) = PB_HTYPE_REPEATED) (ptr f) dest) sub)
              (\<lambda>(r, sub'). finish_substream E r sub'))"

definition pb_dec_fixed_length_bytes :: "env \<Rightarrow> decoder" where
  "pb_dec_fixed_length_bytes E f dest =
     bnd (pb_decode_varint32 E) (\<lambda>sz.
       if sz > PB_SIZE_MAX then ierror ''bytes overflow''
       else if sz = 0 then
         (\<lambda>(s, m). (Ret (), (s, store m dest (replicate (unat (data_size f)) 0))))
       else if sz \<noteq> data_size f then ierror ''incorrect fixed length bytes size''
       else bnd (pb_read E False (ucast (data_size f)))
              (\<lambda>bs (s, m). (Ret (), (s, store m dest bs))))"

definition PB_DECODERS :: "env \<Rightarrow> msg_decoder \<Rightarrow> byte \<Rightarrow> decoder" where
  "PB_DECODERS E dec lt =
     (if lt = PB_LTYPE_VARINT then pb_dec_varint E
      else if lt = PB_LTYPE_UVARINT then pb_dec_uvarint E
      else if lt = PB_LTYPE_SVARINT then pb_dec_svarint E
      else if lt = PB_LTYPE_FIXED32 then pb_dec_fixed32 E
      else if lt = PB_LTYPE_FIXED64 then pb_dec_fixed64 E
      else if lt = PB_LTYPE_BYTES then pb_dec_bytes E
      else if lt = PB_LTYPE_STRING then pb_dec_string E
      else if lt = PB_LTYPE_SUBMESSAGE then pb_dec_submessage E dec
      else if lt = PB_LTYPE_FIXED_LENGTH_BYTES then pb_dec_fixed_length_bytes E
      else (\<lambda>f dest. stuck))"

section \<open>Default values\<close>

text \<open>The iterator made up for an extension field, whose value lies at \<open>dest\<close>.\<close>

definition iter_from_extension :: "env \<Rightarrow> mem \<Rightarrow> addr \<Rightarrow> pb_field_iter" where
  "iter_from_extension E m ext =
     (let flds = descs E (load_ptr m (load_ptr m ext + 16));
          it = snd (pb_field_iter_begin flds (load_ptr m (ext + 8)))
      in it\<lparr>it_pData := (if PB_ATYPE (ftype (entry flds 0)) = PB_ATYPE_POINTER then ext + 8
                         else load_ptr m (ext + 8)),
            it_pSize := ext + 24\<rparr>)"

text \<open>The list of extensions is followed for at most \<open>k\<close> entries.\<close>

fun default_extensions ::
    "env \<Rightarrow> (pb_field_iter \<Rightarrow> (mem, unit) prog) \<Rightarrow> nat \<Rightarrow> addr \<Rightarrow> (mem, unit) prog" where
  "default_extensions E one 0 ext = (if ext = 0 then ret () else stuck)"
| "default_extensions E one (Suc k) ext =
     (if ext = 0 then ret ()
      else seq (\<lambda>m. let m' = store_bool m (ext + 24) False in one (iter_from_extension E m' ext) m')
        (\<lambda>m. default_extensions E one k (load_ptr m (ext + 16)) m))"

definition set_message_defaults ::
    "env \<Rightarrow> (pb_field_iter \<Rightarrow> (mem, unit) prog) \<Rightarrow> addr \<Rightarrow> addr \<Rightarrow> (mem, unit) prog" where
  "set_message_defaults E one flds dest =
     (case pb_field_iter_begin (descs E flds) dest of (nonempty, it) \<Rightarrow>
        if nonempty then for_fields one it else ret ())"

text \<open>
  \<open>pb_field_set_to_default\<close>; the first \<open>store\<close> of a static field, and whether it is initialised
  after that, depend on the kind of field.
\<close>

fun pb_field_set_to_default :: "env \<Rightarrow> nat \<Rightarrow> pb_field_iter \<Rightarrow> (mem, unit) prog" where
  "pb_field_set_to_default E 0 it = stuck"
| "pb_field_set_to_default E (Suc n) it = (\<lambda>m.
     let f = cur it; t = ftype f; one = pb_field_set_to_default E n in
     if PB_LTYPE t = PB_LTYPE_EXTENSION then
       default_extensions E one n (load_ptr m (it_pData it)) m
     else if PB_ATYPE t = PB_ATYPE_STATIC then
       (let optional = (PB_HTYPE t = PB_HTYPE_OPTIONAL \<and> it_pSize it \<noteq> it_pData it);
            counted = (PB_HTYPE t = PB_HTYPE_REPEATED \<or> PB_HTYPE t = PB_HTYPE_ONEOF);
            m1 = (if optional then store_bool m (it_pSize it) False
                  else if counted then store_word m (it_pSize it) 4 (0 :: u32) else m);
            init_data = (optional \<or> \<not> counted)
        in if init_data then
             if PB_LTYPE t = PB_LTYPE_SUBMESSAGE
             then set_message_defaults E one (ptr f) (it_pData it) m1
             else if ptr f \<noteq> 0
             then (Ret (), store m1 (it_pData it) (load m1 (ptr f) (unat (data_size f))))
             else (Ret (), store m1 (it_pData it) (replicate (unat (data_size f)) 0))
           else (Ret (), m1))
     else if PB_ATYPE t = PB_ATYPE_POINTER then
       (let m1 = store_ptr m (it_pData it) 0
        in (Ret (), if PB_HTYPE t = PB_HTYPE_REPEATED \<or> PB_HTYPE t = PB_HTYPE_ONEOF
                    then store_word m1 (it_pSize it) 4 (0 :: u32) else m1))
     else (Ret (), m))"

definition pb_message_set_to_defaults :: "env \<Rightarrow> nat \<Rightarrow> addr \<Rightarrow> addr \<Rightarrow> (mem, unit) prog" where
  "pb_message_set_to_defaults E n flds dest =
     set_message_defaults E (pb_field_set_to_default E n) flds dest"

section \<open>Fields\<close>

text \<open>
  The loop over a packed array, on the substream. Every item takes at least one byte off it, so
  the bytes left bound the rounds. Its value is the C variable \<open>status\<close>.
\<close>

definition item_addr :: "pb_field_iter \<Rightarrow> u32 \<Rightarrow> addr" where
  "item_addr it i = it_pData it + unat (data_size (cur it) * i)"

fun packed_loop :: "decoder \<Rightarrow> pb_field_iter \<Rightarrow> nat \<Rightarrow> (ist, bool) prog" where
  "packed_loop func it k = (\<lambda>(s, m).
     let i = load_word m (it_pSize it) 4 :: u32 in
     if bytes_left s > 0 \<and> i < array_size (cur it) then
       (case k of
          0 \<Rightarrow> (Stuck, (s, m))
        | Suc k' \<Rightarrow>
            (case func (cur it) (item_addr it i) (s, m) of
               (Ret _, (s', m')) \<Rightarrow>
                 packed_loop func it k'
                   (s', store_word m' (it_pSize it) 4 (load_word m' (it_pSize it) 4 + 1 :: u32))
             | (Fail, w) \<Rightarrow> (Ret False, w)
             | (Stuck, w) \<Rightarrow> (Stuck, w)))
     else (Ret True, (s, m)))"

declare packed_loop.simps [simp del]

definition decode_packed :: "env \<Rightarrow> decoder \<Rightarrow> pb_field_iter \<Rightarrow> (ist, unit) prog" where
  "decode_packed E func it =
     bnd (pb_make_string_substream E) (\<lambda>sub.
       bnd (on_sub (packed_loop func it (unat (bytes_left sub))) sub) (\<lambda>(r, sub').
         bnd (lift_res r) (\<lambda>status.
           if bytes_left sub' \<noteq> 0 then ierror ''array overflow''
           else seq (pb_close_string_substream E sub') (if status then ret () else fail))))"

definition decode_static_field ::
    "env \<Rightarrow> nat \<Rightarrow> msg_decoder \<Rightarrow> u32 \<Rightarrow> pb_field_iter \<Rightarrow> (ist, unit) prog" where
  "decode_static_field E n dec wire_type it =
     (let f = cur it; func = PB_DECODERS E dec (PB_LTYPE (ftype f)); ht = PB_HTYPE (ftype f) in
      if ht = PB_HTYPE_REQUIRED then func f (it_pData it)
      else if ht = PB_HTYPE_OPTIONAL then
        seq (\<lambda>(s, m). (Ret (), (s, if it_pSize it \<noteq> it_pData it
                                   then store_bool m (it_pSize it) True else m)))
          (func f (it_pData it))
      else if ht = PB_HTYPE_REPEATED then
        if wire_type = PB_WT_STRING \<and> PB_LTYPE (ftype f) \<le> PB_LTYPE_LAST_PACKABLE
        then decode_packed E func it
        else (\<lambda>(s, m).
          let i = load_word m (it_pSize it) 4 :: u32 in
          if i \<ge> array_size f then ierror ''array overflow'' (s, m)
          else func f (item_addr it i) (s, store_word m (it_pSize it) 4 (i + 1)))
      else
        seq (\<lambda>(s, m). (Ret (), (s, store_word m (it_pSize it) 4 (tag f))))
          (seq (if PB_LTYPE (ftype f) = PB_LTYPE_SUBMESSAGE
                then seq (\<lambda>(s, m). (Ret (), (s, store m (it_pData it)
                                          (replicate (unat (data_size f)) 0))))
                       (on_mem (pb_message_set_to_defaults E n (ptr f) (it_pData it)))
                else ret ())
             (func f (it_pData it))))"

definition decode_pointer_field :: "u32 \<Rightarrow> pb_field_iter \<Rightarrow> (ist, unit) prog" where
  "decode_pointer_field wire_type it = ierror ''no malloc support''"

text \<open>
  The loop that calls a decoding callback until its substream is used up, for at most \<open>k\<close> rounds.
  The function pointer is read again in every round.
\<close>

definition call_decode :: "env \<Rightarrow> pb_field_iter \<Rightarrow> (ist, unit) prog" where
  "call_decode E it = (\<lambda>(s, m).
     let fn = load_ptr m (it_pData it) in
     if fn = 0 then (Stuck, (s, m)) else decode_cb E fn (cur it) (it_pData it + 8) (s, m))"

fun callback_loop :: "(ist, unit) prog \<Rightarrow> nat \<Rightarrow> (ist, unit) prog" where
  "callback_loop cb 0 = stuck"
| "callback_loop cb (Suc k) =
     seq cb (\<lambda>(s, m). if bytes_left s \<noteq> 0 then callback_loop cb k (s, m) else (Ret (), (s, m)))"

definition decode_callback_field :: "env \<Rightarrow> u32 \<Rightarrow> pb_field_iter \<Rightarrow> (ist, unit) prog" where
  "decode_callback_field E wire_type it = (\<lambda>(s, m).
     let cb = call_decode E it in
     if load_ptr m (it_pData it) = 0 then pb_skip_field E wire_type (s, m)
     else if wire_type = PB_WT_STRING then
       bnd (pb_make_string_substream E) (\<lambda>sub.
         bnd (on_sub (callback_loop cb (Suc (unat (bytes_left sub)))) sub) (\<lambda>(r, sub').
           case r of
             Ret _ \<Rightarrow> pb_close_string_substream E sub'
           | Fail \<Rightarrow> ierror ''callback failed''
           | Stuck \<Rightarrow> stuck)) (s, m)
     else
       bnd (read_raw_value E wire_type 10) (\<lambda>bs (s, m).
         bnd (on_sub cb (pb_istream_from_buffer (raw_buf E) (of_nat (length bs))))
           (\<lambda>(r, sub'). lift_res r) (s, store m (raw_buf E) bs)) (s, m))"

definition decode_field ::
    "env \<Rightarrow> nat \<Rightarrow> msg_decoder \<Rightarrow> u32 \<Rightarrow> pb_field_iter \<Rightarrow> (ist, unit) prog" where
  "decode_field E n dec wire_type it =
     (let at = PB_ATYPE (ftype (cur it)) in
      if at = PB_ATYPE_STATIC then decode_static_field E n dec wire_type it
      else if at = PB_ATYPE_POINTER then decode_pointer_field wire_type it
      else if at = PB_ATYPE_CALLBACK then decode_callback_field E wire_type it
      else ierror ''invalid field type'')"

section \<open>Extensions\<close>

definition default_extension_decoder ::
    "env \<Rightarrow> nat \<Rightarrow> msg_decoder \<Rightarrow> addr \<Rightarrow> u32 \<Rightarrow> u32 \<Rightarrow> (ist, unit) prog" where
  "default_extension_decoder E n dec ext t wire_type = (\<lambda>(s, m).
     let f = entry (descs E (load_ptr m (load_ptr m ext + 16))) 0 in
     if tag f \<noteq> t then (Ret (), (s, m))
     else let it = iter_from_extension E m ext
       in decode_field E n dec wire_type it (s, store_bool m (ext + 24) True))"

text \<open>\<open>pos\<close> is the number of bytes left at the start: the first handler that reads ends the loop.\<close>

fun decode_extension_loop ::
    "env \<Rightarrow> nat \<Rightarrow> msg_decoder \<Rightarrow> u32 \<Rightarrow> u32 \<Rightarrow> u64 \<Rightarrow> nat \<Rightarrow> addr \<Rightarrow> (ist, unit) prog" where
  "decode_extension_loop E n dec t wire_type pos k ext = (\<lambda>(s, m).
     if ext \<noteq> 0 \<and> pos = bytes_left s then
       (case k of
          0 \<Rightarrow> (Stuck, (s, m))
        | Suc k' \<Rightarrow>
            let fn = load_ptr m (load_ptr m ext) in
            seq (if fn \<noteq> 0 then ext_decode_cb E fn ext t wire_type
                 else default_extension_decoder E n dec ext t wire_type)
              (\<lambda>(s, m). decode_extension_loop E n dec t wire_type pos k' (load_ptr m (ext + 16)) (s, m))
              (s, m))
     else (Ret (), (s, m)))"

declare decode_extension_loop.simps [simp del]

definition decode_extension ::
    "env \<Rightarrow> nat \<Rightarrow> msg_decoder \<Rightarrow> u32 \<Rightarrow> u32 \<Rightarrow> pb_field_iter \<Rightarrow> (ist, unit) prog" where
  "decode_extension E n dec t wire_type it = (\<lambda>(s, m).
     decode_extension_loop E n dec t wire_type (bytes_left s) n (load_ptr m (it_pData it)) (s, m))"

definition find_extension_field :: "pb_field_iter \<Rightarrow> bool \<times> pb_field_iter" where
  "find_extension_field it =
     find_loop (Suc (length (it_start it))) (it_pos it)
       (\<lambda>f. PB_LTYPE (ftype f) = PB_LTYPE_EXTENSION) it"

section \<open>Messages\<close>

text \<open>\<open>fields_seen\<close> is an array of two words; \<open>mark_seen\<close> sets the bit of a required field.\<close>

definition PB_MAX_REQUIRED_FIELDS :: nat where
  "PB_MAX_REQUIRED_FIELDS = 64"

definition mark_seen :: "pb_field_iter \<Rightarrow> u32 list \<Rightarrow> u32 list" where
  "mark_seen it seen =
     (if is_required (cur it) \<and> it_req it < PB_MAX_REQUIRED_FIELDS
      then seen[it_req it div 32 := seen ! (it_req it div 32) OR push_bit (it_req it mod 32) 1]
      else seen)"

text \<open>
  An unknown tag: try the extensions, if the message has an extension field of a number not above
  the tag. The value says whether an extension took the field, where the iterator stands and from
  which number on extensions are looked for.
\<close>

definition decode_unknown ::
    "env \<Rightarrow> nat \<Rightarrow> msg_decoder \<Rightarrow> u32 \<Rightarrow> u32 \<Rightarrow> pb_field_iter \<Rightarrow> u32 \<Rightarrow>
     (ist, bool \<times> pb_field_iter \<times> u32) prog" where
  "decode_unknown E n dec t wire_type it range_start =
     (if t \<ge> range_start then
        (case find_extension_field it of (found, it') \<Rightarrow>
          let range_start' = (if found then tag (cur it') else - 1) in
          if t \<ge> range_start' then (\<lambda>(s, m).
            seq (decode_extension E n dec t wire_type it')
              (\<lambda>(s', m'). (Ret (bytes_left s \<noteq> bytes_left s', it', range_start'), (s', m'))) (s, m))
          else ret (False, it', range_start'))
      else ret (False, it, range_start))"

text \<open>
  The loop of \<open>pb_decode_noinit\<close>, for at most \<open>k\<close> rounds. Each round takes a tag off the stream,
  so a count above \<open>bytes_left\<close> is enough unless a callback puts bytes back.
\<close>

fun decode_loop ::
    "env \<Rightarrow> nat \<Rightarrow> msg_decoder \<Rightarrow> nat \<Rightarrow> pb_field_iter \<Rightarrow> u32 list \<Rightarrow> u32 \<Rightarrow>
     (ist, pb_field_iter \<times> u32 list) prog" where
  "decode_loop E n dec k it seen range_start = (\<lambda>(s, m).
     if bytes_left s = 0 then (Ret (it, seen), (s, m))
     else case k of
       0 \<Rightarrow> (Stuck, (s, m))
     | Suc k' \<Rightarrow>
         bnd (pb_decode_tag E) (\<lambda>r.
           if \<not> t_ok r then (if t_eof r then ret (it, seen) else fail)
           else case pb_field_iter_find it (t_tag r) of (found, it1) \<Rightarrow>
             if \<not> found then
               bnd (decode_unknown E n dec (t_tag r) (t_wire_type r) it1 range_start)
                 (\<lambda>(handled, it2, range_start').
                   if handled then decode_loop E n dec k' it2 seen range_start'
                   else seq (pb_skip_field E (t_wire_type r))
                          (decode_loop E n dec k' it2 seen range_start'))
             else seq (decode_field E n dec (t_wire_type r) it1)
                    (decode_loop E n dec k' it1 (mark_seen it1 seen) range_start)) (s, m))"

declare decode_loop.simps [simp del]

text \<open>The number of required fields and the type of the last field, found by going to the end.\<close>

function seek_end :: "pb_field_iter \<Rightarrow> nat \<times> byte \<times> pb_field_iter" where
  "seek_end it =
     (if fst (pb_field_iter_next it) then seek_end (snd (pb_field_iter_next it))
      else (it_req it, ftype (cur it), snd (pb_field_iter_next it)))"
  by pat_completeness auto
termination
  by (relation "measure (\<lambda>it. length (it_start it) - it_pos it)")
    (auto simp: next_pos_less dest: next_pos_less(3))

declare seek_end.simps [simp del]

definition required_total :: "pb_field_iter \<Rightarrow> nat" where
  "required_total it =
     (case seek_end it of (n, last_type, it') \<Rightarrow>
        if PB_HTYPE last_type = PB_HTYPE_REQUIRED \<and> tag (cur it') \<noteq> 0 then Suc n else n)"

text \<open>
  The check that all required fields were present. \<open>None\<close> is undefined behaviour: a read of
  \<open>fields_seen\<close> past its two words, or a shift of a 32-bit word by 32.
\<close>

definition whole_words_seen :: "nat \<Rightarrow> u32 list \<Rightarrow> bool option" where
  "whole_words_seen k seen =
     (if \<forall>w \<in> set (take k seen). w = - 1 then (if k \<le> length seen then Some True else None)
      else Some False)"

definition required_seen :: "nat \<Rightarrow> u32 list \<Rightarrow> bool option" where
  "required_seen count seen =
     (if count = 0 then Some True
      else case whole_words_seen (count div 32) seen of
        None \<Rightarrow> None
      | Some False \<Rightarrow> Some False
      | Some True \<Rightarrow>
          if count div 32 < length seen \<and> count mod 32 \<noteq> 0
          then Some (seen ! (count div 32) = drop_bit (32 - count mod 32) (- 1))
          else None)"

definition check_required :: "pb_field_iter \<Rightarrow> u32 list \<Rightarrow> (ist, unit) prog" where
  "check_required it seen =
     (case required_seen (required_total it) seen of
        None \<Rightarrow> stuck
      | Some True \<Rightarrow> ret ()
      | Some False \<Rightarrow> ierror ''missing required field'')"

definition decode_message ::
    "env \<Rightarrow> nat \<Rightarrow> msg_decoder \<Rightarrow> addr \<Rightarrow> addr \<Rightarrow> (ist, unit) prog" where
  "decode_message E n dec flds dest = (\<lambda>(s, m).
     bnd (decode_loop E n dec (Suc (unat (bytes_left s)))
            (snd (pb_field_iter_begin (descs E flds) dest)) [0, 0] 0)
       (\<lambda>(it, seen). check_required it seen) (s, m))"

fun pb_decode_noinit :: "env \<Rightarrow> nat \<Rightarrow> addr \<Rightarrow> addr \<Rightarrow> (ist, unit) prog" where
  "pb_decode_noinit E 0 flds dest = stuck"
| "pb_decode_noinit E (Suc n) flds dest =
     decode_message E n
       (\<lambda>init flds dest.
          if init then seq (on_mem (pb_message_set_to_defaults E n flds dest))
                         (pb_decode_noinit E n flds dest)
          else pb_decode_noinit E n flds dest)
       flds dest"

definition pb_decode :: "env \<Rightarrow> nat \<Rightarrow> addr \<Rightarrow> addr \<Rightarrow> (ist, unit) prog" where
  "pb_decode E n flds dest =
     seq (on_mem (pb_message_set_to_defaults E n flds dest)) (pb_decode_noinit E n flds dest)"

definition pb_decode_delimited :: "env \<Rightarrow> nat \<Rightarrow> addr \<Rightarrow> addr \<Rightarrow> (ist, unit) prog" where
  "pb_decode_delimited E n flds dest = with_substream E (pb_decode E n flds dest)"

end
