(* ===== verification/Pb_Store.thy ===== *)
theory Pb_Store
  imports Pb_Wire Pb_Decode
begin

text \<open>
  The abstract specification of the decoder: what the memory is after the records of a message
  have been stored into a structure. Like \<open>msg_records\<close> it knows nothing of streams: a value
  that is out of range, an array that is full, a store outside the set \<open>W\<close> of addresses of the
  structure, and whatever leaves the library, make it undefined. Records of unknown fields change
  nothing.
\<close>

unbundle bit_operations_syntax

section \<open>Stores\<close>

definition poke :: "addr set \<Rightarrow> addr \<Rightarrow> byte list \<Rightarrow> mem \<Rightarrow> mem option" where
  "poke W a bs m = (if region a (length bs) \<subseteq> W then Some (store m a bs) else None)"

definition poke_word :: "addr set \<Rightarrow> addr \<Rightarrow> nat \<Rightarrow> 'a::len word \<Rightarrow> mem \<Rightarrow> mem option" where
  "poke_word W a n w m = poke W a (le_bytes n w) m"

lemma poke_Some: "poke W a bs m = Some m' \<longleftrightarrow> region a (length bs) \<subseteq> W \<and> m' = store m a bs"
  by (auto simp: poke_def)

lemma poke_word_Some:
  "poke_word W a n w m = Some m' \<longleftrightarrow> region a n \<subseteq> W \<and> m' = store_word m a n w"
  by (auto simp: poke_word_def poke_Some store_word_def)

lemma poke_same_except: "poke W a bs m = Some m' \<Longrightarrow> same_except W m m'"
  by (auto simp: poke_Some intro: same_except_store)

lemma poke_word_same_except: "poke_word W a n w m = Some m' \<Longrightarrow> same_except W m m'"
  by (auto simp: poke_word_def intro: poke_same_except)

section \<open>Single values\<close>

text \<open>A signed or unsigned number goes into a member of the given size if it is in its range.\<close>

definition poke_signed :: "addr set \<Rightarrow> u32 \<Rightarrow> addr \<Rightarrow> u64 \<Rightarrow> mem \<Rightarrow> mem option" where
  "poke_signed W sz p v m =
     (if sz = 8 then poke_word W p 8 v m
      else if sz = 4 \<and> scast (ucast v :: u32) = v then poke_word W p 4 (ucast v :: u32) m
      else if sz = 2 \<and> scast (ucast v :: 16 word) = v then poke_word W p 2 (ucast v :: 16 word) m
      else if sz = 1 \<and> scast (ucast v :: byte) = v then poke_word W p 1 (ucast v :: byte) m
      else None)"

definition poke_unsigned :: "addr set \<Rightarrow> u32 \<Rightarrow> addr \<Rightarrow> u64 \<Rightarrow> mem \<Rightarrow> mem option" where
  "poke_unsigned W sz p v m =
     (if sz = 8 then poke_word W p 8 v m
      else if sz = 4 \<and> ucast (ucast v :: u32) = v then poke_word W p 4 (ucast v :: u32) m
      else if sz = 2 \<and> ucast (ucast v :: 16 word) = v then poke_word W p 2 (ucast v :: 16 word) m
      else if sz = 1 \<and> ucast (ucast v :: byte) = v then poke_word W p 1 (ucast v :: byte) m
      else None)"

type_synonym sub_store = "bool \<Rightarrow> addr \<Rightarrow> addr \<Rightarrow> record_t list \<Rightarrow> mem \<Rightarrow> mem option"

text \<open>
  A 32-bit field reads only the low 32 bits of a varint. A sized byte array is a count and the
  bytes, a string ends with a zero byte.
\<close>

definition store_value ::
    "addr set \<Rightarrow> sub_store \<Rightarrow> pb_field \<Rightarrow> wval \<Rightarrow> addr \<Rightarrow> mem \<Rightarrow> mem option" where
  "store_value W sub f v p m =
     (let lt = PB_LTYPE (ftype f); sz = data_size f in
      case v of
        W_varint w \<Rightarrow>
          if lt = PB_LTYPE_VARINT
          then poke_signed W sz p (if sz = 8 then w else scast (ucast w :: u32)) m
          else if lt = PB_LTYPE_UVARINT then poke_unsigned W sz p w m
          else if lt = PB_LTYPE_SVARINT then poke_signed W sz p (unzigzag w) m
          else None
      | W_32bit w \<Rightarrow> if lt = PB_LTYPE_FIXED32 then poke_word W p 4 w m else None
      | W_64bit w \<Rightarrow> if lt = PB_LTYPE_FIXED64 then poke_word W p 8 w m else None
      | W_string bs \<Rightarrow>
          if length bs \<ge> 2 ^ 32 - 1 then None
          else if lt = PB_LTYPE_BYTES then
            if PB_ATYPE (ftype f) = PB_ATYPE_POINTER \<or> unat sz < length bs + 4 then None
            else poke_word W p 4 (of_nat (length bs) :: u32) m \<bind> poke W (p + 4) bs
          else if lt = PB_LTYPE_STRING then
            if PB_ATYPE (ftype f) = PB_ATYPE_POINTER \<or> unat sz < length bs + 1 then None
            else poke W p bs m \<bind> poke W (p + length bs) [0]
          else if lt = PB_LTYPE_FIXED_LENGTH_BYTES then
            if bs = [] then poke W p (replicate (unat sz) 0) m
            else if length bs = unat sz then poke W p bs m else None
          else None
      | W_packed vs \<Rightarrow> None
      | W_msg rs \<Rightarrow>
          if lt = PB_LTYPE_SUBMESSAGE \<and> ptr f \<noteq> 0 \<and> length (msg_bytes rs) < 2 ^ 32
          then sub (PB_HTYPE (ftype f) = PB_HTYPE_REPEATED) (ptr f) p rs m
          else None)"

section \<open>Default values\<close>

definition default_store ::
    "addr set \<Rightarrow> (addr \<Rightarrow> addr \<Rightarrow> mem \<Rightarrow> mem option) \<Rightarrow> pb_field \<Rightarrow> addr \<Rightarrow> mem \<Rightarrow> mem option" where
  "default_store W sub f p m =
     (if PB_ATYPE (ftype f) \<noteq> PB_ATYPE_STATIC \<or> PB_LTYPE (ftype f) = PB_LTYPE_EXTENSION then None
      else do {
        m1 \<leftarrow> (if PB_HTYPE (ftype f) = PB_HTYPE_OPTIONAL \<and> ptr_add p (size_offset f) \<noteq> p
               then poke W (ptr_add p (size_offset f)) [0] m
               else if PB_HTYPE (ftype f) = PB_HTYPE_REPEATED \<or> PB_HTYPE (ftype f) = PB_HTYPE_ONEOF
               then poke_word W (ptr_add p (size_offset f)) 4 (0 :: u32) m
               else Some m);
        if PB_HTYPE (ftype f) = PB_HTYPE_REPEATED \<or> PB_HTYPE (ftype f) = PB_HTYPE_ONEOF then Some m1
        else if PB_LTYPE (ftype f) = PB_LTYPE_SUBMESSAGE then sub (ptr f) p m1
        else if ptr f \<noteq> 0 then poke W p (load m1 (ptr f) (unat (data_size f))) m1
        else poke W p (replicate (unat (data_size f)) 0) m1 })"

fun all_stores :: "(nat \<Rightarrow> mem \<Rightarrow> mem option) \<Rightarrow> nat list \<Rightarrow> mem \<Rightarrow> mem option" where
  "all_stores g [] m = Some m"
| "all_stores g (i # js) m = g i m \<bind> all_stores g js"

fun msg_defaults :: "env \<Rightarrow> addr set \<Rightarrow> nat \<Rightarrow> addr \<Rightarrow> addr \<Rightarrow> mem \<Rightarrow> mem option" where
  "msg_defaults E W 0 flds dest m = None"
| "msg_defaults E W (Suc n) flds dest m =
     (let fs = descs E flds in
      if table_ok fs
      then all_stores (\<lambda>i. default_store W (msg_defaults E W n) (fs ! i) (dest + field_offset fs i))
             [0..<length fs] m
      else None)"

section \<open>The records of a field\<close>

text \<open>Appending items to an array: the count is the member at \<open>ps\<close>.\<close>

definition item_at :: "pb_field \<Rightarrow> addr \<Rightarrow> u32 \<Rightarrow> addr" where
  "item_at f p i = p + unat (data_size f * i)"

fun store_items ::
    "addr set \<Rightarrow> sub_store \<Rightarrow> pb_field \<Rightarrow> addr \<Rightarrow> addr \<Rightarrow> wval list \<Rightarrow> mem \<Rightarrow> mem option" where
  "store_items W sub f ps p [] m = Some m"
| "store_items W sub f ps p (v # vs) m =
     (let i = load_word m ps 4 :: u32 in
      if i < array_size f then do {
        m1 \<leftarrow> store_value W sub f v (item_at f p i) m;
        m2 \<leftarrow> poke_word W ps 4 (load_word m1 ps 4 + 1 :: u32) m1;
        store_items W sub f ps p vs m2 }
      else None)"

definition store_field ::
    "addr set \<Rightarrow> (addr \<Rightarrow> addr \<Rightarrow> mem \<Rightarrow> mem option) \<Rightarrow> sub_store \<Rightarrow> pb_field \<Rightarrow> wval \<Rightarrow> addr \<Rightarrow>
     mem \<Rightarrow> mem option" where
  "store_field W dflt sub f v p m =
     (let ps = ptr_add p (size_offset f); ht = PB_HTYPE (ftype f) in
      if PB_ATYPE (ftype f) \<noteq> PB_ATYPE_STATIC then None
      else if ht = PB_HTYPE_REQUIRED then store_value W sub f v p m
      else if ht = PB_HTYPE_OPTIONAL then
        (if ps \<noteq> p then poke W ps [1] m else Some m) \<bind> store_value W sub f v p
      else if ht = PB_HTYPE_REPEATED then
        if wval_type v = PB_WT_STRING \<and> PB_LTYPE (ftype f) \<le> PB_LTYPE_LAST_PACKABLE then
          (case v of
             W_packed vs \<Rightarrow>
               if length (concat (map wval_bytes vs)) < 2 ^ 32
               then store_items W sub f ps p vs m else None
           | _ \<Rightarrow> None)
        else let i = load_word m ps 4 :: u32 in
          if i \<ge> array_size f then None
          else poke_word W ps 4 (i + 1) m \<bind> store_value W sub f v (item_at f p i)
      else do {
        m1 \<leftarrow> poke_word W ps 4 (tag f) m;
        m2 \<leftarrow> (if PB_LTYPE (ftype f) = PB_LTYPE_SUBMESSAGE
               then poke W p (replicate (unat (data_size f)) 0) m1 \<bind> dflt (ptr f) p
               else Some m1);
        store_value W sub f v p m2 })"

section \<open>The records of a message\<close>

text \<open>
  Which tables the specification covers: field numbers are different from each other and from
  zero and have at most 29 bits, there are no extension fields, and the number of required fields
  is below 64 and no multiple of 32 (but may be zero).
\<close>

definition tags_ok :: "pb_field list \<Rightarrow> bool" where
  "tags_ok fs \<longleftrightarrow> table_ok fs \<and> distinct (map tag fs) \<and>
     list_all (\<lambda>f. unat (tag f) < 2 ^ 29 \<and> PB_LTYPE (ftype f) \<noteq> PB_LTYPE_EXTENSION) fs \<and>
     required_count fs < PB_MAX_REQUIRED_FIELDS \<and>
     (required_count fs = 0 \<or> required_count fs mod 32 \<noteq> 0)"

definition field_of_tag :: "pb_field list \<Rightarrow> u32 \<Rightarrow> nat option" where
  "field_of_tag fs t = find (\<lambda>j. tag (fs ! j) = t) [0..<length fs]"

text \<open>A record that can be skipped: a value of one of the four wire types, not too long.\<close>

definition record_ok :: "record_t \<Rightarrow> bool" where
  "record_ok r \<longleftrightarrow> fst r \<noteq> 0 \<and> unat (fst r) < 2 ^ 29 \<and>
     (wval_type (snd r) = PB_WT_STRING \<longrightarrow> length (wval_bytes (snd r)) < 2 ^ 32)"

fun store_records ::
    "(nat \<Rightarrow> wval \<Rightarrow> mem \<Rightarrow> mem option) \<Rightarrow> pb_field list \<Rightarrow> record_t list \<Rightarrow> mem \<Rightarrow> mem option" where
  "store_records g fs [] m = Some m"
| "store_records g fs (r # rs) m =
     (if record_ok r then do {
        m1 \<leftarrow> (case field_of_tag fs (fst r) of None \<Rightarrow> Some m | Some j \<Rightarrow> g j (snd r) m);
        store_records g fs rs m1 }
      else None)"

definition required_present :: "pb_field list \<Rightarrow> record_t list \<Rightarrow> bool" where
  "required_present fs rs \<longleftrightarrow> list_all (\<lambda>f. is_required f \<longrightarrow> tag f \<in> fst ` set rs) fs"

fun msg_store :: "env \<Rightarrow> addr set \<Rightarrow> nat \<Rightarrow> sub_store" where
  "msg_store E W 0 init flds dest rs m = None"
| "msg_store E W (Suc n) init flds dest rs m =
     (let fs = descs E flds in
      if tags_ok fs \<and> required_present fs rs then do {
        m1 \<leftarrow> (if init then msg_defaults E W (Suc n) flds dest m else Some m);
        store_records
          (\<lambda>j v. store_field W (msg_defaults E W n) (msg_store E W n) (fs ! j) v
                   (dest + field_offset fs j)) fs rs m1 }
      else None)"

end
