(* ===== verification/Pb_Decode_Spec.thy ===== *)
theory Pb_Decode_Spec
  imports Pb_Store Pb_Demo
begin

text \<open>
  The decoder of \<open>Pb_Decode\<close> implements the specification of \<open>Pb_Store\<close>: reading the encoding of
  records from a buffer, it makes exactly the stores the specification makes of them. The buffer
  has to lie outside the addresses \<open>W\<close> of the structure.
\<close>

unbundle bit_operations_syntax

section \<open>Parsers that store what they read\<close>

definition i_clear :: "addr set \<Rightarrow> pb_istream \<Rightarrow> bool" where
  "i_clear W s \<longleftrightarrow> region (i_state s) (unat (bytes_left s)) \<inter> W = {}"

definition consumes :: "addr set \<Rightarrow> (ist, 'a) prog \<Rightarrow> byte list \<Rightarrow> mem \<Rightarrow> 'a \<Rightarrow> mem \<Rightarrow> bool" where
  "consumes W p bs m x m' \<longleftrightarrow> same_except W m m' \<and>
     (\<forall>s. starts bs (s, m) \<longrightarrow> i_clear W s \<longrightarrow> p (s, m) = (Ret x, (adv (length bs) s, m')))"

lemma consumesI:
  assumes "same_except W m m'"
    and "\<And>s. starts bs (s, m) \<Longrightarrow> i_clear W s \<Longrightarrow> p (s, m) = (Ret x, (adv (length bs) s, m'))"
  shows "consumes W p bs m x m'"
  using assms by (simp add: consumes_def)

lemma consumesD:
  "consumes W p bs m x m' \<Longrightarrow> starts bs (s, m) \<Longrightarrow> i_clear W s \<Longrightarrow>
     p (s, m) = (Ret x, (adv (length bs) s, m'))"
  by (simp add: consumes_def)

lemma consumes_same_except: "consumes W p bs m x m' \<Longrightarrow> same_except W m m'"
  by (simp add: consumes_def)

lemma starts_le: "starts bs (s, m) \<Longrightarrow> length bs \<le> unat (bytes_left s)"
  by (simp add: starts_def)

lemma i_clear_adv:
  assumes "i_clear W s" and "n \<le> unat (bytes_left s)"
  shows "i_clear W (adv n s)"
proof -
  have "region (i_state s + n) (unat (bytes_left s) - n) \<subseteq> region (i_state s) (unat (bytes_left s))"
    using assms(2) by (auto simp: region_def)
  then show ?thesis
    using assms by (auto simp: i_clear_def unat_minus_of_nat)
qed

lemma starts_same:
  assumes "starts bs (s, m)" and "i_clear W s" and "same_except W m m'"
  shows "starts bs (s, m')"
proof -
  have "region (i_state s) (length bs) \<subseteq> region (i_state s) (unat (bytes_left s))"
    using assms(1) by (auto simp: starts_def region_def)
  then have "load m' (i_state s) (length bs) = load m (i_state s) (length bs)"
    using assms(2,3) by (intro same_except_load [where A = W]) (auto simp: i_clear_def)
  then show ?thesis
    using assms(1) by (simp add: starts_def)
qed

lemma consumes_parses: "parses p bs x \<Longrightarrow> consumes W p bs m x m"
  by (simp add: consumes_def parses_def)

lemma consumes_ret: "consumes W (ret x) [] m x m"
  by (rule consumes_parses [OF parses_ret])

lemma consumes_bnd:
  assumes p: "consumes W p bs m x m1" and q: "consumes W (q x) cs m1 y m2"
  shows "consumes W (bnd p q) (bs @ cs) m y m2"
proof (rule consumesI)
  show "same_except W m m2"
    using p q by (auto simp: consumes_def intro: same_except_trans)
  fix s
  assume st: "starts (bs @ cs) (s, m)" and cl: "i_clear W s"
  note sts = starts_appendD [OF st]
  have cl': "i_clear W (adv (length bs) s)"
    using cl st by (intro i_clear_adv) (auto simp: starts_def)
  have "starts cs (adv (length bs) s, m1)"
    using starts_same [OF sts(2) cl'] p by (simp add: consumes_def)
  from consumesD [OF q this cl'] consumesD [OF p sts(1) cl]
  show "bnd p q (s, m) = (Ret y, (adv (length (bs @ cs)) s, m2))"
    by simp
qed

lemma consumes_bnd_parses:
  assumes "parses p bs x" and "consumes W (q x) cs m y m2"
  shows "consumes W (bnd p q) (bs @ cs) m y m2"
  using assms by (auto intro: consumes_bnd consumes_parses)

text \<open>The last step of a parser, and the first one, may change the memory without reading.\<close>

lemma consumes_step:
  assumes "same_except W m m'" and "\<And>s. p (s, m) = (Ret x, (s, m'))"
  shows "consumes W p [] m x m'"
  using assms by (simp add: consumes_def)

lemma consumes_bnd_step:
  assumes "consumes W p bs m x m1" and "same_except W m1 m2" and "\<And>s. q x (s, m1) = (Ret y, (s, m2))"
  shows "consumes W (bnd p q) bs m y m2"
proof -
  have "consumes W (bnd p q) (bs @ []) m y m2"
    by (rule consumes_bnd, rule assms(1), rule consumes_step, rule assms(2), rule assms(3))
  then show ?thesis by simp
qed

lemma consumes_step_bnd:
  assumes "same_except W m m1" and "\<And>s. p (s, m) = (Ret x, (s, m1))" and "consumes W (q x) bs m1 y m2"
  shows "consumes W (bnd p q) bs m y m2"
proof -
  have "consumes W (bnd p q) ([] @ bs) m y m2"
    by (rule consumes_bnd, rule consumes_step, rule assms(1), rule assms(2), rule assms(3))
  then show ?thesis by simp
qed

lemma consumes_run:
  assumes "consumes W q bs m x m'" and "\<And>s. p (s, m) = q (s, m)"
  shows "consumes W p bs m x m'"
  using assms by (simp add: consumes_def)

section \<open>Skipping\<close>

lemma parses_run:
  assumes "parses q bs x" and "\<And>s m. starts bs (s, m) \<Longrightarrow> p (s, m) = q (s, m)"
  shows "parses p bs x"
  using assms by (simp add: parses_def)

lemma parses_pb_read_1: "parses (pb_read E False 1) [b] [b]"
  by (rule parses_pb_read) simp

lemma skip_varint_loop_parses:
  "length (varint v) < k \<Longrightarrow> parses (skip_varint_loop E k) (varint v) ()"
proof (induction v arbitrary: k rule: varint.induct)
  case (1 v)
  then obtain k' where k: "k = Suc k'" by (cases k) auto
  show ?case
  proof (cases "v \<le> 0x7F")
    case True
    then show ?thesis
      unfolding k skip_varint_loop.simps
      by (simp only: varint_small) (rule parses_bnd_ret [OF parses_pb_read_1],
          simp add: small_byte_high)
  next
    case False
    have "parses (skip_varint_loop E k') (varint (drop_bit 7 v)) ()"
      using "1.IH" [OF False, of k'] "1.prems" by (simp only: k varint_big [OF False]) simp
    then have "parses (skip_varint_loop E (Suc k'))
        ([ucast (v AND 0x7F) OR 0x80] @ varint (drop_bit 7 v)) ()"
      unfolding skip_varint_loop.simps
      by (intro parses_bnd [OF parses_pb_read_1]) (simp add: byte_high Let_def)
    then show ?thesis
      by (simp add: k varint_big [OF False])
  qed
qed

lemma pb_skip_varint_parses: "parses (pb_skip_varint E) (varint v) ()"
proof (rule parsesI)
  fix s m assume st: "starts (varint v) (s, m)"
  then have "length (varint v) < Suc (unat (bytes_left s))"
    by (simp add: starts_def)
  from parsesD [OF skip_varint_loop_parses [OF this] st]
  show "pb_skip_varint E (s, m) = (Ret (), (adv (length (varint v)) s, m))"
    by (simp add: pb_skip_varint_def)
qed

lemma length_prefix_parses:
  "length bs < 2 ^ 32 \<Longrightarrow>
     parses (pb_decode_varint32 E) (varint (of_nat (length bs))) (of_nat (length bs))"
  using pb_decode_varint32_parses [of "of_nat (length bs)" E] by (simp add: unat_of_nat_u64)

lemma pb_skip_string_parses:
  assumes "length bs < 2 ^ 32"
  shows "parses (pb_skip_string E) (delimited bs) ()"
proof -
  have "parses (seq (pb_read E True (ucast (of_nat (length bs) :: u32))) (ret ())) bs ()"
    by (intro parses_bnd_ret [OF parses_pb_read])
      (use assms in \<open>simp_all add: unat_of_nat_u32 del: of_nat_numeral\<close>)
  then show ?thesis
    unfolding pb_skip_string_def delimited_def
    by (intro parses_bnd [OF length_prefix_parses [OF assms]])
qed

text \<open>Whatever the encoder wrote, the decoder can skip.\<close>

lemma pb_skip_field_parses:
  assumes "wval_type v = PB_WT_STRING \<Longrightarrow> length (wval_bytes v) < 2 ^ 32"
  shows "parses (pb_skip_field E (wval_type v)) (wval_bytes v) ()"
proof -
  have string: "parses (pb_skip_field E PB_WT_STRING) (delimited bs) ()"
    if "length (delimited bs) < 2 ^ 32" for bs
    using that pb_skip_string_parses [of bs E] by (simp add: pb_skip_field_def delimited_def)
  have fixed: "parses (seq (pb_read E True c) (ret ())) bs ()" if "unat c = length bs" for c bs
    by (intro parses_bnd_ret [OF parses_pb_read]) (simp_all add: that)
  show ?thesis
    using assms
    by (cases v) (auto simp: pb_skip_field_def pb_skip_varint_parses fixed64_bytes_def
        fixed32_bytes_def intro!: string [unfolded pb_skip_field_def, simplified] fixed)
qed

section \<open>Substreams\<close>

text \<open>The substream of a length-delimited field, and the parent stream after it.\<close>

definition sub_stream :: "pb_istream \<Rightarrow> nat \<Rightarrow> nat \<Rightarrow> pb_istream" where
  "sub_stream s k n = (adv k s)\<lparr>bytes_left := of_nat n\<rparr>"

definition rest_stream :: "pb_istream \<Rightarrow> nat \<Rightarrow> nat \<Rightarrow> pb_istream" where
  "rest_stream s k n = (adv k s)\<lparr>bytes_left := bytes_left (adv k s) - of_nat n\<rparr>"

lemma make_substream_run:
  assumes st: "starts (delimited bs) (s, m)" and len: "length bs < 2 ^ 32"
  defines "k \<equiv> length (varint (of_nat (length bs)))"
  shows "pb_make_string_substream E (s, m) =
    (Ret (sub_stream s k (length bs)), (rest_stream s k (length bs), m))"
proof -
  have "pb_decode_varint32 E (s, m) = (Ret (of_nat (length bs)), (adv k s, m))"
    unfolding k_def
    by (rule parsesD [OF length_prefix_parses [OF len]]) (use st in \<open>simp add: delimited_def starts_append\<close>)
  moreover have u: "(ucast (of_nat (length bs) :: u32) :: u64) = of_nat (length bs)"
    using len by (intro word_unat_eq_iff [THEN iffD2]) (simp add: unat_of_nat_u32 unat_of_nat_u64)
  moreover have "length bs \<le> unat (bytes_left (adv k s))"
    using st unfolding k_def delimited_def starts_append by (intro starts_le [where m = m]) simp
  then have "\<not> bytes_left (adv k s) < of_nat (length bs)"
    using len by (simp add: word_less_nat_alt unat_of_nat_u64 del: adv_sel)
  ultimately show ?thesis
    by (simp add: pb_make_string_substream_def sub_stream_def rest_stream_def)
qed

lemma sub_stream_starts:
  assumes "starts (delimited bs) (s, m)" and "length bs < 2 ^ 32" and "i_clear W s"
  defines "k \<equiv> length (varint (of_nat (length bs)))"
  shows "starts bs (sub_stream s k (length bs), m)"
    and "i_clear W (sub_stream s k (length bs))"
    and "unat (bytes_left (sub_stream s k (length bs))) = length bs"
proof -
  have n: "unat (of_nat (length bs) :: u64) = length bs"
    using assms(2) by (simp add: unat_of_nat_u64)
  then show "unat (bytes_left (sub_stream s k (length bs))) = length bs"
    by (simp add: sub_stream_def)
  have st: "starts bs (adv k s, m)" and le: "k \<le> unat (bytes_left s)"
    using assms(1) unfolding k_def delimited_def starts_append by (auto dest: starts_le)
  with n show "starts bs (sub_stream s k (length bs), m)"
    by (simp add: starts_def sub_stream_def)
  have "region (i_state s + k) (length bs) \<subseteq> region (i_state s + k) (unat (bytes_left (adv k s)))"
    using starts_le [OF st] by (auto simp: region_def)
  with i_clear_adv [OF assms(3) le] n show "i_clear W (sub_stream s k (length bs))"
    by (auto simp: i_clear_def sub_stream_def)
qed

lemma close_substream_run:
  "pb_close_string_substream E (adv n (sub_stream s k n)) (rest_stream s k n, m) =
     (Ret (), (adv (k + n) s, m))" if "n < 2 ^ 32"
  using that
  by (simp add: pb_close_string_substream_def sub_stream_def rest_stream_def adv_def ret_def bnd_def
      diff_diff_eq)

text \<open>
  A message parser uses up the stream it is given: \<open>decodes\<close> is \<open>consumes\<close> for streams that hold
  nothing else.
\<close>

definition decodes :: "addr set \<Rightarrow> (ist, 'a) prog \<Rightarrow> byte list \<Rightarrow> mem \<Rightarrow> 'a \<Rightarrow> mem \<Rightarrow> bool" where
  "decodes W p bs m x m' \<longleftrightarrow> same_except W m m' \<and>
     (\<forall>s. starts bs (s, m) \<longrightarrow> i_clear W s \<longrightarrow> unat (bytes_left s) = length bs \<longrightarrow>
        p (s, m) = (Ret x, (adv (length bs) s, m')))"

lemma decodesD:
  "decodes W p bs m x m' \<Longrightarrow> starts bs (s, m) \<Longrightarrow> i_clear W s \<Longrightarrow> unat (bytes_left s) = length bs \<Longrightarrow>
     p (s, m) = (Ret x, (adv (length bs) s, m'))"
  by (simp add: decodes_def)

lemma consumes_decodes: "consumes W p bs m x m' \<Longrightarrow> decodes W p bs m x m'"
  by (simp add: consumes_def decodes_def)

lemma on_sub_run:
  assumes "decodes W f bs m x m'" and "starts (delimited bs) (s, m)" and "length bs < 2 ^ 32"
    and "i_clear W s"
  defines "k \<equiv> length (varint (of_nat (length bs)))"
  shows "on_sub f (sub_stream s k (length bs)) (rest_stream s k (length bs), m) =
    (Ret (Ret x, adv (length bs) (sub_stream s k (length bs))), (rest_stream s k (length bs), m'))"
  using decodesD [OF assms(1) sub_stream_starts [OF assms(2-4)]] by (simp add: on_sub_def k_def)

lemma with_substream_consumes:
  assumes dec: "decodes W f bs m x m'" and len: "length bs < 2 ^ 32"
  shows "consumes W (with_substream E f) (delimited bs) m x m'"
proof (rule consumesI)
  show "same_except W m m'"
    using dec by (simp add: decodes_def)
  fix s assume st: "starts (delimited bs) (s, m)" and cl: "i_clear W s"
  show "with_substream E f (s, m) = (Ret x, (adv (length (delimited bs)) s, m'))"
    using make_substream_run [OF st len, of E] on_sub_run [OF dec st len cl]
      close_substream_run [OF len, of E s "length (varint (of_nat (length bs)))" m']
    by (simp add: with_substream_def finish_substream_def lift_res_def delimited_def)
qed

section \<open>Values\<close>

text \<open>\<open>stores W sub dec\<close>: the decoder of submessages makes the stores that \<open>sub\<close> gives.\<close>

definition stores :: "addr set \<Rightarrow> sub_store \<Rightarrow> msg_decoder \<Rightarrow> bool" where
  "stores W sub dec \<longleftrightarrow> (\<forall>init flds p rs m m'. sub init flds p rs m = Some m' \<longrightarrow>
     decodes W (dec init flds p) (msg_bytes rs) m () m')"

lemma storesD:
  "stores W sub dec \<Longrightarrow> sub init flds p rs m = Some m' \<Longrightarrow>
     decodes W (dec init flds p) (msg_bytes rs) m () m'"
  by (simp add: stores_def)

lemma poke_signed_Some:
  "poke_signed W sz p v m = Some m' \<Longrightarrow>
     store_signed sz m p v = Some (m', v) \<and> same_except W m m'"
  by (auto simp: poke_signed_def store_signed_def poke_word_Some split: if_splits
      intro: poke_word_same_except [unfolded poke_word_Some])

lemma poke_unsigned_Some:
  "poke_unsigned W sz p v m = Some m' \<Longrightarrow>
     store_unsigned sz m p v = Some (m', v) \<and> same_except W m m'"
  by (auto simp: poke_unsigned_def store_unsigned_def poke_word_Some split: if_splits
      intro: poke_word_same_except [unfolded poke_word_Some])

lemma dec_varint_consumes:
  assumes "poke_signed W (data_size f) p
      (if data_size f = 8 then w else scast (ucast w :: u32)) m = Some m'"
  shows "consumes W (pb_dec_varint E f p) (varint w) m () m'"
  unfolding pb_dec_varint_def
  by (rule consumes_bnd_step [OF consumes_parses [OF pb_decode_varint_parses]])
    (use poke_signed_Some [OF assms] in \<open>simp_all add: store_checked_def Let_def\<close>)

lemma dec_uvarint_consumes:
  assumes "poke_unsigned W (data_size f) p w m = Some m'"
  shows "consumes W (pb_dec_uvarint E f p) (varint w) m () m'"
  unfolding pb_dec_uvarint_def
  by (rule consumes_bnd_step [OF consumes_parses [OF pb_decode_varint_parses]])
    (use poke_unsigned_Some [OF assms] in \<open>simp_all add: store_checked_def\<close>)

lemma dec_svarint_consumes:
  assumes "poke_signed W (data_size f) p (unzigzag w) m = Some m'"
  shows "consumes W (pb_dec_svarint E f p) (varint w) m () m'"
proof -
  have "parses (pb_decode_svarint E) (varint w) (unzigzag w)"
    unfolding pb_decode_svarint_def by (intro parses_bnd_ret [OF pb_decode_varint_parses]) simp
  then show ?thesis
    unfolding pb_dec_svarint_def
    by (rule consumes_bnd_step [OF consumes_parses])
      (use poke_signed_Some [OF assms] in \<open>simp_all add: store_checked_def\<close>)
qed

lemma dec_fixed32_consumes:
  assumes "poke_word W p 4 w m = Some m'"
  shows "consumes W (pb_dec_fixed32 E f p) (fixed32_bytes w) m () m'"
  unfolding pb_dec_fixed32_def
  by (rule consumes_bnd_step [OF consumes_parses [OF pb_decode_fixed32_parses]])
    (use assms poke_word_same_except [OF assms] in \<open>simp_all add: poke_word_Some\<close>)

lemma dec_fixed64_consumes:
  assumes "poke_word W p 8 w m = Some m'"
  shows "consumes W (pb_dec_fixed64 E f p) (fixed64_bytes w) m () m'"
  unfolding pb_dec_fixed64_def
  by (rule consumes_bnd_step [OF consumes_parses [OF pb_decode_fixed64_parses]])
    (use assms poke_word_same_except [OF assms] in \<open>simp_all add: poke_word_Some\<close>)

lemma sized_read_parses:
  "length bs < 2 ^ 32 \<Longrightarrow> parses (pb_read E False (ucast (of_nat (length bs) :: u32))) bs bs"
  by (rule parses_pb_read) (simp add: unat_of_nat_u32)

lemma ucast_u32_less [simp]: "(ucast (a :: u32) :: u64) < ucast b \<longleftrightarrow> a < b"
  by (simp add: word_less_nat_alt)

lemma not_PB_SIZE_MAX_less: "\<not> PB_SIZE_MAX < n"
  by (simp add: PB_SIZE_MAX_def leD)

lemma dec_bytes_consumes:
  assumes len: "length bs < 2 ^ 32 - 1" and at: "PB_ATYPE (ftype f) \<noteq> PB_ATYPE_POINTER"
    and sz: "length bs + 4 \<le> unat (data_size f)"
    and st: "poke_word W p 4 (of_nat (length bs) :: u32) m = Some m1" "poke W (p + 4) bs m1 = Some m2"
  shows "consumes W (pb_dec_bytes E f p) (delimited bs) m () m2"
proof -
  let ?n = "of_nat (length bs) :: u32"
  have n: "unat ?n = length bs"
    using len by (simp add: unat_of_nat_u32)
  have "unat (PB_BYTES_ARRAY_T_ALLOCSIZE (ucast ?n)) = length bs + 4"
    using n len by (simp add: PB_BYTES_ARRAY_T_ALLOCSIZE_def unat_word_ariths)
  then have sizes: "\<not> ucast (data_size f) < PB_BYTES_ARRAY_T_ALLOCSIZE (ucast ?n)"
    "\<not> PB_BYTES_ARRAY_T_ALLOCSIZE (ucast ?n) < ucast ?n"
    using sz n by (simp_all add: word_less_nat_alt)
  note sizes = sizes not_PB_SIZE_MAX_less [of ?n]
  have "consumes W (seq (\<lambda>(s, m). (Ret (), (s, store_word m p 4 ?n)))
         (bnd (pb_read E False (ucast ?n)) (\<lambda>bs (s, m). (Ret (), (s, store m (p + 4) bs))))) bs m () m2"
  proof (rule consumes_step_bnd)
    show "same_except W m m1"
      using st(1) by (rule poke_word_same_except)
    show "(\<lambda>(s, m). (Ret (), (s, store_word m p 4 ?n))) (s, m) = (Ret (), (s, m1))" for s
      using st(1) by (simp add: poke_word_Some)
    show "consumes W (bnd (pb_read E False (ucast ?n)) (\<lambda>bs (s, m). (Ret (), (s, store m (p + 4) bs))))
        bs m1 () m2"
      by (rule consumes_bnd_step [OF consumes_parses [OF sized_read_parses]])
        (use len st(2) in \<open>auto simp: poke_Some intro: same_except_store\<close>)
  qed
  with len sizes at show ?thesis
    unfolding pb_dec_bytes_def delimited_def
    by (intro consumes_bnd_parses [OF length_prefix_parses]) (simp_all add: Let_def)
qed

lemma dec_string_consumes:
  assumes len: "length bs < 2 ^ 32 - 1" and at: "PB_ATYPE (ftype f) \<noteq> PB_ATYPE_POINTER"
    and sz: "length bs + 1 \<le> unat (data_size f)"
    and st: "poke W p bs m = Some m1" "poke W (p + length bs) [0] m1 = Some m2"
  shows "consumes W (pb_dec_string E f p) (delimited bs) m () m2"
proof -
  let ?n = "of_nat (length bs) :: u32"
  have n: "unat ?n = length bs"
    using len by (simp add: unat_of_nat_u32)
  have n1: "unat (?n + 1) = length bs + 1"
    using n len by (simp add: unat_word_ariths)
  have sizes: "\<not> data_size f < ?n + 1" "\<not> ?n + 1 < ?n"
    using sz n n1 by (simp_all add: word_less_nat_alt)
  have "consumes W (bnd (attempt (pb_read E False (ucast ?n))) (\<lambda>r (s, m).
         case r of
           Some bs \<Rightarrow> (Ret (), (s, store (store m p bs) (p + unat ?n) [0]))
         | None \<Rightarrow> (Fail, (s, store m (p + unat ?n) [0])))) bs m () m2"
    by (rule consumes_bnd_step [OF consumes_parses [OF attempt_parses [OF sized_read_parses]]])
      (use len st n same_except_trans [OF poke_same_except poke_same_except] in \<open>auto simp: poke_Some\<close>)
  with len sizes at show ?thesis
    unfolding pb_dec_string_def delimited_def
    by (intro consumes_bnd_parses [OF length_prefix_parses]) (simp_all add: Let_def)
qed

lemma dec_fixed_length_consumes:
  assumes len: "length bs < 2 ^ 32 - 1"
    and st: "if bs = [] then poke W p (replicate (unat (data_size f)) 0) m = Some m'
      else length bs = unat (data_size f) \<and> poke W p bs m = Some m'"
  shows "consumes W (pb_dec_fixed_length_bytes E f p) (delimited bs) m () m'"
proof -
  let ?n = "of_nat (length bs) :: u32"
  have n: "unat ?n = length bs"
    using len by (simp add: unat_of_nat_u32)
  note small = not_PB_SIZE_MAX_less [of ?n]
  show ?thesis
  proof (cases "bs = []")
    case True
    have "consumes W (\<lambda>(s, m). (Ret (), (s, store m p (replicate (unat (data_size f)) 0)))) [] m () m'"
      by (rule consumes_step)
        (use st True poke_same_except in \<open>auto simp: poke_Some\<close>)
    with True small show ?thesis
      unfolding pb_dec_fixed_length_bytes_def delimited_def
      by (intro consumes_bnd_parses [OF length_prefix_parses]) (simp_all add: Let_def)
  next
    case False
    with n have "?n \<noteq> 0" by (auto simp: unat_eq_0 [symmetric])
    moreover have "?n = data_size f"
      using st False n by (simp add: word_unat_eq_iff)
    moreover have "consumes W (bnd (pb_read E False (ucast ?n)) (\<lambda>bs (s, m). (Ret (), (s, store m p bs))))
        bs m () m'"
      by (rule consumes_bnd_step [OF consumes_parses [OF sized_read_parses]])
        (use len st False in \<open>auto simp: poke_Some intro: same_except_store\<close>)
    ultimately show ?thesis
      unfolding pb_dec_fixed_length_bytes_def delimited_def
      using small len by (intro consumes_bnd_parses [OF length_prefix_parses]) (simp_all add: Let_def)
  qed
qed

lemma dec_submessage_consumes:
  assumes dec: "stores W sub dec" and sub: "sub (PB_HTYPE (ftype f) = PB_HTYPE_REPEATED) (ptr f) p rs m = Some m'"
    and nz: "ptr f \<noteq> 0" and len: "length (msg_bytes rs) < 2 ^ 32"
  shows "consumes W (pb_dec_submessage E dec f p) (delimited (msg_bytes rs)) m () m'"
proof -
  have "consumes W (with_substream E (dec (PB_HTYPE (ftype f) = PB_HTYPE_REPEATED) (ptr f) p))
      (delimited (msg_bytes rs)) m () m'"
    by (rule with_substream_consumes [OF storesD [OF dec sub] len])
  then show ?thesis
    using nz by (simp add: pb_dec_submessage_def with_substream_def)
qed

lemma store_value_consumes:
  assumes dec: "stores W sub dec" and st: "store_value W sub f v p m = Some m'"
  shows "consumes W (PB_DECODERS E dec (PB_LTYPE (ftype f)) f p) (wval_bytes v) m () m'"
  using st
  by (auto simp: store_value_def PB_DECODERS_def Let_def not_less not_le
      split: wval.splits if_splits bind_splits
      intro: dec_varint_consumes dec_uvarint_consumes dec_svarint_consumes dec_fixed32_consumes
        dec_fixed64_consumes dec_bytes_consumes dec_string_consumes dec_fixed_length_consumes
        dec_submessage_consumes [OF dec])

section \<open>Default values\<close>

definition does :: "addr set \<Rightarrow> (mem, unit) prog \<Rightarrow> mem \<Rightarrow> mem \<Rightarrow> bool" where
  "does W p m m' \<longleftrightarrow> p m = (Ret (), m') \<and> same_except W m m'"

lemma does_seqs:
  assumes "\<And>i m m'. i \<in> set js \<Longrightarrow> g i m = Some m' \<Longrightarrow> does W (one i) m m'"
    and "all_stores g js m = Some m'"
  shows "does W (seqs (map one js)) m m'"
  using assms
proof (induction js arbitrary: m)
  case Nil
  then show ?case by (simp add: does_def)
next
  case (Cons j js)
  from Cons.prems(2) obtain m1 where m1: "g j m = Some m1" "all_stores g js m1 = Some m'"
    by (auto split: bind_splits)
  have "does W (one j) m m1"
    by (rule Cons.prems(1)) (simp_all add: m1)
  moreover have "does W (seqs (map one js)) m1 m'"
    by (rule Cons.IH) (auto intro: Cons.prems m1)
  ultimately show ?case
    by (auto simp: does_def intro: same_except_trans)
qed

lemma default_store_does:
  assumes sub: "\<And>flds p m m'. sub flds p m = Some m' \<Longrightarrow>
      does W (set_message_defaults E (pb_field_set_to_default E n) flds p) m m'"
    and it: "it_pSize it = ptr_add (it_pData it) (size_offset (cur it))"
    and st: "default_store W sub (cur it) (it_pData it) m = Some m'"
  shows "does W (pb_field_set_to_default E (Suc n) it) m m'"
proof -
  let ?f = "cur it" and ?p = "it_pData it"
  let ?h = "PB_HTYPE (ftype ?f)"
  let ?counted = "?h = PB_HTYPE_REPEATED \<or> ?h = PB_HTYPE_ONEOF"
  from st have at: "PB_ATYPE (ftype ?f) = PB_ATYPE_STATIC" "PB_LTYPE (ftype ?f) \<noteq> PB_LTYPE_EXTENSION"
    by (auto simp: default_store_def split: if_splits)
  with st obtain m1 where
    m1: "(if ?h = PB_HTYPE_OPTIONAL \<and> it_pSize it \<noteq> ?p then poke W (it_pSize it) [0] m
          else if ?counted then poke_word W (it_pSize it) 4 (0 :: u32) m else Some m) = Some m1"
    and m': "(if ?counted then Some m1
        else if PB_LTYPE (ftype ?f) = PB_LTYPE_SUBMESSAGE then sub (ptr ?f) ?p m1
        else if ptr ?f \<noteq> 0 then poke W ?p (load m1 (ptr ?f) (unat (data_size ?f))) m1
        else poke W ?p (replicate (unat (data_size ?f)) 0) m1) = Some m'"
    by (auto simp: default_store_def it split: if_splits bind_splits)
  have s1: "same_except W m m1"
    using m1 by (auto split: if_splits intro: poke_same_except poke_word_same_except)
  have "same_except W m1 m'"
    using m' sub by (auto split: if_splits intro: poke_same_except simp: does_def)
  with s1 have same: "same_except W m m'"
    by (rule same_except_trans)
  have "m1 = (if ?h = PB_HTYPE_OPTIONAL \<and> it_pSize it \<noteq> ?p then store_bool m (it_pSize it) False
      else if ?counted then store_word m (it_pSize it) 4 (0 :: u32) else m)"
    using m1 by (auto simp: poke_Some poke_word_Some store_bool_def split: if_splits)
  then have "pb_field_set_to_default E (Suc n) it m = (Ret (), m')"
    using m' at sub [of "ptr ?f" ?p m1 m']
    by (auto simp: Let_def poke_Some does_def split: if_splits)
  with same show ?thesis
    by (simp add: does_def)
qed

lemma msg_defaults_does:
  "msg_defaults E W n flds dest m = Some m' \<Longrightarrow> does W (pb_message_set_to_defaults E n flds dest) m m'"
proof (induction n arbitrary: flds dest m m')
  case 0
  then show ?case by simp
next
  case (Suc n)
  let ?fs = "descs E flds" and ?one = "pb_field_set_to_default E (Suc n)"
  from Suc.prems have ok: "table_ok ?fs"
    and all: "all_stores (\<lambda>i. default_store W (msg_defaults E W n) (?fs ! i)
        (dest + field_offset ?fs i)) [0..<length ?fs] m = Some m'"
    by (auto simp: Let_def split: if_splits)
  have lay: "layout ?fs (field_offset ?fs)"
    using ok by (rule table_ok_layout)
  show ?case
  proof (cases "?fs = []")
    case True
    with all begin_empty [of dest] show ?thesis
      by (cases "pb_field_iter_begin [] dest")
        (simp add: pb_message_set_to_defaults_def set_message_defaults_def does_def)
  next
    case False
    have "does W (seqs (map (\<lambda>i. ?one (iter_at ?fs (field_offset ?fs) dest i)) [0..<length ?fs])) m m'"
    proof (rule does_seqs [OF _ all])
      fix i a b
      assume "i \<in> set [0..<length ?fs]"
        and "default_store W (msg_defaults E W n) (?fs ! i) (dest + field_offset ?fs i) a = Some b"
      then show "does W (?one (iter_at ?fs (field_offset ?fs) dest i)) a b"
        by (intro default_store_does [where sub = "msg_defaults E W n"])
          (use Suc.IH in \<open>simp_all add: pb_message_set_to_defaults_def\<close>)
    qed
    then have "does W (for_fields ?one (iter_at ?fs (field_offset ?fs) dest 0)) m m'"
      using False by (simp add: for_fields_iter_at [OF lay])
    then show ?thesis
      by (simp add: pb_message_set_to_defaults_def set_message_defaults_def begin_iter_at [OF lay False]
          del: pb_field_set_to_default.simps)
  qed
qed

lemma on_mem_does: "does W p m m' \<Longrightarrow> on_mem p (s, m) = (Ret (), (s, m'))"
  by (simp add: does_def on_mem_def)

section \<open>Fields\<close>

lemma item_at_addr [simp]: "item_addr it i = item_at (cur it) (it_pData it) i"
  by (simp add: item_addr_def item_at_def)

lemma wval_bytes_nonempty [simp]: "wval_bytes v \<noteq> []"
  by (cases v) (simp_all add: delimited_def fixed32_bytes_def fixed64_bytes_def)

lemma length_concat_wval: "length vs \<le> length (concat (map wval_bytes vs))"
proof (induction vs)
  case (Cons v vs)
  have "Suc 0 \<le> length (wval_bytes v)"
    by (simp add: Suc_le_eq)
  moreover have "length (concat (map wval_bytes (v # vs))) =
      length (wval_bytes v) + length (concat (map wval_bytes vs))" by simp
  ultimately show ?case
    using Cons by simp
qed simp

lemma packed_loop_decodes:
  assumes dec: "stores W sub dec" and f: "f = cur it"
    and st: "store_items W sub f (it_pSize it) (it_pData it) vs m = Some m'" and k: "length vs \<le> k"
  shows "decodes W (packed_loop (PB_DECODERS E dec (PB_LTYPE (ftype f))) it k)
    (concat (map wval_bytes vs)) m True m'"
  using st k
proof (induction vs arbitrary: m k)
  case Nil
  have "packed_loop func it k (s, m) = (Ret True, (s, m))" if "bytes_left s = 0" for s func
    using that by (simp add: packed_loop.simps [of func it k] Let_def)
  with Nil show ?case
    by (simp add: decodes_def unat_eq_0)
next
  case (Cons v vs)
  let ?func = "PB_DECODERS E dec (PB_LTYPE (ftype f))"
  let ?i = "load_word m (it_pSize it) 4 :: u32"
  from Cons.prems(1) obtain m1 m2 where i: "?i < array_size f"
    and m1: "store_value W sub f v (item_at f (it_pData it) ?i) m = Some m1"
    and m2: "poke_word W (it_pSize it) 4 (load_word m1 (it_pSize it) 4 + 1 :: u32) m1 = Some m2"
    and rest: "store_items W sub f (it_pSize it) (it_pData it) vs m2 = Some m'"
    by (auto simp: Let_def split: if_splits bind_splits)
  from Cons.prems(2) obtain k' where k: "k = Suc k'" and k': "length vs \<le> k'"
    by (cases k) auto
  have item: "consumes W (?func f (item_at f (it_pData it) ?i)) (wval_bytes v) m () m1"
    by (rule store_value_consumes [OF dec m1])
  have ih: "decodes W (packed_loop ?func it k') (concat (map wval_bytes vs)) m2 True m'"
    by (rule Cons.IH [OF rest k'])
  have s1: "same_except W m m2"
    using item poke_word_same_except [OF m2] by (auto simp: consumes_def intro: same_except_trans)
  show ?case
    unfolding decodes_def
  proof (intro conjI allI impI)
    show "same_except W m m'"
      using s1 ih by (auto simp: decodes_def intro: same_except_trans)
    fix s
    assume all: "starts (concat (map wval_bytes (v # vs))) (s, m)" and cl: "i_clear W s"
      and left: "unat (bytes_left s) = length (concat (map wval_bytes (v # vs)))"
    then have st: "starts (wval_bytes v) (s, m)"
      and st': "starts (concat (map wval_bytes vs)) (adv (length (wval_bytes v)) s, m)"
      by (simp_all add: starts_append)
    have cl': "i_clear W (adv (length (wval_bytes v)) s)"
      using cl starts_le [OF st] by (rule i_clear_adv)
    have "0 < unat (bytes_left s)"
      using left by simp
    then have pos: "0 < bytes_left s"
      by (simp add: word_less_nat_alt)
    have left': "unat (bytes_left (adv (length (wval_bytes v)) s)) = length (concat (map wval_bytes vs))"
      using left starts_le [OF st] by (simp add: unat_minus_of_nat)
    have "store_word m1 (it_pSize it) 4 (load_word m1 (it_pSize it) 4 + 1 :: u32) = m2"
      using m2 by (simp add: poke_word_Some)
    then have "packed_loop ?func it k (s, m) = packed_loop ?func it k' (adv (length (wval_bytes v)) s, m2)"
      using consumesD [OF item st cl] pos i
      by (subst packed_loop.simps) (simp add: k f Let_def)
    also have "\<dots> = (Ret True, (adv (length (concat (map wval_bytes vs))) (adv (length (wval_bytes v)) s), m'))"
      by (rule decodesD [OF ih starts_same [OF st' cl' s1] cl' left'])
    finally show "packed_loop ?func it k (s, m) =
        (Ret True, (adv (length (concat (map wval_bytes (v # vs)))) s, m'))"
      by simp
  qed
qed

lemma decode_packed_consumes:
  assumes dec: "stores W sub dec" and f: "f = cur it"
    and st: "store_items W sub f (it_pSize it) (it_pData it) vs m = Some m'"
    and len: "length (concat (map wval_bytes vs)) < 2 ^ 32"
  shows "consumes W (decode_packed E (PB_DECODERS E dec (PB_LTYPE (ftype f))) it)
    (delimited (concat (map wval_bytes vs))) m () m'"
proof (rule consumesI)
  let ?bs = "concat (map wval_bytes vs)" and ?func = "PB_DECODERS E dec (PB_LTYPE (ftype f))"
  have loop: "decodes W (packed_loop ?func it (length ?bs)) ?bs m True m'"
    by (rule packed_loop_decodes [OF dec f st length_concat_wval])
  then show "same_except W m m'"
    by (simp add: decodes_def)
  fix s assume start: "starts (delimited ?bs) (s, m)" and cl: "i_clear W s"
  let ?k = "length (varint (of_nat (length ?bs)))"
  have "bytes_left (adv (length ?bs) (sub_stream s ?k (length ?bs))) = 0"
    by (simp add: sub_stream_def)
  then show "decode_packed E ?func it (s, m) = (Ret (), (adv (length (delimited ?bs)) s, m'))"
    using make_substream_run [OF start len, of E] on_sub_run [OF loop start len cl]
      close_substream_run [OF len, of E s ?k m'] sub_stream_starts(3) [OF start len cl]
    by (simp add: decode_packed_def lift_res_def delimited_def del: adv_sel)
qed

lemma store_field_consumes:
  assumes dec: "stores W sub dec"
    and dflt: "\<And>flds p m m'. dflt flds p m = Some m' \<Longrightarrow>
      does W (pb_message_set_to_defaults E n flds p) m m'"
    and it: "it_pSize it = ptr_add (it_pData it) (size_offset (cur it))"
    and st: "store_field W dflt sub (cur it) v (it_pData it) m = Some m'"
  shows "consumes W (decode_field E n dec (wval_type v) it) (wval_bytes v) m () m'"
proof -
  let ?f = "cur it" and ?p = "it_pData it" and ?ps = "it_pSize it"
  let ?func = "PB_DECODERS E dec (PB_LTYPE (ftype ?f))" and ?h = "PB_HTYPE (ftype ?f)"
  note val = store_value_consumes [OF dec, where f = ?f and v = v and m' = m' and E = E]
  have at: "PB_ATYPE (ftype ?f) = PB_ATYPE_STATIC"
    using st by (auto simp: store_field_def Let_def split: if_splits)
  then have field: "decode_field E n dec (wval_type v) it = decode_static_field E n dec (wval_type v) it"
    by (simp add: decode_field_def Let_def)
  show ?thesis
  proof (cases rule: PB_HTYPE_cases [of "ftype ?f"])
    case 1
    with st at val show ?thesis
      by (simp add: field decode_static_field_def store_field_def Let_def)
  next
    case 2
    with st at obtain m1 where m1: "(if ?ps \<noteq> ?p then poke W ?ps [1] m else Some m) = Some m1"
      and "store_value W sub ?f v ?p m1 = Some m'"
      by (auto simp: store_field_def Let_def it split: if_splits bind_splits)
    then have "consumes W (?func ?f ?p) (wval_bytes v) m1 () m'"
      by (intro val)
    then have "consumes W (seq (\<lambda>(s, m). (Ret (), (s, if ?ps \<noteq> ?p then store_bool m ?ps True else m)))
        (?func ?f ?p)) (wval_bytes v) m () m'"
      by (rule consumes_step_bnd [rotated 2])
        (use m1 poke_same_except [of W ?ps "[1]" m m1] in
          \<open>auto simp: store_bool_def poke_Some split: if_splits\<close>)
    with 2 show ?thesis
      by (simp add: field decode_static_field_def Let_def)
  next
    case 3
    show ?thesis
    proof (cases "wval_type v = PB_WT_STRING \<and> PB_LTYPE (ftype ?f) \<le> PB_LTYPE_LAST_PACKABLE")
      case True
      with st at 3 obtain vs where "v = W_packed vs"
        and "store_items W sub ?f ?ps ?p vs m = Some m'"
        and "length (concat (map wval_bytes vs)) < 2 ^ 32"
        by (auto simp: store_field_def Let_def it split: if_splits wval.splits)
      moreover have "decode_field E n dec (wval_type v) it = decode_packed E ?func it"
        unfolding field using 3 True by (simp add: decode_static_field_def Let_def)
      ultimately show ?thesis
        using decode_packed_consumes [OF dec refl, of it vs m m' E] by simp
    next
      case False
      let ?i = "load_word m ?ps 4 :: u32"
      from False st at 3 obtain m1 where i: "\<not> array_size ?f \<le> ?i"
        and m1: "poke_word W ?ps 4 (?i + 1) m = Some m1"
        and "store_value W sub ?f v (item_at ?f ?p ?i) m1 = Some m'"
        by (auto simp: store_field_def Let_def it split: if_splits bind_splits)
      then have "consumes W (?func ?f (item_at ?f ?p ?i)) (wval_bytes v) m1 () m'"
        by (intro val)
      then have "consumes W (seq (\<lambda>(s, m). (Ret (), (s, store_word m ?ps 4 (?i + 1))))
          (?func ?f (item_at ?f ?p ?i))) (wval_bytes v) m () m'"
        by (rule consumes_step_bnd [rotated 2])
          (use m1 poke_word_same_except [OF m1] in \<open>auto simp: poke_word_Some\<close>)
      then show ?thesis
        by (rule consumes_run)
          (use 3 False i in \<open>auto simp: field decode_static_field_def Let_def\<close>)
    qed
  next
    case 4
    let ?zero = "replicate (unat (data_size ?f)) (0 :: byte)"
    let ?prep = "if PB_LTYPE (ftype ?f) = PB_LTYPE_SUBMESSAGE
        then seq (\<lambda>(s, m). (Ret (), (s, store m ?p ?zero)))
               (on_mem (pb_message_set_to_defaults E n (ptr ?f) ?p))
        else ret ()"
    from 4 st at obtain m1 m2 where m1: "poke_word W ?ps 4 (tag ?f) m = Some m1"
      and m2: "(if PB_LTYPE (ftype ?f) = PB_LTYPE_SUBMESSAGE
               then poke W ?p ?zero m1 \<bind> dflt (ptr ?f) ?p else Some m1) = Some m2"
      and "store_value W sub ?f v ?p m2 = Some m'"
      by (auto simp: store_field_def Let_def it split: if_splits bind_splits)
    then have func: "consumes W (?func ?f ?p) (wval_bytes v) m2 () m'"
      by (intro val)
    have prep: "?prep (s, m1) = (Ret (), (s, m2)) \<and> same_except W m1 m2" for s
      using m2 dflt [of "ptr ?f" ?p "store m1 ?p ?zero" m2]
      by (auto simp: poke_Some on_mem_def does_def split: if_splits bind_splits
          intro: same_except_trans [OF poke_same_except [of W ?p ?zero]])
    have "consumes W (seq ?prep (?func ?f ?p)) (wval_bytes v) m1 () m'"
      by (rule consumes_step_bnd [OF conjunct2 [OF prep] conjunct1 [OF prep] func])
    then have "consumes W (seq (\<lambda>(s, m). (Ret (), (s, store_word m ?ps 4 (tag ?f))))
        (seq ?prep (?func ?f ?p))) (wval_bytes v) m () m'"
      by (rule consumes_step_bnd [rotated 2])
        (use m1 poke_word_same_except [OF m1] in \<open>auto simp: poke_word_Some\<close>)
    with 4 show ?thesis
      by (simp only: field decode_static_field_def Let_def) simp
  qed
qed

section \<open>Finding the field of a tag\<close>

definition iter_ok :: "pb_field list \<Rightarrow> addr \<Rightarrow> pb_field_iter \<Rightarrow> bool" where
  "iter_ok fs dest it \<longleftrightarrow>
     (if fs = [] then it = snd (pb_field_iter_begin [] dest)
      else \<exists>i < length fs. it = iter_at fs (field_offset fs) dest i)"

lemma tags_okD:
  assumes "tags_ok fs"
  shows "layout fs (field_offset fs)"
    and "j < length fs \<Longrightarrow> k < length fs \<Longrightarrow> tag (fs ! j) = tag (fs ! k) \<Longrightarrow> j = k"
    and "j < length fs \<Longrightarrow> PB_LTYPE (ftype (fs ! j)) \<noteq> PB_LTYPE_EXTENSION"
  using assms nth_eq_iff_index_eq [of "map tag fs" j k]
  by (auto simp: tags_ok_def table_ok_layout list_all_length)

lemma iter_ok_begin: "tags_ok fs \<Longrightarrow> iter_ok fs dest (snd (pb_field_iter_begin fs dest))"
  using begin_iter_at [OF tags_okD(1), of fs dest] by (auto simp: iter_ok_def)

lemma iter_ok_iter_at: "j < length fs \<Longrightarrow> iter_ok fs dest (iter_at fs (field_offset fs) dest j)"
  by (auto simp: iter_ok_def)

lemma field_of_tag_Some:
  "field_of_tag fs t = Some j \<Longrightarrow> j < length fs \<and> tag (fs ! j) = t"
  by (auto simp: field_of_tag_def find_Some_iff)

lemma field_of_tag_None:
  "field_of_tag fs t = None \<Longrightarrow> j < length fs \<Longrightarrow> tag (fs ! j) \<noteq> t"
  by (auto simp: field_of_tag_def find_None_iff)

lemma find_field_of_tag:
  assumes ok: "tags_ok fs" and it: "iter_ok fs dest it" and j: "field_of_tag fs t = Some j"
  shows "pb_field_iter_find it t = (True, iter_at fs (field_offset fs) dest j)"
proof -
  have jl: "j < length fs" and jt: "tag (fs ! j) = t"
    using field_of_tag_Some [OF j] by simp_all
  then obtain s where "s < length fs" and "it = iter_at fs (field_offset fs) dest s"
    using it by (auto simp: iter_ok_def split: if_splits)
  then show ?thesis
    using jl jt tags_okD [OF ok]
    by (auto intro!: find_iter_at_unique simp: matches_tag_def)
qed

lemma find_loop_miss:
  assumes ok: "tags_ok fs" and it: "iter_ok fs dest it"
    and miss: "\<And>j. j < length fs \<Longrightarrow> \<not> P (fs ! j)" and last: "\<not> P PB_LAST_FIELD"
  shows "\<exists>it'. find_loop (Suc (length (it_start it))) (it_pos it) P it = (False, it') \<and> iter_ok fs dest it'"
proof (cases "fs = []")
  case True
  with it have "it = snd (pb_field_iter_begin [] dest)"
    by (simp add: iter_ok_def)
  then have "it_start it = []" and "it_pos it = 0"
    by (simp_all add: pb_field_iter_begin_def Let_def)
  then have "find_loop (Suc (length (it_start it))) (it_pos it) P it = (False, it)"
    using last by (simp add: pb_field_iter_next_def entry_beyond Let_def)
  then show ?thesis
    using it by blast
next
  case False
  then obtain s where s: "s < length fs" and its: "it = iter_at fs (field_offset fs) dest s"
    using it by (auto simp: iter_ok_def)
  have "find (\<lambda>j. P (fs ! j)) ([s..<length fs] @ [0..<s]) = None"
    using miss s by (auto simp: find_None_iff)
  then have "find_loop (Suc (length fs)) s P (iter_at fs (field_offset fs) dest s) =
      (False, iter_at fs (field_offset fs) dest s)"
    using find_loop_iter_at [OF tags_okD(1) [OF ok] s s, of "Suc (length fs)" P dest] s by simp
  then show ?thesis
    using it its by auto
qed

lemma find_field_of_tag_None:
  assumes "tags_ok fs" and "iter_ok fs dest it" and "field_of_tag fs t = None" and "t \<noteq> 0"
  shows "\<exists>it'. pb_field_iter_find it t = (False, it') \<and> iter_ok fs dest it'"
  unfolding pb_field_iter_find_def
  by (rule find_loop_miss [OF assms(1,2)])
    (use assms(3,4) in \<open>auto simp: matches_tag_def dest: field_of_tag_None\<close>)

lemma find_extension_None:
  assumes "tags_ok fs" and "iter_ok fs dest it"
  shows "\<exists>it'. find_extension_field it = (False, it') \<and> iter_ok fs dest it'"
  unfolding find_extension_field_def
  by (rule find_loop_miss [OF assms])
    (use tags_okD(3) [OF assms(1)] in \<open>auto simp: PB_LAST_FIELD_def PB_LTYPE_def\<close>)

lemma decode_unknown_run:
  assumes "tags_ok fs" and "iter_ok fs dest it" and t: "unat t < 2 ^ 29"
  shows "\<exists>it' start'. decode_unknown E n dec t wt it start = ret (False, it', start') \<and> iter_ok fs dest it'"
proof -
  obtain it' where it': "find_extension_field it = (False, it')" "iter_ok fs dest it'"
    using find_extension_None [OF assms(1,2)] by blast
  have "\<not> (- 1 \<le> t)"
    using t by (simp add: word_le_nat_alt unsigned_minus_1_eq_mask mask_eq_exp_minus_1)
  then show ?thesis
    using it' assms(2) by (auto simp: decode_unknown_def)
qed

section \<open>The required fields seen\<close>

text \<open>\<open>req_index fs j\<close>: the position of entry \<open>j\<close> among the required ones.\<close>

definition req_index :: "pb_field list \<Rightarrow> nat \<Rightarrow> nat" where
  "req_index fs j = required_count (take j fs)"

definition seen_ok :: "pb_field list \<Rightarrow> u32 set \<Rightarrow> u32 list \<Rightarrow> bool" where
  "seen_ok fs T seen \<longleftrightarrow> length seen = 2 \<and> (\<forall>k < 64. bit (seen ! (k div 32)) (k mod 32) \<longleftrightarrow>
     (\<exists>j < length fs. is_required (fs ! j) \<and> req_index fs j = k \<and> tag (fs ! j) \<in> T))"

lemma required_count_append: "required_count (xs @ ys) = required_count xs + required_count ys"
  by (simp add: required_count_def)

lemma required_count_take_mono: "i \<le> j \<Longrightarrow> required_count (take i fs) \<le> required_count (take j fs)"
  by (metis le_add1 le_add_diff_inverse required_count_append take_add)

lemma req_index_less:
  assumes "j < length fs" and "is_required (fs ! j)"
  shows "req_index fs j < required_count fs"
proof -
  have "req_index fs j < required_count (take (Suc j) fs)"
    using assms by (simp add: req_index_def required_count_take_Suc)
  also have "\<dots> \<le> required_count (take (length fs) fs)"
    using assms by (intro required_count_take_mono) simp
  finally show ?thesis by simp
qed

lemma req_index_onto:
  "k < required_count fs \<Longrightarrow> \<exists>j < length fs. is_required (fs ! j) \<and> req_index fs j = k"
proof (induction fs rule: rev_induct)
  case Nil
  then show ?case by (simp add: required_count_def)
next
  case (snoc f fs)
  show ?case
  proof (cases "k < required_count fs")
    case True
    with snoc.IH obtain j where "j < length fs" "is_required (fs ! j)" "req_index fs j = k" by blast
    then show ?thesis
      by (intro exI [of _ j]) (simp add: nth_append req_index_def)
  next
    case False
    with snoc.prems have "is_required f" and "k = required_count fs"
      by (auto simp: required_count_append) (auto simp: required_count_def split: if_splits)
    then show ?thesis
      by (intro exI [of _ "length fs"]) (simp add: req_index_def)
  qed
qed

lemma seen_ok_start: "seen_ok fs {} [0, 0]"
  by (auto simp: seen_ok_def nth_Cons split: nat.splits)

lemma required_count_tags_ok: "tags_ok fs \<Longrightarrow> required_count fs < 64"
  by (simp add: tags_ok_def PB_MAX_REQUIRED_FIELDS_def)

lemma mark_seen_ok:
  assumes ok: "tags_ok fs" and j: "j < length fs" and seen: "seen_ok fs T seen"
  shows "seen_ok fs (insert (tag (fs ! j)) T) (mark_seen (iter_at fs (field_offset fs) dest j) seen)"
proof -
  let ?it = "iter_at fs (field_offset fs) dest j" and ?r = "req_index fs j"
  have len: "length seen = 2"
    using seen by (simp add: seen_ok_def)
  have uniq: "j' = j" if "j' < length fs" "tag (fs ! j') = tag (fs ! j)" for j'
    using tags_okD(2) [OF ok] that j by blast
  show ?thesis
  proof (cases "is_required (fs ! j)")
    case False
    then have "mark_seen ?it seen = seen"
      using j by (simp add: mark_seen_def)
    then show ?thesis
      using seen False uniq by (auto simp: seen_ok_def)
  next
    case True
    then have r: "?r < 64"
      using req_index_less [OF j True] required_count_tags_ok [OF ok] by simp
    then have mark: "mark_seen ?it seen =
        seen[?r div 32 := seen ! (?r div 32) OR push_bit (?r mod 32) 1]"
      using j True by (simp add: mark_seen_def req_index_def PB_MAX_REQUIRED_FIELDS_def)
    have bits: "bit (mark_seen ?it seen ! (k div 32)) (k mod 32) \<longleftrightarrow>
        bit (seen ! (k div 32)) (k mod 32) \<or> k = ?r" if k: "k < 64" for k
    proof (cases "k div 32 = ?r div 32")
      case True
      then have "k mod 32 = ?r mod 32 \<longleftrightarrow> k = ?r"
        by (metis div_mult_mod_eq)
      moreover have "?r div 32 < 2" using r by simp
      ultimately show ?thesis
        using True len by (auto simp: mark bit_simps)
    next
      case False
      then have "k \<noteq> ?r" by auto
      with False show ?thesis by (simp add: mark)
    qed
    show ?thesis
      unfolding seen_ok_def
    proof (intro conjI allI impI)
      show "length (mark_seen ?it seen) = 2"
        by (simp add: mark len)
      fix k :: nat assume k: "k < 64"
      show "bit (mark_seen ?it seen ! (k div 32)) (k mod 32) \<longleftrightarrow>
          (\<exists>j'<length fs. is_required (fs ! j') \<and> req_index fs j' = k \<and>
             tag (fs ! j') \<in> insert (tag (fs ! j)) T)"
        unfolding bits [OF k] using seen k True j uniq by (auto simp: seen_ok_def)
    qed
  qed
qed

lemma required_seen_True:
  assumes ok: "tags_ok fs" and seen: "seen_ok fs T seen"
    and all: "\<And>f. f \<in> set fs \<Longrightarrow> is_required f \<Longrightarrow> tag f \<in> T"
  shows "required_seen (required_count fs) seen = Some True"
proof (cases "required_count fs = 0")
  case True
  then show ?thesis by (simp add: required_seen_def)
next
  case False
  let ?c = "required_count fs"
  have c: "?c < 64" and m: "?c mod 32 \<noteq> 0"
    using ok False by (auto simp: tags_ok_def PB_MAX_REQUIRED_FIELDS_def)
  have len: "length seen = 2"
    using seen by (simp add: seen_ok_def)
  have bits: "bit (seen ! (k div 32)) (k mod 32) \<longleftrightarrow> k < ?c" if "k < 64" for k
  proof
    assume "bit (seen ! (k div 32)) (k mod 32)"
    then show "k < ?c"
      using seen that req_index_less by (auto simp: seen_ok_def)
  next
    assume "k < ?c"
    then obtain j where "j < length fs" "is_required (fs ! j)" "req_index fs j = k"
      using req_index_onto by blast
    then show "bit (seen ! (k div 32)) (k mod 32)"
      using seen that all by (auto simp: seen_ok_def)
  qed
  have low: "seen ! 0 = - 1" if "32 \<le> ?c"
  proof (rule bit_word_eqI)
    fix k assume "k < LENGTH(32)"
    then show "bit (seen ! 0) k \<longleftrightarrow> bit (- 1 :: u32) k"
      using bits [of k] that by simp
  qed
  have d: "?c div 32 < 2" using c by simp
  have rest: "seen ! (?c div 32) = drop_bit (32 - ?c mod 32) (- 1)"
  proof (rule bit_word_eqI)
    fix k assume k: "k < LENGTH(32)"
    let ?k = "32 * (?c div 32) + k"
    have "?k < 64" using d k by simp
    moreover have "?k div 32 = ?c div 32" and "?k mod 32 = k"
      using k by simp_all
    ultimately have "bit (seen ! (?c div 32)) k \<longleftrightarrow> ?k < ?c"
      using bits [of ?k] by simp
    also have "\<dots> \<longleftrightarrow> k < ?c mod 32"
      by (metis add_less_cancel_left mult_div_mod_eq)
    also have "\<dots> \<longleftrightarrow> bit (drop_bit (32 - ?c mod 32) (- 1) :: u32) k"
      using k m by (auto simp: bit_simps)
    finally show "bit (seen ! (?c div 32)) k \<longleftrightarrow> bit (drop_bit (32 - ?c mod 32) (- 1) :: u32) k" .
  qed
  have "whole_words_seen (?c div 32) seen = Some True"
  proof -
    have "?c div 32 = 0 \<or> ?c div 32 = 1 \<and> 32 \<le> ?c" using d by auto
    then show ?thesis
      using low len by (cases seen) (auto simp: whole_words_seen_def)
  qed
  then show ?thesis
    using False rest m d len by (simp add: required_seen_def)
qed

text \<open>Going to the end of the table counts the required fields, wherever the iterator stands.\<close>

lemma seek_end_iter_at:
  assumes lay: "layout fs off" and i: "i < length fs"
  shows "seek_end (iter_at fs off dest i) =
    (required_count (take (length fs - 1) fs), ftype (fs ! (length fs - 1)), iter_at fs off dest 0)"
  using i
proof (induction "length fs - i" arbitrary: i)
  case 0
  then show ?case by simp
next
  case (Suc n)
  note step = seek_end.simps [of "iter_at fs off dest i"]
  show ?case
  proof (cases "Suc i < length fs")
    case True
    then have "seek_end (iter_at fs off dest (Suc i)) =
        (required_count (take (length fs - 1) fs), ftype (fs ! (length fs - 1)), iter_at fs off dest 0)"
      using Suc by (intro Suc.hyps(1)) simp_all
    then show ?thesis
      using True by (simp add: step next_iter_at [OF lay])
  next
    case False
    with Suc.prems have "Suc i = length fs" by simp
    then show ?thesis
      using Suc.prems by (simp add: step next_iter_at_mod [OF lay] flip: \<open>Suc i = length fs\<close>)
  qed
qed

lemma required_total_iter_ok:
  assumes ok: "tags_ok fs" and it: "iter_ok fs dest it"
  shows "required_total it = required_count fs"
proof (cases "fs = []")
  case True
  with it have "it = snd (pb_field_iter_begin [] dest)"
    by (simp add: iter_ok_def)
  then show ?thesis
    using True by (simp add: required_total_def seek_end.simps pb_field_iter_next_def
        pb_field_iter_begin_def entry_beyond required_count_def Let_def)
next
  case False
  then obtain i where i: "i < length fs" "it = iter_at fs (field_offset fs) dest i"
    using it by (auto simp: iter_ok_def)
  have lay: "layout fs (field_offset fs)"
    using ok by (rule tags_okD(1))
  have nz: "tag (fs ! 0) \<noteq> 0"
    using layoutD(1) [OF lay] False by simp
  have "required_count fs = required_count (take (Suc (length fs - 1)) fs)"
    using False by simp
  also have "\<dots> = required_count (take (length fs - 1) fs) + (if is_required (fs ! (length fs - 1)) then 1 else 0)"
    using False by (intro required_count_take_Suc) simp
  finally show ?thesis
    using False i nz by (simp add: required_total_def seek_end_iter_at [OF lay] is_required_def)
qed

section \<open>Messages\<close>

lemma decodes_bnd:
  assumes p: "consumes W p bs m x m1" and q: "decodes W (q x) cs m1 y m2"
  shows "decodes W (bnd p q) (bs @ cs) m y m2"
  unfolding decodes_def
proof (intro conjI allI impI)
  show "same_except W m m2"
    using p q by (auto simp: consumes_def decodes_def intro: same_except_trans)
  fix s
  assume st: "starts (bs @ cs) (s, m)" and cl: "i_clear W s"
    and left: "unat (bytes_left s) = length (bs @ cs)"
  note sts = starts_appendD [OF st]
  have cl': "i_clear W (adv (length bs) s)"
    using cl starts_le [OF sts(1)] by (rule i_clear_adv)
  have "unat (bytes_left (adv (length bs) s)) = length cs"
    using left starts_le [OF sts(1)] by (simp add: unat_minus_of_nat)
  from decodesD [OF q starts_same [OF sts(2) cl'] cl' this] consumesD [OF p sts(1) cl] p
  show "bnd p q (s, m) = (Ret y, (adv (length (bs @ cs)) s, m2))"
    by (simp add: consumes_def)
qed

lemma decodes_nonempty:
  assumes "decodes W q bs m x m'" and "bs \<noteq> []" and "\<And>s. bytes_left s \<noteq> 0 \<Longrightarrow> p (s, m) = q (s, m)"
  shows "decodes W p bs m x m'"
proof -
  have "p (s, m) = q (s, m)" if "unat (bytes_left s) = length bs" for s
    using that assms(2) by (intro assms(3)) auto
  with assms(1) show ?thesis
    by (auto simp: decodes_def)
qed

lemma decodes_seq:
  "consumes W p bs m () m1 \<Longrightarrow> decodes W q cs m1 y m2 \<Longrightarrow> decodes W (seq p q) (bs @ cs) m y m2"
  by (rule decodes_bnd)

lemma decode_loop_decodes:
  assumes ok: "tags_ok fs"
    and fields: "\<And>j v m m'. j < length fs \<Longrightarrow> g j v m = Some m' \<Longrightarrow>
      consumes W (decode_field E n dec (wval_type v) (iter_at fs (field_offset fs) dest j))
        (wval_bytes v) m () m'"
    and st: "store_records g fs rs m = Some m'"
    and k: "length rs \<le> k" and it: "iter_ok fs dest it" and seen: "seen_ok fs T seen"
  shows "\<exists>it' seen'. iter_ok fs dest it' \<and> seen_ok fs (T \<union> fst ` set rs) seen' \<and>
    decodes W (decode_loop E n dec k it seen start) (msg_bytes rs) m (it', seen') m'"
  using st k it seen
proof (induction rs arbitrary: m k it T seen start)
  case Nil
  have "decode_loop E n dec k it seen start (s, m) = (Ret (it, seen), (s, m))" if "bytes_left s = 0" for s
    using that by (simp add: decode_loop.simps [of E n dec k it seen start])
  with Nil show ?case
    by (auto simp: decodes_def unat_eq_0)
next
  case (Cons r rs)
  obtain t v where r: "r = (t, v)" by (cases r)
  from Cons.prems(1) obtain m1 where rec: "record_ok r"
    and m1: "(case field_of_tag fs t of None \<Rightarrow> Some m | Some j \<Rightarrow> g j v m) = Some m1"
    and rest: "store_records g fs rs m1 = Some m'"
    by (auto simp add: r simp del: not_None_eq split: if_splits bind_splits) (metis snd_conv)
  from Cons.prems(2) obtain k' where k: "k = Suc k'" and k': "length rs \<le> k'"
    by (cases k) auto
  have t: "t \<noteq> 0" "unat t < 2 ^ 29"
    and short: "wval_type v = PB_WT_STRING \<Longrightarrow> length (wval_bytes v) < 2 ^ 32"
    using rec by (auto simp: record_ok_def r)
  have wt: "wval_type v < 8"
    by (cases v) simp_all
  let ?tag = "varint (tag_word (wval_type v) t)"
  have tag: "consumes W (pb_decode_tag E) ?tag m (found_tag (wval_type v) t) m"
    by (rule consumes_parses [OF pb_decode_tag_parses [OF t(2) wt t(1)]])
  define step where "step = (\<lambda>r :: tag_result. if \<not> t_ok r then (if t_eof r then ret (it, seen) else fail)
           else case pb_field_iter_find it (t_tag r) of (found, it1) \<Rightarrow>
             if \<not> found then
               bnd (decode_unknown E n dec (t_tag r) (t_wire_type r) it1 start)
                 (\<lambda>(handled, it2, range_start').
                   if handled then decode_loop E n dec k' it2 seen range_start'
                   else seq (pb_skip_field E (t_wire_type r))
                          (decode_loop E n dec k' it2 seen range_start'))
             else seq (decode_field E n dec (t_wire_type r) it1)
                    (decode_loop E n dec k' it1 (mark_seen it1 seen) start))"
  have loop: "decode_loop E n dec k it seen start (s, m) = bnd (pb_decode_tag E) step (s, m)"
    if "bytes_left s \<noteq> 0" for s m
    using that by (subst decode_loop.simps) (simp add: k step_def)
  have run: "decodes W (decode_loop E n dec k it seen start) (msg_bytes (r # rs)) m x m'"
    if "decodes W (step (found_tag (wval_type v) t)) (wval_bytes v @ msg_bytes rs) m x m'" for x
  proof -
    have "decodes W (bnd (pb_decode_tag E) step) (?tag @ wval_bytes v @ msg_bytes rs) m x m'"
      using tag that by (rule decodes_bnd)
    then have "decodes W (decode_loop E n dec k it seen start) (?tag @ wval_bytes v @ msg_bytes rs) m x m'"
      by (rule decodes_nonempty) (simp_all add: loop)
    moreover have "msg_bytes (r # rs) = ?tag @ wval_bytes v @ msg_bytes rs"
      by (simp add: r)
    ultimately show ?thesis by simp
  qed
  show ?case
  proof (cases "field_of_tag fs t")
    case None
    obtain it1 where it1: "pb_field_iter_find it t = (False, it1)" "iter_ok fs dest it1"
      using find_field_of_tag_None [OF ok Cons.prems(3) None t(1)] by blast
    obtain it2 start' where unk: "decode_unknown E n dec t (wval_type v) it1 start = ret (False, it2, start')"
      and it2: "iter_ok fs dest it2"
      using decode_unknown_run [OF ok it1(2) t(2)] by blast
    have seen': "seen_ok fs (insert t T) seen"
      using Cons.prems(4) field_of_tag_None [OF None] by (auto simp: seen_ok_def)
    obtain it' seen' where res: "iter_ok fs dest it'" "seen_ok fs (insert t T \<union> fst ` set rs) seen'"
      and dec: "decodes W (decode_loop E n dec k' it2 seen start') (msg_bytes rs) m1 (it', seen') m'"
      using Cons.IH [OF rest k' it2 seen'] by blast
    have "step (found_tag (wval_type v) t) =
        seq (pb_skip_field E (wval_type v)) (decode_loop E n dec k' it2 seen start')"
      by (simp add: step_def found_tag_def it1 unk)
    moreover have "consumes W (pb_skip_field E (wval_type v)) (wval_bytes v) m () m1"
      using m1 None pb_skip_field_parses [OF short] by (auto intro: consumes_parses)
    ultimately have "decodes W (step (found_tag (wval_type v) t)) (wval_bytes v @ msg_bytes rs) m
        (it', seen') m'"
      using decodes_seq [OF _ dec] by simp
    from run [OF this] res show ?thesis
      by (intro exI conjI) (simp_all add: r)
  next
    case (Some j)
    then have j: "j < length fs" "tag (fs ! j) = t"
      using field_of_tag_Some by blast+
    let ?it = "iter_at fs (field_offset fs) dest j"
    have find: "pb_field_iter_find it t = (True, ?it)"
      by (rule find_field_of_tag [OF ok Cons.prems(3) Some])
    obtain it' seen' where res: "iter_ok fs dest it'" "seen_ok fs (insert t T \<union> fst ` set rs) seen'"
      and dec: "decodes W (decode_loop E n dec k' ?it (mark_seen ?it seen) start) (msg_bytes rs) m1
        (it', seen') m'"
      using Cons.IH [OF rest k' iter_ok_iter_at [OF j(1)] mark_seen_ok [OF ok j(1) Cons.prems(4)]] j(2)
      by blast
    have "step (found_tag (wval_type v) t) =
        seq (decode_field E n dec (wval_type v) ?it) (decode_loop E n dec k' ?it (mark_seen ?it seen) start)"
      by (simp add: step_def found_tag_def find)
    moreover have "consumes W (decode_field E n dec (wval_type v) ?it) (wval_bytes v) m () m1"
      using m1 Some by (intro fields [OF j(1)]) simp
    ultimately have "decodes W (step (found_tag (wval_type v) t)) (wval_bytes v @ msg_bytes rs) m
        (it', seen') m'"
      using decodes_seq [OF _ dec] by simp
    from run [OF this] res show ?thesis
      by (intro exI conjI) (simp_all add: r)
  qed
qed

lemma length_msg_bytes: "length rs \<le> length (msg_bytes rs)"
proof (induction rs)
  case (Cons r rs)
  have "Suc 0 \<le> length (record_bytes r)"
    by (cases r) (simp add: Suc_le_eq)
  with Cons show ?case by simp
qed simp

definition the_decoder :: "env \<Rightarrow> nat \<Rightarrow> msg_decoder" where
  "the_decoder E n init flds dest =
     (if init then seq (on_mem (pb_message_set_to_defaults E n flds dest)) (pb_decode_noinit E n flds dest)
      else pb_decode_noinit E n flds dest)"

lemma pb_decode_noinit_Suc:
  "pb_decode_noinit E (Suc n) flds dest = decode_message E n (the_decoder E n) flds dest"
  by (simp add: the_decoder_def [abs_def])

lemma decode_message_decodes:
  assumes ok: "tags_ok (descs E flds)" and req: "required_present (descs E flds) rs"
    and dec: "stores W sub dec"
    and dflt: "\<And>flds p m m'. dflt flds p m = Some m' \<Longrightarrow>
      does W (pb_message_set_to_defaults E n flds p) m m'"
    and st: "store_records (\<lambda>j v. store_field W dflt sub (descs E flds ! j) v
        (dest + field_offset (descs E flds) j)) (descs E flds) rs m = Some m'"
  shows "decodes W (decode_message E n dec flds dest) (msg_bytes rs) m () m'"
proof -
  let ?fs = "descs E flds"
  let ?it = "snd (pb_field_iter_begin ?fs dest)"
  have fields: "consumes W (decode_field E n dec (wval_type v) (iter_at ?fs (field_offset ?fs) dest j))
      (wval_bytes v) a () b"
    if "j < length ?fs" and "store_field W dflt sub (?fs ! j) v (dest + field_offset ?fs j) a = Some b"
    for j v a b
    using that by (intro store_field_consumes [OF dec, where dflt = dflt] dflt) simp_all
  obtain it' seen' where it': "iter_ok ?fs dest it'" and seen': "seen_ok ?fs (fst ` set rs) seen'"
    and loop: "decodes W (decode_loop E n dec (Suc (length (msg_bytes rs))) ?it [0, 0] 0) (msg_bytes rs) m
      (it', seen') m'"
    using decode_loop_decodes [OF ok fields st le_SucI [OF length_msg_bytes] iter_ok_begin [OF ok]
        seen_ok_start, where start = 0] by auto
  have "required_seen (required_total it') seen' = Some True"
    unfolding required_total_iter_ok [OF ok it']
    by (rule required_seen_True [OF ok seen'])
      (use req in \<open>auto simp: required_present_def list_all_iff\<close>)
  then have "check_required it' seen' w = (Ret (), w)" for w
    by (simp add: check_required_def)
  with loop show ?thesis
    by (auto simp: decodes_def decode_message_def)
qed

lemma stores_the_decoder: "stores W (msg_store E W n) (the_decoder E n)"
proof (induction n)
  case 0
  show ?case by (simp add: stores_def)
next
  case (Suc n)
  show ?case
    unfolding stores_def
  proof (intro allI impI)
    fix init flds p rs m m'
    assume "msg_store E W (Suc n) init flds p rs m = Some m'"
    then obtain m1 where ok: "tags_ok (descs E flds)" "required_present (descs E flds) rs"
      and m1: "(if init then msg_defaults E W (Suc n) flds p m else Some m) = Some m1"
      and rs: "store_records (\<lambda>j v. store_field W (msg_defaults E W n) (msg_store E W n)
        (descs E flds ! j) v (p + field_offset (descs E flds) j)) (descs E flds) rs m1 = Some m'"
      by (auto simp: Let_def split: if_splits bind_splits simp del: msg_defaults.simps)
    have d: "decodes W (pb_decode_noinit E (Suc n) flds p) (msg_bytes rs) m1 () m'"
      unfolding pb_decode_noinit_Suc
      by (rule decode_message_decodes [OF ok Suc.IH msg_defaults_does rs])
    show "decodes W (the_decoder E (Suc n) init flds p) (msg_bytes rs) m () m'"
    proof (cases init)
      case False
      with d m1 show ?thesis by (simp add: the_decoder_def del: pb_decode_noinit.simps)
    next
      case True
      with m1 have does: "does W (pb_message_set_to_defaults E (Suc n) flds p) m m1"
        by (intro msg_defaults_does) simp
      then have "consumes W (on_mem (pb_message_set_to_defaults E (Suc n) flds p)) [] m () m1"
        by (intro consumes_step on_mem_does [OF does]) (simp add: does_def)
      from decodes_seq [OF this d] True
      show ?thesis by (simp add: the_decoder_def del: pb_decode_noinit.simps)
    qed
  qed
qed

lemma pb_decode_decodes:
  assumes "msg_store E W (Suc n) True flds dest rs m = Some m'"
  shows "decodes W (pb_decode E (Suc n) flds dest) (msg_bytes rs) m () m'"
  using storesD [OF stores_the_decoder assms]
  by (simp add: the_decoder_def pb_decode_def del: pb_decode_noinit.simps)

section \<open>Properties\<close>

lemma buffer_starts:
  assumes "load m buf (length bs) = bs" and "length bs < 2 ^ 64"
  defines "s \<equiv> pb_istream_from_buffer buf (of_nat (length bs))"
  shows "starts bs (s, m)" and "unat (bytes_left s) = length bs"
    and "i_clear W s \<longleftrightarrow> region buf (length bs) \<inter> W = {}"
  using assms(1) unat_of_nat_u64 [OF assms(2)]
  by (simp_all add: s_def pb_istream_from_buffer_def starts_def i_clear_def)

definition demo_input :: "record_t list" where
  "demo_input =
     [(4, W_string [104, 105]), (9, W_64bit 5), (5, W_msg [(1, W_varint 1)]),
      (3, W_packed [W_32bit 1, W_32bit 2]), (1, W_varint 150)]"

definition demo_input_mem :: mem where
  "demo_input_mem = store (\<lambda>_. 0) 400 (msg_bytes demo_input)"

definition demo_output :: "byte list" where
  "demo_output =
     [150, 0, 0, 0, 0, 0, 0, 0, 0, 0, 0, 0, 2, 0, 0, 0, 1, 0, 0, 0, 2, 0, 0, 0,
      104, 105, 0, 0, 0, 0, 0, 0, 1, 0, 0, 0, 255, 255, 255, 255]"

lemma demo_input_store:
  "\<exists>m'. msg_store demo_env (region 300 40) 3 True 16 300 demo_input demo_input_mem = Some m' \<and>
     load m' 300 40 = demo_output"
proof -
  have "map_option (\<lambda>m'. load m' 300 40)
      (msg_store demo_env (region 300 40) 3 True 16 300 demo_input demo_input_mem) = Some demo_output"
    by code_simp
  then show ?thesis by auto
qed

lemma demo_input_length: "length (msg_bytes demo_input) = 30"
  by code_simp

text \<open>
  C5: \<open>pb_decode\<close> on a buffer that holds the encodings of a list of records, in any order and with
  unknown fields among them, succeeds, uses up the input, makes exactly the stores into the
  structure that the specification gives for those records, and changes no other byte of memory.
\<close>

theorem pb_decode_message:
  assumes "msg_store E W (Suc n) True flds dest rs m = Some m'"
    and "load m buf (length (msg_bytes rs)) = msg_bytes rs" and "length (msg_bytes rs) < 2 ^ 64"
    and "region buf (length (msg_bytes rs)) \<inter> W = {}"
  shows "\<exists>s'. pb_decode E (Suc n) flds dest
        (pb_istream_from_buffer buf (of_nat (length (msg_bytes rs))), m) = (Ret (), (s', m')) \<and>
      bytes_left s' = 0 \<and> same_except W m m'"
proof -
  note dec = pb_decode_decodes [OF assms(1)]
  note buf = buffer_starts [OF assms(2,3)]
  from decodesD [OF dec buf(1) _ buf(2)] buf(3) assms(4) dec show ?thesis
    by (simp add: decodes_def pb_istream_from_buffer_def)
qed

lemma pb_decode_message_witness:
  "\<exists>s' m'. pb_decode demo_env 3 16 300 (pb_istream_from_buffer 400 30, demo_input_mem) = (Ret (), (s', m')) \<and>
     bytes_left s' = 0 \<and> load m' 300 40 = demo_output"
proof -
  obtain m' where m': "msg_store demo_env (region 300 40) (Suc 2) True 16 300 demo_input demo_input_mem = Some m'"
    and out: "load m' 300 40 = demo_output"
    using demo_input_store by (auto simp: numeral_3_eq_3)
  have "load demo_input_mem 400 (length (msg_bytes demo_input)) = msg_bytes demo_input"
    by (simp add: demo_input_mem_def)
  from pb_decode_message [OF m' this] out show ?thesis
    by (auto simp: demo_input_length region_disjoint)
qed

text \<open>
  the decoder skips what it does not know. A record whose field number is not in the table can
  stand anywhere among the records: the message decodes to the same structure as without it.
\<close>

theorem pb_decode_skips_unknown:
  assumes "msg_store E W (Suc n) True flds dest (rs1 @ rs2) m = Some m'"
    and "field_of_tag (descs E flds) (fst r) = None" and "record_ok r"
    and "load m buf (length (msg_bytes (rs1 @ r # rs2))) = msg_bytes (rs1 @ r # rs2)"
    and "length (msg_bytes (rs1 @ r # rs2)) < 2 ^ 64"
    and "region buf (length (msg_bytes (rs1 @ r # rs2))) \<inter> W = {}"
  shows "\<exists>s'. pb_decode E (Suc n) flds dest
        (pb_istream_from_buffer buf (of_nat (length (msg_bytes (rs1 @ r # rs2)))), m) = (Ret (), (s', m'))"
proof -
  have "store_records g (descs E flds) (rs1 @ r # rs2) = store_records g (descs E flds) (rs1 @ rs2)" for g
  proof
    show "store_records g (descs E flds) (rs1 @ r # rs2) a =
        store_records g (descs E flds) (rs1 @ rs2) a" for a
      using assms(2,3) by (induction rs1 arbitrary: a) (simp_all cong: bind_option_cong)
  qed
  moreover have "required_present (descs E flds) (rs1 @ rs2) \<Longrightarrow>
      required_present (descs E flds) (rs1 @ r # rs2)"
    by (auto simp: required_present_def list_all_iff)
  ultimately have "msg_store E W (Suc n) True flds dest (rs1 @ r # rs2) m = Some m'"
    using assms(1) by (simp add: Let_def split: if_splits del: msg_defaults.simps)
  note dec = pb_decode_decodes [OF this]
  note buf = buffer_starts [OF assms(4,5)]
  from decodesD [OF dec buf(1) _ buf(2)] buf(3) assms(6) show ?thesis by blast
qed

end
