(* ===== verification/Der.thy ===== *)
theory Der
  imports Bytes
begin

text \<open>
  Reference encodings for the BoringSSL byte-string code: big-endian numbers, and the
  distinguished encoding rules (DER) of ASN.1 elements with one-byte tags. A number has one
  shortest big-endian form, a length has one DER form, and so an element has one encoding.
\<close>

unbundle bit_operations_syntax

section \<open>Big-endian numbers\<close>

definition be_word :: "byte list \<Rightarrow> 'a::len word" where
  "be_word bs = foldl (\<lambda>r b. push_bit 8 r OR ucast b) 0 bs"

definition be_nat :: "byte list \<Rightarrow> nat" where
  "be_nat bs = foldl (\<lambda>r b. r * 256 + unat b) 0 bs"

definition be_bytes :: "nat \<Rightarrow> 'a::len word \<Rightarrow> byte list" where
  "be_bytes n w = rev (le_bytes n w)"

fun be_min :: "nat \<Rightarrow> byte list" where
  "be_min n = (if n = 0 then [] else be_min (n div 256) @ [of_nat (n mod 256)])"

declare be_min.simps [simp del]

lemma length_be_bytes [simp]: "length (be_bytes n w) = n"
  by (simp add: be_bytes_def)

lemma be_nat_Nil [simp]: "be_nat [] = 0"
  by (simp add: be_nat_def)

lemma be_nat_snoc [simp]: "be_nat (bs @ [b]) = be_nat bs * 256 + unat b"
  by (simp add: be_nat_def)

lemma be_nat_single [simp]: "be_nat [b] = unat b"
  by (simp add: be_nat_def)

lemma be_word_Nil [simp]: "be_word [] = 0"
  by (simp add: be_word_def)

lemma be_word_snoc: "be_word (bs @ [b]) = push_bit 8 (be_word bs) OR ucast b"
  by (simp add: be_word_def)

lemma be_nat_less: "be_nat bs < 256 ^ length bs"
proof (induction bs rule: rev_induct)
  case (snoc b bs)
  have "be_nat bs * 256 + unat b < (be_nat bs + 1) * 256"
    using unat_byte_less [of b] by simp
  also have "\<dots> \<le> 256 ^ length bs * 256"
    using snoc by (intro mult_right_mono) simp_all
  finally show ?case by simp
qed simp

lemma be_word_le_word: "be_word bs = (le_word (rev bs) :: 'a::len word)"
proof (induction bs rule: rev_induct)
  case (snoc b bs)
  then show ?case by (simp add: be_word_snoc or.commute)
qed simp

lemma be_word_be_bytes: "LENGTH('a) \<le> 8 * n \<Longrightarrow> be_word (be_bytes n w) = (w :: 'a::len word)"
  by (simp add: be_word_le_word be_bytes_def le_word_le_bytes)

lemma be_word_be_bytes_take: "be_word (be_bytes n w) = take_bit (8 * n) (w :: 'a::len word)"
  unfolding be_word_le_word be_bytes_def
  by (rule bit_word_eqI) (auto simp: bit_le_word le_bytes_def bit_simps)

lemma be_word_be_bytes_small:
  "unat w < 256 ^ n \<Longrightarrow> be_word (be_bytes n w) = (w :: 'a::len word)"
  unfolding be_word_be_bytes_take word_unat_eq_iff unsigned_take_bit_eq
  by (simp add: take_bit_nat_eq_self power_mult)

lemma be_bytes_be_word:
  "length bs = n \<Longrightarrow> 8 * n \<le> LENGTH('a) \<Longrightarrow> be_bytes n (be_word bs :: 'a::len word) = bs"
  by (simp add: be_word_le_word be_bytes_def le_bytes_le_word)

lemma unat_push_byte:
  assumes "unat (w :: 'a::len word) * 256 + 255 < 2 ^ LENGTH('a)" and "8 \<le> LENGTH('a)"
  shows "unat (push_bit 8 w OR ucast (b :: byte)) = unat w * 256 + unat b"
proof -
  have disj: "push_bit 8 w AND (ucast b :: 'a word) = 0"
    by (rule bit_word_eqI) (auto simp: bit_simps dest: bit_imp_le_length)
  have b: "unat (ucast b :: 'a word) = unat b"
  proof -
    have "256 \<le> (2::nat) ^ LENGTH('a)"
      using power_increasing [OF assms(2), of "2::nat"] by simp
    then have "unat b < 2 ^ LENGTH('a)"
      using unat_byte_less [of b] by simp
    then show ?thesis
      by (simp add: unsigned_ucast_eq take_bit_nat_eq_self)
  qed
  have p: "unat (push_bit 8 w) = unat w * 256"
    unfolding unsigned_push_bit_eq
    by (subst take_bit_nat_eq_self) (use assms(1) in \<open>simp_all add: push_bit_eq_mult\<close>)
  have "push_bit 8 w OR ucast b = push_bit 8 w + (ucast b :: 'a word)"
    using disj by (rule disjunctive_add_eq_or [symmetric])
  moreover have "unat (push_bit 8 w + (ucast b :: 'a word)) = unat w * 256 + unat b"
    unfolding unat_word_ariths p b using assms(1) unat_byte_less [of b] by (intro mod_less) linarith
  ultimately show ?thesis by simp
qed

lemma unat_be_word:
  assumes "8 * length bs \<le> LENGTH('a)"
  shows "unat (be_word bs :: 'a::len word) = be_nat bs"
  using assms
proof (induction bs rule: rev_induct)
  case (snoc b bs)
  then have ih: "unat (be_word bs :: 'a word) = be_nat bs" by simp
  have "be_nat bs + 1 \<le> 256 ^ length bs"
    using be_nat_less [of bs] by simp
  then have "(be_nat bs + 1) * 256 \<le> 256 ^ length bs * 256"
    by (rule mult_right_mono) simp
  also have "\<dots> = 2 ^ (8 * length (bs @ [b]))"
    by (simp add: power_mult power_add)
  also have "\<dots> \<le> 2 ^ LENGTH('a)"
    using snoc.prems by (intro power_increasing) simp_all
  finally have "be_nat bs * 256 + 255 < 2 ^ LENGTH('a)" by simp
  then show ?case
    using snoc.prems ih by (simp add: be_word_snoc unat_push_byte)
qed simp

lemma be_min_0 [simp]: "be_min 0 = []"
  by (simp add: be_min.simps)

lemma be_nat_be_min [simp]: "be_nat (be_min n) = n"
proof (induction n rule: be_min.induct)
  case (1 n)
  show ?case
  proof (cases "n = 0")
    case False
    have "unat (of_nat (n mod 256) :: byte) = n mod 256"
      by (simp add: unat_of_nat take_bit_nat_eq_self)
    then show ?thesis
      using 1 False by (subst be_min.simps) simp
  qed simp
qed

lemma hd_be_min: "0 < n \<Longrightarrow> hd (be_min n) \<noteq> 0"
proof (induction n rule: be_min.induct)
  case (1 n)
  show ?case
  proof (cases "n div 256 = 0")
    case True
    then have "n < 256" by (simp add: div_eq_0_iff)
    then show ?thesis
      using "1.prems" True by (subst be_min.simps) (simp add: word_of_nat_eq_0_iff nat_dvd_not_less)
  next
    case False
    then have "be_min (n div 256) \<noteq> []"
      by (subst be_min.simps) simp
    then show ?thesis
      using 1 False by (subst be_min.simps) simp
  qed
qed

text \<open>The shortest form is the one without a leading zero.\<close>

lemma be_min_unique: "bs = [] \<or> hd bs \<noteq> 0 \<Longrightarrow> be_min (be_nat bs) = bs"
proof (induction bs rule: rev_induct)
  case (snoc b bs)
  have b: "unat b < 256" by (rule unat_byte_less)
  show ?case
  proof (cases "bs = []")
    case True
    with snoc.prems have "unat b \<noteq> 0" by (simp add: unat_eq_0)
    then show ?thesis
      using True b by (subst be_min.simps) simp
  next
    case False
    with snoc have ih: "be_min (be_nat bs) = bs" by simp
    then have "be_nat bs \<noteq> 0"
      using False by (metis be_min_0)
    then show ?thesis
      using ih b by (subst be_min.simps) simp
  qed
qed simp

lemma length_be_min: "n < 256 ^ k \<Longrightarrow> length (be_min n) \<le> k"
proof (induction n arbitrary: k rule: be_min.induct)
  case (1 n)
  show ?case
  proof (cases "n = 0")
    case False
    with "1.prems" obtain k' where k: "k = Suc k'" by (cases k) auto
    have "n div 256 < 256 ^ k'"
      using "1.prems" k by (simp add: less_mult_imp_div_less mult.commute)
    then have "length (be_min (n div 256)) \<le> k'"
      using "1.IH" False by simp
    then show ?thesis
      using False k by (subst be_min.simps) simp
  qed simp
qed

lemma be_nat_ge: "bs \<noteq> [] \<Longrightarrow> hd bs \<noteq> 0 \<Longrightarrow> 256 ^ (length bs - 1) \<le> be_nat bs"
proof (induction bs rule: rev_induct)
  case (snoc b bs)
  show ?case
  proof (cases "bs = []")
    case True
    with snoc.prems have "0 < unat b" by (simp add: unat_gt_0)
    with True show ?thesis by simp
  next
    case False
    with snoc have "256 ^ (length bs - 1) \<le> be_nat bs" by simp
    moreover have "(256::nat) ^ length bs = 256 ^ (length bs - 1) * 256"
      using False by (cases bs) simp_all
    ultimately show ?thesis by simp
  qed
qed simp

lemma be_nat_leading_zero: "be_nat (0 # bs) = be_nat bs"
  by (simp add: be_nat_def)

section \<open>ASN.1 elements\<close>

definition der_len :: "nat \<Rightarrow> byte list" where
  "der_len n = (if n < 128 then [of_nat n] else of_nat (128 + length (be_min n)) # be_min n)"

definition der :: "byte \<Rightarrow> byte list \<Rightarrow> byte list" where
  "der t c = t # der_len (length c) @ c"

definition short_tag :: "byte \<Rightarrow> bool" where
  "short_tag t \<longleftrightarrow> t AND 0x1F \<noteq> 0x1F"

text \<open>The contents of a non-negative INTEGER.\<close>

definition der_uint :: "nat \<Rightarrow> byte list" where
  "der_uint n =
     (let bs = be_min n in if bs = [] then [0] else if hd bs AND 0x80 \<noteq> 0 then 0 # bs else bs)"

end
