(* ===== verification/Cbs.thy ===== *)
theory Cbs
  imports Der
begin

text \<open>
  BoringSSL's byte strings (\<open>crypto/bytestring/cbs.c\<close>). A \<open>CBS\<close> is a pointer and a length; nothing
  it points to is ever written through it, so it is modelled by the list of the bytes it spans. A
  function that is given a \<open>CBS *\<close> is a program over that list: it returns 1 (\<open>Ret\<close>) or 0 (\<open>Fail\<close>)
  and leaves what it has not consumed, also when it fails. An output \<open>CBS\<close> is the list of its
  bytes. Where a null pointer may be passed for an output, the output is just not used.

  C code can read and step past the end of the bytes: \<open>byte_at\<close> and \<open>advance\<close>, the two ways in which
  the parsers touch memory, are \<open>Stuck\<close> there. That this does not happen is a property of the
  checks in the parsers, and is proved of them.
\<close>

unbundle bit_operations_syntax

type_synonym cbs = "byte list"

abbreviation (input) "CBS_ASN1_BOOLEAN \<equiv> 0x01 :: u32"
abbreviation (input) "CBS_ASN1_INTEGER \<equiv> 0x02 :: u32"
abbreviation (input) "CBS_ASN1_BITSTRING \<equiv> 0x03 :: u32"
abbreviation (input) "CBS_ASN1_OCTETSTRING \<equiv> 0x04 :: u32"
abbreviation (input) "CBS_ASN1_CONSTRUCTED \<equiv> 0x20 :: u32"

section \<open>Reading bytes\<close>

definition CBS_init :: "byte list \<Rightarrow> cbs" where
  "CBS_init data = data"

definition CBS_data :: "cbs \<Rightarrow> byte list" where
  "CBS_data cbs = cbs"

definition CBS_len :: "cbs \<Rightarrow> nat" where
  "CBS_len cbs = length cbs"

text \<open>The byte at an index, and stepping over \<open>n\<close> bytes: \<open>p = data; data += n; len -= n\<close>.\<close>

definition byte_at :: "byte list \<Rightarrow> nat \<Rightarrow> ('s, byte) prog" where
  "byte_at data i = (if i < length data then ret (data ! i) else stuck)"

definition advance :: "nat \<Rightarrow> (cbs, byte list) prog" where
  "advance n = (\<lambda>cbs. if n \<le> length cbs then (Ret (take n cbs), drop n cbs) else (Stuck, cbs))"

definition cbs_get :: "nat \<Rightarrow> (cbs, byte list) prog" where
  "cbs_get n = (\<lambda>cbs. if CBS_len cbs < n then (Fail, cbs) else advance n cbs)"

definition CBS_skip :: "nat \<Rightarrow> (cbs, unit) prog" where
  "CBS_skip len = seq (cbs_get len) (ret ())"

text \<open>
  Copies in new memory: \<open>malloc_ok n\<close> says whether an allocation of \<open>n\<close> bytes succeeds. The results
  are the return value and the copy (\<open>None\<close> a null pointer).
\<close>

definition CBS_stow :: "(nat \<Rightarrow> bool) \<Rightarrow> cbs \<Rightarrow> bool \<times> byte list option" where
  "CBS_stow malloc_ok cbs =
     (if CBS_len cbs = 0 then (True, None)
      else if malloc_ok (length cbs) then (True, Some cbs) else (False, None))"

definition CBS_strdup :: "(nat \<Rightarrow> bool) \<Rightarrow> cbs \<Rightarrow> bool \<times> byte list option" where
  "CBS_strdup malloc_ok cbs =
     (let s = takeWhile (\<lambda>b. b \<noteq> 0) cbs in
      if malloc_ok (length s + 1) then (True, Some (s @ [0])) else (False, None))"

definition CBS_contains_zero_byte :: "cbs \<Rightarrow> bool" where
  "CBS_contains_zero_byte cbs = (0 \<in> set cbs)"

text \<open>\<open>CRYPTO_memcmp\<close> gathers the differences without branching on them.\<close>

definition CRYPTO_memcmp :: "byte list \<Rightarrow> byte list \<Rightarrow> byte" where
  "CRYPTO_memcmp a b = foldl (\<lambda>x (p, q). x OR (p XOR q)) 0 (zip a b)"

definition CBS_mem_equal :: "cbs \<Rightarrow> byte list \<Rightarrow> bool" where
  "CBS_mem_equal cbs data = (if length data \<noteq> length cbs then False else CRYPTO_memcmp cbs data = 0)"

definition cbs_get_u :: "nat \<Rightarrow> (cbs, u32) prog" where
  "cbs_get_u len =
     bnd (cbs_get len) (\<lambda>data. ret (foldl (\<lambda>result b. push_bit 8 result OR ucast b) 0 data))"

definition CBS_get_u8 :: "(cbs, byte) prog" where
  "CBS_get_u8 = bnd (cbs_get 1) (\<lambda>v. byte_at v 0)"

definition CBS_get_u16 :: "(cbs, 16 word) prog" where
  "CBS_get_u16 = bnd (cbs_get_u 2) (\<lambda>v. ret (ucast v))"

definition CBS_get_u24 :: "(cbs, u32) prog" where
  "CBS_get_u24 = cbs_get_u 3"

definition CBS_get_u32 :: "(cbs, u32) prog" where
  "CBS_get_u32 = cbs_get_u 4"

definition CBS_get_last_u8 :: "(cbs, byte) prog" where
  "CBS_get_last_u8 = (\<lambda>cbs.
     if CBS_len cbs = 0 then (Fail, cbs)
     else bnd (byte_at cbs (length cbs - 1)) (\<lambda>b cbs. (Ret b, butlast cbs)) cbs)"

definition CBS_get_bytes :: "nat \<Rightarrow> (cbs, cbs) prog" where
  "CBS_get_bytes len = bnd (cbs_get len) (\<lambda>v. ret (CBS_init v))"

definition CBS_copy_bytes :: "nat \<Rightarrow> (cbs, byte list) prog" where
  "CBS_copy_bytes len = cbs_get len"

definition cbs_get_length_prefixed :: "nat \<Rightarrow> (cbs, cbs) prog" where
  "cbs_get_length_prefixed len_len = bnd (cbs_get_u len_len) (\<lambda>len. CBS_get_bytes (unat len))"

definition CBS_get_u8_length_prefixed :: "(cbs, cbs) prog" where
  "CBS_get_u8_length_prefixed = cbs_get_length_prefixed 1"

definition CBS_get_u16_length_prefixed :: "(cbs, cbs) prog" where
  "CBS_get_u16_length_prefixed = cbs_get_length_prefixed 2"

definition CBS_get_u24_length_prefixed :: "(cbs, cbs) prog" where
  "CBS_get_u24_length_prefixed = cbs_get_length_prefixed 3"

section \<open>ASN.1 elements\<close>

text \<open>
  The header of an element: its tag, the length of the whole element and the length of the header,
  read from the copy \<open>header\<close> of the byte string.
\<close>

definition asn1_header :: "bool \<Rightarrow> (cbs, u32 \<times> u64 \<times> u64) prog" where
  "asn1_header ber_ok =
     bnd CBS_get_u8 (\<lambda>tag. bnd CBS_get_u8 (\<lambda>length_byte.
       if tag AND 0x1F = 0x1F then fail
       else if length_byte AND 0x80 = 0 then ret (ucast tag, ucast length_byte + 2, 2)
       else
         let num_bytes = ucast (length_byte AND 0x7F) :: u64 in
         if ber_ok \<and> ucast tag AND CBS_ASN1_CONSTRUCTED \<noteq> 0 \<and> num_bytes = 0
         then ret (ucast tag, 2, 2)
         else if num_bytes = 0 \<or> num_bytes > 4 then fail
         else bnd (cbs_get_u (unat num_bytes)) (\<lambda>len32.
           if len32 < 128 then fail
           else if drop_bit (unat ((num_bytes - 1) * 8)) len32 = 0 then fail
           else
             let len = ucast len32 :: u64 in
             if len + 2 + num_bytes < len then fail
             else ret (ucast tag, len + (2 + num_bytes), 2 + num_bytes))))"

definition cbs_get_any_asn1_element :: "bool \<Rightarrow> (cbs, cbs \<times> u32 \<times> u64) prog" where
  "cbs_get_any_asn1_element ber_ok = (\<lambda>cbs.
     case asn1_header ber_ok cbs of
       (Ret (tag, len, header_len), header) \<Rightarrow>
         bnd (CBS_get_bytes (unat len)) (\<lambda>out. ret (out, tag, header_len)) cbs
     | (Fail, header) \<Rightarrow> (Fail, cbs)
     | (Stuck, header) \<Rightarrow> (Stuck, cbs))"

definition CBS_get_any_asn1_element :: "(cbs, cbs \<times> u32 \<times> u64) prog" where
  "CBS_get_any_asn1_element = cbs_get_any_asn1_element False"

definition CBS_get_any_ber_asn1_element :: "(cbs, cbs \<times> u32 \<times> u64) prog" where
  "CBS_get_any_ber_asn1_element = cbs_get_any_asn1_element True"

text \<open>
  \<open>nested f child\<close> runs \<open>f\<close> on a byte string of its own; its result and what it leaves of that
  string are returned.
\<close>

definition nested :: "(cbs, 'a) prog \<Rightarrow> cbs \<Rightarrow> (cbs, 'a \<times> cbs) prog" where
  "nested f child = (\<lambda>cbs. case f child of
      (Ret x, child') \<Rightarrow> (Ret (x, child'), cbs)
    | (Fail, child') \<Rightarrow> (Fail, cbs)
    | (Stuck, child') \<Rightarrow> (Stuck, cbs))"

text \<open>An \<open>assert(0)\<close> that is reached is a \<open>Stuck\<close> run.\<close>

definition skip_header :: "u64 \<Rightarrow> cbs \<Rightarrow> (cbs, cbs) prog" where
  "skip_header header_len out = (\<lambda>cbs. case CBS_skip (unat header_len) out of
      (Ret _, out') \<Rightarrow> (Ret out', cbs)
    | (_, out') \<Rightarrow> (Stuck, cbs))"

definition CBS_get_any_asn1 :: "(cbs, cbs \<times> u32) prog" where
  "CBS_get_any_asn1 =
     bnd CBS_get_any_asn1_element (\<lambda>(out, tag, header_len).
       bnd (skip_header header_len out) (\<lambda>out'. ret (out', tag)))"

definition cbs_get_asn1 :: "u32 \<Rightarrow> bool \<Rightarrow> (cbs, cbs) prog" where
  "cbs_get_asn1 tag_value skip =
     bnd CBS_get_any_asn1_element (\<lambda>(out, tag, header_len).
       if tag \<noteq> tag_value then fail
       else if skip then skip_header header_len out
       else ret out)"

definition CBS_get_asn1 :: "u32 \<Rightarrow> (cbs, cbs) prog" where
  "CBS_get_asn1 tag_value = cbs_get_asn1 tag_value True"

definition CBS_get_asn1_element :: "u32 \<Rightarrow> (cbs, cbs) prog" where
  "CBS_get_asn1_element tag_value = cbs_get_asn1 tag_value False"

definition CBS_peek_asn1_tag :: "u32 \<Rightarrow> (cbs, bool) prog" where
  "CBS_peek_asn1_tag tag_value = (\<lambda>cbs.
     if CBS_len cbs < 1 then (Ret False, cbs)
     else bnd (byte_at (CBS_data cbs) 0) (\<lambda>b. ret (ucast b = tag_value)) cbs)"

section \<open>ASN.1 values\<close>

text \<open>The loop of \<open>CBS_get_asn1_uint64\<close>: \<open>None\<close> when the number needs more than 64 bits.\<close>

fun uint64_loop :: "byte list \<Rightarrow> u64 \<Rightarrow> u64 option" where
  "uint64_loop [] out = Some out"
| "uint64_loop (b # bs) out =
     (if drop_bit 56 out \<noteq> 0 then None else uint64_loop bs (push_bit 8 out OR ucast b))"

definition asn1_uint64_value :: "byte list \<Rightarrow> ('s, u64) prog" where
  "asn1_uint64_value data =
     (if length data = 0 then fail
      else bnd (byte_at data 0) (\<lambda>first.
        if first AND 0x80 \<noteq> 0 then fail
        else bnd (if first = 0 \<and> length data > 1
                  then bnd (byte_at data 1) (\<lambda>second. ret (second AND 0x80 = 0))
                  else ret False) (\<lambda>extra_zero.
          if extra_zero then fail
          else case uint64_loop data 0 of None \<Rightarrow> fail | Some v \<Rightarrow> ret v)))"

definition CBS_get_asn1_uint64 :: "(cbs, u64) prog" where
  "CBS_get_asn1_uint64 =
     bnd (CBS_get_asn1 CBS_ASN1_INTEGER) (\<lambda>bytes. asn1_uint64_value (CBS_data bytes))"

text \<open>The result is the contents when the element is present, and \<open>None\<close> otherwise.\<close>

definition CBS_get_optional_asn1 :: "u32 \<Rightarrow> (cbs, cbs option) prog" where
  "CBS_get_optional_asn1 tag =
     bnd (CBS_peek_asn1_tag tag) (\<lambda>present.
       if present then bnd (CBS_get_asn1 tag) (\<lambda>out. ret (Some out)) else ret None)"

definition CBS_get_optional_asn1_octet_string :: "u32 \<Rightarrow> (cbs, cbs \<times> bool) prog" where
  "CBS_get_optional_asn1_octet_string tag =
     bnd (CBS_get_optional_asn1 tag) (\<lambda>r.
       case r of
         Some child \<Rightarrow>
           bnd (nested (CBS_get_asn1 CBS_ASN1_OCTETSTRING) child) (\<lambda>(out, child').
             if CBS_len child' \<noteq> 0 then fail else ret (out, True))
       | None \<Rightarrow> ret (CBS_init [], False))"

definition CBS_get_optional_asn1_uint64 :: "u32 \<Rightarrow> u64 \<Rightarrow> (cbs, u64) prog" where
  "CBS_get_optional_asn1_uint64 tag default_value =
     bnd (CBS_get_optional_asn1 tag) (\<lambda>r.
       case r of
         Some child \<Rightarrow>
           bnd (nested CBS_get_asn1_uint64 child) (\<lambda>(out, child').
             if CBS_len child' \<noteq> 0 then fail else ret out)
       | None \<Rightarrow> ret default_value)"

definition CBS_get_optional_asn1_bool :: "u32 \<Rightarrow> bool \<Rightarrow> (cbs, bool) prog" where
  "CBS_get_optional_asn1_bool tag default_value =
     bnd (CBS_get_optional_asn1 tag) (\<lambda>r.
       case r of
         Some child \<Rightarrow>
           bnd (nested (CBS_get_asn1 CBS_ASN1_BOOLEAN) child) (\<lambda>(child2, child').
             if CBS_len child2 \<noteq> 1 \<or> CBS_len child' \<noteq> 0 then fail
             else bnd (byte_at (CBS_data child2) 0) (\<lambda>boolean.
               if boolean = 0 then ret False
               else if boolean = 0xFF then ret True
               else fail))
       | None \<Rightarrow> ret default_value)"

text \<open>The tests of a BIT STRING return 1 (\<open>Ret ()\<close>) or 0 (\<open>Fail\<close>); they read a copy of the \<open>CBS\<close>.\<close>

definition CBS_is_valid_asn1_bitstring :: "cbs \<Rightarrow> unit res" where
  "CBS_is_valid_asn1_bitstring cbs =
     fst (bnd CBS_get_u8 (\<lambda>num_unused_bits.
       if num_unused_bits > 7 then fail
       else if num_unused_bits = 0 then ret ()
       else bnd CBS_get_last_u8 (\<lambda>last.
         if last AND (push_bit (unat num_unused_bits) 1 - 1) \<noteq> 0 then fail else ret ())) cbs)"

definition CBS_asn1_bitstring_has_bit :: "cbs \<Rightarrow> u32 \<Rightarrow> unit res" where
  "CBS_asn1_bitstring_has_bit cbs b =
     (case CBS_is_valid_asn1_bitstring cbs of
        Ret _ \<Rightarrow>
          let byte_num = drop_bit 3 b + 1; bit_num = 7 - (b AND 7) in
          if unat byte_num < CBS_len cbs
          then fst (bnd (byte_at (CBS_data cbs) (unat byte_num)) (\<lambda>octet.
            if octet AND push_bit (unat bit_num) 1 \<noteq> 0 then ret () else fail) cbs)
          else Fail
      | r \<Rightarrow> r)"

end
