(* ===== verification/Cbs_Der.thy ===== *)
theory Cbs_Der
  imports Cbs "HOL-Library.Sublist"
begin

text \<open>
  Correctness of the byte-string parsers: they read nothing past the end of the string they are given
  and only ever drop bytes from it, and the ASN.1 parsers accept exactly the DER encodings of \<open>Der\<close>.
\<close>

unbundle bit_operations_syntax

section \<open>Reading bytes\<close>

lemma byte_at_nth [simp]: "i < length data \<Longrightarrow> byte_at data i = ret (data ! i)"
  by (simp add: byte_at_def)

lemma cbs_get_eq: "cbs_get n = (\<lambda>s. if length s < n then (Fail, s) else (Ret (take n s), drop n s))"
  by (simp add: cbs_get_def advance_def CBS_len_def fun_eq_iff)

lemma cbs_get_eq_Ret: "cbs_get n s = (Ret v, r) \<longleftrightarrow> length v = n \<and> s = v @ r"
  by (auto simp: cbs_get_eq)

lemma cbs_get_append [simp]: "length bs = n \<Longrightarrow> cbs_get n (bs @ r) = (Ret bs, r)"
  by (simp add: cbs_get_eq_Ret)

lemma cbs_get_not_Stuck [simp]: "cbs_get n s \<noteq> (Stuck, r)"
  by (simp add: cbs_get_eq)

lemma cbs_get_u_eq: "cbs_get_u n = bnd (cbs_get n) (\<lambda>data. ret (be_word data))"
  by (simp add: cbs_get_u_def be_word_def)

lemma cbs_get_u_append: "length bs = n \<Longrightarrow> cbs_get_u n (bs @ r) = (Ret (be_word bs), r)"
  by (simp add: cbs_get_u_eq)

lemma cbs_get_u_eq_Ret: "cbs_get_u n s = (Ret w, r) \<longleftrightarrow> (\<exists>bs. length bs = n \<and> s = bs @ r \<and> w = be_word bs)"
  by (auto simp: cbs_get_u_eq bnd_eq_Ret cbs_get_eq_Ret)

lemma CBS_get_u8_eq: "CBS_get_u8 s = (case s of [] \<Rightarrow> (Fail, []) | b # r \<Rightarrow> (Ret b, r))"
  by (cases s) (auto simp: CBS_get_u8_def cbs_get_eq bnd_def)

lemma CBS_get_u8_eq_Ret: "CBS_get_u8 s = (Ret b, r) \<longleftrightarrow> s = b # r"
  by (auto simp: CBS_get_u8_eq split: list.splits)

lemma CBS_get_u8_Cons [simp]: "CBS_get_u8 (b # r) = (Ret b, r)"
  by (simp add: CBS_get_u8_eq_Ret)

lemma CBS_get_bytes_eq_Ret: "CBS_get_bytes n s = (Ret v, r) \<longleftrightarrow> length v = n \<and> s = v @ r"
  by (auto simp: CBS_get_bytes_def CBS_init_def bnd_eq_Ret cbs_get_eq_Ret)

lemma CBS_get_bytes_append [simp]: "length bs = n \<Longrightarrow> CBS_get_bytes n (bs @ r) = (Ret bs, r)"
  by (simp add: CBS_get_bytes_eq_Ret)

text \<open>What is left is a suffix of what was there, whatever the outcome.\<close>

abbreviation leaves_suffix :: "(cbs, 'a) prog \<Rightarrow> bool" where
  "leaves_suffix \<equiv> keeps (\<lambda>s s'. suffix s' s)"

interpretation suffix_rel: preorder_rel "\<lambda>s s'. suffix s' s"
  by unfold_locales (auto intro: suffix_order.order_trans)

lemma suffix_cbs_get [keeps_rules]: "leaves_suffix (cbs_get n)"
  by (rule keepsI) (auto simp: cbs_get_eq suffix_drop)

lemma suffix_nested [keeps_rules]: "leaves_suffix (nested f child)"
  by (rule keepsI) (cases "f child" rule: res_cases_prod, auto simp: nested_def)

lemma suffix_skip_header [keeps_rules]: "leaves_suffix (skip_header n out)"
  by (rule keepsI)
    (cases "CBS_skip (unat n) out" rule: res_cases_prod, auto simp: skip_header_def)

lemma suffix_get_any_asn1_element [keeps_rules]: "leaves_suffix (cbs_get_any_asn1_element ber_ok)"
proof (rule keepsI)
  fix s
  have "leaves_suffix (bnd (CBS_get_bytes n) (\<lambda>out. ret (out, tag, hl)))" for n and tag hl :: "'b::len word"
    unfolding CBS_get_bytes_def by (intro suffix_rel.keeps_intros keeps_rules)
  then show "suffix (snd (cbs_get_any_asn1_element ber_ok s)) s"
    by (cases "asn1_header ber_ok s" rule: res_cases_prod)
      (auto simp: cbs_get_any_asn1_element_def CBS_get_bytes_def keeps_def bnd_def cbs_get_eq
        suffix_drop split: prod.splits)
qed

lemma suffix_case_prod [keeps_rules]:
  "(\<And>a b. leaves_suffix (f a b)) \<Longrightarrow> leaves_suffix (case p of (a, b) \<Rightarrow> f a b)"
  by (cases p) simp

lemma suffix_case_option [keeps_rules]:
  "leaves_suffix p \<Longrightarrow> (\<And>x. leaves_suffix (q x)) \<Longrightarrow> leaves_suffix (case r of None \<Rightarrow> p | Some x \<Rightarrow> q x)"
  by (cases r) simp_all

lemma suffix_byte_at [keeps_rules]: "leaves_suffix (byte_at data i)"
  unfolding byte_at_def by (intro suffix_rel.keeps_intros keeps_rules)

lemma suffix_peek_asn1_tag [keeps_rules]: "leaves_suffix (CBS_peek_asn1_tag tag)"
  by (rule keepsI) (simp add: CBS_peek_asn1_tag_def byte_at_def bnd_def)

lemma suffix_CBS_get_asn1 [keeps_rules]: "leaves_suffix (CBS_get_asn1 tag)"
  unfolding CBS_get_asn1_def cbs_get_asn1_def CBS_get_any_asn1_element_def
  by (intro suffix_rel.keeps_intros keeps_rules)

lemma suffix_CBS_get_asn1_element [keeps_rules]: "leaves_suffix (CBS_get_asn1_element tag)"
  unfolding CBS_get_asn1_element_def cbs_get_asn1_def CBS_get_any_asn1_element_def
  by (intro suffix_rel.keeps_intros keeps_rules)

lemma suffix_CBS_get_any_asn1 [keeps_rules]: "leaves_suffix CBS_get_any_asn1"
  unfolding CBS_get_any_asn1_def CBS_get_any_asn1_element_def
  by (intro suffix_rel.keeps_intros keeps_rules)

lemma suffix_CBS_get_asn1_uint64 [keeps_rules]: "leaves_suffix CBS_get_asn1_uint64"
  unfolding CBS_get_asn1_uint64_def asn1_uint64_value_def
  by (intro suffix_rel.keeps_intros keeps_rules)

lemma suffix_CBS_get_optional_asn1 [keeps_rules]: "leaves_suffix (CBS_get_optional_asn1 tag)"
  unfolding CBS_get_optional_asn1_def by (intro suffix_rel.keeps_intros keeps_rules)

section \<open>Headers\<close>

lemma byte_and_80: "(b :: byte) AND 0x80 = (if bit b 7 then 0x80 else 0)"
  by (rule bit_word_eqI, drule byte_bit_cases, elim disjE) (simp_all add: bit_simps)

lemma byte_small_iff: "(b :: byte) AND 0x80 = 0 \<longleftrightarrow> unat b < 128"
proof -
  have "(b :: byte) AND 0x80 = 0 \<longleftrightarrow> \<not> bit b 7"
    by (simp add: byte_and_80)
  also have "\<dots> \<longleftrightarrow> unat (drop_bit 7 b) = 0"
  proof
    assume "\<not> bit b 7"
    then have "drop_bit 7 b = 0"
      by (intro bit_word_eqI, drule_tac byte_bit_cases, elim disjE)
        (simp_all only: bit_drop_bit_eq, auto dest: bit_imp_le_length)
    then show "unat (drop_bit 7 b) = 0" by simp
  next
    assume "unat (drop_bit 7 b) = 0"
    then have "drop_bit 7 b = 0" by (simp only: unat_eq_0)
    then have "\<not> bit (drop_bit 7 b) 0" by simp
    then show "\<not> bit b 7" by (simp only: bit_drop_bit_eq) simp
  qed
  also have "\<dots> \<longleftrightarrow> unat b < 128"
    by (simp only: unat_drop_bit_div) (simp add: div_eq_0_iff)
  finally show ?thesis .
qed

text \<open>The first byte of a long length is 128 plus the number of bytes that follow.\<close>

lemma byte_long_split:
  assumes "(b :: byte) AND 0x80 \<noteq> 0"
  shows "unat b = 128 + unat (b AND 0x7F)"
proof -
  have "b AND 0x80 = 0x80"
    using assms by (simp add: byte_and_80 split: if_splits)
  moreover have "b = (b AND 0x80) OR (b AND 0x7F)"
    by (rule bit_word_eqI, drule byte_bit_cases, elim disjE) (simp_all add: bit_simps)
  moreover have "(b AND 0x80) OR (b AND 0x7F) = (b AND 0x80) + (b AND 0x7F)"
    by (rule disjunctive_add_eq_or [symmetric])
      (rule bit_word_eqI, drule byte_bit_cases, elim disjE, simp_all add: bit_simps)
  ultimately have b: "b = 0x80 + (b AND 0x7F)" by simp
  have small: "unat (b AND 0x7F) < 128"
    unfolding byte_small_iff [symmetric]
    by (rule bit_word_eqI, drule byte_bit_cases, elim disjE) (simp_all add: bit_simps)
  have "unat b = unat (0x80 + (b AND 0x7F))"
    using b by simp
  also have "\<dots> = 128 + unat (b AND 0x7F)"
    using small by (simp add: unat_word_ariths)
  finally show ?thesis .
qed

lemma ucast_byte_u64: "unat (ucast (b :: byte) :: u64) = unat b"
  using unat_byte_less [of b] by (simp add: unsigned_ucast_eq take_bit_nat_eq_self)

lemma ucast_byte_u32_inj: "(ucast (a :: byte) :: u32) = ucast b \<longleftrightarrow> a = b"
proof
  assume eq: "(ucast a :: u32) = ucast b"
  show "a = b"
  proof (rule bit_word_eqI)
    fix k assume "k < LENGTH(8)"
    moreover have "bit (ucast a :: u32) k = bit (ucast b :: u32) k"
      using eq by simp
    ultimately show "bit a k = bit b k"
      by (simp add: bit_simps)
  qed
qed simp

lemma ucast_byte_u32_byte [simp]: "ucast (ucast (b :: byte) :: u32) = b"
  by (rule bit_word_eqI) (auto simp: bit_simps)

text \<open>A long form with \<open>k\<close> length bytes is minimal when its number needs them all.\<close>

lemma long_minimal_iff:
  assumes "length bs = k" and "0 < k" and "k \<le> 4"
  shows "drop_bit (8 * (k - 1)) (be_word bs :: u32) \<noteq> 0 \<longleftrightarrow> hd bs \<noteq> 0"
proof -
  have "unat (drop_bit (8 * (k - 1)) (be_word bs :: u32)) = be_nat bs div 256 ^ (k - 1)"
    using assms by (simp add: unat_drop_bit_div unat_be_word power_mult)
  then have "drop_bit (8 * (k - 1)) (be_word bs :: u32) \<noteq> 0 \<longleftrightarrow> 256 ^ (k - 1) \<le> be_nat bs"
    by (auto simp: div_eq_0_iff unat_eq_0 [symmetric] not_less simp del: unat_eq_0)
  also have "\<dots> \<longleftrightarrow> hd bs \<noteq> 0"
  proof
    assume "hd bs \<noteq> 0"
    then show "256 ^ (k - 1) \<le> be_nat bs"
      using be_nat_ge [of bs] assms by auto
  next
    assume le: "256 ^ (k - 1) \<le> be_nat bs"
    show "hd bs \<noteq> 0"
    proof
      assume "hd bs = 0"
      then obtain cs where "bs = 0 # cs"
        using assms by (cases bs) auto
      then have "be_nat bs < 256 ^ (k - 1)"
        using be_nat_less [of cs] assms(1) by (auto simp: be_nat_leading_zero)
      with le show False by simp
    qed
  qed
  finally show ?thesis .
qed

text \<open>The lengths an element of \<open>n\<close> bytes of contents is reported to have.\<close>

definition header_size :: "nat \<Rightarrow> nat" where
  "header_size n = 1 + length (der_len n)"

lemma length_der: "length (der t c) = header_size (length c) + length c"
  by (simp add: der_def header_size_def)

lemma der_len_short: "n < 128 \<Longrightarrow> der_len n = [of_nat n]"
  by (simp add: der_len_def)

lemma be_min_32: "128 \<le> n \<Longrightarrow> n < 2 ^ 32 \<Longrightarrow> 0 < length (be_min n) \<and> length (be_min n) \<le> 4"
  using length_be_min [of n 4] by (auto simp: be_min.simps [of n])

lemma header_size_le: "n < 2 ^ 32 \<Longrightarrow> header_size n \<le> 6"
  using be_min_32 [of n] by (auto simp: header_size_def der_len_def)

lemma small_cases: "0 < (k::nat) \<Longrightarrow> k \<le> 4 \<Longrightarrow> k = 1 \<or> k = 2 \<or> k = 3 \<or> k = 4"
  by auto

lemma u64_1_to_4:
  assumes "(w :: u64) \<noteq> 0" and "\<not> w > 4"
  shows "0 < unat w" and "unat w \<le> 4"
  using assms by (auto simp: word_less_nat_alt unat_gt_0)

lemma num_bytes_eq: "0 < k \<Longrightarrow> k \<le> 4 \<Longrightarrow> unat (w :: u64) = k \<Longrightarrow> unat ((w - 1) * 8) = 8 * (k - 1)"
proof -
  assume k: "0 < k" "k \<le> 4" and w: "unat w = k"
  from w have w: "w = of_nat k" by auto
  from small_cases [OF k] show ?thesis
    by (elim disjE) (simp_all add: w)
qed

text \<open>The part of \<open>asn1_header\<close> after the two bytes, for a long length.\<close>

lemma long_header_eq_Ret:
  assumes "0 < k" and "k \<le> 4" and w: "unat (w :: u64) = k"
  shows "bnd (cbs_get_u (unat w)) (\<lambda>len32.
           if len32 < 128 then fail
           else if drop_bit (unat ((w - 1) * 8)) len32 = 0 then fail
           else
             let len = ucast len32 :: u64 in
             if len + 2 + w < len then fail
             else ret (tag, len + (2 + w), 2 + w)) s = (Ret (t, len, hl), r) \<longleftrightarrow>
    (\<exists>n. 128 \<le> n \<and> n < 2 ^ 32 \<and> length (be_min n) = k \<and> s = be_min n @ r \<and> t = tag \<and>
       len = of_nat (n + 2 + k) \<and> hl = of_nat (2 + k))" (is "?lhs \<longleftrightarrow> ?rhs")
proof
  have wk: "w = of_nat k"
    using w by auto
  have no_overflow: "\<not> ucast v + 2 + w < (ucast v :: u64)" for v :: u32
  proof -
    have "unat (ucast v + 2 + w) = unat v + 2 + k"
      using unat_u32_less [of v] assms by (simp add: unat_word_ariths)
    then show ?thesis
      by (simp add: word_less_nat_alt)
  qed
  have sum: "ucast v + (2 + w) = of_nat (unat v + 2 + k)" for v :: u32
  proof -
    have "(ucast v :: u64) = of_nat (unat v)"
      by (rule word_unat_eq_iff [THEN iffD2]) (simp add: unat_of_nat_u64 order_less_trans [OF unat_u32_less])
    then show ?thesis by (simp add: wk)
  qed
  {
    assume ?lhs
    then obtain v s' where v: "cbs_get_u (unat w) s = (Ret v, s')"
      and rest: "(if v < 128 then fail
           else if drop_bit (unat ((w - 1) * 8)) v = 0 then fail
           else let len = ucast v :: u64 in
             if len + 2 + w < len then fail
             else ret (tag, len + (2 + w), 2 + w)) s' = (Ret (t, len, hl), r)"
      by (rule bnd_RetE)
    from v obtain bs where bs0: "length bs = k" "s = bs @ s'" "v = be_word bs"
      unfolding w cbs_get_u_eq_Ret by blast
    from rest have "s' = r" and big: "\<not> be_word bs < (128 :: u32)"
      and min: "drop_bit (8 * (k - 1)) (be_word bs :: u32) \<noteq> 0"
      and res: "t = tag" "len = ucast (be_word bs :: u32) + (2 + w)" "hl = 2 + w"
      unfolding num_bytes_eq [OF assms] Let_def bs0(3)
      by (simp_all only: no_overflow if_False fail_def ret_def split: if_splits) auto
    with bs0 have bs: "length bs = k" "s = bs @ r" by simp_all
    have n: "unat (be_word bs :: u32) = be_nat bs"
      using bs assms by (intro unat_be_word) simp
    have "hd bs \<noteq> 0"
      using min long_minimal_iff [OF bs(1) assms(1,2)] by simp
    then have "be_min (be_nat bs) = bs"
      by (intro be_min_unique) simp
    moreover have "128 \<le> be_nat bs" and "be_nat bs < 2 ^ 32"
      using big n unat_u32_less [of "be_word bs"] by (simp_all add: word_less_nat_alt)
    ultimately show ?rhs
      using bs res n sum [of "be_word bs"] wk by (intro exI [of _ "be_nat bs"]) simp
  }
  {
    assume ?rhs
    then obtain n where n: "128 \<le> n" "n < 2 ^ 32" and k: "length (be_min n) = k" and s: "s = be_min n @ r"
      and res: "t = tag" "len = of_nat (n + 2 + k)" "hl = of_nat (2 + k)" by blast
    let ?w = "be_word (be_min n) :: u32"
    have un: "unat ?w = n"
      using k assms by (subst unat_be_word) simp_all
    have "\<not> ?w < 128"
      using n un by (simp add: word_less_nat_alt)
    moreover have "drop_bit (8 * (k - 1)) ?w \<noteq> 0"
      using long_minimal_iff [OF k assms(1,2)] hd_be_min [of n] n by simp
    moreover have "cbs_get_u k s = (Ret ?w, r)"
      unfolding s using k by (intro cbs_get_u_append) simp
    ultimately show ?lhs
      using no_overflow [of ?w] res sum [of ?w] un
      by (simp only: w num_bytes_eq [OF assms] Let_def bnd_Ret if_False ret_apply simp_thms) (simp add: wk)
  }
qed

lemma der_len_long_Cons:
  assumes "n < 2 ^ 32" and long: "b AND 0x80 \<noteq> 0"
  shows "b # s = der_len n @ r \<longleftrightarrow>
    128 \<le> n \<and> length (be_min n) = unat (b AND 0x7F) \<and> s = be_min n @ r"
proof (cases "n < 128")
  case True
  then have "of_nat n \<noteq> b"
    using long by (auto simp: byte_small_iff unat_of_nat take_bit_nat_eq_self)
  with True show ?thesis
    by (auto simp: der_len_short)
next
  case False
  then have "length (be_min n) \<le> 4"
    using be_min_32 [of n] assms by simp
  then have "unat (of_nat (128 + length (be_min n)) :: byte) = 128 + length (be_min n)"
    by (simp only: unat_of_nat) (simp add: take_bit_nat_eq_self)
  then have "of_nat (128 + length (be_min n)) = b \<longleftrightarrow> length (be_min n) = unat (b AND 0x7F)"
    unfolding word_unat_eq_iff byte_long_split [OF long] by simp
  with False show ?thesis
    by (auto simp: der_len_def)
qed

lemma der_len_short_Cons:
  assumes "n < 2 ^ 32" and short: "b AND 0x80 = 0"
  shows "b # s = der_len n @ r \<longleftrightarrow> n = unat b \<and> s = r"
proof (cases "n < 128")
  case True
  then have "of_nat n = b \<longleftrightarrow> n = unat b"
    by (auto simp: unat_of_nat take_bit_nat_eq_self)
  with True show ?thesis
    by (auto simp: der_len_short)
next
  case False
  then have "length (be_min n) \<le> 4"
    using be_min_32 [of n] assms by simp
  then have "unat (of_nat (128 + length (be_min n)) :: byte) = 128 + length (be_min n)"
    by (simp only: unat_of_nat) (simp add: take_bit_nat_eq_self)
  then show ?thesis
    using False short by (auto simp: der_len_def byte_small_iff)
qed

lemma asn1_header_eq_Ret:
  "asn1_header False s = (Ret (t, len, hl), r) \<longleftrightarrow>
     (\<exists>tg n. short_tag tg \<and> n < 2 ^ 32 \<and> s = tg # der_len n @ r \<and> t = ucast tg \<and>
        len = of_nat (n + header_size n) \<and> hl = of_nat (header_size n))" (is "?lhs \<longleftrightarrow> ?rhs")
proof (cases "\<exists>tg b s'. s = tg # b # s'")
  case False
  then have "s = [] \<or> (\<exists>tg. s = [tg])"
    by (cases s; cases "tl s") auto
  then have "\<not> ?lhs"
    by (auto simp: asn1_header_def bnd_eq_Ret CBS_get_u8_eq_Ret)
  moreover have "der_len n \<noteq> []" for n
    by (simp add: der_len_def)
  then have "\<exists>b x. der_len n @ r = b # x" for n
    by (metis append_Cons neq_Nil_conv)
  with False have "\<not> ?rhs"
    by blast
  ultimately show ?thesis by blast
next
  case True
  then obtain tg b s' where s: "s = tg # b # s'" by blast
  show ?thesis
  proof (cases "short_tag tg")
    case False
    then show ?thesis
      by (auto simp: s asn1_header_def short_tag_def)
  next
    case tag: True
    show ?thesis
    proof (cases "b AND 0x80 = 0")
      case short: True
      then have n: "unat b < 128"
        by (simp add: byte_small_iff)
      have lhs: "asn1_header False s = (Ret (ucast tg, of_nat (unat b + 2), 2), s')"
        using tag short by (simp add: s asn1_header_def short_tag_def)
      have "?rhs \<longleftrightarrow> s' = r \<and> t = ucast tg \<and> len = of_nat (unat b + 2) \<and> hl = 2"
        using tag n by (auto simp: s der_len_short_Cons [OF _ short] header_size_def der_len_short
          intro!: exI [of _ "unat b"])
      then show ?thesis
        unfolding lhs by auto
    next
      case long: False
      define w where "w = (ucast (b AND 0x7F) :: u64)"
      have w: "unat w = unat (b AND 0x7F)"
        by (simp add: w_def ucast_byte_u64)
      have rhs: "?rhs \<longleftrightarrow> (\<exists>n. 128 \<le> n \<and> n < 2 ^ 32 \<and> length (be_min n) = unat w \<and> s' = be_min n @ r \<and>
          t = ucast tg \<and> len = of_nat (n + 2 + unat w) \<and> hl = of_nat (2 + unat w))"
      proof -
        have size: "header_size n = 2 + unat w" if "128 \<le> n" "length (be_min n) = unat w" for n
          using that by (simp add: header_size_def der_len_def)
        have "?rhs \<longleftrightarrow> (\<exists>n. n < 2 ^ 32 \<and> b # s' = der_len n @ r \<and> t = ucast tg \<and>
            len = of_nat (n + header_size n) \<and> hl = of_nat (header_size n))"
          using tag by (auto simp: s)
        also have "\<dots> \<longleftrightarrow> (\<exists>n. 128 \<le> n \<and> n < 2 ^ 32 \<and> length (be_min n) = unat w \<and>
            s' = be_min n @ r \<and> t = ucast tg \<and> len = of_nat (n + 2 + unat w) \<and> hl = of_nat (2 + unat w))"
          by (intro iff_exI) (use size in \<open>auto simp: w der_len_long_Cons [OF _ long] add.assoc\<close>)
        finally show ?thesis .
      qed
      have lhs: "asn1_header False s = (if w = 0 \<or> w > 4 then fail else
          bnd (cbs_get_u (unat w)) (\<lambda>len32.
           if len32 < 128 then fail
           else if drop_bit (unat ((w - 1) * 8)) len32 = 0 then fail
           else
             let len = ucast len32 :: u64 in
             if len + 2 + w < len then fail
             else ret (ucast tg, len + (2 + w), 2 + w))) s'"
        using tag long by (simp add: s asn1_header_def short_tag_def w_def [symmetric] Let_def)
      show ?thesis
      proof (cases "w = 0 \<or> w > 4")
        case True
        then have "\<not> ?lhs" by (simp add: lhs)
        moreover have "unat w = 0 \<or> unat w > 4"
          using True by (auto simp: word_less_nat_alt)
        then have "\<not> ?rhs"
          unfolding rhs using be_min_32 by force
        ultimately show ?thesis by blast
      next
        case False
        then show ?thesis
          unfolding lhs rhs if_not_P [OF False]
          by (intro long_header_eq_Ret u64_1_to_4) auto
      qed
    qed
  qed
qed

section \<open>Elements\<close>

lemma size_u64: "n < 2 ^ 32 \<Longrightarrow> unat (of_nat (n + header_size n) :: u64) = n + header_size n"
  using header_size_le [of n] by (intro unat_of_nat_u64) simp

lemma header_size_u64: "n < 2 ^ 32 \<Longrightarrow> unat (of_nat (header_size n) :: u64) = header_size n"
  using header_size_le [of n] by (intro unat_of_nat_u64) simp

lemma get_any_asn1_element_eq_Ret:
  "CBS_get_any_asn1_element s = (Ret (el, t, hl), rest) \<longleftrightarrow>
     (\<exists>tg c. short_tag tg \<and> length c < 2 ^ 32 \<and> s = der tg c @ rest \<and> el = der tg c \<and>
        t = ucast tg \<and> hl = of_nat (header_size (length c)))" (is "?lhs \<longleftrightarrow> ?rhs")
proof
  assume ?lhs
  then obtain len r where h: "asn1_header False s = (Ret (t, len, hl), r)"
    and el: "CBS_get_bytes (unat len) s = (Ret el, rest)"
    by (cases "asn1_header False s" rule: res_cases_prod)
      (auto simp: CBS_get_any_asn1_element_def cbs_get_any_asn1_element_def bnd_eq_Ret)
  from h obtain tg n where tg: "short_tag tg" "n < 2 ^ 32" "s = tg # der_len n @ r" "t = ucast tg"
    "len = of_nat (n + header_size n)" "hl = of_nat (header_size n)"
    unfolding asn1_header_eq_Ret by blast
  from el have el: "length el = n + header_size n" "s = el @ rest"
    unfolding CBS_get_bytes_eq_Ret tg(5) size_u64 [OF tg(2)] by simp_all
  define c where "c = drop (header_size n) el"
  have "take (header_size n) (el @ rest) = tg # der_len n"
    unfolding el(2) [symmetric] tg(3) by (simp add: header_size_def)
  then have "el = tg # der_len n @ c"
    using el(1) by (simp add: c_def) (metis append_Cons append_take_drop_id)
  moreover from this have "length c = n"
    using el(1) by (simp add: header_size_def)
  ultimately show ?rhs
    using tg el(2) by (intro exI [of _ tg] exI [of _ c]) (simp add: der_def)
next
  assume ?rhs
  then obtain tg c where c: "short_tag tg" "length c < 2 ^ 32" "s = der tg c @ rest" "el = der tg c"
    "t = ucast tg" "hl = of_nat (header_size (length c))" by blast
  have "asn1_header False s = (Ret (t, of_nat (length c + header_size (length c)), hl), c @ rest)"
    unfolding asn1_header_eq_Ret using c by (intro exI [of _ tg] exI [of _ "length c"]) (simp add: der_def)
  moreover have "CBS_get_bytes (length c + header_size (length c)) s = (Ret el, rest)"
    unfolding CBS_get_bytes_eq_Ret using c by (simp add: length_der)
  ultimately show ?lhs
    using size_u64 [OF c(2)]
    by (simp add: CBS_get_any_asn1_element_def cbs_get_any_asn1_element_def bnd_def)
qed

lemma drop_header: "drop (header_size (length c)) (der tg c) = c"
  by (simp add: der_def header_size_def)

lemma skip_header_der:
  "length c < 2 ^ 32 \<Longrightarrow> skip_header (of_nat (header_size (length c))) (der tg c) s = (Ret c, s)"
  by (simp add: skip_header_def CBS_skip_def header_size_u64 bnd_def cbs_get_eq length_der drop_header)

text \<open>The assertions of the parsers hold: no run gets stuck.\<close>

lemma cbs_get_u_not_Stuck [simp]: "cbs_get_u n s \<noteq> (Stuck, r)"
  by (simp add: cbs_get_u_def bnd_def cbs_get_eq)

lemma CBS_get_u8_not_Stuck [simp]: "CBS_get_u8 s \<noteq> (Stuck, r)"
  by (simp add: CBS_get_u8_eq split: list.splits)

definition no_stuck :: "('s, 'a) prog \<Rightarrow> bool" where
  "no_stuck f \<longleftrightarrow> (\<forall>s r. f s \<noteq> (Stuck, r))"

lemma no_stuckD: "no_stuck f \<Longrightarrow> f s \<noteq> (Stuck, r)"
  by (simp add: no_stuck_def)

lemma no_stuck_fst: "no_stuck f \<Longrightarrow> fst (f s) \<noteq> Stuck"
  by (metis no_stuckD surjective_pairing)

named_theorems no_stuck_intros \<open>programs that never get stuck\<close>

lemma no_stuck_basic [no_stuck_intros]:
  "no_stuck (ret x)" "no_stuck fail" "no_stuck (cbs_get n)" "no_stuck (cbs_get_u n)" "no_stuck CBS_get_u8"
  by (simp_all add: no_stuck_def)

lemma no_stuck_bnd [no_stuck_intros]:
  "no_stuck f \<Longrightarrow> (\<And>x. no_stuck (g x)) \<Longrightarrow> no_stuck (bnd f g)"
  by (auto simp: no_stuck_def bnd_def split: prod.splits res.splits)

lemma no_stuck_if [no_stuck_intros]:
  "(b \<Longrightarrow> no_stuck f) \<Longrightarrow> (\<not> b \<Longrightarrow> no_stuck g) \<Longrightarrow> no_stuck (if b then f else g)"
  by simp

lemma no_stuck_cases [no_stuck_intros]:
  "(\<And>a b. no_stuck (f a b)) \<Longrightarrow> no_stuck (case p of (a, b) \<Rightarrow> f a b)"
  "no_stuck g \<Longrightarrow> (\<And>x. no_stuck (h x)) \<Longrightarrow> no_stuck (case r of None \<Rightarrow> g | Some x \<Rightarrow> h x)"
  by (auto split: prod.splits option.splits)

lemma no_stuck_byte_at [no_stuck_intros]: "i < length data \<Longrightarrow> no_stuck (byte_at data i)"
  by (simp add: no_stuck_def)

lemma no_stuck_nested [no_stuck_intros]: "no_stuck f \<Longrightarrow> no_stuck (nested f child)"
  by (auto simp: no_stuck_def nested_def split: prod.splits res.splits)

lemma no_stuck_header [no_stuck_intros]: "no_stuck (asn1_header ber_ok)"
  unfolding asn1_header_def Let_def by (intro no_stuck_intros)

lemma no_stuck_get_any_asn1_element [no_stuck_intros]: "no_stuck (cbs_get_any_asn1_element ber_ok)"
proof -
  have "no_stuck (bnd (CBS_get_bytes n) (\<lambda>out. ret (out, tag, hl)))" for n and tag :: u32 and hl :: u64
    unfolding CBS_get_bytes_def by (intro no_stuck_intros)
  then have "bnd (CBS_get_bytes n) (\<lambda>out. ret (out, tag, hl)) s \<noteq> (Stuck, r)"
    for n s r and tag :: u32 and hl :: u64
    by (rule no_stuckD)
  then show ?thesis
    unfolding no_stuck_def cbs_get_any_asn1_element_def
    using no_stuckD [OF no_stuck_header]
    by (auto split: prod.splits res.splits)
qed

lemma no_stuck_element [no_stuck_intros]: "no_stuck CBS_get_any_asn1_element"
  unfolding CBS_get_any_asn1_element_def by (rule no_stuck_get_any_asn1_element)

text \<open>
  The parsers that drop the header: they succeed exactly on the DER encoding of an element, and
  the assertion that the header can be dropped holds.
\<close>

lemma get_any_asn1_cases:
  obtains tg c rest where "short_tag tg" "length c < 2 ^ 32" "s = der tg c @ rest"
    "CBS_get_any_asn1_element s = (Ret (der tg c, ucast tg, of_nat (header_size (length c))), rest)"
  | s' where "CBS_get_any_asn1_element s = (Fail, s')"
      "\<And>tg c rest. short_tag tg \<Longrightarrow> length c < 2 ^ 32 \<Longrightarrow> s \<noteq> der tg c @ rest"
proof (cases "CBS_get_any_asn1_element s" rule: res_cases_prod)
  case (1 x rest)
  moreover obtain el t hl where "x = (el, t, hl)" by (cases x) auto
  ultimately show ?thesis
    using that(1) get_any_asn1_element_eq_Ret [of s el t hl rest] by fastforce
next
  case (2 s')
  then have "s \<noteq> der tg c @ rest" if "short_tag tg" "length c < 2 ^ 32" for tg c rest
    using that get_any_asn1_element_eq_Ret
      [of s "der tg c" "ucast tg" "of_nat (header_size (length c))" rest] by auto
  with 2 show ?thesis using that(2) by blast
next
  case (3 s')
  then show ?thesis using no_stuckD [OF no_stuck_element] by metis
qed

lemma der_append_eq:
  assumes "short_tag tg" "short_tag tg'" "length c < 2 ^ 32" "length c' < 2 ^ 32"
  shows "der tg c @ r = der tg' c' @ r' \<longleftrightarrow> tg = tg' \<and> c = c' \<and> r = r'"
proof
  assume eq: "der tg c @ r = der tg' c' @ r'"
  have "CBS_get_any_asn1_element (der tg c @ r) =
      (Ret (der tg c, ucast tg, of_nat (header_size (length c))), r)"
    using assms by (auto simp: get_any_asn1_element_eq_Ret)
  moreover have "CBS_get_any_asn1_element (der tg c @ r) =
      (Ret (der tg' c', ucast tg', of_nat (header_size (length c'))), r')"
    using assms by (auto simp: get_any_asn1_element_eq_Ret eq)
  ultimately have "der tg c = der tg' c'" and r: "r = r'"
    and h: "(of_nat (header_size (length c)) :: u64) = of_nat (header_size (length c'))"
    by (simp_all)
  then have t: "tg = tg'" and c: "der_len (length c) @ c = der_len (length c') @ c'"
    by (simp_all add: der_def)
  have "header_size (length c) = header_size (length c')"
    using h header_size_u64 assms by metis
  then have "length (der_len (length c)) = length (der_len (length c'))"
    by (simp add: header_size_def)
  with c have "c = c'" by simp
  with t r show "tg = tg' \<and> c = c' \<and> r = r'" by simp
qed simp

lemma CBS_get_any_asn1_eq_Ret:
  "CBS_get_any_asn1 s = (Ret (c, t), rest) \<longleftrightarrow>
     (\<exists>tg. short_tag tg \<and> length c < 2 ^ 32 \<and> s = der tg c @ rest \<and> t = ucast tg)"
proof (cases s rule: get_any_asn1_cases)
  case (1 tg c' r')
  then have "CBS_get_any_asn1 s = (Ret (c', ucast tg), r')"
    by (simp add: CBS_get_any_asn1_def bnd_def skip_header_der)
  with 1 show ?thesis
    by (auto simp: der_append_eq)
next
  case (2 s')
  then show ?thesis
    by (auto simp: CBS_get_any_asn1_def)
qed

lemmas get_asn1_defs = CBS_get_asn1_def CBS_get_asn1_element_def cbs_get_asn1_def bnd_def

lemma CBS_get_asn1_eq_Ret:
  assumes "short_tag tg"
  shows "CBS_get_asn1 (ucast tg) s = (Ret c, rest) \<longleftrightarrow> length c < 2 ^ 32 \<and> s = der tg c @ rest"
proof (cases s rule: get_any_asn1_cases)
  case (1 tg' c' r')
  then show ?thesis
    using assms by (auto simp: get_asn1_defs skip_header_der der_append_eq ucast_byte_u32_inj)
next
  case (2 s')
  then show ?thesis
    using assms by (auto simp: get_asn1_defs)
qed

lemma CBS_get_asn1_element_eq_Ret:
  assumes "short_tag tg"
  shows "CBS_get_asn1_element (ucast tg) s = (Ret el, rest) \<longleftrightarrow>
    (\<exists>c. length c < 2 ^ 32 \<and> s = der tg c @ rest \<and> el = der tg c)"
proof (cases s rule: get_any_asn1_cases)
  case (1 tg' c' r')
  then show ?thesis
    using assms by (auto simp: get_asn1_defs der_append_eq ucast_byte_u32_inj)
next
  case (2 s')
  then show ?thesis
    using assms by (auto simp: get_asn1_defs)
qed

lemma no_stuck_asn1 [no_stuck_intros]:
  "no_stuck CBS_get_any_asn1" "no_stuck (CBS_get_asn1 t)" "no_stuck (CBS_get_asn1_element t)"
proof -
  have "CBS_get_any_asn1 s \<noteq> (Stuck, r) \<and> CBS_get_asn1 t s \<noteq> (Stuck, r) \<and>
      CBS_get_asn1_element t s \<noteq> (Stuck, r)" for s r
    by (cases s rule: get_any_asn1_cases)
      (auto simp: get_asn1_defs CBS_get_any_asn1_def skip_header_der)
  then show "no_stuck CBS_get_any_asn1" "no_stuck (CBS_get_asn1 t)" "no_stuck (CBS_get_asn1_element t)"
    by (simp_all add: no_stuck_def)
qed

lemma CBS_get_asn1_der:
  "short_tag tg \<Longrightarrow> length c < 2 ^ 32 \<Longrightarrow> CBS_get_asn1 (ucast tg) (der tg c @ r) = (Ret c, r)"
  by (simp add: CBS_get_asn1_eq_Ret)

section \<open>Integers\<close>

lemma uint64_loop_append:
  "uint64_loop (as @ bs) out = Option.bind (uint64_loop as out) (uint64_loop bs)"
  by (induction as arbitrary: out) simp_all

lemma uint64_loop_eq: "uint64_loop bs 0 = (if be_nat bs < 2 ^ 64 then Some (of_nat (be_nat bs)) else None)"
proof (induction bs rule: rev_induct)
  case (snoc b bs)
  let ?w = "of_nat (be_nat bs) :: u64"
  show ?case
  proof (cases "be_nat bs < 2 ^ 56")
    case True
    then have w: "unat ?w = be_nat bs"
      by (intro unat_of_nat_u64) simp
    then have "drop_bit 56 ?w = 0"
      using True by (simp add: unat_eq_0 [symmetric] unat_drop_bit_div div_eq_0_iff del: unat_eq_0)
    moreover have n: "be_nat bs * 256 + unat b < 2 ^ 64"
      using True unat_byte_less [of b] by simp
    moreover have "push_bit 8 ?w OR ucast b = of_nat (be_nat bs * 256 + unat b)"
    proof -
      have "be_nat bs * 256 + 255 < 2 ^ 64"
        using True by simp
      then have "unat (push_bit 8 ?w OR ucast b) = unat ?w * 256 + unat b"
        by (intro unat_push_byte) (simp_all only: w, simp_all)
      then show ?thesis
        unfolding word_unat_eq_iff by (simp only: w unat_of_nat_u64 [OF n])
    qed
    ultimately show ?thesis
      using snoc True by (simp add: uint64_loop_append)
  next
    case False
    then have big: "\<not> be_nat bs * 256 + unat b < 2 ^ 64" by simp
    show ?thesis
    proof (cases "be_nat bs < 2 ^ 64")
      case True
      then have "unat ?w = be_nat bs"
        by (rule unat_of_nat_u64)
      then have "drop_bit 56 ?w \<noteq> 0"
        using False by (simp add: unat_eq_0 [symmetric] unat_drop_bit_div div_eq_0_iff del: unat_eq_0)
      then show ?thesis
        using snoc True big by (simp add: uint64_loop_append)
    qed (use snoc big in \<open>simp add: uint64_loop_append\<close>)
  qed
qed simp

text \<open>The contents of an INTEGER are accepted when they are the shortest form of a number below \<open>2 ^ 64\<close>.\<close>

lemma be_min_eq_Nil [simp]: "be_min n = [] \<longleftrightarrow> n = 0"
  by (metis be_min_0 be_nat_Nil be_nat_be_min)

lemma be_nat_der_uint [simp]: "be_nat (der_uint n) = n"
  by (simp add: der_uint_def Let_def be_nat_leading_zero)

lemma der_uint_iff:
  "data = der_uint (be_nat data) \<longleftrightarrow>
    data \<noteq> [] \<and> data ! 0 AND 0x80 = 0 \<and> \<not> (data ! 0 = 0 \<and> length data > 1 \<and> data ! 1 AND 0x80 = 0)"
proof (cases data)
  case (Cons d ds)
  show ?thesis
  proof (cases "d = 0")
    case d: True
    show ?thesis
    proof (cases ds)
      case Nil
      with Cons d show ?thesis by (simp add: der_uint_def)
    next
      case ds: (Cons e es)
      show ?thesis
      proof (cases "e AND 0x80 = 0")
        case False
        then have "be_min (be_nat ds) = ds"
          by (intro be_min_unique) (auto simp: ds)
        then show ?thesis
          using False by (auto simp: Cons d be_nat_leading_zero der_uint_def Let_def) (simp_all add: ds)
      next
        case True
        moreover have "be_min n \<noteq> 0 # xs" for n xs
          using hd_be_min [of n] by (cases "n = 0") auto
        then have "0 # e # es \<noteq> be_min n" for n
          by metis
        ultimately show ?thesis
          by (auto simp: Cons d ds be_nat_leading_zero der_uint_def Let_def)
      qed
    qed
  next
    case False
    then have "be_min (be_nat data) = data"
      by (intro be_min_unique) (simp add: Cons)
    then show ?thesis
      using False by (auto simp: Cons der_uint_def Let_def)
  qed
qed (simp add: der_uint_def)

lemma asn1_uint64_value_run:
  "asn1_uint64_value data =
     (if data = [] \<or> data ! 0 AND 0x80 \<noteq> 0 \<or> data ! 0 = 0 \<and> length data > 1 \<and> data ! 1 AND 0x80 = 0
      then fail else case uint64_loop data 0 of None \<Rightarrow> fail | Some v \<Rightarrow> ret v)"
  by (auto simp: asn1_uint64_value_def)

lemma asn1_uint64_value_eq_Ret:
  "asn1_uint64_value data s = (Ret v, s') \<longleftrightarrow> s' = s \<and> data = der_uint (unat v)"
proof
  assume v: "asn1_uint64_value data s = (Ret v, s')"
  then have data: "data = der_uint (be_nat data)" and loop: "uint64_loop data 0 = Some v" and s: "s' = s"
    unfolding der_uint_iff by (auto simp: asn1_uint64_value_run split: if_splits option.splits)
  from loop have "unat v = be_nat data"
    by (auto simp: uint64_loop_eq unat_of_nat_u64 split: if_splits)
  with data s show "s' = s \<and> data = der_uint (unat v)" by simp
next
  assume data: "s' = s \<and> data = der_uint (unat v)"
  then have n: "be_nat data = unat v" by simp
  with data have "data = der_uint (be_nat data)" by simp
  moreover have "uint64_loop data 0 = Some v"
    using unat_u64_less [of v] by (simp add: uint64_loop_eq n)
  ultimately show "asn1_uint64_value data s = (Ret v, s')"
    using data unfolding der_uint_iff by (auto simp: asn1_uint64_value_run)
qed

lemma ucast_tags [simp]:
  "(ucast (0x01 :: byte) :: u32) = 0x01" "(ucast (0x02 :: byte) :: u32) = 0x02"
  "(ucast (0x04 :: byte) :: u32) = 0x04"
  by simp_all

lemma short_tags: "short_tag 0x01" "short_tag 0x02" "short_tag 0x04"
  by (simp_all add: short_tag_def)

lemmas CBS_get_universal_eq_Ret =
  CBS_get_asn1_eq_Ret [OF short_tags(1), unfolded ucast_tags]
  CBS_get_asn1_eq_Ret [OF short_tags(2), unfolded ucast_tags]
  CBS_get_asn1_eq_Ret [OF short_tags(3), unfolded ucast_tags]

lemma length_der_uint: "n < 2 ^ 64 \<Longrightarrow> length (der_uint n) \<le> 9"
  using length_be_min [of n 8] by (simp add: der_uint_def Let_def)

lemma length_der_uint_u64 [simp]: "length (der_uint (unat (v :: u64))) < 2 ^ 32"
  by (rule order.strict_trans1 [OF length_der_uint [OF unat_u64_less]]) simp

lemma get_asn1_uint64_eq_Ret:
  "CBS_get_asn1_uint64 s = (Ret v, rest) \<longleftrightarrow> s = der 0x02 (der_uint (unat v)) @ rest"
  unfolding CBS_get_asn1_uint64_def CBS_data_def bnd_eq_Ret CBS_get_universal_eq_Ret
    asn1_uint64_value_eq_Ret using length_der_uint_u64 [of v] by auto

lemma no_stuck_asn1_uint64 [no_stuck_intros]: "no_stuck CBS_get_asn1_uint64"
  unfolding CBS_get_asn1_uint64_def asn1_uint64_value_run by (intro no_stuck_intros)

section \<open>Optional elements\<close>

text \<open>
  An optional element is taken when the next byte is its tag. The parsers of optional values
  then need exactly one element of the value's type in it.
\<close>

lemma peek_tag_run: "CBS_peek_asn1_tag t s = (Ret (s \<noteq> [] \<and> ucast (hd s) = t), s)"
  by (cases s) (auto simp: CBS_peek_asn1_tag_def CBS_len_def CBS_data_def bnd_def)

lemma optional_asn1_run:
  "CBS_get_optional_asn1 (ucast tg) s =
    (if s \<noteq> [] \<and> hd s = tg then bnd (CBS_get_asn1 (ucast tg)) (\<lambda>out. ret (Some out)) s
     else (Ret None, s))"
  by (simp add: CBS_get_optional_asn1_def bnd_def peek_tag_run ucast_byte_u32_inj)

lemma der_not_Nil [simp]: "der tg c \<noteq> []" "hd (der tg c @ r) = tg"
  by (simp_all add: der_def)

lemma CBS_get_optional_asn1_eq_Ret:
  assumes "short_tag tg"
  shows "CBS_get_optional_asn1 (ucast tg) s = (Ret r, rest) \<longleftrightarrow>
    (case r of
       Some c \<Rightarrow> length c < 2 ^ 32 \<and> s = der tg c @ rest
     | None \<Rightarrow> s = rest \<and> (s = [] \<or> hd s \<noteq> tg))"
proof (cases r)
  case None
  then show ?thesis
    by (auto simp: optional_asn1_run bnd_eq_Ret)
next
  case (Some c)
  then show ?thesis
    using CBS_get_asn1_eq_Ret [OF assms]
    by (auto simp: optional_asn1_run bnd_eq_Ret)
qed

lemma bnd_optional_eq_Ret:
  assumes "short_tag tg"
  shows "bnd (CBS_get_optional_asn1 (ucast tg)) f s = (Ret w, rest) \<longleftrightarrow>
    (\<exists>c s'. length c < 2 ^ 32 \<and> s = der tg c @ s' \<and> f (Some c) s' = (Ret w, rest)) \<or>
    (s = [] \<or> hd s \<noteq> tg) \<and> f None s = (Ret w, rest)"
proof -
  have ex: "(\<exists>r. P r) \<longleftrightarrow> (\<exists>c. P (Some c)) \<or> P None" for P :: "'b option \<Rightarrow> bool"
    by (metis option.exhaust)
  show ?thesis
    unfolding bnd_eq_Ret CBS_get_optional_asn1_eq_Ret [OF assms] ex by auto
qed

lemma nested_eq_Ret:
  "nested f child s = (Ret (x, child'), s') \<longleftrightarrow> f child = (Ret x, child') \<and> s' = s"
  by (auto simp: nested_def split: prod.splits res.splits)

section \<open>Parsers and encodings\<close>

text \<open>
  The contract of a parser: it accepts exactly the encodings of its values. A parser that keeps
  it inverts the encoding, which is then unambiguous, and, run on the contents of an element,
  accepts just the encodings that fill it.
\<close>

locale parser_for =
  fixes get :: "(cbs, 'a) prog" and ok :: "'a \<Rightarrow> bool" and enc :: "'a \<Rightarrow> byte list"
  assumes get_iff: "get s = (Ret v, rest) \<longleftrightarrow> ok v \<and> s = enc v @ rest"
begin

lemma get_enc: "ok v \<Longrightarrow> get (enc v @ rest) = (Ret v, rest)"
  by (simp add: get_iff)

lemma unambiguous: "ok v \<Longrightarrow> ok w \<Longrightarrow> enc v @ r = enc w @ r' \<longleftrightarrow> v = w \<and> r = r'"
  using get_iff [of "enc v @ r" v r] get_iff [of "enc v @ r" w r'] by auto

lemma whole_child:
  "bnd (nested get child) (\<lambda>(out, child'). if CBS_len child' \<noteq> 0 then fail else k out) s = (Ret w, rest)
    \<longleftrightarrow> (\<exists>v. ok v \<and> child = enc v \<and> k v s = (Ret w, rest))"
  unfolding bnd_eq_Ret
proof (intro iffI; elim exE conjE)
  fix x s'
  assume "nested get child s = (Ret x, s')"
    and "(case x of (out, child') \<Rightarrow> if CBS_len child' \<noteq> 0 then fail else k out) s' = (Ret w, rest)"
  then show "\<exists>v. ok v \<and> child = enc v \<and> k v s = (Ret w, rest)"
    by (cases x) (auto simp: nested_eq_Ret get_iff CBS_len_def split: if_splits)
next
  fix v
  assume v: "ok v" "child = enc v" "k v s = (Ret w, rest)"
  then have "nested get child s = (Ret (v, []), s)"
    by (simp add: nested_eq_Ret get_iff)
  with v(3) show "\<exists>x s'. nested get child s = (Ret x, s') \<and>
      (case x of (out, child') \<Rightarrow> if CBS_len child' \<noteq> 0 then fail else k out) s' = (Ret w, rest)"
    by (auto simp: CBS_len_def intro!: exI [of _ "(v, [])"])
qed

end

interpretation uint64: parser_for CBS_get_asn1_uint64 "\<lambda>_. True" "\<lambda>v. der 0x02 (der_uint (unat v))"
  by unfold_locales (simp add: get_asn1_uint64_eq_Ret)

interpretation octets: parser_for "CBS_get_asn1 0x04" "\<lambda>c. length c < 2 ^ 32" "der 0x04"
  by unfold_locales (simp only: CBS_get_universal_eq_Ret)

interpretation any_asn1: parser_for CBS_get_any_asn1
  "\<lambda>(c, t). (\<exists>tg. short_tag tg \<and> t = ucast tg) \<and> length c < 2 ^ 32" "\<lambda>(c, t). der (ucast t) c"
  by unfold_locales (fastforce simp: CBS_get_any_asn1_eq_Ret split: prod.splits)

lemma get_optional_uint64_eq_Ret:
  assumes "short_tag tg"
  shows "CBS_get_optional_asn1_uint64 (ucast tg) d s = (Ret v, rest) \<longleftrightarrow>
    s = der tg (der 0x02 (der_uint (unat v))) @ rest \<or>
    v = d \<and> s = rest \<and> (s = [] \<or> hd s \<noteq> tg)"
proof -
  have small: "length (der 2 (der_uint (unat v))) < 2 ^ 32"
    using header_size_le [of "length (der_uint (unat v))"] length_der_uint [of "unat v"]
      unat_u64_less [of v] by (simp add: length_der)
  show ?thesis
    unfolding CBS_get_optional_asn1_uint64_def bnd_optional_eq_Ret [OF assms] option.case
      uint64.whole_child using small by auto
qed

lemma get_optional_octet_string_eq_Ret:
  assumes "short_tag tg"
  shows "CBS_get_optional_asn1_octet_string (ucast tg) s = (Ret (out, present), rest) \<longleftrightarrow>
    present \<and> length (der 0x04 out) < 2 ^ 32 \<and> s = der tg (der 0x04 out) @ rest \<or>
    \<not> present \<and> out = [] \<and> s = rest \<and> (s = [] \<or> hd s \<noteq> tg)"
  unfolding CBS_get_optional_asn1_octet_string_def bnd_optional_eq_Ret [OF assms] option.case
    octets.whole_child CBS_init_def by (auto simp: length_der)

text \<open>A BOOLEAN is one byte, 0 or 255.\<close>

definition der_bool :: "bool \<Rightarrow> byte list" where
  "der_bool b = der 0x01 [if b then 0xFF else 0]"

lemma bool_child:
  "bnd (nested (CBS_get_asn1 1) child) (\<lambda>(child2, child').
       if CBS_len child2 \<noteq> 1 \<or> CBS_len child' \<noteq> 0 then fail
       else bnd (byte_at (CBS_data child2) 0) (\<lambda>boolean.
         if boolean = 0 then ret False else if boolean = 0xFF then ret True else fail)) s = (Ret b, rest)
    \<longleftrightarrow> child = der_bool b \<and> s = rest"
  unfolding bnd_eq_Ret
proof (rule iffI, elim exE conjE)
  fix x s'
  assume "nested (CBS_get_asn1 1) child s = (Ret x, s')"
    and "(case x of (child2, child') \<Rightarrow>
       if CBS_len child2 \<noteq> 1 \<or> CBS_len child' \<noteq> 0 then fail
       else bnd (byte_at (CBS_data child2) 0) (\<lambda>boolean.
         if boolean = 0 then ret False else if boolean = 0xFF then ret True else fail)) s' = (Ret b, rest)"
  then show "child = der_bool b \<and> s = rest"
    by (cases x) (auto simp: nested_eq_Ret CBS_get_universal_eq_Ret CBS_len_def CBS_data_def der_bool_def
      length_Suc_conv split: if_splits)
next
  assume b: "child = der_bool b \<and> s = rest"
  then have "nested (CBS_get_asn1 1) child s = (Ret ([if b then 0xFF else 0], []), s)"
    by (simp add: nested_eq_Ret CBS_get_universal_eq_Ret der_bool_def)
  with b show "\<exists>x s'. nested (CBS_get_asn1 1) child s = (Ret x, s') \<and>
      (case x of (child2, child') \<Rightarrow>
       if CBS_len child2 \<noteq> 1 \<or> CBS_len child' \<noteq> 0 then fail
       else bnd (byte_at (CBS_data child2) 0) (\<lambda>boolean.
         if boolean = 0 then ret False else if boolean = 0xFF then ret True else fail)) s' = (Ret b, rest)"
    by (auto simp: CBS_len_def CBS_data_def)
qed

lemma get_optional_bool_eq_Ret:
  assumes "short_tag tg"
  shows "CBS_get_optional_asn1_bool (ucast tg) d s = (Ret b, rest) \<longleftrightarrow>
    s = der tg (der_bool b) @ rest \<or> b = d \<and> s = rest \<and> (s = [] \<or> hd s \<noteq> tg)"
  unfolding CBS_get_optional_asn1_bool_def bnd_optional_eq_Ret [OF assms] option.case bool_child
  by (auto simp: der_bool_def der_def der_len_def)

section \<open>Plain bytes\<close>

text \<open>Length-prefixed strings.\<close>

lemma get_length_prefixed_eq_Ret:
  assumes "n \<le> 4"
  shows "cbs_get_length_prefixed n s = (Ret c, rest) \<longleftrightarrow>
    length c < 256 ^ n \<and> s = be_bytes n (of_nat (length c) :: u32) @ c @ rest"
proof
  assume "cbs_get_length_prefixed n s = (Ret c, rest)"
  then obtain v s' where "cbs_get_u n s = (Ret v, s')" and c: "length c = unat v" "s' = c @ rest"
    unfolding cbs_get_length_prefixed_def by (rule bnd_RetE) (auto simp: CBS_get_bytes_eq_Ret)
  then obtain bs where bs: "length bs = n" "s = bs @ s'" "v = be_word bs"
    unfolding cbs_get_u_eq_Ret by blast
  have "unat v = be_nat bs"
    unfolding bs(3) using assms bs(1) by (intro unat_be_word) simp
  then have len: "length c < 256 ^ n"
    using c(1) be_nat_less [of bs] bs(1) by simp
  have "(of_nat (length c) :: u32) = be_word bs"
    unfolding c(1) bs(3) by simp
  then have "be_bytes n (of_nat (length c) :: u32) = bs"
    using be_bytes_be_word [OF bs(1), where 'a = 32] assms by simp
  with len bs c show "length c < 256 ^ n \<and> s = be_bytes n (of_nat (length c) :: u32) @ c @ rest"
    by simp
next
  assume *: "length c < 256 ^ n \<and> s = be_bytes n (of_nat (length c) :: u32) @ c @ rest"
  have "(256::nat) ^ n \<le> 2 ^ 32"
    using power_increasing [OF assms, of "256::nat"] by simp
  then have len: "unat (of_nat (length c) :: u32) = length c"
    using * by (intro unat_of_nat_u32) linarith
  have "cbs_get_u n s = (Ret (of_nat (length c)), c @ rest)"
    unfolding cbs_get_u_eq_Ret using * len
    by (intro exI [of _ "be_bytes n (of_nat (length c) :: u32)"]) (simp add: be_word_be_bytes_small)
  then show "cbs_get_length_prefixed n s = (Ret c, rest)"
    by (simp add: cbs_get_length_prefixed_def len)
qed

lemma foldl_or_zero: "foldl (\<lambda>x (p, q). x OR (p XOR q)) (x :: byte) zs = 0 \<longleftrightarrow>
    x = 0 \<and> (\<forall>z\<in>set zs. fst z = snd z)"
proof (induction zs arbitrary: x)
  case (Cons z zs)
  have "x OR (fst z XOR snd z) = 0 \<longleftrightarrow> x = 0 \<and> fst z = snd z"
    by (auto simp: bit_eq_iff bit_simps)
  with Cons show ?case
    by (auto simp: split_def)
qed simp

lemma CRYPTO_memcmp_eq_0: "length a = length b \<Longrightarrow> CRYPTO_memcmp a b = 0 \<longleftrightarrow> a = b"
  by (simp add: CRYPTO_memcmp_def foldl_or_zero) (auto simp: set_zip list_eq_iff_nth_eq)

lemma mem_equal_iff: "CBS_mem_equal cbs data \<longleftrightarrow> cbs = data"
  by (auto simp: CBS_mem_equal_def CRYPTO_memcmp_eq_0)

section \<open>Bit strings\<close>

text \<open>
  The contents of a BIT STRING: a first byte with the number of unused bits, and the bits, the
  first one in the highest bit of the first byte.
\<close>

definition byte_bits :: "byte \<Rightarrow> bool list" where
  "byte_bits b = map (\<lambda>i. bit b (7 - i)) [0..<8]"

definition bitstring_bits :: "byte \<Rightarrow> byte list \<Rightarrow> bool list" where
  "bitstring_bits unused bs = take (8 * length bs - unat unused) (concat (map byte_bits bs))"

lemma length_byte_bits [simp]: "length (byte_bits b) = 8"
  by (simp add: byte_bits_def)

lemma nth_byte_bits [simp]: "i < 8 \<Longrightarrow> byte_bits b ! i = bit b (7 - i)"
  by (simp add: byte_bits_def)

lemma length_concat_bits [simp]: "length (concat (map byte_bits bs)) = 8 * length bs"
  by (induction bs) simp_all

lemma nth_concat_bits:
  "i < 8 * length bs \<Longrightarrow> concat (map byte_bits bs) ! i = bit (bs ! (i div 8)) (7 - i mod 8)"
proof (induction bs arbitrary: i)
  case (Cons b bs)
  show ?case
  proof (cases "i < 8")
    case False
    then have "(b # bs) ! (i div 8) = bs ! ((i - 8) div 8)" and "(i - 8) mod 8 = i mod 8"
      by (simp_all add: div_if mod_if [of i])
    with Cons False show ?thesis
      by (simp add: nth_append)
  qed (simp add: nth_append)
qed simp

lemma unused_mask:
  assumes "u \<le> 7"
  shows "(b :: byte) AND (push_bit u 1 - 1) = 0 \<longleftrightarrow> (\<forall>j < u. \<not> bit b j)"
proof -
  have "push_bit u 1 - 1 = (mask u :: byte)"
    by (simp add: mask_eq_exp_minus_1 push_bit_eq_mult)
  then have "b AND (push_bit u 1 - 1) = 0 \<longleftrightarrow> (\<forall>j<8. \<not> (j < u \<and> bit b j))"
    by (auto simp: bit_eq_iff bit_simps)
  also have "\<dots> \<longleftrightarrow> (\<forall>j < u. \<not> bit b j)"
    using assms by auto
  finally show ?thesis .
qed

lemma last_byte_bits:
  assumes "bs \<noteq> []" and "j < 8"
  shows "concat (map byte_bits bs) ! (8 * length bs - 1 - j) = bit (last bs) j"
proof -
  obtain m where m: "length bs = Suc m"
    using assms(1) by (cases bs) auto
  define k where "k = 7 - j"
  have i: "8 * length bs - 1 - j = 8 * m + k"
    using assms(2) m by (simp add: k_def)
  have "k < 8" and j: "j = 7 - k"
    using assms(2) by (simp_all add: k_def)
  then have "(8 * m + k) div 8 = m" and "(8 * m + k) mod 8 = k"
    by simp_all
  then show ?thesis
    unfolding i j using assms m \<open>k < 8\<close> by (subst nth_concat_bits) (simp_all add: last_conv_nth)
qed

lemma unused_bits_iff:
  assumes "bs \<noteq> []" and "u \<le> 7"
  shows "(\<forall>i. 8 * length bs - u \<le> i \<and> i < 8 * length bs \<longrightarrow> \<not> concat (map byte_bits bs) ! i) \<longleftrightarrow>
    (\<forall>j < u. \<not> bit (last bs) j)" (is "?l \<longleftrightarrow> ?r")
proof (intro iffI allI impI)
  fix j assume ?l and "j < u"
  moreover have "0 < length bs" using assms(1) by simp
  ultimately have "\<not> concat (map byte_bits bs) ! (8 * length bs - 1 - j)"
    using assms(2) by (elim allE [of _ "8 * length bs - 1 - j"] impE) linarith
  then show "\<not> bit (last bs) j"
    using last_byte_bits [of bs j] assms \<open>j < u\<close> by simp
next
  fix i assume r: ?r and i: "8 * length bs - u \<le> i \<and> i < 8 * length bs"
  define j where "j = 8 * length bs - 1 - i"
  have j: "j < u" "i = 8 * length bs - 1 - j"
    using i by (auto simp: j_def)
  then show "\<not> concat (map byte_bits bs) ! i"
    using r last_byte_bits [of bs j] assms by simp
qed

text \<open>A bit string is valid when its unused bits are bits it has, fewer than a byte, and all zero.\<close>

lemma get_last_u8_eq:
  "CBS_get_last_u8 s = (if s = [] then (Fail, s) else (Ret (last s), butlast s))"
  by (simp add: CBS_get_last_u8_def CBS_len_def last_conv_nth)

lemma is_valid_bitstring_nth:
  "CBS_is_valid_asn1_bitstring cbs = Ret () \<longleftrightarrow>
    (\<exists>u bs. cbs = u # bs \<and> unat u \<le> 7 \<and> (bs = [] \<longrightarrow> u = 0) \<and>
      (\<forall>i. 8 * length bs - unat u \<le> i \<and> i < 8 * length bs \<longrightarrow> \<not> concat (map byte_bits bs) ! i))"
proof (cases cbs)
  case Nil
  then show ?thesis
    by (simp add: CBS_is_valid_asn1_bitstring_def CBS_get_u8_eq bnd_def)
next
  case (Cons u bs)
  have u7: "u > 7 \<longleftrightarrow> \<not> unat u \<le> 7"
    by (simp add: word_less_nat_alt not_le)
  have def: "CBS_is_valid_asn1_bitstring cbs = Ret () \<longleftrightarrow> unat u \<le> 7 \<and>
      (u = 0 \<or> bs \<noteq> [] \<and> last bs AND (push_bit (unat u) 1 - 1) = 0)"
    unfolding Cons CBS_is_valid_asn1_bitstring_def using u7
    by (auto simp: CBS_get_u8_eq bnd_def get_last_u8_eq split: if_splits)
  show ?thesis
  proof (cases "bs = []")
    case True
    then show ?thesis unfolding def by (auto simp: Cons)
  next
    case False
    have "last bs AND (push_bit (unat u) 1 - 1) = 0 \<longleftrightarrow> (\<forall>j < unat u. \<not> bit (last bs) j)"
      if "unat u \<le> 7" using that by (rule unused_mask)
    then show ?thesis
      unfolding def using unused_bits_iff [OF False] False by (auto simp: Cons)
  qed
qed

lemma is_valid_bitstring_iff:
  "CBS_is_valid_asn1_bitstring cbs = Ret () \<longleftrightarrow>
    (\<exists>u bs. cbs = u # bs \<and> unat u \<le> min 7 (8 * length bs) \<and>
      True \<notin> set (drop (8 * length bs - unat u) (concat (map byte_bits bs))))"
proof -
  have set: "True \<notin> set (drop (length xs - k) xs) \<longleftrightarrow> (\<forall>i. length xs - k \<le> i \<and> i < length xs \<longrightarrow> \<not> xs ! i)"
    for xs and k
  proof -
    have "True \<in> set (drop n xs) \<longleftrightarrow> (\<exists>i. n \<le> i \<and> i < length xs \<and> xs ! i)" for n
    proof
      assume "True \<in> set (drop n xs)"
      then obtain j where "j < length (drop n xs)" "drop n xs ! j" by (auto simp: in_set_conv_nth)
      then show "\<exists>i. n \<le> i \<and> i < length xs \<and> xs ! i" by (intro exI [of _ "n + j"]) auto
    next
      assume "\<exists>i. n \<le> i \<and> i < length xs \<and> xs ! i"
      then obtain i where "n \<le> i" "i < length xs" "xs ! i" by blast
      then have "i - n < length (drop n xs)" "drop n xs ! (i - n)" by auto
      then show "True \<in> set (drop n xs)" by (metis nth_mem)
    qed
    then show ?thesis by blast
  qed
  have "unat u \<le> 7 \<and> (bs = [] \<longrightarrow> u = 0) \<longleftrightarrow> unat u \<le> min 7 (8 * length bs)" for u :: byte and bs :: "byte list"
    by (cases bs) (auto simp: unat_eq_0)
  then show ?thesis
    unfolding is_valid_bitstring_nth using set [of "concat (map byte_bits _)"]
    by (auto simp: unat_eq_0)
qed

lemma and_bit_nonzero: "(b :: byte) AND push_bit k 1 \<noteq> 0 \<longleftrightarrow> bit b k"
  by (simp only: bit_iff_and_push_bit_not_eq_0)

lemma has_bit_iff:
  "CBS_asn1_bitstring_has_bit cbs b = Ret () \<longleftrightarrow>
    (\<exists>u bs. cbs = u # bs \<and> CBS_is_valid_asn1_bitstring cbs = Ret () \<and> unat b < length (bitstring_bits u bs) \<and>
      bitstring_bits u bs ! unat b)"
proof (cases "CBS_is_valid_asn1_bitstring cbs = Ret ()")
  case True
  then obtain u bs where cbs: "cbs = u # bs" and u: "unat u \<le> 7"
    and unused: "\<And>i. 8 * length bs - unat u \<le> i \<Longrightarrow> i < 8 * length bs \<Longrightarrow> \<not> concat (map byte_bits bs) ! i"
    unfolding is_valid_bitstring_nth by blast
  let ?i = "unat b"
  have byte_num: "unat (drop_bit 3 b + 1) = ?i div 8 + 1"
  proof -
    have "?i div 8 + 1 < 2 ^ 32"
      using unat_u32_less [of b] by simp
    then show ?thesis
      by (simp only: unat_word_ariths unat_drop_bit_div) simp
  qed
  have b7: "unat (b AND 7) = ?i mod 8"
  proof -
    have "b AND 7 = take_bit 3 b"
      by (simp add: take_bit_eq_mask mask_eq_exp_minus_1)
    then have "unat (b AND 7) = take_bit 3 (unat b)"
      by (simp only: unsigned_take_bit_eq)
    then show ?thesis
      by (simp add: take_bit_eq_mod)
  qed
  have bit_num: "unat (7 - (b AND 7)) = 7 - ?i mod 8"
    by (subst unat_sub) (simp_all add: b7 word_le_nat_alt)
  have "CBS_asn1_bitstring_has_bit cbs b = Ret () \<longleftrightarrow>
      ?i div 8 + 1 < length cbs \<and> cbs ! (?i div 8 + 1) AND push_bit (7 - ?i mod 8) 1 \<noteq> 0"
    unfolding CBS_asn1_bitstring_has_bit_def Let_def byte_num bit_num CBS_len_def CBS_data_def
    using True by (simp split: if_splits)
  also have "\<dots> \<longleftrightarrow> ?i < 8 * length bs \<and> concat (map byte_bits bs) ! ?i"
    unfolding and_bit_nonzero cbs by (auto simp: nth_concat_bits)
  also have "\<dots> \<longleftrightarrow> ?i < length (bitstring_bits u bs) \<and> bitstring_bits u bs ! ?i"
    using unused [of ?i] by (cases "?i < 8 * length bs - unat u") (auto simp: bitstring_bits_def)
  finally show ?thesis
    using True by (auto simp: cbs)
qed (auto simp: CBS_asn1_bitstring_has_bit_def split: res.splits)

lemma no_stuck_peek [no_stuck_intros]: "no_stuck (CBS_peek_asn1_tag t)"
  by (simp add: no_stuck_def peek_tag_run)

lemma no_stuck_optional [no_stuck_intros]: "no_stuck (CBS_get_optional_asn1 t)"
  unfolding CBS_get_optional_asn1_def by (intro no_stuck_intros)

lemma no_stuck_optional_values:
  "no_stuck (CBS_get_optional_asn1_octet_string t)"
  "no_stuck (CBS_get_optional_asn1_uint64 t d)"
  "no_stuck (CBS_get_optional_asn1_bool t e)"
proof -
  show "no_stuck (CBS_get_optional_asn1_octet_string t)" "no_stuck (CBS_get_optional_asn1_uint64 t d)"
    unfolding CBS_get_optional_asn1_octet_string_def CBS_get_optional_asn1_uint64_def
    by (intro no_stuck_intros)+
  show "no_stuck (CBS_get_optional_asn1_bool t e)"
    unfolding CBS_get_optional_asn1_bool_def
    by (intro no_stuck_intros) (simp add: CBS_len_def CBS_data_def)
qed

lemma suffix_optional_values:
  "leaves_suffix (CBS_get_optional_asn1_octet_string t)"
  "leaves_suffix (CBS_get_optional_asn1_uint64 t d)"
  "leaves_suffix (CBS_get_optional_asn1_bool t e)"
  unfolding CBS_get_optional_asn1_octet_string_def CBS_get_optional_asn1_uint64_def
    CBS_get_optional_asn1_bool_def
  by (intro suffix_rel.keeps_intros keeps_rules)+

lemma length_prefixed_safe:
  "no_stuck (cbs_get_length_prefixed n)" "leaves_suffix (cbs_get_length_prefixed n)"
  unfolding cbs_get_length_prefixed_def CBS_get_bytes_def cbs_get_u_def
  by (intro no_stuck_intros suffix_rel.keeps_intros keeps_rules)+

text \<open>
  A parser keeps to its input \<open>s\<close>: it reads and skips nothing past the end of \<open>s\<close>, which would be
  \<open>Stuck\<close>, and what it leaves is a suffix of \<open>s\<close>, also when it fails.
\<close>

definition within :: "(cbs, 'a) prog \<Rightarrow> cbs \<Rightarrow> bool" where
  "within f s \<longleftrightarrow> fst (f s) \<noteq> Stuck \<and> suffix (snd (f s)) s"

lemma withinI: "no_stuck f \<Longrightarrow> leaves_suffix f \<Longrightarrow> within f s"
  unfolding within_def by (intro conjI no_stuck_fst keepsD [where R = "\<lambda>s s'. suffix s' s"])

lemma bitstring_not_Stuck:
  "CBS_is_valid_asn1_bitstring s \<noteq> Stuck" "CBS_asn1_bitstring_has_bit s b \<noteq> Stuck"
proof -
  have last_u8: "no_stuck CBS_get_last_u8"
    by (simp add: no_stuck_def get_last_u8_eq)
  show valid: "CBS_is_valid_asn1_bitstring s \<noteq> Stuck"
    unfolding CBS_is_valid_asn1_bitstring_def by (intro no_stuck_fst no_stuck_intros last_u8)
  have read: "fst (bnd (byte_at s i) (\<lambda>octet. if octet AND m \<noteq> 0 then ret () else fail) s) \<noteq> Stuck"
    if "i < length s" for i m
    using that by (simp add: byte_at_def)
  show "CBS_asn1_bitstring_has_bit s b \<noteq> Stuck"
  proof (cases "CBS_is_valid_asn1_bitstring s")
    case (Ret u)
    then show ?thesis
      using read unfolding CBS_asn1_bitstring_has_bit_def CBS_len_def CBS_data_def Let_def by auto
  qed (use valid in \<open>simp_all add: CBS_asn1_bitstring_has_bit_def\<close>)
qed

section \<open>What the parsers accept\<close>

text \<open>
  C20: \<open>CBS_get_any_asn1_element\<close> succeeds exactly when the byte string starts with the DER encoding
  of an element with a one-byte tag and fewer than \<open>2 ^ 32\<close> bytes of contents. It then returns that
  element with its tag and the size of its header, and leaves what follows it: indefinite lengths,
  lengths that are not the shortest, multi-byte tags and truncated elements are all rejected.
\<close>

theorem get_any_asn1_element_is_der:
  "CBS_get_any_asn1_element s = (Ret (el, t, hl), rest) \<longleftrightarrow>
     (\<exists>tg c. short_tag tg \<and> length c < 2 ^ 32 \<and> s = der tg c @ rest \<and> el = der tg c \<and>
        t = ucast tg \<and> hl = of_nat (header_size (length c)))"
  by (rule get_any_asn1_element_eq_Ret)

lemma get_asn1_tag:
  "CBS_get_asn1 t s = (Ret c, rest) \<longleftrightarrow>
    (\<exists>tg. short_tag tg \<and> t = ucast tg \<and> length c < 2 ^ 32 \<and> s = der tg c @ rest)"
proof (cases "\<exists>tg. short_tag tg \<and> t = ucast tg")
  case True
  then show ?thesis
    using CBS_get_asn1_eq_Ret by (auto simp: ucast_byte_u32_inj)
next
  case False
  then show ?thesis
    by (cases s rule: get_any_asn1_cases) (auto simp: get_asn1_defs)
qed

text \<open>
  \<open>CBS_get_asn1\<close> with a tag value returns the contents of the element at the front of the byte
  string, exactly when that element is in DER and has that tag.
\<close>

theorem get_asn1_contents:
  "CBS_get_asn1 t s = (Ret c, rest) \<longleftrightarrow>
    (\<exists>tg. short_tag tg \<and> t = ucast tg \<and> length c < 2 ^ 32 \<and> s = der tg c @ rest)"
  by (rule get_asn1_tag)

text \<open>
  C21: \<open>CBS_get_asn1_uint64\<close> returns \<open>v\<close> exactly on the DER INTEGER whose contents are the shortest
  form of \<open>v\<close> with a clear sign bit: negative numbers, numbers of more than 64 bits, padded and
  empty contents are rejected.
\<close>

theorem get_asn1_uint64_is_der:
  "CBS_get_asn1_uint64 s = (Ret v, rest) \<longleftrightarrow> s = der 0x02 (der_uint (unat v)) @ rest"
  by (rule get_asn1_uint64_eq_Ret)

text \<open>
  the parsers of an optional explicitly tagged value take the value when the byte string
  starts with the tag, and then need exactly one DER value in it; otherwise they consume nothing
  and give the default.
\<close>

theorem get_optional_values:
  assumes "short_tag tg"
  shows "(CBS_get_optional_asn1_uint64 (ucast tg) d s = (Ret v, rest) \<longleftrightarrow>
      s = der tg (der 0x02 (der_uint (unat v))) @ rest \<or> v = d \<and> s = rest \<and> (s = [] \<or> hd s \<noteq> tg)) \<and>
    (CBS_get_optional_asn1_bool (ucast tg) e s = (Ret b, rest) \<longleftrightarrow>
      s = der tg (der_bool b) @ rest \<or> b = e \<and> s = rest \<and> (s = [] \<or> hd s \<noteq> tg)) \<and>
    (CBS_get_optional_asn1_octet_string (ucast tg) s = (Ret (out, present), rest) \<longleftrightarrow>
      present \<and> length (der 0x04 out) < 2 ^ 32 \<and> s = der tg (der 0x04 out) @ rest \<or>
      \<not> present \<and> out = [] \<and> s = rest \<and> (s = [] \<or> hd s \<noteq> tg))"
  using assms
  by (intro conjI get_optional_uint64_eq_Ret get_optional_bool_eq_Ret get_optional_octet_string_eq_Ret)

definition optional_demo :: "byte list" where
  "optional_demo = [0xA0, 3, 2, 1, 5, 9]"

lemma get_optional_values_witness:
  "CBS_get_optional_asn1_uint64 (ucast (0xA0 :: byte)) 7 optional_demo = (Ret 5, [9]) \<and>
   CBS_get_optional_asn1_bool (ucast (0xA0 :: byte)) True [9] = (Ret True, [9])"
proof -
  have tag: "short_tag 0xA0" by (simp add: short_tag_def)
  have demo: "optional_demo = der 0xA0 (der 0x02 (der_uint (unat (5 :: u64)))) @ [9]"
    by code_simp
  show ?thesis
    using get_optional_values [OF tag, of 7 optional_demo 5 "[9]"]
      get_optional_values [OF tag, where e = True and s = "[9]" and b = True and rest = "[9]"] demo
    by simp
qed

text \<open>
  \<open>CBS_asn1_bitstring_has_bit\<close> is true exactly for the bits that are set in a valid BIT STRING,
  counted from the highest bit of its first byte, and \<open>CBS_is_valid_asn1_bitstring\<close> accepts exactly
  the contents whose unused bits, fewer than eight, exist and are zero.
\<close>

theorem bitstring_bits_read:
  "(CBS_is_valid_asn1_bitstring cbs = Ret () \<longleftrightarrow>
    (\<exists>u bs. cbs = u # bs \<and> unat u \<le> min 7 (8 * length bs) \<and>
      True \<notin> set (drop (8 * length bs - unat u) (concat (map byte_bits bs))))) \<and>
   (CBS_asn1_bitstring_has_bit cbs b = Ret () \<longleftrightarrow>
    (\<exists>u bs. cbs = u # bs \<and> CBS_is_valid_asn1_bitstring cbs = Ret () \<and> unat b < length (bitstring_bits u bs) \<and>
      bitstring_bits u bs ! unat b))"
  by (intro conjI is_valid_bitstring_iff has_bit_iff)

text \<open>
  the length-prefixed strings: each parser returns \<open>c\<close> exactly when the byte string starts with
  the length of \<open>c\<close> in one, two or three big-endian bytes followed by \<open>c\<close>.
\<close>

theorem get_length_prefixed:
  "(CBS_get_u8_length_prefixed s = (Ret c, rest) \<longleftrightarrow>
     length c < 2 ^ 8 \<and> s = be_bytes 1 (of_nat (length c) :: u32) @ c @ rest) \<and>
   (CBS_get_u16_length_prefixed s = (Ret c, rest) \<longleftrightarrow>
     length c < 2 ^ 16 \<and> s = be_bytes 2 (of_nat (length c) :: u32) @ c @ rest) \<and>
   (CBS_get_u24_length_prefixed s = (Ret c, rest) \<longleftrightarrow>
     length c < 2 ^ 24 \<and> s = be_bytes 3 (of_nat (length c) :: u32) @ c @ rest)"
  by (simp add: CBS_get_u8_length_prefixed_def CBS_get_u16_length_prefixed_def
      CBS_get_u24_length_prefixed_def get_length_prefixed_eq_Ret)

text \<open>
  C22: no parser of \<open>cbs.c\<close> reads or steps past the end of its input, whatever the input is: on
  every input, well formed or not, the checks in the readers of bytes, integers and
  length-prefixed strings, of DER and BER elements, of optional and explicitly tagged values and of
  BIT STRINGs keep every access within the bytes that are there (any other would be \<open>Stuck\<close>), the
  assertion that the header of an element can be skipped holds, and a parser leaves a suffix of
  what it was given, also when it fails.
\<close>

theorem asn1_parsers_safe:
  "within (CBS_skip n) s \<and> within (CBS_get_bytes n) s \<and> within (CBS_copy_bytes n) s \<and>
   within CBS_get_u8 s \<and> within CBS_get_u16 s \<and> within CBS_get_u24 s \<and> within CBS_get_u32 s \<and>
   fst (CBS_get_last_u8 s) \<noteq> Stuck \<and>
   within CBS_get_u8_length_prefixed s \<and> within CBS_get_u16_length_prefixed s \<and>
   within CBS_get_u24_length_prefixed s \<and>
   within CBS_get_any_asn1_element s \<and> within CBS_get_any_ber_asn1_element s \<and>
   within CBS_get_any_asn1 s \<and> within (CBS_get_asn1 t) s \<and> within (CBS_get_asn1_element t) s \<and>
   within (CBS_peek_asn1_tag t) s \<and> within CBS_get_asn1_uint64 s \<and>
   within (CBS_get_optional_asn1 t) s \<and> within (CBS_get_optional_asn1_octet_string t) s \<and>
   within (CBS_get_optional_asn1_uint64 t d) s \<and> within (CBS_get_optional_asn1_bool t e) s \<and>
   CBS_is_valid_asn1_bitstring s \<noteq> Stuck \<and> CBS_asn1_bitstring_has_bit s b \<noteq> Stuck"
proof (intro conjI)
  show "within (CBS_skip n) s" "within (CBS_get_bytes n) s" "within (CBS_copy_bytes n) s"
    "within CBS_get_u16 s" "within CBS_get_u24 s" "within CBS_get_u32 s"
    unfolding CBS_skip_def CBS_get_bytes_def CBS_copy_bytes_def CBS_get_u16_def CBS_get_u24_def
      CBS_get_u32_def cbs_get_u_def
    by (intro withinI no_stuck_intros suffix_rel.keeps_intros keeps_rules)+
  show "within CBS_get_u8 s"
    by (auto simp: within_def CBS_get_u8_eq split: list.splits intro: suffix_ConsI)
  show "fst (CBS_get_last_u8 s) \<noteq> Stuck"
    by (simp add: get_last_u8_eq)
  show "within CBS_get_u8_length_prefixed s" "within CBS_get_u16_length_prefixed s"
    "within CBS_get_u24_length_prefixed s"
    unfolding CBS_get_u8_length_prefixed_def CBS_get_u16_length_prefixed_def
      CBS_get_u24_length_prefixed_def
    by (intro withinI length_prefixed_safe)+
  show "within CBS_get_any_asn1_element s" "within CBS_get_any_ber_asn1_element s"
    unfolding CBS_get_any_asn1_element_def CBS_get_any_ber_asn1_element_def
    by (intro withinI no_stuck_intros keeps_rules)+
  show "within CBS_get_any_asn1 s" "within (CBS_get_asn1 t) s" "within (CBS_get_asn1_element t) s"
    by (intro withinI no_stuck_asn1 keeps_rules)+
  show "within (CBS_peek_asn1_tag t) s" "within CBS_get_asn1_uint64 s" "within (CBS_get_optional_asn1 t) s"
    by (intro withinI no_stuck_intros keeps_rules)+
  show "within (CBS_get_optional_asn1_octet_string t) s" "within (CBS_get_optional_asn1_uint64 t d) s"
    "within (CBS_get_optional_asn1_bool t e) s"
    by (intro withinI no_stuck_optional_values suffix_optional_values)+
  show "CBS_is_valid_asn1_bitstring s \<noteq> Stuck" "CBS_asn1_bitstring_has_bit s b \<noteq> Stuck"
    by (rule bitstring_not_Stuck)+
qed

text \<open>
  the constant-time comparison is equality: \<open>CBS_mem_equal\<close> holds exactly when the byte string
  has the given contents.
\<close>

theorem mem_equal_is_equality: "CBS_mem_equal cbs data \<longleftrightarrow> cbs = data"
  by (rule mem_equal_iff)

end
