(* ===== verification/Cbb.thy ===== *)
theory Cbb
  imports Cbs
begin

text \<open>
  BoringSSL's byte-string builder (\<open>crypto/bytestring/cbb.c\<close>). A tree of \<open>CBB\<close> objects shares one
  buffer. The state \<open>cbb_world\<close> is that buffer (\<open>struct cbb_buffer_st\<close>: its \<open>len\<close> valid bytes, its
  capacity and its flags) and the \<open>CBB\<close> objects, \<open>cbbs\<close>, which pointers are indexes of; a pointer
  past the end stands for a zeroed object. \<open>realloc_ok n\<close> says whether the allocator can provide
  \<open>n\<close> bytes. Every operation is a program over that state.

  Where C hands out a pointer to space that the caller fills in (\<open>CBB_add_space\<close>, \<open>CBB_did_write\<close>),
  the bytes the caller puts there are an argument. An assertion that fails and a null pointer that is
  followed are \<open>Stuck\<close> runs.
\<close>

unbundle bit_operations_syntax

section \<open>State\<close>

record cbb_st =
  cbb_base :: bool
  cbb_child :: "nat option"
  cbb_offset :: u64
  pending_len_len :: byte
  pending_is_asn1 :: bool
  is_top_level :: bool

record cbb_buffer_st =
  buf :: "byte list"
  cap :: u64
  can_resize :: bool
  error :: bool

record cbb_world = cbb_buffer_st +
  cbbs :: "cbb_st list"
  realloc_ok :: "u64 \<Rightarrow> bool"

definition CBB_zero :: cbb_st where
  "CBB_zero = \<lparr>cbb_base = False, cbb_child = None, cbb_offset = 0, pending_len_len = 0,
     pending_is_asn1 = False, is_top_level = False\<rparr>"

definition cbb_at :: "cbb_world \<Rightarrow> nat \<Rightarrow> cbb_st" where
  "cbb_at s p = (if p < length (cbbs s) then cbbs s ! p else CBB_zero)"

definition set_cbb :: "nat \<Rightarrow> cbb_st \<Rightarrow> cbb_world \<Rightarrow> cbb_world" where
  "set_cbb p c s = s\<lparr>cbbs := (cbbs s)[p := c]\<rparr>"

definition base_len :: "cbb_world \<Rightarrow> u64" where
  "base_len s = of_nat (length (buf s))"

definition cbb_err :: "(cbb_world, 'a) prog" where
  "cbb_err = (\<lambda>s. (Fail, s\<lparr>error := True\<rparr>))"

section \<open>Creation\<close>

text \<open>
  \<open>malloc_ok\<close> is the outcome of the allocation of the buffer descriptor. The buffer is empty
  whatever the memory it is given holds.
\<close>

definition cbb_init :: "nat \<Rightarrow> u64 \<Rightarrow> bool \<Rightarrow> (cbb_world, unit) prog" where
  "cbb_init p capacity malloc_ok = (\<lambda>s.
     if \<not> malloc_ok then (Fail, s)
     else (Ret (), set_cbb p ((cbb_at s p)\<lparr>cbb_base := True, is_top_level := True\<rparr>)
       (s\<lparr>buf := [], cap := capacity, can_resize := True, error := False\<rparr>)))"

definition CBB_init :: "nat \<Rightarrow> u64 \<Rightarrow> bool \<Rightarrow> (cbb_world, unit) prog" where
  "CBB_init p initial_capacity malloc_ok = (\<lambda>s.
     let s = set_cbb p CBB_zero s in
     if initial_capacity > 0 \<and> \<not> realloc_ok s initial_capacity then (Fail, s)
     else cbb_init p initial_capacity malloc_ok s)"

definition CBB_init_fixed :: "nat \<Rightarrow> u64 \<Rightarrow> bool \<Rightarrow> (cbb_world, unit) prog" where
  "CBB_init_fixed p len malloc_ok = (\<lambda>s.
     bnd (cbb_init p len malloc_ok) (\<lambda>_ s. (Ret (), s\<lparr>can_resize := False\<rparr>)) (set_cbb p CBB_zero s))"

definition CBB_cleanup :: "nat \<Rightarrow> (cbb_world, unit) prog" where
  "CBB_cleanup p = (\<lambda>s.
     if cbb_base (cbb_at s p) \<and> \<not> is_top_level (cbb_at s p) then (Stuck, s)
     else (Ret (), set_cbb p ((cbb_at s p)\<lparr>cbb_base := False\<rparr>) s))"

section \<open>The buffer\<close>

definition cbb_buffer_reserve :: "u64 \<Rightarrow> (cbb_world, unit) prog" where
  "cbb_buffer_reserve len = (\<lambda>s.
     let newlen = base_len s + len in
     if newlen < base_len s then cbb_err s
     else if newlen > cap s then
       (let newcap = cap s * 2 in
        if \<not> can_resize s then cbb_err s
        else
          let newcap = (if newcap < cap s \<or> newcap < newlen then newlen else newcap) in
          if \<not> realloc_ok s newcap then cbb_err s
          else (Ret (), s\<lparr>cap := newcap\<rparr>))
     else (Ret (), s))"

text \<open>\<open>bs\<close> is what is then written to the new space.\<close>

definition cbb_buffer_add :: "byte list \<Rightarrow> (cbb_world, unit) prog" where
  "cbb_buffer_add bs =
     seq (cbb_buffer_reserve (of_nat (length bs))) (\<lambda>s. (Ret (), s\<lparr>buf := buf s @ bs\<rparr>))"

text \<open>
  The loop that writes the low \<open>n\<close> bytes of a number from the last to the first: the bytes, and
  what is left of the number.
\<close>

fun put_be :: "nat \<Rightarrow> 'a::len word \<Rightarrow> byte list \<Rightarrow> byte list \<times> 'a word" where
  "put_be 0 v bs = (bs, v)"
| "put_be (Suc n) v bs = put_be n (drop_bit 8 v) (ucast v # bs)"

definition cbb_buffer_add_u :: "u32 \<Rightarrow> nat \<Rightarrow> (cbb_world, unit) prog" where
  "cbb_buffer_add_u v len_len =
     (if len_len = 0 then ret ()
      else let (bs, v') = put_be len_len v [] in
        seq (cbb_buffer_add bs) (if v' \<noteq> 0 then cbb_err else ret ()))"

text \<open>Bytes in the middle of the buffer, and a move of its end towards higher addresses.\<close>

definition write_at :: "nat \<Rightarrow> byte list \<Rightarrow> byte list \<Rightarrow> byte list" where
  "write_at i bs xs = take i xs @ bs @ drop (i + length bs) xs"

definition write_buf :: "nat \<Rightarrow> byte list \<Rightarrow> (cbb_world, unit) prog" where
  "write_buf i bs = (\<lambda>s. (Ret (), s\<lparr>buf := write_at i bs (buf s)\<rparr>))"

definition move_buf :: "nat \<Rightarrow> nat \<Rightarrow> nat \<Rightarrow> (cbb_world, unit) prog" where
  "move_buf dst src n = (\<lambda>s. write_buf dst (take n (drop src (buf s))) s)"

section \<open>Flushing\<close>

text \<open>
  The form of an ASN.1 length: the number of bytes it takes, the first of them, and the number
  that the others hold.
\<close>

definition asn1_length_form :: "u64 \<Rightarrow> (nat \<times> byte \<times> u64) option" where
  "asn1_length_form len =
     (if len > 0xfffffffe then None
      else if len > 0xffffff then Some (5, 0x80 OR 4, len)
      else if len > 0xffff then Some (4, 0x80 OR 3, len)
      else if len > 0xff then Some (3, 0x80 OR 2, len)
      else if len > 0x7f then Some (2, 0x80 OR 1, len)
      else Some (1, ucast len, 0))"

definition asn1_make_space :: "nat \<Rightarrow> nat \<Rightarrow> nat \<Rightarrow> (cbb_world, unit) prog" where
  "asn1_make_space len_len child_start len =
     (if len_len \<noteq> 1
      then seq (cbb_buffer_add (replicate (len_len - 1) 0))
             (move_buf (child_start + (len_len - 1)) child_start len)
      else ret ())"

text \<open>The pending bytes of the child \<open>q\<close> of \<open>p\<close> get \<open>len\<close>, and the child is given up.\<close>

definition write_length :: "nat \<Rightarrow> nat \<Rightarrow> u64 \<Rightarrow> (cbb_world, unit) prog" where
  "write_length p q len = (\<lambda>s.
     let child = cbb_at s q; (bs, len') = put_be (unat (pending_len_len child)) len [] in
     seq (write_buf (unat (cbb_offset child)) bs)
       (if len' \<noteq> 0 then cbb_err
        else (\<lambda>s.
          let s = set_cbb q ((cbb_at s q)\<lparr>cbb_base := False\<rparr>) s in
          (Ret (), set_cbb p ((cbb_at s p)\<lparr>cbb_child := None\<rparr>) s))) s)"

definition close_child :: "nat \<Rightarrow> nat \<Rightarrow> u64 \<Rightarrow> (cbb_world, unit) prog" where
  "close_child p q child_start = (\<lambda>s.
     let child = cbb_at s q; len = base_len s - child_start in
     if pending_is_asn1 child then
       if pending_len_len child \<noteq> 1 then (Stuck, s)
       else (case asn1_length_form len of
           None \<Rightarrow> cbb_err s
         | Some (len_len, initial_length_byte, len') \<Rightarrow>
             seq (asn1_make_space len_len (unat child_start) (unat len'))
               (seq (write_buf (unat (cbb_offset child)) [initial_length_byte])
                 (\<lambda>s. write_length p q len'
                   (set_cbb q ((cbb_at s q)\<lparr>cbb_offset := cbb_offset child + 1,
                      pending_len_len := of_nat (len_len - 1)\<rparr>) s))) s)
     else write_length p q len s)"

text \<open>
  \<open>CBB_flush\<close> follows the child pointers. As many steps as there are objects are enough, unless they
  form a cycle.
\<close>

fun cbb_flush :: "nat \<Rightarrow> nat \<Rightarrow> (cbb_world, unit) prog" where
  "cbb_flush 0 p = stuck"
| "cbb_flush (Suc n) p = (\<lambda>s.
     let cbb = cbb_at s p in
     if \<not> cbb_base cbb \<or> error s then (Fail, s)
     else case cbb_child cbb of
         None \<Rightarrow> (Ret (), s)
       | Some q \<Rightarrow>
           let child = cbb_at s q in
           if pending_len_len child = 0 then (Ret (), s)
           else
             let child_start = cbb_offset child + ucast (pending_len_len child) in
             case cbb_flush n q s of
               (Ret _, s) \<Rightarrow>
                 if child_start < cbb_offset child \<or> base_len s < child_start then cbb_err s
                 else close_child p q child_start s
             | (Fail, s) \<Rightarrow> cbb_err s
             | (Stuck, s) \<Rightarrow> (Stuck, s))"

definition CBB_flush :: "nat \<Rightarrow> (cbb_world, unit) prog" where
  "CBB_flush p = (\<lambda>s. cbb_flush (Suc (length (cbbs s))) p s)"

text \<open>The result is the buffer; \<open>wanted\<close> says that both output pointers were given.\<close>

definition CBB_finish :: "nat \<Rightarrow> bool \<Rightarrow> (cbb_world, byte list) prog" where
  "CBB_finish p wanted = (\<lambda>s.
     if \<not> is_top_level (cbb_at s p) then (Fail, s)
     else seq (CBB_flush p) (\<lambda>s.
       if can_resize s \<and> \<not> wanted then (Fail, s)
       else bnd (CBB_cleanup p) (\<lambda>_. ret (buf s)) s) s)"

definition CBB_data :: "nat \<Rightarrow> (cbb_world, byte list) prog" where
  "CBB_data p = (\<lambda>s.
     if cbb_child (cbb_at s p) \<noteq> None \<or> \<not> cbb_base (cbb_at s p) then (Stuck, s)
     else (Ret (drop (unat (cbb_offset (cbb_at s p) + ucast (pending_len_len (cbb_at s p)))) (buf s)), s))"

definition CBB_len :: "nat \<Rightarrow> (cbb_world, u64) prog" where
  "CBB_len p = (\<lambda>s.
     let cbb = cbb_at s p in
     if cbb_child cbb \<noteq> None \<or> \<not> cbb_base cbb \<or> cbb_offset cbb + ucast (pending_len_len cbb) > base_len s
     then (Stuck, s)
     else (Ret (base_len s - cbb_offset cbb - ucast (pending_len_len cbb)), s))"

section \<open>Adding\<close>

text \<open>\<open>out_contents\<close> becomes the child of \<open>p\<close>, its pending length at \<open>offset\<close>.\<close>

definition add_child :: "nat \<Rightarrow> nat \<Rightarrow> u64 \<Rightarrow> byte \<Rightarrow> bool \<Rightarrow> (cbb_world, unit) prog" where
  "add_child p out_contents offset len_len is_asn1 = (\<lambda>s.
     let s = set_cbb out_contents
       (CBB_zero\<lparr>cbb_base := cbb_base (cbb_at s p), cbb_offset := offset, pending_len_len := len_len,
          pending_is_asn1 := is_asn1\<rparr>) s in
     (Ret (), set_cbb p ((cbb_at s p)\<lparr>cbb_child := Some out_contents\<rparr>) s))"

definition cbb_add_length_prefixed :: "nat \<Rightarrow> nat \<Rightarrow> byte \<Rightarrow> (cbb_world, unit) prog" where
  "cbb_add_length_prefixed p out_contents len_len =
     seq (CBB_flush p) (\<lambda>s.
       seq (cbb_buffer_add (replicate (unat len_len) 0))
         (add_child p out_contents (base_len s) len_len False) s)"

definition CBB_add_u8_length_prefixed :: "nat \<Rightarrow> nat \<Rightarrow> (cbb_world, unit) prog" where
  "CBB_add_u8_length_prefixed p out_contents = cbb_add_length_prefixed p out_contents 1"

definition CBB_add_u16_length_prefixed :: "nat \<Rightarrow> nat \<Rightarrow> (cbb_world, unit) prog" where
  "CBB_add_u16_length_prefixed p out_contents = cbb_add_length_prefixed p out_contents 2"

definition CBB_add_u24_length_prefixed :: "nat \<Rightarrow> nat \<Rightarrow> (cbb_world, unit) prog" where
  "CBB_add_u24_length_prefixed p out_contents = cbb_add_length_prefixed p out_contents 3"

definition CBB_add_u8 :: "nat \<Rightarrow> byte \<Rightarrow> (cbb_world, unit) prog" where
  "CBB_add_u8 p value = seq (CBB_flush p) (cbb_buffer_add_u (ucast value) 1)"

definition CBB_add_u16 :: "nat \<Rightarrow> 16 word \<Rightarrow> (cbb_world, unit) prog" where
  "CBB_add_u16 p value = seq (CBB_flush p) (cbb_buffer_add_u (ucast value) 2)"

definition CBB_add_u24 :: "nat \<Rightarrow> u32 \<Rightarrow> (cbb_world, unit) prog" where
  "CBB_add_u24 p value = seq (CBB_flush p) (cbb_buffer_add_u value 3)"

definition CBB_add_u32 :: "nat \<Rightarrow> u32 \<Rightarrow> (cbb_world, unit) prog" where
  "CBB_add_u32 p value = seq (CBB_flush p) (cbb_buffer_add_u value 4)"

definition CBB_add_bytes :: "nat \<Rightarrow> byte list \<Rightarrow> (cbb_world, unit) prog" where
  "CBB_add_bytes p data = seq (CBB_flush p) (cbb_buffer_add data)"

definition CBB_add_space :: "nat \<Rightarrow> byte list \<Rightarrow> (cbb_world, unit) prog" where
  "CBB_add_space p filled_in = seq (CBB_flush p) (cbb_buffer_add filled_in)"

definition CBB_reserve :: "nat \<Rightarrow> u64 \<Rightarrow> (cbb_world, unit) prog" where
  "CBB_reserve p len = seq (CBB_flush p) (cbb_buffer_reserve len)"

definition CBB_did_write :: "nat \<Rightarrow> byte list \<Rightarrow> (cbb_world, unit) prog" where
  "CBB_did_write p written = (\<lambda>s.
     if \<not> cbb_base (cbb_at s p) then (Stuck, s)
     else
       let newlen = base_len s + of_nat (length written) in
       if cbb_child (cbb_at s p) \<noteq> None \<or> newlen < base_len s \<or> newlen > cap s then (Fail, s)
       else (Ret (), s\<lparr>buf := buf s @ written\<rparr>))"

definition CBB_discard_child :: "nat \<Rightarrow> (cbb_world, unit) prog" where
  "CBB_discard_child p = (\<lambda>s.
     case cbb_child (cbb_at s p) of
       None \<Rightarrow> (Ret (), s)
     | Some q \<Rightarrow>
         if \<not> cbb_base (cbb_at s p) then (Stuck, s)
         else
           let s = s\<lparr>buf := take (unat (cbb_offset (cbb_at s q))) (buf s)\<rparr>;
               s = set_cbb q ((cbb_at s q)\<lparr>cbb_base := False\<rparr>) s in
           (Ret (), set_cbb p ((cbb_at s p)\<lparr>cbb_child := None\<rparr>) s))"

section \<open>ASN.1\<close>

definition CBB_add_asn1 :: "nat \<Rightarrow> nat \<Rightarrow> u32 \<Rightarrow> (cbb_world, unit) prog" where
  "CBB_add_asn1 p out_contents tag =
     (if tag > 0xff \<or> tag AND 0x1f = 0x1f
      then (\<lambda>s. if cbb_base (cbb_at s p) then cbb_err s else (Stuck, s))
      else seq (CBB_flush p) (seq (CBB_add_u8 p (ucast tag)) (\<lambda>s.
        seq (CBB_add_u8 p 0) (add_child p out_contents (base_len s) 1 True) s)))"

text \<open>
  The bytes of an INTEGER, from the byte \<open>8 - n\<close> on. \<open>child\<close> is the local variable of
  \<open>CBB_add_asn1_uint64\<close>.
\<close>

fun add_uint64_bytes :: "nat \<Rightarrow> nat \<Rightarrow> u64 \<Rightarrow> bool \<Rightarrow> (cbb_world, bool) prog" where
  "add_uint64_bytes 0 child value started = ret started"
| "add_uint64_bytes (Suc n) child value started =
     (let b = ucast (drop_bit (8 * n) value) :: byte in
      if \<not> started \<and> b = 0 then add_uint64_bytes n child value started
      else seq (if \<not> started \<and> b AND 0x80 \<noteq> 0 then CBB_add_u8 child 0 else ret ())
        (seq (CBB_add_u8 child b) (add_uint64_bytes n child value True)))"

definition CBB_add_asn1_uint64 :: "nat \<Rightarrow> nat \<Rightarrow> u64 \<Rightarrow> (cbb_world, unit) prog" where
  "CBB_add_asn1_uint64 child p value =
     seq (CBB_add_asn1 p child CBS_ASN1_INTEGER)
       (bnd (add_uint64_bytes 8 child value False) (\<lambda>started.
         seq (if \<not> started then CBB_add_u8 child 0 else ret ()) (CBB_flush p)))"

text \<open>Base-128 numbers: how many bytes, and the bytes from the one of weight \<open>128 ^ n\<close> down.\<close>

function base128_len :: "u32 \<Rightarrow> nat" where
  "base128_len copy = (if copy > 0 then Suc (base128_len (drop_bit 7 copy)) else 0)"
  by pat_completeness auto
termination
  by (relation "measure unat") (auto simp: unat_drop_bit_div word_less_nat_alt)

declare base128_len.simps [simp del]

fun add_base128_bytes :: "nat \<Rightarrow> nat \<Rightarrow> u32 \<Rightarrow> (cbb_world, unit) prog" where
  "add_base128_bytes 0 p v = ret ()"
| "add_base128_bytes (Suc i) p v =
     (let b = ucast (drop_bit (7 * i) v AND 0x7f) :: byte;
          b = (if i \<noteq> 0 then b OR 0x80 else b) in
      seq (CBB_add_u8 p b) (add_base128_bytes i p v))"

definition add_base128_integer :: "nat \<Rightarrow> u32 \<Rightarrow> (cbb_world, unit) prog" where
  "add_base128_integer p v =
     (let len_len = base128_len v; len_len = (if len_len = 0 then 1 else len_len) in
      add_base128_bytes len_len p v)"

text \<open>
  One component of an OID text and the dot after it: the component and the rest of the text, \<open>None\<close>
  when it is not a decimal number of 32 bits.
\<close>

fun dotted_loop :: "byte list \<Rightarrow> u32 \<Rightarrow> bool \<Rightarrow> (u32 \<times> byte list) option" where
  "dotted_loop [] out seen_digit = (if seen_digit then Some (out, []) else None)"
| "dotted_loop (u # cbs) out seen_digit =
     (if u = 0x2e \<and> length cbs > 0 then (if seen_digit then Some (out, cbs) else None)
      else if u < 0x30 \<or> u > 0x39 \<or> (seen_digit \<and> out = 0) \<or> out > 0xFFFFFFFF div 10 \<or>
        out * 10 > 0xFFFFFFFF - (ucast u - 0x30) then None
      else dotted_loop cbs (out * 10 + (ucast u - 0x30)) True)"

definition parse_dotted_decimal :: "byte list \<Rightarrow> (u32 \<times> byte list) option" where
  "parse_dotted_decimal cbs = dotted_loop cbs 0 False"

lemma dotted_loop_shorter: "dotted_loop cbs out seen = Some (a, rest) \<Longrightarrow> length rest \<le> length cbs"
  by (induction cbs arbitrary: out seen) (auto split: if_splits simp: le_Suc_eq)

lemma parse_dotted_decimal_shorter:
  "parse_dotted_decimal (u # cbs) = Some (a, rest) \<Longrightarrow> length rest < length (u # cbs)"
  by (auto simp: parse_dotted_decimal_def less_Suc_eq_le dest: dotted_loop_shorter split: if_splits)

function oid_rest :: "nat \<Rightarrow> byte list \<Rightarrow> (cbb_world, unit) prog" where
  "oid_rest p [] = ret ()"
| "oid_rest p (u # cbs) =
     (case parse_dotted_decimal (u # cbs) of
        None \<Rightarrow> fail
      | Some (a, rest) \<Rightarrow> seq (add_base128_integer p a) (oid_rest p rest))"
  by pat_completeness auto
termination
  by (relation "measure (\<lambda>(p, cbs). length cbs)") (auto dest: parse_dotted_decimal_shorter)

definition CBB_add_asn1_oid_from_text :: "nat \<Rightarrow> byte list \<Rightarrow> (cbb_world, unit) prog" where
  "CBB_add_asn1_oid_from_text p oid =
     seq (CBB_flush p)
       (case parse_dotted_decimal oid of
          None \<Rightarrow> fail
        | Some (a, cbs) \<Rightarrow>
            (case parse_dotted_decimal cbs of
               None \<Rightarrow> fail
             | Some (b, cbs) \<Rightarrow>
                 if a > 2 \<or> (a < 2 \<and> b > 39) \<or> b > 0xFFFFFFFF - 80 then fail
                 else seq (add_base128_integer p (40 * a + b)) (oid_rest p cbs)))"

end
