(* ===== verification/Cbb_Spec.thy ===== *)
theory Cbb_Spec
  imports Cbb Cbs_Der
begin

text \<open>
  Correctness of the byte-string builder. The abstract builder is a stack of open elements: the
  bytes of the object at the bottom, and for each pending child its pointer, the kind of its length
  prefix and its bytes. Flushing closes the elements above an object, each with its length.
\<close>

unbundle bit_operations_syntax

section \<open>Writing numbers\<close>

lemma le_bytes_Suc: "le_bytes (Suc n) w = ucast w # le_bytes n (drop_bit 8 w)"
proof (rule nth_equalityI)
  fix i assume "i < length (le_bytes (Suc n) w)"
  then show "le_bytes (Suc n) w ! i = (ucast w # le_bytes n (drop_bit 8 w)) ! i"
    by (cases i) (simp_all add: le_bytes_def add.commute del: upt_Suc)
qed simp

lemma put_be_eq: "put_be n v bs = (be_bytes n v @ bs, drop_bit (8 * n) v)"
  by (induction n arbitrary: v bs) (simp_all add: be_bytes_def le_bytes_Suc, simp_all add: le_bytes_def add.commute)

lemma drop_bytes_zero: "drop_bit (8 * n) (v :: 'a::len word) = 0 \<longleftrightarrow> unat v < 256 ^ n"
proof -
  have "drop_bit (8 * n) v = 0 \<longleftrightarrow> unat v div 256 ^ n = 0"
    unfolding unat_eq_0 [symmetric] unat_drop_bit_div by (simp add: power_mult)
  then show ?thesis by (simp add: div_eq_0_iff)
qed

lemma be_nat_be_bytes:
  assumes "8 * n \<le> LENGTH('a)" and "unat (w :: 'a::len word) < 256 ^ n"
  shows "be_nat (be_bytes n w) = unat w"
  using unat_be_word [of "be_bytes n w", where 'a = 'a] assms by (simp add: be_word_be_bytes_small)

lemma be_min_be_bytes:
  assumes "256 ^ (k - 1) \<le> unat (w :: u64)" and "unat w < 256 ^ k" and "0 < k" and "k \<le> 8"
  shows "be_min (unat w) = be_bytes k w"
proof -
  have n: "be_nat (be_bytes k w) = unat w"
    using assms by (intro be_nat_be_bytes) simp_all
  have "hd (be_bytes k w) \<noteq> 0"
  proof
    assume h: "hd (be_bytes k w) = 0"
    obtain b bs where bs: "be_bytes k w = b # bs"
      using assms(3) by (metis length_be_bytes length_greater_0_conv neq_Nil_conv)
    with h have "be_nat (be_bytes k w) = be_nat bs"
      by (simp add: be_nat_leading_zero)
    moreover have "length bs = k - 1"
      using arg_cong [OF bs, of length] by simp
    ultimately have "unat w < 256 ^ (k - 1)"
      using be_nat_less [of bs] n by simp
    with assms(1) show False by simp
  qed
  then have "be_min (be_nat (be_bytes k w)) = be_bytes k w"
    by (intro be_min_unique) simp
  then show ?thesis by (simp add: n)
qed

lemma asn1_length_form_None: "asn1_length_form len = None \<longleftrightarrow> \<not> unat len \<le> 0xfffffffe"
  by (simp add: asn1_length_form_def word_less_nat_alt not_le)

lemma asn1_length_form_Some:
  assumes "asn1_length_form len = Some (n, b, l)"
  shows "der_len (unat len) = b # be_bytes (n - 1) l" and "unat l < 256 ^ (n - 1)"
    and "0 < n" and "n \<le> 5" and "n \<noteq> 1 \<Longrightarrow> l = len"
proof -
  have long: "der_len (unat len) = (0x80 OR of_nat k) # be_bytes k len"
    if "256 ^ (k - 1) \<le> unat len" "unat len < 256 ^ k" "0 < k" "k \<le> 4" "128 \<le> unat len" for k
  proof -
    have min: "be_min (unat len) = be_bytes k len"
      using that by (intro be_min_be_bytes) simp_all
    have "(of_nat (128 + k) :: byte) = 0x80 OR of_nat k"
      using small_cases [OF that(3,4)] by (elim disjE) simp_all
    with min that(5) show ?thesis
      by (simp add: der_len_def)
  qed
  have lt: "(a :: u64) < b \<longleftrightarrow> unat a < unat b" for a b
    by (rule word_less_nat_alt)
  consider (5) "unat len > 0xffffff" "n = 5" "b = 0x80 OR 4" "l = len" "unat len \<le> 0xfffffffe"
    | (4) "unat len > 0xffff" "unat len \<le> 0xffffff" "n = 4" "b = 0x80 OR 3" "l = len"
    | (3) "unat len > 0xff" "unat len \<le> 0xffff" "n = 3" "b = 0x80 OR 2" "l = len"
    | (2) "unat len > 0x7f" "unat len \<le> 0xff" "n = 2" "b = 0x80 OR 1" "l = len"
    | (1) "unat len \<le> 0x7f" "n = 1" "b = ucast len" "l = 0"
    using assms by (auto simp: asn1_length_form_def lt not_less split: if_splits)
  then have "der_len (unat len) = b # be_bytes (n - 1) l \<and> unat l < 256 ^ (n - 1) \<and>
    0 < n \<and> n \<le> 5 \<and> (n \<noteq> 1 \<longrightarrow> l = len)"
  proof cases
    case 5
    then show ?thesis using long [of 4] by simp
  next
    case 4
    then show ?thesis using long [of 3] by simp
  next
    case 3
    then show ?thesis using long [of 2] by simp
  next
    case 2
    then show ?thesis using long [of 1] by simp
  next
    case 1
    then show ?thesis by (simp add: der_len_short be_bytes_def le_bytes_def)
  qed
  then show "der_len (unat len) = b # be_bytes (n - 1) l" and "unat l < 256 ^ (n - 1)"
    and "0 < n" and "n \<le> 5" and "n \<noteq> 1 \<Longrightarrow> l = len"
    by simp_all
qed

section \<open>The abstract builder\<close>

datatype pending = Len nat | Asn1

type_synonym frame = "nat \<times> pending \<times> byte list"

fun pending_size :: "pending \<Rightarrow> nat" where
  "pending_size (Len n) = n"
| "pending_size Asn1 = 1"

fun length_prefix :: "pending \<Rightarrow> nat \<Rightarrow> byte list option" where
  "length_prefix (Len n) m = (if m < 256 ^ n then Some (be_bytes n (of_nat m :: u64)) else None)"
| "length_prefix Asn1 m = (if m \<le> 0xfffffffe then Some (der_len m) else None)"

text \<open>The bytes with all open elements closed, \<open>None\<close> when one of them is too long.\<close>

fun closed :: "byte list \<Rightarrow> frame list \<Rightarrow> byte list option" where
  "closed c [] = Some c"
| "closed c ((q, k, d) # fs) =
     (case closed d fs of
        None \<Rightarrow> None
      | Some x \<Rightarrow> (case length_prefix k (length x) of None \<Rightarrow> None | Some h \<Rightarrow> Some (c @ h @ x)))"

text \<open>The bytes as they are in the buffer, with zeros for the pending lengths.\<close>

fun raw :: "byte list \<Rightarrow> frame list \<Rightarrow> byte list" where
  "raw c [] = c"
| "raw c ((q, k, d) # fs) = c @ replicate (pending_size k) 0 @ raw d fs"

definition pending_ok :: "cbb_st \<Rightarrow> pending \<Rightarrow> nat \<Rightarrow> bool" where
  "pending_ok child k off \<longleftrightarrow> cbb_offset child = of_nat off \<and>
     pending_len_len child = of_nat (pending_size k) \<and> pending_is_asn1 child = (k = Asn1) \<and>
     0 < pending_size k \<and> pending_size k \<le> 3"

fun linked :: "cbb_world \<Rightarrow> nat \<Rightarrow> nat \<Rightarrow> byte list \<Rightarrow> frame list \<Rightarrow> bool" where
  "linked s p start c [] \<longleftrightarrow> p < length (cbbs s) \<and> cbb_base (cbb_at s p) \<and> cbb_child (cbb_at s p) = None"
| "linked s p start c ((q, k, d) # fs) \<longleftrightarrow>
     p < length (cbbs s) \<and> cbb_base (cbb_at s p) \<and> cbb_child (cbb_at s p) = Some q \<and>
     pending_ok (cbb_at s q) k (start + length c) \<and>
     linked s q (start + length c + pending_size k) d fs"

text \<open>
  The object \<open>p\<close> and the elements open above it hold the bytes \<open>c\<close> and \<open>fs\<close>, after the bytes \<open>pre\<close>
  of the buffer.
\<close>

definition builder :: "cbb_world \<Rightarrow> byte list \<Rightarrow> nat \<Rightarrow> byte list \<Rightarrow> frame list \<Rightarrow> bool" where
  "builder s pre p c fs \<longleftrightarrow> \<not> error s \<and> distinct (p # map fst fs) \<and> linked s p (length pre) c fs \<and>
     buf s = pre @ raw c fs \<and> length (buf s) \<le> unat (cap s)"

text \<open>Room for \<open>n\<close> bytes in the buffer, perhaps after it is made larger.\<close>

definition room :: "cbb_world \<Rightarrow> nat \<Rightarrow> bool" where
  "room s n \<longleftrightarrow> n < 2 ^ 64 \<and> (n \<le> unat (cap s) \<or> can_resize s \<and> (\<forall>m. realloc_ok s m))"

text \<open>What an operation leaves: the pool of objects but for those in \<open>P\<close>, and at least the capacity.\<close>

definition same_but :: "nat set \<Rightarrow> cbb_world \<Rightarrow> cbb_world \<Rightarrow> bool" where
  "same_but P s s' \<longleftrightarrow> cap s \<le> cap s' \<and> (\<not> can_resize s \<longrightarrow> cap s' = cap s) \<and>
     can_resize s' = can_resize s \<and> realloc_ok s' = realloc_ok s \<and>
     length (cbbs s') = length (cbbs s) \<and> (\<forall>r. r \<notin> P \<longrightarrow> cbb_at s' r = cbb_at s r)"

lemma same_but_refl [simp]: "same_but P s s"
  by (simp add: same_but_def)

lemma same_but_trans: "same_but P s s' \<Longrightarrow> same_but P s' s'' \<Longrightarrow> same_but P s s''"
  by (auto simp: same_but_def)

lemma same_but_mono: "same_but P s s' \<Longrightarrow> P \<subseteq> Q \<Longrightarrow> same_but Q s s'"
  by (auto simp: same_but_def)

lemma room_mono: "room s n \<Longrightarrow> m \<le> n \<Longrightarrow> room s m"
  by (auto simp: room_def)

lemma room_cap: "n \<le> unat (cap s) \<Longrightarrow> room s n"
  using unat_u64_less [of "cap s"] by (simp add: room_def)

lemma room_same_but: "same_but P s s' \<Longrightarrow> room s n \<Longrightarrow> room s' n"
  by (auto simp: same_but_def room_def word_le_nat_alt)

section \<open>The buffer\<close>

lemma cbb_at_set_cbb: "p < length (cbbs s) \<Longrightarrow> cbb_at (set_cbb p c s) r = (if r = p then c else cbb_at s r)"
  by (auto simp: cbb_at_def set_cbb_def)

lemma set_cbb_simps [simp]:
  "buf (set_cbb p c s) = buf s" "cap (set_cbb p c s) = cap s" "can_resize (set_cbb p c s) = can_resize s"
  "error (set_cbb p c s) = error s" "realloc_ok (set_cbb p c s) = realloc_ok s"
  "length (cbbs (set_cbb p c s)) = length (cbbs s)"
  by (simp_all add: set_cbb_def)

lemma cbb_at_update [simp]:
  "cbb_at (s\<lparr>buf := b\<rparr>) p = cbb_at s p" "cbb_at (s\<lparr>cap := n\<rparr>) p = cbb_at s p"
  "cbb_at (s\<lparr>error := e\<rparr>) p = cbb_at s p" "cbb_at (s\<lparr>can_resize := e\<rparr>) p = cbb_at s p"
  by (simp_all add: cbb_at_def)

text \<open>Space for more bytes is found when there is room for them; otherwise the builder is marked.\<close>

lemma u64_add_cases:
  assumes "k < 2 ^ 64" and "l < 2 ^ 64"
  shows "(of_nat l + of_nat k :: u64) < of_nat l \<longleftrightarrow> 2 ^ 64 \<le> l + k"
    and "l + k < 2 ^ 64 \<Longrightarrow> unat (of_nat l + of_nat k :: u64) = l + k"
proof -
  have "unat (of_nat l + of_nat k :: u64) = (l + k) mod 2 ^ 64"
    by (simp add: unat_of_nat take_bit_eq_mod flip: of_nat_add)
  moreover have "(l + k) mod 2 ^ 64 < l \<longleftrightarrow> 2 ^ 64 \<le> l + k"
  proof (cases "2 ^ 64 \<le> l + k")
    case True
    then have "(l + k) mod 2 ^ 64 = l + k - 2 ^ 64"
      using assms by (simp add: mod_if)
    with True assms show ?thesis by linarith
  qed (use assms in simp)
  ultimately show "(of_nat l + of_nat k :: u64) < of_nat l \<longleftrightarrow> 2 ^ 64 \<le> l + k"
    and "l + k < 2 ^ 64 \<Longrightarrow> unat (of_nat l + of_nat k :: u64) = l + k"
    using assms by (simp_all add: word_less_nat_alt unat_of_nat_u64)
qed

lemma buffer_reserve_cases:
  assumes "length (buf s) \<le> unat (cap s)" and "n < 2 ^ 64"
  obtains c where "cbb_buffer_reserve (of_nat n) s = (Ret (), s\<lparr>cap := c\<rparr>)"
      "cap s \<le> c" "\<not> can_resize s \<Longrightarrow> c = cap s" "length (buf s) + n \<le> unat c"
  | "cbb_buffer_reserve (of_nat n) s = (Fail, s\<lparr>error := True\<rparr>)" "\<not> room s (length (buf s) + n)"
proof -
  let ?l = "length (buf s)"
  have l: "?l < 2 ^ 64"
    using assms(1) unat_u64_less [of "cap s"] by linarith
  note sum = u64_add_cases [OF assms(2) l]
  define new where "new = (of_nat ?l + of_nat n :: u64)"
  define twice where "twice = (if cap s * 2 < cap s \<or> cap s * 2 < new then new else cap s * 2)"
  have def: "cbb_buffer_reserve (of_nat n) s =
     (if 2 ^ 64 \<le> ?l + n then cbb_err s
      else if new > cap s then
        (if \<not> can_resize s then cbb_err s else if \<not> realloc_ok s twice then cbb_err s
         else (Ret (), s\<lparr>cap := twice\<rparr>))
      else (Ret (), s\<lparr>cap := cap s\<rparr>))"
    using sum(1) by (simp add: cbb_buffer_reserve_def base_len_def Let_def new_def twice_def)
  show thesis
  proof (cases "?l + n < 2 ^ 64")
    case False
    then show thesis
      using that(2) by (simp add: def cbb_err_def room_def)
  next
    case True
    have new: "unat new = ?l + n"
      using sum(2) [OF True] by (simp add: new_def)
    have twice: "new \<le> twice"
      by (auto simp: twice_def)
    show thesis
    proof (cases "new > cap s")
      case False
      then show thesis
        using that(1) [of "cap s"] new True by (simp add: def word_less_nat_alt)
    next
      case large: True
      then have "cap s \<le> twice" and "?l + n \<le> unat twice"
        using twice new by (auto simp: word_le_nat_alt word_less_nat_alt)
      moreover have "\<not> ?l + n \<le> unat (cap s)"
        using large new by (simp add: word_less_nat_alt)
      ultimately show thesis
      proof (cases "can_resize s \<and> realloc_ok s twice")
        case False
        with large True have "cbb_buffer_reserve (of_nat n) s = (Fail, s\<lparr>error := True\<rparr>)"
          by (auto simp: def cbb_err_def)
        moreover have "\<not> room s (?l + n)"
          using False \<open>\<not> ?l + n \<le> unat (cap s)\<close> by (auto simp: room_def)
        ultimately show thesis by (rule that(2))
      qed (use that(1) [of twice] True large in \<open>simp add: def\<close>)
    qed
  qed
qed

lemma buffer_add_cases:
  assumes "length (buf s) \<le> unat (cap s)" and "length bs < 2 ^ 64"
  obtains c where "cbb_buffer_add bs s = (Ret (), s\<lparr>cap := c, buf := buf s @ bs\<rparr>)"
      "cap s \<le> c" "\<not> can_resize s \<Longrightarrow> c = cap s" "length (buf s @ bs) \<le> unat c"
  | "cbb_buffer_add bs s = (Fail, s\<lparr>error := True\<rparr>)" "\<not> room s (length (buf s) + length bs)"
  using assms
  by (cases rule: buffer_reserve_cases) (use that in \<open>auto simp: cbb_buffer_add_def\<close>)

section \<open>Closing a child\<close>

lemma write_length_eq:
  assumes q: "q < length (cbbs s)" "p < length (cbbs s)" "p \<noteq> q"
    and off: "cbb_offset (cbb_at s q) = of_nat (length a)" "length a < 2 ^ 64"
    and n: "unat (pending_len_len (cbb_at s q)) = n" and buf: "buf s = a @ ph @ y" "length ph = n"
  shows "unat len < 256 ^ n \<Longrightarrow> \<exists>s'. write_length p q len s = (Ret (), s') \<and>
      buf s' = a @ be_bytes n len @ y \<and> same_but {p, q} s s' \<and> error s' = error s \<and>
      cap s' = cap s \<and> cbb_at s' p = (cbb_at s p)\<lparr>cbb_child := None\<rparr>"
    and "\<not> unat len < 256 ^ n \<Longrightarrow> \<exists>s'. write_length p q len s = (Fail, s') \<and> error s'"
proof -
  have o: "unat (cbb_offset (cbb_at s q)) = length a"
    using off by (simp only: unat_of_nat_u64)
  define s1 where "s1 = s\<lparr>buf := a @ be_bytes n len @ y\<rparr>"
  have w: "write_buf (unat (cbb_offset (cbb_at s q))) (be_bytes n len) s = (Ret (), s1)"
    by (simp add: write_buf_def write_at_def o buf s1_def)
  have cbbs: "cbbs s1 = cbbs s" by (simp add: s1_def)
  have def: "write_length p q len s = (if drop_bit (8 * n) len \<noteq> 0 then cbb_err s1
      else (Ret (), set_cbb p ((cbb_at (set_cbb q ((cbb_at s1 q)\<lparr>cbb_base := False\<rparr>) s1) p)\<lparr>cbb_child := None\<rparr>)
          (set_cbb q ((cbb_at s1 q)\<lparr>cbb_base := False\<rparr>) s1)))"
    by (simp add: write_length_def put_be_eq n w Let_def)
  show "unat len < 256 ^ n \<Longrightarrow> \<exists>s'. write_length p q len s = (Ret (), s') \<and>
      buf s' = a @ be_bytes n len @ y \<and> same_but {p, q} s s' \<and> error s' = error s \<and>
      cap s' = cap s \<and> cbb_at s' p = (cbb_at s p)\<lparr>cbb_child := None\<rparr>"
    unfolding def drop_bytes_zero using q
    by (auto simp: same_but_def cbb_at_set_cbb cbbs) (simp_all add: s1_def)
  show "\<not> unat len < 256 ^ n \<Longrightarrow> \<exists>s'. write_length p q len s = (Fail, s') \<and> error s'"
    unfolding def drop_bytes_zero by (simp add: cbb_err_def)
qed

text \<open>Space for the long form of an ASN.1 length, made by moving the contents.\<close>

lemma make_space_cases:
  assumes "length (buf s) \<le> unat (cap s)" and "0 < n" "n \<le> 5"
    and buf: "buf s = a @ y" and l: "n = 1 \<or> l = length y"
  obtains c g where "asn1_make_space n (length a) l s = (Ret (), s\<lparr>cap := c, buf := a @ g @ y\<rparr>)"
      "length g = n - 1" "cap s \<le> c" "\<not> can_resize s \<Longrightarrow> c = cap s" "length (a @ g @ y) \<le> unat c"
  | s' where "asn1_make_space n (length a) l s = (Fail, s')" "error s'" "\<not> room s (length (a @ y) + (n - 1))"
proof (cases "n = 1")
  case True
  then show thesis
    using that(1) [where c = "cap s" and g = "[]"] assms by (simp add: asn1_make_space_def)
next
  case False
  have small: "length (replicate (n - 1) (0 :: byte)) < 2 ^ 64"
    using assms(3) by simp
  from assms(1) small show thesis
  proof (cases rule: buffer_add_cases)
    case (1 c)
    define g where "g = take (n - 1) (y @ replicate (n - 1) 0)"
    let ?s = "s\<lparr>cap := c, buf := buf s @ replicate (n - 1) 0\<rparr>"
    have "move_buf (length a + (n - 1)) (length a) l ?s = (Ret (), s\<lparr>cap := c, buf := a @ g @ y\<rparr>)"
      using l False by (simp add: move_buf_def write_buf_def write_at_def buf g_def)
    with 1 False show thesis
      by (intro that(1) [where c = c and g = g]) (auto simp: asn1_make_space_def g_def buf)
  next
    case 2
    with False show thesis
      by (intro that(2) [of "s\<lparr>error := True\<rparr>"]) (auto simp: asn1_make_space_def buf)
  qed
qed

text \<open>Closing writes the length prefix of the contents in front of them, or marks the builder.\<close>

lemma close_child_cases:
  assumes pq: "q < length (cbbs s)" "p < length (cbbs s)" "p \<noteq> q"
    and ok: "pending_ok (cbb_at s q) k (length a)"
    and buf: "buf s = a @ ph @ y" "length ph = pending_size k" "length (buf s) \<le> unat (cap s)"
    and err: "\<not> error s"
  obtains s' h where "close_child p q (of_nat (length a + pending_size k)) s = (Ret (), s')"
      "length_prefix k (length y) = Some h" "buf s' = a @ h @ y" "same_but {p, q} s s'" "\<not> error s'"
      "length (buf s') \<le> unat (cap s')" "cbb_at s' p = (cbb_at s p)\<lparr>cbb_child := None\<rparr>"
  | s' where "close_child p q (of_nat (length a + pending_size k)) s = (Fail, s')" "error s'"
      "\<And>h. length_prefix k (length y) = Some h \<Longrightarrow> \<not> room s (length (a @ h @ y))"
proof -
  let ?start = "of_nat (length a + pending_size k) :: u64"
  have small: "length (buf s) < 2 ^ 64"
    using buf(3) unat_u64_less [of "cap s"] by linarith
  then have y: "unat (of_nat (length y) :: u64) = length y"
    and la: "length a < 2 ^ 64" and start: "unat ?start = length a + pending_size k"
    unfolding buf(1) buf(2) [symmetric] by (auto simp: unat_of_nat_u64 simp del: of_nat_add)
  have len: "base_len s - ?start = of_nat (length y)"
    by (simp add: base_len_def buf(1,2))
  from ok have off: "cbb_offset (cbb_at s q) = of_nat (length a)"
    and size: "0 < pending_size k" "pending_size k \<le> 3"
      "pending_len_len (cbb_at s q) = of_nat (pending_size k)"
    and asn1: "pending_is_asn1 (cbb_at s q) = (k = Asn1)"
    by (auto simp: pending_ok_def)
  have pend: "unat (pending_len_len (cbb_at s q)) = pending_size k"
    unfolding size(3) using size(2) by (simp add: unat_of_nat take_bit_nat_eq_self)
  show thesis
  proof (cases k)
    case (Len n)
    have def: "close_child p q ?start s = write_length p q (of_nat (length y)) s"
      using asn1 len by (simp add: close_child_def Len Let_def)
    note w = write_length_eq [OF pq off la pend buf(1,2), where len = "of_nat (length y)", unfolded y]
    show thesis
    proof (cases "length y < 256 ^ n")
      case True
      with w(1) obtain s' where s': "write_length p q (of_nat (length y)) s = (Ret (), s')"
        "buf s' = a @ be_bytes n (of_nat (length y) :: u64) @ y" "same_but {p, q} s s'" "error s' = error s"
        "cap s' = cap s" "cbb_at s' p = (cbb_at s p)\<lparr>cbb_child := None\<rparr>"
        by (auto simp: Len)
      show thesis
      proof (rule that(1) [where s' = s' and h = "be_bytes n (of_nat (length y) :: u64)"])
        show "close_child p q ?start s = (Ret (), s')"
          unfolding def by (rule s'(1))
      qed (use s' True buf err in \<open>auto simp: Len\<close>)
    next
      case False
      with w(2) obtain s' where s': "write_length p q (of_nat (length y)) s = (Fail, s')" "error s'"
        by (auto simp: Len)
      show thesis
      proof (rule that(2) [of s'])
        show "close_child p q ?start s = (Fail, s')"
          unfolding def by (rule s'(1))
      qed (use s' False in \<open>auto simp: Len\<close>)
    qed
  next
    case Asn1
    then have n1: "pending_len_len (cbb_at s q) = 1" using size(3) by simp
    show thesis
    proof (cases "asn1_length_form (of_nat (length y))")
      case None
      then have "close_child p q ?start s = cbb_err s"
        using asn1 len n1 by (simp add: close_child_def Asn1 Let_def)
      moreover from None have "\<not> length y \<le> 0xfffffffe"
        unfolding asn1_length_form_None y .
      ultimately show thesis
        by (intro that(2) [of "s\<lparr>error := True\<rparr>"]) (auto simp: cbb_err_def Asn1)
    next
      case (Some r)
      then obtain n b l where form: "asn1_length_form (of_nat (length y)) = Some (n, b, l)"
        by (cases r) auto
      note spec = asn1_length_form_Some [OF form, unfolded y]
      let ?child = "(cbb_at s q)\<lparr>cbb_offset := of_nat (length a) + 1, pending_len_len := of_nat (n - 1)\<rparr>"
      have fits: "length y \<le> 0xfffffffe"
        using form asn1_length_form_None [of "of_nat (length y)"] unfolding y by auto
      then have prefix: "length_prefix k (length y) = Some (b # be_bytes (n - 1) l)"
        by (simp add: Asn1 spec(1))
      have ph: "length ph = 1" "length (a @ ph) = length a + 1" and buf1: "buf s = (a @ ph) @ y"
        using buf(1,2) by (simp_all add: Asn1)
      have start1: "unat ?start = length (a @ ph)"
        using start by (simp add: Asn1 ph)
      have o: "unat (cbb_offset (cbb_at s q)) = length a"
        unfolding off using la by (rule unat_of_nat_u64)
      have l: "n = 1 \<or> unat l = length y"
        using spec(5) y by auto
      let ?finish = "seq (write_buf (length a) [b]) (\<lambda>s. write_length p q l
          (set_cbb q ((cbb_at s q)\<lparr>cbb_offset := of_nat (length a) + 1, pending_len_len := of_nat (n - 1)\<rparr>) s))"
      have def: "close_child p q ?start s = seq (asn1_make_space n (length (a @ ph)) (unat l)) ?finish s"
        using asn1 len n1 start1 o by (simp add: close_child_def Asn1 Let_def form off)
      from buf(3) spec(3,4) buf1 l show thesis
      proof (cases rule: make_space_cases)
        case (1 c g)
        define s2 where "s2 = s\<lparr>cap := c, buf := a @ b # g @ y\<rparr>"
        define s3 where "s3 = set_cbb q ((cbb_at s2 q)\<lparr>cbb_offset := of_nat (length a) + 1,
          pending_len_len := of_nat (n - 1)\<rparr>) s2"
        have finish: "?finish (s\<lparr>cap := c, buf := (a @ ph) @ g @ y\<rparr>) = write_length p q l s3"
          using ph(1) by (simp add: write_buf_def write_at_def bnd_def s3_def s2_def)
        have cbbs2: "cbbs s2 = cbbs s" "cbb_at s2 r = cbb_at s r" for r
          by (simp_all add: s2_def)
        have same3: "same_but {p, q} s s3"
          using 1 pq by (auto simp: same_but_def s3_def cbb_at_set_cbb cbbs2) (simp_all add: s2_def)
        have p3: "cbb_at s3 p = cbb_at s p" and len3: "length (cbbs s3) = length (cbbs s)"
          using pq by (simp_all add: s3_def cbb_at_set_cbb cbbs2)
        have q3: "cbb_at s3 q = (cbb_at s q)\<lparr>cbb_offset := of_nat (length a) + 1,
            pending_len_len := of_nat (n - 1)\<rparr>"
          using pq by (simp add: s3_def cbb_at_set_cbb cbbs2)
        have "length (a @ [b]) < 2 ^ 64"
          using small by (simp add: buf1 ph)
        moreover have "unat (pending_len_len (cbb_at s3 q)) = n - 1"
          using spec(4) by (simp add: q3 unat_of_nat take_bit_nat_eq_self)
        moreover have "cbb_offset (cbb_at s3 q) = of_nat (length (a @ [b]))"
          by (simp add: q3 add.commute)
        moreover have "buf s3 = (a @ [b]) @ g @ y" and err3: "error s3 = error s" and cap3: "cap s3 = c"
          by (simp_all add: s3_def s2_def)
        ultimately obtain s4 where s4: "write_length p q l s3 = (Ret (), s4)"
          "buf s4 = (a @ [b]) @ be_bytes (n - 1) l @ y" "same_but {p, q} s3 s4" "error s4 = error s3"
          "cap s4 = cap s3" "cbb_at s4 p = (cbb_at s3 p)\<lparr>cbb_child := None\<rparr>"
          using write_length_eq(1) [of q s3 p "a @ [b]" "n - 1" g y l] pq len3 1(2) spec(2) by auto
        show thesis
        proof (rule that(1) [where s' = s4 and h = "b # be_bytes (n - 1) l"])
          show "close_child p q ?start s = (Ret (), s4)"
          proof -
            have "close_child p q ?start s = ?finish (s\<lparr>cap := c, buf := (a @ ph) @ g @ y\<rparr>)"
              unfolding def by (rule bnd_Ret) (rule 1(1))
            then show ?thesis
              unfolding finish s4(1) .
          qed
          show "length (buf s4) \<le> unat (cap s4)"
            using 1(2,5) spec(3) ph by (simp add: s4 cap3)
        qed (use s4 prefix same3 same_but_trans err err3 p3 in auto)
      next
        case (2 s')
        then have "close_child p q ?start s = (Fail, s')"
          unfolding def by (intro bnd_Fail)
        with 2 prefix spec(3) ph show thesis
          by (intro that(2) [of s']) (auto simp: ac_simps)
      qed
    qed
  qed
qed

section \<open>Flushing\<close>

lemma length_prefix_size: "length_prefix k m = Some h \<Longrightarrow> pending_size k \<le> length h"
  by (cases k) (auto simp: der_len_def split: if_splits)

lemma linked_nonempty: "linked s p start c fs \<Longrightarrow> p < length (cbbs s) \<and> cbb_base (cbb_at s p)"
  by (cases fs) auto

lemma linked_cong:
  assumes "length (cbbs s') = length (cbbs s)" and "\<forall>r \<in> insert p (fst ` set fs). cbb_at s' r = cbb_at s r"
  shows "linked s' p start c fs = linked s p start c fs"
  using assms by (induction fs arbitrary: p start c) auto

text \<open>
  \<open>CBB_flush\<close> closes everything above an object, when no element is too long and there is room; it
  fails and marks the builder otherwise.
\<close>

lemma flush_cases:
  assumes "builder s pre p c fs" and "length fs < n"
  shows "(\<exists>s' x. cbb_flush n p s = (Ret (), s') \<and> closed c fs = Some x \<and> builder s' pre p x [] \<and>
      same_but (insert p (fst ` set fs)) s s' \<and> cbb_at s' p = (cbb_at s p)\<lparr>cbb_child := None\<rparr>) \<or>
    (\<exists>s'. cbb_flush n p s = (Fail, s') \<and> error s' \<and>
      (\<forall>x. closed c fs = Some x \<longrightarrow> \<not> room s (length (pre @ x))))"
  using assms
proof (induction fs arbitrary: s pre p c n)
  case Nil
  then obtain m where "n = Suc m" by (cases n) auto
  with Nil show ?case
    by (auto simp: builder_def Let_def)
next
  case (Cons f fs)
  obtain q k d where f: "f = (q, k, d)" by (cases f) auto
  obtain m where n: "n = Suc m" using Cons.prems(2) by (cases n) auto
  let ?a = "pre @ c"
  define st where "st = (of_nat (length ?a + pending_size k) :: u64)"
  from Cons.prems(1) have err: "\<not> error s" and dist: "distinct (p # q # map fst fs)"
    and p: "p < length (cbbs s)" "cbb_base (cbb_at s p)" "cbb_child (cbb_at s p) = Some q"
    and ok: "pending_ok (cbb_at s q) k (length ?a)"
    and link: "linked s q (length ?a + pending_size k) d fs"
    and buf: "buf s = ?a @ replicate (pending_size k) 0 @ raw d fs" "length (buf s) \<le> unat (cap s)"
    by (auto simp: builder_def f)
  have small: "length ?a + pending_size k < 2 ^ 64"
    using buf unat_u64_less [of "cap s"] by auto
  have start: "cbb_offset (cbb_at s q) + ucast (pending_len_len (cbb_at s q)) = st"
    and size: "pending_len_len (cbb_at s q) \<noteq> 0"
    and start_ge: "\<not> st < cbb_offset (cbb_at s q)"
  proof -
    from ok have off: "cbb_offset (cbb_at s q) = of_nat (length ?a)"
      and pend: "pending_len_len (cbb_at s q) = of_nat (pending_size k)"
      and k: "0 < pending_size k" "pending_size k \<le> 3" by (auto simp: pending_ok_def)
    have k123: "pending_size k = 1 \<or> pending_size k = 2 \<or> pending_size k = 3"
      using k by auto
    then have "ucast (of_nat (pending_size k) :: byte) = (of_nat (pending_size k) :: u64)"
      by auto
    then show "cbb_offset (cbb_at s q) + ucast (pending_len_len (cbb_at s q)) = st"
      by (simp add: off pend st_def)
    show "pending_len_len (cbb_at s q) \<noteq> 0"
      using k123 by (auto simp: pend)
    show "\<not> st < cbb_offset (cbb_at s q)"
      using u64_add_cases(1) [of "pending_size k" "length ?a"] small by (simp add: off st_def)
  qed
  have flush: "cbb_flush n p s = (case cbb_flush m q s of
      (Ret _, s) \<Rightarrow> if base_len s < st then cbb_err s else close_child p q st s
    | (Fail, s) \<Rightarrow> cbb_err s
    | (Stuck, s) \<Rightarrow> (Stuck, s))"
    using p err size start start_ge
    by (cases "cbb_flush m q s" rule: res_cases_prod) (simp_all add: n Let_def)
  have "builder s (?a @ replicate (pending_size k) 0) q d fs"
    using err dist link buf by (simp add: builder_def add.assoc)
  moreover have "length fs < m"
    using Cons.prems(2) n by simp
  ultimately consider
      s1 y where "cbb_flush m q s = (Ret (), s1)" "closed d fs = Some y"
        "builder s1 (?a @ replicate (pending_size k) 0) q y []"
        "same_but (insert q (fst ` set fs)) s s1" "cbb_at s1 q = (cbb_at s q)\<lparr>cbb_child := None\<rparr>"
    | s1 where "cbb_flush m q s = (Fail, s1)" "error s1"
        "\<forall>x. closed d fs = Some x \<longrightarrow> \<not> room s (length ((?a @ replicate (pending_size k) 0) @ x))"
    using Cons.IH [of s "?a @ replicate (pending_size k) 0" q d m] by blast
  then show ?case
  proof cases
    case (2 s1)
    have "\<not> room s (length (pre @ x))" if "closed c (f # fs) = Some x" for x
    proof
      assume room: "room s (length (pre @ x))"
      from that obtain y h where y: "closed d fs = Some y" "length_prefix k (length y) = Some h" "x = c @ h @ y"
        by (auto simp: f split: option.splits)
      then have "room s (length ((?a @ replicate (pending_size k) 0) @ y))"
        using length_prefix_size [OF y(2)] by (intro room_mono [OF room]) simp
      with 2(3) y(1) show False by blast
    qed
    moreover have "cbb_flush n p s = (Fail, s1\<lparr>error := True\<rparr>)"
      using 2(1) by (simp add: flush cbb_err_def)
    ultimately show ?thesis by auto
  next
    case (1 s1 y)
    from 1(3) have b1: "\<not> error s1" "buf s1 = ?a @ replicate (pending_size k) 0 @ y"
      "length (buf s1) \<le> unat (cap s1)" by (auto simp: builder_def)
    have pool: "length (cbbs s1) = length (cbbs s)" and p1: "cbb_at s1 p = cbb_at s p"
      using 1(4) dist by (auto simp: same_but_def)
    have q: "q < length (cbbs s)"
      using linked_nonempty [OF link] by simp
    have ok1: "pending_ok (cbb_at s1 q) k (length ?a)"
      using ok by (simp add: 1(5) pending_ok_def)
    have "length (buf s1) < 2 ^ 64"
      using b1(3) unat_u64_less [of "cap s1"] by linarith
    then have "\<not> base_len s1 < st"
      unfolding base_len_def word_less_nat_alt st_def using small
      by (simp only: unat_of_nat_u64) (simp add: b1(2))
    then have flush1: "cbb_flush n p s = close_child p q st s1"
      using 1(1) by (simp add: flush)
    have "p \<noteq> q" using dist by simp
    from q [folded pool] p(1) [folded pool] this ok1 b1(2) length_replicate b1(3,1) show ?thesis
    proof (cases rule: close_child_cases)
      case (1 s2 h)
      have "closed c (f # fs) = Some (c @ h @ y)"
        using \<open>closed d fs = Some y\<close> 1(2) by (simp add: f)
      moreover have at: "cbb_at s2 p = (cbb_at s p)\<lparr>cbb_child := None\<rparr>"
        using 1(7) p1 by simp
      moreover have "same_but {p, q} s1 s2" by (rule 1(4))
      then have "same_but (insert p (fst ` set (f # fs))) s s2"
        using same_but_mono [OF \<open>same_but (insert q (fst ` set fs)) s s1\<close>, of "insert p (fst ` set (f # fs))"]
          same_but_mono [of "{p, q}" s1 s2 "insert p (fst ` set (f # fs))"]
        by (auto simp: f intro: same_but_trans)
      moreover have "builder s2 pre p (c @ h @ y) []"
        using 1(3-6) p pool p1 at by (simp add: builder_def same_but_def)
      ultimately show ?thesis
        using 1(1) unfolding flush1 st_def by blast
    next
      case (2 s2)
      have "\<not> room s (length (pre @ x))" if "closed c (f # fs) = Some x" for x
      proof -
        from that \<open>closed d fs = Some y\<close> obtain h where h: "length_prefix k (length y) = Some h" "x = c @ h @ y"
          by (auto simp: f split: option.splits)
        with 2(3) have "\<not> room s1 (length (pre @ x))" by simp
        then show ?thesis
          using room_same_but [OF \<open>same_but (insert q (fst ` set fs)) s s1\<close>] by blast
      qed
      then show ?thesis
        using 2(1,2) unfolding flush1 st_def by blast
    qed
  qed
qed

lemma linked_pool: "linked s p start c fs \<Longrightarrow> insert p (fst ` set fs) \<subseteq> {..<length (cbbs s)}"
  by (induction fs arbitrary: p start c) fastforce+

lemma builder_depth:
  assumes "builder s pre p c fs"
  shows "length fs < length (cbbs s)"
proof -
  have dist: "distinct (p # map fst fs)" and link: "linked s p (length pre) c fs"
    using assms by (auto simp: builder_def)
  have "length (p # map fst fs) = card (set (p # map fst fs))"
    by (rule distinct_card [OF dist, symmetric])
  also have "\<dots> \<le> card {..<length (cbbs s)}"
    by (rule card_mono) (use linked_pool [OF link] in auto)
  finally show ?thesis by simp
qed

section \<open>Operations that append\<close>

text \<open>
  \<open>appends C f p bs\<close>: \<open>f\<close> closes what is open above \<open>p\<close> and appends \<open>bs\<close> there, if lengths and room
  allow it, and fails and marks the builder exactly when they do not. It uses the objects of \<open>C\<close>,
  which must not be part of the builder.
\<close>

definition appends :: "nat set \<Rightarrow> (cbb_world, unit) prog \<Rightarrow> nat \<Rightarrow> byte list \<Rightarrow> bool" where
  "appends C f p bs \<longleftrightarrow> (\<forall>s pre c fs. builder s pre p c fs \<longrightarrow> C \<subseteq> {..<length (cbbs s)} \<longrightarrow>
     C \<inter> insert p (fst ` set fs) = {} \<longrightarrow>
     (\<exists>s' x. f s = (Ret (), s') \<and> closed c fs = Some x \<and> builder s' pre p (x @ bs) [] \<and>
        same_but (C \<union> insert p (fst ` set fs)) s s' \<and> cbb_at s' p = (cbb_at s p)\<lparr>cbb_child := None\<rparr>) \<or>
     (\<exists>s'. f s = (Fail, s') \<and> error s' \<and>
        (\<forall>x. closed c fs = Some x \<longrightarrow> \<not> room s (length (pre @ x @ bs)))))"

lemma appends_cases:
  assumes "appends C f p bs" and "builder s pre p c fs" and "C \<subseteq> {..<length (cbbs s)}"
    and "C \<inter> insert p (fst ` set fs) = {}"
  obtains s' x where "f s = (Ret (), s')" "closed c fs = Some x" "builder s' pre p (x @ bs) []"
      "same_but (C \<union> insert p (fst ` set fs)) s s'" "cbb_at s' p = (cbb_at s p)\<lparr>cbb_child := None\<rparr>"
  | s' where "f s = (Fail, s')" "error s'"
      "\<forall>x. closed c fs = Some x \<longrightarrow> \<not> room s (length (pre @ x @ bs))"
  using assms unfolding appends_def by blast

lemma appends_CBB_flush: "appends {} (CBB_flush p) p []"
  unfolding appends_def CBB_flush_def
proof (intro allI impI)
  fix s pre c fs assume b: "builder s pre p c fs"
  then have "length fs < Suc (length (cbbs s))"
    using builder_depth [OF b] by simp
  from flush_cases [OF b this]
  show "(\<exists>s' x. cbb_flush (Suc (length (cbbs s))) p s = (Ret (), s') \<and> closed c fs = Some x \<and>
      builder s' pre p (x @ []) [] \<and> same_but ({} \<union> insert p (fst ` set fs)) s s' \<and>
      cbb_at s' p = (cbb_at s p)\<lparr>cbb_child := None\<rparr>) \<or>
    (\<exists>s'. cbb_flush (Suc (length (cbbs s))) p s = (Fail, s') \<and> error s' \<and>
      (\<forall>x. closed c fs = Some x \<longrightarrow> \<not> room s (length (pre @ x @ []))))"
    by (simp only: append_Nil2 Un_empty_left)
qed

lemma appends_seq:
  assumes f: "appends C f p as" and g: "appends C g p bs"
  shows "appends C (seq f g) p (as @ bs)"
  unfolding appends_def
proof (intro allI impI)
  fix s pre c fs
  assume b: "builder s pre p c fs" and C: "C \<subseteq> {..<length (cbbs s)}" "C \<inter> insert p (fst ` set fs) = {}"
  let ?P = "C \<union> insert p (fst ` set fs)"
  let ?ok = "\<exists>s' x. seq f g s = (Ret (), s') \<and> closed c fs = Some x \<and> builder s' pre p (x @ as @ bs) [] \<and>
      same_but ?P s s' \<and> cbb_at s' p = (cbb_at s p)\<lparr>cbb_child := None\<rparr>"
  let ?fail = "\<exists>s'. seq f g s = (Fail, s') \<and> error s' \<and>
      (\<forall>x. closed c fs = Some x \<longrightarrow> \<not> room s (length (pre @ x @ as @ bs)))"
  from f b C show "?ok \<or> ?fail"
  proof (cases rule: appends_cases)
    case (1 s1 x)
    have "C \<subseteq> {..<length (cbbs s1)}" and "C \<inter> insert p (fst ` set ([] :: frame list)) = {}"
      using 1(4) C by (auto simp: same_but_def)
    with g 1(3) show ?thesis
    proof (cases rule: appends_cases)
      case (1 s2 y)
      have "same_but ?P s1 s2"
        using 1(4) by (rule same_but_mono) auto
      with 1 \<open>same_but ?P s s1\<close> \<open>f s = (Ret (), s1)\<close> \<open>closed c fs = Some x\<close> \<open>cbb_at s1 p = _\<close>
      have ?ok by (auto intro: same_but_trans)
      then show ?thesis ..
    next
      case (2 s2)
      then have "\<not> room s (length (pre @ x @ as @ bs))"
        using room_same_but [OF \<open>same_but ?P s s1\<close>, of "length (pre @ x @ as @ bs)"]
        by (auto simp: ac_simps)
      with 2 \<open>f s = (Ret (), s1)\<close> \<open>closed c fs = Some x\<close> have ?fail by auto
      then show ?thesis ..
    qed
  next
    case (2 s1)
    have "\<not> room s (length (pre @ x @ as @ bs))" if "closed c fs = Some x" for x
      using 2(3) that room_mono [of s "length (pre @ x @ as @ bs)" "length (pre @ x @ as)"] by auto
    with 2(1,2) have ?fail by auto
    then show ?thesis ..
  qed
qed

lemma appends_buffer_add:
  assumes "length bs < 2 ^ 64"
  shows "appends {} (seq (CBB_flush p) (cbb_buffer_add bs)) p bs"
  unfolding appends_def
proof (intro allI impI)
  fix s pre c fs
  assume b: "builder s pre p c fs" and C: "{} \<subseteq> {..<length (cbbs s)}" "{} \<inter> insert p (fst ` set fs) = {}"
  let ?ok = "\<exists>s' x. seq (CBB_flush p) (cbb_buffer_add bs) s = (Ret (), s') \<and> closed c fs = Some x \<and>
      builder s' pre p (x @ bs) [] \<and> same_but ({} \<union> insert p (fst ` set fs)) s s' \<and>
      cbb_at s' p = (cbb_at s p)\<lparr>cbb_child := None\<rparr>"
  let ?fail = "\<exists>s'. seq (CBB_flush p) (cbb_buffer_add bs) s = (Fail, s') \<and> error s' \<and>
      (\<forall>x. closed c fs = Some x \<longrightarrow> \<not> room s (length (pre @ x @ bs)))"
  from appends_CBB_flush b C show "?ok \<or> ?fail"
  proof (cases rule: appends_cases)
    case (1 s1 x)
    then have buf: "length (buf s1) \<le> unat (cap s1)" "buf s1 = pre @ x"
      by (auto simp: builder_def)
    from buf(1) assms show ?thesis
    proof (cases rule: buffer_add_cases)
      case (1 n)
      let ?s = "s1\<lparr>cap := n, buf := buf s1 @ bs\<rparr>"
      have "builder ?s pre p (x @ bs) []"
        using \<open>builder s1 pre p (x @ []) []\<close> 1(4) by (auto simp: builder_def cbb_at_def)
      moreover have "same_but (insert p (fst ` set fs)) s1 ?s"
        using 1(2,3) by (auto simp: same_but_def cbb_at_def)
      moreover have "cbb_at ?s p = cbb_at s1 p"
        by (simp add: cbb_at_def)
      moreover note \<open>same_but ({} \<union> insert p (fst ` set fs)) s s1\<close>
      ultimately have ?ok
        using 1(1) \<open>CBB_flush p s = (Ret (), s1)\<close> \<open>closed c fs = Some x\<close> \<open>cbb_at s1 p = _\<close>
        by (auto intro: same_but_trans) 
      then show ?thesis ..
    next
      case 2
      then have "\<not> room s (length (pre @ x @ bs))"
        using room_same_but [OF \<open>same_but ({} \<union> insert p (fst ` set fs)) s s1\<close>, of "length (pre @ x @ bs)"]
        by (auto simp: buf(2) ac_simps)
      with 2 \<open>CBB_flush p s = (Ret (), s1)\<close> \<open>closed c fs = Some x\<close> have ?fail by auto
      then show ?thesis ..
    qed
  next
    case (2 s1)
    have "\<not> room s (length (pre @ x @ bs))" if "closed c fs = Some x" for x
      using 2(3) that room_mono [of s "length (pre @ x @ bs)" "length (pre @ x @ [])"] by auto
    with 2(1,2) have ?fail by auto
    then show ?thesis ..
  qed
qed

lemma appends_CBB_add_bytes: "length data < 2 ^ 64 \<Longrightarrow> appends {} (CBB_add_bytes p data) p data"
  unfolding CBB_add_bytes_def by (rule appends_buffer_add)

lemma buffer_add_u_eq:
  "0 < n \<Longrightarrow> unat v < 256 ^ n \<Longrightarrow> cbb_buffer_add_u v n = cbb_buffer_add (be_bytes n v)"
  unfolding cbb_buffer_add_u_def put_be_eq
  by (auto simp: drop_bytes_zero bnd_def fun_eq_iff split: prod.splits res.splits)

lemma appends_buffer_add_u:
  assumes "0 < n" and "n \<le> 4" and "unat v < 256 ^ n"
  shows "appends {} (seq (CBB_flush p) (cbb_buffer_add_u v n)) p (be_bytes n v)"
  unfolding buffer_add_u_eq [OF assms(1,3)] using assms(2) by (intro appends_buffer_add) simp

lemma ucast_u32_byte: "unat (ucast (v :: byte) :: u32) = unat v"
  using unat_byte_less [of v] by (simp add: unsigned_ucast_eq take_bit_nat_eq_self)

lemma unat_u16_less: "unat (v :: 16 word) < 2 ^ 16"
  by (rule order_less_le_trans [OF unsigned_less]) simp

lemma ucast_u32_u16: "unat (ucast (v :: 16 word) :: u32) = unat v"
  using unat_u16_less [of v] by (simp add: unsigned_ucast_eq take_bit_nat_eq_self)

lemma appends_CBB_add_u8: "appends {} (CBB_add_u8 p v) p [v]"
proof -
  have "be_bytes 1 (ucast v :: u32) = [v]"
    by (simp add: be_bytes_def le_bytes_def)
  then show ?thesis
    using appends_buffer_add_u [of 1 "ucast v" p] unat_byte_less [of v]
    by (simp add: CBB_add_u8_def ucast_u32_byte)
qed

lemma appends_CBB_add_u16: "appends {} (CBB_add_u16 p v) p (be_bytes 2 v)"
proof -
  have "be_bytes 2 (ucast v :: u32) = be_bytes 2 v"
    unfolding be_bytes_def
    by (intro arg_cong [of _ _ rev] nth_equalityI bit_word_eqI)
      (auto simp: le_bytes_def bit_simps simp del: upt_Suc)
  then show ?thesis
    using appends_buffer_add_u [of 2 "ucast v" p] unat_u16_less [of v]
    by (simp add: CBB_add_u16_def ucast_u32_u16)
qed

lemma appends_CBB_add_u24: "unat v < 2 ^ 24 \<Longrightarrow> appends {} (CBB_add_u24 p v) p (be_bytes 3 v)"
  unfolding CBB_add_u24_def by (rule appends_buffer_add_u) simp_all

lemma appends_CBB_add_u32: "appends {} (CBB_add_u32 p v) p (be_bytes 4 v)"
  unfolding CBB_add_u32_def using unat_u32_less [of v] by (intro appends_buffer_add_u) simp_all

section \<open>Elements inside elements\<close>

lemma builder_Cons:
  "builder s pre p c ((q, k, d) # fs) \<longleftrightarrow>
     p < length (cbbs s) \<and> cbb_base (cbb_at s p) \<and> cbb_child (cbb_at s p) = Some q \<and>
     pending_ok (cbb_at s q) k (length (pre @ c)) \<and> p \<notin> insert q (fst ` set fs) \<and>
     builder s (pre @ c @ replicate (pending_size k) 0) q d fs"
  by (auto simp: builder_def add.assoc)

lemma pending_ok_child [simp]: "pending_ok (child\<lparr>cbb_child := r\<rparr>) k off = pending_ok child k off"
  by (simp add: pending_ok_def)

text \<open>An operation on an element in the middle of the stack closes those above it and appends there.\<close>

lemma appends_inside:
  assumes f: "appends C f r bs" and "builder s pre p c (fs1 @ (r, k, d) # fs2)"
    and C: "C \<subseteq> {..<length (cbbs s)}" "C \<inter> insert p (fst ` set (fs1 @ (r, k, d) # fs2)) = {}"
  shows "(\<exists>s' y. f s = (Ret (), s') \<and> closed d fs2 = Some y \<and> builder s' pre p c (fs1 @ [(r, k, y @ bs)]) \<and>
      same_but (C \<union> insert r (fst ` set fs2)) s s') \<or>
    (\<exists>s'. f s = (Fail, s') \<and> error s' \<and>
      (\<forall>y. closed d fs2 = Some y \<longrightarrow> \<not> room s (length (pre @ raw c (fs1 @ [(r, k, y @ bs)])))))"
  using assms(2) C
proof (induction fs1 arbitrary: pre p c)
  case Nil
  let ?pre = "pre @ c @ replicate (pending_size k) 0"
  have p: "p < length (cbbs s)" "cbb_base (cbb_at s p)" "cbb_child (cbb_at s p) = Some r"
      "pending_ok (cbb_at s r) k (length (pre @ c))" "p \<notin> insert r (fst ` set fs2)"
    and b: "builder s ?pre r d fs2"
    using Nil.prems(1) by (simp_all add: builder_Cons)
  have "C \<inter> insert r (fst ` set fs2) = {}" and "p \<notin> C"
    using Nil.prems(3) by auto
  from f b Nil.prems(2) this(1) show ?case
  proof (cases rule: appends_cases)
    case (1 s' y)
    moreover from this p \<open>p \<notin> C\<close> have "builder s' pre p c [(r, k, y @ bs)]"
      by (auto simp: builder_Cons same_but_def)
    ultimately show ?thesis by auto
  next
    case (2 s')
    then show ?thesis by auto
  qed
next
  case (Cons g fs1)
  obtain q k' d' where g: "g = (q, k', d')" by (cases g) auto
  let ?pre = "pre @ c @ replicate (pending_size k') 0"
  have p: "p < length (cbbs s)" "cbb_base (cbb_at s p)" "cbb_child (cbb_at s p) = Some q"
      "pending_ok (cbb_at s q) k' (length (pre @ c))"
      "p \<notin> insert q (fst ` set (fs1 @ (r, k, d) # fs2))"
    and b: "builder s ?pre q d' (fs1 @ (r, k, d) # fs2)"
    using Cons.prems(1) by (simp_all add: builder_Cons g)
  have q: "q \<notin> insert r (fst ` set fs2)"
    using b by (auto simp: builder_def)
  have C: "C \<inter> insert q (fst ` set (fs1 @ (r, k, d) # fs2)) = {}" "p \<notin> C" "q \<notin> C"
    using Cons.prems(3) by (auto simp: g)
  from Cons.IH [OF b Cons.prems(2) C(1)] show ?case
  proof (elim disjE exE conjE)
    fix s' y
    assume s': "f s = (Ret (), s')" "closed d fs2 = Some y" "builder s' ?pre q d' (fs1 @ [(r, k, y @ bs)])"
      "same_but (C \<union> insert r (fst ` set fs2)) s s'"
    have "cbb_at s' p = cbb_at s p" "cbb_at s' q = cbb_at s q" "length (cbbs s') = length (cbbs s)"
      using s'(4) p(5) q C(2,3) by (auto simp: same_but_def)
    then have "builder s' pre p c (g # fs1 @ [(r, k, y @ bs)])"
      using s'(3) p by (auto simp: builder_Cons g)
    with s' show ?thesis by auto
  next
    fix s'
    assume "f s = (Fail, s')" "error s'"
      "\<forall>y. closed d fs2 = Some y \<longrightarrow> \<not> room s (length (?pre @ raw d' (fs1 @ [(r, k, y @ bs)])))"
    then show ?thesis by (auto simp: g)
  qed
qed

section \<open>Opening a child\<close>

lemma flush_idle: "builder s pre p c [] \<Longrightarrow> CBB_flush p s = (Ret (), s)"
  by (simp add: CBB_flush_def builder_def Let_def)

lemma add_child_builder:
  assumes b: "builder s pre p (x @ replicate (pending_size k) 0) []" and q: "q < length (cbbs s)" "q \<noteq> p"
    and k: "0 < pending_size k" "pending_size k \<le> 3"
  shows "\<exists>s'. add_child p q (of_nat (length (pre @ x))) (of_nat (pending_size k)) (k = Asn1) s = (Ret (), s') \<and>
    builder s' pre p x [(q, k, [])] \<and> same_but {p, q} s s' \<and>
    cbb_at s' p = (cbb_at s p)\<lparr>cbb_child := Some q\<rparr>"
proof -
  define s1 where "s1 = set_cbb q (CBB_zero\<lparr>cbb_base := cbb_base (cbb_at s p),
    cbb_offset := of_nat (length (pre @ x)), pending_len_len := of_nat (pending_size k),
    pending_is_asn1 := (k = Asn1)\<rparr>) s"
  define s2 where "s2 = set_cbb p ((cbb_at s1 p)\<lparr>cbb_child := Some q\<rparr>) s1"
  have "add_child p q (of_nat (length (pre @ x))) (of_nat (pending_size k)) (k = Asn1) s = (Ret (), s2)"
    by (simp add: add_child_def s1_def s2_def Let_def)
  moreover have p: "p < length (cbbs s)" "cbb_base (cbb_at s p)"
    using b by (auto simp: builder_def)
  then have at: "cbb_at s2 r = (if r = p then (cbb_at s p)\<lparr>cbb_child := Some q\<rparr>
      else if r = q then CBB_zero\<lparr>cbb_base := True, cbb_offset := of_nat (length (pre @ x)),
        pending_len_len := of_nat (pending_size k), pending_is_asn1 := (k = Asn1)\<rparr>
      else cbb_at s r)" for r
    using q by (simp add: s2_def s1_def cbb_at_set_cbb)
  have pool: "length (cbbs s2) = length (cbbs s)" and buf: "buf s2 = buf s" "cap s2 = cap s"
      "error s2 = error s" "can_resize s2 = can_resize s" "realloc_ok s2 = realloc_ok s"
    by (simp_all add: s2_def s1_def)
  have "builder s2 pre p x [(q, k, [])]"
    using b p q k pool buf at by (auto simp: builder_Cons pending_ok_def builder_def CBB_zero_def)
  moreover have "same_but {p, q} s s2"
    using pool buf at by (auto simp: same_but_def)
  moreover have "cbb_at s2 p = (cbb_at s p)\<lparr>cbb_child := Some q\<rparr>"
    by (simp add: at)
  ultimately show ?thesis by blast
qed

definition opens :: "(cbb_world, unit) prog \<Rightarrow> nat \<Rightarrow> nat \<Rightarrow> byte list \<Rightarrow> pending \<Rightarrow> bool" where
  "opens f p q bs k \<longleftrightarrow> (\<forall>s pre c fs. builder s pre p c fs \<longrightarrow> q < length (cbbs s) \<longrightarrow> q \<noteq> p \<longrightarrow>
     (\<exists>s' x. f s = (Ret (), s') \<and> closed c fs = Some x \<and> builder s' pre p (x @ bs) [(q, k, [])] \<and>
        same_but (insert q (insert p (fst ` set fs))) s s' \<and> cbb_at s' p = (cbb_at s p)\<lparr>cbb_child := Some q\<rparr>) \<or>
     (\<exists>s'. f s = (Fail, s') \<and> error s' \<and>
        (\<forall>x. closed c fs = Some x \<longrightarrow> \<not> room s (length (pre @ x @ bs @ replicate (pending_size k) 0)))))"

lemma opens_cases:
  assumes "opens f p q bs k" and "builder s pre p c fs" and "q < length (cbbs s)" and "q \<noteq> p"
  obtains s' x where "f s = (Ret (), s')" "closed c fs = Some x" "builder s' pre p (x @ bs) [(q, k, [])]"
      "same_but (insert q (insert p (fst ` set fs))) s s'" "cbb_at s' p = (cbb_at s p)\<lparr>cbb_child := Some q\<rparr>"
  | s' where "f s = (Fail, s')" "error s'"
      "\<forall>x. closed c fs = Some x \<longrightarrow> \<not> room s (length (pre @ x @ bs @ replicate (pending_size k) 0))"
  using assms unfolding opens_def by blast

lemma opensI:
  assumes f: "appends {} f p bs" and g: "appends {} g p (replicate (pending_size k) 0)"
    and g': "\<And>s pre x. builder s pre p x [] \<Longrightarrow> g' s = g s"
    and k: "0 < pending_size k" "pending_size k \<le> 3"
  shows "opens (seq f (\<lambda>s. seq g' (add_child p q (base_len s) (of_nat (pending_size k)) (k = Asn1)) s)) p q bs k"
    (is "opens ?f p q bs k")
  unfolding opens_def
proof (intro allI impI)
  fix s pre c fs
  assume b: "builder s pre p c fs" and q: "q < length (cbbs s)" "q \<noteq> p"
  let ?P = "insert q (insert p (fst ` set fs))"
  let ?z = "replicate (pending_size k) (0 :: byte)"
  let ?ok = "\<exists>s' x. ?f s = (Ret (), s') \<and> closed c fs = Some x \<and> builder s' pre p (x @ bs) [(q, k, [])] \<and>
      same_but ?P s s' \<and> cbb_at s' p = (cbb_at s p)\<lparr>cbb_child := Some q\<rparr>"
  let ?fail = "\<exists>s'. ?f s = (Fail, s') \<and> error s' \<and>
      (\<forall>x. closed c fs = Some x \<longrightarrow> \<not> room s (length (pre @ x @ bs @ ?z)))"
  have none: "{} \<subseteq> {..<length (cbbs s)}" "{} \<inter> insert p (fst ` set fs) = {}" by auto
  from f b none show "?ok \<or> ?fail"
  proof (cases rule: appends_cases)
    case (1 s1 x)
    have same1: "same_but ?P s s1"
      using 1(4) by (rule same_but_mono) auto
    let ?rest = "\<lambda>s'. seq g' (add_child p q (base_len s') (of_nat (pending_size k)) (k = Asn1)) s'"
    have run: "?f s = ?rest s1"
      by (rule bnd_Ret) (rule 1(1))
    have len: "base_len s1 = of_nat (length (pre @ x @ bs))"
      using 1(3) by (simp add: base_len_def builder_def)
    have none: "{} \<subseteq> {..<length (cbbs s1)}" "{} \<inter> insert p (fst ` set ([] :: frame list)) = {}" by auto
    from g 1(3) none show ?thesis
    proof (cases rule: appends_cases)
      case (1 s2 y)
      have same2: "same_but ?P s1 s2"
        using 1(4) by (rule same_but_mono) auto
      have y: "y = x @ bs" using 1(2) by simp
      have q2: "q < length (cbbs s2)"
        using q(1) same1 same2 by (simp add: same_but_def)
      from add_child_builder [OF 1(3) [unfolded y] q2 q(2) k] obtain s3 where
        s3: "add_child p q (of_nat (length (pre @ x @ bs))) (of_nat (pending_size k)) (k = Asn1) s2 = (Ret (), s3)"
          "builder s3 pre p (x @ bs) [(q, k, [])]" "same_but {p, q} s2 s3"
          "cbb_at s3 p = (cbb_at s2 p)\<lparr>cbb_child := Some q\<rparr>" by auto
      moreover from this(4) have at: "cbb_at s3 p = (cbb_at s p)\<lparr>cbb_child := Some q\<rparr>"
        using \<open>cbb_at s1 p = _\<close> 1(5) by simp
      have "same_but ?P s2 s3"
        using s3(3) by (rule same_but_mono) auto
      moreover have "g' s1 = (Ret (), s2)"
        using g' [OF \<open>builder s1 pre p (x @ bs) []\<close>] 1(1) by simp
      then have "?rest s1 = (Ret (), s3)"
        using s3(1) unfolding len by simp
      ultimately have ?ok
        using s3(2) at same1 same2 \<open>closed c fs = Some x\<close> unfolding run by (blast intro: same_but_trans)
      then show ?thesis ..
    next
      case (2 s2)
      then have "\<not> room s (length (pre @ x @ bs @ ?z))"
        using room_same_but [OF same1, of "length (pre @ x @ bs @ ?z)"] by (auto simp: ac_simps)
      moreover have "?f s = (Fail, s2)"
        unfolding run using g' [OF \<open>builder s1 pre p (x @ bs) []\<close>] 2(1) by simp
      ultimately have ?fail
        using 2(2) \<open>closed c fs = Some x\<close> by auto
      then show ?thesis ..
    qed
  next
    case (2 s1)
    have "\<not> room s (length (pre @ x @ bs @ ?z))" if "closed c fs = Some x" for x
      using 2(3) that room_mono [of s "length (pre @ x @ bs @ ?z)" "length (pre @ x @ bs)"] by auto
    moreover have "?f s = (Fail, s1)"
      using 2(1) by simp
    ultimately have ?fail
      using 2(2) by auto
    then show ?thesis ..
  qed
qed

lemma opens_length_prefixed:
  assumes "0 < n" and "n \<le> 3"
  shows "opens (cbb_add_length_prefixed p q (of_nat n)) p q [] (Len n)"
proof -
  have n: "unat (of_nat n :: byte) = n"
    using assms by (simp add: unat_of_nat take_bit_nat_eq_self)
  have idle: "cbb_buffer_add bs s = seq (CBB_flush p) (cbb_buffer_add bs) s"
    if "builder s pre p x []" for s pre x bs
    using flush_idle [OF that] by simp
  have "appends {} (seq (CBB_flush p) (cbb_buffer_add (replicate n 0))) p (replicate (pending_size (Len n)) 0)"
    using assms by (simp add: appends_buffer_add)
  from opensI [OF appends_CBB_flush this, of "cbb_buffer_add (replicate n 0)" q] idle assms show ?thesis
    by (simp add: cbb_add_length_prefixed_def n)
qed

lemma short_tag_u32:
  assumes "short_tag tg"
  shows "\<not> (ucast tg :: u32) > 0xff" and "(ucast tg :: u32) AND 0x1f \<noteq> 0x1f" and "ucast (ucast tg :: u32) = tg"
proof -
  show "\<not> (ucast tg :: u32) > 0xff"
    using unat_byte_less [of tg] by (simp add: word_less_nat_alt ucast_u32_byte)
  have "(ucast tg :: u32) AND ucast (0x1f :: byte) = ucast (tg AND 0x1f)"
    by (rule bit_word_eqI) (auto simp: bit_simps dest: bit_imp_le_length)
  moreover have "(ucast (tg AND 0x1f) :: u32) \<noteq> ucast (0x1f :: byte)"
    unfolding ucast_byte_u32_inj using assms by (simp only: short_tag_def not_False_eq_True)
  ultimately have "(ucast tg :: u32) AND ucast (0x1f :: byte) \<noteq> ucast (0x1f :: byte)"
    by (simp only: not_False_eq_True)
  then show "(ucast tg :: u32) AND 0x1f \<noteq> 0x1f" by simp
  show "ucast (ucast tg :: u32) = tg"
    by (rule bit_word_eqI) (auto simp: bit_simps)
qed

lemma opens_CBB_add_asn1:
  assumes "short_tag tg"
  shows "opens (CBB_add_asn1 p q (ucast tg)) p q [tg] Asn1"
proof -
  have "appends {} (seq (CBB_flush p) (CBB_add_u8 p tg)) p ([] @ [tg])"
    by (intro appends_seq appends_CBB_flush appends_CBB_add_u8)
  moreover have "appends {} (CBB_add_u8 p 0) p (replicate (pending_size Asn1) 0)"
    using appends_CBB_add_u8 [of p 0] by simp
  ultimately have "opens (seq (seq (CBB_flush p) (CBB_add_u8 p tg)) (\<lambda>s.
      seq (CBB_add_u8 p 0) (add_child p q (base_len s) (of_nat (pending_size Asn1)) (Asn1 = Asn1)) s))
      p q ([] @ [tg]) Asn1"
    by (rule opensI) simp_all
  moreover have "CBB_add_asn1 p q (ucast tg) = seq (seq (CBB_flush p) (CBB_add_u8 p tg)) (\<lambda>s.
      seq (CBB_add_u8 p 0) (add_child p q (base_len s) 1 True) s)"
    using short_tag_u32 [OF assms] by (simp add: CBB_add_asn1_def bnd_assoc)
  ultimately show ?thesis by simp
qed

text \<open>A child that is opened, filled and flushed appends its contents with tag and length.\<close>

lemma appends_child:
  assumes f: "opens f p q as k" and g: "appends C g q bs" and h: "length_prefix k (length bs) = Some h"
    and qC: "q \<notin> C"
  shows "appends (insert q C) (seq f (seq g (CBB_flush p))) p (as @ h @ bs)" (is "appends _ ?f p ?bs")
  unfolding appends_def
proof (intro allI impI)
  fix s pre c fs
  assume b: "builder s pre p c fs" and C: "insert q C \<subseteq> {..<length (cbbs s)}"
    "insert q C \<inter> insert p (fst ` set fs) = {}"
  let ?P = "insert q C \<union> insert p (fst ` set fs)"
  let ?ok = "\<exists>s' x. ?f s = (Ret (), s') \<and> closed c fs = Some x \<and> builder s' pre p (x @ ?bs) [] \<and>
      same_but ?P s s' \<and> cbb_at s' p = (cbb_at s p)\<lparr>cbb_child := None\<rparr>"
  let ?fail = "\<exists>s'. ?f s = (Fail, s') \<and> error s' \<and>
      (\<forall>x. closed c fs = Some x \<longrightarrow> \<not> room s (length (pre @ x @ ?bs)))"
  have size: "pending_size k \<le> length h"
    using h by (rule length_prefix_size)
  have q: "q < length (cbbs s)" "q \<noteq> p"
    using C by auto
  from f b q show "?ok \<or> ?fail"
  proof (cases rule: opens_cases)
    case (1 s1 x)
    have same1: "same_but ?P s s1"
      using 1(4) by (rule same_but_mono) auto
    have closed: "closed c fs = Some x" and p1: "cbb_at s1 p = (cbb_at s p)\<lparr>cbb_child := Some q\<rparr>"
      by (rule 1)+
    have run: "?f s = seq g (CBB_flush p) s1"
      by (rule bnd_Ret) (rule 1(1))
    have C1: "C \<subseteq> {..<length (cbbs s1)}" "C \<inter> insert p (fst ` set ([] @ [(q, k, [] :: byte list)])) = {}"
      using C qC same1 by (auto simp: same_but_def)
    have b1: "builder s1 pre p (x @ as) ([] @ [(q, k, [])])"
      using 1(3) by simp
    from appends_inside [OF g b1 C1] show ?thesis
    proof (elim disjE exE conjE)
      fix s2 y
      assume s2: "g s1 = (Ret (), s2)" "closed [] [] = Some y"
        "builder s2 pre p (x @ as) ([] @ [(q, k, y @ bs)])" "same_but (C \<union> insert q (fst ` set ([] :: frame list))) s1 s2"
      then have b2: "builder s2 pre p (x @ as) [(q, k, bs)]" by simp
      have same2: "same_but ?P s1 s2"
        using s2(4) by (rule same_but_mono) auto
      have p2: "cbb_at s2 p = cbb_at s1 p"
        using s2(4) C q(2) by (auto simp: same_but_def)
      have run2: "seq g (CBB_flush p) s1 = CBB_flush p s2"
        by (rule bnd_Ret) (rule s2(1))
      have none: "{} \<subseteq> {..<length (cbbs s2)}" "{} \<inter> insert p (fst ` set [(q, k, bs)]) = {}" by auto
      from appends_CBB_flush b2 none show ?thesis
      proof (cases rule: appends_cases)
        case (1 s3 z)
        have "same_but ?P s2 s3"
          using 1(4) by (rule same_but_mono) auto
        with 1 same1 same2 closed p1 p2 h have ?ok
          unfolding run run2 by (auto intro: same_but_trans)
        then show ?thesis ..
      next
        case (2 s3)
        then have "\<not> room s2 (length (pre @ x @ ?bs))"
          using h by simp
        then have "\<not> room s (length (pre @ x @ ?bs))"
          using room_same_but [OF same2] room_same_but [OF same1] by blast
        with 2(1,2) closed have ?fail
          unfolding run run2 by auto
        then show ?thesis ..
      qed
    next
      fix s2
      assume s2: "g s1 = (Fail, s2)" "error s2" "\<forall>y. closed [] [] = Some y \<longrightarrow>
        \<not> room s1 (length (pre @ raw (x @ as) ([] @ [(q, k, y @ bs)])))"
      then have "\<not> room s1 (length (pre @ x @ ?bs))"
        using room_mono [of s1 "length (pre @ x @ ?bs)" "length (pre @ raw (x @ as) [(q, k, bs)])"] size
        by auto
      then have "\<not> room s (length (pre @ x @ ?bs))"
        using room_same_but [OF same1] by blast
      with s2(1,2) closed have ?fail
        unfolding run by auto
      then show ?thesis ..
    qed
  next
    case (2 s1)
    have "\<not> room s (length (pre @ x @ ?bs))" if "closed c fs = Some x" for x
      using 2(3) that size
        room_mono [of s "length (pre @ x @ ?bs)" "length (pre @ x @ as @ replicate (pending_size k) 0)"]
      by auto
    moreover have "?f s = (Fail, s1)"
      using 2(1) by simp
    ultimately have ?fail
      using 2(2) by auto
    then show ?thesis ..
  qed
qed

section \<open>Integers\<close>

lemma be_bytes_Suc: "be_bytes (Suc n) w = ucast (drop_bit (8 * n) w) # be_bytes n w"
  by (simp add: be_bytes_def le_bytes_def)

lemma be_nat_Cons: "be_nat (b # bs) = unat b * 256 ^ length bs + be_nat bs"
  by (induction bs rule: rev_induct) (simp_all add: be_nat_def algebra_simps)

text \<open>The bytes that \<open>add_uint64_bytes\<close> adds when it has not started.\<close>

fun uint64_bytes :: "nat \<Rightarrow> u64 \<Rightarrow> byte list" where
  "uint64_bytes 0 v = [0]"
| "uint64_bytes (Suc n) v =
     (let b = ucast (drop_bit (8 * n) v) in
      if b = 0 then uint64_bytes n v else (if b AND 0x80 \<noteq> 0 then [0] else []) @ b # be_bytes n v)"

lemma top_byte:
  assumes "unat (v :: u64) < 256 ^ Suc n"
  shows "unat (ucast (drop_bit (8 * n) v) :: byte) = unat v div 256 ^ n"
proof -
  have "unat (drop_bit (8 * n) v) = unat v div 256 ^ n"
    by (simp add: unat_drop_bit_div power_mult)
  moreover have "unat v div 256 ^ n < 256"
    using assms by (simp add: less_mult_imp_div_less mult.commute)
  ultimately show ?thesis
    by (simp add: unsigned_ucast_eq take_bit_nat_eq_self)
qed

lemma uint64_bytes_eq:
  assumes "n \<le> 8" and "unat v < 256 ^ n"
  shows "uint64_bytes n v = der_uint (unat v)"
proof -
  have "be_nat (uint64_bytes n v) = unat v \<and> uint64_bytes n v = der_uint (be_nat (uint64_bytes n v))"
    using assms
  proof (induction n)
    case 0
    then show ?case
      unfolding der_uint_iff by simp
  next
    case (Suc n)
    let ?b = "ucast (drop_bit (8 * n) v) :: byte"
    have b: "unat ?b = unat v div 256 ^ n"
      by (rule top_byte) (rule Suc.prems)
    show ?case
    proof (cases "?b = 0")
      case True
      then have "unat v div 256 ^ n = 0"
        using b by simp
      then have "unat v < 256 ^ n"
        by (simp add: div_eq_0_iff)
      moreover have "uint64_bytes (Suc n) v = uint64_bytes n v"
        using True by (simp add: Let_def)
      ultimately show ?thesis
        using Suc.IH Suc.prems(1) by (metis Suc_leD)
    next
      case False
      have "be_nat (be_bytes (Suc n) v) = unat v"
        using Suc.prems by (intro be_nat_be_bytes) simp_all
      then have "be_nat (?b # be_bytes n v) = unat v"
        by (simp only: be_bytes_Suc)
      moreover have "be_nat (0 # xs) = be_nat xs" for xs
        by (rule be_nat_leading_zero)
      ultimately have n: "be_nat (uint64_bytes (Suc n) v) = unat v"
        using False by (simp add: Let_def)
      have "uint64_bytes (Suc n) v = der_uint (be_nat (uint64_bytes (Suc n) v))"
        unfolding der_uint_iff using False by (simp add: Let_def nth_append)
      with n show ?thesis by blast
    qed
  qed
  then show ?thesis by metis
qed

lemma bnd_ret_right [simp]: "bnd f ret = f"
  by (auto simp: bnd_def fun_eq_iff split: prod.splits res.splits)

abbreviation (input) last_zero :: "nat \<Rightarrow> bool \<Rightarrow> (cbb_world, unit) prog" where
  "last_zero child started \<equiv> (if \<not> started then CBB_add_u8 child 0 else ret ())"

lemma appends_started:
  assumes "appends {} f child as"
  shows "appends {} (seq f (bnd (add_uint64_bytes n child v True) (last_zero child))) child (as @ be_bytes n v)"
  using assms
proof (induction n arbitrary: f as)
  case 0
  then show ?case by (simp add: be_bytes_def le_bytes_def del: ret_apply)
next
  case (Suc n)
  let ?b = "ucast (drop_bit (8 * n) v) :: byte"
  have "appends {} (seq (seq f (CBB_add_u8 child ?b))
      (bnd (add_uint64_bytes n child v True) (last_zero child))) child ((as @ [?b]) @ be_bytes n v)"
    by (intro Suc.IH appends_seq Suc.prems appends_CBB_add_u8)
  then show ?case
    by (simp add: bnd_assoc be_bytes_Suc Let_def)
qed

lemma appends_uint64_bytes:
  "appends {} (bnd (add_uint64_bytes n child v False) (last_zero child)) child (uint64_bytes n v)"
proof (induction n)
  case 0
  then show ?case by (simp add: appends_CBB_add_u8 del: ret_apply)
next
  case (Suc n)
  let ?b = "ucast (drop_bit (8 * n) v) :: byte"
  have "appends {} (seq (CBB_add_u8 child ?b)
      (bnd (add_uint64_bytes n child v True) (last_zero child))) child ([?b] @ be_bytes n v)"
    and "appends {} (seq (seq (CBB_add_u8 child 0) (CBB_add_u8 child ?b))
      (bnd (add_uint64_bytes n child v True) (last_zero child))) child (([0] @ [?b]) @ be_bytes n v)"
    by (intro appends_started appends_seq appends_CBB_add_u8)+
  with Suc show ?case
    by (simp add: bnd_assoc Let_def)
qed

lemma appends_CBB_add_asn1_uint64:
  "appends {child} (CBB_add_asn1_uint64 child p v) p (der 0x02 (der_uint (unat v)))"
proof -
  have bytes: "uint64_bytes 8 v = der_uint (unat v)"
    using unat_u64_less [of v] by (intro uint64_bytes_eq) simp_all
  have "length (der_uint (unat v)) \<le> 9"
    by (rule length_der_uint) (rule unat_u64_less)
  then have "length_prefix Asn1 (length (uint64_bytes 8 v)) = Some (der_len (length (der_uint (unat v))))"
    by (simp add: bytes)
  from appends_child [OF opens_CBB_add_asn1 [OF short_tags(2), where p = p and q = child] appends_uint64_bytes this]
  show ?thesis
    by (simp add: CBB_add_asn1_uint64_def bnd_assoc der_def bytes del: ret_apply)
qed

section \<open>From creation to the finished string\<close>

lemma init_builder:
  assumes "p < length (cbbs s)" and "\<forall>m. realloc_ok s m"
  obtains s' where "CBB_init p n True s = (Ret (), s')" "builder s' [] p [] []" "is_top_level (cbb_at s' p)"
    "can_resize s'" "realloc_ok s' = realloc_ok s" "length (cbbs s') = length (cbbs s)"
proof -
  let ?s = "set_cbb p CBB_zero s"
  let ?s' = "set_cbb p ((cbb_at ?s p)\<lparr>cbb_base := True, is_top_level := True\<rparr>)
       (?s\<lparr>buf := [], cap := n, can_resize := True, error := False\<rparr>)"
  have run: "CBB_init p n True s = (Ret (), ?s')"
    using assms by (simp add: CBB_init_def cbb_init_def Let_def)
  have at: "cbb_at ?s' p = CBB_zero\<lparr>cbb_base := True, is_top_level := True\<rparr>"
    using assms(1) by (simp add: cbb_at_set_cbb)
  show thesis
    by (rule that [OF run]) (use assms(1) at in \<open>auto simp: builder_def CBB_zero_def\<close>)
qed

lemma finish_builder:
  assumes b: "builder s [] p c fs" and top: "is_top_level (cbb_at s p)"
    and closed: "closed c fs = Some x" and room: "room s (length x)"
  shows "fst (CBB_finish p True s) = Ret x"
proof -
  have none: "{} \<subseteq> {..<length (cbbs s)}" "{} \<inter> insert p (fst ` set fs) = {}" by auto
  from appends_CBB_flush b none show ?thesis
  proof (cases rule: appends_cases)
    case (1 s1 y)
    then have "buf s1 = x" and "is_top_level (cbb_at s1 p)"
      using closed top by (auto simp: builder_def)
    then show ?thesis
      using 1(1) top by (simp add: CBB_finish_def CBB_cleanup_def set_cbb_def bnd_def)
  next
    case (2 s1)
    then show ?thesis using closed room by simp
  qed
qed

text \<open>A run of appending operations between creation and finish gives the bytes they append.\<close>

lemma build_and_finish:
  assumes f: "appends C f p bs" and p: "p < length (cbbs s)" and C: "C \<subseteq> {..<length (cbbs s)}" "p \<notin> C"
    and mem: "\<forall>m. realloc_ok s m" and len: "length bs < 2 ^ 64"
  shows "fst (bnd (CBB_init p n True) (\<lambda>_. bnd f (\<lambda>_. CBB_finish p True)) s) = Ret bs"
proof -
  from init_builder [OF p mem] obtain s1 where
    s1: "CBB_init p n True s = (Ret (), s1)" "builder s1 [] p [] []" "is_top_level (cbb_at s1 p)"
      "can_resize s1" "realloc_ok s1 = realloc_ok s" "length (cbbs s1) = length (cbbs s)" .
  have room: "room s1 (length bs)"
    using s1 mem len by (simp add: room_def)
  have C1: "C \<subseteq> {..<length (cbbs s1)}" "C \<inter> insert p (fst ` set ([] :: frame list)) = {}"
    using C s1(6) by auto
  from f s1(2) C1 show ?thesis
  proof (cases rule: appends_cases)
    case (1 s2 x)
    have "fst (CBB_finish p True s2) = Ret bs"
      using 1(3,5) s1(3) room room_same_but [OF 1(4)] 1(2)
      by (intro finish_builder) auto
    then show ?thesis
      using s1(1) 1(1) by simp
  next
    case (2 s2)
    then show ?thesis using room by simp
  qed
qed

section \<open>What the builder guarantees\<close>

text \<open>
  C23: an operation on any open element of a builder closes the elements open above it, each with
  its length in front, and appends to that element; the elements below are untouched. Here for
  \<open>CBB_add_bytes\<close>: it succeeds whenever no closed element is too long for its length prefix and
  there is room, and the pool objects outside the closed elements do not change.
\<close>

theorem add_bytes_refines:
  assumes "builder s pre p c (fs @ (r, k, d) # gs)" and "closed d gs = Some y" and "length data < 2 ^ 64"
    and "room s (length (pre @ raw c (fs @ [(r, k, y @ data)])))"
  shows "\<exists>s'. CBB_add_bytes r data s = (Ret (), s') \<and> builder s' pre p c (fs @ [(r, k, y @ data)]) \<and>
    same_but (insert r (fst ` set gs)) s s'"
  using appends_inside [OF appends_CBB_add_bytes [OF assms(3), of r] assms(1)] assms(2,4) by auto

text \<open>
  C24: flushing a builder never yields a wrong length. When an open element is too long for its
  length prefix, or the buffer is fixed and the closed bytes do not fit, \<open>CBB_flush\<close> fails and
  marks the buffer. After that every operation on any builder of the buffer that begins with a
  flush fails too and changes nothing: \<open>CBB_flush\<close> itself, \<open>CBB_finish\<close>, the additions of bytes, space
  and numbers, \<open>CBB_reserve\<close>, the length-prefixed and ASN.1 children, ASN.1 numbers and OIDs.
  (\<open>CBB_did_write\<close> and \<open>CBB_discard_child\<close> do not flush and do not look at the mark.)
\<close>

theorem flush_error_is_kept:
  assumes "builder s pre p c fs" and "short_tag tg"
    and "closed c fs = None \<or> (\<exists>x. closed c fs = Some x \<and> \<not> can_resize s \<and> unat (cap s) < length (pre @ x))"
  shows "\<exists>s'. CBB_flush p s = (Fail, s') \<and> error s' \<and> CBB_flush r s' = (Fail, s') \<and>
    CBB_finish r wanted s' = (Fail, s') \<and>
    CBB_add_bytes r data s' = (Fail, s') \<and> CBB_add_space r data s' = (Fail, s') \<and>
    CBB_reserve r n s' = (Fail, s') \<and>
    CBB_add_u8 r v8 s' = (Fail, s') \<and> CBB_add_u16 r v16 s' = (Fail, s') \<and>
    CBB_add_u24 r v32 s' = (Fail, s') \<and> CBB_add_u32 r v32 s' = (Fail, s') \<and>
    CBB_add_u8_length_prefixed r q s' = (Fail, s') \<and> CBB_add_u16_length_prefixed r q s' = (Fail, s') \<and>
    CBB_add_u24_length_prefixed r q s' = (Fail, s') \<and>
    CBB_add_asn1 r q (ucast tg) s' = (Fail, s') \<and> CBB_add_asn1_uint64 q r v s' = (Fail, s') \<and>
    CBB_add_asn1_oid_from_text r oid s' = (Fail, s')"
proof -
  have none: "{} \<subseteq> {..<length (cbbs s)}" "{} \<inter> insert p (fst ` set fs) = {}" by auto
  from appends_CBB_flush assms(1) none show ?thesis
  proof (cases rule: appends_cases)
    case (1 s' x)
    then have "length (pre @ x) \<le> unat (cap s')" and "\<not> can_resize s \<Longrightarrow> cap s' = cap s"
      by (auto simp: builder_def same_but_def)
    with 1(2) assms(3) have False by auto
    then show ?thesis ..
  next
    case (2 s')
    then have flush: "CBB_flush r s' = (Fail, s')" for r
      by (simp add: CBB_flush_def Let_def)
    have tag: "\<not> (ucast tg :: u32) > 0xff" "(ucast tg :: u32) AND 0x1f \<noteq> 0x1f"
      using assms(2) by (simp_all add: short_tag_u32)
    then have asn1: "CBB_add_asn1 r q (ucast tg) s' = (Fail, s')" for r q
      by (simp add: CBB_add_asn1_def flush)
    have int: "CBB_add_asn1_uint64 q r v s' = (Fail, s')"
      by (simp add: CBB_add_asn1_uint64_def CBB_add_asn1_def flush)
    show ?thesis
      by (intro exI [of _ s'] conjI 2(1,2) flush asn1 int)
        (simp_all add: flush CBB_finish_def CBB_add_bytes_def CBB_add_space_def CBB_reserve_def
          CBB_add_u8_def CBB_add_u16_def CBB_add_u24_def CBB_add_u32_def CBB_add_u8_length_prefixed_def
          CBB_add_u16_length_prefixed_def CBB_add_u24_length_prefixed_def cbb_add_length_prefixed_def
          CBB_add_asn1_oid_from_text_def)
  qed
qed

definition demo_world :: cbb_world where
  "demo_world = \<lparr>buf = [], cap = 0, can_resize = True, error = False,
     cbbs = [CBB_zero, CBB_zero, CBB_zero], realloc_ok = (\<lambda>_. True)\<rparr>"

definition demo_open :: cbb_world where
  "demo_open = \<lparr>buf = [7, 0, 1, 2], cap = 4, can_resize = False, error = False,
     cbbs = [CBB_zero\<lparr>cbb_base := True, cbb_child := Some 1\<rparr>,
       CBB_zero\<lparr>cbb_base := True, cbb_offset := 1, pending_len_len := 1\<rparr>, CBB_zero],
     realloc_ok = (\<lambda>_. False)\<rparr>"

lemma demo_open_builder: "builder demo_open [] 0 [7] [(1, Len 1, [1, 2])]"
  by (simp add: builder_def demo_open_def cbb_at_def pending_ok_def CBB_zero_def)

lemma add_bytes_refines_witness:
  "\<exists>s'. CBB_add_bytes 1 [] demo_open = (Ret (), s') \<and> builder s' [] 0 [7] ([] @ [(1, Len 1, [1, 2] @ [])]) \<and>
    same_but (insert 1 (fst ` set ([] :: frame list))) demo_open s'"
proof (rule add_bytes_refines)
  show "builder demo_open [] 0 [7] ([] @ [(1, Len 1, [1, 2])])"
    using demo_open_builder by simp
  show "room demo_open (length ([] @ raw [7] ([] @ [(1, Len 1, [1, 2] @ [])])))"
    by (simp add: room_def demo_open_def)
qed simp_all

text \<open>The same with nothing in the buffer but too small a fixed buffer for the closed bytes.\<close>

definition demo_full :: cbb_world where
  "demo_full = demo_open\<lparr>buf := 7 # 0 # replicate 256 0, cap := 258\<rparr>"

lemma flush_error_is_kept_witness:
  "\<exists>s'. CBB_flush 0 demo_full = (Fail, s') \<and> error s' \<and> CBB_flush 1 s' = (Fail, s') \<and>
    CBB_finish 1 True s' = (Fail, s') \<and>
    CBB_add_bytes 1 [5] s' = (Fail, s') \<and> CBB_add_space 1 [5] s' = (Fail, s') \<and>
    CBB_reserve 1 8 s' = (Fail, s') \<and>
    CBB_add_u8 1 1 s' = (Fail, s') \<and> CBB_add_u16 1 2 s' = (Fail, s') \<and>
    CBB_add_u24 1 3 s' = (Fail, s') \<and> CBB_add_u32 1 3 s' = (Fail, s') \<and>
    CBB_add_u8_length_prefixed 1 2 s' = (Fail, s') \<and> CBB_add_u16_length_prefixed 1 2 s' = (Fail, s') \<and>
    CBB_add_u24_length_prefixed 1 2 s' = (Fail, s') \<and>
    CBB_add_asn1 1 2 (ucast (0x30 :: byte)) s' = (Fail, s') \<and> CBB_add_asn1_uint64 2 1 5 s' = (Fail, s') \<and>
    CBB_add_asn1_oid_from_text 1 [0x31] s' = (Fail, s')"
  by (rule flush_error_is_kept [where pre = "[]" and c = "[7]" and fs = "[(1, Len 1, replicate 256 0)]"])
    (simp_all add: builder_def demo_full_def demo_open_def cbb_at_def pending_ok_def CBB_zero_def short_tag_def)

text \<open>
  C25: an element that is built with \<open>CBB_init\<close>, \<open>CBB_add_asn1\<close>, \<open>CBB_add_bytes\<close> into the child and
  \<open>CBB_finish\<close> is the DER encoding of its contents, and \<open>CBS_get_asn1\<close> gives them back.
\<close>

theorem build_parse_element:
  assumes "p < length (cbbs s)" and "q < length (cbbs s)" and "p \<noteq> q" and "\<forall>m. realloc_ok s m"
    and "short_tag tg" and "length c \<le> 0xfffffffe"
  shows "fst (bnd (CBB_init p n True) (\<lambda>_. bnd (seq (CBB_add_asn1 p q (ucast tg))
      (seq (CBB_add_bytes q c) (CBB_flush p))) (\<lambda>_. CBB_finish p True)) s) = Ret (der tg c) \<and>
    CBS_get_asn1 (ucast tg) (der tg c @ rest) = (Ret c, rest)"
proof
  have h: "length_prefix Asn1 (length c) = Some (der_len (length c))"
    using assms(6) by simp
  have "appends {} (CBB_add_bytes q c) q c"
    using assms(6) by (intro appends_CBB_add_bytes) simp
  from appends_child [OF opens_CBB_add_asn1 [OF assms(5), where p = p and q = q] this h]
  have f: "appends {q} (seq (CBB_add_asn1 p q (ucast tg)) (seq (CBB_add_bytes q c) (CBB_flush p))) p (der tg c)"
    by (simp add: der_def)
  have "length (der tg c) < 2 ^ 64"
    using header_size_le [of "length c"] assms(6) by (simp add: length_der)
  with f show "fst (bnd (CBB_init p n True) (\<lambda>_. bnd (seq (CBB_add_asn1 p q (ucast tg))
      (seq (CBB_add_bytes q c) (CBB_flush p))) (\<lambda>_. CBB_finish p True)) s) = Ret (der tg c)"
    using assms(1-4) by (intro build_and_finish) auto
  show "CBS_get_asn1 (ucast tg) (der tg c @ rest) = (Ret c, rest)"
    using assms(5,6) by (intro CBS_get_asn1_der) simp_all
qed

lemma build_parse_element_witness:
  "fst (bnd (CBB_init 0 0 True) (\<lambda>_. bnd (seq (CBB_add_asn1 0 1 (ucast (0x30 :: byte)))
      (seq (CBB_add_bytes 1 [1, 2, 3]) (CBB_flush 0))) (\<lambda>_. CBB_finish 0 True)) demo_world) =
    Ret (der 0x30 [1, 2, 3]) \<and>
   CBS_get_asn1 (ucast (0x30 :: byte)) (der 0x30 [1, 2, 3] @ [9]) = (Ret [1, 2, 3], [9])"
  by (rule build_parse_element) (simp_all add: demo_world_def short_tag_def)

text \<open>
  C26: round trip of numbers: what \<open>CBB_add_asn1_uint64\<close> writes for any 64-bit number is what
  \<open>CBS_get_asn1_uint64\<close> reads that number from, and it uses the whole of it.
\<close>

theorem asn1_uint64_round_trip:
  assumes "p < length (cbbs s)" and "q < length (cbbs s)" and "p \<noteq> q" and "\<forall>m. realloc_ok s m"
  shows "\<exists>bs. fst (bnd (CBB_init p n True) (\<lambda>_. bnd (CBB_add_asn1_uint64 q p v)
      (\<lambda>_. CBB_finish p True)) s) = Ret bs \<and> CBS_get_asn1_uint64 (bs @ rest) = (Ret v, rest)"
proof (intro exI conjI)
  have "length (der_uint (unat v)) \<le> 9"
    by (rule length_der_uint) (rule unat_u64_less)
  then have "length (der 0x02 (der_uint (unat v))) < 2 ^ 64"
    using header_size_le [of "length (der_uint (unat v))"] by (simp add: length_der)
  then show "fst (bnd (CBB_init p n True) (\<lambda>_. bnd (CBB_add_asn1_uint64 q p v)
      (\<lambda>_. CBB_finish p True)) s) = Ret (der 0x02 (der_uint (unat v)))"
    using assms by (intro build_and_finish [OF appends_CBB_add_asn1_uint64]) auto
  show "CBS_get_asn1_uint64 (der 0x02 (der_uint (unat v)) @ rest) = (Ret v, rest)"
    by (simp add: uint64.get_enc)
qed

lemma asn1_uint64_round_trip_witness:
  "\<exists>bs. fst (bnd (CBB_init 0 8 True) (\<lambda>_. bnd (CBB_add_asn1_uint64 1 0 300)
      (\<lambda>_. CBB_finish 0 True)) demo_world) = Ret bs \<and> CBS_get_asn1_uint64 (bs @ [7]) = (Ret 300, [7])"
  by (rule asn1_uint64_round_trip) (simp_all add: demo_world_def)

end
