(* ===== verification/Cbb_Oid.thy ===== *)
theory Cbb_Oid
  imports Cbb_Spec
begin

text \<open>
  Correctness of the conversion of a dotted-decimal object identifier to its DER contents
  (\<open>CBB_add_asn1_oid_from_text\<close>): the base-128 digits and the decimal numbers.
\<close>

unbundle bit_operations_syntax

section \<open>Object identifiers\<close>

text \<open>
  A number in base 128, all digits but the last one with the high bit set, and a number in decimal.
\<close>

fun base128_high :: "nat \<Rightarrow> byte list" where
  "base128_high n = (if n = 0 then [] else base128_high (n div 128) @ [of_nat (128 + n mod 128)])"

declare base128_high.simps [simp del]

definition base128 :: "nat \<Rightarrow> byte list" where
  "base128 n = base128_high (n div 128) @ [of_nat (n mod 128)]"

fun decimal :: "nat \<Rightarrow> byte list" where
  "decimal n = (if n < 10 then [] else decimal (n div 10)) @ [of_nat (48 + n mod 10)]"

declare decimal.simps [simp del]

definition oid_bytes :: "nat \<Rightarrow> nat \<Rightarrow> nat list \<Rightarrow> byte list" where
  "oid_bytes a b cs = base128 (40 * a + b) @ concat (map base128 cs)"

fun oid_text :: "nat list \<Rightarrow> byte list" where
  "oid_text [] = []"
| "oid_text [a] = decimal a"
| "oid_text (a # cs) = decimal a @ 0x2e # oid_text cs"

text \<open>The loop of \<open>add_base128_integer\<close> writes the digits it has counted.\<close>

definition base128_digit :: "u32 \<Rightarrow> nat \<Rightarrow> byte" where
  "base128_digit v i =
     (let b = ucast (drop_bit (7 * i) v AND 0x7f) in if i \<noteq> 0 then b OR 0x80 else b)"

lemma base128_digit_eq:
  "base128_digit v i = of_nat ((if i \<noteq> 0 then 128 else 0) + unat (drop_bit (7 * i) v) mod 128)"
proof -
  define w where "w = drop_bit (7 * i) v"
  have mask: "(ucast (w AND 0x7f) :: byte) = ucast w AND 0x7f"
    by (rule bit_word_eqI, drule byte_bit_cases, elim disjE) (simp_all add: bit_simps)
  have "w AND 0x7f = take_bit 7 w"
    by (simp add: take_bit_eq_mask mask_eq_exp_minus_1)
  then have "unat (w AND 0x7f) = take_bit 7 (unat w)"
    by (simp only: unsigned_take_bit_eq)
  then have n: "unat (w AND 0x7f) = unat w mod 128"
    by (simp add: take_bit_eq_mod)
  have b: "(ucast (w AND 0x7f) :: byte) = of_nat (unat w mod 128)"
    unfolding n [symmetric] by simp
  have "(ucast (w AND 0x7f) :: byte) OR 0x80 = ucast (w AND 0x7f) + 0x80"
    unfolding mask by (rule disjunctive_add_eq_or [symmetric])
      (rule bit_word_eqI, drule byte_bit_cases, elim disjE, simp_all add: bit_simps)
  then show ?thesis
    unfolding base128_digit_def Let_def w_def [symmetric] b by (simp add: add.commute)
qed

lemma base128_high_len:
  "map (\<lambda>i. of_nat (128 + unat (drop_bit (7 * i) v) mod 128)) (rev [0..<base128_len v]) =
    base128_high (unat v)"
proof (induction v rule: base128_len.induct)
  case (1 v)
  show ?case
  proof (cases "v > 0")
    case True
    let ?m = "base128_len (drop_bit 7 v)"
    have "base128_len v = Suc ?m"
      using True by (subst base128_len.simps) simp
    moreover have "rev [0..<Suc ?m] = map Suc (rev [0..<?m]) @ [0]"
      by (simp add: upt_conv_Cons [of 0] rev_map map_Suc_upt [symmetric] del: upt_Suc)
    moreover have "unat (drop_bit 7 v) = unat v div 128"
      by (simp add: unat_drop_bit_div)
    moreover have "unat v \<noteq> 0"
      using True by (simp add: unat_gt_0)
    ultimately show ?thesis
      using 1 [OF True] by (subst base128_high.simps) (simp add: comp_def add.commute del: upt_Suc)
  next
    case False
    then have "v = 0" by (simp add: word_gt_0)
    then show ?thesis
      by (simp add: base128_len.simps [of 0] base128_high.simps [of 0])
  qed
qed

lemma add_base128_bytes_Suc:
  "add_base128_bytes (Suc i) p v = seq (CBB_add_u8 p (base128_digit v i)) (add_base128_bytes i p v)"
  by (simp add: base128_digit_def Let_def)

declare add_base128_bytes.simps(2) [simp del]

lemma appends_base128_bytes:
  "appends {} f p as \<Longrightarrow>
    appends {} (seq f (add_base128_bytes n p v)) p (as @ map (base128_digit v) (rev [0..<n]))"
proof (induction n arbitrary: f as)
  case 0
  then show ?case by (simp del: ret_apply)
next
  case (Suc n)
  have "appends {} (seq (seq f (CBB_add_u8 p (base128_digit v n))) (add_base128_bytes n p v)) p
      ((as @ [base128_digit v n]) @ map (base128_digit v) (rev [0..<n]))"
    by (intro Suc.IH appends_seq Suc.prems appends_CBB_add_u8)
  then show ?case
    by (simp add: bnd_assoc add_base128_bytes_Suc)
qed

lemma base128_digits:
  "map (base128_digit v) (rev [0..<max 1 (base128_len v)]) = base128 (unat v)"
proof -
  let ?m = "base128_len (drop_bit 7 v)"
  have m: "max 1 (base128_len v) = Suc ?m"
    by (cases "v > 0") (simp_all add: base128_len.simps [of v] base128_len.simps [of 0] word_gt_0)
  have "rev [0..<Suc ?m] = map Suc (rev [0..<?m]) @ [0]"
    by (simp add: upt_conv_Cons [of 0] rev_map map_Suc_upt [symmetric] del: upt_Suc)
  then show ?thesis
    unfolding m base128_def
    using base128_high_len [of "drop_bit 7 v"]
    by (simp add: base128_digit_eq comp_def add.commute unat_drop_bit_div del: upt_Suc)
qed

lemma appends_add_base128_integer: "appends {} (add_base128_integer p v) p (base128 (unat v))"
proof -
  let ?n = "max 1 (base128_len v)"
  obtain m where m: "?n = Suc m" by (cases ?n) auto
  have "?n = (if base128_len v = 0 then 1 else base128_len v)"
    by simp
  then have "add_base128_integer p v = add_base128_bytes ?n p v"
    by (simp only: add_base128_integer_def Let_def)
  also have "\<dots> = seq (CBB_add_u8 p (base128_digit v m)) (add_base128_bytes m p v)"
    by (simp only: m add_base128_bytes_Suc)
  finally have "add_base128_integer p v = seq (CBB_add_u8 p (base128_digit v m)) (add_base128_bytes m p v)" .
  moreover have "appends {} (seq (CBB_add_u8 p (base128_digit v m)) (add_base128_bytes m p v)) p
      ([base128_digit v m] @ map (base128_digit v) (rev [0..<m]))"
    by (intro appends_base128_bytes appends_CBB_add_u8)
  moreover have "[base128_digit v m] @ map (base128_digit v) (rev [0..<m]) = base128 (unat v)"
    unfolding base128_digits [symmetric] m by simp
  ultimately show ?thesis by simp
qed

text \<open>Reading decimal numbers.\<close>

definition digit :: "byte \<Rightarrow> bool" where
  "digit b \<longleftrightarrow> 48 \<le> unat b \<and> unat b \<le> 57"

definition digits_value :: "byte list \<Rightarrow> nat" where
  "digits_value ds = foldl (\<lambda>n d. n * 10 + (unat d - 48)) 0 ds"

lemma digits_value_snoc [simp]: "digits_value (ds @ [d]) = digits_value ds * 10 + (unat d - 48)"
  by (simp add: digits_value_def)

lemma digits_value_single [simp]: "digits_value [d] = unat d - 48"
  by (simp add: digits_value_def)

lemma digits_value_Nil [simp]: "digits_value [] = 0"
  by (simp add: digits_value_def)

text \<open>A decimal text without leading zeros is the decimal form of its value.\<close>

lemma digit_of_nat: "n < 10 \<Longrightarrow> digit (of_nat (48 + n)) \<and> unat (of_nat (48 + n) :: byte) - 48 = n"
  by (simp add: digit_def unat_of_nat take_bit_nat_eq_self del: of_nat_add)

lemma of_digit: "digit d \<Longrightarrow> of_nat (48 + (unat d - 48)) = d"
  by (simp add: digit_def)

lemma decimal_value: "digits_value (decimal n) = n"
proof (induction n rule: decimal.induct)
  case (1 n)
  then show ?case
    using digit_of_nat [of "n mod 10"] by (subst decimal.simps) (auto simp: not_less)
qed

lemma decimal_digits: "decimal n \<noteq> [] \<and> (\<forall>d\<in>set (decimal n). digit d)"
proof (induction n rule: decimal.induct)
  case (1 n)
  then show ?case
    using digit_of_nat [of "n mod 10"] by (subst (1 2) decimal.simps) auto
qed

lemma decimal_hd: "0 < n \<Longrightarrow> hd (decimal n) \<noteq> 48"
proof (induction n rule: decimal.induct)
  case (1 n)
  show ?case
  proof (cases "n < 10")
    case True
    then have "unat (of_nat (48 + n) :: byte) \<noteq> unat (48 :: byte)"
      using "1.prems" by (simp add: unat_of_nat take_bit_nat_eq_self del: of_nat_add)
    then have "(of_nat (48 + n) :: byte) \<noteq> 48" by metis
    then show ?thesis
      using True by (subst decimal.simps) simp
  next
    case False
    moreover have "decimal (n div 10) \<noteq> []"
      using decimal_digits by simp
    ultimately show ?thesis
      using 1 by (subst decimal.simps) simp
  qed
qed

lemma digits_value_pos: "ds \<noteq> [] \<Longrightarrow> (\<forall>d\<in>set ds. digit d) \<Longrightarrow> hd ds \<noteq> 48 \<Longrightarrow> 0 < digits_value ds"
proof (induction ds rule: rev_induct)
  case (snoc d ds)
  show ?case
  proof (cases "ds = []")
    case True
    with snoc.prems have "48 \<le> unat d" "unat d \<noteq> unat (48 :: byte)"
      by (auto simp: digit_def word_unat_eq_iff)
    with True show ?thesis by simp
  qed (use snoc in simp)
qed simp

lemma decimal_unique:
  "ds \<noteq> [] \<Longrightarrow> (\<forall>d\<in>set ds. digit d) \<Longrightarrow> hd ds \<noteq> 48 \<or> length ds = 1 \<Longrightarrow> decimal (digits_value ds) = ds"
proof (induction ds rule: rev_induct)
  case (snoc d ds)
  have d: "digit d" "unat d - 48 < 10"
    using snoc.prems(2) by (auto simp: digit_def)
  show ?case
  proof (cases "ds = []")
    case True
    then show ?thesis
      using d of_digit [OF d(1)] by (subst decimal.simps) simp
  next
    case False
    then have hd: "hd ds \<noteq> 48" and all: "\<forall>d\<in>set ds. digit d"
      using snoc.prems by auto
    then have "decimal (digits_value ds) = ds" and "0 < digits_value ds"
      using snoc.IH False digits_value_pos by auto
    then show ?thesis
      using d of_digit [OF d(1)] by (subst decimal.simps) simp
  qed
qed simp

text \<open>The next digit fits exactly when the number stays below \<open>2 ^ 32\<close>.\<close>

lemma next_digit:
  assumes "digit u"
  shows "(out > 0xFFFFFFFF div 10 \<or> out * 10 > 0xFFFFFFFF - (ucast u - 0x30 :: u32)) \<longleftrightarrow>
      \<not> unat out * 10 + (unat u - 48) < 2 ^ 32"
    and "unat out * 10 + (unat u - 48) < 2 ^ 32 \<Longrightarrow>
      unat (out * 10 + (ucast u - 0x30 :: u32)) = unat out * 10 + (unat u - 48)"
proof -
  have u: "unat u \<le> 57" "48 \<le> unat u"
    using assms by (simp_all add: digit_def)
  have d: "unat (ucast u - 0x30 :: u32) = unat u - 48"
    using u by (subst unat_sub) (simp_all add: word_le_nat_alt ucast_u32_byte)
  have m: "unat (0xFFFFFFFF - (ucast u - 0x30 :: u32)) = 0xFFFFFFFF - (unat u - 48)"
    using u by (subst unat_sub) (simp_all add: word_le_nat_alt d)
  have small: "unat (out * 10) = unat out * 10" if "unat out \<le> 429496729"
    using that by (simp add: unat_word_ariths)
  show "(out > 0xFFFFFFFF div 10 \<or> out * 10 > 0xFFFFFFFF - (ucast u - 0x30 :: u32)) \<longleftrightarrow>
      \<not> unat out * 10 + (unat u - 48) < 2 ^ 32"
  proof (cases "unat out \<le> 429496729")
    case True
    then show ?thesis
      using u small unfolding word_less_nat_alt m by auto
  next
    case False
    then show ?thesis
      using u by (auto simp: word_less_nat_alt)
  qed
  assume fits: "unat out * 10 + (unat u - 48) < 2 ^ 32"
  then have "unat (out * 10) = unat out * 10"
    by (intro small) simp
  then show "unat (out * 10 + (ucast u - 0x30 :: u32)) = unat out * 10 + (unat u - 48)"
    using fits by (simp add: unat_word_ariths d)
qed

definition terminated :: "byte list \<Rightarrow> byte list \<Rightarrow> byte list \<Rightarrow> bool" where
  "terminated s ds rest \<longleftrightarrow> s = ds \<and> rest = [] \<or> s = ds @ 0x2e # rest \<and> rest \<noteq> []"

lemma not_digit_dot [simp]: "\<not> digit 0x2e"
  by (simp add: digit_def)

lemma digits_from_ge: "n \<le> foldl (\<lambda>n d. n * 10 + (unat d - 48)) n ds"
proof (induction ds arbitrary: n)
  case (Cons d ds)
  have "n \<le> n * 10 + (unat d - 48)" by simp
  also have "\<dots> \<le> foldl (\<lambda>n d. n * 10 + (unat d - 48)) (n * 10 + (unat d - 48)) ds"
    by (rule Cons.IH)
  finally show ?case by simp
qed simp

text \<open>
  What is read is a run of digits up to the end or to a dot that is not the last byte; after a
  first zero nothing more may follow.
\<close>

lemma dotted_loop_eq_Some:
  assumes "\<not> seen \<Longrightarrow> out = 0"
  shows "dotted_loop s out seen = Some (a, rest) \<longleftrightarrow>
    (\<exists>ds. terminated s ds rest \<and> (\<forall>d\<in>set ds. digit d) \<and>
       unat a = foldl (\<lambda>n d. n * 10 + (unat d - 48)) (unat out) ds \<and> (seen \<or> ds \<noteq> []) \<and>
       (out = 0 \<longrightarrow> (if seen then ds = [] else hd ds \<noteq> 48 \<or> length ds = 1)))"
  using assms
proof (induction s arbitrary: out seen)
  case Nil
  then show ?case
    by (auto simp: terminated_def word_unat_eq_iff [of out a])
next
  case (Cons u s)
  show ?case
  proof (cases "u = 0x2e \<and> length s > 0")
    case True
    then have only: "terminated (u # s) ds rest \<and> (\<forall>d\<in>set ds. digit d) \<longleftrightarrow> ds = [] \<and> rest = s" for ds
      by (cases ds) (auto simp: terminated_def)
    have iff: "(\<exists>ds. terminated (u # s) ds rest \<and> (\<forall>d\<in>set ds. digit d) \<and> Q ds) \<longleftrightarrow>
        rest = s \<and> Q []" for Q
      unfolding conj_assoc [symmetric] only by auto
    have loop: "dotted_loop (u # s) out seen = (if seen then Some (out, s) else None)"
      using True by simp
    show ?thesis
      unfolding iff loop by (cases seen) (auto simp: word_unat_eq_iff [of out a])
  next
    case no_dot: False
    then have split: "terminated (u # s) ds rest \<longleftrightarrow> (\<exists>ds'. ds = u # ds' \<and> terminated s ds' rest)" for ds
      by (cases ds) (auto simp: terminated_def)
    show ?thesis
    proof (cases "digit u \<and> \<not> (seen \<and> out = 0) \<and> unat out * 10 + (unat u - 48) < 2 ^ 32")
      case True
      let ?out = "out * 10 + (ucast u - 0x30) :: u32"
      have u: "\<not> u < 0x30" "\<not> u > 0x39"
        using True by (auto simp: digit_def word_less_nat_alt)
      have eq: "dotted_loop (u # s) out seen = dotted_loop s ?out True"
        using no_dot u True next_digit(1) [of u out] by auto
      have outv: "unat ?out = unat out * 10 + (unat u - 48)"
        using True next_digit(2) by blast
      have zero: "?out = 0 \<longleftrightarrow> out = 0 \<and> u = 48"
        unfolding word_unat_eq_iff outv using True by (auto simp: digit_def)
      show ?thesis
        unfolding eq split using Cons.IH [of True ?out] True outv zero Cons.prems by fastforce
    next
      case False
      then have none: "dotted_loop (u # s) out seen = None"
        using no_dot next_digit(1) [of u out]
        by (auto simp: digit_def word_less_nat_alt not_less)
      have big: "foldl (\<lambda>n d. n * 10 + (unat d - 48)) (unat out * 10 + (unat u - 48)) ds \<noteq> unat a"
        if "\<not> unat out * 10 + (unat u - 48) < 2 ^ 32" for ds
        using that digits_from_ge [of "unat out * 10 + (unat u - 48)" ds] unat_u32_less [of a] by simp
      have "\<not> (terminated (u # s) ds rest \<and> (\<forall>d\<in>set ds. digit d) \<and>
         unat a = foldl (\<lambda>n d. n * 10 + (unat d - 48)) (unat out) ds \<and> (seen \<or> ds \<noteq> []) \<and>
         (out = 0 \<longrightarrow> (if seen then ds = [] else hd ds \<noteq> 48 \<or> length ds = 1)))" for ds
      proof (rule notI, elim conjE)
        assume "terminated (u # s) ds rest" and digits: "\<forall>d\<in>set ds. digit d"
          and val: "unat a = foldl (\<lambda>n d. n * 10 + (unat d - 48)) (unat out) ds"
          and zero: "out = 0 \<longrightarrow> (if seen then ds = [] else hd ds \<noteq> 48 \<or> length ds = 1)"
        then obtain ds' where ds: "ds = u # ds'" unfolding split by blast
        then have "digit u" and "\<not> (seen \<and> out = 0)"
          using digits zero by auto
        with False have "\<not> unat out * 10 + (unat u - 48) < 2 ^ 32" by blast
        from big [OF this, of ds'] val show False by (simp add: ds)
      qed
      with none show ?thesis by simp
    qed
  qed
qed

text \<open>One component is the decimal form of its value.\<close>

lemma parse_dotted_decimal_eq_Some:
  "parse_dotted_decimal s = Some (a, rest) \<longleftrightarrow> terminated s (decimal (unat a)) rest"
proof
  assume "parse_dotted_decimal s = Some (a, rest)"
  then obtain ds where ds: "terminated s ds rest" "\<forall>d\<in>set ds. digit d" "unat a = digits_value ds" "ds \<noteq> []"
    "hd ds \<noteq> 48 \<or> length ds = 1"
    unfolding parse_dotted_decimal_def by (subst (asm) dotted_loop_eq_Some) (auto simp: digits_value_def)
  then show "terminated s (decimal (unat a)) rest"
    by (simp add: decimal_unique)
next
  assume t: "terminated s (decimal (unat a)) rest"
  have "hd (decimal (unat a)) \<noteq> 48 \<or> length (decimal (unat a)) = 1"
    using decimal_hd [of "unat a"] by (cases "unat a = 0") (auto simp: decimal.simps [of 0])
  then show "parse_dotted_decimal s = Some (a, rest)"
    unfolding parse_dotted_decimal_def
    using t decimal_digits [of "unat a"] decimal_value [of "unat a"]
    by (subst dotted_loop_eq_Some) (auto simp: digits_value_def intro!: exI [of _ "decimal (unat a)"])
qed

section \<open>Whole identifiers\<close>

text \<open>The components an object identifier may have.\<close>

definition valid_oid :: "nat \<Rightarrow> nat \<Rightarrow> nat list \<Rightarrow> bool" where
  "valid_oid a b cs \<longleftrightarrow> a \<le> 2 \<and> (a = 2 \<or> b \<le> 39) \<and> b \<le> 0xFFFFFFFF - 80 \<and> (\<forall>c\<in>set cs. c < 2 ^ 32)"

lemma oid_text_eq_Nil [simp]: "oid_text cs = [] \<longleftrightarrow> cs = []"
  using decimal_digits by (cases cs rule: oid_text.cases) auto

lemma terminated_oid_text: "terminated (oid_text (a # cs)) (decimal a) (oid_text cs)"
  by (cases cs) (auto simp: terminated_def)

lemma terminated_decimal:
  "terminated s (decimal a) (oid_text cs) \<longleftrightarrow> s = oid_text (a # cs)"
  by (cases cs) (auto simp: terminated_def)

lemma parse_oid_text:
  "a < 2 ^ 32 \<Longrightarrow> parse_dotted_decimal (oid_text (a # cs)) = Some (of_nat a, oid_text cs)"
  unfolding parse_dotted_decimal_eq_Some by (simp only: unat_of_nat_u32 terminated_oid_text)

lemma oid_rest_step:
  "s \<noteq> [] \<Longrightarrow> oid_rest p s =
     (case parse_dotted_decimal s of
        None \<Rightarrow> fail
      | Some (a, rest) \<Rightarrow> seq (add_base128_integer p a) (oid_rest p rest))"
  by (cases s) simp_all

lemma appends_oid_rest:
  assumes "appends {} f p as" and "\<forall>c\<in>set cs. c < 2 ^ 32"
  shows "appends {} (seq f (oid_rest p (oid_text cs))) p (as @ concat (map base128 cs))"
  using assms
proof (induction cs arbitrary: f as)
  case Nil
  then show ?case by (simp del: ret_apply)
next
  case (Cons c cs)
  have c: "c < 2 ^ 32" using Cons.prems(2) by simp
  have "appends {} (seq (seq f (add_base128_integer p (of_nat c))) (oid_rest p (oid_text cs))) p
      ((as @ base128 c) @ concat (map base128 cs))"
    using appends_add_base128_integer [of p "of_nat c"] Cons.prems
    by (intro Cons.IH appends_seq) (auto simp: unat_of_nat_u32 [OF c])
  moreover have "oid_rest p (oid_text (c # cs)) =
      seq (add_base128_integer p (of_nat c)) (oid_rest p (oid_text cs))"
    unfolding oid_rest_step [of "oid_text (c # cs)", simplified] parse_oid_text [OF c] by simp
  ultimately show ?case by (simp add: bnd_assoc)
qed

lemma valid_oid_words:
  assumes "valid_oid a b cs"
  shows "a < 2 ^ 32" and "b < 2 ^ 32" and "\<not> (of_nat a :: u32) > 2" and "\<not> (of_nat b :: u32) > 0xFFFFFFFF - 80"
    and "\<not> ((of_nat a :: u32) < 2 \<and> (of_nat b :: u32) > 39)"
    and "unat (40 * of_nat a + of_nat b :: u32) = 40 * a + b"
proof -
  show a: "a < 2 ^ 32" and b: "b < 2 ^ 32"
    using assms by (auto simp: valid_oid_def)
  note n = unat_of_nat_u32 [OF a] unat_of_nat_u32 [OF b]
  show "\<not> (of_nat a :: u32) > 2" "\<not> (of_nat b :: u32) > 0xFFFFFFFF - 80"
    "\<not> ((of_nat a :: u32) < 2 \<and> (of_nat b :: u32) > 39)"
    unfolding word_less_nat_alt n using assms by (auto simp: valid_oid_def)
  have "unat (of_nat (40 * a + b) :: u32) = 40 * a + b"
    using assms by (intro unat_of_nat_u32) (auto simp: valid_oid_def)
  then show "unat (40 * of_nat a + of_nat b :: u32) = 40 * a + b"
    by simp
qed

lemma appends_oid_from_text:
  assumes "valid_oid a b cs"
  shows "appends {} (CBB_add_asn1_oid_from_text p (oid_text (a # b # cs))) p (oid_bytes a b cs)"
proof -
  note ab = valid_oid_words [OF assms]
  have cs: "\<forall>c\<in>set cs. c < 2 ^ 32"
    using assms by (simp add: valid_oid_def)
  have "CBB_add_asn1_oid_from_text p (oid_text (a # b # cs)) =
      seq (CBB_flush p) (seq (add_base128_integer p (40 * of_nat a + of_nat b)) (oid_rest p (oid_text cs)))"
    unfolding CBB_add_asn1_oid_from_text_def parse_oid_text [OF ab(1)] parse_oid_text [OF ab(2)]
      option.case prod.case
    using ab(3-5) by (intro arg_cong2 [of _ _ _ _ bnd] refl ext if_not_P) blast
  moreover have "appends {} (seq (CBB_flush p)
      (seq (add_base128_integer p (40 * of_nat a + of_nat b)) (oid_rest p (oid_text cs)))) p
      ([] @ base128 (unat (40 * of_nat a + of_nat b :: u32)) @ concat (map base128 cs))"
    by (intro appends_seq appends_CBB_flush appends_oid_rest appends_add_base128_integer cs)
  ultimately show ?thesis
    by (simp add: oid_bytes_def ab(6))
qed

lemma oid_rest_Ret:
  "oid_rest p s w = (Ret u, w') \<Longrightarrow> \<exists>cs. s = oid_text cs \<and> (\<forall>c\<in>set cs. c < 2 ^ 32)"
proof (induction p s arbitrary: w rule: oid_rest.induct)
  case (1 p)
  show ?case by (intro exI [of _ "[]"]) simp
next
  case (2 p x xs)
  from "2.prems" obtain a rest where parse: "parse_dotted_decimal (x # xs) = Some (a, rest)"
    by (auto split: option.splits)
  with "2.prems" obtain w1 where "oid_rest p rest w1 = (Ret u, w')"
    by (auto simp: bnd_eq_Ret)
  with "2.IH" [OF parse refl] obtain cs where cs: "rest = oid_text cs" "\<forall>c\<in>set cs. c < 2 ^ 32"
    by blast
  from parse have "x # xs = oid_text (unat a # cs)"
    unfolding parse_dotted_decimal_eq_Some cs(1) terminated_decimal .
  with cs(2) unat_u32_less [of a] show ?case
    by (intro exI [of _ "unat a # cs"]) simp
qed

text \<open>Nothing else is accepted.\<close>

lemma oid_from_text_Ret:
  assumes "CBB_add_asn1_oid_from_text p oid s = (Ret u, s')"
  obtains a b cs where "valid_oid a b cs" "oid = oid_text (a # b # cs)"
proof -
  from assms obtain s1 where run: "(case parse_dotted_decimal oid of
          None \<Rightarrow> fail
        | Some (a, cbs) \<Rightarrow>
            (case parse_dotted_decimal cbs of
               None \<Rightarrow> fail
             | Some (b, cbs) \<Rightarrow>
                 if a > 2 \<or> (a < 2 \<and> b > 39) \<or> b > 0xFFFFFFFF - 80 then fail
                 else seq (add_base128_integer p (40 * a + b)) (oid_rest p cbs))) s1 = (Ret u, s')"
    unfolding CBB_add_asn1_oid_from_text_def by (rule bnd_RetE)
  then obtain a cbs where a: "parse_dotted_decimal oid = Some (a, cbs)"
    by (auto split: option.splits)
  with run obtain b rest where b: "parse_dotted_decimal cbs = Some (b, rest)"
    by (auto split: option.splits)
  from run have ok: "\<not> (a > 2 \<or> (a < 2 \<and> b > 39) \<or> b > 0xFFFFFFFF - 80)"
    and "seq (add_base128_integer p (40 * a + b)) (oid_rest p rest) s1 = (Ret u, s')"
    unfolding a b option.case prod.case by (simp_all only: fail_apply split: if_splits) auto
  then obtain s2 where "oid_rest p rest s2 = (Ret u, s')"
    by (auto simp: bnd_eq_Ret)
  from oid_rest_Ret [OF this] obtain cs where cs: "rest = oid_text cs" "\<forall>c\<in>set cs. c < 2 ^ 32"
    by blast
  from b have "cbs = oid_text (unat b # cs)"
    unfolding parse_dotted_decimal_eq_Some cs(1) terminated_decimal .
  with a have "oid = oid_text (unat a # unat b # cs)"
    unfolding parse_dotted_decimal_eq_Some by (simp only: terminated_decimal)
  moreover have "valid_oid (unat a) (unat b) cs"
    using ok cs(2) by (auto simp: valid_oid_def word_less_nat_alt not_less)
  ultimately show thesis by (rule that [rotated])
qed

text \<open>
  C27: \<open>CBB_add_asn1_oid_from_text\<close> appends the DER contents of an object identifier, and accepts
  exactly the texts of identifiers: at least two decimal components of 32 bits without leading
  zeros, separated by single dots, the first at most 2 and the second at most 39 unless the first
  is 2. Any other text makes it fail.
\<close>

theorem oid_from_text:
  assumes "p < length (cbbs s)" and "\<forall>m. realloc_ok s m"
  shows "fst (bnd (CBB_init p n True) (\<lambda>_. bnd (CBB_add_asn1_oid_from_text p oid) (\<lambda>_. CBB_finish p True)) s) =
      Ret bs \<and> length bs < 2 ^ 64 \<longleftrightarrow>
    (\<exists>a b cs. valid_oid a b cs \<and> oid = oid_text (a # b # cs) \<and> bs = oid_bytes a b cs \<and> length bs < 2 ^ 64)"
    (is "fst (bnd _ (\<lambda>_. bnd ?f _) s) = _ \<and> _ \<longleftrightarrow> ?rhs")
proof
  assume ?rhs
  then obtain a b cs where v: "valid_oid a b cs" "oid = oid_text (a # b # cs)" "bs = oid_bytes a b cs"
    "length bs < 2 ^ 64" by blast
  have "fst (bnd (CBB_init p n True) (\<lambda>_. bnd ?f (\<lambda>_. CBB_finish p True)) s) = Ret bs"
    unfolding v(2,3)
    by (rule build_and_finish [OF appends_oid_from_text [OF v(1)]]) (use assms v(3,4) in simp_all)
  with v(4) show "fst (bnd (CBB_init p n True) (\<lambda>_. bnd ?f (\<lambda>_. CBB_finish p True)) s) = Ret bs \<and>
      length bs < 2 ^ 64" by blast
next
  assume lhs: "fst (bnd (CBB_init p n True) (\<lambda>_. bnd ?f (\<lambda>_. CBB_finish p True)) s) = Ret bs \<and> length bs < 2 ^ 64"
  then obtain s1 s2 u where s1: "CBB_init p n True s = (Ret (), s1)" "?f s1 = (Ret u, s2)"
      "fst (CBB_finish p True s2) = Ret bs"
    by (cases "CBB_init p n True s" rule: res_cases_prod; cases "?f (snd (CBB_init p n True s))" rule: res_cases_prod)
      auto
  from oid_from_text_Ret [OF s1(2)] obtain a b cs where v: "valid_oid a b cs" "oid = oid_text (a # b # cs)" .
  from init_builder [OF assms, of n] s1(1) have b1: "builder s1 [] p [] []" "is_top_level (cbb_at s1 p)" by auto
  have none: "{} \<subseteq> {..<length (cbbs s1)}" "{} \<inter> insert p (fst ` set ([] :: frame list)) = {}" by auto
  from appends_oid_from_text [OF v(1), of p] b1(1) none have "bs = oid_bytes a b cs"
  proof (cases rule: appends_cases)
    case (1 s' x)
    then have b2: "builder s2 [] p (oid_bytes a b cs) []" and top: "is_top_level (cbb_at s2 p)"
      using s1(2) v(2) b1(2) by auto
    have "fst (CBB_finish p True s2) = Ret (oid_bytes a b cs)"
      using top b2 by (intro finish_builder [OF b2]) (auto simp: builder_def intro: room_cap)
    with s1(3) show ?thesis by simp
  next
    case (2 s')
    with s1(2) v(2) show ?thesis by simp
  qed
  with v lhs show ?rhs by blast
qed

lemma oid_from_text_witness:
  "fst (bnd (CBB_init 0 0 True) (\<lambda>_. bnd (CBB_add_asn1_oid_from_text 0 [0x31, 0x2e, 0x32, 0x2e, 0x38, 0x34, 0x30])
      (\<lambda>_. CBB_finish 0 True)) demo_world) = Ret [0x2a, 0x86, 0x48] \<and> length [0x2a, 0x86, 0x48 :: byte] < 2 ^ 64"
proof -
  have "valid_oid 1 2 [840]" by (simp add: valid_oid_def)
  moreover have "[0x31, 0x2e, 0x32, 0x2e, 0x38, 0x34, 0x30] = oid_text (1 # 2 # [840])"
    by (simp add: decimal.simps)
  moreover have "[0x2a, 0x86, 0x48] = oid_bytes 1 2 [840]"
    by (simp add: oid_bytes_def base128_def base128_high.simps)
  moreover have "length [0x2a, 0x86, 0x48 :: byte] < 2 ^ 64" by simp
  ultimately have "\<exists>a b cs. valid_oid a b cs \<and>
      [0x31, 0x2e, 0x32, 0x2e, 0x38, 0x34, 0x30] = oid_text (a # b # cs) \<and>
      [0x2a, 0x86, 0x48] = oid_bytes a b cs \<and> length [0x2a, 0x86, 0x48 :: byte] < 2 ^ 64"
    by blast
  then show ?thesis
    by (rule oid_from_text [THEN iffD2, rotated 2]) (simp_all add: demo_world_def)
qed

end
