(* ===== verification/Ber.thy ===== *)
theory Ber
  imports Cbb
begin

text \<open>
  BoringSSL's conversion of BER to DER (\<open>crypto/bytestring/ber.c\<close>) and the end of its \<open>i2d\<close>
  functions (\<open>crypto/bytestring/asn1_compat.c\<close>). The recursion is bounded by \<open>kMaxDepth\<close>: the model
  counts the levels that are left instead of the depth reached.

  The conversion reads one byte string and writes to a builder, so its programs run over a pair of
  the two states. The local \<open>CBB\<close> of a call of \<open>cbs_convert_ber\<close> is the object after \<open>out\<close> in the pool.
\<close>

unbundle bit_operations_syntax

definition kMaxDepth :: nat where
  "kMaxDepth = 2048"

definition is_string_type :: "u32 \<Rightarrow> bool" where
  "is_string_type tag =
     (if tag AND 0xc0 \<noteq> 0 then False
      else tag AND 0x1f \<in> {0x3, 0x4, 0xc, 0x12, 0x13, 0x14, 0x15, 0x16, 0x19, 0x1a, 0x1b, 0x1c, 0x1e})"

text \<open>The test for an element of indefinite length that both walks make.\<close>

definition indefinite :: "cbs \<Rightarrow> u64 \<Rightarrow> bool" where
  "indefinite contents header_len \<longleftrightarrow>
     of_nat (CBS_len contents) = header_len \<and> header_len > 0 \<and>
     CBS_data contents ! (unat (header_len - 1)) = 0x80"

section \<open>Finding BER\<close>

lemma header_sum:
  assumes "unat (w :: u64) \<le> 4"
  shows "2 \<le> unat (ucast (v :: u32) + (2 + w))" and "unat (2 + w) \<le> unat (ucast v + (2 + w))"
proof -
  have "unat (ucast v + (2 + w)) = unat v + (2 + unat w)" and "unat (2 + w) = 2 + unat w"
    using unat_u32_less [of v] assms by (simp_all add: unat_word_ariths)
  then show "2 \<le> unat (ucast v + (2 + w))" and "unat (2 + w) \<le> unat (ucast v + (2 + w))"
    by simp_all
qed

lemma asn1_header_bounds:
  assumes "asn1_header b s = (Ret (tag, len, hl), r)"
  shows "2 \<le> unat len \<and> unat hl \<le> unat len"
proof -
  from assms obtain tg s1 where "CBS_get_u8 s = (Ret tg, s1)"
    and rest: "bnd CBS_get_u8 (\<lambda>length_byte.
       if tg AND 0x1F = 0x1F then fail
       else if length_byte AND 0x80 = 0 then ret (ucast tg, ucast length_byte + 2, 2)
       else
         let num_bytes = ucast (length_byte AND 0x7F) :: u64 in
         if b \<and> ucast tg AND CBS_ASN1_CONSTRUCTED \<noteq> 0 \<and> num_bytes = 0
         then ret (ucast tg, 2, 2)
         else if num_bytes = 0 \<or> num_bytes > 4 then fail
         else bnd (cbs_get_u (unat num_bytes)) (\<lambda>len32.
           if len32 < 128 then fail
           else if drop_bit (unat ((num_bytes - 1) * 8)) len32 = 0 then fail
           else
             let len = ucast len32 :: u64 in
             if len + 2 + num_bytes < len then fail
             else ret (ucast tg, len + (2 + num_bytes), 2 + num_bytes))) s1 = (Ret (tag, len, hl), r)"
    unfolding asn1_header_def by (rule bnd_RetE)
  from rest obtain lb s2 where lb: "CBS_get_u8 s1 = (Ret lb, s2)" by (auto simp: bnd_eq_Ret)
  define w where "w = (ucast (lb AND 0x7F) :: u64)"
  have short: "unat (ucast lb + 2 :: u64) = unat lb + 2"
    using unat_byte_less [of lb] by (simp add: unat_word_ariths unsigned_ucast_eq take_bit_nat_eq_self)
  show ?thesis
  proof (cases "lb AND 0x80 = 0 \<or> b \<and> ucast tg AND CBS_ASN1_CONSTRUCTED \<noteq> 0 \<and> w = 0 \<or> tg AND 0x1F = 0x1F")
    case True
    then show ?thesis
      using rest lb short by (auto simp: w_def [symmetric] Let_def split: if_splits)
  next
    case False
    then have "\<not> (w = 0 \<or> w > 4)"
      using rest lb by (auto simp: w_def [symmetric] Let_def split: if_splits)
    then have w: "unat w \<le> 4"
      by (simp add: word_less_nat_alt)
    from False rest lb \<open>\<not> (w = 0 \<or> w > 4)\<close> obtain v :: u32 where "len = ucast v + (2 + w)" "hl = 2 + w"
      by (auto simp: w_def [symmetric] Let_def bnd_eq_Ret split: if_splits)
    then show ?thesis
      using header_sum [OF w] by blast
  qed
qed

lemma ber_element_bounds:
  assumes "cbs_get_any_asn1_element b s = (Ret (c, tag, hl), r)"
  shows "s = c @ r" and "2 \<le> length c" and "unat hl \<le> length c"
proof -
  from assms obtain len h where "asn1_header b s = (Ret (tag, len, hl), h)"
    and "CBS_get_bytes (unat len) s = (Ret c, r)"
    by (cases "asn1_header b s" rule: res_cases_prod) (auto simp: cbs_get_any_asn1_element_def bnd_eq_Ret)
  then have "s = c @ r \<and> length c = unat len" and "2 \<le> unat len \<and> unat hl \<le> unat len"
    by (auto simp: CBS_get_bytes_def CBS_init_def bnd_eq_Ret cbs_get_def advance_def CBS_len_def dest: asn1_header_bounds split: if_splits)
  then show "s = c @ r" and "2 \<le> length c" and "unat hl \<le> length c"
    by simp_all
qed

lemma ber_element_shorter:
  "CBS_get_any_ber_asn1_element s = (Ret (c, tag, hl), r) \<Longrightarrow> length r < length s"
  using ber_element_bounds [of True s c tag hl r] by (auto simp: CBS_get_any_ber_asn1_element_def)

function find_ber_loop :: "(cbs \<Rightarrow> bool option) \<Rightarrow> bool \<Rightarrow> cbs \<Rightarrow> bool option" where
  "find_ber_loop inner ber_found i =
     (if CBS_len i > 0 then
        (case CBS_get_any_ber_asn1_element i of
           (Ret (contents, tag, header_len), i') \<Rightarrow>
             if indefinite contents header_len then Some True
             else if tag AND CBS_ASN1_CONSTRUCTED \<noteq> 0 then
               if is_string_type tag then Some True
               else (case CBS_skip (unat header_len) contents of
                   (Ret _, contents') \<Rightarrow>
                     (case inner contents' of
                        None \<Rightarrow> None
                      | Some ber_found' \<Rightarrow> find_ber_loop inner ber_found' i')
                 | _ \<Rightarrow> None)
             else find_ber_loop inner ber_found i'
         | _ \<Rightarrow> None)
      else Some ber_found)"
  by pat_completeness auto
termination
  by (relation "measure (\<lambda>(inner, ber_found, i). length i)") (auto dest: ber_element_shorter [OF sym])

declare find_ber_loop.simps [simp del]

text \<open>\<open>levels\<close> is \<open>kMaxDepth + 1 - depth\<close>; \<open>None\<close> is an error, otherwise the value of \<open>*ber_found\<close>.\<close>

fun cbs_find_ber :: "nat \<Rightarrow> cbs \<Rightarrow> bool option" where
  "cbs_find_ber 0 orig_in = None"
| "cbs_find_ber (Suc levels) orig_in = find_ber_loop (cbs_find_ber levels) False orig_in"

section \<open>Converting to DER\<close>

definition on_in :: "(cbs, 'a) prog \<Rightarrow> (cbs \<times> cbb_world, 'a) prog" where
  "on_in f = (\<lambda>(i, w). case f i of (r, i') \<Rightarrow> (r, (i', w)))"

definition on_out :: "(cbb_world, 'a) prog \<Rightarrow> (cbs \<times> cbb_world, 'a) prog" where
  "on_out f = (\<lambda>(i, w). case f w of (r, w') \<Rightarrow> (r, (i, w')))"

text \<open>A run on a byte string of its own, with the same builder.\<close>

definition with_in :: "cbs \<Rightarrow> (cbs \<times> cbb_world, 'a) prog \<Rightarrow> (cbs \<times> cbb_world, 'a) prog" where
  "with_in contents f = (\<lambda>(i, w). case f (contents, w) of (r, (_, w')) \<Rightarrow> (r, (i, w')))"

definition is_eoc :: "u64 \<Rightarrow> cbs \<Rightarrow> bool" where
  "is_eoc header_len contents \<longleftrightarrow> header_len = 2 \<and> CBS_len contents = 2 \<and> CBS_data contents = [0, 0]"

text \<open>
  What the loop does with an element that is not an end-of-contents mark. \<open>inner\<close> is the recursive
  call, given the output, the string tag and whether an end of contents is looked for.
\<close>

definition convert_element ::
  "(nat \<Rightarrow> u32 \<Rightarrow> bool \<Rightarrow> (cbs \<times> cbb_world, unit) prog) \<Rightarrow> nat \<Rightarrow> u32 \<Rightarrow> cbs \<Rightarrow> u32 \<Rightarrow> u64 \<Rightarrow>
   (cbs \<times> cbb_world, unit) prog" where
  "convert_element inner out string_tag contents tag header_len =
     (if string_tag \<noteq> 0 \<and> tag AND NOT CBS_ASN1_CONSTRUCTED \<noteq> string_tag then fail
      else
        let constructed_string = (string_tag = 0 \<and> tag AND CBS_ASN1_CONSTRUCTED \<noteq> 0 \<and> is_string_type tag);
            out_tag = (if constructed_string then tag AND NOT CBS_ASN1_CONSTRUCTED else tag);
            child_string_tag = (if constructed_string then out_tag else string_tag);
            out_contents = (if string_tag \<noteq> 0 then out else Suc out) in
        seq (if string_tag \<noteq> 0 then ret () else on_out (CBB_add_asn1 out (Suc out) out_tag))
          (if indefinite contents header_len
           then seq (inner out_contents child_string_tag True) (on_out (CBB_flush out))
           else (case CBS_skip (unat header_len) contents of
               (Ret _, contents') \<Rightarrow>
                 seq (if tag AND CBS_ASN1_CONSTRUCTED \<noteq> 0
                      then with_in contents' (inner out_contents child_string_tag False)
                      else on_out (CBB_add_bytes out_contents (CBS_data contents')))
                   (on_out (CBB_flush out))
             | _ \<Rightarrow> fail)))"

text \<open>Every round drops an element from the input, so its length bounds the number of rounds.\<close>

fun convert_loop ::
  "nat \<Rightarrow> (nat \<Rightarrow> u32 \<Rightarrow> bool \<Rightarrow> (cbs \<times> cbb_world, unit) prog) \<Rightarrow> nat \<Rightarrow> u32 \<Rightarrow> bool \<Rightarrow>
   (cbs \<times> cbb_world, unit) prog" where
  "convert_loop 0 inner out string_tag looking_for_eoc = stuck"
| "convert_loop (Suc n) inner out string_tag looking_for_eoc = (\<lambda>(i, w).
     if CBS_len i > 0 then
       bnd (on_in CBS_get_any_ber_asn1_element) (\<lambda>(contents, tag, header_len).
         if is_eoc header_len contents then (if looking_for_eoc then ret () else fail)
         else seq (convert_element inner out string_tag contents tag header_len)
           (convert_loop n inner out string_tag looking_for_eoc)) (i, w)
     else if looking_for_eoc then (Fail, (i, w)) else (Ret (), (i, w)))"

fun cbs_convert_ber :: "nat \<Rightarrow> nat \<Rightarrow> u32 \<Rightarrow> bool \<Rightarrow> (cbs \<times> cbb_world, unit) prog" where
  "cbs_convert_ber levels out string_tag looking_for_eoc =
     (if string_tag AND CBS_ASN1_CONSTRUCTED \<noteq> 0 then stuck
      else case levels of
          0 \<Rightarrow> fail
        | Suc levels' \<Rightarrow> (\<lambda>(i, w).
            convert_loop (Suc (length i)) (cbs_convert_ber levels') out string_tag looking_for_eoc (i, w)))"

declare cbs_convert_ber.simps [simp del]

text \<open>
  \<open>cbb\<close> is the local builder and \<open>malloc_ok\<close> the outcome of its first allocation. The result is the
  DER encoding, or \<open>None\<close> when the input has no BER in it.
\<close>

definition cleanup_if_failed :: "nat \<Rightarrow> (cbs \<times> cbb_world, 'a) prog \<Rightarrow> (cbs \<times> cbb_world, 'a) prog" where
  "cleanup_if_failed cbb f = (\<lambda>s. case f s of
      (Fail, s') \<Rightarrow> seq (on_out (CBB_cleanup cbb)) fail s'
    | r \<Rightarrow> r)"

definition CBS_asn1_ber_to_der :: "nat \<Rightarrow> bool \<Rightarrow> (cbs \<times> cbb_world, byte list option) prog" where
  "CBS_asn1_ber_to_der cbb malloc_ok = (\<lambda>(i, w).
     case cbs_find_ber (kMaxDepth + 1) i of
       None \<Rightarrow> (Fail, (i, w))
     | Some conversion_needed \<Rightarrow>
         if \<not> conversion_needed then (Ret None, (i, w))
         else cleanup_if_failed cbb
           (seq (on_out (CBB_init cbb (of_nat (CBS_len i)) malloc_ok))
             (seq (cbs_convert_ber (kMaxDepth + 1) cbb 0 False)
               (bnd (on_out (CBB_finish cbb True)) (\<lambda>out. ret (Some out))))) (i, w))"

section \<open>Implicitly tagged strings\<close>

text \<open>The chunks of a constructed string, from \<open>child\<close> to the builder \<open>result\<close>.\<close>

fun add_chunks :: "nat \<Rightarrow> nat \<Rightarrow> u32 \<Rightarrow> (cbs \<times> cbb_world, unit) prog" where
  "add_chunks 0 res inner_tag = stuck"
| "add_chunks (Suc n) res inner_tag = (\<lambda>(child, w).
     if CBS_len child > 0 then
       bnd (on_in (CBS_get_asn1 inner_tag)) (\<lambda>chunk.
         seq (on_out (CBB_add_bytes res (CBS_data chunk))) (add_chunks n res inner_tag)) (child, w)
     else (Ret (), (child, w)))"

text \<open>The result is the string and, when it had to be put together, its storage.\<close>

definition CBS_get_asn1_implicit_string ::
  "nat \<Rightarrow> bool \<Rightarrow> u32 \<Rightarrow> u32 \<Rightarrow> (cbs \<times> cbb_world, cbs \<times> byte list option) prog" where
  "CBS_get_asn1_implicit_string res malloc_ok outer_tag inner_tag = (\<lambda>(i, w).
     if outer_tag AND CBS_ASN1_CONSTRUCTED \<noteq> 0 \<or> inner_tag AND CBS_ASN1_CONSTRUCTED \<noteq> 0 \<or>
       \<not> is_string_type inner_tag then (Stuck, (i, w))
     else bnd (on_in (CBS_peek_asn1_tag outer_tag)) (\<lambda>primitive.
       if primitive then bnd (on_in (CBS_get_asn1 outer_tag)) (\<lambda>out. ret (out, None))
       else cleanup_if_failed res
         (seq (on_out (CBB_init res (of_nat (CBS_len i)) malloc_ok))
           (bnd (on_in (CBS_get_asn1 (outer_tag OR CBS_ASN1_CONSTRUCTED))) (\<lambda>child.
             seq (with_in child (add_chunks (Suc (length child)) res inner_tag))
               (bnd (on_out (CBB_finish res True)) (\<lambda>data. ret (CBS_init data, Some data))))))) (i, w))"

section \<open>Finishing an encoding function\<close>

text \<open>
  \<open>outp\<close> is a null pointer (\<open>None\<close>), or points to a null pointer (\<open>Some None\<close>) or to the address of
  a buffer. The result is the return value with what \<open>*outp\<close> is left as: the encoding in new memory
  (\<open>Inl\<close>) or an address (\<open>Inr\<close>).
\<close>

definition CBB_finish_i2d ::
  "nat \<Rightarrow> addr option option \<Rightarrow> (cbb_world \<times> mem, int \<times> (byte list + addr) option) prog" where
  "CBB_finish_i2d cbb outp = (\<lambda>(w, m).
     if \<not> cbb_base (cbb_at w cbb) \<or> \<not> can_resize w then (Stuck, (w, m))
     else case CBB_finish cbb True w of
         (Fail, w') \<Rightarrow> (case CBB_cleanup cbb w' of
             (Stuck, w'') \<Rightarrow> (Stuck, (w'', m))
           | (_, w'') \<Rightarrow> (Ret (- 1, None), (w'', m)))
       | (Stuck, w') \<Rightarrow> (Stuck, (w', m))
       | (Ret enc, w') \<Rightarrow>
           if length enc > 0x7FFFFFFF then (Ret (- 1, None), (w', m))
           else (case outp of
               None \<Rightarrow> (Ret (int (length enc), None), (w', m))
             | Some None \<Rightarrow> (Ret (int (length enc), Some (Inl enc)), (w', m))
             | Some (Some a) \<Rightarrow>
                 (Ret (int (length enc), Some (Inr (a + length enc))), (w', store m a enc))))"

end
