(* ===== verification/Ber_Spec.thy ===== *)
theory Ber_Spec
  imports Ber Cbb_Spec
begin

text \<open>
  What the BER conversion guarantees. BER values are trees: primitive elements, constructed elements
  of definite and of indefinite length. \<open>ber_bytes\<close> is the encoding of a tree and \<open>der_bytes\<close> its DER
  form, in which lengths are definite and the parts of a constructed string are put together. The
  conversion maps one to the other. The walk that decides whether it is needed is characterised
  exactly: it finds the BER that is exposed, and overlooks what is hidden.
\<close>

unbundle bit_operations_syntax

section \<open>BER trees\<close>

datatype ber = Prim byte "byte list" | Constr byte "ber list" | Indef byte "ber list"

definition is_string_tag :: "byte \<Rightarrow> bool" where
  "is_string_tag t = is_string_type (ucast t)"

definition primitive_tag :: "byte \<Rightarrow> byte" where
  "primitive_tag t = t AND NOT 0x20"

fun ber_bytes :: "ber \<Rightarrow> byte list" where
  "ber_bytes (Prim t c) = der t c"
| "ber_bytes (Constr t es) = der t (concat (map ber_bytes es))"
| "ber_bytes (Indef t es) = t # 0x80 # concat (map ber_bytes es) @ [0, 0]"

text \<open>The tag of the string whose parts the children of an element are, 0 for none.\<close>

definition child_string :: "byte \<Rightarrow> byte \<Rightarrow> byte" where
  "child_string st t = (if st = 0 \<and> is_string_tag t then primitive_tag t else st)"

text \<open>\<open>st\<close> is the tag of the string the element is a part of, 0 outside of strings.\<close>

fun out_bytes :: "byte \<Rightarrow> ber \<Rightarrow> byte list" where
  "out_bytes st (Prim t c) = (if st = 0 then der t c else c)"
| "out_bytes st (Constr t es) =
     (let c = concat (map (out_bytes (child_string st t)) es) in
      if st = 0 then der (if is_string_tag t then primitive_tag t else t) c else c)"
| "out_bytes st (Indef t es) =
     (let c = concat (map (out_bytes (child_string st t)) es) in
      if st = 0 then der (if is_string_tag t then primitive_tag t else t) c else c)"

abbreviation der_bytes :: "ber \<Rightarrow> byte list" where
  "der_bytes \<equiv> out_bytes 0"

fun height :: "ber \<Rightarrow> nat" where
  "height (Prim t c) = 0"
| "height (Constr t es) = Suc (foldr max (map height es) 0)"
| "height (Indef t es) = Suc (foldr max (map height es) 0)"

text \<open>One-byte tags, lengths of 32 bits, and only parts of the same type in a string.\<close>

fun ber_ok :: "byte \<Rightarrow> ber \<Rightarrow> bool" where
  "ber_ok st (Prim t c) \<longleftrightarrow> short_tag t \<and> t AND 0x20 = 0 \<and> length c \<le> 0xfffffffe \<and> (t, c) \<noteq> (0, []) \<and>
     (st \<noteq> 0 \<longrightarrow> primitive_tag t = st)"
| "ber_ok st (Constr t es) \<longleftrightarrow> short_tag t \<and> t AND 0x20 \<noteq> 0 \<and>
     length (concat (map ber_bytes es)) \<le> 0xfffffffe \<and>
     length (concat (map (out_bytes (child_string st t)) es)) \<le> 0xfffffffe \<and>
     (st \<noteq> 0 \<longrightarrow> primitive_tag t = st) \<and> (\<forall>e \<in> set es. ber_ok (child_string st t) e)"
| "ber_ok st (Indef t es) \<longleftrightarrow> short_tag t \<and> t AND 0x20 \<noteq> 0 \<and>
     length (concat (map (out_bytes (child_string st t)) es)) \<le> 0xfffffffe \<and>
     (st \<noteq> 0 \<longrightarrow> primitive_tag t = st) \<and> (\<forall>e \<in> set es. ber_ok (child_string st t) e)"

lemma height_children: "foldr max (map height es) 0 \<le> h \<longleftrightarrow> (\<forall>e \<in> set es. height e \<le> h)"
  by (induction es) auto

lemma height_children_less:
  "Suc (foldr max (map height es) 0) \<le> h \<longleftrightarrow> 0 < h \<and> (\<forall>e \<in> set es. height e < h)"
  by (induction es) auto

section \<open>Reading one element\<close>

lemma asn1_header_ber: "asn1_header False s = (Ret x, r) \<Longrightarrow> asn1_header True s = (Ret x, r)"
  by (auto simp: asn1_header_def bnd_def Let_def split: prod.splits res.splits if_splits)

lemma ber_element_der:
  assumes "short_tag t" and "length c < 2 ^ 32"
  shows "CBS_get_any_ber_asn1_element (der t c @ r) =
    (Ret (der t c, ucast t, of_nat (header_size (length c))), r)"
proof -
  have "asn1_header False (der t c @ r) =
      (Ret (ucast t, of_nat (length c + header_size (length c)), of_nat (header_size (length c))), c @ r)"
    unfolding asn1_header_eq_Ret using assms
    by (intro exI [of _ t] exI [of _ "length c"]) (simp add: der_def)
  then have "asn1_header True (der t c @ r) =
      (Ret (ucast t, of_nat (length c + header_size (length c)), of_nat (header_size (length c))), c @ r)"
    by (rule asn1_header_ber)
  moreover have "CBS_get_bytes (length c + header_size (length c)) (der t c @ r) = (Ret (der t c), r)"
    unfolding CBS_get_bytes_eq_Ret by (simp add: length_der)
  ultimately show ?thesis
    using size_u64 [OF assms(2)]
    by (simp add: CBS_get_any_ber_asn1_element_def cbs_get_any_asn1_element_def bnd_def)
qed

lemma tag_bits_u32:
  "(ucast (t :: byte) :: u32) AND 0x20 = 0 \<longleftrightarrow> t AND 0x20 = 0"
  "(ucast t :: u32) AND NOT 0x20 = ucast (t AND NOT 0x20)"
proof -
  have "(ucast t :: u32) AND 0x20 = ucast (t AND 0x20)"
    by (simp add: unsigned_and_eq)
  moreover have "(ucast (t AND 0x20) :: u32) = 0 \<longleftrightarrow> t AND 0x20 = 0"
    using ucast_byte_u32_inj [of "t AND 0x20" 0] by simp
  ultimately show "(ucast (t :: byte) :: u32) AND 0x20 = 0 \<longleftrightarrow> t AND 0x20 = 0" by simp
  show "(ucast t :: u32) AND NOT 0x20 = ucast (t AND NOT 0x20)"
    by (rule bit_word_eqI) (auto simp: bit_simps dest: bit_imp_le_length)
qed

lemma ber_element_indefinite:
  assumes "short_tag t" and "t AND 0x20 \<noteq> 0"
  shows "CBS_get_any_ber_asn1_element (t # 0x80 # r) = (Ret ([t, 0x80], ucast t, 2), r)"
proof -
  have "asn1_header True (t # 0x80 # r) = (Ret (ucast t, 2, 2), r)"
    using assms by (simp add: asn1_header_def short_tag_def tag_bits_u32)
  moreover have "CBS_get_bytes 2 (t # 0x80 # r) = (Ret [t, 0x80], r)"
    unfolding CBS_get_bytes_eq_Ret by simp
  ultimately show ?thesis
    by (simp add: CBS_get_any_ber_asn1_element_def cbs_get_any_asn1_element_def bnd_def)
qed

lemma ber_element_eoc: "CBS_get_any_ber_asn1_element (0 # 0 # r) = (Ret ([0, 0], 0, 2), r)"
  using ber_element_der [of 0 "[]" r] by (simp add: der_def der_len_def header_size_def short_tag_def)

lemma header_size_ge: "2 \<le> header_size n"
  by (simp add: header_size_def der_len_def)

lemma header_size_2: "header_size n = 2 \<longleftrightarrow> n < 128"
  using be_min_eq_Nil [of n] by (auto simp: header_size_def der_len_def)

lemma element_marks:
  assumes "length c < 2 ^ 32"
  shows "\<not> indefinite (der t c) (of_nat (header_size (length c)))"
    and "is_eoc (of_nat (header_size (length c))) (der t c) \<longleftrightarrow> t = 0 \<and> c = []"
    and "indefinite [t, 0x80] 2" and "\<not> is_eoc 2 [t, 0x80]" and "is_eoc 2 [0, 0]"
proof -
  have hs: "unat (of_nat (header_size (length c)) :: u64) = header_size (length c)"
    by (rule header_size_u64 [OF assms])
  have size: "of_nat (length (der t c)) = (of_nat (header_size (length c)) :: u64) \<longleftrightarrow> c = []"
    using size_u64 [OF assms] hs by (auto simp: length_der word_unat_eq_iff add.commute)
  show "\<not> indefinite (der t c) (of_nat (header_size (length c)))"
    unfolding indefinite_def CBS_len_def size
    by (auto simp: der_def der_len_def header_size_def CBS_data_def)
  have "(of_nat (header_size (length c)) :: u64) = 2 \<longleftrightarrow> header_size (length c) = 2"
    using hs by (auto simp: word_unat_eq_iff)
  then show "is_eoc (of_nat (header_size (length c))) (der t c) \<longleftrightarrow> t = 0 \<and> c = []"
    using header_size_ge [of "length c"]
    by (auto simp: is_eoc_def CBS_len_def CBS_data_def length_der der_def der_len_def header_size_def)
qed (simp_all add: indefinite_def is_eoc_def CBS_len_def CBS_data_def)

lemma skip_der: "length c < 2 ^ 32 \<Longrightarrow> CBS_skip (unat (of_nat (header_size (length c)) :: u64)) (der t c) = (Ret (), c)"
  by (simp add: CBS_skip_def header_size_u64 bnd_def cbs_get_eq length_der drop_header)

section \<open>The walk that looks for BER\<close>

text \<open>
  What the walk finds. The result of the elements before a constructed one is given up when the walk
  goes into it.
\<close>

fun walk :: "bool \<Rightarrow> ber list \<Rightarrow> bool" where
  "walk found [] = found"
| "walk found (Prim t c # es) = walk found es"
| "walk found (Indef t cs # es) = True"
| "walk found (Constr t cs # es) = (is_string_tag t \<or> walk (walk False cs) es)"

abbreviation list_bytes :: "ber list \<Rightarrow> byte list" where
  "list_bytes es \<equiv> concat (map ber_bytes es)"

lemma find_ber_loop_eq:
  "\<forall>e \<in> set es. ber_ok 0 e \<and> height e \<le> l \<Longrightarrow>
   find_ber_loop (cbs_find_ber l) found (list_bytes es) = Some (walk found es)"
proof (induction found es arbitrary: l rule: walk.induct)
  case (1 found)
  then show ?case by (simp add: find_ber_loop.simps [of _ _ "[]"] CBS_len_def)
next
  case (2 found t c es)
  then have c: "short_tag t" "length c < 2 ^ 32" "t AND 0x20 = 0"
    by simp_all
  have "find_ber_loop (cbs_find_ber l) found (list_bytes es) = Some (walk found es)"
    using "2.IH" [of l] "2.prems" by simp
  then show ?case
    using ber_element_der [OF c(1,2), of "list_bytes es"] element_marks(1) [OF c(2)] c(3)
    by (subst find_ber_loop.simps) (simp add: CBS_len_def tag_bits_u32)
next
  case (3 found t cs es)
  then have "short_tag t" "t AND 0x20 \<noteq> 0"
    by simp_all
  then show ?case
    using ber_element_indefinite [of t "list_bytes cs @ [0, 0] @ list_bytes es"] element_marks(3) [of "[]" t]
    by (subst find_ber_loop.simps) (simp add: CBS_len_def)
next
  case (4 found t cs es)
  let ?c = "list_bytes cs"
  have c: "short_tag t" "length ?c < 2 ^ 32" "t AND 0x20 \<noteq> 0"
    using "4.prems" by simp_all
  show ?case
  proof (cases "is_string_tag t")
    case True
    then show ?thesis
      using ber_element_der [OF c(1,2), of "list_bytes es"] element_marks(1) [OF c(2)] c(3)
      by (subst find_ber_loop.simps) (simp add: CBS_len_def tag_bits_u32 is_string_tag_def)
  next
    case False
    obtain l' where l: "l = Suc l'" using "4.prems" by (cases l) auto
    have "\<forall>e \<in> set cs. ber_ok 0 e \<and> height e \<le> l'"
      using "4.prems" False by (auto simp: l child_string_def height_children)
    then have "cbs_find_ber l ?c = Some (walk False cs)"
      unfolding l cbs_find_ber.simps by (rule "4.IH"(1))
    moreover have "find_ber_loop (cbs_find_ber l) (walk False cs) (list_bytes es) = Some (walk (walk False cs) es)"
      using "4.IH"(2) [of l] "4.prems" by simp
    ultimately show ?thesis
      using ber_element_der [OF c(1,2), of "list_bytes es"] element_marks(1) [OF c(2)] c(3) False skip_der [OF c(2)]
      by (subst find_ber_loop.simps) (simp add: CBS_len_def tag_bits_u32 is_string_tag_def)
  qed
qed

section \<open>Programs over the input and the builder\<close>

text \<open>On input \<open>i\<close> the program does to the builder what \<open>g\<close> does, and leaves \<open>i'\<close> when it succeeds.\<close>

definition reads :: "(cbs \<times> cbb_world, unit) prog \<Rightarrow> cbs \<Rightarrow> cbs \<Rightarrow> (cbb_world, unit) prog \<Rightarrow> bool" where
  "reads f i i' g \<longleftrightarrow> (\<forall>w. fst (f (i, w)) = fst (g w) \<and> snd (snd (f (i, w))) = snd (g w) \<and>
     (fst (g w) = Ret () \<longrightarrow> fst (snd (f (i, w))) = i'))"

lemma reads_on_out: "reads (on_out g) i i g"
  by (simp add: reads_def on_out_def split: prod.splits)

lemma reads_ret: "reads (ret ()) i i (ret ())"
  by (simp add: reads_def)

lemma reads_seq:
  assumes f: "reads f1 i i' g1" and g: "reads f2 i' i'' g2"
  shows "reads (seq f1 f2) i i'' (seq g1 g2)"
  unfolding reads_def
proof
  fix w
  obtain r i1 w1 where f1: "f1 (i, w) = (r, (i1, w1))" by (cases "f1 (i, w)") auto
  then have g1: "g1 w = (r, w1)" and "r = Ret () \<longrightarrow> i1 = i'"
    using f [unfolded reads_def, rule_format, of w] by (auto simp: prod_eq_iff)
  then show "fst (seq f1 f2 (i, w)) = fst (seq g1 g2 w) \<and> snd (snd (seq f1 f2 (i, w))) = snd (seq g1 g2 w) \<and>
    (fst (seq g1 g2 w) = Ret () \<longrightarrow> fst (snd (seq f1 f2 (i, w))) = i'')"
    using g [unfolded reads_def, rule_format, of w1] f1 by (cases r) simp_all
qed

lemma reads_with_in: "reads f c c' g \<Longrightarrow> reads (with_in c f) i i g"
  by (simp add: reads_def with_in_def split: prod.splits) (metis fst_conv snd_conv)

lemma appends_cong:
  assumes "appends C f p bs"
    and eq: "\<And>s pre c fs. builder s pre p c fs \<Longrightarrow> C \<subseteq> {..<length (cbbs s)} \<Longrightarrow>
      C \<inter> insert p (fst ` set fs) = {} \<Longrightarrow> f' s = f s"
  shows "appends C f' p bs"
  unfolding appends_def
proof (intro allI impI)
  fix s pre c fs
  assume a: "builder s pre p c fs" "C \<subseteq> {..<length (cbbs s)}" "C \<inter> insert p (fst ` set fs) = {}"
  show "(\<exists>s' x. f' s = (Ret (), s') \<and> closed c fs = Some x \<and> builder s' pre p (x @ bs) [] \<and>
        same_but (C \<union> insert p (fst ` set fs)) s s' \<and> cbb_at s' p = (cbb_at s p)\<lparr>cbb_child := None\<rparr>) \<or>
     (\<exists>s'. f' s = (Fail, s') \<and> error s' \<and>
        (\<forall>x. closed c fs = Some x \<longrightarrow> \<not> room s (length (pre @ x @ bs))))"
    unfolding eq [OF a] using assms(1) a by (simp add: appends_def)
qed

lemma appends_mono:
  assumes f: "appends C f p bs" and "C \<subseteq> D"
  shows "appends D f p bs"
  unfolding appends_def
proof (intro allI impI)
  fix s pre c fs
  assume b: "builder s pre p c fs" and D: "D \<subseteq> {..<length (cbbs s)}" "D \<inter> insert p (fst ` set fs) = {}"
  have C: "C \<subseteq> {..<length (cbbs s)}" "C \<inter> insert p (fst ` set fs) = {}"
    using D assms(2) by auto
  have "same_but (D \<union> insert p (fst ` set fs)) s s'" if "same_but (C \<union> insert p (fst ` set fs)) s s'" for s'
    using that by (rule same_but_mono) (use assms(2) in auto)
  with f b C show "(\<exists>s' x. f s = (Ret (), s') \<and> closed c fs = Some x \<and> builder s' pre p (x @ bs) [] \<and>
        same_but (D \<union> insert p (fst ` set fs)) s s' \<and> cbb_at s' p = (cbb_at s p)\<lparr>cbb_child := None\<rparr>) \<or>
     (\<exists>s'. f s = (Fail, s') \<and> error s' \<and>
        (\<forall>x. closed c fs = Some x \<longrightarrow> \<not> room s (length (pre @ x @ bs))))"
    by (elim appends_cases) blast+
qed

text \<open>After an operation on \<open>p\<close> nothing is open above it, so a program may start without a flush.\<close>

lemma appends_seq_idle:
  assumes f: "appends C f p as" and g: "appends C (seq (CBB_flush p) g) p bs"
  shows "appends C (seq f g) p (as @ bs)"
proof (rule appends_cong [OF appends_seq [OF f g]])
  fix s pre c fs
  assume "builder s pre p c fs" "C \<subseteq> {..<length (cbbs s)}" "C \<inter> insert p (fst ` set fs) = {}"
  with f show "seq f g s = seq f (seq (CBB_flush p) g) s"
  proof (cases rule: appends_cases)
    case (1 s' x)
    then show ?thesis
      using flush_idle [OF 1(3)] by simp
  qed simp
qed

lemma appends_child_idle:
  assumes f: "opens f p q as k" and g: "appends C (seq (CBB_flush q) g) q bs"
    and h: "length_prefix k (length bs) = Some h" and qC: "q \<notin> C"
  shows "appends (insert q C) (seq f (seq g (CBB_flush p))) p (as @ h @ bs)"
proof (rule appends_cong [OF appends_child [OF f g h qC]])
  fix s pre c fs
  assume b: "builder s pre p c fs" and C: "insert q C \<subseteq> {..<length (cbbs s)}"
    "insert q C \<inter> insert p (fst ` set fs) = {}"
  have q: "q < length (cbbs s)" "q \<noteq> p"
    using C by auto
  from f b q show "seq f (seq g (CBB_flush p)) s = seq f (seq (seq (CBB_flush q) g) (CBB_flush p)) s"
  proof (cases rule: opens_cases)
    case (1 s' x)
    have "builder s' (pre @ (x @ as) @ replicate (pending_size k) 0) q [] []"
      using 1(3) by (simp add: builder_Cons)
    then show ?thesis
      using flush_idle 1(1) by (simp add: bnd_assoc)
  qed simp
qed

section \<open>The conversion\<close>

text \<open>Reading \<open>i\<close> up to \<open>i'\<close>, the program appends \<open>bs\<close> to \<open>p\<close>, above which nothing is open.\<close>

definition converts :: "nat \<Rightarrow> (cbs \<times> cbb_world, unit) prog \<Rightarrow> nat \<Rightarrow> cbs \<Rightarrow> cbs \<Rightarrow> byte list \<Rightarrow> bool" where
  "converts h f p i i' bs \<longleftrightarrow>
     (\<exists>g. reads f i i' g \<and> appends {p<..p + h} (seq (CBB_flush p) g) p bs)"

lemma converts_intro:
  assumes "reads f i i' g" and "appends C (seq (CBB_flush p) g) p bs" and "C \<subseteq> {p<..p + h}"
  shows "converts h f p i i' bs"
  unfolding converts_def using assms(1) appends_mono [OF assms(2,3)] by blast

lemma flush_ret: "seq (CBB_flush p) (ret ()) = CBB_flush p"
  using bnd_ret_right [of "CBB_flush p"] by simp

lemma converts_ret: "converts h (ret ()) p i i []"
proof (rule converts_intro)
  show "appends {} (seq (CBB_flush p) (ret ())) p []"
    unfolding flush_ret by (rule appends_CBB_flush)
qed (simp_all only: reads_ret empty_subsetI)

lemma converts_seq:
  assumes "converts h f p i i' as" and "converts h f' p i' i'' bs"
  shows "converts h (seq f f') p i i'' (as @ bs)"
proof -
  from assms obtain g g' where "reads f i i' g" "appends {p<..p + h} (seq (CBB_flush p) g) p as"
    and "reads f' i' i'' g'" "appends {p<..p + h} (seq (CBB_flush p) g') p bs"
    by (auto simp: converts_def)
  then show ?thesis
    unfolding converts_def
    by (intro exI [of _ "seq g g'"] conjI reads_seq) (auto simp flip: bnd_assoc intro: appends_seq_idle)
qed

lemma converts_add_bytes:
  assumes "length c < 2 ^ 64"
  shows "converts h (on_out (CBB_add_bytes p c)) p i i c"
proof (rule converts_intro)
  show "appends {} (seq (CBB_flush p) (CBB_add_bytes p c)) p c"
    using appends_seq [OF appends_CBB_flush appends_CBB_add_bytes [OF assms]] by simp
qed (simp_all only: reads_on_out empty_subsetI)

lemma converts_flush: "converts h (on_out (CBB_flush p)) p i i []"
proof (rule converts_intro)
  show "appends {} (seq (CBB_flush p) (CBB_flush p)) p []"
    using appends_seq [OF appends_CBB_flush appends_CBB_flush] by simp
qed (simp_all only: reads_on_out empty_subsetI)

lemma converts_with_in: "converts h f p c c' bs \<Longrightarrow> converts h (with_in c f) p i i bs"
  unfolding converts_def by (auto intro: reads_with_in)

lemma converts_Suc:
  assumes "converts h f p i i' bs" and "h \<le> h'"
  shows "converts h' f p i i' bs"
proof -
  from assms(1) obtain g where "reads f i i' g" "appends {p<..p + h} (seq (CBB_flush p) g) p bs"
    by (auto simp: converts_def)
  then show ?thesis
    by (rule converts_intro) (use assms(2) in auto)
qed

text \<open>The contents of an element go to a child of the output, or to the output within a string.\<close>

lemma converts_child:
  assumes f: "converts h f (Suc p) i i' bs" and t: "short_tag t" and len: "length bs \<le> 0xfffffffe"
  shows "converts (Suc h) (seq (on_out (CBB_add_asn1 p (Suc p) (ucast t))) (seq f (on_out (CBB_flush p)))) p i i'
    (der t bs)"
proof -
  from f obtain g where g: "reads f i i' g" "appends {Suc p<..Suc p + h} (seq (CBB_flush (Suc p)) g) (Suc p) bs"
    by (auto simp: converts_def)
  let ?add = "CBB_add_asn1 p (Suc p) (ucast t)"
  have "appends (insert (Suc p) {Suc p<..Suc p + h}) (seq ?add (seq g (CBB_flush p))) p
      ([t] @ der_len (length bs) @ bs)"
    by (rule appends_child_idle [OF opens_CBB_add_asn1 [OF t] g(2)]) (use len in simp_all)
  then have "appends {p<..p + Suc h} (seq ?add (seq g (CBB_flush p))) p (der t bs)"
    by (auto simp: der_def intro: appends_mono)
  then have "appends {p<..p + Suc h} (seq (CBB_flush p) (seq ?add (seq g (CBB_flush p)))) p ([] @ der t bs)"
    by (intro appends_seq appends_mono [OF appends_CBB_flush, of "{p<..p + Suc h}"]) simp_all
  moreover have "reads (seq (on_out ?add) (seq f (on_out (CBB_flush p)))) i i' (seq ?add (seq g (CBB_flush p)))"
    by (intro reads_seq [OF reads_on_out] reads_seq [OF g(1)] reads_on_out)
  ultimately show ?thesis
    unfolding converts_def by auto
qed

definition out_tag :: "byte \<Rightarrow> byte" where
  "out_tag t = (if t AND 0x20 \<noteq> 0 \<and> is_string_tag t then primitive_tag t else t)"

lemma short_out_tag: "short_tag t \<Longrightarrow> short_tag (out_tag t)"
proof -
  have "primitive_tag t AND 0x1f = t AND (NOT 0x20 AND 0x1f)"
    by (simp only: primitive_tag_def and.assoc)
  then have "primitive_tag t AND 0x1f = t AND 0x1f" by simp
  then show "short_tag t \<Longrightarrow> short_tag (out_tag t)"
    by (auto simp: out_tag_def short_tag_def)
qed

lemma ucast_eq_0_byte: "(ucast (b :: byte) :: u32) = 0 \<longleftrightarrow> b = 0"
  using ucast_byte_u32_inj [of b 0] by simp

text \<open>One element: \<open>body\<close> appends the contents to where they belong.\<close>

lemma convert_element_eq:
  assumes "st \<noteq> 0 \<longrightarrow> primitive_tag t = st"
  shows "convert_element inner p (ucast st) contents (ucast t) hl =
    (let q = (if st \<noteq> 0 then p else Suc p);
         st' = (if t AND 0x20 \<noteq> 0 then child_string st t else st) in
     seq (if st \<noteq> 0 then ret () else on_out (CBB_add_asn1 p (Suc p) (ucast (out_tag t))))
       (if indefinite contents hl then seq (inner q (ucast st') True) (on_out (CBB_flush p))
        else case CBS_skip (unat hl) contents of
            (Ret _, contents') \<Rightarrow>
              seq (if t AND 0x20 \<noteq> 0 then with_in contents' (inner q (ucast st') False)
                   else on_out (CBB_add_bytes q (CBS_data contents')))
                (on_out (CBB_flush p))
          | _ \<Rightarrow> fail))"
proof -
  have tag: "(ucast t :: u32) AND 0x20 \<noteq> 0 \<longleftrightarrow> t AND 0x20 \<noteq> 0"
    "(ucast t :: u32) AND NOT 0x20 = ucast (primitive_tag t)"
    "is_string_type (ucast t) = is_string_tag t"
    by (simp_all only: tag_bits_u32 primitive_tag_def is_string_tag_def)
  show ?thesis
    unfolding convert_element_def tag ucast_eq_0_byte ucast_byte_u32_inj
    using assms by (cases "st = 0"; cases "t AND 0x20 = 0"; cases "is_string_tag t")
      (simp_all add: Let_def out_tag_def child_string_def split: prod.splits res.splits)
qed

lemma converts_element:
  assumes body: "converts h body (if st \<noteq> 0 then p else Suc p) i i' c"
    and t: "short_tag t" and len: "length c \<le> 0xfffffffe"
  shows "converts (Suc h) (seq (if st \<noteq> 0 then ret () else on_out (CBB_add_asn1 p (Suc p) (ucast (out_tag t))))
      (seq body (on_out (CBB_flush p)))) p i i' (if st = 0 then der (out_tag t) c else c)"
proof (cases "st = 0")
  case True
  then show ?thesis
    using converts_child [OF _ short_out_tag [OF t] len] body by simp
next
  case False
  with body have "converts (Suc h) body p i i' c"
    by (auto intro: converts_Suc)
  then have "converts (Suc h) (seq body (on_out (CBB_flush p))) p i i' (c @ [])"
    by (rule converts_seq) (rule converts_flush)
  with False show ?thesis by (simp del: ret_apply)
qed

text \<open>A round of the loop, and its two ends.\<close>

abbreviation (input) tail_of :: "bool \<Rightarrow> byte list \<Rightarrow> byte list" where
  "tail_of eoc r \<equiv> (if eoc then 0 # 0 # r else [])"

lemma converts_on_input:
  assumes "\<And>w. f (i, w) = f' (j, w)" and "converts h f' p j i' bs"
  shows "converts h f p i i' bs"
  using assms by (simp add: converts_def reads_def)

lemma convert_loop_end:
  "converts h (convert_loop (Suc n) inner p st eoc) p (tail_of eoc r) (if eoc then r else []) []"
proof (cases eoc)
  case True
  show ?thesis
  proof (rule converts_on_input [where f' = "ret ()" and j = r])
    show "convert_loop (Suc n) inner p st eoc (tail_of eoc r, w) = ret () (r, w)" for w
      using True element_marks(5) [of "[]"] by (simp add: CBS_len_def on_in_def ber_element_eoc bnd_def)
  qed (use True in \<open>simp add: converts_ret del: ret_apply\<close>)
next
  case False
  show ?thesis
  proof (rule converts_on_input [where f' = "ret ()" and j = "[]"])
    show "convert_loop (Suc n) inner p st eoc (tail_of eoc r, w) = ret () ([], w)" for w
      using False by (simp add: CBS_len_def)
  qed (use False in \<open>simp add: converts_ret del: ret_apply\<close>)
qed

lemma convert_loop_round:
  assumes "CBS_get_any_ber_asn1_element i = (Ret (contents, tag, hl), i1)" and "\<not> is_eoc hl contents"
    and "i \<noteq> []"
    and "converts h (convert_element inner p st contents tag hl) p i1 i2 as"
    and "converts h (convert_loop n inner p st eoc) p i2 i3 bs"
  shows "converts h (convert_loop (Suc n) inner p st eoc) p i i3 (as @ bs)"
proof (rule converts_on_input)
  show "convert_loop (Suc n) inner p st eoc (i, w) =
      seq (convert_element inner p st contents tag hl) (convert_loop n inner p st eoc) (i1, w)" for w
    using assms(1,2,3) by (simp add: CBS_len_def on_in_def bnd_def)
  show "converts h (seq (convert_element inner p st contents tag hl) (convert_loop n inner p st eoc)) p i1 i3 (as @ bs)"
    using assms(4,5) by (rule converts_seq)
qed

lemma child_string_primitive: "st AND 0x20 = 0 \<Longrightarrow> child_string st t AND 0x20 = 0"
  by (simp add: child_string_def primitive_tag_def and.assoc)

text \<open>All of the conversion at one level, given what the level below does.\<close>

lemma convert_one:
  assumes inner: "\<And>st cs p eoc r. \<forall>e \<in> set cs. ber_ok st e \<and> height e < h \<Longrightarrow> st AND 0x20 = 0 \<Longrightarrow> 0 < h \<Longrightarrow>
      converts h (inner p (ucast st) eoc) p (list_bytes cs @ tail_of eoc r) (if eoc then r else [])
        (concat (map (out_bytes st) cs))"
    and e: "ber_ok st e" "height e \<le> h" and st: "st AND 0x20 = 0"
  shows "\<exists>contents tag hl i1. CBS_get_any_ber_asn1_element (ber_bytes e @ r) = (Ret (contents, tag, hl), i1) \<and>
    \<not> is_eoc hl contents \<and> converts (Suc h) (convert_element inner p (ucast st) contents tag hl) p i1 r (out_bytes st e)"
proof (cases e)
  case (Prim t c)
  have c: "short_tag t" "t AND 0x20 = 0" "length c < 2 ^ 32" "length c \<le> 0xfffffffe" "(t, c) \<noteq> (0, [])"
    "st \<noteq> 0 \<longrightarrow> primitive_tag t = st"
    using e(1) by (auto simp: Prim)
  let ?hl = "of_nat (header_size (length c)) :: u64"
  have "converts h (on_out (CBB_add_bytes (if st \<noteq> 0 then p else Suc p) c)) (if st \<noteq> 0 then p else Suc p) r r c"
    using c(3) by (intro converts_add_bytes) simp
  from converts_element [OF this c(1,4)]
  have "converts (Suc h) (convert_element inner p (ucast st) (der t c) (ucast t) ?hl) p r r (out_bytes st e)"
    unfolding convert_element_eq [OF c(6)]
    using c(2) skip_der [OF c(3)] element_marks(1) [OF c(3), of t]
    by (cases "st = 0") (simp_all add: Prim Let_def out_tag_def CBS_data_def del: ret_apply)
  then show ?thesis
    using ber_element_der [OF c(1,3)] element_marks(2) [OF c(3), of t] c(5) by (auto simp: Prim)
next
  case (Constr t cs)
  let ?c = "list_bytes cs" and ?st = "child_string st t"
  let ?out = "concat (map (out_bytes ?st) cs)"
  have c: "short_tag t" "t AND 0x20 \<noteq> 0" "length ?c < 2 ^ 32" "length ?out \<le> 0xfffffffe"
    "st \<noteq> 0 \<longrightarrow> primitive_tag t = st" "\<forall>e \<in> set cs. ber_ok ?st e \<and> height e < h" "0 < h"
    using e by (auto simp: Constr height_children_less)
  let ?hl = "of_nat (header_size (length ?c)) :: u64" and ?q = "if st \<noteq> 0 then p else Suc p"
  have "converts h (inner ?q (ucast ?st) False) ?q (?c @ tail_of False []) [] ?out"
    using inner [OF c(6) child_string_primitive [OF st] c(7), of ?q False] by simp
  then have "converts h (with_in ?c (inner ?q (ucast ?st) False)) ?q r r ?out"
    by (intro converts_with_in) simp
  from converts_element [OF this c(1,4)]
  have "converts (Suc h) (convert_element inner p (ucast st) (der t ?c) (ucast t) ?hl) p r r (out_bytes st e)"
    unfolding convert_element_eq [OF c(5)]
    using c(2) skip_der [OF c(3)] element_marks(1) [OF c(3), of t]
    by (cases "st = 0") (simp_all add: Constr Let_def out_tag_def CBS_data_def del: ret_apply)
  then show ?thesis
    using ber_element_der [OF c(1,3)] element_marks(2) [OF c(3), of t] c(2) by (auto simp: Constr)
next
  case (Indef t cs)
  let ?c = "list_bytes cs" and ?st = "child_string st t"
  let ?out = "concat (map (out_bytes ?st) cs)" and ?q = "if st \<noteq> 0 then p else Suc p"
  have c: "short_tag t" "t AND 0x20 \<noteq> 0" "length ?out \<le> 0xfffffffe"
    "st \<noteq> 0 \<longrightarrow> primitive_tag t = st" "\<forall>e \<in> set cs. ber_ok ?st e \<and> height e < h" "0 < h"
    using e by (auto simp: Indef height_children_less)
  have "converts h (inner ?q (ucast ?st) True) ?q (?c @ tail_of True r) r ?out"
    using inner [OF c(5) child_string_primitive [OF st] c(6), of ?q True r] by simp
  then have "converts h (inner ?q (ucast ?st) True) ?q (?c @ 0 # 0 # r) r ?out"
    by simp
  from converts_element [OF this c(1,3)]
  have "converts (Suc h) (convert_element inner p (ucast st) [t, 0x80] (ucast t) 2) p (?c @ 0 # 0 # r) r (out_bytes st e)"
    unfolding convert_element_eq [OF c(4)]
    using c(2) element_marks(3) [of "[]" t]
    by (cases "st = 0") (simp_all add: Indef Let_def out_tag_def del: ret_apply)
  then show ?thesis
    using ber_element_indefinite [OF c(1,2), of "?c @ 0 # 0 # r"] element_marks(4) [of "[]" t]
    by (auto simp: Indef)
qed

lemma convert_loop_list:
  assumes inner: "\<And>st cs p eoc r. \<forall>e \<in> set cs. ber_ok st e \<and> height e < h \<Longrightarrow> st AND 0x20 = 0 \<Longrightarrow> 0 < h \<Longrightarrow>
      converts h (inner p (ucast st) eoc) p (list_bytes cs @ tail_of eoc r) (if eoc then r else [])
        (concat (map (out_bytes st) cs))"
    and st: "st AND 0x20 = 0"
  shows "\<forall>e \<in> set es. ber_ok st e \<and> height e \<le> h \<Longrightarrow> length es < n \<Longrightarrow>
    converts (Suc h) (convert_loop n inner p (ucast st) eoc) p (list_bytes es @ tail_of eoc r)
      (if eoc then r else []) (concat (map (out_bytes st) es))"
proof (induction es arbitrary: n)
  case Nil
  then obtain m where "n = Suc m" by (cases n) auto
  then show ?case
    using convert_loop_end [of "Suc h" m inner p "ucast st" eoc r] by simp
next
  case (Cons e es)
  then obtain m where n: "n = Suc m" by (cases n) auto
  let ?i = "list_bytes es @ tail_of eoc r"
  have "ber_ok st e" "height e \<le> h"
    using Cons.prems by simp_all
  from convert_one [of h inner, OF inner this st] obtain contents tag hl i1 where
    round: "CBS_get_any_ber_asn1_element (ber_bytes e @ ?i) = (Ret (contents, tag, hl), i1)"
      "\<not> is_eoc hl contents"
      "converts (Suc h) (convert_element inner p (ucast st) contents tag hl) p i1 ?i (out_bytes st e)"
    by blast
  have "converts (Suc h) (convert_loop m inner p (ucast st) eoc) p ?i (if eoc then r else [])
      (concat (map (out_bytes st) es))"
    using Cons.prems n by (intro Cons.IH) simp_all
  moreover have "ber_bytes e @ ?i \<noteq> []"
    by (cases e) simp_all
  ultimately have "converts (Suc h) (convert_loop (Suc m) inner p (ucast st) eoc) p (ber_bytes e @ ?i)
      (if eoc then r else []) (out_bytes st e @ concat (map (out_bytes st) es))"
    using round by (intro convert_loop_round)
  then show ?case by (simp add: n)
qed

lemma length_list_bytes: "length es \<le> length (list_bytes es)"
proof (induction es)
  case (Cons e es)
  have "ber_bytes e \<noteq> []" by (cases e) simp_all
  with Cons show ?case by (cases "ber_bytes e") simp_all
qed simp

lemma convert_list_step:
  assumes loop: "converts h (convert_loop (Suc (length i)) (cbs_convert_ber l) p (ucast st) eoc) p i i' bs"
    and st: "(st :: byte) AND 0x20 = 0"
  shows "converts h (cbs_convert_ber (Suc l) p (ucast st) eoc) p i i' bs"
proof (rule converts_on_input [OF _ loop])
  fix w
  have "(ucast st :: u32) AND 0x20 = 0"
    unfolding tag_bits_u32 by (rule st)
  then show "cbs_convert_ber (Suc l) p (ucast st) eoc (i, w) =
      convert_loop (Suc (length i)) (cbs_convert_ber l) p (ucast st) eoc (i, w)"
    by (subst cbs_convert_ber.simps) simp
qed

lemma convert_list:
  "\<forall>e \<in> set es. ber_ok st e \<and> height e \<le> h \<Longrightarrow> st AND 0x20 = 0 \<Longrightarrow> h < levels \<Longrightarrow>
   converts (Suc h) (cbs_convert_ber levels p (ucast st) eoc) p (list_bytes es @ tail_of eoc r) (if eoc then r else [])
     (concat (map (out_bytes st) es))"
proof (induction h arbitrary: levels st es p eoc r)
  case (0 levels st es p eoc r)
  then obtain l where l: "levels = Suc l" by (cases levels) auto
  have "length es < Suc (length (list_bytes es @ tail_of eoc r))"
    using length_list_bytes [of es] by simp
  with 0(1,2) show ?case
    unfolding l by (intro convert_list_step convert_loop_list) simp_all
next
  case (Suc h levels st es p eoc r)
  then obtain l where l: "levels = Suc l" "h < l" by (cases levels) auto
  have inner: "converts (Suc h) (cbs_convert_ber l q (ucast st') eoc') q (list_bytes cs @ tail_of eoc' r')
      (if eoc' then r' else []) (concat (map (out_bytes st') cs))"
    if "\<forall>e \<in> set cs. ber_ok st' e \<and> height e < Suc h" "st' AND 0x20 = 0" for st' cs q eoc' r'
    by (rule Suc.IH) (use that l(2) in \<open>simp_all add: less_Suc_eq_le\<close>)
  have "length es < Suc (length (list_bytes es @ tail_of eoc r))"
    using length_list_bytes [of es] by simp
  with Suc.prems(1,2) show ?case
    unfolding l(1) by (intro convert_list_step convert_loop_list inner)
qed

section \<open>What the conversion guarantees\<close>

lemma find_ber_eq:
  assumes "\<forall>e \<in> set es. ber_ok 0 e \<and> height e \<le> kMaxDepth"
  shows "cbs_find_ber (kMaxDepth + 1) (list_bytes es) = Some (walk False es)"
  using find_ber_loop_eq [OF assms] by simp

lemma convert_in_builder:
  assumes b: "builder s [] p [] []" and top: "is_top_level (cbb_at s p)" and room: "room s (length bs)"
    and f: "converts h f p i i' bs" and pool: "p + h < length (cbbs s)"
  shows "\<exists>s'. bnd f (\<lambda>_. bnd (on_out (CBB_finish p True)) (\<lambda>out. ret (Some out))) (i, s) = (Ret (Some bs), (i', s'))"
proof -
  from f obtain g where g: "reads f i i' g" "appends {p<..p + h} (seq (CBB_flush p) g) p bs"
    by (auto simp: converts_def)
  have none: "{p<..p + h} \<subseteq> {..<length (cbbs s)}" "{p<..p + h} \<inter> insert p (fst ` set ([] :: frame list)) = {}"
    using pool by auto
  from g(2) b none show ?thesis
  proof (cases rule: appends_cases)
    case (1 s1 x)
    then have "g s = (Ret (), s1)"
      using flush_idle [OF b] by simp
    then have "f (i, s) = (Ret (), (i', s1))"
      using g(1) [unfolded reads_def, rule_format, of s] by (simp add: prod_eq_iff)
    moreover have "fst (CBB_finish p True s1) = Ret bs"
      using 1(2-5) top room room_same_but [OF 1(4)] by (intro finish_builder) auto
    then obtain s2 where "CBB_finish p True s1 = (Ret bs, s2)"
      by (cases "CBB_finish p True s1") auto
    ultimately show ?thesis
      by (simp add: on_out_def bnd_def)
  next
    case (2 s1)
    then show ?thesis using room by simp
  qed
qed

text \<open>
  On any sequence of BER elements nested at most \<open>kMaxDepth\<close> deep, the conversion returns
  \<open>der_bytes\<close> of all of them and uses up the input when the walk reports BER, and leaves the input
  alone otherwise.
\<close>

lemma ber_to_der_run:
  assumes "\<forall>e \<in> set es. ber_ok 0 e \<and> height e \<le> kMaxDepth" and "cbb + Suc kMaxDepth < length (cbbs w)"
    and "\<forall>m. realloc_ok w m" and "length (concat (map der_bytes es)) < 2 ^ 64"
  shows "\<exists>w'. CBS_asn1_ber_to_der cbb True (list_bytes es, w) =
    (if walk False es then (Ret (Some (concat (map der_bytes es))), ([], w'))
     else (Ret None, (list_bytes es, w')))"
proof (cases "walk False es")
  case True
  let ?i = "list_bytes es" and ?bs = "concat (map der_bytes es)"
  have "cbb < length (cbbs w)" using assms(2) by simp
  from init_builder [OF this assms(3), of "of_nat (CBS_len ?i)"] obtain s where
    s: "CBB_init cbb (of_nat (CBS_len ?i)) True w = (Ret (), s)" "builder s [] cbb [] []"
      "is_top_level (cbb_at s cbb)" "can_resize s" "realloc_ok s = realloc_ok w" "length (cbbs s) = length (cbbs w)" .
  have "converts (Suc kMaxDepth) (cbs_convert_ber (kMaxDepth + 1) cbb (ucast (0 :: byte)) False) cbb
      (?i @ tail_of False []) (if False then [] else []) ?bs"
    using assms(1) by (intro convert_list) simp_all
  then have "converts (Suc kMaxDepth) (cbs_convert_ber (kMaxDepth + 1) cbb 0 False) cbb ?i [] ?bs"
    by simp
  moreover have "room s (length ?bs)"
    using s assms(3,4) by (simp add: room_def)
  ultimately obtain s' where "bnd (cbs_convert_ber (kMaxDepth + 1) cbb 0 False)
      (\<lambda>_. bnd (on_out (CBB_finish cbb True)) (\<lambda>out. ret (Some out))) (?i, s) = (Ret (Some ?bs), ([], s'))"
    using convert_in_builder [OF s(2,3)] assms(2) s(6) by fastforce
  then show ?thesis
    using True s(1) find_ber_eq [OF assms(1)]
    by (simp add: CBS_asn1_ber_to_der_def cleanup_if_failed_def on_out_def bnd_def)
next
  case False
  then show ?thesis
    using find_ber_eq [OF assms(1)] by (simp add: CBS_asn1_ber_to_der_def)
qed

text \<open>Elements that are DER already: no indefinite lengths and no constructed strings.\<close>

fun der_only :: "ber \<Rightarrow> bool" where
  "der_only (Prim t c) = True"
| "der_only (Constr t es) = (\<not> is_string_tag t \<and> (\<forall>e \<in> set es. der_only e))"
| "der_only (Indef t es) = False"

lemma walk_der_only: "\<forall>e \<in> set es. der_only e \<Longrightarrow> walk False es = False"
proof (induction es)
  case (Cons e es)
  have "walk False es = False" if "\<forall>e \<in> set es. der_only e" for es
    using that by (induction False es rule: walk.induct) auto
  with Cons.prems show ?case by blast
qed simp

text \<open>
  The DER form of a tree: constructed elements have definite lengths, and a string is one primitive
  element with the contents of its parts, in order.
\<close>

fun string_octets :: "ber \<Rightarrow> byte list" where
  "string_octets (Prim t c) = c"
| "string_octets (Constr t es) = concat (map string_octets es)"
| "string_octets (Indef t es) = concat (map string_octets es)"

fun to_der :: "ber \<Rightarrow> ber" where
  "to_der (Prim t c) = Prim t c"
| "to_der (Constr t es) =
     (if is_string_tag t then Prim (primitive_tag t) (concat (map string_octets es))
      else Constr t (map to_der es))"
| "to_der (Indef t es) =
     (if is_string_tag t then Prim (primitive_tag t) (concat (map string_octets es))
      else Constr t (map to_der es))"

lemma primitive_tag_simps:
  "primitive_tag t AND 0x20 = 0" "primitive_tag t AND 0x1f = t AND 0x1f"
  by (simp_all add: primitive_tag_def and.assoc)

lemma string_tag_nonzero:
  assumes "is_string_tag t"
  shows "primitive_tag t \<noteq> 0"
proof
  assume "primitive_tag t = 0"
  then have "t AND 0x1f = 0"
    using primitive_tag_simps(2) [of t] by simp
  moreover have "(ucast t :: u32) AND 0x1f = ucast (t AND 0x1f)"
    by (simp add: unsigned_and_eq)
  ultimately show False
    using assms by (simp add: is_string_tag_def is_string_type_def split: if_splits)
qed

lemma out_bytes_string: "st \<noteq> 0 \<Longrightarrow> out_bytes st e = string_octets e"
  by (induction e) (auto simp: child_string_def cong: map_cong)

lemma out_bytes_parts:
  "is_string_tag t \<Longrightarrow> map (out_bytes (primitive_tag t)) es = map string_octets es"
  using string_tag_nonzero by (simp add: out_bytes_string)

lemma out_bytes_der_only: "der_only e \<Longrightarrow> der_bytes e = ber_bytes e"
  by (induction e rule: der_only.induct) (auto simp: child_string_def Let_def cong: map_cong)

lemma ber_bytes_to_der [simp]: "ber_bytes (to_der e) = der_bytes e"
  by (induction e rule: to_der.induct)
    (auto simp: child_string_def out_bytes_parts Let_def comp_def intro!: arg_cong [of _ _ "der _"] arg_cong [of _ _ concat])

lemma der_only_to_der [simp]: "der_only (to_der e)"
  by (induction e rule: to_der.induct) auto

lemma max_le_max: "(\<And>e. e \<in> set es \<Longrightarrow> f e \<le> height e) \<Longrightarrow> foldr max (map f es) 0 \<le> foldr max (map height es) 0"
proof (induction es)
  case (Cons e es)
  then have "f e \<le> height e" "foldr max (map f es) 0 \<le> foldr max (map height es) 0" by simp_all
  then show ?case
    unfolding list.map foldr_Cons comp_apply by (rule max.mono)
qed simp

lemma out_bytes_to_der [simp]: "der_bytes (to_der e) = der_bytes e"
  by (simp add: out_bytes_der_only)

lemma to_der_string:
  assumes "is_string_tag t" and "short_tag t" and "length c \<le> 0xfffffffe"
  shows "ber_ok 0 (Prim (primitive_tag t) c)"
  using string_tag_nonzero [OF assms(1)] assms(2,3) by (simp add: short_tag_def primitive_tag_simps)

lemma to_der_constructed:
  assumes ih: "\<And>e. e \<in> set es \<Longrightarrow> ber_ok 0 e \<Longrightarrow> ber_ok 0 (to_der e) \<and> height (to_der e) \<le> height e"
    and "short_tag t" and "t AND 0x20 \<noteq> 0" and "\<not> is_string_tag t" and "\<forall>e \<in> set es. ber_ok 0 e"
    and len: "length (concat (map der_bytes es)) \<le> 0xfffffffe"
  shows "ber_ok 0 (Constr t (map to_der es)) \<and> height (Constr t (map to_der es)) \<le> Suc (foldr max (map height es) 0)"
proof
  have "child_string 0 t = 0"
    using assms(4) by (simp add: child_string_def)
  then show "ber_ok 0 (Constr t (map to_der es))"
    using assms by (simp add: comp_def)
  have "foldr max (map (\<lambda>e. height (to_der e)) es) 0 \<le> foldr max (map height es) 0"
    using ih assms(5) by (intro max_le_max) simp
  then show "height (Constr t (map to_der es)) \<le> Suc (foldr max (map height es) 0)"
    by (simp add: comp_def)
qed

lemma ber_ok_to_der: "ber_ok 0 e \<Longrightarrow> ber_ok 0 (to_der e) \<and> height (to_der e) \<le> height e"
proof (induction e)
  case (Constr t es)
  show ?case
  proof (cases "is_string_tag t")
    case True
    have "ber_ok 0 (Prim (primitive_tag t) (concat (map string_octets es)))"
      using Constr.prems True by (intro to_der_string) (simp_all add: child_string_def out_bytes_parts)
    with True show ?thesis by (simp del: ber_ok.simps)
  next
    case False
    then have "ber_ok 0 (Constr t (map to_der es)) \<and> height (Constr t (map to_der es)) \<le> Suc (foldr max (map height es) 0)"
      using Constr.prems by (intro to_der_constructed Constr.IH) (simp_all add: child_string_def)
    with False show ?thesis by (simp del: ber_ok.simps)
  qed
next
  case (Indef t es)
  show ?case
  proof (cases "is_string_tag t")
    case True
    have "ber_ok 0 (Prim (primitive_tag t) (concat (map string_octets es)))"
      using Indef.prems True by (intro to_der_string) (simp_all add: child_string_def out_bytes_parts)
    with True show ?thesis by (simp del: ber_ok.simps)
  next
    case False
    then have "ber_ok 0 (Constr t (map to_der es)) \<and> height (Constr t (map to_der es)) \<le> Suc (foldr max (map height es) 0)"
      using Indef.prems by (intro to_der_constructed Indef.IH) (simp_all add: child_string_def)
    with False show ?thesis by (simp del: ber_ok.simps)
  qed
qed simp

section \<open>Which BER is found\<close>

text \<open>
  BER is exposed in an element when the element is BER itself, or a child of it is, or BER is exposed
  in a child that only primitive elements follow. It is hidden when it is inside a definite-length
  element that another constructed element follows.
\<close>

fun is_ber :: "ber \<Rightarrow> bool" where
  "is_ber (Prim t c) = False"
| "is_ber (Constr t es) = is_string_tag t"
| "is_ber (Indef t es) = True"

fun is_prim :: "ber \<Rightarrow> bool" where
  "is_prim (Prim t c) = True"
| "is_prim e = False"

fun exposed :: "ber \<Rightarrow> bool" and exposed_in :: "ber list \<Rightarrow> bool" where
  "exposed (Prim t c) = False"
| "exposed (Indef t es) = True"
| "exposed (Constr t es) = (is_string_tag t \<or> exposed_in es)"
| "exposed_in [] = False"
| "exposed_in (e # es) = (is_ber e \<or> exposed e \<and> list_all is_prim es \<or> exposed_in es)"

lemma walk_prims: "list_all is_prim es \<Longrightarrow> walk found es = found"
  by (induction found es rule: walk.induct) auto

lemma walk_exposed_in: "walk found es \<longleftrightarrow> found \<and> list_all is_prim es \<or> exposed_in es"
proof (induction found es rule: walk.induct)
  case (4 found t cs es)
  then show ?case by auto
qed auto

lemma walk_exposed: "walk False [e] = exposed e"
  by (cases e) (simp_all add: walk_exposed_in)





text \<open>A SEQUENCE of indefinite length with an OCTET STRING in two parts and an INTEGER.\<close>

definition demo_ber :: ber where
  "demo_ber = Indef 0x30 [Constr 0x24 [Prim 4 [1], Prim 4 [2, 3]], Prim 2 [5]]"




lemma demo_ber_ok: "ber_ok 0 demo_ber" "height demo_ber \<le> kMaxDepth"
  by (simp_all add: demo_ber_def der_def der_len_def child_string_def is_string_tag_def is_string_type_def
    primitive_tag_def short_tag_def kMaxDepth_def)


text \<open>Elements whose BER is hidden are taken for DER.\<close>

lemma hidden_ber_is_left:
  assumes "ber_ok 0 e" and "height e \<le> kMaxDepth" and "\<not> exposed e"
  shows "CBS_asn1_ber_to_der cbb ok (ber_bytes e, w) = (Ret None, (ber_bytes e, w))"
proof -
  have "\<forall>x \<in> set [e]. ber_ok 0 x \<and> height x \<le> kMaxDepth"
    using assms(1,2) by simp
  then have "cbs_find_ber (kMaxDepth + 1) (ber_bytes e) = Some False"
    using find_ber_eq [of "[e]"] assms(3) walk_exposed [of e] by simp
  then show ?thesis
    by (simp add: CBS_asn1_ber_to_der_def del: cbs_find_ber.simps)
qed

text \<open>
  In this SEQUENCE of a SEQUENCE with a constructed string, an empty SEQUENCE and a NULL, the walk
  into the empty SEQUENCE resets the result of the one before.
\<close>

definition overlooked :: ber where
  "overlooked = Constr 0x30 [Constr 0x30 [Constr 0x24 [Prim 4 [9]]], Constr 0x30 [], Prim 5 []]"

lemma ber_overlooked:
  "CBS_asn1_ber_to_der cbb ok ([0x30, 11, 0x30, 5, 0x24, 3, 4, 1, 9, 0x30, 0, 5, 0], w) =
     (Ret None, ([0x30, 11, 0x30, 5, 0x24, 3, 4, 1, 9, 0x30, 0, 5, 0], w)) \<and>
   ber_bytes (to_der overlooked) = [0x30, 9, 0x30, 3, 4, 1, 9, 0x30, 0, 5, 0]"
proof -
  have bytes: "ber_bytes overlooked = [0x30, 11, 0x30, 5, 0x24, 3, 4, 1, 9, 0x30, 0, 5, 0]"
    "ber_bytes (to_der overlooked) = [0x30, 9, 0x30, 3, 4, 1, 9, 0x30, 0, 5, 0]"
    by (simp_all add: overlooked_def der_def der_len_def is_string_tag_def is_string_type_def primitive_tag_def)
  have "ber_ok 0 overlooked" "height overlooked \<le> kMaxDepth" "\<not> exposed overlooked"
    by (simp_all add: overlooked_def der_def der_len_def child_string_def is_string_tag_def is_string_type_def
      primitive_tag_def short_tag_def kMaxDepth_def)
  from hidden_ber_is_left [OF this] show ?thesis
    unfolding bytes by blast
qed

text \<open>
  The parts of a constructed BIT STRING are put together with their counts of unused bits: two parts
  \<open>00 01\<close> and \<open>00 02\<close>, of eight bits each, give the contents \<open>00 01 00 02\<close>, of 24 bits.
\<close>

lemma bit_string_parts:
  assumes "cbb + Suc kMaxDepth < length (cbbs w)" and "\<forall>m. realloc_ok w m"
  shows "\<exists>w'. CBS_asn1_ber_to_der cbb True ([0x23, 8, 3, 2, 0, 1, 3, 2, 0, 2], w) =
    (Ret (Some [3, 4, 0, 1, 0, 2]), ([], w'))"
proof -
  let ?e = "Constr 0x23 [Prim 3 [0, 1], Prim 3 [0, 2]]"
  have "\<forall>x \<in> set [?e]. ber_ok 0 x \<and> height x \<le> kMaxDepth" "length (concat (map der_bytes [?e])) < 2 ^ 64"
    "list_bytes [?e] = [0x23, 8, 3, 2, 0, 1, 3, 2, 0, 2]" "concat (map der_bytes [?e]) = [3, 4, 0, 1, 0, 2]"
    "walk False [?e]"
    by (simp_all add: der_def der_len_def child_string_def is_string_tag_def is_string_type_def
      primitive_tag_def short_tag_def kMaxDepth_def)
  with ber_to_der_run [of "[?e]" cbb w] assms show ?thesis
    by simp
qed

section \<open>What the conversion writes\<close>

text \<open>
  what the conversion writes is DER: given back to it, it is reported to need no conversion,
  and is left alone.
\<close>

theorem ber_to_der_output:
  assumes "\<forall>e \<in> set es. ber_ok 0 e \<and> height e \<le> kMaxDepth"
  shows "CBS_asn1_ber_to_der cbb ok (concat (map der_bytes es), w) = (Ret None, (concat (map der_bytes es), w))"
proof -
  have "ber_ok 0 (to_der e) \<and> height (to_der e) \<le> kMaxDepth" if "e \<in> set es" for e
    using assms that ber_ok_to_der [of e] by (meson le_trans)
  then have "\<forall>e \<in> set (map to_der es). ber_ok 0 e \<and> height e \<le> kMaxDepth"
    by simp
  moreover have "list_bytes (map to_der es) = concat (map der_bytes es)"
    by (simp add: comp_def)
  moreover have "walk False (map to_der es) = False"
    by (rule walk_der_only) simp
  ultimately have "cbs_find_ber (kMaxDepth + 1) (concat (map der_bytes es)) = Some False"
    using find_ber_eq [of "map to_der es"] by simp
  then show ?thesis
    by (simp add: CBS_asn1_ber_to_der_def)
qed

lemma ber_to_der_output_witness:
  "CBS_asn1_ber_to_der 0 True (concat (map der_bytes [demo_ber]), demo_world) =
    (Ret None, (concat (map der_bytes [demo_ber]), demo_world))"
  by (rule ber_to_der_output) (use demo_ber_ok in simp)

end
