(* ===== verification/Buf.thy ===== *)
theory Buf
  imports Bytes
begin

text \<open>
  BoringSSL's growing buffers and bounded string copies (\<open>crypto/buf/buf.c\<close>). A \<open>BUF_MEM\<close> is the
  list of its \<open>length\<close> bytes and the size of its memory; \<open>alloc_ok n\<close> says whether the allocator can
  provide \<open>n\<close> bytes. A C string is a list of bytes with a zero byte in it, and a destination is the
  list of the bytes that are at it.
\<close>

unbundle bit_operations_syntax

section \<open>Buffers\<close>

record buf_mem =
  bm_data :: "byte list"
  bm_max :: u64

definition BUF_MEM_new :: "bool \<Rightarrow> buf_mem option" where
  "BUF_MEM_new malloc_ok = (if \<not> malloc_ok then None else Some \<lparr>bm_data = [], bm_max = 0\<rparr>)"

definition BUF_MEM_reserve :: "(u64 \<Rightarrow> bool) \<Rightarrow> u64 \<Rightarrow> (buf_mem, unit) prog" where
  "BUF_MEM_reserve alloc_ok capacity = (\<lambda>buf.
     if bm_max buf \<ge> capacity then (Ret (), buf)
     else
       let n = capacity + 3 in
       if n < capacity then (Fail, buf)
       else
         let n = n div 3; alloc_size = n * 4 in
         if alloc_size div 4 \<noteq> n then (Fail, buf)
         else if \<not> alloc_ok alloc_size then (Fail, buf)
         else (Ret (), buf\<lparr>bm_max := alloc_size\<rparr>))"

text \<open>The return value is \<open>len\<close>, or 0 for \<open>Fail\<close>.\<close>

definition BUF_MEM_grow :: "(u64 \<Rightarrow> bool) \<Rightarrow> u64 \<Rightarrow> (buf_mem, u64) prog" where
  "BUF_MEM_grow alloc_ok len =
     seq (BUF_MEM_reserve alloc_ok len) (\<lambda>buf.
       (Ret len, buf\<lparr>bm_data :=
          (if length (bm_data buf) < unat len
           then bm_data buf @ replicate (unat len - length (bm_data buf)) 0
           else take (unat len) (bm_data buf))\<rparr>))"

definition BUF_MEM_grow_clean :: "(u64 \<Rightarrow> bool) \<Rightarrow> u64 \<Rightarrow> (buf_mem, u64) prog" where
  "BUF_MEM_grow_clean alloc_ok len = BUF_MEM_grow alloc_ok len"

definition BUF_MEM_append :: "(u64 \<Rightarrow> bool) \<Rightarrow> byte list \<Rightarrow> (buf_mem, unit) prog" where
  "BUF_MEM_append alloc_ok bs = (\<lambda>buf.
     let new_len = of_nat (length (bm_data buf)) + of_nat (length bs) :: u64 in
     if new_len < of_nat (length bs) then (Fail, buf)
     else seq (BUF_MEM_reserve alloc_ok new_len) (\<lambda>buf.
       (Ret (), buf\<lparr>bm_data := bm_data buf @ bs\<rparr>)) buf)"

section \<open>Strings\<close>

definition strlen :: "byte list \<Rightarrow> nat" where
  "strlen s = length (takeWhile (\<lambda>b. b \<noteq> 0) s)"

text \<open>The loop of \<open>BUF_strnlen\<close> from index \<open>i\<close>, with \<open>n\<close> more indexes below \<open>max_len\<close>.\<close>

fun strnlen_loop :: "byte list \<Rightarrow> nat \<Rightarrow> nat \<Rightarrow> nat" where
  "strnlen_loop s 0 i = i"
| "strnlen_loop s (Suc n) i = (if s ! i = 0 then i else strnlen_loop s n (Suc i))"

definition BUF_strnlen :: "byte list \<Rightarrow> nat \<Rightarrow> nat" where
  "BUF_strnlen s max_len = strnlen_loop s max_len 0"

definition BUF_strndup :: "(u64 \<Rightarrow> bool) \<Rightarrow> byte list option \<Rightarrow> nat \<Rightarrow> byte list option" where
  "BUF_strndup alloc_ok str sz =
     (case str of
        None \<Rightarrow> None
      | Some s \<Rightarrow>
          let sz = BUF_strnlen s sz; alloc_size = of_nat sz + 1 :: u64 in
          if alloc_size < of_nat sz then None
          else if \<not> alloc_ok alloc_size then None
          else Some (take sz s @ [0]))"

definition BUF_strdup :: "(u64 \<Rightarrow> bool) \<Rightarrow> byte list option \<Rightarrow> byte list option" where
  "BUF_strdup alloc_ok str =
     (case str of None \<Rightarrow> None | Some s \<Rightarrow> BUF_strndup alloc_ok (Some s) (strlen s))"

text \<open>The results are what is left at the destination and the return value.\<close>

fun BUF_strlcpy :: "byte list \<Rightarrow> byte list \<Rightarrow> nat \<Rightarrow> byte list \<times> nat" where
  "BUF_strlcpy dst src dst_size =
     (if dst_size > 1 \<and> hd src \<noteq> 0
      then let (dst', l) = BUF_strlcpy (tl dst) (tl src) (dst_size - 1) in (hd src # dst', Suc l)
      else (if dst_size \<noteq> 0 then dst[0 := 0] else dst, strlen src))"

fun BUF_strlcat :: "byte list \<Rightarrow> byte list \<Rightarrow> nat \<Rightarrow> byte list \<times> nat" where
  "BUF_strlcat dst src dst_size =
     (if dst_size > 0 \<and> hd dst \<noteq> 0
      then let (dst', l) = BUF_strlcat (tl dst) src (dst_size - 1) in (hd dst # dst', Suc l)
      else BUF_strlcpy dst src dst_size)"

declare BUF_strlcpy.simps [simp del] BUF_strlcat.simps [simp del]

definition BUF_memdup :: "(u64 \<Rightarrow> bool) \<Rightarrow> byte list \<Rightarrow> byte list option" where
  "BUF_memdup alloc_ok data =
     (if length data = 0 then None
      else if \<not> alloc_ok (of_nat (length data)) then None
      else Some data)"

section \<open>What buffers hold\<close>

definition buf_ok :: "buf_mem \<Rightarrow> bool" where
  "buf_ok buf \<longleftrightarrow> length (bm_data buf) \<le> unat (bm_max buf)"

lemma reserve_Ret:
  assumes "BUF_MEM_reserve alloc_ok capacity buf = (Ret u, buf')"
  shows "bm_data buf' = bm_data buf" and "capacity \<le> bm_max buf'" and "bm_max buf \<le> bm_max buf'"
proof -
  have "bm_data buf' = bm_data buf \<and> capacity \<le> bm_max buf' \<and> bm_max buf \<le> bm_max buf'"
  proof (cases "bm_max buf \<ge> capacity")
    case True
    then show ?thesis using assms by (auto simp: BUF_MEM_reserve_def)
  next
    case False
    let ?n = "(capacity + 3) div 3"
    from assms False have "\<not> capacity + 3 < capacity" "?n * 4 div 4 = ?n"
      and buf': "buf' = buf\<lparr>bm_max := ?n * 4\<rparr>"
      by (auto simp: BUF_MEM_reserve_def Let_def split: if_splits)
    from \<open>\<not> capacity + 3 < capacity\<close> have "unat (capacity + 3) = unat capacity + 3"
      by (subst unat_plus_simple [THEN iffD1]) (auto simp: word_le_nat_alt not_less)
    then have n: "unat ?n = (unat capacity + 3) div 3"
      by (simp add: unat_div)
    have "unat (?n * 4) div 4 = unat ?n"
      using arg_cong [OF \<open>?n * 4 div 4 = ?n\<close>, of unat] by (simp add: unat_div)
    then have "4 * unat ?n \<le> unat (?n * 4)"
      by linarith
    moreover have "unat capacity \<le> 4 * ((unat capacity + 3) div 3)"
      by linarith
    ultimately have "capacity \<le> ?n * 4"
      unfolding word_le_nat_alt n by linarith
    with False show ?thesis
      by (simp add: buf')
  qed
  then show "bm_data buf' = bm_data buf" and "capacity \<le> bm_max buf'" and "bm_max buf \<le> bm_max buf'"
    by simp_all
qed

lemma reserve_Fail: "BUF_MEM_reserve alloc_ok capacity buf = (Fail, buf') \<Longrightarrow> buf' = buf"
  by (auto simp: BUF_MEM_reserve_def Let_def split: if_splits)

lemma reserve_not_Stuck [simp]: "BUF_MEM_reserve alloc_ok capacity buf \<noteq> (Stuck, buf')"
  by (auto simp: BUF_MEM_reserve_def Let_def)

lemma unat_sum_le:
  assumes "\<not> (of_nat a + of_nat b :: u64) < of_nat b" and "b < 2 ^ 64" and "a < 2 ^ 64"
  shows "unat (of_nat a + of_nat b :: u64) = a + b"
proof -
  have "of_nat b \<le> (of_nat b + of_nat a :: u64)"
    using assms(1) by (simp add: add.commute not_less)
  then have "unat (of_nat b + of_nat a :: u64) = unat (of_nat b :: u64) + unat (of_nat a :: u64)"
    by (rule unat_plus_simple [THEN iffD1])
  then show ?thesis
    using assms(2,3) by (simp add: unat_of_nat_u64 add.commute)
qed

text \<open>
  \<open>BUF_MEM\<close> operations keep the length within the allocated size, and do what they say:
  \<open>BUF_MEM_append\<close> adds the bytes at the end and \<open>BUF_MEM_grow\<close> cuts the buffer or extends it with
  zeros; when they fail, because of memory or because a size would overflow, they change nothing.
\<close>

theorem buf_mem_operations:
  assumes "buf_ok buf" and "length bs < 2 ^ 64"
  shows "(case BUF_MEM_append alloc_ok bs buf of
      (Ret _, buf') \<Rightarrow> buf_ok buf' \<and> bm_data buf' = bm_data buf @ bs
    | (Fail, buf') \<Rightarrow> buf' = buf
    | (Stuck, _) \<Rightarrow> False) \<and>
    (case BUF_MEM_grow alloc_ok len buf of
      (Ret n, buf') \<Rightarrow> n = len \<and> buf_ok buf' \<and>
        bm_data buf' = take (unat len) (bm_data buf @ replicate (unat len - length (bm_data buf)) 0)
    | (Fail, buf') \<Rightarrow> buf' = buf
    | (Stuck, _) \<Rightarrow> False)"
proof
  let ?l = "length (bm_data buf)"
  let ?new = "of_nat ?l + of_nat (length bs) :: u64"
  have l: "?l < 2 ^ 64"
    using assms(1) unat_u64_less [of "bm_max buf"] by (simp add: buf_ok_def)
  show "case BUF_MEM_append alloc_ok bs buf of
      (Ret _, buf') \<Rightarrow> buf_ok buf' \<and> bm_data buf' = bm_data buf @ bs
    | (Fail, buf') \<Rightarrow> buf' = buf
    | (Stuck, _) \<Rightarrow> False"
  proof (cases "?new < of_nat (length bs)")
    case True
    then show ?thesis by (simp add: BUF_MEM_append_def)
  next
    case False
    then have sum: "unat ?new = ?l + length bs"
      using l assms(2) by (intro unat_sum_le)
    show ?thesis
    proof (cases "BUF_MEM_reserve alloc_ok ?new buf" rule: res_cases_prod)
      case (1 u buf')
      have "?l + length bs \<le> unat (bm_max buf')"
        using reserve_Ret(2) [OF 1] sum by (simp add: word_le_nat_alt)
      with 1 False reserve_Ret(1) [OF 1] show ?thesis
        by (simp add: BUF_MEM_append_def buf_ok_def)
    next
      case (2 buf')
      with False reserve_Fail [OF 2] show ?thesis by (simp add: BUF_MEM_append_def)
    qed simp
  qed
  show "case BUF_MEM_grow alloc_ok len buf of
      (Ret n, buf') \<Rightarrow> n = len \<and> buf_ok buf' \<and>
        bm_data buf' = take (unat len) (bm_data buf @ replicate (unat len - length (bm_data buf)) 0)
    | (Fail, buf') \<Rightarrow> buf' = buf
    | (Stuck, _) \<Rightarrow> False"
  proof (cases "BUF_MEM_reserve alloc_ok len buf" rule: res_cases_prod)
    case (1 u buf')
    have "unat len \<le> unat (bm_max buf')"
      using reserve_Ret(2) [OF 1] by (simp add: word_le_nat_alt)
    with 1 reserve_Ret(1) [OF 1] show ?thesis
      by (auto simp: BUF_MEM_grow_def buf_ok_def)
  next
    case (2 buf')
    with reserve_Fail [OF 2] show ?thesis by (simp add: BUF_MEM_grow_def)
  qed simp
qed

lemma buf_mem_operations_witness:
  "(case BUF_MEM_append (\<lambda>_. True) [4] \<lparr>bm_data = [1, 2, 3], bm_max = 3\<rparr> of
      (Ret _, buf') \<Rightarrow> buf_ok buf' \<and> bm_data buf' = bm_data \<lparr>bm_data = [1, 2, 3], bm_max = 3\<rparr> @ [4]
    | (Fail, buf') \<Rightarrow> buf' = \<lparr>bm_data = [1, 2, 3], bm_max = 3\<rparr>
    | (Stuck, _) \<Rightarrow> False)"
  by (rule buf_mem_operations [THEN conjunct1]) (simp_all add: buf_ok_def)

section \<open>What string copies leave\<close>

lemma strlen_Cons: "strlen (b # s) = (if b = 0 then 0 else Suc (strlen s))"
  by (simp add: strlen_def)

lemma strlcpy_eq:
  assumes "0 \<in> set src" and "dst_size \<le> length dst" and "0 < dst_size"
  shows "BUF_strlcpy dst src dst_size =
    (let n = min (strlen src) (dst_size - 1) in (take n src @ 0 # drop (Suc n) dst, strlen src))"
  using assms
proof (induction dst src dst_size rule: BUF_strlcpy.induct)
  case (1 dst src k)
  from "1.prems" obtain s ss d ds where src: "src = s # ss" and dst: "dst = d # ds"
    by (cases src; cases dst) auto
  show ?case
  proof (cases "k > 1 \<and> s \<noteq> 0")
    case True
    then obtain j where k: "k = Suc (Suc j)"
      by (cases k; cases "k - 1") auto
    have "BUF_strlcpy ds ss (Suc j) =
        (let n = min (strlen ss) j in (take n ss @ 0 # drop (Suc n) ds, strlen ss))"
      using "1.IH" "1.prems" True by (simp add: src dst k)
    then show ?thesis
      using True by (subst BUF_strlcpy.simps) (simp add: src dst k strlen_Cons Let_def)
  next
    case False
    then show ?thesis
      using "1.prems"(3) by (subst BUF_strlcpy.simps) (auto simp: src dst strlen_Cons Let_def)
  qed
qed

lemma strlcat_eq:
  assumes "0 \<in> set (take dst_size dst)"
  shows "BUF_strlcat dst src dst_size =
    (let (d, l) = BUF_strlcpy (drop (strlen dst) dst) src (dst_size - strlen dst)
     in (take (strlen dst) dst @ d, strlen dst + l))"
  using assms
proof (induction dst src dst_size rule: BUF_strlcat.induct)
  case (1 dst src k)
  from "1.prems" obtain d ds j where dst: "dst = d # ds" and k: "k = Suc j"
    by (cases dst; cases k) auto
  show ?case
  proof (cases "d = 0")
    case True
    then show ?thesis
      by (subst BUF_strlcat.simps) (simp add: dst k strlen_Cons)
  next
    case False
    then have "BUF_strlcat ds src j =
        (let (d, l) = BUF_strlcpy (drop (strlen ds) ds) src (j - strlen ds)
         in (take (strlen ds) ds @ d, strlen ds + l))"
      using 1 by (simp add: dst k)
    then show ?thesis
      using False by (subst BUF_strlcat.simps) (simp add: dst k strlen_Cons split_def Let_def)
  qed
qed

lemma strlen_le: "0 \<in> set s \<Longrightarrow> strlen s < length s"
  unfolding strlen_def by (induction s) auto

text \<open>
  \<open>BUF_strlcpy\<close> and \<open>BUF_strlcat\<close> never write past the size they are given, always terminate the
  destination, keep as much of the source as fits, and return the length of the string they tried
  to create.
\<close>

theorem bounded_string_copies:
  assumes "0 \<in> set src" and "0 < dst_size" and "dst_size \<le> length dst" and "0 \<in> set (take dst_size old)"
    and "dst_size \<le> length old"
  shows "BUF_strlcpy dst src dst_size =
      (take (min (strlen src) (dst_size - 1)) src @ 0 # drop (Suc (min (strlen src) (dst_size - 1))) dst,
       strlen src) \<and>
    (let room = dst_size - strlen old; n = min (strlen src) (room - 1) in
     BUF_strlcat old src dst_size =
       (take (strlen old) old @ take n src @ 0 # drop (Suc n) (drop (strlen old) old),
        strlen old + strlen src))"
proof
  show "BUF_strlcpy dst src dst_size =
      (take (min (strlen src) (dst_size - 1)) src @ 0 # drop (Suc (min (strlen src) (dst_size - 1))) dst,
       strlen src)"
    using assms by (simp add: strlcpy_eq Let_def)
  have old: "strlen old < dst_size"
  proof -
    have "strlen (take dst_size old) < dst_size"
      using strlen_le [OF assms(4)] by simp
    moreover have "takeWhile (\<lambda>b. b \<noteq> 0) (take dst_size old @ drop dst_size old) =
        takeWhile (\<lambda>b. b \<noteq> 0) (take dst_size old)"
      using assms(4) by (intro takeWhile_append1) auto
    then have "strlen (take dst_size old) = strlen old"
      by (simp add: strlen_def)
    ultimately show ?thesis by simp
  qed
  then show "let room = dst_size - strlen old; n = min (strlen src) (room - 1) in
     BUF_strlcat old src dst_size =
       (take (strlen old) old @ take n src @ 0 # drop (Suc n) (drop (strlen old) old),
        strlen old + strlen src)"
    using assms strlcpy_eq [of src "dst_size - strlen old" "drop (strlen old) old"]
    by (simp add: strlcat_eq Let_def)
qed

lemma bounded_string_copies_witness:
  "BUF_strlcpy [9, 9, 9] [65, 66, 67, 0] 3 = ([65, 66, 0], 3) \<and>
   BUF_strlcat [65, 0, 9] [66, 67, 0] 3 = ([65, 66, 0], 3)"
  using bounded_string_copies [of "[65, 66, 67, 0]" 3 "[9, 9, 9]" "[65, 0, 9]"]
    bounded_string_copies [of "[66, 67, 0]" 3 "[9, 9, 9]" "[65, 0, 9]"]
  by (simp add: strlen_def Let_def)

end
