(* ===== verification/Constant_Time.thy ===== *)
theory Constant_Time
  imports Bytes
begin

text \<open>
  BoringSSL's constant-time operations (\<open>crypto/internal.h\<close>) for a 64-bit build, where
  \<open>crypto_word_t\<close> is \<open>uint64_t\<close>. They compute comparisons without branches; here each is shown to be
  the comparison it stands for, as a mask of ones or zeros.
\<close>

unbundle bit_operations_syntax

section \<open>The operations\<close>

definition constant_time_msb_w :: "u64 \<Rightarrow> u64" where
  "constant_time_msb_w a = 0 - drop_bit 63 a"

definition constant_time_lt_w :: "u64 \<Rightarrow> u64 \<Rightarrow> u64" where
  "constant_time_lt_w a b = constant_time_msb_w (a XOR ((a XOR b) OR ((a - b) XOR a)))"

definition constant_time_lt_8 :: "u64 \<Rightarrow> u64 \<Rightarrow> byte" where
  "constant_time_lt_8 a b = ucast (constant_time_lt_w a b)"

definition constant_time_ge_w :: "u64 \<Rightarrow> u64 \<Rightarrow> u64" where
  "constant_time_ge_w a b = NOT (constant_time_lt_w a b)"

definition constant_time_ge_8 :: "u64 \<Rightarrow> u64 \<Rightarrow> byte" where
  "constant_time_ge_8 a b = ucast (constant_time_ge_w a b)"

definition constant_time_is_zero_w :: "u64 \<Rightarrow> u64" where
  "constant_time_is_zero_w a = constant_time_msb_w (NOT a AND (a - 1))"

definition constant_time_is_zero_8 :: "u64 \<Rightarrow> byte" where
  "constant_time_is_zero_8 a = ucast (constant_time_is_zero_w a)"

definition constant_time_eq_w :: "u64 \<Rightarrow> u64 \<Rightarrow> u64" where
  "constant_time_eq_w a b = constant_time_is_zero_w (a XOR b)"

definition constant_time_eq_8 :: "u64 \<Rightarrow> u64 \<Rightarrow> byte" where
  "constant_time_eq_8 a b = ucast (constant_time_eq_w a b)"

text \<open>An \<open>int\<close> has 32 bits and is sign-extended when it is converted to \<open>crypto_word_t\<close>.\<close>

definition constant_time_eq_int :: "u32 \<Rightarrow> u32 \<Rightarrow> u64" where
  "constant_time_eq_int a b = constant_time_eq_w (scast a) (scast b)"

definition constant_time_eq_int_8 :: "u32 \<Rightarrow> u32 \<Rightarrow> byte" where
  "constant_time_eq_int_8 a b = constant_time_eq_8 (scast a) (scast b)"

definition constant_time_select_w :: "u64 \<Rightarrow> u64 \<Rightarrow> u64 \<Rightarrow> u64" where
  "constant_time_select_w m a b = (m AND a) OR (NOT m AND b)"

definition constant_time_select_8 :: "byte \<Rightarrow> byte \<Rightarrow> byte \<Rightarrow> byte" where
  "constant_time_select_8 m a b = ucast (constant_time_select_w (ucast m) (ucast a) (ucast b))"

definition constant_time_select_int :: "u64 \<Rightarrow> u32 \<Rightarrow> u32 \<Rightarrow> u32" where
  "constant_time_select_int m a b = ucast (constant_time_select_w m (scast a) (scast b))"

section \<open>The comparisons\<close>

lemma msb_w_eq: "constant_time_msb_w a = (if bit a 63 then - 1 else 0)"
proof -
  have "drop_bit 63 a = (if bit a 63 then 1 else 0)"
  proof (rule bit_word_eqI)
    fix n assume "n < LENGTH(64)"
    then show "bit (drop_bit 63 a) n = bit (if bit a 63 then 1 else 0 :: u64) n"
      using bit_imp_le_length [of a "63 + n"] by (cases n) (auto simp: bit_simps)
  qed
  then show ?thesis
    by (simp add: constant_time_msb_w_def)
qed

lemma bit_63_iff: "bit (a :: u64) 63 \<longleftrightarrow> 2 ^ 63 \<le> unat a"
proof -
  have "bit a 63 \<longleftrightarrow> odd (unat a div 2 ^ 63)"
  proof -
    have "bit (unat a) 63 \<longleftrightarrow> bit a 63"
      by (simp add: bit_unsigned_iff)
    then show ?thesis
      by (simp add: bit_iff_odd [of "unat a"])
  qed
  moreover have "unat a div 2 ^ 63 < 2"
    using unat_u64_less [of a] by (simp add: div_less_iff_less_mult)
  then have "odd (unat a div 2 ^ 63) \<longleftrightarrow> unat a div 2 ^ 63 \<noteq> 0"
    by (auto simp: odd_iff_mod_2_eq_one)
  ultimately show ?thesis
    by (simp add: div_eq_0_iff not_less)
qed

lemma borrow_iff:
  fixes x y d M :: nat
  assumes "x < 2 * M" and "y < 2 * M" and "d = (if y \<le> x then x - y else x + 2 * M - y)"
  shows "((M \<le> x) \<noteq> ((M \<le> x) \<noteq> (M \<le> y) \<or> (M \<le> d) \<noteq> (M \<le> x))) \<longleftrightarrow> x < y"
  using assms by (cases "M \<le> x"; cases "M \<le> y"; cases "y \<le> x") auto

lemma lt_w_eq: "constant_time_lt_w a b = (if a < b then - 1 else 0)"
proof -
  have "unat (a - b) = (if b \<le> a then unat a - unat b else unat a + 2 ^ 64 - unat b)"
    by (simp add: unat_sub_if_size word_size word_le_nat_alt)
  then have "(bit a 63 \<noteq> (bit a 63 \<noteq> bit b 63 \<or> bit (a - b) 63 \<noteq> bit a 63)) \<longleftrightarrow> a < b"
    unfolding bit_63_iff word_less_nat_alt word_le_nat_alt
    by (intro borrow_iff) (use unat_u64_less [of a] unat_u64_less [of b] in simp_all)
  then show ?thesis
    by (simp add: constant_time_lt_w_def msb_w_eq bit_xor_iff bit_or_iff)
qed

lemma ge_w_eq: "constant_time_ge_w a b = (if b \<le> a then - 1 else 0)"
  by (auto simp: constant_time_ge_w_def lt_w_eq)

lemma is_zero_w_eq: "constant_time_is_zero_w a = (if a = 0 then - 1 else 0)"
proof (cases "a = 0")
  case False
  then have "unat (a - 1) = unat a - 1" and "unat a \<noteq> 0"
    by (simp_all add: unat_minus_one unat_eq_0)
  then have "\<not> (\<not> bit a 63 \<and> bit (a - 1) 63)"
    using unat_u64_less [of a] unfolding bit_63_iff by linarith
  then show ?thesis
    using False by (simp add: constant_time_is_zero_w_def msb_w_eq bit_simps)
qed (simp add: constant_time_is_zero_w_def msb_w_eq)

lemma eq_w_eq: "constant_time_eq_w a b = (if a = b then - 1 else 0)"
proof -
  have "a XOR b = 0 \<longleftrightarrow> a = b"
    by (metis xor.left_commute xor_self_eq xor.right_neutral)
  then show ?thesis
    by (simp add: constant_time_eq_w_def is_zero_w_eq)
qed

lemma select_w_eq: "constant_time_select_w (if c then - 1 else 0) a b = (if c then a else b)"
  by (simp add: constant_time_select_w_def)

lemma byte_ones [simp]: "(ucast (- 1 :: u64) :: byte) = 0xff"
proof -
  have "(mask 8 :: byte) = 0xff"
    by (simp add: mask_eq_exp_minus_1)
  moreover have "(ucast (- 1 :: u64) :: byte) = mask 8"
    by (rule bit_word_eqI) (simp add: bit_simps)
  ultimately show ?thesis by simp
qed

lemma select_8_eq: "constant_time_select_8 (if c then 0xff else 0) a b = (if c then a else b)"
proof -
  have ones: "(0xff :: u64) = mask 8"
    by (simp add: mask_eq_exp_minus_1)
  have "ucast ((0xff :: u64) AND ucast a OR NOT 0xff AND ucast b) = a"
    unfolding ones by (rule bit_word_eqI) (auto simp: bit_simps)
  moreover have "ucast ((0 :: u64) AND ucast a OR NOT 0 AND ucast b) = b"
    by (rule bit_word_eqI) (auto simp: bit_simps)
  ultimately show ?thesis
    by (simp add: constant_time_select_8_def constant_time_select_w_def)
qed

lemma select_int_eq: "constant_time_select_int (if c then - 1 else 0) a b = (if c then a else b)"
proof -
  have "ucast (scast (x :: u32) :: u64) = x" for x
    by (rule bit_word_eqI) (auto simp: bit_simps)
  then show ?thesis
    by (simp add: constant_time_select_int_def select_w_eq)
qed

lemma scast_inj: "(scast (a :: u32) :: u64) = scast b \<longleftrightarrow> a = b"
proof
  assume eq: "(scast a :: u64) = scast b"
  have "ucast (scast (x :: u32) :: u64) = x" for x
    by (rule bit_word_eqI) (auto simp: bit_simps)
  then show "a = b" using eq by metis
qed simp

text \<open>
  every constant-time comparison is the comparison of its name, as a mask of all ones or all
  zeros of its width, and the selections with such a mask are conditionals.
\<close>

theorem constant_time_comparisons:
  "constant_time_lt_w a b = (if a < b then - 1 else 0) \<and> constant_time_lt_8 a b = (if a < b then 0xff else 0) \<and>
   constant_time_ge_w a b = (if a \<ge> b then - 1 else 0) \<and> constant_time_ge_8 a b = (if a \<ge> b then 0xff else 0) \<and>
   constant_time_is_zero_w a = (if a = 0 then - 1 else 0) \<and>
   constant_time_is_zero_8 a = (if a = 0 then 0xff else 0) \<and>
   constant_time_eq_w a b = (if a = b then - 1 else 0) \<and> constant_time_eq_8 a b = (if a = b then 0xff else 0) \<and>
   constant_time_eq_int i j = (if i = j then - 1 else 0) \<and>
   constant_time_eq_int_8 i j = (if i = j then 0xff else 0) \<and>
   constant_time_select_w (if c then - 1 else 0) a b = (if c then a else b) \<and>
   constant_time_select_8 (if c then 0xff else 0) x y = (if c then x else y) \<and>
   constant_time_select_int (if c then - 1 else 0) i j = (if c then i else j)"
  by (simp add: lt_w_eq constant_time_lt_8_def ge_w_eq constant_time_ge_8_def is_zero_w_eq
      constant_time_is_zero_8_def eq_w_eq constant_time_eq_8_def constant_time_eq_int_def
      constant_time_eq_int_8_def scast_inj select_w_eq select_8_eq select_int_eq)

end
