(* ===== verification/Base64.thy ===== *)
theory Base64
  imports Constant_Time
begin

text \<open>
  BoringSSL's base64 (\<open>crypto/base64/base64.c\<close>). The functions write to buffers of the caller; here
  the bytes from the start of the output buffer that a call has written are part of its result. The
  streaming functions keep an \<open>EVP_ENCODE_CTX\<close>, the record \<open>evp_encode_ctx\<close>, whose array of 48 bytes
  is a list.
\<close>

unbundle bit_operations_syntax

section \<open>Characters\<close>

definition constant_time_lt_args_8 :: "byte \<Rightarrow> byte \<Rightarrow> byte" where
  "constant_time_lt_args_8 a b = ucast (constant_time_msb_w (ucast a - ucast b))"

definition constant_time_in_range_8 :: "byte \<Rightarrow> byte \<Rightarrow> byte \<Rightarrow> byte" where
  "constant_time_in_range_8 a lo hi = (let a = a - lo in constant_time_lt_args_8 a (hi - lo + 1))"

definition conv_bin2ascii :: "byte \<Rightarrow> byte" where
  "conv_bin2ascii a =
     (let a = a AND 0x3f;
          r = constant_time_select_8 (constant_time_eq_8 (ucast a) 62) 43 47;
          r = constant_time_select_8 (constant_time_lt_args_8 a 62) (a - 52 + 48) r;
          r = constant_time_select_8 (constant_time_lt_args_8 a 52) (a - 26 + 97) r;
          r = constant_time_select_8 (constant_time_lt_args_8 a 26) (a + 65) r in
      r)"

definition base64_ascii_to_bin :: "byte \<Rightarrow> byte" where
  "base64_ascii_to_bin a =
     (let is_upper = constant_time_in_range_8 a 65 90;
          is_lower = constant_time_in_range_8 a 97 122;
          is_digit = constant_time_in_range_8 a 48 57;
          is_plus = constant_time_eq_8 (ucast a) 43;
          is_slash = constant_time_eq_8 (ucast a) 47;
          is_equals = constant_time_eq_8 (ucast a) 61;
          r = 0xff;
          r = constant_time_select_8 is_upper (a - 65) r;
          r = constant_time_select_8 is_lower (a - 97 + 26) r;
          r = constant_time_select_8 is_digit (a - 48 + 52) r;
          r = constant_time_select_8 is_plus 62 r;
          r = constant_time_select_8 is_slash 63 r;
          r = constant_time_select_8 is_equals 0 r in
      r)"

section \<open>Encoding a block\<close>

text \<open>The loop of \<open>EVP_EncodeBlock\<close>: the characters it writes and the value of \<open>ret\<close> after it.\<close>

fun encode_loop :: "byte list \<Rightarrow> u64 \<Rightarrow> byte list \<times> u64" where
  "encode_loop [] r = ([], r)"
| "encode_loop [x] r =
     (let l = push_bit 16 (ucast x) :: u32 in
      ([conv_bin2ascii (ucast (drop_bit 18 l)), conv_bin2ascii (ucast (drop_bit 12 l)), 61, 61], r + 4))"
| "encode_loop [x, y] r =
     (let l = push_bit 16 (ucast x) OR push_bit 8 (ucast y) :: u32 in
      ([conv_bin2ascii (ucast (drop_bit 18 l)), conv_bin2ascii (ucast (drop_bit 12 l)),
        conv_bin2ascii (ucast (drop_bit 6 l)), 61], r + 4))"
| "encode_loop (x # y # z # src) r =
     (let l = push_bit 16 (ucast x) OR push_bit 8 (ucast y) OR ucast z :: u32;
          (dst, r') = encode_loop src (r + 4) in
      (conv_bin2ascii (ucast (drop_bit 18 l)) # conv_bin2ascii (ucast (drop_bit 12 l)) #
       conv_bin2ascii (ucast (drop_bit 6 l)) # conv_bin2ascii (ucast l) # dst, r'))"

text \<open>What is written to \<open>dst\<close>, and the return value.\<close>

definition EVP_EncodeBlock :: "byte list \<Rightarrow> byte list \<times> u64" where
  "EVP_EncodeBlock src = (let (dst, r) = encode_loop src 0 in (dst @ [0], r))"

definition EVP_EncodedLength :: "u64 \<Rightarrow> u64 option" where
  "EVP_EncodedLength len =
     (if len + 2 < len then None
      else
        let len = (len + 2) div 3 in
        if drop_bit 2 (push_bit 2 len) \<noteq> len then None
        else
          let len = push_bit 2 len in
          if len + 1 < len then None else Some (len + 1))"

section \<open>Encoding a stream\<close>

record evp_encode_ctx =
  data_used :: u32
  ctx_data :: "byte list"
  eof_seen :: bool
  error_encountered :: bool

definition EVP_EncodeInit :: evp_encode_ctx where
  "EVP_EncodeInit = \<lparr>data_used = 0, ctx_data = replicate 48 0, eof_seen = False, error_encountered = False\<rparr>"

text \<open>Bytes written into an array at an index, as \<open>memcpy\<close> does.\<close>

definition put_at :: "nat \<Rightarrow> byte list \<Rightarrow> byte list \<Rightarrow> byte list" where
  "put_at n bs xs = take n xs @ bs @ drop (n + length bs) xs"

text \<open>A line at index \<open>pos\<close> of the output: the block, a newline over its NUL, and a NUL.\<close>

definition put_line :: "byte list \<Rightarrow> byte list \<Rightarrow> nat \<Rightarrow> byte list \<times> u64" where
  "put_line src out pos =
     (let (dst, encoded) = EVP_EncodeBlock src;
          out = put_at pos dst out;
          out = put_at (pos + unat encoded) [10] out;
          out = put_at (pos + unat encoded + 1) [0] out in
      (out, encoded))"

text \<open>
  The loop over whole lines of the input: whether it ran to the end (it stops when \<open>total\<close>
  overflows), the input that is left, the output and \<open>total\<close>.
\<close>

function encode_lines :: "byte list \<Rightarrow> byte list \<Rightarrow> nat \<Rightarrow> u64 \<Rightarrow> bool \<times> byte list \<times> byte list \<times> u64" where
  "encode_lines inp out pos tot =
     (if length inp \<ge> 48 then
        (let (out, encoded) = put_line (take 48 inp) out pos in
         if tot + encoded + 1 < tot then (False, drop 48 inp, out, tot)
         else encode_lines (drop 48 inp) out (pos + unat encoded + 1) (tot + encoded + 1))
      else (True, inp, out, tot))"
  by pat_completeness auto
termination
  by (relation "measure (\<lambda>(inp, out, pos, tot). length inp)") auto

declare encode_lines.simps [simp del]

text \<open>
  The results are what is written to \<open>out\<close> and \<open>*out_len\<close>. When \<open>total\<close> overflows, the context is
  left as it was before the loop.
\<close>

definition EVP_EncodeUpdate :: "byte list \<Rightarrow> (evp_encode_ctx, byte list \<times> u32) prog" where
  "EVP_EncodeUpdate inp = (\<lambda>ctx.
     if length inp = 0 then (Ret ([], 0), ctx)
     else if \<not> data_used ctx < 48 then (Stuck, ctx)
     else if 48 - unat (data_used ctx) > length inp then
       (Ret ([], 0), ctx\<lparr>ctx_data := put_at (unat (data_used ctx)) inp (ctx_data ctx),
          data_used := data_used ctx + of_nat (length inp)\<rparr>)
     else
       let (inp, ctx, out, tot) =
         (if data_used ctx \<noteq> 0 then
            let todo = 48 - unat (data_used ctx);
                ctx = ctx\<lparr>ctx_data := put_at (unat (data_used ctx)) (take todo inp) (ctx_data ctx)\<rparr>;
                (out, encoded) = put_line (ctx_data ctx) [] 0 in
            (drop todo inp, ctx\<lparr>data_used := 0\<rparr>, out, encoded + 1)
          else (inp, ctx, [], 0)) in
       case encode_lines inp out (unat tot) tot of
         (False, inp, out, tot) \<Rightarrow> (Ret (out, 0), ctx)
       | (True, inp, out, tot) \<Rightarrow>
           let ctx = (if length inp \<noteq> 0 then ctx\<lparr>ctx_data := put_at 0 inp (ctx_data ctx)\<rparr> else ctx);
               ctx = ctx\<lparr>data_used := of_nat (length inp)\<rparr>;
               tot = (if tot > 0x7FFFFFFF then 0 else tot) in
           (Ret (out, ucast tot), ctx))"

definition EVP_EncodeFinal :: "(evp_encode_ctx, byte list \<times> u32) prog" where
  "EVP_EncodeFinal = (\<lambda>ctx.
     if data_used ctx = 0 then (Ret ([], 0), ctx)
     else
       let (dst, encoded) = EVP_EncodeBlock (take (unat (data_used ctx)) (ctx_data ctx));
           dst = put_at (unat encoded) [10] dst;
           encoded = encoded + 1;
           dst = put_at (unat encoded) [0] dst;
           ctx = ctx\<lparr>data_used := 0\<rparr> in
       if \<not> encoded \<le> 0x7FFFFFFF then (Stuck, ctx) else (Ret (dst, ucast encoded), ctx))"

section \<open>Decoding a block\<close>

definition EVP_DecodedLength :: "u64 \<Rightarrow> u64 option" where
  "EVP_DecodedLength len = (if len mod 4 \<noteq> 0 then None else Some (len div 4 * 3))"

text \<open>The bytes that four characters stand for.\<close>

definition base64_decode_quad :: "byte \<Rightarrow> byte \<Rightarrow> byte \<Rightarrow> byte \<Rightarrow> byte list option" where
  "base64_decode_quad in0 in1 in2 in3 =
     (let a = base64_ascii_to_bin in0; b = base64_ascii_to_bin in1;
          c = base64_ascii_to_bin in2; d = base64_ascii_to_bin in3 in
      if a = 0xff \<or> b = 0xff \<or> c = 0xff \<or> d = 0xff then None
      else
        let v = push_bit 18 (ucast a) OR push_bit 12 (ucast b) OR push_bit 6 (ucast c) OR ucast d :: u32;
            padding_pattern = push_bit 3 (of_bool (in0 = 61)) OR push_bit 2 (of_bool (in1 = 61)) OR
              push_bit 1 (of_bool (in2 = 61)) OR of_bool (in3 = 61) :: u32 in
        if padding_pattern = 0 then Some [ucast (drop_bit 16 v), ucast (drop_bit 8 v), ucast v]
        else if padding_pattern = 1 then Some [ucast (drop_bit 16 v), ucast (drop_bit 8 v)]
        else if padding_pattern = 3 then Some [ucast (drop_bit 16 v)]
        else None)"

text \<open>
  The loop of \<open>EVP_DecodeBase64\<close>, over an input of whole quads: whether it ran to the end, and what
  it has written.
\<close>

fun decode_quads :: "byte list \<Rightarrow> byte list \<Rightarrow> bool \<times> byte list" where
  "decode_quads (a # b # c # d # rest) out =
     (case base64_decode_quad a b c d of
        None \<Rightarrow> (False, out)
      | Some bs \<Rightarrow>
          if length bs \<noteq> 3 \<and> rest \<noteq> [] then (False, out @ bs)
          else decode_quads rest (out @ bs))"
| "decode_quads rest out = (True, out)"

text \<open>The results are the return value, \<open>*out_len\<close>, and what is written to \<open>out\<close>.\<close>

definition EVP_DecodeBase64 :: "u64 \<Rightarrow> byte list \<Rightarrow> bool \<times> u64 \<times> byte list" where
  "EVP_DecodeBase64 max_out inp =
     (if of_nat (length inp) mod (4 :: u64) \<noteq> 0 then (False, 0, [])
      else case EVP_DecodedLength (of_nat (length inp)) of
          None \<Rightarrow> (False, 0, [])
        | Some max_len \<Rightarrow>
            if max_out < max_len then (False, 0, [])
            else case decode_quads inp [] of
                (True, out) \<Rightarrow> (True, of_nat (length out), out)
              | (False, out) \<Rightarrow> (False, 0, out))"

fun trim_start :: "byte list \<Rightarrow> byte list" where
  "trim_start [] = []"
| "trim_start (b # src) = (if b \<noteq> 32 \<and> b \<noteq> 9 then b # src else trim_start src)"

definition line_space :: "byte \<Rightarrow> bool" where
  "line_space b \<longleftrightarrow> b = 32 \<or> b = 9 \<or> b = 13 \<or> b = 10"

function trim_end :: "byte list \<Rightarrow> byte list" where
  "trim_end src = (if src \<noteq> [] \<and> line_space (last src) then trim_end (butlast src) else src)"
  by pat_completeness auto
termination
  by (relation "measure length") auto

declare trim_end.simps [simp del]

text \<open>The loop that makes the output a multiple of three bytes.\<close>

function pad_triples :: "byte list \<Rightarrow> byte list" where
  "pad_triples dst = (if length dst mod 3 \<noteq> 0 then pad_triples (dst @ [0]) else dst)"
  by pat_completeness auto
termination
  by (relation "measure (\<lambda>dst. (3 - length dst mod 3) mod 3)") (auto simp: mod_Suc)

declare pad_triples.simps [simp del]

text \<open>\<open>None\<close> is the return value \<open>-1\<close>; otherwise the return value is the number of bytes in \<open>dst\<close>.\<close>

definition EVP_DecodeBlock :: "byte list \<Rightarrow> byte list option" where
  "EVP_DecodeBlock src =
     (let src = trim_end (trim_start src) in
      case EVP_DecodedLength (of_nat (length src)) of
        None \<Rightarrow> None
      | Some dst_len \<Rightarrow>
          if dst_len > 0x7FFFFFFF then None
          else case EVP_DecodeBase64 dst_len src of
              (False, _, _) \<Rightarrow> None
            | (True, _, out) \<Rightarrow> Some (pad_triples out))"

section \<open>Decoding a stream\<close>

definition EVP_DecodeInit :: evp_encode_ctx where
  "EVP_DecodeInit = \<lparr>data_used = 0, ctx_data = replicate 48 0, eof_seen = False, error_encountered = False\<rparr>"

text \<open>
  The loop of \<open>EVP_DecodeUpdate\<close> from the context, with the bytes written so far. It fails where the
  function returns -1.
\<close>

fun decode_loop :: "byte list \<Rightarrow> byte list \<Rightarrow> evp_encode_ctx \<Rightarrow> bool \<times> byte list \<times> evp_encode_ctx" where
  "decode_loop [] out ctx = (True, out, ctx)"
| "decode_loop (c # inp) out ctx =
     (if line_space c then decode_loop inp out ctx
      else if eof_seen ctx then (False, out, ctx\<lparr>error_encountered := True\<rparr>)
      else
        let ctx = ctx\<lparr>ctx_data := (ctx_data ctx)[unat (data_used ctx) := c], data_used := data_used ctx + 1\<rparr> in
        if data_used ctx = 4 then
          (case base64_decode_quad (ctx_data ctx ! 0) (ctx_data ctx ! 1) (ctx_data ctx ! 2) (ctx_data ctx ! 3) of
             None \<Rightarrow> (False, out, ctx\<lparr>error_encountered := True\<rparr>)
           | Some bs \<Rightarrow>
               let ctx = ctx\<lparr>data_used := 0\<rparr>;
                   ctx = (if length bs < 3 then ctx\<lparr>eof_seen := True\<rparr> else ctx) in
               decode_loop inp (out @ bs) ctx)
        else decode_loop inp out ctx)"

text \<open>The results are the return value, \<open>*out_len\<close>, and what is written to \<open>out\<close>.\<close>

definition EVP_DecodeUpdate :: "byte list \<Rightarrow> evp_encode_ctx \<Rightarrow> (int \<times> u32 \<times> byte list) \<times> evp_encode_ctx" where
  "EVP_DecodeUpdate inp ctx =
     (if error_encountered ctx then ((- 1, 0, []), ctx)
      else case decode_loop inp [] ctx of
          (False, out, ctx) \<Rightarrow> ((- 1, 0, out), ctx)
        | (True, out, ctx) \<Rightarrow>
            if length out > 0x7FFFFFFF then ((- 1, 0, out), ctx\<lparr>error_encountered := True\<rparr>)
            else if eof_seen ctx then ((0, of_nat (length out), out), ctx)
            else ((1, of_nat (length out), out), ctx))"

definition EVP_DecodeFinal :: "evp_encode_ctx \<Rightarrow> int \<times> u32" where
  "EVP_DecodeFinal ctx = (if error_encountered ctx \<or> data_used ctx \<noteq> 0 then (- 1, 0) else (1, 0))"

end
