(* ===== verification/Base64_Spec.thy ===== *)
theory Base64_Spec
  imports Base64 Der
begin

text \<open>
  What the base64 code guarantees. The reference is the standard: groups of three bytes as numbers
  of 24 bits, cut into four digits of an alphabet of 64 characters. The encoder computes it and the
  decoder accepts exactly the strings of digits with at most two paddings at the end; the streaming
  functions compute the same whatever chunks the data comes in.
\<close>

unbundle bit_operations_syntax

section \<open>The alphabet\<close>

definition alphabet :: "byte list" where
  "alphabet = map of_char ''ABCDEFGHIJKLMNOPQRSTUVWXYZabcdefghijklmnopqrstuvwxyz0123456789+/''"

definition digit :: "nat \<Rightarrow> byte" where
  "digit n = alphabet ! (n mod 64)"

definition digit_value :: "byte \<Rightarrow> nat option" where
  "digit_value c =
     (if 65 \<le> c \<and> c \<le> 90 then Some (unat c - 65)
      else if 97 \<le> c \<and> c \<le> 122 then Some (unat c - 71)
      else if 48 \<le> c \<and> c \<le> 57 then Some (unat c + 4)
      else if c = 43 then Some 62
      else if c = 47 then Some 63
      else None)"

lemma byte_u64: "unat (ucast (a :: byte) :: u64) = unat a"
  using unat_byte_less [of a] by (simp add: unsigned_ucast_eq take_bit_nat_eq_self)

lemma lt_args_eq: "constant_time_lt_args_8 a b = (if a < b then 0xff else 0)"
proof -
  have "unat (ucast a - ucast b :: u64) = (if unat b \<le> unat a then unat a - unat b else unat a + 2 ^ 64 - unat b)"
    unfolding unat_sub_if' byte_u64 by simp
  then have "bit (ucast a - ucast b :: u64) 63 \<longleftrightarrow> a < b"
    using unat_byte_less [of a] unat_byte_less [of b]
    unfolding bit_63_iff word_less_nat_alt by (simp split: if_splits)
  then show ?thesis
    by (simp add: constant_time_lt_args_8_def msb_w_eq)
qed

lemma eq_8_eq: "constant_time_eq_8 (ucast (a :: byte)) (ucast b) = (if a = b then 0xff else 0)"
  by (simp add: constant_time_eq_8_def eq_w_eq word_unat_eq_iff byte_u64)

lemma eq_8_numerals:
  "constant_time_eq_8 (ucast (a :: byte)) 62 = (if a = 62 then 0xff else 0)"
  "constant_time_eq_8 (ucast a) 43 = (if a = 43 then 0xff else 0)"
  "constant_time_eq_8 (ucast a) 47 = (if a = 47 then 0xff else 0)"
  "constant_time_eq_8 (ucast a) 61 = (if a = 61 then 0xff else 0)"
  using eq_8_eq [of a 62] eq_8_eq [of a 43] eq_8_eq [of a 47] eq_8_eq [of a 61] by simp_all

text \<open>The two conversions without the constant-time operations, and then by their tables.\<close>

definition bin2ascii :: "byte \<Rightarrow> byte" where
  "bin2ascii a =
     (if a < 26 then a + 65 else if a < 52 then a - 26 + 97 else if a < 62 then a - 52 + 48
      else if a = 62 then 43 else 47)"

lemma conv_bin2ascii_if: "conv_bin2ascii a = bin2ascii (a AND 0x3f)"
  by (simp add: conv_bin2ascii_def bin2ascii_def Let_def lt_args_eq eq_8_numerals select_8_eq)

definition ascii_to_bin :: "byte \<Rightarrow> byte" where
  "ascii_to_bin a =
     (if a = 61 then 0 else if a = 47 then 63 else if a = 43 then 62
      else if a - 48 < 10 then a - 48 + 52 else if a - 97 < 26 then a - 97 + 26
      else if a - 65 < 26 then a - 65 else 0xff)"

lemma base64_ascii_to_bin_if: "base64_ascii_to_bin a = ascii_to_bin a"
  by (simp add: base64_ascii_to_bin_def ascii_to_bin_def Let_def constant_time_in_range_8_def lt_args_eq
      eq_8_numerals select_8_eq)

lemma alphabet_table:
  "alphabet = map of_nat (map ((+) 65) [0..<26] @ map ((+) 71) [26..<52] @ map (\<lambda>n. n - 4) [52..<62] @ [43, 47])"
  by (simp add: alphabet_def upt_rec)

lemma alphabet_nth:
  assumes "n < 64"
  shows "alphabet ! n = of_nat (if n < 26 then n + 65 else if n < 52 then n + 71 else if n < 62 then n - 4
    else if n = 62 then 43 else 47)"
proof -
  have upt: "length [0..<26] = 26" "length [26..<52] = 26" "length [52..<62] = 10"
    by (simp_all only: length_upt)
  consider "n < 26" | "26 \<le> n" "n < 52" | "52 \<le> n" "n < 62" | "n = 62" | "n = 63"
    using assms by linarith
  then show ?thesis
    unfolding alphabet_table
    by cases (simp_all add: nth_append upt add.commute less_diff_conv2 del: upt_rec_numeral upt_conv_Cons_Cons)
qed

lemma unat_digit:
  "unat (digit n) = (let n = n mod 64 in if n < 26 then n + 65 else if n < 52 then n + 71
     else if n < 62 then n - 4 else if n = 62 then 43 else 47)"
proof -
  have "n mod 64 < 64" by simp
  then show ?thesis
    by (auto simp: digit_def alphabet_nth Let_def unsigned_of_nat take_bit_nat_eq_self simp del: of_nat_add)
qed

lemma unat_byte_plus: "unat a + unat b < 256 \<Longrightarrow> unat (a + b :: byte) = unat a + unat b"
  by (simp add: unat_word_ariths)

lemma unat_byte_minus: "unat b \<le> unat a \<Longrightarrow> unat (a - b :: byte) = unat a - unat b"
  by (simp add: unat_sub_if')

lemma bin2ascii_eq: "unat a < 64 \<Longrightarrow> bin2ascii a = digit (unat a)"
  unfolding word_unat_eq_iff [of "bin2ascii a"] unat_digit
  by (auto simp: bin2ascii_def word_less_nat_alt unat_byte_plus unat_byte_minus Let_def word_unat_eq_iff [of a])

lemma low_6_bits: "unat ((a :: byte) AND 0x3f) = unat a mod 64"
proof -
  have "a AND 0x3f = take_bit 6 a"
    by (simp add: take_bit_eq_mask mask_eq_exp_minus_1)
  then show ?thesis
    by (simp add: unsigned_take_bit_eq take_bit_nat_def)
qed

lemma conv_bin2ascii_eq: "conv_bin2ascii a = digit (unat a)"
proof -
  have "bin2ascii (a AND 0x3f) = digit (unat (a AND 0x3f))"
    by (intro bin2ascii_eq) (simp add: low_6_bits)
  then show ?thesis
    by (simp add: conv_bin2ascii_if digit_def low_6_bits)
qed

lemma byte_range: "unat lo + unat k \<le> 256 \<Longrightarrow> a - lo < k \<longleftrightarrow> unat lo \<le> unat a \<and> unat a < unat lo + unat (k :: byte)"
  using unat_byte_less [of a] unat_byte_less [of lo]
  unfolding word_less_nat_alt unat_sub_if' by (auto split: if_splits)

lemma base64_ascii_to_bin_eq:
  "base64_ascii_to_bin c =
     (if c = 61 then 0 else case digit_value c of Some v \<Rightarrow> of_nat v | None \<Rightarrow> 0xff)"
  unfolding base64_ascii_to_bin_if word_unat_eq_iff [of "ascii_to_bin c"]
  by (auto simp: ascii_to_bin_def digit_value_def byte_range word_le_nat_alt unat_byte_plus unat_byte_minus
      word_unat_eq_iff [of c] unsigned_of_nat take_bit_nat_eq_self)

lemma digit_value_digit: "digit_value (digit n) = Some (n mod 64)"
  by (auto simp: digit_value_def word_le_nat_alt unat_digit Let_def word_unat_eq_iff)

lemma digit_not_pad: "digit n \<noteq> 61"
  by (auto simp: unat_digit Let_def word_unat_eq_iff)

lemma digit_not_space: "\<not> line_space (digit n)"
  by (auto simp: line_space_def unat_digit Let_def word_unat_eq_iff)

lemma digit_value_Some: "digit_value c = Some v \<Longrightarrow> v < 64 \<and> digit v = c \<and> c \<noteq> 61"
  unfolding word_unat_eq_iff [of "digit v"] unat_digit
  by (auto simp: digit_value_def word_le_nat_alt Let_def split: if_splits)

section \<open>Blocks\<close>

text \<open>The standard encoding.\<close>

fun b64 :: "byte list \<Rightarrow> byte list" where
  "b64 [] = []"
| "b64 [x] = (let n = be_nat [x, 0, 0] in [digit (n div 2 ^ 18), digit (n div 2 ^ 12), 61, 61])"
| "b64 [x, y] =
     (let n = be_nat [x, y, 0] in [digit (n div 2 ^ 18), digit (n div 2 ^ 12), digit (n div 2 ^ 6), 61])"
| "b64 (x # y # z # src) =
     (let n = be_nat [x, y, z] in
      [digit (n div 2 ^ 18), digit (n div 2 ^ 12), digit (n div 2 ^ 6), digit n] @ b64 src)"

text \<open>Four characters: three digits and more make whole bytes, bits that are left over are dropped.\<close>

definition quad :: "byte \<Rightarrow> byte \<Rightarrow> byte \<Rightarrow> byte \<Rightarrow> byte list option" where
  "quad a b c d =
     (case (digit_value a, digit_value b, digit_value c, digit_value d) of
        (Some i, Some j, Some k, Some l) \<Rightarrow>
          let n = ((i * 64 + j) * 64 + k) * 64 + l in
          Some [of_nat (n div 2 ^ 16), of_nat (n div 2 ^ 8), of_nat n]
      | (Some i, Some j, Some k, None) \<Rightarrow>
          let n = ((i * 64 + j) * 64 + k) * 64 in
          if d = 61 then Some [of_nat (n div 2 ^ 16), of_nat (n div 2 ^ 8)] else None
      | (Some i, Some j, None, None) \<Rightarrow>
          let n = (i * 64 + j) * 64 * 64 in
          if c = 61 \<and> d = 61 then Some [of_nat (n div 2 ^ 16)] else None
      | _ \<Rightarrow> None)"

fun b64_decode :: "byte list \<Rightarrow> byte list option" where
  "b64_decode [] = Some []"
| "b64_decode (a # b # c # d # rest) =
     (case quad a b c d of
        None \<Rightarrow> None
      | Some bs \<Rightarrow>
          if length bs < 3 then (if rest = [] then Some bs else None)
          else map_option ((@) bs) (b64_decode rest))"
| "b64_decode _ = None"

lemma u32_triple: "push_bit 16 (ucast x) OR push_bit 8 (ucast y) OR ucast z = (be_word [x, y, z] :: u32)"
  by (simp add: be_word_def push_bit_or push_bit_push_bit or.assoc)

lemma u32_pair: "push_bit 16 (ucast x) OR push_bit 8 (ucast y) = (be_word [x, y, 0] :: u32)"
  using u32_triple [of x y 0] by simp

lemma u32_one: "push_bit 16 (ucast x) = (be_word [x, 0, 0] :: u32)"
  using u32_triple [of x 0 0] by simp

lemma digit_drop: "conv_bin2ascii (ucast (drop_bit k (be_word [x, y, z] :: u32))) = digit (be_nat [x, y, z] div 2 ^ k)"
proof -
  have "unat (be_word [x, y, z] :: u32) = be_nat [x, y, z]"
    by (rule unat_be_word) simp
  then have "unat (ucast (drop_bit k (be_word [x, y, z] :: u32)) :: byte) = be_nat [x, y, z] div 2 ^ k mod 2 ^ 8"
    by (simp add: unsigned_ucast_eq take_bit_eq_mod unat_drop_bit_div)
  moreover have "m mod 2 ^ 8 mod 64 = m mod (64 :: nat)" for m
    by (simp add: mod_mod_cancel)
  ultimately show ?thesis
    by (simp add: conv_bin2ascii_eq digit_def)
qed

lemma encode_loop_eq: "encode_loop src r = (b64 src, r + of_nat (length (b64 src)))"
proof (induction src r rule: encode_loop.induct)
  case (4 x y z src r)
  then show ?case
    using digit_drop [of 18 x y z] digit_drop [of 12 x y z] digit_drop [of 6 x y z] digit_drop [of 0 x y z]
    by (simp only: encode_loop.simps b64.simps u32_triple Let_def prod.case drop_bit_0 id_apply power_0 div_by_1
        append.simps list.size) simp
next
  case (3 x y r)
  then show ?case
    by (simp only: encode_loop.simps b64.simps u32_pair Let_def digit_drop) simp
next
  case (2 x r)
  then show ?case
    by (simp only: encode_loop.simps b64.simps u32_one Let_def digit_drop) simp
qed simp

lemma length_b64: "length (b64 src) = (length src + 2) div 3 * 4"
proof (induction src rule: b64.induct)
  case (4 x y z src)
  have "(length src + 5) div 3 = (length src + 2) div 3 + 1"
    by presburger
  with 4 show ?case
    by (simp add: Let_def add.commute [of 5])
qed (simp_all add: Let_def)

lemma encode_block_eq: "EVP_EncodeBlock src = (b64 src @ [0], of_nat (length (b64 src)))"
  by (simp add: EVP_EncodeBlock_def encode_loop_eq)

section \<open>Decoding blocks\<close>

lemma unat_push_or:
  assumes "unat y < 2 ^ k" and "unat x * 2 ^ k + 2 ^ k \<le> 2 ^ LENGTH('a)"
  shows "unat (push_bit k x OR y :: 'a::len word) = unat x * 2 ^ k + unat y"
proof -
  have y: "y = take_bit k y"
    by (rule word_unat_eq_iff [THEN iffD2]) (simp add: unsigned_take_bit_eq take_bit_nat_eq_self assms(1))
  have "push_bit k x AND take_bit k y = 0"
    by (rule bit_word_eqI) (auto simp: bit_simps)
  then have "push_bit k x OR y = push_bit k x + y"
    using y disjunctive_add_eq_or [of "push_bit k x" y] by metis
  moreover have "unat (push_bit k x) = unat x * 2 ^ k"
    unfolding unsigned_push_bit_eq
    by (subst take_bit_nat_eq_self) (use assms in \<open>simp_all add: push_bit_eq_mult\<close>)
  ultimately show ?thesis
    using assms by (simp add: unat_word_ariths)
qed

text \<open>The value of four digits, as the decoder puts it together.\<close>

definition quad_word :: "byte \<Rightarrow> byte \<Rightarrow> byte \<Rightarrow> byte \<Rightarrow> u32" where
  "quad_word a b c d = push_bit 18 (ucast a) OR push_bit 12 (ucast b) OR push_bit 6 (ucast c) OR ucast d"

lemma byte_u32: "unat (ucast (a :: byte) :: u32) = unat a"
  using unat_byte_less [of a] by (simp add: unsigned_ucast_eq take_bit_nat_eq_self)

lemma unat_quad_word:
  assumes "unat a < 64" and "unat b < 64" and "unat c < 64" and "unat d < 64"
  shows "unat (quad_word a b c d) = ((unat a * 64 + unat b) * 64 + unat c) * 64 + unat d"
proof -
  define x where "x = (push_bit 6 (ucast c) OR ucast d :: u32)"
  define y where "y = (push_bit 12 (ucast b) OR x :: u32)"
  have "unat x = unat c * 2 ^ 6 + unat d"
    unfolding x_def byte_u32 [symmetric] by (rule unat_push_or) (use assms in \<open>simp_all add: byte_u32\<close>)
  moreover have "unat y = unat b * 2 ^ 12 + unat x"
    unfolding y_def byte_u32 [symmetric] by (rule unat_push_or) (use assms calculation in \<open>simp_all add: byte_u32\<close>)
  moreover have "unat (push_bit 18 (ucast a) OR y) = unat a * 2 ^ 18 + unat y"
    unfolding byte_u32 [symmetric] by (rule unat_push_or) (use assms calculation in \<open>simp_all add: byte_u32\<close>)
  moreover have "quad_word a b c d = push_bit 18 (ucast a) OR y"
    by (simp only: quad_word_def y_def x_def or.assoc)
  ultimately show ?thesis by simp
qed

lemma ucast_drop_u32: "(ucast (drop_bit k (w :: u32)) :: byte) = of_nat (unat w div 2 ^ k)"
  by (simp add: unat_drop_bit_div [symmetric])

lemma padding_pattern_eq:
  "push_bit 3 (of_bool p) OR push_bit 2 (of_bool q) OR push_bit 1 (of_bool r) OR of_bool s =
    (if p then 8 else 0) + (if q then 4 else 0) + (if r then 2 else 0) + (if s then 1 else 0 :: u32)"
  by (cases p; cases q; cases r; cases s) simp_all

lemma decode_quad_eq: "base64_decode_quad a b c d = quad a b c d"
proof -
  let ?v = "\<lambda>c. if c = 61 then 0 else case digit_value c of Some v \<Rightarrow> of_nat v | None \<Rightarrow> (0xff :: byte)"
  have val: "unat (of_nat i :: byte) = i" "(of_nat i :: byte) \<noteq> 0xff" "i < 64" "x \<noteq> 61"
    if "digit_value x = Some i" for x i
  proof -
    show i: "i < 64" and "x \<noteq> 61"
      using digit_value_Some [OF that] by auto
    show "unat (of_nat i :: byte) = i"
      using i by (simp add: unsigned_of_nat take_bit_nat_eq_self)
    with i show "(of_nat i :: byte) \<noteq> 0xff"
      by (auto simp: word_unat_eq_iff)
  qed
  have no61: "digit_value 61 = None" by (simp add: digit_value_def)
  have def: "base64_decode_quad a b c d =
    (if ?v a = 0xff \<or> ?v b = 0xff \<or> ?v c = 0xff \<or> ?v d = 0xff then None
     else let n = unat (quad_word (?v a) (?v b) (?v c) (?v d)) in
       if a = 61 \<or> b = 61 then None
       else if c = 61 then if d = 61 then Some [of_nat (n div 2 ^ 16)] else None
       else if d = 61 then Some [of_nat (n div 2 ^ 16), of_nat (n div 2 ^ 8)]
       else Some [of_nat (n div 2 ^ 16), of_nat (n div 2 ^ 8), of_nat n])"
    unfolding base64_decode_quad_def base64_ascii_to_bin_eq quad_word_def [symmetric] padding_pattern_eq Let_def
      ucast_drop_u32
    by (cases "a = 61"; cases "b = 61"; cases "c = 61"; cases "d = 61") simp_all
  show ?thesis
    unfolding def quad_def Let_def
    by (cases "digit_value a"; cases "digit_value b"; cases "digit_value c"; cases "digit_value d")
      (use no61 in \<open>auto simp: val unat_quad_word dest: val\<close>)
qed

lemma length_quad: "quad a b c d = Some bs \<Longrightarrow> 0 < length bs \<and> length bs \<le> 3"
  by (auto simp: quad_def Let_def split: option.splits if_splits)

lemma decode_quads_eq:
  "length inp mod 4 = 0 \<Longrightarrow>
   (case b64_decode inp of Some bs \<Rightarrow> decode_quads inp out = (True, out @ bs)
    | None \<Rightarrow> fst (decode_quads inp out) = False)"
proof (induction inp out rule: decode_quads.induct)
  case (1 a b c d rest out)
  show ?case
  proof (cases "quad a b c d")
    case None
    then show ?thesis by (simp add: decode_quad_eq)
  next
    case (Some bs)
    show ?thesis
    proof (cases "length bs = 3")
      case True
      then have "case b64_decode rest of Some bs' \<Rightarrow> decode_quads rest (out @ bs) = (True, (out @ bs) @ bs')
          | None \<Rightarrow> fst (decode_quads rest (out @ bs)) = False"
        using "1.IH" [of bs] "1.prems" Some by (simp add: decode_quad_eq)
      then show ?thesis
        using Some True by (auto simp: decode_quad_eq split: option.splits)
    next
      case False
      then show ?thesis
        using Some length_quad [OF Some] by (auto simp: decode_quad_eq)
    qed
  qed
qed simp_all

lemma length_decode_quads: "length (snd (decode_quads inp out)) \<le> length out + length inp div 4 * 3"
proof (induction inp out rule: decode_quads.induct)
  case (1 a b c d rest out)
  have "(length rest + 4) div 4 = length rest div 4 + 1"
    by presburger
  then have "length rest div 4 * 3 + 3 = length (a # b # c # d # rest) div 4 * 3"
    by (simp add: add.commute [of 4])
  with 1 show ?case
    using length_quad [of a b c d] by (auto simp: decode_quad_eq split: option.splits)
qed simp_all

lemma length_b64_decode: "b64_decode inp = Some out \<Longrightarrow> length inp mod 4 = 0 \<and> length out \<le> length inp div 4 * 3"
proof (induction inp arbitrary: out rule: b64_decode.induct)
  case (2 a b c d rest)
  then obtain bs where bs: "quad a b c d = Some bs" by (auto split: option.splits)
  show ?case
  proof (cases "length bs < 3")
    case True
    with 2 bs show ?thesis by (auto split: if_splits)
  next
    case False
    then obtain bs' where "b64_decode rest = Some bs'" "out = bs @ bs'"
      using 2(2) bs by auto
    with 2(1) [OF bs False] length_quad [OF bs] show ?thesis by fastforce
  qed
qed simp_all

lemma u64_mod_4: "n < 2 ^ 64 \<Longrightarrow> (of_nat n mod 4 :: u64) = 0 \<longleftrightarrow> n mod 4 = 0"
  by (simp add: word_unat_eq_iff unat_mod unat_of_nat_u64)

lemma u64_decoded: "n < 2 ^ 64 \<Longrightarrow> unat (of_nat n div 4 * 3 :: u64) = n div 4 * 3"
proof -
  assume n: "n < 2 ^ 64"
  then have "unat (of_nat n div 4 :: u64) = n div 4"
    by (simp add: unat_div unat_of_nat_u64)
  moreover have "n div 4 * 3 < 2 ^ 64"
    using n by linarith
  ultimately show ?thesis
    by (simp add: unat_word_ariths)
qed

lemma digits_of_number:
  fixes n :: nat
  assumes "n < 2 ^ 24"
  shows "((n div 2 ^ 18 mod 64 * 64 + n div 2 ^ 12 mod 64) * 64 + n div 2 ^ 6 mod 64) * 64 + n mod 64 = n"
proof -
  have "n div 2 ^ 18 mod 64 = n div 2 ^ 18"
    using assms by (intro mod_less) (simp add: less_mult_imp_div_less)
  moreover have "n div 2 ^ 18 * 64 + n div 2 ^ 12 mod 64 = n div 2 ^ 12"
    using div_mult_mod_eq [of "n div 2 ^ 12" 64] by (simp add: div_mult2_eq [symmetric])
  moreover have "n div 2 ^ 12 * 64 + n div 2 ^ 6 mod 64 = n div 2 ^ 6"
    using div_mult_mod_eq [of "n div 2 ^ 6" 64] by (simp add: div_mult2_eq [symmetric])
  moreover have "n div 2 ^ 6 * 64 + n mod 64 = n"
    using div_mult_mod_eq [of n 64] by simp
  ultimately show ?thesis by simp
qed

lemma be_nat_3: "be_nat [x, y, z] = (unat x * 256 + unat y) * 256 + unat z" "be_nat [x, y, z] < 2 ^ 24"
  using be_nat_less [of "[x, y, z]"] by (simp_all add: be_nat_def)

lemma of_nat_be_nat:
  "of_nat (be_nat [x, y, z] div 2 ^ 16) = x" "of_nat (be_nat [x, y, z] div 2 ^ 8) = y" "of_nat (be_nat [x, y, z]) = z"
proof -
  have "be_nat [x, y, z] div 2 ^ 16 = unat x"
    using unat_byte_less [of y] unat_byte_less [of z] unfolding be_nat_3(1) by simp
  then show "of_nat (be_nat [x, y, z] div 2 ^ 16) = x" by simp
  have byte: "(of_nat (n + unat b) :: byte) = b" if "n mod 256 = 0" for n b
    by (rule word_unat_eq_iff [THEN iffD2])
      (use that unat_byte_less [of b] in \<open>simp add: unsigned_of_nat take_bit_eq_mod mod_add_left_eq [symmetric] del: of_nat_add\<close>)
  have "be_nat [x, y, z] div 2 ^ 8 = unat x * 256 + unat y"
    using unat_byte_less [of z] unfolding be_nat_3(1) by simp
  then show "of_nat (be_nat [x, y, z] div 2 ^ 8) = y"
    by (simp only: byte mod_mult_self2_is_0)
  show "of_nat (be_nat [x, y, z]) = z"
    unfolding be_nat_3(1) by (rule byte) simp
qed

lemma digit_value_pad [simp]: "digit_value 61 = None"
  by (simp add: digit_value_def)

lemma quad_digits:
  fixes x y z :: byte
  defines "n \<equiv> be_nat [x, y, z]"
  shows "quad (digit (n div 2 ^ 18)) (digit (n div 2 ^ 12)) (digit (n div 2 ^ 6)) (digit n) = Some [x, y, z]"
    and "z = 0 \<Longrightarrow> quad (digit (n div 2 ^ 18)) (digit (n div 2 ^ 12)) (digit (n div 2 ^ 6)) 61 = Some [x, y]"
    and "y = 0 \<Longrightarrow> z = 0 \<Longrightarrow> quad (digit (n div 2 ^ 18)) (digit (n div 2 ^ 12)) 61 61 = Some [x]"
proof -
  note n = digits_of_number [of n, unfolded n_def, OF be_nat_3(2)]
  show "quad (digit (n div 2 ^ 18)) (digit (n div 2 ^ 12)) (digit (n div 2 ^ 6)) (digit n) = Some [x, y, z]"
    unfolding n_def quad_def digit_value_digit prod.case option.case Let_def n of_nat_be_nat by (rule refl)
  have low: "be_nat [x, y, 0] mod 64 = 0"
    by (simp add: be_nat_3(1) mod_mult_right_eq [symmetric, of _ 256])
  show "quad (digit (n div 2 ^ 18)) (digit (n div 2 ^ 12)) (digit (n div 2 ^ 6)) 61 = Some [x, y]" if "z = 0"
  proof -
    have "((be_nat [x, y, 0] div 2 ^ 18 mod 64 * 64 + be_nat [x, y, 0] div 2 ^ 12 mod 64) * 64 +
        be_nat [x, y, 0] div 2 ^ 6 mod 64) * 64 = be_nat [x, y, 0]"
      using digits_of_number [OF be_nat_3(2), of x y 0] by (simp only: low add_0_right)
    then show ?thesis
      unfolding n_def that quad_def digit_value_digit digit_value_pad prod.case option.case Let_def
      by (simp only: of_nat_be_nat) simp
  qed
  have low: "be_nat [x, 0, 0] mod 64 = 0" "be_nat [x, 0, 0] div 2 ^ 6 mod 64 = 0"
    by (simp_all add: be_nat_3(1))
  show "quad (digit (n div 2 ^ 18)) (digit (n div 2 ^ 12)) 61 61 = Some [x]" if "y = 0" "z = 0"
  proof -
    have "(be_nat [x, 0, 0] div 2 ^ 18 mod 64 * 64 + be_nat [x, 0, 0] div 2 ^ 12 mod 64) * 64 * 64 = be_nat [x, 0, 0]"
      using digits_of_number [OF be_nat_3(2), of x 0 0] by (simp only: low power_one_right add_0_right)
    then show ?thesis
      unfolding n_def that quad_def digit_value_digit digit_value_pad prod.case option.case Let_def
      by (simp only: of_nat_be_nat) simp
  qed
qed

lemma b64_decode_b64: "b64_decode (b64 src) = Some src"
proof (induction src rule: b64.induct)
  case (4 x y z src)
  then show ?case
    unfolding b64.simps Let_def append.simps b64_decode.simps quad_digits by simp
qed (simp_all only: b64.simps Let_def b64_decode.simps quad_digits option.case list.size simp_thms if_True, simp_all)

section \<open>Encoding streams\<close>

text \<open>The encoding in lines of 48 bytes.\<close>

function b64_lines :: "byte list \<Rightarrow> byte list" where
  "b64_lines src = (if src = [] then [] else b64 (take 48 src) @ [10] @ b64_lines (drop 48 src))"
  by pat_completeness auto
termination
  by (relation "measure length") auto

declare b64_lines.simps [simp del]

lemma b64_lines_Nil [simp]: "b64_lines [] = []"
  by (simp add: b64_lines.simps)

lemma b64_lines_line: "length line = 48 \<Longrightarrow> b64_lines (line @ src) = b64 line @ [10] @ b64_lines src"
  by (subst b64_lines.simps) auto

lemma b64_lines_short: "src \<noteq> [] \<Longrightarrow> length src \<le> 48 \<Longrightarrow> b64_lines src = b64 src @ [10]"
  by (subst b64_lines.simps) simp

lemma b64_lines_append: "length xs = 48 * k \<Longrightarrow> b64_lines (xs @ ys) = b64_lines xs @ b64_lines ys"
proof (induction k arbitrary: xs)
  case (Suc k)
  define a b where "a = take 48 xs" and "b = drop 48 xs"
  then have xs: "xs = a @ b" "length a = 48" "length b = 48 * k"
    using Suc.prems by simp_all
  show ?case
    using Suc.IH [OF xs(3)] b64_lines_line [OF xs(2), of b] b64_lines_line [OF xs(2), of "b @ ys"]
    by (simp add: xs(1))
qed simp

lemma length_b64_lines: "length src = 48 * k \<Longrightarrow> length (b64_lines src) = 65 * k"
proof (induction k arbitrary: src)
  case (Suc k)
  then have src: "length (take 48 src) = 48" "length (drop 48 src) = 48 * k"
    by simp_all
  have "length (b64_lines (take 48 src @ drop 48 src)) = length (b64 (take 48 src) @ [10] @ b64_lines (drop 48 src))"
    by (simp only: b64_lines_line [OF src(1)])
  then show ?case
    using Suc.IH [OF src(2)] src(1) by (simp add: length_b64)
qed simp

lemma put_line_eq:
  assumes "length z \<le> 1" and "length (b64 src) < 2 ^ 64"
  shows "put_line src (out @ z) (length out) = (out @ b64 src @ [10, 0], of_nat (length (b64 src)))"
  using assms by (simp add: put_line_def encode_block_eq put_at_def unat_of_nat_u64)

lemma encode_lines_eq:
  assumes "length z \<le> 1" and "length out + 65 * (length inp div 48) < 2 ^ 64"
  shows "\<exists>z'. length z' \<le> 1 \<and> encode_lines inp (out @ z) (length out) (of_nat (length out)) =
    (let n = 48 * (length inp div 48); out' = out @ b64_lines (take n inp) in
     (True, drop n inp, out' @ z', of_nat (length out')))"
  using assms
proof (induction "length inp div 48" arbitrary: inp out z)
  case 0
  then show ?case
    by (subst encode_lines.simps) (auto simp: div_eq_0_iff)
next
  case (Suc k)
  then have len: "48 \<le> length inp" and k: "length (drop 48 inp) div 48 = k"
    by (simp_all add: le_div_geq)
  let ?line = "take 48 inp" and ?out = "out @ b64 (take 48 inp) @ [10]"
  have line: "length ?line = 48" "length (b64 ?line) = 64"
    using len by (simp_all add: length_b64)
  have put: "put_line ?line (out @ z) (length out) = (?out @ [0], 64)"
    using put_line_eq [OF Suc.prems(1), of ?line out] line(2) by simp
  have "\<not> (of_nat (length out) + 64 + 1 < (of_nat (length out) :: u64))"
  proof -
    have "of_nat (length out) + 64 + 1 = (of_nat (length out + 65) :: u64)" by simp
    moreover have "unat (of_nat (length out + 65) :: u64) = length out + 65" "unat (of_nat (length out) :: u64) = length out"
      using Suc.prems(2) Suc.hyps(2) by (simp_all only: unat_of_nat_u64)
    ultimately show ?thesis
      by (simp only: word_less_nat_alt)
  qed
  moreover have "unat (64 :: u64) = 64" by simp
  ultimately have "encode_lines inp (out @ z) (length out) (of_nat (length out)) =
      encode_lines (drop 48 inp) (?out @ [0]) (length ?out) (of_nat (length ?out))"
    using len put line(2) by (subst encode_lines.simps) (simp add: add.commute add.left_commute)
  moreover have "length ?out + 65 * (length (drop 48 inp) div 48) < 2 ^ 64"
    using Suc.prems(2) Suc.hyps(2) line(2) k by simp
  ultimately obtain z' where "length z' \<le> 1" and
    run: "encode_lines inp (out @ z) (length out) (of_nat (length out)) =
      (let n = 48 * k; out' = ?out @ b64_lines (take n (drop 48 inp)) in
       (True, drop n (drop 48 inp), out' @ z', of_nat (length out')))"
    using Suc.hyps(1) [of "drop 48 inp" "[0]" ?out] k by auto
  have "take (48 * (length inp div 48)) inp = ?line @ take (48 * k) (drop 48 inp)"
    unfolding Suc.hyps(2) [symmetric] using take_add [of 48 "48 * k" inp] by simp
  then have "b64_lines (take (48 * (length inp div 48)) inp) = b64 ?line @ [10] @ b64_lines (take (48 * k) (drop 48 inp))"
    by (simp only: b64_lines_line [OF line(1)])
  with run \<open>length z' \<le> 1\<close> show ?case
    by (intro exI [of _ z']) (simp add: Suc.hyps(2) [symmetric] Let_def add.commute)
qed

text \<open>A context that holds the bytes \<open>pend\<close> of a line that is not full.\<close>

definition holds :: "evp_encode_ctx \<Rightarrow> byte list \<Rightarrow> bool" where
  "holds ctx pend \<longleftrightarrow> data_used ctx = of_nat (length pend) \<and> length pend < 48 \<and>
     length (ctx_data ctx) = 48 \<and> take (length pend) (ctx_data ctx) = pend"

lemma unat_data_used: "holds ctx pend \<Longrightarrow> unat (data_used ctx) = length pend"
  by (simp add: holds_def unat_of_nat_u32)

lemma holds_init: "holds EVP_EncodeInit []"
  by (simp add: holds_def EVP_EncodeInit_def)

lemma take_put_at: "n \<le> length xs \<Longrightarrow> take (n + length bs) (put_at n bs xs) = take n xs @ bs"
  by (simp add: put_at_def)

lemma length_put_at: "n + length bs \<le> length xs \<Longrightarrow> length (put_at n bs xs) = length xs"
  by (simp add: put_at_def)

text \<open>The part of \<open>EVP_EncodeUpdate\<close> from the loop on.\<close>

definition encode_rest :: "byte list \<Rightarrow> byte list \<Rightarrow> u64 \<Rightarrow> (evp_encode_ctx, byte list \<times> u32) prog" where
  "encode_rest inp out n = (\<lambda>ctx.
     case encode_lines inp out (unat n) n of
       (False, inp, out, n) \<Rightarrow> (Ret (out, 0), ctx)
     | (True, inp, out, n) \<Rightarrow>
         let ctx = (if length inp \<noteq> 0 then ctx\<lparr>ctx_data := put_at 0 inp (ctx_data ctx)\<rparr> else ctx);
             ctx = ctx\<lparr>data_used := of_nat (length inp)\<rparr>;
             n = (if n > 0x7FFFFFFF then 0 else n) in
         (Ret (out, ucast n), ctx))"

lemma encode_rest_eq:
  assumes z: "length z \<le> 1" and len: "length out + 65 * (length inp div 48) \<le> 0x7FFFFFFF"
    and ctx: "length (ctx_data ctx) = 48"
  defines "n \<equiv> 48 * (length inp div 48)"
  defines "out' \<equiv> out @ b64_lines (take n inp)"
  shows "\<exists>z' ctx'. encode_rest inp (out @ z) (of_nat (length out)) ctx = (Ret (out' @ z', of_nat (length out')), ctx') \<and>
    holds ctx' (drop n inp)"
proof -
  have "length out + 65 * (length inp div 48) < 2 ^ 64"
    using len by simp
  from encode_lines_eq [OF z this] obtain z' where z': "encode_lines inp (out @ z) (length out) (of_nat (length out)) =
      (True, drop n inp, out' @ z', of_nat (length out'))"
    by (auto simp: Let_def n_def out'_def)
  have "length (b64_lines (take n inp)) = 65 * (length inp div 48)"
    by (rule length_b64_lines) (simp add: n_def)
  then have out': "length out' \<le> 0x7FFFFFFF"
    using len by (simp add: out'_def)
  then have small: "\<not> (of_nat (length out') > (0x7FFFFFFF :: u64))"
    by (simp add: word_less_nat_alt unat_of_nat_u64)
  have rest: "length (drop n inp) < 48"
    by (simp add: n_def minus_mult_div_eq_mod)
  let ?ctx = "(if length (drop n inp) \<noteq> 0 then ctx\<lparr>ctx_data := put_at 0 (drop n inp) (ctx_data ctx)\<rparr> else ctx)
    \<lparr>data_used := of_nat (length (drop n inp))\<rparr>"
  have "holds ?ctx (drop n inp)"
    using rest ctx take_put_at [of 0 "ctx_data ctx" "drop n inp"] length_put_at [of 0 "drop n inp" "ctx_data ctx"]
    by (auto simp: holds_def)
  moreover have "encode_rest inp (out @ z) (of_nat (length out)) ctx = (Ret (out' @ z', of_nat (length out')), ?ctx)"
    using z' small len by (simp add: encode_rest_def unat_of_nat_u64 Let_def)
  ultimately show ?thesis by blast
qed

lemma EVP_EncodeUpdate_eq:
  "EVP_EncodeUpdate inp ctx =
     (if length inp = 0 then (Ret ([], 0), ctx)
      else if \<not> data_used ctx < 48 then (Stuck, ctx)
      else if 48 - unat (data_used ctx) > length inp then
        (Ret ([], 0), ctx\<lparr>ctx_data := put_at (unat (data_used ctx)) inp (ctx_data ctx),
           data_used := data_used ctx + of_nat (length inp)\<rparr>)
      else if data_used ctx \<noteq> 0 then
        let todo = 48 - unat (data_used ctx);
            ctx = ctx\<lparr>ctx_data := put_at (unat (data_used ctx)) (take todo inp) (ctx_data ctx)\<rparr>;
            (out, encoded) = put_line (ctx_data ctx) [] 0 in
        encode_rest (drop todo inp) out (encoded + 1) (ctx\<lparr>data_used := 0\<rparr>)
      else encode_rest inp [] 0 ctx)"
  by (simp add: EVP_EncodeUpdate_def encode_rest_def Let_def split: prod.split)

text \<open>One update, on all of what the context holds and the input.\<close>

lemma encode_update_eq:
  assumes ctx: "holds ctx pend" and len: "length inp \<le> 2 ^ 30"
  defines "n \<equiv> 48 * (length (pend @ inp) div 48)"
  shows "\<exists>out ctx'. EVP_EncodeUpdate inp ctx = (Ret (out, of_nat (length (b64_lines (take n (pend @ inp))))), ctx') \<and>
    take (length (b64_lines (take n (pend @ inp)))) out = b64_lines (take n (pend @ inp)) \<and>
    holds ctx' (drop n (pend @ inp))"
proof (cases "length inp = 0")
  case True
  moreover have "length pend div 48 = 0"
    using ctx by (simp add: holds_def)
  ultimately show ?thesis
    using ctx by (simp add: EVP_EncodeUpdate_def n_def)
next
  case False
  have used: "unat (data_used ctx) = length pend" "length pend < 48" "length (ctx_data ctx) = 48"
    using ctx unat_data_used [OF ctx] by (auto simp: holds_def)
  then have guard: "data_used ctx < 48" by (simp add: word_less_nat_alt)
  have zero: "data_used ctx = 0 \<longleftrightarrow> pend = []"
    using used(1) by (auto simp: unat_eq_0 [symmetric])
  show ?thesis
  proof (cases "48 - length pend > length inp")
    case True
    then have "length (pend @ inp) div 48 = 0" by simp
    moreover have "holds (ctx\<lparr>ctx_data := put_at (length pend) inp (ctx_data ctx),
        data_used := data_used ctx + of_nat (length inp)\<rparr>) (pend @ inp)"
      using ctx True used take_put_at [of "length pend" "ctx_data ctx" inp]
        length_put_at [of "length pend" inp "ctx_data ctx"]
      by (auto simp: holds_def)
    ultimately show ?thesis
      using False True guard used(1) by (simp add: EVP_EncodeUpdate_def n_def del: length_append)
  next
    case full: False
    show ?thesis
    proof (cases "pend = []")
      case True
      have "length ([] :: byte list) + 65 * (length inp div 48) \<le> 0x7FFFFFFF"
        using len by simp
      from encode_rest_eq [of "[]" "[]" inp ctx, OF _ this used(3)] obtain z' ctx' where
        "encode_rest inp [] 0 ctx = (Ret (b64_lines (take n inp) @ z', of_nat (length (b64_lines (take n inp)))), ctx')"
        "holds ctx' (drop n inp)"
        by (auto simp: n_def True)
      moreover have "EVP_EncodeUpdate inp ctx = encode_rest inp [] 0 ctx"
        using False full guard used(1) zero True by (simp add: EVP_EncodeUpdate_eq)
      ultimately show ?thesis
        by (simp add: True)
    next
      case pend: False
      let ?todo = "48 - length pend"
      define line where "line = pend @ take ?todo inp"
      define rest where "rest = drop ?todo inp"
      let ?ctx = "ctx\<lparr>ctx_data := put_at (length pend) (take ?todo inp) (ctx_data ctx)\<rparr>"
      have line: "length line = 48" "length (b64 line) = 64"
        using full used(2) by (simp_all add: line_def length_b64)
      have all: "pend @ inp = line @ rest"
        by (simp add: line_def rest_def)
      have "put_at (length pend) (take ?todo inp) (ctx_data ctx) = line"
        using ctx used full by (simp add: put_at_def holds_def line_def)
      then have data: "ctx_data ?ctx = line" by simp
      have put: "put_line line [] 0 = (b64 line @ [10, 0], 64)"
        using put_line_eq [of "[]" line "[]"] line(2) by simp
      have run: "EVP_EncodeUpdate inp ctx = encode_rest rest ((b64 line @ [10]) @ [0]) 65 (?ctx\<lparr>data_used := 0\<rparr>)"
        using False full guard used(1) zero pend data put
        by (simp add: EVP_EncodeUpdate_eq Let_def rest_def)
      have n: "n = 48 + 48 * (length rest div 48)"
      proof -
        have "(48 + length rest) div 48 = 1 + length rest div 48" by presburger
        then show ?thesis
          unfolding n_def all using line(1) by simp
      qed
      have "length (b64 line @ [10]) + 65 * (length rest div 48) \<le> 0x7FFFFFFF"
        using len line(2) by (simp add: rest_def)
      moreover have "length (ctx_data (?ctx\<lparr>data_used := 0\<rparr>)) = 48"
        using data line(1) by simp
      ultimately obtain z' ctx' where
        out: "EVP_EncodeUpdate inp ctx = (Ret (((b64 line @ [10]) @ b64_lines (take (48 * (length rest div 48)) rest)) @ z',
          of_nat (length ((b64 line @ [10]) @ b64_lines (take (48 * (length rest div 48)) rest)))), ctx')"
        and holds: "holds ctx' (drop (48 * (length rest div 48)) rest)"
        using encode_rest_eq [of "[0]" "b64 line @ [10]" rest "?ctx\<lparr>data_used := 0\<rparr>"] line(2) run by auto
      have take: "take n (pend @ inp) = line @ take (48 * (length rest div 48)) rest"
        and drop: "drop n (pend @ inp) = drop (48 * (length rest div 48)) rest"
        unfolding all n using line(1) by simp_all
      have lines: "b64_lines (take n (pend @ inp)) = (b64 line @ [10]) @ b64_lines (take (48 * (length rest div 48)) rest)"
        unfolding take b64_lines_line [OF line(1)] by simp
      show ?thesis
        unfolding lines drop using out holds by (intro exI conjI) (assumption | simp)+
    qed
  qed
qed

text \<open>A whole stream: an update for every chunk, then the end, and all of the output.\<close>

fun encode_chunks :: "byte list list \<Rightarrow> evp_encode_ctx \<Rightarrow> byte list option" where
  "encode_chunks [] ctx = (case EVP_EncodeFinal ctx of (Ret (out, n), _) \<Rightarrow> Some (take (unat n) out) | _ \<Rightarrow> None)"
| "encode_chunks (c # cs) ctx =
     (case EVP_EncodeUpdate c ctx of
        (Ret (out, n), ctx') \<Rightarrow> map_option ((@) (take (unat n) out)) (encode_chunks cs ctx')
      | _ \<Rightarrow> None)"

lemma encode_final_eq:
  assumes "holds ctx pend"
  shows "\<exists>out ctx'. EVP_EncodeFinal ctx = (Ret (out, of_nat (length (b64_lines pend))), ctx') \<and>
    take (length (b64_lines pend)) out = b64_lines pend \<and> length (b64_lines pend) \<le> 65"
proof (cases "pend = []")
  case True
  then show ?thesis
    using assms by (simp add: EVP_EncodeFinal_def holds_def)
next
  case False
  have used: "unat (data_used ctx) = length pend" "length pend < 48"
    using assms unat_data_used [OF assms] by (auto simp: holds_def)
  then have nonzero: "data_used ctx \<noteq> 0"
    using False by (auto simp: unat_eq_0 [symmetric])
  have take: "take (unat (data_used ctx)) (ctx_data ctx) = pend"
    using assms used(1) by (simp add: holds_def)
  have len: "length (b64 pend) \<le> 64"
    using used(2) by (simp add: length_b64)
  have lines: "b64_lines pend = b64 pend @ [10]"
    using False used(2) by (intro b64_lines_short) simp_all
  have n: "unat (of_nat (length (b64 pend)) :: u64) = length (b64 pend)"
    "unat (of_nat (length (b64 pend)) + 1 :: u64) = length (b64 pend) + 1"
    using unat_of_nat_u64 [of "length (b64 pend)"] unat_of_nat_u64 [of "length (b64 pend) + 1"] len
    by (simp_all add: add.commute)
  have "of_nat (length (b64 pend)) + 1 \<le> (0x7FFFFFFF :: u64)"
    unfolding word_le_nat_alt n using len by simp
  then have "EVP_EncodeFinal ctx =
      (Ret (b64 pend @ [10, 0], ucast (of_nat (length (b64 pend)) + 1 :: u64)), ctx\<lparr>data_used := 0\<rparr>)"
    using nonzero by (simp add: EVP_EncodeFinal_def take encode_block_eq Let_def put_at_def n)
  moreover have "ucast (of_nat (length (b64 pend)) + 1 :: u64) = (of_nat (length (b64_lines pend)) :: u32)"
    using ucast_of_nat_u32 [of "length (b64 pend) + 1"] by (simp add: lines add.commute)
  ultimately show ?thesis
    using len by (simp add: lines)
qed

lemma encode_chunks_eq:
  "holds ctx pend \<Longrightarrow> \<forall>c \<in> set cs. length c \<le> 2 ^ 30 \<Longrightarrow>
   encode_chunks cs ctx = Some (b64_lines (pend @ concat cs))"
proof (induction cs arbitrary: ctx pend)
  case Nil
  then show ?case
    using encode_final_eq [OF Nil(1)] by (auto simp: unat_of_nat_u32)
next
  case (Cons c cs)
  let ?all = "pend @ c"
  define n where "n = 48 * (length ?all div 48)"
  from Cons.prems obtain out ctx' where
    out: "EVP_EncodeUpdate c ctx = (Ret (out, of_nat (length (b64_lines (take n ?all)))), ctx')"
      "take (length (b64_lines (take n ?all))) out = b64_lines (take n ?all)"
    and holds: "holds ctx' (drop n ?all)"
    using encode_update_eq [of ctx pend c] by (auto simp: n_def)
  have n: "length (take n ?all) = 48 * (length ?all div 48)"
    by (simp add: n_def)
  have "length pend < 48" "length c \<le> 2 ^ 30"
    using Cons.prems by (auto simp: holds_def)
  then have "65 * (length ?all div 48) < 2 ^ 32"
    by simp
  then have "unat (of_nat (length (b64_lines (take n ?all))) :: u32) = length (b64_lines (take n ?all))"
    using length_b64_lines [OF n] by (intro unat_of_nat_u32) simp
  moreover have "encode_chunks cs ctx' = Some (b64_lines (drop n ?all @ concat cs))"
    using Cons.IH [OF holds] Cons.prems(2) by simp
  moreover have "b64_lines (take n ?all @ drop n ?all @ concat cs) = b64_lines (take n ?all) @ b64_lines (drop n ?all @ concat cs)"
    by (rule b64_lines_append [OF n])
  then have "b64_lines (?all @ concat cs) = b64_lines (take n ?all) @ b64_lines (drop n ?all @ concat cs)"
    by (simp only: append_assoc [symmetric] append_take_drop_id)
  ultimately show ?case
    using out by simp
qed

section \<open>Decoding streams\<close>

text \<open>
  What the decoder does with characters that are not space: \<open>pend\<close> is the part of a quad it has
  seen, \<open>eof\<close> that a quad with padding has been seen. \<open>None\<close> is an error.
\<close>

fun feed :: "byte list \<Rightarrow> byte list \<Rightarrow> bool \<Rightarrow> (byte list \<times> byte list \<times> bool) option" where
  "feed [] pend eof = Some ([], pend, eof)"
| "feed (c # cs) pend eof =
     (if eof then None
      else if length pend = 3 then
        (case quad (pend ! 0) (pend ! 1) (pend ! 2) c of
           None \<Rightarrow> None
         | Some bs \<Rightarrow> map_option (\<lambda>(out, r). (bs @ out, r)) (feed cs [] (length bs < 3)))
      else feed cs (pend @ [c]) False)"

abbreviation digits_of :: "byte list \<Rightarrow> byte list" where
  "digits_of \<equiv> filter (\<lambda>c. \<not> line_space c)"

definition waits :: "evp_encode_ctx \<Rightarrow> byte list \<Rightarrow> bool \<Rightarrow> bool" where
  "waits ctx pend eof \<longleftrightarrow> data_used ctx = of_nat (length pend) \<and> length pend < 4 \<and>
     length (ctx_data ctx) = 48 \<and> take (length pend) (ctx_data ctx) = pend \<and>
     eof_seen ctx = eof \<and> \<not> error_encountered ctx"

lemma waits_init: "waits EVP_DecodeInit [] False"
  by (simp add: waits_def EVP_DecodeInit_def)

lemma waits_add:
  assumes "waits ctx pend eof"
    and ctx'_def: "ctx' = ctx\<lparr>ctx_data := (ctx_data ctx)[unat (data_used ctx) := c], data_used := data_used ctx + 1\<rparr>"
  shows "length pend < 3 \<Longrightarrow> waits ctx' (pend @ [c]) eof \<and> data_used ctx' \<noteq> 4"
    and "length pend = 3 \<Longrightarrow> data_used ctx' = 4 \<and> ctx_data ctx' ! 0 = pend ! 0 \<and> ctx_data ctx' ! 1 = pend ! 1 \<and>
      ctx_data ctx' ! 2 = pend ! 2 \<and> ctx_data ctx' ! 3 = c \<and>
      waits (ctx'\<lparr>data_used := 0\<rparr>) [] eof \<and> waits (ctx'\<lparr>data_used := 0, eof_seen := True\<rparr>) [] True"
proof -
  have used: "unat (data_used ctx) = length pend" "length pend < 4" "length (ctx_data ctx) = 48"
    "take (length pend) (ctx_data ctx) = pend"
    using assms(1) by (auto simp: waits_def unat_of_nat_u32)
  have take: "take (length (pend @ [c])) ((ctx_data ctx)[length pend := c]) = pend @ [c]"
    using used by (simp add: take_Suc_conv_app_nth)
  have num: "(of_nat (length pend) + 1 :: u32) = 4 \<longleftrightarrow> length pend = 3"
  proof -
    consider "length pend = 0" | "length pend = 1" | "length pend = 2" | "length pend = 3"
      using used(2) by linarith
    then show ?thesis by cases simp_all
  qed
  show "waits ctx' (pend @ [c]) eof \<and> data_used ctx' \<noteq> 4" if "length pend < 3"
    using assms(1) that take used num by (simp add: waits_def ctx'_def add.commute)
  have "ctx_data ctx' ! i = (pend @ [c]) ! i" if "length pend = 3" "i < 4" for i
  proof -
    have "take 4 (ctx_data ctx') = pend @ [c]"
      using take that(1) used(1) by (simp add: ctx'_def)
    then show ?thesis
      using nth_take [OF that(2), of "ctx_data ctx'"] by metis
  qed
  note nth = this
  show "data_used ctx' = 4 \<and> ctx_data ctx' ! 0 = pend ! 0 \<and> ctx_data ctx' ! 1 = pend ! 1 \<and>
      ctx_data ctx' ! 2 = pend ! 2 \<and> ctx_data ctx' ! 3 = c \<and>
      waits (ctx'\<lparr>data_used := 0\<rparr>) [] eof \<and> waits (ctx'\<lparr>data_used := 0, eof_seen := True\<rparr>) [] True" if "length pend = 3"
    using assms(1) that used num nth [OF that, of 0] nth [OF that, of 1] nth [OF that, of 2] nth [OF that, of 3]
    by (simp add: waits_def ctx'_def nth_append)
qed

lemma decode_loop_eq:
  "waits ctx pend eof \<Longrightarrow>
   (case feed (digits_of inp) pend eof of
      Some (o', p', e') \<Rightarrow> \<exists>ctx'. decode_loop inp out ctx = (True, out @ o', ctx') \<and> waits ctx' p' e'
    | None \<Rightarrow> fst (decode_loop inp out ctx) = False)"
proof (induction inp arbitrary: out ctx pend eof)
  case Nil
  then show ?case by simp
next
  case (Cons c inp)
  show ?case
  proof (cases "line_space c")
    case True
    then have eq: "decode_loop (c # inp) out ctx = decode_loop inp out ctx" "digits_of (c # inp) = digits_of inp"
      by simp_all
    show ?thesis
      unfolding eq by (rule Cons.IH [OF Cons.prems])
  next
    case char: False
    show ?thesis
    proof (cases eof)
      case True
      with Cons.prems char show ?thesis by (simp add: waits_def)
    next
      case False
      then have eof: "\<not> eof_seen ctx" "\<not> eof"
        using Cons.prems by (auto simp: waits_def)
      define ctx1 where "ctx1 = ctx\<lparr>ctx_data := (ctx_data ctx)[unat (data_used ctx) := c], data_used := data_used ctx + 1\<rparr>"
      note add = waits_add [OF Cons.prems ctx1_def]
      have run: "decode_loop (c # inp) out ctx =
        (if data_used ctx1 = 4 then
          (case base64_decode_quad (ctx_data ctx1 ! 0) (ctx_data ctx1 ! 1) (ctx_data ctx1 ! 2) (ctx_data ctx1 ! 3) of
             None \<Rightarrow> (False, out, ctx1\<lparr>error_encountered := True\<rparr>)
           | Some bs \<Rightarrow> decode_loop inp (out @ bs)
               (if length bs < 3 then ctx1\<lparr>data_used := 0, eof_seen := True\<rparr> else ctx1\<lparr>data_used := 0\<rparr>))
        else decode_loop inp out ctx1)"
        using char eof by (simp add: ctx1_def Let_def cong: option.case_cong if_cong)
      show ?thesis
      proof (cases "length pend = 3")
        case True
        show ?thesis
        proof (cases "quad (pend ! 0) (pend ! 1) (pend ! 2) c")
          case None
          then show ?thesis
            using run add(2) [OF True] char eof True by (simp add: decode_quad_eq)
        next
          case (Some bs)
          let ?ctx = "if length bs < 3 then ctx1\<lparr>data_used := 0, eof_seen := True\<rparr> else ctx1\<lparr>data_used := 0\<rparr>"
          have "waits ?ctx [] (length bs < 3)"
            using add(2) [OF True] eof by simp
          from Cons.IH [OF this, of "out @ bs"] show ?thesis
            using run add(2) [OF True] char eof True Some by (auto simp: decode_quad_eq split: option.splits)
        qed
      next
        case short: False
        then have "length pend < 3"
          using Cons.prems by (simp add: waits_def)
        from add(1) [OF this] have w: "waits ctx1 (pend @ [c]) False" "data_used ctx1 \<noteq> 4"
          using eof by simp_all
        have eq: "decode_loop (c # inp) out ctx = decode_loop inp out ctx1"
          "feed (digits_of (c # inp)) pend eof = feed (digits_of inp) (pend @ [c]) False"
          using run w(2) char eof short by simp_all
        show ?thesis
          unfolding eq by (rule Cons.IH [OF w(1)])
      qed
    qed
  qed
qed

lemma feed_append:
  "feed (xs @ ys) pend eof =
     (case feed xs pend eof of None \<Rightarrow> None
      | Some (out, p, e) \<Rightarrow> map_option (\<lambda>(out', r). (out @ out', r)) (feed ys p e))"
proof (induction xs pend eof rule: feed.induct)
  case (1 pend eof)
  then show ?case by (simp add: option.map_ident_strong split: prod.split)
next
  case (2 c cs pend eof)
  then show ?case
    by (auto simp: option.map_comp comp_def case_prod_unfold split: option.splits)
qed

lemma feed_pend: "length pend < 4 \<Longrightarrow> feed xs pend eof = Some (out, p, e) \<Longrightarrow> length p < 4 \<and> length out \<le> length pend + length xs"
proof (induction xs pend eof arbitrary: out rule: feed.induct)
  case (2 c cs pend eof)
  show ?case
  proof (cases "length pend = 3")
    case True
    with "2.prems" obtain bs out' where bs: "quad (pend ! 0) (pend ! 1) (pend ! 2) c = Some bs"
      and out': "feed cs [] (length bs < 3) = Some (out', p, e)" "out = bs @ out'"
      by (auto split: option.splits if_splits)
    with "2.IH"(1) [of bs out'] "2.prems" True length_quad [OF bs] show ?thesis
      by (auto split: if_splits)
  next
    case False
    with 2 show ?thesis by (auto split: if_splits)
  qed
qed simp

lemma feed_b64_decode: "b64_decode s = (case feed s [] False of Some (out, [], e) \<Rightarrow> Some out | _ \<Rightarrow> None)"
proof (induction s rule: b64_decode.induct)
  case (2 a b c d rest)
  show ?case
  proof (cases "quad a b c d")
    case (Some bs)
    have end_of: "feed rest [] True = (if rest = [] then Some ([], [], True) else None)"
      by (cases rest) simp_all
    from Some 2 end_of show ?thesis
      by (auto simp: numeral_3_eq_3 numeral_2_eq_2 split: option.splits list.splits)
  qed (simp add: numeral_3_eq_3 numeral_2_eq_2)
qed (simp_all add: numeral_3_eq_3)

fun decode_chunks :: "byte list list \<Rightarrow> evp_encode_ctx \<Rightarrow> byte list option" where
  "decode_chunks [] ctx = (if fst (EVP_DecodeFinal ctx) = 1 then Some [] else None)"
| "decode_chunks (c # cs) ctx =
     (case EVP_DecodeUpdate c ctx of ((r, n, out), ctx') \<Rightarrow>
        if r = - 1 then None else map_option ((@) (take (unat n) out)) (decode_chunks cs ctx'))"

lemma decode_chunks_eq:
  "waits ctx pend eof \<Longrightarrow> \<forall>c \<in> set cs. length c \<le> 2 ^ 30 \<Longrightarrow>
   decode_chunks cs ctx =
     (case feed (digits_of (concat cs)) pend eof of Some (out, [], e) \<Rightarrow> Some out | _ \<Rightarrow> None)"
proof (induction cs arbitrary: ctx pend eof)
  case Nil
  then have "data_used ctx = 0 \<longleftrightarrow> pend = []"
    using unat_of_nat_u32 [of "length pend"] by (auto simp: waits_def unat_eq_0 [symmetric])
  with Nil show ?case
    by (auto simp: EVP_DecodeFinal_def waits_def split: list.split)
next
  case (Cons c cs)
  have ok: "\<not> error_encountered ctx" "length pend < 4"
    using Cons.prems(1) by (simp_all add: waits_def)
  show ?case
  proof (cases "feed (digits_of c) pend eof")
    case None
    then have "fst (decode_loop c [] ctx) = False"
      using decode_loop_eq [OF Cons.prems(1), of c "[]"] by simp
    then have "fst (fst (EVP_DecodeUpdate c ctx)) = - 1"
      using ok(1) by (cases "decode_loop c [] ctx") (simp add: EVP_DecodeUpdate_def)
    with None show ?thesis
      by (cases "EVP_DecodeUpdate c ctx") (auto simp: feed_append)
  next
    case (Some r)
    obtain out p e where r: "r = (out, p, e)" by (cases r) auto
    obtain ctx' where run: "decode_loop c [] ctx = (True, out, ctx')" and w: "waits ctx' p e"
      using decode_loop_eq [OF Cons.prems(1), of c "[]"] Some r by auto
    have "length (digits_of c) \<le> 2 ^ 30"
      using Cons.prems(2) by (intro le_trans [OF length_filter_le]) simp
    then have len: "length out \<le> 0x7FFFFFFF"
      using feed_pend [OF ok(2), of "digits_of c"] ok(2) Some r by fastforce
    have update: "EVP_DecodeUpdate c ctx = ((if e then 0 else 1, of_nat (length out), out), ctx')"
      using ok(1) run len w by (simp add: EVP_DecodeUpdate_def waits_def)
    have "unat (of_nat (length out) :: u32) = length out"
      using len by (intro unat_of_nat_u32) simp
    then have "decode_chunks (c # cs) ctx = map_option ((@) out) (decode_chunks cs ctx')"
      using update by simp
    also have "decode_chunks cs ctx' =
        (case feed (digits_of (concat cs)) p e of Some (out, [], e) \<Rightarrow> Some out | _ \<Rightarrow> None)"
      by (rule Cons.IH [OF w]) (use Cons.prems(2) in simp)
    finally show ?thesis
      using Some r by (auto simp: feed_append split: option.splits list.splits)
  qed
qed

lemma digits_of_b64: "digits_of (b64 src) = b64 src"
  by (induction src rule: b64.induct) (simp_all add: Let_def digit_not_space line_space_def [of 61])

lemma b64_append: "length xs = 3 * k \<Longrightarrow> b64 (xs @ ys) = b64 xs @ b64 ys"
proof (induction k arbitrary: xs)
  case (Suc k)
  then obtain x y z xs' where "xs = x # y # z # xs'" "length xs' = 3 * k"
    by (cases xs; cases "tl xs"; cases "tl (tl xs)") auto
  with Suc.IH show ?case by (simp add: Let_def)
qed simp

lemma digits_of_b64_lines: "digits_of (b64_lines src) = b64 src"
proof (induction src rule: b64_lines.induct)
  case (1 src)
  show ?case
  proof (cases "src = []")
    case False
    then have "digits_of (b64_lines src) = b64 (take 48 src) @ b64 (drop 48 src)"
      using 1 by (subst b64_lines.simps) (simp add: digits_of_b64 line_space_def [of 10])
    also have "\<dots> = b64 src"
    proof (cases "length src < 48")
      case False
      then have "length (take 48 src) = 3 * 16" by simp
      from b64_append [OF this, of "drop 48 src"] show ?thesis by simp
    qed simp
    finally show ?thesis .
  qed simp
qed

lemma shifted_back_iff: "drop_bit 2 (push_bit 2 w) = (w :: u64) \<longleftrightarrow> unat w < 2 ^ 62"
proof -
  have "drop_bit 2 (push_bit 2 w) = take_bit 62 w"
    by (rule bit_word_eqI) (auto simp: bit_simps)
  then have "unat (drop_bit 2 (push_bit 2 w)) = unat w mod 2 ^ 62"
    by (simp only: unsigned_take_bit_eq take_bit_nat_def)
  then have "drop_bit 2 (push_bit 2 w) = w \<longleftrightarrow> unat w mod 2 ^ 62 = unat w"
    by (simp only: word_unat_eq_iff)
  also have "\<dots> \<longleftrightarrow> unat w < 2 ^ 62"
  proof
    assume "unat w mod 2 ^ 62 = unat w"
    moreover have "unat w mod 2 ^ 62 < 2 ^ 62" by simp
    ultimately show "unat w < 2 ^ 62" by simp
  qed simp
  finally show ?thesis .
qed

lemma encoded_length_eq:
  assumes "n < 2 ^ 64"
  shows "EVP_EncodedLength (of_nat n) =
    (if (n + 2) div 3 * 4 + 1 < 2 ^ 64 then Some (of_nat ((n + 2) div 3 * 4 + 1)) else None)"
proof (cases "n + 2 < 2 ^ 64")
  case True
  define w :: u64 where "w = (of_nat n + 2) div 3"
  have sum: "unat (of_nat n + 2 :: u64) = n + 2"
    using unat_of_nat_u64 [OF True] by (simp add: add.commute)
  then have w: "unat w = (n + 2) div 3"
    by (simp add: w_def unat_div)
  have no_wrap: "\<not> (of_nat n + 2 < (of_nat n :: u64))"
    unfolding word_less_nat_alt sum unat_of_nat_u64 [OF assms] by simp
  show ?thesis
  proof (cases "unat w < 2 ^ 62")
    case small: True
    have p: "push_bit 2 w = of_nat ((n + 2) div 3 * 4)"
    proof -
      have "w = of_nat ((n + 2) div 3)"
        unfolding w [symmetric] by simp
      then show ?thesis
        by (simp add: push_bit_eq_mult)
    qed
    have le: "(n + 2) div 3 * 4 + 1 < 2 ^ 64"
      using small w by simp
    then have "unat (push_bit 2 w) = (n + 2) div 3 * 4" "unat (push_bit 2 w + 1) = (n + 2) div 3 * 4 + 1"
      unfolding p using unat_of_nat_u64 [of "(n + 2) div 3 * 4"] unat_of_nat_u64 [of "(n + 2) div 3 * 4 + 1"]
      by (simp_all add: add.commute)
    then have "\<not> (push_bit 2 w + 1 < push_bit 2 w)"
      by (simp only: word_less_nat_alt)
    then show ?thesis
      unfolding EVP_EncodedLength_def Let_def w_def [symmetric] shifted_back_iff
      using no_wrap small le p by (simp add: add.commute)
  next
    case False
    then show ?thesis
      unfolding EVP_EncodedLength_def Let_def w_def [symmetric] shifted_back_iff
      using no_wrap w by simp
  qed
next
  case False
  then have n: "n = 2 ^ 64 - 2 \<or> n = 2 ^ 64 - 1"
    using assms by linarith
  then have "(of_nat n + 2 :: u64) < of_nat n" and "\<not> (n + 2) div 3 * 4 + 1 < 2 ^ 64"
    by auto
  then show ?thesis
    by (simp add: EVP_EncodedLength_def)
qed

lemma pad_triples_eq: "pad_triples dst = dst @ replicate (2 - (length dst + 2) mod 3) 0"
proof (induction dst rule: pad_triples.induct)
  case (1 dst)
  show ?case
  proof (cases "length dst mod 3 = 0")
    case True
    then have "(length dst + 2) mod 3 = 2" by presburger
    with True show ?thesis
      by (subst pad_triples.simps) simp
  next
    case False
    then have "2 - (length dst + 2) mod 3 = Suc (2 - (length (dst @ [0]) + 2) mod 3)"
      by simp presburger
    with False 1 show ?thesis
      by (subst pad_triples.simps) simp
  qed
qed

lemma trim_start_space: "\<forall>b \<in> set sp. b = 32 \<or> b = 9 \<Longrightarrow> trim_start (sp @ xs) = trim_start xs"
  by (induction sp) auto

lemma trim_end_space: "\<forall>b \<in> set sp. line_space b \<Longrightarrow> trim_end (xs @ sp) = trim_end xs"
proof (induction sp rule: rev_induct)
  case (snoc b sp)
  then show ?case
    by (subst trim_end.simps) (simp flip: append_assoc)
qed simp

lemma trim_end_id: "xs = [] \<or> \<not> line_space (last xs) \<Longrightarrow> trim_end xs = xs"
  by (subst trim_end.simps) auto

lemma trim_b64:
  assumes "\<forall>b \<in> set sp. b = 32 \<or> b = 9" and "\<forall>b \<in> set sp'. line_space b"
    and "xs \<noteq> []" and "\<forall>c \<in> set xs. \<not> line_space c"
  shows "trim_end (trim_start (sp @ xs @ sp')) = xs"
proof -
  obtain c cs where xs: "xs = c # cs" using assms(3) by (cases xs) auto
  then have "trim_start (xs @ sp') = xs @ sp'"
    using assms(4) by (auto simp: line_space_def)
  moreover have "trim_end xs = xs"
    using assms(3,4) by (intro trim_end_id) simp
  ultimately show ?thesis
    using trim_end_space [OF assms(2), of xs] trim_start_space [OF assms(1), of "xs @ sp'"] by simp
qed

lemma trim_spaces:
  assumes "\<forall>b \<in> set sp. b = 32 \<or> b = 9" and "\<forall>b \<in> set sp'. line_space b"
  shows "trim_end (trim_start (sp @ sp')) = []"
proof -
  have "set (trim_start sp') \<subseteq> set sp'" by (induction sp') auto
  then have "trim_end ([] @ trim_start sp') = trim_end []"
    using assms(2) by (intro trim_end_space) auto
  then show ?thesis
    using trim_start_space [OF assms(1)] trim_end_id [of "[]"] by simp
qed

lemma b64_no_space: "c \<in> set (b64 data) \<Longrightarrow> \<not> line_space c"
  using digits_of_b64 [of data] by (metis filter_id_conv)

lemma decode_block_eq:
  assumes "length xs < 2 ^ 31" and "trim_end (trim_start src) = xs"
  shows "EVP_DecodeBlock src = map_option pad_triples (b64_decode xs)"
proof (cases "length xs mod 4 = 0")
  case True
  have len: "length xs < 2 ^ 64" "length xs div 4 * 3 \<le> 0x7FFFFFFF"
    using assms(1) by simp_all
  then have max: "unat (of_nat (length xs) div 4 * 3 :: u64) = length xs div 4 * 3"
    by (intro u64_decoded)
  then have "\<not> (of_nat (length xs) div 4 * 3 > (0x7FFFFFFF :: u64))"
    using len(2) by (simp add: word_less_nat_alt)
  then have "EVP_DecodeBlock src = (case decode_quads xs [] of (False, _) \<Rightarrow> None | (True, out) \<Rightarrow> Some (pad_triples out))"
    using True len(1) assms(2)
    by (simp add: EVP_DecodeBlock_def EVP_DecodedLength_def EVP_DecodeBase64_def u64_mod_4 Let_def
        split: prod.split bool.split)
  then show ?thesis
    using decode_quads_eq [OF True, of "[]"] by (auto split: option.splits prod.splits bool.splits)
next
  case False
  moreover have "length xs < 2 ^ 64" using assms(1) by simp
  ultimately show ?thesis
    using assms(2) length_b64_decode [of xs]
    by (cases "b64_decode xs") (auto simp: EVP_DecodeBlock_def EVP_DecodedLength_def u64_mod_4 Let_def)
qed

section \<open>What the code guarantees\<close>

text \<open>
  the constant-time conversions are the base64 tables: \<open>conv_bin2ascii\<close> looks up the low six
  bits in the alphabet, \<open>base64_ascii_to_bin\<close> inverts it, maps the padding to 0, and is 0xff exactly
  for the bytes that are neither.
\<close>

theorem base64_tables:
  "conv_bin2ascii a = alphabet ! (unat a mod 64) \<and> base64_ascii_to_bin (conv_bin2ascii a) = a AND 0x3f \<and>
   base64_ascii_to_bin 61 = 0 \<and> (base64_ascii_to_bin c = 0xff \<longleftrightarrow> c \<notin> insert 61 (set alphabet))"
proof -
  have len: "length alphabet = 64" by (simp add: alphabet_def)
  have mem: "c \<in> set alphabet \<longleftrightarrow> (\<exists>v. digit_value c = Some v)"
  proof
    assume "c \<in> set alphabet"
    then obtain n where "n < 64" "alphabet ! n = c" by (auto simp: in_set_conv_nth len)
    then show "\<exists>v. digit_value c = Some v"
      using digit_value_digit [of n] by (simp add: digit_def)
  next
    assume "\<exists>v. digit_value c = Some v"
    then obtain v where "v < 64" "alphabet ! v = c"
      using digit_value_Some [of c] by (auto simp: digit_def)
    then show "c \<in> set alphabet"
      using nth_mem [of v alphabet] by (simp add: len)
  qed
  have small: "(of_nat v :: byte) \<noteq> 0xff" if "digit_value c = Some v" for v
    using digit_value_Some [OF that] by (simp add: word_unat_eq_iff unsigned_of_nat take_bit_nat_eq_self)
  have "a AND 0x3f = of_nat (unat a mod 64)"
    by (simp add: word_unat_eq_iff low_6_bits unsigned_of_nat take_bit_nat_eq_self)
  then show ?thesis
    by (auto simp: conv_bin2ascii_eq digit_value_digit digit_not_pad base64_ascii_to_bin_eq mem small
        split: option.splits) (simp_all add: digit_def)
qed

text \<open>
  \<open>EVP_EncodeBlock\<close> writes the standard encoding and a NUL and returns the length of the
  encoding, and \<open>EVP_EncodedLength\<close> is exactly the number of bytes it writes, failing just when
  that number has no 64-bit representation.
\<close>

theorem encode_block_is_base64:
  assumes "length src < 2 ^ 64"
  shows "EVP_EncodeBlock src = (b64 src @ [0], of_nat (length (b64 src))) \<and>
    EVP_EncodedLength (of_nat (length src)) =
      (if length (b64 src) + 1 < 2 ^ 64 then Some (of_nat (length (b64 src) + 1)) else None)"
  using encoded_length_eq [OF assms] by (simp add: encode_block_eq length_b64)

lemma encode_block_witness:
  "EVP_EncodeBlock [0x4d, 0x61] = (b64 [0x4d, 0x61] @ [0], of_nat (length (b64 [0x4d, 0x61]))) \<and>
    EVP_EncodedLength (of_nat (length [0x4d :: byte, 0x61])) =
      (if length (b64 [0x4d, 0x61]) + 1 < 2 ^ 64 then Some (of_nat (length (b64 [0x4d, 0x61]) + 1)) else None)"
  by (rule encode_block_is_base64) simp

text \<open>
  C30: \<open>EVP_DecodeBase64\<close> accepts exactly the base64 strings whose maximum decoded length fits the
  output, returns their bytes, and never writes past the end of the output, whatever the input.
\<close>

theorem decode_base64_exact:
  assumes "length inp < 2 ^ 64"
  shows "(case b64_decode inp of
      Some out \<Rightarrow> if length inp div 4 * 3 \<le> unat max_out
        then EVP_DecodeBase64 max_out inp = (True, of_nat (length out), out)
        else EVP_DecodeBase64 max_out inp = (False, 0, [])
    | None \<Rightarrow> \<exists>out. EVP_DecodeBase64 max_out inp = (False, 0, out)) \<and>
    length (snd (snd (EVP_DecodeBase64 max_out inp))) \<le> unat max_out"
proof (cases "length inp mod 4 = 0 \<and> length inp div 4 * 3 \<le> unat max_out")
  case True
  then have "EVP_DecodeBase64 max_out inp =
      (case decode_quads inp [] of (True, out) \<Rightarrow> (True, of_nat (length out), out) | (False, out) \<Rightarrow> (False, 0, out))"
    using assms by (simp add: EVP_DecodeBase64_def EVP_DecodedLength_def u64_mod_4 u64_decoded word_less_nat_alt not_less)
  moreover have "length (snd (decode_quads inp [])) \<le> unat max_out"
    using length_decode_quads [of inp "[]"] True by simp
  ultimately show ?thesis
    using decode_quads_eq [of inp "[]"] True
    by (cases "decode_quads inp []"; cases "fst (decode_quads inp [])") (auto split: option.splits)
next
  case False
  then have "EVP_DecodeBase64 max_out inp = (False, 0, [])"
    using assms by (auto simp: EVP_DecodeBase64_def EVP_DecodedLength_def u64_mod_4 u64_decoded word_less_nat_alt not_less)
  with False show ?thesis
    using length_b64_decode [of inp] by (auto split: option.splits)
qed

lemma decode_base64_witness:
  "(case b64_decode [0x54, 0x57, 0x45, 61] of
      Some out \<Rightarrow> if length [0x54 :: byte, 0x57, 0x45, 61] div 4 * 3 \<le> unat (3 :: u64)
        then EVP_DecodeBase64 3 [0x54, 0x57, 0x45, 61] = (True, of_nat (length out), out)
        else EVP_DecodeBase64 3 [0x54, 0x57, 0x45, 61] = (False, 0, [])
    | None \<Rightarrow> \<exists>out. EVP_DecodeBase64 3 [0x54, 0x57, 0x45, 61] = (False, 0, out)) \<and>
    length (snd (snd (EVP_DecodeBase64 3 [0x54, 0x57, 0x45, 61]))) \<le> unat (3 :: u64)"
  by (rule decode_base64_exact) simp

text \<open>
  C31: the streaming decoder gives, whatever the chunks, the decoding of the text without its spaces
  and line ends, and an error exactly when that is not a base64 string.
\<close>

theorem decode_stream_exact:
  assumes "\<forall>d \<in> set ds. length d \<le> 2 ^ 30"
  shows "decode_chunks ds EVP_DecodeInit = b64_decode (digits_of (concat ds))"
  using decode_chunks_eq [OF waits_init assms] by (simp add: feed_b64_decode)

lemma decode_stream_exact_witness:
  "decode_chunks [[0x54, 0x57], [32, 0x46], [0x75, 10]] EVP_DecodeInit =
    b64_decode (digits_of (concat [[0x54, 0x57], [32, 0x46], [0x75, 10]]))"
  by (rule decode_stream_exact) simp

text \<open>
  C32: the streaming encoder gives, whatever the chunks, the encoding in lines of 64 characters, and
  the streaming decoder gives the data back however the text is cut into chunks.
\<close>

theorem base64_stream_round_trip:
  assumes "\<forall>c \<in> set cs. length c \<le> 2 ^ 30" and "\<forall>d \<in> set ds. length d \<le> 2 ^ 30"
    and "concat ds = b64_lines (concat cs)"
  shows "encode_chunks cs EVP_EncodeInit = Some (b64_lines (concat cs)) \<and>
    decode_chunks ds EVP_DecodeInit = Some (concat cs)"
proof
  show "encode_chunks cs EVP_EncodeInit = Some (b64_lines (concat cs))"
    using encode_chunks_eq [OF holds_init assms(1)] by simp
  have "decode_chunks ds EVP_DecodeInit = b64_decode (digits_of (concat ds))"
    using decode_chunks_eq [OF waits_init assms(2)] by (simp add: feed_b64_decode)
  then show "decode_chunks ds EVP_DecodeInit = Some (concat cs)"
    by (simp add: assms(3) digits_of_b64_lines b64_decode_b64)
qed

lemma base64_stream_round_trip_witness:
  "encode_chunks [[0x4d], [0x61, 0x6e]] EVP_EncodeInit = Some (b64_lines (concat [[0x4d], [0x61, 0x6e]])) \<and>
    decode_chunks [[0x54, 0x57, 0x46], [0x75, 10]] EVP_DecodeInit = Some (concat [[0x4d], [0x61, 0x6e]])"
  by (rule base64_stream_round_trip)
    (simp_all add: b64_lines_short Let_def be_nat_def digit_def alphabet_def)

text \<open>
  \<open>EVP_DecodeBlock\<close> strips spaces and tabs in front and spaces and line ends behind, decodes the
  rest, and fills the result with zeros up to three bytes for every quad. The minus signs that its
  documentation says it strips make it fail.
\<close>

theorem decode_block_pads:
  assumes "length (b64 data) + 1 < 2 ^ 31"
    and "\<forall>b \<in> set sp. b = 32 \<or> b = 9" and "\<forall>b \<in> set sp'. line_space b"
  shows "EVP_DecodeBlock (sp @ b64 data @ sp') = Some (data @ replicate (2 - (length data + 2) mod 3) 0) \<and>
    EVP_DecodeBlock (sp @ b64 data @ [45] @ sp') = None"
proof
  have "trim_end (trim_start (sp @ b64 data @ sp')) = b64 data"
  proof (cases "b64 data = []")
    case True
    then show ?thesis
      using trim_spaces [OF assms(2,3)] by simp
  next
    case False
    with assms(2,3) show ?thesis
      by (rule trim_b64) (simp add: b64_no_space)
  qed
  with assms(1) show "EVP_DecodeBlock (sp @ b64 data @ sp') = Some (data @ replicate (2 - (length data + 2) mod 3) 0)"
    by (subst decode_block_eq [of "b64 data"]) (simp_all add: b64_decode_b64 pad_triples_eq)
  let ?xs = "b64 data @ [45]"
  have "trim_end (trim_start (sp @ ?xs @ sp')) = ?xs"
    using assms(2,3) by (rule trim_b64) (auto simp: b64_no_space line_space_def [of 45])
  moreover have "length ?xs mod 4 = 1"
    by (simp add: length_b64 mod_Suc)
  then have "b64_decode ?xs = None"
    using length_b64_decode [of ?xs] by (cases "b64_decode ?xs") simp_all
  ultimately show "EVP_DecodeBlock (sp @ b64 data @ [45] @ sp') = None"
    using assms(1) by (subst decode_block_eq [of ?xs]) simp_all
qed

lemma decode_block_pads_witness:
  "EVP_DecodeBlock ([32] @ b64 [1] @ [13, 10]) = Some ([1] @ replicate (2 - (length [1 :: byte] + 2) mod 3) 0) \<and>
    EVP_DecodeBlock ([32] @ b64 [1] @ [45] @ [13, 10]) = None"
  by (rule decode_block_pads) (simp_all add: line_space_def Let_def)

end
