(* ===== verification/Stack.thy ===== *)
theory Stack
  imports Prelude "HOL-Library.Multiset"
begin

text \<open>
  BoringSSL's stack of pointers (\<open>crypto/stack/stack.c\<close>). A pointer is a number, 0 is \<open>NULL\<close>. The
  valid pointers of the array \<open>data\<close> are the list \<open>sk_data\<close>, whose length is \<open>num\<close>; the array has room
  for \<open>num_alloc\<close> of them. A comparison function is also a pointer: \<open>sk_comp\<close> is 0 or the number of a
  function that the argument \<open>cmps\<close> interprets, which compares what the pointers point to.

  A stack that is passed as \<open>NULL\<close> is \<open>None\<close>. The outcomes of allocations are arguments. \<open>qsort\<close> and
  \<open>bsearch\<close> are those of the C library, which leaves open where equal elements go and which of them is
  found; they are arguments, with their contract as a locale.
\<close>

type_synonym ptr = nat
type_synonym cmp_funs = "nat \<Rightarrow> ptr \<Rightarrow> ptr \<Rightarrow> int"

record stack =
  sk_data :: "ptr list"
  sk_sorted :: bool
  num_alloc :: u64
  sk_comp :: nat

definition kMinSize :: nat where
  "kMinSize = 4"

section \<open>Creation and access\<close>

definition sk_new :: "nat \<Rightarrow> bool \<Rightarrow> bool \<Rightarrow> stack option" where
  "sk_new cf malloc_ok malloc_data_ok =
     (if \<not> malloc_ok then None
      else if \<not> malloc_data_ok then None
      else Some \<lparr>sk_data = [], sk_sorted = False, num_alloc = of_nat kMinSize, sk_comp = cf\<rparr>)"

definition sk_new_null :: "bool \<Rightarrow> bool \<Rightarrow> stack option" where
  "sk_new_null = sk_new 0"

definition sk_num :: "stack option \<Rightarrow> nat" where
  "sk_num sk = (case sk of None \<Rightarrow> 0 | Some s \<Rightarrow> length (sk_data s))"

definition sk_zero :: "stack option \<Rightarrow> stack option" where
  "sk_zero sk = (case sk of
      None \<Rightarrow> None
    | Some s \<Rightarrow> if length (sk_data s) = 0 then Some s else Some (s\<lparr>sk_data := [], sk_sorted := False\<rparr>))"

definition sk_value :: "stack option \<Rightarrow> nat \<Rightarrow> ptr" where
  "sk_value sk i = (case sk of
      None \<Rightarrow> 0
    | Some s \<Rightarrow> if i \<ge> length (sk_data s) then 0 else sk_data s ! i)"

definition sk_set :: "stack option \<Rightarrow> nat \<Rightarrow> ptr \<Rightarrow> ptr \<times> stack option" where
  "sk_set sk i v = (case sk of
      None \<Rightarrow> (0, None)
    | Some s \<Rightarrow>
        if i \<ge> length (sk_data s) then (0, Some s)
        else (v, Some (s\<lparr>sk_data := (sk_data s)[i := v]\<rparr>)))"

text \<open>The pointers that \<open>func\<close> is called with, in order.\<close>

definition sk_pop_free :: "stack option \<Rightarrow> ptr list" where
  "sk_pop_free sk = (case sk of None \<Rightarrow> [] | Some s \<Rightarrow> filter (\<lambda>p. p \<noteq> 0) (sk_data s))"

section \<open>Insertion and deletion\<close>

text \<open>
  The room for one more pointer: the new \<open>num_alloc\<close>, \<open>None\<close> when it overflows or the array cannot be
  reallocated. \<open>sizeof (void *)\<close> is 8.
\<close>

definition sk_grow :: "(u64 \<Rightarrow> bool) \<Rightarrow> u64 \<Rightarrow> nat \<Rightarrow> u64 option" where
  "sk_grow realloc_ok alloc num =
     (if alloc \<le> of_nat num + 1 then
        let new_alloc = push_bit 1 alloc;
            alloc_size = new_alloc * 8;
            new_alloc = (if new_alloc < alloc \<or> alloc_size div 8 \<noteq> new_alloc then alloc + 1 else new_alloc);
            alloc_size = new_alloc * 8 in
        if new_alloc < alloc \<or> alloc_size div 8 \<noteq> new_alloc then None
        else if \<not> realloc_ok alloc_size then None
        else Some new_alloc
      else Some alloc)"

definition sk_insert :: "(u64 \<Rightarrow> bool) \<Rightarrow> stack option \<Rightarrow> ptr \<Rightarrow> nat \<Rightarrow> nat \<times> stack option" where
  "sk_insert realloc_ok sk p loc = (case sk of
      None \<Rightarrow> (0, None)
    | Some s \<Rightarrow>
        (case sk_grow realloc_ok (num_alloc s) (length (sk_data s)) of
           None \<Rightarrow> (0, Some s)
         | Some alloc \<Rightarrow>
             let s = s\<lparr>num_alloc := alloc\<rparr>;
                 data = (if loc \<ge> length (sk_data s) then sk_data s @ [p]
                   else take loc (sk_data s) @ [p] @ drop loc (sk_data s));
                 s = s\<lparr>sk_data := data, sk_sorted := False\<rparr> in
             (length (sk_data s), Some s)))"

definition sk_delete :: "stack option \<Rightarrow> nat \<Rightarrow> ptr \<times> stack option" where
  "sk_delete sk loc = (case sk of
      None \<Rightarrow> (0, None)
    | Some s \<Rightarrow>
        if loc \<ge> length (sk_data s) then (0, Some s)
        else
          let data = (if loc \<noteq> length (sk_data s) - 1
            then take loc (sk_data s) @ drop (loc + 1) (sk_data s) else butlast (sk_data s)) in
          (sk_data s ! loc, Some (s\<lparr>sk_data := data\<rparr>)))"

text \<open>The first index, from \<open>i\<close> on, at which a pointer is in an array.\<close>

fun ptr_index :: "ptr \<Rightarrow> ptr list \<Rightarrow> nat \<Rightarrow> nat option" where
  "ptr_index p [] i = None"
| "ptr_index p (q # data) i = (if q = p then Some i else ptr_index p data (i + 1))"

definition sk_delete_ptr :: "stack option \<Rightarrow> ptr \<Rightarrow> ptr \<times> stack option" where
  "sk_delete_ptr sk p = (case sk of
      None \<Rightarrow> (0, None)
    | Some s \<Rightarrow> (case ptr_index p (sk_data s) 0 of None \<Rightarrow> (0, Some s) | Some i \<Rightarrow> sk_delete (Some s) i))"

definition sk_shift :: "stack option \<Rightarrow> ptr \<times> stack option" where
  "sk_shift sk = (case sk of
      None \<Rightarrow> (0, None)
    | Some s \<Rightarrow> if length (sk_data s) = 0 then (0, Some s) else sk_delete (Some s) 0)"

definition sk_push :: "(u64 \<Rightarrow> bool) \<Rightarrow> stack option \<Rightarrow> ptr \<Rightarrow> nat \<times> stack option" where
  "sk_push realloc_ok sk p = sk_insert realloc_ok sk p (sk_num sk)"

definition sk_pop :: "stack option \<Rightarrow> ptr \<times> stack option" where
  "sk_pop sk = (case sk of
      None \<Rightarrow> (0, None)
    | Some s \<Rightarrow> if length (sk_data s) = 0 then (0, Some s) else sk_delete (Some s) (length (sk_data s) - 1))"

section \<open>Sorting and finding\<close>

type_synonym sort_fun = "(ptr \<Rightarrow> ptr \<Rightarrow> int) \<Rightarrow> ptr list \<Rightarrow> ptr list"
type_synonym search_fun = "(ptr \<Rightarrow> ptr \<Rightarrow> int) \<Rightarrow> ptr \<Rightarrow> ptr list \<Rightarrow> nat option"

definition sk_sort :: "sort_fun \<Rightarrow> cmp_funs \<Rightarrow> stack option \<Rightarrow> stack option" where
  "sk_sort qsort cmps sk = (case sk of
      None \<Rightarrow> None
    | Some s \<Rightarrow>
        if sk_comp s = 0 \<or> sk_sorted s then Some s
        else Some (s\<lparr>sk_data := qsort (cmps (sk_comp s)) (sk_data s), sk_sorted := True\<rparr>))"

definition sk_is_sorted :: "stack option \<Rightarrow> bool" where
  "sk_is_sorted sk = (case sk of None \<Rightarrow> True | Some s \<Rightarrow> sk_sorted s)"

definition sk_set_cmp_func :: "stack \<Rightarrow> nat \<Rightarrow> nat \<times> stack" where
  "sk_set_cmp_func s cf =
     (sk_comp s, (if sk_comp s \<noteq> cf then s\<lparr>sk_sorted := False\<rparr> else s)\<lparr>sk_comp := cf\<rparr>)"

text \<open>The loop that goes back from a match to the first one.\<close>

fun first_match :: "(ptr \<Rightarrow> ptr \<Rightarrow> int) \<Rightarrow> ptr \<Rightarrow> ptr list \<Rightarrow> nat \<Rightarrow> nat" where
  "first_match cmp p data 0 = 0"
| "first_match cmp p data (Suc i) = (if cmp p (data ! i) = 0 then first_match cmp p data i else Suc i)"

text \<open>The index that is found, and the stack, which the search may have sorted.\<close>

definition sk_find :: "sort_fun \<Rightarrow> search_fun \<Rightarrow> cmp_funs \<Rightarrow> stack option \<Rightarrow> ptr \<Rightarrow> nat option \<times> stack option" where
  "sk_find qsort bsearch cmps sk p = (case sk of
      None \<Rightarrow> (None, None)
    | Some s \<Rightarrow>
        if sk_comp s = 0 then (ptr_index p (sk_data s) 0, Some s)
        else if p = 0 then (None, Some s)
        else (case sk_sort qsort cmps (Some s) of
            None \<Rightarrow> (None, None)
          | Some s \<Rightarrow>
              (case bsearch (cmps (sk_comp s)) p (sk_data s) of
                 None \<Rightarrow> (None, Some s)
               | Some idx \<Rightarrow> (Some (first_match (cmps (sk_comp s)) p (sk_data s) idx), Some s))))"

section \<open>Copies\<close>

definition sk_dup :: "bool \<Rightarrow> bool \<Rightarrow> bool \<Rightarrow> stack option \<Rightarrow> stack option" where
  "sk_dup malloc_ok malloc_data_ok realloc_ok sk = (case sk of
      None \<Rightarrow> None
    | Some s \<Rightarrow>
        (case sk_new (sk_comp s) malloc_ok malloc_data_ok of
           None \<Rightarrow> None
         | Some r \<Rightarrow>
             if \<not> realloc_ok then None
             else Some (r\<lparr>sk_data := sk_data s, sk_sorted := sk_sorted s, num_alloc := num_alloc s, sk_comp := sk_comp s\<rparr>)))"

text \<open>
  The loop of \<open>sk_deep_copy\<close>: the copies, or the pointers that \<open>free_func\<close> is called with after a copy
  has failed. \<open>copy_func\<close> returns \<open>NULL\<close>, 0, when it fails.
\<close>

fun copy_loop :: "(ptr \<Rightarrow> ptr) \<Rightarrow> ptr list \<Rightarrow> ptr list \<Rightarrow> ptr list + ptr list" where
  "copy_loop copy_func don [] = Inr don"
| "copy_loop copy_func don (p # data) =
     (if p = 0 then copy_loop copy_func (don @ [p]) data
      else if copy_func p = 0 then Inl (filter (\<lambda>q. q \<noteq> 0) don)
      else copy_loop copy_func (don @ [copy_func p]) data)"

definition sk_deep_copy ::
  "bool \<Rightarrow> bool \<Rightarrow> bool \<Rightarrow> (ptr \<Rightarrow> ptr) \<Rightarrow> stack option \<Rightarrow> stack option \<times> ptr list" where
  "sk_deep_copy malloc_ok malloc_data_ok realloc_ok copy_func sk =
     (case sk_dup malloc_ok malloc_data_ok realloc_ok sk of
        None \<Rightarrow> (None, [])
      | Some r \<Rightarrow>
          (case copy_loop copy_func [] (sk_data r) of
             Inl freed \<Rightarrow> (None, freed)
           | Inr data \<Rightarrow> (Some (r\<lparr>sk_data := data\<rparr>), [])))"

end
