(* ===== verification/Stack_Spec.thy ===== *)
theory Stack_Spec
  imports Stack Bytes
begin

text \<open>
  What the stack guarantees: a stack is a list, every operation is the list operation of its name and
  keeps the room in the array, for one more pointer than it holds. All but two also keep the truth of
  the mark, that a stack marked as sorted is sorted (\<open>stack_ok\<close> is both): \<open>sk_set\<close> does not, and
  \<open>sk_deep_copy\<close> only when the copies compare like the originals. The laws of the C library's sort and search that \<open>sk_find\<close> needs
  are the locale \<open>c_sorting\<close>, interpreted here on an insertion sort and a binary search.
\<close>

section \<open>The contract of sort and search\<close>

text \<open>A comparison function that \<open>qsort\<close> accepts: a total preorder given by signs.\<close>

definition consistent :: "(ptr \<Rightarrow> ptr \<Rightarrow> int) \<Rightarrow> bool" where
  "consistent cmp \<longleftrightarrow> (\<forall>x y. cmp x y \<le> 0 \<longleftrightarrow> 0 \<le> cmp y x) \<and>
     (\<forall>x y z. cmp x y \<le> 0 \<longrightarrow> cmp y z \<le> 0 \<longrightarrow> cmp x z \<le> 0)"

definition in_order :: "(ptr \<Rightarrow> ptr \<Rightarrow> int) \<Rightarrow> ptr list \<Rightarrow> bool" where
  "in_order cmp xs \<longleftrightarrow> sorted_wrt (\<lambda>x y. cmp x y \<le> 0) xs"

locale c_sorting =
  fixes qsort :: sort_fun and bsearch :: search_fun
  assumes qsort_mset: "mset (qsort cmp xs) = mset xs"
    and qsort_in_order: "consistent cmp \<Longrightarrow> in_order cmp (qsort cmp xs)"
    and bsearch_Some: "bsearch cmp p xs = Some i \<Longrightarrow> i < length xs \<and> cmp p (xs ! i) = 0"
    and bsearch_None: "consistent cmp \<Longrightarrow> in_order cmp xs \<Longrightarrow> bsearch cmp p xs = None \<Longrightarrow>
      x \<in> set xs \<Longrightarrow> cmp p x \<noteq> 0"

section \<open>The invariant\<close>

definition stack_ok :: "cmp_funs \<Rightarrow> stack \<Rightarrow> bool" where
  "stack_ok cmps s \<longleftrightarrow> length (sk_data s) < unat (num_alloc s) \<and>
     (sk_sorted s \<longrightarrow> sk_comp s \<noteq> 0 \<longrightarrow> in_order (cmps (sk_comp s)) (sk_data s))"

lemma in_order_sublist:
  "in_order cmp (xs @ ys @ zs) \<Longrightarrow> in_order cmp (xs @ zs)"
  by (auto simp: in_order_def sorted_wrt_append)

lemma in_order_delete: "in_order cmp xs \<Longrightarrow> in_order cmp (take i xs @ drop (Suc i) xs)"
proof (cases "i < length xs")
  case True
  assume "in_order cmp xs"
  then have "in_order cmp (take i xs @ [xs ! i] @ drop (Suc i) xs)"
    using True by (simp add: id_take_nth_drop [symmetric])
  then show ?thesis by (rule in_order_sublist)
qed simp

lemma delete_eq:
  "i < length xs \<Longrightarrow>
   (if i \<noteq> length xs - 1 then take i xs @ drop (i + 1) xs else butlast xs) = take i xs @ drop (Suc i) xs"
  by (auto simp: butlast_conv_take)

lemma sk_delete_eq:
  "sk_delete (Some s) i =
     (if i < length (sk_data s)
      then (sk_data s ! i, Some (s\<lparr>sk_data := take i (sk_data s) @ drop (Suc i) (sk_data s)\<rparr>))
      else (0, Some s))"
  using delete_eq [of i "sk_data s"] by (auto simp: sk_delete_def Let_def not_less)

lemma ptr_index_eq:
  "ptr_index p data i =
     (if p \<in> set data then Some (i + length (takeWhile (\<lambda>q. q \<noteq> p) data)) else None)"
  by (induction data arbitrary: i) auto

lemma takeWhile_first:
  assumes "p \<in> set xs"
  shows "length (takeWhile (\<lambda>q. q \<noteq> p) xs) < length xs" and "xs ! length (takeWhile (\<lambda>q. q \<noteq> p) xs) = p"
    and "take (length (takeWhile (\<lambda>q. q \<noteq> p) xs)) xs @ drop (Suc (length (takeWhile (\<lambda>q. q \<noteq> p) xs))) xs = remove1 p xs"
  using assms by (induction xs) auto

lemma grow_cases:
  assumes "n < unat alloc"
  shows "case sk_grow realloc_ok alloc n of
      Some alloc' \<Rightarrow> n + 1 < unat alloc'
    | None \<Rightarrow> alloc = of_nat n + 1"
proof (cases "alloc \<le> of_nat n + 1")
  case True
  have "unat (of_nat n + 1 :: u64) = n + 1"
    using unat_of_nat_u64 [of "n + 1"] unat_u64_less [of alloc] assms by (simp add: add.commute)
  with True assms have alloc: "unat alloc = n + 1" "alloc = of_nat n + 1"
    by (auto simp: word_le_nat_alt word_unat_eq_iff)
  have more: "n + 1 < unat new" if "\<not> new < alloc" "new \<noteq> alloc" for new :: u64
    using that alloc(1) by (simp add: word_less_nat_alt word_unat_eq_iff)
  have "alloc \<noteq> 0"
    using alloc(1) by auto
  then have "push_bit 1 alloc \<noteq> alloc" "alloc + 1 \<noteq> alloc"
    by (simp_all add: push_bit_eq_mult)
  then show ?thesis
    using True alloc(2) more by (auto simp: sk_grow_def Let_def)
next
  case False
  have "unat (of_nat n + 1 :: u64) = n + 1"
    using unat_of_nat_u64 [of "n + 1"] unat_u64_less [of alloc] assms by (simp add: add.commute)
  with False show ?thesis
    by (simp add: sk_grow_def word_le_nat_alt)
qed

lemma grow_succeeds:
  assumes "n < unat alloc" and "unat alloc < 2 ^ 60" and "\<forall>m. realloc_ok m"
  shows "sk_grow realloc_ok alloc n \<noteq> None"
proof -
  have p: "unat (push_bit 1 alloc) = 2 * unat alloc"
    using assms(2) by (simp add: push_bit_eq_mult unat_word_ariths)
  then have "unat (push_bit 1 alloc * 8) = 16 * unat alloc"
    using assms(2) by (simp add: unat_word_ariths)
  then have "push_bit 1 alloc * 8 div 8 = push_bit 1 alloc" "\<not> push_bit 1 alloc < alloc"
    using p by (simp_all add: word_unat_eq_iff unat_div word_less_nat_alt)
  then show ?thesis
    using assms(3) by (simp add: sk_grow_def Let_def)
qed

lemma sk_insert_eq:
  assumes "stack_ok cmps s"
  shows "(\<exists>alloc. sk_insert realloc_ok (Some s) p i = (length (sk_data s) + 1,
      Some (s\<lparr>num_alloc := alloc, sk_data := take i (sk_data s) @ [p] @ drop i (sk_data s), sk_sorted := False\<rparr>)) \<and>
      length (sk_data s) + 1 < unat alloc) \<or>
    sk_insert realloc_ok (Some s) p i = (0, Some s) \<and> sk_grow realloc_ok (num_alloc s) (length (sk_data s)) = None"
proof (cases "sk_grow realloc_ok (num_alloc s) (length (sk_data s))")
  case None
  then show ?thesis by (simp add: sk_insert_def)
next
  case (Some alloc)
  then have "length (sk_data s) + 1 < unat alloc"
    using grow_cases [of "length (sk_data s)" "num_alloc s" realloc_ok] assms by (simp add: stack_ok_def)
  then show ?thesis
    using Some by (intro disjI1 exI [of _ alloc]) (simp add: sk_insert_def Let_def)
qed

section \<open>Operations keep the invariant\<close>

definition sk_ok :: "cmp_funs \<Rightarrow> stack option \<Rightarrow> bool" where
  "sk_ok cmps sk = (case sk of None \<Rightarrow> True | Some s \<Rightarrow> stack_ok cmps s)"

lemma sk_ok_simps [simp]: "sk_ok cmps None" "sk_ok cmps (Some s) = stack_ok cmps s"
  by (simp_all add: sk_ok_def)

lemma ok_delete: "sk_ok cmps sk \<Longrightarrow> sk_ok cmps (snd (sk_delete sk i))"
proof (cases sk)
  case (Some s)
  assume "sk_ok cmps sk"
  then show ?thesis
    using in_order_delete [of "cmps (sk_comp s)" "sk_data s" i] by (auto simp: Some sk_delete_eq stack_ok_def)
qed (simp add: sk_delete_def)

lemma ok_insert: "sk_ok cmps sk \<Longrightarrow> sk_ok cmps (snd (sk_insert realloc_ok sk p i))"
proof (cases sk)
  case (Some s)
  assume "sk_ok cmps sk"
  then show ?thesis
    using sk_insert_eq [of cmps s realloc_ok p i] by (auto simp: Some stack_ok_def)
qed (simp add: sk_insert_def)

section \<open>Finding\<close>

lemma ordering_refl: "consistent cmp \<Longrightarrow> cmp x x = 0"
proof -
  assume o: "consistent cmp"
  then have "cmp x x \<le> 0 \<longleftrightarrow> 0 \<le> cmp x x" unfolding consistent_def by blast
  then show ?thesis by linarith
qed

lemma ordering_flip: "consistent cmp \<Longrightarrow> cmp x y \<le> 0 \<longleftrightarrow> 0 \<le> cmp y x"
  unfolding consistent_def by blast

lemma ordering_trans: "consistent cmp \<Longrightarrow> cmp x y \<le> 0 \<Longrightarrow> cmp y z \<le> 0 \<Longrightarrow> cmp x z \<le> 0"
  unfolding consistent_def by blast

lemma in_order_nth: "in_order cmp xs \<Longrightarrow> i < j \<Longrightarrow> j < length xs \<Longrightarrow> cmp (xs ! i) (xs ! j) \<le> 0"
  by (auto simp: in_order_def sorted_wrt_iff_nth_less)

lemma first_match_eq:
  assumes "consistent cmp" and "in_order cmp data"
  shows "i < length data \<Longrightarrow> cmp p (data ! i) = 0 \<Longrightarrow>
    first_match cmp p data i = length (takeWhile (\<lambda>q. cmp p q \<noteq> 0) data)"
proof (induction i)
  case 0
  then show ?case
    by (cases data) simp_all
next
  case (Suc i)
  show ?case
  proof (cases "cmp p (data ! i) = 0")
    case True
    with Suc show ?thesis by simp
  next
    case False
    have "cmp p (data ! k) \<noteq> 0" if k: "k < Suc i" for k
    proof
      assume eq: "cmp p (data ! k) = 0"
      with False k have "k < i" by (cases "k = i") auto
      have "cmp p (data ! k) \<le> 0" "cmp (data ! k) (data ! i) \<le> 0" "cmp (data ! i) (data ! Suc i) \<le> 0"
        using eq in_order_nth [OF assms(2)] \<open>k < i\<close> Suc.prems(1) by simp_all
      moreover have "cmp (data ! Suc i) p \<le> 0"
        using Suc.prems(2) ordering_flip [OF assms(1), of "data ! Suc i" p] by simp
      ultimately have "cmp p (data ! i) \<le> 0" and "cmp (data ! i) p \<le> 0"
        using ordering_trans [OF assms(1)] by blast+
      with False show False
        using ordering_flip [OF assms(1), of "data ! i" p] by simp
    qed
    then have "takeWhile (\<lambda>q. cmp p q \<noteq> 0) data = take (Suc i) data"
      using Suc.prems by (intro takeWhile_eq_take_P_nth) simp_all
    with False Suc.prems(1) show ?thesis by simp
  qed
qed

context c_sorting
begin

lemma sort_in_order:
  assumes "consistent (cmps (sk_comp s))" and "stack_ok cmps s" and "sk_comp s \<noteq> 0"
  shows "\<exists>data. sk_sort qsort cmps (Some s) = Some (s\<lparr>sk_data := data, sk_sorted := True\<rparr>) \<and>
    mset data = mset (sk_data s) \<and> in_order (cmps (sk_comp s)) data"
proof (cases "sk_sorted s")
  case True
  then show ?thesis
    using assms by (intro exI [of _ "sk_data s"]) (simp add: sk_sort_def stack_ok_def)
next
  case False
  then show ?thesis
    using assms qsort_mset qsort_in_order
    by (intro exI [of _ "qsort (cmps (sk_comp s)) (sk_data s)"]) (simp add: sk_sort_def)
qed

lemma ok_sort:
  assumes "sk_ok cmps sk" and "\<forall>s. sk = Some s \<longrightarrow> sk_comp s \<noteq> 0 \<longrightarrow> consistent (cmps (sk_comp s))"
  shows "sk_ok cmps (sk_sort qsort cmps sk)"
proof (cases sk)
  case (Some s)
  show ?thesis
  proof (cases "sk_comp s = 0")
    case True
    with assms(1) show ?thesis by (simp add: Some sk_sort_def)
  next
    case False
    then obtain data where "sk_sort qsort cmps sk = Some (s\<lparr>sk_data := data, sk_sorted := True\<rparr>)"
      "mset data = mset (sk_data s)" "in_order (cmps (sk_comp s)) data"
      using sort_in_order [of cmps s] assms by (auto simp: Some)
    then show ?thesis
      using assms(1) by (auto simp: Some stack_ok_def dest!: mset_eq_length)
  qed
qed (simp add: sk_sort_def)

lemma find_first:
  assumes "consistent (cmps (sk_comp s))" and "stack_ok cmps s" and "sk_comp s \<noteq> 0" and "p \<noteq> 0"
  shows "\<exists>data. sk_find qsort bsearch cmps (Some s) p =
      (if \<exists>q \<in> set data. cmps (sk_comp s) p q = 0 then Some (length (takeWhile (\<lambda>q. cmps (sk_comp s) p q \<noteq> 0) data))
       else None, Some (s\<lparr>sk_data := data, sk_sorted := True\<rparr>)) \<and>
    mset data = mset (sk_data s) \<and> in_order (cmps (sk_comp s)) data"
proof -
  from sort_in_order [OF assms(1-3)] obtain data where
    data: "sk_sort qsort cmps (Some s) = Some (s\<lparr>sk_data := data, sk_sorted := True\<rparr>)"
      "mset data = mset (sk_data s)" "in_order (cmps (sk_comp s)) data" by blast
  have find: "sk_find qsort bsearch cmps (Some s) p =
      (map_option (first_match (cmps (sk_comp s)) p data) (bsearch (cmps (sk_comp s)) p data),
       Some (s\<lparr>sk_data := data, sk_sorted := True\<rparr>))"
    using assms(3,4) data(1) by (simp add: sk_find_def split: option.split)
  show ?thesis
  proof (cases "bsearch (cmps (sk_comp s)) p data")
    case None
    then have "\<not> (\<exists>q \<in> set data. cmps (sk_comp s) p q = 0)"
      using bsearch_None [OF assms(1) data(3)] by blast
    with None find data show ?thesis by auto
  next
    case (Some i)
    then have i: "i < length data" "cmps (sk_comp s) p (data ! i) = 0"
      using bsearch_Some by blast+
    then have "\<exists>q \<in> set data. cmps (sk_comp s) p q = 0"
      by (meson nth_mem)
    with Some find data first_match_eq [OF assms(1) data(3) i] show ?thesis by auto
  qed
qed

end

section \<open>A sort and a search that meet the contract\<close>

fun insert_sorted :: "(ptr \<Rightarrow> ptr \<Rightarrow> int) \<Rightarrow> ptr \<Rightarrow> ptr list \<Rightarrow> ptr list" where
  "insert_sorted cmp x [] = [x]"
| "insert_sorted cmp x (y # ys) = (if cmp x y \<le> 0 then x # y # ys else y # insert_sorted cmp x ys)"

definition insertion_sort :: sort_fun where
  "insertion_sort cmp xs = foldr (insert_sorted cmp) xs []"

function binary_search :: search_fun where
  "binary_search cmp p xs =
     (if xs = [] then None
      else
        let m = length xs div 2 in
        if cmp p (xs ! m) = 0 then Some m
        else if cmp p (xs ! m) < 0 then binary_search cmp p (take m xs)
        else map_option (\<lambda>i. i + m + 1) (binary_search cmp p (drop (m + 1) xs)))"
  by pat_completeness auto
termination
  by (relation "measure (\<lambda>(cmp, p, xs). length xs)") auto

declare binary_search.simps [simp del]

lemma mset_insert_sorted: "mset (insert_sorted cmp x ys) = add_mset x (mset ys)"
  by (induction ys) auto

lemma set_insert_sorted: "set (insert_sorted cmp x ys) = insert x (set ys)"
  by (induction ys) auto

lemma in_order_insert_sorted:
  assumes "consistent cmp"
  shows "in_order cmp ys \<Longrightarrow> in_order cmp (insert_sorted cmp x ys)"
proof (induction ys)
  case (Cons y ys)
  then show ?case
    using ordering_trans [OF assms] ordering_flip [OF assms, of y x]
    by (auto simp: in_order_def set_insert_sorted)
qed (simp add: in_order_def)

lemma binary_search_Some: "binary_search cmp p xs = Some i \<Longrightarrow> i < length xs \<and> cmp p (xs ! i) = 0"
proof (induction cmp p xs arbitrary: i rule: binary_search.induct)
  case (1 cmp p xs)
  let ?m = "length xs div 2"
  have xs: "xs \<noteq> []"
    using "1.prems" by (subst (asm) binary_search.simps) auto
  then have m: "?m < length xs" by simp
  consider "cmp p (xs ! ?m) = 0" | "cmp p (xs ! ?m) < 0" | "cmp p (xs ! ?m) > 0" by linarith
  then show ?case
  proof cases
    case 1
    with "1.prems" xs m show ?thesis by (subst (asm) binary_search.simps) auto
  next
    case 2
    then have "binary_search cmp p (take ?m xs) = Some i"
      using "1.prems" xs by (subst (asm) binary_search.simps) simp
    with "1.IH"(1) [OF xs refl] 2 have "i < ?m" "cmp p (take ?m xs ! i) = 0"
      by auto
    then show ?thesis using m by (simp only: nth_take) simp
  next
    case 3
    then obtain j where j: "binary_search cmp p (drop (?m + 1) xs) = Some j" "i = j + ?m + 1"
      using "1.prems" xs unfolding binary_search.simps [of cmp p xs] by (auto simp: Let_def)
    from "1.IH"(2) [OF xs refl _ _ j(1)] 3 m j(2) show ?thesis by (auto simp: add.commute)
  qed
qed

lemma binary_search_None:
  assumes "consistent cmp"
  shows "in_order cmp xs \<Longrightarrow> binary_search cmp p xs = None \<Longrightarrow> x \<in> set xs \<Longrightarrow> cmp p x \<noteq> 0"
proof (induction "length xs" arbitrary: xs rule: less_induct)
  case less
  let ?m = "length xs div 2"
  have xs: "xs \<noteq> []" using less.prems(3) by auto
  then have m: "?m < length xs" by simp
  then have split: "xs = take ?m xs @ [xs ! ?m] @ drop (?m + 1) xs"
    by (simp add: id_take_nth_drop [symmetric])
  define as y bs where parts: "as = take ?m xs" "y = xs ! ?m" "bs = drop (?m + 1) xs"
  have "in_order cmp (as @ [y] @ bs)"
    using less.prems(1) split unfolding parts by simp
  then have order: "in_order cmp as" "in_order cmp bs" "\<And>z. z \<in> set as \<Longrightarrow> cmp z y \<le> 0" "\<And>z. z \<in> set bs \<Longrightarrow> cmp y z \<le> 0"
    by (auto simp: in_order_def sorted_wrt_append)
  have "x \<in> set (as @ [y] @ bs)"
    using less.prems(3) split unfolding parts by metis
  then have x: "x \<in> set as \<or> x = y \<or> x \<in> set bs" by auto
  have zero: "cmp x p = 0" if "cmp p x = 0"
    using that ordering_flip [OF assms, of p x] ordering_flip [OF assms, of x p] by simp
  have run: "binary_search cmp p xs = (if cmp p y = 0 then Some ?m else if cmp p y < 0 then binary_search cmp p as
      else map_option (\<lambda>i. i + ?m + 1) (binary_search cmp p bs))"
    using xs by (subst binary_search.simps) (simp add: parts Let_def)
  consider "cmp p y < 0" | "cmp p y > 0"
    using less.prems(2) run by fastforce
  then show ?case
  proof cases
    case 1
    have "x \<in> set as \<Longrightarrow> cmp p x \<noteq> 0"
      using less.hyps [of as] less.prems(2) order(1) m run 1 by (simp add: parts)
    moreover have "cmp p x \<noteq> 0" if "cmp y x \<le> 0"
      using ordering_trans [OF assms that, of p] zero 1 ordering_flip [OF assms, of y p] by auto
    ultimately show ?thesis
      using x order(4) 1 by auto
  next
    case 2
    have "x \<in> set bs \<Longrightarrow> cmp p x \<noteq> 0"
      using less.hyps [of bs] less.prems(2) order(2) m run 2 by (simp add: parts)
    moreover have "cmp p x \<noteq> 0" if "cmp x y \<le> 0"
      using ordering_trans [OF assms _ that, of p] 2 by auto
    ultimately show ?thesis
      using x order(3) 2 by auto
  qed
qed

interpretation c_lib: c_sorting insertion_sort binary_search
proof
  fix cmp xs p i x
  show "mset (insertion_sort cmp xs) = mset xs"
    by (induction xs) (simp_all add: insertion_sort_def mset_insert_sorted)
  show "in_order cmp (insertion_sort cmp xs)" if "consistent cmp"
    using in_order_insert_sorted [OF that]
    by (induction xs) (simp_all add: insertion_sort_def in_order_def [of _ "[]"])
  show "i < length xs \<and> cmp p (xs ! i) = 0" if "binary_search cmp p xs = Some i"
    using that by (rule binary_search_Some)
  show "cmp p x \<noteq> 0" if "consistent cmp" "in_order cmp xs" "binary_search cmp p xs = None" "x \<in> set xs"
    using that by (rule binary_search_None)
qed

section \<open>What the stack guarantees\<close>

lemma ok_zero: "sk_ok cmps sk \<Longrightarrow> sk_ok cmps (sk_zero sk)"
  by (auto simp: sk_zero_def stack_ok_def split: option.split)

lemma ok_delete_ptr: "sk_ok cmps sk \<Longrightarrow> sk_ok cmps (snd (sk_delete_ptr sk p))"
  using ok_delete [of cmps sk] by (auto simp: sk_delete_ptr_def split: option.split)

lemma ok_shift_pop: "sk_ok cmps sk \<Longrightarrow> sk_ok cmps (snd (sk_shift sk)) \<and> sk_ok cmps (snd (sk_pop sk))"
  using ok_delete [of cmps sk] by (auto simp: sk_shift_def sk_pop_def split: option.split)

lemma ok_find:
  assumes "c_sorting qsort bsearch" and "sk_ok cmps sk"
    and "\<forall>s. sk = Some s \<longrightarrow> sk_comp s \<noteq> 0 \<longrightarrow> consistent (cmps (sk_comp s))"
  shows "sk_ok cmps (snd (sk_find qsort bsearch cmps sk p))"
  using c_sorting.ok_sort [OF assms] assms(2)
  by (auto simp: sk_find_def split: option.split)

text \<open>The room alone, which \<open>sk_set\<close> and \<open>sk_deep_copy\<close> keep too.\<close>

definition has_room :: "stack option \<Rightarrow> bool" where
  "has_room sk = (case sk of None \<Rightarrow> True | Some s \<Rightarrow> length (sk_data s) < unat (num_alloc s))"

lemma has_room_simps [simp]:
  "has_room None" "has_room (Some s) \<longleftrightarrow> length (sk_data s) < unat (num_alloc s)"
  by (simp_all add: has_room_def)

text \<open>\<open>NULL\<close> is not copied but kept.\<close>

definition copy_of :: "(ptr \<Rightarrow> ptr) \<Rightarrow> ptr \<Rightarrow> ptr" where
  "copy_of copy_func p = (if p = 0 then 0 else copy_func p)"

definition copies_compare_like :: "(ptr \<Rightarrow> ptr \<Rightarrow> int) \<Rightarrow> (ptr \<Rightarrow> ptr) \<Rightarrow> bool" where
  "copies_compare_like cmp copy_func \<longleftrightarrow>
     (\<forall>x y. cmp x y \<le> 0 \<longrightarrow> cmp (copy_of copy_func x) (copy_of copy_func y) \<le> 0)"

lemma copy_loop_eq: "copy_loop copy_func don xs = Inr ys \<Longrightarrow> ys = don @ map (copy_of copy_func) xs"
  by (induction copy_func don xs rule: copy_loop.induct) (auto simp: copy_of_def split: if_splits)

lemma in_order_copies:
  "copies_compare_like cmp copy_func \<Longrightarrow> in_order cmp xs \<Longrightarrow> in_order cmp (map (copy_of copy_func) xs)"
  unfolding in_order_def sorted_wrt_map copies_compare_like_def by (erule sorted_wrt_mono_rel [rotated]) blast

lemma sk_dup_cases: "sk_dup ok1 ok2 ok3 sk = None \<or> sk_dup ok1 ok2 ok3 sk = sk"
  by (auto simp: sk_dup_def sk_new_def split: option.split)

lemma deep_copy_cases:
  obtains "fst (sk_deep_copy ok1 ok2 ok3 copy_func sk) = None"
  | s where "sk = Some s"
    "fst (sk_deep_copy ok1 ok2 ok3 copy_func sk) = Some (s\<lparr>sk_data := map (copy_of copy_func) (sk_data s)\<rparr>)"
proof (cases "sk_dup ok1 ok2 ok3 sk")
  case None
  then show thesis
    using that(1) by (simp add: sk_deep_copy_def)
next
  case (Some s)
  then have sk: "sk = Some s"
    using sk_dup_cases [of ok1 ok2 ok3 sk] by simp
  show thesis
  proof (cases "copy_loop copy_func [] (sk_data s)")
    case (Inl freed)
    with Some show thesis
      using that(1) by (simp add: sk_deep_copy_def)
  next
    case (Inr data)
    with Some show thesis
      using that(2) [OF sk] copy_loop_eq [OF Inr] by (simp add: sk_deep_copy_def)
  qed
qed

lemma room_deep_copy: "has_room sk \<Longrightarrow> has_room (fst (sk_deep_copy ok1 ok2 ok3 copy_func sk))"
  by (rule deep_copy_cases [of ok1 ok2 ok3 copy_func sk]) simp_all

lemma ok_deep_copy:
  assumes "sk_ok cmps sk" and "\<not> sk_is_sorted sk \<or> (\<forall>cf. copies_compare_like (cmps cf) copy_func)"
  shows "sk_ok cmps (fst (sk_deep_copy ok1 ok2 ok3 copy_func sk))"
  using assms in_order_copies
  by (cases rule: deep_copy_cases [of ok1 ok2 ok3 copy_func sk]) (auto simp: stack_ok_def sk_is_sorted_def)

text \<open>
  C33: the invariant of a stack has two parts. The array always has room for one more pointer than it
  holds, so no write goes past its end: every operation keeps that. A stack that is marked as sorted is
  sorted by its comparison function: every operation but two keeps that too. \<open>sk_set\<close> keeps it
  when the stack is not marked (it does not clear the mark), and \<open>sk_deep_copy\<close> when the stack is not
  marked or the copies, which a function of the caller makes, compare like the originals.
\<close>

theorem stack_invariant:
  assumes "sk_ok cmps sk" and "c_sorting qsort bsearch" and "\<forall>cf. consistent (cmps cf)"
  shows "sk_ok cmps (sk_new cf ok1 ok2) \<and> sk_ok cmps (snd (sk_insert realloc_ok sk p i)) \<and>
    sk_ok cmps (snd (sk_push realloc_ok sk p)) \<and> sk_ok cmps (snd (sk_delete sk i)) \<and>
    sk_ok cmps (snd (sk_delete_ptr sk p)) \<and> sk_ok cmps (snd (sk_shift sk)) \<and> sk_ok cmps (snd (sk_pop sk)) \<and>
    sk_ok cmps (sk_zero sk) \<and> sk_ok cmps (sk_sort qsort cmps sk) \<and>
    sk_ok cmps (snd (sk_find qsort bsearch cmps sk p)) \<and> sk_ok cmps (sk_dup ok1 ok2 ok3 sk) \<and>
    (sk = None \<or> sk_ok cmps (Some (snd (sk_set_cmp_func (the sk) cf)))) \<and>
    has_room (snd (sk_set sk i p)) \<and> (sk_is_sorted sk \<or> sk_ok cmps (snd (sk_set sk i p))) \<and>
    has_room (fst (sk_deep_copy ok1 ok2 ok3 copy_func sk)) \<and>
    (sk_is_sorted sk \<and> \<not> (\<forall>cf. copies_compare_like (cmps cf) copy_func) \<or>
      sk_ok cmps (fst (sk_deep_copy ok1 ok2 ok3 copy_func sk)))"
proof -
  have room: "has_room sk"
    using assms(1) by (cases sk) (simp_all add: stack_ok_def)
  have new: "sk_ok cmps (sk_new cf ok1 ok2)"
    by (simp add: sk_new_def stack_ok_def kMinSize_def)
  have dup: "sk_ok cmps (sk_dup ok1 ok2 ok3 sk)"
    using assms(1) sk_dup_cases [of ok1 ok2 ok3 sk] by auto
  have set: "sk_is_sorted sk \<or> sk_ok cmps (snd (sk_set sk i p))" "has_room (snd (sk_set sk i p))"
    using assms(1) by (auto simp: sk_set_def sk_is_sorted_def stack_ok_def split: option.split)
  have cmp: "sk = None \<or> sk_ok cmps (Some (snd (sk_set_cmp_func (the sk) cf)))"
    using assms(1) by (cases sk) (auto simp: sk_set_cmp_func_def stack_ok_def)
  show ?thesis
    using new dup set cmp ok_insert [OF assms(1)] ok_delete [OF assms(1)] ok_delete_ptr [OF assms(1)]
      ok_shift_pop [OF assms(1)] ok_zero [OF assms(1)] ok_find [OF assms(2,1)] assms(3)
      c_sorting.ok_sort [OF assms(2,1)] room_deep_copy [OF room] ok_deep_copy [OF assms(1)]
    by (simp add: sk_push_def) blast
qed

definition by_address :: cmp_funs where
  "by_address cf x y = int x - int y"

lemma consistent_by_address: "consistent (by_address cf)"
  by (auto simp: consistent_def by_address_def)

definition demo_stack :: stack where
  "demo_stack = \<lparr>sk_data = [1, 2], sk_sorted = True, num_alloc = 4, sk_comp = 1\<rparr>"

lemma demo_stack_ok: "stack_ok by_address demo_stack"
  by (simp add: stack_ok_def demo_stack_def in_order_def by_address_def)

lemma stack_invariant_witness:
  "sk_ok by_address (sk_new 1 True True) \<and> sk_ok by_address (snd (sk_insert (\<lambda>_. True) (Some demo_stack) 3 0)) \<and>
    sk_ok by_address (snd (sk_push (\<lambda>_. True) (Some demo_stack) 3)) \<and>
    sk_ok by_address (snd (sk_delete (Some demo_stack) 0)) \<and>
    sk_ok by_address (snd (sk_delete_ptr (Some demo_stack) 3)) \<and> sk_ok by_address (snd (sk_shift (Some demo_stack))) \<and>
    sk_ok by_address (snd (sk_pop (Some demo_stack))) \<and>
    sk_ok by_address (sk_zero (Some demo_stack)) \<and> sk_ok by_address (sk_sort insertion_sort by_address (Some demo_stack)) \<and>
    sk_ok by_address (snd (sk_find insertion_sort binary_search by_address (Some demo_stack) 3)) \<and>
    sk_ok by_address (sk_dup True True True (Some demo_stack)) \<and>
    sk_ok by_address (Some (snd (sk_set_cmp_func demo_stack 1))) \<and>
    has_room (snd (sk_set (Some demo_stack) 0 3)) \<and>
    sk_ok by_address (fst (sk_deep_copy True True True (\<lambda>p. p + 10) (Some demo_stack)))"
proof -
  have "copies_compare_like (by_address cf) (\<lambda>p. p + 10)" for cf
    by (simp add: copies_compare_like_def by_address_def copy_of_def)
  then show ?thesis
    using stack_invariant [of by_address "Some demo_stack" insertion_sort binary_search 1 True True "\<lambda>_. True" 3 0 True "\<lambda>p. p + 10"]
    by (simp add: demo_stack_ok consistent_by_address c_lib.c_sorting_axioms)
qed

text \<open>
  C34: a stack is a list. Inserting puts a pointer at a place, the end when the place is past it;
  deleting takes one out and returns it; failure of an insertion returns 0, changes nothing, and
  does not happen below 2^60 pointers as long as memory can be had. Popping takes out and returns the
  last pointer and shifting the first one; both return \<open>NULL\<close> and change nothing when the stack is
  empty. Deleting by pointer takes out its first occurrence, when there is one.
\<close>

theorem stack_is_a_list:
  assumes "stack_ok cmps s"
  shows "(sk_insert realloc_ok (Some s) p i = (0, Some s) \<or>
      (\<exists>alloc. sk_insert realloc_ok (Some s) p i = (length (sk_data s) + 1, Some (s\<lparr>num_alloc := alloc,
         sk_data := take i (sk_data s) @ [p] @ drop i (sk_data s), sk_sorted := False\<rparr>)))) \<and>
    (2 ^ 60 \<le> unat (num_alloc s) \<or> fst (sk_insert (\<lambda>_. True) (Some s) p i) = length (sk_data s) + 1) \<and>
    sk_delete (Some s) i = (sk_value (Some s) i,
      Some (s\<lparr>sk_data := take i (sk_data s) @ drop (i + 1) (sk_data s)\<rparr>)) \<and>
    sk_pop (Some s) = (if sk_data s = [] then 0 else last (sk_data s), Some (s\<lparr>sk_data := butlast (sk_data s)\<rparr>)) \<and>
    sk_shift (Some s) = (if sk_data s = [] then 0 else hd (sk_data s), Some (s\<lparr>sk_data := tl (sk_data s)\<rparr>)) \<and>
    sk_delete_ptr (Some s) p = (if p \<in> set (sk_data s) then p else 0, Some (s\<lparr>sk_data := remove1 p (sk_data s)\<rparr>))"
proof (intro conjI)
  show "sk_insert realloc_ok (Some s) p i = (0, Some s) \<or>
      (\<exists>alloc. sk_insert realloc_ok (Some s) p i = (length (sk_data s) + 1, Some (s\<lparr>num_alloc := alloc,
         sk_data := take i (sk_data s) @ [p] @ drop i (sk_data s), sk_sorted := False\<rparr>)))"
    using sk_insert_eq [OF assms, of realloc_ok p i] by blast
  show "2 ^ 60 \<le> unat (num_alloc s) \<or> fst (sk_insert (\<lambda>_. True) (Some s) p i) = length (sk_data s) + 1"
    using sk_insert_eq [OF assms, of "\<lambda>_. True" p i] grow_succeeds [of "length (sk_data s)" "num_alloc s" "\<lambda>_. True"] assms
    by (fastforce simp: stack_ok_def not_less)
  show "sk_delete (Some s) i = (sk_value (Some s) i, Some (s\<lparr>sk_data := take i (sk_data s) @ drop (i + 1) (sk_data s)\<rparr>))"
    by (simp add: sk_delete_eq sk_value_def)
  show "sk_pop (Some s) = (if sk_data s = [] then 0 else last (sk_data s), Some (s\<lparr>sk_data := butlast (sk_data s)\<rparr>))"
    by (simp add: sk_pop_def sk_delete_eq last_conv_nth butlast_conv_take)
  show "sk_shift (Some s) = (if sk_data s = [] then 0 else hd (sk_data s), Some (s\<lparr>sk_data := tl (sk_data s)\<rparr>))"
    by (simp add: sk_shift_def sk_delete_eq hd_conv_nth drop_Suc)
  show "sk_delete_ptr (Some s) p = (if p \<in> set (sk_data s) then p else 0, Some (s\<lparr>sk_data := remove1 p (sk_data s)\<rparr>))"
    by (simp add: sk_delete_ptr_def ptr_index_eq sk_delete_eq takeWhile_first remove1_idem)
qed

lemma stack_is_a_list_witness:
  "(sk_insert (\<lambda>_. True) (Some demo_stack) 7 1 = (0, Some demo_stack) \<or>
      (\<exists>alloc. sk_insert (\<lambda>_. True) (Some demo_stack) 7 1 = (length (sk_data demo_stack) + 1,
         Some (demo_stack\<lparr>num_alloc := alloc,
           sk_data := take 1 (sk_data demo_stack) @ [7] @ drop 1 (sk_data demo_stack), sk_sorted := False\<rparr>)))) \<and>
    (2 ^ 60 \<le> unat (num_alloc demo_stack) \<or> fst (sk_insert (\<lambda>_. True) (Some demo_stack) 7 1) = length (sk_data demo_stack) + 1) \<and>
    sk_delete (Some demo_stack) 1 = (2, Some (demo_stack\<lparr>sk_data := [1]\<rparr>)) \<and>
    sk_pop (Some demo_stack) = (2, Some (demo_stack\<lparr>sk_data := [1]\<rparr>)) \<and>
    sk_shift (Some demo_stack) = (1, Some (demo_stack\<lparr>sk_data := [2]\<rparr>)) \<and>
    sk_delete_ptr (Some demo_stack) 7 = (0, Some demo_stack)"
proof -
  have "sk_data demo_stack = [1, 2]" and "demo_stack\<lparr>sk_data := [1, 2]\<rparr> = demo_stack"
    by (simp_all add: demo_stack_def)
  then show ?thesis
    using stack_is_a_list [OF demo_stack_ok, of "\<lambda>_. True" 7 1] by (simp add: sk_value_def)
qed

text \<open>
  \<open>sk_find\<close> on a stack with a comparison function sorts it and finds the first of the pointers
  that compare equal, and finds nothing exactly when there is none, whatever \<open>qsort\<close> and \<open>bsearch\<close> the
  C library has.
\<close>

theorem sk_find_first:
  assumes "c_sorting qsort bsearch" and "consistent (cmps (sk_comp s))" and "stack_ok cmps s"
    and "sk_comp s \<noteq> 0" and "p \<noteq> 0"
  shows "\<exists>data. sk_find qsort bsearch cmps (Some s) p =
      (if \<exists>q \<in> set data. cmps (sk_comp s) p q = 0 then Some (length (takeWhile (\<lambda>q. cmps (sk_comp s) p q \<noteq> 0) data))
       else None, Some (s\<lparr>sk_data := data, sk_sorted := True\<rparr>)) \<and>
    mset data = mset (sk_data s) \<and> in_order (cmps (sk_comp s)) data"
  by (rule c_sorting.find_first [OF assms])

lemma sk_find_first_witness:
  "\<exists>data. sk_find insertion_sort binary_search by_address (Some demo_stack) 2 =
      (if \<exists>q \<in> set data. by_address (sk_comp demo_stack) 2 q = 0
       then Some (length (takeWhile (\<lambda>q. by_address (sk_comp demo_stack) 2 q \<noteq> 0) data))
       else None, Some (demo_stack\<lparr>sk_data := data, sk_sorted := True\<rparr>)) \<and>
    mset data = mset (sk_data demo_stack) \<and> in_order (by_address (sk_comp demo_stack)) data"
  by (rule sk_find_first [OF c_lib.c_sorting_axioms consistent_by_address demo_stack_ok])
    (simp_all add: demo_stack_def)

text \<open>
  \<open>sk_set\<close> on a sorted stack leaves it marked as sorted although it is not any more, and then
  \<open>sk_find\<close> does not find a pointer that is in the stack.
\<close>

theorem sk_set_breaks_find:
  "let sk = snd (sk_set (Some demo_stack) 0 5) in
   sk_is_sorted sk \<and> \<not> in_order (by_address 1) (sk_data (the sk)) \<and> 5 \<in> set (sk_data (the sk)) \<and>
   sk_find insertion_sort binary_search by_address sk 5 = (None, sk)"
  by (simp add: sk_set_def demo_stack_def sk_is_sorted_def in_order_def by_address_def sk_find_def sk_sort_def
      binary_search.simps [of _ _ "[5, 2]"] binary_search.simps [of _ _ "[]"])

end
