(* ===== verification/Lhash.thy ===== *)
theory Lhash
  imports Bytes
begin

text \<open>
  BoringSSL's hash table (\<open>crypto/lhash/lhash.c\<close>) with its string hash (\<open>OPENSSL_hash32\<close> of
  \<open>crypto/mem.c\<close>). The chain of a bucket is a list of items; the pointer to a pointer that
  \<open>get_next_ptr_and_hash\<close> returns is the index of the bucket and the place in its chain, the length of
  the chain for the \<open>NULL\<close> at its end. Data pointers are numbers, 0 is \<open>NULL\<close>. The hash and the comparison
  function of a table do not change after its creation: they are arguments of the operations.

  Every operation is a program over the table. The outcomes of allocations are arguments; a failed
  assertion is a \<open>Stuck\<close> run.
\<close>

unbundle bit_operations_syntax

type_synonym ptr = nat

record lhash_item =
  item_data :: ptr
  item_hash :: u32

record lhash =
  num_items :: u64
  buckets :: "lhash_item list list"
  callback_depth :: u32

type_synonym hash_func = "ptr \<Rightarrow> u32"
type_synonym cmp_func = "ptr \<Rightarrow> ptr \<Rightarrow> int"

definition kMinNumBuckets :: u64 where
  "kMinNumBuckets = 16"

definition kMaxAverageChainLength :: u64 where
  "kMaxAverageChainLength = 2"

definition kMinAverageChainLength :: u64 where
  "kMinAverageChainLength = 1"

definition num_buckets :: "lhash \<Rightarrow> u64" where
  "num_buckets lh = of_nat (length (buckets lh))"

definition lh_new :: "bool \<Rightarrow> bool \<Rightarrow> lhash option" where
  "lh_new malloc_ok malloc_buckets_ok =
     (if \<not> malloc_ok then None
      else if \<not> malloc_buckets_ok then None
      else Some \<lparr>num_items = 0, buckets = replicate (unat kMinNumBuckets) [], callback_depth = 0\<rparr>)"

definition lh_num_items :: "lhash \<Rightarrow> u64" where
  "lh_num_items lh = num_items lh"

section \<open>Looking up\<close>

fun chain_place :: "cmp_func \<Rightarrow> ptr \<Rightarrow> lhash_item list \<Rightarrow> nat" where
  "chain_place cmp data [] = 0"
| "chain_place cmp data (cur # chain) =
     (if cmp (item_data cur) data = 0 then 0 else Suc (chain_place cmp data chain))"

definition get_next_ptr_and_hash :: "hash_func \<Rightarrow> cmp_func \<Rightarrow> lhash \<Rightarrow> ptr \<Rightarrow> (nat \<times> nat) \<times> u32" where
  "get_next_ptr_and_hash hash cmp lh data =
     (let h = hash data;
          b = unat (ucast h mod num_buckets lh) in
      ((b, chain_place cmp data (buckets lh ! b)), h))"

definition lh_retrieve :: "hash_func \<Rightarrow> cmp_func \<Rightarrow> lhash \<Rightarrow> ptr \<Rightarrow> ptr" where
  "lh_retrieve hash cmp lh data =
     (let ((b, k), _) = get_next_ptr_and_hash hash cmp lh data in
      if k = length (buckets lh ! b) then 0 else item_data (buckets lh ! b ! k))"

section \<open>Resizing\<close>

text \<open>The items of the old rest, in order, go to the front of their new rest.\<close>

fun rebucket_chain :: "u64 \<Rightarrow> lhash_item list \<Rightarrow> lhash_item list list \<Rightarrow> lhash_item list list" where
  "rebucket_chain n [] new_buckets = new_buckets"
| "rebucket_chain n (cur # chain) new_buckets =
     (let b = unat (ucast (item_hash cur) mod n) in
      rebucket_chain n chain (new_buckets[b := cur # new_buckets ! b]))"

fun rebucket_all :: "u64 \<Rightarrow> lhash_item list list \<Rightarrow> lhash_item list list \<Rightarrow> lhash_item list list" where
  "rebucket_all n [] new_buckets = new_buckets"
| "rebucket_all n (chain # rest) new_buckets = rebucket_all n rest (rebucket_chain n chain new_buckets)"

definition lh_rebucket :: "(u64 \<Rightarrow> bool) \<Rightarrow> u64 \<Rightarrow> lhash \<Rightarrow> lhash" where
  "lh_rebucket malloc_ok new_num_buckets lh =
     (let alloc_size = 8 * new_num_buckets in
      if alloc_size div 8 \<noteq> new_num_buckets then lh
      else if \<not> malloc_ok alloc_size then lh
      else lh\<lparr>buckets := rebucket_all new_num_buckets (buckets lh) (replicate (unat new_num_buckets) [])\<rparr>)"

definition lh_maybe_resize :: "(u64 \<Rightarrow> bool) \<Rightarrow> (lhash, unit) prog" where
  "lh_maybe_resize malloc_ok = (\<lambda>lh.
     if callback_depth lh > 0 then (Ret (), lh)
     else if \<not> num_buckets lh \<ge> kMinNumBuckets then (Stuck, lh)
     else
       let avg_chain_length = num_items lh div num_buckets lh in
       if avg_chain_length > kMaxAverageChainLength then
         (let new_num_buckets = num_buckets lh * 2 in
          if new_num_buckets > num_buckets lh then (Ret (), lh_rebucket malloc_ok new_num_buckets lh)
          else (Ret (), lh))
       else if avg_chain_length < kMinAverageChainLength \<and> num_buckets lh > kMinNumBuckets then
         (let new_num_buckets = num_buckets lh div 2;
              new_num_buckets = (if new_num_buckets < kMinNumBuckets then kMinNumBuckets else new_num_buckets) in
          (Ret (), lh_rebucket malloc_ok new_num_buckets lh))
       else (Ret (), lh))"

section \<open>Insertion and deletion\<close>

text \<open>The result of an insertion is \<open>*old_data\<close>; it fails, with \<open>*old_data\<close> \<open>NULL\<close>, without memory for the item.\<close>

definition lh_insert :: "(u64 \<Rightarrow> bool) \<Rightarrow> bool \<Rightarrow> hash_func \<Rightarrow> cmp_func \<Rightarrow> ptr \<Rightarrow> (lhash, ptr) prog" where
  "lh_insert malloc_ok item_ok hash cmp data = (\<lambda>lh.
     let ((b, k), h) = get_next_ptr_and_hash hash cmp lh data;
         chain = buckets lh ! b in
     if k \<noteq> length chain then
       (Ret (item_data (chain ! k)),
        lh\<lparr>buckets := (buckets lh)[b := chain[k := (chain ! k)\<lparr>item_data := data\<rparr>]]\<rparr>)
     else if \<not> item_ok then (Fail, lh)
     else
       let item = \<lparr>item_data = data, item_hash = h\<rparr> in
       seq (lh_maybe_resize malloc_ok) (ret 0)
         (lh\<lparr>buckets := (buckets lh)[b := chain @ [item]], num_items := num_items lh + 1\<rparr>))"

text \<open>The result is the data of the deleted item, \<open>NULL\<close> when there is none.\<close>

definition lh_delete :: "(u64 \<Rightarrow> bool) \<Rightarrow> hash_func \<Rightarrow> cmp_func \<Rightarrow> ptr \<Rightarrow> (lhash, ptr) prog" where
  "lh_delete malloc_ok hash cmp data = (\<lambda>lh.
     let ((b, k), _) = get_next_ptr_and_hash hash cmp lh data;
         chain = buckets lh ! b in
     if k = length chain then (Ret 0, lh)
     else
       seq (lh_maybe_resize malloc_ok) (ret (item_data (chain ! k)))
         (lh\<lparr>buckets := (buckets lh)[b := take k chain @ drop (k + 1) chain], num_items := num_items lh - 1\<rparr>))"

section \<open>Iteration\<close>

text \<open>
  \<open>func\<close> is what a callback does to the world \<open>'s\<close> outside of the table, with its argument for
  \<open>lh_doall_arg\<close>. A callback that changes the table itself is not followed.
\<close>

definition enter_callback :: "lhash \<Rightarrow> lhash" where
  "enter_callback lh =
     (if callback_depth lh < 0xFFFFFFFF then lh\<lparr>callback_depth := callback_depth lh + 1\<rparr> else lh)"

definition leave_callback :: "lhash \<Rightarrow> lhash" where
  "leave_callback lh =
     (if callback_depth lh < 0xFFFFFFFF then lh\<lparr>callback_depth := callback_depth lh - 1\<rparr> else lh)"

fun doall_chain :: "(ptr \<Rightarrow> 's \<Rightarrow> 's) \<Rightarrow> lhash_item list \<Rightarrow> 's \<Rightarrow> 's" where
  "doall_chain func [] s = s"
| "doall_chain func (cur # chain) s = doall_chain func chain (func (item_data cur) s)"

fun doall_chains :: "(ptr \<Rightarrow> 's \<Rightarrow> 's) \<Rightarrow> lhash_item list list \<Rightarrow> 's \<Rightarrow> 's" where
  "doall_chains func [] s = s"
| "doall_chains func (chain # rest) s = doall_chains func rest (doall_chain func chain s)"

definition lh_doall_internal ::
  "(u64 \<Rightarrow> bool) \<Rightarrow> (ptr \<Rightarrow> 's \<Rightarrow> 's) \<Rightarrow> (lhash option \<times> 's, unit) prog" where
  "lh_doall_internal malloc_ok func = (\<lambda>(lh, s). case lh of
      None \<Rightarrow> (Ret (), (None, s))
    | Some lh \<Rightarrow>
        let lh = enter_callback lh;
            s = doall_chains func (buckets lh) s;
            (r, lh) = lh_maybe_resize malloc_ok (leave_callback lh) in
        (r, (Some lh, s)))"

definition lh_doall :: "(u64 \<Rightarrow> bool) \<Rightarrow> (ptr \<Rightarrow> 's \<Rightarrow> 's) \<Rightarrow> (lhash option \<times> 's, unit) prog" where
  "lh_doall malloc_ok func = lh_doall_internal malloc_ok func"

definition lh_doall_arg ::
  "(u64 \<Rightarrow> bool) \<Rightarrow> (ptr \<Rightarrow> 'arg \<Rightarrow> 's \<Rightarrow> 's) \<Rightarrow> 'arg \<Rightarrow> (lhash option \<times> 's, unit) prog" where
  "lh_doall_arg malloc_ok func arg = lh_doall_internal malloc_ok (\<lambda>p. func p arg)"

section \<open>String hashes\<close>

fun fnv_loop :: "byte list \<Rightarrow> u32 \<Rightarrow> u32" where
  "fnv_loop [] h = h"
| "fnv_loop (b # inp) h = fnv_loop inp ((h XOR ucast b) * 16777619)"

definition OPENSSL_hash32 :: "byte list \<Rightarrow> u32" where
  "OPENSSL_hash32 inp = fnv_loop inp 2166136261"

text \<open>A string is the bytes before its NUL, \<open>None\<close> is a null pointer.\<close>

definition lh_strhash :: "byte list option \<Rightarrow> u32" where
  "lh_strhash c = (case c of None \<Rightarrow> 0 | Some s \<Rightarrow> OPENSSL_hash32 s)"

end
