(* ===== verification/Lhash_Spec.thy ===== *)
theory Lhash_Spec
  imports Lhash "HOL-Library.Multiset"
begin

text \<open>
  What the hash table guarantees. The contract of the hash and comparison functions of a table is the
  locale \<open>hash_table\<close>: comparing equal is an equivalence that the hash respects. Under it a table is a
  set of pairwise unequal elements, and insertion, deletion and retrieval are the operations of a map
  up to equality, with any outcome of the allocations for resizing. The contract is met by the hash
  of strings and \<open>strcmp\<close>.
\<close>

section \<open>The contract and the invariant\<close>

locale hash_table =
  fixes hash :: hash_func and cmp :: cmp_func
  assumes cmp_refl: "cmp x x = 0"
    and cmp_sym: "cmp x y = 0 \<Longrightarrow> cmp y x = 0"
    and cmp_trans: "cmp x y = 0 \<Longrightarrow> cmp y z = 0 \<Longrightarrow> cmp x z = 0"
    and hash_cong: "cmp x y = 0 \<Longrightarrow> hash x = hash y"

definition items :: "lhash \<Rightarrow> lhash_item list" where
  "items lh = concat (buckets lh)"

definition contents :: "lhash \<Rightarrow> ptr set" where
  "contents lh = item_data ` set (items lh)"

definition unequal :: "cmp_func \<Rightarrow> lhash_item list \<Rightarrow> bool" where
  "unequal cmp its \<longleftrightarrow> distinct (map item_data its) \<and>
     (\<forall>x \<in> set its. \<forall>y \<in> set its. cmp (item_data x) (item_data y) = 0 \<longrightarrow> item_data x = item_data y)"

definition placed :: "lhash_item list list \<Rightarrow> bool" where
  "placed bs \<longleftrightarrow> (\<forall>b < length bs. \<forall>it \<in> set (bs ! b). unat (item_hash it) mod length bs = b)"

definition lh_ok :: "hash_func \<Rightarrow> cmp_func \<Rightarrow> lhash \<Rightarrow> bool" where
  "lh_ok hash cmp lh \<longleftrightarrow> 16 \<le> length (buckets lh) \<and> length (buckets lh) < 2 ^ 64 \<and> placed (buckets lh) \<and>
     (\<forall>it \<in> set (items lh). item_hash it = hash (item_data it)) \<and> unequal cmp (items lh) \<and>
     num_items lh = of_nat (length (items lh))"

lemma unequal_mset: "mset xs = mset ys \<Longrightarrow> unequal cmp xs = unequal cmp ys"
proof -
  assume eq: "mset xs = mset ys"
  then have "mset (map item_data xs) = mset (map item_data ys)" by simp
  then have "distinct (map item_data xs) = distinct (map item_data ys)"
    by (rule mset_eq_imp_distinct_iff)
  with mset_eq_setD [OF eq] show ?thesis by (simp add: unequal_def)
qed

section \<open>Chains and buckets\<close>

lemma chain_place:
  "chain_place cmp d chain < length chain \<Longrightarrow> cmp (item_data (chain ! chain_place cmp d chain)) d = 0"
  "chain_place cmp d chain \<le> length chain"
  "chain_place cmp d chain = length chain \<longleftrightarrow> (\<forall>it \<in> set chain. cmp (item_data it) d \<noteq> 0)"
  by (induction chain) auto

lemma bucket_index:
  assumes "0 < length bs" and "length bs < 2 ^ 64"
  shows "unat (ucast (h :: u32) mod of_nat (length bs) :: u64) = unat h mod length bs"
  using assms by (simp add: unat_mod unat_of_nat_u64)

lemma concat_split:
  assumes "b < length bs"
  shows "concat bs = concat (take b bs) @ bs ! b @ concat (drop (Suc b) bs)"
    and "concat (bs[b := c]) = concat (take b bs) @ c @ concat (drop (Suc b) bs)"
proof -
  have "concat (take b bs @ bs ! b # drop (Suc b) bs) = concat (take b bs) @ bs ! b @ concat (drop (Suc b) bs)"
    by simp
  then show "concat bs = concat (take b bs) @ bs ! b @ concat (drop (Suc b) bs)"
    using id_take_nth_drop [OF assms] by simp
  show "concat (bs[b := c]) = concat (take b bs) @ c @ concat (drop (Suc b) bs)"
    using upd_conv_take_nth_drop [OF assms, of c] by simp
qed

lemma placed_update:
  "placed bs \<Longrightarrow> b < length bs \<Longrightarrow> \<forall>it \<in> set c. unat (item_hash it) mod length bs = b \<Longrightarrow> placed (bs[b := c])"
  by (auto simp: placed_def nth_list_update)

lemma rebucket_chain:
  assumes "0 < n" and "length bs = unat n" and "placed bs"
  shows "length (rebucket_chain n chain bs) = unat n \<and> placed (rebucket_chain n chain bs) \<and>
    mset (concat (rebucket_chain n chain bs)) = mset chain + mset (concat bs)"
  using assms
proof (induction chain arbitrary: bs)
  case (Cons cur chain)
  let ?b = "unat (ucast (item_hash cur) mod n)"
  have n: "0 < length bs" "length bs < 2 ^ 64" "of_nat (length bs) = n"
    using Cons.prems(1,2) unat_u64_less [of n] by (simp_all add: word_less_nat_alt)
  have b: "?b = unat (item_hash cur) mod length bs"
    using bucket_index [OF n(1,2), of "item_hash cur"] n(3) by simp
  then have lt: "?b < length bs" using n(1) by simp
  let ?bs = "bs[?b := cur # bs ! ?b]"
  have "placed ?bs"
    using Cons.prems(3) lt b by (intro placed_update) (auto simp: placed_def)
  moreover have "mset (concat ?bs) = add_mset cur (mset (concat bs))"
    using concat_split [OF lt] by simp
  ultimately show ?case
    using Cons.IH [of ?bs] Cons.prems(1,2) by (simp add: Let_def)
qed simp

lemma rebucket_all:
  assumes "0 < n" and "length bs = unat n" and "placed bs"
  shows "length (rebucket_all n old bs) = unat n \<and> placed (rebucket_all n old bs) \<and>
    mset (concat (rebucket_all n old bs)) = mset (concat old) + mset (concat bs)"
  using assms
proof (induction old arbitrary: bs)
  case (Cons chain old)
  then show ?case
    using rebucket_chain [OF Cons.prems, of chain] by (simp add: ac_simps)
qed simp

lemma rebucket_ok:
  assumes "lh_ok hash cmp lh" and "16 \<le> unat n"
  shows "lh_ok hash cmp (lh_rebucket malloc_ok n lh) \<and> mset (items (lh_rebucket malloc_ok n lh)) = mset (items lh)"
proof -
  let ?bs = "rebucket_all n (buckets lh) (replicate (unat n) [])"
  have "0 < n" using assms(2) by (simp add: word_less_nat_alt)
  moreover have "placed (replicate (unat n) [])"
    by (simp add: placed_def)
  ultimately have bs: "length ?bs = unat n" "placed ?bs" "mset (concat ?bs) = mset (concat (buckets lh))"
    using rebucket_all [of n "replicate (unat n) []" "buckets lh"] by simp_all
  have "lh_ok hash cmp (lh\<lparr>buckets := ?bs\<rparr>)"
    using assms bs(1,2) unat_u64_less [of n] unequal_mset [OF bs(3), of cmp] mset_eq_setD [OF bs(3)]
      mset_eq_length [OF bs(3)]
    by (simp add: lh_ok_def items_def)
  then show ?thesis
    using assms(1) bs(3) by (simp add: lh_rebucket_def items_def Let_def)
qed

lemma maybe_resize_ok:
  assumes "lh_ok hash cmp lh"
  shows "\<exists>lh'. lh_maybe_resize malloc_ok lh = (Ret (), lh') \<and> lh_ok hash cmp lh' \<and> mset (items lh') = mset (items lh)"
proof -
  let ?n = "num_buckets lh"
  have n: "unat ?n = length (buckets lh)" "16 \<le> length (buckets lh)"
    using assms by (simp_all add: num_buckets_def lh_ok_def unat_of_nat_u64)
  then have min: "kMinNumBuckets \<le> ?n"
    by (simp add: kMinNumBuckets_def word_le_nat_alt)
  have up: "16 \<le> unat (?n * 2)" if "?n * 2 > ?n"
    using that n by (simp add: word_less_nat_alt)
  have down: "16 \<le> unat (if ?n div 2 < kMinNumBuckets then kMinNumBuckets else ?n div 2)"
    by (simp add: kMinNumBuckets_def word_less_nat_alt)
  show ?thesis
    using assms min rebucket_ok [OF assms up, of malloc_ok] rebucket_ok [OF assms down, of malloc_ok]
    by (auto simp: lh_maybe_resize_def Let_def)
qed

section \<open>The operations\<close>

text \<open>Where an element is or would be, as the code finds it.\<close>

lemma get_next_ptr_eq:
  assumes "lh_ok hash cmp lh"
  shows "get_next_ptr_and_hash hash cmp lh d =
    (let b = unat (hash d) mod length (buckets lh) in ((b, chain_place cmp d (buckets lh ! b)), hash d)) \<and>
    unat (hash d) mod length (buckets lh) < length (buckets lh)"
proof -
  have "0 < length (buckets lh)" "length (buckets lh) < 2 ^ 64"
    using assms by (auto simp: lh_ok_def)
  with bucket_index [OF this, of "hash d"] show ?thesis
    by (simp add: get_next_ptr_and_hash_def num_buckets_def Let_def)
qed

context hash_table
begin

lemma not_elsewhere:
  assumes ok: "lh_ok hash cmp lh" and "it \<in> set (items lh)" and "cmp (item_data it) d = 0"
  shows "it \<in> set (buckets lh ! (unat (hash d) mod length (buckets lh)))"
proof -
  from assms(2) obtain c where c: "c \<in> set (buckets lh)" "it \<in> set c"
    by (auto simp: items_def)
  from c(1) obtain b where "b < length (buckets lh)" "buckets lh ! b = c"
    unfolding in_set_conv_nth by blast
  with c(2) have b: "b < length (buckets lh)" "it \<in> set (buckets lh ! b)" by simp_all
  have "placed (buckets lh)" using ok by (simp add: lh_ok_def)
  with b have "unat (item_hash it) mod length (buckets lh) = b"
    unfolding placed_def by blast
  moreover have "item_hash it = hash (item_data it)"
    using ok assms(2) by (simp add: lh_ok_def)
  ultimately show ?thesis using hash_cong [OF assms(3)] b(2) by simp
qed

lemma locate:
  fixes d :: ptr
  assumes ok: "lh_ok hash cmp lh"
  defines "b \<equiv> unat (hash d) mod length (buckets lh)"
  defines "k \<equiv> chain_place cmp d (buckets lh ! b)"
  shows "k \<noteq> length (buckets lh ! b) \<Longrightarrow> k < length (buckets lh ! b) \<and> cmp (item_data (buckets lh ! b ! k)) d = 0 \<and>
      buckets lh ! b ! k \<in> set (items lh)"
    and "k = length (buckets lh ! b) \<Longrightarrow> \<forall>x \<in> contents lh. cmp x d \<noteq> 0"
proof -
  have b: "b < length (buckets lh)"
    using get_next_ptr_eq [OF ok] by (simp add: b_def)
  show "k < length (buckets lh ! b) \<and> cmp (item_data (buckets lh ! b ! k)) d = 0 \<and> buckets lh ! b ! k \<in> set (items lh)"
    if "k \<noteq> length (buckets lh ! b)"
  proof -
    have "k < length (buckets lh ! b)"
      using that chain_place(2) [of cmp d "buckets lh ! b"] by (simp add: k_def)
    moreover from nth_mem [OF this] nth_mem [OF b] have "buckets lh ! b ! k \<in> set (items lh)"
      unfolding items_def set_concat by blast
    ultimately show ?thesis
      using chain_place(1) [of cmp d "buckets lh ! b"] by (simp add: k_def)
  qed
  show "\<forall>x \<in> contents lh. cmp x d \<noteq> 0" if "k = length (buckets lh ! b)"
    using that chain_place(3) [of cmp d "buckets lh ! b"] not_elsewhere [OF ok]
    by (auto simp: k_def b_def contents_def)
qed

lemma retrieve_eq:
  assumes ok: "lh_ok hash cmp lh"
  shows "if \<exists>x \<in> contents lh. cmp x d = 0
    then lh_retrieve hash cmp lh d \<in> contents lh \<and> cmp (lh_retrieve hash cmp lh d) d = 0
    else lh_retrieve hash cmp lh d = 0"
  using locate [OF ok, of d] get_next_ptr_eq [OF ok, of d]
  by (auto simp: lh_retrieve_def Let_def contents_def)

lemma unequal_replace:
  assumes "unequal cmp (xs @ it # ys)" and "cmp (item_data it) d = 0"
  shows "unequal cmp (xs @ it\<lparr>item_data := d\<rparr> # ys)"
    and "item_data ` set (xs @ ys) = {x \<in> item_data ` set (xs @ it # ys). cmp x d \<noteq> 0}"
proof -
  have other: "cmp (item_data x) d \<noteq> 0 \<and> cmp d (item_data x) \<noteq> 0" if "x \<in> set (xs @ ys)" for x
  proof -
    have "item_data x \<noteq> item_data it"
      using assms(1) that by (auto simp: unequal_def image_iff)
    then have "cmp (item_data x) (item_data it) \<noteq> 0"
      using assms(1) that by (auto simp: unequal_def)
    then show ?thesis
      using assms(2) cmp_sym cmp_trans by blast
  qed
  then have "d \<notin> item_data ` set (xs @ ys)"
    using cmp_refl by blast
  then show "unequal cmp (xs @ it\<lparr>item_data := d\<rparr> # ys)"
    using assms(1) other by (auto simp: unequal_def)
  show "item_data ` set (xs @ ys) = {x \<in> item_data ` set (xs @ it # ys). cmp x d \<noteq> 0}"
    using other assms(2) by auto
qed

text \<open>A change of one chain.\<close>

lemma items_chain:
  assumes "b < length (buckets lh)"
  shows "items lh = concat (take b (buckets lh)) @ buckets lh ! b @ concat (drop (Suc b) (buckets lh))"
    and "items (lh\<lparr>buckets := (buckets lh)[b := c]\<rparr>) =
      concat (take b (buckets lh)) @ c @ concat (drop (Suc b) (buckets lh))"
  using concat_split [OF assms] by (simp_all add: items_def)

text \<open>The chain at the place of \<open>d\<close> is replaced, by items with the hash of \<open>d\<close> or from it.\<close>

lemma ok_update:
  assumes ok: "lh_ok hash cmp lh"
  defines "b \<equiv> \<lambda>d. unat (hash d) mod length (buckets lh)"
  assumes c: "\<forall>it \<in> set c. it \<in> set (buckets lh ! b d) \<or> item_hash it = hash d \<and> hash (item_data it) = hash d"
    and items: "unequal cmp (items (lh\<lparr>buckets := (buckets lh)[b d := c]\<rparr>))"
    and n: "n = of_nat (length (items (lh\<lparr>buckets := (buckets lh)[b d := c]\<rparr>)))"
  shows "lh_ok hash cmp (lh\<lparr>buckets := (buckets lh)[b d := c], num_items := n\<rparr>)"
proof -
  have b: "b d < length (buckets lh)"
    using get_next_ptr_eq [OF ok] by (simp add: b_def)
  have "placed ((buckets lh)[b d := c])"
    using ok b c by (intro placed_update) (auto simp: lh_ok_def placed_def b_def)
  moreover have "\<forall>it \<in> set (items (lh\<lparr>buckets := (buckets lh)[b d := c]\<rparr>)). item_hash it = hash (item_data it)"
    using ok c items_chain [OF b] by (auto simp: lh_ok_def)
  ultimately show ?thesis
    using ok items n by (simp add: lh_ok_def items_def)
qed

lemma contents_mset: "mset (items lh) = mset (items lh') \<Longrightarrow> contents lh = contents lh'"
  using mset_eq_setD [of "items lh" "items lh'"] by (simp add: contents_def)

text \<open>An insertion or deletion before the table is resized.\<close>

lemma insert_step:
  assumes ok: "lh_ok hash cmp lh"
  shows "\<exists>lh1. lh_ok hash cmp lh1 \<and> contents lh1 = insert d {x \<in> contents lh. cmp x d \<noteq> 0} \<and>
    length (buckets lh1) = length (buckets lh) \<and> callback_depth lh1 = callback_depth lh \<and>
    (if \<exists>x \<in> contents lh. cmp x d = 0
     then length (items lh1) = length (items lh) \<and>
       lh_insert malloc_ok item_ok hash cmp d lh = (Ret (lh_retrieve hash cmp lh d), lh1)
     else length (items lh1) = Suc (length (items lh)) \<and> lh_retrieve hash cmp lh d = 0 \<and>
       lh_insert malloc_ok item_ok hash cmp d lh = (if item_ok then seq (lh_maybe_resize malloc_ok) (ret 0) lh1 else (Fail, lh)))"
proof -
  define b where "b = unat (hash d) mod length (buckets lh)"
  define chain where "chain = buckets lh ! b"
  define k where "k = chain_place cmp d chain"
  have place: "get_next_ptr_and_hash hash cmp lh d = ((b, k), hash d)" and b: "b < length (buckets lh)"
    using get_next_ptr_eq [OF ok, of d] by (simp_all add: b_def k_def chain_def Let_def)
  note found = locate(1) [OF ok, of d, folded b_def, folded chain_def, folded k_def]
    and absent = locate(2) [OF ok, of d, folded b_def, folded chain_def, folded k_def]
  define xs ys where "xs = concat (take b (buckets lh))" and "ys = concat (drop (Suc b) (buckets lh))"
  then have xs: "items lh = xs @ chain @ ys" "items (lh\<lparr>buckets := (buckets lh)[b := c]\<rparr>) = xs @ c @ ys" for c
    using items_chain [OF b] by (simp_all add: chain_def)
  show ?thesis
  proof (cases "k = length chain")
    case False
    let ?it = "(chain ! k)\<lparr>item_data := d\<rparr>"
    from found [OF False] have k: "k < length chain" "cmp (item_data (chain ! k)) d = 0" by auto
    have split: "chain = take k chain @ chain ! k # drop (Suc k) chain"
      by (rule id_take_nth_drop [OF k(1)])
    have new: "chain[k := ?it] = take k chain @ ?it # drop (Suc k) chain"
      by (rule upd_conv_take_nth_drop [OF k(1)])
    have old: "items lh = (xs @ take k chain) @ chain ! k # (drop (Suc k) chain @ ys)"
      unfolding xs(1) by (subst split) simp
    have "unequal cmp (items lh)" using ok by (simp add: lh_ok_def)
    note replace = unequal_replace [OF this [unfolded old] k(2)]
    let ?lh = "lh\<lparr>buckets := (buckets lh)[b := chain[k := ?it]]\<rparr>"
    have items': "items ?lh = (xs @ take k chain) @ ?it # (drop (Suc k) chain @ ys)"
      unfolding xs(2) new by simp
    have ok_len: "num_items lh = of_nat (length ((xs @ take k chain) @ ?it # (drop (Suc k) chain @ ys)))"
      using ok by (simp add: lh_ok_def old)
    have "item_hash (chain ! k) = hash (item_data (chain ! k))"
      using ok old by (auto simp: lh_ok_def)
    then have "item_hash ?it = hash d"
      using hash_cong [OF k(2)] by simp
    moreover have "set (chain[k := ?it]) \<subseteq> insert ?it (set chain)"
      by (rule set_update_subset_insert)
    ultimately have "\<forall>it \<in> set (chain[k := ?it]). it \<in> set chain \<or> item_hash it = hash d \<and> hash (item_data it) = hash d"
      by auto
    then have "lh_ok hash cmp (lh\<lparr>buckets := (buckets lh)[b := chain[k := ?it]], num_items := num_items lh\<rparr>)"
      using replace(1) ok_len unfolding b_def chain_def
      by (intro ok_update [OF ok]) (simp_all only: b_def [symmetric] chain_def [symmetric] items')
    moreover have "lh\<lparr>buckets := x, num_items := num_items lh\<rparr> = lh\<lparr>buckets := x\<rparr>" for x by simp
    moreover have "contents ?lh = insert d {x \<in> contents lh. cmp x d \<noteq> 0}"
      unfolding contents_def items' old replace(2) [symmetric] by auto
    moreover have "\<exists>x \<in> contents lh. cmp x d = 0"
      using k(2) old by (auto simp: contents_def)
    moreover have "lh_retrieve hash cmp lh d = item_data (chain ! k)"
      using place False by (simp add: lh_retrieve_def chain_def)
    moreover have "lh_insert malloc_ok item_ok hash cmp d lh = (Ret (item_data (chain ! k)), ?lh)"
      unfolding lh_insert_def place Let_def prod.case chain_def [symmetric] if_P [OF False] ..
    moreover have "length (items ?lh) = length (items lh)"
      unfolding items' old by simp
    ultimately show ?thesis by (intro exI [of _ ?lh]) auto
  next
    case True
    from absent [OF True] have none: "\<forall>x \<in> contents lh. cmp x d \<noteq> 0" .
    let ?it = "\<lparr>item_data = d, item_hash = hash d\<rparr>"
    let ?lh = "lh\<lparr>buckets := (buckets lh)[b := chain @ [?it]], num_items := num_items lh + 1\<rparr>"
    have items': "items ?lh = (xs @ chain) @ ?it # ys"
      using xs(2) [of "chain @ [?it]"] by (simp add: items_def)
    have "unequal cmp (items ?lh)"
      using ok none cmp_sym cmp_refl unfolding items' by (auto simp: lh_ok_def xs(1) unequal_def contents_def)
    moreover have "\<forall>it \<in> set (chain @ [?it]). it \<in> set chain \<or> item_hash it = hash d \<and> hash (item_data it) = hash d"
      by simp
    moreover have "num_items lh + 1 = of_nat (length (items ?lh))"
      using ok unfolding items' by (simp add: lh_ok_def xs(1))
    ultimately have "lh_ok hash cmp ?lh"
      unfolding b_def chain_def by (intro ok_update [OF ok]) (simp_all add: items_def)
    moreover have "contents ?lh = insert d {x \<in> contents lh. cmp x d \<noteq> 0}"
      using none unfolding contents_def items' xs(1) by auto
    moreover have "length (items ?lh) = Suc (length (items lh))"
      unfolding items' xs(1) by simp
    moreover have "lh_insert malloc_ok item_ok hash cmp d lh =
        (if item_ok then seq (lh_maybe_resize malloc_ok) (ret 0) ?lh else (Fail, lh))"
      using True by (simp add: lh_insert_def place chain_def [symmetric])
    moreover have "lh_retrieve hash cmp lh d = 0"
      using True by (simp add: lh_retrieve_def place chain_def)
    ultimately show ?thesis
      using none by (intro exI [of _ ?lh]) auto
  qed
qed

lemma delete_step:
  assumes ok: "lh_ok hash cmp lh"
  shows "if \<exists>x \<in> contents lh. cmp x d = 0
    then \<exists>lh1. lh_ok hash cmp lh1 \<and> contents lh1 = {x \<in> contents lh. cmp x d \<noteq> 0} \<and>
      length (buckets lh1) = length (buckets lh) \<and> callback_depth lh1 = callback_depth lh \<and>
      Suc (length (items lh1)) = length (items lh) \<and>
      lh_delete malloc_ok hash cmp d lh = seq (lh_maybe_resize malloc_ok) (ret (lh_retrieve hash cmp lh d)) lh1
    else lh_delete malloc_ok hash cmp d lh = (Ret 0, lh) \<and> lh_retrieve hash cmp lh d = 0"
proof -
  define b where "b = unat (hash d) mod length (buckets lh)"
  define chain where "chain = buckets lh ! b"
  define k where "k = chain_place cmp d chain"
  have place: "get_next_ptr_and_hash hash cmp lh d = ((b, k), hash d)" and b: "b < length (buckets lh)"
    using get_next_ptr_eq [OF ok, of d] by (simp_all add: b_def k_def chain_def Let_def)
  note found = locate(1) [OF ok, of d, folded b_def, folded chain_def, folded k_def]
    and absent = locate(2) [OF ok, of d, folded b_def, folded chain_def, folded k_def]
  define xs ys where "xs = concat (take b (buckets lh))" and "ys = concat (drop (Suc b) (buckets lh))"
  then have xs: "items lh = xs @ chain @ ys" "items (lh\<lparr>buckets := (buckets lh)[b := c]\<rparr>) = xs @ c @ ys" for c
    using items_chain [OF b] by (simp_all add: chain_def)
  show ?thesis
  proof (cases "k = length chain")
    case True
    then show ?thesis
      using place absent [OF True] ok by (auto simp: lh_delete_def lh_retrieve_def chain_def [symmetric])
  next
    case False
    from found [OF False] have k: "k < length chain" "cmp (item_data (chain ! k)) d = 0" by auto
    have split: "chain = take k chain @ chain ! k # drop (Suc k) chain"
      by (rule id_take_nth_drop [OF k(1)])
    have old: "items lh = (xs @ take k chain) @ chain ! k # (drop (Suc k) chain @ ys)"
      unfolding xs(1) by (subst split) simp
    have "unequal cmp (items lh)" using ok by (simp add: lh_ok_def)
    note replace = unequal_replace(2) [OF this [unfolded old] k(2)]
    let ?c = "take k chain @ drop (Suc k) chain"
    let ?lh = "lh\<lparr>buckets := (buckets lh)[b := ?c], num_items := num_items lh - 1\<rparr>"
    have items': "items ?lh = (xs @ take k chain) @ (drop (Suc k) chain @ ys)"
      using xs(2) [of ?c] by (simp add: items_def)
    have "unequal cmp (items ?lh)"
      using ok unfolding items' lh_ok_def old unequal_def by auto
    moreover have "\<forall>it \<in> set ?c. it \<in> set chain \<or> item_hash it = hash d \<and> hash (item_data it) = hash d"
      by (auto dest: in_set_takeD in_set_dropD)
    moreover have "num_items lh - 1 = of_nat (length (items ?lh))"
      using ok unfolding items' by (simp add: lh_ok_def old)
    ultimately have "lh_ok hash cmp ?lh"
      unfolding b_def chain_def by (intro ok_update [OF ok]) (simp_all add: items_def)
    moreover have "contents ?lh = {x \<in> contents lh. cmp x d \<noteq> 0}"
      unfolding contents_def items' old by (rule replace)
    moreover have "Suc (length (items ?lh)) = length (items lh)"
      unfolding items' old by simp
    moreover have "\<exists>x \<in> contents lh. cmp x d = 0"
      using k(2) old by (auto simp: contents_def)
    moreover have "lh_retrieve hash cmp lh d = item_data (chain ! k)"
      using False by (simp add: lh_retrieve_def place chain_def)
    moreover have "lh_delete malloc_ok hash cmp d lh = seq (lh_maybe_resize malloc_ok) (ret (item_data (chain ! k))) ?lh"
      using False by (simp add: lh_delete_def place chain_def [symmetric])
    ultimately show ?thesis
      by (simp only: if_True) (intro exI [of _ ?lh], simp)
  qed
qed

text \<open>The operations as a whole: resizing keeps what the step gave.\<close>

lemma table_insert:
  assumes ok: "lh_ok hash cmp lh"
  shows "\<exists>r lh'. lh_insert malloc_ok item_ok hash cmp d lh = (r, lh') \<and> lh_ok hash cmp lh' \<and>
    (if item_ok \<or> (\<exists>x \<in> contents lh. cmp x d = 0)
     then r = Ret (lh_retrieve hash cmp lh d) \<and> contents lh' = insert d {x \<in> contents lh. cmp x d \<noteq> 0}
     else r = Fail \<and> lh' = lh)"
proof (cases "\<exists>x \<in> contents lh. cmp x d = 0")
  case True
  with insert_step [OF ok, of d malloc_ok item_ok] ok show ?thesis
    by (simp only: if_True simp_thms) auto
next
  case False
  with insert_step [OF ok, of d malloc_ok item_ok] obtain lh1 where
    lh1: "lh_ok hash cmp lh1" "contents lh1 = insert d {x \<in> contents lh. cmp x d \<noteq> 0}" "lh_retrieve hash cmp lh d = 0"
    "lh_insert malloc_ok item_ok hash cmp d lh = (if item_ok then seq (lh_maybe_resize malloc_ok) (ret 0) lh1 else (Fail, lh))"
    by (simp only: if_False) blast
  from maybe_resize_ok [OF lh1(1), of malloc_ok] obtain lh' where
    "lh_maybe_resize malloc_ok lh1 = (Ret (), lh')" "lh_ok hash cmp lh'" "mset (items lh') = mset (items lh1)"
    by blast
  with contents_mset [OF this(3)] lh1 ok False show ?thesis
    by (cases item_ok) auto
qed

lemma table_delete:
  assumes ok: "lh_ok hash cmp lh"
  shows "\<exists>lh'. lh_delete malloc_ok hash cmp d lh = (Ret (lh_retrieve hash cmp lh d), lh') \<and> lh_ok hash cmp lh' \<and>
    contents lh' = {x \<in> contents lh. cmp x d \<noteq> 0}"
proof (cases "\<exists>x \<in> contents lh. cmp x d = 0")
  case True
  with delete_step [OF ok, of d malloc_ok] obtain lh1 where
    lh1: "lh_ok hash cmp lh1" "contents lh1 = {x \<in> contents lh. cmp x d \<noteq> 0}"
    "lh_delete malloc_ok hash cmp d lh = seq (lh_maybe_resize malloc_ok) (ret (lh_retrieve hash cmp lh d)) lh1"
    by auto
  from maybe_resize_ok [OF lh1(1), of malloc_ok] obtain lh' where
    "lh_maybe_resize malloc_ok lh1 = (Ret (), lh')" "lh_ok hash cmp lh'" "mset (items lh') = mset (items lh1)"
    by blast
  with contents_mset [OF this(3)] lh1 show ?thesis by simp
next
  case False
  with delete_step [OF ok, of d malloc_ok] have
    "lh_delete malloc_ok hash cmp d lh = (Ret (lh_retrieve hash cmp lh d), lh)" by simp
  with ok False show ?thesis by auto
qed

lemma retrieve_unique:
  assumes ok: "lh_ok hash cmp lh" and x: "x \<in> contents lh" "cmp x d = 0"
  shows "lh_retrieve hash cmp lh d = x"
proof -
  have r: "lh_retrieve hash cmp lh d \<in> contents lh" "cmp (lh_retrieve hash cmp lh d) d = 0"
    using retrieve_eq [OF ok, of d] x by (auto split: if_splits)
  then have "cmp (lh_retrieve hash cmp lh d) x = 0"
    using cmp_sym [OF x(2)] cmp_trans by blast
  with r(1) x(1) ok show ?thesis
    by (auto simp: lh_ok_def unequal_def contents_def)
qed

lemma retrieve_none:
  assumes ok: "lh_ok hash cmp lh" and "\<forall>x \<in> contents lh. cmp x d \<noteq> 0"
  shows "lh_retrieve hash cmp lh d = 0"
  using retrieve_eq [OF ok, of d] assms(2) by (auto split: if_splits)

text \<open>Two tables that hold the same elements equal to \<open>e\<close> retrieve the same.\<close>

lemma retrieve_same:
  assumes "lh_ok hash cmp lh" and "lh_ok hash cmp lh'"
    and same: "\<And>x. cmp x e = 0 \<Longrightarrow> x \<in> contents lh \<longleftrightarrow> x \<in> contents lh'"
  shows "lh_retrieve hash cmp lh e = lh_retrieve hash cmp lh' e"
proof (cases "\<exists>x \<in> contents lh. cmp x e = 0")
  case True
  then obtain x where "x \<in> contents lh" "x \<in> contents lh'" "cmp x e = 0"
    using same by blast
  then show ?thesis
    using assms(1,2) by (simp add: retrieve_unique)
next
  case False
  then have "\<forall>x \<in> contents lh. cmp x e \<noteq> 0" "\<forall>x \<in> contents lh'. cmp x e \<noteq> 0"
    using same by blast+
  then show ?thesis
    using assms(1,2) by (simp add: retrieve_none)
qed

lemma unrelated: "cmp d e \<noteq> 0 \<Longrightarrow> cmp x e = 0 \<Longrightarrow> cmp x d \<noteq> 0 \<and> x \<noteq> d"
  using cmp_sym cmp_trans by blast

lemma insert_retrieve:
  assumes "lh_ok hash cmp lh" and "lh_ok hash cmp lh'"
    and "contents lh' = insert d {x \<in> contents lh. cmp x d \<noteq> 0}"
  shows "lh_retrieve hash cmp lh' = (\<lambda>e. if cmp d e = 0 then d else lh_retrieve hash cmp lh e)"
proof
  fix e
  show "lh_retrieve hash cmp lh' e = (if cmp d e = 0 then d else lh_retrieve hash cmp lh e)"
  proof (cases "cmp d e = 0")
    case True
    then show ?thesis
      using retrieve_unique [OF assms(2), of d e] assms(3) by simp
  next
    case False
    have "x \<in> contents lh' \<longleftrightarrow> x \<in> contents lh" if "cmp x e = 0" for x
      using unrelated [OF False that] assms(3) by simp
    with False show ?thesis
      using retrieve_same [OF assms(2,1), of e] by simp
  qed
qed

lemma delete_retrieve:
  assumes "lh_ok hash cmp lh" and "lh_ok hash cmp lh'"
    and "contents lh' = {x \<in> contents lh. cmp x d \<noteq> 0}"
  shows "lh_retrieve hash cmp lh' = (\<lambda>e. if cmp d e = 0 then 0 else lh_retrieve hash cmp lh e)"
proof
  fix e
  show "lh_retrieve hash cmp lh' e = (if cmp d e = 0 then 0 else lh_retrieve hash cmp lh e)"
  proof (cases "cmp d e = 0")
    case True
    then have "\<forall>x \<in> contents lh'. cmp x e \<noteq> 0"
      using cmp_trans [OF _ cmp_sym [OF True]] assms(3) by blast
    with True show ?thesis
      using retrieve_none [OF assms(2), of e] by simp
  next
    case False
    have "x \<in> contents lh' \<longleftrightarrow> x \<in> contents lh" if "cmp x e = 0" for x
      using unrelated [OF False that] assms(3) by simp
    with False show ?thesis
      using retrieve_same [OF assms(2,1), of e] by simp
  qed
qed

end

section \<open>The load of the buckets\<close>

definition load_ok :: "lhash \<Rightarrow> bool" where
  "load_ok lh \<longleftrightarrow> length (items lh) < 3 * length (buckets lh) \<and>
     (length (buckets lh) = 16 \<or> length (buckets lh) \<le> length (items lh))"

lemma rebucket_length:
  assumes "lh_ok hash cmp lh" and "16 \<le> unat n" and "unat n < 2 ^ 61"
  shows "length (buckets (lh_rebucket (\<lambda>_. True) n lh)) = unat n"
proof -
  have "unat (8 * n) = 8 * unat n"
    using assms(3) by (simp add: unat_word_ariths)
  then have "8 * n div 8 = n"
    by (simp add: word_unat_eq_iff unat_div)
  moreover have "0 < n" "placed (replicate (unat n) [])"
    using assms(2) by (simp_all add: placed_def word_less_nat_alt)
  ultimately show ?thesis
    using rebucket_all [of n "replicate (unat n) []" "buckets lh"] by (simp add: lh_rebucket_def Let_def)
qed

lemma resize_load:
  assumes ok: "lh_ok hash cmp lh" and depth: "callback_depth lh = 0" and small: "length (buckets lh) < 2 ^ 60"
    and upper: "length (items lh) \<le> 3 * length (buckets lh)"
    and lower: "length (buckets lh) = 16 \<or> length (buckets lh) \<le> length (items lh) + 1"
    and res: "lh_maybe_resize (\<lambda>_. True) lh = (Ret (), lh')"
  shows "load_ok lh'"
proof -
  let ?n = "num_buckets lh" and ?l = "length (buckets lh)" and ?i = "length (items lh)"
  define m where "m = (if ?n div 2 < kMinNumBuckets then kMinNumBuckets else ?n div 2)"
  have l: "16 \<le> ?l" and num: "num_items lh = of_nat ?i"
    using ok by (simp_all add: lh_ok_def)
  have n: "unat ?n = ?l" using small by (simp add: num_buckets_def unat_of_nat_u64)
  have i: "unat (num_items lh) = ?i" using num small upper by (simp add: unat_of_nat_u64)
  have up: "unat (?n * 2) = 2 * ?l"
    using small n by (simp add: unat_word_ariths)
  have "unat m = max 16 (?l div 2)"
    using n by (auto simp: m_def kMinNumBuckets_def word_less_nat_alt unat_div)
  note m = this
  have grown: "lh_ok hash cmp (lh_rebucket (\<lambda>_. True) k lh) \<and>
      length (items (lh_rebucket (\<lambda>_. True) k lh)) = ?i \<and> length (buckets (lh_rebucket (\<lambda>_. True) k lh)) = unat k"
    if "16 \<le> unat k" "unat k < 2 ^ 61" for k
    using rebucket_ok [OF ok that(1), of "\<lambda>_. True"] rebucket_length [OF ok that] mset_eq_length by blast
  have min: "kMinNumBuckets \<le> ?n" using l n by (simp add: kMinNumBuckets_def word_le_nat_alt)
  have pos: "0 < ?l" using l by linarith
  have more: "?n * 2 > ?n" using pos n up by (simp add: word_less_nat_alt)
  have avg: "unat (num_items lh div ?n) = ?i div ?l" using n i by (simp add: unat_div)
  have lh': "lh' = (if ?i div ?l > 2 then lh_rebucket (\<lambda>_. True) (?n * 2) lh
      else if ?i div ?l < 1 \<and> ?l > 16 then lh_rebucket (\<lambda>_. True) m lh else lh)"
    using res depth min more avg n
    by (auto simp: lh_maybe_resize_def Let_def m_def word_less_nat_alt kMaxAverageChainLength_def
        kMinAverageChainLength_def kMinNumBuckets_def split: if_splits)
  consider "?i div ?l > 2" | "?i div ?l \<le> 2" "?i div ?l < 1 \<and> ?l > 16" | "?i div ?l \<le> 2" "\<not> (?i div ?l < 1 \<and> ?l > 16)"
    by linarith
  then show ?thesis
  proof cases
    case 1
    then have "3 * ?l \<le> ?i"
      using l by (simp add: less_eq_div_iff_mult_less_eq Suc_le_eq [symmetric])
    with 1 show ?thesis
      using lh' grown [of "?n * 2"] up upper small l by (auto simp: load_ok_def)
  next
    case 2
    then have "?i < ?l" by (auto simp: div_eq_0_iff)
    then show ?thesis
      using 2 lh' grown [of m] m small lower l by (auto simp: load_ok_def)
  next
    case 3
    then have "?i < 3 * ?l"
      using div_less_iff_less_mult [OF pos, of ?i 3] by simp
    moreover have "?l \<le> ?i \<or> ?l = 16"
      using 3(2) l by (auto simp: div_eq_0_iff)
    ultimately show ?thesis
      using 3 lh' by (auto simp: load_ok_def)
  qed
qed

context hash_table
begin

lemma insert_load:
  assumes ok: "lh_ok hash cmp lh" and load: "load_ok lh" and depth: "callback_depth lh = 0"
    and small: "length (buckets lh) < 2 ^ 60"
    and ins: "lh_insert (\<lambda>_. True) True hash cmp d lh = (r, lh')"
  shows "load_ok lh'"
proof (cases "\<exists>x \<in> contents lh. cmp x d = 0")
  case True
  with insert_step [OF ok, of d "\<lambda>_. True" True] ins
  have "length (items lh') = length (items lh)" "length (buckets lh') = length (buckets lh)"
    by (auto simp only: if_True)
  with load show ?thesis by (simp add: load_ok_def)
next
  case False
  with insert_step [OF ok, of d "\<lambda>_. True" True] obtain lh1 where
    lh1: "lh_ok hash cmp lh1" "length (buckets lh1) = length (buckets lh)" "callback_depth lh1 = callback_depth lh"
    "length (items lh1) = Suc (length (items lh))"
    "lh_insert (\<lambda>_. True) True hash cmp d lh = seq (lh_maybe_resize (\<lambda>_. True)) (ret 0) lh1"
    by (simp only: if_False if_True) blast
  from maybe_resize_ok [OF lh1(1), of "\<lambda>_. True"] obtain lh2 where
    res: "lh_maybe_resize (\<lambda>_. True) lh1 = (Ret (), lh2)" by blast
  have "load_ok lh2"
    by (rule resize_load [OF lh1(1) _ _ _ _ res]) (use load depth small lh1 in \<open>auto simp: load_ok_def\<close>)
  with ins lh1(5) res show ?thesis by simp
qed

lemma delete_load:
  assumes ok: "lh_ok hash cmp lh" and load: "load_ok lh" and depth: "callback_depth lh = 0"
    and small: "length (buckets lh) < 2 ^ 60"
    and del: "lh_delete (\<lambda>_. True) hash cmp d lh = (r, lh')"
  shows "load_ok lh'"
proof (cases "\<exists>x \<in> contents lh. cmp x d = 0")
  case True
  with delete_step [OF ok, of d "\<lambda>_. True"] obtain lh1 where
    lh1: "lh_ok hash cmp lh1" "length (buckets lh1) = length (buckets lh)" "callback_depth lh1 = callback_depth lh"
    "Suc (length (items lh1)) = length (items lh)"
    "lh_delete (\<lambda>_. True) hash cmp d lh = seq (lh_maybe_resize (\<lambda>_. True)) (ret (lh_retrieve hash cmp lh d)) lh1"
    by (simp only: if_True) blast
  from maybe_resize_ok [OF lh1(1), of "\<lambda>_. True"] obtain lh2 where
    res: "lh_maybe_resize (\<lambda>_. True) lh1 = (Ret (), lh2)" by blast
  have "load_ok lh2"
    by (rule resize_load [OF lh1(1) _ _ _ _ res]) (use load depth small lh1 in \<open>auto simp: load_ok_def\<close>)
  with del lh1(5) res show ?thesis by simp
next
  case False
  with delete_step [OF ok, of d "\<lambda>_. True"] del load show ?thesis by simp
qed

end

section \<open>Iteration\<close>

lemma doall_chain_fold: "doall_chain f chain s = fold f (map item_data chain) s"
  by (induction chain arbitrary: s) simp_all

lemma doall_chains_fold: "doall_chains f bs s = fold f (map item_data (concat bs)) s"
  by (induction bs arbitrary: s) (simp_all add: doall_chain_fold)

lemma callback_around:
  "callback_depth lh < 0xFFFFFFFE \<Longrightarrow> leave_callback (enter_callback lh) = lh"
proof -
  assume "callback_depth lh < 0xFFFFFFFE"
  then have "callback_depth lh < 0xFFFFFFFF" "callback_depth lh + 1 < 0xFFFFFFFF"
    by (simp_all add: word_less_nat_alt unat_word_ariths)
  then show ?thesis by (simp add: enter_callback_def leave_callback_def)
qed

section \<open>Tables of strings\<close>

text \<open>\<open>strcmp\<close> of two strings, and the tables whose elements point to strings \<open>str\<close>.\<close>

fun strcmp :: "byte list \<Rightarrow> byte list \<Rightarrow> int" where
  "strcmp [] [] = 0"
| "strcmp [] (b # bs) = - 1"
| "strcmp (a # as) [] = 1"
| "strcmp (a # as) (b # bs) = (if a < b then - 1 else if b < a then 1 else strcmp as bs)"

lemma strcmp_eq: "strcmp as bs = 0 \<longleftrightarrow> as = bs"
  by (induction as bs rule: strcmp.induct) (auto simp: not_less_iff_gr_or_eq)

interpretation string_keys: hash_table "\<lambda>p. lh_strhash (Some (str p))" "\<lambda>p q. strcmp (str p) (str q)" for str
  by unfold_locales (simp_all add: strcmp_eq)

section \<open>The properties\<close>

text \<open>A new table, and the keys of one letter, for the concrete instances.\<close>

definition empty_table :: lhash where
  "empty_table = \<lparr>num_items = 0, buckets = replicate 16 [], callback_depth = 0\<rparr>"

definition letter :: "ptr \<Rightarrow> byte list" where
  "letter p = [of_nat p]"

lemma lh_new_eq:
  "lh_new malloc_ok malloc_buckets_ok = (if malloc_ok \<and> malloc_buckets_ok then Some empty_table else None)"
  by (simp add: lh_new_def empty_table_def kMinNumBuckets_def)

lemma empty_table_ok:
  "lh_ok hash cmp empty_table" "contents empty_table = {}" "load_ok empty_table" "items empty_table = []"
  "callback_depth empty_table = 0" "length (buckets empty_table) = 16"
proof -
  show items: "items empty_table = []" by (simp add: empty_table_def items_def)
  show "lh_ok hash cmp empty_table"
    using items by (simp add: lh_ok_def placed_def unequal_def) (simp add: empty_table_def)
  show "contents empty_table = {}" "load_ok empty_table"
    using items by (simp_all add: contents_def load_ok_def) (simp_all add: empty_table_def)
qed (simp_all add: empty_table_def)

lemma empty_table_retrieve: "lh_retrieve hash cmp empty_table d = 0"
  using get_next_ptr_eq [OF empty_table_ok(1), of hash cmp d]
  by (simp add: lh_retrieve_def Let_def empty_table_def)

text \<open>C35: Insertion into a well-formed table whose comparison is an equivalence the hash respects, when the item
  can be allocated, returns the element it replaces, if any; the table stays well-formed whether or not it could be
  resized, the new element takes the place of the equal one, and every later retrieval finds the new element
  for the keys equal to it and what it found before for all others.\<close>

theorem hash_table_insert:
  assumes "hash_table hash cmp" and "lh_ok hash cmp lh"
  shows "\<exists>lh'. lh_insert malloc_ok True hash cmp d lh = (Ret (lh_retrieve hash cmp lh d), lh') \<and>
    lh_ok hash cmp lh' \<and> contents lh' = insert d {x \<in> contents lh. cmp x d \<noteq> 0} \<and>
    lh_retrieve hash cmp lh' = (\<lambda>e. if cmp d e = 0 then d else lh_retrieve hash cmp lh e)"
  using hash_table.table_insert [OF assms, of malloc_ok True d] hash_table.insert_retrieve [OF assms(1) assms(2)] by auto

lemma hash_table_insert_witness:
  "\<exists>lh'. lh_insert (\<lambda>_. False) True (\<lambda>p. lh_strhash (Some (letter p))) (\<lambda>p q. strcmp (letter p) (letter q)) 65 empty_table =
      (Ret 0, lh') \<and> contents lh' = {65} \<and>
    lh_retrieve (\<lambda>p. lh_strhash (Some (letter p))) (\<lambda>p q. strcmp (letter p) (letter q)) lh' 321 = 65"
proof -
  have "strcmp (letter 65) (letter 321) = 0" by (simp add: letter_def)
  then show ?thesis
    using hash_table_insert [OF string_keys.hash_table_axioms empty_table_ok(1), of "\<lambda>_. False" letter 65]
    by (auto simp: empty_table_ok(2) empty_table_retrieve)
qed

text \<open>C36: Deletion from such a table returns what retrieval finds and leaves a well-formed table without the
  elements equal to the argument, whether or not it could be resized: retrieval finds nothing for the keys equal to it
  and what it found before for all others.\<close>

theorem hash_table_delete:
  assumes "hash_table hash cmp" and "lh_ok hash cmp lh"
  shows "\<exists>lh'. lh_delete malloc_ok hash cmp d lh = (Ret (lh_retrieve hash cmp lh d), lh') \<and>
    lh_ok hash cmp lh' \<and> contents lh' = {x \<in> contents lh. cmp x d \<noteq> 0} \<and>
    lh_retrieve hash cmp lh' = (\<lambda>e. if cmp d e = 0 then 0 else lh_retrieve hash cmp lh e)"
  using hash_table.table_delete [OF assms, of malloc_ok d] hash_table.delete_retrieve [OF assms(1) assms(2)] by auto

lemma hash_table_delete_witness:
  "\<exists>lh'. lh_delete (\<lambda>_. True) (\<lambda>p. lh_strhash (Some (letter p))) (\<lambda>p q. strcmp (letter p) (letter q)) 65 empty_table =
      (Ret 0, lh') \<and> contents lh' = {}"
  using hash_table_delete [OF string_keys.hash_table_axioms empty_table_ok(1), of "\<lambda>_. True" letter 65]
  by (auto simp: empty_table_ok(2) empty_table_retrieve)

text \<open>C37: As long as memory is available and no iteration is under way, every insertion and deletion keeps the
  average chain shorter than 3, and at least 1 in a table of more than the 16 buckets it is created with, so a lookup
  goes through a constant number of items on average.\<close>

theorem hash_table_load:
  assumes "hash_table hash cmp" and "lh_ok hash cmp lh" and "load_ok lh" and "callback_depth lh = 0"
    and "length (buckets lh) < 2 ^ 60"
  shows "load_ok (snd (lh_insert (\<lambda>_. True) True hash cmp d lh)) \<and>
    load_ok (snd (lh_delete (\<lambda>_. True) hash cmp d lh))"
  using hash_table.insert_load [OF assms] hash_table.delete_load [OF assms]
  by (metis prod.collapse)

text \<open>A table of numbers with 47 items in its 16 buckets: the next insertion doubles it.\<close>

interpretation number_keys: hash_table of_nat "\<lambda>p q. int p - int q"
  by unfold_locales simp_all

definition full_table :: lhash where
  "full_table = \<lparr>num_items = 47,
     buckets = map (\<lambda>b. map (\<lambda>p. \<lparr>item_data = p, item_hash = of_nat p\<rparr>) (filter (\<lambda>p. p \<noteq> 0) [b, b + 16, b + 32])) [0..<16],
     callback_depth = 0\<rparr>"

lemma full_table_ok:
  "lh_ok of_nat (\<lambda>p q. int p - int q) full_table" "load_ok full_table" "callback_depth full_table = 0"
  "length (buckets full_table) = 16"
proof -
  have upt: "[0..<16] = [0, 1, 2, 3, 4, 5, 6, 7, 8, 9, 10, 11, 12, 13, 14, 15 :: nat]"
    by (simp add: upt_rec)
  have data: "map item_data (items full_table) =
      concat (map (\<lambda>b. filter (\<lambda>p. p \<noteq> 0) [b, b + 16, b + 32]) [0..<16])"
    by (simp add: full_table_def items_def map_concat o_def)
  then have len: "length (items full_table) = 47" and distinct: "distinct (map item_data (items full_table))"
    unfolding upt by (simp_all flip: length_map [of item_data])
  show buckets: "length (buckets full_table) = 16" and depth: "callback_depth full_table = 0"
    by (simp_all add: full_table_def)
  have "(b + 32) mod 16 = b mod 16" for b :: nat
    by presburger
  then have "placed (buckets full_table)"
    by (auto simp: placed_def full_table_def unsigned_of_nat take_bit_nat_eq_self)
  moreover have "\<forall>it \<in> set (items full_table). item_hash it = of_nat (item_data it)"
    by (auto simp: items_def full_table_def)
  moreover have "num_items full_table = of_nat (length (items full_table))"
    unfolding len by (simp add: full_table_def)
  ultimately show "lh_ok of_nat (\<lambda>p q. int p - int q) full_table"
    using distinct buckets by (simp add: lh_ok_def unequal_def)
  show "load_ok full_table"
    by (simp add: load_ok_def len buckets)
qed

lemma hash_table_load_witness:
  "load_ok (snd (lh_insert (\<lambda>_. True) True of_nat (\<lambda>p q. int p - int q) 48 full_table)) \<and>
   load_ok (snd (lh_delete (\<lambda>_. True) of_nat (\<lambda>p q. int p - int q) 47 full_table))"
  using hash_table_load [OF number_keys.hash_table_axioms full_table_ok(1-3), of 48]
    hash_table_load [OF number_keys.hash_table_axioms full_table_ok(1-3), of 47]
  by (simp add: full_table_ok(4))

text \<open>Iterating over a well-formed table applies the function to every element exactly once, in the order of the
  buckets and chains, with its argument if it has one, and leaves the elements, their count and the depth of callbacks as
  they were; iterating over no table does nothing.\<close>

theorem lh_doall_visits:
  assumes "lh_ok hash cmp lh" and "callback_depth lh < 0xFFFFFFFE"
  shows "\<exists>lh'. lh_doall_arg malloc_ok f arg (Some lh, s) =
      (Ret (), (Some lh', fold (\<lambda>p. f p arg) (map item_data (items lh)) s)) \<and>
    lh_ok hash cmp lh' \<and> mset (items lh') = mset (items lh) \<and> distinct (map item_data (items lh)) \<and>
    lh_doall_arg malloc_ok f arg (None, s) = (Ret (), (None, s)) \<and>
    lh_doall malloc_ok (\<lambda>p. f p arg) = lh_doall_arg malloc_ok f arg"
proof -
  from maybe_resize_ok [OF assms(1), of malloc_ok] obtain lh' where
    "lh_maybe_resize malloc_ok lh = (Ret (), lh')" "lh_ok hash cmp lh'" "mset (items lh') = mset (items lh)"
    by blast
  moreover have "buckets (enter_callback lh) = buckets lh"
    by (simp add: enter_callback_def)
  moreover have "distinct (map item_data (items lh))"
    using assms(1) by (simp add: lh_ok_def unequal_def)
  ultimately show ?thesis
    using callback_around [OF assms(2)]
    by (simp add: lh_doall_arg_def lh_doall_def lh_doall_internal_def Let_def doall_chains_fold items_def)
qed

lemma lh_doall_visits_witness:
  "\<exists>lh'. lh_doall_arg (\<lambda>_. True) (\<lambda>p n s. p + n + s) 1 (Some empty_table, 5) = (Ret (), (Some lh', 5 :: nat)) \<and> items lh' = []"
  using lh_doall_visits [OF empty_table_ok(1), of "\<lambda>_. True" "\<lambda>p n s. p + n + s" 1 5]
  by (auto simp: empty_table_ok(4,5))

end
