(* ===== verification/Modes.thy ===== *)
theory Modes
  imports Bytes
begin

text \<open>
  BoringSSL's block cipher modes (\<open>crypto/fipsmodule/modes/cbc.c\<close>, \<open>ctr.c\<close>, \<open>cfb.c\<close>, \<open>ofb.c\<close>) over the
  flat memory of \<open>Bytes\<close>, so that input, output and the 16 bytes of state may overlap as the caller
  makes them. A block cipher under a key (\<open>block128_f\<close> with its \<open>key\<close>) is a function on 16 bytes and a parameter,
  and so is the routine of several counter blocks (\<open>ctr128_f\<close>). \<open>*num\<close> is passed in and out as a
  number. \<open>strict\<close> is \<open>STRICT_ALIGNMENT\<close>. Lengths are numbers: an object is no larger than the address space.
\<close>

unbundle bit_operations_syntax

type_synonym block128 = "byte list \<Rightarrow> byte list"

definition call_block :: "block128 \<Rightarrow> addr \<Rightarrow> addr \<Rightarrow> mem \<Rightarrow> mem" where
  "call_block block inp out m = store m out (block (load m inp 16))"

definition unaligned :: "bool \<Rightarrow> addr \<Rightarrow> addr \<Rightarrow> addr \<Rightarrow> bool" where
  "unaligned strict inp out ivec \<longleftrightarrow> strict \<and> (of_nat inp OR of_nat out OR of_nat ivec :: u64) mod 8 \<noteq> 0"

text \<open>One round of \<open>out[n] = in[n] ^ iv[n]\<close>, for a byte and for a word, and a block of them.\<close>

definition xor_byte :: "addr \<Rightarrow> addr \<Rightarrow> addr \<Rightarrow> nat \<Rightarrow> mem \<Rightarrow> mem" where
  "xor_byte out inp iv n m = m(out + n := m (inp + n) XOR m (iv + n))"

definition xor_word :: "addr \<Rightarrow> addr \<Rightarrow> addr \<Rightarrow> nat \<Rightarrow> mem \<Rightarrow> mem" where
  "xor_word out inp iv n m =
     store_word m (out + n) 8 (load_word m (inp + n) 8 XOR load_word m (iv + n) 8 :: u64)"

definition xor_block :: "bool \<Rightarrow> addr \<Rightarrow> addr \<Rightarrow> addr \<Rightarrow> mem \<Rightarrow> mem" where
  "xor_block bytewise out inp iv m =
     (if bytewise then fold (xor_byte out inp iv) [0..<16] m else fold (xor_word out inp iv) [0, 8] m)"

section \<open>Cipher block chaining\<close>

text \<open>The first loop ends with the rest of the length, the pointers and the memory.\<close>

fun cbc_encrypt_blocks ::
  "bool \<Rightarrow> block128 \<Rightarrow> nat \<Rightarrow> addr \<Rightarrow> addr \<Rightarrow> addr \<Rightarrow> mem \<Rightarrow> nat \<times> addr \<times> addr \<times> addr \<times> mem" where
  "cbc_encrypt_blocks bytewise block len inp out iv m =
     (if len \<ge> 16 then
        let m = call_block block out out (xor_block bytewise out inp iv m) in
        cbc_encrypt_blocks bytewise block (len - 16) (inp + 16) (out + 16) out m
      else (len, inp, out, iv, m))"

fun cbc_encrypt_rest :: "block128 \<Rightarrow> nat \<Rightarrow> addr \<Rightarrow> addr \<Rightarrow> addr \<Rightarrow> mem \<Rightarrow> addr \<times> mem" where
  "cbc_encrypt_rest block len inp out iv m =
     (if len = 0 then (iv, m)
      else
        let m = fold (xor_byte out inp iv) [0..<min 16 len] m;
            m = fold (\<lambda>n m. m(out + n := m (iv + n))) [min 16 len..<16] m;
            m = call_block block out out m in
        if len \<le> 16 then (out, m)
        else cbc_encrypt_rest block (len - 16) (inp + 16) (out + 16) out m)"

definition CRYPTO_cbc128_encrypt ::
  "bool \<Rightarrow> addr \<Rightarrow> addr \<Rightarrow> nat \<Rightarrow> addr \<Rightarrow> block128 \<Rightarrow> (mem, unit) prog" where
  "CRYPTO_cbc128_encrypt strict inp out len ivec block = (\<lambda>m.
     if ivec = 0 \<or> \<not> (len = 0 \<or> inp \<noteq> 0 \<and> out \<noteq> 0) then (Stuck, m)
     else
       let (len, inp, out, iv, m) =
             cbc_encrypt_blocks (unaligned strict inp out ivec) block len inp out ivec m;
           (iv, m) = cbc_encrypt_rest block len inp out iv m in
       (Ret (), store m ivec (load m iv 16)))"

text \<open>Decryption into an output that the input is not taken from any more.\<close>

fun cbc_decrypt_direct ::
  "bool \<Rightarrow> block128 \<Rightarrow> nat \<Rightarrow> addr \<Rightarrow> addr \<Rightarrow> addr \<Rightarrow> mem \<Rightarrow> nat \<times> addr \<times> addr \<times> addr \<times> mem" where
  "cbc_decrypt_direct bytewise block len inp out iv m =
     (if len \<ge> 16 then
        let m = xor_block bytewise out out iv (call_block block inp out m) in
        cbc_decrypt_direct bytewise block (len - 16) (inp + 16) (out + 16) inp m
      else (len, inp, out, iv, m))"

text \<open>Decryption through the temporary block \<open>tmp\<close>: the input replaces the vector as it is read.\<close>

definition swap_byte :: "byte list \<Rightarrow> addr \<Rightarrow> addr \<Rightarrow> addr \<Rightarrow> nat \<Rightarrow> mem \<Rightarrow> mem" where
  "swap_byte tmp out inp ivec n m =
     (let c = m (inp + n);
          m = m(out + n := tmp ! n XOR m (ivec + n)) in
      m(ivec + n := c))"

definition swap_word :: "byte list \<Rightarrow> addr \<Rightarrow> addr \<Rightarrow> addr \<Rightarrow> nat \<Rightarrow> mem \<Rightarrow> mem" where
  "swap_word tmp out inp ivec n m =
     (let c = load_word m (inp + n) 8 :: u64;
          m = store_word m (out + n) 8 (le_word (take 8 (drop n tmp)) XOR load_word m (ivec + n) 8 :: u64) in
      store_word m (ivec + n) 8 c)"

fun cbc_decrypt_tmp ::
  "bool \<Rightarrow> block128 \<Rightarrow> nat \<Rightarrow> addr \<Rightarrow> addr \<Rightarrow> addr \<Rightarrow> mem \<Rightarrow> nat \<times> addr \<times> addr \<times> mem" where
  "cbc_decrypt_tmp bytewise block len inp out ivec m =
     (if len \<ge> 16 then
        let tmp = block (load m inp 16);
            m = (if bytewise then fold (swap_byte tmp out inp ivec) [0..<16] m
              else fold (swap_word tmp out inp ivec) [0, 8] m) in
        cbc_decrypt_tmp bytewise block (len - 16) (inp + 16) (out + 16) ivec m
      else (len, inp, out, m))"

fun cbc_decrypt_rest :: "block128 \<Rightarrow> nat \<Rightarrow> addr \<Rightarrow> addr \<Rightarrow> addr \<Rightarrow> mem \<Rightarrow> mem" where
  "cbc_decrypt_rest block len inp out ivec m =
     (if len = 0 then m
      else
        let tmp = block (load m inp 16);
            m = fold (swap_byte tmp out inp ivec) [0..<min 16 len] m in
        if len \<le> 16 then fold (\<lambda>n m. m(ivec + n := m (inp + n))) [len..<16] m
        else cbc_decrypt_rest block (len - 16) (inp + 16) (out + 16) ivec m)"

definition CRYPTO_cbc128_decrypt ::
  "bool \<Rightarrow> addr \<Rightarrow> addr \<Rightarrow> nat \<Rightarrow> addr \<Rightarrow> block128 \<Rightarrow> (mem, unit) prog" where
  "CRYPTO_cbc128_decrypt strict inp out len ivec block = (\<lambda>m.
     if ivec = 0 \<or> \<not> (len = 0 \<or> inp \<noteq> 0 \<and> out \<noteq> 0) then (Stuck, m)
     else if \<not> (inp \<ge> out \<or> inp + len \<le> out) then (Stuck, m)
     else
       let bytewise = unaligned strict inp out ivec;
           (len, inp, out, m) =
             (if inp \<ge> 32 \<and> out \<le> inp - 32 \<or> inp < out then
                let (len, inp, out, iv, m) = cbc_decrypt_direct bytewise block len inp out ivec m in
                (len, inp, out, store m ivec (load m iv 16))
              else cbc_decrypt_tmp bytewise block len inp out ivec m) in
       (Ret (), cbc_decrypt_rest block len inp out ivec m))"

section \<open>Counter mode\<close>

text \<open>The big-endian counters: a carry runs from the last of \<open>k\<close> bytes to the first.\<close>

definition inc_bytes :: "nat \<Rightarrow> addr \<Rightarrow> mem \<Rightarrow> mem" where
  "inc_bytes k counter m =
     snd (fold (\<lambda>n (c, m).
         let c = c + ucast (m (counter + n)) :: u32 in
         (drop_bit 8 c, m(counter + n := ucast c))) (rev [0..<k]) (1, m))"

definition ctr128_inc :: "addr \<Rightarrow> mem \<Rightarrow> mem" where
  "ctr128_inc counter m = inc_bytes 16 counter m"

definition ctr96_inc :: "addr \<Rightarrow> mem \<Rightarrow> mem" where
  "ctr96_inc counter m = inc_bytes 12 counter m"

text \<open>\<open>while (n && len)\<close>: the key stream that is left from the call before.\<close>

fun stream_head :: "nat \<Rightarrow> nat \<Rightarrow> addr \<Rightarrow> addr \<Rightarrow> addr \<Rightarrow> mem \<Rightarrow> nat \<times> nat \<times> addr \<times> addr \<times> mem" where
  "stream_head n len inp out ks m =
     (if n \<noteq> 0 \<and> len \<noteq> 0 then
        stream_head ((n + 1) mod 16) (len - 1) (inp + 1) (out + 1) ks
          (m(out := m inp XOR m (ks + n)))
      else (n, len, inp, out, m))"

text \<open>The loop for unaligned pointers on targets with strict alignment, \<open>len - l\<close> bytes before its end.\<close>

fun ctr_bytes :: "block128 \<Rightarrow> nat \<Rightarrow> nat \<Rightarrow> addr \<Rightarrow> addr \<Rightarrow> addr \<Rightarrow> addr \<Rightarrow> mem \<Rightarrow> nat \<times> mem" where
  "ctr_bytes block n 0 inp out ivec ecount m = (n, m)"
| "ctr_bytes block n (Suc len) inp out ivec ecount m =
     (let m = (if n = 0 then ctr128_inc ivec (call_block block ivec ecount m) else m);
          m = m(out := m inp XOR m (ecount + n)) in
      ctr_bytes block ((n + 1) mod 16) len (inp + 1) (out + 1) ivec ecount m)"

fun ctr_blocks ::
  "block128 \<Rightarrow> nat \<Rightarrow> nat \<Rightarrow> addr \<Rightarrow> addr \<Rightarrow> addr \<Rightarrow> addr \<Rightarrow> mem \<Rightarrow> nat \<times> nat \<times> addr \<times> addr \<times> mem" where
  "ctr_blocks block n len inp out ivec ecount m =
     (if len \<ge> 16 then
        let m = ctr128_inc ivec (call_block block ivec ecount m);
            m = fold (xor_word out inp ecount) [0, 8] m in
        ctr_blocks block 0 (len - 16) (inp + 16) (out + 16) ivec ecount m
      else (n, len, inp, out, m))"

definition CRYPTO_ctr128_encrypt ::
  "bool \<Rightarrow> addr \<Rightarrow> addr \<Rightarrow> nat \<Rightarrow> addr \<Rightarrow> addr \<Rightarrow> nat \<Rightarrow> block128 \<Rightarrow> (mem, nat) prog" where
  "CRYPTO_ctr128_encrypt strict inp out len ivec ecount num block = (\<lambda>m.
     if ecount = 0 \<or> \<not> (len = 0 \<or> inp \<noteq> 0 \<and> out \<noteq> 0) \<or> \<not> num < 16 then (Stuck, m)
     else
       let (n, len, inp, out, m) = stream_head num len inp out ecount m in
       if unaligned strict inp out ecount then
         (let (n, m) = ctr_bytes block n len inp out ivec ecount m in (Ret n, m))
       else
         let (n, len, inp, out, m) = ctr_blocks block n len inp out ivec ecount m in
         if len \<noteq> 0 then
           let m = ctr128_inc ivec (call_block block ivec ecount m) in
           (Ret (n + len), fold (xor_byte out inp ecount) [n..<n + len] m)
         else (Ret n, m))"

text \<open>
  The variant with a routine for several blocks, \<open>func blocks in out ivec\<close>, that counts with the last four
  bytes of the vector only.
\<close>

type_synonym ctr128 = "nat \<Rightarrow> addr \<Rightarrow> addr \<Rightarrow> addr \<Rightarrow> mem \<Rightarrow> mem"

definition GETU32 :: "mem \<Rightarrow> addr \<Rightarrow> u32" where
  "GETU32 m a = le_word (rev (load m a 4))"

definition PUTU32 :: "addr \<Rightarrow> u32 \<Rightarrow> mem \<Rightarrow> mem" where
  "PUTU32 a v m = store m a (rev (le_bytes 4 v))"

function ctr32_blocks ::
  "ctr128 \<Rightarrow> u32 \<Rightarrow> nat \<Rightarrow> addr \<Rightarrow> addr \<Rightarrow> addr \<Rightarrow> mem \<Rightarrow> u32 \<times> nat \<times> addr \<times> addr \<times> mem" where
  "ctr32_blocks func ctr32 len inp out ivec m =
     (if len \<ge> 16 then
        let blocks = min (len div 16) (2 ^ 28);
            ctr32 = ctr32 + of_nat blocks;
            (blocks, ctr32) = (if unat ctr32 < blocks then (blocks - unat ctr32, 0) else (blocks, ctr32));
            m = PUTU32 (ivec + 12) ctr32 (func blocks inp out ivec m);
            m = (if ctr32 = 0 then ctr96_inc ivec m else m);
            blocks = blocks * 16 in
        ctr32_blocks func ctr32 (len - blocks) (inp + blocks) (out + blocks) ivec m
      else (ctr32, len, inp, out, m))"
  by pat_completeness auto
termination
  by (relation "measure (\<lambda>(func, ctr32, len, rest). len)") (auto split: if_splits)

declare ctr32_blocks.simps [simp del]

definition CRYPTO_ctr128_encrypt_ctr32 ::
  "addr \<Rightarrow> addr \<Rightarrow> nat \<Rightarrow> addr \<Rightarrow> addr \<Rightarrow> nat \<Rightarrow> ctr128 \<Rightarrow> (mem, nat) prog" where
  "CRYPTO_ctr128_encrypt_ctr32 inp out len ivec ecount num func = (\<lambda>m.
     if ecount = 0 \<or> \<not> (len = 0 \<or> inp \<noteq> 0 \<and> out \<noteq> 0) \<or> \<not> num < 16 then (Stuck, m)
     else
       let (n, len, inp, out, m) = stream_head num len inp out ecount m;
           (ctr32, len, inp, out, m) = ctr32_blocks func (GETU32 m (ivec + 12)) len inp out ivec m in
       if len \<noteq> 0 then
         let m = func 1 ecount ecount ivec (store m ecount (replicate 16 0));
             ctr32 = ctr32 + 1;
             m = PUTU32 (ivec + 12) ctr32 m;
             m = (if ctr32 = 0 then ctr96_inc ivec m else m) in
         (Ret (n + len), fold (xor_byte out inp ecount) [n..<n + len] m)
       else (Ret n, m))"

section \<open>Output feedback\<close>

fun ofb_blocks ::
  "block128 \<Rightarrow> nat \<Rightarrow> nat \<Rightarrow> addr \<Rightarrow> addr \<Rightarrow> addr \<Rightarrow> mem \<Rightarrow> nat \<times> nat \<times> addr \<times> addr \<times> mem" where
  "ofb_blocks block n len inp out ivec m =
     (if len \<ge> 16 then
        let m = call_block block ivec ivec m;
            m = fold (xor_word out inp ivec) (filter (\<lambda>k. n \<le> k) [0, 8]) m in
        ofb_blocks block 0 (len - 16) (inp + 16) (out + 16) ivec m
      else (n, len, inp, out, m))"

definition CRYPTO_ofb128_encrypt ::
  "addr \<Rightarrow> addr \<Rightarrow> nat \<Rightarrow> addr \<Rightarrow> nat \<Rightarrow> block128 \<Rightarrow> (mem, nat) prog" where
  "CRYPTO_ofb128_encrypt inp out len ivec num block = (\<lambda>m.
     if inp = 0 \<or> out = 0 \<or> ivec = 0 then (Stuck, m)
     else
       let (n, len, inp, out, m) = stream_head num len inp out ivec m;
           (n, len, inp, out, m) = ofb_blocks block n len inp out ivec m in
       if len \<noteq> 0 then
         (Ret (n + len), fold (xor_byte out inp ivec) [n..<n + len] (call_block block ivec ivec m))
       else (Ret n, m))"

section \<open>Cipher feedback\<close>

text \<open>A byte of the feedback: the cipher text replaces the vector at \<open>n\<close>.\<close>

definition cfb_byte :: "bool \<Rightarrow> addr \<Rightarrow> addr \<Rightarrow> addr \<Rightarrow> nat \<Rightarrow> mem \<Rightarrow> mem" where
  "cfb_byte enc out inp ivec n m =
     (if enc then
        let c = m (ivec + n) XOR m inp in (m(ivec + n := c))(out := c)
      else
        let c = m inp in (m(out := m (ivec + n) XOR c))(ivec + n := c))"

definition cfb_word :: "bool \<Rightarrow> addr \<Rightarrow> addr \<Rightarrow> addr \<Rightarrow> nat \<Rightarrow> mem \<Rightarrow> mem" where
  "cfb_word enc out inp ivec n m =
     (if enc then
        let tmp = load_word m (ivec + n) 8 XOR load_word m (inp + n) 8 :: u64 in
        store_word (store_word m (ivec + n) 8 tmp) (out + n) 8 tmp
      else
        let t = load_word m (inp + n) 8 :: u64 in
        store_word (store_word m (out + n) 8 (load_word m (ivec + n) 8 XOR t)) (ivec + n) 8 t)"

fun cfb_head :: "bool \<Rightarrow> nat \<Rightarrow> nat \<Rightarrow> addr \<Rightarrow> addr \<Rightarrow> addr \<Rightarrow> mem \<Rightarrow> nat \<times> nat \<times> addr \<times> addr \<times> mem" where
  "cfb_head enc n len inp out ivec m =
     (if n \<noteq> 0 \<and> len \<noteq> 0 then
        cfb_head enc ((n + 1) mod 16) (len - 1) (inp + 1) (out + 1) ivec (cfb_byte enc out inp ivec n m)
      else (n, len, inp, out, m))"

fun cfb_bytes :: "bool \<Rightarrow> block128 \<Rightarrow> nat \<Rightarrow> nat \<Rightarrow> addr \<Rightarrow> addr \<Rightarrow> addr \<Rightarrow> mem \<Rightarrow> nat \<times> mem" where
  "cfb_bytes enc block n 0 inp out ivec m = (n, m)"
| "cfb_bytes enc block n (Suc len) inp out ivec m =
     (let m = (if n = 0 then call_block block ivec ivec m else m) in
      cfb_bytes enc block ((n + 1) mod 16) len (inp + 1) (out + 1) ivec (cfb_byte enc out inp ivec n m))"

fun cfb_blocks ::
  "bool \<Rightarrow> block128 \<Rightarrow> nat \<Rightarrow> nat \<Rightarrow> addr \<Rightarrow> addr \<Rightarrow> addr \<Rightarrow> mem \<Rightarrow> nat \<times> nat \<times> addr \<times> addr \<times> mem" where
  "cfb_blocks enc block n len inp out ivec m =
     (if len \<ge> 16 then
        let m = call_block block ivec ivec m;
            m = fold (cfb_word enc out inp ivec) (filter (\<lambda>k. n \<le> k) [0, 8]) m in
        cfb_blocks enc block 0 (len - 16) (inp + 16) (out + 16) ivec m
      else (n, len, inp, out, m))"

definition CRYPTO_cfb128_encrypt ::
  "bool \<Rightarrow> addr \<Rightarrow> addr \<Rightarrow> nat \<Rightarrow> addr \<Rightarrow> nat \<Rightarrow> bool \<Rightarrow> block128 \<Rightarrow> (mem, nat) prog" where
  "CRYPTO_cfb128_encrypt strict inp out len ivec num enc block = (\<lambda>m.
     if inp = 0 \<or> out = 0 \<or> ivec = 0 then (Stuck, m)
     else
       let (n, len, inp, out, m) = cfb_head enc num len inp out ivec m in
       if unaligned strict inp out ivec then
         (let (n, m) = cfb_bytes enc block n len inp out ivec m in (Ret n, m))
       else
         let (n, len, inp, out, m) = cfb_blocks enc block n len inp out ivec m in
         if len \<noteq> 0 then
           (Ret (n + len),
            fold (\<lambda>k. cfb_byte enc (out + k) (inp + k) ivec k) [n..<n + len] (call_block block ivec ivec m))
         else (Ret n, m))"

text \<open>
  Feedback of \<open>nbits\<close> bits. \<open>ovec\<close> is the old vector and the bytes of cipher text behind it; \<open>junk\<close> is what the
  array of 33 bytes held before. The block is given with its bytes and comes out as bytes, with the new vector: here
  the vector is not part of the input or the output.
\<close>

definition cfbr_encrypt_block ::
  "byte list \<Rightarrow> byte list \<Rightarrow> nat \<Rightarrow> bool \<Rightarrow> block128 \<Rightarrow> byte list \<Rightarrow> byte list \<times> byte list" where
  "cfbr_encrypt_block junk inp nbits enc block ivec =
     (if nbits = 0 \<or> nbits > 128 then ([], ivec)
      else
        let old = ivec;
            ivec = block ivec;
            num = (nbits + 7) div 8;
            out = map (\<lambda>n. inp ! n XOR ivec ! n) [0..<num];
            ovec = old @ (if enc then out else take num inp) @ drop (16 + num) junk;
            rem = nbits mod 8;
            num = nbits div 8 in
        (out,
         if rem = 0 then take 16 (drop num ovec)
         else map (\<lambda>n. push_bit rem (ovec ! (n + num)) OR drop_bit (8 - rem) (ovec ! (n + num + 1))) [0..<16]))"

definition CRYPTO_cfb128_1_encrypt ::
  "byte list \<Rightarrow> addr \<Rightarrow> addr \<Rightarrow> nat \<Rightarrow> addr \<Rightarrow> nat \<Rightarrow> bool \<Rightarrow> block128 \<Rightarrow> (mem, unit) prog" where
  "CRYPTO_cfb128_1_encrypt junk inp out bits ivec num enc block = (\<lambda>m.
     if inp = 0 \<or> out = 0 \<or> ivec = 0 \<or> num \<noteq> 0 then (Stuck, m)
     else (Ret (), fold (\<lambda>n m.
       let c = (if m (inp + n div 8) AND push_bit (7 - n mod 8) 1 \<noteq> 0 then 0x80 else 0);
           (d, iv) = cfbr_encrypt_block junk [c] 1 enc block (load m ivec 16);
           m = store m ivec iv in
       m(out + n div 8 := m (out + n div 8) AND NOT (push_bit (7 - n mod 8) 1) OR
         drop_bit (n mod 8) (d ! 0 AND 0x80))) [0..<bits] m))"

definition CRYPTO_cfb128_8_encrypt ::
  "byte list \<Rightarrow> addr \<Rightarrow> addr \<Rightarrow> nat \<Rightarrow> addr \<Rightarrow> nat \<Rightarrow> bool \<Rightarrow> block128 \<Rightarrow> (mem, unit) prog" where
  "CRYPTO_cfb128_8_encrypt junk inp out len ivec num enc block = (\<lambda>m.
     if inp = 0 \<or> out = 0 \<or> ivec = 0 \<or> num \<noteq> 0 then (Stuck, m)
     else (Ret (), fold (\<lambda>n m.
       let (d, iv) = cfbr_encrypt_block junk [m (inp + n)] 8 enc block (load m ivec 16) in
       store (store m (out + n) d) ivec iv) [0..<len] m))"

end
