(* ===== verification/Modes_Spec.thy ===== *)
theory Modes_Spec
  imports Modes
begin

text \<open>
  What the modes compute, on byte strings: cipher block chaining and its inverse, and the key streams of
  counter mode and of output and cipher feedback. The theorems hold for every overlap of input and output the
  functions allow.
\<close>

unbundle bit_operations_syntax

section \<open>Exclusive or of blocks\<close>

definition bxor :: "byte list \<Rightarrow> byte list \<Rightarrow> byte list" where
  "bxor as bs = map2 (XOR) as bs"

lemma length_bxor [simp]: "length (bxor as bs) = min (length as) (length bs)"
  by (simp add: bxor_def)

lemma nth_bxor [simp]: "i < length as \<Longrightarrow> i < length bs \<Longrightarrow> bxor as bs ! i = as ! i XOR bs ! i"
  by (simp add: bxor_def)

lemma bxor_Nil [simp]: "bxor [] bs = []" "bxor as [] = []"
  by (simp_all add: bxor_def)

lemma bxor_cancel: "length as \<le> length bs \<Longrightarrow> bxor (bxor as bs) bs = as"
  by (rule nth_equalityI) (simp_all add: xor.assoc)

lemma bxor_append: "length as = length bs \<Longrightarrow> bxor (as @ cs) (bs @ ds) = bxor as bs @ bxor cs ds"
  by (simp add: bxor_def)

lemma take_bxor: "take n (bxor as bs) = bxor (take n as) (take n bs)"
  by (simp add: bxor_def take_map take_zip)

lemma drop_bxor: "drop n (bxor as bs) = bxor (drop n as) (drop n bs)"
  by (simp add: bxor_def drop_map drop_zip)

lemma le_word_bxor:
  assumes "length as = length bs"
  shows "le_word (bxor as bs) = (le_word as XOR le_word bs :: 'a::len word)"
  by (rule bit_word_eqI) (use assms in \<open>auto simp: bit_simps bit_le_word\<close>)

text \<open>The bytes below \<open>k\<close> are done.\<close>

lemma store_snoc: "(store m a bs)(a + length bs := b) = store m a (bs @ [b])"
  by (auto simp: store_def fun_eq_iff nth_append)

lemma xor_bytes_eq:
  assumes "out \<le> inp \<or> inp + k \<le> out" and "out = iv \<or> iv + k \<le> out \<or> out + k \<le> iv"
  shows "fold (xor_byte out inp iv) [0..<k] m = store m out (bxor (load m inp k) (load m iv k))"
  using assms
proof (induction k)
  case (Suc k)
  let ?bs = "bxor (load m inp k) (load m iv k)"
  have IH: "fold (xor_byte out inp iv) [0..<k] m = store m out ?bs"
    using Suc by auto
  have "store m out ?bs (inp + k) = m (inp + k)"
    using Suc.prems(1) by (intro store_out) auto
  moreover have "store m out ?bs (iv + k) = m (iv + k)"
    using Suc.prems(2) by (intro store_out) auto
  moreover have "bxor (load m inp (Suc k)) (load m iv (Suc k)) = ?bs @ [m (inp + k) XOR m (iv + k)]"
    using load_append [of m inp k 1] load_append [of m iv k 1] by (simp add: bxor_append bxor_def [of "[_]"])
  ultimately have "xor_byte out inp iv k (store m out ?bs) =
      store m out (bxor (load m inp (Suc k)) (load m iv (Suc k)))"
    using store_snoc [of m out ?bs] by (simp add: xor_byte_def)
  then show ?case by (simp add: IH)
qed simp

lemma xor_word_eq: "xor_word out inp iv n m = store m (out + n) (bxor (load m (inp + n) 8) (load m (iv + n) 8))"
proof -
  have "le_bytes 8 (le_word (load m (inp + n) 8) XOR le_word (load m (iv + n) 8) :: u64) =
      bxor (load m (inp + n) 8) (load m (iv + n) 8)"
    by (simp add: le_word_bxor [symmetric] le_bytes_le_word)
  then show ?thesis
    by (simp add: xor_word_def store_word_def load_word_def)
qed

lemma xor_words_eq:
  assumes "out \<le> inp \<or> inp + 16 \<le> out" and "out = iv \<or> iv + 16 \<le> out \<or> out + 16 \<le> iv"
  shows "fold (xor_word out inp iv) [0, 8] m = store m out (bxor (load m inp 16) (load m iv 16))"
proof -
  let ?a = "bxor (load m inp 8) (load m iv 8)"
  have "load (store m out ?a) (inp + 8) 8 = load m (inp + 8) 8" "load (store m out ?a) (iv + 8) 8 = load m (iv + 8) 8"
    using assms by (auto intro!: load_store_disjoint)
  moreover have "bxor (load m inp 16) (load m iv 16) = ?a @ bxor (load m (inp + 8) 8) (load m (iv + 8) 8)"
    using load_append [of m inp 8 8] load_append [of m iv 8 8] by (simp add: bxor_append)
  ultimately show ?thesis
    using store_append [of m out ?a] by (simp add: xor_word_eq)
qed

lemma xor_block_eq:
  assumes "out \<le> inp \<or> inp + 16 \<le> out" and "out = iv \<or> iv + 16 \<le> out \<or> out + 16 \<le> iv"
  shows "xor_block bytewise out inp iv m = store m out (bxor (load m inp 16) (load m iv 16))"
  unfolding xor_block_def using xor_bytes_eq [OF assms] xor_words_eq [OF assms] by simp

section \<open>Cipher block chaining\<close>

text \<open>The mode on byte strings; the new vector is the end of the old one followed by the cipher text.\<close>

fun cbc_enc :: "block128 \<Rightarrow> nat \<Rightarrow> byte list \<Rightarrow> byte list \<Rightarrow> byte list" where
  "cbc_enc block 0 iv p = []"
| "cbc_enc block (Suc k) iv p = (let c = block (bxor (take 16 p) iv) in c @ cbc_enc block k c (drop 16 p))"

fun cbc_dec :: "block128 \<Rightarrow> nat \<Rightarrow> byte list \<Rightarrow> byte list \<Rightarrow> byte list" where
  "cbc_dec block 0 iv c = []"
| "cbc_dec block (Suc k) iv c = bxor (block (take 16 c)) iv @ cbc_dec block k (take 16 c) (drop 16 c)"

definition block_function :: "block128 \<Rightarrow> bool" where
  "block_function block \<longleftrightarrow> (\<forall>x. length x = 16 \<longrightarrow> length (block x) = 16)"

definition apart :: "addr \<Rightarrow> nat \<Rightarrow> addr \<Rightarrow> nat \<Rightarrow> bool" where
  "apart a n b k \<longleftrightarrow> a + n \<le> b \<or> b + k \<le> a"

lemma upd_store: "m(a := b) = store m a [b]"
  by (auto simp: store_def fun_eq_iff)

lemma load_apart: "apart a n b (length bs) \<Longrightarrow> load (store m b bs) a n = load m a n"
  by (auto simp: apart_def intro: load_store_disjoint)

lemma store_apart: "apart a (length as) b (length bs) \<Longrightarrow> store (store m a as) b bs = store (store m b bs) a as"
  by (auto simp: apart_def intro: store_commute)

lemma block_length: "block_function block \<Longrightarrow> length x = 16 \<Longrightarrow> length (block x) = 16"
  by (simp add: block_function_def)

lemma length_cbc_enc:
  "block_function block \<Longrightarrow> length iv = 16 \<Longrightarrow> length p = 16 * k \<Longrightarrow> length (cbc_enc block k iv p) = 16 * k"
  by (induction k arbitrary: iv p) (simp_all add: Let_def block_length)

lemma length_cbc_dec:
  "block_function block \<Longrightarrow> length iv = 16 \<Longrightarrow> length c = 16 * k \<Longrightarrow> length (cbc_dec block k iv c) = 16 * k"
  by (induction k arbitrary: iv c) (simp_all add: block_length)

lemma cbc_dec_enc:
  assumes "block_function e" and "\<And>x. length x = 16 \<Longrightarrow> d (e x) = x"
  shows "length iv = 16 \<Longrightarrow> length p = 16 * k \<Longrightarrow> cbc_dec d k iv (cbc_enc e k iv p) = p"
proof (induction k arbitrary: iv p)
  case (Suc k)
  let ?c = "e (bxor (take 16 p) iv)"
  have x: "length (bxor (take 16 p) iv) = 16" "length ?c = 16"
    using Suc.prems block_length [OF assms(1)] by simp_all
  then show ?case
    using Suc assms(2) [OF x(1)] by (simp add: Let_def bxor_cancel)
qed simp

lemma call_block_same:
  "length x = 16 \<Longrightarrow> block_function block \<Longrightarrow> call_block block a a (store m a x) = store m a (block x)"
  by (simp add: call_block_def store_store_same block_length)

declare cbc_encrypt_blocks.simps [simp del] cbc_encrypt_rest.simps [simp del] cbc_decrypt_direct.simps [simp del]
  cbc_decrypt_tmp.simps [simp del] cbc_decrypt_rest.simps [simp del]

lemma cbc_encrypt_blocks_eq:
  assumes "block_function block"
  shows "out \<le> inp \<or> inp + 16 * k \<le> out \<Longrightarrow> apart iv 16 out (16 * k) \<Longrightarrow>
    \<exists>iv'. cbc_encrypt_blocks bytewise block (16 * k) inp out iv m =
        (0, inp + 16 * k, out + 16 * k, iv', store m out (cbc_enc block k (load m iv 16) (load m inp (16 * k)))) \<and>
      load (store m out (cbc_enc block k (load m iv 16) (load m inp (16 * k)))) iv' 16 =
        drop (16 * k) (load m iv 16 @ cbc_enc block k (load m iv 16) (load m inp (16 * k)))"
proof (induction k arbitrary: inp out iv m)
  case 0
  show ?case by (subst cbc_encrypt_blocks.simps) simp
next
  case (Suc k)
  define c where "c = block (bxor (load m inp 16) (load m iv 16))"
  let ?m = "store m out c"
  have c: "length c = 16" using assms by (simp add: c_def block_length)
  have m: "call_block block out out (xor_block bytewise out inp iv m) = ?m"
    using Suc.prems assms
    by (subst xor_block_eq) (auto simp: apart_def call_block_same c_def)
  have iv: "load ?m out 16 = c" using c by simp
  have rest: "load ?m (inp + 16) (16 * k) = load m (inp + 16) (16 * k)"
    using Suc.prems(1) c by (intro load_store_disjoint) auto
  have "out + 16 \<le> inp + 16 \<or> inp + 16 + 16 * k \<le> out + 16" "apart out 16 (out + 16) (16 * k)"
    using Suc.prems(1) by (auto simp: apart_def)
  from Suc.IH [OF this, of ?m, unfolded iv rest]
  show ?case
    using store_append [of m out c] c
    by (subst cbc_encrypt_blocks.simps) (simp add: m Let_def c_def [symmetric] min_def add.assoc)
qed

lemma cbc_encrypt_rest_0: "cbc_encrypt_rest block 0 inp out iv m = (iv, m)"
  by (subst cbc_encrypt_rest.simps) simp

lemma cbc128_encrypt_eq:
  assumes "block_function block" and "out \<le> inp \<or> inp + 16 * k \<le> out" and "apart ivec 16 out (16 * k)"
    and "0 < inp" "0 < out" "0 < ivec"
  shows "CRYPTO_cbc128_encrypt strict inp out (16 * k) ivec block m =
    (let c = cbc_enc block k (load m ivec 16) (load m inp (16 * k)) in
     (Ret (), store (store m out c) ivec (drop (16 * k) (load m ivec 16 @ c))))"
proof -
  from cbc_encrypt_blocks_eq [OF assms(1-3), of "unaligned strict inp out ivec" m] show ?thesis
    using assms(4-) by (auto simp: CRYPTO_cbc128_encrypt_def cbc_encrypt_rest_0 Let_def)
qed

lemma cbc_decrypt_direct_eq:
  assumes "block_function block"
  shows "out + 32 \<le> inp \<or> inp + 16 * k \<le> out \<Longrightarrow> k = 0 \<or> apart iv 16 out 16 \<Longrightarrow>
    \<exists>iv'. cbc_decrypt_direct bytewise block (16 * k) inp out iv m =
        (0, inp + 16 * k, out + 16 * k, iv', store m out (cbc_dec block k (load m iv 16) (load m inp (16 * k)))) \<and>
      load (store m out (cbc_dec block k (load m iv 16) (load m inp (16 * k)))) iv' 16 =
        drop (16 * k) (load m iv 16 @ load m inp (16 * k))"
proof (induction k arbitrary: inp out iv m)
  case 0
  show ?case by (subst cbc_decrypt_direct.simps) simp
next
  case (Suc k)
  define p where "p = bxor (block (load m inp 16)) (load m iv 16)"
  let ?m = "store m out p" and ?t = "block (load m inp 16)"
  have p: "length p = 16" "length ?t = 16" using assms by (simp_all add: p_def block_length)
  have "apart iv 16 out 16" using Suc.prems(2) by simp
  then have m: "xor_block bytewise out out iv (call_block block inp out m) = ?m"
    using p by (subst xor_block_eq) (auto simp: apart_def call_block_def load_store_disjoint store_store_same p_def)
  have iv: "load ?m inp 16 = load m inp 16"
    using Suc.prems(1) p by (intro load_store_disjoint) auto
  have rest: "load ?m (inp + 16) (16 * k) = load m (inp + 16) (16 * k)"
    using Suc.prems(1) p by (intro load_store_disjoint) auto
  have "out + 16 + 32 \<le> inp + 16 \<or> inp + 16 + 16 * k \<le> out + 16" "k = 0 \<or> apart inp 16 (out + 16) 16"
    using Suc.prems(1) by (auto simp: apart_def)
  note IH = Suc.IH [OF this, of ?m, unfolded iv rest]
  have "load m inp (16 * Suc k) = load m inp 16 @ load m (inp + 16) (16 * k)"
    using load_append [of m inp 16 "16 * k"] by simp
  with IH show ?case
    using store_append [of m out p] p
    by (subst cbc_decrypt_direct.simps) (simp add: m Let_def p_def [symmetric] min_def add.assoc)
qed

text \<open>Two areas that grow in turn.\<close>

lemma store_both:
  assumes "apart b (length bs) (a + length as) (length as')" and "a' = a + length as" and "b' = b + length bs"
  shows "store (store (store (store m a as) b bs) a' as') b' bs' = store (store m a (as @ as')) b (bs @ bs')"
proof -
  have "store (store (store m a as) b bs) a' as' = store (store (store m a as) a' as') b bs"
    using store_apart [OF assms(1)] assms(2) by simp
  also have "store (store m a as) a' as' = store m a (as @ as')"
    using store_append [of m a as as'] assms(2) by simp
  finally show ?thesis
    using store_append [of "store m a (as @ as')" b bs bs'] assms(3) by simp
qed

lemma swap_bytes_eq:
  assumes "out \<le> inp" and "apart ivec 16 inp 16" and "apart ivec 16 out 16" and "length tmp = 16"
  shows "k \<le> 16 \<Longrightarrow> fold (swap_byte tmp out inp ivec) [0..<k] m =
    store (store m out (bxor (take k tmp) (load m ivec k))) ivec (load m inp k)"
proof (induction k)
  case (Suc k)
  let ?bs = "bxor (take k tmp) (load m ivec k)"
  let ?m = "store (store m out ?bs) ivec (load m inp k)"
  have k: "length ?bs = k" using Suc.prems assms(4) by simp
  have "?m (inp + k) = m (inp + k)" "?m (ivec + k) = m (ivec + k)"
    using Suc.prems assms k by (auto simp: apart_def store_def)
  then have "swap_byte tmp out inp ivec k ?m =
      store (store ?m (out + k) [tmp ! k XOR m (ivec + k)]) (ivec + k) [m (inp + k)]"
    by (simp add: swap_byte_def Let_def upd_store)
  also have "\<dots> = store (store m out (?bs @ [tmp ! k XOR m (ivec + k)])) ivec (load m inp k @ [m (inp + k)])"
    using Suc.prems assms(3) k by (intro store_both) (auto simp: apart_def)
  also have "?bs @ [tmp ! k XOR m (ivec + k)] = bxor (take (Suc k) tmp) (load m ivec (Suc k))"
    using Suc.prems assms(4) load_append [of m ivec k 1]
    by (simp add: take_Suc_conv_app_nth bxor_append) (simp add: bxor_def)
  also have "load m inp k @ [m (inp + k)] = load m inp (Suc k)"
    using load_append [of m inp k 1] by simp
  finally have step: "swap_byte tmp out inp ivec k ?m =
      store (store m out (bxor (take (Suc k) tmp) (load m ivec (Suc k)))) ivec (load m inp (Suc k))" .
  have "fold (swap_byte tmp out inp ivec) [0..<k] m = ?m"
    using Suc.prems by (intro Suc.IH) simp
  then show ?case using step by simp
qed simp

lemma swap_word_eq:
  assumes "length tmp = 16" and "n + 8 \<le> 16" and "apart ivec 16 out 16"
  shows "swap_word tmp out inp ivec n m =
    store (store m (out + n) (bxor (take 8 (drop n tmp)) (load m (ivec + n) 8))) (ivec + n) (load m (inp + n) 8)"
proof -
  have "le_bytes 8 (le_word (take 8 (drop n tmp)) XOR le_word (load m (ivec + n) 8) :: u64) =
      bxor (take 8 (drop n tmp)) (load m (ivec + n) 8)"
    using assms by (simp add: le_word_bxor [symmetric] le_bytes_le_word)
  then show ?thesis
    by (simp add: swap_word_def store_word_def load_word_def le_bytes_le_word Let_def)
qed

lemma swap_words_eq:
  assumes "out \<le> inp" and "apart ivec 16 inp 16" and "apart ivec 16 out 16" and "length tmp = 16"
  shows "fold (swap_word tmp out inp ivec) [0, 8] m = store (store m out (bxor tmp (load m ivec 16))) ivec (load m inp 16)"
proof -
  let ?a = "bxor (take 8 tmp) (load m ivec 8)" and ?b = "bxor (drop 8 tmp) (load m (ivec + 8) 8)"
  let ?m = "store (store m out ?a) ivec (load m inp 8)"
  have "load ?m (inp + 8) 8 = load m (inp + 8) 8" "load ?m (ivec + 8) 8 = load m (ivec + 8) 8"
    using assms by (auto simp: load_store_disjoint apart_def)
  then have "swap_word tmp out inp ivec 8 ?m = store (store ?m (out + 8) ?b) (ivec + 8) (load m (inp + 8) 8)"
    using assms by (simp add: swap_word_eq)
  also have "\<dots> = store (store m out (?a @ ?b)) ivec (load m inp 8 @ load m (inp + 8) 8)"
    using assms by (intro store_both) (auto simp: apart_def)
  also have "?a @ ?b = bxor tmp (load m ivec 16)"
    using load_append [of m ivec 8 8] bxor_append [of "take 8 tmp" "load m ivec 8" "drop 8 tmp"] assms(4) by simp
  finally show ?thesis
    using assms load_append [of m inp 8 8] by (simp add: swap_word_eq)
qed

lemma cbc_decrypt_tmp_eq:
  assumes "block_function block"
  shows "out \<le> inp \<Longrightarrow> apart ivec 16 inp (16 * k) \<Longrightarrow> apart ivec 16 out (16 * k) \<Longrightarrow>
    cbc_decrypt_tmp bytewise block (16 * k) inp out ivec m =
      (0, inp + 16 * k, out + 16 * k,
       store (store m out (cbc_dec block k (load m ivec 16) (load m inp (16 * k)))) ivec
         (drop (16 * k) (load m ivec 16 @ load m inp (16 * k))))"
proof (induction k arbitrary: inp out m)
  case 0
  show ?case by (subst cbc_decrypt_tmp.simps) (simp add: store_load_id)
next
  case (Suc k)
  define x where "x = load m inp 16"
  define p where "p = bxor (block x) (load m ivec 16)"
  let ?m = "store (store m out p) ivec x"
  have p: "length p = 16" "length (block x) = 16" "length x = 16"
    using assms by (simp_all add: p_def x_def block_length)
  have ap: "apart ivec 16 inp 16" "apart ivec 16 out 16" "apart ivec 16 (inp + 16) (16 * k)" "apart ivec 16 (out + 16) (16 * k)"
    using Suc.prems by (auto simp: apart_def)
  have m: "(if bytewise then fold (swap_byte (block x) out inp ivec) [0..<16] m
      else fold (swap_word (block x) out inp ivec) [0, 8] m) = ?m"
    using swap_bytes_eq [OF Suc.prems(1) ap(1,2) p(2), of 16 m] swap_words_eq [OF Suc.prems(1) ap(1,2) p(2), of m] p
    by (simp add: p_def x_def)
  have iv: "load ?m ivec 16 = x" using p by simp
  have rest: "load ?m (inp + 16) (16 * k) = load m (inp + 16) (16 * k)"
    using Suc.prems ap p by (auto simp: load_store_disjoint apart_def)
  have "out + 16 \<le> inp + 16" using Suc.prems(1) by simp
  note IH = Suc.IH [OF this ap(3,4), of ?m, unfolded iv rest]
  let ?q = "cbc_dec block k x (load m (inp + 16) (16 * k))"
  let ?v = "drop (16 * k) (x @ load m (inp + 16) (16 * k))"
  have q: "length ?q = 16 * k" using assms p by (intro length_cbc_dec) simp_all
  have v: "length ?v = 16" using p by simp
  have "store (store ?m (out + 16) ?q) ivec ?v = store (store (store m out p) (out + 16) ?q) ivec ?v"
    using ap(4) p q v store_apart [of ivec x "out + 16" ?q "store m out p"] by (simp add: store_store_same)
  also have "store (store m out p) (out + 16) ?q = store m out (p @ ?q)"
    using store_append [of m out p] p by simp
  finally have st: "store (store ?m (out + 16) ?q) ivec ?v = store (store m out (p @ ?q)) ivec ?v" .
  have "load m inp (16 * Suc k) = x @ load m (inp + 16) (16 * k)"
    using load_append [of m inp 16 "16 * k"] by (simp add: x_def)
  then have split: "cbc_dec block (Suc k) (load m ivec 16) (load m inp (16 * Suc k)) = p @ ?q"
    "drop (16 * Suc k) (load m ivec 16 @ load m inp (16 * Suc k)) = ?v"
    using p by (simp_all add: p_def)
  show ?case
    unfolding split st [symmetric]
    by (subst cbc_decrypt_tmp.simps) (simp add: x_def [symmetric] Let_def m IH add.assoc)
qed

lemma cbc_decrypt_rest_0: "cbc_decrypt_rest block 0 inp out iv m = m"
  by (subst cbc_decrypt_rest.simps) simp

lemma cbc128_decrypt_eq:
  assumes "block_function block" and "out \<le> inp \<or> inp + 16 * k \<le> out"
    and "apart ivec 16 inp (16 * k)" and "apart ivec 16 out (16 * k)"
    and "0 < inp" "0 < out" "0 < ivec"
  shows "CRYPTO_cbc128_decrypt strict inp out (16 * k) ivec block m =
    (let c = load m inp (16 * k) in
     (Ret (), store (store m out (cbc_dec block k (load m ivec 16) c)) ivec (drop (16 * k) (load m ivec 16 @ c))))"
proof (cases "inp \<ge> 32 \<and> out \<le> inp - 32 \<or> inp < out")
  case True
  then have "out + 32 \<le> inp \<or> inp + 16 * k \<le> out" "k = 0 \<or> apart ivec 16 out 16"
    using assms(2,4) by (auto simp: apart_def)
  from cbc_decrypt_direct_eq [OF assms(1) this, of "unaligned strict inp out ivec" m] True show ?thesis
    using assms(2,5-) by (auto simp: CRYPTO_cbc128_decrypt_def cbc_decrypt_rest_0 Let_def)
next
  case False
  then have "out \<le> inp" using assms(2) by auto
  from cbc_decrypt_tmp_eq [OF assms(1) this assms(3,4), of "unaligned strict inp out ivec" m] False show ?thesis
    using assms(2,5-) by (auto simp: CRYPTO_cbc128_decrypt_def cbc_decrypt_rest_0 Let_def)
qed

section \<open>The properties\<close>

text \<open>C38: For every input and output the functions allow, in place, moved to lower addresses by any distance or to a
  disjoint place, and aligned or not, CBC encryption and decryption of whole blocks write the cipher text and the plain
  text of the mode over the original input, and leave the last block of cipher text as the next vector.\<close>

theorem cbc_any_overlap:
  assumes "block_function enc" and "block_function dec"
    and "out \<le> inp \<or> inp + 16 * k \<le> out"
    and "apart ivec 16 inp (16 * k)" and "apart ivec 16 out (16 * k)"
    and "0 < inp" "0 < out" "0 < ivec"
  shows "CRYPTO_cbc128_encrypt strict inp out (16 * k) ivec enc m =
      (let c = cbc_enc enc k (load m ivec 16) (load m inp (16 * k)) in
       (Ret (), store (store m out c) ivec (drop (16 * k) (load m ivec 16 @ c)))) \<and>
    CRYPTO_cbc128_decrypt strict inp out (16 * k) ivec dec m =
      (let c = load m inp (16 * k) in
       (Ret (), store (store m out (cbc_dec dec k (load m ivec 16) c)) ivec (drop (16 * k) (load m ivec 16 @ c))))"
  using cbc128_encrypt_eq [OF assms(1,3,5-8)] cbc128_decrypt_eq [OF assms(2-)] by simp

lemma cbc_any_overlap_witness:
  "CRYPTO_cbc128_decrypt False 1016 1000 32 2000 rev (\<lambda>a. of_nat a) =
    (Ret (), store (store (\<lambda>a. of_nat a) 1000
      (cbc_dec rev 2 (load (\<lambda>a. of_nat a) 2000 16) (load (\<lambda>a. of_nat a) 1016 32))) 2000 (load (\<lambda>a. of_nat a) 1032 16))"
  using cbc_any_overlap [of rev rev 1000 1016 2 2000 False "\<lambda>a. of_nat a"]
  by (simp add: block_function_def apart_def)

text \<open>Decrypting in place, with the original vector, what was encrypted in place restores the data.\<close>

theorem cbc_round_trip:
  assumes "block_function enc" and "block_function dec" and "\<And>x. length x = 16 \<Longrightarrow> dec (enc x) = x"
    and "apart ivec 16 a (16 * k)" and "0 < a" "0 < ivec" and "length v = 16"
  shows "\<exists>m1 m2. CRYPTO_cbc128_encrypt strict a a (16 * k) ivec enc (store m ivec v) = (Ret (), m1) \<and>
    CRYPTO_cbc128_decrypt strict' a a (16 * k) ivec dec (store m1 ivec v) = (Ret (), m2) \<and>
    load m2 a (16 * k) = load m a (16 * k)"
proof -
  define p where "p = load m a (16 * k)"
  let ?c = "cbc_enc enc k v p"
  have ap: "apart a (16 * k) ivec 16" using assms(4) by (auto simp: apart_def)
  have c: "length ?c = 16 * k"
    using assms(1,7) by (intro length_cbc_enc) (simp_all add: p_def)
  have p: "load (store m ivec v) a (16 * k) = p"
    unfolding p_def using ap assms(7) by (intro load_apart) simp
  have v: "length (drop (16 * k) (v @ ?c)) = 16" using c assms(7) by simp
  define m1 where "m1 = store (store (store m ivec v) a ?c) ivec (drop (16 * k) (v @ ?c))"
  have enc: "CRYPTO_cbc128_encrypt strict a a (16 * k) ivec enc (store m ivec v) = (Ret (), m1)"
    using assms(4-7) by (subst cbc128_encrypt_eq [OF assms(1)]) (simp_all add: Let_def p m1_def)
  have c1: "load (store m1 ivec v) a (16 * k) = ?c"
    using ap v assms(7) c by (simp add: load_apart m1_def)
  have "CRYPTO_cbc128_decrypt strict' a a (16 * k) ivec dec (store m1 ivec v) =
      (Ret (), store (store (store m1 ivec v) a p) ivec (drop (16 * k) (v @ ?c)))"
    using assms(4-7) cbc_dec_enc [OF assms(1,3), of v p k]
    by (subst cbc128_decrypt_eq [OF assms(2)]) (simp_all add: Let_def c1 p_def)
  moreover have "load (store (store (store m1 ivec v) a p) ivec (drop (16 * k) (v @ ?c))) a (16 * k) = p"
    using ap v by (simp add: load_apart p_def)
  ultimately show ?thesis using enc p_def by blast
qed

lemma cbc_round_trip_witness:
  "\<exists>m1 m2. CRYPTO_cbc128_encrypt True 1001 1001 48 2000 rev (store (\<lambda>_. 7) 2000 (replicate 16 1)) = (Ret (), m1) \<and>
    CRYPTO_cbc128_decrypt False 1001 1001 48 2000 rev (store m1 2000 (replicate 16 1)) = (Ret (), m2) \<and>
    load m2 1001 48 = load (\<lambda>_. 7) 1001 48"
  using cbc_round_trip [of rev rev 2000 1001 3 "replicate 16 1" True "\<lambda>_. 7" False]
  by (simp add: block_function_def apart_def)

end
