(* ===== verification/Modes_Stream.thy ===== *)
theory Modes_Stream
  imports Modes_Spec Der
begin

text \<open>
  The modes that turn a block cipher into a stream: counter mode, output feedback and cipher feedback. Each is
  first shown to be the loop over single bytes that the code itself has for targets with strict alignment. The loop is then
  a key stream at a position: the contract of the state of a mode is the locale \<open>key_stream\<close>. A call
  at position \<open>p\<close> encrypts with the stream from \<open>p\<close> on and leaves the state of the position behind the data, so
  the chunks in which data comes do not matter.
\<close>

unbundle bit_operations_syntax

section \<open>The loop over bytes\<close>

fun byte_loop ::
  "(mem \<Rightarrow> mem) \<Rightarrow> (nat \<Rightarrow> addr \<Rightarrow> addr \<Rightarrow> mem \<Rightarrow> mem) \<Rightarrow> nat \<Rightarrow> nat \<Rightarrow> addr \<Rightarrow> addr \<Rightarrow> mem \<Rightarrow> nat \<times> mem" where
  "byte_loop refill step n 0 inp out m = (n, m)"
| "byte_loop refill step n (Suc len) inp out m =
     byte_loop refill step ((n + 1) mod 16) len (inp + 1) (out + 1)
       (step n inp out (if n = 0 then refill m else m))"

text \<open>Up to the end of a block there is no refill.\<close>

lemma byte_loop_run:
  assumes "0 < n" and "n < 16"
  shows "n + k \<le> 16 \<Longrightarrow> byte_loop refill step n (k + len) inp out m =
    byte_loop refill step ((n + k) mod 16) len (inp + k) (out + k)
      (fold (\<lambda>i. step (n + i) (inp + i) (out + i)) [0..<k] m)"
  using assms
proof (induction k arbitrary: n inp out m)
  case 0
  then show ?case by simp
next
  case (Suc k)
  have shift: "fold (\<lambda>i. step (n + i) (inp + i) (out + i)) [0..<Suc k] m =
      fold (\<lambda>i. step (n + 1 + i) (inp + 1 + i) (out + 1 + i)) [0..<k] (step n inp out m)"
    unfolding upt_conv_Cons [OF zero_less_Suc] map_Suc_upt [symmetric] fold.simps fold_map comp_def by simp
  show ?case
  proof (cases "k = 0")
    case True
    then show ?thesis using Suc.prems by simp
  next
    case False
    then show ?thesis
      using Suc.IH [of "n + 1" "inp + 1" "out + 1" "step n inp out m"] Suc.prems by (simp add: shift del: upt_Suc)
  qed
qed

lemma byte_loop_tail:
  assumes "k \<le> 16"
  shows "byte_loop refill step 0 (k + len) inp out m =
    (if k = 0 then byte_loop refill step 0 len inp out m
     else byte_loop refill step (k mod 16) len (inp + k) (out + k)
      (fold (\<lambda>i. step i (inp + i) (out + i)) [0..<k] (refill m)))"
proof (cases k)
  case (Suc j)
  have shift: "fold (\<lambda>i. step i (inp + i) (out + i)) [0..<Suc j] (refill m) =
      fold (\<lambda>i. step (1 + i) (inp + 1 + i) (out + 1 + i)) [0..<j] (step 0 inp out (refill m))"
    unfolding upt_conv_Cons [OF zero_less_Suc] map_Suc_upt [symmetric] fold.simps fold_map comp_def by simp
  show ?thesis
    using byte_loop_run [of 1 j refill step len "inp + 1" "out + 1" "step 0 inp out (refill m)"] assms
    by (simp add: Suc shift del: upt_Suc)
qed simp

definition stream_step :: "addr \<Rightarrow> nat \<Rightarrow> addr \<Rightarrow> addr \<Rightarrow> mem \<Rightarrow> mem" where
  "stream_step ks n inp out m = m(out := m inp XOR m (ks + n))"

lemma stream_steps: "fold (\<lambda>i. stream_step ks i (inp + i) (out + i)) = fold (xor_byte out inp ks)"
  by (intro arg_cong [of _ _ fold] ext) (simp add: stream_step_def xor_byte_def)

declare stream_head.simps [simp del] ctr_blocks.simps [simp del] ofb_blocks.simps [simp del]
  cfb_head.simps [simp del] cfb_blocks.simps [simp del]

text \<open>The pointers after a part of the data.\<close>

definition advanced :: "nat \<Rightarrow> addr \<Rightarrow> addr \<Rightarrow> nat \<Rightarrow> addr \<Rightarrow> addr \<Rightarrow> bool" where
  "advanced len inp out len' inp' out' \<longleftrightarrow> (\<exists>k. len = k + len' \<and> inp' = inp + k \<and> out' = out + k)"

lemma advanced_refl [simp]: "advanced len inp out len inp out"
  by (simp add: advanced_def)

lemma advanced_Suc: "advanced len (inp + 1) (out + 1) len' inp' out' \<Longrightarrow> advanced (Suc len) inp out len' inp' out'"
  unfolding advanced_def by (metis add.assoc add_Suc plus_1_eq_Suc)

lemma advanced_16: "advanced (len - 16) (inp + 16) (out + 16) len' inp' out' \<Longrightarrow> 16 \<le> len \<Longrightarrow> advanced len inp out len' inp' out'"
proof -
  assume "16 \<le> len" and "advanced (len - 16) (inp + 16) (out + 16) len' inp' out'"
  then obtain k where "len - 16 = k + len'" "inp' = inp + 16 + k" "out' = out + 16 + k"
    by (auto simp: advanced_def)
  then have "len = (16 + k) + len' \<and> inp' = inp + (16 + k) \<and> out' = out + (16 + k)"
    using \<open>16 \<le> len\<close> by simp
  then show ?thesis unfolding advanced_def by blast
qed

definition overlap_ok :: "nat \<Rightarrow> addr \<Rightarrow> addr \<Rightarrow> bool" where
  "overlap_ok len inp out \<longleftrightarrow> out \<le> inp \<or> inp + len \<le> out"

lemma advanced_ok:
  "advanced len inp out len' inp' out' \<Longrightarrow> overlap_ok len inp out \<Longrightarrow> overlap_ok len' inp' out'"
  by (auto simp: advanced_def overlap_ok_def)

lemma advanced_apart:
  "advanced len inp out len' inp' out' \<Longrightarrow> apart a n out len \<Longrightarrow> apart a n out' len'"
  "advanced len inp out len' inp' out' \<Longrightarrow> apart a n inp len \<Longrightarrow> apart a n inp' len'"
  by (auto simp: advanced_def apart_def)

text \<open>The loop to the end of the block of the call before, for any step.\<close>

fun byte_head ::
  "(nat \<Rightarrow> addr \<Rightarrow> addr \<Rightarrow> mem \<Rightarrow> mem) \<Rightarrow> nat \<Rightarrow> nat \<Rightarrow> addr \<Rightarrow> addr \<Rightarrow> mem \<Rightarrow> nat \<times> nat \<times> addr \<times> addr \<times> mem" where
  "byte_head step n 0 inp out m = (n, 0, inp, out, m)"
| "byte_head step n (Suc len) inp out m =
     (if n \<noteq> 0 then byte_head step ((n + 1) mod 16) len (inp + 1) (out + 1) (step n inp out m)
      else (n, Suc len, inp, out, m))"

lemma stream_head_eq: "stream_head n len inp out ks m = byte_head (stream_step ks) n len inp out m"
proof (induction len arbitrary: n inp out m)
  case 0
  show ?case by (subst stream_head.simps) simp
next
  case (Suc len)
  show ?case
    by (subst stream_head.simps) (simp add: Suc [symmetric] stream_step_def fun_upd_def)
qed

lemma byte_head_loop:
  assumes "byte_head step n len inp out m = (n', len', inp', out', m')" and "n < 16"
  shows "byte_loop refill step n len inp out m = byte_loop refill step n' len' inp' out' m' \<and>
    (n' = 0 \<or> len' = 0) \<and> n' < 16 \<and> advanced len inp out len' inp' out'"
  using assms
proof (induction len arbitrary: n inp out m)
  case (Suc len)
  show ?case
  proof (cases "n = 0")
    case False
    then show ?thesis
      using Suc advanced_Suc [of len inp out] by simp
  qed (use Suc.prems in auto)
qed auto

lemma ctr_bytes_loop:
  "ctr_bytes block n len inp out ivec ecount m =
    byte_loop (\<lambda>m. ctr128_inc ivec (call_block block ivec ecount m)) (stream_step ecount) n len inp out m"
  by (induction len arbitrary: n inp out m) (simp_all only: ctr_bytes.simps byte_loop.simps Let_def stream_step_def)

text \<open>A block of words is a block of bytes.\<close>

lemma stream_block:
  assumes "overlap_ok 16 inp out" and "apart ks 16 out 16"
  shows "byte_loop refill (stream_step ks) 0 (16 + len) inp out m =
    byte_loop refill (stream_step ks) 0 len (inp + 16) (out + 16) (fold (xor_word out inp ks) [0, 8] (refill m))"
proof -
  have "fold (xor_word out inp ks) [0, 8] (refill m) = fold (xor_byte out inp ks) [0..<16] (refill m)"
    using assms xor_words_eq [of out inp ks "refill m"] xor_bytes_eq [of out inp 16 ks "refill m"]
    by (auto simp: overlap_ok_def apart_def simp del: upt_Suc fold.simps)
  then show ?thesis
    using byte_loop_tail [of 16] by (simp add: stream_steps del: upt_Suc)
qed

lemma stream_tail:
  assumes "len < 16"
  shows "byte_loop refill (stream_step ks) 0 len inp out m =
    (len, if len \<noteq> 0 then fold (xor_byte out inp ks) [0..<len] (refill m) else m)"
  using byte_loop_tail [of len refill "stream_step ks" 0] assms by (simp add: stream_steps)

text \<open>The loop over whole blocks that counter mode and output feedback share.\<close>

fun stream_blocks ::
  "(mem \<Rightarrow> mem) \<Rightarrow> addr \<Rightarrow> nat \<Rightarrow> nat \<Rightarrow> addr \<Rightarrow> addr \<Rightarrow> mem \<Rightarrow> nat \<times> nat \<times> addr \<times> addr \<times> mem" where
  "stream_blocks refill ks n len inp out m =
     (if len \<ge> 16 then
        stream_blocks refill ks 0 (len - 16) (inp + 16) (out + 16) (fold (xor_word out inp ks) [0, 8] (refill m))
      else (n, len, inp, out, m))"

declare stream_blocks.simps [simp del]

lemma ctr_blocks_eq:
  "ctr_blocks block n len inp out ivec ecount m =
    stream_blocks (\<lambda>m. ctr128_inc ivec (call_block block ivec ecount m)) ecount n len inp out m"
proof (induction block n len inp out ivec ecount m rule: ctr_blocks.induct)
  case (1 block n len inp out ivec ecount m)
  show ?case
    by (subst ctr_blocks.simps, subst stream_blocks.simps) (simp add: 1 [OF _ refl refl] Let_def del: fold.simps)
qed

lemma ofb_blocks_eq:
  "ofb_blocks block 0 len inp out ivec m = stream_blocks (call_block block ivec ivec) ivec 0 len inp out m"
proof (induction len arbitrary: inp out m rule: less_induct)
  case (less len)
  show ?case
    by (subst ofb_blocks.simps, subst stream_blocks.simps) (simp add: less Let_def del: fold.simps)
qed

lemma stream_blocks_loop:
  assumes "stream_blocks refill ks 0 len inp out m = (n', len', inp', out', m')"
    and "overlap_ok len inp out" and "apart ks 16 out len"
  shows "byte_loop refill (stream_step ks) 0 len inp out m = byte_loop refill (stream_step ks) 0 len' inp' out' m' \<and>
    n' = 0 \<and> len' < 16"
  using assms
proof (induction refill ks "0 :: nat" len inp out m rule: stream_blocks.induct)
  case (1 refill ks len inp out m)
  show ?case
  proof (cases "16 \<le> len")
    case True
    then obtain l where l: "len = 16 + l" by (metis le_Suc_ex)
    have "stream_blocks refill ks 0 l (inp + 16) (out + 16) (fold (xor_word out inp ks) [0, 8] (refill m)) =
        (n', len', inp', out', m')"
      using 1(2) by (subst (asm) stream_blocks.simps) (simp add: l)
    moreover have "overlap_ok l (inp + 16) (out + 16)" "apart ks 16 (out + 16) l" "overlap_ok 16 inp out" "apart ks 16 out 16"
      using 1(3,4) l by (auto simp: overlap_ok_def apart_def)
    ultimately show ?thesis
      using 1(1) [OF True] l by (simp add: stream_block)
  next
    case False
    then show ?thesis
      using 1(2) by (subst (asm) stream_blocks.simps) simp
  qed
qed

lemma stream_rest:
  assumes "n = 0 \<or> len = 0" and "overlap_ok len inp out" and "apart ks 16 out len"
  shows "(let (n, len, inp, out, m) = stream_blocks refill ks n len inp out m in
      if len \<noteq> 0 then (n + len, fold (xor_byte out inp ks) [n..<n + len] (refill m)) else (n, m)) =
    byte_loop refill (stream_step ks) n len inp out m"
proof (cases "n = 0")
  case True
  obtain n2 len2 inp2 out2 m2 where blocks: "stream_blocks refill ks 0 len inp out m = (n2, len2, inp2, out2, m2)"
    by (metis prod_cases5)
  show ?thesis
    using stream_blocks_loop [OF blocks assms(2,3)] stream_tail [of len2] by (simp add: True blocks)
next
  case False
  then show ?thesis using assms(1) by (subst stream_blocks.simps) simp
qed

lemma ctr128_loop:
  assumes "overlap_ok len inp out" and "apart ecount 16 out len" and "num < 16" and "0 < ecount" "0 < inp" "0 < out"
  shows "CRYPTO_ctr128_encrypt strict inp out len ivec ecount num block m =
    (let (n, m) = byte_loop (\<lambda>m. ctr128_inc ivec (call_block block ivec ecount m)) (stream_step ecount) num len inp out m
     in (Ret n, m))"
proof -
  let ?refill = "\<lambda>m. ctr128_inc ivec (call_block block ivec ecount m)"
  obtain n1 len1 inp1 out1 m1 where head: "stream_head num len inp out ecount m = (n1, len1, inp1, out1, m1)"
    by (metis prod_cases5)
  note h = byte_head_loop [OF head [unfolded stream_head_eq] assms(3)]
  have "n1 = 0 \<or> len1 = 0" "overlap_ok len1 inp1 out1" "apart ecount 16 out1 len1"
    using h assms(1,2) advanced_ok advanced_apart(1) by blast+
  note rest = stream_rest [OF this, of ?refill m1, symmetric]
  have "CRYPTO_ctr128_encrypt strict inp out len ivec ecount num block m =
      (let (n, m) = byte_loop ?refill (stream_step ecount) n1 len1 inp1 out1 m1 in (Ret n, m))"
    using assms(3-) unfolding rest
    by (simp add: CRYPTO_ctr128_encrypt_def head ctr_bytes_loop rest ctr_blocks_eq Let_def split: prod.split)
  then show ?thesis using h by simp
qed

lemma ofb128_loop:
  assumes "overlap_ok len inp out" and "apart ivec 16 out len" and "num < 16" and "0 < ivec" "0 < inp" "0 < out"
  shows "CRYPTO_ofb128_encrypt inp out len ivec num block m =
    (let (n, m) = byte_loop (call_block block ivec ivec) (stream_step ivec) num len inp out m in (Ret n, m))"
proof -
  let ?refill = "call_block block ivec ivec"
  obtain n1 len1 inp1 out1 m1 where head: "stream_head num len inp out ivec m = (n1, len1, inp1, out1, m1)"
    by (metis prod_cases5)
  note h = byte_head_loop [OF head [unfolded stream_head_eq] assms(3)]
  have n1: "n1 = 0 \<or> len1 = 0" and ok: "overlap_ok len1 inp1 out1" "apart ivec 16 out1 len1"
    using h assms(1,2) advanced_ok advanced_apart(1) by blast+
  note rest = stream_rest [OF n1 ok, of ?refill m1, symmetric]
  have "ofb_blocks block n1 len1 inp1 out1 ivec m1 = stream_blocks ?refill ivec n1 len1 inp1 out1 m1"
  proof (cases "n1 = 0")
    case False
    then show ?thesis
      using n1 by (subst ofb_blocks.simps, subst stream_blocks.simps) simp
  qed (simp add: ofb_blocks_eq)
  then have "CRYPTO_ofb128_encrypt inp out len ivec num block m =
      (let (n, m) = byte_loop ?refill (stream_step ivec) n1 len1 inp1 out1 m1 in (Ret n, m))"
    using assms(4-) unfolding rest by (simp add: CRYPTO_ofb128_encrypt_def head Let_def split: prod.split)
  then show ?thesis using h by simp
qed

section \<open>Cipher feedback\<close>

definition cfb_step :: "bool \<Rightarrow> addr \<Rightarrow> nat \<Rightarrow> addr \<Rightarrow> addr \<Rightarrow> mem \<Rightarrow> mem" where
  "cfb_step enc ivec n inp out m = cfb_byte enc out inp ivec n m"

lemma cfb_head_eq: "cfb_head enc n len inp out ivec m = byte_head (cfb_step enc ivec) n len inp out m"
proof (induction len arbitrary: n inp out m)
  case 0
  show ?case by (subst cfb_head.simps) simp
next
  case (Suc len)
  show ?case
    by (subst cfb_head.simps) (simp add: Suc [symmetric] cfb_step_def)
qed

lemma cfb_bytes_loop:
  "cfb_bytes enc block n len inp out ivec m = byte_loop (call_block block ivec ivec) (cfb_step enc ivec) n len inp out m"
  by (induction len arbitrary: n inp out m) (simp_all only: cfb_bytes.simps byte_loop.simps Let_def cfb_step_def)

text \<open>The bytes and the words of a block: what goes to the output and what stays in the vector.\<close>

definition fed_back :: "bool \<Rightarrow> byte list \<Rightarrow> byte list \<Rightarrow> byte list" where
  "fed_back enc v x = (if enc then bxor v x else x)"

lemma length_fed_back [simp]: "length v = length x \<Longrightarrow> length (fed_back enc v x) = length x"
  by (simp add: fed_back_def)

lemma cfb_step_eq:
  assumes "out \<noteq> ivec + n"
  shows "cfb_step enc ivec n inp out m =
    store (store m out [m (ivec + n) XOR m inp]) (ivec + n) (fed_back enc [m (ivec + n)] [m inp])"
proof (cases enc)
  case True
  then have "cfb_step enc ivec n inp out m =
      (m(ivec + n := m (ivec + n) XOR m inp))(out := m (ivec + n) XOR m inp)"
    by (simp only: cfb_step_def cfb_byte_def Let_def if_True)
  also have "\<dots> = (m(out := m (ivec + n) XOR m inp))(ivec + n := m (ivec + n) XOR m inp)"
    by (rule fun_upd_twist) (use assms in simp)
  finally show ?thesis
    using True by (simp only: upd_store fed_back_def if_True bxor_def) simp
next
  case False
  then show ?thesis
    by (simp only: cfb_step_def cfb_byte_def Let_def if_False upd_store fed_back_def)
qed

lemma cfb_steps_eq:
  assumes "overlap_ok k inp out" and "apart ivec 16 inp k" and "apart ivec 16 out k"
  shows "k \<le> 16 \<Longrightarrow> fold (\<lambda>i. cfb_step enc ivec i (inp + i) (out + i)) [0..<k] m =
    store (store m out (bxor (load m ivec k) (load m inp k))) ivec (fed_back enc (load m ivec k) (load m inp k))"
  using assms
proof (induction k)
  case (Suc k)
  let ?y = "bxor (load m ivec k) (load m inp k)" and ?f = "fed_back enc (load m ivec k) (load m inp k)"
  let ?m = "store (store m out ?y) ivec ?f" and ?c = "m (ivec + k) XOR m (inp + k)"
  have read: "?m (inp + k) = m (inp + k)" "?m (ivec + k) = m (ivec + k)"
    using Suc.prems by (auto simp: apart_def overlap_ok_def store_def)
  have "out + k \<noteq> ivec + k"
    using Suc.prems by (auto simp: apart_def)
  then have "cfb_step enc ivec k (inp + k) (out + k) ?m =
      store (store ?m (out + k) [?c]) (ivec + k) (fed_back enc [m (ivec + k)] [m (inp + k)])"
    using cfb_step_eq [of "out + k" ivec k enc "inp + k" ?m] unfolding read by blast
  also have "\<dots> = store (store m out (?y @ [?c])) ivec (?f @ fed_back enc [m (ivec + k)] [m (inp + k)])"
    using Suc.prems by (intro store_both) (auto simp: apart_def)
  also have "?y @ [?c] = bxor (load m ivec (Suc k)) (load m inp (Suc k))"
    using load_append [of m ivec k 1] load_append [of m inp k 1] by (simp add: bxor_append) (simp add: bxor_def)
  also have "?f @ fed_back enc [m (ivec + k)] [m (inp + k)] = fed_back enc (load m ivec (Suc k)) (load m inp (Suc k))"
    using load_append [of m ivec k 1] load_append [of m inp k 1] by (simp add: fed_back_def bxor_append)
  finally have step: "cfb_step enc ivec k (inp + k) (out + k) ?m =
      store (store m out (bxor (load m ivec (Suc k)) (load m inp (Suc k)))) ivec
        (fed_back enc (load m ivec (Suc k)) (load m inp (Suc k)))" .
  have "fold (\<lambda>i. cfb_step enc ivec i (inp + i) (out + i)) [0..<k] m = ?m"
    using Suc.prems by (intro Suc.IH) (auto simp: overlap_ok_def apart_def)
  then show ?case using step by simp
qed (simp add: fed_back_def)

lemma cfb_word_eq:
  assumes "n + 8 \<le> 16" and "apart ivec 16 out 16"
  shows "cfb_word enc out inp ivec n m =
    store (store m (out + n) (bxor (load m (ivec + n) 8) (load m (inp + n) 8))) (ivec + n)
      (fed_back enc (load m (ivec + n) 8) (load m (inp + n) 8))"
proof -
  let ?y = "bxor (load m (ivec + n) 8) (load m (inp + n) 8)"
  have y: "le_bytes 8 (le_word (load m (ivec + n) 8) XOR le_word (load m (inp + n) 8) :: u64) = ?y"
    by (simp add: le_word_bxor [symmetric] le_bytes_le_word)
  have "apart (ivec + n) (length ?y) (out + n) (length ?y)"
    using assms by (auto simp: apart_def)
  from store_apart [OF this, of m] show ?thesis
    by (simp add: cfb_word_def store_word_def load_word_def le_bytes_le_word Let_def y fed_back_def)
qed

lemma cfb_words_eq:
  assumes "overlap_ok 16 inp out" and "apart ivec 16 inp 16" and "apart ivec 16 out 16"
  shows "fold (cfb_word enc out inp ivec) [0, 8] m =
    store (store m out (bxor (load m ivec 16) (load m inp 16))) ivec (fed_back enc (load m ivec 16) (load m inp 16))"
proof -
  let ?a = "bxor (load m ivec 8) (load m inp 8)" and ?b = "bxor (load m (ivec + 8) 8) (load m (inp + 8) 8)"
  let ?f = "fed_back enc (load m ivec 8) (load m inp 8)" and ?g = "fed_back enc (load m (ivec + 8) 8) (load m (inp + 8) 8)"
  let ?m = "store (store m out ?a) ivec ?f"
  have "load ?m (inp + 8) 8 = load m (inp + 8) 8" "load ?m (ivec + 8) 8 = load m (ivec + 8) 8"
    using assms by (auto simp: load_store_disjoint apart_def overlap_ok_def)
  then have "cfb_word enc out inp ivec 8 ?m = store (store ?m (out + 8) ?b) (ivec + 8) ?g"
    using assms(3) by (simp add: cfb_word_eq)
  also have "\<dots> = store (store m out (?a @ ?b)) ivec (?f @ ?g)"
    using assms by (intro store_both) (auto simp: apart_def)
  also have "?a @ ?b = bxor (load m ivec 16) (load m inp 16)"
    using load_append [of m ivec 8 8] load_append [of m inp 8 8] by (simp add: bxor_append)
  also have "?f @ ?g = fed_back enc (load m ivec 16) (load m inp 16)"
    using load_append [of m ivec 8 8] load_append [of m inp 8 8] by (simp add: fed_back_def bxor_append)
  finally show ?thesis
    using assms(3) cfb_word_eq [of 0 ivec out enc inp m] by simp
qed

lemma cfb_blocks_loop:
  assumes "overlap_ok len inp out" and "apart ivec 16 inp len" and "apart ivec 16 out len"
  shows "(let (n, len, inp, out, m) = cfb_blocks enc block 0 len inp out ivec m in
      if len \<noteq> 0 then (n + len, fold (\<lambda>k. cfb_byte enc (out + k) (inp + k) ivec k) [n..<n + len] (call_block block ivec ivec m))
      else (n, m)) =
    byte_loop (call_block block ivec ivec) (cfb_step enc ivec) 0 len inp out m"
  using assms
proof (induction len arbitrary: inp out m rule: less_induct)
  case (less len)
  show ?case
  proof (cases "16 \<le> len")
    case True
    then obtain l where l: "len = 16 + l" by (metis le_Suc_ex)
    have *: "overlap_ok l (inp + 16) (out + 16)" "apart ivec 16 (inp + 16) l" "apart ivec 16 (out + 16) l"
      "overlap_ok 16 inp out" "apart ivec 16 inp 16" "apart ivec 16 out 16"
      using less.prems l by (auto simp: overlap_ok_def apart_def)
    have "fold (cfb_word enc out inp ivec) [0, 8] (call_block block ivec ivec m) =
        fold (\<lambda>i. cfb_step enc ivec i (inp + i) (out + i)) [0..<16] (call_block block ivec ivec m)"
      using cfb_words_eq [OF *(4-6)] cfb_steps_eq [OF *(4-6)] by simp
    then show ?thesis
      using less.IH [OF _ *(1-3)] byte_loop_tail [of 16 "call_block block ivec ivec" "cfb_step enc ivec" l]
      by (subst cfb_blocks.simps) (simp add: l del: fold.simps upt_Suc)
  next
    case False
    then show ?thesis
      using byte_loop_tail [of len "call_block block ivec ivec" "cfb_step enc ivec" 0]
      by (subst cfb_blocks.simps) (simp add: cfb_step_def [abs_def])
  qed
qed

lemma cfb128_loop:
  assumes "overlap_ok len inp out" and "apart ivec 16 inp len" and "apart ivec 16 out len" and "num < 16"
    and "0 < ivec" "0 < inp" "0 < out"
  shows "CRYPTO_cfb128_encrypt strict inp out len ivec num enc block m =
    (let (n, m) = byte_loop (call_block block ivec ivec) (cfb_step enc ivec) num len inp out m in (Ret n, m))"
proof -
  let ?loop = "byte_loop (call_block block ivec ivec) (cfb_step enc ivec)"
  obtain n1 len1 inp1 out1 m1 where head: "cfb_head enc num len inp out ivec m = (n1, len1, inp1, out1, m1)"
    by (metis prod_cases5)
  note h = byte_head_loop [OF head [unfolded cfb_head_eq] assms(4)]
  from h have adv: "advanced len inp out len1 inp1 out1" by blast
  note ok = advanced_ok [OF adv assms(1)] advanced_apart(2) [OF adv assms(2)] advanced_apart(1) [OF adv assms(3)]
  have rest: "?loop n1 len1 inp1 out1 m1 = (let (n, len, inp, out, m) = cfb_blocks enc block n1 len1 inp1 out1 ivec m1 in
      if len \<noteq> 0 then (n + len, fold (\<lambda>k. cfb_byte enc (out + k) (inp + k) ivec k) [n..<n + len] (call_block block ivec ivec m))
      else (n, m))"
  proof (cases "n1 = 0")
    case True
    then show ?thesis using cfb_blocks_loop [OF ok] by simp
  next
    case False
    then show ?thesis using h by (subst cfb_blocks.simps) simp
  qed
  have "CRYPTO_cfb128_encrypt strict inp out len ivec num enc block m =
      (let (n, m) = ?loop n1 len1 inp1 out1 m1 in (Ret n, m))"
    using assms(5-) unfolding rest
    by (simp add: CRYPTO_cfb128_encrypt_def head cfb_bytes_loop rest Let_def split: prod.split)
  then show ?thesis using h by simp
qed

end
