(* ===== verification/Modes_Keys.thy ===== *)
theory Modes_Keys
  imports Modes_Stream
begin

text \<open>
  The key streams of counter mode and output feedback, the state that stands for a position in them, and the
  variant of counter mode that hands several blocks at a time to a routine with a 32-bit counter.
\<close>

unbundle bit_operations_syntax

section \<open>A key stream at a position\<close>

locale key_stream =
  fixes refill :: "mem \<Rightarrow> mem" and ks :: addr and own :: "addr set" and good :: "nat \<Rightarrow> mem \<Rightarrow> bool"
    and key_byte :: "nat \<Rightarrow> byte"
  assumes inside: "good p m \<Longrightarrow> p mod 16 \<noteq> 0 \<Longrightarrow> m (ks + p mod 16) = key_byte p \<and> good (p + 1) m"
    and at_end: "good p m \<Longrightarrow> p mod 16 = 0 \<Longrightarrow>
      refill m ks = key_byte p \<and> good (p + 1) (refill m) \<and> same_except own m (refill m)"
    and good_frame: "good p m \<Longrightarrow> same_except A m m' \<Longrightarrow> A \<inter> own = {} \<Longrightarrow> good p m'"
    and ks_own: "region ks 16 \<subseteq> own"
begin

lemma one_byte:
  assumes good: "good p m" and inp: "inp \<notin> own" and out: "out \<notin> own"
  shows "\<exists>m'. stream_step ks (p mod 16) inp out (if p mod 16 = 0 then refill m else m) = m' \<and>
    good (p + 1) m' \<and> m' out = m inp XOR key_byte p \<and> same_except (own \<union> {out}) m m'"
proof -
  define m1 where "m1 = (if p mod 16 = 0 then refill m else m)"
  have m1: "m1 (ks + p mod 16) = key_byte p" "good (p + 1) m1" "same_except own m m1"
    using inside [OF good] at_end [OF good] by (cases "p mod 16 = 0"; simp add: m1_def)+
  have "same_except {out} m1 (m1(out := m inp XOR key_byte p))"
    by (simp add: same_except_def)
  then have "good (p + 1) (m1(out := m inp XOR key_byte p))"
    using good_frame [OF m1(2)] out by blast
  moreover have "m1 inp = m inp"
    using m1(3) inp by (simp add: same_except_def)
  ultimately show ?thesis
    using m1 unfolding m1_def [symmetric] stream_step_def by (auto simp: same_except_def)
qed

lemma stream:
  assumes "good p m" and "region inp len \<inter> own = {}" and "region out len \<inter> own = {}" and "overlap_ok len inp out"
  shows "\<exists>m'. byte_loop refill (stream_step ks) (p mod 16) len inp out m = ((p + len) mod 16, m') \<and> good (p + len) m' \<and>
    load m' out len = bxor (load m inp len) (map key_byte [p..<p + len]) \<and> same_except (own \<union> region out len) m m'"
  using assms
proof (induction len arbitrary: p inp out m)
  case (Suc len)
  have "inp \<in> region inp (Suc len)" "out \<in> region out (Suc len)" by simp_all
  then have notin: "inp \<notin> own" "out \<notin> own"
    using Suc.prems(2,3) by blast+
  from one_byte [OF Suc.prems(1) this] obtain m1 where
    step: "stream_step ks (p mod 16) inp out (if p mod 16 = 0 then refill m else m) = m1"
    and good: "good (p + 1) m1" and m1: "m1 out = m inp XOR key_byte p" "same_except (own \<union> {out}) m m1"
    by blast
  have sub: "region (inp + 1) len \<inter> own = {}" "region (out + 1) len \<inter> own = {}" "overlap_ok len (inp + 1) (out + 1)"
  proof -
    have "region (inp + 1) len \<subseteq> region inp (Suc len)" "region (out + 1) len \<subseteq> region out (Suc len)"
      by (auto simp: subset_iff)
    then show "region (inp + 1) len \<inter> own = {}" "region (out + 1) len \<inter> own = {}"
      using Suc.prems(2,3) by blast+
    show "overlap_ok len (inp + 1) (out + 1)"
      using Suc.prems(4) by (auto simp: overlap_ok_def)
  qed
  have "(p mod 16 + 1) mod 16 = (p + 1) mod 16" by (simp add: mod_Suc_eq)
  with Suc.IH [OF good sub] obtain m' where
    loop: "byte_loop refill (stream_step ks) ((p mod 16 + 1) mod 16) len (inp + 1) (out + 1) m1 = ((p + 1 + len) mod 16, m')"
    and m': "good (p + 1 + len) m'" "load m' (out + 1) len = bxor (load m1 (inp + 1) len) (map key_byte [p + 1..<p + 1 + len])"
      "same_except (own \<union> region (out + 1) len) m1 m'" by auto
  have rest: "load m1 (inp + 1) len = load m (inp + 1) len"
  proof (rule load_cong)
    fix i assume i: "i < len"
    then have "inp + 1 + i \<in> region inp (Suc len)" by simp
    then have "inp + 1 + i \<notin> own" using Suc.prems(2) by blast
    moreover have "inp + 1 + i \<noteq> out" using Suc.prems(4) i by (auto simp: overlap_ok_def)
    ultimately show "m1 (inp + 1 + i) = m (inp + 1 + i)"
      using m1(2) by (simp add: same_except_def)
  qed
  have first: "m' out = m inp XOR key_byte p"
    using m'(3) notin(2) m1(1) by (simp add: same_except_def)
  have "load m' out (Suc len) = bxor (load m inp (Suc len)) (map key_byte [p..<p + Suc len])"
    using m'(2) rest by (simp add: load_Suc first bxor_def upt_conv_Cons del: upt_Suc)
  moreover have "same_except (own \<union> region out (Suc len)) m m'"
    using m1(2) m'(3) by (auto simp: same_except_def)
  ultimately show ?case
    using loop step m'(1) by auto
qed (simp_all add: bxor_def)

end

section \<open>Big-endian counters\<close>

text \<open>A counter with its last byte first.\<close>

fun inc_le :: "byte list \<Rightarrow> u32 \<Rightarrow> byte list" where
  "inc_le [] c = []"
| "inc_le (b # bs) c = (let c = c + ucast b in ucast c # inc_le bs (drop_bit 8 c))"

lemma length_inc_le [simp]: "length (inc_le bs c) = length bs"
  by (induction bs arbitrary: c) (simp_all add: Let_def)

lemma inc_bytes_eq: "inc_bytes k a m = store m a (rev (inc_le (rev (load m a k)) 1))"
proof -
  define f :: "nat \<Rightarrow> u32 \<times> mem \<Rightarrow> u32 \<times> mem" where "f = (\<lambda>n (c, m). let c = c + ucast (m (a + n)) :: u32 in (drop_bit 8 c, m(a + n := ucast c)))"
  have "snd (fold f (rev [0..<k]) (c, m)) = store m a (rev (inc_le (rev (load m a k)) c))" for c
  proof (induction k arbitrary: c m)
    case (Suc k)
    let ?c = "c + ucast (m (a + k)) :: u32"
    define m1 where "m1 = m(a + k := ucast ?c)"
    have f: "f k (c, m) = (drop_bit 8 ?c, m1)"
      by (simp add: f_def Let_def m1_def)
    have old: "load m1 a k = load m a k" unfolding m1_def by (rule load_cong) simp
    have snoc: "store m1 a xs = store m a (xs @ [ucast ?c])" if "length xs = k" for xs
      using that by (auto simp: m1_def store_def fun_eq_iff nth_append)
    have "load m a (Suc k) = load m a k @ [m (a + k)]"
      using load_append [of m a k 1] by simp
    then show ?case
      using Suc.IH [of "drop_bit 8 ?c" m1] by (simp add: f old snoc Let_def)
  qed simp
  then show ?thesis by (simp add: inc_bytes_def f_def)
qed

lemma digit: "((b + s div 256) mod l) * 256 + s mod 256 = (b * 256 + s) mod (256 * l)" for b s l :: nat
  by (simp add: mod_mult2_eq)

lemma be_nat_inc_le:
  "unat c \<le> 1 \<Longrightarrow> be_nat (rev (inc_le bs c)) = (be_nat (rev bs) + unat c) mod 256 ^ length bs"
proof (induction bs arbitrary: c)
  case (Cons b bs)
  let ?c = "c + ucast b :: u32"
  have "unat (ucast b :: u32) = unat b"
    using unat_byte_less [of b] by (simp add: unsigned_ucast_eq take_bit_nat_eq_self)
  then have c: "unat ?c = unat c + unat b"
    using Cons.prems unat_byte_less [of b] by (simp add: unat_word_ariths)
  have low: "unat (ucast ?c :: byte) = unat ?c mod 256"
    by (simp add: unsigned_ucast_eq take_bit_eq_mod)
  have high: "unat (drop_bit 8 ?c) = unat ?c div 256"
    unfolding unat_drop_bit_div by simp
  then have "unat (drop_bit 8 ?c) \<le> 1"
    using Cons.prems unat_byte_less [of b] by (simp add: c)
  from Cons.IH [OF this] show ?case
    using digit [of "be_nat (rev bs)" "unat c + unat b" "256 ^ length bs"]
    unfolding inc_le.simps Let_def rev.simps be_nat_snoc high low c by (simp add: ac_simps)
qed simp

lemma inc_bytes_be:
  assumes "load m a n = be_bytes n (v :: 'a::len word)" and "LENGTH('a) = 8 * n"
  shows "inc_bytes n a m = store m a (be_bytes n (v + 1))"
proof -
  let ?bs = "rev (inc_le (rev (load m a n)) 1)"
  have "unat (be_word ?bs :: 'a word) = (be_nat (load m a n) + 1) mod 2 ^ (8 * n)"
    using assms(2) by (simp add: unat_be_word be_nat_inc_le power_mult)
  also have "be_nat (load m a n) = unat v"
    using unat_be_word [of "load m a n", where 'a = 'a] assms by (simp add: be_word_be_bytes)
  also have "(unat v + 1) mod 2 ^ (8 * n) = unat (v + 1)"
    using assms(2) by (simp add: unat_word_ariths)
  finally have "be_word ?bs = v + 1"
    by (simp add: word_unat_eq_iff)
  then have "?bs = be_bytes n (v + 1)"
    using be_bytes_be_word [of ?bs n, where 'a = 'a] assms(2) by simp
  then show ?thesis by (simp add: inc_bytes_eq)
qed

lemma apart_regions: "0 < n \<Longrightarrow> 0 < k \<Longrightarrow> apart a n b k \<longleftrightarrow> region a n \<inter> region b k = {}"
  unfolding region_disjoint apart_def by auto

lemma apart_region: "apart a n b k \<Longrightarrow> region a n \<inter> region b k = {}"
  unfolding region_disjoint apart_def by auto

lemma load_nth: "load m a n = bs \<Longrightarrow> i < n \<Longrightarrow> m (a + i) = bs ! i"
  using nth_load [of i n m a] by simp

lemma load_frame: "same_except A m m' \<Longrightarrow> A \<inter> own = {} \<Longrightarrow> region a n \<subseteq> own \<Longrightarrow> load m' a n = load m a n"
  by (rule same_except_load) auto

lemma block_start:
  fixes p :: nat
  assumes "p mod 16 = 0"
  shows "(p + 16 * j) mod 16 = 0" and "(p + 16 * j) div 16 = p div 16 + j" and "(p + 15) div 16 = p div 16"
    and "0 < l \<Longrightarrow> l < 16 \<Longrightarrow> (p + l + 15) div 16 = p div 16 + 1" and "l < 16 \<Longrightarrow> (p + l) div 16 = p div 16"
    and "l < 16 \<Longrightarrow> (p + l) mod 16 = l"
proof -
  from assms obtain q where q: "p = 16 * q" by (auto simp: mod_eq_0_iff_dvd dvd_def)
  show "(p + 16 * j) mod 16 = 0" "(p + 16 * j) div 16 = p div 16 + j" "(p + 15) div 16 = p div 16"
    "l < 16 \<Longrightarrow> (p + l) div 16 = p div 16" "l < 16 \<Longrightarrow> (p + l) mod 16 = l"
    by (simp_all add: q)
  assume l: "0 < l" "l < 16"
  then have "p + l + 15 = 16 * (q + 1) + (l - 1)" by (simp add: q)
  then have "(p + l + 15) div 16 = q + 1" using l(2) by simp
  then show "(p + l + 15) div 16 = p div 16 + 1" by (simp add: q)
qed

lemma block_inside:
  fixes p :: nat
  assumes "p mod 16 \<noteq> 0"
  shows "(p + 15) div 16 = p div 16 + 1" and "(p + 1 + 15) div 16 = p div 16 + 1"
    and "(p + 1) mod 16 \<noteq> 0 \<Longrightarrow> (p + 1) div 16 = p div 16"
proof -
  define q r where "q = p div 16" and "r = p mod 16"
  have p: "p = 16 * q + r" and r: "0 < r" "r < 16" using assms by (simp_all add: q_def r_def)
  have "p + 15 = 16 * (q + 1) + (r - 1)" "p + 1 + 15 = 16 * (q + 1) + r" using r by (simp_all add: p)
  then have "(p + 15) div 16 = q + 1" "(p + 1 + 15) div 16 = q + 1" using r by simp_all
  then show "(p + 15) div 16 = p div 16 + 1" "(p + 1 + 15) div 16 = p div 16 + 1" by (simp_all add: q_def)
  show "(p + 1) div 16 = p div 16" if "(p + 1) mod 16 \<noteq> 0"
    using that by (simp add: div_Suc split: if_splits)
qed

section \<open>Counter mode\<close>

definition ctr_key :: "block128 \<Rightarrow> 128 word \<Rightarrow> nat \<Rightarrow> byte list" where
  "ctr_key block iv i = block (be_bytes 16 (iv + of_nat i))"

definition ctr_byte :: "block128 \<Rightarrow> 128 word \<Rightarrow> nat \<Rightarrow> byte" where
  "ctr_byte block iv p = ctr_key block iv (p div 16) ! (p mod 16)"

text \<open>
  The state at position \<open>p\<close>: the vector is the next counter, and within a block \<open>ecount\<close> holds the key stream
  of the block.
\<close>

definition ctr_state :: "block128 \<Rightarrow> addr \<Rightarrow> addr \<Rightarrow> 128 word \<Rightarrow> nat \<Rightarrow> mem \<Rightarrow> bool" where
  "ctr_state block ivec ecount iv p m \<longleftrightarrow> block_function block \<and> apart ivec 16 ecount 16 \<and>
     load m ivec 16 = be_bytes 16 (iv + of_nat ((p + 15) div 16)) \<and>
     (p mod 16 \<noteq> 0 \<longrightarrow> load m ecount 16 = ctr_key block iv (p div 16))"

lemma length_ctr_key: "block_function block \<Longrightarrow> length (ctr_key block iv i) = 16"
  by (simp add: ctr_key_def block_length)

lemma Suc_div_16: "(Suc p + 15) div 16 = p div 16 + 1"
  by simp

lemma ctr_refill:
  assumes "ctr_state block ivec ecount iv p m" and "p mod 16 = 0"
  shows "ctr128_inc ivec (call_block block ivec ecount m) =
    store (store m ecount (ctr_key block iv (p div 16))) ivec (be_bytes 16 (iv + of_nat (p div 16) + 1))"
proof -
  have p: "(p + 15) div 16 = p div 16" by (rule block_start(3) [OF assms(2)])
  have iv: "load m ivec 16 = be_bytes 16 (iv + of_nat (p div 16))" and b: "block_function block" and a: "apart ivec 16 ecount 16"
    using assms(1) p by (simp_all add: ctr_state_def)
  have "load (store m ecount (ctr_key block iv (p div 16))) ivec 16 = load m ivec 16"
    using a b by (intro load_apart) (simp add: length_ctr_key)
  with inc_bytes_be [of "store m ecount (ctr_key block iv (p div 16))" ivec 16 "iv + of_nat (p div 16)"] show ?thesis
    using iv by (simp add: call_block_def ctr_key_def ctr128_inc_def)
qed

lemma ctr_step_at_end:
  assumes "ctr_state block ivec ecount iv p m" and "p mod 16 = 0"
  shows "ctr128_inc ivec (call_block block ivec ecount m) ecount = ctr_byte block iv p \<and>
    ctr_state block ivec ecount iv (p + 1) (ctr128_inc ivec (call_block block ivec ecount m)) \<and>
    same_except (region ivec 16 \<union> region ecount 16) m (ctr128_inc ivec (call_block block ivec ecount m))"
proof -
  let ?k = "ctr_key block iv (p div 16)" and ?v = "be_bytes 16 (iv + of_nat (p div 16) + 1)"
  let ?m = "store (store m ecount ?k) ivec ?v"
  have b: "block_function block" and a: "apart ivec 16 ecount 16"
    using assms(1) by (simp_all add: ctr_state_def)
  have k: "length ?k = 16" using b by (rule length_ctr_key)
  have e: "load ?m ecount 16 = ?k"
    using a k load_apart [of ecount 16 ivec ?v "store m ecount ?k"] by (auto simp: apart_def)
  have "?m ecount = ctr_byte block iv p"
    using load_nth [OF e, of 0] assms(2) by (simp add: ctr_byte_def)
  moreover have "ctr_state block ivec ecount iv (p + 1) ?m"
  proof -
    have "(p + 1 + 15) div 16 = p div 16 + 1" "(p + 1) div 16 = p div 16"
      using block_start(4,5) [OF assms(2), of 1] by simp_all
    moreover from this(1) have "iv + of_nat ((p + 1 + 15) div 16) = iv + of_nat (p div 16) + 1"
      by (simp only: of_nat_add of_nat_1 add.assoc)
    ultimately show ?thesis using a b e unfolding ctr_state_def by simp (simp add: ac_simps)
  qed
  moreover have "same_except (region ivec 16 \<union> region ecount 16) m ?m"
    using k by (intro same_except_trans [OF same_except_store same_except_store]) auto
  ultimately show ?thesis
    unfolding ctr_refill [OF assms] by blast
qed

interpretation ctr: key_stream "\<lambda>m. ctr128_inc ivec (call_block block ivec ecount m)" ecount
  "region ivec 16 \<union> region ecount 16" "ctr_state block ivec ecount iv" "ctr_byte block iv"
  for block ivec ecount iv
proof
  fix p m
  assume good: "ctr_state block ivec ecount iv p m"
  {
    assume p: "p mod 16 \<noteq> 0"
    then have "(p + 1 + 15) div 16 = (p + 15) div 16" "(p + 1) mod 16 \<noteq> 0 \<Longrightarrow> (p + 1) div 16 = p div 16"
      using block_inside [OF p] by simp_all
    with good p load_nth [of m ecount 16 _ "p mod 16"]
    show "m (ecount + p mod 16) = ctr_byte block iv p \<and> ctr_state block ivec ecount iv (p + 1) m"
      by (auto simp: ctr_state_def ctr_byte_def)
  }
  {
    assume "p mod 16 = 0"
    with ctr_step_at_end [OF good] show
      "ctr128_inc ivec (call_block block ivec ecount m) ecount = ctr_byte block iv p \<and>
       ctr_state block ivec ecount iv (p + 1) (ctr128_inc ivec (call_block block ivec ecount m)) \<and>
       same_except (region ivec 16 \<union> region ecount 16) m (ctr128_inc ivec (call_block block ivec ecount m))"
      by blast
  }
  fix A m'
  assume "same_except A m m'" "A \<inter> (region ivec 16 \<union> region ecount 16) = {}"
  from load_frame [OF this, of ivec 16] load_frame [OF this, of ecount 16] good
  show "ctr_state block ivec ecount iv p m'" by (simp add: ctr_state_def)
qed auto

lemma ctr128_stream:
  assumes "ctr_state block ivec ecount iv p m" and "overlap_ok len inp out"
    and "apart inp len ivec 16" "apart out len ivec 16" "apart inp len ecount 16" "apart out len ecount 16"
    and "0 < ecount" "0 < inp" "0 < out"
  shows "\<exists>m'. CRYPTO_ctr128_encrypt strict inp out len ivec ecount (p mod 16) block m = (Ret ((p + len) mod 16), m') \<and>
    ctr_state block ivec ecount iv (p + len) m' \<and>
    load m' out len = bxor (load m inp len) (map (ctr_byte block iv) [p..<p + len]) \<and>
    same_except (region ivec 16 \<union> region ecount 16 \<union> region out len) m m'"
proof -
  have "region inp len \<inter> (region ivec 16 \<union> region ecount 16) = {}" "region out len \<inter> (region ivec 16 \<union> region ecount 16) = {}"
    using apart_region [OF assms(3)] apart_region [OF assms(4)] apart_region [OF assms(5)] apart_region [OF assms(6)]
    by blast+
  from ctr.stream [OF assms(1) this assms(2)] ctr128_loop [OF assms(2) _ _ assms(7-9), of "p mod 16" strict ivec block m]
  show ?thesis
    using assms(6) by (auto simp: apart_def)
qed

section \<open>Output feedback\<close>

definition ofb_byte :: "block128 \<Rightarrow> byte list \<Rightarrow> nat \<Rightarrow> byte" where
  "ofb_byte block iv p = (block ^^ (p div 16 + 1)) iv ! (p mod 16)"

definition ofb_state :: "block128 \<Rightarrow> addr \<Rightarrow> byte list \<Rightarrow> nat \<Rightarrow> mem \<Rightarrow> bool" where
  "ofb_state block ivec iv p m \<longleftrightarrow> block_function block \<and> length iv = 16 \<and>
     load m ivec 16 = (block ^^ ((p + 15) div 16)) iv"

lemma length_ofb: "block_function block \<Longrightarrow> length iv = 16 \<Longrightarrow> length ((block ^^ k) iv) = 16"
  by (induction k) (simp_all add: block_length)

interpretation ofb: key_stream "call_block block ivec ivec" ivec "region ivec 16" "ofb_state block ivec iv" "ofb_byte block iv"
  for block ivec iv
proof
  fix p m
  assume good: "ofb_state block ivec iv p m"
  {
    assume "p mod 16 \<noteq> 0"
    note block_inside(1,2) [OF this]
    with good load_nth [of m ivec 16 _ "p mod 16"]
    show "m (ivec + p mod 16) = ofb_byte block iv p \<and> ofb_state block ivec iv (p + 1) m"
      by (simp add: ofb_state_def ofb_byte_def)
  }
  {
    assume "p mod 16 = 0"
    then have p: "(p + 15) div 16 = p div 16" "(p + 1 + 15) div 16 = p div 16 + 1" "p mod 16 = 0"
      using block_start(3) [of p] block_start(4) [of p 1] by simp_all
    let ?v = "(block ^^ (p div 16 + 1)) iv"
    have v: "length ?v = 16" "call_block block ivec ivec m = store m ivec ?v"
      using good p length_ofb [of block iv "p div 16"] by (simp_all add: ofb_state_def call_block_def block_length)
    then have "load (store m ivec ?v) ivec 16 = ?v" by simp
    with good p v load_nth [OF this, of 0] show
      "call_block block ivec ivec m ivec = ofb_byte block iv p \<and>
       ofb_state block ivec iv (p + 1) (call_block block ivec ivec m) \<and>
       same_except (region ivec 16) m (call_block block ivec ivec m)"
      by (simp add: ofb_state_def ofb_byte_def same_except_store)
  }
  fix A m'
  assume "same_except A m m'" "A \<inter> region ivec 16 = {}"
  from load_frame [OF this, of ivec 16] good
  show "ofb_state block ivec iv p m'" by (simp add: ofb_state_def)
qed auto

lemma ofb128_stream:
  assumes "ofb_state block ivec iv p m" and "overlap_ok len inp out"
    and "apart inp len ivec 16" "apart out len ivec 16" and "0 < ivec" "0 < inp" "0 < out"
  shows "\<exists>m'. CRYPTO_ofb128_encrypt inp out len ivec (p mod 16) block m = (Ret ((p + len) mod 16), m') \<and>
    ofb_state block ivec iv (p + len) m' \<and>
    load m' out len = bxor (load m inp len) (map (ofb_byte block iv) [p..<p + len]) \<and>
    same_except (region ivec 16 \<union> region out len) m m'"
  using ofb.stream [OF assms(1) apart_region [OF assms(3)] apart_region [OF assms(4)] assms(2)]
    ofb128_loop [OF assms(2) _ _ assms(5-7), of "p mod 16" block m] assms(4)
  by (auto simp: apart_def)

section \<open>Counter mode with a 32-bit counter\<close>

text \<open>What the routine for several blocks promises as long as its 32-bit counter does not wrap before the last block.\<close>

definition ctr_keys :: "block128 \<Rightarrow> 128 word \<Rightarrow> nat \<Rightarrow> byte list" where
  "ctr_keys block v k = concat (map (ctr_key block v) [0..<k])"

definition ctr32_routine :: "block128 \<Rightarrow> ctr128 \<Rightarrow> bool" where
  "ctr32_routine block func \<longleftrightarrow> (\<forall>k inp out ivec m.
     k \<le> 2 ^ 32 - unat (GETU32 m (ivec + 12)) \<and> overlap_ok (16 * k) inp out \<and>
     apart inp (16 * k) ivec 16 \<and> apart out (16 * k) ivec 16 \<longrightarrow>
     func k inp out ivec m = store m out (bxor (load m inp (16 * k)) (ctr_keys block (be_word (load m ivec 16)) k)))"

lemma length_ctr_keys: "block_function block \<Longrightarrow> length (ctr_keys block v k) = 16 * k"
  by (induction k) (simp_all add: ctr_keys_def length_ctr_key)

lemma ctr_keys_Suc: "ctr_keys block v (Suc k) = ctr_keys block v k @ ctr_key block v k"
  by (simp add: ctr_keys_def)

lemma ctr_keys_0 [simp]: "ctr_keys block v 0 = []"
  by (simp add: ctr_keys_def)

lemma ctr_keys_add: "ctr_keys block v (j + k) = ctr_keys block v j @ ctr_keys block (v + of_nat j) k"
proof (induction k)
  case (Suc k)
  have "ctr_key block (v + of_nat j) k = ctr_key block v (j + k)"
    by (simp add: ctr_key_def ac_simps)
  with Suc show ?case by (simp add: ctr_keys_Suc)
qed simp

text \<open>The halves of a counter.\<close>

lemma be_bytes_halves:
  "be_bytes 16 (v :: 128 word) = be_bytes 12 (ucast (drop_bit 32 v) :: 96 word) @ be_bytes 4 (ucast v :: u32)"
proof -
  have "le_bytes 16 v = le_bytes 4 (ucast v :: u32) @ le_bytes 12 (ucast (drop_bit 32 v) :: 96 word)"
  proof (rule nth_equalityI)
    fix i assume i: "i < length (le_bytes 16 v)"
    show "le_bytes 16 v ! i = (le_bytes 4 (ucast v :: u32) @ le_bytes 12 (ucast (drop_bit 32 v) :: 96 word)) ! i"
    proof (cases "i < 4")
      case True
      then show ?thesis
        by (simp add: nth_append le_bytes_def) (rule bit_word_eqI, auto simp: bit_simps)
    next
      case False
      then have eight: "8 * (i - 4) = 8 * i - 32" "32 \<le> 8 * i" by simp_all
      from False i show ?thesis
        by (simp add: nth_append le_bytes_def) (rule bit_word_eqI, use eight in \<open>auto simp: bit_simps\<close>)
    qed
  qed simp
  then show ?thesis by (simp add: be_bytes_def)
qed

lemma GETU32_be: "GETU32 m a = be_word (load m a 4)"
  by (simp add: GETU32_def be_word_le_word)

lemma PUTU32_be: "PUTU32 a v m = store m a (be_bytes 4 v)"
  by (simp add: PUTU32_def be_bytes_def)

text \<open>The counter after \<open>k\<close> blocks, with the carry out of its lower half.\<close>

lemma counter_halves:
  assumes "k \<le> 2 ^ 32 - unat (ucast (v :: 128 word) :: u32)" and "0 < k"
  shows "(ucast (v + of_nat k) :: u32) = ucast v + of_nat k"
    and "(ucast (drop_bit 32 (v + of_nat k)) :: 96 word) =
      (if ucast v + (of_nat k :: u32) = 0 then ucast (drop_bit 32 v) + 1 else ucast (drop_bit 32 v))"
proof -
  define L H where "L = unat v mod 2 ^ 32" and "H = unat v div 2 ^ 32"
  have L: "unat (ucast v :: u32) = L"
    by (simp add: L_def unsigned_ucast_eq take_bit_eq_mod)
  have v: "unat v = H * 2 ^ 32 + L" "L < 2 ^ 32" by (simp_all add: L_def H_def)
  have k: "L + k \<le> 2 ^ 32" using assms(1) v(2) unfolding L by linarith
  have sum: "unat (v + of_nat k) = (H * 2 ^ 32 + (L + k)) mod 2 ^ 128"
  proof -
    have "unat (v + of_nat k) = (unat v + k) mod 2 ^ 128"
      by (simp add: unat_word_ariths unat_of_nat mod_simps)
    then show ?thesis by (simp only: v(1) add.assoc)
  qed
  have low: "unat (ucast v + of_nat k :: u32) = (L + k) mod 2 ^ 32"
    by (simp add: unat_word_ariths unat_of_nat L mod_simps)
  have "unat (ucast (v + of_nat k) :: u32) = (H * 2 ^ 32 + (L + k)) mod 2 ^ 128 mod 2 ^ 32"
    by (simp add: unsigned_ucast_eq take_bit_eq_mod sum)
  also have "\<dots> = (L + k) mod 2 ^ 32"
    by (simp add: mod_mod_cancel)
  finally show "(ucast (v + of_nat k) :: u32) = ucast v + of_nat k"
    using low by (simp add: word_unat_eq_iff)
  have high: "unat (ucast (drop_bit 32 w) :: 96 word) = unat w div 2 ^ 32 mod 2 ^ 96" for w :: "128 word"
    unfolding unsigned_ucast_eq unat_drop_bit_div by (simp add: take_bit_eq_mod)
  have "unat (ucast (drop_bit 32 (v + of_nat k)) :: 96 word) = (H * 2 ^ 32 + (L + k)) mod 2 ^ 128 div 2 ^ 32 mod 2 ^ 96"
    by (simp only: high sum)
  also have "\<dots> = (H + (L + k) div 2 ^ 32) mod 2 ^ 96"
    by (simp add: mod_mult2_eq [of _ "2 ^ 32" "2 ^ 96", simplified] div_add_self1)
  finally have h: "unat (ucast (drop_bit 32 (v + of_nat k)) :: 96 word) = (H + (L + k) div 2 ^ 32) mod 2 ^ 96" .
  have hv: "unat (ucast (drop_bit 32 v) :: 96 word) = H mod 2 ^ 96"
    by (simp only: high H_def)
  have zero: "ucast v + (of_nat k :: u32) = 0 \<longleftrightarrow> L + k = 2 ^ 32"
    using low k assms(2) by (auto simp: word_unat_eq_iff mod_eq_0_iff_dvd dvd_def)
  show "(ucast (drop_bit 32 (v + of_nat k)) :: 96 word) =
      (if ucast v + (of_nat k :: u32) = 0 then ucast (drop_bit 32 v) + 1 else ucast (drop_bit 32 v))"
  proof (cases "L + k = 2 ^ 32")
    case True
    then show ?thesis
      using h hv zero by (simp add: word_unat_eq_iff unat_word_ariths mod_simps)
  next
    case False
    then have "(L + k) div 2 ^ 32 = 0" using k by simp
    then show ?thesis
      using h hv zero False by (simp add: word_unat_eq_iff)
  qed
qed

lemma counter_advance:
  fixes v :: "128 word"
  assumes "load m ivec 16 = be_bytes 16 v" and "k \<le> 2 ^ 32 - unat (ucast v :: u32)" and "0 < k"
    and "c = ucast v + of_nat k"
  shows "(if c = 0 then ctr96_inc ivec (PUTU32 (ivec + 12) c m) else PUTU32 (ivec + 12) c m) =
    store m ivec (be_bytes 16 (v + of_nat k))"
proof -
  let ?h = "ucast (drop_bit 32 v) :: 96 word"
  have h: "load m ivec 12 = be_bytes 12 ?h"
    using assms(1) load_append [of m ivec 12 4] be_bytes_halves [of v] by simp
  have low: "PUTU32 (ivec + 12) c m = store m ivec (be_bytes 12 ?h @ be_bytes 4 c)"
    using store_append [of m ivec "load m ivec 12" "be_bytes 4 c", unfolded store_load_id] h by (simp add: PUTU32_be)
  have "load (PUTU32 (ivec + 12) c m) ivec 12 = be_bytes 12 ?h"
    using load_store_disjoint [of ivec 12 "ivec + 12" "be_bytes 4 c" m] h by (simp add: PUTU32_be)
  then have "ctr96_inc ivec (PUTU32 (ivec + 12) c m) = store (PUTU32 (ivec + 12) c m) ivec (be_bytes 12 (?h + 1))"
    by (simp add: ctr96_inc_def inc_bytes_be)
  also have "\<dots> = store m ivec (be_bytes 12 (?h + 1) @ be_bytes 4 c)"
    using store_append [of m ivec "be_bytes 12 (?h + 1)" "be_bytes 4 c"]
      store_commute [of ivec "be_bytes 12 (?h + 1)" "ivec + 12" "be_bytes 4 c" m] by (simp add: PUTU32_be)
  finally have high: "ctr96_inc ivec (PUTU32 (ivec + 12) c m) = store m ivec (be_bytes 12 (?h + 1) @ be_bytes 4 c)" .
  have sum: "be_bytes 16 (v + of_nat k) = be_bytes 12 (if c = 0 then ?h + 1 else ?h) @ be_bytes 4 c"
    unfolding be_bytes_halves [of "v + of_nat k"] counter_halves [OF assms(2,3)] assms(4) ..
  show ?thesis
    unfolding sum using low high by presburger
qed

text \<open>The number of blocks of a round and the counter behind them.\<close>

lemma ctr32_round:
  fixes c :: u32 and len :: nat
  assumes "16 \<le> len"
  defines "b \<equiv> min (len div 16) (2 ^ 28)"
  defines "k \<equiv> if unat (c + of_nat b :: u32) < b then b - unat (c + of_nat b :: u32) else b"
  shows "0 < k" and "16 * k \<le> len" and "k \<le> 2 ^ 32 - unat c"
    and "(if unat (c + of_nat b) < b then 0 else c + of_nat b) = c + of_nat k"
proof -
  have b: "0 < b" "16 * b \<le> len" "b \<le> 2 ^ 28"
    using assms(1) by (auto simp: b_def)
  show "0 < k" "16 * k \<le> len" using b by (auto simp: k_def)
  have c: "unat c < 2 ^ 32" by (rule unat_u32_less)
  have "unat (of_nat b :: u32) = b" using b(3) by (simp add: unat_of_nat_u32)
  then have sum: "unat (c + of_nat b) = (if unat c + b < 2 ^ 32 then unat c + b else unat c + b - 2 ^ 32)"
    using unat_add_lem [of c "of_nat b"] b(3) c by (auto simp: unat_word_ariths mod_if)
  show k: "k \<le> 2 ^ 32 - unat c"
    using sum b c by (auto simp: k_def split: if_splits)
  show "(if unat (c + of_nat b) < b then 0 else c + of_nat b) = c + of_nat k"
  proof (cases "unat (c + of_nat b) < b")
    case True
    then have "unat c + k = 2 ^ 32" using sum b c by (auto simp: k_def split: if_splits)
    then have "unat (c + of_nat k) = 0"
      by (simp add: unat_word_ariths unat_of_nat mod_simps)
    then show ?thesis using True by (simp add: unat_eq_0)
  qed (simp add: k_def)
qed

lemma ctr32_blocks_eq:
  assumes "block_function block" and "ctr32_routine block func"
    and "load m ivec 16 = be_bytes 16 v" and "c = ucast v" and "overlap_ok len inp out"
    and "apart inp len ivec 16" and "apart out len ivec 16"
  shows "\<exists>k. len = 16 * k + len mod 16 \<and> ctr32_blocks func c len inp out ivec m =
    (ucast (v + of_nat k), len mod 16, inp + 16 * k, out + 16 * k,
     store (store m out (bxor (load m inp (16 * k)) (ctr_keys block v k))) ivec (be_bytes 16 (v + of_nat k)))"
  using assms(3-7)
proof (induction len arbitrary: v c inp out m rule: less_induct)
  case (less len)
  show ?case
  proof (cases "16 \<le> len")
    case False
    then show ?thesis
      using less.prems(1,2) store_load_id [of m ivec 16]
      by (intro exI [of _ 0], subst ctr32_blocks.simps) simp
  next
    case True
    define b where "b = min (len div 16) (2 ^ 28)"
    define k where "k = (if unat (c + of_nat b :: u32) < b then b - unat (c + of_nat b :: u32) else b)"
    note round = ctr32_round [OF True, of c, folded b_def, folded k_def]
    define m1 where "m1 = store m out (bxor (load m inp (16 * k)) (ctr_keys block v k))"
    define m2 where "m2 = store m1 ivec (be_bytes 16 (v + of_nat k))"
    have keys: "length (ctr_keys block v k) = 16 * k" using assms(1) by (rule length_ctr_keys)
    have ap: "apart inp (16 * k) ivec 16" "apart out (16 * k) ivec 16" "overlap_ok (16 * k) inp out"
      "apart (inp + 16 * k) (len - 16 * k) ivec 16" "apart (out + 16 * k) (len - 16 * k) ivec 16"
      "overlap_ok (len - 16 * k) (inp + 16 * k) (out + 16 * k)"
      using less.prems(3-5) round(2) by (auto simp: apart_def overlap_ok_def)
    have "load m (ivec + 12) 4 = be_bytes 4 (ucast v :: u32)"
      using less.prems(1) load_append [of m ivec 12 4] be_bytes_halves [of v] by simp
    then have "GETU32 m (ivec + 12) = c"
      using less.prems(2) by (simp add: GETU32_be be_word_be_bytes)
    then have func: "func k inp out ivec m = m1"
      using assms(2) ap(1-3) round(3) less.prems(1) by (simp add: ctr32_routine_def be_word_be_bytes m1_def)
    have iv1: "load m1 ivec 16 = be_bytes 16 v"
      using ap(2) keys less.prems(1) by (simp add: m1_def load_store_disjoint apart_def disj_commute)
    from counter_advance [OF this, of k "c + of_nat k"] round(1,3) less.prems(2)
    have adv: "(if c + of_nat k = 0 then ctr96_inc ivec (PUTU32 (ivec + 12) (c + of_nat k) m1)
        else PUTU32 (ivec + 12) (c + of_nat k) m1) = m2"
      by (simp add: m2_def)
    have c2: "c + of_nat k = ucast (v + of_nat k)"
      using counter_halves(1) [of k v] round(1,3) less.prems(2) by simp
    have step: "ctr32_blocks func c len inp out ivec m =
        ctr32_blocks func (c + of_nat k) (len - 16 * k) (inp + 16 * k) (out + 16 * k) ivec m2"
    proof -
      have "(if unat (c + of_nat b) < b then (b - unat (c + of_nat b), 0) else (b, c + of_nat b)) = (k, c + of_nat k)"
        using round(4) by (auto simp: k_def)
      then show ?thesis
        by (subst ctr32_blocks.simps)
          (simp only: if_P [OF True] Let_def b_def [symmetric] prod.case func adv mult.commute [of k 16])
    qed
    have iv2: "load m2 ivec 16 = be_bytes 16 (v + of_nat k)" by (simp add: m2_def)
    have "len - 16 * k < len" using round(1) True by simp
    from less.IH [OF this iv2 c2 ap(6,4,5)] obtain j where
      j: "len - 16 * k = 16 * j + (len - 16 * k) mod 16" and
      rest: "ctr32_blocks func (c + of_nat k) (len - 16 * k) (inp + 16 * k) (out + 16 * k) ivec m2 =
        (ucast (v + of_nat k + of_nat j), (len - 16 * k) mod 16, inp + 16 * k + 16 * j, out + 16 * k + 16 * j,
         store (store m2 (out + 16 * k) (bxor (load m2 (inp + 16 * k) (16 * j)) (ctr_keys block (v + of_nat k) j))) ivec
           (be_bytes 16 (v + of_nat k + of_nat j)))" by blast
    have mod: "(len - 16 * k) mod 16 = len mod 16"
      using le_Suc_ex [OF round(2)] by auto
    let ?x = "bxor (load m inp (16 * k)) (ctr_keys block v k)"
      and ?y = "bxor (load m (inp + 16 * k) (16 * j)) (ctr_keys block (v + of_nat k) j)"
    have lens: "length ?x = 16 * k" "length ?y = 16 * j"
      using keys length_ctr_keys [OF assms(1), of "v + of_nat k" j] by simp_all
    have ap2: "apart (inp + 16 * k) (16 * j) ivec 16" "apart ivec 16 (out + 16 * k) (length ?y)"
      "apart (inp + 16 * k) (16 * j) out (16 * k)"
      using ap(4,5) j less.prems(3) round(2) unfolding lens by (auto simp: apart_def overlap_ok_def)
    have "load m2 (inp + 16 * k) (16 * j) = load m (inp + 16 * k) (16 * j)"
      using ap2(1,3) lens(1) by (simp add: m2_def m1_def load_apart)
    moreover have "store (store m2 (out + 16 * k) ?y) ivec z = store (store m out (?x @ ?y)) ivec z" if "length z = 16" for z
      using store_apart [of ivec "be_bytes 16 (v + of_nat k)" "out + 16 * k" ?y m1] ap2(2) that
        store_append [of m out ?x ?y] lens by (simp add: m2_def m1_def store_store_same)
    moreover have "?x @ ?y = bxor (load m inp (16 * (k + j))) (ctr_keys block v (k + j))"
      using load_append [of m inp "16 * k" "16 * j"] keys by (simp add: ctr_keys_add bxor_append distrib_left)
    ultimately show ?thesis
      using j step rest mod round(2) by (intro exI [of _ "k + j"]) (simp add: distrib_left add.assoc)
  qed
qed

text \<open>Runs over a part of the data and over the rest.\<close>

definition streamed ::
  "addr set \<Rightarrow> (nat \<Rightarrow> mem \<Rightarrow> bool) \<Rightarrow> (nat \<Rightarrow> byte) \<Rightarrow> nat \<Rightarrow> nat \<Rightarrow> addr \<Rightarrow> addr \<Rightarrow> mem \<Rightarrow> mem \<Rightarrow> bool" where
  "streamed own good key_byte p len inp out m m' \<longleftrightarrow> good (p + len) m' \<and>
     load m' out len = bxor (load m inp len) (map key_byte [p..<p + len]) \<and> same_except (own \<union> region out len) m m'"

lemma streamed_append:
  assumes "streamed own good kb p k inp out m m1" and "streamed own good kb (p + k) l (inp + k) (out + k) m1 m2"
    and "region inp (k + l) \<inter> own = {}" and "region out (k + l) \<inter> own = {}" and "overlap_ok (k + l) inp out"
  shows "streamed own good kb p (k + l) inp out m m2"
proof -
  have sub: "region out k \<subseteq> region out (k + l)" "region (inp + k) l \<subseteq> region inp (k + l)" "region (out + k) l \<subseteq> region out (k + l)"
    by (auto simp: subset_iff)
  have "region out k \<inter> (own \<union> region (out + k) l) = {}"
    using sub(1) assms(4) region_disjoint [of out k "out + k" l] by blast
  then have front: "load m2 out k = load m1 out k"
    using assms(2) by (intro same_except_load) (auto simp: streamed_def)
  have "region (inp + k) l \<inter> region out k = {}"
    using assms(5) by (auto simp: region_disjoint overlap_ok_def)
  then have "region (inp + k) l \<inter> (own \<union> region out k) = {}"
    using sub(2) assms(3) by blast
  then have latter: "load m1 (inp + k) l = load m (inp + k) l"
    using assms(1) by (intro same_except_load) (auto simp: streamed_def)
  have "[p..<p + (k + l)] = [p..<p + k] @ [p + k..<p + k + l]"
    using upt_add_eq_append [of p "p + k" l] by (simp add: add.assoc)
  then have "load m2 out (k + l) = bxor (load m inp (k + l)) (map kb [p..<p + (k + l)])"
    using assms(1,2) front latter by (simp add: streamed_def load_append bxor_append add.assoc)
  moreover have "same_except (own \<union> region out (k + l)) m m2"
  proof -
    have "own \<union> region out k \<subseteq> own \<union> region out (k + l)" "own \<union> region (out + k) l \<subseteq> own \<union> region out (k + l)"
      using sub by blast+
    with assms(1,2) show ?thesis
      unfolding streamed_def by (blast intro: same_except_trans same_except_mono)
  qed
  ultimately show ?thesis
    using assms(2) by (simp add: streamed_def add.assoc)
qed

lemma byte_head_prefix:
  assumes "byte_head step n len inp out m = (n', len', inp', out', m')" and "n < 16"
  shows "\<exists>k. len = k + len' \<and> inp' = inp + k \<and> out' = out + k \<and> byte_loop refill step n k inp out m = (n', m') \<and>
    (n' = 0 \<or> len' = 0)"
  using assms
proof (induction len arbitrary: n inp out m)
  case (Suc len)
  show ?case
  proof (cases "n = 0")
    case False
    then have "byte_head step ((n + 1) mod 16) len (inp + 1) (out + 1) (step n inp out m) = (n', len', inp', out', m')"
      using Suc.prems by simp
    from Suc.IH [OF this] obtain k where "len = k + len'" "inp' = inp + 1 + k" "out' = out + 1 + k"
      "byte_loop refill step ((n + 1) mod 16) k (inp + 1) (out + 1) (step n inp out m) = (n', m')" "n' = 0 \<or> len' = 0"
      by auto
    with False show ?thesis by (intro exI [of _ "Suc k"]) simp
  qed (use Suc.prems in auto)
qed auto

text \<open>The key stream of whole blocks and of a part of one.\<close>

lemma ctr_bytes_block:
  assumes "block_function block" and "p mod 16 = 0" and "l \<le> 16"
  shows "map (ctr_byte block iv) [p..<p + l] = take l (ctr_key block iv (p div 16))"
proof (rule nth_equalityI)
  fix i assume "i < length (map (ctr_byte block iv) [p..<p + l])"
  then have i: "i < 16" "i < l" using assms(3) by simp_all
  then have "(p + i) div 16 = p div 16" "(p + i) mod 16 = i" using block_start(5,6) [OF assms(2)] by simp_all
  then have "ctr_byte block iv (p + i) = ctr_key block iv (p div 16) ! i" by (simp only: ctr_byte_def)
  with i show "map (ctr_byte block iv) [p..<p + l] ! i = take l (ctr_key block iv (p div 16)) ! i"
    by simp
qed (use assms in \<open>simp add: length_ctr_key\<close>)

lemma ctr_bytes_blocks:
  assumes "block_function block" and "p mod 16 = 0"
  shows "map (ctr_byte block iv) [p..<p + 16 * k] = ctr_keys block (iv + of_nat (p div 16)) k"
proof (induction k)
  case (Suc k)
  have at: "(p + 16 * k) mod 16 = 0" "(p + 16 * k) div 16 = p div 16 + k" using block_start(1,2) [OF assms(2)] by simp_all
  have shift: "ctr_key block iv (p div 16 + k) = ctr_key block (iv + of_nat (p div 16)) k"
    by (simp add: ctr_key_def add.assoc)
  have "map (ctr_byte block iv) [p + 16 * k..<p + 16 * k + 16] = ctr_key block (iv + of_nat (p div 16)) k"
    using ctr_bytes_block [OF assms(1) at(1), of 16 iv, unfolded at(2) shift]
      length_ctr_key [OF assms(1), of "iv + of_nat (p div 16)" k] by simp
  moreover have "[p..<p + 16 * Suc k] = [p..<p + 16 * k] @ [p + 16 * k..<p + 16 * k + 16]"
    using upt_add_eq_append [of p "p + 16 * k" 16] by (simp add: algebra_simps)
  ultimately show ?case using Suc by (simp add: ctr_keys_Suc)
qed simp

lemma ctr32_tail:
  assumes good: "ctr_state block ivec ecount iv p m" and p: "p mod 16 = 0" and routine: "ctr32_routine block func"
    and l: "0 < l" "l < 16" and ok: "overlap_ok l inp out" "apart inp l ivec 16" "apart out l ivec 16" "apart out l ecount 16" "apart inp l ecount 16"
    and c: "c = ucast (iv + of_nat (p div 16))"
  shows "streamed (region ivec 16 \<union> region ecount 16) (ctr_state block ivec ecount iv) (ctr_byte block iv) p l inp out m
    (let m = func 1 ecount ecount ivec (store m ecount (replicate 16 0));
         m = PUTU32 (ivec + 12) (c + 1) m;
         m = (if c + 1 = 0 then ctr96_inc ivec m else m) in
     fold (xor_byte out inp ecount) [0..<l] m)"
proof -
  let ?v = "iv + of_nat (p div 16)" and ?z = "store m ecount (replicate 16 0)"
  define key where "key = ctr_key block iv (p div 16)"
  define m1 where "m1 = store m ecount key"
  define m2 where "m2 = store m1 ivec (be_bytes 16 (?v + 1))"
  have "(p + 15) div 16 = p div 16" by (rule block_start(3) [OF p])
  then have iv: "load m ivec 16 = be_bytes 16 ?v" and b: "block_function block" and a: "apart ivec 16 ecount 16"
    using good by (simp_all add: ctr_state_def)
  have key: "length key = 16" unfolding key_def by (rule length_ctr_key [OF b])
  have z: "load ?z ivec 16 = be_bytes 16 ?v" "load ?z ecount 16 = replicate 16 0"
    using a iv by (simp_all add: load_apart)
  have "bxor (replicate 16 0) key = key"
    using key by (intro nth_equalityI) simp_all
  moreover have "ctr_keys block ?v 1 = key"
    by (simp add: ctr_keys_def ctr_key_def key_def)
  moreover have "1 \<le> 2 ^ 32 - unat (GETU32 ?z (ivec + 12))"
    using unat_u32_less [of "GETU32 ?z (ivec + 12)"] by linarith
  ultimately have "func 1 ecount ecount ivec ?z = store ?z ecount key"
    using routine [unfolded ctr32_routine_def, rule_format, of 1 ?z ivec ecount ecount] a z
    by (auto simp: overlap_ok_def apart_def be_word_be_bytes)
  then have func: "func 1 ecount ecount ivec ?z = m1"
    using key by (simp add: m1_def store_store_same)
  have "load m1 ivec 16 = be_bytes 16 ?v"
    using a iv key by (simp add: m1_def load_apart)
  from counter_advance [OF this, of 1 "c + 1"] unat_u32_less [of "ucast ?v"]
  have adv: "(if c + 1 = 0 then ctr96_inc ivec (PUTU32 (ivec + 12) (c + 1) m1) else PUTU32 (ivec + 12) (c + 1) m1) = m2"
    by (simp add: m2_def c del: One_nat_def)
  have e2: "load m2 ecount 16 = key"
    using a key load_apart [of ecount 16 ivec "be_bytes 16 (?v + 1)" m1] by (simp add: m2_def m1_def apart_def disj_commute)
  have inp2: "load m2 inp l = load m inp l"
    using ok(2,5) key by (simp add: m2_def m1_def load_apart)
  have ks: "load m2 ecount l = map (ctr_byte block iv) [p..<p + l]"
    using ctr_bytes_block [OF b p, of l iv] l(2) e2 take_load [of l m2 ecount 16] by (simp add: key_def)
  let ?m = "store m2 out (bxor (load m inp l) (map (ctr_byte block iv) [p..<p + l]))"
  have xor: "fold (xor_byte out inp ecount) [0..<l] m2 = ?m"
    using ok(1,4) l(2) by (subst xor_bytes_eq) (auto simp: inp2 ks overlap_ok_def apart_def)
  have at: "(p + l + 15) div 16 = p div 16 + 1" "(p + l) div 16 = p div 16" using block_start(4,5) [OF p] l by simp_all
  have "load ?m ivec 16 = be_bytes 16 (?v + 1)" "load ?m ecount 16 = key"
    using ok(3,4) e2 l by (simp_all add: m2_def load_store_disjoint apart_def disj_commute)
  then have "ctr_state block ivec ecount iv (p + l) ?m"
    using a b at by (simp add: ctr_state_def key_def add.assoc add.commute [of 1])
  moreover have "same_except (region ivec 16 \<union> region ecount 16 \<union> region out l) m ?m"
    unfolding m2_def m1_def using key
    by (intro same_except_trans [OF same_except_trans [OF same_except_store same_except_store] same_except_store]) auto
  ultimately show ?thesis
    unfolding Let_def func adv xor by (simp add: streamed_def)
qed

lemma ctr32_stream:
  assumes good: "ctr_state block ivec ecount iv p m" and routine: "ctr32_routine block func" and ok: "overlap_ok len inp out"
    and ap: "apart inp len ivec 16" "apart out len ivec 16" "apart inp len ecount 16" "apart out len ecount 16"
    and nonnull: "0 < ecount" "0 < inp" "0 < out"
  shows "\<exists>m'. CRYPTO_ctr128_encrypt_ctr32 inp out len ivec ecount (p mod 16) func m = (Ret ((p + len) mod 16), m') \<and>
    streamed (region ivec 16 \<union> region ecount 16) (ctr_state block ivec ecount iv) (ctr_byte block iv) p len inp out m m'"
proof -
  let ?own = "region ivec 16 \<union> region ecount 16"
  let ?st = "streamed ?own (ctr_state block ivec ecount iv) (ctr_byte block iv)"
  let ?refill = "\<lambda>m. ctr128_inc ivec (call_block block ivec ecount m)"
  have own: "region inp len \<inter> ?own = {}" "region out len \<inter> ?own = {}"
    using apart_region [OF ap(1)] apart_region [OF ap(2)] apart_region [OF ap(3)] apart_region [OF ap(4)] by blast+
  have b: "block_function block" using good by (simp add: ctr_state_def)
  obtain n1 len1 inp1 out1 m1 where head: "stream_head (p mod 16) len inp out ecount m = (n1, len1, inp1, out1, m1)"
    by (metis prod_cases5)
  from byte_head_prefix [OF head [unfolded stream_head_eq], of ?refill] obtain k where
    k: "len = k + len1" "inp1 = inp + k" "out1 = out + k" "n1 = 0 \<or> len1 = 0" and
    pre: "byte_loop ?refill (stream_step ecount) (p mod 16) k inp out m = (n1, m1)" by auto
  have "region inp k \<subseteq> region inp len" "region out k \<subseteq> region out len" using k(1) by (auto simp: subset_iff)
  then have "region inp k \<inter> ?own = {}" "region out k \<inter> ?own = {}" "overlap_ok k inp out"
    using own ok k(1) by (blast, blast, auto simp: overlap_ok_def)
  from ctr.stream [OF good this] pre have n1: "n1 = (p + k) mod 16" and first: "?st p k inp out m m1"
    by (auto simp: streamed_def)
  have run: "CRYPTO_ctr128_encrypt_ctr32 inp out len ivec ecount (p mod 16) func m =
      (let (ctr32, len, inp, out, m) = ctr32_blocks func (GETU32 m1 (ivec + 12)) len1 inp1 out1 ivec m1 in
       if len \<noteq> 0 then
         let m = func 1 ecount ecount ivec (store m ecount (replicate 16 0));
             ctr32 = ctr32 + 1;
             m = PUTU32 (ivec + 12) ctr32 m;
             m = (if ctr32 = 0 then ctr96_inc ivec m else m) in
         (Ret (n1 + len), fold (xor_byte out inp ecount) [n1..<n1 + len] m)
       else (Ret n1, m))"
    using nonnull unfolding CRYPTO_ctr128_encrypt_ctr32_def head by (simp add: Let_def)
  show ?thesis
  proof (cases "len1 = 0")
    case True
    then have "ctr32_blocks func c len1 inp1 out1 ivec m1 = (c, 0, inp1, out1, m1)" for c
      by (subst ctr32_blocks.simps) simp
    then show ?thesis using run first k True n1 by simp
  next
    case False
    with k(4) n1 have q: "(p + k) mod 16 = 0" and n0: "n1 = 0" by simp_all
    have good1: "ctr_state block ivec ecount iv (p + k) m1" using first by (simp add: streamed_def)
    let ?v = "iv + of_nat ((p + k) div 16)"
    have "(p + k + 15) div 16 = (p + k) div 16" by (rule block_start(3) [OF q])
    then have iv1: "load m1 ivec 16 = be_bytes 16 ?v"
      using good1 by (simp add: ctr_state_def)
    then have "load m1 (ivec + 12) 4 = be_bytes 4 (ucast ?v :: u32)"
      using load_append [of m1 ivec 12 4] be_bytes_halves [of ?v] by simp
    then have c: "GETU32 m1 (ivec + 12) = ucast ?v"
      by (simp add: GETU32_be be_word_be_bytes)
    have ap1: "overlap_ok len1 inp1 out1" "apart inp1 len1 ivec 16" "apart out1 len1 ivec 16"
      using ok ap(1,2) k(1-3) by (auto simp: overlap_ok_def apart_def)
    from ctr32_blocks_eq [OF b routine iv1 c ap1] obtain j where j: "len1 = 16 * j + len1 mod 16" and
      blocks: "ctr32_blocks func (GETU32 m1 (ivec + 12)) len1 inp1 out1 ivec m1 =
        (ucast (?v + of_nat j), len1 mod 16, inp1 + 16 * j, out1 + 16 * j,
         store (store m1 out1 (bxor (load m1 inp1 (16 * j)) (ctr_keys block ?v j))) ivec (be_bytes 16 (?v + of_nat j)))"
      by blast
    define l where "l = len1 mod 16"
    define m2 where "m2 = store (store m1 out1 (bxor (load m1 inp1 (16 * j)) (ctr_keys block ?v j))) ivec (be_bytes 16 (?v + of_nat j))"
    define p2 where "p2 = p + k + 16 * j"
    note blocks = blocks [folded m2_def l_def]
    have keys: "length (ctr_keys block ?v j) = 16 * j" by (rule length_ctr_keys [OF b])
    have at: "p2 mod 16 = 0" "p2 div 16 = (p + k) div 16 + j" "(p2 + 15) div 16 = (p + k) div 16 + j"
      using block_start(1,2) [OF q, of j] block_start(3) [of p2] by (simp_all add: p2_def)
    have "load m2 out1 (16 * j) = bxor (load m1 inp1 (16 * j)) (ctr_keys block ?v j)"
      using ap1(3) j keys load_apart [of out1 "16 * j" ivec "be_bytes 16 (?v + of_nat j)"]
      by (auto simp: m2_def apart_def)
    moreover have "ctr_state block ivec ecount iv p2 m2"
      using good1 at by (simp add: ctr_state_def m2_def add.assoc)
    moreover have "same_except (?own \<union> region out1 (16 * j)) m1 m2"
      unfolding m2_def using keys by (intro same_except_trans [OF same_except_store same_except_store]) auto
    ultimately have second: "?st (p + k) (16 * j) (inp + k) (out + k) m1 m2"
      using ctr_bytes_blocks [OF b q, of iv j] k(2,3) by (simp add: streamed_def p2_def)
    have upto: "?st p (k + 16 * j) inp out m m2"
    proof (rule streamed_append [OF first second])
      have "region inp (k + 16 * j) \<subseteq> region inp len" "region out (k + 16 * j) \<subseteq> region out len"
        using k(1) j by (auto simp: subset_iff)
      then show "region inp (k + 16 * j) \<inter> ?own = {}" "region out (k + 16 * j) \<inter> ?own = {}" using own by blast+
      show "overlap_ok (k + 16 * j) inp out" using ok k(1) j by (auto simp: overlap_ok_def)
    qed
    show ?thesis
    proof (cases "l = 0")
      case True
      with j have "len = k + 16 * j" using k(1) by (simp add: l_def)
      with upto show ?thesis
        using run blocks True n0 at(1) by (simp add: p2_def add.assoc)
    next
      case False
      have l: "0 < l" "l < 16" "len = k + 16 * j + l" using False j k(1) by (simp_all add: l_def)
      have ap2: "overlap_ok l (inp + (k + 16 * j)) (out + (k + 16 * j))" "apart (inp + (k + 16 * j)) l ivec 16"
        "apart (out + (k + 16 * j)) l ivec 16" "apart (out + (k + 16 * j)) l ecount 16" "apart (inp + (k + 16 * j)) l ecount 16"
        using ok ap l(3) by (auto simp: overlap_ok_def apart_def)
      have good2: "ctr_state block ivec ecount iv p2 m2" using upto by (simp add: streamed_def p2_def add.assoc)
      have c2: "ucast (?v + of_nat j) = (ucast (iv + of_nat (p2 div 16)) :: u32)" by (simp add: at(2) add.assoc)
      note third = ctr32_tail [OF good2 at(1) routine l(1,2) ap2 c2]
      have third': "?st (p + (k + 16 * j)) l (inp + (k + 16 * j)) (out + (k + 16 * j)) m2
        (snd (CRYPTO_ctr128_encrypt_ctr32 inp out len ivec ecount (p mod 16) func m))"
        using third run blocks False n0 k(2,3) by (simp add: p2_def add.assoc Let_def)
      have "?st p (k + 16 * j + l) inp out m (snd (CRYPTO_ctr128_encrypt_ctr32 inp out len ivec ecount (p mod 16) func m))"
        by (rule streamed_append [OF upto third']) (use own ok l(3) in simp_all)
      moreover have "fst (CRYPTO_ctr128_encrypt_ctr32 inp out len ivec ecount (p mod 16) func m) = Ret l"
        using run blocks False n0 by (simp add: Let_def)
      moreover have "(p + len) mod 16 = l"
        using block_start(6) [OF at(1) l(2)] l(3) by (simp add: p2_def add.assoc)
      ultimately show ?thesis using l(3) by (metis prod.collapse)
    qed
  qed
qed

section \<open>The properties\<close>

text \<open>C39: From the state of position \<open>p\<close> on, a call of counter mode adds the key stream from \<open>p\<close> on to
  the data, in place or not, aligned or not, and leaves the state of the position behind the data: the chunks in which data
  comes do not matter, and nothing but the output, the vector and the key stream buffer is written. The variant with a
  routine that counts with 32 bits writes the same and leaves the same state, also where the 32 bits wrap around.\<close>

theorem ctr_is_key_stream:
  assumes "ctr_state block ivec ecount iv p m" and "ctr32_routine block func" and "overlap_ok len inp out"
    and "apart inp len ivec 16" "apart out len ivec 16" "apart inp len ecount 16" "apart out len ecount 16"
    and "0 < ecount" "0 < inp" "0 < out"
  shows "\<exists>m1 m2. CRYPTO_ctr128_encrypt strict inp out len ivec ecount (p mod 16) block m = (Ret ((p + len) mod 16), m1) \<and>
    CRYPTO_ctr128_encrypt_ctr32 inp out len ivec ecount (p mod 16) func m = (Ret ((p + len) mod 16), m2) \<and>
    streamed (region ivec 16 \<union> region ecount 16) (ctr_state block ivec ecount iv) (ctr_byte block iv) p len inp out m m1 \<and>
    streamed (region ivec 16 \<union> region ecount 16) (ctr_state block ivec ecount iv) (ctr_byte block iv) p len inp out m m2"
  using ctr128_stream [OF assms(1,3-10), of strict] ctr32_stream [OF assms]
  unfolding streamed_def by blast

lemma counter_at_limit:
  "ctr_state rev 2000 3000 (2 ^ 64 + 0xFFFFFFFF) 0 (store (\<lambda>_. 7) 2000 (be_bytes 16 (2 ^ 64 + 0xFFFFFFFF :: 128 word)))"
  by (simp add: ctr_state_def block_function_def apart_def)

lemma ctr_is_key_stream_witness:
  "\<exists>func m2. CRYPTO_ctr128_encrypt_ctr32 100 100 40 2000 3000 0 func
      (store (\<lambda>_. 7) 2000 (be_bytes 16 (2 ^ 64 + 0xFFFFFFFF :: 128 word))) = (Ret 8, m2) \<and>
    load m2 100 40 = bxor (replicate 40 7) (map (ctr_byte rev (2 ^ 64 + 0xFFFFFFFF)) [0..<40]) \<and>
    load m2 2000 16 = be_bytes 16 (2 ^ 64 + 2 ^ 32 + 2 :: 128 word)"
proof -
  define func :: ctr128 where "func = (\<lambda>k inp out ivec m.
    store m out (bxor (load m inp (16 * k)) (ctr_keys rev (be_word (load m ivec 16)) k)))"
  let ?m = "store (\<lambda>_. 7) 2000 (be_bytes 16 (2 ^ 64 + 0xFFFFFFFF :: 128 word)) :: mem"
  have routine: "ctr32_routine rev func"
    by (simp add: ctr32_routine_def func_def)
  obtain m2 where
    run: "CRYPTO_ctr128_encrypt_ctr32 100 100 40 2000 3000 (0 mod 16) func ?m = (Ret ((0 + 40) mod 16), m2)" and
    st: "streamed (region 2000 16 \<union> region 3000 16) (ctr_state rev 2000 3000 (2 ^ 64 + 0xFFFFFFFF))
      (ctr_byte rev (2 ^ 64 + 0xFFFFFFFF)) 0 40 100 100 ?m m2"
    using ctr_is_key_stream [OF counter_at_limit routine, where len = 40 and inp = 100 and out = 100 and strict = False]
    by (auto simp: overlap_ok_def apart_def)
  have "load ?m 100 40 = replicate 40 7"
    by (rule nth_equalityI) (auto simp: store_def)
  then show ?thesis
    using run st by (intro exI [of _ func] exI [of _ m2]) (simp add: streamed_def ctr_state_def)
qed

text \<open>Output feedback is the stream of the iterated block function in the same sense, with its state in the vector alone;
  so a second call on the output, from the state of the same position, restores the data.\<close>

theorem ofb_is_key_stream:
  assumes "ofb_state block ivec iv p m" and "ofb_state block ivec iv p m'" and "overlap_ok len inp out"
    and "apart inp len ivec 16" "apart out len ivec 16" and "0 < ivec" "0 < inp" "0 < out"
    and "load m' inp len = bxor (load m inp len) (map (ofb_byte block iv) [p..<p + len])"
  shows "\<exists>m1 m2. CRYPTO_ofb128_encrypt inp out len ivec (p mod 16) block m = (Ret ((p + len) mod 16), m1) \<and>
    streamed (region ivec 16) (ofb_state block ivec iv) (ofb_byte block iv) p len inp out m m1 \<and>
    CRYPTO_ofb128_encrypt inp out len ivec (p mod 16) block m' = (Ret ((p + len) mod 16), m2) \<and>
    load m2 out len = load m inp len"
  using ofb128_stream [OF assms(1,3-8)] ofb128_stream [OF assms(2,3-8)] assms(9)
  by (auto simp: streamed_def bxor_cancel)

lemma ofb_is_key_stream_witness:
  "\<exists>m1. CRYPTO_ofb128_encrypt 100 100 20 2000 0 rev (store (\<lambda>_. 7) 2000 (replicate 16 1)) = (Ret 4, m1) \<and>
    load m1 100 20 = replicate 20 6"
proof -
  let ?m = "store (\<lambda>_. 7) 2000 (replicate 16 1) :: mem"
  have pow: "(rev ^^ k) (replicate 16 1) = (replicate 16 1 :: byte list)" for k
    by (induction k) simp_all
  have old: "load ?m 100 20 = replicate 20 7"
    by (rule nth_equalityI) (auto simp: store_def)
  have state: "ofb_state rev 2000 (replicate 16 1) 0 ?m"
    by (simp add: ofb_state_def block_function_def)
  let ?k = "map (ofb_byte rev (replicate 16 1)) [0..<0 + 20]"
  have k: "bxor (replicate 20 7) ?k = replicate 20 6"
    by (rule nth_equalityI) (auto simp: ofb_byte_def pow)
  have "ofb_state rev 2000 (replicate 16 1) 0 (store ?m 100 (bxor (load ?m 100 20) ?k))"
    using state by (simp add: ofb_state_def load_store_disjoint)
  from ofb_is_key_stream [OF state this, of 20 100 100] show ?thesis
    using old k by (auto simp: overlap_ok_def apart_def streamed_def)
qed

end
