(* ===== verification/Modes_Feedback.thy ===== *)
theory Modes_Feedback
  imports Modes_Stream
begin

text \<open>
  Cipher feedback on byte strings: in units of 16 bytes with a position within the unit, and in units of
  one byte and of one bit, where the vector is a shift register.
\<close>

unbundle bit_operations_syntax

section \<open>The mode on byte strings\<close>

fun cfb_list :: "bool \<Rightarrow> block128 \<Rightarrow> nat \<Rightarrow> byte list \<Rightarrow> byte list \<Rightarrow> byte list \<times> nat \<times> byte list" where
  "cfb_list enc block n v [] = ([], n, v)"
| "cfb_list enc block n v (x # xs) =
     (let v = (if n = 0 then block v else v);
          y = v ! n XOR x;
          (ys, r) = cfb_list enc block ((n + 1) mod 16) (v[n := if enc then y else x]) xs in
      (y # ys, r))"

lemma length_cfb_list: "cfb_list enc block n v xs = (ys, r) \<Longrightarrow> length ys = length xs"
  by (induction xs arbitrary: n v ys r) (auto simp: Let_def split: prod.splits)

lemma length_cfb_vector:
  "block_function block \<Longrightarrow> length v = 16 \<Longrightarrow> length (snd (snd (cfb_list enc block n v xs))) = 16"
  by (induction xs arbitrary: n v) (simp_all add: Let_def case_prod_beta block_length)

text \<open>The chunks do not matter, and decryption with the same vector is the inverse.\<close>

lemma cfb_list_append:
  "cfb_list enc block n v (xs @ ys) =
    (let (as, n', v') = cfb_list enc block n v xs; (bs, r) = cfb_list enc block n' v' ys in (as @ bs, r))"
  by (induction xs arbitrary: n v) (simp_all add: Let_def split: prod.splits)

lemma cfb_list_inverse:
  "cfb_list True block n v xs = (ys, r) \<Longrightarrow> cfb_list False block n v ys = (xs, r)"
proof (induction xs arbitrary: n v ys r)
  case (Cons x xs)
  let ?v = "if n = 0 then block v else v"
  let ?y = "?v ! n XOR x"
  obtain zs r' where rest: "cfb_list True block ((n + 1) mod 16) (?v[n := ?y]) xs = (zs, r')"
    by (cases "cfb_list True block ((n + 1) mod 16) (?v[n := ?y]) xs")
  with Cons.prems have "ys = ?y # zs" "r = r'" by (auto simp: Let_def)
  moreover have "?v ! n XOR ?y = x" by (simp add: xor.assoc [symmetric])
  ultimately show ?case
    using Cons.IH [OF rest] by (simp add: Let_def)
qed simp

section \<open>In memory\<close>

lemma cfb_step_load:
  assumes "n < 16" and "inp + 1 \<le> ivec \<or> ivec + 16 \<le> inp" and "out + 1 \<le> ivec \<or> ivec + 16 \<le> out" and "length v = 16"
  shows "cfb_step enc ivec n inp out (store m ivec v) =
    store (store m out [v ! n XOR m inp]) ivec (v[n := if enc then v ! n XOR m inp else m inp])"
proof -
  have read: "store m ivec v (ivec + n) = v ! n" "store m ivec v inp = m inp"
    using assms by (auto simp: store_def)
  have "out \<noteq> ivec + n" using assms(1,3) by auto
  from cfb_step_eq [OF this, of enc inp "store m ivec v"]
  have "cfb_step enc ivec n inp out (store m ivec v) =
      (store (store m ivec v) out [v ! n XOR m inp])(ivec + n := if enc then v ! n XOR m inp else m inp)"
    by (simp add: read fed_back_def bxor_def upd_store)
  also have "\<dots> = store (store m out [v ! n XOR m inp]) ivec (v[n := if enc then v ! n XOR m inp else m inp])"
    using assms by (auto simp: store_def fun_eq_iff nth_list_update)
  finally show ?thesis .
qed

lemma cfb_loop_eq:
  assumes "block_function block"
  shows "n < 16 \<Longrightarrow> length v = 16 \<Longrightarrow> overlap_ok len inp out \<Longrightarrow> apart inp len ivec 16 \<Longrightarrow> apart out len ivec 16 \<Longrightarrow>
    byte_loop (call_block block ivec ivec) (cfb_step enc ivec) n len inp out (store m ivec v) =
      (let (ys, n', v') = cfb_list enc block n v (load m inp len) in (n', store (store m out ys) ivec v'))"
proof (induction len arbitrary: n v inp out m)
  case (Suc len)
  define v1 where "v1 = (if n = 0 then block v else v)"
  have v1: "length v1 = 16" using Suc.prems(2) assms by (simp add: v1_def block_length)
  let ?x = "m inp" and ?y = "v1 ! n XOR m inp" and ?v2 = "v1[n := if enc then v1 ! n XOR m inp else m inp]"
  let ?m = "store m out [?y]"
  have refill: "(if n = 0 then call_block block ivec ivec (store m ivec v) else store m ivec v) = store m ivec v1"
    using Suc.prems(2) assms by (simp add: v1_def call_block_same)
  have ap: "inp + 1 \<le> ivec \<or> ivec + 16 \<le> inp" "out + 1 \<le> ivec \<or> ivec + 16 \<le> out"
    "overlap_ok len (inp + 1) (out + 1)" "apart (inp + 1) len ivec 16" "apart (out + 1) len ivec 16"
    using Suc.prems(3-5) by (auto simp: apart_def overlap_ok_def)
  have "load ?m (inp + 1) len = load m (inp + 1) len"
    using Suc.prems(3) by (intro load_store_disjoint) (auto simp: overlap_ok_def)
  moreover have "load m inp (Suc len) = ?x # load m (inp + 1) len" by (simp add: load_Suc)
  moreover have "store (store ?m (out + 1) ys) ivec w = store (store m out (?y # ys)) ivec w" for ys w
    using store_append [of m out "[?y]" ys] by simp
  ultimately show ?case
    using Suc.IH [of "(n + 1) mod 16" ?v2 "inp + 1" "out + 1" ?m] ap v1 refill cfb_step_load [OF Suc.prems(1) ap(1,2) v1]
    by (simp add: Let_def v1_def [symmetric] split: prod.split)
qed simp

lemma cfb128_eq:
  assumes "block_function block" and "num < 16" and "overlap_ok len inp out" and "apart inp len ivec 16" "apart out len ivec 16"
    and "0 < ivec" "0 < inp" "0 < out"
  shows "CRYPTO_cfb128_encrypt strict inp out len ivec num enc block m =
    (let (ys, n, v) = cfb_list enc block num (load m ivec 16) (load m inp len) in (Ret n, store (store m out ys) ivec v))"
proof -
  have "apart ivec 16 inp len" "apart ivec 16 out len" using assms(4,5) by (auto simp: apart_def)
  from cfb128_loop [OF assms(3) this assms(2,6-8)] show ?thesis
    using cfb_loop_eq [OF assms(1,2) _ assms(3-5), of "load m ivec 16" enc m]
    by (simp add: store_load_id Let_def split: prod.splits)
qed

section \<open>Units of one byte and of one bit\<close>

lemma shift_register_8:
  assumes "length v = 16" and "block_function block" and "length junk = 33"
  shows "cfbr_encrypt_block junk [x] 8 enc block v =
    ([x XOR hd (block v)], tl v @ [if enc then x XOR hd (block v) else x])"
proof -
  have "block v \<noteq> []" using block_length [OF assms(2,1)] by auto
  then show ?thesis
    using assms(1) by (cases v) (auto simp: cfbr_encrypt_block_def Let_def hd_conv_nth)
qed

text \<open>
  A step of one bit takes the top bit of the encrypted vector; the vector moves up by one bit and takes in the bit
  of the cipher text.
\<close>

lemma shift_register_1:
  assumes "length v = 16" and "block_function block" and "length junk = 33"
  shows "cfbr_encrypt_block junk [x] 1 enc block v =
    ([x XOR hd (block v)],
     map (\<lambda>n. push_bit 1 ((v @ [if enc then x XOR hd (block v) else x]) ! n) OR
       drop_bit 7 ((v @ [if enc then x XOR hd (block v) else x]) ! Suc n)) [0..<16])"
proof -
  have b: "block v \<noteq> []" using block_length [OF assms(2,1)] by auto
  let ?y = "if enc then x XOR hd (block v) else x"
  have "(v @ ?y # drop 17 junk) ! i = (v @ [?y]) ! i" if "i \<le> 16" for i
    using that assms(1) by (auto simp: nth_append nth_Cons split: nat.splits)
  then show ?thesis
    using assms(1) b by (auto simp: cfbr_encrypt_block_def Let_def hd_conv_nth)
qed

section \<open>The properties\<close>

text \<open>Two calls for two parts of the data are one call for both.\<close>

lemma cfb128_parts:
  assumes "block_function block" and "num < 16" and "overlap_ok (k + l) inp out"
    and "apart inp (k + l) ivec 16" "apart out (k + l) ivec 16" and "0 < ivec" "0 < inp" "0 < out"
    and first: "CRYPTO_cfb128_encrypt strict inp out k ivec num enc block m = (Ret n, m1)"
  shows "CRYPTO_cfb128_encrypt strict' (inp + k) (out + k) l ivec n enc block m1 =
    CRYPTO_cfb128_encrypt strict inp out (k + l) ivec num enc block m"
proof -
  obtain ys n1 v where list: "cfb_list enc block num (load m ivec 16) (load m inp k) = (ys, n1, v)"
    by (metis prod_cases3)
  have part: "overlap_ok k inp out" "apart inp k ivec 16" "apart out k ivec 16" "overlap_ok l (inp + k) (out + k)"
    "apart (inp + k) l ivec 16" "apart (out + k) l ivec 16"
    using assms(3-5) by (auto simp: overlap_ok_def apart_def)
  have m1: "m1 = store (store m out ys) ivec v" and n: "n = n1"
    using first cfb128_eq [OF assms(1,2) part(1-3) assms(6-8), of strict enc m] by (simp_all add: list)
  have v: "length v = 16" and ys: "length ys = k"
    using length_cfb_vector [OF assms(1), of "load m ivec 16" enc num "load m inp k"] length_cfb_list [OF list] by (simp_all add: list)
  have n16: "n1 < 16"
  proof -
    have "fst (snd (cfb_list enc block num w xs)) < 16" if "num < 16" for num w xs
      using that by (induction xs arbitrary: num w) (simp_all add: Let_def case_prod_beta)
    from this [OF assms(2), of "load m ivec 16" "load m inp k"] show ?thesis by (simp add: list)
  qed
  have "load m1 ivec 16 = v" using v by (simp add: m1)
  moreover have "load m1 (inp + k) l = load m (inp + k) l"
    using part(5) v ys assms(3) by (simp add: m1 load_apart) (auto simp: overlap_ok_def intro!: load_store_disjoint)
  moreover have "store (store m1 (out + k) zs) ivec w = store (store m out (ys @ zs)) ivec w"
    if "length zs = l" "length w = 16" for zs w
    using store_apart [of ivec v "out + k" zs "store m out ys"] store_append [of m out ys zs] part(6) that v ys
    by (simp add: m1 store_store_same apart_def disj_commute)
  moreover have "load m inp (k + l) = load m inp k @ load m (inp + k) l" by (rule load_append)
  moreover obtain zs n2 w where list2: "cfb_list enc block n1 v (load m (inp + k) l) = (zs, n2, w)"
    by (metis prod_cases3)
  moreover have "length zs = l" "length w = 16"
    using length_cfb_list [OF list2] length_cfb_vector [OF assms(1) v, of enc n1 "load m (inp + k) l"] by (simp_all add: list2)
  ultimately show ?thesis
    using cfb128_eq [OF assms(1) n16 part(4-6) assms(6), of strict' enc m1] cfb128_eq [OF assms(1-6), of strict enc m] assms(7,8)
    by (simp add: n cfb_list_append list)
qed

text \<open>C40: Cipher feedback in place is undone by decryption in place from the same vector and position, with the same final
  vector and position, whatever the alignment; and it does not matter in which parts the data comes.\<close>

theorem cfb_round_trip:
  assumes "block_function block" and "num < 16" and "length v = 16" and "apart a (k + l) ivec 16" and "0 < ivec" "0 < a"
  shows "\<exists>n m1 m2. CRYPTO_cfb128_encrypt strict a a (k + l) ivec num True block (store m ivec v) = (Ret n, m1) \<and>
    CRYPTO_cfb128_encrypt strict' a a (k + l) ivec num False block (store m1 ivec v) = (Ret n, m2) \<and>
    load m2 a (k + l) = load m a (k + l) \<and> load m2 ivec 16 = load m1 ivec 16 \<and>
    bnd (CRYPTO_cfb128_encrypt strict a a k ivec num enc block)
      (\<lambda>n. CRYPTO_cfb128_encrypt strict' (a + k) (a + k) l ivec n enc block) m =
      CRYPTO_cfb128_encrypt strict a a (k + l) ivec num enc block m"
proof -
  have ok: "overlap_ok j a a" for j by (simp add: overlap_ok_def)
  let ?p = "load m a (k + l)"
  obtain ys n w where list: "cfb_list True block num v ?p = (ys, n, w)" by (metis prod_cases3)
  note inv = cfb_list_inverse [OF list]
  have ys: "length ys = k + l" using length_cfb_list [OF list] by simp
  have w: "length w = 16" using length_cfb_vector [OF assms(1,3), of True num ?p] list by simp
  have p: "load (store m ivec v) a (k + l) = ?p" using assms(3,4) by (simp add: load_apart)
  define m1 where "m1 = store (store (store m ivec v) a ys) ivec w"
  have enc: "CRYPTO_cfb128_encrypt strict a a (k + l) ivec num True block (store m ivec v) = (Ret n, m1)"
    using assms(3) by (simp add: cfb128_eq [OF assms(1,2) ok assms(4,4,5,6,6)] p list m1_def)
  have "load (store m1 ivec v) a (k + l) = ys"
    using assms(3,4) w ys by (simp add: load_apart m1_def)
  then have dec: "CRYPTO_cfb128_encrypt strict' a a (k + l) ivec num False block (store m1 ivec v) =
      (Ret n, store (store (store m1 ivec v) a ?p) ivec w)"
    using assms(3) by (simp add: cfb128_eq [OF assms(1,2) ok assms(4,4,5,6,6)] inv)
  have "load (store (store (store m1 ivec v) a ?p) ivec w) a (k + l) = ?p"
    using assms(4) w by (simp add: load_apart)
  moreover have "bnd (CRYPTO_cfb128_encrypt strict a a k ivec num enc block)
      (\<lambda>n. CRYPTO_cfb128_encrypt strict' (a + k) (a + k) l ivec n enc block) m =
      CRYPTO_cfb128_encrypt strict a a (k + l) ivec num enc block m"
  proof -
    have "apart a k ivec 16" using assms(4) by (auto simp: apart_def)
    note eq = cfb128_eq [OF assms(1,2) ok this this assms(5,6,6), of strict enc m]
    obtain ys1 n1 v1 where "cfb_list enc block num (load m ivec 16) (load m a k) = (ys1, n1, v1)"
      by (metis prod_cases3)
    with eq have first: "CRYPTO_cfb128_encrypt strict a a k ivec num enc block m = (Ret n1, store (store m a ys1) ivec v1)"
      by simp
    from cfb128_parts [OF assms(1,2) ok assms(4,4,5,6,6) this] show ?thesis
      using first by (simp add: bnd_def)
  qed
  ultimately show ?thesis
    using enc dec w by (intro exI [of _ n] exI [of _ m1] exI) (auto simp: m1_def)
qed

lemma cfb_round_trip_witness:
  "\<exists>n m1 m2. CRYPTO_cfb128_encrypt True 1001 1001 40 2000 3 True rev (store (\<lambda>_. 7) 2000 (replicate 16 1)) = (Ret n, m1) \<and>
    CRYPTO_cfb128_encrypt False 1001 1001 40 2000 3 False rev (store m1 2000 (replicate 16 1)) = (Ret n, m2) \<and>
    load m2 1001 40 = load (\<lambda>_. 7) 1001 40"
  using cfb_round_trip [of rev 3 "replicate 16 1" 1001 20 20 2000 True "\<lambda>_. 7" False True]
  by (auto simp: block_function_def apart_def)

end
