(* ===== verification/Bn_Words.thy ===== *)
theory Bn_Words
  imports Constant_Time
begin

text \<open>
  BoringSSL's arithmetic on arrays of 64-bit words (\<open>crypto/fipsmodule/bn/generic.c\<close>, the comparisons of
  \<open>cmp.c\<close>). An array stands for a number, least significant word first (\<open>bn_nat\<close>). The routines
  take the arrays as lists of words; \<open>num\<close> is the number of words that take part. A word of the
  result is written after the words of the same index are read, so the arrays may be the same.

  The macros have two versions, with a type of twice the width of a word (\<open>BN_ULLONG\<close>, here 128 bits)
  and with a multiplication that returns the two halves of the product. The loops are unrolled four
  times in the code and here; each is the loop of single steps.
\<close>

unbundle bit_operations_syntax

type_synonym u128 = "128 word"

section \<open>Numbers as arrays of words\<close>

definition bn_base :: nat where
  "bn_base = 2 ^ 64"

fun bn_nat :: "u64 list \<Rightarrow> nat" where
  "bn_nat [] = 0"
| "bn_nat (w # ws) = unat w + bn_base * bn_nat ws"

lemma bn_base_pos [simp]: "0 < bn_base" and bn_base_neq_0 [simp]: "bn_base \<noteq> 0"
  and bn_base_gt_1 [simp]: "1 < bn_base"
  and bn_base_power_pos [simp]: "0 < bn_base ^ n"
  by (simp_all add: bn_base_def)

lemma unat_bn_base [simp]: "unat (w :: u64) < bn_base"
  using unat_u64_less by (simp add: bn_base_def)

lemma bn_nat_append: "bn_nat (xs @ ys) = bn_nat xs + bn_base ^ length xs * bn_nat ys"
  by (induction xs) (simp_all add: algebra_simps)

lemma bn_nat_zeros [simp]: "bn_nat (replicate n 0) = 0"
  by (induction n) simp_all

lemma bn_nat_less: "bn_nat ws < bn_base ^ length ws"
proof (induction ws)
  case (Cons w ws)
  have "unat w + bn_base * bn_nat ws < bn_base * (bn_nat ws + 1)"
    by (simp add: algebra_simps)
  also have "... \<le> bn_base * bn_base ^ length ws"
    using Cons by (intro mult_le_mono2) simp
  finally show ?case
    by simp
qed simp

lemma unat_add_base: "unat (a + b :: u64) = (unat a + unat b) mod bn_base"
  by (simp add: unat_word_ariths bn_base_def)

lemma digits_eq:
  fixes x y X Y :: nat
  assumes "x + bn_base * X = y + bn_base * Y" and "x < bn_base" and "y < bn_base"
  shows "x = y \<and> X = Y"
proof -
  have "(x + bn_base * X) mod bn_base = x" "(y + bn_base * Y) mod bn_base = y"
    using assms(2,3) by simp_all
  then have "x = y"
    using assms(1) by simp
  then show ?thesis
    using assms(1) by simp
qed

lemma bn_nat_inj:
  assumes "bn_nat xs = bn_nat ys" and "length xs = length ys"
  shows "xs = ys"
  using assms(2,1)
proof (induction xs ys rule: list_induct2)
  case (Cons x xs y ys)
  then have "unat x = unat y \<and> bn_nat xs = bn_nat ys"
    by (intro digits_eq) simp_all
  with Cons.IH show ?case
    by (simp add: word_unat_eq_iff)
qed simp

section \<open>The macros\<close>

definition Lw :: "u128 \<Rightarrow> u64" where
  "Lw t = ucast t"

definition Hw :: "u128 \<Rightarrow> u64" where
  "Hw t = ucast (drop_bit 64 t)"

definition mul_add :: "u64 \<Rightarrow> u64 \<Rightarrow> u64 \<Rightarrow> u64 \<Rightarrow> u64 \<times> u64" where
  "mul_add r a w c = (let t = ucast w * ucast a + ucast r + ucast c in (Lw t, Hw t))"

definition mul :: "u64 \<Rightarrow> u64 \<Rightarrow> u64 \<Rightarrow> u64 \<times> u64" where
  "mul a w c = (let t = ucast w * ucast a + ucast c in (Lw t, Hw t))"

definition sqr :: "u64 \<Rightarrow> u64 \<times> u64" where
  "sqr a = (let t = ucast a * ucast a in (Lw t, Hw t))"

text \<open>
  Without \<open>BN_ULLONG\<close>: \<open>BN_UMULT_LOHI\<close> is the compiler's \<open>_umul128\<close>, which returns the low and the high
  word of the product.
\<close>

definition BN_UMULT_LOHI :: "u64 \<Rightarrow> u64 \<Rightarrow> u64 \<times> u64" where
  "BN_UMULT_LOHI a b = (of_nat (unat a * unat b mod bn_base), of_nat (unat a * unat b div bn_base))"

definition mul_add_lohi :: "u64 \<Rightarrow> u64 \<Rightarrow> u64 \<Rightarrow> u64 \<Rightarrow> u64 \<times> u64" where
  "mul_add_lohi r a w c =
     (let (low, high) = BN_UMULT_LOHI w a;
          r' = r + c;
          c' = (if r' < c then 1 else 0) + high;
          r'' = r' + low in
      (r'', c' + (if r'' < low then 1 else 0)))"

definition mul_lohi :: "u64 \<Rightarrow> u64 \<Rightarrow> u64 \<Rightarrow> u64 \<times> u64" where
  "mul_lohi a w c =
     (let (low, high) = BN_UMULT_LOHI w a; r = low + c in (r, high + (if r < low then 1 else 0)))"

definition sqr_lohi :: "u64 \<Rightarrow> u64 \<times> u64" where
  "sqr_lohi a = BN_UMULT_LOHI a a"

lemma unat_u64_u128 [simp]: "unat (ucast (w :: u64) :: u128) = unat w"
  by (simp add: unsigned_ucast_eq take_bit_nat_eq_self unat_u64_less
      order_less_trans [OF unat_u64_less])

lemma unat_u128_less: "unat (t :: u128) < bn_base * bn_base"
  using unsigned_less [of t, where ?'a = nat] by (simp add: bn_base_def)

lemma Lw_Hw: "unat (Lw t) + bn_base * unat (Hw t) = unat t"
proof -
  have "unat (Lw t) = unat t mod bn_base"
    by (simp add: Lw_def unsigned_ucast_eq take_bit_eq_mod bn_base_def)
  moreover have "unat (Hw t) = unat t div bn_base"
  proof -
    have "unat t div bn_base < bn_base"
      using unat_u128_less [of t] by (simp add: less_mult_imp_div_less)
    then show ?thesis
      unfolding Hw_def unsigned_ucast_eq unat_drop_bit_div
      by (simp add: take_bit_nat_eq_self bn_base_def)
  qed
  ultimately show ?thesis
    by simp
qed

lemma word_product_less:
  fixes x y r c :: nat
  assumes "x < bn_base" and "y < bn_base" and "r < bn_base" and "c < bn_base"
  shows "x * y + r + c < bn_base * bn_base"
proof -
  have "x * y \<le> (bn_base - 1) * (bn_base - 1)"
    using assms(1,2) by (intro mult_le_mono) simp_all
  then have "x * y + r + c \<le> (bn_base - 1) * (bn_base - 1) + (bn_base - 1) + (bn_base - 1)"
    using assms(3,4) by (intro add_mono) simp_all
  also have "... < bn_base * bn_base"
    by (simp add: bn_base_def)
  finally show ?thesis .
qed

lemma unat_u128_of:
  assumes "unat x * unat y + unat r + unat c < bn_base * bn_base"
  shows "unat (ucast (x :: u64) * ucast (y :: u64) + ucast (r :: u64) + ucast (c :: u64) :: u128) =
    unat x * unat y + unat r + unat c"
  using assms by (simp add: unat_word_ariths bn_base_def mod_simps)

lemma mul_add_spec:
  assumes "mul_add r a w c = (r', c')"
  shows "unat r' + bn_base * unat c' = unat r + unat a * unat w + unat c"
proof -
  have "unat (ucast w * ucast a + ucast r + ucast c :: u128) = unat w * unat a + unat r + unat c"
    by (rule unat_u128_of) (simp add: word_product_less)
  with Lw_Hw [of "ucast w * ucast a + ucast r + ucast c"] assms show ?thesis
    by (auto simp: mul_add_def Let_def algebra_simps)
qed

lemma mul_is_mul_add: "mul a w c = mul_add 0 a w c"
  by (simp add: mul_def mul_add_def)

lemma sqr_is_mul_add: "sqr a = mul_add 0 a a 0"
  by (simp add: sqr_def mul_add_def)

lemmas mul_spec = mul_add_spec [of 0, folded mul_is_mul_add, simplified]

lemma sqr_spec: "sqr a = (r, c) \<Longrightarrow> unat r + bn_base * unat c = unat a * unat a"
  using mul_add_spec [of 0 a a 0 r c] by (simp add: sqr_is_mul_add)

lemma two_words_eq:
  assumes "unat (x :: u64) + bn_base * unat (X :: u64) = unat (y :: u64) + bn_base * unat (Y :: u64)"
  shows "x = y \<and> X = Y"
  using digits_eq [OF assms unat_bn_base unat_bn_base] by (simp add: word_unat_eq_iff)

text \<open>The carry of an addition, as the macros compute it.\<close>

lemma unat_add_cases:
  "unat (x + y :: u64) = (if unat x + unat y < bn_base then unat x + unat y else unat x + unat y - bn_base)"
proof -
  have "unat x + unat y < 2 * bn_base"
    using unat_bn_base [of x] unat_bn_base [of y] by linarith
  then show ?thesis
    by (simp add: unat_add_base mod_if)
qed

lemma add_carry_right:
  "unat (x + y :: u64) + bn_base * (if x + y < y then 1 else 0) = unat x + unat y"
  using unat_bn_base [of x] unat_bn_base [of y]
  by (auto simp: word_less_nat_alt unat_add_cases simp del: unat_bn_base)

lemma add_carry_left:
  "unat (x + y :: u64) + bn_base * (if x + y < x then 1 else 0) = unat x + unat y"
  using add_carry_right [of y x] by (simp add: add.commute)

lemma umult_lohi_spec:
  assumes "BN_UMULT_LOHI a b = (lo, hi)"
  shows "unat lo + bn_base * unat hi = unat a * unat b"
proof -
  have "unat a * unat b < bn_base * bn_base"
    using word_product_less [of "unat a" "unat b" 0 0] by simp
  then have "unat a * unat b div bn_base < bn_base"
    by (simp add: less_mult_imp_div_less)
  then have "unat hi = unat a * unat b div bn_base" and "unat lo = unat a * unat b mod bn_base"
    using assms by (auto simp: BN_UMULT_LOHI_def unat_of_nat take_bit_eq_mod bn_base_def)
  then show ?thesis
    by simp
qed

text \<open>Adding a carry bit to the high word of a product does not overflow.\<close>

lemma no_carry:
  assumes "unat lo + bn_base * (unat hi + x) = t" and "t < bn_base * bn_base"
  shows "unat (hi + of_nat x :: u64) = unat hi + x"
proof -
  have "bn_base * (unat hi + x) < bn_base * bn_base"
    using assms by linarith
  then have lt: "unat hi + x < bn_base"
    by simp
  then have "unat (of_nat x :: u64) = x"
    by (simp add: unat_of_nat_u64 bn_base_def)
  with lt show ?thesis
    by (simp add: unat_add_base)
qed

lemma if_of_nat: "(if b then 1 else 0 :: u64) = of_nat (if b then 1 else 0)"
  by simp

lemma mul_lohi_spec:
  assumes "mul_lohi a w c = (r, c')"
  shows "unat r + bn_base * unat c' = unat a * unat w + unat c"
proof -
  obtain lo hi where p: "BN_UMULT_LOHI w a = (lo, hi)"
    by fastforce
  define k :: nat where "k = (if lo + c < lo then 1 else 0)"
  have r: "r = lo + c" and c': "c' = hi + of_nat k"
    using assms by (auto simp: mul_lohi_def p k_def Let_def)
  have "unat (lo + c) + bn_base * k = unat lo + unat c"
    using add_carry_left [of lo c] by (simp only: k_def)
  then have t: "unat (lo + c) + bn_base * (unat hi + k) = unat w * unat a + unat c"
    using umult_lohi_spec [OF p] by (simp only: distrib_left)
  have "unat w * unat a + unat c < bn_base * bn_base"
    using word_product_less [of "unat w" "unat a" 0 "unat c"] by simp
  from no_carry [OF t this] t show ?thesis
    by (simp only: r c') (simp only: mult.commute)
qed

lemma mul_add_lohi_spec:
  assumes "mul_add_lohi r a w c = (r', c')"
  shows "unat r' + bn_base * unat c' = unat r + unat a * unat w + unat c"
proof -
  obtain lo hi where p: "BN_UMULT_LOHI w a = (lo, hi)"
    by fastforce
  define k :: nat where "k = (if r + c < c then 1 else 0)"
  define l :: nat where "l = (if r + c + lo < lo then 1 else 0)"
  have r: "r' = r + c + lo" and c': "c' = hi + of_nat (k + l)"
    using assms by (auto simp: mul_add_lohi_def p k_def l_def Let_def)
  have "unat (r + c) + bn_base * k = unat r + unat c"
    using add_carry_right [of r c] by (simp only: k_def)
  moreover have "unat (r + c + lo) + bn_base * l = unat (r + c) + unat lo"
    using add_carry_right [of "r + c" lo] by (simp only: l_def)
  ultimately have t: "unat (r + c + lo) + bn_base * (unat hi + (k + l)) = unat w * unat a + unat r + unat c"
    using umult_lohi_spec [OF p] by (simp only: distrib_left)
  have "unat w * unat a + unat r + unat c < bn_base * bn_base"
    by (simp add: word_product_less)
  from no_carry [OF t this] t show ?thesis
    by (simp only: r c') (simp only: mult.commute)
qed

text \<open>So the two versions of the macros are the same functions.\<close>

lemma lohi_macros:
  "mul_add_lohi = mul_add" "mul_lohi = mul" "sqr_lohi = sqr"
proof -
  have "mul_add_lohi r a w c = mul_add r a w c" for r a w c
    using two_words_eq mul_add_lohi_spec mul_add_spec by (metis surj_pair)
  then show "mul_add_lohi = mul_add"
    by (simp add: fun_eq_iff)
  have "mul_lohi a w c = mul a w c" for a w c
    using two_words_eq mul_lohi_spec mul_spec by (metis surj_pair)
  then show "mul_lohi = mul"
    by (simp add: fun_eq_iff)
  have "sqr_lohi a = sqr a" for a
  proof -
    obtain x X y Y where *: "sqr_lohi a = (x, X)" "sqr a = (y, Y)"
      by fastforce
    have "unat x + bn_base * unat X = unat y + bn_base * unat Y"
      using umult_lohi_spec [OF * (1) [unfolded sqr_lohi_def]] sqr_spec [OF * (2)] by simp
    with * show ?thesis
      by (auto dest: two_words_eq)
  qed
  then show "sqr_lohi = sqr"
    by (simp add: fun_eq_iff)
qed

section \<open>Loops over words\<close>

text \<open>
  The loops over two arrays: four words at a time while there are four, then one at a time. A step
  maps the carry and the two words to the word that is written and the new carry.
\<close>

fun word_loop :: "('c \<Rightarrow> u64 \<Rightarrow> u64 \<Rightarrow> u64 \<times> 'c) \<Rightarrow> u64 list \<Rightarrow> u64 list \<Rightarrow> 'c \<Rightarrow> u64 list \<times> 'c" where
  "word_loop step (a0 # a1 # a2 # a3 # a) (b0 # b1 # b2 # b3 # b) c =
     (let (r0, c) = step c a0 b0;
          (r1, c) = step c a1 b1;
          (r2, c) = step c a2 b2;
          (r3, c) = step c a3 b3;
          (r, c) = word_loop step a b c in
      (r0 # r1 # r2 # r3 # r, c))"
| "word_loop step (a0 # a) (b0 # b) c =
     (let (r0, c) = step c a0 b0;
          (r, c) = word_loop step a b c in
      (r0 # r, c))"
| "word_loop step _ _ c = ([], c)"

lemma word_loop_Cons:
  "word_loop step (x # a) (y # b) c =
     (let (r, c) = step c x y; (rs, c) = word_loop step a b c in (r # rs, c))"
proof (induction a arbitrary: x y b c rule: length_induct)
  case (1 a)
  note IH = "1.IH" [rule_format]
  show ?case
  proof (cases "(step, x # a, y # b, c)" rule: word_loop.cases)
    case (1 step' x0 x1 x2 x3 xs y0 y1 y2 y3 ys c')
    then have a: "a = x1 # x2 # x3 # xs" and b: "b = y1 # y2 # y3 # ys"
      by simp_all
    have "word_loop step (x1 # x2 # x3 # xs) (y1 # y2 # y3 # ys) c = (let (r, c) = step c x1 y1;
        (rs, c) = word_loop step (x2 # x3 # xs) (y2 # y3 # ys) c in (r # rs, c))"
      "word_loop step (x2 # x3 # xs) (y2 # y3 # ys) c = (let (r, c) = step c x2 y2;
        (rs, c) = word_loop step (x3 # xs) (y3 # ys) c in (r # rs, c))"
      "word_loop step (x3 # xs) (y3 # ys) c = (let (r, c) = step c x3 y3;
        (rs, c) = word_loop step xs ys c in (r # rs, c))" for c
      by (intro IH; simp add: a)+
    then show ?thesis
      by (simp add: a b Let_def split_def)
  qed auto
qed

text \<open>
  A step whose result is, with its carry, a linear function of the two words and the carry before:
  then the same holds of the loop and the numbers.
\<close>

locale word_step =
  fixes step :: "'c \<Rightarrow> u64 \<Rightarrow> u64 \<Rightarrow> u64 \<times> 'c"
    and ok :: "'c \<Rightarrow> bool"
    and carry :: "'c \<Rightarrow> int"
    and coeff_a coeff_b :: int
  assumes step: "ok c \<Longrightarrow> step c x y = (r, d) \<Longrightarrow>
    ok d \<and> int (unat r) + int bn_base * carry d = coeff_a * int (unat x) + coeff_b * int (unat y) + carry c"
begin

lemma loop:
  assumes "length a = length b" and "ok c" and "word_loop step a b c = (rs, d)"
  shows "ok d \<and> length rs = length b \<and>
    int (bn_nat rs) + int bn_base ^ length b * carry d =
      coeff_a * int (bn_nat a) + coeff_b * int (bn_nat b) + carry c"
  using assms
proof (induction a b arbitrary: c rs d rule: list_induct2)
  case (Cons x a y b)
  obtain r c1 where s: "step c x y = (r, c1)"
    by fastforce
  obtain ss e where l: "word_loop step a b c1 = (ss, e)"
    by fastforce
  have rs: "rs = r # ss" "d = e"
    using Cons.prems(2) by (simp_all add: word_loop_Cons s l)
  have 1: "ok c1" and 2: "int (unat r) + int bn_base * carry c1 =
      coeff_a * int (unat x) + coeff_b * int (unat y) + carry c"
    using step [OF Cons.prems(1) s] by simp_all
  have 3: "ok e" "length ss = length b" and 4: "int (bn_nat ss) + int bn_base ^ length b * carry e =
      coeff_a * int (bn_nat a) + coeff_b * int (bn_nat b) + carry c1"
    using Cons.IH [OF 1 l] by simp_all
  have "int (bn_nat (r # ss)) + int bn_base ^ length (y # b) * carry e =
      int (unat r) + int bn_base * (int (bn_nat ss) + int bn_base ^ length b * carry e)"
    by (simp add: algebra_simps)
  also have "... = coeff_a * int (bn_nat (x # a)) + coeff_b * int (bn_nat (y # b)) +
      (int (unat r) + int bn_base * carry c1 - coeff_a * int (unat x) - coeff_b * int (unat y))"
    unfolding 4 by (simp add: algebra_simps)
  also have "... = coeff_a * int (bn_nat (x # a)) + coeff_b * int (bn_nat (y # b)) + carry c"
    using 2 by simp
  finally show ?case
    using 3 by (simp add: rs)
qed simp

end

section \<open>Multiplication by a word\<close>

definition bn_mul_add_words :: "u64 list \<Rightarrow> u64 list \<Rightarrow> nat \<Rightarrow> u64 \<Rightarrow> u64 list \<times> u64" where
  "bn_mul_add_words rp ap num w =
     (let (rs, c1) = word_loop (\<lambda>c1 r a. mul_add r a w c1) (take num rp) (take num ap) 0 in
      (rs @ drop num rp, c1))"

text \<open>The words that are written, and the carry.\<close>

definition bn_mul_words :: "u64 list \<Rightarrow> nat \<Rightarrow> u64 \<Rightarrow> u64 list \<times> u64" where
  "bn_mul_words ap num w = word_loop (\<lambda>c1 a _. mul a w c1) (take num ap) (take num ap) 0"

fun sqr_loop :: "u64 list \<Rightarrow> u64 list" where
  "sqr_loop (a0 # a1 # a2 # a3 # ap) =
     (let (r0, r1) = sqr a0; (r2, r3) = sqr a1; (r4, r5) = sqr a2; (r6, r7) = sqr a3 in
      r0 # r1 # r2 # r3 # r4 # r5 # r6 # r7 # sqr_loop ap)"
| "sqr_loop (a0 # ap) = (let (r0, r1) = sqr a0 in r0 # r1 # sqr_loop ap)"
| "sqr_loop [] = []"

definition bn_sqr_words :: "u64 list \<Rightarrow> nat \<Rightarrow> u64 list" where
  "bn_sqr_words ap num = sqr_loop (take num ap)"

interpretation mul_add: word_step "\<lambda>c r a. mul_add r a w c" "\<lambda>_. True" "\<lambda>c. int (unat c)" 1 "int (unat w)"
  for w
proof unfold_locales
  fix c x y r d
  assume "mul_add x y w c = (r, d)"
  then have "int (unat r + bn_base * unat d) = int (unat x + unat y * unat w + unat c)"
    by (simp only: mul_add_spec)
  then show "True \<and> int (unat r) + int bn_base * int (unat d) = 1 * int (unat x) + int (unat w) * int (unat y) + int (unat c)"
    by (simp add: mult.commute)
qed

interpretation mul: word_step "\<lambda>c a _. mul a w c" "\<lambda>_. True" "\<lambda>c. int (unat c)" "int (unat w)" 0
  for w
proof unfold_locales
  fix c x y r d
  assume "mul x w c = (r, d)"
  then have "int (unat r + bn_base * unat d) = int (unat x * unat w + unat c)"
    by (simp only: mul_spec)
  then show "True \<and> int (unat r) + int bn_base * int (unat d) = int (unat w) * int (unat x) + 0 * int (unat y) + int (unat c)"
    by (simp add: mult.commute)
qed

lemma bn_mul_add_words_spec:
  assumes "bn_mul_add_words rp ap n w = (rs, c)" and "n \<le> length rp" and "n \<le> length ap"
  obtains ss where "rs = ss @ drop n rp" and "length ss = n"
    and "bn_nat ss + bn_base ^ n * unat c = bn_nat (take n rp) + bn_nat (take n ap) * unat w"
proof -
  obtain ss where l: "word_loop (\<lambda>c1 r a. mul_add r a w c1) (take n rp) (take n ap) 0 = (ss, c)"
    and rs: "rs = ss @ drop n rp"
    using assms(1) unfolding bn_mul_add_words_def by (auto split: prod.splits)
  from mul_add.loop [OF _ _ l] assms(2,3)
  have "length ss = n" and "int (bn_nat ss) + int bn_base ^ n * int (unat c) =
      int (bn_nat (take n rp)) + int (unat w) * int (bn_nat (take n ap))"
    by simp_all
  then have "int (bn_nat ss + bn_base ^ n * unat c) = int (bn_nat (take n rp) + bn_nat (take n ap) * unat w)"
    by (simp add: mult.commute)
  with that [OF rs \<open>length ss = n\<close>] show thesis
    by (simp only: of_nat_eq_iff)
qed

lemma bn_mul_words_spec:
  assumes "bn_mul_words ap n w = (rs, c)" and "n \<le> length ap"
  shows "length rs = n \<and> bn_nat rs + bn_base ^ n * unat c = bn_nat (take n ap) * unat w"
proof -
  from mul.loop [OF _ _ assms(1) [unfolded bn_mul_words_def]] assms(2)
  have "length rs = n" and "int (bn_nat rs + bn_base ^ n * unat c) = int (bn_nat (take n ap) * unat w)"
    by (simp_all add: mult.commute)
  then show ?thesis
    by (simp only: of_nat_eq_iff)
qed

lemma sqr_loop_Cons: "sqr_loop (a # ap) = fst (sqr a) # snd (sqr a) # sqr_loop ap"
proof (induction ap arbitrary: a rule: length_induct)
  case (1 ap)
  note IH = "1.IH" [rule_format]
  show ?case
  proof (cases "a # ap" rule: sqr_loop.cases)
    case (1 a0 a1 a2 a3 as)
    then have ap: "ap = a1 # a2 # a3 # as"
      by simp
    have "sqr_loop (a1 # a2 # a3 # as) = fst (sqr a1) # snd (sqr a1) # sqr_loop (a2 # a3 # as)"
      "sqr_loop (a2 # a3 # as) = fst (sqr a2) # snd (sqr a2) # sqr_loop (a3 # as)"
      "sqr_loop (a3 # as) = fst (sqr a3) # snd (sqr a3) # sqr_loop as"
      by (intro IH; simp add: ap)+
    then show ?thesis
      by (simp add: ap split_def Let_def)
  qed (auto simp: split_def Let_def)
qed

text \<open>The squares of the words, each in its place.\<close>

fun bn_nat_squares :: "u64 list \<Rightarrow> nat" where
  "bn_nat_squares [] = 0"
| "bn_nat_squares (w # ws) = unat w * unat w + bn_base * bn_base * bn_nat_squares ws"

lemma length_sqr_loop: "length (sqr_loop ap) = 2 * length ap"
  by (induction ap) (simp_all add: sqr_loop_Cons)

lemma sqr_loop_spec: "bn_nat (sqr_loop ap) = bn_nat_squares ap"
proof (induction ap)
  case (Cons a ap)
  obtain r c where s: "sqr a = (r, c)"
    by fastforce
  show ?case
    using sqr_spec [OF s] Cons.IH by (simp add: sqr_loop_Cons s algebra_simps)
qed simp

section \<open>Addition and subtraction\<close>

text \<open>One word of an addition with \<open>BN_ULLONG\<close>, and without it, and of a subtraction.\<close>

definition add_step :: "u128 \<Rightarrow> u64 \<Rightarrow> u64 \<Rightarrow> u64 \<times> u128" where
  "add_step ll a b = (let ll = ll + (ucast a + ucast b) in (Lw ll, drop_bit 64 ll))"

definition add_step_carry :: "u64 \<Rightarrow> u64 \<Rightarrow> u64 \<Rightarrow> u64 \<times> u64" where
  "add_step_carry c a b =
     (let t = a + c;
          c = (if t < c then 1 else 0);
          l = t + b;
          c = c + (if l < t then 1 else 0) in
      (l, c))"

definition sub_step :: "u64 \<Rightarrow> u64 \<Rightarrow> u64 \<Rightarrow> u64 \<times> u64" where
  "sub_step c t1 t2 = (t1 - t2 - c, if t1 \<noteq> t2 then (if t1 < t2 then 1 else 0) else c)"

definition bn_add_words :: "u64 list \<Rightarrow> u64 list \<Rightarrow> nat \<Rightarrow> u64 list \<times> u64" where
  "bn_add_words a b n = (let (r, ll) = word_loop add_step (take n a) (take n b) 0 in (r, Lw ll))"

definition bn_add_words_carry :: "u64 list \<Rightarrow> u64 list \<Rightarrow> nat \<Rightarrow> u64 list \<times> u64" where
  "bn_add_words_carry a b n = word_loop add_step_carry (take n a) (take n b) 0"

definition bn_sub_words :: "u64 list \<Rightarrow> u64 list \<Rightarrow> nat \<Rightarrow> u64 list \<times> u64" where
  "bn_sub_words a b n = word_loop sub_step (take n a) (take n b) 0"

lemma unat_le_1: "unat (c :: u64) \<le> 1 \<longleftrightarrow> c = 0 \<or> c = 1"
  by (auto simp: word_unat_eq_iff le_Suc_eq)

lemma sub_step_spec:
  assumes "c = 0 \<or> c = 1" and "sub_step c x y = (r, d)"
  shows "(d = 0 \<or> d = 1) \<and> unat r + unat y + unat c = unat x + bn_base * unat d"
proof -
  have "unat (x - y) = (if unat y \<le> unat x then unat x - unat y else unat x + bn_base - unat y)" for x y :: u64
    by (simp add: unat_sub_if_size word_size bn_base_def)
  note sub = this
  have lt: "unat x < bn_base" "unat y < bn_base"
    by simp_all
  have r: "r = x - y - c" and d: "d = (if x \<noteq> y then (if x < y then 1 else 0) else c)"
    using assms(2) by (auto simp: sub_step_def)
  consider "c = 0" | "c = 1" "unat x < unat y" | "c = 1" "x = y" | "c = 1" "unat y < unat x"
    using assms(1) by (metis nat_neq_iff word_unat_eq_iff)
  then show ?thesis
  proof cases
    case 1
    then have "unat r = (if unat y \<le> unat x then unat x - unat y else unat x + bn_base - unat y)"
      by (simp add: r sub)
    with 1 lt show ?thesis
      by (auto simp: d word_less_nat_alt simp del: unat_bn_base)
  next
    case 2
    then have "unat r = unat x + bn_base - unat y - 1"
      using lt by (auto simp: r sub simp del: unat_bn_base)
    with 2 lt show ?thesis
      by (auto simp: d word_less_nat_alt simp del: unat_bn_base)
  next
    case 3
    then have "unat r = bn_base - 1"
      using sub [of 0 1] by (simp add: r)
    with 3 show ?thesis
      by (simp add: d)
  next
    case 4
    then have "unat r = unat x - unat y - 1"
      by (simp add: r sub)
    with 4 show ?thesis
      by (auto simp: d word_less_nat_alt)
  qed
qed

lemma add_step_carry_spec:
  assumes "c = 0 \<or> c = 1" and "add_step_carry c x y = (r, d)"
  shows "(d = 0 \<or> d = 1) \<and> unat r + bn_base * unat d = unat x + unat y + unat c"
proof -
  have "unat x < bn_base" "unat y < bn_base"
    by simp_all
  with assms show ?thesis
    by (auto simp: add_step_carry_def Let_def unat_add_cases word_less_nat_alt split: if_splits
        simp del: unat_bn_base)
qed

lemma add_step_spec:
  assumes "unat ll \<le> 1" and "add_step ll x y = (r, d)"
  shows "unat d \<le> 1 \<and> unat r + bn_base * unat d = unat x + unat y + unat ll"
proof -
  define t where "t = ll + (ucast x + ucast y)"
  have r: "r = Lw t" and d: "d = drop_bit 64 t"
    using assms(2) by (simp_all add: add_step_def t_def Let_def)
  have lt: "unat x < bn_base" "unat y < bn_base"
    by simp_all
  then have t: "unat t = unat x + unat y + unat ll"
    using assms(1) by (simp add: t_def unat_word_ariths bn_base_def)
  have "unat t < 2 * bn_base"
    using t lt assms(1) by linarith
  then have "unat t div bn_base \<le> 1"
    by (metis less_mult_imp_div_less less_Suc_eq_le numeral_2_eq_2 One_nat_def)
  moreover have "unat d = unat t div bn_base"
    unfolding d unat_drop_bit_div bn_base_def ..
  moreover have "unat r = unat t mod bn_base"
    by (simp add: r Lw_def unsigned_ucast_eq take_bit_eq_mod bn_base_def)
  ultimately show ?thesis
    using t by simp
qed

interpretation add: word_step add_step "\<lambda>ll. unat ll \<le> 1" "\<lambda>ll. int (unat ll)" 1 1
proof unfold_locales
  fix c x y r d
  assume *: "unat c \<le> 1" "add_step c x y = (r, d)"
  then have "unat d \<le> 1" and "int (unat r + bn_base * unat d) = int (unat x + unat y + unat c)"
    using add_step_spec [OF *] by simp_all
  then show "unat d \<le> 1 \<and>
      int (unat r) + int bn_base * int (unat d) = 1 * int (unat x) + 1 * int (unat y) + int (unat c)"
    by simp
qed

interpretation add_carry: word_step add_step_carry "\<lambda>c. c = 0 \<or> c = 1" "\<lambda>c. int (unat c)" 1 1
proof unfold_locales
  fix c x y r d
  assume *: "c = 0 \<or> c = 1" "add_step_carry c x y = (r, d)"
  then have "d = 0 \<or> d = 1" and "int (unat r + bn_base * unat d) = int (unat x + unat y + unat c)"
    using add_step_carry_spec [OF *] by simp_all
  then show "(d = 0 \<or> d = 1) \<and>
      int (unat r) + int bn_base * int (unat d) = 1 * int (unat x) + 1 * int (unat y) + int (unat c)"
    by simp
qed

interpretation sub: word_step sub_step "\<lambda>c. c = 0 \<or> c = 1" "\<lambda>c. - int (unat c)" 1 "- 1"
proof unfold_locales
  fix c x y r d
  assume *: "c = 0 \<or> c = 1" "sub_step c x y = (r, d)"
  then have "d = 0 \<or> d = 1" and "int (unat r + unat y + unat c) = int (unat x + bn_base * unat d)"
    using sub_step_spec [OF *] by simp_all
  then show "(d = 0 \<or> d = 1) \<and>
      int (unat r) + int bn_base * - int (unat d) = 1 * int (unat x) + - 1 * int (unat y) + - int (unat c)"
    by simp
qed

lemma Lw_bit: "unat ll \<le> 1 \<Longrightarrow> unat (Lw ll) = unat ll"
  by (simp add: Lw_def unsigned_ucast_eq take_bit_nat_eq_self)

lemma bn_add_words_spec:
  assumes "bn_add_words a b n = (r, c)" and "n \<le> length a" and "n \<le> length b"
  shows "(c = 0 \<or> c = 1) \<and> length r = n \<and>
    bn_nat r + bn_base ^ n * unat c = bn_nat (take n a) + bn_nat (take n b)"
proof -
  obtain ll where l: "word_loop add_step (take n a) (take n b) 0 = (r, ll)" and c: "c = Lw ll"
    using assms(1) unfolding bn_add_words_def by (auto split: prod.splits)
  from add.loop [OF _ _ l] assms(2,3) have "unat ll \<le> 1" and "length r = n"
    and "int (bn_nat r + bn_base ^ n * unat ll) = int (bn_nat (take n a) + bn_nat (take n b))"
    by simp_all
  then show ?thesis
    by (simp only: of_nat_eq_iff) (metis Lw_bit c unat_le_1)
qed

lemma bn_add_words_carry_spec:
  assumes "bn_add_words_carry a b n = (r, c)" and "n \<le> length a" and "n \<le> length b"
  shows "(c = 0 \<or> c = 1) \<and> length r = n \<and>
    bn_nat r + bn_base ^ n * unat c = bn_nat (take n a) + bn_nat (take n b)"
proof -
  from add_carry.loop [OF _ _ assms(1) [unfolded bn_add_words_carry_def]] assms(2,3)
  have "c = 0 \<or> c = 1" and "length r = n"
    and "int (bn_nat r + bn_base ^ n * unat c) = int (bn_nat (take n a) + bn_nat (take n b))"
    by simp_all
  then show ?thesis
    by (simp only: of_nat_eq_iff)
qed

lemma bn_sub_words_spec:
  assumes "bn_sub_words a b n = (r, c)" and "n \<le> length a" and "n \<le> length b"
  shows "(c = 0 \<or> c = 1) \<and> length r = n \<and>
    bn_nat r + bn_nat (take n b) = bn_nat (take n a) + bn_base ^ n * unat c"
proof -
  from sub.loop [OF _ _ assms(1) [unfolded bn_sub_words_def]] assms(2,3)
  have "c = 0 \<or> c = 1" and "length r = n"
    and "int (bn_nat r + bn_nat (take n b)) = int (bn_nat (take n a) + bn_base ^ n * unat c)"
    by simp_all
  then show ?thesis
    by (simp only: of_nat_eq_iff)
qed

text \<open>The two versions of the addition are the same function.\<close>

lemma add_words_same:
  assumes "n \<le> length a" and "n \<le> length b"
  shows "bn_add_words_carry a b n = bn_add_words a b n"
proof -
  obtain r c s d where *: "bn_add_words a b n = (r, c)" "bn_add_words_carry a b n = (s, d)"
    by fastforce
  note r = bn_add_words_spec [OF * (1) assms] and s = bn_add_words_carry_spec [OF * (2) assms]
  then have "bn_nat (r @ [c]) = bn_nat (s @ [d])"
    by (simp add: bn_nat_append)
  then have "r @ [c] = s @ [d]"
    using r s by (intro bn_nat_inj) simp_all
  with * show ?thesis
    by simp
qed

section \<open>Comparisons\<close>

text \<open>The words \<open>a[i - 1]\<close>, ..., \<open>a[0]\<close> against those of \<open>b\<close>.\<close>

fun cmp_words_from :: "u64 list \<Rightarrow> u64 list \<Rightarrow> nat \<Rightarrow> int" where
  "cmp_words_from a b 0 = 0"
| "cmp_words_from a b (Suc i) =
     (if a ! i \<noteq> b ! i then (if b ! i < a ! i then 1 else - 1) else cmp_words_from a b i)"

text \<open>The code looks at the last words first; there is at least one.\<close>

definition bn_cmp_words :: "u64 list \<Rightarrow> u64 list \<Rightarrow> nat \<Rightarrow> int" where
  "bn_cmp_words a b n =
     (if a ! (n - 1) \<noteq> b ! (n - 1) then (if b ! (n - 1) < a ! (n - 1) then 1 else - 1)
      else cmp_words_from a b (n - 1))"

text \<open>\<open>cl\<close> is the minimum of the lengths and \<open>dl\<close> the length of \<open>a\<close> minus that of \<open>b\<close>.\<close>

definition bn_cmp_part_words :: "u64 list \<Rightarrow> u64 list \<Rightarrow> nat \<Rightarrow> int \<Rightarrow> int" where
  "bn_cmp_part_words a b cl dl =
     (if dl < 0 \<and> list_ex (\<lambda>i. b ! (cl - 1 + i) \<noteq> 0) (rev [1..<nat (- dl) + 1]) then - 1
      else if 0 < dl \<and> list_ex (\<lambda>i. a ! (cl - 1 + i) \<noteq> 0) (rev [1..<nat dl + 1]) then 1
      else bn_cmp_words a b cl)"

text \<open>In constant time: the loop over the words, from the least significant one.\<close>

fun less_than_words_loop :: "u64 list \<Rightarrow> u64 list \<Rightarrow> u32 \<Rightarrow> u32" where
  "less_than_words_loop (a # as) (b # bs) r =
     (let eq = constant_time_eq_w a b;
          lt = constant_time_lt_w a b in
      less_than_words_loop as bs (constant_time_select_int eq r (constant_time_select_int lt 1 0)))"
| "less_than_words_loop _ _ r = r"

definition bn_less_than_words :: "u64 list \<Rightarrow> u64 list \<Rightarrow> nat \<Rightarrow> u32" where
  "bn_less_than_words a b len = less_than_words_loop (take len a) (take len b) 0"

definition bn_less_than_word :: "u64 list \<Rightarrow> nat \<Rightarrow> u64 \<Rightarrow> u32" where
  "bn_less_than_word a len b =
     (if b = 0 then 0
      else if len = 0 then 1
      else
        let m = fold (\<lambda>w m. m OR w) (drop 1 (take len a)) 0;
            m = constant_time_is_zero_w m;
            m = m AND constant_time_lt_w (a ! 0) b in
        constant_time_select_int m 1 0)"

definition bn_in_range_words :: "u64 list \<Rightarrow> u64 \<Rightarrow> u64 list \<Rightarrow> nat \<Rightarrow> bool" where
  "bn_in_range_words a min_inclusive max_exclusive len \<longleftrightarrow>
     bn_less_than_words a max_exclusive len \<noteq> 0 \<and> bn_less_than_word a len min_inclusive = 0"

text \<open>Comparison of numbers, most significant word first.\<close>

lemma digits_less:
  fixes x y X Y :: nat
  assumes "x < bn_base" and "y < bn_base"
  shows "x + bn_base * X < y + bn_base * Y \<longleftrightarrow> X < Y \<or> X = Y \<and> x < y"
proof (cases X Y rule: linorder_cases)
  case less
  then have "bn_base * (X + 1) \<le> bn_base * Y"
    by (intro mult_le_mono2) simp
  then have "x + bn_base * X < y + bn_base * Y"
    using assms(1) by simp
  with less show ?thesis
    by simp
next
  case greater
  then have "bn_base * (Y + 1) \<le> bn_base * X"
    by (intro mult_le_mono2) simp
  then have "y + bn_base * Y < x + bn_base * X"
    using assms(2) by simp
  with greater show ?thesis
    by simp
qed simp

lemma bn_nat_take_Suc:
  "n < length ws \<Longrightarrow> bn_nat (take (Suc n) ws) = bn_nat (take n ws) + bn_base ^ n * unat (ws ! n)"
  by (simp add: take_Suc_conv_app_nth bn_nat_append)

lemma bn_nat_take_less: "bn_nat (take n ws) < bn_base ^ n"
proof -
  have "bn_nat (take n ws) < bn_base ^ length (take n ws)"
    by (rule bn_nat_less)
  also have "... \<le> bn_base ^ n"
    by (rule power_increasing) (simp_all add: Suc_le_eq)
  finally show ?thesis .
qed

lemma top_digit_less:
  fixes x y M :: nat
  assumes "x < M" and "y < M" and "a < b"
  shows "x + M * a < y + M * b"
proof -
  have "x + M * a < M * (a + 1)"
    using assms(1) by simp
  also have "... \<le> M * b"
    using assms(3) by (intro mult_le_mono2) simp
  finally show ?thesis
    by simp
qed

lemma cmp_words_from_eq:
  assumes "n \<le> length a" and "n \<le> length b"
  shows "cmp_words_from a b n = (if bn_nat (take n a) < bn_nat (take n b) then - 1
    else if bn_nat (take n b) < bn_nat (take n a) then 1 else 0)"
  using assms
proof (induction n)
  case (Suc n)
  have len: "n < length a" "n < length b"
    using Suc.prems by simp_all
  show ?case
  proof (cases "a ! n" "b ! n" rule: linorder_cases)
    case less
    then have "bn_nat (take (Suc n) a) < bn_nat (take (Suc n) b)"
      unfolding bn_nat_take_Suc [OF len(1)] bn_nat_take_Suc [OF len(2)]
      by (intro top_digit_less bn_nat_take_less) (simp add: word_less_nat_alt)
    with less show ?thesis
      by auto
  next
    case equal
    then show ?thesis
      using Suc.IH len bn_nat_take_Suc [OF len(1)] bn_nat_take_Suc [OF len(2)] by simp
  next
    case greater
    then have "bn_nat (take (Suc n) b) < bn_nat (take (Suc n) a)"
      unfolding bn_nat_take_Suc [OF len(1)] bn_nat_take_Suc [OF len(2)]
      by (intro top_digit_less bn_nat_take_less) (simp add: word_less_nat_alt)
    with greater show ?thesis
      by auto
  qed
qed simp

lemma bn_cmp_words_eq:
  assumes "n \<le> length a" and "n \<le> length b" and "0 < n"
  shows "bn_cmp_words a b n = sgn (int (bn_nat (take n a)) - int (bn_nat (take n b)))"
proof -
  obtain m where n: "n = Suc m"
    using assms(3) by (cases n) simp_all
  have "bn_cmp_words a b n = cmp_words_from a b n"
    by (simp add: n bn_cmp_words_def)
  then show ?thesis
    using cmp_words_from_eq [OF assms(1,2)] by (auto simp: sgn_if)
qed

lemmas select_int_masks = select_int_eq [of True, simplified] select_int_eq [of False, simplified]

lemma less_than_words_loop_eq:
  assumes "length a = length b"
  shows "less_than_words_loop a b r =
    (if bn_nat a < bn_nat b then 1 else if bn_nat a = bn_nat b then r else 0)"
  using assms
proof (induction a b arbitrary: r rule: list_induct2)
  case (Cons a as b bs)
  have "bn_nat (a # as) < bn_nat (b # bs) \<longleftrightarrow> bn_nat as < bn_nat bs \<or> bn_nat as = bn_nat bs \<and> a < b"
    by (simp add: digits_less word_less_nat_alt)
  moreover have "bn_nat (a # as) = bn_nat (b # bs) \<longleftrightarrow> bn_nat as = bn_nat bs \<and> a = b"
    using digits_eq [of "unat a" "bn_nat as" "unat b" "bn_nat bs"] by (auto simp: word_unat_eq_iff)
  ultimately show ?case
    by (auto simp: Cons.IH eq_w_eq lt_w_eq select_int_masks simp del: bn_nat.simps)
qed simp

lemma bn_less_than_words_eq:
  assumes "n \<le> length a" and "n \<le> length b"
  shows "bn_less_than_words a b n = (if bn_nat (take n a) < bn_nat (take n b) then 1 else 0)"
  using less_than_words_loop_eq [of "take n a" "take n b" 0] assms by (simp add: bn_less_than_words_def)

lemma fold_OR_zero: "fold (\<lambda>w m. m OR w) ws m = (0 :: u64) \<longleftrightarrow> m = 0 \<and> bn_nat ws = 0"
  by (induction ws arbitrary: m) (auto simp: or_eq_0_iff unat_eq_0)

lemma bn_less_than_word_eq:
  assumes "n \<le> length a"
  shows "bn_less_than_word a n b = (if bn_nat (take n a) < unat b then 1 else 0)"
proof (cases "b = 0 \<or> n = 0")
  case True
  then show ?thesis
    using unat_gt_0 [of b] by (auto simp: bn_less_than_word_def)
next
  case False
  then obtain m x xs where n: "n = Suc m" and a: "a = x # xs"
    using assms by (cases n; cases a) auto
  have "bn_nat (take n a) < unat b \<longleftrightarrow> bn_nat (take m xs) = 0 \<and> x < b"
    using digits_less [of "unat x" "unat b" "bn_nat (take m xs)" 0] by (simp add: n a word_less_nat_alt)
  moreover have "fold (\<lambda>w m. m OR w) (drop 1 (take n a)) 0 = 0 \<longleftrightarrow> bn_nat (take m xs) = 0"
    by (simp add: n a fold_OR_zero)
  ultimately show ?thesis
    using False by (auto simp: bn_less_than_word_def Let_def is_zero_w_eq lt_w_eq select_int_masks a n)
qed

lemma bn_in_range_words_eq:
  assumes "n \<le> length a" and "n \<le> length b"
  shows "bn_in_range_words a lo b n \<longleftrightarrow>
    unat lo \<le> bn_nat (take n a) \<and> bn_nat (take n a) < bn_nat (take n b)"
  using assms by (auto simp: bn_in_range_words_def bn_less_than_words_eq bn_less_than_word_eq)

end
