(* ===== verification/Bn_Mul.thy ===== *)
theory Bn_Mul
  imports Bn_Words
begin

text \<open>
  Products and squares of arrays of words: the unrolled products of four and of eight words
  (\<open>bn_mul_comba4\<close>, \<open>bn_sqr_comba8\<close>, ... of \<open>generic.c\<close>), which add up the columns of the product in a
  number of three words, and the schoolbook routines of \<open>mul.c\<close>.
\<close>

unbundle bit_operations_syntax

section \<open>Adding a product to a number of three words\<close>

definition mul_add_c :: "u64 \<Rightarrow> u64 \<Rightarrow> u64 \<times> u64 \<times> u64 \<Rightarrow> u64 \<times> u64 \<times> u64" where
  "mul_add_c a b = (\<lambda>(c0, c1, c2).
     let t = ucast a * ucast b + ucast c0;
         hi = Hw t;
         c1 = c1 + hi in
     (Lw t, c1, if c1 < hi then c2 + 1 else c2))"

definition mul_add_c2 :: "u64 \<Rightarrow> u64 \<Rightarrow> u64 \<times> u64 \<times> u64 \<Rightarrow> u64 \<times> u64 \<times> u64" where
  "mul_add_c2 a b = (\<lambda>(c0, c1, c2).
     let t = ucast a * ucast b;
         tt = t + ucast c0;
         c0 = Lw tt;
         hi = Hw tt;
         c1 = c1 + hi;
         c2 = (if c1 < hi then c2 + 1 else c2);
         t = t + ucast c0;
         hi = Hw t;
         c1 = c1 + hi in
     (Lw t, c1, if c1 < hi then c2 + 1 else c2))"

definition sqr_add_c :: "u64 list \<Rightarrow> nat \<Rightarrow> u64 \<times> u64 \<times> u64 \<Rightarrow> u64 \<times> u64 \<times> u64" where
  "sqr_add_c a i = (\<lambda>(c0, c1, c2).
     let t = ucast (a ! i) * ucast (a ! i) + ucast c0;
         hi = Hw t;
         c1 = c1 + hi in
     (Lw t, c1, if c1 < hi then c2 + 1 else c2))"

definition sqr_add_c2 :: "u64 list \<Rightarrow> nat \<Rightarrow> nat \<Rightarrow> u64 \<times> u64 \<times> u64 \<Rightarrow> u64 \<times> u64 \<times> u64" where
  "sqr_add_c2 a i j = mul_add_c2 (a ! i) (a ! j)"

text \<open>Without \<open>BN_ULLONG\<close>.\<close>

definition mul_add_c_lohi :: "u64 \<Rightarrow> u64 \<Rightarrow> u64 \<times> u64 \<times> u64 \<Rightarrow> u64 \<times> u64 \<times> u64" where
  "mul_add_c_lohi a b = (\<lambda>(c0, c1, c2).
     let (lo, hi) = BN_UMULT_LOHI a b;
         c0 = c0 + lo;
         hi = hi + (if c0 < lo then 1 else 0);
         c1 = c1 + hi in
     (c0, c1, c2 + (if c1 < hi then 1 else 0)))"

definition mul_add_c2_lohi :: "u64 \<Rightarrow> u64 \<Rightarrow> u64 \<times> u64 \<times> u64 \<Rightarrow> u64 \<times> u64 \<times> u64" where
  "mul_add_c2_lohi a b = (\<lambda>(c0, c1, c2).
     let (lo, hi) = BN_UMULT_LOHI a b;
         c0 = c0 + lo;
         tt = hi + (if c0 < lo then 1 else 0);
         c1 = c1 + tt;
         c2 = c2 + (if c1 < tt then 1 else 0);
         c0 = c0 + lo;
         hi = hi + (if c0 < lo then 1 else 0);
         c1 = c1 + hi in
     (c0, c1, c2 + (if c1 < hi then 1 else 0)))"

fun three :: "u64 \<times> u64 \<times> u64 \<Rightarrow> nat" where
  "three (c0, c1, c2) = unat c0 + bn_base * (unat c1 + bn_base * unat c2)"

text \<open>Adding a number of two words to one of three.\<close>

lemma add_two_words:
  assumes "unat lo + bn_base * unat hi = unat c0 + p"
    and "unat c0 + p + bn_base * (unat c1 + bn_base * unat c2) < bn_base ^ 3"
  shows "three (lo, c1 + hi, c2 + (if c1 + hi < hi then 1 else 0)) = three (c0, c1, c2) + p"
proof -
  define k :: nat where "k = (if c1 + hi < hi then 1 else 0)"
  have k: "unat (c1 + hi) + bn_base * k = unat c1 + unat hi"
    using add_carry_right [of c1 hi] by (simp only: k_def)
  have "unat lo + bn_base * (unat (c1 + hi) + bn_base * (unat c2 + k)) =
      (unat lo + bn_base * unat hi) + bn_base * (unat c1 + bn_base * unat c2)"
    using arg_cong [OF k, of "\<lambda>x. bn_base * x"] by (simp add: algebra_simps)
  then have sum: "unat lo + bn_base * (unat (c1 + hi) + bn_base * (unat c2 + k)) =
      unat c0 + p + bn_base * (unat c1 + bn_base * unat c2)"
    using assms(1) by simp
  have "bn_base * (bn_base * (unat c2 + k)) < bn_base ^ 3"
    using sum assms(2) by (simp add: algebra_simps)
  then have "unat c2 + k < bn_base"
    by (simp add: power3_eq_cube)
  then have "unat (c2 + of_nat k) = unat c2 + k"
    by (simp add: unat_add_base unat_of_nat_u64 k_def)
  moreover have "(if c1 + hi < hi then 1 else 0 :: u64) = of_nat k"
    by (simp add: k_def)
  ultimately show ?thesis
    using sum by simp
qed

lemma mul_add_c_eq:
  "mul_add_c a b (c0, c1, c2) =
     (let (lo, hi) = mul_add c0 b a 0 in (lo, c1 + hi, c2 + (if c1 + hi < hi then 1 else 0)))"
  by (simp add: mul_add_c_def mul_add_def Let_def)

lemma mul_add_c2_twice: "mul_add_c2 a b c = mul_add_c a b (mul_add_c a b c)"
  by (cases c) (simp add: mul_add_c2_def mul_add_c_def Let_def)

lemma sqr_add_c_eq: "sqr_add_c a i = mul_add_c (a ! i) (a ! i)"
  by (simp add: sqr_add_c_def mul_add_c_def)

lemma mul_add_c_spec:
  assumes "three c + unat a * unat b < bn_base ^ 3"
  shows "three (mul_add_c a b c) = three c + unat a * unat b"
proof -
  obtain c0 c1 c2 where c: "c = (c0, c1, c2)"
    by (cases c)
  obtain lo hi where m: "mul_add c0 b a 0 = (lo, hi)"
    by fastforce
  have "unat lo + bn_base * unat hi = unat c0 + unat a * unat b"
    using mul_add_spec [OF m] by simp
  from add_two_words [OF this, of c1 c2] assms show ?thesis
    unfolding c mul_add_c_eq m by (simp only: case_prod_conv Let_def three.simps)
qed

lemma mul_add_c2_spec:
  assumes "three c + 2 * (unat a * unat b) < bn_base ^ 3"
  shows "three (mul_add_c2 a b c) = three c + 2 * (unat a * unat b)"
  using assms mul_add_c_spec [of c a b] mul_add_c_spec [of "mul_add_c a b c" a b]
  by (simp add: mul_add_c2_twice)

text \<open>The versions without \<open>BN_ULLONG\<close> are the same functions.\<close>

lemma umult_add:
  assumes "BN_UMULT_LOHI a b = (lo, hi)"
  shows "mul_add c b a 0 = (c + lo, hi + (if c + lo < lo then 1 else 0))"
proof -
  obtain x y where m: "mul_add_lohi c b a 0 = (x, y)"
    by fastforce
  then have "x = c + lo" and "y = hi + (if c + lo < lo then 1 else 0)"
    using assms by (auto simp: mul_add_lohi_def Let_def split: if_splits)
  then show ?thesis
    using m by (simp only: lohi_macros)
qed

lemma mul_add_c_lohi_same: "mul_add_c_lohi a b c = mul_add_c a b c"
proof -
  obtain c0 c1 c2 where c: "c = (c0, c1, c2)"
    by (cases c)
  obtain lo hi where m: "BN_UMULT_LOHI a b = (lo, hi)"
    by fastforce
  show ?thesis
    unfolding c mul_add_c_eq umult_add [OF m] mul_add_c_lohi_def m by (simp only: case_prod_conv Let_def)
qed

lemma mul_add_c2_lohi_same: "mul_add_c2_lohi a b c = mul_add_c2 a b c"
proof -
  obtain c0 c1 c2 where c: "c = (c0, c1, c2)"
    by (cases c)
  obtain lo hi where m: "BN_UMULT_LOHI a b = (lo, hi)"
    by fastforce
  show ?thesis
    unfolding c mul_add_c2_twice mul_add_c_eq umult_add [OF m] mul_add_c2_lohi_def m case_prod_conv Let_def
    by (simp only: case_prod_conv Let_def)
qed

section \<open>The columns of a product\<close>

text \<open>
  A column is the list of the pairs of indices that the code adds up, in its order; the low word of the
  sum is the next word of the result and the other two go on to the next column. After the last column
  the second word is written, too.
\<close>

fun comba :: "(nat \<times> nat \<Rightarrow> u64 \<times> u64 \<times> u64 \<Rightarrow> u64 \<times> u64 \<times> u64) \<Rightarrow> (nat \<times> nat) list list \<Rightarrow> u64 \<times> u64 \<times> u64 \<Rightarrow> u64 list" where
  "comba add [] (c0, c1, c2) = [c0]"
| "comba add (col # cols) c = (let (c0, c1, c2) = fold add col c in c0 # comba add cols (c1, c2, 0))"

definition mul_comba8_columns :: "(nat \<times> nat) list list" where
  "mul_comba8_columns =
     [[(0, 0)],
      [(0, 1), (1, 0)],
      [(2, 0), (1, 1), (0, 2)],
      [(0, 3), (1, 2), (2, 1), (3, 0)],
      [(4, 0), (3, 1), (2, 2), (1, 3), (0, 4)],
      [(0, 5), (1, 4), (2, 3), (3, 2), (4, 1), (5, 0)],
      [(6, 0), (5, 1), (4, 2), (3, 3), (2, 4), (1, 5), (0, 6)],
      [(0, 7), (1, 6), (2, 5), (3, 4), (4, 3), (5, 2), (6, 1), (7, 0)],
      [(7, 1), (6, 2), (5, 3), (4, 4), (3, 5), (2, 6), (1, 7)],
      [(2, 7), (3, 6), (4, 5), (5, 4), (6, 3), (7, 2)],
      [(7, 3), (6, 4), (5, 5), (4, 6), (3, 7)],
      [(4, 7), (5, 6), (6, 5), (7, 4)],
      [(7, 5), (6, 6), (5, 7)],
      [(6, 7), (7, 6)],
      [(7, 7)]]"

definition bn_mul_comba8 :: "u64 list \<Rightarrow> u64 list \<Rightarrow> u64 list" where
  "bn_mul_comba8 a b = comba (\<lambda>(i, j). mul_add_c (a ! i) (b ! j)) mul_comba8_columns (0, 0, 0)"

definition mul_comba4_columns :: "(nat \<times> nat) list list" where
  "mul_comba4_columns =
     [[(0, 0)],
      [(0, 1), (1, 0)],
      [(2, 0), (1, 1), (0, 2)],
      [(0, 3), (1, 2), (2, 1), (3, 0)],
      [(3, 1), (2, 2), (1, 3)],
      [(2, 3), (3, 2)],
      [(3, 3)]]"

definition bn_mul_comba4 :: "u64 list \<Rightarrow> u64 list \<Rightarrow> u64 list" where
  "bn_mul_comba4 a b = comba (\<lambda>(i, j). mul_add_c (a ! i) (b ! j)) mul_comba4_columns (0, 0, 0)"

text \<open>In a square, \<open>sqr_add_c\<close> adds the product of a word with itself and \<open>sqr_add_c2\<close> twice that of two words.\<close>

definition sqr_add :: "u64 list \<Rightarrow> nat \<times> nat \<Rightarrow> u64 \<times> u64 \<times> u64 \<Rightarrow> u64 \<times> u64 \<times> u64" where
  "sqr_add a = (\<lambda>(i, j). if i = j then sqr_add_c a i else sqr_add_c2 a i j)"

definition sqr_comba8_columns :: "(nat \<times> nat) list list" where
  "sqr_comba8_columns =
     [[(0, 0)],
      [(1, 0)],
      [(1, 1), (2, 0)],
      [(3, 0), (2, 1)],
      [(2, 2), (3, 1), (4, 0)],
      [(5, 0), (4, 1), (3, 2)],
      [(3, 3), (4, 2), (5, 1), (6, 0)],
      [(7, 0), (6, 1), (5, 2), (4, 3)],
      [(4, 4), (5, 3), (6, 2), (7, 1)],
      [(7, 2), (6, 3), (5, 4)],
      [(5, 5), (6, 4), (7, 3)],
      [(7, 4), (6, 5)],
      [(6, 6), (7, 5)],
      [(7, 6)],
      [(7, 7)]]"

definition bn_sqr_comba8 :: "u64 list \<Rightarrow> u64 list" where
  "bn_sqr_comba8 a = comba (sqr_add a) sqr_comba8_columns (0, 0, 0)"

definition sqr_comba4_columns :: "(nat \<times> nat) list list" where
  "sqr_comba4_columns =
     [[(0, 0)],
      [(1, 0)],
      [(1, 1), (2, 0)],
      [(3, 0), (2, 1)],
      [(2, 2), (3, 1)],
      [(3, 2)],
      [(3, 3)]]"

definition bn_sqr_comba4 :: "u64 list \<Rightarrow> u64 list" where
  "bn_sqr_comba4 a = comba (sqr_add a) sqr_comba4_columns (0, 0, 0)"

text \<open>The number that the columns add up to.\<close>

fun columns :: "(nat \<times> nat \<Rightarrow> nat) \<Rightarrow> (nat \<times> nat) list list \<Rightarrow> nat" where
  "columns val [] = 0"
| "columns val (col # cols) = sum_list (map val col) + bn_base * columns val cols"

text \<open>A step that adds a value less than the square of the base, at most sixteen times in a column.\<close>

locale column_sum =
  fixes add :: "nat \<times> nat \<Rightarrow> u64 \<times> u64 \<times> u64 \<Rightarrow> u64 \<times> u64 \<times> u64" and val :: "nat \<times> nat \<Rightarrow> nat"
  assumes add: "three c + val p < bn_base ^ 3 \<Longrightarrow> three (add p c) = three c + val p"
    and val: "val p < 2 * bn_base ^ 2"
begin

lemma fold_add:
  "three c + sum_list (map val col) < bn_base ^ 3 \<Longrightarrow> three (fold add col c) = three c + sum_list (map val col)"
  by (induction col arbitrary: c) (simp_all add: add)

lemma sum_val: "sum_list (map val col) \<le> length col * (2 * bn_base ^ 2)"
proof (induction col)
  case (Cons p col)
  then have "val p + sum_list (map val col) \<le> 2 * bn_base ^ 2 + length col * (2 * bn_base ^ 2)"
    using val [of p] by (intro add_mono) simp_all
  then show ?case
    by simp
qed simp

lemma comba_spec:
  assumes "list_all (\<lambda>col. length col \<le> 8) cols" and "three (c0, c1, c2) < bn_base ^ 2"
  shows "\<exists>q. bn_nat (comba add cols (c0, c1, c2)) + bn_base ^ (length cols + 1) * q = three (c0, c1, c2) + columns val cols"
  using assms
proof (induction cols arbitrary: c0 c1 c2)
  case Nil
  then show ?case
    by (intro exI [of _ "unat c1 + bn_base * unat c2"]) simp
next
  case (Cons col cols)
  obtain d0 d1 d2 where f: "fold add col (c0, c1, c2) = (d0, d1, d2)"
    by (metis prod_cases3)
  have "sum_list (map val col) \<le> 8 * (2 * bn_base ^ 2)"
    using sum_val [of col] Cons.prems(1) by (auto intro: order_trans mult_le_mono1)
  moreover have "17 * bn_base ^ 2 < bn_base ^ 3"
    by (simp add: bn_base_def)
  ultimately have "three (c0, c1, c2) + sum_list (map val col) < bn_base ^ 3"
    using Cons.prems(2) by linarith
  from fold_add [OF this] have d: "three (d0, d1, d2) = three (c0, c1, c2) + sum_list (map val col)"
    by (simp only: f)
  have "three (d1, d2, 0) < bn_base ^ 2"
    using bn_nat_less [of "[d1, d2]"] by (simp add: power2_eq_square)
  with Cons.prems(1) obtain q where "bn_nat (comba add cols (d1, d2, 0)) + bn_base ^ (length cols + 1) * q =
      three (d1, d2, 0) + columns val cols"
    using Cons.IH [of d1 d2 0] by (auto simp del: three.simps)
  from arg_cong [OF this, of "\<lambda>x. unat d0 + bn_base * x"] d
  show ?case
    by (intro exI [of _ q]) (simp add: f algebra_simps)
qed

lemma length_comba: "length (comba add cols c) = length cols + 1"
  by (induction add cols c rule: comba.induct) (simp_all split: prod.splits)

lemma comba_exact:
  assumes "list_all (\<lambda>col. length col \<le> 8) cols" and "length cols + 1 = n"
    and "columns val cols = x" and "x < bn_base ^ n"
  shows "bn_nat (comba add cols (0, 0, 0)) = x" and "length (comba add cols (0, 0, 0)) = n"
proof -
  obtain q where "bn_nat (comba add cols (0, 0, 0)) + bn_base ^ n * q = x"
    using comba_spec [OF assms(1), of 0 0 0] assms(2,3) by auto
  then show "bn_nat (comba add cols (0, 0, 0)) = x"
    using assms(4) by (cases q) auto
  show "length (comba add cols (0, 0, 0)) = n"
    using assms(2) by (simp add: length_comba)
qed

end

lemma word_product_bound: "unat (x :: u64) * unat (y :: u64) < bn_base ^ 2"
  using word_product_less [of "unat x" "unat y" 0 0] by (simp add: power2_eq_square)

interpretation mul_columns: column_sum "\<lambda>(i, j). mul_add_c (a ! i) (b ! j)"
  "\<lambda>(i, j). unat (a ! i) * unat (b ! j)" for a b
proof unfold_locales
  fix c p
  assume "three c + (case p of (i, j) \<Rightarrow> unat (a ! i) * unat (b ! j)) < bn_base ^ 3"
  then show "three ((case p of (i, j) \<Rightarrow> mul_add_c (a ! i) (b ! j)) c) =
      three c + (case p of (i, j) \<Rightarrow> unat (a ! i) * unat (b ! j))"
    by (cases p) (simp add: mul_add_c_spec)
next
  fix p
  show "(case p of (i, j) \<Rightarrow> unat (a ! i) * unat (b ! j)) < 2 * bn_base ^ 2"
    using word_product_bound [of "a ! fst p" "b ! snd p"] by (cases p) simp
qed

definition square_term :: "u64 list \<Rightarrow> nat \<times> nat \<Rightarrow> nat" where
  "square_term a = (\<lambda>(i, j). (if i = j then 1 else 2) * (unat (a ! i) * unat (a ! j)))"

interpretation sqr_columns: column_sum "sqr_add a" "square_term a" for a
proof unfold_locales
  fix c p
  assume "three c + square_term a p < bn_base ^ 3"
  then show "three (sqr_add a p c) = three c + square_term a p"
    by (cases p) (auto simp: square_term_def sqr_add_def sqr_add_c_eq sqr_add_c2_def mul_add_c_spec mul_add_c2_spec
        split: if_splits)
next
  fix p
  show "square_term a p < 2 * bn_base ^ 2"
    using word_product_bound [of "a ! fst p" "a ! snd p"] by (cases p) (auto simp: square_term_def)
qed

lemma length_4E:
  assumes "length a = 4" obtains a0 a1 a2 a3 where "a = [a0, a1, a2, a3]"
  using assms by (auto simp: numeral_eq_Suc length_Suc_conv)

lemma length_8E:
  assumes "length a = 8" obtains a0 a1 a2 a3 a4 a5 a6 a7 where "a = [a0, a1, a2, a3, a4, a5, a6, a7]"
  using assms by (auto simp: numeral_eq_Suc length_Suc_conv)

lemma product_less:
  assumes "length a = n" and "length b = m"
  shows "bn_nat a * bn_nat b < bn_base ^ (n + m)"
  using mult_strict_mono' [OF bn_nat_less [of a] bn_nat_less [of b]] assms by (simp add: power_add)

lemmas comba_columns =
  mul_comba4_columns_def sqr_comba4_columns_def mul_comba8_columns_def sqr_comba8_columns_def

lemma comba_columns_sizes:
  "list_all (\<lambda>col. length col \<le> 8) mul_comba4_columns" "length mul_comba4_columns + 1 = 8"
  "list_all (\<lambda>col. length col \<le> 8) sqr_comba4_columns" "length sqr_comba4_columns + 1 = 8"
  "list_all (\<lambda>col. length col \<le> 8) mul_comba8_columns" "length mul_comba8_columns + 1 = 16"
  "list_all (\<lambda>col. length col \<le> 8) sqr_comba8_columns" "length sqr_comba8_columns + 1 = 16"
  by (simp_all add: comba_columns)

lemma columns_sum:
  assumes "length a = 4" and "length b = 4"
  shows "columns (\<lambda>(i, j). unat (a ! i) * unat (b ! j)) mul_comba4_columns = bn_nat a * bn_nat b"
    and "columns (square_term a) sqr_comba4_columns = bn_nat a * bn_nat a"
proof -
  obtain a0 a1 a2 a3 b0 b1 b2 b3 where "a = [a0, a1, a2, a3]" "b = [b0, b1, b2, b3]"
    using assms by (metis length_4E)
  then show "columns (\<lambda>(i, j). unat (a ! i) * unat (b ! j)) mul_comba4_columns = bn_nat a * bn_nat b"
    "columns (square_term a) sqr_comba4_columns = bn_nat a * bn_nat a"
    by (simp_all add: comba_columns square_term_def numeral_2_eq_2 numeral_3_eq_3 algebra_simps)
qed

lemma columns_sum_8:
  assumes "length a = 8" and "length b = 8"
  shows "columns (\<lambda>(i, j). unat (a ! i) * unat (b ! j)) mul_comba8_columns = bn_nat a * bn_nat b"
    and "columns (square_term a) sqr_comba8_columns = bn_nat a * bn_nat a"
proof -
  obtain a0 a1 a2 a3 a4 a5 a6 a7 b0 b1 b2 b3 b4 b5 b6 b7
    where "a = [a0, a1, a2, a3, a4, a5, a6, a7]" "b = [b0, b1, b2, b3, b4, b5, b6, b7]"
    using assms by (metis length_8E)
  then show "columns (\<lambda>(i, j). unat (a ! i) * unat (b ! j)) mul_comba8_columns = bn_nat a * bn_nat b"
    "columns (square_term a) sqr_comba8_columns = bn_nat a * bn_nat a"
    by (simp_all add: comba_columns square_term_def algebra_simps)
qed

lemma bn_mul_comba4_spec:
  assumes "length a = 4" and "length b = 4"
  shows "bn_nat (bn_mul_comba4 a b) = bn_nat a * bn_nat b" and "length (bn_mul_comba4 a b) = 8"
proof -
  have "bn_nat a * bn_nat b < bn_base ^ 8"
    using product_less [OF assms] by simp
  note exact = mul_columns.comba_exact [OF comba_columns_sizes(1,2) columns_sum(1) [OF assms] this]
  show "bn_nat (bn_mul_comba4 a b) = bn_nat a * bn_nat b" and "length (bn_mul_comba4 a b) = 8"
    unfolding bn_mul_comba4_def by (rule exact)+
qed

lemma bn_sqr_comba4_spec:
  assumes "length a = 4"
  shows "bn_nat (bn_sqr_comba4 a) = bn_nat a * bn_nat a" and "length (bn_sqr_comba4 a) = 8"
proof -
  have "bn_nat a * bn_nat a < bn_base ^ 8"
    using product_less [OF assms assms] by simp
  note exact = sqr_columns.comba_exact [OF comba_columns_sizes(3,4) columns_sum(2) [OF assms assms] this]
  show "bn_nat (bn_sqr_comba4 a) = bn_nat a * bn_nat a" and "length (bn_sqr_comba4 a) = 8"
    unfolding bn_sqr_comba4_def by (rule exact)+
qed

lemma bn_mul_comba8_spec:
  assumes "length a = 8" and "length b = 8"
  shows "bn_nat (bn_mul_comba8 a b) = bn_nat a * bn_nat b" and "length (bn_mul_comba8 a b) = 16"
proof -
  have "bn_nat a * bn_nat b < bn_base ^ 16"
    using product_less [OF assms] by simp
  note exact = mul_columns.comba_exact [OF comba_columns_sizes(5,6) columns_sum_8(1) [OF assms] this]
  show "bn_nat (bn_mul_comba8 a b) = bn_nat a * bn_nat b" and "length (bn_mul_comba8 a b) = 16"
    unfolding bn_mul_comba8_def by (rule exact)+
qed

lemma bn_sqr_comba8_spec:
  assumes "length a = 8"
  shows "bn_nat (bn_sqr_comba8 a) = bn_nat a * bn_nat a" and "length (bn_sqr_comba8 a) = 16"
proof -
  have "bn_nat a * bn_nat a < bn_base ^ 16"
    using product_less [OF assms assms] by simp
  note exact = sqr_columns.comba_exact [OF comba_columns_sizes(7,8) columns_sum_8(2) [OF assms assms] this]
  show "bn_nat (bn_sqr_comba8 a) = bn_nat a * bn_nat a" and "length (bn_sqr_comba8 a) = 16"
    unfolding bn_sqr_comba8_def by (rule exact)+
qed

section \<open>Schoolbook multiplication\<close>

text \<open>
  The rows of a product. Before a row, the window \<open>r\<close> holds the \<open>na + 1\<close> words of the result that the
  rows so far reach, from the position of the row on; the first of them is final.
\<close>

fun mul_rows :: "u64 list \<Rightarrow> nat \<Rightarrow> u64 list \<Rightarrow> u64 list \<Rightarrow> u64 list" where
  "mul_rows a na r [] = r"
| "mul_rows a na r (w # b) =
     (let (rs, c) = bn_mul_add_words (tl r) a na w in hd r # mul_rows a na (rs @ [c]) b)"

definition bn_mul_normal :: "u64 list \<Rightarrow> nat \<Rightarrow> u64 list \<Rightarrow> nat \<Rightarrow> u64 list" where
  "bn_mul_normal a na b nb =
     (let (a, na, b, nb) = (if na < nb then (b, nb, a, na) else (a, na, b, nb)) in
      if nb = 0 then replicate na 0
      else let (r, c) = bn_mul_words a na (b ! 0) in mul_rows a na (r @ [c]) (tl (take nb b)))"

text \<open>The words above the diagonal of a square: two words of the window become final in every row.\<close>

fun sqr_rows :: "u64 list \<Rightarrow> u64 list \<Rightarrow> u64 list" where
  "sqr_rows r [] = r"
| "sqr_rows r [w] = r"
| "sqr_rows r (w # w' # a) =
     (let (rs, c) = bn_mul_add_words (drop 2 r) (w' # a) (length (w' # a)) w in
      take 2 r @ sqr_rows (rs @ [c]) (w' # a))"

definition bn_sqr_normal :: "u64 list \<Rightarrow> nat \<Rightarrow> u64 list" where
  "bn_sqr_normal a n =
     (if n = 0 then []
      else
        let a = take n a;
            mx = n * 2;
            r = (if n > 1 then let (r, c) = bn_mul_words (tl a) (n - 1) (hd a) in 0 # sqr_rows (r @ [c]) (tl a) @ [0]
                 else [0, 0]);
            r = fst (bn_add_words r r mx);
            tmp = bn_sqr_words a n in
        fst (bn_add_words r tmp mx))"

lemma mul_rows_spec:
  assumes "length r = na + 1" and "na \<le> length a"
  shows "bn_nat (mul_rows a na r b) = bn_nat r + bn_base * (bn_nat (take na a) * bn_nat b) \<and>
    length (mul_rows a na r b) = na + 1 + length b"
  using assms
proof (induction b arbitrary: r)
  case (Cons w b)
  obtain r0 rs where r: "r = r0 # rs" and rs: "length rs = na"
    using Cons.prems(1) by (cases r) auto
  obtain ss c where m: "bn_mul_add_words rs a na w = (ss, c)"
    by fastforce
  from bn_mul_add_words_spec [OF this] rs assms(2)
  have ss: "length ss = na" "bn_nat ss + bn_base ^ na * unat c = bn_nat rs + bn_nat (take na a) * unat w"
    by auto
  then have "bn_nat (ss @ [c]) = bn_nat rs + bn_nat (take na a) * unat w"
    by (simp add: bn_nat_append)
  then show ?case
    using Cons.IH [of "ss @ [c]"] ss(1) assms(2) by (simp add: r m algebra_simps)
qed simp

lemma bn_mul_normal_ordered:
  assumes "na \<le> length a" and "nb \<le> length b" and "nb \<le> na"
  shows "bn_nat (bn_mul_normal a na b nb) = bn_nat (take na a) * bn_nat (take nb b) \<and>
    length (bn_mul_normal a na b nb) = na + nb"
proof (cases "nb = 0")
  case False
  then obtain w ws where b: "take nb b = w # ws"
    using assms(2) by (cases "take nb b") auto
  have "b ! 0 = w"
    using b False by (metis nth_Cons_0 nth_take gr0I)
  obtain r c where m: "bn_mul_words a na w = (r, c)"
    by fastforce
  from bn_mul_words_spec [OF this] assms(1)
  have "bn_nat (r @ [c]) = bn_nat (take na a) * unat w" and "length (r @ [c]) = na + 1"
    by (simp_all add: bn_nat_append)
  moreover have "length ws = nb - 1"
    using arg_cong [OF b, of length] assms(2) by simp
  ultimately show ?thesis
    using mul_rows_spec [of "r @ [c]" na a ws] assms False
    by (simp add: bn_mul_normal_def b \<open>b ! 0 = w\<close> m algebra_simps)
qed (use assms in \<open>simp add: bn_mul_normal_def\<close>)

lemma bn_mul_normal_spec:
  assumes "na \<le> length a" and "nb \<le> length b"
  shows "bn_nat (bn_mul_normal a na b nb) = bn_nat (take na a) * bn_nat (take nb b)"
    and "length (bn_mul_normal a na b nb) = na + nb"
proof -
  have *: "bn_nat (bn_mul_normal a na b nb) = bn_nat (take na a) * bn_nat (take nb b) \<and>
    length (bn_mul_normal a na b nb) = na + nb"
  proof (cases "nb \<le> na")
    case False
    then have "bn_mul_normal a na b nb = bn_mul_normal b nb a na"
      by (simp add: bn_mul_normal_def)
    with bn_mul_normal_ordered [OF assms(2,1)] False show ?thesis
      by simp
  qed (use assms bn_mul_normal_ordered in blast)
  then show "bn_nat (bn_mul_normal a na b nb) = bn_nat (take na a) * bn_nat (take nb b)"
    "length (bn_mul_normal a na b nb) = na + nb"
    by simp_all
qed

lemma sqr_rows_spec:
  assumes "a \<noteq> []" and "length r = length a + 1"
  shows "\<exists>x. bn_nat (sqr_rows r a) = bn_nat r + bn_base ^ 2 * x \<and> length (sqr_rows r a) = 2 * length a \<and>
    bn_nat a * bn_nat a = bn_nat_squares a + 2 * bn_base * x"
  using assms
proof (induction r a rule: sqr_rows.induct)
  case (2 r w)
  then show ?case
    by (intro exI [of _ 0]) simp
next
  case (3 r w w' a)
  obtain rs c where m: "bn_mul_add_words (drop 2 r) (w' # a) (length (w' # a)) w = (rs, c)"
    by fastforce
  have len: "length (drop 2 r) = length (w' # a)"
    using "3.prems" by simp
  from bn_mul_add_words_spec [OF m] len
  have rs: "length rs = length (w' # a)"
    "bn_nat rs + bn_base ^ length (w' # a) * unat c = bn_nat (drop 2 r) + bn_nat (w' # a) * unat w"
    by auto
  have row: "bn_nat (rs @ [c]) = bn_nat (drop 2 r) + bn_nat (w' # a) * unat w"
    using rs by (simp add: bn_nat_append)
  have "length (rs @ [c]) = length (w' # a) + 1"
    using rs(1) by simp
  from "3.IH" [OF m [symmetric] refl _ this] obtain x
    where x: "bn_nat (sqr_rows (rs @ [c]) (w' # a)) = bn_nat (rs @ [c]) + bn_base ^ 2 * x"
      "length (sqr_rows (rs @ [c]) (w' # a)) = 2 * length (w' # a)"
      "bn_nat (w' # a) * bn_nat (w' # a) = bn_nat_squares (w' # a) + 2 * bn_base * x"
    by auto
  define A where "A = bn_nat (w' # a)"
  have r: "bn_nat r = bn_nat (take 2 r) + bn_base ^ 2 * bn_nat (drop 2 r)"
    using bn_nat_append [of "take 2 r" "drop 2 r"] "3.prems" by (simp add: power2_eq_square)
  have rows: "sqr_rows r (w # w' # a) = take 2 r @ sqr_rows (rs @ [c]) (w' # a)"
    using m by simp
  have "bn_nat (sqr_rows r (w # w' # a)) =
      bn_nat (take 2 r) + bn_base ^ 2 * (bn_nat (drop 2 r) + A * unat w + bn_base ^ 2 * x)"
    using "3.prems" by (simp add: rows bn_nat_append x(1) row [unfolded bn_nat_append] A_def power2_eq_square
        del: sqr_rows.simps bn_nat.simps)
  also have "... = bn_nat r + bn_base ^ 2 * (A * unat w + bn_base ^ 2 * x)"
    by (simp add: r algebra_simps)
  finally have 1: "bn_nat (sqr_rows r (w # w' # a)) = ..." .
  have 2: "length (sqr_rows r (w # w' # a)) = 2 * length (w # w' # a)"
    using "3.prems" x(2) by (simp add: rows del: sqr_rows.simps)
  have "bn_nat (w # w' # a) * bn_nat (w # w' # a) =
      unat w * unat w + 2 * bn_base * (A * unat w) + bn_base * bn_base * (A * A)"
    by (simp add: A_def algebra_simps)
  also have "A * A = bn_nat_squares (w' # a) + 2 * bn_base * x"
    by (simp only: x(3) A_def)
  finally have 3: "bn_nat (w # w' # a) * bn_nat (w # w' # a) =
      bn_nat_squares (w # w' # a) + 2 * bn_base * (A * unat w + bn_base ^ 2 * x)"
    by (simp add: algebra_simps power2_eq_square)
  show ?case
    using 1 2 3 by blast
qed simp

text \<open>The array of the products above the diagonal.\<close>

lemma cross_products:
  assumes "a \<noteq> []"
  defines "r \<equiv> (if length a > 1 then let (r, c) = bn_mul_words (tl a) (length a - 1) (hd a) in
      0 # sqr_rows (r @ [c]) (tl a) @ [0] else [0, 0 :: u64])"
  shows "length r = length a * 2" and "bn_nat a * bn_nat a = bn_nat_squares a + 2 * bn_nat r"
proof -
  obtain w as where a: "a = w # as"
    using assms(1) by (cases a) auto
  have "length r = length a * 2 \<and> bn_nat a * bn_nat a = bn_nat_squares a + 2 * bn_nat r"
  proof (cases "as = []")
    case True
    then show ?thesis
      by (simp add: a r_def)
  next
    case False
    obtain row c where m: "bn_mul_words as (length as) w = (row, c)"
      by fastforce
    have row: "bn_nat (row @ [c]) = bn_nat as * unat w" "length (row @ [c]) = length as + 1"
      using bn_mul_words_spec [OF m] by (simp_all add: bn_nat_append)
    from sqr_rows_spec [OF False row(2)] obtain x
      where x: "bn_nat (sqr_rows (row @ [c]) as) = bn_nat as * unat w + bn_base ^ 2 * x"
        "length (sqr_rows (row @ [c]) as) = 2 * length as"
        "bn_nat as * bn_nat as = bn_nat_squares as + 2 * bn_base * x"
      unfolding row(1) by auto
    have r: "r = 0 # sqr_rows (row @ [c]) as @ [0]"
      using False by (simp add: r_def a m)
    have "bn_nat a * bn_nat a = unat w * unat w + 2 * bn_base * (bn_nat as * unat w) +
        bn_base * bn_base * (bn_nat as * bn_nat as)"
      by (simp add: a algebra_simps)
    also have "... = bn_nat_squares a + 2 * (bn_base * (bn_nat as * unat w + bn_base ^ 2 * x))"
      unfolding x(3) by (simp add: a algebra_simps power2_eq_square)
    finally show ?thesis
      using x(2) by (simp add: r a bn_nat_append x(1))
  qed
  then show "length r = length a * 2" "bn_nat a * bn_nat a = bn_nat_squares a + 2 * bn_nat r"
    by simp_all
qed

text \<open>An addition without a carry.\<close>

lemma bn_add_words_exact:
  assumes "n \<le> length a" and "n \<le> length b" and "bn_nat (take n a) + bn_nat (take n b) < bn_base ^ n"
  shows "bn_nat (fst (bn_add_words a b n)) = bn_nat (take n a) + bn_nat (take n b)"
    and "length (fst (bn_add_words a b n)) = n" and "snd (bn_add_words a b n) = 0"
proof -
  obtain r c where s: "bn_add_words a b n = (r, c)"
    by fastforce
  note spec = bn_add_words_spec [OF s assms(1,2)]
  then have "unat c = 0"
    using assms(3) by (cases "unat c") auto
  with spec s show "bn_nat (fst (bn_add_words a b n)) = bn_nat (take n a) + bn_nat (take n b)"
    "length (fst (bn_add_words a b n)) = n" "snd (bn_add_words a b n) = 0"
    by (auto simp: unat_eq_0)
qed

lemma bn_sqr_normal_spec:
  assumes "n \<le> length a"
  shows "bn_nat (bn_sqr_normal a n) = bn_nat (take n a) * bn_nat (take n a)"
    and "length (bn_sqr_normal a n) = 2 * n"
proof -
  have "bn_nat (bn_sqr_normal a n) = bn_nat (take n a) * bn_nat (take n a) \<and> length (bn_sqr_normal a n) = 2 * n"
  proof (cases "n = 0")
    case False
    define b where "b = take n a"
    have b: "length b = n" "b \<noteq> []"
      using assms False by (auto simp: b_def)
    define r where "r = (if length b > 1 then let (r, c) = bn_mul_words (tl b) (length b - 1) (hd b) in
      0 # sqr_rows (r @ [c]) (tl b) @ [0] else [0, 0])"
    define s where "s = fst (bn_add_words r r (n * 2))"
    note r = cross_products [OF b(2), folded r_def]
    have bound: "bn_nat b * bn_nat b < bn_base ^ (n * 2)"
      using product_less [OF b(1) b(1)] by (simp add: mult_2_right)
    have s: "bn_nat s = 2 * bn_nat r" "length s = n * 2"
      unfolding s_def using r b bound by (subst bn_add_words_exact; simp)+
    have sq: "bn_sqr_words b n = sqr_loop b"
      by (simp add: bn_sqr_words_def b(1))
    have n: "bn_sqr_normal a n = fst (bn_add_words s (sqr_loop b) (n * 2))"
      using False by (simp add: bn_sqr_normal_def sq s_def r_def b(1) Let_def flip: b_def)
    show ?thesis
      unfolding n using r(2) s b bound length_sqr_loop [of b] sqr_loop_spec [of b]
        bn_add_words_exact [of "n * 2" s "sqr_loop b"] by (simp flip: b_def)
  qed (simp add: bn_sqr_normal_def)
  then show "bn_nat (bn_sqr_normal a n) = bn_nat (take n a) * bn_nat (take n a)"
    "length (bn_sqr_normal a n) = 2 * n"
    by simp_all
qed

section \<open>Products of small numbers\<close>

definition BN_SMALL_MAX_WORDS :: nat where
  "BN_SMALL_MAX_WORDS = 9"

definition bn_mul_small :: "nat \<Rightarrow> u64 list \<Rightarrow> nat \<Rightarrow> u64 list \<Rightarrow> nat \<Rightarrow> u64 list option" where
  "bn_mul_small num_r a num_a b num_b =
     (if num_r \<noteq> num_a + num_b then None
      else if num_a = 8 \<and> num_b = 8 then Some (bn_mul_comba8 (take 8 a) (take 8 b))
      else Some (bn_mul_normal a num_a b num_b))"

definition bn_sqr_small :: "nat \<Rightarrow> u64 list \<Rightarrow> nat \<Rightarrow> u64 list option" where
  "bn_sqr_small num_r a num_a =
     (if num_r \<noteq> 2 * num_a \<or> BN_SMALL_MAX_WORDS < num_a then None
      else if num_a = 4 then Some (bn_sqr_comba4 (take 4 a))
      else if num_a = 8 then Some (bn_sqr_comba8 (take 8 a))
      else Some (bn_sqr_normal a num_a))"

lemma bn_mul_small_spec:
  assumes "num_a \<le> length a" and "num_b \<le> length b"
  obtains r where "bn_mul_small (num_a + num_b) a num_a b num_b = Some r"
    and "bn_nat r = bn_nat (take num_a a) * bn_nat (take num_b b)" and "length r = num_a + num_b"
  using assms bn_mul_normal_spec [OF assms] bn_mul_comba8_spec [of "take 8 a" "take 8 b"]
  by (cases "num_a = 8 \<and> num_b = 8") (auto simp: bn_mul_small_def)

lemma bn_sqr_small_spec:
  assumes "num_a \<le> length a" and "num_a \<le> BN_SMALL_MAX_WORDS"
  obtains r where "bn_sqr_small (2 * num_a) a num_a = Some r"
    and "bn_nat r = bn_nat (take num_a a) * bn_nat (take num_a a)" and "length r = 2 * num_a"
  using assms bn_sqr_normal_spec [OF assms(1)] bn_sqr_comba4_spec [of "take 4 a"] bn_sqr_comba8_spec [of "take 8 a"]
  by (cases "num_a = 4"; cases "num_a = 8") (auto simp: bn_sqr_small_def)

end
