(* ===== verification/Bn.thy ===== *)
theory Bn
  imports Bn_Words Der
begin

text \<open>
  BoringSSL's \<open>BIGNUM\<close>s (\<open>bn.c\<close>, \<open>add.c\<close>, \<open>cmp.c\<close>, \<open>shift.c\<close> and \<open>bytes.c\<close> of \<open>crypto/fipsmodule/bn\<close>).

  A \<open>BIGNUM\<close> has an array of words \<open>d\<close>, of which the first \<open>top\<close> are the number, a sign and two flags; its
  \<open>dmax\<close> is the length of the array. The state \<open>bn_state\<close> maps the addresses of \<open>BIGNUM\<close>s to their contents,
  so a call may name the same \<open>BIGNUM\<close> twice; every \<open>BIGNUM\<close> has its own array. It also has the outcomes of
  the allocations to come: \<open>None\<close> is a null pointer, \<open>Some g\<close> an array with the contents \<open>g\<close>.

  Reading or writing past the end of an array is \<open>Stuck\<close>. The loops read a word before they write a word of the
  same or of a later index, so they are functions of the words they read.
\<close>

unbundle bit_operations_syntax

section \<open>The state\<close>

record bignum =
  bn_d :: "u64 list"
  bn_top :: nat
  bn_neg :: bool
  bn_static :: bool
  bn_malloced :: bool

record bn_state =
  nums :: "nat \<Rightarrow> bignum"
  mallocs :: "(nat \<Rightarrow> u64) option list"

definition set_num :: "nat \<Rightarrow> bignum \<Rightarrow> bn_state \<Rightarrow> bn_state" where
  "set_num b x s = s\<lparr>nums := (nums s)(b := x)\<rparr>"

definition modify :: "nat \<Rightarrow> (bignum \<Rightarrow> bignum) \<Rightarrow> (bn_state, unit) prog" where
  "modify b f = (\<lambda>s. (Ret (), set_num b (f (nums s b)) s))"

definition get :: "nat \<Rightarrow> (bn_state, bignum) prog" where
  "get b = (\<lambda>s. (Ret (nums s b), s))"

definition read_words :: "nat \<Rightarrow> nat \<Rightarrow> (bn_state, u64 list) prog" where
  "read_words b n = (\<lambda>s.
     if n \<le> length (bn_d (nums s b)) then (Ret (take n (bn_d (nums s b))), s) else (Stuck, s))"

definition write_words :: "nat \<Rightarrow> nat \<Rightarrow> u64 list \<Rightarrow> (bn_state, unit) prog" where
  "write_words b i ws = (\<lambda>s.
     let d = bn_d (nums s b) in
     if i + length ws \<le> length d
     then (Ret (), set_num b ((nums s b)\<lparr>bn_d := take i d @ ws @ drop (i + length ws) d\<rparr>) s)
     else (Stuck, s))"

definition malloc_words :: "nat \<Rightarrow> (bn_state, u64 list) prog" where
  "malloc_words n = (\<lambda>s. case mallocs s of
      [] \<Rightarrow> (Fail, s)
    | None # ms \<Rightarrow> (Fail, s\<lparr>mallocs := ms\<rparr>)
    | Some g # ms \<Rightarrow> (Ret (map g [0..<n]), s\<lparr>mallocs := ms\<rparr>))"

abbreviation "set_top b n \<equiv> modify b (\<lambda>x. x\<lparr>bn_top := n\<rparr>)"
abbreviation "set_neg b v \<equiv> modify b (\<lambda>x. x\<lparr>bn_neg := v\<rparr>)"

section \<open>bn.c\<close>

definition BN_BITS2 :: nat where "BN_BITS2 = 64"
definition INT_MAX :: nat where "INT_MAX = 2147483647"

definition BN_init :: bignum where
  "BN_init = \<lparr>bn_d = [], bn_top = 0, bn_neg = False, bn_static = False, bn_malloced = False\<rparr>"

text \<open>The new \<open>BIGNUM\<close> gets the address \<open>b\<close>.\<close>

definition BN_new :: "nat \<Rightarrow> (bn_state, nat) prog" where
  "BN_new b = bnd (malloc_words 0) (\<lambda>_. seq (modify b (\<lambda>_. BN_init\<lparr>bn_malloced := True\<rparr>)) (ret b))"

definition BN_is_zero :: "bignum \<Rightarrow> bool" where
  "BN_is_zero x \<longleftrightarrow> bn_top x = 0"

definition BN_zero :: "nat \<Rightarrow> (bn_state, unit) prog" where
  "BN_zero b = modify b (\<lambda>x. x\<lparr>bn_top := 0, bn_neg := False\<rparr>)"

definition bn_wexpand :: "nat \<Rightarrow> nat \<Rightarrow> (bn_state, unit) prog" where
  "bn_wexpand b words = bnd (get b) (\<lambda>bn.
     if words \<le> length (bn_d bn) then ret ()
     else if INT_MAX div (4 * BN_BITS2) < words then fail
     else if bn_static bn then fail
     else bnd (malloc_words words) (\<lambda>a. bnd (read_words b (bn_top bn)) (\<lambda>ws.
       modify b (\<lambda>x. x\<lparr>bn_d := ws @ drop (bn_top bn) a\<rparr>))))"

definition bn_expand :: "nat \<Rightarrow> u64 \<Rightarrow> (bn_state, unit) prog" where
  "bn_expand b bits =
     (if bits + of_nat BN_BITS2 - 1 < bits then fail
      else bn_wexpand b (unat ((bits + of_nat BN_BITS2 - 1) div of_nat BN_BITS2)))"

fun strip_top :: "u64 list \<Rightarrow> nat \<Rightarrow> nat" where
  "strip_top d 0 = 0"
| "strip_top d (Suc n) = (if d ! n \<noteq> 0 then Suc n else strip_top d n)"

definition bn_correct_top :: "nat \<Rightarrow> (bn_state, unit) prog" where
  "bn_correct_top b = bnd (get b) (\<lambda>bn. bnd (read_words b (bn_top bn)) (\<lambda>ws.
     let n = strip_top ws (bn_top bn) in
     modify b (\<lambda>x. x\<lparr>bn_top := n, bn_neg := (if n = 0 then False else bn_neg x)\<rparr>)))"

definition BN_copy :: "nat \<Rightarrow> nat \<Rightarrow> (bn_state, unit) prog" where
  "BN_copy dest src =
     (if src = dest then ret ()
      else bnd (get src) (\<lambda>x.
        seq (bn_wexpand dest (bn_top x))
        (bnd (read_words src (bn_top x)) (\<lambda>ws.
         seq (write_words dest 0 ws)
         (modify dest (\<lambda>y. y\<lparr>bn_top := bn_top x, bn_neg := bn_neg x\<rparr>))))))"

text \<open>What is freed is not used again; here it becomes empty.\<close>

definition BN_free :: "nat \<Rightarrow> (bn_state, unit) prog" where
  "BN_free b = modify b (\<lambda>_. BN_init)"

text \<open>The address of the copy is \<open>copy\<close>. It is freed again when it cannot be filled.\<close>

definition BN_dup :: "nat \<Rightarrow> nat \<Rightarrow> (bn_state, nat) prog" where
  "BN_dup copy src = seq (BN_new copy) (\<lambda>s. case BN_copy copy src s of
      (Ret _, s) \<Rightarrow> (Ret copy, s)
    | (Fail, s) \<Rightarrow> seq (BN_free copy) fail s
    | (Stuck, s) \<Rightarrow> (Stuck, s))"

definition BN_clear :: "nat \<Rightarrow> (bn_state, unit) prog" where
  "BN_clear b = modify b (\<lambda>x. x\<lparr>bn_d := replicate (length (bn_d x)) 0, bn_top := 0, bn_neg := False\<rparr>)"

definition BN_value_one :: bignum where
  "BN_value_one = \<lparr>bn_d = [1], bn_top = 1, bn_neg = False, bn_static = True, bn_malloced = False\<rparr>"

text \<open>The table of the numbers of bits of a byte.\<close>

definition num_bits_table :: "nat list" where
  "num_bits_table = [0, 1] @ replicate 2 2 @ replicate 4 3 @ replicate 8 4 @ replicate 16 5 @ replicate 32 6 @
     replicate 64 7 @ replicate 128 8"

definition BN_num_bits_word :: "u64 \<Rightarrow> nat" where
  "BN_num_bits_word l =
     (let bits = (\<lambda>k. num_bits_table ! unat (drop_bit k l) + k) in
      if l AND 0xffffffff00000000 \<noteq> 0 then
        if l AND 0xffff000000000000 \<noteq> 0 then
          if l AND 0xff00000000000000 \<noteq> 0 then bits 56 else bits 48
        else if l AND 0x0000ff0000000000 \<noteq> 0 then bits 40 else bits 32
      else if l AND 0xffff0000 \<noteq> 0 then
        if l AND 0xff000000 \<noteq> 0 then bits 24 else bits 16
      else if l AND 0xff00 \<noteq> 0 then bits 8 else bits 0)"

definition BN_num_bits :: "bignum \<Rightarrow> nat" where
  "BN_num_bits bn =
     (if BN_is_zero bn then 0
      else (bn_top bn - 1) * BN_BITS2 + BN_num_bits_word (bn_d bn ! (bn_top bn - 1)))"

definition BN_num_bytes :: "bignum \<Rightarrow> nat" where
  "BN_num_bytes bn = (BN_num_bits bn + 7) div 8"

definition BN_set_word :: "nat \<Rightarrow> u64 \<Rightarrow> (bn_state, unit) prog" where
  "BN_set_word b w =
     (if w = 0 then BN_zero b
      else seq (bn_wexpand b 1)
        (seq (set_neg b False) (seq (write_words b 0 [w]) (set_top b 1))))"

definition BN_one :: "nat \<Rightarrow> (bn_state, unit) prog" where
  "BN_one b = BN_set_word b 1"

definition BN_set_u64 :: "nat \<Rightarrow> u64 \<Rightarrow> (bn_state, unit) prog" where
  "BN_set_u64 b w = BN_set_word b w"

definition bn_set_words :: "nat \<Rightarrow> u64 list \<Rightarrow> (bn_state, unit) prog" where
  "bn_set_words b ws =
     seq (bn_wexpand b (length ws))
       (seq (write_words b 0 ws) (seq (set_top b (length ws)) (seq (bn_correct_top b) (set_neg b False))))"

definition BN_is_negative :: "bignum \<Rightarrow> bool" where
  "BN_is_negative x \<longleftrightarrow> bn_neg x"

definition BN_set_negative :: "nat \<Rightarrow> bool \<Rightarrow> (bn_state, unit) prog" where
  "BN_set_negative b sign = modify b (\<lambda>x. x\<lparr>bn_neg := sign \<and> \<not> BN_is_zero x\<rparr>)"

section \<open>cmp.c\<close>

fun cmp_down :: "u64 list \<Rightarrow> u64 list \<Rightarrow> nat \<Rightarrow> int \<Rightarrow> int \<Rightarrow> int" where
  "cmp_down a b 0 gt lt = 0"
| "cmp_down a b (Suc i) gt lt =
     (if b ! i < a ! i then gt else if a ! i < b ! i then lt else cmp_down a b i gt lt)"

definition BN_ucmp :: "bignum \<Rightarrow> bignum \<Rightarrow> int" where
  "BN_ucmp a b =
     (if bn_top a \<noteq> bn_top b then int (bn_top a) - int (bn_top b)
      else cmp_words_from (bn_d a) (bn_d b) (bn_top a))"

text \<open>Either argument may be a null pointer.\<close>

definition BN_cmp :: "bignum option \<Rightarrow> bignum option \<Rightarrow> int" where
  "BN_cmp a b = (case (a, b) of
      (Some _, None) \<Rightarrow> - 1
    | (None, Some _) \<Rightarrow> 1
    | (None, None) \<Rightarrow> 0
    | (Some a, Some b) \<Rightarrow>
        if bn_neg a \<noteq> bn_neg b then (if bn_neg a then - 1 else 1)
        else
          let (gt, lt) = (if \<not> bn_neg a then (1, - 1) else (- 1, 1)) in
          if bn_top b < bn_top a then gt
          else if bn_top a < bn_top b then lt
          else cmp_down (bn_d a) (bn_d b) (bn_top a) gt lt)"

definition BN_abs_is_word :: "bignum \<Rightarrow> u64 \<Rightarrow> bool" where
  "BN_abs_is_word bn w =
     (if bn_top bn = 1 then bn_d bn ! 0 = w else if bn_top bn = 0 then w = 0 else False)"

definition BN_cmp_word :: "bignum \<Rightarrow> u64 \<Rightarrow> int" where
  "BN_cmp_word a b =
     BN_cmp (Some a) (Some \<lparr>bn_d = [b], bn_top = (if 0 < b then 1 else 0), bn_neg = False, bn_static = True, bn_malloced = False\<rparr>)"

definition BN_is_one :: "bignum \<Rightarrow> bool" where
  "BN_is_one bn \<longleftrightarrow> \<not> bn_neg bn \<and> BN_abs_is_word bn 1"

definition BN_is_word :: "bignum \<Rightarrow> u64 \<Rightarrow> bool" where
  "BN_is_word bn w \<longleftrightarrow> BN_abs_is_word bn w \<and> (w = 0 \<or> \<not> bn_neg bn)"

definition BN_is_odd :: "bignum \<Rightarrow> bool" where
  "BN_is_odd bn \<longleftrightarrow> 0 < bn_top bn \<and> bn_d bn ! 0 AND 1 = 1"

definition BN_is_pow2 :: "bignum \<Rightarrow> bool" where
  "BN_is_pow2 bn =
     (if bn_top bn = 0 \<or> bn_neg bn then False
      else if list_ex (\<lambda>w. w \<noteq> 0) (take (bn_top bn - 1) (bn_d bn)) then False
      else bn_d bn ! (bn_top bn - 1) AND (bn_d bn ! (bn_top bn - 1) - 1) = 0)"

definition BN_equal_consttime :: "bignum \<Rightarrow> bignum \<Rightarrow> bool" where
  "BN_equal_consttime a b =
     (if bn_top a \<noteq> bn_top b then False
      else
        let limbs_are_equal = (take (bn_top a) (bn_d a) = take (bn_top a) (bn_d b)) in
        constant_time_select_int (constant_time_eq_int (if bn_neg a then 1 else 0) (if bn_neg b then 1 else 0))
          (if limbs_are_equal then 1 else 0) 0 \<noteq> 0)"

section \<open>add.c\<close>

text \<open>
  The carry into the words of the longer number beyond the shorter one: the words written, the words
  not reached, and whether there still is a carry.
\<close>

fun carry_words :: "u64 list \<Rightarrow> u64 list \<times> u64 list \<times> bool" where
  "carry_words [] = ([], [], True)"
| "carry_words (t1 # ap) =
     (let t2 = t1 + 1 in
      if t2 \<noteq> 0 then ([t2], ap, False)
      else let (ws, rest, carry) = carry_words ap in (t2 # ws, rest, carry))"

definition uadd_words :: "u64 list \<Rightarrow> u64 list \<Rightarrow> u64 list \<times> u64 list \<times> bool" where
  "uadd_words ap bp =
     (let mn = length bp;
          (sum, carry) = bn_add_words ap bp mn;
          (ws, rest, carry) = (if carry \<noteq> 0 then carry_words (drop mn ap) else ([], drop mn ap, False)) in
      (sum @ ws, rest, carry))"

text \<open>\<open>a\<close> is not shorter than \<open>b\<close>.\<close>

definition uadd_longer :: "nat \<Rightarrow> nat \<Rightarrow> nat \<Rightarrow> (bn_state, unit) prog" where
  "uadd_longer r a b = bnd (get a) (\<lambda>x. bnd (get b) (\<lambda>y.
     let mx = bn_top x; mn = bn_top y in
     seq (bn_wexpand r (mx + 1))
     (seq (set_top r mx)
     (bnd (read_words a mx) (\<lambda>ap. bnd (read_words b mn) (\<lambda>bp.
       let (ws, rest, carry) = uadd_words ap bp in
       seq (write_words r 0 ws)
       (seq (if carry then seq (write_words r mx [1]) (set_top r (mx + 1)) else ret ())
       (seq (if rest \<noteq> [] \<and> r \<noteq> a then write_words r (mx - length rest) rest else ret ())
       (set_neg r False)))))))))"

definition BN_uadd :: "nat \<Rightarrow> nat \<Rightarrow> nat \<Rightarrow> (bn_state, unit) prog" where
  "BN_uadd r a b = bnd (get a) (\<lambda>x. bnd (get b) (\<lambda>y.
     if bn_top x < bn_top y then uadd_longer r b a else uadd_longer r a b))"

text \<open>The borrow from the words of the longer number: the words written and those not reached.\<close>

fun borrow_words :: "u64 list \<Rightarrow> u64 list \<times> u64 list" where
  "borrow_words [] = ([], [])"
| "borrow_words (t1 # ap) =
     (let t2 = t1 - 1 in
      if t1 \<noteq> 0 then ([t2], ap) else let (ws, rest) = borrow_words ap in (t2 # ws, rest))"

text \<open>The loop over the common words has its own subtraction; \<open>carry\<close> is a flag.\<close>

fun usub_words :: "u64 list \<Rightarrow> u64 list \<Rightarrow> bool \<Rightarrow> u64 list \<times> bool" where
  "usub_words (t1 # ap) (t2 # bp) carry =
     (let (t1', carry) = (if carry then (t1 - (t2 + 1), t1 \<le> t2) else (t1 - t2, t1 < t2));
          (rs, carry) = usub_words ap bp carry in
      (t1' # rs, carry))"
| "usub_words _ _ carry = ([], carry)"

definition BN_usub :: "nat \<Rightarrow> nat \<Rightarrow> nat \<Rightarrow> (bn_state, unit) prog" where
  "BN_usub r a b = bnd (get a) (\<lambda>x. bnd (get b) (\<lambda>y.
     let mx = bn_top x; mn = bn_top y in
     if mx < mn then fail
     else
       seq (bn_wexpand r mx)
       (bnd (read_words a mx) (\<lambda>ap. bnd (read_words b mn) (\<lambda>bp.
         let (diff, carry) = usub_words (take mn ap) bp False in
         seq (write_words r 0 diff)
         (if carry \<and> mx = mn then fail
          else
            let (ws, rest) = (if carry then borrow_words (drop mn ap) else ([], drop mn ap)) in
            seq (write_words r mn ws)
            (seq (if rest \<noteq> [] \<and> r \<noteq> a then write_words r (mx - length rest) rest else ret ())
            (seq (set_top r mx) (seq (set_neg r False) (bn_correct_top r))))))))))"

text \<open>The difference of two absolute values with its sign, as the two functions below end with it.\<close>

definition signed_usub :: "nat \<Rightarrow> nat \<Rightarrow> nat \<Rightarrow> (bn_state, unit) prog" where
  "signed_usub r a b = bnd (get a) (\<lambda>x. bnd (get b) (\<lambda>y.
     if BN_ucmp x y < 0 then seq (BN_usub r b a) (set_neg r True) else seq (BN_usub r a b) (set_neg r False)))"

definition BN_add :: "nat \<Rightarrow> nat \<Rightarrow> nat \<Rightarrow> (bn_state, unit) prog" where
  "BN_add r a b = bnd (get a) (\<lambda>x. bnd (get b) (\<lambda>y.
     let a_neg = bn_neg x in
     if a_neg \<noteq> bn_neg y then (if a_neg then signed_usub r b a else signed_usub r a b)
     else (\<lambda>s. case BN_uadd r a b s of
         (Stuck, s) \<Rightarrow> (Stuck, s)
       | (v, s) \<Rightarrow> (v, snd (set_neg r a_neg s)))))"

definition BN_sub :: "nat \<Rightarrow> nat \<Rightarrow> nat \<Rightarrow> (bn_state, unit) prog" where
  "BN_sub r a b = bnd (get a) (\<lambda>x. bnd (get b) (\<lambda>y.
     if bn_neg x \<noteq> bn_neg y then seq (BN_uadd r a b) (set_neg r (bn_neg x))
     else
       let (a, b) = (if bn_neg x then (b, a) else (a, b)) in
       seq (bn_wexpand r (max (bn_top x) (bn_top y))) (signed_usub r a b)))"

text \<open>Adding and subtracting a word that is not zero, for a number that is positive.\<close>

fun add_word_loop :: "u64 list \<Rightarrow> u64 \<Rightarrow> u64 list \<times> u64" where
  "add_word_loop [] w = ([], w)"
| "add_word_loop (x # d) w =
     (if w = 0 then (x # d, 0)
      else let l = x + w; (d, w) = add_word_loop d (if l < w then 1 else 0) in (l # d, w))"

definition add_word_positive :: "nat \<Rightarrow> u64 \<Rightarrow> (bn_state, unit) prog" where
  "add_word_positive a w = bnd (get a) (\<lambda>x. bnd (read_words a (bn_top x)) (\<lambda>ws.
     let (ws, w) = add_word_loop ws w in
     seq (write_words a 0 ws)
     (if w \<noteq> 0 then
        seq (bn_wexpand a (bn_top x + 1))
        (seq (set_top a (bn_top x + 1)) (write_words a (bn_top x) [w]))
      else ret ())))"

text \<open>The loop of the subtraction has no bound but the end of the array: \<open>None\<close>. It returns the index it stops at.\<close>

fun sub_word_loop :: "u64 list \<Rightarrow> u64 \<Rightarrow> nat \<Rightarrow> (u64 list \<times> nat) option" where
  "sub_word_loop [] w i = None"
| "sub_word_loop (x # d) w i =
     (if w \<le> x then Some ((x - w) # d, i)
      else map_option (\<lambda>(d, i). ((x - w) # d, i)) (sub_word_loop d 1 (i + 1)))"

definition sub_word_positive :: "nat \<Rightarrow> u64 \<Rightarrow> (bn_state, unit) prog" where
  "sub_word_positive a w = bnd (get a) (\<lambda>x.
     if bn_top x = 1 \<and> bn_d x ! 0 < w
     then seq (write_words a 0 [w - bn_d x ! 0]) (set_neg a True)
     else case sub_word_loop (bn_d x) w 0 of
         None \<Rightarrow> stuck
       | Some (d, i) \<Rightarrow>
           seq (write_words a 0 d)
           (if d ! i = 0 \<and> i = bn_top x - 1 then set_top a (bn_top x - 1) else ret ()))"

text \<open>The calls between the two functions change the sign first, so they arrive at the cases above.\<close>

definition BN_add_word :: "nat \<Rightarrow> u64 \<Rightarrow> (bn_state, unit) prog" where
  "BN_add_word a w = bnd (get a) (\<lambda>x.
     if w = 0 then ret ()
     else if BN_is_zero x then BN_set_word a w
     else if bn_neg x then
       seq (set_neg a False) (\<lambda>s. case sub_word_positive a w s of
           (Stuck, s) \<Rightarrow> (Stuck, s)
         | (v, s) \<Rightarrow> (v, snd (modify a (\<lambda>x. if BN_is_zero x then x else x\<lparr>bn_neg := \<not> bn_neg x\<rparr>) s)))
     else add_word_positive a w)"

definition BN_sub_word :: "nat \<Rightarrow> u64 \<Rightarrow> (bn_state, unit) prog" where
  "BN_sub_word a w = bnd (get a) (\<lambda>x.
     if w = 0 then ret ()
     else if BN_is_zero x then seq (BN_set_word a w) (BN_set_negative a True)
     else if bn_neg x then
       seq (set_neg a False) (\<lambda>s. case add_word_positive a w s of
           (Stuck, s) \<Rightarrow> (Stuck, s)
         | (v, s) \<Rightarrow> (v, snd (set_neg a True s)))
     else sub_word_positive a w)"

section \<open>shift.c\<close>

text \<open>The loop goes down; \<open>acc\<close> is the word \<open>t[nw + i + 1]\<close> as it was left.\<close>

fun lshift_down :: "nat \<Rightarrow> u64 list \<Rightarrow> u64 \<Rightarrow> u64 list" where
  "lshift_down lb [] acc = [acc]"
| "lshift_down lb (l # f) acc = (acc OR drop_bit (BN_BITS2 - lb) l) # lshift_down lb f (push_bit lb l)"

definition BN_lshift :: "nat \<Rightarrow> nat \<Rightarrow> int \<Rightarrow> (bn_state, unit) prog" where
  "BN_lshift r a n =
     (if n < 0 then fail
      else bnd (get a) (\<lambda>x.
        seq (set_neg r (bn_neg x))
        (let nw = nat n div BN_BITS2; lb = nat n mod BN_BITS2 in
         seq (bn_wexpand r (bn_top x + nw + 1))
         (bnd (read_words a (bn_top x)) (\<lambda>f.
          seq (write_words r nw (if lb = 0 then f @ [0] else rev (lshift_down lb (rev f) 0)))
          (seq (write_words r 0 (replicate nw 0))
          (seq (set_top r (bn_top x + nw + 1)) (bn_correct_top r))))))))"

fun lshift1_loop :: "u64 list \<Rightarrow> u64 \<Rightarrow> u64 list \<times> u64" where
  "lshift1_loop [] c = ([], c)"
| "lshift1_loop (t # ap) c =
     (let (rp, c') = lshift1_loop ap (drop_bit (BN_BITS2 - 1) t) in ((push_bit 1 t OR c) # rp, c'))"

definition BN_lshift1 :: "nat \<Rightarrow> nat \<Rightarrow> (bn_state, unit) prog" where
  "BN_lshift1 r a = bnd (get a) (\<lambda>x.
     seq (if r \<noteq> a
          then seq (set_neg r (bn_neg x)) (seq (bn_wexpand r (bn_top x + 1)) (set_top r (bn_top x)))
          else bn_wexpand r (bn_top x + 1))
     (bnd (read_words a (bn_top x)) (\<lambda>ap.
      let (rp, c) = lshift1_loop ap 0 in
      seq (write_words r 0 rp)
      (if c \<noteq> 0 then seq (write_words r (bn_top x) [1]) (modify r (\<lambda>y. y\<lparr>bn_top := bn_top y + 1\<rparr>))
       else ret ()))))"

fun rshift_loop :: "nat \<Rightarrow> u64 \<Rightarrow> u64 list \<Rightarrow> u64 list" where
  "rshift_loop rb l [] = (if drop_bit rb l \<noteq> 0 then [drop_bit rb l] else [])"
| "rshift_loop rb l (l' # f) = (drop_bit rb l OR push_bit (BN_BITS2 - rb) l') # rshift_loop rb l' f"

definition BN_rshift :: "nat \<Rightarrow> nat \<Rightarrow> int \<Rightarrow> (bn_state, unit) prog" where
  "BN_rshift r a n =
     (if n < 0 then fail
      else bnd (get a) (\<lambda>x.
        let nw = nat n div BN_BITS2; rb = nat n mod BN_BITS2 in
        if bn_top x \<le> nw \<or> bn_top x = 0 then BN_zero r
        else
          let i = unat ((of_nat (BN_num_bits x) - of_nat (nat n) + of_nat (BN_BITS2 - 1)) div of_nat BN_BITS2 :: u32) in
          if r = a \<and> n = 0 then ret ()
          else
            seq (if r \<noteq> a then seq (set_neg r (bn_neg x)) (bn_wexpand r i) else ret ())
            (bnd (read_words a (bn_top x)) (\<lambda>ws.
             let f = drop nw ws in
             seq (set_top r i)
             (seq (write_words r 0 (if rb = 0 then f else rshift_loop rb (hd f) (tl f)))
             (modify r (\<lambda>y. if bn_top y = 0 then y\<lparr>bn_neg := False\<rparr> else y)))))))"

text \<open>The words below the first one, from the top down.\<close>

fun rshift1_down :: "u64 list \<Rightarrow> u64 \<Rightarrow> u64 list" where
  "rshift1_down [] c = []"
| "rshift1_down (t # ap) c = (drop_bit 1 t OR c) # rshift1_down ap (push_bit (BN_BITS2 - 1) t)"

definition BN_rshift1 :: "nat \<Rightarrow> nat \<Rightarrow> (bn_state, unit) prog" where
  "BN_rshift1 r a = bnd (get a) (\<lambda>x.
     if BN_is_zero x then BN_zero r
     else bnd (read_words a (bn_top x)) (\<lambda>ap.
       let i = bn_top x; j = i - (if ap ! (i - 1) = 1 then 1 else 0) in
       seq (if a \<noteq> r then seq (bn_wexpand r j) (set_neg r (bn_neg x)) else ret ())
       (let t = ap ! (i - 1);
            c = push_bit (BN_BITS2 - 1) t;
            rp = rev (rshift1_down (rev (take (i - 1) ap)) c) in
        seq (write_words r 0 (if drop_bit 1 t \<noteq> 0 then rp @ [drop_bit 1 t] else rp))
        (modify r (\<lambda>y. y\<lparr>bn_top := j, bn_neg := (if j = 0 then False else bn_neg y)\<rparr>)))))"

definition BN_set_bit :: "nat \<Rightarrow> int \<Rightarrow> (bn_state, unit) prog" where
  "BN_set_bit a n =
     (if n < 0 then fail
      else bnd (get a) (\<lambda>x.
        let i = nat n div BN_BITS2; j = nat n mod BN_BITS2 in
        seq (if bn_top x \<le> i
             then seq (bn_wexpand a (i + 1))
               (seq (write_words a (bn_top x) (replicate (i + 1 - bn_top x) 0)) (set_top a (i + 1)))
             else ret ())
        (bnd (read_words a (i + 1)) (\<lambda>ws. write_words a i [ws ! i OR push_bit j 1]))))"

definition BN_clear_bit :: "nat \<Rightarrow> int \<Rightarrow> (bn_state, unit) prog" where
  "BN_clear_bit a n =
     (if n < 0 then fail
      else bnd (get a) (\<lambda>x.
        let i = nat n div BN_BITS2; j = nat n mod BN_BITS2 in
        if bn_top x \<le> i then fail
        else bnd (read_words a (i + 1)) (\<lambda>ws.
          seq (write_words a i [ws ! i AND NOT (push_bit j 1)]) (bn_correct_top a))))"

definition bn_is_bit_set_words :: "u64 list \<Rightarrow> nat \<Rightarrow> nat \<Rightarrow> bool" where
  "bn_is_bit_set_words a num b =
     (let i = b div BN_BITS2; j = b mod BN_BITS2 in
      if num \<le> i then False else drop_bit j (a ! i) AND 1 = 1)"

definition BN_is_bit_set :: "bignum \<Rightarrow> int \<Rightarrow> bool" where
  "BN_is_bit_set a n = (if n < 0 then False else bn_is_bit_set_words (bn_d a) (bn_top a) (nat n))"

definition BN_mask_bits :: "nat \<Rightarrow> int \<Rightarrow> (bn_state, unit) prog" where
  "BN_mask_bits a n =
     (if n < 0 then fail
      else bnd (get a) (\<lambda>x.
        let w = nat n div BN_BITS2; b = nat n mod BN_BITS2 in
        if bn_top x \<le> w then fail
        else seq (if b = 0 then set_top a w
          else bnd (read_words a (w + 1)) (\<lambda>ws.
            seq (set_top a (w + 1)) (write_words a w [ws ! w AND NOT (push_bit b (- 1))])))
          (bn_correct_top a)))"

section \<open>bytes.c\<close>

text \<open>The words as they are filled, the most significant one first; \<open>m\<close> more bytes complete a word after the next.\<close>

fun bin2bn_loop :: "byte list \<Rightarrow> nat \<Rightarrow> u64 \<Rightarrow> u64 list" where
  "bin2bn_loop [] m w = []"
| "bin2bn_loop (x # xs) m w =
     (let w = push_bit 8 w OR ucast x in
      if m = 0 then w # bin2bn_loop xs 7 0 else bin2bn_loop xs (m - 1) w)"

text \<open>\<open>ret\<close> may be a null pointer; then a new \<open>BIGNUM\<close> gets the address \<open>fresh\<close>.\<close>

definition new_or_given :: "nat \<Rightarrow> nat option \<Rightarrow> (bn_state, nat) prog" where
  "new_or_given fresh given = (case given of None \<Rightarrow> BN_new fresh | Some b \<Rightarrow> ret b)"

text \<open>Room for \<open>num_words\<close> words in \<open>ret\<close>, which is \<open>b\<close>; a new \<open>BIGNUM\<close> is freed again when there is none.\<close>

definition expand_or_free :: "nat option \<Rightarrow> nat \<Rightarrow> nat \<Rightarrow> (bn_state, unit) prog" where
  "expand_or_free given b num_words = (case given of
      Some _ \<Rightarrow> bn_wexpand b num_words
    | None \<Rightarrow> (\<lambda>s. case bn_wexpand b num_words s of
          (Fail, s) \<Rightarrow> seq (BN_free b) fail s
        | r \<Rightarrow> r))"

definition BN_bin2bn :: "nat \<Rightarrow> byte list \<Rightarrow> nat option \<Rightarrow> (bn_state, nat) prog" where
  "BN_bin2bn fresh inp given = bnd (new_or_given fresh given) (\<lambda>b.
     let len = length inp in
     if len = 0 then seq (set_top b 0) (ret b)
     else
       let num_words = (len - 1) div 8 + 1; m = (len - 1) mod 8 in
       seq (expand_or_free given b num_words)
       (seq (modify b (\<lambda>x. x\<lparr>bn_top := num_words, bn_neg := False\<rparr>))
       (seq (write_words b 0 (rev (bin2bn_loop inp m 0)))
       (seq (bn_correct_top b) (ret b)))))"

text \<open>Copying bytes over the words, in the byte order of the machine.\<close>

fun words_of_bytes :: "byte list \<Rightarrow> u64 list" where
  "words_of_bytes [] = []"
| "words_of_bytes (x # xs) = le_word (take 8 (x # xs)) # words_of_bytes (drop 7 xs)"

definition BN_le2bn :: "nat \<Rightarrow> byte list \<Rightarrow> nat option \<Rightarrow> (bn_state, nat) prog" where
  "BN_le2bn fresh inp given = bnd (new_or_given fresh given) (\<lambda>b.
     let len = length inp in
     if len = 0 then seq (modify b (\<lambda>x. x\<lparr>bn_top := 0, bn_neg := False\<rparr>)) (ret b)
     else
       let num_words = (len - 1) div 8 + 1 in
       seq (expand_or_free given b num_words)
       (seq (set_top b num_words)
       (seq (write_words b 0 (words_of_bytes inp))
       (seq (bn_correct_top b) (ret b)))))"

fun bn2bin_loop :: "u64 list \<Rightarrow> nat \<Rightarrow> byte list" where
  "bn2bin_loop d 0 = []"
| "bn2bin_loop d (Suc i) = ucast (drop_bit (8 * (i mod 8)) (d ! (i div 8))) # bn2bin_loop d i"

definition BN_bn2bin :: "bignum \<Rightarrow> byte list" where
  "BN_bn2bin x = bn2bin_loop (bn_d x) (BN_num_bytes x)"

definition BN_bn2le_padded :: "nat \<Rightarrow> bignum \<Rightarrow> byte list option" where
  "BN_bn2le_padded len x =
     (let num_bytes = BN_num_bytes x in
      if len < num_bytes then None
      else Some (take num_bytes (concat (map (le_bytes 8) (bn_d x))) @ replicate (len - num_bytes) 0))"

definition constant_time_select_ulong :: "u64 \<Rightarrow> u64 \<Rightarrow> u64 \<Rightarrow> u64" where
  "constant_time_select_ulong v x y = (let m = v - 1 in (NOT m AND x) OR (m AND y))"

definition constant_time_le_size_t :: "u64 \<Rightarrow> u64 \<Rightarrow> u64" where
  "constant_time_le_size_t x y = drop_bit 63 (x - y - 1) AND 1"

definition read_word_padded :: "bignum \<Rightarrow> nat \<Rightarrow> u64" where
  "read_word_padded x i =
     (let l = bn_d x ! unat (constant_time_select_ulong
            (constant_time_le_size_t (of_nat (length (bn_d x))) (of_nat i)) (of_nat (length (bn_d x)) - 1) (of_nat i)) in
      constant_time_select_ulong (constant_time_le_size_t (of_nat (bn_top x)) (of_nat i)) 0 l)"

fun bn2bin_padded_loop :: "bignum \<Rightarrow> nat \<Rightarrow> byte list" where
  "bn2bin_padded_loop x 0 = []"
| "bn2bin_padded_loop x (Suc i) =
     ucast (drop_bit (8 * (i mod 8)) (read_word_padded x (i div 8))) # bn2bin_padded_loop x i"

definition BN_bn2bin_padded :: "nat \<Rightarrow> bignum \<Rightarrow> byte list option" where
  "BN_bn2bin_padded len x =
     (if BN_is_zero x then Some (replicate len 0)
      else if (len + 7) div 8 < bn_top x then None
      else if len mod 8 \<noteq> 0 \<and> drop_bit (8 * (len mod 8)) (read_word_padded x (len div 8)) \<noteq> 0 then None
      else Some (bn2bin_padded_loop x len))"

definition BN_get_word :: "bignum \<Rightarrow> u64" where
  "BN_get_word x = (if bn_top x = 0 then 0 else if bn_top x = 1 then bn_d x ! 0 else - 1)"

definition BN_get_u64 :: "bignum \<Rightarrow> u64 option" where
  "BN_get_u64 x = (if bn_top x = 0 then Some 0 else if bn_top x = 1 then Some (bn_d x ! 0) else None)"

end
