(* ===== verification/Bn_Spec.thy ===== *)
theory Bn_Spec
  imports Bn
begin

text \<open>
  What the operations on \<open>BIGNUM\<close>s compute: the integer a \<open>BIGNUM\<close> stands for (\<open>bn_int\<close>), the well-formed
  \<open>BIGNUM\<close>s (\<open>bn_wf\<close>: the words fit into the array, the last of them is not zero, zero is not negative), and the
  operations as those on the integers. They return and never read or write outside of an array,
  whichever of their arguments are the same \<open>BIGNUM\<close>; they fail only when the result has no room
  in its array.
\<close>

unbundle bit_operations_syntax

section \<open>Numbers\<close>

definition bn_words :: "bignum \<Rightarrow> u64 list" where
  "bn_words x = take (bn_top x) (bn_d x)"

definition bn_abs :: "bignum \<Rightarrow> nat" where
  "bn_abs x = bn_nat (bn_words x)"

definition bn_int :: "bignum \<Rightarrow> int" where
  "bn_int x = (if bn_neg x then - int (bn_abs x) else int (bn_abs x))"

definition bn_fits :: "bignum \<Rightarrow> bool" where
  "bn_fits x \<longleftrightarrow> bn_top x \<le> length (bn_d x)"

definition bn_wf :: "bignum \<Rightarrow> bool" where
  "bn_wf x \<longleftrightarrow> bn_fits x \<and> (0 < bn_top x \<longrightarrow> bn_d x ! (bn_top x - 1) \<noteq> 0) \<and> (bn_top x = 0 \<longrightarrow> \<not> bn_neg x)"

lemma bn_wf_fits [simp]: "bn_wf x \<Longrightarrow> bn_fits x"
  by (simp add: bn_wf_def)

lemma length_bn_words [simp]: "bn_fits x \<Longrightarrow> length (bn_words x) = bn_top x"
  by (simp add: bn_words_def bn_fits_def)

lemma bn_abs_less: "bn_fits x \<Longrightarrow> bn_abs x < bn_base ^ bn_top x"
  using bn_nat_less [of "bn_words x"] by (simp add: bn_abs_def)

text \<open>The last word is not zero when the number is as long as its words.\<close>

lemma last_word_iff:
  assumes "n \<le> length d" and "0 < n"
  shows "d ! (n - 1) \<noteq> 0 \<longleftrightarrow> bn_base ^ (n - 1) \<le> bn_nat (take n d)"
proof -
  obtain m where n: "n = Suc m"
    using assms(2) by (cases n) simp_all
  have eq: "bn_nat (take (Suc m) d) = bn_nat (take m d) + bn_base ^ m * unat (d ! m)"
    using assms(1) by (simp add: n bn_nat_take_Suc)
  show ?thesis
  proof (cases "d ! m = 0")
    case True
    then show ?thesis
      using bn_nat_take_less [of m d] by (simp add: eq n)
  next
    case False
    then have "1 \<le> unat (d ! m)"
      by (simp add: Suc_le_eq unat_gt_0)
    then have "bn_base ^ m * 1 \<le> bn_base ^ m * unat (d ! m)"
      by (rule mult_le_mono2)
    then have "bn_base ^ m \<le> bn_nat (take (Suc m) d)"
      by (simp add: eq trans_le_add2)
    with False show ?thesis
      by (simp add: n)
  qed
qed

lemma bn_wf_iff:
  "bn_wf x \<longleftrightarrow> bn_fits x \<and> (0 < bn_top x \<longrightarrow> bn_base ^ (bn_top x - 1) \<le> bn_abs x) \<and> (bn_top x = 0 \<longrightarrow> \<not> bn_neg x)"
  using last_word_iff [of "bn_top x" "bn_d x"]
  by (auto simp: bn_wf_def bn_fits_def bn_abs_def bn_words_def)

lemma bn_abs_pos: "bn_wf x \<Longrightarrow> 0 < bn_top x \<Longrightarrow> 0 < bn_abs x"
  by (metis bn_base_power_pos bn_wf_iff order_less_le_trans)

lemma bn_top_eq_0: "bn_wf x \<Longrightarrow> bn_top x = 0 \<longleftrightarrow> bn_abs x = 0"
  using bn_abs_pos [of x] by (cases "bn_top x = 0") (auto simp: bn_abs_def bn_words_def)

text \<open>The number of words is that of the number.\<close>

lemma power_interval_eq:
  fixes B x :: nat
  assumes "1 < B" and "B ^ n \<le> x" and "x < B ^ Suc n" and "B ^ m \<le> x" and "x < B ^ Suc m"
  shows "n = m"
proof -
  have "B ^ n < B ^ Suc m" and "B ^ m < B ^ Suc n"
    using assms by linarith+
  then have "n < Suc m" and "m < Suc n"
    using assms(1) by (metis power_less_imp_less_exp)+
  then show ?thesis
    by simp
qed

lemma bn_top_less:
  assumes "bn_wf x" and "bn_wf y" and "bn_top x < bn_top y"
  shows "bn_abs x < bn_abs y"
proof -
  have "bn_abs x < bn_base ^ bn_top x"
    using assms(1) by (simp add: bn_abs_less)
  also have "... \<le> bn_base ^ (bn_top y - 1)"
    using assms(3) by (intro power_increasing) (simp_all add: Suc_le_eq)
  also have "... \<le> bn_abs y"
    using assms(2,3) by (simp add: bn_wf_iff)
  finally show ?thesis .
qed

section \<open>Runs\<close>

text \<open>A run that is not stuck and ends with \<open>P\<close> when it returns and with \<open>Q\<close> when it fails.\<close>

definition outcome :: "('a \<Rightarrow> bn_state \<Rightarrow> bool) \<Rightarrow> (bn_state \<Rightarrow> bool) \<Rightarrow> (bn_state, 'a) prog \<Rightarrow> bn_state \<Rightarrow> bool" where
  "outcome P Q f s = (case f s of (Ret x, t) \<Rightarrow> P x t | (Fail, t) \<Rightarrow> Q t | (Stuck, t) \<Rightarrow> False)"

named_theorems outcome_simps \<open>runs of the primitive operations\<close>

lemma outcome_ret [outcome_simps]: "outcome P Q (ret x) s \<longleftrightarrow> P x s"
  by (simp add: outcome_def)

lemma outcome_fail [outcome_simps]: "outcome P Q fail s \<longleftrightarrow> Q s"
  by (simp add: outcome_def)

lemma outcome_bnd [outcome_simps]:
  "outcome P Q (bnd f g) s \<longleftrightarrow> outcome (\<lambda>x. outcome P Q (g x)) Q f s"
  by (simp add: outcome_def bnd_def split: prod.splits res.splits)

lemma outcome_modify [outcome_simps]: "outcome P Q (modify b f) s \<longleftrightarrow> P () (set_num b (f (nums s b)) s)"
  by (simp add: outcome_def modify_def)

lemma outcome_get [outcome_simps]: "outcome P Q (get b) s \<longleftrightarrow> P (nums s b) s"
  by (simp add: outcome_def get_def)

lemma outcome_read [outcome_simps]:
  "outcome P Q (read_words b n) s \<longleftrightarrow> n \<le> length (bn_d (nums s b)) \<and> P (take n (bn_d (nums s b))) s"
  by (simp add: outcome_def read_words_def)

lemma outcome_write [outcome_simps]:
  "outcome P Q (write_words b i ws) s \<longleftrightarrow> i + length ws \<le> length (bn_d (nums s b)) \<and>
     P () (set_num b ((nums s b)\<lparr>bn_d := take i (bn_d (nums s b)) @ ws @ drop (i + length ws) (bn_d (nums s b))\<rparr>) s)"
  by (simp add: outcome_def write_words_def Let_def)

lemma outcome_if [outcome_simps]:
  "outcome P Q (if c then f else g) s \<longleftrightarrow> (if c then outcome P Q f s else outcome P Q g s)"
  by simp

lemma nums_set_num [simp]: "nums (set_num b x s) = (nums s)(b := x)"
  by (simp add: set_num_def)

lemma set_num_set_num [simp]: "set_num b x (set_num b y s) = set_num b x s"
  by (simp add: set_num_def)

lemma outcome_mono:
  assumes "outcome P Q f s" and "\<And>x t. P x t \<Longrightarrow> P' x t" and "\<And>t. Q t \<Longrightarrow> Q' t"
  shows "outcome P' Q' f s"
  using assms by (auto simp: outcome_def split: prod.splits res.splits)

lemma outcome_Ret: "outcome P Q f s \<Longrightarrow> f s = (Ret x, t) \<Longrightarrow> P x t"
  and outcome_Fail: "outcome P Q f s \<Longrightarrow> f s = (Fail, t) \<Longrightarrow> Q t"
  and outcome_not_stuck: "outcome P Q f s \<Longrightarrow> f s \<noteq> (Stuck, t)"
  by (auto simp: outcome_def)

text \<open>Only \<open>r\<close> changes.\<close>

definition only :: "nat \<Rightarrow> bn_state \<Rightarrow> bn_state \<Rightarrow> bool" where
  "only r s t \<longleftrightarrow> (\<forall>b. b \<noteq> r \<longrightarrow> nums t b = nums s b)"

interpretation only: preorder_rel "only r" for r
  by unfold_locales (auto simp: only_def)

text \<open>An array that becomes longer.\<close>

lemma outcome_wexpand:
  assumes "bn_fits (nums s b)"
    and "\<And>t d. nums t = (nums s)(b := (nums s b)\<lparr>bn_d := d\<rparr>) \<Longrightarrow> n \<le> length d \<Longrightarrow>
      length (bn_d (nums s b)) \<le> length d \<Longrightarrow> take (bn_top (nums s b)) d = bn_words (nums s b) \<Longrightarrow> P () t"
    and "\<And>t. nums t = nums s \<Longrightarrow> length (bn_d (nums s b)) < n \<Longrightarrow> Q t"
  shows "outcome P Q (bn_wexpand b n) s"
proof (cases "n \<le> length (bn_d (nums s b))")
  case True
  then show ?thesis
    using assms(2) [of s "bn_d (nums s b)"] by (simp add: bn_wexpand_def outcome_simps bn_words_def)
next
  case False
  have malloc: "outcome (\<lambda>a t. \<exists>g. a = map g [0..<n] \<and> nums t = nums s) (\<lambda>t. nums t = nums s) (malloc_words n) s"
    by (auto simp: outcome_def malloc_words_def split: list.splits option.splits)
  have "outcome (\<lambda>a. outcome P Q (bnd (read_words b (bn_top (nums s b))) (\<lambda>ws.
      modify b (\<lambda>x. x\<lparr>bn_d := ws @ drop (bn_top (nums s b)) a\<rparr>)))) Q (malloc_words n) s"
    using malloc
  proof (rule outcome_mono)
    fix a :: "u64 list" and t :: bn_state
    assume "\<exists>g. a = map g [0..<n] \<and> nums t = nums s"
    then show "outcome P Q (bnd (read_words b (bn_top (nums s b))) (\<lambda>ws.
        modify b (\<lambda>x. x\<lparr>bn_d := ws @ drop (bn_top (nums s b)) a\<rparr>))) t"
      using False assms(1) by (auto simp: outcome_simps bn_fits_def bn_words_def intro!: assms(2))
  qed (use False assms(3) in auto)
  with False assms(3) show ?thesis
    by (simp add: bn_wexpand_def outcome_simps)
qed

section \<open>Addition of absolute values\<close>

lemma carry_words_spec:
  assumes "carry_words ap = (ws, rest, c)"
  shows "bn_nat (ws @ rest) + bn_base ^ length ap * of_bool c = bn_nat ap + 1 \<and>
    length ws + length rest = length ap \<and> take (length ws) ap @ rest = ap \<and> (c \<longrightarrow> rest = [])"
  using assms
proof (induction ap arbitrary: ws)
  case (Cons t ap)
  show ?case
  proof (cases "t + 1 = 0")
    case False
    then have "unat (t + 1) \<noteq> 0"
      by (simp only: unat_eq_0 not_False_eq_True)
    then have "unat (t + 1) = unat t + 1"
      using unat_add_cases [of t 1] unat_bn_base [of t] by (simp del: unat_bn_base split: if_splits)
    with Cons.prems False show ?thesis
      by (auto simp: Let_def)
  next
    case True
    then have t: "unat t + 1 = bn_base"
      using unat_add_cases [of t 1] unat_bn_base [of t] by (auto simp del: unat_bn_base split: if_splits)
    obtain ws' where c: "carry_words ap = (ws', rest, c)" and ws: "ws = 0 # ws'"
      using Cons.prems True by (auto simp: Let_def split: prod.splits)
    have "bn_nat (ws @ rest) + bn_base ^ length (t # ap) * of_bool c =
        bn_base * (bn_nat (ws' @ rest) + bn_base ^ length ap * of_bool c)"
      by (simp add: ws algebra_simps)
    also have "... = bn_base * (bn_nat ap + 1)"
      using Cons.IH [OF c] by simp
    also have "... = bn_nat (t # ap) + 1"
      using t by (simp add: algebra_simps)
    finally show ?thesis
      using Cons.IH [OF c] by (simp add: ws)
  qed
qed simp

lemma uadd_words_spec:
  assumes "uadd_words ap bp = (ws, rest, c)" and "length bp \<le> length ap"
  shows "bn_nat (ws @ rest) + bn_base ^ length ap * of_bool c = bn_nat ap + bn_nat bp \<and>
    length ws + length rest = length ap \<and> take (length ws) ap @ rest = ap \<and> (c \<longrightarrow> rest = [])"
proof -
  define n where "n = length bp"
  obtain sum k where s: "bn_add_words ap bp n = (sum, k)"
    by fastforce
  have n: "n \<le> length ap" "n \<le> length bp"
    using assms(2) by (simp_all add: n_def)
  note sum = bn_add_words_spec [OF s n]
  have ap: "bn_nat ap = bn_nat (take n ap) + bn_base ^ n * bn_nat (drop n ap)"
    using bn_nat_append [of "take n ap" "drop n ap"] n by simp
  have bp: "take n bp = bp"
    by (simp add: n_def)
  show ?thesis
  proof (cases "k = 0")
    case True
    then have "ws = sum" "rest = drop n ap" "\<not> c"
      using assms(1) by (simp_all add: uadd_words_def s flip: n_def)
    with sum n True show ?thesis
      by (simp add: bn_nat_append ap bp)
  next
    case False
    then have k: "unat k = 1"
      using sum by auto
    obtain ws' where c: "carry_words (drop n ap) = (ws', rest, c)" and ws: "ws = sum @ ws'"
      using assms(1) False by (auto simp: uadd_words_def s Let_def split: prod.splits simp flip: n_def)
    note carry = carry_words_spec [OF c]
    have "bn_base ^ length ap = bn_base ^ n * bn_base ^ length (drop n ap)"
      using n by (simp flip: power_add)
    then have "bn_nat (ws @ rest) + bn_base ^ length ap * of_bool c =
        bn_nat sum + bn_base ^ n * (bn_nat (ws' @ rest) + bn_base ^ length (drop n ap) * of_bool c)"
      using sum by (simp add: ws bn_nat_append algebra_simps)
    also have "... = bn_nat ap + bn_nat bp"
      unfolding carry [THEN conjunct1] using sum k by (simp add: ap bp algebra_simps)
    finally have "bn_nat (ws @ rest) + bn_base ^ length ap * of_bool c = bn_nat ap + bn_nat bp" .
    moreover have "take (length ws) ap @ rest = take n ap @ take (length ws') (drop n ap) @ rest"
      using sum by (simp add: ws take_add)
    moreover have "length ws' + length rest = length ap - n"
      using carry by simp
    then have "length ws + length rest = length ap"
      using sum n by (simp add: ws)
    ultimately show ?thesis
      using carry sum n by (simp add: ws)
  qed
qed

lemma only_set_num [simp]: "only r s (set_num r x s)"
  by (simp add: only_def)

text \<open>After an expansion of \<open>r\<close>, which may be \<open>a\<close>, the words of \<open>a\<close> are where they were.\<close>

lemma words_after_expand:
  assumes "bn_fits (nums s a)" and "nums t = (nums s)(r := (nums s r)\<lparr>bn_d := d\<rparr>)"
    and "length (bn_d (nums s r)) \<le> length d" and "take (bn_top (nums s r)) d = bn_words (nums s r)"
  shows "take (bn_top (nums s a)) (bn_d (nums t a)) = bn_words (nums s a)"
    and "bn_top (nums s a) \<le> length (bn_d (nums t a))" and "bn_top (nums t a) = bn_top (nums s a)"
    and "bn_neg (nums t a) = bn_neg (nums s a)"
  using assms by (auto simp: bn_fits_def bn_words_def)

lemma uadd_longer_spec:
  assumes fits: "bn_fits (nums s r)" "bn_fits (nums s a)" "bn_fits (nums s b)"
    and top: "bn_top (nums s b) \<le> bn_top (nums s a)"
    and P: "\<And>t x. nums t = (nums s)(r := x) \<Longrightarrow> bn_fits x \<Longrightarrow> \<not> bn_neg x \<Longrightarrow>
      bn_abs x = bn_abs (nums s a) + bn_abs (nums s b) \<Longrightarrow>
      bn_top x = bn_top (nums s a) \<or> bn_top x = bn_top (nums s a) + 1 \<and> bn_base ^ bn_top (nums s a) \<le> bn_abs x \<Longrightarrow>
      P () t"
    and Q: "\<And>t. nums t = nums s \<Longrightarrow> length (bn_d (nums s r)) < bn_top (nums s a) + 1 \<Longrightarrow> Q t"
  shows "outcome P Q (uadd_longer r a b) s"
proof -
  let ?mx = "bn_top (nums s a)" and ?mn = "bn_top (nums s b)"
  define ap bp where "ap = bn_words (nums s a)" and "bp = bn_words (nums s b)"
  have len: "length ap = ?mx" "length bp = ?mn"
    using fits by (simp_all add: ap_def bp_def)
  obtain ws rest c where u: "uadd_words ap bp = (ws, rest, c)"
    by (metis prod_cases3)
  have spec: "bn_nat (ws @ rest) + bn_base ^ ?mx * of_bool c = bn_nat ap + bn_nat bp"
    "length ws + length rest = ?mx" "take (length ws) ap @ rest = ap" "c \<longrightarrow> rest = []"
    using uadd_words_spec [OF u] top unfolding len by blast+
  show ?thesis
    unfolding uadd_longer_def outcome_simps Let_def
  proof (rule outcome_wexpand [OF fits(1)], goal_cases)
    case (1 t d)
    note t = 1(1) and d = 1(2) and d' = 1(3,4)
    note a = words_after_expand [OF fits(2) t d'] and b = words_after_expand [OF fits(3) t d']
    define t1 where "t1 = set_num r ((nums t r)\<lparr>bn_top := ?mx\<rparr>) t"
    have t1: "bn_d (nums t1 a) = bn_d (nums t a)" "bn_d (nums t1 b) = bn_d (nums t b)"
      by (simp_all add: t1_def)
    have rd: "nums t1 r = (nums s r)\<lparr>bn_d := d, bn_top := ?mx\<rparr>"
      and upd: "nums (set_num r x t1) = (nums s)(r := x)" for x
      by (simp_all add: t1_def t)
    have finish: "P () (set_num r' x t1)" if "bn_fits x" "\<not> bn_neg x"
      "bn_words x = ws @ rest @ (if c then [1] else [])" "bn_top x = ?mx + of_bool c" "r' = r" for x r'
      unfolding that(5)
    proof (rule P [OF upd that(1,2)])
      have "bn_abs x = bn_nat (ws @ rest) + bn_base ^ ?mx * of_bool c"
        by (simp add: bn_abs_def that(3) bn_nat_append power_add algebra_simps flip: spec(2))
      then show "bn_abs x = bn_abs (nums s a) + bn_abs (nums s b)"
        and "bn_top x = ?mx \<or> bn_top x = ?mx + 1 \<and> bn_base ^ ?mx \<le> bn_abs x"
        using spec(1) that(4) by (cases c; simp add: bn_abs_def ap_def bp_def)+
    qed
    have read: "take ?mx (bn_d (nums t1 a)) = ap" "take ?mn (bn_d (nums t1 b)) = bp"
      using a b by (simp_all add: t1 ap_def bp_def)
    have rest: "take (?mx - length ws) (drop (length ws) d) = rest" if "r = a"
    proof -
      have "take ?mx d = ap"
        using read(1) that rd by simp
      moreover have "drop (length ws) ap = rest"
        using spec(2,3) len by (metis append_eq_conv_conj append_take_drop_id same_append_eq)
      ultimately show ?thesis
        by (metis drop_take)
    qed
    show ?case
      unfolding outcome_simps t1_def [symmetric] read using a(1-3) b(1-3) spec(2,4) d
      by (auto simp: t1 u outcome_simps rd rest bn_fits_def bn_words_def intro!: finish)
  qed (use Q in simp)
qed

lemma BN_uadd_spec:
  assumes "bn_fits (nums s r)" and wf: "bn_wf (nums s a)" "bn_wf (nums s b)"
    and P: "\<And>t x. nums t = (nums s)(r := x) \<Longrightarrow> bn_wf x \<Longrightarrow> \<not> bn_neg x \<Longrightarrow>
      bn_abs x = bn_abs (nums s a) + bn_abs (nums s b) \<Longrightarrow> P () t"
    and Q: "\<And>t. nums t = nums s \<Longrightarrow> length (bn_d (nums s r)) \<le> max (bn_top (nums s a)) (bn_top (nums s b)) \<Longrightarrow> Q t"
  shows "outcome P Q (BN_uadd r a b) s"
proof -
  have longer: "outcome P Q (uadd_longer r a b) s"
    if "bn_wf (nums s a)" "bn_wf (nums s b)" "bn_top (nums s b) \<le> bn_top (nums s a)"
      "\<And>t x. nums t = (nums s)(r := x) \<Longrightarrow> bn_wf x \<Longrightarrow> \<not> bn_neg x \<Longrightarrow>
        bn_abs x = bn_abs (nums s a) + bn_abs (nums s b) \<Longrightarrow> P () t"
      "\<And>t. nums t = nums s \<Longrightarrow> length (bn_d (nums s r)) \<le> bn_top (nums s a) \<Longrightarrow> Q t" for a b
  proof (rule uadd_longer_spec [OF assms(1) bn_wf_fits [OF that(1)] bn_wf_fits [OF that(2)] that(3)], goal_cases)
    case (1 t x)
    have "bn_wf x"
      using 1(2-5) that(1) by (auto simp: bn_wf_iff)
    then show ?case
      using that(4) 1 by blast
  qed (use that(5) in simp)
  show ?thesis
  proof (cases "bn_top (nums s a) < bn_top (nums s b)")
    case True
    then show ?thesis
      unfolding BN_uadd_def outcome_simps using wf P Q by (auto intro!: longer simp: add.commute)
  next
    case False
    then show ?thesis
      unfolding BN_uadd_def outcome_simps using wf P Q by (auto intro!: longer)
  qed
qed

section \<open>Subtraction of absolute values\<close>

lemma usub_words_spec:
  assumes "usub_words ap bp c = (rs, c')" and "length ap = length bp"
  shows "bn_nat rs + bn_nat bp + of_bool c = bn_nat ap + bn_base ^ length bp * of_bool c' \<and> length rs = length bp"
  using assms(2,1)
proof (induction ap bp arbitrary: c rs rule: list_induct2)
  case (Cons x ap y bp)
  define r where "r = (if c then x - (y + 1) else x - y)"
  define k where "k = (if c then x \<le> y else x < y)"
  obtain ss where l: "usub_words ap bp k = (ss, c')" and rs: "rs = r # ss"
    using Cons.prems by (auto simp: r_def k_def split: prod.splits if_splits)
  have "sub_step (of_bool c) x y = (r, of_bool k)"
    by (auto simp: sub_step_def r_def k_def algebra_simps)
  then have "unat r + unat y + of_bool c = unat x + bn_base * of_bool k"
    using sub_step_spec [of "of_bool c" x y r "of_bool k"] by (cases c; cases k) simp_all
  moreover have "bn_base * (bn_nat ss + bn_nat bp + of_bool k) = bn_base * (bn_nat ap + bn_base ^ length bp * of_bool c')"
    using Cons.IH [OF l] by simp
  ultimately show ?case
    using Cons.IH [OF l] by (simp add: rs algebra_simps)
qed simp

lemma borrow_words_spec:
  assumes "borrow_words ap = (ws, rest)" and "bn_nat ap \<noteq> 0"
  shows "bn_nat (ws @ rest) + 1 = bn_nat ap \<and> length ws + length rest = length ap \<and> take (length ws) ap @ rest = ap"
  using assms
proof (induction ap arbitrary: ws)
  case (Cons t ap)
  show ?case
  proof (cases "t = 0")
    case False
    then have "unat (t - 1) + 1 = unat t"
      by (simp add: unat_minus_one unat_gt_0)
    with Cons.prems False show ?thesis
      by (auto simp: Let_def)
  next
    case True
    obtain ws' where b: "borrow_words ap = (ws', rest)" and ws: "ws = (- 1) # ws'"
      using Cons.prems True by (auto split: prod.splits)
    have ih: "bn_nat (ws' @ rest) + 1 = bn_nat ap" "length ws' + length rest = length ap"
      "take (length ws') ap @ rest = ap"
      using Cons.IH [OF b] Cons.prems(2) True by auto
    have "unat (- 1 :: u64) + 1 = bn_base"
      by (simp add: bn_base_def unsigned_minus_1_eq_mask mask_eq_exp_minus_1)
    then have "bn_nat (ws @ rest) + 1 = bn_base * (bn_nat (ws' @ rest) + 1)"
      by (simp add: ws algebra_simps)
    then have "bn_nat (ws @ rest) + 1 = bn_nat (t # ap)"
      unfolding ih(1) by (simp add: True)
    with ih show ?thesis
      by (simp add: ws True)
  qed
qed simp

text \<open>Stripping the zero words at the top.\<close>

lemma strip_top_spec:
  "strip_top d n \<le> n \<and> bn_nat (take (strip_top d n) d) = bn_nat (take n d) \<and>
    (0 < strip_top d n \<longrightarrow> d ! (strip_top d n - 1) \<noteq> 0)" if "n \<le> length d"
  using that
proof (induction n)
  case (Suc n)
  show ?case
  proof (cases "d ! n = 0")
    case True
    have "bn_nat (take (Suc n) d) = bn_nat (take n d)"
      using Suc.prems True by (simp add: bn_nat_take_Suc)
    with Suc True show ?thesis
      by simp
  qed simp
qed simp

lemma outcome_correct_top:
  assumes "bn_fits (nums s b)"
    and "\<And>t x. nums t = (nums s)(b := x) \<Longrightarrow> bn_wf x \<Longrightarrow> bn_abs x = bn_abs (nums s b) \<Longrightarrow> bn_d x = bn_d (nums s b) \<Longrightarrow>
      bn_neg x = (bn_neg (nums s b) \<and> bn_abs (nums s b) \<noteq> 0) \<Longrightarrow> P () t"
  shows "outcome P Q (bn_correct_top b) s"
proof -
  let ?x = "nums s b"
  define n where "n = strip_top (bn_words ?x) (bn_top ?x)"
  define y where "y = ?x\<lparr>bn_top := n, bn_neg := (if n = 0 then False else bn_neg ?x)\<rparr>"
  have n: "n \<le> bn_top ?x" "bn_nat (take n (bn_words ?x)) = bn_nat (bn_words ?x)" "0 < n \<longrightarrow> bn_words ?x ! (n - 1) \<noteq> 0"
    using strip_top_spec [of "bn_top ?x" "bn_words ?x"] assms(1) by (simp_all add: n_def)
  have words: "bn_words y = take n (bn_words ?x)"
    using n(1) by (simp add: y_def bn_words_def min_def)
  have "bn_wf y"
    using n assms(1) by (auto simp: bn_wf_def y_def bn_fits_def bn_words_def)
  moreover have "bn_abs y = bn_abs ?x"
    by (simp add: bn_abs_def words n(2))
  moreover have "bn_top y = 0 \<longleftrightarrow> bn_abs ?x = 0"
    using bn_top_eq_0 calculation by metis
  ultimately have "P () (set_num b y s)"
    by (intro assms(2) [of _ y]) (auto simp: y_def)
  then show ?thesis
    using assms(1) by (simp add: bn_correct_top_def outcome_simps Let_def bn_fits_def n_def y_def bn_words_def)
qed

lemma BN_usub_spec:
  assumes fits: "bn_fits (nums s r)" and wf: "bn_wf (nums s a)" "bn_wf (nums s b)"
    and le: "bn_abs (nums s b) \<le> bn_abs (nums s a)"
    and P: "\<And>t x. nums t = (nums s)(r := x) \<Longrightarrow> bn_wf x \<Longrightarrow> \<not> bn_neg x \<Longrightarrow>
      bn_abs x = bn_abs (nums s a) - bn_abs (nums s b) \<Longrightarrow> P () t"
    and Q: "\<And>t. nums t = nums s \<Longrightarrow> length (bn_d (nums s r)) < bn_top (nums s a) \<Longrightarrow> Q t"
  shows "outcome P Q (BN_usub r a b) s"
proof -
  let ?mx = "bn_top (nums s a)" and ?mn = "bn_top (nums s b)"
  have top: "?mn \<le> ?mx"
    using bn_top_less [OF wf] le by fastforce
  define ap bp where "ap = bn_words (nums s a)" and "bp = bn_words (nums s b)"
  have len: "length ap = ?mx" "length bp = ?mn"
    using wf by (simp_all add: ap_def bp_def)
  obtain diff c where u: "usub_words (take ?mn ap) bp False = (diff, c)"
    by fastforce
  have diff: "bn_nat diff + bn_nat bp = bn_nat (take ?mn ap) + bn_base ^ ?mn * of_bool c" "length diff = ?mn"
    using usub_words_spec [OF u] top by (simp_all add: len)
  have ap: "bn_nat ap = bn_nat (take ?mn ap) + bn_base ^ ?mn * bn_nat (drop ?mn ap)"
    using bn_nat_append [of "take ?mn ap" "drop ?mn ap"] top by (simp add: len)
  have le': "bn_nat bp \<le> bn_nat ap"
    using le by (simp add: bn_abs_def ap_def bp_def)
  have rest0: "bn_nat (drop ?mn ap) \<noteq> 0" if c
  proof
    assume "bn_nat (drop ?mn ap) = 0"
    then have "bn_nat diff \<ge> bn_base ^ ?mn"
      using diff(1) le' ap that by simp
    with bn_nat_less [of diff] show False
      by (simp add: diff(2))
  qed
  obtain ws rest where b: "(if c then borrow_words (drop ?mn ap) else ([], drop ?mn ap)) = (ws, rest)"
    by fastforce
  have ws: "bn_nat (ws @ rest) + of_bool c = bn_nat (drop ?mn ap)" "length ws + length rest = ?mx - ?mn"
    "take (length ws) (drop ?mn ap) @ rest = drop ?mn ap"
    using borrow_words_spec [OF _ rest0] b len by (cases c; force)+
  have "bn_nat (diff @ ws @ rest) + bn_nat bp = bn_nat ap"
  proof -
    have "bn_nat (diff @ ws @ rest) + bn_nat bp = bn_nat (take ?mn ap) + bn_base ^ ?mn * (bn_nat (ws @ rest) + of_bool c)"
      using diff by (simp add: bn_nat_append [of diff] algebra_simps)
    then show ?thesis
      by (simp only: ws(1) ap)
  qed
  then have sum: "bn_nat (diff @ ws @ rest) = bn_abs (nums s a) - bn_abs (nums s b)"
    by (simp add: bn_abs_def ap_def bp_def)
  have c: "\<not> (c \<and> ?mx = ?mn)"
    using rest0 len by auto
  have "outcome P Q (seq (bn_wexpand r ?mx) (bnd (read_words a ?mx) (\<lambda>ap. bnd (read_words b ?mn) (\<lambda>bp.
         let (diff, carry) = usub_words (take ?mn ap) bp False in
         seq (write_words r 0 diff)
         (if carry \<and> ?mx = ?mn then fail
          else
            let (ws, rest) = (if carry then borrow_words (drop ?mn ap) else ([], drop ?mn ap)) in
            seq (write_words r ?mn ws)
            (seq (if rest \<noteq> [] \<and> r \<noteq> a then write_words r (?mx - length rest) rest else ret ())
            (seq (set_top r ?mx) (seq (set_neg r False) (bn_correct_top r)))))))) ) s"
    unfolding outcome_bnd [of _ _ "bn_wexpand r ?mx"]
  proof (rule outcome_wexpand [OF fits], goal_cases)
    case (1 t d)
    note t = 1(1) and d = 1(2) and d' = 1(3,4)
    note a = words_after_expand [OF bn_wf_fits [OF wf(1)] t d'] and b' = words_after_expand [OF bn_wf_fits [OF wf(2)] t d']
    have read: "take ?mx (bn_d (nums t a)) = ap" "take ?mn (bn_d (nums t b)) = bp"
      using a b' by (simp_all add: ap_def bp_def)
    have r: "nums t r = (nums s r)\<lparr>bn_d := d\<rparr>"
      by (simp add: t)
    have finish: "outcome P Q (bn_correct_top r') (set_num r' x t)"
      if "bn_fits x" "\<not> bn_neg x" "bn_words x = diff @ ws @ rest" "r' = r" for x r'
      unfolding that(4)
    proof (rule outcome_correct_top)
      fix t' :: bn_state and y
      assume "nums t' = (nums (set_num r x t))(r := y)" "bn_wf y" "bn_abs y = bn_abs (nums (set_num r x t) r)"
        "bn_neg y = (bn_neg (nums (set_num r x t) r) \<and> bn_abs (nums (set_num r x t) r) \<noteq> 0)"
      then show "P () t'"
        using that(2,3) sum by (intro P [of t' y]) (simp_all add: t bn_abs_def)
    qed (use that(1) in simp)
    have rest: "take (?mx - (?mn + length ws)) (drop (length ws + ?mn) d) = rest" if "r = a"
    proof -
      have "take ?mx d = ap"
        using read(1) that r by simp
      moreover have "drop (length ws + ?mn) ap = rest"
        using ws(3) by (metis append_eq_conv_conj append_take_drop_id drop_drop same_append_eq add.commute)
      ultimately show ?thesis
        by (metis add.commute drop_take)
    qed
    show ?case
    proof (cases "rest \<noteq> [] \<and> r \<noteq> a")
      case True
      then show ?thesis
        using a(2) b'(2) ws(2) d c diff(2) top
        by (simp add: outcome_simps read u b r cong: if_cong)
          (auto simp: bn_fits_def bn_words_def rest intro!: finish)
    next
      case False
      then show ?thesis
        using a(2) b'(2) ws(2) d c diff(2) top
        by (simp add: outcome_simps read u b r cong: if_cong)
          (auto simp: bn_fits_def bn_words_def rest intro!: finish)
    qed
  qed (use Q in simp)
  with top show ?thesis
    by (simp add: BN_usub_def outcome_simps Let_def)
qed

section \<open>Comparisons\<close>

lemma BN_ucmp_spec:
  assumes "bn_wf x" and "bn_wf y"
  shows "BN_ucmp x y < 0 \<longleftrightarrow> bn_abs x < bn_abs y" and "BN_ucmp x y = 0 \<longleftrightarrow> bn_abs x = bn_abs y"
proof -
  consider "bn_top x < bn_top y" | "bn_top y < bn_top x" | "bn_top x = bn_top y"
    by linarith
  then have "(BN_ucmp x y < 0 \<longleftrightarrow> bn_abs x < bn_abs y) \<and> (BN_ucmp x y = 0 \<longleftrightarrow> bn_abs x = bn_abs y)"
  proof cases
    case 1
    then show ?thesis
      using bn_top_less [OF assms 1] by (simp add: BN_ucmp_def)
  next
    case 2
    then show ?thesis
      using bn_top_less [OF assms(2,1) 2] by (simp add: BN_ucmp_def)
  next
    case 3
    then have "bn_top x \<le> length (bn_d x)" "bn_top x \<le> length (bn_d y)"
      using assms by (auto simp: bn_wf_def bn_fits_def)
    from cmp_words_from_eq [OF this] 3 show ?thesis
      by (auto simp: BN_ucmp_def bn_abs_def bn_words_def)
  qed
  then show "BN_ucmp x y < 0 \<longleftrightarrow> bn_abs x < bn_abs y" "BN_ucmp x y = 0 \<longleftrightarrow> bn_abs x = bn_abs y"
    by simp_all
qed

lemma cmp_down_eq:
  "cmp_down a b n gt lt = (if cmp_words_from a b n = 0 then 0 else if 0 < cmp_words_from a b n then gt else lt)"
  by (induction n) auto

lemma bn_int_eq_0: "bn_wf x \<Longrightarrow> bn_int x = 0 \<longleftrightarrow> bn_top x = 0"
  by (simp add: bn_int_def bn_top_eq_0)

text \<open>The comparison of two numbers is the sign of their difference.\<close>

lemma BN_cmp_abs:
  assumes "bn_wf x" and "bn_wf y" and "bn_neg x = bn_neg y"
  shows "BN_cmp (Some x) (Some y) =
    (if bn_neg x then sgn (int (bn_abs y) - int (bn_abs x)) else sgn (int (bn_abs x) - int (bn_abs y)))"
proof -
  consider "bn_top x < bn_top y" | "bn_top y < bn_top x" | "bn_top x = bn_top y"
    by linarith
  then show ?thesis
  proof cases
    case 1
    then show ?thesis
      using bn_top_less [OF assms(1,2) 1] assms(3) by (simp add: BN_cmp_def)
  next
    case 2
    then show ?thesis
      using bn_top_less [OF assms(2,1) 2] assms(3) by (simp add: BN_cmp_def)
  next
    case 3
    then have "bn_top x \<le> length (bn_d x)" "bn_top x \<le> length (bn_d y)"
      using assms by (auto simp: bn_wf_def bn_fits_def)
    from cmp_words_from_eq [OF this] 3 assms(3) show ?thesis
      by (auto simp: BN_cmp_def cmp_down_eq bn_abs_def bn_words_def sgn_if)
  qed
qed

lemma BN_cmp_spec:
  assumes "bn_wf x" and "bn_wf y"
  shows "BN_cmp (Some x) (Some y) = sgn (bn_int x - bn_int y)"
proof (cases "bn_neg x = bn_neg y")
  case True
  then show ?thesis
    using BN_cmp_abs [OF assms True] by (auto simp: bn_int_def sgn_if)
next
  case False
  have "0 < bn_abs x" if "bn_neg x"
    using assms(1) that by (metis bn_abs_pos bn_wf_def gr0I)
  moreover have "0 < bn_abs y" if "bn_neg y"
    using assms(2) that by (metis bn_abs_pos bn_wf_def gr0I)
  ultimately show ?thesis
    using False by (auto simp: BN_cmp_def bn_int_def)
qed

section \<open>Sums and differences\<close>

lemma bn_neg_abs: "bn_wf x \<Longrightarrow> bn_neg x \<Longrightarrow> 0 < bn_abs x"
  by (metis bn_abs_pos bn_wf_def gr0I)

lemma bn_wf_set_neg:
  assumes "bn_wf x" and "n \<Longrightarrow> bn_abs x \<noteq> 0"
  shows "bn_wf (x\<lparr>bn_neg := n\<rparr>)" and "bn_abs (x\<lparr>bn_neg := n\<rparr>) = bn_abs x"
    and "bn_int (x\<lparr>bn_neg := n\<rparr>) = (if n then - int (bn_abs x) else int (bn_abs x))"
  using assms bn_top_eq_0 [OF assms(1)]
  by (auto simp: bn_wf_def bn_fits_def bn_abs_def bn_words_def bn_int_def)

lemma signed_usub_spec:
  assumes fits: "bn_fits (nums s r)" and wf: "bn_wf (nums s a)" "bn_wf (nums s b)"
    and P: "\<And>t x. nums t = (nums s)(r := x) \<Longrightarrow> bn_wf x \<Longrightarrow> bn_int x = int (bn_abs (nums s a)) - int (bn_abs (nums s b)) \<Longrightarrow> P () t"
    and Q: "\<And>t. nums t = nums s \<Longrightarrow> length (bn_d (nums s r)) < max (bn_top (nums s a)) (bn_top (nums s b)) \<Longrightarrow> Q t"
  shows "outcome P Q (signed_usub r a b) s"
proof (cases "bn_abs (nums s a) < bn_abs (nums s b)")
  case True
  have "outcome P Q (seq (BN_usub r b a) (set_neg r True)) s"
    unfolding outcome_bnd
  proof (rule BN_usub_spec [OF fits wf(2,1)], goal_cases)
    case (2 t x)
    have "bn_abs x \<noteq> 0"
      using 2(4) True by simp
    from bn_wf_set_neg [OF 2(2), of True] this 2 True show ?case
      unfolding outcome_modify by (intro P [of _ "x\<lparr>bn_neg := True\<rparr>"]) simp_all
  qed (use True Q in simp_all)
  with True show ?thesis
    by (simp add: signed_usub_def outcome_simps BN_ucmp_spec wf)
next
  case False
  have "outcome P Q (seq (BN_usub r a b) (set_neg r False)) s"
    unfolding outcome_bnd
  proof (rule BN_usub_spec [OF fits wf], goal_cases)
    case (2 t x)
    from bn_wf_set_neg [OF 2(2), of False] 2 False show ?case
      unfolding outcome_modify by (intro P [of _ "x\<lparr>bn_neg := False\<rparr>"]) simp_all
  qed (use False Q in simp_all)
  with False show ?thesis
    by (simp add: signed_usub_def outcome_simps BN_ucmp_spec wf)
qed

lemma BN_add_spec:
  assumes fits: "bn_fits (nums s r)" and wf: "bn_wf (nums s a)" "bn_wf (nums s b)"
    and P: "\<And>t x. nums t = (nums s)(r := x) \<Longrightarrow> bn_wf x \<Longrightarrow> bn_int x = bn_int (nums s a) + bn_int (nums s b) \<Longrightarrow> P () t"
    and Q: "\<And>t. only r s t \<Longrightarrow> length (bn_d (nums s r)) \<le> max (bn_top (nums s a)) (bn_top (nums s b)) \<Longrightarrow> Q t"
  shows "outcome P Q (BN_add r a b) s"
proof (cases "bn_neg (nums s a) = bn_neg (nums s b)")
  case True
  let ?n = "bn_neg (nums s a)"
  have "outcome (\<lambda>u t. P u (snd (set_neg r ?n t))) (\<lambda>t. Q (snd (set_neg r ?n t))) (BN_uadd r a b) s"
  proof (rule BN_uadd_spec [OF fits wf], goal_cases)
    case (1 t x)
    have "bn_abs x \<noteq> 0" if ?n
      using bn_neg_abs [OF wf(1) that] 1(4) by simp
    note x = bn_wf_set_neg [OF 1(2) this]
    show ?case
      using x 1 True by (intro P [of _ "x\<lparr>bn_neg := ?n\<rparr>"]) (simp_all add: modify_def bn_int_def)
  next
    case (2 t)
    then show ?case
      by (intro Q) (simp_all add: modify_def only_def)
  qed
  then have "outcome P Q (\<lambda>s. case BN_uadd r a b s of (Stuck, s) \<Rightarrow> (Stuck, s) | (v, s) \<Rightarrow> (v, snd (set_neg r ?n s))) s"
    by (auto simp: outcome_def split: prod.splits res.splits)
  then show ?thesis
    using True by (simp add: BN_add_def Let_def outcome_simps)
next
  case False
  have Q': "Q t" if "nums t = nums s" "length (bn_d (nums s r)) < max (bn_top (nums s a)) (bn_top (nums s b))" for t
    using that by (intro Q) (simp_all add: only_def)
  show ?thesis
  proof (cases "bn_neg (nums s a)")
    case True
    have "outcome P Q (signed_usub r b a) s"
      by (rule signed_usub_spec [OF fits wf(2,1)])
        (use True False in \<open>auto intro!: P Q' simp: bn_int_def max.commute\<close>)
    then show ?thesis
      using True False by (simp add: BN_add_def Let_def outcome_simps)
  next
    case n: False
    have "outcome P Q (signed_usub r a b) s"
      by (rule signed_usub_spec [OF fits wf]) (use n False in \<open>auto intro!: P Q' simp: bn_int_def\<close>)
    then show ?thesis
      using n False by (simp add: BN_add_def Let_def outcome_simps)
  qed
qed

lemma wf_after_expand:
  assumes "bn_wf (nums s a)" and "nums t = (nums s)(r := (nums s r)\<lparr>bn_d := d\<rparr>)"
    and "length (bn_d (nums s r)) \<le> length d" and "take (bn_top (nums s r)) d = bn_words (nums s r)"
  shows "bn_wf (nums t a)" and "bn_abs (nums t a) = bn_abs (nums s a)" and "bn_int (nums t a) = bn_int (nums s a)"
    and "bn_top (nums t a) = bn_top (nums s a)" and "bn_neg (nums t a) = bn_neg (nums s a)"
proof -
  note w = words_after_expand [OF bn_wf_fits [OF assms(1)] assms(2-4)]
  then show abs: "bn_abs (nums t a) = bn_abs (nums s a)"
    by (simp add: bn_abs_def bn_words_def)
  with w show "bn_int (nums t a) = bn_int (nums s a)" "bn_top (nums t a) = bn_top (nums s a)"
    "bn_neg (nums t a) = bn_neg (nums s a)"
    by (simp_all add: bn_int_def)
  show "bn_wf (nums t a)"
    using assms(1) w abs by (simp add: bn_wf_iff bn_fits_def)
qed

lemma BN_sub_spec:
  assumes fits: "bn_fits (nums s r)" and wf: "bn_wf (nums s a)" "bn_wf (nums s b)"
    and P: "\<And>t x. nums t = (nums s)(r := x) \<Longrightarrow> bn_wf x \<Longrightarrow> bn_int x = bn_int (nums s a) - bn_int (nums s b) \<Longrightarrow> P () t"
    and Q: "\<And>t. nums t = nums s \<Longrightarrow> length (bn_d (nums s r)) \<le> max (bn_top (nums s a)) (bn_top (nums s b)) \<Longrightarrow> Q t"
  shows "outcome P Q (BN_sub r a b) s"
proof (cases "bn_neg (nums s a) = bn_neg (nums s b)")
  case False
  let ?n = "bn_neg (nums s a)"
  have "outcome P Q (seq (BN_uadd r a b) (set_neg r ?n)) s"
    unfolding outcome_bnd
  proof (rule BN_uadd_spec [OF fits wf], goal_cases)
    case (1 t x)
    have "bn_abs x \<noteq> 0" if ?n
      using bn_neg_abs [OF wf(1) that] 1(4) by simp
    note x = bn_wf_set_neg [OF 1(2) this]
    show ?case
      unfolding outcome_modify using x 1 False
      by (intro P [of _ "x\<lparr>bn_neg := ?n\<rparr>"]) (auto simp: bn_int_def)
  qed (use Q in simp)
  with False show ?thesis
    by (simp add: BN_sub_def outcome_simps)
next
  case True
  have diff: "outcome P Q (seq (bn_wexpand r (max (bn_top (nums s a)) (bn_top (nums s b)))) (signed_usub r a' b')) s"
    if ab: "(a', b') = (a, b) \<and> \<not> bn_neg (nums s a) \<or> (a', b') = (b, a) \<and> bn_neg (nums s a)" for a' b'
    unfolding outcome_bnd
  proof (rule outcome_wexpand [OF fits], goal_cases)
    case (1 t d)
    note wf' = wf_after_expand [OF _ 1(1,3,4)]
    have wf_ab: "bn_wf (nums s a')" "bn_wf (nums s b')"
      using ab wf by auto
    have r: "bn_fits (nums t r)"
      using fits 1 by (simp add: bn_fits_def)
    show ?case
    proof (rule signed_usub_spec [OF r wf'(1) [OF wf_ab(1)] wf'(1) [OF wf_ab(2)]], goal_cases)
      case (1 t' x)
      have "bn_int x = bn_int (nums s a) - bn_int (nums s b)"
        using 1(3) ab True wf'(2) [OF wf_ab(1)] wf'(2) [OF wf_ab(2)] by (auto simp: bn_int_def)
      then show ?case
        using 1(1,2) \<open>nums t = _\<close> by (intro P [of t' x]) simp_all
    next
      case (2 t')
      then show ?case
        using wf'(4) [OF wf_ab(1)] wf'(4) [OF wf_ab(2)] ab \<open>max (bn_top (nums s a)) (bn_top (nums s b)) \<le> length d\<close>
        by (auto simp: \<open>nums t = _\<close>)
    qed
  qed (use Q in simp)
  show ?thesis
  proof (cases "bn_neg (nums s a)")
    case n: True
    from diff [of b a] n have "outcome P Q (seq (bn_wexpand r (max (bn_top (nums s a)) (bn_top (nums s b)))) (signed_usub r b a)) s"
      by blast
    with n True show ?thesis
      unfolding BN_sub_def outcome_bnd [of _ _ "get _"] outcome_get by simp
  next
    case n: False
    from diff [of a b] n have "outcome P Q (seq (bn_wexpand r (max (bn_top (nums s a)) (bn_top (nums s b)))) (signed_usub r a b)) s"
      by blast
    with n True show ?thesis
      unfolding BN_sub_def outcome_bnd [of _ _ "get _"] outcome_get by simp
  qed
qed

section \<open>Copies and words\<close>

lemma BN_copy_spec:
  assumes fits: "bn_fits (nums s r)" and wf: "bn_wf (nums s a)"
    and P: "\<And>t x. nums t = (nums s)(r := x) \<Longrightarrow> bn_wf x \<Longrightarrow> bn_words x = bn_words (nums s a) \<Longrightarrow>
      bn_neg x = bn_neg (nums s a) \<Longrightarrow> bn_top x = bn_top (nums s a) \<Longrightarrow> P () t"
    and Q: "\<And>t. nums t = nums s \<Longrightarrow> length (bn_d (nums s r)) < bn_top (nums s a) \<Longrightarrow> Q t"
  shows "outcome P Q (BN_copy r a) s"
proof (cases "a = r")
  case True
  then show ?thesis
    using wf P [of s "nums s r"] by (simp add: BN_copy_def outcome_simps)
next
  case False
  have "outcome P Q (seq (bn_wexpand r (bn_top (nums s a))) (bnd (read_words a (bn_top (nums s a))) (\<lambda>ws.
         seq (write_words r 0 ws)
         (modify r (\<lambda>y. y\<lparr>bn_top := bn_top (nums s a), bn_neg := bn_neg (nums s a)\<rparr>))))) s"
    unfolding outcome_bnd [of _ _ "bn_wexpand r (bn_top (nums s a))"]
  proof (rule outcome_wexpand [OF fits], goal_cases)
    case (1 t d)
    have *: "bn_top (nums s a) \<le> length (bn_d (nums s a))"
      using wf by (simp add: bn_wf_def bn_fits_def)
    let ?x = "(nums s r)\<lparr>bn_d := bn_words (nums s a) @ drop (bn_top (nums s a)) d,
      bn_top := bn_top (nums s a), bn_neg := bn_neg (nums s a)\<rparr>"
    have "bn_wf ?x" "bn_words ?x = bn_words (nums s a)"
      using wf * 1(2) by (auto simp: bn_wf_def bn_fits_def bn_words_def nth_append min_def)
    then have "P () (set_num r ?x t)"
      using 1(1) by (intro P [of _ ?x]) simp_all
    moreover have "take (bn_top (nums s a)) (bn_d (nums s a)) = bn_words (nums s a)"
      by (simp add: bn_words_def)
    ultimately show ?case
      using 1(1,2) * wf False by (simp add: outcome_simps)
  qed (use Q in simp)
  with False show ?thesis
    by (simp add: BN_copy_def outcome_simps)
qed

lemma bn_wf_zero: "bn_wf (x\<lparr>bn_top := 0, bn_neg := False\<rparr>)" "bn_int (x\<lparr>bn_top := 0, bn_neg := False\<rparr>) = 0"
  by (simp_all add: bn_wf_def bn_fits_def bn_int_def bn_abs_def bn_words_def)

lemma BN_set_word_spec:
  assumes fits: "bn_fits (nums s r)"
    and P: "\<And>t x. nums t = (nums s)(r := x) \<Longrightarrow> bn_wf x \<Longrightarrow> bn_int x = int (unat w) \<Longrightarrow> P () t"
    and Q: "\<And>t. nums t = nums s \<Longrightarrow> length (bn_d (nums s r)) < 1 \<Longrightarrow> Q t"
  shows "outcome P Q (BN_set_word r w) s"
proof (cases "w = 0")
  case True
  then show ?thesis
    using bn_wf_zero [of "nums s r"] by (auto simp: BN_set_word_def BN_zero_def outcome_simps intro!: P)
next
  case False
  have "outcome P Q (seq (bn_wexpand r 1) (seq (set_neg r False) (seq (write_words r 0 [w]) (set_top r 1)))) s"
    unfolding outcome_bnd [of _ _ "bn_wexpand r 1"]
  proof (rule outcome_wexpand [OF fits], goal_cases)
    case (1 t d)
    then obtain y ys where d: "d = y # ys"
      by (cases d) auto
    let ?x = "(nums s r)\<lparr>bn_neg := False, bn_d := w # ys, bn_top := 1\<rparr>"
    have "bn_wf ?x" "bn_int ?x = int (unat w)"
      using False by (simp_all add: bn_wf_def bn_fits_def bn_int_def bn_abs_def bn_words_def)
    then have "P () (set_num r ?x t)"
      using 1(1) by (intro P [of _ ?x]) simp_all
    then show ?case
      using 1(1) d by (simp add: outcome_simps)
  qed (use Q in simp)
  with False show ?thesis
    by (simp add: BN_set_word_def)
qed

lemma add_word_loop_spec:
  assumes "add_word_loop ws w = (ws', w')"
  shows "length ws' = length ws \<and> bn_nat ws' + bn_base ^ length ws * unat w' = bn_nat ws + unat w"
  using assms
proof (induction ws arbitrary: w ws')
  case (Cons x ws)
  show ?case
  proof (cases "w = 0")
    case False
    define k :: u64 where "k = (if x + w < w then 1 else 0)"
    obtain vs where l: "add_word_loop ws k = (vs, w')" and ws': "ws' = (x + w) # vs"
      using Cons.prems False by (auto simp: k_def Let_def split: prod.splits)
    have k: "unat (x + w) + bn_base * unat k = unat x + unat w"
      using add_carry_right [of x w] by (simp add: k_def split: if_splits)
    have "bn_nat ws' + bn_base ^ length (x # ws) * unat w' =
        unat (x + w) + bn_base * (bn_nat vs + bn_base ^ length ws * unat w')"
      by (simp add: ws' algebra_simps)
    also have "... = unat (x + w) + bn_base * (bn_nat ws + unat k)"
      using Cons.IH [OF l] by simp
    also have "... = bn_nat (x # ws) + unat w"
      using k by (simp add: algebra_simps)
    finally show ?thesis
      using Cons.IH [OF l] by (simp add: ws')
  qed (use Cons.prems in auto)
qed simp

lemma add_word_positive_spec:
  assumes wf: "bn_wf (nums s a)" and "0 < bn_top (nums s a)" and "\<not> bn_neg (nums s a)"
    and P: "\<And>t x. nums t = (nums s)(a := x) \<Longrightarrow> bn_wf x \<Longrightarrow> \<not> bn_neg x \<Longrightarrow> bn_abs x = bn_abs (nums s a) + unat w \<Longrightarrow> P () t"
    and Q: "\<And>t. only a s t \<Longrightarrow> length (bn_d (nums s a)) \<le> bn_top (nums s a) \<Longrightarrow> Q t"
  shows "outcome P Q (add_word_positive a w) s"
proof -
  let ?n = "bn_top (nums s a)"
  obtain ws c where l: "add_word_loop (bn_words (nums s a)) w = (ws, c)"
    by fastforce
  have len: "length (bn_words (nums s a)) = ?n" and fits: "?n \<le> length (bn_d (nums s a))"
    using wf by (simp_all add: bn_wf_def bn_fits_def bn_words_def)
  have ws: "length ws = ?n" "bn_nat ws + bn_base ^ ?n * unat c = bn_abs (nums s a) + unat w"
    using add_word_loop_spec [OF l] len by (simp_all add: bn_abs_def)
  define s1 where "s1 = set_num a ((nums s a)\<lparr>bn_d := ws @ drop ?n (bn_d (nums s a))\<rparr>) s"
  have low: "bn_base ^ (?n - 1) \<le> bn_abs (nums s a)"
    using wf assms(2) by (simp add: bn_wf_iff)
  have "outcome P Q (if c \<noteq> 0 then seq (bn_wexpand a (?n + 1)) (seq (set_top a (?n + 1)) (write_words a ?n [c])) else ret ()) s1"
  proof (cases "c = 0")
    case True
    let ?x = "(nums s a)\<lparr>bn_d := ws @ drop ?n (bn_d (nums s a))\<rparr>"
    have "bn_words ?x = ws"
      using ws(1) by (simp add: bn_words_def)
    then have "bn_abs ?x = bn_abs (nums s a) + unat w"
      using ws(2) True by (simp add: bn_abs_def)
    moreover have "bn_wf ?x"
      using low assms(2,3) ws(1) calculation by (simp add: bn_wf_iff bn_fits_def)
    ultimately have "P () s1"
      using assms(3) by (intro P [of _ ?x]) (simp_all add: s1_def)
    with True show ?thesis
      by (simp add: outcome_simps)
  next
    case False
    then have c: "1 \<le> unat c"
      by (simp add: Suc_le_eq unat_gt_0)
    have f1: "bn_fits (nums s1 a)"
      using ws(1) fits by (simp add: s1_def bn_fits_def)
    have "outcome P Q (seq (bn_wexpand a (?n + 1)) (seq (set_top a (?n + 1)) (write_words a ?n [c]))) s1"
      unfolding outcome_bnd [of _ _ "bn_wexpand a (?n + 1)"]
    proof (rule outcome_wexpand [OF f1], goal_cases)
      case (1 t d)
      let ?x = "(nums s a)\<lparr>bn_top := ?n + 1, bn_d := take ?n d @ c # drop (Suc ?n) d\<rparr>"
      have "take ?n d = ws"
        using 1(4) ws(1) by (simp add: s1_def bn_words_def)
      then have "bn_words ?x = ws @ [c]"
        using 1(2) ws(1) by (simp add: bn_words_def)
      then have abs: "bn_abs ?x = bn_abs (nums s a) + unat w"
        using ws by (simp add: bn_abs_def bn_nat_append)
      have "bn_base ^ ?n * 1 \<le> bn_base ^ ?n * unat c"
        using c by (rule mult_le_mono2)
      then have "bn_base ^ ?n \<le> bn_abs ?x"
        using ws(2) abs by linarith
      then have "bn_wf ?x"
        using 1(2) assms(3) by (simp add: bn_wf_iff bn_fits_def)
      with abs have "P () (set_num a ?x t)"
        using 1(1) assms(3) by (intro P [of _ ?x]) (simp_all add: s1_def fun_eq_iff)
      then show ?case
        using 1(1,2) ws(1) fits by (simp add: outcome_simps s1_def)
    next
      case (2 t)
      then show ?case
        using ws(1) fits by (intro Q) (simp_all add: s1_def only_def)
    qed
    with False show ?thesis
      by simp
  qed
  then show ?thesis
    using l fits ws(1) by (simp add: add_word_positive_def outcome_simps bn_words_def s1_def)
qed

text \<open>The words below the one the subtraction stops at have wrapped around, so they are not zero.\<close>

lemma sub_word_loop_spec:
  assumes "n \<le> length d" and "unat w \<le> bn_nat (take n d)" and "w \<noteq> 0"
  shows "\<exists>d' j. sub_word_loop d w i = Some (d', i + j) \<and> j < n \<and> length d' = length d \<and>
    bn_nat (take n d') + unat w = bn_nat (take n d) \<and> (\<forall>k. k < j \<longrightarrow> d' ! k \<noteq> 0) \<and>
    (\<forall>k. j < k \<longrightarrow> d' ! k = d ! k)"
  using assms
proof (induction d arbitrary: n w i)
  case (Cons x d)
  obtain m where n: "n = Suc m"
    using Cons.prems(2,3) by (cases n) (auto simp: unat_eq_0)
  show ?case
  proof (cases "w \<le> x")
    case True
    then have "unat (x - w) + unat w = unat x"
      by (simp add: unat_sub word_le_nat_alt)
    with True show ?thesis
      by (intro exI [of _ "(x - w) # d"] exI [of _ 0]) (auto simp: n nth_Cons split: nat.splits)
  next
    case False
    have lt: "unat x < unat w"
      using False by (simp add: word_le_nat_alt)
    have "bn_nat (take m d) \<noteq> 0"
      using Cons.prems(2) lt by (intro notI) (simp add: n)
    then have "unat (1 :: u64) \<le> bn_nat (take m d)"
      by simp
    with Cons.prems(1) obtain d' j where ih: "sub_word_loop d 1 (i + 1) = Some (d', i + 1 + j)" "j < m"
      "length d' = length d" "bn_nat (take m d') + 1 = bn_nat (take m d)"
      "\<forall>k. k < j \<longrightarrow> d' ! k \<noteq> 0" "\<forall>k. j < k \<longrightarrow> d' ! k = d ! k"
      using Cons.IH [of m 1 "i + 1"] by (auto simp: n)
    have "unat (x - w) + unat w = unat x + bn_base"
      using lt unat_bn_base [of w] by (simp add: unat_sub_if_size word_size bn_base_def)
    moreover have "bn_base * (bn_nat (take m d') + 1) = bn_base * bn_nat (take m d)"
      using ih(4) by simp
    ultimately have "bn_nat (take n ((x - w) # d')) + unat w = bn_nat (take n (x # d))"
      by (simp add: n algebra_simps)
    moreover have "x - w \<noteq> 0"
      using lt by auto
    ultimately show ?thesis
      using False ih by (intro exI [of _ "(x - w) # d'"] exI [of _ "Suc j"]) (auto simp: n nth_Cons split: nat.splits)
  qed
qed (simp add: unat_eq_0)

lemma sub_word_positive_spec:
  assumes wf: "bn_wf (nums s a)" and top: "0 < bn_top (nums s a)" and "\<not> bn_neg (nums s a)" and "w \<noteq> 0"
    and P: "\<And>t x. nums t = (nums s)(a := x) \<Longrightarrow> bn_wf x \<Longrightarrow> bn_int x = int (bn_abs (nums s a)) - int (unat w) \<Longrightarrow> P () t"
  shows "outcome P Q (sub_word_positive a w) s"
proof -
  let ?x = "nums s a"
  let ?n = "bn_top ?x"
  have fits: "?n \<le> length (bn_d ?x)" and last: "bn_d ?x ! (?n - 1) \<noteq> 0"
    using wf top by (auto simp: bn_wf_def bn_fits_def)
  show ?thesis
  proof (cases "?n = 1 \<and> bn_d ?x ! 0 < w")
    case True
    obtain y ys where d: "bn_d ?x = y # ys"
      using fits top by (cases "bn_d ?x") auto
    have lt: "unat y < unat w" and n: "?n = 1"
      using True d by (simp_all add: word_less_nat_alt)
    let ?z = "?x\<lparr>bn_d := (w - y) # ys, bn_neg := True\<rparr>"
    have y: "bn_abs ?x = unat y"
      by (simp add: bn_abs_def bn_words_def n d)
    have z: "bn_words ?z = [w - y]" "unat (w - y) = unat w - unat y"
      using lt by (simp_all add: bn_words_def n unat_sub word_le_nat_alt)
    then have "bn_int ?z = int (bn_abs ?x) - int (unat w)"
      using lt by (simp add: bn_int_def bn_abs_def [of ?z] y)
    moreover have "bn_wf ?z"
      using z(2) lt n by (auto simp: bn_wf_def bn_fits_def)
    ultimately have "P () (set_num a ?z s)"
      by (intro P [of _ ?z]) simp_all
    with True show ?thesis
      by (simp add: sub_word_positive_def outcome_simps d)
  next
    case False
    have le: "unat w \<le> bn_nat (take ?n (bn_d ?x))"
    proof (cases "?n = 1")
      case True
      with False have "unat w \<le> unat (bn_d ?x ! 0)"
        by (simp add: word_less_nat_alt)
      with fits True show ?thesis
        by (cases "bn_d ?x") simp_all
    next
      case n: False
      have "unat w \<le> bn_base ^ 1"
        using unat_bn_base [of w] by (simp del: unat_bn_base)
      also have "... \<le> bn_base ^ (?n - 1)"
        using n top by (intro power_increasing) (simp_all add: Suc_le_eq)
      also have "... \<le> bn_nat (take ?n (bn_d ?x))"
        using last_word_iff [OF fits top] last by simp
      finally show ?thesis .
    qed
    obtain d j where l: "sub_word_loop (bn_d ?x) w 0 = Some (d, j)" and j: "j < ?n" and len: "length d = length (bn_d ?x)"
      and d: "bn_nat (take ?n d) + unat w = bn_nat (take ?n (bn_d ?x))" "\<forall>k. k < j \<longrightarrow> d ! k \<noteq> 0"
        "\<forall>k. j < k \<longrightarrow> d ! k = bn_d ?x ! k"
      using sub_word_loop_spec [OF fits le \<open>w \<noteq> 0\<close>, of 0] by auto
    define n where "n = (if d ! j = 0 \<and> j = ?n - 1 then ?n - 1 else ?n)"
    let ?z = "?x\<lparr>bn_d := d, bn_top := n\<rparr>"
    have "bn_nat (take n d) = bn_nat (take ?n d)"
    proof (cases "d ! j = 0 \<and> j = ?n - 1")
      case True
      then have "bn_nat (take ?n d) = bn_nat (take (?n - 1) d)"
        using bn_nat_take_Suc [of "?n - 1" d] fits top len by auto
      with True top show ?thesis
        by (simp add: n_def)
    next
      case False
      then have "n = ?n"
        unfolding n_def by (rule if_not_P)
      then show ?thesis
        by simp
    qed
    with d(1) have "bn_abs ?z + unat w = bn_abs ?x"
      by (simp add: bn_abs_def bn_words_def)
    then have abs: "int (bn_abs ?z) = int (bn_abs ?x) - int (unat w)"
      by linarith
    have "bn_wf ?z"
    proof (cases "d ! j = 0 \<and> j = ?n - 1")
      case True
      then have n: "n = ?n - 1"
        unfolding n_def by (rule if_P)
      then have "0 < n \<longrightarrow> d ! (n - 1) \<noteq> 0" and "n \<le> ?n"
        using d(2) True by simp_all
      then show ?thesis
        using assms(3) fits len by (simp add: bn_wf_def bn_fits_def)
    next
      case False
      have "d ! (?n - 1) \<noteq> 0"
      proof (cases "j = ?n - 1")
        case True
        with False show ?thesis
          by blast
      next
        case jn: False
        then have "j < ?n - 1"
          using j by linarith
        with d(3) last show ?thesis
          by simp
      qed
      moreover have "n = ?n"
        using False unfolding n_def by (rule if_not_P)
      ultimately show ?thesis
        using assms(3) fits len by (simp add: bn_wf_def bn_fits_def)
    qed
    then have "P () (set_num a ?z s)"
      using assms(3) abs by (intro P [of _ ?z]) (simp_all add: bn_int_def)
    then show ?thesis
      using False l len by (auto simp: sub_word_positive_def outcome_simps n_def)
  qed
qed

text \<open>Addition and subtraction of a word, of either sign.\<close>

lemma bn_int_not_zero: "bn_wf x \<Longrightarrow> 0 < bn_top x \<Longrightarrow> \<not> bn_neg x \<Longrightarrow> bn_int x = int (bn_abs x)"
  by (simp add: bn_int_def)

lemma outcome_restore:
  assumes "outcome (\<lambda>u t. P u (set_num a (g (nums t a)) t)) (\<lambda>t. Q (set_num a (g (nums t a)) t)) f s"
  shows "outcome P Q (\<lambda>s. case f s of (Stuck, s) \<Rightarrow> (Stuck, s) | (v, s) \<Rightarrow> (v, snd (modify a g s))) s"
  using assms by (auto simp: outcome_def modify_def split: prod.splits res.splits)

lemma wf_positive:
  assumes "bn_wf x" and "0 < bn_top x"
  shows "bn_wf (x\<lparr>bn_neg := n\<rparr>)" and "bn_abs (x\<lparr>bn_neg := n\<rparr>) = bn_abs x" and "0 < bn_abs x"
  using bn_wf_set_neg [OF assms(1), of n] bn_abs_pos [OF assms] by simp_all

lemma BN_add_word_spec:
  assumes wf: "bn_wf (nums s a)"
    and P: "\<And>t x. nums t = (nums s)(a := x) \<Longrightarrow> bn_wf x \<Longrightarrow> bn_int x = bn_int (nums s a) + int (unat w) \<Longrightarrow> P () t"
    and Q: "\<And>t. only a s t \<Longrightarrow> length (bn_d (nums s a)) \<le> bn_top (nums s a) \<Longrightarrow> Q t"
  shows "outcome P Q (BN_add_word a w) s"
proof -
  let ?x = "nums s a"
  consider "w = 0" | "w \<noteq> 0" "bn_top ?x = 0" | "w \<noteq> 0" "0 < bn_top ?x" "bn_neg ?x" | "w \<noteq> 0" "0 < bn_top ?x" "\<not> bn_neg ?x"
    by auto
  then show ?thesis
  proof cases
    case 1
    then show ?thesis
      using wf by (auto simp: BN_add_word_def outcome_simps intro!: P [of s ?x])
  next
    case 2
    have "outcome P Q (BN_set_word a w) s"
      by (rule BN_set_word_spec) (use 2 wf bn_int_eq_0 [OF wf] in \<open>auto intro!: P Q simp: only_def\<close>)
    with 2 show ?thesis
      by (simp add: BN_add_word_def outcome_simps BN_is_zero_def)
  next
    case 3
    let ?g = "\<lambda>x. if BN_is_zero x then x else x\<lparr>bn_neg := \<not> bn_neg x\<rparr>"
    define s1 where "s1 = set_num a (?x\<lparr>bn_neg := False\<rparr>) s"
    note x = wf_positive(1,2) [OF wf 3(2), of False] wf_positive(3) [OF wf 3(2)]
    have "outcome P Q (\<lambda>s. case sub_word_positive a w s of (Stuck, s) \<Rightarrow> (Stuck, s) | (v, s) \<Rightarrow> (v, snd (modify a ?g s))) s1"
    proof (rule outcome_restore, rule sub_word_positive_spec, goal_cases)
      case (5 t z)
      have z: "bn_int z = - bn_int ?x - int (unat w)"
        using 5(3) x 3(3) by (simp add: s1_def bn_int_def)
      have "bn_wf (?g z) \<and> bn_int (?g z) = - bn_int z"
        using bn_wf_set_neg [OF 5(2), of "\<not> bn_neg z"] bn_top_eq_0 [OF 5(2)] 5(2) bn_int_eq_0 [OF 5(2)]
        by (auto simp: BN_is_zero_def bn_int_def)
      then show ?case
        using 5(1) z by (intro P [of _ "?g z"]) (simp_all add: s1_def)
    qed (use 3 x in \<open>simp_all add: s1_def\<close>)
    with 3 show ?thesis
      by (simp add: BN_add_word_def outcome_simps BN_is_zero_def s1_def)
  next
    case 4
    have "outcome P Q (add_word_positive a w) s"
      by (rule add_word_positive_spec [OF wf 4(2,3)]) (use 4(3) in \<open>auto intro!: P Q simp: bn_int_def\<close>)
    with 4 show ?thesis
      by (simp add: BN_add_word_def outcome_simps BN_is_zero_def)
  qed
qed

lemma BN_sub_word_spec:
  assumes wf: "bn_wf (nums s a)"
    and P: "\<And>t x. nums t = (nums s)(a := x) \<Longrightarrow> bn_wf x \<Longrightarrow> bn_int x = bn_int (nums s a) - int (unat w) \<Longrightarrow> P () t"
    and Q: "\<And>t. only a s t \<Longrightarrow> length (bn_d (nums s a)) \<le> bn_top (nums s a) \<Longrightarrow> Q t"
  shows "outcome P Q (BN_sub_word a w) s"
proof -
  let ?x = "nums s a"
  consider "w = 0" | "w \<noteq> 0" "bn_top ?x = 0" | "w \<noteq> 0" "0 < bn_top ?x" "bn_neg ?x" | "w \<noteq> 0" "0 < bn_top ?x" "\<not> bn_neg ?x"
    by auto
  then show ?thesis
  proof cases
    case 1
    then show ?thesis
      using wf by (auto simp: BN_sub_word_def outcome_simps intro!: P [of s ?x])
  next
    case 2
    have "outcome P Q (seq (BN_set_word a w) (BN_set_negative a True)) s"
      unfolding outcome_bnd
    proof (rule BN_set_word_spec, goal_cases)
      case (2 t x)
      obtain m where m: "unat w = m"
        by simp
      have "m \<noteq> 0"
        using \<open>w \<noteq> 0\<close> m by (metis unat_eq_0)
      then have "bn_abs x \<noteq> 0" "bn_int x \<noteq> 0"
        using 2(3) unfolding m by (auto simp: bn_int_def split: if_splits)
      then have "bn_wf (x\<lparr>bn_neg := True\<rparr>)" "bn_int (x\<lparr>bn_neg := True\<rparr>) = - int (unat w)" "bn_top x \<noteq> 0"
        using bn_wf_set_neg [OF 2(2), of True] 2(3) bn_int_eq_0 [OF 2(2)] \<open>m \<noteq> 0\<close> unfolding m
        by (auto simp: bn_int_def split: if_splits)
      then have "P () (set_num a (x\<lparr>bn_neg := True\<rparr>) t)"
        using 2(1) \<open>bn_top ?x = 0\<close> bn_int_eq_0 [OF wf] by (intro P [of _ "x\<lparr>bn_neg := True\<rparr>"]) simp_all
      then show ?case
        using \<open>bn_top x \<noteq> 0\<close> 2(1) by (simp add: BN_set_negative_def outcome_simps BN_is_zero_def)
    qed (use 2 wf Q in \<open>auto simp: only_def\<close>)
    with 2 show ?thesis
      by (simp add: BN_sub_word_def outcome_simps BN_is_zero_def)
  next
    case 3
    define s1 where "s1 = set_num a (?x\<lparr>bn_neg := False\<rparr>) s"
    note x = wf_positive(1,2) [OF wf 3(2), of False] wf_positive(3) [OF wf 3(2)]
    have "outcome P Q (\<lambda>s. case add_word_positive a w s of (Stuck, s) \<Rightarrow> (Stuck, s) | (v, s) \<Rightarrow> (v, snd (set_neg a True s))) s1"
    proof (rule outcome_restore, rule add_word_positive_spec, goal_cases)
      case (4 t z)
      have "bn_abs z \<noteq> 0"
        using 4(4) x by (simp add: s1_def)
      then have "bn_wf (z\<lparr>bn_neg := True\<rparr>)" "bn_int (z\<lparr>bn_neg := True\<rparr>) = bn_int ?x - int (unat w)"
        using bn_wf_set_neg [OF 4(2), of True] 4(4) x 3(3) by (auto simp: s1_def bn_int_def)
      then show ?case
        using 4(1) by (intro P [of _ "z\<lparr>bn_neg := True\<rparr>"]) (simp_all add: s1_def)
    next
      case (5 t)
      then show ?case
        by (intro Q) (auto simp: s1_def only_def)
    qed (use 3 x in \<open>simp_all add: s1_def\<close>)
    with 3 show ?thesis
      by (simp add: BN_sub_word_def outcome_simps BN_is_zero_def s1_def)
  next
    case 4
    have "outcome P Q (sub_word_positive a w) s"
      by (rule sub_word_positive_spec [OF wf 4(2,3,1)]) (use 4(3) in \<open>auto intro!: P simp: bn_int_def\<close>)
    with 4 show ?thesis
      by (simp add: BN_sub_word_def outcome_simps BN_is_zero_def)
  qed
qed

section \<open>Properties\<close>

text \<open>A state of three numbers: 5, -3 of two words, and an empty one that may grow twice.\<close>

definition demo_num :: "u64 list \<Rightarrow> bool \<Rightarrow> bignum" where
  "demo_num ws neg = \<lparr>bn_d = ws, bn_top = length ws, bn_neg = neg, bn_static = False, bn_malloced = True\<rparr>"

definition demo_state :: bn_state where
  "demo_state = \<lparr>nums = (\<lambda>b. if b = 0 then demo_num [5] False else if b = 1 then demo_num [7, 2] True else BN_init),
     mallocs = [Some (\<lambda>_. 0), Some (\<lambda>_. 1)]\<rparr>"

lemma demo_state:
  "bn_wf (nums demo_state 0)" "bn_wf (nums demo_state 1)" "bn_wf (nums demo_state 2)" "bn_fits (nums demo_state 2)"
  "bn_int (nums demo_state 0) = 5" "bn_int (nums demo_state 1) = - (7 + 2 * 2 ^ 64)" "bn_top (nums demo_state 1) = 2"
  "bn_abs (nums demo_state 0) = 5"
  by (simp_all add: demo_state_def demo_num_def BN_init_def bn_wf_def bn_fits_def bn_int_def bn_abs_def bn_words_def bn_base_def)

text \<open>
  C10: signed addition, subtraction and comparison are those of the integers, whichever of the three \<open>BIGNUM\<close>s are the
  same one. The functions return a well-formed number and change no other; they fail only when the array of the result
  has no room for one more word than the longer argument, and never reach beyond an array.
\<close>

theorem signed_arithmetic:
  assumes "bn_fits (nums s r)" and "bn_wf (nums s a)" and "bn_wf (nums s b)"
  shows "outcome (\<lambda>_ t. \<exists>x. nums t = (nums s)(r := x) \<and> bn_wf x \<and> bn_int x = bn_int (nums s a) + bn_int (nums s b))
      (\<lambda>t. only r s t \<and> length (bn_d (nums s r)) \<le> max (bn_top (nums s a)) (bn_top (nums s b))) (BN_add r a b) s \<and>
    outcome (\<lambda>_ t. \<exists>x. nums t = (nums s)(r := x) \<and> bn_wf x \<and> bn_int x = bn_int (nums s a) - bn_int (nums s b))
      (\<lambda>t. nums t = nums s \<and> length (bn_d (nums s r)) \<le> max (bn_top (nums s a)) (bn_top (nums s b))) (BN_sub r a b) s \<and>
    BN_cmp (Some (nums s a)) (Some (nums s b)) = sgn (bn_int (nums s a) - bn_int (nums s b))"
  by (intro conjI BN_add_spec BN_sub_spec BN_cmp_spec assms) blast+

theorem signed_arithmetic_witness:
  "outcome (\<lambda>_ t. \<exists>x. nums t = (nums demo_state)(1 := x) \<and> bn_wf x \<and> bn_int x = 5 + - (7 + 2 * 2 ^ 64))
      (\<lambda>t. only 1 demo_state t \<and> length (bn_d (nums demo_state 1)) \<le> max (bn_top (nums demo_state 0)) 2)
      (BN_add 1 0 1) demo_state \<and>
    BN_cmp (Some (nums demo_state 0)) (Some (nums demo_state 1)) = sgn (5 - - (7 + 2 * 2 ^ 64))"
  using signed_arithmetic [of demo_state 1 0 1] bn_wf_fits [OF demo_state(2)] by (simp only: demo_state)

text \<open>
  addition and subtraction of one word, for numbers of either sign and with the changes of sign they can lead to. They
  fail only when there is no room for one more word, leaving the other numbers alone.
\<close>

theorem word_arithmetic:
  assumes "bn_wf (nums s a)"
  shows "outcome (\<lambda>_ t. \<exists>x. nums t = (nums s)(a := x) \<and> bn_wf x \<and> bn_int x = bn_int (nums s a) + int (unat w))
      (\<lambda>t. only a s t \<and> length (bn_d (nums s a)) \<le> bn_top (nums s a)) (BN_add_word a w) s \<and>
    outcome (\<lambda>_ t. \<exists>x. nums t = (nums s)(a := x) \<and> bn_wf x \<and> bn_int x = bn_int (nums s a) - int (unat w))
      (\<lambda>t. only a s t \<and> length (bn_d (nums s a)) \<le> bn_top (nums s a)) (BN_sub_word a w) s"
  by (intro conjI BN_add_word_spec BN_sub_word_spec assms) blast+

theorem word_arithmetic_witness:
  "outcome (\<lambda>_ t. \<exists>x. nums t = (nums demo_state)(0 := x) \<and> bn_wf x \<and> bn_int x = 5 - int (unat (9 :: u64)))
      (\<lambda>t. only 0 demo_state t \<and> length (bn_d (nums demo_state 0)) \<le> bn_top (nums demo_state 0)) (BN_sub_word 0 9) demo_state"
  using word_arithmetic [of demo_state 0 9] by (simp only: demo_state)

end
