(* ===== verification/Bn_Shift.thy ===== *)
theory Bn_Shift
  imports Bn_Spec
begin

text \<open>
  The number of bits of a \<open>BIGNUM\<close>, and the shifts and the operations on single bits of \<open>shift.c\<close> as
  multiplications and divisions by powers of two.
\<close>

unbundle bit_operations_syntax

section \<open>The number of bits\<close>

lemma and_block_zero:
  fixes l :: u64
  shows "l AND push_bit k (mask j) = 0 \<longleftrightarrow> take_bit j (drop_bit k l) = 0"
proof -
  have "bit (l AND push_bit k (mask j)) n \<longleftrightarrow> k \<le> n \<and> bit (take_bit j (drop_bit k l)) (n - k)" for n
    by (auto simp: bit_simps dest: bit_imp_le_length)
  then have "(\<forall>n. \<not> bit (l AND push_bit k (mask j)) n) \<longleftrightarrow> (\<forall>n. \<not> bit (take_bit j (drop_bit k l)) n)"
    by (metis add_diff_cancel_right' le_add2)
  then show ?thesis
    by (metis bit_0_eq bot_apply bot_bool_def bit_eq_iff)
qed

lemma and_block:
  fixes l :: u64
  assumes "unat l < 2 ^ (k + j)"
  shows "l AND push_bit k (mask j) \<noteq> 0 \<longleftrightarrow> 2 ^ k \<le> unat l"
proof -
  have "unat l div 2 ^ k < 2 ^ j"
    using assms by (simp add: less_mult_imp_div_less power_add mult.commute)
  then have "unat (take_bit j (drop_bit k l)) = unat l div 2 ^ k"
    by (simp add: unsigned_take_bit_eq unat_drop_bit_div take_bit_nat_eq_self)
  then have "take_bit j (drop_bit k l) = 0 \<longleftrightarrow> unat l div 2 ^ k = 0"
    by (metis unat_eq_0)
  then show ?thesis
    by (simp add: and_block_zero div_eq_0_iff not_less)
qed

lemma num_bits_table:
  assumes "0 < n" and "n < 256"
  shows "2 ^ (num_bits_table ! n - 1) \<le> n \<and> n < 2 ^ (num_bits_table ! n) \<and> 0 < num_bits_table ! n"
  using assms by (auto simp: num_bits_table_def nth_append nth_Cons')

lemma BN_num_bits_word_spec:
  assumes "l \<noteq> 0"
  shows "2 ^ (BN_num_bits_word l - 1) \<le> unat l \<and> unat l < 2 ^ BN_num_bits_word l \<and> 0 < BN_num_bits_word l"
proof -
  have block: "2 ^ (b - 1) \<le> unat l \<and> unat l < 2 ^ b \<and> 0 < b"
    if "b = num_bits_table ! unat (drop_bit k l) + k" "2 ^ k \<le> unat l" "unat l < 2 ^ (k + 8)" for k b
  proof -
    define n where "n = unat l div 2 ^ k"
    have n: "0 < n" "n < 256"
      using that(2,3) by (simp_all add: n_def div_greater_zero_iff less_mult_imp_div_less power_add mult.commute)
    note t = num_bits_table [OF n]
    have b: "b = num_bits_table ! n + k"
      using that(1) by (simp add: n_def unat_drop_bit_div)
    have "unat l = n * 2 ^ k + unat l mod 2 ^ k"
      unfolding n_def by (rule div_mult_mod_eq [symmetric])
    moreover have "unat l mod 2 ^ k < 2 ^ k"
      by simp
    moreover have "2 ^ (num_bits_table ! n - 1) * 2 ^ k \<le> n * 2 ^ k"
      using t by (intro mult_le_mono1) simp
    moreover have "(n + 1) * 2 ^ k \<le> 2 ^ (num_bits_table ! n) * 2 ^ k"
      using t by (intro mult_le_mono1) simp
    then have "n * 2 ^ k + 2 ^ k \<le> 2 ^ (num_bits_table ! n) * 2 ^ k"
      by simp
    ultimately have "2 ^ (num_bits_table ! n - 1) * 2 ^ k \<le> unat l" "unat l < 2 ^ (num_bits_table ! n) * 2 ^ k"
      by linarith+
    moreover have "b - 1 = num_bits_table ! n - 1 + k"
      using t by (simp add: b)
    ultimately show ?thesis
      using t by (simp only: b power_add) simp
  qed
  have pos: "2 ^ 0 \<le> unat l"
    using assms by (simp add: Suc_le_eq unat_gt_0)
  have masks: "0xffffffff00000000 = (push_bit 32 (mask 32) :: u64)" "0xffff000000000000 = (push_bit 48 (mask 16) :: u64)"
    "0xff00000000000000 = (push_bit 56 (mask 8) :: u64)" "0x0000ff0000000000 = (push_bit 40 (mask 8) :: u64)"
    "0xffff0000 = (push_bit 16 (mask 16) :: u64)" "0xff000000 = (push_bit 24 (mask 8) :: u64)"
    "0xff00 = (push_bit 8 (mask 8) :: u64)"
    by (simp_all add: mask_eq_exp_minus_1)
  have c32: "l AND 0xffffffff00000000 \<noteq> 0 \<longleftrightarrow> 2 ^ 32 \<le> unat l" and c48: "l AND 0xffff000000000000 \<noteq> 0 \<longleftrightarrow> 2 ^ 48 \<le> unat l"
    and c56: "l AND 0xff00000000000000 \<noteq> 0 \<longleftrightarrow> 2 ^ 56 \<le> unat l"
    using unat_u64_less [of l] unfolding masks by (subst and_block; simp)+
  have c40: "l AND 0x0000ff0000000000 \<noteq> 0 \<longleftrightarrow> 2 ^ 40 \<le> unat l" if "unat l < 2 ^ 48"
    using that unfolding masks by (subst and_block; simp)
  have c16: "l AND 0xffff0000 \<noteq> 0 \<longleftrightarrow> 2 ^ 16 \<le> unat l" and c24: "l AND 0xff000000 \<noteq> 0 \<longleftrightarrow> 2 ^ 24 \<le> unat l"
    if "unat l < 2 ^ 32"
    using that unfolding masks by (subst and_block; simp)+
  have c8: "l AND 0xff00 \<noteq> 0 \<longleftrightarrow> 2 ^ 8 \<le> unat l" if "unat l < 2 ^ 16"
    using that unfolding masks by (subst and_block; simp)
  have lt: "unat l < 2 ^ 64"
    by (rule unat_u64_less)
  consider "2 ^ 56 \<le> unat l" | "2 ^ 48 \<le> unat l" "unat l < 2 ^ 56" | "2 ^ 40 \<le> unat l" "unat l < 2 ^ 48"
    | "2 ^ 32 \<le> unat l" "unat l < 2 ^ 40" | "2 ^ 24 \<le> unat l" "unat l < 2 ^ 32"
    | "2 ^ 16 \<le> unat l" "unat l < 2 ^ 24" | "2 ^ 8 \<le> unat l" "unat l < 2 ^ 16" | "unat l < 2 ^ 8"
    by linarith
  then show ?thesis
  proof cases
    case 1
    then have "BN_num_bits_word l = num_bits_table ! unat (drop_bit 56 l) + 56"
      unfolding BN_num_bits_word_def Let_def c32 c48 c56 by simp
    then show ?thesis
      by (rule block) (use 1 lt in simp_all)
  next
    case 2
    then have "BN_num_bits_word l = num_bits_table ! unat (drop_bit 48 l) + 48"
      unfolding BN_num_bits_word_def Let_def c32 c48 c56 by simp
    then show ?thesis
      by (rule block) (use 2 in simp_all)
  next
    case 3
    then have "BN_num_bits_word l = num_bits_table ! unat (drop_bit 40 l) + 40"
      unfolding BN_num_bits_word_def Let_def c32 c48 c56 c40 [OF 3(2)] by simp
    then show ?thesis
      by (rule block) (use 3 in simp_all)
  next
    case 4
    then have "unat l < 2 ^ 48"
      by simp
    with 4 have "BN_num_bits_word l = num_bits_table ! unat (drop_bit 32 l) + 32"
      unfolding BN_num_bits_word_def Let_def c32 c48 c56 c40 [OF \<open>unat l < 2 ^ 48\<close>] by simp
    then show ?thesis
      by (rule block) (use 4 in simp_all)
  next
    case 5
    then have "BN_num_bits_word l = num_bits_table ! unat (drop_bit 24 l) + 24"
      unfolding BN_num_bits_word_def Let_def c32 c48 c56 c16 [OF 5(2)] c24 [OF 5(2)] by simp
    then show ?thesis
      by (rule block) (use 5 in simp_all)
  next
    case 6
    then have l: "unat l < 2 ^ 32"
      by simp
    with 6 have "BN_num_bits_word l = num_bits_table ! unat (drop_bit 16 l) + 16"
      unfolding BN_num_bits_word_def Let_def c32 c48 c56 c16 [OF l] c24 [OF l] by simp
    then show ?thesis
      by (rule block) (use 6 in simp_all)
  next
    case 7
    then have l: "unat l < 2 ^ 32"
      by simp
    with 7 have "BN_num_bits_word l = num_bits_table ! unat (drop_bit 8 l) + 8"
      unfolding BN_num_bits_word_def Let_def c32 c48 c56 c16 [OF l] c24 [OF l] c8 [OF 7(2)] by simp
    then show ?thesis
      by (rule block) (use 7 in simp_all)
  next
    case 8
    then have l: "unat l < 2 ^ 32" "unat l < 2 ^ 16"
      by simp_all
    with 8 have "BN_num_bits_word l = num_bits_table ! unat (drop_bit 0 l) + 0"
      unfolding BN_num_bits_word_def Let_def c32 c48 c56 c16 [OF l(1)] c24 [OF l(1)] c8 [OF l(2)] by simp
    then show ?thesis
      by (rule block) (use 8 pos in simp_all)
  qed
qed

lemma BN_num_bits_spec:
  assumes "bn_wf x" and "0 < bn_top x"
  shows "2 ^ (BN_num_bits x - 1) \<le> bn_abs x \<and> bn_abs x < 2 ^ BN_num_bits x \<and>
    64 * (bn_top x - 1) < BN_num_bits x \<and> BN_num_bits x \<le> 64 * bn_top x"
proof -
  obtain n where n: "bn_top x = Suc n"
    using assms(2) by (cases "bn_top x") auto
  let ?w = "bn_d x ! n"
  let ?k = "BN_num_bits_word ?w"
  have w: "?w \<noteq> 0" and len: "n < length (bn_d x)"
    using assms by (auto simp: bn_wf_def bn_fits_def n)
  note k = BN_num_bits_word_spec [OF w]
  have bits: "BN_num_bits x = 64 * n + ?k"
    by (simp add: BN_num_bits_def BN_is_zero_def n BN_BITS2_def)
  have abs: "bn_abs x = bn_nat (take n (bn_d x)) + bn_base ^ n * unat ?w"
    using len by (simp add: bn_abs_def bn_words_def n bn_nat_take_Suc)
  have B: "bn_base ^ n = 2 ^ (64 * n)"
    unfolding bn_base_def power_mult ..
  have "(2 :: nat) ^ (BN_num_bits x - 1) = bn_base ^ n * 2 ^ (?k - 1)"
    using k by (simp add: B bits flip: power_add)
  also have "... \<le> bn_base ^ n * unat ?w"
    using k by (intro mult_le_mono2) simp
  finally have 1: "2 ^ (BN_num_bits x - 1) \<le> bn_abs x"
    by (simp add: abs)
  have "bn_abs x < bn_base ^ n * (unat ?w + 1)"
    using bn_nat_take_less [of n "bn_d x"] by (simp add: abs)
  also have "... \<le> bn_base ^ n * 2 ^ ?k"
    using k by (intro mult_le_mono2) simp
  finally have 2: "bn_abs x < 2 ^ BN_num_bits x"
    by (simp add: B bits power_add)
  have "(2 :: nat) ^ (?k - 1) < 2 ^ 64"
    using k unat_u64_less [of ?w] by linarith
  then have "?k - 1 < 64"
    by (rule power_less_imp_less_exp [rotated]) simp
  with 1 2 k show ?thesis
    by (simp add: bits n)
qed

end
