(* ===== verification/Bn_Mont.thy ===== *)
theory Bn_Mont
  imports Bn_Mul Bn_Shift
begin

text \<open>
  Montgomery arithmetic on numbers of at most nine words (\<open>montgomery_inv.c\<close>, \<open>montgomery.c\<close> and the functions
  for small numbers of \<open>exponentiation.c\<close>), in the configuration without assembler (\<open>OPENSSL_NO_ASM\<close>) and
  with words of 64 bits. A function that returns zero is \<open>None\<close>; one that returns one is \<open>Some\<close> with the words it wrote.
  The buffers of the code are on its stack, so every input has been read when the first word of the result is
  written, and the result may be an input as well.
\<close>

unbundle bit_operations_syntax

section \<open>The context\<close>

record bn_mont_ctx =
  mont_RR :: bignum
  mont_N :: bignum
  mont_n0 :: u64

section \<open>montgomery_inv.c\<close>

definition LG_LITTLE_R :: nat where
  "LG_LITTLE_R = 64"

definition neg_inv_step :: "u64 \<Rightarrow> u64 \<times> u64 \<Rightarrow> u64 \<times> u64" where
  "neg_inv_step beta = (\<lambda>(u, v).
     let alpha = push_bit (LG_LITTLE_R - 1) 1;
         u_is_odd = 0 - (u AND 1);
         beta_if_u_is_odd = beta AND u_is_odd;
         alpha_if_u_is_odd = alpha AND u_is_odd in
     (drop_bit 1 (u XOR beta_if_u_is_odd) + (u AND beta_if_u_is_odd), drop_bit 1 v + alpha_if_u_is_odd))"

definition bn_neg_inv_mod_r_u64 :: "u64 \<Rightarrow> u64" where
  "bn_neg_inv_mod_r_u64 n = snd ((neg_inv_step n ^^ LG_LITTLE_R) (1, 0))"

text \<open>The assertions of the caller's conditions are \<open>None\<close> when they fail.\<close>

definition bn_mont_n0 :: "bignum \<Rightarrow> u64 option" where
  "bn_mont_n0 n =
     (if BN_is_zero n \<or> BN_is_negative n \<or> \<not> BN_is_odd n then None else Some (bn_neg_inv_mod_r_u64 (bn_d n ! 0)))"

section \<open>montgomery.c\<close>

text \<open>
  One iteration for each of the \<open>k\<close> low words of \<open>a\<close>, which holds \<open>num_n\<close> more. The recursion drops the word
  an iteration is done with and puts it back in front of the result.
\<close>

fun mont_rows :: "u64 list \<Rightarrow> nat \<Rightarrow> u64 \<Rightarrow> nat \<Rightarrow> u64 list \<Rightarrow> u64 \<Rightarrow> u64 list \<times> u64" where
  "mont_rows n num_n n0 0 a carry = (a, carry)"
| "mont_rows n num_n n0 (Suc k) a carry =
     (let (row, v) = bn_mul_add_words (take num_n a) n num_n (a ! 0 * n0);
          x = a ! num_n;
          v = v + (carry + x);
          carry = carry OR (if v \<noteq> x then 1 else 0);
          carry = carry AND (if v \<le> x then 1 else 0);
          a = row @ v # drop (num_n + 1) a;
          (a', carry) = mont_rows n num_n n0 k (tl a) carry in
      (hd a # a', carry))"

text \<open>The result and what is left in \<open>a\<close>, which has \<open>num_a\<close> words.\<close>

definition bn_from_montgomery_in_place ::
    "nat \<Rightarrow> u64 list \<Rightarrow> nat \<Rightarrow> bn_mont_ctx \<Rightarrow> (u64 list \<times> u64 list) option" where
  "bn_from_montgomery_in_place num_r a num_a mont =
     (let n = bn_d (mont_N mont); num_n = bn_top (mont_N mont) in
      if num_r \<noteq> num_n \<or> num_a \<noteq> 2 * num_n then None
      else
        let (a, carry) = mont_rows n num_n (mont_n0 mont) num_n a 0;
            a' = drop num_n a;
            (r, borrow) = bn_sub_words a' n num_n;
            v = 0 - (borrow - carry) in
        Some (map2 (constant_time_select_w v) a' r, take num_n a @ replicate num_n 0))"

definition bn_from_montgomery_small :: "nat \<Rightarrow> u64 list \<Rightarrow> nat \<Rightarrow> bn_mont_ctx \<Rightarrow> u64 list option" where
  "bn_from_montgomery_small num_r a num_a mont =
     (let num_n = bn_top (mont_N mont) in
      if 2 * num_n < num_a \<or> num_r \<noteq> num_n \<or> BN_SMALL_MAX_WORDS < num_n then None
      else map_option fst (bn_from_montgomery_in_place num_r
        (take num_a a @ replicate (2 * num_n - num_a) 0) (2 * num_n) mont))"

text \<open>\<open>same\<close>: the two arguments are the same array, \<open>a == b\<close>.\<close>

definition bn_mod_mul_montgomery_small ::
    "bool \<Rightarrow> nat \<Rightarrow> u64 list \<Rightarrow> nat \<Rightarrow> u64 list \<Rightarrow> nat \<Rightarrow> bn_mont_ctx \<Rightarrow> u64 list option" where
  "bn_mod_mul_montgomery_small same num_r a num_a b num_b mont =
     (let num_n = bn_top (mont_N mont); num_ab = num_a + num_b in
      if num_r \<noteq> num_n \<or> 2 * num_n < num_ab \<or> BN_SMALL_MAX_WORDS < num_n then None
      else
        case (if same \<and> num_a = num_b then bn_sqr_small num_ab a num_a else bn_mul_small num_ab a num_a b num_b) of
          None \<Rightarrow> None
        | Some tmp \<Rightarrow> map_option fst (bn_from_montgomery_in_place num_r
            (tmp @ replicate (2 * num_n - num_ab) 0) (2 * num_n) mont))"

definition bn_to_montgomery_small :: "nat \<Rightarrow> u64 list \<Rightarrow> nat \<Rightarrow> bn_mont_ctx \<Rightarrow> u64 list option" where
  "bn_to_montgomery_small num_r a num_a mont =
     bn_mod_mul_montgomery_small False num_r a num_a (bn_d (mont_RR mont)) (bn_top (mont_RR mont)) mont"

section \<open>The negative inverse\<close>

lemma add_xor_and: "m + n = (m XOR n) + 2 * (m AND n)" for m n :: nat
proof (induction "m + n" arbitrary: m n rule: less_induct)
  case less
  show ?case
  proof (cases "m + n = 0")
    case False
    then have "m div 2 + n div 2 < m + n"
      by linarith
    note IH = less [OF this]
    have x: "m XOR n = of_bool (odd m \<noteq> odd n) + 2 * (m div 2 XOR n div 2)"
      by (rule xor_rec)
    have a: "m AND n = of_bool (odd m \<and> odd n) + 2 * (m div 2 AND n div 2)"
      by (rule and_rec)
    have "k = of_bool (odd k) + 2 * (k div 2)" for k :: nat
      using mult_div_mod_eq [of 2 k] by (simp add: mod_2_eq_odd)
    from arg_cong2 [where f = "(+)", OF this [of m] this [of n]]
    have "m + n = of_bool (odd m) + of_bool (odd n) + 2 * (m div 2 + n div 2)"
      by (simp only: distrib_left add_ac)
    then show ?thesis
      unfolding x a IH by (cases "odd m"; cases "odd n") simp_all
  qed simp
qed

text \<open>Dietz's average.\<close>

lemma dietz:
  "unat (drop_bit 1 (x XOR y) + (x AND y) :: u64) = (unat x + unat y) div 2"
proof -
  have "unat x + unat y = unat (x XOR y) + 2 * unat (x AND y)"
    using add_xor_and [of "unat x" "unat y"] by (simp add: unsigned_xor_eq unsigned_and_eq)
  then have eq: "(unat x + unat y) div 2 = unat (drop_bit 1 (x XOR y)) + unat (x AND y)"
    unfolding unat_drop_bit_div power_one_right by simp
  have "(unat x + unat y) div 2 < bn_base"
    using unat_bn_base [of x] unat_bn_base [of y] by linarith
  then show ?thesis
    unfolding unat_add_base by (simp add: eq)
qed

lemma odd_unat: "odd (unat (u :: u64)) \<longleftrightarrow> odd u"
  unfolding bit_0 [symmetric] by (simp add: bit_unsigned_iff)

lemma neg_inv_step_spec:
  assumes "odd (unat n)" and "2 ^ Suc k + unat v * unat n = unat u * 2 ^ 64"
    and "neg_inv_step n (u, v) = (u', v')"
  shows "2 ^ k + unat v' * unat n = unat u' * 2 ^ 64"
proof -
  have "even (unat v * unat n)"
    using assms(2) by (metis dvd_add_right_iff dvd_triv_left dvd_mult even_numeral power_Suc dvd_power zero_less_numeral)
  then have v: "even (unat v)"
    using assms(1) by simp
  then obtain w where w: "unat v = 2 * w"
    by (rule evenE)
  have half: "2 ^ k + w * unat n = unat u * 2 ^ 63"
    using assms(2) by (simp add: w)
  have oddu: "odd (unat u) \<longleftrightarrow> u AND 1 = 1" "even (unat u) \<longleftrightarrow> u AND 1 = 0"
    using odd_unat [of u] by (simp_all add: and_one_eq mod_2_eq_odd)
  have "unat (drop_bit 1 v) = w"
    by (simp add: unat_drop_bit_div w)
  show ?thesis
  proof (cases "odd (unat u)")
    case False
    then obtain x where x: "unat u = 2 * x"
      by (auto elim: evenE)
    have "u' = drop_bit 1 u" and "v' = drop_bit 1 v"
      using assms(3) False oddu by (simp_all add: neg_inv_step_def)
    then have "unat u' = x" and "unat v' = w"
      using \<open>unat (drop_bit 1 v) = w\<close> by (simp_all add: unat_drop_bit_div x)
    with half show ?thesis
      by (simp add: x)
  next
    case True
    then have "0 - (u AND 1) = - 1"
      using oddu by simp
    then have "neg_inv_step n (u, v) = (drop_bit 1 (u XOR n) + (u AND n), drop_bit 1 v + push_bit 63 1)"
      unfolding neg_inv_step_def Let_def prod.case LG_LITTLE_R_def by (simp only: bit.conj_one_right) simp
    then have u': "u' = drop_bit 1 (u XOR n) + (u AND n)" and v': "v' = drop_bit 1 v + push_bit 63 1"
      using assms(3) by simp_all
    have "2 * unat u' = unat u + unat n"
      using True assms(1) unfolding u' dietz by simp
    moreover have "w < 2 ^ 63"
      using unat_u64_less [of v] by (simp add: w)
    then have "unat v' = w + 2 ^ 63"
      using \<open>unat (drop_bit 1 v) = w\<close> unfolding v' unat_add_base by (simp add: bn_base_def)
    ultimately show ?thesis
      using half by (simp add: algebra_simps)
  qed
qed

lemma neg_inv_loop:
  assumes "odd (unat n)" and "i \<le> 64" and "(neg_inv_step n ^^ i) (1, 0) = (u, v)"
  shows "2 ^ (64 - i) + unat v * unat n = unat u * 2 ^ 64"
  using assms(2,3)
proof (induction i arbitrary: u v)
  case (Suc i)
  obtain u' v' where uv: "(neg_inv_step n ^^ i) (1, 0) = (u', v')"
    by fastforce
  have "Suc (64 - Suc i) = 64 - i"
    using Suc.prems(1) by simp
  then have "2 ^ Suc (64 - Suc i) + unat v' * unat n = unat u' * 2 ^ 64"
    using Suc.IH [OF _ uv] Suc.prems(1) by (simp only: Suc_leD)
  then show ?case
    using neg_inv_step_spec [OF assms(1)] Suc.prems(2) by (simp add: uv)
qed simp

lemma neg_inv_spec:
  assumes "odd (unat n)"
  shows "n * bn_neg_inv_mod_r_u64 n = - 1"
proof -
  obtain u v where uv: "(neg_inv_step n ^^ 64) (1, 0) = (u, v)"
    by fastforce
  have "1 + unat v * unat n = unat u * 2 ^ 64"
    using neg_inv_loop [OF assms _ uv] by simp
  then have "(of_nat (1 + unat v * unat n) :: u64) = of_nat (unat u * 2 ^ 64)"
    by simp
  moreover have "(18446744073709551616 :: u64) = 0"
    unfolding word_uint_eq_iff by simp
  ultimately have "1 + v * n = 0"
    by simp
  then show ?thesis
    by (simp add: bn_neg_inv_mod_r_u64_def LG_LITTLE_R_def uv eq_neg_iff_add_eq_0 ac_simps)
qed

section \<open>The reduction\<close>

text \<open>The carry of the sum of three words, as the loop keeps it.\<close>

lemma carry_of_sum:
  fixes c x y :: u64
  assumes "c = 0 \<or> c = 1" and "v = y + (c + x)" and "d = (c OR (if v \<noteq> x then 1 else 0)) AND (if v \<le> x then 1 else 0)"
  shows "unat v + bn_base * unat d = unat y + unat c + unat x" and "d = 0 \<or> d = 1"
proof -
  have d: "d = (if v \<le> x \<and> (c = 1 \<or> v \<noteq> x) then 1 else 0)"
    using assms(1,3) by auto
  then show "d = 0 \<or> d = 1"
    by simp
  have v: "unat v = (unat y + unat c + unat x) mod bn_base"
    by (simp add: assms(2) unat_add_base mod_simps add.assoc)
  have lt: "unat y < bn_base" "unat x < bn_base" "unat c \<le> 1"
    using assms(1) by auto
  show "unat v + bn_base * unat d = unat y + unat c + unat x"
  proof (cases "unat y + unat c + unat x < bn_base")
    case True
    then have *: "unat v = unat y + unat c + unat x"
      by (simp add: v)
    then have "\<not> (v \<le> x \<and> (c = 1 \<or> v \<noteq> x))"
      by (auto simp: word_le_nat_alt word_unat_eq_iff)
    with * show ?thesis
      by (simp add: d)
  next
    case False
    moreover have "unat y + unat c + unat x - bn_base < bn_base"
      using lt by linarith
    ultimately have *: "unat v = unat y + unat c + unat x - bn_base"
      unfolding v by (subst le_mod_geq) simp_all
    then have "unat v \<le> unat x" and "unat v = unat x \<Longrightarrow> unat c \<noteq> 0"
      using lt False by linarith+
    then have "v \<le> x \<and> (c = 1 \<or> v \<noteq> x)"
      using assms(1) by (auto simp: word_le_nat_alt)
    with * False show ?thesis
      by (simp add: d)
  qed
qed

lemma bn_nat_mod: "ws \<noteq> [] \<Longrightarrow> bn_nat ws mod bn_base = unat (ws ! 0)"
  by (cases ws) (simp_all add: mod_simps)

lemma bn_nat_split:
  assumes "n < length ws"
  shows "bn_nat ws = bn_nat (take n ws) + bn_base ^ n * (unat (ws ! n) + bn_base * bn_nat (drop (Suc n) ws))"
proof -
  have "drop n ws = ws ! n # drop (Suc n) ws"
    using assms by (simp add: Cons_nth_drop_Suc)
  then show ?thesis
    using bn_nat_append [of "take n ws" "drop n ws"] assms unfolding append_take_drop_id by simp
qed

lemma mont_rows_spec:
  assumes "mont_rows n num n0 k a c = (a', c')" and "length a = num + k" and "num \<le> length n" and "0 < num"
    and "c = 0 \<or> c = 1" and "n ! 0 * n0 = - 1"
  shows "length a' = length a \<and> take k a' = replicate k 0 \<and> (c' = 0 \<or> c' = 1) \<and>
    (\<exists>M < bn_base ^ k. bn_base ^ k * (bn_nat (drop k a') + bn_base ^ num * unat c') =
      bn_nat a + bn_base ^ num * unat c + bn_nat (take num n) * M)"
  using assms(1,2,5)
proof (induction k arbitrary: a c a' c')
  case (Suc k)
  let ?N = "bn_nat (take num n)"
  define m where "m = a ! 0 * n0"
  obtain row y where row: "bn_mul_add_words (take num a) n num m = (row, y)"
    by fastforce
  define x v d where "x = a ! num" and "v = y + (c + x)"
    and "d = (c OR (if v \<noteq> x then 1 else 0)) AND (if v \<le> x then 1 else 0)"
  define b where "b = tl (row @ v # drop (num + 1) a)"
  obtain b' where rec: "mont_rows n num n0 k b d = (b', c')" and a': "a' = hd (row @ v # drop (num + 1) a) # b'"
    using Suc.prems(1) by (auto simp: row Let_def x_def v_def d_def b_def simp flip: m_def split: prod.splits)
  have row_len: "length row = num" and row_val: "bn_nat row + bn_base ^ num * unat y = bn_nat (take num a) + ?N * unat m"
    using bn_mul_add_words_spec [OF row] Suc.prems(2) assms(3) by auto
  obtain w ws where w: "row = w # ws"
    using row_len assms(4) by (cases row) auto
  note carry = carry_of_sum [OF Suc.prems(3) v_def d_def]
  have b: "b = ws @ v # drop (num + 1) a"
    by (simp add: b_def w)
  have len_b: "length b = num + k"
    using Suc.prems(2) row_len by (simp add: b w)
  obtain M where ih: "length b' = num + k" "take k b' = replicate k 0" "c' = 0 \<or> c' = 1" "M < bn_base ^ k"
    "bn_base ^ k * (bn_nat (drop k b') + bn_base ^ num * unat c') = bn_nat b + bn_base ^ num * unat d + ?N * M"
    using Suc.IH [OF rec len_b carry(2)] len_b by auto
  have low: "unat w = (unat (a ! 0) + unat (n ! 0) * unat m) mod bn_base"
  proof -
    have ne: "take num a \<noteq> []" "take num n \<noteq> []"
      using assms(3,4) Suc.prems(2) by auto
    have B: "bn_base ^ num mod bn_base = 0"
      using assms(4) by (cases num) simp_all
    have "unat w = bn_nat row mod bn_base"
      using bn_nat_mod [of row] by (simp add: w)
    also have "... = (bn_nat row + bn_base ^ num * unat y) mod bn_base"
      using B by (metis add.right_neutral mod_add_right_eq mod_mult_left_eq mult_0 mod_0)
    also have "... = (bn_nat (take num a) mod bn_base + bn_nat (take num n) mod bn_base * unat m) mod bn_base"
      unfolding row_val by (intro mod_add_cong) (simp_all add: mod_mult_left_eq)
    finally show ?thesis
      using ne assms(4) by (simp add: bn_nat_mod)
  qed
  have "a ! 0 + n ! 0 * m = a ! 0 + (n ! 0 * n0) * a ! 0"
    by (simp add: m_def ac_simps)
  then have "unat (a ! 0 + n ! 0 * m) = 0"
    by (simp add: assms(6))
  then have w0: "w = 0"
    using low by (simp add: unat_add_base unat_word_ariths mod_simps bn_base_def flip: unat_eq_0)
  have a: "bn_nat a = bn_nat (take num a) + bn_base ^ num * (unat x + bn_base * bn_nat (drop (num + 1) a))"
    using bn_nat_split [of num a] Suc.prems(2) by (simp add: x_def)
  have pow: "bn_base * bn_base ^ length ws = bn_base ^ num"
    using row_len by (simp add: w flip: power_Suc)
  have "bn_base * (bn_nat b + bn_base ^ num * unat d) =
      bn_base * bn_nat ws + bn_base ^ num * (unat v + bn_base * unat d) + bn_base ^ num * (bn_base * bn_nat (drop (num + 1) a))"
    unfolding b bn_nat_append pow [symmetric] by (simp add: algebra_simps)
  also have "... = (bn_base * bn_nat ws + bn_base ^ num * unat y) + bn_base ^ num * unat c +
      bn_base ^ num * (unat x + bn_base * bn_nat (drop (num + 1) a))"
    unfolding carry(1) by (simp add: algebra_simps)
  also have "bn_base * bn_nat ws + bn_base ^ num * unat y = bn_nat (take num a) + ?N * unat m"
    using row_val by (simp add: w w0)
  finally have step: "bn_base * (bn_nat b + bn_base ^ num * unat d) = bn_nat a + bn_base ^ num * unat c + ?N * unat m"
    by (simp add: a)
  have "bn_base ^ Suc k * (bn_nat (drop k b') + bn_base ^ num * unat c') =
      bn_base * (bn_nat b + bn_base ^ num * unat d) + ?N * (bn_base * M)"
    using arg_cong [OF ih(5), of "(*) bn_base"] by (simp add: algebra_simps)
  then have "bn_base ^ Suc k * (bn_nat (drop k b') + bn_base ^ num * unat c') =
      bn_nat a + bn_base ^ num * unat c + ?N * (unat m + bn_base * M)"
    unfolding step by (simp add: algebra_simps)
  moreover have "bn_base * (M + 1) \<le> bn_base * bn_base ^ k"
    using ih(4) by (intro mult_le_mono2) simp
  then have "unat m + bn_base * M < bn_base ^ Suc k"
    using unat_bn_base [of m] by (simp del: unat_bn_base)
  ultimately show ?case
    using ih(1-3) Suc.prems(2) by (intro conjI exI [of _ "unat m + bn_base * M"]) (simp_all add: a' w w0)
qed simp

text \<open>
  What the functions need of a context: an odd modulus \<open>N\<close> without leading zeros, the negative inverse of its
  lowest word and the square of \<open>R\<close>, the power of the base the modulus is reduced by.
\<close>

definition mont_n :: "bn_mont_ctx \<Rightarrow> nat" where
  "mont_n m = bn_abs (mont_N m)"

definition mont_num :: "bn_mont_ctx \<Rightarrow> nat" where
  "mont_num m = bn_top (mont_N m)"

definition mont_R :: "bn_mont_ctx \<Rightarrow> nat" where
  "mont_R m = bn_base ^ mont_num m"

definition mont_wf :: "bn_mont_ctx \<Rightarrow> bool" where
  "mont_wf m \<longleftrightarrow> bn_wf (mont_N m) \<and> \<not> bn_neg (mont_N m) \<and> 0 < mont_num m \<and> bn_d (mont_N m) ! 0 * mont_n0 m = - 1 \<and>
     bn_wf (mont_RR m) \<and> bn_abs (mont_RR m) = mont_R m ^ 2 mod mont_n m"

lemma mont_wf_words:
  assumes "mont_wf m"
  shows "mont_num m \<le> length (bn_d (mont_N m))" and "mont_n m = bn_nat (take (mont_num m) (bn_d (mont_N m)))"
    and "0 < mont_num m" and "0 < mont_n m" and "mont_n m < mont_R m"
  using assms bn_abs_pos [of "mont_N m"] bn_abs_less [of "mont_N m"]
  by (simp_all add: mont_wf_def bn_wf_def bn_fits_def mont_n_def mont_num_def mont_R_def bn_abs_def bn_words_def)

lemma odd_product_word:
  fixes x y :: u64
  assumes "x * y = - 1"
  shows "odd (unat x)"
proof
  assume "even (unat x)"
  then have "even (unat x * unat y mod bn_base)"
    by (simp add: bn_base_def dvd_mod)
  moreover have "unat x * unat y mod bn_base = unat (- 1 :: u64)"
    using arg_cong [OF assms, of unat] by (simp add: unat_word_ariths bn_base_def)
  ultimately show False
    by (simp add: unsigned_minus_1_eq_mask mask_eq_exp_minus_1)
qed

lemma mont_odd: "mont_wf m \<Longrightarrow> odd (mont_n m)"
proof -
  assume m: "mont_wf m"
  note w = mont_wf_words [OF m]
  have "mont_n m mod bn_base = unat (bn_d (mont_N m) ! 0)"
    using w(1,3) unfolding w(2) by (subst bn_nat_mod) auto
  moreover have "odd (unat (bn_d (mont_N m) ! 0))"
    using m by (intro odd_product_word) (auto simp: mont_wf_def)
  moreover have "even (mont_n m) \<Longrightarrow> even (mont_n m mod bn_base)"
    by (simp add: bn_base_def dvd_mod)
  ultimately show ?thesis
    by auto
qed

lemma map2_select:
  assumes "length a = length b"
  shows "map2 (constant_time_select_w (if c then - 1 else 0)) a b = (if c then a else b)"
  using assms by (induction a b rule: list_induct2) (simp_all add: select_w_eq)

text \<open>
  The numbers are \<open>t\<close> and \<open>carry\<close> above it; the modulus is subtracted when it fits, and the masks select one or the other.
\<close>

lemma final_subtraction:
  assumes "length a = num" and "num \<le> length n" and "carry = 0 \<or> carry = 1"
    and "bn_nat a + bn_base ^ num * unat carry < 2 * bn_nat (take num n)"
    and "bn_sub_words a n num = (r, borrow)"
  shows "length r = num \<and> (let x = map2 (constant_time_select_w (0 - (borrow - carry))) a r in
    length x = num \<and> bn_nat x < bn_nat (take num n) \<and>
    (bn_nat x = bn_nat a + bn_base ^ num * unat carry \<or> bn_nat x + bn_nat (take num n) = bn_nat a + bn_base ^ num * unat carry))"
proof -
  let ?N = "bn_nat (take num n)" and ?B = "bn_base ^ num"
  note sub = bn_sub_words_spec [OF assms(5)]
  have r: "borrow = 0 \<or> borrow = 1" "length r = num" "bn_nat r + ?N = bn_nat a + ?B * unat borrow"
    using sub assms(1,2) by auto
  have lt: "bn_nat a < ?B" "bn_nat r < ?B" "?N < ?B"
    using bn_nat_less [of a] bn_nat_less [of r] bn_nat_take_less [of num n] assms(1) r(2) by simp_all
  have "\<not> (borrow = 0 \<and> carry = 1)"
    using r(3) lt assms(4) by auto
  then consider "borrow = carry" | "borrow = 1" "carry = 0"
    using r(1) assms(3) by auto
  then show ?thesis
  proof cases
    case 1
    then have "map2 (constant_time_select_w (0 - (borrow - carry))) a r = r"
      using map2_select [of a r False] assms(1) r(2) by simp
    with 1 r assms(4) show ?thesis
      by (simp add: Let_def)
  next
    case 2
    then have "map2 (constant_time_select_w (0 - (borrow - carry))) a r = a"
      using map2_select [of a r True] assms(1) r(2) by simp
    with 2 r lt assms(1) show ?thesis
      by (simp add: Let_def)
  qed
qed

lemma in_place_spec:
  assumes "mont_wf m" and "length a = 2 * mont_num m" and "bn_nat a < mont_n m * mont_R m"
  obtains r where "bn_from_montgomery_in_place (mont_num m) a (2 * mont_num m) m = Some (r, replicate (2 * mont_num m) 0)"
    and "length r = mont_num m" and "bn_nat r < mont_n m" and "(mont_R m * bn_nat r) mod mont_n m = bn_nat a mod mont_n m"
proof -
  note w = mont_wf_words [OF assms(1)]
  let ?n = "bn_d (mont_N m)" and ?k = "mont_num m" and ?N = "mont_n m" and ?R = "mont_R m"
  obtain a' c where rows: "mont_rows ?n ?k (mont_n0 m) ?k a 0 = (a', c)"
    by fastforce
  have n0: "?n ! 0 * mont_n0 m = - 1"
    using assms(1) by (simp add: mont_wf_def)
  obtain M where a': "length a' = 2 * ?k" "take ?k a' = replicate ?k 0" "c = 0 \<or> c = 1" "M < ?R"
    "?R * (bn_nat (drop ?k a') + ?R * unat c) = bn_nat a + ?N * M"
    using mont_rows_spec [OF rows _ w(1,3) _ n0] assms(2) by (auto simp: mont_R_def simp flip: w(2))
  define t where "t = bn_nat (drop ?k a') + ?R * unat c"
  have t: "?R * t = bn_nat a + ?N * M"
    using a'(5) by (simp only: t_def)
  have "?N * M < ?N * ?R"
    using a'(4) w(4) by simp
  moreover have "?R * (2 * ?N) = ?N * ?R + ?N * ?R"
    by simp
  ultimately have "?R * t < ?R * (2 * ?N)"
    using t assms(3) by linarith
  then have t2: "t < 2 * ?N"
    by simp
  obtain r borrow where sub: "bn_sub_words (drop ?k a') ?n ?k = (r, borrow)"
    by fastforce
  define x where "x = map2 (constant_time_select_w (0 - (borrow - c))) (drop ?k a') r"
  have x: "length x = ?k" "bn_nat x < ?N" "bn_nat x = t \<or> bn_nat x + ?N = t"
    using final_subtraction [OF _ w(1) a'(3) _ sub] a'(1) t2
    by (simp_all add: Let_def x_def t_def mont_R_def flip: w(2))
  have "(?R * bn_nat x) mod ?N = (?R * t) mod ?N"
  proof (cases "bn_nat x = t")
    case False
    then have "t = bn_nat x + ?N"
      using x(3) by simp
    then show ?thesis
      by (simp add: distrib_left)
  qed simp
  then have "(?R * bn_nat x) mod ?N = bn_nat a mod ?N"
    unfolding t by simp
  moreover have "bn_from_montgomery_in_place ?k a (2 * ?k) m = Some (x, replicate (2 * ?k) 0)"
    using a'(2) by (simp add: bn_from_montgomery_in_place_def Let_def mont_num_def [symmetric] rows sub x_def mult_2 replicate_add)
  ultimately show thesis
    using that x by blast
qed

text \<open>The factor \<open>R\<close> can be cancelled modulo \<open>N\<close>.\<close>

lemma mont_coprime: "mont_wf m \<Longrightarrow> coprime (mont_R m) (mont_n m)"
proof -
  assume "mont_wf m"
  moreover have "mont_R m = 2 ^ (64 * mont_num m)"
    unfolding mont_R_def bn_base_def power_mult ..
  ultimately show ?thesis
    using mont_odd by (simp add: coprime_power_left_iff)
qed

lemma mod_cancel:
  fixes R N x y :: nat
  assumes "coprime R N" and "(R * x) mod N = (R * y) mod N"
  shows "x mod N = y mod N"
proof -
  have "(int R * int x) mod int N = (int R * int y) mod int N"
    using assms(2) by (metis of_nat_mod of_nat_mult)
  then have "int N dvd int R * (int x - int y)"
    unfolding mod_eq_dvd_iff right_diff_distrib .
  moreover have "coprime (int N) (int R)"
    using assms(1) by (simp add: coprime_commute)
  ultimately have "int N dvd int x - int y"
    by (simp add: coprime_dvd_mult_right_iff)
  then have "int x mod int N = int y mod int N"
    unfolding mod_eq_dvd_iff .
  then show ?thesis
    by (metis of_nat_eq_iff of_nat_mod)
qed

text \<open>The representation of \<open>z\<close> in the domain of Montgomery's: \<open>z R\<close> modulo \<open>N\<close>, in as many words as the modulus has.\<close>

definition mont_rep :: "bn_mont_ctx \<Rightarrow> nat \<Rightarrow> u64 list \<Rightarrow> bool" where
  "mont_rep m z x \<longleftrightarrow> length x = mont_num m \<and> bn_nat x = z * mont_R m mod mont_n m"

lemma mont_rep_less: "mont_wf m \<Longrightarrow> mont_rep m z x \<Longrightarrow> bn_nat x < mont_n m"
  using mont_wf_words(4) by (simp add: mont_rep_def)

lemma from_montgomery_small_spec:
  assumes "mont_wf m" and "mont_num m \<le> BN_SMALL_MAX_WORDS" and "num_a \<le> length a" and "num_a \<le> 2 * mont_num m"
    and "bn_nat (take num_a a) < mont_n m * mont_R m"
  obtains r where "bn_from_montgomery_small (mont_num m) a num_a m = Some r"
    and "length r = mont_num m" and "bn_nat r < mont_n m"
    and "(mont_R m * bn_nat r) mod mont_n m = bn_nat (take num_a a) mod mont_n m"
proof -
  let ?a = "take num_a a @ replicate (2 * mont_num m - num_a) 0"
  have "length ?a = 2 * mont_num m" and "bn_nat ?a = bn_nat (take num_a a)"
    using assms(3,4) by (simp_all add: bn_nat_append)
  from in_place_spec [OF assms(1) this(1), unfolded this(2), OF assms(5)] show thesis
    using that assms(2,4) by (auto simp: bn_from_montgomery_small_def Let_def mont_num_def [symmetric])
qed

lemma mod_mul_montgomery_small_spec:
  assumes "mont_wf m" and "mont_num m \<le> BN_SMALL_MAX_WORDS" and "num_a \<le> length a" and "num_b \<le> length b"
    and "num_a + num_b \<le> 2 * mont_num m" and "same \<Longrightarrow> num_a = num_b \<Longrightarrow> take num_a a = take num_b b"
    and "bn_nat (take num_a a) * bn_nat (take num_b b) < mont_n m * mont_R m"
  obtains r where "bn_mod_mul_montgomery_small same (mont_num m) a num_a b num_b m = Some r"
    and "length r = mont_num m" and "bn_nat r < mont_n m"
    and "(mont_R m * bn_nat r) mod mont_n m = (bn_nat (take num_a a) * bn_nat (take num_b b)) mod mont_n m"
proof -
  obtain tmp where tmp: "(if same \<and> num_a = num_b then bn_sqr_small (num_a + num_b) a num_a
      else bn_mul_small (num_a + num_b) a num_a b num_b) = Some tmp"
    "bn_nat tmp = bn_nat (take num_a a) * bn_nat (take num_b b)" "length tmp = num_a + num_b"
  proof (cases "same \<and> num_a = num_b")
    case True
    moreover have "num_a \<le> BN_SMALL_MAX_WORDS"
      using True assms(2,5) by simp
    ultimately show ?thesis
      using that bn_sqr_small_spec [OF assms(3)] assms(6) by (metis mult_2)
  next
    case False
    obtain r where "bn_mul_small (num_a + num_b) a num_a b num_b = Some r"
      and "bn_nat r = bn_nat (take num_a a) * bn_nat (take num_b b)" and "length r = num_a + num_b"
      by (rule bn_mul_small_spec [OF assms(3,4)])
    with False show ?thesis
      by (intro that [of r]) (simp_all only: if_False)
  qed
  let ?a = "tmp @ replicate (2 * mont_num m - (num_a + num_b)) 0"
  have "length ?a = 2 * mont_num m" and "bn_nat ?a = bn_nat (take num_a a) * bn_nat (take num_b b)"
    using assms(5) tmp(2,3) by (simp_all add: bn_nat_append)
  from in_place_spec [OF assms(1) this(1), unfolded this(2), OF assms(7)] obtain r
    where r: "bn_from_montgomery_in_place (mont_num m) ?a (2 * mont_num m) m = Some (r, replicate (2 * mont_num m) 0)"
      "length r = mont_num m" "bn_nat r < mont_n m"
      "(mont_R m * bn_nat r) mod mont_n m = (bn_nat (take num_a a) * bn_nat (take num_b b)) mod mont_n m"
    by blast
  have "bn_mod_mul_montgomery_small same (mont_num m) a num_a b num_b m = Some r"
    unfolding bn_mod_mul_montgomery_small_def Let_def mont_num_def [symmetric] tmp(1)
    using assms(2,5) r(1) by simp
  then show thesis
    using that r(2-4) by blast
qed

text \<open>The product, and the change of the domain, of representations.\<close>

lemma mont_rep_product:
  assumes "mont_wf m" and "length r = mont_num m" and "bn_nat r < mont_n m"
    and "(mont_R m * bn_nat r) mod mont_n m = (mont_R m * (z * mont_R m)) mod mont_n m"
  shows "mont_rep m z r"
  using mod_cancel [OF mont_coprime [OF assms(1)] assms(4)] assms(2,3) by (simp add: mont_rep_def)

lemma mul_rep:
  assumes "mont_wf m" and "mont_num m \<le> BN_SMALL_MAX_WORDS" and "mont_rep m x a" and "mont_rep m y b"
    and "same \<Longrightarrow> a = b"
  obtains r where "bn_mod_mul_montgomery_small same (mont_num m) a (mont_num m) b (mont_num m) m = Some r"
    and "mont_rep m (x * y) r"
proof -
  let ?N = "mont_n m" and ?R = "mont_R m"
  have len: "length a = mont_num m" "length b = mont_num m" and lt: "bn_nat a < ?N" "bn_nat b < ?N"
    using assms(3,4) mont_rep_less [OF assms(1)] by (auto simp: mont_rep_def)
  have "bn_nat a * bn_nat b \<le> bn_nat a * ?N"
    using lt by (intro mult_le_mono2) simp
  also have "... < ?N * ?R"
    using lt(1) mont_wf_words(4,5) [OF assms(1)] by (simp add: mult.commute)
  finally obtain r where r: "bn_mod_mul_montgomery_small same (mont_num m) a (mont_num m) b (mont_num m) m = Some r"
    "length r = mont_num m" "bn_nat r < ?N" "(?R * bn_nat r) mod ?N = (bn_nat a * bn_nat b) mod ?N"
    using mod_mul_montgomery_small_spec [OF assms(1,2), of "mont_num m" a "mont_num m" b same] len assms(5) by auto
  have "(bn_nat a * bn_nat b) mod ?N = (x * ?R * (y * ?R)) mod ?N"
    using assms(3,4) by (simp add: mont_rep_def mod_mult_eq)
  also have "x * ?R * (y * ?R) = ?R * (x * y * ?R)"
    by (simp add: ac_simps)
  finally have "mont_rep m (x * y) r"
    using r by (intro mont_rep_product [OF assms(1)]) simp_all
  with r(1) show thesis
    using that by blast
qed

text \<open>The square of \<open>R\<close> in its words, which are no more than those of the modulus.\<close>

lemma mont_RR_words:
  assumes "mont_wf m"
  shows "bn_top (mont_RR m) \<le> mont_num m" and "bn_top (mont_RR m) \<le> length (bn_d (mont_RR m))"
    and "bn_nat (take (bn_top (mont_RR m)) (bn_d (mont_RR m))) = mont_R m ^ 2 mod mont_n m"
    and "mont_R m ^ 2 mod mont_n m < mont_n m"
proof -
  have RR: "bn_wf (mont_RR m)" "bn_abs (mont_RR m) = mont_R m ^ 2 mod mont_n m"
    using assms by (auto simp: mont_wf_def)
  show lt: "mont_R m ^ 2 mod mont_n m < mont_n m"
    using mont_wf_words(4) [OF assms] by simp
  show "bn_top (mont_RR m) \<le> mont_num m"
    using bn_top_less [of "mont_N m" "mont_RR m"] assms lt RR
    by (fastforce simp: mont_wf_def mont_n_def mont_num_def)
  show "bn_top (mont_RR m) \<le> length (bn_d (mont_RR m))"
    using RR(1) by (simp add: bn_wf_def bn_fits_def)
  show "bn_nat (take (bn_top (mont_RR m)) (bn_d (mont_RR m))) = mont_R m ^ 2 mod mont_n m"
    using RR(2) by (simp add: bn_abs_def bn_words_def)
qed

lemma to_montgomery_spec:
  assumes "mont_wf m" and "mont_num m \<le> BN_SMALL_MAX_WORDS" and "length a = mont_num m" and "bn_nat a < mont_n m"
  obtains x where "bn_to_montgomery_small (mont_num m) a (mont_num m) m = Some x" and "mont_rep m (bn_nat a) x"
proof -
  note w = mont_wf_words [OF assms(1)] and RR = mont_RR_words [OF assms(1)]
  let ?N = "mont_n m" and ?R = "mont_R m" and ?k = "mont_num m"
  have "bn_nat a * (?R ^ 2 mod ?N) \<le> bn_nat a * ?N"
    using RR(4) by (intro mult_le_mono2) simp
  also have "... < ?N * ?R"
    using assms(4) w(4,5) by (simp add: mult.commute)
  finally have lt: "bn_nat (take ?k a) * (?R ^ 2 mod ?N) < ?N * ?R"
    using assms(3) by simp
  have len: "?k + bn_top (mont_RR m) \<le> 2 * ?k" "?k \<le> length a"
    using RR(1) assms(3) by simp_all
  from mod_mul_montgomery_small_spec [OF assms(1,2) len(2) RR(2) len(1), unfolded RR(3), OF _ lt, of False]
  obtain x where x: "bn_mod_mul_montgomery_small False ?k a ?k (bn_d (mont_RR m)) (bn_top (mont_RR m)) m = Some x"
    "length x = ?k" "bn_nat x < ?N" "(?R * bn_nat x) mod ?N = (bn_nat (take ?k a) * (?R ^ 2 mod ?N)) mod ?N"
    by auto
  have "(bn_nat (take ?k a) * (?R ^ 2 mod ?N)) mod ?N = (?R * (bn_nat a * ?R)) mod ?N"
    using assms(3) by (simp add: mod_mult_right_eq power2_eq_square ac_simps)
  with x have "mont_rep m (bn_nat a) x"
    by (intro mont_rep_product [OF assms(1)]) simp_all
  with x(1) show thesis
    using that by (simp add: bn_to_montgomery_small_def)
qed

lemma from_montgomery_rep:
  assumes "mont_wf m" and "mont_num m \<le> BN_SMALL_MAX_WORDS" and "mont_rep m z x"
  obtains r where "bn_from_montgomery_small (mont_num m) x (mont_num m) m = Some r"
    and "length r = mont_num m" and "bn_nat r = z mod mont_n m"
proof -
  note w = mont_wf_words [OF assms(1)]
  let ?N = "mont_n m" and ?R = "mont_R m" and ?k = "mont_num m"
  have x: "length x = ?k" "bn_nat x = z * ?R mod ?N"
    using assms(3) by (simp_all add: mont_rep_def)
  have "?N * 1 \<le> ?N * ?R"
    using w(5) by (intro mult_le_mono2) simp
  moreover have "z * ?R mod ?N < ?N"
    using w(4) by simp
  ultimately have "z * ?R mod ?N < ?N * ?R"
    by linarith
  then have "bn_nat (take ?k x) < ?N * ?R" "?k \<le> length x" "?k \<le> 2 * ?k"
    using x by simp_all
  from from_montgomery_small_spec [OF assms(1,2) this(2,3,1)] obtain r
    where r: "bn_from_montgomery_small ?k x ?k m = Some r" "length r = ?k" "bn_nat r < ?N"
      "(?R * bn_nat r) mod ?N = bn_nat (take ?k x) mod ?N"
    by auto
  have "(?R * bn_nat r) mod ?N = (?R * z) mod ?N"
    using r(4) x by (simp add: mult.commute)
  then have "bn_nat r mod ?N = z mod ?N"
    by (rule mod_cancel [OF mont_coprime [OF assms(1)]])
  with r show thesis
    using that by simp
qed

section \<open>Properties\<close>

text \<open>A context for the modulus 7.\<close>

definition demo_mont :: bn_mont_ctx where
  "demo_mont = \<lparr>mont_RR = \<lparr>bn_d = [4], bn_top = 1, bn_neg = False, bn_static = False, bn_malloced = True\<rparr>,
     mont_N = \<lparr>bn_d = [7], bn_top = 1, bn_neg = False, bn_static = False, bn_malloced = True\<rparr>,
     mont_n0 = 10540996613548315209\<rparr>"

lemma demo_mont: "mont_wf demo_mont" "mont_num demo_mont = 1" "mont_n demo_mont = 7" "mont_R demo_mont mod 7 = 2"
proof -
  show k: "mont_num demo_mont = 1" and n: "mont_n demo_mont = 7" and "mont_R demo_mont mod 7 = 2"
    by (simp_all add: mont_num_def mont_n_def mont_R_def demo_mont_def bn_abs_def bn_words_def bn_base_def)
  have "(7 :: u64) * 10540996613548315209 = - 1"
    by simp
  moreover have "mont_R demo_mont ^ 2 mod 7 = 4"
    by (simp add: mont_R_def k bn_base_def)
  ultimately show "mont_wf demo_mont"
    unfolding mont_wf_def k n
    by (simp add: demo_mont_def bn_wf_def bn_fits_def bn_abs_def bn_words_def)
qed

text \<open>
  C9: the loop that computes the inverse of a word keeps the equation its assertions state, after every number of iterations,
  without overflow; so it ends with the negative inverse modulo \<open>2^64\<close>.
\<close>

theorem negative_inverse_invariant:
  assumes "odd (unat n)" and "i \<le> 64"
  shows "(let (u, v) = (neg_inv_step n ^^ i) (1, 0) in 2 ^ (64 - i) + unat v * unat n = unat u * 2 ^ 64) \<and>
    n * bn_neg_inv_mod_r_u64 n = - 1"
  using neg_inv_loop [OF assms] neg_inv_spec [OF assms(1)] by (auto split: prod.splits)

theorem negative_inverse_invariant_witness:
  "(let (u, v) = (neg_inv_step 7 ^^ 40) (1, 0) in 2 ^ (64 - 40) + unat v * unat (7 :: u64) = unat u * 2 ^ 64) \<and>
    7 * bn_neg_inv_mod_r_u64 7 = - 1"
  by (rule negative_inverse_invariant) simp_all

text \<open>
  C6: multiplication in the domain of Montgomery's. Of the representations of \<open>x\<close> and \<open>y\<close>, whether they are the same
  array or not, the function returns that of \<open>x y\<close>; its products are those of the column-wise functions for 4
  and 8 words and of the general ones.
\<close>

theorem montgomery_product:
  assumes "mont_wf m" and "mont_num m \<le> BN_SMALL_MAX_WORDS" and "mont_rep m x a" and "mont_rep m y b"
    and "same \<Longrightarrow> a = b"
  shows "\<exists>r. bn_mod_mul_montgomery_small same (mont_num m) a (mont_num m) b (mont_num m) m = Some r \<and>
    mont_rep m (x * y) r"
proof -
  obtain r where "bn_mod_mul_montgomery_small same (mont_num m) a (mont_num m) b (mont_num m) m = Some r"
    and "mont_rep m (x * y) r"
    by (rule mul_rep [OF assms(1-4), of same]) (rule assms(5))
  then show ?thesis
    by blast
qed

theorem montgomery_product_witness:
  "\<exists>r. bn_mod_mul_montgomery_small False 1 [6] 1 [2] 1 demo_mont = Some r \<and> mont_rep demo_mont (3 * 1) r"
  using montgomery_product [of demo_mont 3 "[6]" 1 "[2]" False] demo_mont
  by (simp add: BN_SMALL_MAX_WORDS_def mont_rep_def mod_simps mod_mult_right_eq [of 3 "mont_R demo_mont" 7, symmetric])

text \<open>
  a reduced number is taken to its representation and back to its own words.
\<close>

theorem montgomery_round_trip:
  assumes "mont_wf m" and "mont_num m \<le> BN_SMALL_MAX_WORDS" and "length a = mont_num m" and "bn_nat a < mont_n m"
  shows "\<exists>x. bn_to_montgomery_small (mont_num m) a (mont_num m) m = Some x \<and> mont_rep m (bn_nat a) x \<and>
    bn_from_montgomery_small (mont_num m) x (mont_num m) m = Some a"
proof -
  obtain x where x: "bn_to_montgomery_small (mont_num m) a (mont_num m) m = Some x" "mont_rep m (bn_nat a) x"
    by (rule to_montgomery_spec [OF assms])
  obtain r where r: "bn_from_montgomery_small (mont_num m) x (mont_num m) m = Some r" "length r = mont_num m"
    "bn_nat r = bn_nat a mod mont_n m"
    by (rule from_montgomery_rep [OF assms(1,2) x(2)])
  have "r = a"
    using r(2,3) assms(3,4) by (intro bn_nat_inj) simp_all
  with x r(1) show ?thesis
    by blast
qed

theorem montgomery_round_trip_witness:
  "\<exists>x. bn_to_montgomery_small 1 [5] 1 demo_mont = Some x \<and> mont_rep demo_mont 5 x \<and>
    bn_from_montgomery_small 1 x 1 demo_mont = Some [5]"
  using montgomery_round_trip [of demo_mont "[5]"] demo_mont by (simp add: BN_SMALL_MAX_WORDS_def)

end
