(* ===== verification/Bn_Bits.thy ===== *)
theory Bn_Bits
  imports Bn_Shift
begin

text \<open>
  The shifts, and the operations on single bits, of \<open>shift.c\<close>: on the integers they are multiplications by powers of
  two, divisions that round towards zero, and the setting, clearing, testing and masking of bits of the absolute value.
\<close>

unbundle bit_operations_syntax

section \<open>Shifts of words\<close>

lemma or_low:
  fixes a x :: nat
  assumes "2 ^ k dvd a" and "x < 2 ^ k"
  shows "a OR x = a + x"
proof -
  obtain q where "a = 2 ^ k * q"
    using assms(1) by (rule dvdE)
  then have a: "a = push_bit k q"
    by (simp add: push_bit_eq_mult mult.commute)
  have x: "x = take_bit k x"
    using assms(2) by (simp add: take_bit_nat_eq_self)
  have "a AND x = 0"
    by (subst x) (auto simp: a bit_eq_iff bit_simps)
  then show ?thesis
    by (simp add: disjunctive_add_eq_or)
qed

lemma word_halves: "x mod 2 ^ k * 2 ^ (64 - k) + bn_base * (x div 2 ^ k) = x * 2 ^ (64 - k)" if "k \<le> 64"
proof -
  have B: "bn_base = 2 ^ (64 - k) * 2 ^ k"
    using that by (simp add: bn_base_def flip: power_add)
  have "x mod 2 ^ k * 2 ^ (64 - k) + bn_base * (x div 2 ^ k) = (x div 2 ^ k * 2 ^ k + x mod 2 ^ k) * 2 ^ (64 - k)"
    unfolding B by (simp only: distrib_left distrib_right mult_ac add_ac)
  then show ?thesis
    unfolding div_mult_mod_eq .
qed

lemma unat_push_bit_u64:
  assumes "k \<le> 64"
  shows "unat (push_bit k l :: u64) = unat l mod 2 ^ (64 - k) * 2 ^ k"
proof -
  have "unat (push_bit k l) = take_bit 64 (push_bit k (unat l))"
    unfolding unsigned_push_bit_eq by simp
  also have "... = push_bit k (take_bit (64 - k) (unat l))"
    using assms by (simp add: take_bit_push_bit)
  finally show ?thesis
    unfolding push_bit_eq_mult take_bit_eq_mod .
qed

lemma shift_word:
  assumes "k \<le> 64"
  shows "unat (push_bit k l :: u64) + bn_base * unat (drop_bit (64 - k) l) = unat l * 2 ^ k"
  using word_halves [of "64 - k" "unat l"] assms unfolding unat_push_bit_u64 [OF assms] unat_drop_bit_div by simp

lemma drop_bit_less: "k \<le> 64 \<Longrightarrow> unat (drop_bit (64 - k) l :: u64) < 2 ^ k"
  using unat_u64_less [of l] unfolding unat_drop_bit_div
  by (simp add: less_mult_imp_div_less flip: power_add)

lemma lshift_down_spec:
  assumes "lb < 64" and "2 ^ lb dvd unat acc"
  shows "length (lshift_down lb (rev f) acc) = length f + 1 \<and>
    bn_nat (rev (lshift_down lb (rev f) acc)) = bn_nat f * 2 ^ lb + bn_base ^ length f * unat acc"
  using assms(2)
proof (induction f arbitrary: acc rule: rev_induct)
  case (snoc l f)
  have lb: "lb \<le> 64"
    using assms(1) by simp
  have "2 ^ lb dvd unat (push_bit lb l)"
    unfolding unat_push_bit_u64 [OF lb] by simp
  note ih = snoc.IH [OF this]
  have "unat (acc OR drop_bit (64 - lb) l) = unat acc + unat (drop_bit (64 - lb) l)"
    unfolding unsigned_or_eq by (rule or_low [OF snoc.prems drop_bit_less [OF lb]])
  then have "bn_nat (rev (lshift_down lb (rev (f @ [l])) acc)) =
      bn_nat f * 2 ^ lb + bn_base ^ length f * (unat (push_bit lb l) + bn_base * unat (drop_bit (64 - lb) l)) +
      bn_base ^ length (f @ [l]) * unat acc"
    using ih by (simp add: bn_nat_append BN_BITS2_def algebra_simps)
  then show ?case
    unfolding shift_word [OF lb] using ih by (simp add: bn_nat_append algebra_simps)
qed simp

lemma lshift1_loop_spec:
  assumes "lshift1_loop ap c = (rp, c')" and "c = 0 \<or> c = 1"
  shows "(c' = 0 \<or> c' = 1) \<and> length rp = length ap \<and> bn_nat rp + bn_base ^ length ap * unat c' = 2 * bn_nat ap + unat c"
  using assms
proof (induction ap arbitrary: c rp c')
  case (Cons t ap)
  define d where "d = drop_bit 63 t"
  obtain rp1 where l: "lshift1_loop ap d = (rp1, c')" and rp: "rp = (push_bit 1 t OR c) # rp1"
    using Cons.prems(1) by (auto simp: BN_BITS2_def d_def split: prod.splits)
  have "unat d < 2 ^ 1"
    using drop_bit_less [of 1 t] by (simp add: d_def)
  then have "unat d = 0 \<or> unat d = 1"
    by auto
  then have d: "d = 0 \<or> d = 1"
    by (simp add: word_unat_eq_iff)
  have "2 ^ 1 dvd unat (push_bit 1 t)"
    by (subst unat_push_bit_u64) simp_all
  moreover have "unat c < 2 ^ 1"
    using Cons.prems(2) by auto
  ultimately have w1: "unat (push_bit 1 t OR c) = unat (push_bit 1 t) + unat c"
    unfolding unsigned_or_eq by (rule or_low)
  have w2: "unat (push_bit 1 t) + bn_base * unat d = 2 * unat t"
    using shift_word [of 1 t] by (simp add: d_def)
  note ih = Cons.IH [OF l d]
  have "bn_nat rp + bn_base ^ length (t # ap) * unat c' =
      unat (push_bit 1 t OR c) + bn_base * (bn_nat rp1 + bn_base ^ length ap * unat c')"
    by (simp add: rp algebra_simps)
  also have "bn_nat rp1 + bn_base ^ length ap * unat c' = 2 * bn_nat ap + unat d"
    using ih by simp
  finally have "bn_nat rp + bn_base ^ length (t # ap) * unat c' =
      unat (push_bit 1 t OR c) + bn_base * unat d + bn_base * (2 * bn_nat ap)"
    by (simp only: distrib_left ac_simps)
  then have "bn_nat rp + bn_base ^ length (t # ap) * unat c' = 2 * unat t + unat c + bn_base * (2 * bn_nat ap)"
    unfolding w1 w2 [symmetric] by simp
  with ih show ?case
    by (simp add: rp)
qed auto

lemma rshift_loop_spec:
  assumes "0 < rb" and "rb < 64"
  shows "bn_nat (rshift_loop rb l f) = bn_nat (l # f) div 2 ^ rb"
proof (induction f arbitrary: l)
  case Nil
  then show ?case
    by (simp add: unat_drop_bit_div) (metis unat_drop_bit_div unsigned_0)
next
  case (Cons l' f)
  let ?Y = "bn_nat (l' # f)"
  have B: "bn_base = 2 ^ rb * 2 ^ (64 - rb)"
    using assms by (simp add: bn_base_def flip: power_add)
  have "unat (push_bit (64 - rb) l') = unat l' mod 2 ^ rb * 2 ^ (64 - rb)"
    using assms by (simp add: unat_push_bit_u64)
  moreover have "?Y mod 2 ^ rb = unat l' mod 2 ^ rb"
    by (simp add: B mult.assoc)
  ultimately have p: "unat (push_bit (64 - rb) l') = ?Y mod 2 ^ rb * 2 ^ (64 - rb)"
    by simp
  have "unat (push_bit (64 - rb) l' OR drop_bit rb l) = unat (push_bit (64 - rb) l') + unat (drop_bit rb l)"
    unfolding unsigned_or_eq using drop_bit_less [of "64 - rb" l] assms by (intro or_low [of "64 - rb"]) (simp_all add: p)
  then have w: "unat (drop_bit rb l OR push_bit (64 - rb) l') = ?Y mod 2 ^ rb * 2 ^ (64 - rb) + unat l div 2 ^ rb"
    unfolding p unat_drop_bit_div by (simp only: or.commute)
  have "bn_nat (rshift_loop rb l (l' # f)) = unat (drop_bit rb l OR push_bit (64 - rb) l') + bn_base * bn_nat (rshift_loop rb l' f)"
    by (simp add: BN_BITS2_def)
  also have "... = unat l div 2 ^ rb + (?Y mod 2 ^ rb * 2 ^ (64 - rb) + bn_base * (?Y div 2 ^ rb))"
    unfolding w Cons by (simp only: ac_simps)
  also have "?Y mod 2 ^ rb * 2 ^ (64 - rb) + bn_base * (?Y div 2 ^ rb) = ?Y * 2 ^ (64 - rb)"
    using assms by (intro word_halves) simp
  also have "unat l div 2 ^ rb + ?Y * 2 ^ (64 - rb) = (unat l + 2 ^ rb * (?Y * 2 ^ (64 - rb))) div 2 ^ rb"
    by simp
  also have "unat l + 2 ^ rb * (?Y * 2 ^ (64 - rb)) = bn_nat (l # l' # f)"
    by (simp add: B algebra_simps)
  finally show ?case .
qed

lemma signed_value:
  assumes "bn_neg x = (bn_neg y \<and> bn_abs x \<noteq> 0)" and "bn_abs x = bn_abs y * k"
  shows "bn_int x = bn_int y * int k"
  using assms by (auto simp: bn_int_def)

lemma BN_lshift_spec:
  assumes fits: "bn_fits (nums s r)" and wf: "bn_wf (nums s a)" and "0 \<le> n"
    and P: "\<And>t x. nums t = (nums s)(r := x) \<Longrightarrow> bn_wf x \<Longrightarrow> bn_int x = bn_int (nums s a) * 2 ^ nat n \<Longrightarrow> P () t"
    and Q: "\<And>t. only r s t \<Longrightarrow> length (bn_d (nums s r)) \<le> bn_top (nums s a) + nat n div 64 \<Longrightarrow> Q t"
  shows "outcome P Q (BN_lshift r a n) s"
proof -
  let ?a = "nums s a"
  define nw lb where "nw = nat n div 64" and "lb = nat n mod 64"
  define f where "f = bn_words ?a"
  define g where "g = (\<lambda>f. if lb = 0 then f @ [0] else rev (lshift_down lb (rev f) 0))"
  define L where "L = g f"
  have lb: "lb < 64"
    by (simp add: lb_def)
  have f: "length f = bn_top ?a" "bn_nat f = bn_abs ?a"
    using wf by (simp_all add: f_def bn_abs_def)
  have L: "length L = bn_top ?a + 1 \<and> bn_nat L = bn_abs ?a * 2 ^ lb"
    using lshift_down_spec [OF lb, of 0 f] f by (simp add: L_def g_def bn_nat_append)
  have n: "nat n = 64 * nw + lb"
    by (simp add: nw_def lb_def)
  have B: "bn_base ^ nw * 2 ^ lb = 2 ^ nat n"
    unfolding n bn_base_def power_add power_mult ..
  define s1 where "s1 = set_num r ((nums s r)\<lparr>bn_neg := bn_neg ?a\<rparr>) s"
  have f1: "bn_fits (nums s1 r)" "bn_fits (nums s1 a)" and a1: "bn_words (nums s1 a) = f" "bn_top (nums s1 a) = bn_top ?a"
    using fits wf by (auto simp: s1_def bn_fits_def bn_words_def f_def bn_wf_def)
  let ?m = "bn_top ?a + nw + 1"
  have "outcome P Q (seq (bn_wexpand r ?m) (bnd (read_words a (bn_top ?a)) (\<lambda>f.
      seq (write_words r nw (g f))
      (seq (write_words r 0 (replicate nw 0)) (seq (set_top r ?m) (bn_correct_top r)))))) s1"
    unfolding outcome_bnd [of _ _ "bn_wexpand r ?m"]
  proof (rule outcome_wexpand [OF f1(1)], goal_cases)
    case (1 t d)
    note a = words_after_expand [OF f1(2) 1(1,3,4), unfolded a1]
    define y where "y = (nums s1 r)\<lparr>bn_d := replicate nw 0 @ L @ drop (nw + (bn_top ?a + 1)) d, bn_top := ?m\<rparr>"
    have words: "bn_words y = replicate nw 0 @ L" and yf: "bn_fits y"
      using L 1(2) by (simp_all add: y_def bn_words_def bn_fits_def)
    then have abs: "bn_abs y = bn_abs ?a * 2 ^ nat n"
      using L B by (simp add: bn_abs_def bn_nat_append mult.left_commute)
    define u where "u = set_num r y t"
    have u: "nums u = (nums s)(r := y)"
      using 1(1) by (simp add: u_def s1_def)
    have "outcome P Q (bn_correct_top r) u"
    proof (rule outcome_correct_top, goal_cases)
      case (2 t' x)
      have "bn_neg x = (bn_neg ?a \<and> bn_abs x \<noteq> 0)"
        using 2(3,5) u by (simp add: y_def s1_def)
      moreover have "bn_abs x = bn_abs ?a * 2 ^ nat n"
        using 2(3) u abs by simp
      ultimately have "bn_int x = bn_int ?a * 2 ^ nat n"
        using signed_value [of x ?a "2 ^ nat n"] by simp
      then show ?case
        using 2(1,2) u by (intro P [of _ x]) simp_all
    qed (simp add: u yf)
    moreover have "nw \<le> Suc (length d - Suc 0)"
      using 1(2) by linarith
    ultimately show ?case
      using a(1,2) 1(1,2) L f1 fits
      by (simp add: outcome_simps u_def y_def flip: L_def)
  next
    case (2 t)
    then show ?case
      using f by (intro Q) (auto simp: only_def s1_def nw_def)
  qed
  moreover have prog: "BN_lshift r a n = bnd (get a) (\<lambda>x. seq (set_neg r (bn_neg x))
      (seq (bn_wexpand r (bn_top x + nw + 1)) (bnd (read_words a (bn_top x)) (\<lambda>f. seq (write_words r nw (g f))
      (seq (write_words r 0 (replicate nw 0)) (seq (set_top r (bn_top x + nw + 1)) (bn_correct_top r)))))))"
    unfolding BN_lshift_def Let_def BN_BITS2_def g_def nw_def lb_def using \<open>0 \<le> n\<close> by simp
  ultimately show ?thesis
    unfolding prog by (simp add: outcome_simps s1_def)
qed

text \<open>The loop and what follows it, when the result has the length and the sign of the argument and room for one more word.\<close>

lemma lshift1_body:
  assumes wf: "bn_wf x" and t: "nums t r = y" "bn_top x < length (bn_d y)" "bn_top y = bn_top x" "bn_neg y = bn_neg x"
    and a: "bn_top x \<le> length (bn_d (nums t a))" "take (bn_top x) (bn_d (nums t a)) = bn_words x"
    and P: "\<And>t' z. nums t' = (nums t)(r := z) \<Longrightarrow> bn_wf z \<Longrightarrow> bn_int z = 2 * bn_int x \<Longrightarrow> P () t'"
  shows "outcome P Q (bnd (read_words a (bn_top x)) (\<lambda>ap.
      let (rp, c) = lshift1_loop ap 0 in
      seq (write_words r 0 rp)
      (if c \<noteq> 0 then seq (write_words r (bn_top x) [1]) (modify r (\<lambda>y. y\<lparr>bn_top := bn_top y + 1\<rparr>))
       else ret ()))) t"
proof -
  let ?n = "bn_top x"
  obtain rp c where l: "lshift1_loop (bn_words x) 0 = (rp, c)"
    by fastforce
  have spec: "c = 0 \<or> c = 1" "length rp = ?n" "bn_nat rp + bn_base ^ ?n * unat c = 2 * bn_abs x"
    using lshift1_loop_spec [OF l] wf by (simp_all add: bn_abs_def)
  have z: "P () t'" if "nums t' = (nums t)(r := z)" "bn_fits z" "bn_abs z = 2 * bn_abs x" "bn_neg z = bn_neg x"
    "bn_top z = ?n \<or> bn_top z = ?n + 1 \<and> bn_base ^ ?n \<le> bn_abs z" for t' z
  proof (rule P [OF that(1)])
    show "bn_wf z"
      using wf that by (auto simp: bn_wf_iff)
    show "bn_int z = 2 * bn_int x"
      using that(3,4) by (simp add: bn_int_def)
  qed
  show ?thesis
  proof (cases "c = 0")
    case True
    let ?z = "y\<lparr>bn_d := rp @ drop ?n (bn_d y)\<rparr>"
    have "P () (set_num r ?z t)"
      using spec t True by (intro z [of _ ?z]) (auto simp: bn_fits_def bn_abs_def bn_words_def)
    with True show ?thesis
      using a l spec(2) t by (simp add: outcome_simps)
  next
    case False
    then have c: "c = 1"
      using spec(1) by simp
    let ?z = "y\<lparr>bn_d := rp @ 1 # drop (Suc ?n) (bn_d y), bn_top := Suc ?n\<rparr>"
    have "bn_words ?z = rp @ [1]"
      using spec(2) by (simp add: bn_words_def)
    then have abs: "bn_abs ?z = 2 * bn_abs x" "bn_base ^ ?n \<le> bn_abs ?z"
      using spec c by (simp_all add: bn_abs_def [of ?z] bn_nat_append)
    have "P () (set_num r ?z t)"
      using spec t abs by (intro z [of _ ?z]) (auto simp: bn_fits_def)
    with c show ?thesis
      using a l spec(2) t by (simp add: outcome_simps)
  qed
qed

lemma BN_lshift1_spec:
  assumes fits: "bn_fits (nums s r)" and wf: "bn_wf (nums s a)"
    and P: "\<And>t x. nums t = (nums s)(r := x) \<Longrightarrow> bn_wf x \<Longrightarrow> bn_int x = 2 * bn_int (nums s a) \<Longrightarrow> P () t"
    and Q: "\<And>t. only r s t \<Longrightarrow> length (bn_d (nums s r)) \<le> bn_top (nums s a) \<Longrightarrow> Q t"
  shows "outcome P Q (BN_lshift1 r a) s"
proof -
  let ?a = "nums s a"
  let ?n = "bn_top ?a"
  define body where "body = bnd (read_words a ?n) (\<lambda>ap.
      let (rp, c) = lshift1_loop ap 0 in
      seq (write_words r 0 rp)
      (if c \<noteq> 0 then seq (write_words r ?n [1]) (modify r (\<lambda>y. y\<lparr>bn_top := bn_top y + 1\<rparr>))
       else ret ()))"
  have fa: "bn_fits ?a"
    using wf by simp
  show ?thesis
  proof (cases "r = a")
    case True
    have "outcome P Q (seq (bn_wexpand r (?n + 1)) body) s"
      unfolding outcome_bnd [of _ _ "bn_wexpand r (?n + 1)"]
    proof (rule outcome_wexpand [OF fits], goal_cases)
      case (1 t d)
      show ?case
        unfolding body_def
      proof (rule lshift1_body [OF wf refl], goal_cases)
        case (6 t' z)
        then show ?case
          using 1(1) by (intro P [of _ z]) simp_all
      qed (use 1 True fa in \<open>auto simp: bn_fits_def bn_words_def\<close>)
    next
      case (2 t)
      then show ?case
        using True by (intro Q) (simp_all add: only_def)
    qed
    then show ?thesis
      unfolding body_def True by (simp add: BN_lshift1_def outcome_simps)
  next
    case False
    define s1 where "s1 = set_num r ((nums s r)\<lparr>bn_neg := bn_neg ?a\<rparr>) s"
    have f1: "bn_fits (nums s1 r)"
      using fits by (simp add: s1_def bn_fits_def)
    have "outcome P Q (seq (bn_wexpand r (?n + 1)) (seq (set_top r ?n) body)) s1"
      unfolding outcome_bnd [of _ _ "bn_wexpand r (?n + 1)"]
    proof (rule outcome_wexpand [OF f1], goal_cases)
      case (1 t d)
      define u where "u = set_num r ((nums t r)\<lparr>bn_top := ?n\<rparr>) t"
      have "outcome P Q body u"
        unfolding body_def
      proof (rule lshift1_body [OF wf refl], goal_cases)
        case (6 t' z)
        then show ?case
          using 1(1) by (intro P [of _ z]) (simp_all add: u_def s1_def)
      qed (use 1 False fa in \<open>auto simp: u_def s1_def bn_fits_def bn_words_def\<close>)
      then show ?case
        by (simp add: outcome_simps u_def)
    next
      case (2 t)
      then show ?case
        by (intro Q) (simp_all add: only_def s1_def)
    qed
    then show ?thesis
      using False by (simp add: BN_lshift1_def outcome_simps body_def s1_def bnd_assoc)
  qed
qed

section \<open>Single bits\<close>

lemma bit_bn_nat:
  "bit (bn_nat ws) n \<longleftrightarrow> n div 64 < length ws \<and> bit (ws ! (n div 64)) (n mod 64)"
proof (induction ws arbitrary: n)
  case (Cons w ws)
  have w: "unat w < 2 ^ 64"
    by (rule unat_u64_less)
  show ?case
  proof (cases "n < 64")
    case True
    have "bit (bn_nat (w # ws)) n \<longleftrightarrow> bit (take_bit 64 (bn_nat (w # ws))) n"
      using True by (simp add: bit_take_bit_iff)
    also have "take_bit 64 (bn_nat (w # ws)) = unat w"
      using w by (simp add: take_bit_eq_mod bn_base_def)
    finally show ?thesis
      using True by (simp add: bit_unsigned_iff)
  next
    case False
    then have n: "n = 64 + (n - 64)"
      by simp
    have "bit (bn_nat (w # ws)) n \<longleftrightarrow> bit (drop_bit 64 (bn_nat (w # ws))) (n - 64)"
      by (subst n) (simp add: bit_drop_bit_eq)
    also have "drop_bit 64 (bn_nat (w # ws)) = bn_nat ws"
      using w by (simp add: drop_bit_eq_div bn_base_def)
    finally show ?thesis
      using False Cons [of "n - 64"] by (simp add: le_div_geq le_mod_geq)
  qed
qed simp

lemma bit_div_mod: "64 * (m div 64) + j = m \<longleftrightarrow> m mod 64 = j" for m :: nat
  using mult_div_mod_eq [of 64 m] by (intro iffI) linarith+

lemma bit_div_mod_neq: "j < 64 \<Longrightarrow> m div 64 \<noteq> i \<Longrightarrow> 64 * i + j \<noteq> m" for m :: nat
  by auto

lemma bn_nat_set_bit:
  assumes "i < length ws" and "j < 64"
  shows "bn_nat (ws[i := ws ! i OR push_bit j 1]) = set_bit (64 * i + j) (bn_nat ws)"
  using assms by (intro bit_eqI)
    (auto simp: bit_bn_nat bit_set_bit_iff bit_or_iff bit_exp_iff nth_list_update bit_div_mod bit_div_mod_neq)

lemma bn_nat_unset_bit:
  assumes "i < length ws" and "j < 64"
  shows "bn_nat (ws[i := ws ! i AND NOT (push_bit j 1)]) = unset_bit (64 * i + j) (bn_nat ws)"
  using assms by (intro bit_eqI)
    (auto simp: bit_bn_nat bit_unset_bit_iff bit_and_iff bit_not_iff bit_exp_iff nth_list_update bit_div_mod bit_div_mod_neq)

lemma bn_nat_mask_bits:
  assumes "i < length ws" and "j < 64"
  shows "bn_nat (take i ws @ [ws ! i AND NOT (push_bit j (- 1))]) = take_bit (64 * i + j) (bn_nat ws)"
proof (rule bit_eqI)
  fix m
  consider "m div 64 < i" | "m div 64 = i" | "i < m div 64"
    by linarith
  then show "bit (bn_nat (take i ws @ [ws ! i AND NOT (push_bit j (- 1))])) m \<longleftrightarrow> bit (take_bit (64 * i + j) (bn_nat ws)) m"
  proof cases
    case 2
    have "m < 64 * i + j \<longleftrightarrow> m mod 64 < j"
      using mult_div_mod_eq [of 64 m] unfolding 2 by (intro iffI) linarith+
    with 2 assms show ?thesis
      by (auto simp: bit_bn_nat bit_take_bit_iff nth_append bit_and_iff bit_not_iff bit_push_bit_iff bit_mask_iff)
  qed (use assms in \<open>auto simp: bit_bn_nat bit_take_bit_iff nth_append\<close>)
qed

lemma BN_is_bit_set_spec:
  assumes "bn_fits x"
  shows "BN_is_bit_set x n \<longleftrightarrow> 0 \<le> n \<and> bit (bn_abs x) (nat n)"
  using assms
  by (auto simp: BN_is_bit_set_def bn_is_bit_set_words_def Let_def BN_BITS2_def bn_abs_def bn_words_def bn_fits_def
      bit_bn_nat and_one_eq mod_2_eq_odd simp flip: bit_iff_odd_drop_bit)

lemma BN_set_bit_spec:
  assumes wf: "bn_wf (nums s a)" and "0 \<le> n"
    and P: "\<And>t x. nums t = (nums s)(a := x) \<Longrightarrow> bn_wf x \<Longrightarrow> bn_neg x = bn_neg (nums s a) \<Longrightarrow>
      bn_abs x = set_bit (nat n) (bn_abs (nums s a)) \<Longrightarrow> P () t"
    and Q: "\<And>t. nums t = nums s \<Longrightarrow> length (bn_d (nums s a)) \<le> nat n div 64 \<Longrightarrow> Q t"
  shows "outcome P Q (BN_set_bit a n) s"
proof -
  let ?a = "nums s a"
  define i j where "i = nat n div 64" and "j = nat n mod 64"
  have n: "nat n = 64 * i + j" and j: "j < 64"
    by (simp_all add: i_def j_def)
  define body where "body = bnd (read_words a (i + 1)) (\<lambda>ws. write_words a i [ws ! i OR push_bit j 1])"
  have body: "outcome P Q body t" if t: "nums t = (nums s)(a := y)" and y: "bn_neg y = bn_neg ?a" "i < bn_top y" "bn_fits y"
    "bn_abs y = bn_abs ?a" "bn_d y ! (bn_top y - 1) \<noteq> 0 \<or> bn_top y = i + 1" for t y
  proof -
    let ?x = "y\<lparr>bn_d := (bn_d y)[i := bn_d y ! i OR push_bit j 1]\<rparr>"
    have top: "i < length (bn_words y)" "bn_words ?x = (bn_words y)[i := bn_words y ! i OR push_bit j 1]"
      using y(2,3) by (simp_all add: bn_words_def bn_fits_def take_update_swap)
    have abs: "bn_abs ?x = set_bit (nat n) (bn_abs ?a)"
      using bn_nat_set_bit [OF top(1) j] y(4) unfolding bn_abs_def top(2) n by simp
    have "bit (bn_d y ! i OR push_bit j 1) j"
      using j by (simp add: bit_or_iff bit_exp_iff)
    then have "bn_d y ! i OR push_bit j 1 \<noteq> 0"
      by auto
    then have "bn_wf ?x"
      using y by (auto simp: bn_wf_def bn_fits_def nth_list_update)
    with abs have "P () (set_num a ?x t)"
      using t y(1) by (intro P [of _ ?x]) simp_all
    then show ?thesis
      using t y(2,3) by (simp add: body_def outcome_simps bn_fits_def upd_conv_take_nth_drop)
  qed
  have prog: "BN_set_bit a n = bnd (get a) (\<lambda>x. seq (if bn_top x \<le> i
             then seq (bn_wexpand a (i + 1))
               (seq (write_words a (bn_top x) (replicate (i + 1 - bn_top x) 0)) (set_top a (i + 1)))
             else ret ()) body)"
    unfolding BN_set_bit_def Let_def BN_BITS2_def body_def i_def j_def using \<open>0 \<le> n\<close> by simp
  show ?thesis
  proof (cases "bn_top ?a \<le> i")
    case False
    then have "outcome P Q body s"
      using wf by (intro body [of s ?a]) (auto simp: bn_wf_def)
    with False show ?thesis
      unfolding prog by (simp add: outcome_simps)
  next
    case True
    have "outcome P Q (seq (bn_wexpand a (i + 1)) (seq (seq (write_words a (bn_top ?a) (replicate (i + 1 - bn_top ?a) 0)) (set_top a (i + 1))) body)) s"
      unfolding outcome_bnd [of _ _ "bn_wexpand a (i + 1)"]
    proof (rule outcome_wexpand, goal_cases)
      case (2 t d)
      let ?y = "?a\<lparr>bn_d := bn_words ?a @ replicate (i + 1 - bn_top ?a) 0 @ drop (i + 1) d, bn_top := i + 1\<rparr>"
      have w: "bn_words ?y = bn_words ?a @ replicate (i + 1 - bn_top ?a) 0"
        using True wf unfolding bn_words_def [of ?y] by simp
      have "outcome P Q body (set_num a ?y t)"
        using 2 wf True w length_bn_words [OF bn_wf_fits [OF wf]] by (intro body [of _ ?y]) (simp_all add: bn_fits_def bn_abs_def bn_nat_append)
      then show ?case
        using 2 True wf by (simp add: outcome_simps)
    qed (use wf Q in \<open>auto simp: i_def\<close>)
    with True show ?thesis
      unfolding prog by (simp add: outcome_simps bnd_assoc)
  qed
qed

lemma BN_clear_bit_spec:
  assumes wf: "bn_wf (nums s a)" and "0 \<le> n"
    and P: "\<And>t x. nums t = (nums s)(a := x) \<Longrightarrow> bn_wf x \<Longrightarrow> bn_neg x = (bn_neg (nums s a) \<and> bn_abs x \<noteq> 0) \<Longrightarrow>
      bn_abs x = unset_bit (nat n) (bn_abs (nums s a)) \<Longrightarrow> P () t"
    and Q: "bn_top (nums s a) \<le> nat n div 64 \<Longrightarrow> Q s"
  shows "outcome P Q (BN_clear_bit a n) s"
proof (cases "bn_top (nums s a) \<le> nat n div 64")
  case True
  with Q \<open>0 \<le> n\<close> show ?thesis
    by (simp add: BN_clear_bit_def outcome_simps Let_def BN_BITS2_def)
next
  case False
  let ?a = "nums s a"
  define i j where "i = nat n div 64" and "j = nat n mod 64"
  have n: "nat n = 64 * i + j" and j: "j < 64"
    by (simp_all add: i_def j_def)
  let ?y = "?a\<lparr>bn_d := (bn_d ?a)[i := bn_d ?a ! i AND NOT (push_bit j 1)]\<rparr>"
  have fits: "bn_top ?a \<le> length (bn_d ?a)" and i: "i < bn_top ?a"
    using wf False by (simp_all add: bn_wf_def bn_fits_def i_def)
  have top: "i < length (bn_words ?a)" "bn_words ?y = (bn_words ?a)[i := bn_words ?a ! i AND NOT (push_bit j 1)]"
    using fits i by (simp_all add: bn_words_def take_update_swap)
  have abs: "bn_abs ?y = unset_bit (nat n) (bn_abs ?a)"
    using bn_nat_unset_bit [OF top(1) j] unfolding bn_abs_def top(2) n by simp
  have "outcome P Q (bn_correct_top a) (set_num a ?y s)"
    by (rule outcome_correct_top) (use abs fits in \<open>auto simp: bn_fits_def intro!: P\<close>)
  then show ?thesis
    using \<open>0 \<le> n\<close> fits i unfolding BN_clear_bit_def Let_def BN_BITS2_def i_def [symmetric] j_def [symmetric]
    by (simp add: outcome_simps upd_conv_take_nth_drop)
qed

lemma BN_mask_bits_spec:
  assumes wf: "bn_wf (nums s a)" and "0 \<le> n"
    and P: "\<And>t x. nums t = (nums s)(a := x) \<Longrightarrow> bn_wf x \<Longrightarrow> bn_neg x = (bn_neg (nums s a) \<and> bn_abs x \<noteq> 0) \<Longrightarrow>
      bn_abs x = take_bit (nat n) (bn_abs (nums s a)) \<Longrightarrow> P () t"
    and Q: "bn_top (nums s a) \<le> nat n div 64 \<Longrightarrow> Q s"
  shows "outcome P Q (BN_mask_bits a n) s"
proof (cases "bn_top (nums s a) \<le> nat n div 64")
  case True
  with Q \<open>0 \<le> n\<close> show ?thesis
    by (simp add: BN_mask_bits_def outcome_simps Let_def BN_BITS2_def)
next
  case False
  let ?a = "nums s a"
  define i j where "i = nat n div 64" and "j = nat n mod 64"
  have n: "nat n = 64 * i + j" and j: "j < 64"
    by (simp_all add: i_def j_def)
  let ?w = "bn_d ?a ! i AND NOT (push_bit j (- 1))"
  define y where "y = (if j = 0 then ?a\<lparr>bn_top := i\<rparr> else ?a\<lparr>bn_top := i + 1, bn_d := (bn_d ?a)[i := ?w]\<rparr>)"
  have fits: "bn_top ?a \<le> length (bn_d ?a)" and i: "i < bn_top ?a"
    using wf False by (simp_all add: bn_wf_def bn_fits_def i_def)
  have top: "i < length (bn_words ?a)" "bn_words ?a ! i = bn_d ?a ! i" "take i (bn_words ?a) = take i (bn_d ?a)"
    using fits i by (simp_all add: bn_words_def)
  have y: "bn_fits y" "bn_neg y = bn_neg ?a"
    using fits i by (auto simp: y_def bn_fits_def)
  have "bn_nat (bn_words y) = bn_nat (take i (bn_words ?a) @ [bn_words ?a ! i AND NOT (push_bit j (- 1))])"
    unfolding top(2,3) using fits i
    by (auto simp: y_def bn_words_def bn_nat_append take_Suc_conv_app_nth)
  then have abs: "bn_abs y = take_bit (nat n) (bn_abs ?a)"
    using bn_nat_mask_bits [OF top(1) j] unfolding bn_abs_def n by simp
  have "outcome P Q (bn_correct_top a) (set_num a y s)"
    by (rule outcome_correct_top) (use abs y in \<open>auto intro!: P\<close>)
  then show ?thesis
    using \<open>0 \<le> n\<close> fits i unfolding BN_mask_bits_def Let_def BN_BITS2_def i_def [symmetric] j_def [symmetric]
    by (auto simp: outcome_simps upd_conv_take_nth_drop y_def)
qed

section \<open>Shifts to the right\<close>

text \<open>The words of the shifted number have no leading zero.\<close>

definition no_leading_zero :: "u64 list \<Rightarrow> bool" where
  "no_leading_zero ws \<longleftrightarrow> (ws \<noteq> [] \<longrightarrow> last ws \<noteq> 0)"

lemma no_leading_zero_iff: "no_leading_zero ws \<longleftrightarrow> (ws \<noteq> [] \<longrightarrow> bn_base ^ (length ws - 1) \<le> bn_nat ws)"
  using last_word_iff [of "length ws" ws] by (cases "ws = []") (auto simp: no_leading_zero_def last_conv_nth)

lemma words_length:
  assumes "no_leading_zero ws" and "bn_nat ws < bn_base ^ n" and "0 < n \<Longrightarrow> bn_base ^ (n - 1) \<le> bn_nat ws"
  shows "length ws = n"
proof (cases "ws = []")
  case False
  have "n \<noteq> 0"
    using assms(1,2) False by (intro notI) (auto simp: no_leading_zero_iff)
  then obtain k l where k: "n = Suc k" "length ws = Suc l"
    using False by (cases n; cases ws) auto
  have "k = l"
  proof (rule power_interval_eq)
    show "1 < bn_base"
      by (simp add: bn_base_def)
  qed (use k assms False bn_nat_less [of ws] in \<open>auto simp: no_leading_zero_iff\<close>)
  with k show ?thesis
    by simp
qed (use assms in \<open>auto intro: ccontr\<close>)

lemma or_shifted_neq_0:
  fixes l l' :: u64
  assumes "rb < 64" and "l' \<noteq> 0" and "drop_bit rb l' = 0"
  shows "x OR push_bit (64 - rb) l' \<noteq> 0"
proof -
  have "unat l' div 2 ^ rb = 0"
    using assms(3) by (metis unat_drop_bit_div unsigned_0)
  then have "unat l' < 2 ^ rb"
    by (simp add: div_eq_0_iff)
  moreover have "unat (push_bit (64 - rb) l') = unat l' mod 2 ^ rb * 2 ^ (64 - rb)"
    using assms(1) by (simp add: unat_push_bit_u64)
  ultimately have "unat (push_bit (64 - rb) l') \<noteq> 0"
    using assms(2) by (simp add: unat_eq_0)
  then have "push_bit (64 - rb) l' \<noteq> 0"
    by (intro notI) simp
  then show ?thesis
    by (metis or_eq_0_iff)
qed

lemma rshift_loop_top:
  assumes "0 < rb" and "rb < 64" and "last (l # f) \<noteq> 0"
  shows "no_leading_zero (rshift_loop rb l f) \<and> length (rshift_loop rb l f) \<le> length f + 1"
  using assms(3)
proof (induction f arbitrary: l)
  case (Cons l' f)
  have ih: "no_leading_zero (rshift_loop rb l' f)" "length (rshift_loop rb l' f) \<le> length f + 1"
    using Cons by auto
  show ?case
  proof (cases "rshift_loop rb l' f = []")
    case True
    then have "f = []" and "drop_bit rb l' = 0"
      by (cases f; auto split: if_splits)+
    then have "drop_bit rb l OR push_bit (64 - rb) l' \<noteq> 0"
      using Cons.prems assms(2) by (intro or_shifted_neq_0) simp_all
    with True show ?thesis
      by (simp add: no_leading_zero_def BN_BITS2_def)
  next
    case False
    with ih show ?thesis
      by (simp add: no_leading_zero_def)
  qed
qed (simp add: no_leading_zero_def)

text \<open>The number of words the code computes from the number of bits.\<close>

lemma rshift_words:
  fixes x :: bignum
  assumes wf: "bn_wf x" and top: "n div 64 < bn_top x" and small: "bn_top x < 2 ^ 25"
  defines "i \<equiv> unat ((of_nat (BN_num_bits x) - of_nat n + of_nat 63) div of_nat 64 :: u32)"
  shows "bn_abs x div 2 ^ n < bn_base ^ i \<and> (0 < i \<longrightarrow> bn_base ^ (i - 1) \<le> bn_abs x div 2 ^ n)"
proof -
  define b where "b = BN_num_bits x"
  have num: "2 ^ (b - 1) \<le> bn_abs x" "bn_abs x < 2 ^ b" "64 * (bn_top x - 1) < b" "b \<le> 64 * bn_top x"
    using BN_num_bits_spec [OF wf] top unfolding b_def by auto
  have n: "n < 64 * bn_top x"
    using top by linarith
  then have le: "n \<le> b + 63"
    using num(3) by linarith
  have b: "b + 63 < 2 ^ 32"
    using num(4) small by simp
  have "of_nat b - of_nat n + of_nat 63 = (of_nat (b + 63 - n) :: u32)"
    using le by (simp add: of_nat_diff)
  then have i: "i = (b + 63 - n) div 64"
    using b by (simp add: i_def b_def [symmetric] unat_div unat_of_nat_u32)
  have pow: "bn_base ^ k = 2 ^ (64 * k)" for k
    unfolding bn_base_def power_mult ..
  have "bn_abs x < 2 ^ (n + 64 * i)"
    using num(2) i by (intro order_less_le_trans [OF num(2)] power_increasing) auto
  then have "bn_abs x div 2 ^ n < bn_base ^ i"
    by (simp add: pow less_mult_imp_div_less power_add mult.commute)
  moreover have "bn_base ^ (i - 1) \<le> bn_abs x div 2 ^ n" if "0 < i"
  proof -
    have "n + 64 * (i - 1) \<le> b - 1"
      using that i by linarith
    then have "2 ^ (n + 64 * (i - 1)) \<le> bn_abs x"
      using num(1) by (meson le_trans one_le_numeral power_increasing)
    then show ?thesis
      by (simp add: pow power_add less_eq_div_iff_mult_less_eq mult.commute)
  qed
  ultimately show ?thesis
    by blast
qed

definition rshift_value :: "bignum \<Rightarrow> nat \<Rightarrow> int" where
  "rshift_value x n = (if bn_neg x then - int (bn_abs x div 2 ^ n) else int (bn_abs x div 2 ^ n))"

lemma rshift_list:
  assumes wf: "bn_wf x" and top: "n div 64 < bn_top x" and small: "bn_top x < 2 ^ 25"
  defines "f \<equiv> drop (n div 64) (bn_words x)"
  defines "L \<equiv> (if n mod 64 = 0 then f else rshift_loop (n mod 64) (hd f) (tl f))"
  shows "bn_nat L = bn_abs x div 2 ^ n" and "no_leading_zero L" and "length L \<le> bn_top x"
    and "length L = unat ((of_nat (BN_num_bits x) - of_nat n + of_nat 63) div of_nat 64 :: u32)"
proof -
  let ?nw = "n div 64" and ?rb = "n mod 64"
  have len: "length (bn_words x) = bn_top x"
    using wf by simp
  then have "bn_words x \<noteq> []"
    using top by auto
  then have last: "last (bn_words x) \<noteq> 0"
    using wf top by (subst last_conv_nth) (auto simp: bn_wf_def bn_fits_def bn_words_def)
  have f: "f \<noteq> []" "length f = bn_top x - ?nw" "last f \<noteq> 0"
    using len last top by (auto simp: f_def)
  have "bn_nat (take ?nw (bn_words x)) < bn_base ^ ?nw"
    by (rule bn_nat_take_less)
  moreover have "bn_abs x = bn_nat (take ?nw (bn_words x)) + bn_base ^ ?nw * bn_nat f"
    using bn_nat_append [of "take ?nw (bn_words x)" f] len top by (simp add: bn_abs_def f_def)
  ultimately have val: "bn_nat f = bn_abs x div bn_base ^ ?nw"
    by simp
  have "(2 :: nat) ^ n = 2 ^ (64 * ?nw + ?rb)"
    by simp
  also have "... = bn_base ^ ?nw * 2 ^ ?rb"
    unfolding bn_base_def power_add power_mult ..
  finally have n: "bn_abs x div 2 ^ n = bn_nat f div 2 ^ ?rb"
    by (simp add: val div_mult2_eq)
  show L: "bn_nat L = bn_abs x div 2 ^ n"
    using rshift_loop_spec [of ?rb "hd f" "tl f"] f(1) by (auto simp: L_def n)
  have "no_leading_zero L \<and> length L \<le> length f"
  proof (cases "?rb = 0")
    case False
    have "no_leading_zero (rshift_loop ?rb (hd f) (tl f)) \<and> length (rshift_loop ?rb (hd f) (tl f)) \<le> length (tl f) + 1"
      using False f by (intro rshift_loop_top) simp_all
    with False f(1) show ?thesis
      by (simp add: L_def Suc_le_eq)
  qed (use f in \<open>simp add: L_def no_leading_zero_def\<close>)
  then show lz: "no_leading_zero L" and "length L \<le> bn_top x"
    using f(2) by linarith+
  show "length L = unat ((of_nat (BN_num_bits x) - of_nat n + of_nat 63) div of_nat 64 :: u32)"
    using rshift_words [OF wf top small] unfolding L [symmetric] by (intro words_length [OF lz]) blast+
qed

lemma wf_of_words:
  assumes "bn_words x = L" and "bn_top x = length L" and "bn_fits x" and "no_leading_zero L" and "bn_top x = 0 \<Longrightarrow> \<not> bn_neg x"
  shows "bn_wf x"
  using assms by (auto simp: bn_wf_iff no_leading_zero_iff bn_abs_def)

lemma BN_rshift_spec:
  assumes fits: "bn_fits (nums s r)" and wf: "bn_wf (nums s a)" and "0 \<le> n" and small: "bn_top (nums s a) < 2 ^ 25"
    and P: "\<And>t x. nums t = (nums s)(r := x) \<Longrightarrow> bn_wf x \<Longrightarrow> bn_int x = rshift_value (nums s a) (nat n) \<Longrightarrow> P () t"
    and Q: "\<And>t. only r s t \<Longrightarrow> length (bn_d (nums s r)) < bn_top (nums s a) \<Longrightarrow> Q t"
  shows "outcome P Q (BN_rshift r a n) s"
proof -
  let ?a = "nums s a"
  define nw rb where "nw = nat n div 64" and "rb = nat n mod 64"
  define g where "g = (\<lambda>ws. let f = drop nw ws in if rb = 0 then f else rshift_loop rb (hd f) (tl f))"
  define i where "i = unat ((of_nat (BN_num_bits ?a) - of_nat (nat n) + of_nat 63) div of_nat 64 :: u32)"
  define body where "body = bnd (read_words a (bn_top ?a)) (\<lambda>ws. seq (set_top r i) (seq (write_words r 0 (g ws))
     (modify r (\<lambda>y. if bn_top y = 0 then y\<lparr>bn_neg := False\<rparr> else y))))"
  have c63: "64 - 1 = (63 :: nat)"
    by simp
  have prog: "BN_rshift r a n = bnd (get a) (\<lambda>x.
      if bn_top x \<le> nw \<or> bn_top x = 0 then BN_zero r
      else
        let i = unat ((of_nat (BN_num_bits x) - of_nat (nat n) + of_nat 63) div of_nat 64 :: u32) in
        if r = a \<and> n = 0 then ret ()
        else seq (if r \<noteq> a then seq (set_neg r (bn_neg x)) (bn_wexpand r i) else ret ())
          (bnd (read_words a (bn_top x)) (\<lambda>ws. seq (set_top r i) (seq (write_words r 0 (g ws))
           (modify r (\<lambda>y. if bn_top y = 0 then y\<lparr>bn_neg := False\<rparr> else y))))))"
    unfolding BN_rshift_def BN_BITS2_def g_def nw_def rb_def Let_def c63 using \<open>0 \<le> n\<close> by simp
  consider "bn_top ?a \<le> nw" | "nw < bn_top ?a" "r = a" "n = 0" | "nw < bn_top ?a" "\<not> (r = a \<and> n = 0)"
    by linarith
  then show ?thesis
  proof cases
    case 1
    have "bn_abs ?a < bn_base ^ bn_top ?a"
      using wf by (intro bn_abs_less) simp
    also have "... \<le> bn_base ^ nw"
      using 1 by (intro power_increasing) (simp_all add: Suc_le_eq)
    finally have "bn_abs ?a < bn_base ^ nw" .
    also have "bn_base ^ nw \<le> 2 ^ nat n"
      unfolding bn_base_def power_mult [symmetric] by (intro power_increasing) (simp_all add: nw_def)
    finally have "rshift_value ?a (nat n) = 0"
      by (simp add: rshift_value_def)
    moreover have "bn_wf ((nums s r)\<lparr>bn_top := 0, bn_neg := False\<rparr>)"
      by (simp add: bn_wf_def bn_fits_def)
    ultimately show ?thesis
      using 1 unfolding prog by (simp add: outcome_simps BN_zero_def P bn_int_def bn_abs_def bn_words_def)
  next
    case 2
    then show ?thesis
      using wf unfolding prog by (auto simp: outcome_simps Let_def rshift_value_def bn_int_def intro!: P [of s ?a])
  next
    case 3
    define L where "L = g (bn_words ?a)"
    have top: "nat n div 64 < bn_top ?a"
      using 3(1) by (simp add: nw_def)
    note rshift_list [OF wf top small, folded nw_def rb_def i_def]
    then have L: "bn_nat L = bn_abs ?a div 2 ^ nat n" "no_leading_zero L" "length L \<le> bn_top ?a" "length L = i"
      by (simp_all add: L_def g_def Let_def)
    have body: "outcome P Q body t" if "nums t = (nums s)(r := y)" "i \<le> length (bn_d y)" "bn_neg y = bn_neg ?a"
      "bn_top ?a \<le> length (bn_d (nums t a))" "take (bn_top ?a) (bn_d (nums t a)) = bn_words ?a" for t y
    proof -
      let ?z = "y\<lparr>bn_top := i, bn_d := L @ drop i (bn_d y)\<rparr>"
      define x where "x = (if i = 0 then ?z\<lparr>bn_neg := False\<rparr> else ?z)"
      have words: "bn_words x = L" "bn_top x = length L" "bn_fits x"
        using that(2) L(4) by (auto simp: x_def bn_words_def bn_fits_def)
      have "bn_wf x"
        using L(4) by (intro wf_of_words [OF words L(2)]) (simp add: x_def split: if_splits)
      moreover have "bn_int x = rshift_value ?a (nat n)"
      proof -
        have "bn_abs x = bn_abs ?a div 2 ^ nat n"
          by (simp add: bn_abs_def [of x] words(1) L(1))
        moreover have "bn_neg x = (bn_neg ?a \<and> i \<noteq> 0)"
          using that(3) by (simp add: x_def)
        moreover have "i = 0 \<Longrightarrow> bn_abs ?a div 2 ^ nat n = 0"
          using L(1,4) by auto
        ultimately show ?thesis
          unfolding bn_int_def rshift_value_def by auto
      qed
      ultimately have "P () (set_num r x t)"
        using that(1) by (intro P [of _ x]) simp_all
      then show ?thesis
        using that L(4) by (auto simp: body_def outcome_simps x_def simp flip: L_def)
    qed
    show ?thesis
    proof (cases "r = a")
      case True
      have "outcome P Q body s"
        using True wf L(3,4) by (intro body [of s ?a]) (simp_all add: bn_wf_def bn_fits_def bn_words_def)
      then show ?thesis
        using 3 True unfolding prog body_def i_def by (simp add: outcome_simps Let_def)
    next
      case False
      define s1 where "s1 = set_num r ((nums s r)\<lparr>bn_neg := bn_neg ?a\<rparr>) s"
      have "outcome P Q (seq (bn_wexpand r i) body) s1"
        unfolding outcome_bnd [of _ _ "bn_wexpand r i"]
      proof (rule outcome_wexpand, goal_cases)
        case (2 t d)
        then show ?case
          using False wf by (intro body [of t "(nums s1 r)\<lparr>bn_d := d\<rparr>"])
            (simp_all add: s1_def bn_wf_def bn_fits_def bn_words_def)
      next
        case (3 t)
        then show ?case
          using L(3,4) by (intro Q) (simp_all add: s1_def only_def)
      qed (use fits in \<open>simp add: s1_def bn_fits_def\<close>)
      then show ?thesis
        using 3 False unfolding prog body_def i_def s1_def by (simp add: outcome_simps Let_def bnd_assoc)
    qed
  qed
qed

lemma rshift1_down_spec:
  assumes "unat c = e * 2 ^ 63" and "e < 2"
  shows "length (rshift1_down (rev ap) c) = length ap \<and>
    bn_nat (rev (rshift1_down (rev ap) c)) = (bn_nat ap + bn_base ^ length ap * e) div 2"
  using assms
proof (induction ap arbitrary: c e rule: rev_induct)
  case (snoc w ap)
  have p: "unat (push_bit 63 w) = unat w mod 2 * 2 ^ 63"
    by (subst unat_push_bit_u64) simp_all
  note ih = snoc.IH [OF p]
  have "unat (drop_bit 1 w) < 2 ^ 63"
    using drop_bit_less [of 63 w] by simp
  moreover have "2 ^ 63 dvd unat c"
    by (simp add: snoc.prems(1))
  ultimately have "unat c OR unat (drop_bit 1 w) = unat c + unat (drop_bit 1 w)"
    by (intro or_low)
  then have "unat (drop_bit 1 w OR c) = unat c + unat (drop_bit 1 w)"
    unfolding unsigned_or_eq by (subst or.commute)
  then have w: "unat (drop_bit 1 w OR c) = unat w div 2 + e * 2 ^ 63"
    unfolding snoc.prems(1) unat_drop_bit_div power_one_right by linarith
  have "bn_nat (rev (rshift1_down (rev (ap @ [w])) c)) =
      (bn_nat ap + bn_base ^ length ap * (unat w mod 2)) div 2 + bn_base ^ length ap * (unat w div 2 + e * 2 ^ 63)"
    using ih by (simp add: bn_nat_append BN_BITS2_def w [simplified])
  also have "... = (bn_nat ap + bn_base ^ length ap * (unat w mod 2) + 2 * (bn_base ^ length ap * (unat w div 2 + e * 2 ^ 63))) div 2"
    by simp
  also have "bn_nat ap + bn_base ^ length ap * (unat w mod 2) + 2 * (bn_base ^ length ap * (unat w div 2 + e * 2 ^ 63)) =
      bn_nat ap + bn_base ^ length ap * (2 * (unat w div 2) + unat w mod 2) + bn_base ^ length ap * (e * (2 * 2 ^ 63))"
    by (simp only: distrib_left mult_ac add_ac)
  also have "2 * 2 ^ 63 = bn_base"
    by (simp add: bn_base_def)
  finally show ?case
    using ih by (simp add: bn_nat_append BN_BITS2_def ac_simps)
qed (simp add: div_eq_0_iff)

lemma BN_rshift1_spec:
  assumes fits: "bn_fits (nums s r)" and wf: "bn_wf (nums s a)"
    and P: "\<And>t x. nums t = (nums s)(r := x) \<Longrightarrow> bn_wf x \<Longrightarrow> bn_int x = rshift_value (nums s a) 1 \<Longrightarrow> P () t"
    and Q: "\<And>t. only r s t \<Longrightarrow> length (bn_d (nums s r)) < bn_top (nums s a) \<Longrightarrow> Q t"
  shows "outcome P Q (BN_rshift1 r a) s"
proof (cases "BN_is_zero (nums s a)")
  case True
  then have "rshift_value (nums s a) 1 = 0"
    by (simp add: BN_is_zero_def rshift_value_def bn_abs_def bn_words_def)
  moreover have "bn_wf ((nums s r)\<lparr>bn_top := 0, bn_neg := False\<rparr>)"
    by (simp add: bn_wf_def bn_fits_def)
  ultimately show ?thesis
    using True by (simp add: BN_rshift1_def outcome_simps BN_zero_def P bn_int_def bn_abs_def bn_words_def)
next
  case False
  let ?a = "nums s a"
  obtain k where k: "bn_top ?a = Suc k"
    using False by (cases "bn_top ?a") (auto simp: BN_is_zero_def)
  define t where "t = bn_words ?a ! k"
  define ap where "ap = take k (bn_words ?a)"
  have len: "length (bn_words ?a) = Suc k" "length ap = k" and t0: "t \<noteq> 0"
    using wf k by (auto simp: ap_def t_def bn_wf_def bn_fits_def bn_words_def)
  define rp where "rp = rev (rshift1_down (rev ap) (push_bit 63 t))"
  define L where "L = (if drop_bit 1 t \<noteq> 0 then rp @ [drop_bit 1 t] else rp)"
  define j where "j = Suc k - (if t = 1 then 1 else 0)"
  have t1: "drop_bit 1 t = 0 \<longleftrightarrow> t = 1"
  proof -
    have "drop_bit 1 t = 0 \<longleftrightarrow> unat t div 2 = 0"
      unfolding unat_eq_0 [symmetric] unat_drop_bit_div by simp
    also have "... \<longleftrightarrow> unat t = 1"
      using t0 unat_gt_0 [of t] by (simp add: div_eq_0_iff) linarith
    finally show ?thesis
      by (simp add: word_unat_eq_iff)
  qed
  have p: "unat (push_bit 63 t) = unat t mod 2 * 2 ^ 63"
    by (subst unat_push_bit_u64) simp_all
  have rp: "length rp = k" "bn_nat rp = (bn_nat ap + bn_base ^ k * (unat t mod 2)) div 2"
    using rshift1_down_spec [OF p, of ap] len(2) by (simp_all add: rp_def)
  have abs: "bn_abs ?a = bn_nat ap + bn_base ^ k * unat t"
    using bn_nat_take_Suc [of k "bn_words ?a"] len by (simp add: bn_abs_def ap_def t_def)
  have "bn_nat L = bn_nat rp + bn_base ^ k * (unat t div 2)"
    using rp(1) t1 by (auto simp: L_def bn_nat_append unat_drop_bit_div)
  also have "... = (bn_nat ap + bn_base ^ k * (unat t mod 2) + 2 * (bn_base ^ k * (unat t div 2))) div 2"
    by (simp add: rp(2))
  also have "bn_nat ap + bn_base ^ k * (unat t mod 2) + 2 * (bn_base ^ k * (unat t div 2)) =
      bn_nat ap + bn_base ^ k * (2 * (unat t div 2) + unat t mod 2)"
    by (simp only: distrib_left mult_ac add_ac)
  finally have L: "bn_nat L = bn_abs ?a div 2" "length L = j"
    using rp(1) t1 by (simp_all add: abs L_def j_def)
  have lz: "no_leading_zero L"
  proof (cases "t = 1 \<and> 0 < k")
    case True
    then have "bn_base ^ k \<le> bn_abs ?a" and "bn_base ^ k = bn_base * bn_base ^ (k - 1)"
      by (simp_all add: abs flip: power_Suc)
    then have "bn_base ^ (k - 1) \<le> bn_abs ?a div 2"
      by (simp add: bn_base_def)
    then show ?thesis
      unfolding no_leading_zero_iff using True L by (simp add: j_def)
  next
    case False
    then show ?thesis
      using t1 rp(1) by (auto simp: L_def no_leading_zero_def)
  qed
  have neg: "j = 0 \<Longrightarrow> bn_abs ?a div 2 = 0"
    using L by auto
  define fin where "fin = seq (write_words r 0 L) (modify r (\<lambda>y. y\<lparr>bn_top := j, bn_neg := (if j = 0 then False else bn_neg y)\<rparr>))"
  have fin: "outcome P Q fin u" if "nums u = (nums s)(r := y)" "j \<le> length (bn_d y)" "bn_neg y = bn_neg ?a" for u y
  proof -
    define x where "x = y\<lparr>bn_d := L @ drop j (bn_d y), bn_top := j, bn_neg := (if j = 0 then False else bn_neg y)\<rparr>"
    have words: "bn_words x = L" "bn_top x = length L" "bn_fits x"
      using that(2) L(2) by (auto simp: x_def bn_words_def bn_fits_def)
    have "bn_wf x"
      using L(2) by (intro wf_of_words [OF words lz]) (simp add: x_def)
    moreover have "bn_abs x = bn_abs ?a div 2"
      by (simp add: bn_abs_def [of x] words(1) L(1))
    moreover have "bn_neg x = (bn_neg ?a \<and> j \<noteq> 0)"
      using that(3) by (simp add: x_def)
    ultimately have "bn_wf x" and "bn_int x = rshift_value ?a 1"
      using neg unfolding bn_int_def rshift_value_def by auto
    then have "P () (set_num r x u)"
      using that(1) by (intro P [of _ x]) simp_all
    then show ?thesis
      using that(1,2) L(2) by (cases "j = 0") (simp_all add: fin_def outcome_simps x_def)
  qed
  have prog: "outcome P Q (BN_rshift1 r a) s \<longleftrightarrow>
      outcome P Q (seq (if a \<noteq> r then seq (bn_wexpand r j) (set_neg r (bn_neg ?a)) else ret ()) fin) s"
  proof -
    have fit: "Suc k \<le> length (bn_d ?a)" and ws: "take (Suc k) (bn_d ?a) = bn_words ?a" and c: "Suc k - 1 = k" "64 - 1 = (63 :: nat)"
      using k wf by (simp_all add: bn_wf_def bn_fits_def bn_words_def)
    show ?thesis
      unfolding BN_rshift1_def outcome_bnd [of _ _ "get a"] outcome_get if_not_P [OF False] k
        outcome_bnd [of _ _ "read_words a (Suc k)"] outcome_read ws c Let_def BN_BITS2_def
      unfolding fin_def L_def j_def rp_def t_def ap_def using fit by simp
  qed
  show ?thesis
  proof (cases "a = r")
    case True
    then show ?thesis
      unfolding prog using fin [of s ?a] wf k by (simp add: outcome_simps bn_wf_def bn_fits_def j_def)
  next
    case False
    have "outcome P Q (seq (bn_wexpand r j) (seq (set_neg r (bn_neg ?a)) fin)) s"
      unfolding outcome_bnd [of _ _ "bn_wexpand r j"]
    proof (rule outcome_wexpand [OF fits], goal_cases)
      case (1 t d)
      then show ?case
        using fin [of "set_num r ((nums s r)\<lparr>bn_d := d, bn_neg := bn_neg ?a\<rparr>) t" "(nums s r)\<lparr>bn_d := d, bn_neg := bn_neg ?a\<rparr>"] by (simp add: outcome_simps)
    next
      case (2 t)
      then show ?case
        by (intro Q) (auto simp: only_def j_def k split: if_splits)
    qed
    with False show ?thesis
      unfolding prog by (simp add: outcome_simps bnd_assoc)
  qed
qed

section \<open>Properties\<close>

text \<open>
  C29: \<open>BN_lshift\<close> multiplies by a power of two and \<open>BN_rshift\<close> divides by one, rounding towards zero, for every
  non-negative distance and also when the result is the argument. They return a well-formed number, change nothing else,
  and fail only when the array of the result is too short to begin with. (The bound is that of the number of words
  an array can have, which is less than \<open>2 ^ 23\<close>.)
\<close>

theorem shifts_are_powers_of_two:
  assumes "bn_fits (nums s r)" and "bn_wf (nums s a)" and "0 \<le> n" and "bn_top (nums s a) < 2 ^ 25"
  shows "outcome (\<lambda>_ t. \<exists>x. nums t = (nums s)(r := x) \<and> bn_wf x \<and> bn_int x = bn_int (nums s a) * 2 ^ nat n)
      (\<lambda>t. only r s t \<and> length (bn_d (nums s r)) \<le> bn_top (nums s a) + nat n div 64) (BN_lshift r a n) s \<and>
    outcome (\<lambda>_ t. \<exists>x. nums t = (nums s)(r := x) \<and> bn_wf x \<and> bn_int x = rshift_value (nums s a) (nat n))
      (\<lambda>t. only r s t \<and> length (bn_d (nums s r)) < bn_top (nums s a)) (BN_rshift r a n) s"
  by (intro conjI BN_lshift_spec BN_rshift_spec assms) blast+

theorem shifts_are_powers_of_two_witness:
  "outcome (\<lambda>_ t. \<exists>x. nums t = (nums demo_state)(2 := x) \<and> bn_wf x \<and> bn_int x = (- (7 + 2 * 2 ^ 64)) * 2 ^ nat 70)
      (\<lambda>t. only 2 demo_state t \<and> length (bn_d (nums demo_state 2)) \<le> 2 + nat 70 div 64) (BN_lshift 2 1 70) demo_state \<and>
    outcome (\<lambda>_ t. \<exists>x. nums t = (nums demo_state)(2 := x) \<and> bn_wf x \<and> bn_int x = rshift_value (nums demo_state 1) (nat 70))
      (\<lambda>t. only 2 demo_state t \<and> length (bn_d (nums demo_state 2)) < 2) (BN_rshift 2 1 70) demo_state"
  using shifts_are_powers_of_two [of demo_state 2 1 70] by (simp only: demo_state) simp

text \<open>
  setting, clearing, masking and testing bits. Each operation does to the absolute value what its name says and
  leaves the sign, except that a number that has become zero is not negative. \<open>BN_set_bit\<close> fails only when its array
  is too short; clearing and masking fail, and change nothing, when the bit is above the words of the number.
\<close>

theorem bits_of_numbers:
  assumes "bn_wf (nums s a)" and "0 \<le> n"
  shows "outcome (\<lambda>_ t. \<exists>x. nums t = (nums s)(a := x) \<and> bn_wf x \<and> bn_neg x = bn_neg (nums s a) \<and>
        bn_abs x = set_bit (nat n) (bn_abs (nums s a)))
      (\<lambda>t. nums t = nums s \<and> length (bn_d (nums s a)) \<le> nat n div 64) (BN_set_bit a n) s \<and>
    outcome (\<lambda>_ t. \<exists>x. nums t = (nums s)(a := x) \<and> bn_wf x \<and> bn_neg x = (bn_neg (nums s a) \<and> bn_abs x \<noteq> 0) \<and>
        bn_abs x = unset_bit (nat n) (bn_abs (nums s a)))
      (\<lambda>t. t = s \<and> bn_top (nums s a) \<le> nat n div 64) (BN_clear_bit a n) s \<and>
    outcome (\<lambda>_ t. \<exists>x. nums t = (nums s)(a := x) \<and> bn_wf x \<and> bn_neg x = (bn_neg (nums s a) \<and> bn_abs x \<noteq> 0) \<and>
        bn_abs x = take_bit (nat n) (bn_abs (nums s a)))
      (\<lambda>t. t = s \<and> bn_top (nums s a) \<le> nat n div 64) (BN_mask_bits a n) s \<and>
    BN_is_bit_set (nums s a) n = bit (bn_abs (nums s a)) (nat n)"
proof (intro conjI)
  show "BN_is_bit_set (nums s a) n = bit (bn_abs (nums s a)) (nat n)"
    using BN_is_bit_set_spec assms by simp
qed (rule BN_set_bit_spec [OF assms] BN_clear_bit_spec [OF assms] BN_mask_bits_spec [OF assms]; blast)+

theorem bits_of_numbers_witness:
  "outcome (\<lambda>_ t. \<exists>x. nums t = (nums demo_state)(0 := x) \<and> bn_wf x \<and> bn_neg x = bn_neg (nums demo_state 0) \<and>
        bn_abs x = set_bit (nat 1) 5)
      (\<lambda>t. nums t = nums demo_state \<and> length (bn_d (nums demo_state 0)) \<le> nat 1 div 64) (BN_set_bit 0 1) demo_state \<and>
    BN_is_bit_set (nums demo_state 0) 1 = bit (5 :: nat) (nat 1)"
  using bits_of_numbers [of demo_state 0 1] by (simp only: demo_state)

end
