(* ===== verification/Bn_Exp.thy ===== *)
theory Bn_Exp
  imports Bn_Mont Bn_Bits
begin

text \<open>
  The sliding-window exponentiation of small numbers in the domain of Montgomery's, and the inverse modulo a prime
  (\<open>bn_mod_exp_mont_small\<close> and \<open>bn_mod_inverse_prime_mont_small\<close> of \<open>exponentiation.c\<close>).
\<close>

unbundle bit_operations_syntax

section \<open>Windows\<close>

definition BN_window_bits_for_exponent_size :: "nat \<Rightarrow> nat" where
  "BN_window_bits_for_exponent_size b =
     (if 671 < b then 6 else if 239 < b then 5 else if 79 < b then 4 else if 23 < b then 3 else 1)"

definition TABLE_BITS_SMALL :: nat where
  "TABLE_BITS_SMALL = 5"

text \<open>The odd powers: \<open>v\<close> is the last entry, \<open>k\<close> more are to be computed.\<close>

fun power_table :: "bn_mont_ctx \<Rightarrow> nat \<Rightarrow> u64 list \<Rightarrow> nat \<Rightarrow> u64 list \<Rightarrow> u64 list list option" where
  "power_table m num d 0 v = Some []"
| "power_table m num d (Suc k) v = (case bn_mod_mul_montgomery_small False num v num d num m of
      None \<Rightarrow> None
    | Some v' \<Rightarrow> map_option (\<lambda>vs. v' # vs) (power_table m num d k v'))"

definition odd_powers :: "bn_mont_ctx \<Rightarrow> nat \<Rightarrow> u64 list \<Rightarrow> nat \<Rightarrow> u64 list list option" where
  "odd_powers m num a window =
     (if 1 < window then
        case bn_mod_mul_montgomery_small True num a num a num m of
          None \<Rightarrow> None
        | Some d \<Rightarrow> map_option (\<lambda>vs. a # vs) (power_table m num d (2 ^ (window - 1) - 1) a)
      else Some [a])"

text \<open>The largest window below the bit \<open>wstart\<close>: its value and the number of bits after the first.\<close>

definition widen :: "u64 list \<Rightarrow> nat \<Rightarrow> nat \<Rightarrow> nat \<Rightarrow> u32 \<times> nat \<Rightarrow> u32 \<times> nat" where
  "widen p num_p wstart i = (\<lambda>(wvalue, wsize).
     if bn_is_bit_set_words p num_p (wstart - i) then (push_bit (i - wsize) wvalue OR 1, i) else (wvalue, wsize))"

definition find_window :: "u64 list \<Rightarrow> nat \<Rightarrow> nat \<Rightarrow> nat \<Rightarrow> u32 \<times> nat" where
  "find_window p num_p window wstart = fold (widen p num_p wstart) [1..<min window (wstart + 1)] (1, 0)"

fun square_times :: "bn_mont_ctx \<Rightarrow> nat \<Rightarrow> nat \<Rightarrow> u64 list \<Rightarrow> u64 list option" where
  "square_times m num 0 r = Some r"
| "square_times m num (Suc k) r = (case bn_mod_mul_montgomery_small True num r num r num m of
      None \<Rightarrow> None
    | Some r \<Rightarrow> square_times m num k r)"

lemma widen_size: "snd (fold (widen p num_p wstart) is (w, s)) \<in> insert s (set is)"
proof (induction "is" arbitrary: w s)
  case (Cons i "is")
  obtain w' s' where "widen p num_p wstart i (w, s) = (w', s')" and "s' \<in> {s, i}"
    by (cases "widen p num_p wstart i (w, s)") (auto simp: widen_def split: if_splits)
  with Cons [of w' s'] show ?case
    by auto
qed simp

lemma find_window_size: "find_window p num_p window wstart = (w, s) \<Longrightarrow> s \<le> wstart"
  using widen_size [of p num_p wstart "[1..<min window (wstart + 1)]" 1 0] by (auto simp: find_window_def)

lemma find_window_less: "(w, s) = find_window p num_p window wstart \<Longrightarrow> wstart \<noteq> s \<Longrightarrow> wstart - Suc s < wstart"
  using find_window_size [of p num_p window wstart w s] by simp

section \<open>The exponentiation\<close>

text \<open>
  The loop over the bits of the exponent from \<open>wstart\<close> down. Its assertions, that the value of a window
  is odd and below \<open>2 ^ window\<close>, are part of the lemma \<open>find_window_spec\<close>.
\<close>

function exp_loop :: "u64 list \<Rightarrow> nat \<Rightarrow> nat \<Rightarrow> bn_mont_ctx \<Rightarrow> nat \<Rightarrow> u64 list list \<Rightarrow> nat \<Rightarrow> u64 list \<Rightarrow> bool \<Rightarrow>
    u64 list option" where
  "exp_loop p num_p window m num val wstart r r_is_one =
     (if \<not> bn_is_bit_set_words p num_p wstart then
        (case square_times m num (if r_is_one then 0 else 1) r of
          None \<Rightarrow> None
        | Some r \<Rightarrow>
            if wstart = 0 then Some r else exp_loop p num_p window m num val (wstart - 1) r r_is_one)
      else
        let (wvalue, wsize) = find_window p num_p window wstart in
        (case square_times m num (if r_is_one then 0 else wsize + 1) r of
          None \<Rightarrow> None
        | Some r \<Rightarrow>
            (case bn_mod_mul_montgomery_small False num r num (val ! unat (drop_bit 1 wvalue)) num m of
              None \<Rightarrow> None
            | Some r \<Rightarrow>
                if wstart = wsize then Some r
                else exp_loop p num_p window m num val (wstart - (wsize + 1)) r False)))"
  by pat_completeness auto
termination
  by (relation "measure (\<lambda>(_, _, _, _, _, _, wstart, _). wstart)") (auto dest: find_window_less)

declare exp_loop.simps [simp del]

definition bn_mod_exp_mont_small :: "nat \<Rightarrow> u64 list \<Rightarrow> nat \<Rightarrow> u64 list \<Rightarrow> nat \<Rightarrow> bn_mont_ctx \<Rightarrow> u64 list option" where
  "bn_mod_exp_mont_small num_r a num_a p num_p m =
     (let n = bn_d (mont_N m); num_n = bn_top (mont_N m) in
      if num_n \<noteq> num_a \<or> num_n \<noteq> num_r \<or> BN_SMALL_MAX_WORDS < num_n then None
      else if \<not> BN_is_odd (mont_N m) then None
      else
        let bits = (if num_p \<noteq> 0 then BN_num_bits_word (p ! (num_p - 1)) + (num_p - 1) * BN_BITS2 else 0) in
        if bits = 0 then
          Some (let r = replicate num_r 0 in if \<not> BN_is_one (mont_N m) then r[0 := 1] else r)
        else
          let window = BN_window_bits_for_exponent_size bits;
              window = (if TABLE_BITS_SMALL < window then TABLE_BITS_SMALL else window) in
          case odd_powers m num_n (take num_n a) window of
            None \<Rightarrow> None
          | Some val \<Rightarrow>
              (case (if n ! (num_n - 1) AND push_bit (BN_BITS2 - 1) 1 \<noteq> 0
                     then Some (map (\<lambda>i. if i = 0 then 0 - n ! 0 else NOT (n ! i)) [0..<num_n])
                     else bn_from_montgomery_small num_r (bn_d (mont_RR m)) (bn_top (mont_RR m)) m) of
                None \<Rightarrow> None
              | Some r \<Rightarrow> exp_loop p num_p window m num_n val (bits - 1) r True))"

text \<open>Subtracting one from a number of words, down the borrow.\<close>

fun decrement_words :: "u64 list \<Rightarrow> u64 list" where
  "decrement_words [] = []"
| "decrement_words (w # ws) = (if w \<noteq> 0 then (w - 1) # ws else (w - 1) # decrement_words ws)"

definition bn_mod_inverse_prime_mont_small :: "nat \<Rightarrow> u64 list \<Rightarrow> nat \<Rightarrow> bn_mont_ctx \<Rightarrow> u64 list option" where
  "bn_mod_inverse_prime_mont_small num_r a num_a m =
     (let p = bn_d (mont_N m); num_p = bn_top (mont_N m) in
      if BN_SMALL_MAX_WORDS < num_p \<or> num_p = 0 then None
      else
        let p_minus_two = take num_p p;
            p_minus_two =
              (if 2 \<le> p_minus_two ! 0 then p_minus_two[0 := p_minus_two ! 0 - 2]
               else (p_minus_two ! 0 - 2) # decrement_words (tl p_minus_two)) in
        bn_mod_exp_mont_small num_r a num_a p_minus_two num_p m)"

section \<open>Bits of numbers\<close>

lemma bit_set_words:
  assumes "num \<le> length p"
  shows "bn_is_bit_set_words p num b \<longleftrightarrow> odd (bn_nat (take num p) div 2 ^ b)"
proof -
  have "bn_is_bit_set_words p num b \<longleftrightarrow> bit (bn_nat (take num p)) b"
    using assms by (auto simp: bn_is_bit_set_words_def Let_def BN_BITS2_def bit_bn_nat and_one_eq mod_2_eq_odd
        simp flip: bit_iff_odd_drop_bit)
  then show ?thesis
    by (simp only: bit_iff_odd)
qed

text \<open>A number from its bits: one bit more.\<close>

lemma div_bit: "(P :: nat) div 2 ^ b = 2 * (P div 2 ^ Suc b) + of_bool (odd (P div 2 ^ b))"
proof -
  have "P div 2 ^ Suc b = P div 2 ^ b div 2"
    by (simp only: power_Suc2 div_mult2_eq)
  then show ?thesis
    using mult_div_mod_eq [of 2 "P div 2 ^ b"] by (simp only: mod_2_eq_odd)
qed

lemma unat_append_bit:
  fixes w :: u32
  assumes "0 < k" and "unat w * 2 ^ k + 1 < 2 ^ 32"
  shows "unat (push_bit k w OR 1) = unat w * 2 ^ k + 1"
proof -
  have p: "unat (push_bit k w) = unat w * 2 ^ k"
    using assms(2) unfolding unsigned_push_bit_eq unfolding push_bit_eq_mult by (simp add: take_bit_nat_eq_self)
  have "unat (push_bit k w OR 1) = unat w * 2 ^ k OR 1"
    by (simp add: unsigned_or_eq p)
  also have "... = unat w * 2 ^ k + 1"
    unfolding or_one_eq using assms(1) by simp
  finally show ?thesis .
qed

text \<open>A window: its value is that of the bits in it.\<close>

lemma find_window_spec:
  assumes "find_window p num window wstart = (w, s)" and "num \<le> length p" and "0 < window" and "window \<le> 5"
    and "odd (bn_nat (take num p) div 2 ^ wstart)"
  shows "s \<le> wstart" and "odd (unat w)" and "unat w < 2 ^ window"
    and "bn_nat (take num p) div 2 ^ (wstart - s) = bn_nat (take num p) div 2 ^ Suc wstart * 2 ^ Suc s + unat w"
proof -
  let ?P = "bn_nat (take num p)"
  have "j < window \<Longrightarrow> j \<le> wstart \<Longrightarrow> fold (widen p num wstart) [1..<Suc j] (1, 0) = (w, s) \<Longrightarrow> s \<le> j \<and> odd (unat w) \<and>
      unat w < 2 ^ Suc s \<and> ?P div 2 ^ (wstart - s) = ?P div 2 ^ Suc wstart * 2 ^ Suc s + unat w \<and>
      ?P div 2 ^ (wstart - j) = ?P div 2 ^ (wstart - s) * 2 ^ (j - s)" for j w s
  proof (induction j arbitrary: w s)
    case 0
    then show ?case
      using div_bit [of ?P wstart] assms(5) by simp
  next
    case (Suc j)
    obtain w' s' where f: "fold (widen p num wstart) [1..<Suc j] (1, 0) = (w', s')"
      by fastforce
    have step: "widen p num wstart (Suc j) (w', s') = (w, s)"
      using Suc.prems(3) f by simp
    note ih = Suc.IH [OF _ _ f]
    have ih: "s' \<le> j" "odd (unat w')" "unat w' < 2 ^ Suc s'"
      "?P div 2 ^ (wstart - s') = ?P div 2 ^ Suc wstart * 2 ^ Suc s' + unat w'"
      "?P div 2 ^ (wstart - j) = ?P div 2 ^ (wstart - s') * 2 ^ (j - s')"
      using ih Suc.prems(1,2) by auto
    have "Suc (wstart - Suc j) = wstart - j"
      using Suc.prems(2) by simp
    then have P: "?P div 2 ^ (wstart - Suc j) = ?P div 2 ^ (wstart - s') * 2 ^ (Suc j - s') + of_bool (odd (?P div 2 ^ (wstart - Suc j)))"
      using div_bit [of ?P "wstart - Suc j"] ih(1,5) by (simp add: Suc_diff_le)
    show ?case
    proof (cases "odd (?P div 2 ^ (wstart - Suc j))")
      case False
      then have "w = w'" and "s = s'"
        using step by (simp_all add: widen_def bit_set_words [OF assms(2)])
      with False P ih show ?thesis
        by simp
    next
      case True
      then have "widen p num wstart (Suc j) (w', s') = (push_bit (Suc j - s') w' OR 1, Suc j)"
        by (simp add: widen_def bit_set_words [OF assms(2)])
      then have w: "w = push_bit (Suc j - s') w' OR 1" and s: "s = Suc j"
        using step by auto
      have "unat w' * 2 ^ (Suc j - s') + 2 ^ (Suc j - s') \<le> 2 ^ Suc s' * 2 ^ (Suc j - s')"
        using ih(3) by (metis Suc_leI mult_Suc mult_le_mono1 add.commute)
      also have "... = 2 ^ Suc (Suc j)"
        using ih(1) by (simp flip: power_add)
      finally have "unat w' * 2 ^ (Suc j - s') + 2 ^ (Suc j - s') \<le> 2 ^ Suc (Suc j)" .
      moreover have "(2 :: nat) ^ 1 \<le> 2 ^ (Suc j - s')"
        using ih(1) by (intro power_increasing) simp_all
      ultimately have lt: "unat w' * 2 ^ (Suc j - s') + 1 < 2 ^ Suc (Suc j)"
        by simp
      have "(2 :: nat) ^ Suc (Suc j) \<le> 2 ^ 6"
        using Suc.prems(1) assms(4) by (intro power_increasing) simp_all
      then have val: "unat w = unat w' * 2 ^ (Suc j - s') + 1"
        unfolding w using lt ih(1) by (intro unat_append_bit) simp_all
      have "?P div 2 ^ (wstart - Suc j) = (?P div 2 ^ Suc wstart * 2 ^ Suc s' + unat w') * 2 ^ (Suc j - s') + 1"
        using P True ih(4) by simp
      also have "... = ?P div 2 ^ Suc wstart * (2 ^ Suc s' * 2 ^ (Suc j - s')) + unat w"
        unfolding val by (simp add: algebra_simps)
      also have "(2 :: nat) ^ Suc s' * 2 ^ (Suc j - s') = 2 ^ Suc (Suc j)"
        using ih(1) by (simp flip: power_add)
      finally show ?thesis
        using lt val ih(1) by (simp add: s)
    qed
  qed
  note loop = this
  define j where "j = min window (wstart + 1) - 1"
  have j: "j < window" "j \<le> wstart" "fold (widen p num wstart) [1..<Suc j] (1, 0) = (w, s)"
    using assms(1,3) by (simp_all add: j_def find_window_def)
  note loop = loop [OF j]
  then show "s \<le> wstart" and "odd (unat w)"
    and "?P div 2 ^ (wstart - s) = ?P div 2 ^ Suc wstart * 2 ^ Suc s + unat w"
    using j(2) by auto
  have "(2 :: nat) ^ Suc s \<le> 2 ^ window"
    using loop j(1) by (intro power_increasing) simp_all
  then show "unat w < 2 ^ window"
    using loop by linarith
qed

section \<open>Correctness\<close>

lemma square_times_spec:
  assumes "mont_wf m" and "mont_num m \<le> BN_SMALL_MAX_WORDS" and "mont_rep m x r"
  shows "\<exists>r'. square_times m (mont_num m) k r = Some r' \<and> mont_rep m (x ^ 2 ^ k) r'"
  using assms(3)
proof (induction k arbitrary: x r)
  case (Suc k)
  obtain q where "bn_mod_mul_montgomery_small True (mont_num m) r (mont_num m) r (mont_num m) m = Some q"
    and "mont_rep m (x * x) q"
    by (rule mul_rep [OF assms(1,2) Suc.prems Suc.prems, where same = True]) simp_all
  moreover have "(x * x) ^ 2 ^ k = x ^ 2 ^ Suc k"
    by (metis power2_eq_square power_Suc power_mult)
  ultimately show ?case
    using Suc.IH [of "x * x" q] by simp
qed simp

lemma power_table_spec:
  assumes "mont_wf m" and "mont_num m \<le> BN_SMALL_MAX_WORDS" and "mont_rep m x v" and "mont_rep m y d"
  shows "\<exists>vs. power_table m (mont_num m) d k v = Some vs \<and> length vs = k \<and>
    (\<forall>i<k. mont_rep m (x * y ^ Suc i) (vs ! i))"
  using assms(3)
proof (induction k arbitrary: x v)
  case (Suc k)
  obtain q where q: "bn_mod_mul_montgomery_small False (mont_num m) v (mont_num m) d (mont_num m) m = Some q"
    and xy: "mont_rep m (x * y) q"
    by (rule mul_rep [OF assms(1,2) Suc.prems assms(4), where same = False]) simp_all
  with Suc.IH [OF xy] show ?case
    by (auto simp: less_Suc_eq_0_disj ac_simps)
qed simp

lemma odd_powers_spec:
  assumes "mont_wf m" and "mont_num m \<le> BN_SMALL_MAX_WORDS" and "mont_rep m z a" and "0 < window"
  shows "\<exists>val. odd_powers m (mont_num m) a window = Some val \<and>
    (\<forall>i<2 ^ (window - 1). mont_rep m (z ^ (2 * i + 1)) (val ! i))"
proof (cases "1 < window")
  case True
  obtain d where d: "bn_mod_mul_montgomery_small True (mont_num m) a (mont_num m) a (mont_num m) m = Some d"
    and zz: "mont_rep m (z * z) d"
    by (rule mul_rep [OF assms(1,2,3,3), where same = True]) simp_all
  define k :: nat where "k = 2 ^ (window - 1) - 1"
  have k: "2 ^ (window - 1) = Suc k"
    by (simp add: k_def)
  obtain vs where vs: "power_table m (mont_num m) d k a = Some vs" "\<forall>i<k. mont_rep m (z * (z * z) ^ Suc i) (vs ! i)"
    using power_table_spec [OF assms(1-3) zz] by blast
  have "mont_rep m (z ^ (2 * i + 1)) ((a # vs) ! i)" if "i < Suc k" for i
  proof (cases i)
    case (Suc j)
    have "z ^ (2 * Suc j + 1) = (z * z) ^ Suc j * z"
      by (simp only: power_add power_mult power2_eq_square power_one_right)
    moreover have "mont_rep m (z * (z * z) ^ Suc j) (vs ! j)"
      using vs(2) that unfolding Suc by blast
    ultimately show ?thesis
      by (simp only: Suc nth_Cons_Suc mult.commute)
  qed (use assms(3) in simp)
  moreover have "odd_powers m (mont_num m) a window = Some (a # vs)"
    using True d vs(1) unfolding odd_powers_def k_def [symmetric] by simp
  ultimately show ?thesis
    unfolding k by blast
next
  case False
  then show ?thesis
    using assms(3,4) by (auto simp: odd_powers_def)
qed

lemma exp_loop_spec:
  assumes "mont_wf m" and "mont_num m \<le> BN_SMALL_MAX_WORDS" and "num_p \<le> length p" and "0 < window" and "window \<le> 5"
    and val: "\<forall>i<2 ^ (window - 1). mont_rep m (z ^ (2 * i + 1)) (val ! i)"
    and "mont_rep m (z ^ (bn_nat (take num_p p) div 2 ^ Suc wstart)) r"
    and "r_is_one \<Longrightarrow> bn_nat (take num_p p) div 2 ^ Suc wstart = 0"
  shows "\<exists>r'. exp_loop p num_p window m (mont_num m) val wstart r r_is_one = Some r' \<and>
    mont_rep m (z ^ bn_nat (take num_p p)) r'"
  using assms(7,8)
proof (induction wstart arbitrary: r r_is_one rule: less_induct)
  case (less wstart)
  let ?P = "bn_nat (take num_p p)"
  let ?Q = "?P div 2 ^ Suc wstart"
  have squares: "\<exists>r'. square_times m (mont_num m) (if r_is_one then 0 else k) r = Some r' \<and> mont_rep m (z ^ (?Q * 2 ^ k)) r'" for k
    using square_times_spec [OF assms(1,2) less.prems(1), of "if r_is_one then 0 else k"] less.prems(2)
    by (cases r_is_one) (auto simp: power_mult)
  show ?case
  proof (cases "bn_is_bit_set_words p num_p wstart")
    case False
    then have "even (?P div 2 ^ wstart)"
      using bit_set_words [OF assms(3)] by simp
    then have Q: "?P div 2 ^ wstart = ?Q * 2"
      using div_bit [of ?P wstart] by simp
    obtain r1 where r1: "square_times m (mont_num m) (if r_is_one then 0 else 1) r = Some r1"
      "mont_rep m (z ^ (?P div 2 ^ wstart)) r1"
      using squares [of 1] unfolding Q by auto
    show ?thesis
    proof (cases "wstart = 0")
      case True
      then show ?thesis
        using False r1 by (simp add: exp_loop.simps)
    next
      case 0: False
      then have S: "Suc (wstart - 1) = wstart"
        by simp
      have "\<exists>r'. exp_loop p num_p window m (mont_num m) val (wstart - 1) r1 r_is_one = Some r' \<and> mont_rep m (z ^ ?P) r'"
        using less.IH [of "wstart - 1" r1 r_is_one, unfolded S] 0 r1(2) less.prems(2) Q by simp
      then show ?thesis
        using False r1(1) 0 by (subst exp_loop.simps) simp
    qed
  next
    case True
    obtain w s where f: "find_window p num_p window wstart = (w, s)"
      by fastforce
    have "odd (?P div 2 ^ wstart)"
      using True bit_set_words [OF assms(3)] by simp
    note w = find_window_spec [OF f assms(3-5) this]
    obtain r1 where r1: "square_times m (mont_num m) (if r_is_one then 0 else s + 1) r = Some r1"
      "mont_rep m (z ^ (?Q * 2 ^ Suc s)) r1"
      using squares [of "s + 1"] unfolding Suc_eq_plus1 by blast
    define i where "i = unat (drop_bit 1 w)"
    have i: "i = unat w div 2"
      unfolding i_def unat_drop_bit_div by simp
    have i': "unat (drop_bit (Suc 0) w) = i"
      unfolding i_def by simp
    have "unat w < 2 * 2 ^ (window - 1)"
      using w(3) assms(4) by (cases window) simp_all
    then have "i < 2 ^ (window - 1)"
      by (simp add: i)
    moreover have "2 * i + 1 = unat w"
      using w(2) by (simp add: i)
    ultimately have "mont_rep m (z ^ unat w) (val ! i)"
      using val by metis
    from mul_rep [OF assms(1,2) r1(2) this, where same = False]
    obtain r2 where r2: "bn_mod_mul_montgomery_small False (mont_num m) r1 (mont_num m) (val ! i) (mont_num m) m = Some r2"
      "mont_rep m (z ^ (?P div 2 ^ (wstart - s))) r2"
      unfolding power_add [symmetric] w(4) [symmetric] by blast
    show ?thesis
    proof (cases "wstart = s")
      case True
      then show ?thesis
        using \<open>bn_is_bit_set_words p num_p wstart\<close> f r1(1) r2 by (subst exp_loop.simps) (simp add: i')
    next
      case ne: False
      then have S: "Suc (wstart - (s + 1)) = wstart - s" and lt: "wstart - (s + 1) < wstart"
        using w(1) by simp_all
      have "\<exists>r'. exp_loop p num_p window m (mont_num m) val (wstart - (s + 1)) r2 False = Some r' \<and> mont_rep m (z ^ ?P) r'"
        using r2(2) by (intro less.IH [OF lt]) (simp_all only: S simp_thms)
      then show ?thesis
        using True f r1(1) r2(1) ne by (subst exp_loop.simps) (simp add: i')
    qed
  qed
qed

text \<open>One, in the domain: the code subtracts the modulus from \<open>R\<close>, or converts the square of \<open>R\<close>.\<close>

lemma unat_NOT: "unat (NOT w :: u64) + unat w + 1 = bn_base"
proof -
  have "unat w + unat (NOT w) = unat (w XOR NOT w) + 2 * unat (w AND NOT w)"
    using add_xor_and [of "unat w" "unat (NOT w)"] by (simp only: unsigned_xor_eq unsigned_and_eq)
  also have "... = unat (- 1 :: u64)"
    by simp
  finally show ?thesis
    by (simp add: unsigned_minus_1_eq_mask mask_eq_exp_minus_1 bn_base_def)
qed

lemma unat_minus_u64: "w \<noteq> 0 \<Longrightarrow> unat (- w :: u64) + unat w = bn_base"
  using unat_add_cases [of "- w" w] by (auto simp: unat_eq_0 split: if_splits)

lemma bn_nat_NOT: "bn_nat (map NOT ws) + bn_nat ws + 1 = bn_base ^ length ws"
proof (induction ws)
  case (Cons w ws)
  have "bn_nat (map NOT (w # ws)) + bn_nat (w # ws) + 1 = bn_base * (bn_nat (map NOT ws) + bn_nat ws + 1)"
    using unat_NOT [of w] by (simp add: algebra_simps)
  then show ?case
    by (simp only: Cons) simp
qed simp

lemma negate_words:
  assumes "n \<noteq> []" and "n ! 0 \<noteq> 0"
  defines "r \<equiv> map (\<lambda>i. if i = 0 then 0 - n ! 0 else NOT (n ! i)) [0..<length n]"
  shows "length r = length n" and "bn_nat r + bn_nat n = bn_base ^ length n"
proof -
  obtain w ws where n: "n = w # ws"
    using assms(1) by (cases n) auto
  have r: "r = - w # map NOT ws"
    by (rule nth_equalityI) (auto simp: r_def n nth_Cons' simp del: upt_Suc)
  have "unat (- w) + unat w = bn_base"
    using assms(2) by (intro unat_minus_u64) (simp add: n)
  then have "bn_nat r + bn_nat n = bn_base * (bn_nat (map NOT ws) + bn_nat ws + 1)"
    unfolding r n by (simp add: algebra_simps)
  then show "bn_nat r + bn_nat n = bn_base ^ length n"
    by (simp only: bn_nat_NOT) (simp add: n)
  show "length r = length n"
    by (simp add: r n)
qed

lemma exponent_bits:
  assumes "num_p \<le> length p" and "num_p \<noteq> 0"
  shows "bn_nat (take num_p p) < 2 ^ (BN_num_bits_word (p ! (num_p - 1)) + (num_p - 1) * BN_BITS2)"
proof -
  let ?w = "p ! (num_p - 1)"
  obtain k where k: "num_p = Suc k"
    using assms(2) by (cases num_p) simp_all
  have w: "unat ?w < 2 ^ BN_num_bits_word ?w"
    using BN_num_bits_word_spec [of ?w] by (cases "?w = 0") (simp_all add: BN_num_bits_word_def num_bits_table_def)
  have B: "bn_base ^ k = 2 ^ (k * BN_BITS2)"
    unfolding bn_base_def BN_BITS2_def power_mult [symmetric] by (simp add: mult.commute)
  have "bn_nat (take num_p p) < bn_base ^ k * (unat ?w + 1)"
    using bn_nat_take_Suc [of k p] bn_nat_take_less [of k p] assms(1) by (simp add: k)
  also have "... \<le> bn_base ^ k * 2 ^ BN_num_bits_word ?w"
    using w by (intro mult_le_mono2) simp
  finally show ?thesis
    by (simp add: B k power_add mult.commute)
qed

lemma mont_is_odd: "mont_wf m \<Longrightarrow> BN_is_odd (mont_N m)"
proof -
  assume m: "mont_wf m"
  then have "odd (unat (bn_d (mont_N m) ! 0))"
    by (intro odd_product_word) (auto simp: mont_wf_def)
  with mont_wf_words(3) [OF m] show ?thesis
    by (simp add: BN_is_odd_def mont_num_def and_one_eq mod_2_eq_odd odd_unat)
qed

lemma one_by_subtraction:
  assumes "mont_wf m" and "2 ^ 63 \<le> unat (bn_d (mont_N m) ! (mont_num m - 1))"
  shows "mont_rep m 1 (map (\<lambda>i. if i = 0 then 0 - bn_d (mont_N m) ! 0 else NOT (bn_d (mont_N m) ! i)) [0..<mont_num m])"
proof -
  define n where "n = bn_d (mont_N m)"
  note w = mont_wf_words [OF assms(1), folded n_def]
  let ?k = "mont_num m" and ?N = "mont_n m" and ?R = "mont_R m"
  obtain l where l: "?k = Suc l"
    using w(3) by (cases ?k) simp_all
  define ns where "ns = take ?k n"
  define r where "r = map (\<lambda>i. if i = 0 then 0 - n ! 0 else NOT (n ! i)) [0..<?k]"
  have ns: "length ns = ?k" "ns \<noteq> []" "ns ! 0 = n ! 0" "bn_nat ns = ?N"
    using w(1-3) by (auto simp: ns_def)
  have n0: "n ! 0 \<noteq> 0"
    using mont_is_odd [OF assms(1)] by (auto simp: BN_is_odd_def n_def)
  have "r = map (\<lambda>i. if i = 0 then 0 - ns ! 0 else NOT (ns ! i)) [0..<length ns]"
    unfolding r_def ns(1,3) by (intro map_cong) (auto simp: ns_def)
  then have r: "length r = ?k" "bn_nat r + ?N = ?R"
    using negate_words [OF ns(2)] n0 ns by (simp_all add: mont_R_def)
  have R: "?R = bn_base ^ l * 2 ^ 63 + bn_base ^ l * 2 ^ 63"
    by (simp add: mont_R_def l bn_base_def)
  have "bn_base ^ l * 2 ^ 63 \<le> bn_base ^ l * unat (n ! l)"
    using assms(2) by (intro mult_le_mono2) (simp add: l n_def)
  moreover have "?N = bn_nat (take l n) + bn_base ^ l * unat (n ! l)"
    using w(1) by (simp add: w(2) l bn_nat_take_Suc)
  ultimately have "bn_base ^ l * 2 ^ 63 \<le> ?N"
    by linarith
  moreover have "bn_base ^ l * 2 ^ 63 \<noteq> ?N"
    using mont_odd [OF assms(1)] by (metis dvd_mult dvd_power zero_less_numeral)
  ultimately have "bn_nat r < ?N"
    using r(2) R by linarith
  then have "bn_nat r = ?R mod ?N"
    using r(2) by (metis mod_add_self2 mod_less)
  with r(1) show ?thesis
    unfolding n_def [symmetric] r_def [symmetric] mont_rep_def by simp
qed

lemma one_by_conversion:
  assumes "mont_wf m" and "mont_num m \<le> BN_SMALL_MAX_WORDS"
  obtains r where "bn_from_montgomery_small (mont_num m) (bn_d (mont_RR m)) (bn_top (mont_RR m)) m = Some r"
    and "mont_rep m 1 r"
proof -
  note w = mont_wf_words [OF assms(1)]
  let ?k = "mont_num m" and ?N = "mont_n m" and ?R = "mont_R m"
  note RR = mont_RR_words [OF assms(1)]
  have "bn_top (mont_RR m) \<le> 2 * ?k"
    using RR(1) by simp
  moreover have "?N * 1 \<le> ?N * ?R"
    using w(5) by (intro mult_le_mono2) simp
  then have "?R ^ 2 mod ?N < ?N * ?R"
    using RR(4) by linarith
  ultimately obtain r where r: "bn_from_montgomery_small ?k (bn_d (mont_RR m)) (bn_top (mont_RR m)) m = Some r"
    "length r = ?k" "bn_nat r < ?N" "(?R * bn_nat r) mod ?N = (?R ^ 2 mod ?N) mod ?N"
    using from_montgomery_small_spec [OF assms(1,2) RR(2), unfolded RR(3)] by blast
  then have "mont_rep m 1 r"
    by (intro mont_rep_product [OF assms(1)]) (simp_all add: power2_eq_square)
  with r(1) show thesis
    using that by blast
qed

lemma mont_one:
  assumes "mont_wf m" and "mont_num m \<le> BN_SMALL_MAX_WORDS"
  obtains r where "(if bn_d (mont_N m) ! (mont_num m - 1) AND push_bit (BN_BITS2 - 1) 1 \<noteq> 0
      then Some (map (\<lambda>i. if i = 0 then 0 - bn_d (mont_N m) ! 0 else NOT (bn_d (mont_N m) ! i)) [0..<mont_num m])
      else bn_from_montgomery_small (mont_num m) (bn_d (mont_RR m)) (bn_top (mont_RR m)) m) = Some r"
    and "mont_rep m 1 r"
proof -
  let ?t = "bn_d (mont_N m) ! (mont_num m - 1)"
  have top: "?t AND push_bit (BN_BITS2 - 1) 1 \<noteq> 0 \<longleftrightarrow> 2 ^ 63 \<le> unat ?t"
    using and_block [of ?t 63 1] unat_u64_less [of ?t] by (simp add: BN_BITS2_def)
  show thesis
  proof (cases "2 ^ 63 \<le> unat ?t")
    case True
    with that show thesis
      unfolding top using one_by_subtraction [OF assms(1)] by simp
  next
    case False
    obtain r where "bn_from_montgomery_small (mont_num m) (bn_d (mont_RR m)) (bn_top (mont_RR m)) m = Some r"
      and "mont_rep m 1 r"
      by (rule one_by_conversion [OF assms])
    with that [of r] False show thesis
      unfolding top by simp
  qed
qed

text \<open>The whole function, for an exponent that is not zero and for zero.\<close>

lemma exp_of_positive:
  assumes "mont_wf m" and "mont_num m \<le> BN_SMALL_MAX_WORDS" and "num_p \<le> length p"
    and "0 < bn_nat (take num_p p)" and "mont_rep m z a"
  shows "\<exists>r. bn_mod_exp_mont_small (mont_num m) a (mont_num m) p num_p m = Some r \<and>
    mont_rep m (z ^ bn_nat (take num_p p)) r"
proof -
  let ?P = "bn_nat (take num_p p)" and ?k = "mont_num m"
  define bits where "bits = BN_num_bits_word (p ! (num_p - 1)) + (num_p - 1) * BN_BITS2"
  have np: "num_p \<noteq> 0"
    using assms(4) by (intro notI) simp
  have lt: "?P < 2 ^ bits"
    using exponent_bits [OF assms(3) np] by (simp add: bits_def)
  then have bits: "bits \<noteq> 0"
    using assms(4) by (intro notI) simp
  define window where "window = (if TABLE_BITS_SMALL < BN_window_bits_for_exponent_size bits then TABLE_BITS_SMALL
    else BN_window_bits_for_exponent_size bits)"
  have window: "0 < window" "window \<le> 5"
    by (auto simp: window_def BN_window_bits_for_exponent_size_def TABLE_BITS_SMALL_def)
  have a: "take ?k a = a"
    using assms(5) by (simp add: mont_rep_def)
  obtain val where val: "odd_powers m ?k a window = Some val" "\<forall>i<2 ^ (window - 1). mont_rep m (z ^ (2 * i + 1)) (val ! i)"
    using odd_powers_spec [OF assms(1,2,5) window(1)] by blast
  obtain r where r: "(if bn_d (mont_N m) ! (?k - 1) AND push_bit (BN_BITS2 - 1) 1 \<noteq> 0
      then Some (map (\<lambda>i. if i = 0 then 0 - bn_d (mont_N m) ! 0 else NOT (bn_d (mont_N m) ! i)) [0..<?k])
      else bn_from_montgomery_small ?k (bn_d (mont_RR m)) (bn_top (mont_RR m)) m) = Some r" "mont_rep m 1 r"
    by (rule mont_one [OF assms(1,2)])
  have "?P div 2 ^ Suc (bits - 1) = 0"
    using lt bits by simp
  then have "\<exists>r'. exp_loop p num_p window m ?k val (bits - 1) r True = Some r' \<and> mont_rep m (z ^ ?P) r'"
    using r(2) by (intro exp_loop_spec [OF assms(1-3) window val(2)]) simp_all
  moreover have "bn_mod_exp_mont_small ?k a ?k p num_p m = exp_loop p num_p window m ?k val (bits - 1) r True"
    using assms(2) mont_is_odd [OF assms(1)] bits
    unfolding bn_mod_exp_mont_small_def Let_def mont_num_def [symmetric] bits_def [symmetric] if_P [OF np]
      window_def [symmetric] a val(1) option.case r(1) by simp
  ultimately show ?thesis
    by simp
qed

lemma abs_is_word_spec:
  assumes "bn_wf x"
  shows "BN_abs_is_word x w \<longleftrightarrow> bn_abs x = unat w"
proof -
  consider "bn_top x = 0" | "bn_top x = 1" | "1 < bn_top x"
    by linarith
  then show ?thesis
  proof cases
    case 1
    then show ?thesis
      by (auto simp: BN_abs_is_word_def bn_abs_def bn_words_def unat_eq_0 eq_commute [of 0])
  next
    case 2
    then have "bn_abs x = unat (bn_d x ! 0)"
      using assms by (cases "bn_d x") (auto simp: bn_abs_def bn_words_def bn_wf_def bn_fits_def)
    with 2 show ?thesis
      by (simp add: BN_abs_is_word_def word_unat_eq_iff)
  next
    case 3
    have "bn_base ^ 1 \<le> bn_base ^ (bn_top x - 1)"
      using 3 by (intro power_increasing) (simp_all add: Suc_le_eq)
    also have "... \<le> bn_abs x"
      using assms 3 by (simp add: bn_wf_iff)
    finally have "unat w < bn_abs x"
      using unat_bn_base [of w] by (simp del: unat_bn_base)
    with 3 show ?thesis
      by (simp add: BN_abs_is_word_def)
  qed
qed

lemma exp_of_zero:
  assumes "mont_wf m" and "mont_num m \<le> BN_SMALL_MAX_WORDS" and "num_p = 0 \<or> num_p = 1 \<and> p ! 0 = 0"
  obtains r where "bn_mod_exp_mont_small (mont_num m) a (mont_num m) p num_p m = Some r"
    and "length r = mont_num m" and "bn_nat r = 1 mod mont_n m"
proof -
  let ?k = "mont_num m"
  have bits: "(if num_p \<noteq> 0 then BN_num_bits_word (p ! (num_p - 1)) + (num_p - 1) * BN_BITS2 else 0) = 0"
    using assms(3) by (auto simp: BN_num_bits_word_def num_bits_table_def)
  define r :: "u64 list" where "r = (let r = replicate ?k 0 in if \<not> BN_is_one (mont_N m) then r[0 := 1] else r)"
  obtain l where l: "?k = Suc l"
    using mont_wf_words(3) [OF assms(1)] by (cases ?k) simp_all
  have one: "BN_is_one (mont_N m) \<longleftrightarrow> mont_n m = 1"
    using assms(1) by (simp add: BN_is_one_def mont_wf_def abs_is_word_spec mont_n_def)
  have "bn_nat r = (if BN_is_one (mont_N m) then 0 else 1)"
    by (simp add: r_def l)
  also have "... = 1 mod mont_n m"
    using mont_wf_words(4) [OF assms(1)] by (simp add: one)
  finally have "bn_nat r = 1 mod mont_n m" .
  moreover have "bn_mod_exp_mont_small ?k a ?k p num_p m = Some r"
    using assms(2) mont_is_odd [OF assms(1)]
    unfolding bn_mod_exp_mont_small_def Let_def mont_num_def [symmetric] bits by (simp add: r_def Let_def)
  moreover have "length r = ?k"
    by (simp add: r_def Let_def)
  ultimately show thesis
    using that by blast
qed

lemma decrement_words_spec:
  assumes "bn_nat ws \<noteq> 0"
  shows "bn_nat (decrement_words ws) + 1 = bn_nat ws" and "length (decrement_words ws) = length ws"
proof -
  have "bn_nat (decrement_words ws) + 1 = bn_nat ws \<and> length (decrement_words ws) = length ws"
    using assms
  proof (induction ws)
    case (Cons w ws)
    show ?case
    proof (cases "w = 0")
      case True
      with Cons have "bn_base * (bn_nat (decrement_words ws) + 1) = bn_base * bn_nat ws"
        and "length (decrement_words ws) = length ws"
        by simp_all
      moreover have "unat (- 1 :: u64) + 1 = bn_base"
        using unat_NOT [of 0] by simp
      ultimately show ?thesis
        using True by simp
    next
      case False
      then show ?thesis
        using unat_gt_0 [of w] by (simp add: unat_minus_one)
    qed
  qed simp
  then show "bn_nat (decrement_words ws) + 1 = bn_nat ws" and "length (decrement_words ws) = length ws"
    by simp_all
qed

lemma inverse_spec:
  assumes "mont_wf m" and "mont_num m \<le> BN_SMALL_MAX_WORDS" and "2 < mont_n m" and "mont_rep m z a"
  shows "\<exists>r. bn_mod_inverse_prime_mont_small (mont_num m) a (mont_num m) m = Some r \<and>
    mont_rep m (z ^ (mont_n m - 2)) r"
proof -
  note w = mont_wf_words [OF assms(1)]
  let ?k = "mont_num m" and ?N = "mont_n m"
  define p where "p = take ?k (bn_d (mont_N m))"
  define q where "q = (if 2 \<le> p ! 0 then p[0 := p ! 0 - 2] else (p ! 0 - 2) # decrement_words (tl p))"
  obtain x xs where p: "p = x # xs"
    using w(1,3) by (cases p) (auto simp: p_def)
  have len: "length p = ?k" and N: "?N = bn_nat p"
    using w(1,2) by (simp_all add: p_def)
  have "bn_nat q + 2 = bn_nat p \<and> length q = length p"
  proof (cases "2 \<le> x")
    case True
    then have "unat (x - 2) + 2 = unat x"
      by (simp add: unat_sub word_le_nat_alt)
    with True show ?thesis
      by (simp add: q_def p)
  next
    case False
    have "odd (unat x)"
      using mont_odd [OF assms(1)] by (simp add: N p bn_base_def)
    moreover have "unat x < 2"
      using False by (simp add: word_le_nat_alt)
    ultimately have "unat x = 1"
      by (cases "unat x") simp_all
    then have x: "x = 1"
      by (simp add: word_unat_eq_iff)
    have "bn_nat xs \<noteq> 0"
      using assms(3) by (intro notI) (simp add: N p x)
    note d = decrement_words_spec [OF this]
    have "unat (1 - 2 :: u64) + 1 = bn_base"
      using unat_NOT [of 0] by simp
    then have "bn_nat q + 2 = bn_base * (bn_nat (decrement_words xs) + 1) + 1"
      using False by (simp add: q_def p x)
    with d x False show ?thesis
      by (simp add: p q_def)
  qed
  then have "bn_nat q = ?N - 2" and "length q = ?k"
    using len N by linarith+
  then have q: "bn_nat (take ?k q) = ?N - 2" "length q = ?k"
    by simp_all
  have "bn_mod_inverse_prime_mont_small ?k a ?k m = bn_mod_exp_mont_small ?k a ?k q ?k m"
    using assms(2) w(3) unfolding bn_mod_inverse_prime_mont_small_def Let_def mont_num_def [symmetric]
    by (simp add: q_def p_def)
  moreover have "\<exists>r. bn_mod_exp_mont_small ?k a ?k q ?k m = Some r \<and> mont_rep m (z ^ (?N - 2)) r"
    using exp_of_positive [OF assms(1,2) _ _ assms(4), of ?k q, unfolded q] assms(3) by simp
  ultimately show ?thesis
    by simp
qed

section \<open>Properties\<close>

text \<open>
  C7: exponentiation by sliding windows. For a well-formed context of at most nine words and an exponent that is not zero,
  given in any number of words, \<open>bn_mod_exp_mont_small\<close> returns, and maps the representation of \<open>z\<close> to that
  of \<open>z\<close> to the power of the exponent.
\<close>

theorem montgomery_exponentiation:
  assumes "mont_wf m" and "mont_num m \<le> BN_SMALL_MAX_WORDS" and "num_p \<le> length p"
    and "0 < bn_nat (take num_p p)" and "mont_rep m z a"
  shows "\<exists>r. bn_mod_exp_mont_small (mont_num m) a (mont_num m) p num_p m = Some r \<and>
    mont_rep m (z ^ bn_nat (take num_p p)) r"
  by (rule exp_of_positive [OF assms])

theorem montgomery_exponentiation_witness:
  "\<exists>r. bn_mod_exp_mont_small 1 [6] 1 [5, 0] 2 demo_mont = Some r \<and> mont_rep demo_mont (3 ^ 5) r"
  using montgomery_exponentiation [of demo_mont 2 "[5, 0]" 3 "[6]"] demo_mont
  by (simp add: BN_SMALL_MAX_WORDS_def mont_rep_def mod_simps mod_mult_right_eq [of 3 "mont_R demo_mont" 7, symmetric])

text \<open>
  an exponent that is zero, of no words or one word, gives one itself, not its representation: the result is that of the
  power only when \<open>R\<close> is one modulo the modulus.
\<close>

theorem zero_exponent_leaves_domain:
  assumes "mont_wf m" and "mont_num m \<le> BN_SMALL_MAX_WORDS" and "num_p = 0 \<or> num_p = 1 \<and> p ! 0 = 0"
  shows "\<exists>r. bn_mod_exp_mont_small (mont_num m) a (mont_num m) p num_p m = Some r \<and>
    bn_nat r = 1 mod mont_n m \<and> (mont_rep m 1 r \<longleftrightarrow> mont_R m mod mont_n m = 1 mod mont_n m)"
proof -
  obtain r where "bn_mod_exp_mont_small (mont_num m) a (mont_num m) p num_p m = Some r"
    and "length r = mont_num m" and "bn_nat r = 1 mod mont_n m"
    by (rule exp_of_zero [OF assms])
  then show ?thesis
    by (auto simp: mont_rep_def)
qed

theorem zero_exponent_leaves_domain_witness:
  "\<exists>r. bn_mod_exp_mont_small 1 [6] 1 [0] 1 demo_mont = Some r \<and> \<not> mont_rep demo_mont 1 r"
  using zero_exponent_leaves_domain [of demo_mont 1 "[0]" "[6]"] demo_mont by (auto simp: BN_SMALL_MAX_WORDS_def)

text \<open>
  the inverse modulo a prime. \<open>bn_mod_inverse_prime_mont_small\<close> computes the power to \<open>N - 2\<close>; when Fermat's
  equation holds for \<open>z\<close>, as it does for a prime modulus that does not divide \<open>z\<close>, the result represents the
  inverse of \<open>z\<close>.
\<close>

theorem montgomery_prime_inverse:
  assumes "mont_wf m" and "mont_num m \<le> BN_SMALL_MAX_WORDS" and "2 < mont_n m" and "mont_rep m z a"
    and "z ^ (mont_n m - 1) mod mont_n m = 1"
  shows "\<exists>r w. bn_mod_inverse_prime_mont_small (mont_num m) a (mont_num m) m = Some r \<and>
    mont_rep m w r \<and> (z * w) mod mont_n m = 1"
proof -
  have "z * z ^ (mont_n m - 2) = z ^ Suc (mont_n m - 2)"
    by simp
  also have "Suc (mont_n m - 2) = mont_n m - 1"
    using assms(3) by simp
  finally show ?thesis
    using inverse_spec [OF assms(1-4)] assms(5) by metis
qed

theorem montgomery_prime_inverse_witness:
  "\<exists>r w. bn_mod_inverse_prime_mont_small 1 [6] 1 demo_mont = Some r \<and> mont_rep demo_mont w r \<and> (3 * w) mod 7 = 1"
  using montgomery_prime_inverse [of demo_mont 3 "[6]"] demo_mont
  by (simp add: BN_SMALL_MAX_WORDS_def mont_rep_def mod_simps mod_mult_right_eq [of 3 "mont_R demo_mont" 7, symmetric])

end
