(* ===== verification/Bn_Ctx.thy ===== *)
theory Bn_Ctx
  imports Bn_Mont Bn_Bits
begin

text \<open>
  Setting up a context for Montgomery's arithmetic (\<open>BN_MONT_CTX_set\<close> of \<open>montgomery.c\<close> and
  \<open>bn_mod_exp_base_2_vartime\<close> of \<open>montgomery_inv.c\<close>), with the operations on \<open>BIGNUM\<close>s they are made of, and the
  reduction they make correct. \<open>mont_at\<close> is the context whose two \<open>BIGNUM\<close>s are at the given addresses.
\<close>

unbundle bit_operations_syntax

section \<open>Definitions\<close>

definition mont_at :: "bn_state \<Rightarrow> nat \<Rightarrow> nat \<Rightarrow> u64 \<Rightarrow> bn_mont_ctx" where
  "mont_at s rr nn n0 = \<lparr>mont_RR = nums s rr, mont_N = nums s nn, mont_n0 = n0\<rparr>"

text \<open>An assertion that fails is \<open>Stuck\<close>.\<close>

definition assert_that :: "bool \<Rightarrow> (bn_state, unit) prog" where
  "assert_that b = (if b then ret () else stuck)"

text \<open>The loop, for the \<open>k\<close> iterations that are left.\<close>

fun base_2_loop :: "nat \<Rightarrow> nat \<Rightarrow> nat \<Rightarrow> (bn_state, unit) prog" where
  "base_2_loop r n 0 = ret ()"
| "base_2_loop r n (Suc k) =
     seq (BN_lshift1 r r)
     (bnd (get r) (\<lambda>x. bnd (get n) (\<lambda>y.
      seq (if 0 \<le> BN_cmp (Some x) (Some y) then BN_usub r r n else ret ())
      (base_2_loop r n k))))"

definition bn_mod_exp_base_2_vartime :: "nat \<Rightarrow> nat \<Rightarrow> nat \<Rightarrow> (bn_state, unit) prog" where
  "bn_mod_exp_base_2_vartime r p n =
     bnd (get n) (\<lambda>y. seq (assert_that (\<not> BN_is_zero y \<and> \<not> BN_is_negative y \<and> BN_is_odd y))
     (seq (BN_zero r)
     (bnd (get n) (\<lambda>y. let n_bits = BN_num_bits y in
      seq (assert_that (n_bits \<noteq> 0))
      (if n_bits = 1 then ret ()
       else
         seq (assert_that (n_bits < p))
         (seq (BN_set_bit r (int n_bits))
         (bnd (get r) (\<lambda>x. seq (assert_that (0 < BN_cmp (Some x) (Some y)))
         (seq (BN_usub r r n)
         (bnd (get r) (\<lambda>x. seq (assert_that (BN_cmp (Some x) (Some y) < 0))
         (base_2_loop r n (p - n_bits)))))))))))))"

text \<open>The new value of \<open>n0\<close> is the result; \<open>RR\<close> and \<open>N\<close> are at the addresses \<open>rr\<close> and \<open>nn\<close>.\<close>

definition BN_MONT_CTX_set :: "nat \<Rightarrow> nat \<Rightarrow> nat \<Rightarrow> (bn_state, u64) prog" where
  "BN_MONT_CTX_set rr nn m = bnd (get m) (\<lambda>x.
     if BN_is_zero x then fail
     else if \<not> BN_is_odd x then fail
     else if BN_is_negative x then fail
     else
       seq (BN_copy nn m)
       (bnd (get m) (\<lambda>x. case bn_mont_n0 x of
           None \<Rightarrow> stuck
         | Some n0 \<Rightarrow>
             let lgBigR = (BN_num_bits x + (BN_BITS2 - 1)) div BN_BITS2 * BN_BITS2 in
             seq (bn_mod_exp_base_2_vartime rr (lgBigR * 2) nn) (ret n0))))"

text \<open>\<open>to == from\<close> is decided by the addresses of \<open>RR\<close>.\<close>

definition BN_MONT_CTX_copy :: "nat \<Rightarrow> nat \<Rightarrow> nat \<Rightarrow> nat \<Rightarrow> u64 \<Rightarrow> u64 \<Rightarrow> (bn_state, u64) prog" where
  "BN_MONT_CTX_copy to_rr to_nn from_rr from_nn to_n0 from_n0 =
     (if to_rr = from_rr then ret to_n0
      else seq (BN_copy to_rr from_rr) (seq (BN_copy to_nn from_nn) (ret from_n0)))"

section \<open>The length of the arrays\<close>

text \<open>No operation makes an array shorter.\<close>

definition longer :: "bn_state \<Rightarrow> bn_state \<Rightarrow> bool" where
  "longer s t \<longleftrightarrow> (\<forall>b. length (bn_d (nums s b)) \<le> length (bn_d (nums t b)))"

interpretation longer: preorder_rel longer
  by unfold_locales (auto simp: longer_def intro: order_trans)

lemma longer_modify: "(\<And>x. length (bn_d (f x)) = length (bn_d x)) \<Longrightarrow> keeps longer (modify b f)"
  by (rule keepsI) (simp add: longer_def modify_def)

lemma longer_get: "keeps longer (get b)"
  by (rule keepsI) (simp add: longer_def get_def)

lemma longer_read: "keeps longer (read_words b n)"
  by (rule keepsI) (simp add: longer_def read_words_def)

lemma longer_write: "keeps longer (write_words b i ws)"
  by (rule keepsI) (simp add: longer_def write_words_def Let_def)

lemma longer_wexpand: "keeps longer (bn_wexpand b n)"
proof (rule keepsI)
  fix s
  show "longer s (snd (bn_wexpand b n s))"
    by (auto simp: longer_def bn_wexpand_def bnd_def get_def ret_def fail_def malloc_words_def read_words_def modify_def
        split: list.splits option.splits)
qed

lemmas longer_intros = longer.keeps_intros longer_modify longer_get longer_read longer_write longer_wexpand

lemma longer_correct_top: "keeps longer (bn_correct_top b)"
  unfolding bn_correct_top_def by (intro longer_intros) simp_all

lemma longer_usub: "keeps longer (BN_usub r a b)"
  unfolding BN_usub_def by (intro longer_intros longer_correct_top) simp_all

lemma longer_lshift1: "keeps longer (BN_lshift1 r a)"
  unfolding BN_lshift1_def by (intro longer_intros) simp_all

lemma longer_set_bit: "keeps longer (BN_set_bit a n)"
  unfolding BN_set_bit_def by (intro longer_intros) simp_all

lemma longer_zero: "keeps longer (BN_zero b)"
  unfolding BN_zero_def by (intro longer_intros) simp_all

lemma outcome_keeps:
  assumes "keeps R f" and "outcome P' Q' f s"
    and "\<And>x t. P' x t \<Longrightarrow> R s t \<Longrightarrow> P x t" and "\<And>t. Q' t \<Longrightarrow> R s t \<Longrightarrow> Q t"
  shows "outcome P Q f s"
  using assms(2-4) keepsD [OF assms(1), of s] by (auto simp: outcome_def split: prod.splits res.splits)

section \<open>Powers of two\<close>

lemma outcome_assert [outcome_simps]: "outcome P Q (assert_that b) s \<longleftrightarrow> b \<and> P () s"
  by (simp add: assert_that_def outcome_simps) (simp add: outcome_def)

lemma cmp_positive:
  assumes "bn_wf x" and "bn_wf y" and "\<not> bn_neg x" and "\<not> bn_neg y"
  shows "0 \<le> BN_cmp (Some x) (Some y) \<longleftrightarrow> bn_abs y \<le> bn_abs x" and "BN_cmp (Some x) (Some y) < 0 \<longleftrightarrow> bn_abs x < bn_abs y"
    and "0 < BN_cmp (Some x) (Some y) \<longleftrightarrow> bn_abs y < bn_abs x"
  using assms by (simp_all add: BN_cmp_spec bn_int_def sgn_if)

lemma not_neg_of_int:
  assumes "bn_wf x" and "0 \<le> bn_int x"
  shows "\<not> bn_neg x"
proof
  assume "bn_neg x"
  moreover from this have "bn_abs x = 0"
    using assms(2) by (simp add: bn_int_def)
  then have "bn_top x = 0"
    by (simp add: bn_top_eq_0 [OF assms(1)])
  ultimately show False
    using assms(1) unfolding bn_wf_def by blast
qed

lemma doubled:
  assumes "bn_wf x" and "bn_int x = 2 * bn_int y" and "\<not> bn_neg y"
  shows "\<not> bn_neg x" and "bn_abs x = 2 * bn_abs y"
proof -
  show "\<not> bn_neg x"
    using assms(2,3) by (intro not_neg_of_int assms(1)) (simp add: bn_int_def)
  with assms(2,3) show "bn_abs x = 2 * bn_abs y"
    by (simp add: bn_int_def)
qed

lemma bn_top_le: "bn_wf x \<Longrightarrow> bn_wf y \<Longrightarrow> bn_abs x \<le> bn_abs y \<Longrightarrow> bn_top x \<le> bn_top y"
  using bn_top_less [of y x] by (meson leD leI)

lemma base_2_loop_spec:
  assumes "r \<noteq> n" and "bn_wf (nums s n)" and "\<not> bn_neg (nums s n)"
    and "bn_wf (nums s r)" and "\<not> bn_neg (nums s r)" and "bn_abs (nums s r) < bn_abs (nums s n)"
  shows "outcome (\<lambda>_ t. \<exists>x. nums t = (nums s)(r := x) \<and> bn_wf x \<and> \<not> bn_neg x \<and>
      bn_abs x = bn_abs (nums s r) * 2 ^ k mod bn_abs (nums s n))
    (\<lambda>t. only r s t \<and> length (bn_d (nums s r)) \<le> bn_top (nums s n)) (base_2_loop r n k) s"
  using assms
proof (induction k arbitrary: s)
  case 0
  then show ?case
    unfolding base_2_loop.simps outcome_ret by (intro exI [of _ "nums s r"]) simp
next
  case (Suc k)
  let ?N = "bn_abs (nums s n)" and ?Q = "\<lambda>t. only r s t \<and> length (bn_d (nums s r)) \<le> bn_top (nums s n)"
  let ?P = "\<lambda>_ t. \<exists>x. nums t = (nums s)(r := x) \<and> bn_wf x \<and> \<not> bn_neg x \<and> bn_abs x = bn_abs (nums s r) * 2 ^ Suc k mod ?N"
  have fits: "bn_fits (nums s r)"
    using Suc.prems(4) by simp
  have rest: "outcome ?P ?Q (base_2_loop r n k) t"
    if "nums t = (nums s)(r := x)" "bn_wf x" "\<not> bn_neg x" "bn_abs x = 2 * bn_abs (nums s r) mod ?N" "longer s t" for t x
  proof -
    have t: "nums t n = nums s n" "nums t r = x"
      using that(1) Suc.prems(1) by simp_all
    have len: "length (bn_d (nums s r)) \<le> length (bn_d x)"
      using that(5) t(2) by (auto simp: longer_def)
    have lt: "bn_abs x < ?N"
      using that(4) Suc.prems(6) by simp
    have val: "bn_abs x * 2 ^ k mod ?N = bn_abs (nums s r) * 2 ^ Suc k mod ?N"
      unfolding that(4) mod_mult_left_eq by (simp add: ac_simps)
    have "outcome (\<lambda>_ v. \<exists>z. nums v = (nums t)(r := z) \<and> bn_wf z \<and> \<not> bn_neg z \<and> bn_abs z = bn_abs x * 2 ^ k mod ?N)
        (\<lambda>v. only r t v \<and> length (bn_d x) \<le> bn_top (nums s n)) (base_2_loop r n k) t"
      using Suc.IH [of t] Suc.prems(1-3) that(2,3) lt unfolding t by blast
    then show ?thesis
      unfolding val that(1) fun_upd_upd
      by (rule outcome_mono) (use len that(1) in \<open>auto simp: only_def\<close>)
  qed
  have double: "outcome (\<lambda>_ t. \<exists>x. nums t = (nums s)(r := x) \<and> bn_wf x \<and> bn_int x = 2 * bn_int (nums s r))
      (\<lambda>t. only r s t \<and> length (bn_d (nums s r)) \<le> bn_top (nums s r)) (BN_lshift1 r r) s"
    by (rule BN_lshift1_spec [OF fits Suc.prems(4)]) blast+
  have top: "bn_top (nums s r) \<le> bn_top (nums s n)"
    using Suc.prems by (intro bn_top_le) simp_all
  show ?case
    unfolding base_2_loop.simps outcome_bnd [of _ _ "BN_lshift1 r r"]
  proof (rule outcome_keeps [OF longer_lshift1 double], goal_cases)
    case (1 u t)
    then obtain x where t: "nums t = (nums s)(r := x)" and wf: "bn_wf x" and int: "bn_int x = 2 * bn_int (nums s r)"
      by blast
    note x = doubled [OF wf int Suc.prems(5)]
    have tn: "nums t n = nums s n" "nums t r = x"
      using t Suc.prems(1) by simp_all
    show ?case
    proof (cases "0 \<le> BN_cmp (Some x) (Some (nums s n))")
      case False
      then have "bn_abs x = 2 * bn_abs (nums s r) mod ?N"
        using cmp_positive [OF wf Suc.prems(2) x(1) Suc.prems(3)] x(2) by simp
      then have "outcome ?P ?Q (base_2_loop r n k) t"
        using t wf x(1) 1(2) by (intro rest) simp_all
      with False show ?thesis
        by (simp add: outcome_bnd outcome_get tn outcome_ret)
    next
      case True
      then have le: "?N \<le> bn_abs x"
        using cmp_positive [OF wf Suc.prems(2) x(1) Suc.prems(3)] by simp
      have N: "bn_abs x - ?N = 2 * bn_abs (nums s r) mod ?N"
        using le Suc.prems(6) x(2) by (simp add: le_mod_geq)
      have sub: "outcome (\<lambda>_ v. \<exists>z. nums v = (nums t)(r := z) \<and> bn_wf z \<and> \<not> bn_neg z \<and> bn_abs z = bn_abs x - ?N)
          (\<lambda>_. False) (BN_usub r r n) t"
        by (rule BN_usub_spec) (use tn wf Suc.prems(2) le in \<open>auto simp: bn_wf_def bn_fits_def\<close>)
      have "outcome ?P ?Q (seq (BN_usub r r n) (base_2_loop r n k)) t"
        unfolding outcome_bnd [of _ _ "BN_usub r r n"]
      proof (rule outcome_keeps [OF longer_usub sub], goal_cases)
        case (1 u' v)
        then obtain z where z: "nums v = (nums s)(r := z)" "bn_wf z" "\<not> bn_neg z" "bn_abs z = 2 * bn_abs (nums s r) mod ?N"
          using t N by auto
        show ?case
          using longer.rel_trans [OF \<open>longer s t\<close> 1(2)] by (rule rest [OF z])
      qed simp
      with True show ?thesis
        by (simp add: outcome_bnd outcome_get tn)
    qed
  next
    case (2 t)
    with top show ?case
      by simp
  qed
qed

lemma num_bits_one:
  assumes "bn_wf x" and "0 < bn_top x"
  shows "BN_num_bits x = 1 \<longleftrightarrow> bn_abs x = 1"
proof
  assume "BN_num_bits x = 1"
  then show "bn_abs x = 1"
    using BN_num_bits_spec [OF assms] by simp
next
  assume "bn_abs x = 1"
  then have "(2 :: nat) ^ (BN_num_bits x - 1) \<le> 2 ^ 0"
    using BN_num_bits_spec [OF assms] by simp
  then have "BN_num_bits x - 1 \<le> 0"
    by (rule power_le_imp_le_exp [rotated]) simp
  moreover have "BN_num_bits x \<noteq> 0"
    using BN_num_bits_spec [OF assms] \<open>bn_abs x = 1\<close> by (intro notI) simp
  ultimately show "BN_num_bits x = 1"
    by simp
qed

lemma is_odd_spec: "bn_fits x \<Longrightarrow> BN_is_odd x \<longleftrightarrow> odd (bn_abs x)"
proof (cases "bn_words x")
  case Nil
  assume "bn_fits x"
  with Nil have "bn_top x = 0"
    using length_bn_words [of x] by simp
  with Nil show ?thesis
    by (simp add: BN_is_odd_def bn_abs_def)
next
  case (Cons w ws)
  assume fits: "bn_fits x"
  have "bn_top x \<noteq> 0"
    using length_bn_words [OF fits] Cons by simp
  moreover from this have "bn_d x ! 0 = w"
    using Cons by (cases "bn_d x"; cases "bn_top x") (auto simp: bn_words_def)
  moreover have "odd (bn_abs x) \<longleftrightarrow> odd (unat w)"
    by (simp add: bn_abs_def Cons bn_base_def)
  ultimately show ?thesis
    by (simp add: BN_is_odd_def and_one_eq mod_2_eq_odd odd_unat)
qed

text \<open>An odd number is less than twice its highest power of two.\<close>

lemma top_power_reduced:
  fixes N :: nat
  assumes "odd N" and "2 ^ (b - 1) \<le> N" and "N < 2 ^ b" and "1 < b" and "b < p"
  shows "2 ^ b - N < N" and "(2 ^ b - N) * 2 ^ (p - b) mod N = 2 ^ p mod N"
proof -
  have eq: "(2 :: nat) ^ b = 2 * 2 ^ (b - 1)"
    using assms(4) by (simp flip: power_Suc)
  have "even ((2 :: nat) ^ (b - 1))"
    using assms(4) by simp
  then have "2 ^ (b - 1) \<noteq> N"
    using assms(1) by auto
  with assms(2,3) eq show lt: "2 ^ b - N < N"
    by linarith
  have "(2 ^ b - N) mod N = 2 ^ b mod N"
    using assms(3) by (simp add: le_mod_geq)
  then have "(2 ^ b - N) * 2 ^ (p - b) mod N = 2 ^ b * 2 ^ (p - b) mod N"
    by (metis mod_mult_left_eq)
  then show "(2 ^ b - N) * 2 ^ (p - b) mod N = 2 ^ p mod N"
    using assms(5) by (simp flip: power_add)
qed

lemma exp_base_2_spec:
  assumes rn: "r \<noteq> n" and wf: "bn_wf (nums s n)" and pos: "\<not> bn_neg (nums s n)" "BN_is_odd (nums s n)"
    and fits: "bn_fits (nums s r)" and p: "BN_num_bits (nums s n) < p"
  shows "outcome (\<lambda>_ t. \<exists>x. nums t = (nums s)(r := x) \<and> bn_wf x \<and> \<not> bn_neg x \<and> bn_abs x = 2 ^ p mod bn_abs (nums s n))
    (\<lambda>t. only r s t \<and> length (bn_d (nums s r)) \<le> bn_top (nums s n)) (bn_mod_exp_base_2_vartime r p n) s"
    (is "outcome ?P ?Q _ s")
proof -
  let ?n = "nums s n" and ?N = "bn_abs (nums s n)" and ?b = "BN_num_bits (nums s n)"
  have top: "0 < bn_top ?n"
    using pos(2) by (simp add: BN_is_odd_def)
  note b = BN_num_bits_spec [OF wf top]
  define z where "z = (nums s r)\<lparr>bn_top := 0, bn_neg := False\<rparr>"
  have z: "bn_wf z" "bn_abs z = 0" "\<not> bn_neg z"
    by (simp_all add: z_def bn_wf_def bn_fits_def bn_abs_def bn_words_def)
  define s0 where "s0 = set_num r z s"
  have s0: "nums s0 r = z" "nums s0 n = ?n" "nums s0 = (nums s)(r := z)"
    using rn by (simp_all add: s0_def)
  have len0: "length (bn_d (nums s0 r)) = length (bn_d (nums s r))"
    by (simp add: s0 z_def)
  let ?rest = "seq (BN_set_bit r (int ?b)) (bnd (get r) (\<lambda>x. seq (assert_that (0 < BN_cmp (Some x) (Some ?n)))
      (seq (BN_usub r r n) (bnd (get r) (\<lambda>x. seq (assert_that (BN_cmp (Some x) (Some ?n) < 0)) (base_2_loop r n (p - ?b)))))))"
  have prog: "outcome ?P ?Q (bn_mod_exp_base_2_vartime r p n) s \<longleftrightarrow>
      (if ?b = 1 then ?P () s0 else outcome ?P ?Q ?rest s0)"
    using top pos p b rn
    by (simp add: bn_mod_exp_base_2_vartime_def outcome_simps BN_is_zero_def BN_is_negative_def BN_zero_def Let_def s0_def z_def)
  show ?thesis
  proof (cases "?b = 1")
    case True
    then have "?N = 1"
      using num_bits_one [OF wf top] by simp
    then show ?thesis
      unfolding prog if_P [OF True] using z s0 by (intro exI [of _ z]) simp
  next
    case False
    have pow: "2 ^ ?b - ?N < ?N" "(2 ^ ?b - ?N) * 2 ^ (p - ?b) mod ?N = 2 ^ p mod ?N"
      using top_power_reduced [OF _ _ _ _ p] b False is_odd_spec [OF bn_wf_fits [OF wf]] pos(2) by simp_all
    have set_bit: "outcome (\<lambda>_ t. \<exists>x. nums t = (nums s)(r := x) \<and> bn_wf x \<and> \<not> bn_neg x \<and> bn_abs x = 2 ^ ?b)
        (\<lambda>t. only r s t \<and> length (bn_d (nums s r)) \<le> bn_top ?n) (BN_set_bit r (int ?b)) s0"
    proof (rule BN_set_bit_spec, goal_cases)
      case (3 t x)
      then show ?case
        using z s0 by (intro exI [of _ x]) (simp add: set_bit_eq_or push_bit_eq_mult)
    next
      case (4 t)
      have "?b div 64 \<le> bn_top ?n"
        using b by linarith
      with 4 show ?case
        using s0(3) len0 by (simp add: only_def)
    qed (use z s0 in simp_all)
    have "outcome ?P ?Q ?rest s0"
      unfolding outcome_bnd [of _ _ "BN_set_bit r (int ?b)"]
    proof (rule outcome_keeps [OF longer_set_bit set_bit], goal_cases)
      case (1 u t)
      note longer_t = 1(2)
      obtain x where t: "nums t = (nums s)(r := x)" and x: "bn_wf x" "\<not> bn_neg x" "bn_abs x = 2 ^ ?b"
        using 1(1) by blast
      have tn: "nums t n = ?n" "nums t r = x"
        using t rn by simp_all
      have gt: "?N < bn_abs x"
        using b x(3) by simp
      have sub: "outcome (\<lambda>_ v. \<exists>y. nums v = (nums t)(r := y) \<and> bn_wf y \<and> \<not> bn_neg y \<and> bn_abs y = bn_abs x - ?N)
          (\<lambda>_. False) (BN_usub r r n) t"
        by (rule BN_usub_spec) (use tn wf x(1) gt in \<open>auto simp: bn_wf_def bn_fits_def\<close>)
      have "outcome ?P ?Q (seq (BN_usub r r n) (bnd (get r) (\<lambda>x. seq (assert_that (BN_cmp (Some x) (Some ?n) < 0))
          (base_2_loop r n (p - ?b))))) t"
        unfolding outcome_bnd [of _ _ "BN_usub r r n"]
      proof (rule outcome_keeps [OF longer_usub sub], goal_cases)
        case (1 u' v)
        then obtain y where v: "nums v = (nums s)(r := y)" and y: "bn_wf y" "\<not> bn_neg y" "bn_abs y = 2 ^ ?b - ?N"
          using t x(3) by auto
        have vn: "nums v n = ?n" "nums v r = y"
          using v rn by simp_all
        have len: "length (bn_d (nums s r)) \<le> length (bn_d y)"
          using longer.rel_trans [OF longer_t 1(2)] len0 vn(2) unfolding longer_def by metis
        have "outcome (\<lambda>_ t. \<exists>z. nums t = (nums v)(r := z) \<and> bn_wf z \<and> \<not> bn_neg z \<and>
            bn_abs z = bn_abs y * 2 ^ (p - ?b) mod ?N)
          (\<lambda>t. only r v t \<and> length (bn_d y) \<le> bn_top ?n) (base_2_loop r n (p - ?b)) v"
          using base_2_loop_spec [of r n v "p - ?b"] wf pos(1) rn y pow(1) unfolding vn by simp
        then have "outcome ?P ?Q (base_2_loop r n (p - ?b)) v"
          unfolding y(3) pow(2) v fun_upd_upd
          by (rule outcome_mono) (use len v in \<open>auto simp: only_def\<close>)
        then show ?case
          using y pow(1) by (simp add: outcome_bnd outcome_get outcome_assert vn cmp_positive [OF y(1) wf y(2) pos(1)])
      qed simp
      then show ?case
        using gt by (simp add: outcome_bnd outcome_get outcome_assert tn cmp_positive [OF x(1) wf x(2) pos(1)])
    qed
    then show ?thesis
      unfolding prog if_not_P [OF False] .
  qed
qed

section \<open>The context\<close>

lemma words_determine:
  assumes "bn_words x = bn_words y" and "bn_fits x" and "bn_fits y"
  shows "bn_top x = bn_top y" and "BN_num_bits x = BN_num_bits y" and "0 < bn_top x \<Longrightarrow> bn_d x ! 0 = bn_d y ! 0"
    and "bn_abs x = bn_abs y"
proof -
  show top: "bn_top x = bn_top y"
    using assms by (metis length_bn_words)
  have nth: "bn_d x ! i = bn_d y ! i" if "i < bn_top x" for i
    using assms(1) that top unfolding bn_words_def by (metis nth_take)
  then show "BN_num_bits x = BN_num_bits y" and "0 < bn_top x \<Longrightarrow> bn_d x ! 0 = bn_d y ! 0"
    using top by (simp_all add: BN_num_bits_def BN_is_zero_def)
  show "bn_abs x = bn_abs y"
    by (simp add: bn_abs_def assms(1))
qed

lemma lgBigR:
  assumes "bn_wf x" and "0 < bn_top x"
  shows "(BN_num_bits x + (BN_BITS2 - 1)) div BN_BITS2 * BN_BITS2 = 64 * bn_top x"
proof -
  have "64 * (bn_top x - 1) < BN_num_bits x" "BN_num_bits x \<le> 64 * bn_top x"
    using BN_num_bits_spec [OF assms] by auto
  then have "(BN_num_bits x + 63) div 64 = bn_top x"
    using assms(2) by linarith
  then show ?thesis
    by (simp add: BN_BITS2_def)
qed

lemma context_set:
  assumes ne: "rr \<noteq> nn" "rr \<noteq> m" and fits: "bn_fits (nums s rr)" "bn_fits (nums s nn)" and wf: "bn_wf (nums s m)"
    and odd: "\<not> bn_neg (nums s m)" "BN_is_odd (nums s m)"
  shows "outcome (\<lambda>n0 t. \<exists>x y. nums t = (nums s)(nn := x, rr := y) \<and> bn_int x = bn_int (nums s m) \<and> mont_wf (mont_at t rr nn n0))
    (\<lambda>t. length (bn_d (nums s rr)) \<le> bn_top (nums s m) \<or> length (bn_d (nums s nn)) < bn_top (nums s m))
    (BN_MONT_CTX_set rr nn m) s" (is "outcome ?P ?Q _ s")
proof -
  let ?m = "nums s m"
  have top: "0 < bn_top ?m"
    using odd(2) by (simp add: BN_is_odd_def)
  have copy: "outcome (\<lambda>_ t. \<exists>x. nums t = (nums s)(nn := x) \<and> bn_wf x \<and> bn_words x = bn_words ?m \<and> bn_neg x = bn_neg ?m)
      (\<lambda>t. length (bn_d (nums s nn)) < bn_top ?m) (BN_copy nn m) s"
    by (rule BN_copy_spec [OF fits(2) wf]) blast+
  let ?rest = "bnd (get m) (\<lambda>x. case bn_mont_n0 x of None \<Rightarrow> stuck | Some n0 \<Rightarrow>
      let lgBigR = (BN_num_bits x + (BN_BITS2 - 1)) div BN_BITS2 * BN_BITS2 in
      seq (bn_mod_exp_base_2_vartime rr (lgBigR * 2) nn) (ret n0))"
  have "outcome ?P ?Q (seq (BN_copy nn m) ?rest) s"
    unfolding outcome_bnd [of _ _ "BN_copy nn m"]
  proof (rule outcome_mono [OF copy], goal_cases)
    case (1 u t)
    then obtain x where t: "nums t = (nums s)(nn := x)" and x: "bn_wf x" "bn_words x = bn_words ?m" "\<not> bn_neg x"
      using odd(1) by auto
    let ?m' = "nums t m"
    have tn: "nums t nn = x" "nums t rr = nums s rr"
      using t ne by simp_all
    have m': "bn_words ?m' = bn_words x" "bn_wf ?m'" "\<not> bn_neg ?m'"
      using t x odd(1) wf by auto
    note same = words_determine [OF m'(1) bn_wf_fits [OF m'(2)] bn_wf_fits [OF x(1)]]
    note orig = words_determine [OF x(2) bn_wf_fits [OF x(1)] bn_wf_fits [OF wf]]
    have topx: "0 < bn_top x" and "BN_is_odd x"
      using top odd(2) orig is_odd_spec [OF bn_wf_fits [OF wf]] is_odd_spec [OF bn_wf_fits [OF x(1)]] by simp_all
    then have "BN_is_odd ?m'"
      using is_odd_spec [OF bn_wf_fits [OF m'(2)]] is_odd_spec [OF bn_wf_fits [OF x(1)]] same(4) by simp
    define n0 where "n0 = bn_neg_inv_mod_r_u64 (bn_d x ! 0)"
    have n0: "bn_mont_n0 ?m' = Some n0"
      using m'(3) \<open>BN_is_odd ?m'\<close> topx same
      by (simp add: bn_mont_n0_def BN_is_zero_def BN_is_negative_def n0_def)
    have "odd (unat (bn_d x ! 0))"
      using \<open>BN_is_odd x\<close> by (simp add: BN_is_odd_def and_one_eq mod_2_eq_odd odd_unat)
    then have inv: "bn_d x ! 0 * n0 = - 1"
      unfolding n0_def by (rule neg_inv_spec)
    have "BN_num_bits x < 64 * bn_top x * 2"
      using BN_num_bits_spec [OF x(1) topx] topx by linarith
    then have exp: "outcome (\<lambda>_ v. \<exists>y. nums v = (nums t)(rr := y) \<and> bn_wf y \<and> \<not> bn_neg y \<and>
          bn_abs y = 2 ^ (64 * bn_top x * 2) mod bn_abs x)
        (\<lambda>v. only rr t v \<and> length (bn_d (nums s rr)) \<le> bn_top x) (bn_mod_exp_base_2_vartime rr (64 * bn_top x * 2) nn) t"
      using exp_base_2_spec [of rr nn t "64 * bn_top x * 2"] ne(1) x(1,3) \<open>BN_is_odd x\<close> fits(1) unfolding tn by simp
    have "outcome ?P ?Q (seq (bn_mod_exp_base_2_vartime rr (64 * bn_top x * 2) nn) (ret n0)) t"
      unfolding outcome_bnd [of _ _ "bn_mod_exp_base_2_vartime rr (64 * bn_top x * 2) nn"] outcome_ret
    proof (rule outcome_mono [OF exp], goal_cases)
      case (1 u v)
      then obtain y where v: "nums v = (nums s)(nn := x, rr := y)" and y: "bn_wf y" "bn_abs y = 2 ^ (64 * bn_top x * 2) mod bn_abs x"
        using t by auto
      have "(2 :: nat) ^ (64 * bn_top x * 2) = (bn_base ^ bn_top x) ^ 2"
        unfolding bn_base_def power_mult ..
      then have "mont_wf (mont_at v rr nn n0)"
        using v ne x(1,3) topx inv y
        by (simp add: mont_wf_def mont_at_def mont_num_def mont_n_def mont_R_def)
      moreover have "bn_int x = bn_int ?m"
        using x(3) odd(1) orig(4) by (simp add: bn_int_def)
      ultimately show ?case
        using v by blast
    next
      case (2 v)
      then show ?case
        using orig(1) by simp
    qed
    then show ?case
      using lgBigR [OF m'(2)] topx same(1)
      by (simp add: outcome_bnd [of _ _ "get m"] outcome_get n0 Let_def)
  qed simp
  then show ?thesis
    using top odd unfolding BN_MONT_CTX_set_def outcome_bnd [of _ _ "get m"] outcome_get
    by (simp add: BN_is_zero_def BN_is_negative_def)
qed


text \<open>Other moduli are refused before anything is changed.\<close>

lemma context_refused:
  "BN_is_zero (nums s m) \<or> \<not> BN_is_odd (nums s m) \<or> BN_is_negative (nums s m) \<Longrightarrow> BN_MONT_CTX_set rr nn m s = (Fail, s)"
  unfolding BN_MONT_CTX_set_def by (auto simp: bnd_def get_def fail_def)

section \<open>Properties\<close>

text \<open>
  C8: \<open>BN_MONT_CTX_set\<close> on an odd positive modulus in distinct numbers of the context makes a context that is
  well formed: the copy of the modulus, the square of the Montgomery radix modulo it (computed by shifting
  and subtracting), and the negative inverse of its lowest word. It fails only when a number of the context cannot
  be enlarged.
\<close>

theorem montgomery_context:
  assumes "rr \<noteq> nn" and "rr \<noteq> m" and "bn_fits (nums s rr)" and "bn_fits (nums s nn)" and "bn_wf (nums s m)"
    and "\<not> bn_neg (nums s m)" and "BN_is_odd (nums s m)"
  shows "outcome (\<lambda>n0 t. \<exists>x y. nums t = (nums s)(nn := x, rr := y) \<and> bn_int x = bn_int (nums s m) \<and> mont_wf (mont_at t rr nn n0))
    (\<lambda>t. length (bn_d (nums s rr)) \<le> bn_top (nums s m) \<or> length (bn_d (nums s nn)) < bn_top (nums s m))
    (BN_MONT_CTX_set rr nn m) s"
  by (rule context_set [OF assms])

lemma montgomery_context_witness:
  "outcome (\<lambda>n0 t. \<exists>x y. nums t = (nums demo_state)(3 := x, 2 := y) \<and> bn_int x = 5 \<and> mont_wf (mont_at t 2 3 n0))
    (\<lambda>t. length (bn_d (nums demo_state 2)) \<le> bn_top (nums demo_state 0) \<or> length (bn_d (nums demo_state 3)) < bn_top (nums demo_state 0))
    (BN_MONT_CTX_set 2 3 0) demo_state"
proof -
  have "bn_fits (nums demo_state 3)" and "\<not> bn_neg (nums demo_state 0)" and "BN_is_odd (nums demo_state 0)"
    by (simp_all add: demo_state_def demo_num_def BN_init_def bn_fits_def BN_is_odd_def)
  then show ?thesis
    using montgomery_context [of 2 3 0 demo_state] demo_state(1,4) unfolding demo_state(5) by simp
qed

end
