(* ===== verification/Bn_Bytes.thy ===== *)
theory Bn_Bytes
  imports Bn_Bits
begin

text \<open>
  Numbers as byte strings (\<open>bytes.c\<close>). \<open>bytes_of n v\<close> are the \<open>n\<close> low bytes of \<open>v\<close>, the least significant
  one first; \<open>be_nat\<close> of \<open>Der\<close> is the value of a string whose most significant byte comes first, and \<open>be_min v\<close> the
  shortest such string of \<open>v\<close>.
\<close>

unbundle bit_operations_syntax

section \<open>Bytes of numbers\<close>

definition bytes_of :: "nat \<Rightarrow> nat \<Rightarrow> byte list" where
  "bytes_of n v = map (\<lambda>i. of_nat (drop_bit (8 * i) v)) [0..<n]"

lemma length_bytes_of [simp]: "length (bytes_of n v) = n"
  by (simp add: bytes_of_def)

lemma nth_bytes_of [simp]: "i < n \<Longrightarrow> bytes_of n v ! i = of_nat (drop_bit (8 * i) v)"
  by (simp add: bytes_of_def)

lemma bytes_of_Suc: "bytes_of (Suc n) v = bytes_of n v @ [of_nat (drop_bit (8 * n) v)]"
  by (simp add: bytes_of_def)

lemma unat_byte_of: "unat (of_nat v :: byte) = v mod 256"
  by (simp add: unat_of_nat take_bit_eq_mod)

lemma bytes_of_low: "bytes_of (Suc n) v = of_nat v # bytes_of n (v div 256)"
proof -
  have "drop_bit (8 * Suc i) v = drop_bit (8 * i) (v div 256)" for i
    by (simp add: drop_bit_eq_div power_add div_mult2_eq [symmetric] mult.commute)
  then show ?thesis
    by (simp add: bytes_of_def map_upt_Suc del: upt_Suc mult_Suc_right)
qed

lemma be_nat_append: "be_nat (xs @ ys) = be_nat xs * 256 ^ length ys + be_nat ys"
  by (induction ys rule: rev_induct) (simp_all add: algebra_simps flip: append_assoc)

lemma be_nat_bytes_of: "be_nat (rev (bytes_of n v)) = v mod 256 ^ n"
proof (induction n arbitrary: v)
  case (Suc n)
  have "v mod 256 ^ Suc n = 256 * (v div 256 mod 256 ^ n) + v mod 256"
    by (simp add: mod_mult2_eq)
  with Suc [of "v div 256"] show ?case
    by (simp add: bytes_of_low unat_byte_of)
qed (simp add: bytes_of_def)

lemma be_min_bytes_of:
  assumes "0 < n \<Longrightarrow> 256 ^ (n - 1) \<le> v" and "v < 256 ^ n"
  shows "be_min v = rev (bytes_of n v)"
  using assms
proof (induction n arbitrary: v)
  case 0
  then show ?case
    by (simp add: bytes_of_def)
next
  case (Suc n)
  have pos: "0 < v"
    using Suc.prems(1) by (simp add: order_less_le_trans [of 0 "256 ^ n"])
  have "256 ^ (n - 1) \<le> v div 256" if "0 < n"
    using Suc.prems(1) that by (cases n) (simp_all add: less_eq_div_iff_mult_less_eq mult.commute)
  moreover have "v div 256 < 256 ^ n"
    using Suc.prems(2) by (simp add: div_less_iff_less_mult mult.commute)
  ultimately have "be_min (v div 256) = rev (bytes_of n (v div 256))"
    by (rule Suc.IH)
  moreover have "(of_nat (v mod 256) :: byte) = of_nat v"
    by (simp add: word_unat_eq_iff unat_byte_of)
  ultimately show ?case
    using pos by (subst be_min.simps) (simp add: bytes_of_low)
qed

text \<open>A byte of a word of a number.\<close>

lemma bit_unat_byte: "bit (of_nat v :: byte) k \<longleftrightarrow> k < 8 \<and> bit v k"
  by (simp add: bit_simps flip: bit_unsigned_iff)

lemma byte_of_words:
  assumes "i < 8 * length ws"
  shows "ucast (drop_bit (8 * (i mod 8)) (ws ! (i div 8))) = (of_nat (drop_bit (8 * i) (bn_nat ws)) :: byte)"
proof (rule bit_word_eqI)
  fix k
  assume "k < LENGTH(8)"
  then have k: "k < 8"
    by simp
  define r where "r = 8 * (i mod 8) + k"
  have "i mod 8 < 8"
    by simp
  then have "r < 64"
    using k unfolding r_def by linarith
  moreover have "8 * i + k = r + i div 8 * 64"
    unfolding r_def using div_mult_mod_eq [of i 8] by linarith
  ultimately have "(8 * i + k) div 64 = i div 8" and "(8 * i + k) mod 64 = r"
    by simp_all
  note div_mod = this [unfolded r_def]
  then have "bit (drop_bit (8 * i) (bn_nat ws)) k \<longleftrightarrow> bit (ws ! (i div 8)) (8 * (i mod 8) + k)"
    using assms div_mod by (simp add: bit_drop_bit_eq bit_bn_nat less_mult_imp_div_less mult.commute)
  with k show "bit (ucast (drop_bit (8 * (i mod 8)) (ws ! (i div 8))) :: byte) k \<longleftrightarrow>
      bit (of_nat (drop_bit (8 * i) (bn_nat ws)) :: byte) k"
    by (simp add: bit_ucast_iff bit_drop_bit_eq bit_unat_byte)
qed

lemma length_bn2bin_loop: "length (bn2bin_loop d n) = n"
  by (induction n) simp_all

lemma bn2bin_loop_spec:
  "n \<le> 8 * length ws \<Longrightarrow> bn2bin_loop (ws @ ds) n = rev (bytes_of n (bn_nat ws))"
proof (induction n)
  case (Suc n)
  then have "n div 8 < length ws"
    by (simp add: less_mult_imp_div_less mult.commute)
  with Suc byte_of_words [of n ws] show ?case
    by (simp add: bytes_of_Suc nth_append)
qed (simp add: bytes_of_def)

text \<open>Bounds in bytes and in bits.\<close>

lemma bytes_bits: "(256 :: nat) ^ n = 2 ^ (8 * n)"
  by (simp add: power_mult)

lemma num_bytes_spec:
  assumes "bn_wf x" and "0 < bn_top x"
  shows "256 ^ (BN_num_bytes x - 1) \<le> bn_abs x" and "bn_abs x < 256 ^ BN_num_bytes x" and "BN_num_bytes x \<le> 8 * bn_top x"
proof -
  note bits = BN_num_bits_spec [OF assms]
  have "8 * (BN_num_bytes x - 1) \<le> BN_num_bits x - 1" and le: "BN_num_bits x \<le> 8 * BN_num_bytes x"
    by (simp_all add: BN_num_bytes_def)
  then have "(2 :: nat) ^ (8 * (BN_num_bytes x - 1)) \<le> 2 ^ (BN_num_bits x - 1)" and "(2 :: nat) ^ BN_num_bits x \<le> 2 ^ (8 * BN_num_bytes x)"
    by (simp_all add: power_increasing del: power_strict_increasing_iff)
  then show "256 ^ (BN_num_bytes x - 1) \<le> bn_abs x" and "bn_abs x < 256 ^ BN_num_bytes x"
    using bits unfolding bytes_bits by linarith+
  show "BN_num_bytes x \<le> 8 * bn_top x"
    using bits by (simp add: BN_num_bytes_def) linarith
qed

lemma bn_abs_0_num_bytes: "bn_top x = 0 \<Longrightarrow> bn_abs x = 0 \<and> BN_num_bytes x = 0"
  by (simp add: bn_abs_def bn_words_def BN_num_bytes_def BN_num_bits_def BN_is_zero_def)

lemma num_bytes_less:
  assumes "bn_wf x"
  shows "bn_abs x < 256 ^ BN_num_bytes x" and "BN_num_bytes x \<le> 8 * bn_top x"
  using num_bytes_spec [OF assms] bn_abs_0_num_bytes [of x] by (cases "bn_top x = 0"; simp)+

lemma num_bytes_le_iff:
  assumes "bn_wf x"
  shows "BN_num_bytes x \<le> n \<longleftrightarrow> bn_abs x < 256 ^ n"
proof
  assume "BN_num_bytes x \<le> n"
  then have "(256 :: nat) ^ BN_num_bytes x \<le> 256 ^ n"
    by (simp add: power_increasing)
  with num_bytes_less(1) [OF assms] show "bn_abs x < 256 ^ n"
    by linarith
next
  assume less: "bn_abs x < 256 ^ n"
  show "BN_num_bytes x \<le> n"
  proof (cases "bn_top x = 0")
    case False
    then have "(256 :: nat) ^ (BN_num_bytes x - 1) < 256 ^ n"
      using num_bytes_spec(1) [OF assms] less by linarith
    then have "BN_num_bytes x - 1 < n"
      by (rule power_less_imp_less_exp [rotated]) simp
    then show ?thesis
      by simp
  qed (simp add: bn_abs_0_num_bytes)
qed

lemma BN_bn2bin_spec:
  assumes "bn_wf x"
  shows "BN_bn2bin x = be_min (bn_abs x)"
proof -
  have "bn2bin_loop (bn_words x @ drop (bn_top x) (bn_d x)) (BN_num_bytes x) = rev (bytes_of (BN_num_bytes x) (bn_abs x))"
    unfolding bn_abs_def using num_bytes_less(2) [OF assms] assms by (intro bn2bin_loop_spec) simp
  moreover have "be_min (bn_abs x) = rev (bytes_of (BN_num_bytes x) (bn_abs x))"
    using num_bytes_spec [OF assms] num_bytes_less(1) [OF assms] bn_abs_0_num_bytes [of x]
    by (intro be_min_bytes_of) (cases "bn_top x = 0"; simp)+
  ultimately show ?thesis
    by (simp add: BN_bn2bin_def bn_words_def)
qed


section \<open>Reading without branches\<close>

lemma bit_unat_word: "bit (unat (w :: u64)) k \<longleftrightarrow> bit w k"
  by (simp add: bit_unsigned_iff bit_imp_le_length [of w k] flip: not_le)

lemma high_bit_u64: "bit (w :: u64) 63 \<longleftrightarrow> 2 ^ 63 \<le> unat w"
proof -
  have "bit w 63 \<longleftrightarrow> odd (unat w div 2 ^ 63)"
    using bit_unat_word [of w 63] by (simp only: bit_iff_odd [of "unat w"])
  also have "\<dots> \<longleftrightarrow> unat w div 2 ^ 63 = 1"
  proof -
    have "unat w div 2 ^ 63 < 2"
      using unat_u64_less [of w] by (intro less_mult_imp_div_less) simp
    then show ?thesis
      by (cases "unat w div 2 ^ 63 = 0") (auto simp: less_2_cases_iff)
  qed
  also have "\<dots> \<longleftrightarrow> 2 ^ 63 \<le> unat w"
    using unat_u64_less [of w] by (auto simp: div_nat_eqI div_eq_0_iff)
  finally show ?thesis .
qed

lemma le_size_t_spec:
  assumes "m < 2 ^ 63" and "n < 2 ^ 63"
  shows "constant_time_le_size_t (of_nat m) (of_nat n) = (if m \<le> n then 1 else 0)"
proof -
  have "bit (of_nat m - of_nat n - 1 :: u64) 63 \<longleftrightarrow> m \<le> n"
  proof (cases "m \<le> n")
    case True
    then have "(of_nat m - of_nat n - 1 :: u64) = of_nat (2 ^ 64 - (n - m + 1))"
      using assms by (simp add: of_nat_diff)
    moreover have "unat (of_nat (2 ^ 64 - (n - m + 1)) :: u64) = 2 ^ 64 - (n - m + 1)"
      by (rule unat_of_nat_u64) simp
    moreover have "2 ^ 63 \<le> 2 ^ 64 - (n - m + 1)"
      using assms by simp
    ultimately have "2 ^ 63 \<le> unat (of_nat m - of_nat n - 1 :: u64)"
      by (simp only:)
    with True show ?thesis
      unfolding high_bit_u64 by blast
  next
    case False
    then have "(of_nat m - of_nat n - 1 :: u64) = of_nat (m - n - 1)"
      by (simp add: of_nat_diff)
    moreover have "unat (of_nat (m - n - 1) :: u64) = m - n - 1"
      using assms by (intro unat_of_nat_u64) simp
    ultimately have "unat (of_nat m - of_nat n - 1 :: u64) = m - n - 1"
      by (simp only:)
    moreover have "\<not> 2 ^ 63 \<le> m - n - 1"
      using assms by simp
    ultimately show ?thesis
      using False unfolding high_bit_u64 by metis
  qed
  then show ?thesis
    by (simp add: constant_time_le_size_t_def and_one_eq mod_2_eq_odd bit_iff_odd_drop_bit)
qed

lemma select_ulong_spec: "constant_time_select_ulong (if c then 1 else 0) x y = (if c then x else y)"
  by (simp add: constant_time_select_ulong_def)

lemma read_word_padded_spec:
  assumes "bn_fits x" and "0 < bn_top x" and "length (bn_d x) < 2 ^ 63" and "i < 2 ^ 63"
  shows "read_word_padded x i = (if i < bn_top x then bn_d x ! i else 0)"
proof -
  have top: "bn_top x \<le> length (bn_d x)" "bn_top x < 2 ^ 63"
    using assms(1,3) by (simp_all add: bn_fits_def)
  have i: "unat (of_nat i :: u64) = i"
    using assms(4) by (intro unat_of_nat_u64) simp
  show ?thesis
    using top assms(2-4)
    by (simp add: read_word_padded_def le_size_t_spec select_ulong_spec i not_less del: unat_of_nat)
qed

lemma less_exp_iff_bits: "(v :: nat) < 2 ^ n \<longleftrightarrow> (\<forall>k. bit v k \<longrightarrow> k < n)"
proof
  assume "v < 2 ^ n"
  then have "take_bit n v = v"
    by (simp add: take_bit_nat_eq_self)
  then show "\<forall>k. bit v k \<longrightarrow> k < n"
    using bit_take_bit_iff [of n v] by metis
next
  assume "\<forall>k. bit v k \<longrightarrow> k < n"
  then have "take_bit n v = v"
    by (intro bit_eqI) (auto simp: bit_take_bit_iff)
  then show "v < 2 ^ n"
    by (metis take_bit_nat_less_exp)
qed


section \<open>Padded output\<close>

text \<open>The words of a number with zeros above them.\<close>

lemma bn_nat_padded:
  "length ws \<le> n \<Longrightarrow> bn_nat (ws @ replicate (n - length ws) 0) = bn_nat ws"
  by (simp add: bn_nat_append)

lemma padded_loop_spec:
  assumes "bn_fits x" and "0 < bn_top x" and "length (bn_d x) < 2 ^ 63"
  shows "n < 2 ^ 63 \<Longrightarrow> bn2bin_padded_loop x n = rev (bytes_of n (bn_abs x))"
proof (induction n)
  case (Suc n)
  let ?ws = "bn_words x @ replicate (n div 8 + 1) 0"
  have "ucast (drop_bit (8 * (n mod 8)) (?ws ! (n div 8))) = (of_nat (drop_bit (8 * n) (bn_nat ?ws)) :: byte)"
    by (rule byte_of_words) simp
  moreover have "?ws ! (n div 8) = read_word_padded x (n div 8)"
    using Suc.prems assms by (subst read_word_padded_spec) (auto simp: nth_append bn_words_def bn_fits_def simp del: replicate_Suc)
  ultimately show ?case
    using Suc by (simp add: bytes_of_Suc bn_nat_append bn_abs_def)
qed (simp add: bytes_of_def)

text \<open>The bits above the byte \<open>r\<close> of the word \<open>q\<close>.\<close>

lemma no_bits_above:
  assumes "length ws \<le> (if r = 0 then q else q + 1)"
    and "r \<noteq> 0 \<Longrightarrow> q < length ws \<Longrightarrow> drop_bit (8 * r) (ws ! q) = 0"
  shows "bn_nat ws < 2 ^ (64 * q + 8 * r)"
  unfolding less_exp_iff_bits
proof (intro allI impI)
  fix k
  assume "bit (bn_nat ws) k"
  then have k: "k div 64 < length ws" "bit (ws ! (k div 64)) (k mod 64)"
    by (simp_all add: bit_bn_nat)
  have k64: "k = 64 * (k div 64) + k mod 64" "k mod 64 < 64"
    by simp_all
  show "k < 64 * q + 8 * r"
  proof (rule ccontr)
    assume ge: "\<not> k < 64 * q + 8 * r"
    then have "k div 64 = q" and r: "r \<noteq> 0"
      using assms(1) k(1) k64 by (auto split: if_splits)
    then have "bit (drop_bit (8 * r) (ws ! q)) (k mod 64 - 8 * r)" and "q < length ws"
      using k ge k64 by (simp_all add: bit_drop_bit_eq)
    then show False
      using assms(2) r by auto
  qed
qed

lemma word_above_0:
  assumes "bn_nat ws < 2 ^ (64 * q + 8 * r)" and "q < length ws"
  shows "drop_bit (8 * r) (ws ! q) = 0"
proof (rule bit_word_eqI)
  fix j
  assume "j < LENGTH(64)"
  have "\<not> bit (ws ! q) (8 * r + j)"
  proof
    assume b: "bit (ws ! q) (8 * r + j)"
    then have "8 * r + j < 64"
      by (auto dest: bit_imp_le_length)
    with b assms(2) have "bit (bn_nat ws) (64 * q + (8 * r + j))"
      by (simp add: bit_bn_nat)
    then show False
      using assms(1) unfolding less_exp_iff_bits by auto
  qed
  then show "bit (drop_bit (8 * r) (ws ! q)) j \<longleftrightarrow> bit (0 :: u64) j"
    by (simp add: bit_drop_bit_eq)
qed

text \<open>The two tests before the loop are the comparison of the number with the space for it.\<close>

lemma padded_tests:
  assumes "bn_wf x" and "0 < bn_top x" and "length (bn_d x) < 2 ^ 63" and "n < 2 ^ 63"
  shows "(\<not> (n + 7) div 8 < bn_top x \<and> \<not> (n mod 8 \<noteq> 0 \<and> drop_bit (8 * (n mod 8)) (read_word_padded x (n div 8)) \<noteq> 0)) \<longleftrightarrow>
    bn_abs x < 256 ^ n"
proof -
  define q r where "q = n div 8" and "r = n mod 8"
  have n: "n = 8 * q + r" "r < 8"
    by (simp_all add: q_def r_def)
  have len: "length (bn_words x) = bn_top x"
    using assms(1) by simp
  have w: "read_word_padded x q = (if q < bn_top x then bn_words x ! q else 0)"
    using assms unfolding q_def by (subst read_word_padded_spec) (simp_all add: bn_words_def)
  have up: "(n + 7) div 8 = (if r = 0 then q else q + 1)"
    using n(2) by (cases "r = 0") (auto simp: n(1) intro!: div_nat_eqI)
  have "\<not> (if r = 0 then q else q + 1) < bn_top x" if "bn_abs x < 2 ^ (8 * n)"
  proof -
    have "BN_num_bits x \<le> 8 * n"
      using num_bytes_le_iff [OF assms(1), of n] that by (simp add: bytes_bits BN_num_bytes_def)
    moreover have "64 * (bn_top x - 1) < BN_num_bits x"
      using BN_num_bits_spec [OF assms(1,2)] by simp
    ultimately show ?thesis
      using n by auto
  qed
  then show ?thesis
    unfolding q_def [symmetric] r_def [symmetric] up bytes_bits
    using no_bits_above [of "bn_words x" r q] word_above_0 [of "bn_words x" q r] w n(1) len
    by (auto simp: bn_abs_def not_less intro: leI split: if_splits)
qed

lemma BN_bn2bin_padded_spec:
  assumes "bn_wf x" and "length (bn_d x) < 2 ^ 63" and "n < 2 ^ 63"
  shows "BN_bn2bin_padded n x = (if bn_abs x < 256 ^ n then Some (rev (bytes_of n (bn_abs x))) else None)"
proof (cases "bn_top x = 0")
  case True
  then show ?thesis
    using bn_abs_0_num_bytes [of x]
    by (simp add: BN_bn2bin_padded_def BN_is_zero_def bytes_of_def rev_map map_replicate_const)
next
  case False
  then show ?thesis
    using padded_tests [OF assms(1) _ assms(2,3)] padded_loop_spec [OF bn_wf_fits [OF assms(1)] _ assms(2,3)]
    by (cases "bn_abs x < 256 ^ n") (auto simp: BN_bn2bin_padded_def BN_is_zero_def)
qed

lemma nth_concat_bytes:
  "i < 8 * length ws \<Longrightarrow> concat (map (le_bytes 8) ws) ! i = ucast (drop_bit (8 * (i mod 8)) (ws ! (i div 8)))"
proof (induction ws arbitrary: i)
  case (Cons w ws)
  show ?case
  proof (cases "i < 8")
    case True
    then show ?thesis
      by (simp add: nth_append le_bytes_def)
  next
    case False
    then have "i div 8 = Suc ((i - 8) div 8)" and "(i - 8) mod 8 = i mod 8"
      by (simp_all add: le_div_geq le_mod_geq)
    with False Cons show ?thesis
      by (simp add: nth_append)
  qed
qed simp

lemma length_concat_bytes: "length (concat (map (le_bytes 8) ws)) = 8 * length ws"
  by (induction ws) simp_all

lemma BN_bn2le_padded_spec:
  assumes "bn_wf x"
  shows "BN_bn2le_padded n x = (if bn_abs x < 256 ^ n then Some (bytes_of n (bn_abs x)) else None)"
proof -
  let ?k = "BN_num_bytes x"
  note k = num_bytes_less [OF assms]
  have d: "bn_d x = bn_words x @ drop (bn_top x) (bn_d x)"
    by (simp add: bn_words_def)
  have lenk: "length (take ?k (concat (map (le_bytes 8) (bn_d x)))) = ?k"
    using k(2) assms by (simp add: length_concat_bytes bn_wf_def bn_fits_def)
  have "take ?k (concat (map (le_bytes 8) (bn_d x))) @ replicate (n - ?k) 0 = bytes_of n (bn_abs x)" if le: "?k \<le> n"
  proof (rule nth_equalityI)
    show "length (take ?k (concat (map (le_bytes 8) (bn_d x))) @ replicate (n - ?k) 0) = length (bytes_of n (bn_abs x))"
      using lenk le by simp
  next
    fix i
    assume "i < length (take ?k (concat (map (le_bytes 8) (bn_d x))) @ replicate (n - ?k) 0)"
    then have i: "i < n"
      using lenk le by simp
    show "(take ?k (concat (map (le_bytes 8) (bn_d x))) @ replicate (n - ?k) 0) ! i = bytes_of n (bn_abs x) ! i"
    proof (cases "i < ?k")
      case True
      then have "i < 8 * length (bn_words x)"
        using k(2) assms by simp
      moreover from this have "concat (map (le_bytes 8) (bn_d x)) ! i = concat (map (le_bytes 8) (bn_words x)) ! i"
        by (subst d) (simp add: nth_append length_concat_bytes del: append_take_drop_id)
      ultimately show ?thesis
        using True i lenk byte_of_words [of i "bn_words x"] nth_concat_bytes [of i "bn_words x"]
        by (simp add: nth_append bn_abs_def)
    next
      case False
      then have "(256 :: nat) ^ ?k \<le> 2 ^ (8 * i)"
        unfolding bytes_bits by (intro power_increasing) simp_all
      then have "drop_bit (8 * i) (bn_abs x) = 0"
        using k(1) by (simp add: drop_bit_eq_div)
      with False i lenk show ?thesis
        by (simp add: nth_append)
    qed
  qed
  then show ?thesis
    using num_bytes_le_iff [OF assms, of n] by (auto simp: BN_bn2le_padded_def Let_def not_less)
qed


section \<open>Reading numbers\<close>

lemma be_nat_words_of_bytes: "bn_nat (words_of_bytes bs) = be_nat (rev bs)"
proof (induction bs rule: words_of_bytes.induct)
  case (2 b bs)
  let ?lo = "take 8 (b # bs)" and ?hi = "drop 7 bs"
  have "unat (le_word ?lo :: u64) = be_nat (rev ?lo)"
    using unat_be_word [of "rev ?lo", where ?'a = 64] by (simp add: be_word_le_word)
  then have "bn_nat (words_of_bytes (b # bs)) = be_nat (rev ?lo) + bn_base * be_nat (rev ?hi)"
    using 2 by (simp only: words_of_bytes.simps bn_nat.simps)
  also have "bn_base * be_nat (rev ?hi) = be_nat (rev ?hi) * 256 ^ length (rev ?lo)"
    by (cases "length bs < 8") (auto simp: bn_base_def)
  also have "be_nat (rev ?lo) + be_nat (rev ?hi) * 256 ^ length (rev ?lo) = be_nat (rev ?hi @ rev ?lo)"
    by (simp only: be_nat_append add.commute)
  also have "rev ?hi @ rev ?lo = rev (b # bs)"
    unfolding rev_append [symmetric] by simp
  finally show ?case .
qed simp

lemma length_words_of_bytes: "length (words_of_bytes bs) = (length bs + 7) div 8"
  by (induction bs rule: words_of_bytes.induct) (auto simp: le_div_geq)

lemma push_byte_spec:
  assumes "m < 8" and "unat (w :: u64) < 256 ^ (7 - m)"
  shows "unat (push_bit 8 w OR ucast (b :: byte)) = unat w * 256 + unat b" and "unat w * 256 + unat b < 256 ^ (8 - m)"
proof -
  have "8 - m = Suc (7 - m)"
    using assms(1) by simp
  then have "(256 :: nat) ^ (8 - m) = 256 ^ (7 - m) * 256"
    by simp
  then have less: "unat w * 256 + 255 < 256 ^ (8 - m)"
    using assms(2) by simp
  then show "unat w * 256 + unat b < 256 ^ (8 - m)"
    using unat_byte_less [of b] by linarith
  note less
  also have "(256 :: nat) ^ (8 - m) \<le> 256 ^ 8"
    by (rule power_increasing) simp_all
  finally show "unat (push_bit 8 w OR ucast b) = unat w * 256 + unat b"
    by (intro unat_push_byte) simp_all
qed

lemma bin2bn_loop_spec:
  assumes "m < 8" and "length bs mod 8 = (m + 1) mod 8" and "unat w < 256 ^ (7 - m)"
  shows "bn_nat (rev (bin2bn_loop bs m w)) = unat w * 256 ^ length bs + be_nat bs \<and>
    length (bin2bn_loop bs m w) = (length bs + (7 - m)) div 8"
  using assms
proof (induction bs arbitrary: m w)
  case Nil
  then have "m = 7"
    by (cases "m = 7") auto
  with Nil show ?case
    by simp
next
  case (Cons b bs)
  let ?w = "push_bit 8 w OR ucast b :: u64"
  let ?L = "length bs"
  note w = push_byte_spec [OF Cons.prems(1,3), of b]
  have be: "be_nat (b # bs) = unat b * 256 ^ ?L + be_nat bs"
    using be_nat_append [of "[b]" bs] by simp
  show ?case
  proof (cases "m = 0")
    case True
    then have mod: "?L mod 8 = 0"
      using Cons.prems(2) by (simp add: mod_Suc split: if_splits)
    then have "8 * (?L div 8) = ?L"
      using div_mult_mod_eq [of ?L 8] by simp
    then have pow: "bn_base ^ (?L div 8) = 256 ^ ?L"
      using power_mult [of "256 :: nat" 8 "?L div 8"] by (simp add: bn_base_def)
    show ?thesis
      using Cons.IH [of 7 0] mod pow w True
      by (simp add: Let_def bn_nat_append be algebra_simps)
  next
    case False
    have "?L mod 8 = (m - 1 + 1) mod 8"
      using Cons.prems(1,2) False by (simp add: mod_Suc split: if_splits)
    moreover have "7 - (m - 1) = 8 - m"
      using False by simp
    ultimately show ?thesis
      using Cons.IH [of "m - 1" ?w] Cons.prems(1) False w
      by (simp add: Let_def be algebra_simps Suc_diff_le)
  qed
qed


text \<open>Both functions put the words into the array and drop its leading zeros.\<close>

lemma fill_spec:
  assumes fits: "bn_fits (nums s b)" and n: "length ws = n"
    and new: "\<And>t x. nums t = (nums s)(b := x) \<Longrightarrow> bn_wf x \<Longrightarrow> bn_abs x = bn_nat ws \<Longrightarrow>
      bn_neg x = (g (bn_neg (nums s b)) \<and> bn_nat ws \<noteq> 0) \<Longrightarrow> P b t"
    and fails: "\<And>t. nums t = nums s \<Longrightarrow> length (bn_d (nums s b)) < n \<Longrightarrow> Q t"
  shows "outcome P Q (seq (bn_wexpand b n) (seq (modify b (\<lambda>x. x\<lparr>bn_top := n, bn_neg := g (bn_neg x)\<rparr>))
    (seq (write_words b 0 ws) (seq (bn_correct_top b) (ret b))))) s"
  unfolding outcome_bnd [of _ _ "bn_wexpand b n"]
proof (rule outcome_wexpand [OF fits])
  fix t :: bn_state and d
  assume t: "nums t = (nums s)(b := (nums s b)\<lparr>bn_d := d\<rparr>)" and d: "n \<le> length d"
  let ?y = "(nums s b)\<lparr>bn_top := n, bn_neg := g (bn_neg (nums s b)), bn_d := ws @ drop n d\<rparr>"
  have y: "bn_fits ?y" "bn_abs ?y = bn_nat ws"
    using n by (simp_all add: bn_fits_def bn_abs_def bn_words_def)
  have "outcome P Q (seq (bn_correct_top b) (ret b)) u" if u: "nums u = (nums s)(b := ?y)" for u :: bn_state
    unfolding outcome_bnd outcome_ret
  proof (rule outcome_correct_top)
    show "bn_fits (nums u b)"
      using y u by simp
  next
    fix v :: bn_state and x
    assume "nums v = (nums u)(b := x)" and "bn_wf x" and "bn_abs x = bn_abs (nums u b)"
      and "bn_neg x = (bn_neg (nums u b) \<and> bn_abs (nums u b) \<noteq> 0)"
    then show "P b v"
      using u y by (intro new) simp_all
  qed
  then show "outcome P Q (seq (modify b (\<lambda>x. x\<lparr>bn_top := n, bn_neg := g (bn_neg x)\<rparr>)) (seq (write_words b 0 ws) (seq (bn_correct_top b) (ret b)))) t"
    using t d n by (simp add: outcome_bnd [of _ _ "modify b _"] outcome_bnd [of _ _ "write_words b 0 ws"] outcome_modify outcome_write)
qed (rule fails)

lemma whole_words: "bs \<noteq> [] \<Longrightarrow> length bs + (7 - (length bs - 1) mod 8) = 8 * ((length bs - 1) div 8 + 1)"
proof -
  have "(length bs - 1) mod 8 \<le> 7"
    by simp
  moreover assume "bs \<noteq> []"
  then have "1 \<le> length bs"
    by (cases bs) simp_all
  moreover have "q * 8 + r = l - 1 \<Longrightarrow> r \<le> 7 \<Longrightarrow> 1 \<le> l \<Longrightarrow> l + (7 - r) = 8 * (q + 1)" for q r l :: nat
    by arith
  ultimately show ?thesis
    using div_mult_mod_eq [of "length bs - 1" 8] by blast
qed

lemma BN_bin2bn_spec:
  assumes "bn_fits (nums s b)" and "bs \<noteq> []"
  shows "outcome (\<lambda>r t. r = b \<and> (\<exists>x. nums t = (nums s)(b := x) \<and> bn_wf x \<and> bn_int x = int (be_nat bs)))
    (\<lambda>t. nums t = nums s \<and> 8 * length (bn_d (nums s b)) < length bs) (BN_bin2bn f bs (Some b)) s"
proof -
  let ?m = "(length bs - 1) mod 8" and ?n = "(length bs - 1) div 8 + 1"
  let ?ws = "rev (bin2bn_loop bs ?m 0)"
  have "length bs mod 8 = (?m + 1) mod 8"
    using assms(2) by (cases bs) (simp_all add: mod_Suc_eq)
  then have "bn_nat ?ws = be_nat bs" and len: "length ?ws = (length bs + (7 - ?m)) div 8"
    using bin2bn_loop_spec [of ?m bs 0] by simp_all
  have "length ?ws = ?n"
    using len whole_words [OF assms(2)] by simp
  have "outcome (\<lambda>r t. r = b \<and> (\<exists>x. nums t = (nums s)(b := x) \<and> bn_wf x \<and> bn_int x = int (be_nat bs)))
    (\<lambda>t. nums t = nums s \<and> 8 * length (bn_d (nums s b)) < length bs)
    (seq (bn_wexpand b ?n) (seq (modify b (\<lambda>x. x\<lparr>bn_top := ?n, bn_neg := False\<rparr>))
    (seq (write_words b 0 ?ws) (seq (bn_correct_top b) (ret b))))) s"
  proof (rule fill_spec [OF assms(1) \<open>length ?ws = ?n\<close>, of "\<lambda>_. False"])
    fix t :: bn_state and x
    assume "nums t = (nums s)(b := x)" and "bn_wf x" and "bn_abs x = bn_nat ?ws" and "bn_neg x = (False \<and> bn_nat ?ws \<noteq> 0)"
    then show "b = b \<and> (\<exists>x. nums t = (nums s)(b := x) \<and> bn_wf x \<and> bn_int x = int (be_nat bs))"
      using \<open>bn_nat ?ws = be_nat bs\<close> by (auto simp: bn_int_def)
  next
    fix t :: bn_state
    assume "nums t = nums s" and "length (bn_d (nums s b)) < ?n"
    then show "nums t = nums s \<and> 8 * length (bn_d (nums s b)) < length bs"
      using assms(2) by (cases bs) auto
  qed
  then show ?thesis
    using assms(2) by (simp add: BN_bin2bn_def expand_or_free_def new_or_given_def Let_def outcome_bnd [of _ _ "ret b"] outcome_ret)
qed


text \<open>An empty string leaves the sign: a negative number becomes a zero that is negative.\<close>

lemma BN_bin2bn_empty:
  "BN_bin2bn f [] (Some b) s = (Ret b, set_num b ((nums s b)\<lparr>bn_top := 0\<rparr>) s)"
  by (simp add: BN_bin2bn_def expand_or_free_def new_or_given_def bnd_def modify_def ret_def)

text \<open>\<open>BN_le2bn\<close> leaves the sign when the string is not empty.\<close>

lemma BN_le2bn_spec:
  assumes "bn_fits (nums s b)"
  shows "outcome (\<lambda>r t. r = b \<and> (\<exists>x. nums t = (nums s)(b := x) \<and> bn_wf x \<and> bn_abs x = be_nat (rev bs) \<and>
        bn_neg x = (bn_neg (nums s b) \<and> be_nat (rev bs) \<noteq> 0)))
    (\<lambda>t. nums t = nums s \<and> 8 * length (bn_d (nums s b)) < length bs) (BN_le2bn f bs (Some b)) s"
    (is "outcome ?P ?Q _ s")
proof (cases "bs = []")
  case True
  have "bn_wf ((nums s b)\<lparr>bn_top := 0, bn_neg := False\<rparr>)" and "bn_abs ((nums s b)\<lparr>bn_top := 0, bn_neg := False\<rparr>) = 0"
    by (simp_all add: bn_wf_def bn_fits_def bn_abs_def bn_words_def)
  then show ?thesis
    using True
    by (auto simp: BN_le2bn_def expand_or_free_def new_or_given_def Let_def outcome_bnd outcome_ret outcome_modify intro!: exI)
next
  case False
  let ?n = "(length bs - 1) div 8 + 1" and ?ws = "words_of_bytes bs"
  have "length ?ws = ?n"
    using False by (cases bs) (simp_all add: length_words_of_bytes)
  have "outcome ?P ?Q
    (seq (bn_wexpand b ?n) (seq (modify b (\<lambda>x. x\<lparr>bn_top := ?n, bn_neg := bn_neg x\<rparr>))
    (seq (write_words b 0 ?ws) (seq (bn_correct_top b) (ret b))))) s"
  proof (rule fill_spec [OF assms(1) \<open>length ?ws = ?n\<close>])
    fix t :: bn_state and x
    assume "nums t = (nums s)(b := x)" and "bn_wf x" and "bn_abs x = bn_nat ?ws"
      and "bn_neg x = (bn_neg (nums s b) \<and> bn_nat ?ws \<noteq> 0)"
    then show "?P b t"
      by (auto simp: be_nat_words_of_bytes)
  next
    fix t :: bn_state
    assume "nums t = nums s" and "length (bn_d (nums s b)) < ?n"
    then show "?Q t"
      using False by (cases bs) auto
  qed
  then show ?thesis
    using False by (simp add: BN_le2bn_def expand_or_free_def new_or_given_def Let_def outcome_bnd [of _ _ "ret b"] outcome_ret)
qed


text \<open>What the two functions make of a negative number: a negative zero, and a negative number.\<close>

lemma read_bytes_keep_sign:
  assumes "bn_fits (nums s b)" and "bn_neg (nums s b)"
  shows "BN_is_zero (nums (snd (BN_bin2bn f [] (Some b) s)) b) \<and> BN_is_negative (nums (snd (BN_bin2bn f [] (Some b) s)) b) \<and>
    outcome (\<lambda>_ t. bn_int (nums t b) = - int (be_nat (rev bs)))
      (\<lambda>t. 8 * length (bn_d (nums s b)) < length bs) (BN_le2bn f bs (Some b)) s"
proof -
  have "outcome (\<lambda>_ t. bn_int (nums t b) = - int (be_nat (rev bs)))
      (\<lambda>t. 8 * length (bn_d (nums s b)) < length bs) (BN_le2bn f bs (Some b)) s"
    by (rule outcome_mono [OF BN_le2bn_spec [OF assms(1)]]) (auto simp: assms(2) bn_int_def)
  then show ?thesis
    using assms(2) by (simp add: BN_bin2bn_empty BN_is_zero_def BN_is_negative_def)
qed

section \<open>Properties\<close>

text \<open>
  C11: the padded output, which must not branch on the number, is exact. \<open>BN_bn2bin_padded\<close> and \<open>BN_bn2le_padded\<close> accept
  a number just when its absolute value fits into the bytes, and then give all of its bytes and zeros above them.
\<close>

theorem padded_bytes:
  assumes "bn_wf x" and "length (bn_d x) < 2 ^ 63" and "n < 2 ^ 63"
  shows "BN_bn2bin_padded n x = (if bn_abs x < 256 ^ n then Some (rev (bytes_of n (bn_abs x))) else None) \<and>
    BN_bn2le_padded n x = (if bn_abs x < 256 ^ n then Some (bytes_of n (bn_abs x)) else None) \<and>
    be_nat (rev (bytes_of n (bn_abs x))) = bn_abs x mod 256 ^ n"
  by (intro conjI BN_bn2bin_padded_spec BN_bn2le_padded_spec be_nat_bytes_of assms)

lemma padded_bytes_witness:
  "BN_bn2bin_padded 3 (nums demo_state 0) = Some [0, 0, 5] \<and> BN_bn2le_padded 3 (nums demo_state 0) = Some [5, 0, 0] \<and>
    BN_bn2bin_padded 0 (nums demo_state 0) = None"
proof -
  have "length (bn_d (nums demo_state 0)) < 2 ^ 63"
    by (simp add: demo_state_def demo_num_def)
  from padded_bytes [OF demo_state(1) this, of 3] padded_bytes [OF demo_state(1) this, of 0] show ?thesis
    unfolding demo_state(8) by (simp add: bytes_of_def upt_rec drop_bit_eq_div)
qed

text \<open>
  C12: \<open>BN_bn2bin\<close> writes the shortest big-endian string of the absolute value, and \<open>BN_bin2bn\<close> reads it back into any number
  whose array has room for it or can be enlarged; \<open>BN_bin2bn\<close> gives the value of every string that is not empty.
\<close>

theorem bytes_round_trip:
  assumes "bn_wf x" and "0 < bn_top x" and "bn_fits (nums s b)"
  shows "BN_bn2bin x = be_min (bn_abs x) \<and>
    outcome (\<lambda>r t. r = b \<and> (\<exists>y. nums t = (nums s)(b := y) \<and> bn_wf y \<and> bn_int y = int (bn_abs x)))
      (\<lambda>t. nums t = nums s \<and> 8 * length (bn_d (nums s b)) < BN_num_bytes x) (BN_bin2bn f (BN_bn2bin x) (Some b)) s"
proof -
  have out: "BN_bn2bin x = be_min (bn_abs x)"
    by (rule BN_bn2bin_spec [OF assms(1)])
  have "length (BN_bn2bin x) = BN_num_bytes x"
    by (simp add: BN_bn2bin_def length_bn2bin_loop)
  moreover have "BN_num_bytes x \<noteq> 0"
    using num_bytes_spec(2) [OF assms(1,2)] bn_abs_pos [OF assms(1,2)] by (cases "BN_num_bytes x") simp_all
  ultimately have "BN_bn2bin x \<noteq> []"
    by (metis list.size(3))
  from BN_bin2bn_spec [OF assms(3) this, of f] show ?thesis
    using \<open>length (BN_bn2bin x) = _\<close> by (simp add: out)
qed

lemma bytes_round_trip_witness:
  "BN_bn2bin (nums demo_state 0) = [5] \<and>
    outcome (\<lambda>r t. r = 1 \<and> (\<exists>y. nums t = (nums demo_state)(1 := y) \<and> bn_wf y \<and> bn_int y = int 5))
      (\<lambda>t. nums t = nums demo_state \<and> 8 * length (bn_d (nums demo_state 1)) < BN_num_bytes (nums demo_state 0))
      (BN_bin2bn 9 (BN_bn2bin (nums demo_state 0)) (Some 1)) demo_state"
proof -
  have top: "0 < bn_top (nums demo_state 0)"
    by (simp add: demo_state_def demo_num_def)
  have "be_min 5 = [5]"
    by (simp add: be_min.simps)
  then show ?thesis
    using bytes_round_trip [OF demo_state(1) top bn_wf_fits [OF demo_state(2)], of 9] unfolding demo_state(8) by argo
qed

end
