(* ===== verification/Bio.thy ===== *)
theory Bio
  imports Buf
begin

text \<open>
  BoringSSL's byte streams: the generic functions of \<open>crypto/bio/bio.c\<close> with the two kinds of \<open>BIO\<close> that keep their
  data in memory, the pairs of \<open>crypto/bio/pair.c\<close> and the buffers of \<open>crypto/bio/bio_mem.c\<close>, and the reference
  counts of \<open>crypto/refcount_lock.c\<close>. \<open>BIO\<close>s and \<open>BUF_MEM\<close>s are objects at addresses; an address without an object is
  freed or was never given out, and an access there is \<open>Stuck\<close>, as a failed assertion is. The answers of the allocator are a
  list of the state: no memory, or a block with what it holds. Sizes are natural numbers: sums of them are less than twice the
  size of an allocated block.
\<close>

unbundle bit_operations_syntax

section \<open>Objects\<close>

datatype bio_method = methods_biop | mem_method

record bio_bio =
  bb_peer :: "nat option"
  bb_closed :: bool
  bb_len :: nat
  bb_offset :: nat
  bb_size :: nat
  bb_buf :: "byte list option"
  bb_request :: nat

datatype bio_ptr = NullPtr | PairPtr bio_bio | BufPtr nat

record bio =
  b_method :: "bio_method option"
  b_init :: bool
  b_shutdown :: int
  b_flags :: u32
  b_retry_reason :: int
  b_num :: int
  b_references :: u32
  b_ptr :: bio_ptr
  b_next :: "nat option"
  b_num_read :: u64
  b_num_write :: u64

text \<open>
  A buffer of a memory \<open>BIO\<close>, and the bytes between the start of its memory and its \<open>data\<close> pointer, which a
  read-only \<open>BIO\<close> moves.
\<close>

record bio_world =
  bios :: "nat \<Rightarrow> bio option"
  bufs :: "nat \<Rightarrow> (byte list \<times> buf_mem) option"
  next_addr :: nat
  allocs :: "(nat \<Rightarrow> byte) option list"

definition assertion :: "bool \<Rightarrow> (bio_world, unit) prog" where
  "assertion c = (if c then ret () else stuck)"

definition get_bio :: "nat \<Rightarrow> (bio_world, bio) prog" where
  "get_bio a = (\<lambda>w. case bios w a of None \<Rightarrow> (Stuck, w) | Some b \<Rightarrow> (Ret b, w))"

definition put_bio :: "nat \<Rightarrow> bio option \<Rightarrow> (bio_world, unit) prog" where
  "put_bio a b = (\<lambda>w. (Ret (), w\<lparr>bios := (bios w)(a := b)\<rparr>))"

definition upd_bio :: "nat \<Rightarrow> (bio \<Rightarrow> bio) \<Rightarrow> (bio_world, unit) prog" where
  "upd_bio a f = bnd (get_bio a) (\<lambda>b. put_bio a (Some (f b)))"

definition get_pair :: "nat \<Rightarrow> (bio_world, bio_bio) prog" where
  "get_pair a = bnd (get_bio a) (\<lambda>b. case b_ptr b of PairPtr p \<Rightarrow> ret p | _ \<Rightarrow> stuck)"

definition put_pair :: "nat \<Rightarrow> bio_bio \<Rightarrow> (bio_world, unit) prog" where
  "put_pair a p = upd_bio a (\<lambda>b. b\<lparr>b_ptr := PairPtr p\<rparr>)"

definition get_buf :: "nat \<Rightarrow> (bio_world, byte list \<times> buf_mem) prog" where
  "get_buf a = (\<lambda>w. case bufs w a of None \<Rightarrow> (Stuck, w) | Some b \<Rightarrow> (Ret b, w))"

definition put_buf :: "nat \<Rightarrow> (byte list \<times> buf_mem) option \<Rightarrow> (bio_world, unit) prog" where
  "put_buf a b = (\<lambda>w. (Ret (), w\<lparr>bufs := (bufs w)(a := b)\<rparr>))"

text \<open>\<open>OPENSSL_malloc\<close> of \<open>n\<close> bytes, and the address of a new object.\<close>

definition alloc :: "nat \<Rightarrow> (bio_world, byte list) prog" where
  "alloc n = (\<lambda>w. case allocs w of
      [] \<Rightarrow> (Fail, w)
    | None # as \<Rightarrow> (Fail, w\<lparr>allocs := as\<rparr>)
    | Some g # as \<Rightarrow> (Ret (map g [0..<n]), w\<lparr>allocs := as\<rparr>))"

definition new_addr :: "(bio_world, nat) prog" where
  "new_addr = seq (alloc 0) (\<lambda>w. (Ret (next_addr w), w\<lparr>next_addr := next_addr w + 1\<rparr>))"

text \<open>A \<open>size_t\<close> as an \<open>int\<close>, and an \<open>int\<close> as a \<open>size_t\<close>.\<close>

definition to_int :: "nat \<Rightarrow> int" where
  "to_int n = sint (of_nat n :: u32)"

definition to_size_t :: "int \<Rightarrow> nat" where
  "to_size_t i = unat (of_int i :: u64)"

text \<open>A \<open>long\<close> as an \<open>int\<close>.\<close>

definition long_to_int :: "int \<Rightarrow> int" where
  "long_to_int i = sint (of_int i :: u32)"

section \<open>Flags and reference counts\<close>

definition BIO_FLAGS_READ :: u32 where
  "BIO_FLAGS_READ = 0x01"

definition BIO_FLAGS_WRITE :: u32 where
  "BIO_FLAGS_WRITE = 0x02"

definition BIO_FLAGS_IO_SPECIAL :: u32 where
  "BIO_FLAGS_IO_SPECIAL = 0x04"

definition BIO_FLAGS_RWS :: u32 where
  "BIO_FLAGS_RWS = BIO_FLAGS_READ OR BIO_FLAGS_WRITE OR BIO_FLAGS_IO_SPECIAL"

definition BIO_FLAGS_SHOULD_RETRY :: u32 where
  "BIO_FLAGS_SHOULD_RETRY = 0x08"

definition BIO_FLAGS_MEM_RDONLY :: u32 where
  "BIO_FLAGS_MEM_RDONLY = 0x200"

definition kRetryFlags :: u32 where
  "kRetryFlags = BIO_FLAGS_RWS OR BIO_FLAGS_SHOULD_RETRY"

definition BIO_set_flags :: "nat \<Rightarrow> u32 \<Rightarrow> (bio_world, unit) prog" where
  "BIO_set_flags a flags = upd_bio a (\<lambda>b. b\<lparr>b_flags := b_flags b OR flags\<rparr>)"

definition BIO_clear_flags :: "nat \<Rightarrow> u32 \<Rightarrow> (bio_world, unit) prog" where
  "BIO_clear_flags a flags = upd_bio a (\<lambda>b. b\<lparr>b_flags := b_flags b AND NOT flags\<rparr>)"

definition BIO_test_flags :: "bio \<Rightarrow> u32 \<Rightarrow> u32" where
  "BIO_test_flags b flags = b_flags b AND flags"

definition BIO_should_read :: "bio \<Rightarrow> bool" where
  "BIO_should_read b \<longleftrightarrow> BIO_test_flags b BIO_FLAGS_READ \<noteq> 0"

definition BIO_should_write :: "bio \<Rightarrow> bool" where
  "BIO_should_write b \<longleftrightarrow> BIO_test_flags b BIO_FLAGS_WRITE \<noteq> 0"

definition BIO_should_retry :: "bio \<Rightarrow> bool" where
  "BIO_should_retry b \<longleftrightarrow> BIO_test_flags b BIO_FLAGS_SHOULD_RETRY \<noteq> 0"

definition BIO_should_io_special :: "bio \<Rightarrow> bool" where
  "BIO_should_io_special b \<longleftrightarrow> BIO_test_flags b BIO_FLAGS_IO_SPECIAL \<noteq> 0"

definition BIO_get_retry_reason :: "bio \<Rightarrow> int" where
  "BIO_get_retry_reason b = b_retry_reason b"

definition BIO_number_read :: "bio \<Rightarrow> u64" where
  "BIO_number_read b = b_num_read b"

definition BIO_number_written :: "bio \<Rightarrow> u64" where
  "BIO_number_written b = b_num_write b"

definition BIO_set_init :: "nat \<Rightarrow> bool \<Rightarrow> (bio_world, unit) prog" where
  "BIO_set_init a init = upd_bio a (\<lambda>b. b\<lparr>b_init := init\<rparr>)"

definition BIO_set_shutdown :: "nat \<Rightarrow> int \<Rightarrow> (bio_world, unit) prog" where
  "BIO_set_shutdown a shutdown = upd_bio a (\<lambda>b. b\<lparr>b_shutdown := shutdown\<rparr>)"

definition BIO_set_retry_special :: "nat \<Rightarrow> (bio_world, unit) prog" where
  "BIO_set_retry_special a = upd_bio a (\<lambda>b. b\<lparr>b_flags := b_flags b OR (BIO_FLAGS_READ OR BIO_FLAGS_IO_SPECIAL)\<rparr>)"

definition BIO_set_retry_read :: "nat \<Rightarrow> (bio_world, unit) prog" where
  "BIO_set_retry_read a = upd_bio a (\<lambda>b. b\<lparr>b_flags := b_flags b OR (BIO_FLAGS_READ OR BIO_FLAGS_SHOULD_RETRY)\<rparr>)"

definition BIO_set_retry_write :: "nat \<Rightarrow> (bio_world, unit) prog" where
  "BIO_set_retry_write a = upd_bio a (\<lambda>b. b\<lparr>b_flags := b_flags b OR (BIO_FLAGS_WRITE OR BIO_FLAGS_SHOULD_RETRY)\<rparr>)"

definition BIO_get_retry_flags :: "bio \<Rightarrow> u32" where
  "BIO_get_retry_flags b = b_flags b AND kRetryFlags"

definition BIO_clear_retry_flags :: "nat \<Rightarrow> (bio_world, unit) prog" where
  "BIO_clear_retry_flags a = upd_bio a (\<lambda>b. b\<lparr>b_flags := b_flags b AND NOT kRetryFlags, b_retry_reason := 0\<rparr>)"

definition CRYPTO_REFCOUNT_MAX :: u32 where
  "CRYPTO_REFCOUNT_MAX = 0xffffffff"

definition CRYPTO_refcount_inc :: "u32 \<Rightarrow> u32" where
  "CRYPTO_refcount_inc n = (if n < CRYPTO_REFCOUNT_MAX then n + 1 else n)"

text \<open>The new count and the result; \<open>None\<close> is \<open>abort\<close>.\<close>

definition CRYPTO_refcount_dec_and_test_zero :: "u32 \<Rightarrow> (u32 \<times> bool) option" where
  "CRYPTO_refcount_dec_and_test_zero n =
     (if n = 0 then None
      else let n = (if n < CRYPTO_REFCOUNT_MAX then n - 1 else n) in Some (n, n = 0))"

definition BIO_up_ref :: "nat \<Rightarrow> (bio_world, unit) prog" where
  "BIO_up_ref a = upd_bio a (\<lambda>b. b\<lparr>b_references := CRYPTO_refcount_inc (b_references b)\<rparr>)"

section \<open>Pairs\<close>

definition bio_new :: "nat \<Rightarrow> (bio_world, unit) prog" where
  "bio_new a = seq (alloc 0) (put_pair a
     \<lparr>bb_peer = None, bb_closed = False, bb_len = 0, bb_offset = 0, bb_size = 17 * 1024, bb_buf = None, bb_request = 0\<rparr>)"

definition bio_destroy_pair :: "nat \<Rightarrow> (bio_world, unit) prog" where
  "bio_destroy_pair a = bnd (get_bio a) (\<lambda>bio. case b_ptr bio of NullPtr \<Rightarrow> ret () | _ \<Rightarrow>
     bnd (get_pair a) (\<lambda>b. case bb_peer b of None \<Rightarrow> ret () | Some p \<Rightarrow>
     bnd (get_pair p) (\<lambda>peer_b.
     seq (assertion (bb_peer peer_b = Some a))
     (seq (put_pair p (peer_b\<lparr>bb_peer := None\<rparr>))
     (seq (upd_bio p (\<lambda>x. x\<lparr>b_init := False\<rparr>))
     (seq (assertion (bb_buf peer_b \<noteq> None))
     (seq (put_pair p (peer_b\<lparr>bb_peer := None, bb_len := 0, bb_offset := 0\<rparr>))
     (bnd (get_pair a) (\<lambda>b.
     seq (put_pair a (b\<lparr>bb_peer := None\<rparr>))
     (seq (upd_bio a (\<lambda>x. x\<lparr>b_init := False\<rparr>))
     (seq (assertion (bb_buf b \<noteq> None))
     (put_pair a (b\<lparr>bb_peer := None, bb_len := 0, bb_offset := 0\<rparr>)))))))))))))"

text \<open>The pair's data is freed with its buffer.\<close>

definition bio_free :: "nat option \<Rightarrow> (bio_world, unit) prog" where
  "bio_free bio = (case bio of None \<Rightarrow> fail | Some a \<Rightarrow>
     bnd (get_pair a) (\<lambda>b.
     seq (if bb_peer b \<noteq> None then bio_destroy_pair a else ret ())
     (upd_bio a (\<lambda>x. x\<lparr>b_ptr := NullPtr\<rparr>))))"

text \<open>
  The loops over the ring. Each round copies the bytes up to the end of the buffer or all that are left. \<open>None\<close> is a loop that does
  not end, a failed assertion or an access outside of the buffer.
\<close>

partial_function (option) read_loop :: "bio_bio \<Rightarrow> nat \<Rightarrow> (byte list \<times> bio_bio) option" where
  "read_loop peer_b rest = (case bb_buf peer_b of None \<Rightarrow> None | Some d \<Rightarrow>
     if bb_len peer_b < rest then None
     else
       let chunk = (if bb_offset peer_b + rest \<le> bb_size peer_b then rest else bb_size peer_b - bb_offset peer_b) in
       if bb_size peer_b < bb_offset peer_b + chunk \<or> length d < bb_offset peer_b + chunk then None
       else
         let data = take chunk (drop (bb_offset peer_b) d);
             peer_b = peer_b\<lparr>bb_len := bb_len peer_b - chunk\<rparr> in
         Option.bind
           (if bb_len peer_b \<noteq> 0 then
              (let peer_b = peer_b\<lparr>bb_offset := bb_offset peer_b + chunk\<rparr> in
               if bb_size peer_b < bb_offset peer_b then None
               else Some (if bb_offset peer_b = bb_size peer_b then peer_b\<lparr>bb_offset := 0\<rparr> else peer_b))
            else if chunk \<noteq> rest then None
            else Some (peer_b\<lparr>bb_offset := 0\<rparr>))
           (\<lambda>peer_b.
              if rest - chunk = 0 then Some (data, peer_b)
              else Option.bind (read_loop peer_b (rest - chunk)) (\<lambda>(data', peer_b). Some (data @ data', peer_b))))"

partial_function (option) write_loop :: "bio_bio \<Rightarrow> byte list \<Rightarrow> nat \<Rightarrow> bio_bio option" where
  "write_loop b buf rest = (case bb_buf b of None \<Rightarrow> None | Some d \<Rightarrow>
     if bb_size b < bb_len b + rest then None
     else
       let write_offset = bb_offset b + bb_len b;
           write_offset = (if bb_size b \<le> write_offset then write_offset - bb_size b else write_offset);
           chunk = (if write_offset + rest \<le> bb_size b then rest else bb_size b - write_offset) in
       if length d < write_offset + chunk \<or> length buf < chunk then None
       else
         let b = b\<lparr>bb_buf := Some (take write_offset d @ take chunk buf @ drop (write_offset + chunk) d),
                   bb_len := bb_len b + chunk\<rparr> in
         if bb_size b < bb_len b then None
         else if rest - chunk = 0 then Some b
         else write_loop b (drop chunk buf) (rest - chunk))"

text \<open>The results are what the function returns and the bytes it writes to \<open>buf\<close>, which is a null pointer if \<open>null\<close> holds.\<close>

definition bio_read :: "nat \<Rightarrow> bool \<Rightarrow> int \<Rightarrow> (bio_world, int \<times> byte list) prog" where
  "bio_read a null sz =
     (let size = to_size_t sz in
      seq (BIO_clear_retry_flags a)
      (bnd (get_bio a) (\<lambda>bio.
       if \<not> b_init bio then ret (0, [])
       else
         bnd (get_pair a) (\<lambda>b. case bb_peer b of None \<Rightarrow> stuck | Some p \<Rightarrow>
         bnd (get_pair p) (\<lambda>peer_b.
         seq (assertion (bb_buf peer_b \<noteq> None))
         (let peer_b = peer_b\<lparr>bb_request := 0\<rparr> in
          seq (put_pair p peer_b)
          (if null \<or> size = 0 then ret (0, [])
           else if bb_len peer_b = 0 then
             (if bb_closed peer_b then ret (0, [])
              else
                seq (BIO_set_retry_read a)
                (seq (put_pair p (peer_b\<lparr>bb_request := (if size \<le> bb_size peer_b then size else bb_size peer_b)\<rparr>))
                (ret (-1, []))))
           else
             let size = (if bb_len peer_b < size then bb_len peer_b else size) in
             case read_loop peer_b size of None \<Rightarrow> stuck
             | Some (data, peer_b) \<Rightarrow> seq (put_pair p peer_b) (ret (to_int size, data)))))))))"

definition bio_write :: "nat \<Rightarrow> byte list option \<Rightarrow> int \<Rightarrow> (bio_world, int) prog" where
  "bio_write a buf inl =
     (let num = to_size_t inl in
      seq (BIO_clear_retry_flags a)
      (bnd (get_bio a) (\<lambda>bio. case buf of None \<Rightarrow> ret 0 | Some buf \<Rightarrow>
       if \<not> b_init bio \<or> num = 0 then ret 0
       else
         bnd (get_pair a) (\<lambda>b.
         seq (assertion (bb_peer b \<noteq> None \<and> bb_buf b \<noteq> None))
         (let b = b\<lparr>bb_request := 0\<rparr> in
          seq (put_pair a b)
          (if bb_closed b then ret (-1)
           else
             seq (assertion (bb_len b \<le> bb_size b))
             (if bb_len b = bb_size b then seq (BIO_set_retry_write a) (ret (-1))
              else
                let num = (if bb_size b - bb_len b < num then bb_size b - bb_len b else num) in
                case write_loop b buf num of None \<Rightarrow> stuck
                | Some b \<Rightarrow> seq (put_pair a b) (ret (to_int num)))))))))"


text \<open>The buffer of one side, made when there is none; \<open>fail\<close> is a return of 0.\<close>

definition make_buf :: "nat \<Rightarrow> nat \<Rightarrow> (bio_world, unit) prog" where
  "make_buf a writebuf_len = bnd (get_pair a) (\<lambda>b.
     if bb_buf b \<noteq> None then ret ()
     else
       let b = (if writebuf_len \<noteq> 0 then b\<lparr>bb_size := writebuf_len\<rparr> else b) in
       seq (put_pair a b)
       (bnd (alloc (bb_size b)) (\<lambda>mem.
        put_pair a (b\<lparr>bb_buf := Some mem, bb_len := 0, bb_offset := 0\<rparr>))))"

definition bio_make_pair :: "nat \<Rightarrow> nat \<Rightarrow> nat \<Rightarrow> nat \<Rightarrow> (bio_world, unit) prog" where
  "bio_make_pair a1 a2 writebuf1_len writebuf2_len =
     bnd (get_pair a1) (\<lambda>b1. bnd (get_pair a2) (\<lambda>b2.
     if bb_peer b1 \<noteq> None \<or> bb_peer b2 \<noteq> None then fail
     else
       seq (make_buf a1 writebuf1_len)
       (seq (make_buf a2 writebuf2_len)
       (bnd (get_pair a1) (\<lambda>b1.
        seq (put_pair a1 (b1\<lparr>bb_peer := Some a2, bb_closed := False, bb_request := 0\<rparr>))
       (bnd (get_pair a2) (\<lambda>b2.
        seq (put_pair a2 (b2\<lparr>bb_peer := Some a1, bb_closed := False, bb_request := 0\<rparr>))
       (seq (upd_bio a1 (\<lambda>x. x\<lparr>b_init := True\<rparr>))
        (upd_bio a2 (\<lambda>x. x\<lparr>b_init := True\<rparr>))))))))))"

text \<open>The commands of \<open>BIO_ctrl\<close>; \<open>ptr\<close> is the argument of \<open>BIO_CTRL_EOF\<close> for a pair and of \<open>BIO_C_SET_BUF_MEM\<close>.\<close>

datatype bio_cmd = BIO_CTRL_RESET | BIO_CTRL_EOF | BIO_CTRL_INFO | BIO_CTRL_GET_CLOSE | BIO_CTRL_SET_CLOSE
  | BIO_CTRL_PENDING | BIO_CTRL_FLUSH | BIO_CTRL_WPENDING | BIO_C_SET_BUF_MEM | BIO_C_GET_BUF_MEM_PTR
  | BIO_C_SET_BUF_MEM_EOF_RETURN | BIO_C_GET_WRITE_BUF_SIZE | BIO_C_GET_WRITE_GUARANTEE | BIO_C_GET_READ_REQUEST
  | BIO_C_SHUTDOWN_WR | BIO_C_RESET_READ_REQUEST | Other_Command int

definition bio_ctrl :: "nat \<Rightarrow> bio_cmd \<Rightarrow> int \<Rightarrow> nat option \<Rightarrow> (bio_world, int) prog" where
  "bio_ctrl a cmd num ptr = bnd (get_bio a) (\<lambda>bio. bnd (get_pair a) (\<lambda>b. case cmd of
       BIO_C_GET_WRITE_BUF_SIZE \<Rightarrow> ret (int (bb_size b))
     | BIO_C_GET_WRITE_GUARANTEE \<Rightarrow> ret (if bb_peer b = None \<or> bb_closed b then 0 else int (bb_size b) - int (bb_len b))
     | BIO_C_GET_READ_REQUEST \<Rightarrow> ret (int (bb_request b))
     | BIO_C_RESET_READ_REQUEST \<Rightarrow> seq (put_pair a (b\<lparr>bb_request := 0\<rparr>)) (ret 1)
     | BIO_C_SHUTDOWN_WR \<Rightarrow> seq (put_pair a (b\<lparr>bb_closed := True\<rparr>)) (ret 1)
     | BIO_CTRL_GET_CLOSE \<Rightarrow> ret (b_shutdown bio)
     | BIO_CTRL_SET_CLOSE \<Rightarrow> seq (upd_bio a (\<lambda>x. x\<lparr>b_shutdown := long_to_int num\<rparr>)) (ret 1)
     | BIO_CTRL_PENDING \<Rightarrow> (case bb_peer b of None \<Rightarrow> ret 0 | Some p \<Rightarrow> bnd (get_pair p) (\<lambda>peer_b. ret (int (bb_len peer_b))))
     | BIO_CTRL_WPENDING \<Rightarrow> ret (if bb_buf b \<noteq> None then int (bb_len b) else 0)
     | BIO_CTRL_FLUSH \<Rightarrow> ret 1
     | BIO_CTRL_EOF \<Rightarrow> (case ptr of None \<Rightarrow> ret 1
         | Some q \<Rightarrow> bnd (get_pair q) (\<lambda>other_b. ret (if bb_len other_b = 0 \<and> bb_closed other_b then 1 else 0)))
     | _ \<Rightarrow> ret 0))"

section \<open>Memory buffers\<close>

definition INT_MAX :: int where
  "INT_MAX = 2147483647"

definition mem_new :: "nat \<Rightarrow> (bio_world, unit) prog" where
  "mem_new a = bnd new_addr (\<lambda>m.
     seq (put_buf m (Some ([], \<lparr>bm_data = [], bm_max = 0\<rparr>)))
     (upd_bio a (\<lambda>b. b\<lparr>b_shutdown := 1, b_init := True, b_num := -1, b_ptr := BufPtr m\<rparr>)))"

definition mem_free :: "nat option \<Rightarrow> (bio_world, unit) prog" where
  "mem_free bio = (case bio of None \<Rightarrow> fail | Some a \<Rightarrow>
     bnd (get_bio a) (\<lambda>b. case b_ptr b of
         NullPtr \<Rightarrow> ret ()
       | PairPtr _ \<Rightarrow> stuck
       | BufPtr m \<Rightarrow>
           if b_shutdown b = 0 \<or> \<not> b_init b then ret ()
           else seq (put_buf m None) (upd_bio a (\<lambda>x. x\<lparr>b_ptr := NullPtr\<rparr>))))"

definition buf_of :: "bio \<Rightarrow> (bio_world, nat) prog" where
  "buf_of b = (case b_ptr b of BufPtr m \<Rightarrow> ret m | _ \<Rightarrow> stuck)"

definition rdonly :: "bio \<Rightarrow> bool" where
  "rdonly b \<longleftrightarrow> b_flags b AND BIO_FLAGS_MEM_RDONLY \<noteq> 0"

definition mem_read :: "nat \<Rightarrow> bool \<Rightarrow> int \<Rightarrow> (bio_world, int \<times> byte list) prog" where
  "mem_read a null outl = bnd (get_bio a) (\<lambda>bio. bnd (buf_of bio) (\<lambda>m.
     seq (BIO_clear_retry_flags a)
     (bnd (get_buf m) (\<lambda>(before, b).
      let length = length (bm_data b);
          r = (if int length < INT_MAX \<and> int length < outl then int length else outl) in
      if 0 < r then
        if null \<or> length < nat r then stuck
        else
          let data = take (nat r) (bm_data b); b = b\<lparr>bm_data := drop (nat r) (bm_data b)\<rparr> in
          seq (put_buf m (Some (if rdonly bio then before @ data else before, b)))
          (ret (r, data))
      else if length = 0 then
        (if b_num bio \<noteq> 0 then seq (BIO_set_retry_read a) (ret (b_num bio, [])) else ret (0, []))
      else ret (r, [])))))"

text \<open>The answer of the allocator is taken whether or not the buffer has to grow.\<close>

definition grow_clean :: "nat \<Rightarrow> u64 \<Rightarrow> (bio_world, u64 option) prog" where
  "grow_clean m len = bnd (attempt (alloc 0)) (\<lambda>answer. bnd (get_buf m) (\<lambda>(before, b).
     case BUF_MEM_grow_clean (\<lambda>_. answer \<noteq> None) len b of
       (Ret n, b) \<Rightarrow> seq (put_buf m (Some (before, b))) (ret (Some n))
     | (Fail, b) \<Rightarrow> seq (put_buf m (Some (before, b))) (ret None)
     | (Stuck, b) \<Rightarrow> stuck))"

definition mem_write :: "nat \<Rightarrow> byte list \<Rightarrow> int \<Rightarrow> (bio_world, int) prog" where
  "mem_write a inp inl = bnd (get_bio a) (\<lambda>bio. bnd (buf_of bio) (\<lambda>m.
     if rdonly bio then ret (-1)
     else
       seq (BIO_clear_retry_flags a)
       (bnd (get_buf m) (\<lambda>(before, b).
        let blen = to_int (length (bm_data b)) in
        if INT_MAX - blen < inl then ret (-1)
        else
          bnd (grow_clean m (of_int (blen + inl))) (\<lambda>n.
            if n \<noteq> Some (of_int blen + of_int inl) then ret (-1)
            else bnd (get_buf m) (\<lambda>(before, b).
              if blen < 0 \<or> length inp < nat inl \<or> length (bm_data b) < nat (blen + inl) then stuck
              else
                seq (put_buf m (Some (before, b\<lparr>bm_data :=
                   take (nat blen) (bm_data b) @ take (nat inl) inp @ drop (nat (blen + inl)) (bm_data b)\<rparr>)))
                (ret inl)))))))"

text \<open>The bytes up to and including the first newline, of the first \<open>j\<close>.\<close>

fun line_length :: "byte list \<Rightarrow> nat \<Rightarrow> nat" where
  "line_length p 0 = 0"
| "line_length [] j = 0"
| "line_length (c # p) (Suc j) = (if c = 0x0A then 1 else Suc (line_length p j))"

text \<open>The bytes that are written, with the final zero byte.\<close>

definition mem_gets :: "nat \<Rightarrow> int \<Rightarrow> (bio_world, int \<times> byte list) prog" where
  "mem_gets a sz = bnd (get_bio a) (\<lambda>bio. bnd (buf_of bio) (\<lambda>m.
     seq (BIO_clear_retry_flags a)
     (bnd (get_buf m) (\<lambda>(before, b).
      let j = to_int (length (bm_data b)); j = (if sz - 1 < j then sz - 1 else j) in
      if j \<le> 0 then ret (0, if 0 < sz then [0] else [])
      else
        bnd (mem_read a False (int (line_length (bm_data b) (nat j)))) (\<lambda>(i, data).
          ret (i, if 0 < i then data @ [0] else data))))))"

definition mem_ctrl :: "nat \<Rightarrow> bio_cmd \<Rightarrow> int \<Rightarrow> nat option \<Rightarrow> (bio_world, int) prog" where
  "mem_ctrl a cmd num ptr = bnd (get_bio a) (\<lambda>bio.
     if cmd = BIO_C_SET_BUF_MEM then
       seq (mem_free (Some a))
       (seq (upd_bio a (\<lambda>x. x\<lparr>b_shutdown := long_to_int num, b_ptr := (case ptr of None \<Rightarrow> NullPtr | Some m \<Rightarrow> BufPtr m)\<rparr>))
       (ret 1))
     else if cmd = BIO_C_SET_BUF_MEM_EOF_RETURN then seq (upd_bio a (\<lambda>x. x\<lparr>b_num := long_to_int num\<rparr>)) (ret 1)
     else if cmd = BIO_C_GET_BUF_MEM_PTR then ret 1
     else if cmd = BIO_CTRL_GET_CLOSE then ret (b_shutdown bio)
     else if cmd = BIO_CTRL_SET_CLOSE then seq (upd_bio a (\<lambda>x. x\<lparr>b_shutdown := long_to_int num\<rparr>)) (ret 1)
     else if cmd = BIO_CTRL_WPENDING then ret 0
     else if cmd = BIO_CTRL_FLUSH then ret 1
     else if cmd = BIO_CTRL_RESET then
       bnd (buf_of bio) (\<lambda>m. bnd (get_buf m) (\<lambda>(before, b).
       seq (put_buf m (Some (if rdonly bio then ([], b\<lparr>bm_data := before @ bm_data b\<rparr>) else (before, b\<lparr>bm_data := []\<rparr>))))
       (ret 1)))
     else if cmd = BIO_CTRL_EOF then
       bnd (buf_of bio) (\<lambda>m. bnd (get_buf m) (\<lambda>(before, b). ret (if bm_data b = [] then 1 else 0)))
     else if cmd = BIO_CTRL_INFO \<or> cmd = BIO_CTRL_PENDING then
       bnd (buf_of bio) (\<lambda>m. bnd (get_buf m) (\<lambda>(before, b). ret (int (length (bm_data b)))))
     else ret 0)"


section \<open>The generic functions\<close>

text \<open>The functions of a method; a null function pointer is \<open>None\<close>.\<close>

definition create :: "bio_method \<Rightarrow> nat \<Rightarrow> (bio_world, unit) prog" where
  "create m = (case m of methods_biop \<Rightarrow> bio_new | mem_method \<Rightarrow> mem_new)"

definition destroy :: "bio_method \<Rightarrow> nat option \<Rightarrow> (bio_world, unit) prog" where
  "destroy m = (case m of methods_biop \<Rightarrow> bio_free | mem_method \<Rightarrow> mem_free)"

definition bread :: "bio_method \<Rightarrow> nat \<Rightarrow> bool \<Rightarrow> int \<Rightarrow> (bio_world, int \<times> byte list) prog" where
  "bread m = (case m of methods_biop \<Rightarrow> bio_read | mem_method \<Rightarrow> mem_read)"

definition bgets :: "bio_method \<Rightarrow> (nat \<Rightarrow> int \<Rightarrow> (bio_world, int \<times> byte list) prog) option" where
  "bgets m = (case m of methods_biop \<Rightarrow> None | mem_method \<Rightarrow> Some mem_gets)"

definition bwrite :: "bio_method \<Rightarrow> nat \<Rightarrow> byte list \<Rightarrow> int \<Rightarrow> (bio_world, int) prog" where
  "bwrite m a inp = (case m of methods_biop \<Rightarrow> bio_write a (Some inp) | mem_method \<Rightarrow> mem_write a inp)"

definition ctrl :: "bio_method \<Rightarrow> nat \<Rightarrow> bio_cmd \<Rightarrow> int \<Rightarrow> nat option \<Rightarrow> (bio_world, int) prog" where
  "ctrl m = (case m of methods_biop \<Rightarrow> bio_ctrl | mem_method \<Rightarrow> mem_ctrl)"

definition BIO_new :: "bio_method \<Rightarrow> (bio_world, nat) prog" where
  "BIO_new m = bnd new_addr (\<lambda>a.
     seq (put_bio a (Some \<lparr>b_method = Some m, b_init = False, b_shutdown = 1, b_flags = 0, b_retry_reason = 0, b_num = 0,
       b_references = 1, b_ptr = NullPtr, b_next = None, b_num_read = 0, b_num_write = 0\<rparr>))
     (bnd (attempt (create m a)) (\<lambda>created.
      if created = None then seq (put_bio a None) fail else ret a)))"

definition BIO_pop :: "nat option \<Rightarrow> (bio_world, nat option) prog" where
  "BIO_pop bio = (case bio of None \<Rightarrow> ret None | Some a \<Rightarrow>
     bnd (get_bio a) (\<lambda>b. seq (upd_bio a (\<lambda>x. x\<lparr>b_next := None\<rparr>)) (ret (b_next b))))"

text \<open>
  One round of \<open>BIO_free\<close> for each \<open>BIO\<close> of the chain, until one is still referenced elsewhere. The result is
  what the function returns; the fuel is the number of addresses given out, and each round but the last frees one.
\<close>

fun free_chain :: "nat \<Rightarrow> nat option \<Rightarrow> (bio_world, bool) prog" where
  "free_chain fuel None = ret True"
| "free_chain 0 (Some a) = stuck"
| "free_chain (Suc fuel) (Some a) = bnd (get_bio a) (\<lambda>b.
     case CRYPTO_refcount_dec_and_test_zero (b_references b) of None \<Rightarrow> stuck
     | Some (n, zero) \<Rightarrow>
         seq (upd_bio a (\<lambda>x. x\<lparr>b_references := n\<rparr>))
         (if \<not> zero then ret False
          else
            bnd (BIO_pop (Some a)) (\<lambda>next_bio.
            seq (case b_method b of None \<Rightarrow> ret () | Some m \<Rightarrow> bnd (attempt (destroy m (Some a))) (\<lambda>_. ret ()))
            (seq (put_bio a None)
            (free_chain fuel next_bio)))))"

definition BIO_free :: "nat option \<Rightarrow> (bio_world, bool) prog" where
  "BIO_free bio = (\<lambda>w. free_chain (next_addr w) bio w)"

definition BIO_read :: "nat option \<Rightarrow> bool \<Rightarrow> int \<Rightarrow> (bio_world, int \<times> byte list) prog" where
  "BIO_read bio null len = (case bio of None \<Rightarrow> ret (-2, []) | Some a \<Rightarrow>
     bnd (get_bio a) (\<lambda>b. case b_method b of None \<Rightarrow> ret (-2, []) | Some m \<Rightarrow>
       if \<not> b_init b then ret (-2, [])
       else if len \<le> 0 then ret (0, [])
       else bnd (bread m a null len) (\<lambda>(r, data).
         seq (if 0 < r then upd_bio a (\<lambda>x. x\<lparr>b_num_read := b_num_read x + of_int r\<rparr>) else ret ())
         (ret (r, data)))))"

definition BIO_gets :: "nat option \<Rightarrow> int \<Rightarrow> (bio_world, int \<times> byte list) prog" where
  "BIO_gets bio len = (case bio of None \<Rightarrow> ret (-2, []) | Some a \<Rightarrow>
     bnd (get_bio a) (\<lambda>b. case Option.bind (b_method b) bgets of None \<Rightarrow> ret (-2, []) | Some gets \<Rightarrow>
       if \<not> b_init b then ret (-2, [])
       else if len \<le> 0 then ret (0, [])
       else bnd (gets a len) (\<lambda>(r, data).
         seq (if 0 < r then upd_bio a (\<lambda>x. x\<lparr>b_num_read := b_num_read x + of_int r\<rparr>) else ret ())
         (ret (r, data)))))"

definition BIO_write :: "nat option \<Rightarrow> byte list \<Rightarrow> int \<Rightarrow> (bio_world, int) prog" where
  "BIO_write bio inp inl = (case bio of None \<Rightarrow> ret (-2) | Some a \<Rightarrow>
     bnd (get_bio a) (\<lambda>b. case b_method b of None \<Rightarrow> ret (-2) | Some m \<Rightarrow>
       if \<not> b_init b then ret (-2)
       else if inl \<le> 0 then ret 0
       else bnd (bwrite m a inp inl) (\<lambda>r.
         seq (if 0 < r then upd_bio a (\<lambda>x. x\<lparr>b_num_write := b_num_write x + of_int r\<rparr>) else ret ())
         (ret r))))"

text \<open>\<open>inp\<close> is a string with its final zero byte.\<close>

definition BIO_puts :: "nat option \<Rightarrow> byte list \<Rightarrow> (bio_world, int) prog" where
  "BIO_puts bio inp = BIO_write bio inp (to_int (strlen inp))"

definition BIO_ctrl :: "nat option \<Rightarrow> bio_cmd \<Rightarrow> int \<Rightarrow> nat option \<Rightarrow> (bio_world, int) prog" where
  "BIO_ctrl bio cmd larg parg = (case bio of None \<Rightarrow> ret 0 | Some a \<Rightarrow>
     bnd (get_bio a) (\<lambda>b. case b_method b of None \<Rightarrow> ret (-2) | Some m \<Rightarrow> ctrl m a cmd larg parg))"

definition BIO_flush :: "nat option \<Rightarrow> (bio_world, int) prog" where
  "BIO_flush bio = BIO_ctrl bio BIO_CTRL_FLUSH 0 None"

definition BIO_reset :: "nat option \<Rightarrow> (bio_world, int) prog" where
  "BIO_reset bio = BIO_ctrl bio BIO_CTRL_RESET 0 None"

definition BIO_eof :: "nat option \<Rightarrow> (bio_world, int) prog" where
  "BIO_eof bio = BIO_ctrl bio BIO_CTRL_EOF 0 None"

definition BIO_set_close :: "nat option \<Rightarrow> int \<Rightarrow> (bio_world, int) prog" where
  "BIO_set_close bio close_flag = BIO_ctrl bio BIO_CTRL_SET_CLOSE close_flag None"

definition BIO_pending :: "nat option \<Rightarrow> (bio_world, nat) prog" where
  "BIO_pending bio = bnd (BIO_ctrl bio BIO_CTRL_PENDING 0 None) (\<lambda>r. seq (assertion (0 \<le> r)) (ret (nat r)))"

definition BIO_wpending :: "nat option \<Rightarrow> (bio_world, nat) prog" where
  "BIO_wpending bio = bnd (BIO_ctrl bio BIO_CTRL_WPENDING 0 None) (\<lambda>r. seq (assertion (0 \<le> r)) (ret (nat r)))"

definition BIO_ctrl_get_read_request :: "nat option \<Rightarrow> (bio_world, int) prog" where
  "BIO_ctrl_get_read_request bio = BIO_ctrl bio BIO_C_GET_READ_REQUEST 0 None"

definition BIO_ctrl_get_write_guarantee :: "nat option \<Rightarrow> (bio_world, int) prog" where
  "BIO_ctrl_get_write_guarantee bio = BIO_ctrl bio BIO_C_GET_WRITE_GUARANTEE 0 None"

definition BIO_shutdown_wr :: "nat option \<Rightarrow> (bio_world, int) prog" where
  "BIO_shutdown_wr bio = BIO_ctrl bio BIO_C_SHUTDOWN_WR 0 None"

definition BIO_set_mem_eof_return :: "nat option \<Rightarrow> int \<Rightarrow> (bio_world, int) prog" where
  "BIO_set_mem_eof_return bio eof_value = BIO_ctrl bio BIO_C_SET_BUF_MEM_EOF_RETURN eof_value None"

definition BIO_set_mem_buf :: "nat option \<Rightarrow> nat option \<Rightarrow> int \<Rightarrow> (bio_world, int) prog" where
  "BIO_set_mem_buf bio b take_ownership = BIO_ctrl bio BIO_C_SET_BUF_MEM take_ownership b"

text \<open>\<open>None\<close> is a null pointer. The bytes at \<open>buf\<close> end in a zero byte when \<open>len\<close> is negative.\<close>

definition BIO_new_mem_buf :: "byte list option \<Rightarrow> int \<Rightarrow> (bio_world, nat) prog" where
  "BIO_new_mem_buf buf len =
     (if len < 0 \<and> buf = None then stuck
      else
        let size = (if len < 0 then strlen (the buf) else nat len) in
        if buf = None \<and> len \<noteq> 0 then fail
        else
          bnd (BIO_new mem_method) (\<lambda>a.
          bnd (get_bio a) (\<lambda>r.
          bnd (buf_of r) (\<lambda>m.
          seq (put_buf m (Some ([], \<lparr>bm_data = (case buf of None \<Rightarrow> [] | Some bs \<Rightarrow> take size bs), bm_max = of_nat size\<rparr>)))
          (seq (upd_bio a (\<lambda>x. x\<lparr>b_flags := b_flags x OR BIO_FLAGS_MEM_RDONLY\<rparr>))
          (seq (upd_bio a (\<lambda>x. x\<lparr>b_num := 0\<rparr>))
          (ret a)))))))"

definition BIO_mem_contents :: "nat \<Rightarrow> (bio_world, byte list) prog" where
  "BIO_mem_contents a = bnd (get_bio a) (\<lambda>b.
     if b_method b \<noteq> Some mem_method then fail
     else bnd (buf_of b) (\<lambda>m. bnd (get_buf m) (\<lambda>(before, b). ret (bm_data b))))"

definition BIO_new_bio_pair :: "nat \<Rightarrow> nat \<Rightarrow> (bio_world, nat \<times> nat) prog" where
  "BIO_new_bio_pair writebuf1_len writebuf2_len =
     bnd (attempt (BIO_new methods_biop)) (\<lambda>bio1.
     bnd (attempt (BIO_new methods_biop)) (\<lambda>bio2.
     bnd (case (bio1, bio2) of (Some a1, Some a2) \<Rightarrow> attempt (bio_make_pair a1 a2 writebuf1_len writebuf2_len) | _ \<Rightarrow> ret None) (\<lambda>made.
     if made = None then seq (BIO_free bio1) (seq (BIO_free bio2) fail)
     else ret (the bio1, the bio2))))"

section \<open>Chains\<close>

partial_function (option) last_of :: "(nat \<Rightarrow> bio option) \<Rightarrow> nat \<Rightarrow> nat option" where
  "last_of bs a = (case bs a of None \<Rightarrow> None | Some b \<Rightarrow>
     (case b_next b of None \<Rightarrow> Some a | Some a' \<Rightarrow> last_of bs a'))"

definition BIO_push :: "nat option \<Rightarrow> nat option \<Rightarrow> (bio_world, nat option) prog" where
  "BIO_push bio appended_bio = (case bio of None \<Rightarrow> ret None | Some a \<Rightarrow> (\<lambda>w.
     case last_of (bios w) a of None \<Rightarrow> (Stuck, w)
     | Some l \<Rightarrow> seq (upd_bio l (\<lambda>x. x\<lparr>b_next := appended_bio\<rparr>)) (ret (Some a)) w))"

definition BIO_next :: "nat option \<Rightarrow> (bio_world, nat option) prog" where
  "BIO_next bio = (case bio of None \<Rightarrow> ret None | Some a \<Rightarrow> bnd (get_bio a) (\<lambda>b. ret (b_next b)))"

definition BIO_TYPE_MEM :: u32 where
  "BIO_TYPE_MEM = 0x0401"

definition BIO_TYPE_BIO :: u32 where
  "BIO_TYPE_BIO = 0x0413"

definition method_type :: "bio_method \<Rightarrow> u32" where
  "method_type m = (case m of methods_biop \<Rightarrow> BIO_TYPE_BIO | mem_method \<Rightarrow> BIO_TYPE_MEM)"

text \<open>The loop ends at a null pointer or at a \<open>BIO\<close> of the type; \<open>None\<close> is an access to a freed one or a chain without an end.\<close>

partial_function (option) find_type_loop :: "(nat \<Rightarrow> bio option) \<Rightarrow> nat \<Rightarrow> u32 \<Rightarrow> nat option option" where
  "find_type_loop bs a type = (case bs a of None \<Rightarrow> None | Some b \<Rightarrow>
     if (case b_method b of None \<Rightarrow> False
         | Some m \<Rightarrow> (if type AND 0xff = 0 then method_type m AND type \<noteq> 0 else method_type m = type))
     then Some (Some a)
     else (case b_next b of None \<Rightarrow> Some None | Some a' \<Rightarrow> find_type_loop bs a' type))"

definition BIO_find_type :: "nat option \<Rightarrow> u32 \<Rightarrow> (bio_world, nat option) prog" where
  "BIO_find_type bio type = (case bio of None \<Rightarrow> ret None | Some a \<Rightarrow> (\<lambda>w.
     case find_type_loop (bios w) a type of None \<Rightarrow> (Stuck, w) | Some r \<Rightarrow> (Ret r, w)))"

definition BIO_copy_next_retry :: "nat \<Rightarrow> (bio_world, unit) prog" where
  "BIO_copy_next_retry a = seq (BIO_clear_retry_flags a) (bnd (get_bio a) (\<lambda>b.
     case b_next b of None \<Rightarrow> stuck | Some n \<Rightarrow> bnd (get_bio n) (\<lambda>nb.
       seq (BIO_set_flags a (BIO_get_retry_flags nb))
       (upd_bio a (\<lambda>x. x\<lparr>b_retry_reason := b_retry_reason nb\<rparr>)))))"

text \<open>The loop of \<open>BIO_indent\<close>.\<close>

fun indent_loop :: "nat option \<Rightarrow> nat \<Rightarrow> (bio_world, unit) prog" where
  "indent_loop bio 0 = ret ()"
| "indent_loop bio (Suc n) = bnd (BIO_puts bio [0x20, 0]) (\<lambda>r. if r \<noteq> 1 then fail else indent_loop bio n)"

definition BIO_indent :: "nat option \<Rightarrow> nat \<Rightarrow> nat \<Rightarrow> (bio_world, unit) prog" where
  "BIO_indent bio indent max_indent = indent_loop bio (if max_indent < indent then max_indent else indent)"

section \<open>Reading an element of ASN.1\<close>

definition kChunkSize :: nat where
  "kChunkSize = 4096"

text \<open>
  The loop, with the bytes that are read. Its fuel is the number of rounds; a round that reads something fills \<open>out\<close>,
  which is no longer than \<open>max_len\<close>. A negative result other than \<open>-1\<close>, which a method of another type could give, takes
  bytes back (\<open>done += n\<close>); when there are not as many it makes the \<open>size_t\<close> wrap, and is \<open>Stuck\<close>.
\<close>

fun read_all_loop :: "nat \<Rightarrow> nat option \<Rightarrow> byte list \<Rightarrow> nat \<Rightarrow> nat \<Rightarrow> (bio_world, byte list) prog" where
  "read_all_loop 0 bio out len max_len = stuck"
| "read_all_loop (Suc fuel) bio out len max_len =
     (if length out = len then fail
      else
        let todo = len - length out in
        seq (assertion (int todo < INT_MAX))
        (bnd (BIO_read bio False (int todo)) (\<lambda>(n, data).
         if n = 0 then ret out
         else if n = -1 then fail
         else if n < 0 \<and> length out < nat (- n) then stuck
         else
           let out = (if n < 0 then take (length out - nat (- n)) out else out @ data) in
           if len < max_len \<and> len - length out < kChunkSize div 2 then
             let len = len + kChunkSize; len = (if max_len < len then max_len else len) in
             seq (alloc 0) (read_all_loop fuel bio out len max_len)
           else read_all_loop fuel bio out len max_len)))"

definition bio_read_all :: "nat option \<Rightarrow> byte list \<Rightarrow> nat \<Rightarrow> (bio_world, byte list) prog" where
  "bio_read_all bio prefix max_len =
     (let len = length prefix + kChunkSize; len = (if max_len < len then max_len else len) in
      if len < length prefix then fail
      else seq (alloc 0) (read_all_loop (Suc max_len) bio prefix len max_len))"

text \<open>A read of exactly \<open>n\<close> bytes.\<close>

definition read_exactly :: "nat option \<Rightarrow> nat \<Rightarrow> (bio_world, byte list) prog" where
  "read_exactly bio n = bnd (BIO_read bio False (to_int n)) (\<lambda>(r, data). if r \<noteq> to_int n then fail else ret data)"

definition BIO_read_asn1 :: "nat option \<Rightarrow> nat \<Rightarrow> (bio_world, byte list) prog" where
  "BIO_read_asn1 bio max_len =
     bnd (read_exactly bio 2) (\<lambda>header.
     let tag = header ! 0; length_byte = header ! 1 in
     if tag AND 0x1f = 0x1f then fail
     else
       let rest = (\<lambda>header len.
         (if max_len < len + length header \<or> INT_MAX < int len then fail
          else seq (alloc 0) (bnd (read_exactly bio len) (\<lambda>data. ret (header @ data))))) in
       if length_byte AND 0x80 = 0 then rest header (unat length_byte)
       else
         let num_bytes = unat (length_byte AND 0x7f) in
         if tag AND 0x20 \<noteq> 0 \<and> num_bytes = 0 then bio_read_all bio header max_len
         else if num_bytes = 0 \<or> 4 < num_bytes then fail
         else
           bnd (read_exactly bio num_bytes) (\<lambda>bs.
           let len32 = foldl (\<lambda>n b. push_bit 8 n OR ucast b) (0 :: u32) bs in
           if len32 < 128 then fail
           else if drop_bit ((num_bytes - 1) * 8) len32 = 0 then fail
           else rest (header @ bs) (unat len32)))"

end
