(* ===== verification/Bio_Ring.thy ===== *)
theory Bio_Ring
  imports Bio
begin

text \<open>
  The ring buffers of the pairs of \<open>Bio\<close>: a ring is a queue of bytes, and the two loops, of at most two rounds each,
  take from its front and add to its end.
\<close>

unbundle bit_operations_syntax

section \<open>Rings\<close>

definition ring_ok :: "bio_bio \<Rightarrow> bool" where
  "ring_ok b \<longleftrightarrow> bb_offset b < bb_size b \<and> bb_len b \<le> bb_size b \<and> (bb_len b = 0 \<longrightarrow> bb_offset b = 0) \<and>
     (case bb_buf b of None \<Rightarrow> bb_len b = 0 | Some d \<Rightarrow> length d = bb_size b)"

text \<open>The bytes that wait to be read, the oldest one first.\<close>

definition pending :: "bio_bio \<Rightarrow> byte list" where
  "pending b = (case bb_buf b of None \<Rightarrow> []
     | Some d \<Rightarrow> take (bb_len b) (drop (bb_offset b) d @ take (bb_offset b) d))"

lemma length_pending: "ring_ok b \<Longrightarrow> length (pending b) = bb_len b"
  by (auto simp: ring_ok_def pending_def split: option.splits)

lemma read_loop_chunk:
  assumes "bb_buf b = Some d" and "ring_ok b" and "0 < rest" and "rest \<le> bb_len b" and "bb_offset b + rest \<le> bb_size b"
  shows "\<exists>x. read_loop b rest = Some (take rest (pending b), b\<lparr>bb_len := bb_len b - rest, bb_offset := x\<rparr>) \<and>
    ring_ok (b\<lparr>bb_len := bb_len b - rest, bb_offset := x\<rparr>) \<and>
    pending (b\<lparr>bb_len := bb_len b - rest, bb_offset := x\<rparr>) = drop rest (pending b)"
proof -
  let ?o = "bb_offset b" and ?n = "bb_len b"
  have len: "length d = bb_size b" "?o < bb_size b" "?n \<le> bb_size b"
    using assms(1,2) by (simp_all add: ring_ok_def)
  define x where "x = (if ?n - rest = 0 then 0 else if ?o + rest = bb_size b then 0 else ?o + rest)"
  have data: "take rest (drop ?o d) = take rest (pending b)"
    using assms len by (simp add: pending_def min_absorb2)
  have run: "read_loop b rest = Some (take rest (drop ?o d), b\<lparr>bb_len := ?n - rest, bb_offset := x\<rparr>)"
    using assms len by (subst read_loop.simps) (simp add: x_def Let_def)
  have "drop rest (pending b) = take (?n - rest) (drop (?o + rest) d @ take ?o d)"
    using assms len by (simp add: pending_def drop_take add.commute [of rest])
  also have "\<dots> = take (?n - rest) (drop (?o + rest) d @ take (?o + rest) d)"
    using assms len by (simp add: take_add)
  also have "\<dots> = take (?n - rest) (drop x d @ take x d)"
    by (cases "?n - rest = 0"; cases "?o + rest = length d") (simp_all add: x_def flip: len(1))
  finally have "pending (b\<lparr>bb_len := ?n - rest, bb_offset := x\<rparr>) = drop rest (pending b)"
    using assms(1) by (simp add: pending_def)
  moreover have "ring_ok (b\<lparr>bb_len := ?n - rest, bb_offset := x\<rparr>)"
    using assms len by (auto simp: ring_ok_def x_def)
  ultimately show ?thesis
    using run data by auto
qed

text \<open>The second round, if there is one, starts at the beginning of the buffer.\<close>

lemma read_loop_spec:
  assumes "bb_buf b = Some d" and "ring_ok b" and "0 < rest" and "rest \<le> bb_len b"
  shows "\<exists>x. read_loop b rest = Some (take rest (pending b), b\<lparr>bb_len := bb_len b - rest, bb_offset := x\<rparr>) \<and>
    ring_ok (b\<lparr>bb_len := bb_len b - rest, bb_offset := x\<rparr>) \<and>
    pending (b\<lparr>bb_len := bb_len b - rest, bb_offset := x\<rparr>) = drop rest (pending b)"
proof (cases "bb_offset b + rest \<le> bb_size b")
  case True
  with assms show ?thesis
    by (rule read_loop_chunk)
next
  case False
  let ?o = "bb_offset b" and ?n = "bb_len b"
  define chunk where "chunk = bb_size b - ?o"
  have len: "length d = bb_size b" "?o < bb_size b" "?n \<le> bb_size b"
    using assms(1,2) by (simp_all add: ring_ok_def)
  have chunk: "0 < chunk" "chunk < rest" "?o + chunk = bb_size b"
    using False len by (simp_all add: chunk_def)
  let ?b = "b\<lparr>bb_len := ?n - chunk, bb_offset := 0\<rparr>"
  have ok: "bb_buf ?b = Some d" "ring_ok ?b" "0 < rest - chunk" "rest - chunk \<le> bb_len ?b" "bb_offset ?b + (rest - chunk) \<le> bb_size ?b"
    using assms len chunk by (auto simp: ring_ok_def)
  obtain x where x: "read_loop ?b (rest - chunk) = Some (take (rest - chunk) (pending ?b), ?b\<lparr>bb_len := bb_len ?b - (rest - chunk), bb_offset := x\<rparr>)"
    "ring_ok (?b\<lparr>bb_len := bb_len ?b - (rest - chunk), bb_offset := x\<rparr>)"
    "pending (?b\<lparr>bb_len := bb_len ?b - (rest - chunk), bb_offset := x\<rparr>) = drop (rest - chunk) (pending ?b)"
    using read_loop_chunk [OF ok] by blast
  have same: "?b\<lparr>bb_len := bb_len ?b - (rest - chunk), bb_offset := x\<rparr> = b\<lparr>bb_len := ?n - rest, bb_offset := x\<rparr>"
    using chunk assms(4) by simp
  have "?n + ?o - bb_size b = ?n - chunk" and fits: "?n - chunk \<le> ?o"
    using chunk len by simp_all
  then have "pending b = drop ?o d @ take (?n - chunk) (take ?o d)"
    using assms(1,4) chunk len by (simp add: pending_def)
  moreover have "pending ?b = take (?n - chunk) (take ?o d)"
    using assms(1) fits by (simp add: pending_def min_absorb1)
  ultimately have split: "pending b = drop ?o d @ pending ?b"
    by simp
  have first: "length (drop ?o d) = chunk"
    using chunk len by simp
  have "read_loop b rest = Option.bind (read_loop ?b (rest - chunk)) (\<lambda>(data', b). Some (drop ?o d @ data', b))"
    using assms False len chunk by (subst read_loop.simps) (simp add: Let_def flip: chunk_def)
  also have "\<dots> = Some (drop ?o d @ take (rest - chunk) (pending ?b), b\<lparr>bb_len := ?n - rest, bb_offset := x\<rparr>)"
    unfolding x(1) same by simp
  also have "drop ?o d @ take (rest - chunk) (pending ?b) = take rest (pending b)"
    using chunk(2,3) len(1) by (simp add: split first del: length_drop)
  finally have run: "read_loop b rest = Some (take rest (pending b), b\<lparr>bb_len := ?n - rest, bb_offset := x\<rparr>)" .
  have "drop (rest - chunk) (pending ?b) = drop rest (pending b)"
    using chunk(2,3) len(1) by (simp add: split first del: length_drop)
  with run x(2,3) show ?thesis
    unfolding same by metis
qed

lemma write_loop_chunk:
  assumes "bb_buf b = Some d" and "ring_ok b" and "0 < rest" and "bb_len b + rest \<le> bb_size b" and "rest \<le> length buf"
    and "wo = bb_offset b + bb_len b \<or> bb_size b + wo = bb_offset b + bb_len b" and "wo + rest \<le> bb_size b"
    and "wo < bb_size b"
  shows "\<exists>d'. write_loop b buf rest = Some (b\<lparr>bb_buf := Some d', bb_len := bb_len b + rest\<rparr>) \<and>
    ring_ok (b\<lparr>bb_buf := Some d', bb_len := bb_len b + rest\<rparr>) \<and>
    pending (b\<lparr>bb_buf := Some d', bb_len := bb_len b + rest\<rparr>) = pending b @ take rest buf"
proof -
  let ?o = "bb_offset b" and ?n = "bb_len b"
  have len: "length d = bb_size b" "?o < bb_size b" "?n \<le> bb_size b"
    using assms(1,2) by (simp_all add: ring_ok_def)
  define d' where "d' = take wo d @ take rest buf @ drop (wo + rest) d"
  have wo: "(if bb_size b \<le> ?o + ?n then ?o + ?n - bb_size b else ?o + ?n) = wo"
    using assms(6,8) by auto
  have run: "write_loop b buf rest = Some (b\<lparr>bb_buf := Some d', bb_len := ?n + rest\<rparr>)"
    using assms(1-5,7) len by (subst write_loop.simps) (simp add: Let_def wo d'_def del: if_split)
  have d': "length d' = bb_size b"
    using assms(5,7) len by (simp add: d'_def)
  have "take (?n + rest) (drop ?o d' @ take ?o d') = take ?n (drop ?o d @ take ?o d) @ take rest buf"
    using assms(6)
  proof
    assume wo: "wo = ?o + ?n"
    then have "drop ?o d' = take ?n (drop ?o d) @ take rest buf @ drop (wo + rest) d"
      using assms len by (simp add: d'_def drop_take)
    then show ?thesis
      using wo assms(5,8) len by simp
  next
    assume wo: "bb_size b + wo = ?o + ?n"
    then have le: "wo + rest \<le> ?o"
      using assms(4) by simp
    then have "drop ?o d' = drop ?o d" and "take (wo + rest) d' = take wo d @ take rest buf"
      using assms(5,8) len by (simp_all add: d'_def)
    moreover have "take (wo + rest) (take ?o d') = take (wo + rest) d'"
      using le by (simp add: min_absorb1)
    moreover have "?n + rest - (bb_size b - ?o) = wo + rest" and "?n - (bb_size b - ?o) = wo" and "bb_size b - ?o \<le> ?n"
      using wo len by simp_all
    ultimately show ?thesis
      using le len d' by simp
  qed
  then show ?thesis
    using run d' assms len by (intro exI [of _ d']) (auto simp: ring_ok_def pending_def)
qed


lemma write_loop_spec:
  assumes "bb_buf b = Some d" and "ring_ok b" and "0 < rest" and "bb_len b + rest \<le> bb_size b" and "rest \<le> length buf"
  shows "\<exists>d'. write_loop b buf rest = Some (b\<lparr>bb_buf := Some d', bb_len := bb_len b + rest\<rparr>) \<and>
    ring_ok (b\<lparr>bb_buf := Some d', bb_len := bb_len b + rest\<rparr>) \<and>
    pending (b\<lparr>bb_buf := Some d', bb_len := bb_len b + rest\<rparr>) = pending b @ take rest buf"
proof -
  let ?o = "bb_offset b" and ?n = "bb_len b"
  have len: "length d = bb_size b" "?o < bb_size b" "?n \<le> bb_size b"
    using assms(1,2) by (simp_all add: ring_ok_def)
  consider "bb_size b \<le> ?o + ?n" | "?o + ?n + rest \<le> bb_size b" | "?o + ?n < bb_size b" "bb_size b < ?o + ?n + rest"
    by linarith
  then show ?thesis
  proof cases
    case 1
    with assms len show ?thesis
      by (intro write_loop_chunk [where wo = "?o + ?n - bb_size b"]) simp_all
  next
    case 2
    with assms show ?thesis
      by (intro write_loop_chunk [where wo = "?o + ?n"]) simp_all
  next
    case 3
    define chunk where "chunk = bb_size b - (?o + ?n)"
    have chunk: "0 < chunk" "chunk < rest" "?o + ?n + chunk = bb_size b" "chunk \<le> length buf"
      using 3 assms(5) by (simp_all add: chunk_def)
    obtain d1 where d1: "write_loop b (take chunk buf) chunk = Some (b\<lparr>bb_buf := Some d1, bb_len := ?n + chunk\<rparr>)"
      "ring_ok (b\<lparr>bb_buf := Some d1, bb_len := ?n + chunk\<rparr>)"
      "pending (b\<lparr>bb_buf := Some d1, bb_len := ?n + chunk\<rparr>) = pending b @ take chunk (take chunk buf)"
      using write_loop_chunk [of b d chunk "take chunk buf" "?o + ?n"] assms chunk by auto
    let ?b = "b\<lparr>bb_buf := Some d1, bb_len := ?n + chunk\<rparr>"
    have "rest - chunk \<le> bb_size b" "rest - chunk \<le> length (drop chunk buf)"
      using assms chunk by simp_all
    then obtain d2 where d2: "write_loop ?b (drop chunk buf) (rest - chunk) = Some (?b\<lparr>bb_buf := Some d2, bb_len := bb_len ?b + (rest - chunk)\<rparr>)"
      "ring_ok (?b\<lparr>bb_buf := Some d2, bb_len := bb_len ?b + (rest - chunk)\<rparr>)"
      "pending (?b\<lparr>bb_buf := Some d2, bb_len := bb_len ?b + (rest - chunk)\<rparr>) = pending ?b @ take (rest - chunk) (drop chunk buf)"
      using write_loop_chunk [of ?b d1 "rest - chunk" "drop chunk buf" 0] d1(2) assms chunk by auto
    have same: "?b\<lparr>bb_buf := Some d2, bb_len := bb_len ?b + (rest - chunk)\<rparr> = b\<lparr>bb_buf := Some d2, bb_len := ?n + rest\<rparr>"
      using chunk by simp
    have "write_loop b buf rest = write_loop ?b (drop chunk buf) (rest - chunk)"
    proof -
      have "d1 = take (?o + ?n) d @ take chunk buf @ drop (?o + ?n + chunk) d"
        using arg_cong [OF d1(1), of "\<lambda>x. bb_buf (the x)"] assms len chunk by (subst (asm) write_loop.simps) (simp add: Let_def)
      then show ?thesis
        using 3 assms len chunk by (subst write_loop.simps) (simp add: Let_def flip: chunk_def)
    qed
    moreover have "take chunk buf @ take (rest - chunk) (drop chunk buf) = take rest buf"
      using chunk take_add [of chunk "rest - chunk" buf] by simp
    ultimately show ?thesis
      using d2 d1(3) unfolding same by auto
  qed
qed


end
