(* ===== verification/Bio_Spec.thy ===== *)
theory Bio_Spec
  imports Bio_Ring
begin

text \<open>
  What the pairs of \<open>Bio\<close> promise: each side's ring is a queue of bytes, and the pair is two queues.
\<close>

unbundle bit_operations_syntax

section \<open>The two ends as queues\<close>

record channel_state =
  queue :: "byte list"
  capacity :: nat
  shut :: bool

definition put_bytes :: "byte list \<Rightarrow> channel_state \<Rightarrow> int \<times> channel_state" where
  "put_bytes bs c =
     (if shut c \<or> length (queue c) = capacity c then (-1, c)
      else let k = min (length bs) (capacity c - length (queue c)) in (int k, c\<lparr>queue := queue c @ take k bs\<rparr>))"

definition take_bytes :: "nat \<Rightarrow> channel_state \<Rightarrow> (int \<times> byte list) \<times> channel_state" where
  "take_bytes n c =
     (if queue c = [] then ((if shut c then 0 else -1, []), c)
      else let k = min n (length (queue c)) in ((int k, take k (queue c)), c\<lparr>queue := drop k (queue c)\<rparr>))"

definition channel :: "bio_bio \<Rightarrow> channel_state" where
  "channel p = \<lparr>queue = pending p, capacity = bb_size p, shut = bb_closed p\<rparr>"

text \<open>A read request stands only while there is nothing to read, and asks for no more than fits.\<close>

definition end_ok :: "bio_bio \<Rightarrow> bool" where
  "end_ok p \<longleftrightarrow> ring_ok p \<and> bb_buf p \<noteq> None \<and> (bb_request p \<noteq> 0 \<longrightarrow> bb_len p = 0 \<and> bb_request p \<le> bb_size p)"

definition end_of :: "bio_world \<Rightarrow> nat \<Rightarrow> bio \<Rightarrow> bio_bio \<Rightarrow> bool" where
  "end_of w a x p \<longleftrightarrow> bios w a = Some x \<and> b_ptr x = PairPtr p \<and> b_method x = Some methods_biop \<and> b_init x"

lemma to_size_t_nat: "0 \<le> n \<Longrightarrow> n \<le> INT_MAX \<Longrightarrow> to_size_t n = nat n"
  by (simp add: to_size_t_def INT_MAX_def unsigned_of_int take_bit_int_eq_self)

lemma to_int_nat: "int n \<le> INT_MAX \<Longrightarrow> to_int n = int n"
  by (simp add: to_int_def INT_MAX_def signed_of_nat signed_take_bit_int_eq_self)

text \<open>Running the accesses to objects.\<close>

lemma get_bio_at: "bios w a = Some x \<Longrightarrow> get_bio a w = (Ret x, w)"
  by (simp add: get_bio_def)

lemma upd_bio_at: "bios w a = Some x \<Longrightarrow> upd_bio a f w = (Ret (), w\<lparr>bios := (bios w)(a \<mapsto> f x)\<rparr>)"
  by (simp add: upd_bio_def bnd_def get_bio_def put_bio_def)

lemma get_pair_at: "bios w a = Some x \<Longrightarrow> b_ptr x = PairPtr p \<Longrightarrow> get_pair a w = (Ret p, w)"
  by (simp add: get_pair_def bnd_def get_bio_def)

lemma put_pair_at: "bios w a = Some x \<Longrightarrow> put_pair a p w = (Ret (), w\<lparr>bios := (bios w)(a \<mapsto> x\<lparr>b_ptr := PairPtr p\<rparr>)\<rparr>)"
  by (simp add: put_pair_def upd_bio_at)

lemma assertion_at: "c \<Longrightarrow> assertion c w = (Ret (), w)"
  by (simp add: assertion_def)

lemmas run_at = get_bio_at upd_bio_at get_pair_at put_pair_at assertion_at BIO_clear_retry_flags_def
  BIO_set_retry_read_def BIO_set_retry_write_def Let_def

lemma retry_flags:
  "(f AND NOT kRetryFlags) AND kRetryFlags = 0"
  "((f AND NOT kRetryFlags) OR (BIO_FLAGS_READ OR BIO_FLAGS_SHOULD_RETRY)) AND kRetryFlags = BIO_FLAGS_READ OR BIO_FLAGS_SHOULD_RETRY"
  "((f AND NOT kRetryFlags) OR (BIO_FLAGS_WRITE OR BIO_FLAGS_SHOULD_RETRY)) AND kRetryFlags = BIO_FLAGS_WRITE OR BIO_FLAGS_SHOULD_RETRY"
  by (rule bit_word_eqI; auto simp: bit_simps kRetryFlags_def BIO_FLAGS_RWS_def)+

lemma bio_write_run:
  assumes x: "end_of w a x p" and p: "bb_peer p = Some q" "end_ok p" and n: "0 < n" "n \<le> INT_MAX" "nat n \<le> length inp"
    and r: "put_bytes (take (nat n) inp) (channel p) = (r, c)"
  shows "\<exists>p' x'. bio_write a (Some inp) n w = (Ret r, w\<lparr>bios := (bios w)(a \<mapsto> x')\<rparr>) \<and>
    b_ptr x' = PairPtr p' \<and> b_method x' = Some methods_biop \<and> b_init x' \<and>
    end_ok p' \<and> bb_peer p' = Some q \<and> channel p' = c \<and>
    b_flags x' AND kRetryFlags = (if r = -1 \<and> \<not> bb_closed p then BIO_FLAGS_WRITE OR BIO_FLAGS_SHOULD_RETRY else 0)"
proof -
  obtain d where d: "bb_buf p = Some d" and ring: "ring_ok p"
    using p(2) by (auto simp: end_ok_def)
  let ?p = "p\<lparr>bb_request := 0\<rparr>"
  have q: "end_ok ?p" "pending ?p = pending p" "ring_ok ?p"
    using ring d by (simp_all add: end_ok_def ring_ok_def pending_def)
  have len: "length (pending p) = bb_len p" "bb_len p \<le> bb_size p"
    using length_pending [OF ring] ring by (simp_all add: ring_ok_def)
  note size = to_size_t_nat [OF order_less_imp_le [OF n(1)] n(2)]
  consider (closed) "bb_closed p" | (full) "\<not> bb_closed p" "bb_len p = bb_size p" | (room) "\<not> bb_closed p" "bb_len p < bb_size p"
    using len(2) by linarith
  then show ?thesis
  proof cases
    case closed
    with x p d n r q show ?thesis
      by (auto simp: bio_write_def size run_at end_of_def put_bytes_def channel_def retry_flags
          intro!: exI [of _ ?p])
  next
    case full
    with x p d n r q len show ?thesis
      by (auto simp: bio_write_def size run_at end_of_def put_bytes_def channel_def retry_flags
          intro!: exI [of _ ?p])
  next
    case room
    define k where "k = min (nat n) (bb_size p - bb_len p)"
    have k: "0 < k" "bb_len ?p + k \<le> bb_size ?p" "k \<le> length inp" "k \<le> nat n" "int k \<le> INT_MAX"
      using room n by (simp_all add: k_def)
    obtain d' where d': "write_loop ?p inp k = Some (?p\<lparr>bb_buf := Some d', bb_len := bb_len ?p + k\<rparr>)"
      "ring_ok (?p\<lparr>bb_buf := Some d', bb_len := bb_len ?p + k\<rparr>)"
      "pending (?p\<lparr>bb_buf := Some d', bb_len := bb_len ?p + k\<rparr>) = pending ?p @ take k inp"
      using write_loop_spec [OF _ q(3) k(1-3)] d by auto
    have "(if bb_size p - bb_len p < nat n then bb_size p - bb_len p else nat n) = k"
      by (simp add: k_def)
    moreover have "r = int k" and "c = channel (?p\<lparr>bb_buf := Some d', bb_len := bb_len ?p + k\<rparr>)"
      using r room len d'(3) q(2) n(3) k(4) by (auto simp: put_bytes_def channel_def Let_def k_def min_absorb2 min.commute)
    ultimately show ?thesis
      using x p d n q room k d'
      by (intro exI [of _ "?p\<lparr>bb_buf := Some d', bb_len := bb_len ?p + k\<rparr>"])
        (auto simp: bio_write_def size run_at end_of_def retry_flags to_int_nat end_ok_def)
  qed
qed


lemma bio_read_run:
  assumes x: "end_of w a x p" and y: "end_of w q y pq" and ne: "a \<noteq> q" and p: "bb_peer p = Some q"
    and pq: "end_ok pq" "bb_peer pq = Some a" and n: "0 < n" "n \<le> INT_MAX"
    and r: "take_bytes (nat n) (channel pq) = (r, c)"
  shows "\<exists>pq' x' y'. bio_read a False n w = (Ret r, w\<lparr>bios := (bios w)(a \<mapsto> x', q \<mapsto> y')\<rparr>) \<and>
    b_ptr x' = PairPtr p \<and> b_method x' = Some methods_biop \<and> b_init x' \<and>
    b_ptr y' = PairPtr pq' \<and> b_method y' = Some methods_biop \<and> b_init y' \<and>
    end_ok pq' \<and> bb_peer pq' = Some a \<and> channel pq' = c \<and>
    bb_request pq' = (if fst r = -1 then min (nat n) (bb_size pq) else 0) \<and>
    b_flags x' AND kRetryFlags = (if fst r = -1 then BIO_FLAGS_READ OR BIO_FLAGS_SHOULD_RETRY else 0)"
proof -
  obtain d where d: "bb_buf pq = Some d" and ring: "ring_ok pq"
    using pq(1) by (auto simp: end_ok_def)
  let ?p = "pq\<lparr>bb_request := 0\<rparr>"
  have q: "end_ok ?p" "pending ?p = pending pq" "ring_ok ?p"
    using ring d by (simp_all add: end_ok_def ring_ok_def pending_def)
  have len: "length (pending pq) = bb_len pq" "bb_len pq \<le> bb_size pq"
    using length_pending [OF ring] ring by (simp_all add: ring_ok_def)
  note size = to_size_t_nat [OF order_less_imp_le [OF n(1)] n(2)]
  let ?x = "x\<lparr>b_flags := b_flags x AND NOT kRetryFlags, b_retry_reason := 0\<rparr>"
  note run = bio_read_def size run_at end_of_def
  consider (closed) "bb_closed pq" "bb_len pq = 0" | (empty) "\<not> bb_closed pq" "bb_len pq = 0" | (data) "0 < bb_len pq"
    by auto
  then show ?thesis
  proof cases
    case closed
    with x y ne p pq d n r q len show ?thesis
      by (intro exI [of _ ?p] exI [of _ ?x] exI [of _ "y\<lparr>b_ptr := PairPtr ?p\<rparr>"]) (auto simp: run take_bytes_def channel_def retry_flags)
  next
    case empty
    let ?q = "pq\<lparr>bb_request := min (nat n) (bb_size pq)\<rparr>"
    have "end_ok ?q" "pending ?q = pending pq"
      using ring d empty by (simp_all add: end_ok_def ring_ok_def pending_def)
    moreover have "(if nat n \<le> bb_size pq then nat n else bb_size pq) = min (nat n) (bb_size pq)"
      by (simp add: min_def)
    ultimately show ?thesis
      using x y ne p pq d n r q len empty
      by (intro exI [of _ ?q] exI [of _ "x\<lparr>b_retry_reason := 0, b_flags := b_flags x AND NOT kRetryFlags OR (BIO_FLAGS_READ OR BIO_FLAGS_SHOULD_RETRY)\<rparr>"]
          exI [of _ "y\<lparr>b_ptr := PairPtr ?q\<rparr>"]) (auto simp: run take_bytes_def channel_def retry_flags fun_upd_twist [OF ne])
  next
    case data
    define k where "k = min (nat n) (bb_len pq)"
    have k: "0 < k" "k \<le> bb_len ?p" "int k \<le> INT_MAX"
      using data n by (simp_all add: k_def)
    obtain z where z: "read_loop ?p k = Some (take k (pending ?p), ?p\<lparr>bb_len := bb_len ?p - k, bb_offset := z\<rparr>)"
      "ring_ok (?p\<lparr>bb_len := bb_len ?p - k, bb_offset := z\<rparr>)"
      "pending (?p\<lparr>bb_len := bb_len ?p - k, bb_offset := z\<rparr>) = drop k (pending ?p)"
      using read_loop_spec [OF _ q(3) k(1,2)] d by auto
    let ?q = "?p\<lparr>bb_len := bb_len ?p - k, bb_offset := z\<rparr>"
    have some: "pending pq \<noteq> []"
      using data len by auto
    have size': "(if bb_len pq < nat n then bb_len pq else nat n) = k"
      by (simp add: k_def)
    have r: "r = (int k, take k (pending pq))" and c: "c = (channel pq)\<lparr>queue := drop k (pending pq)\<rparr>"
      using r len some by (auto simp: take_bytes_def channel_def Let_def k_def)
    have "channel ?q = c"
      using z(3) q(2) c by (simp add: channel_def)
    then show ?thesis
      using x y ne p pq d n q data k z size' r
      by (intro exI [of _ ?q] exI [of _ ?x] exI [of _ "y\<lparr>b_ptr := PairPtr ?q\<rparr>"]) (auto simp: run retry_flags to_int_nat end_ok_def)
  qed
qed

section \<open>Connected pairs\<close>

definition pair_of :: "bio_world \<Rightarrow> nat \<Rightarrow> bio_bio option" where
  "pair_of w a = (case bios w a of None \<Rightarrow> None
     | Some x \<Rightarrow> (case b_ptr x of PairPtr p \<Rightarrow> if b_method x = Some methods_biop \<and> b_init x then Some p else None | _ \<Rightarrow> None))"

definition connected :: "nat \<Rightarrow> nat \<Rightarrow> bio_world \<Rightarrow> bool" where
  "connected a b w \<longleftrightarrow> a \<noteq> b \<and> (case (pair_of w a, pair_of w b) of
     (Some p, Some q) \<Rightarrow> end_ok p \<and> end_ok q \<and> bb_peer p = Some b \<and> bb_peer q = Some a | _ \<Rightarrow> False)"

text \<open>What is written to \<open>a\<close>, and not yet read by its peer.\<close>

definition outgoing :: "nat \<Rightarrow> bio_world \<Rightarrow> channel_state" where
  "outgoing a w = channel (the (pair_of w a))"

definition retry_of :: "bio_world \<Rightarrow> nat \<Rightarrow> u32" where
  "retry_of w a = BIO_get_retry_flags (the (bios w a))"

text \<open>Nothing but the objects at these addresses is changed.\<close>

definition only_at :: "nat set \<Rightarrow> bio_world \<Rightarrow> bio_world \<Rightarrow> bool" where
  "only_at A w w' \<longleftrightarrow> (\<exists>f. w' = w\<lparr>bios := f\<rparr> \<and> (\<forall>x. x \<notin> A \<longrightarrow> f x = bios w x))"

lemma only_at_upds [simp]:
  "only_at {a} w (w\<lparr>bios := (bios w)(a := x)\<rparr>)"
  "only_at {a, b} w (w\<lparr>bios := (bios w)(a := x, b := y)\<rparr>)"
  unfolding only_at_def by (rule exI conjI refl | simp)+

lemma end_of_pair: "end_of w a x p \<Longrightarrow> pair_of w a = Some p"
  by (simp add: end_of_def pair_of_def)

lemma pair_of_end: "pair_of w a = Some p \<Longrightarrow> \<exists>x. end_of w a x p"
  by (auto simp: end_of_def pair_of_def split: option.splits bio_ptr.splits if_splits)

lemma connected_sym: "connected a b w \<Longrightarrow> connected b a w"
  by (auto simp: connected_def split: option.splits)

lemma connectedE:
  assumes "connected a b w"
  obtains x p y q where "end_of w a x p" and "end_of w b y q" and "end_ok p" and "end_ok q"
    and "bb_peer p = Some b" and "bb_peer q = Some a" and "a \<noteq> b"
  using assms by (auto simp: connected_def split: option.splits dest!: pair_of_end)

lemma BIO_write_pair:
  assumes con: "connected a b w" and n: "0 < n" "n \<le> INT_MAX" "nat n \<le> length inp"
    and r: "put_bytes (take (nat n) inp) (outgoing a w) = (r, c)"
  shows "\<exists>w'. BIO_write (Some a) inp n w = (Ret r, w') \<and> connected a b w' \<and> outgoing a w' = c \<and>
    outgoing b w' = outgoing b w \<and> only_at {a} w w' \<and>
    retry_of w' a = (if r = -1 \<and> \<not> shut c then BIO_FLAGS_WRITE OR BIO_FLAGS_SHOULD_RETRY else 0)"
proof -
  obtain x p y q where x: "end_of w a x p" and y: "end_of w b y q" and p: "end_ok p" "bb_peer p = Some b"
    and q: "end_ok q" "bb_peer q = Some a" and ne: "a \<noteq> b"
    using con by (rule connectedE)
  have put: "put_bytes (take (nat n) inp) (channel p) = (r, c)"
    using r end_of_pair [OF x] by (simp add: outgoing_def)
  then obtain p' x' where run: "bio_write a (Some inp) n w = (Ret r, w\<lparr>bios := (bios w)(a \<mapsto> x')\<rparr>)"
    and x': "b_ptr x' = PairPtr p'" "b_method x' = Some methods_biop" "b_init x'" "end_ok p'" "bb_peer p' = Some b"
      "channel p' = c" "b_flags x' AND kRetryFlags = (if r = -1 \<and> \<not> bb_closed p then BIO_FLAGS_WRITE OR BIO_FLAGS_SHOULD_RETRY else 0)"
    using bio_write_run [OF x p(2,1) n] by blast
  define x'' where "x'' = (if 0 < r then x'\<lparr>b_num_write := b_num_write x' + of_int r\<rparr> else x')"
  have run': "BIO_write (Some a) inp n w = (Ret r, w\<lparr>bios := (bios w)(a \<mapsto> x'')\<rparr>)"
    using x n run by (simp add: BIO_write_def end_of_def run_at bwrite_def x''_def)
  have shut: "shut c = bb_closed p"
    using put by (auto simp: put_bytes_def channel_def Let_def split: if_splits)
  have x'': "b_ptr x'' = PairPtr p'" "b_method x'' = Some methods_biop" "b_init x''" "b_flags x'' = b_flags x'"
    using x' by (simp_all add: x''_def)
  then have pairs: "pair_of (w\<lparr>bios := (bios w)(a \<mapsto> x'')\<rparr>) a = Some p'" "pair_of (w\<lparr>bios := (bios w)(a \<mapsto> x'')\<rparr>) b = Some q"
    using ne end_of_pair [OF y] by (simp_all add: pair_of_def)
  show ?thesis
    unfolding run' using ne x' x'' q shut pairs end_of_pair [OF y]
    by (simp add: connected_def outgoing_def retry_of_def BIO_get_retry_flags_def)
qed

lemma BIO_read_pair:
  assumes con: "connected a b w" and n: "0 < n" "n \<le> INT_MAX" and r: "take_bytes (nat n) (outgoing b w) = (r, c)"
  shows "\<exists>w'. BIO_read (Some a) False n w = (Ret r, w') \<and> connected a b w' \<and> outgoing b w' = c \<and>
    outgoing a w' = outgoing a w \<and> only_at {a, b} w w' \<and>
    retry_of w' a = (if fst r = -1 then BIO_FLAGS_READ OR BIO_FLAGS_SHOULD_RETRY else 0)"
proof -
  obtain x p y q where x: "end_of w a x p" and y: "end_of w b y q" and p: "end_ok p" "bb_peer p = Some b"
    and q: "end_ok q" "bb_peer q = Some a" and ne: "a \<noteq> b"
    using con by (rule connectedE)
  have "take_bytes (nat n) (channel q) = (r, c)"
    using r end_of_pair [OF y] by (simp add: outgoing_def)
  then obtain q' x' y' where run: "bio_read a False n w = (Ret r, w\<lparr>bios := (bios w)(a \<mapsto> x', b \<mapsto> y')\<rparr>)"
    and x': "b_ptr x' = PairPtr p" "b_method x' = Some methods_biop" "b_init x'"
      "b_flags x' AND kRetryFlags = (if fst r = -1 then BIO_FLAGS_READ OR BIO_FLAGS_SHOULD_RETRY else 0)"
    and y': "b_ptr y' = PairPtr q'" "b_method y' = Some methods_biop" "b_init y'" "end_ok q'" "bb_peer q' = Some a" "channel q' = c"
    using bio_read_run [OF x y ne p(2) q n] by blast
  obtain k data where k: "r = (k, data)"
    by (cases r)
  define x'' where "x'' = (if 0 < k then x'\<lparr>b_num_read := b_num_read x' + of_int k\<rparr> else x')"
  let ?w = "w\<lparr>bios := (bios w)(a \<mapsto> x'', b \<mapsto> y')\<rparr>"
  have run': "BIO_read (Some a) False n w = (Ret r, ?w)"
    using x n run ne by (simp add: BIO_read_def end_of_def run_at bread_def x''_def k fun_upd_twist)
  have x'': "b_ptr x'' = PairPtr p" "b_method x'' = Some methods_biop" "b_init x''" "b_flags x'' = b_flags x'"
    using x' by (simp_all add: x''_def)
  then have pairs: "pair_of ?w a = Some p" "pair_of ?w b = Some q'"
    using ne y' by (simp_all add: pair_of_def)
  show ?thesis
    unfolding run' using ne x' x'' y' p pairs end_of_pair [OF x]
    by (simp add: connected_def outgoing_def retry_of_def BIO_get_retry_flags_def)
qed

end
