(* ===== verification/Bio_Life.thy ===== *)
theory Bio_Life
  imports Bio_Spec
begin

text \<open>
  The life of a pair: \<open>BIO_new_bio_pair\<close> makes a connected pair or leaves nothing behind, and freeing one end leaves no pointer to it.
\<close>

unbundle bit_operations_syntax

section \<open>Making\<close>

text \<open>A state by its parts.\<close>

abbreviation world :: "(nat \<Rightarrow> bio option) \<Rightarrow> (nat \<Rightarrow> (byte list \<times> buf_mem) option) \<Rightarrow> nat \<Rightarrow> (nat \<Rightarrow> byte) option list \<Rightarrow> bio_world" where
  "world f u n as \<equiv> \<lparr>bios = f, bufs = u, next_addr = n, allocs = as\<rparr>"

lemma alloc_world:
  obtains as' d where "alloc k (world f u n as) = (Ret d, world f u n as')" "length d = k"
  | as' where "alloc k (world f u n as) = (Fail, world f u n as')"
proof (cases as)
  case Nil
  then show thesis
    using that(2) [of "[]"] by (simp add: alloc_def)
next
  case (Cons g as')
  then show thesis
    using that by (cases g) (auto simp: alloc_def)
qed

text \<open>An end without a peer, as \<open>BIO_new\<close> and the failing \<open>bio_make_pair\<close> leave it.\<close>

definition lone :: "bio \<Rightarrow> bio_bio \<Rightarrow> bool" where
  "lone x p \<longleftrightarrow> b_ptr x = PairPtr p \<and> b_method x = Some methods_biop \<and> b_references x = 1 \<and> b_next x = None \<and> bb_peer p = None"

definition blank_pair :: bio_bio where
  "blank_pair = \<lparr>bb_peer = None, bb_closed = False, bb_len = 0, bb_offset = 0, bb_size = 17 * 1024, bb_buf = None, bb_request = 0\<rparr>"

lemma BIO_new_pair:
  assumes "f n = None"
  obtains as' x where "attempt (BIO_new methods_biop) (world f u n as) = (Ret (Some n), world (f(n \<mapsto> x)) u (n + 1) as')" "lone x blank_pair"
  | as' n' where "attempt (BIO_new methods_biop) (world f u n as) = (Ret None, world f u n' as')" "n \<le> n'"
proof -
  note run = BIO_new_def new_addr_def create_def bio_new_def attempt_def put_bio_def run_at
  have [simp]: "f(n := None) = f"
    using assms by auto
  let ?x = "\<lparr>b_method = Some methods_biop, b_init = False, b_shutdown = 1, b_flags = 0, b_retry_reason = 0, b_num = 0,
    b_references = 1, b_ptr = NullPtr, b_next = None, b_num_read = 0, b_num_write = 0\<rparr>"
  show thesis
  proof (cases "alloc 0 (world f u n as)" rule: res_cases_prod)
    case (1 d s)
    then obtain as1 where s: "s = world f u n as1"
      by (cases rule: alloc_world [of 0 f u n as]) auto
    show thesis
    proof (cases rule: alloc_world [of 0 "f(n \<mapsto> ?x)" u "n + 1" as1])
      case (1 as2 d2)
      with \<open>alloc 0 (world f u n as) = (Ret d, s)\<close> show thesis
        by (intro that(1) [of "?x\<lparr>b_ptr := PairPtr blank_pair\<rparr>" as2]) (simp_all add: s run lone_def blank_pair_def)
    next
      case (2 as2)
      with \<open>alloc 0 (world f u n as) = (Ret d, s)\<close> show thesis
        by (intro that(2) [of "n + 1" as2]) (simp_all add: s run)
    qed
  next
    case (2 s)
    then obtain as1 where "s = world f u n as1"
      by (cases rule: alloc_world [of 0 f u n as]) auto
    with 2 show thesis
      by (intro that(2) [of n as1]) (simp_all add: run)
  next
    case (3 s)
    then show thesis
      by (cases rule: alloc_world [of 0 f u n as]) auto
  qed
qed

definition pair_size :: "nat \<Rightarrow> nat" where
  "pair_size len = (if len = 0 then 17 * 1024 else len)"

lemma make_buf_run:
  assumes "f a = Some x" and "lone x blank_pair"
  obtains as' d p where "make_buf a len (world f u n as) = (Ret (), world (f(a \<mapsto> x\<lparr>b_ptr := PairPtr p\<rparr>)) u n as')"
    "p = blank_pair\<lparr>bb_size := pair_size len, bb_buf := Some d\<rparr>" "length d = pair_size len"
  | as' p where "make_buf a len (world f u n as) = (Fail, world (f(a \<mapsto> x\<lparr>b_ptr := PairPtr p\<rparr>)) u n as')" "bb_peer p = None"
proof -
  let ?p = "blank_pair\<lparr>bb_size := pair_size len\<rparr>"
  have x: "get_pair a (world f u n as) = (Ret blank_pair, world f u n as)"
    using assms by (simp add: lone_def run_at)
  show thesis
  proof (cases rule: alloc_world [of "pair_size len" "f(a \<mapsto> x\<lparr>b_ptr := PairPtr ?p\<rparr>)" u n as])
    case (1 as' d)
    have "make_buf a len (world f u n as) =
        (Ret (), world (f(a \<mapsto> x\<lparr>b_ptr := PairPtr (blank_pair\<lparr>bb_size := pair_size len, bb_buf := Some d\<rparr>)\<rparr>)) u n as')"
      using assms(1) 1 x by (cases "len = 0") (simp_all add: make_buf_def run_at blank_pair_def pair_size_def)
    then show thesis
      using 1(2) that(1) by blast
  next
    case (2 as')
    have "make_buf a len (world f u n as) = (Fail, world (f(a \<mapsto> x\<lparr>b_ptr := PairPtr ?p\<rparr>)) u n as')"
      using assms(1) 2 x by (cases "len = 0") (simp_all add: make_buf_def run_at blank_pair_def pair_size_def)
    moreover have "bb_peer ?p = None"
      by (simp add: blank_pair_def)
    ultimately show thesis
      using that(2) by blast
  qed
qed

lemma lone_ptr: "lone x p \<Longrightarrow> bb_peer q = None \<Longrightarrow> lone (x\<lparr>b_ptr := PairPtr q\<rparr>) q"
  by (simp add: lone_def)

lemma free_lone:
  assumes "f a = Some x" and "lone x p" and "0 < n"
  shows "BIO_free (Some a) (world f u n as) = (Ret True, world (f(a := None)) u n as)"
proof -
  obtain n' where n: "n = Suc n'"
    using assms(3) by (cases n) auto
  from assms(1,2) show ?thesis
    by (simp add: n BIO_free_def lone_def run_at CRYPTO_refcount_dec_and_test_zero_def CRYPTO_REFCOUNT_MAX_def BIO_pop_def destroy_def
        bio_free_def attempt_def put_bio_def)
qed

lemma ends_connected:
  assumes "a \<noteq> b" and "f a = Some (x\<lparr>b_ptr := PairPtr p, b_init := True\<rparr>)" "f b = Some (y\<lparr>b_ptr := PairPtr q, b_init := True\<rparr>)"
    and "b_method x = Some methods_biop" "b_method y = Some methods_biop"
    and "p = blank_pair\<lparr>bb_size := s1, bb_buf := Some d1, bb_peer := Some b\<rparr>" "length d1 = s1" "0 < s1"
    and "q = blank_pair\<lparr>bb_size := s2, bb_buf := Some d2, bb_peer := Some a\<rparr>" "length d2 = s2" "0 < s2"
  shows "connected a b (world f u n as)" and "outgoing a (world f u n as) = \<lparr>queue = [], capacity = s1, shut = False\<rparr>"
    and "outgoing b (world f u n as) = \<lparr>queue = [], capacity = s2, shut = False\<rparr>"
proof -
  have "pair_of (world f u n as) a = Some p" "pair_of (world f u n as) b = Some q"
    using assms(2-5) by (simp_all add: pair_of_def)
  with assms show "connected a b (world f u n as)" and "outgoing a (world f u n as) = \<lparr>queue = [], capacity = s1, shut = False\<rparr>"
    and "outgoing b (world f u n as) = \<lparr>queue = [], capacity = s2, shut = False\<rparr>"
    by (auto simp: connected_def outgoing_def channel_def pending_def end_ok_def ring_ok_def blank_pair_def)
qed

lemma make_pair_run:
  assumes "f a = Some x" "lone x blank_pair" "f b = Some y" "lone y blank_pair" "a \<noteq> b"
  obtains as' f' where "attempt (bio_make_pair a b len1 len2) (world f u n as) = (Ret (Some ()), world f' u n as')"
    "\<forall>z. z \<noteq> a \<and> z \<noteq> b \<longrightarrow> f' z = f z" "connected a b (world f' u n as')"
    "outgoing a (world f' u n as') = \<lparr>queue = [], capacity = pair_size len1, shut = False\<rparr>"
    "outgoing b (world f' u n as') = \<lparr>queue = [], capacity = pair_size len2, shut = False\<rparr>"
  | as' x' p' y' q' where "attempt (bio_make_pair a b len1 len2) (world f u n as) = (Ret None, world (f(a \<mapsto> x', b \<mapsto> y')) u n as')"
    "lone x' p'" "lone y' q'"
proof -
  note run = bio_make_pair_def attempt_def run_at
  have pairs: "get_pair a (world f u n as) = (Ret blank_pair, world f u n as)" "get_pair b (world f u n as) = (Ret blank_pair, world f u n as)"
    using assms by (simp_all add: lone_def run_at)
  have peer: "bb_peer blank_pair = None"
    by (simp add: blank_pair_def)
  have fy: "f(b \<mapsto> y) = f"
    using assms(3) by auto
  show thesis
  proof (cases rule: make_buf_run [where f = f and len = len1 and u = u and n = n and as = as, OF assms(1,2)])
    case (1 as1 d1 p)
    let ?f = "f(a \<mapsto> x\<lparr>b_ptr := PairPtr p\<rparr>)"
    have y: "?f b = Some y"
      using assms(3,5) by simp
    show thesis
    proof (cases rule: make_buf_run [where f = ?f and len = len2 and u = u and n = n and as = as1, OF y assms(4)])
      case (1 as2 d2 q)
      note first = \<open>make_buf a len1 _ = _\<close> \<open>p = _\<close> \<open>length d1 = _\<close>
      let ?p = "p\<lparr>bb_peer := Some b, bb_closed := False, bb_request := 0\<rparr>" and ?q = "q\<lparr>bb_peer := Some a, bb_closed := False, bb_request := 0\<rparr>"
      let ?f' = "f(a \<mapsto> x\<lparr>b_ptr := PairPtr ?p, b_init := True\<rparr>, b \<mapsto> y\<lparr>b_ptr := PairPtr ?q, b_init := True\<rparr>)"
      have "attempt (bio_make_pair a b len1 len2) (world f u n as) = (Ret (Some ()), world ?f' u n as2)"
        using pairs peer first(1) 1(1) assms(5) by (simp add: run fun_upd_twist [OF assms(5)])
      moreover have "?p = blank_pair\<lparr>bb_size := pair_size len1, bb_buf := Some d1, bb_peer := Some b\<rparr>"
        "?q = blank_pair\<lparr>bb_size := pair_size len2, bb_buf := Some d2, bb_peer := Some a\<rparr>"
        using first(2) 1(2) by (simp_all add: blank_pair_def)
      note ends_connected [OF assms(5) _ _ _ _ this(1) first(3) _ this(2) 1(3), of ?f' x y u n as2]
      ultimately show thesis
        using assms by (intro that(1) [of ?f' as2]) (simp_all add: lone_def pair_size_def)
    next
      case (2 as2 q)
      with \<open>make_buf a len1 _ = _\<close> pairs peer assms have "attempt (bio_make_pair a b len1 len2) (world f u n as) =
          (Ret None, world (f(a \<mapsto> x\<lparr>b_ptr := PairPtr p\<rparr>, b \<mapsto> y\<lparr>b_ptr := PairPtr q\<rparr>)) u n as2)"
        by (simp add: run)
      moreover have "lone (x\<lparr>b_ptr := PairPtr p\<rparr>) p" "lone (y\<lparr>b_ptr := PairPtr q\<rparr>) q"
        using assms(2,4) 2(2) \<open>p = _\<close> peer by (auto intro: lone_ptr)
      ultimately show thesis
        by (rule that(2))
    qed
  next
    case (2 as1 p)
    with pairs peer have "attempt (bio_make_pair a b len1 len2) (world f u n as) =
        (Ret None, world (f(a \<mapsto> x\<lparr>b_ptr := PairPtr p\<rparr>, b \<mapsto> y)) u n as1)"
      using assms(3,5) by (simp add: run fy fun_upd_twist [OF assms(5)])
    moreover have "lone (x\<lparr>b_ptr := PairPtr p\<rparr>) p"
      using assms(2) 2(2) by (rule lone_ptr)
    ultimately show thesis
      using assms(4) by (rule that(2))
  qed
qed

lemma make_pair_or_free:
  fixes n :: nat
  assumes "f n = None" "f (n + 1) = None" "lone x blank_pair" "lone y blank_pair"
  obtains as' f' where "attempt (bio_make_pair n (n + 1) la lb) (world (f(n \<mapsto> x, n + 1 \<mapsto> y)) u (n + 1 + 1) as) = (Ret (Some ()), world f' u (n + 1 + 1) as')"
    "\<forall>z. z \<noteq> n \<and> z \<noteq> n + 1 \<longrightarrow> f' z = f z" "connected n (n + 1) (world f' u (n + 1 + 1) as')"
    "outgoing n (world f' u (n + 1 + 1) as') = \<lparr>queue = [], capacity = pair_size la, shut = False\<rparr>"
    "outgoing (n + 1) (world f' u (n + 1 + 1) as') = \<lparr>queue = [], capacity = pair_size lb, shut = False\<rparr>"
  | s s' as' where "attempt (bio_make_pair n (n + 1) la lb) (world (f(n \<mapsto> x, n + 1 \<mapsto> y)) u (n + 1 + 1) as) = (Ret None, s)"
    "BIO_free (Some n) s = (Ret True, s')" "BIO_free (Some (n + 1)) s' = (Ret True, world f u (n + 1 + 1) as')"
proof -
  let ?g = "f(n \<mapsto> x, n + 1 \<mapsto> y)"
  have at: "?g n = Some x" "?g (n + 1) = Some y" "n \<noteq> n + 1"
    by simp_all
  from at(1) assms(3) at(2) assms(4) at(3) show thesis
  proof (rule make_pair_run)
    fix as' f'
    assume "attempt (bio_make_pair n (n + 1) la lb) (world ?g u (n + 1 + 1) as) = (Ret (Some ()), world f' u (n + 1 + 1) as')"
      "\<forall>z. z \<noteq> n \<and> z \<noteq> n + 1 \<longrightarrow> f' z = ?g z" "connected n (n + 1) (world f' u (n + 1 + 1) as')"
      "outgoing n (world f' u (n + 1 + 1) as') = \<lparr>queue = [], capacity = pair_size la, shut = False\<rparr>"
      "outgoing (n + 1) (world f' u (n + 1 + 1) as') = \<lparr>queue = [], capacity = pair_size lb, shut = False\<rparr>"
    then show thesis
      by (intro that(1)) auto
  next
    fix as' x' p' y' q'
    assume made: "attempt (bio_make_pair n (n + 1) la lb) (world ?g u (n + 1 + 1) as) = (Ret None, world (?g(n \<mapsto> x', n + 1 \<mapsto> y')) u (n + 1 + 1) as')"
      and lone: "lone x' p'" "lone y' q'"
    let ?h = "?g(n \<mapsto> x', n + 1 \<mapsto> y')"
    have h: "?h n = Some x'" "(?h(n := None)) (n + 1) = Some y'" "?h(n := None, n + 1 := None) = f"
      using assms(1,2) by (auto simp: fun_eq_iff)
    have "BIO_free (Some n) (world ?h u (n + 1 + 1) as') = (Ret True, world (?h(n := None)) u (n + 1 + 1) as')"
      using h(1) lone(1) by (rule free_lone) simp
    moreover have "BIO_free (Some (n + 1)) (world (?h(n := None)) u (n + 1 + 1) as') = (Ret True, world (?h(n := None, n + 1 := None)) u (n + 1 + 1) as')"
      using h(2) lone(2) by (rule free_lone) simp
    ultimately show thesis
      using made that(2) unfolding h(3) by blast
  qed
qed

text \<open>A connected pair of empty ends, or nothing.\<close>

definition made_or_none :: "nat \<Rightarrow> nat \<Rightarrow> (nat \<Rightarrow> bio option) \<Rightarrow> (nat \<Rightarrow> (byte list \<times> buf_mem) option) \<Rightarrow> (nat \<times> nat) res \<times> bio_world \<Rightarrow> bool" where
  "made_or_none len1 len2 f u out \<longleftrightarrow> (case out of
      (Ret (a, b), w') \<Rightarrow> connected a b w' \<and> outgoing a w' = \<lparr>queue = [], capacity = pair_size len1, shut = False\<rparr> \<and>
        outgoing b w' = \<lparr>queue = [], capacity = pair_size len2, shut = False\<rparr> \<and> bufs w' = u \<and>
        (\<forall>x. x \<noteq> a \<and> x \<noteq> b \<longrightarrow> bios w' x = f x)
    | (Fail, w') \<Rightarrow> bios w' = f \<and> bufs w' = u
    | (Stuck, w') \<Rightarrow> False)"

lemma free_none: "BIO_free None s = (Ret True, s)"
  by (cases "next_addr s") (simp_all add: BIO_free_def)

lemma second_bio:
  fixes n :: nat
  assumes fresh: "\<And>x. n \<le> x \<Longrightarrow> f x = None"
    and first: "attempt (BIO_new methods_biop) (world f u n as) = (Ret (Some n), world (f(n \<mapsto> x)) u (n + 1) as1)" "lone x blank_pair"
  shows "made_or_none len1 len2 f u (BIO_new_bio_pair len1 len2 (world f u n as))"
proof -
  have new: "f n = None" "f (n + 1) = None" "(f(n \<mapsto> x)) (n + 1) = None"
    using fresh by simp_all
  from new(3) show ?thesis
  proof (rule BIO_new_pair [where u = u and as = as1])
    fix as2 y
    assume second: "attempt (BIO_new methods_biop) (world (f(n \<mapsto> x)) u (n + 1) as1) =
        (Ret (Some (n + 1)), world (f(n \<mapsto> x, n + 1 \<mapsto> y)) u (n + 1 + 1) as2)" "lone y blank_pair"
    from new(1,2) first(2) second(2) show ?thesis
    proof (rule make_pair_or_free [where f = f and n = n and u = u and as = as2 and la = len1 and lb = len2])
      fix as' f'
      assume "attempt (bio_make_pair n (n + 1) len1 len2) (world (f(n \<mapsto> x, n + 1 \<mapsto> y)) u (n + 1 + 1) as2) = (Ret (Some ()), world f' u (n + 1 + 1) as')"
        "\<forall>z. z \<noteq> n \<and> z \<noteq> n + 1 \<longrightarrow> f' z = f z" "connected n (n + 1) (world f' u (n + 1 + 1) as')"
        "outgoing n (world f' u (n + 1 + 1) as') = \<lparr>queue = [], capacity = pair_size len1, shut = False\<rparr>"
        "outgoing (n + 1) (world f' u (n + 1 + 1) as') = \<lparr>queue = [], capacity = pair_size len2, shut = False\<rparr>"
      with first(1) second(1) show ?thesis
        by (simp add: BIO_new_bio_pair_def made_or_none_def)
    next
      fix s s' as'
      assume "attempt (bio_make_pair n (n + 1) len1 len2) (world (f(n \<mapsto> x, n + 1 \<mapsto> y)) u (n + 1 + 1) as2) = (Ret None, s)"
        "BIO_free (Some n) s = (Ret True, s')" "BIO_free (Some (n + 1)) s' = (Ret True, world f u (n + 1 + 1) as')"
      with first(1) second(1) show ?thesis
        by (simp add: BIO_new_bio_pair_def made_or_none_def)
    qed
  next
    fix as2 n'
    assume second: "attempt (BIO_new methods_biop) (world (f(n \<mapsto> x)) u (n + 1) as1) = (Ret None, world (f(n \<mapsto> x)) u n' as2)" "n + 1 \<le> n'"
    have "BIO_free (Some n) (world (f(n \<mapsto> x)) u n' as2) = (Ret True, world ((f(n \<mapsto> x))(n := None)) u n' as2)"
      using first(2) second(2) by (intro free_lone) simp_all
    moreover have "(f(n \<mapsto> x))(n := None) = f"
      using new(1) by auto
    ultimately show ?thesis
      using first(1) second(1) by (simp add: BIO_new_bio_pair_def made_or_none_def free_none)
  qed
qed

lemma no_first_bio:
  fixes n :: nat
  assumes fresh: "\<And>x. n \<le> x \<Longrightarrow> f x = None"
    and first: "attempt (BIO_new methods_biop) (world f u n as) = (Ret None, world f u n1 as1)" "n \<le> n1"
  shows "made_or_none len1 len2 f u (BIO_new_bio_pair len1 len2 (world f u n as))"
proof -
  have new: "f n1 = None"
    using fresh first(2) by simp
  then show ?thesis
  proof (rule BIO_new_pair [where u = u and as = as1])
    fix as2 y
    assume second: "attempt (BIO_new methods_biop) (world f u n1 as1) = (Ret (Some n1), world (f(n1 \<mapsto> y)) u (n1 + 1) as2)" "lone y blank_pair"
    have "BIO_free (Some n1) (world (f(n1 \<mapsto> y)) u (n1 + 1) as2) = (Ret True, world (f(n1 \<mapsto> y, n1 := None)) u (n1 + 1) as2)"
      using second(2) by (intro free_lone) simp_all
    moreover have "f(n1 \<mapsto> y, n1 := None) = f"
      using new by auto
    ultimately show ?thesis
      using first(1) second(1) by (simp add: BIO_new_bio_pair_def made_or_none_def free_none)
  next
    fix as2 n2
    assume "attempt (BIO_new methods_biop) (world f u n1 as1) = (Ret None, world f u n2 as2)" "n1 \<le> n2"
    with first show ?thesis
      by (simp add: BIO_new_bio_pair_def made_or_none_def free_none)
  qed
qed

text \<open>C15: Making a pair: two new connected ends with empty buffers of the sizes asked for, 17 KiB for a size of 0; or, when the
allocator refuses at any point, a failure after which no object is left behind.\<close>

theorem new_pair_connected:
  assumes "\<forall>x\<ge>next_addr w. bios w x = None"
  shows "made_or_none len1 len2 (bios w) (bufs w) (BIO_new_bio_pair len1 len2 w)"
proof -
  obtain f u n as where w: "w = world f u n as"
    by (cases w)
  have fresh: "\<And>x. n \<le> x \<Longrightarrow> f x = None"
    using assms by (simp add: w)
  have "f n = None"
    using fresh by simp
  then have "made_or_none len1 len2 f u (BIO_new_bio_pair len1 len2 (world f u n as))"
    using second_bio [where f = f and n = n, OF fresh] no_first_bio [where f = f and n = n, OF fresh]
    by (rule BIO_new_pair [where u = u and as = as]) blast+
  then show ?thesis
    by (simp add: w)
qed

text \<open>Four bytes in one buffer; and an allocator that refuses the second buffer.\<close>

definition empty_world :: "(nat \<Rightarrow> byte) option list \<Rightarrow> bio_world" where
  "empty_world as = world (\<lambda>_. None) (\<lambda>_. None) 0 as"

lemma new_pair_connected_witness:
  "made_or_none 4 0 (\<lambda>_. None) (\<lambda>_. None) (BIO_new_bio_pair 4 0 (empty_world (replicate 6 (Some (\<lambda>_. 7))))) \<and>
   made_or_none 4 0 (\<lambda>_. None) (\<lambda>_. None) (BIO_new_bio_pair 4 0 (empty_world (replicate 5 (Some (\<lambda>_. 7)))))"
  using new_pair_connected [of "empty_world (replicate 6 (Some (\<lambda>_. 7)))" 4 0]
    new_pair_connected [of "empty_world (replicate 5 (Some (\<lambda>_. 7)))" 4 0]
  by (simp add: empty_world_def)

section \<open>Freeing\<close>

text \<open>An end whose peer is gone.\<close>

definition orphan :: "bio_world \<Rightarrow> nat \<Rightarrow> bool" where
  "orphan w b \<longleftrightarrow> (case bios w b of None \<Rightarrow> False
     | Some y \<Rightarrow> b_method y = Some methods_biop \<and> \<not> b_init y \<and>
         (case b_ptr y of PairPtr q \<Rightarrow> bb_peer q = None \<and> bb_len q = 0 \<and> bb_offset q = 0 | _ \<Rightarrow> False))"

text \<open>No other reference is held and no chain hangs on the \<open>BIO\<close>.\<close>

definition sole :: "bio_world \<Rightarrow> nat \<Rightarrow> bool" where
  "sole w a \<longleftrightarrow> a < next_addr w \<and> (case bios w a of None \<Rightarrow> False | Some x \<Rightarrow> b_references x = 1 \<and> b_next x = None)"

lemma free_end:
  assumes "connected a b w" and "sole w a"
  shows "\<exists>w'. BIO_free (Some a) w = (Ret True, w') \<and> bios w' a = None \<and> orphan w' b \<and> only_at {a, b} w w' \<and> (sole w b \<longrightarrow> sole w' b)"
proof -
  obtain x p y q where x: "end_of w a x p" and y: "end_of w b y q" and p: "end_ok p" "bb_peer p = Some b"
    and q: "end_ok q" "bb_peer q = Some a" and ne: "a \<noteq> b"
    using assms(1) by (rule connectedE)
  obtain n where n: "next_addr w = Suc n"
    using assms(2) by (cases "next_addr w") (auto simp: sole_def)
  have x1: "b_references x = 1" "b_next x = None"
    using assms(2) x by (simp_all add: sole_def end_of_def)
  note run = BIO_free_def n run_at CRYPTO_refcount_dec_and_test_zero_def CRYPTO_REFCOUNT_MAX_def BIO_pop_def destroy_def
    bio_free_def bio_destroy_pair_def attempt_def put_bio_def
  from x y p q ne x1 show ?thesis
    by (auto simp: run end_of_def end_ok_def orphan_def sole_def only_at_def)
qed

lemma free_orphan:
  assumes "orphan w b" and "sole w b"
  shows "\<exists>w'. BIO_free (Some b) w = (Ret True, w') \<and> bios w' b = None \<and> only_at {b} w w'"
proof -
  obtain n where n: "next_addr w = Suc n"
    using assms(2) by (cases "next_addr w") (auto simp: sole_def)
  note run = BIO_free_def n run_at CRYPTO_refcount_dec_and_test_zero_def CRYPTO_REFCOUNT_MAX_def BIO_pop_def destroy_def
    bio_free_def attempt_def put_bio_def
  from assms show ?thesis
    by (auto simp: run orphan_def sole_def only_at_def split: option.splits bio_ptr.splits)
qed

lemma orphan_calls: "orphan w b \<Longrightarrow> BIO_read (Some b) null n w = (Ret (-2, []), w) \<and> BIO_write (Some b) inp n w = (Ret (-2), w)"
  by (auto simp: orphan_def BIO_read_def BIO_write_def run_at split: option.splits bio_ptr.splits)

lemma only_at_trans: "only_at A w w' \<Longrightarrow> only_at B w' w'' \<Longrightarrow> B \<subseteq> A \<Longrightarrow> only_at A w w''"
  by (fastforce simp: only_at_def)

text \<open>C16: Freeing both ends of a pair.\<close>

theorem pair_is_freed:
  assumes "connected a b w" and "sole w a" and "sole w b"
  shows "\<exists>w1 w2. BIO_free (Some a) w = (Ret True, w1) \<and> orphan w1 b \<and>
    BIO_read (Some b) False n w1 = (Ret (-2, []), w1) \<and> BIO_write (Some b) inp n w1 = (Ret (-2), w1) \<and>
    BIO_free (Some b) w1 = (Ret True, w2) \<and> bios w2 a = None \<and> bios w2 b = None \<and> only_at {a, b} w w2"
proof -
  obtain w1 where w1: "BIO_free (Some a) w = (Ret True, w1)" "bios w1 a = None" "orphan w1 b" "only_at {a, b} w w1" "sole w1 b"
    using free_end [OF assms(1,2)] assms(3) by blast
  obtain w2 where w2: "BIO_free (Some b) w1 = (Ret True, w2)" "bios w2 b = None" "only_at {b} w1 w2"
    using free_orphan [OF w1(3,5)] by blast
  have "only_at {a, b} w w2"
    by (rule only_at_trans [OF w1(4) w2(3)]) simp
  moreover have "bios w2 a = None"
    using w1(2) w2(2,3) by (auto simp: only_at_def) metis
  ultimately show ?thesis
    using w1 w2 orphan_calls by blast
qed

text \<open>A pair with four bytes on either side, for the examples.\<close>

definition small_pair :: bio_world where
  "small_pair = snd (BIO_new_bio_pair 4 4 (empty_world (replicate 6 (Some (\<lambda>_. 0)))))"

lemma small_pair: "connected 0 1 small_pair" "sole small_pair 0" "sole small_pair 1"
  by (simp_all add: small_pair_def) code_simp+

lemma pair_is_freed_witness:
  "\<exists>w1 w2. BIO_free (Some 0) small_pair = (Ret True, w1) \<and> orphan w1 1 \<and>
    BIO_read (Some 1) False 2 w1 = (Ret (-2, []), w1) \<and> BIO_write (Some 1) [5, 6] 2 w1 = (Ret (-2), w1) \<and>
    BIO_free (Some 1) w1 = (Ret True, w2) \<and> bios w2 0 = None \<and> bios w2 1 = None \<and> only_at {0, 1} small_pair w2"
  by (rule pair_is_freed [OF small_pair])

end
