(* ===== verification/Bio_Channel.thy ===== *)
theory Bio_Channel
  imports Bio_Life
begin

text \<open>
  The order of the bytes: whatever is written to a \<open>BIO\<close> and read from it, by calls in any order, comes out in the order in
  which it went in, with nothing lost and nothing repeated. A byte queue is an interface with two providers here, a connected pair,
  for each of its directions, and a writable memory \<open>BIO\<close>.
\<close>

unbundle bit_operations_syntax

section \<open>Runs\<close>

inductive run :: "('w \<Rightarrow> 'e \<Rightarrow> 'w \<Rightarrow> bool) \<Rightarrow> 'w \<Rightarrow> 'e list \<Rightarrow> 'w \<Rightarrow> bool"
  for step :: "'w \<Rightarrow> 'e \<Rightarrow> 'w \<Rightarrow> bool" where
  run_Nil [intro]: "run step w [] w"
| run_Cons [intro]: "step w e w' \<Longrightarrow> run step w' es w'' \<Longrightarrow> run step w (e # es) w''"

locale byte_queue =
  fixes step :: "'w \<Rightarrow> 'e \<Rightarrow> 'w \<Rightarrow> bool"
    and inv :: "'w \<Rightarrow> bool"
    and content :: "'w \<Rightarrow> byte list"
    and put :: "'e \<Rightarrow> byte list"
    and got :: "'e \<Rightarrow> byte list"
  assumes step_inv: "inv w \<Longrightarrow> step w e w' \<Longrightarrow> inv w'"
    and step_content: "inv w \<Longrightarrow> step w e w' \<Longrightarrow> content w @ put e = got e @ content w'"
begin

lemma run_inv: "run step w es w' \<Longrightarrow> inv w \<Longrightarrow> inv w'"
  by (induction rule: run.induct) (auto dest: step_inv)

lemma fifo:
  "run step w es w' \<Longrightarrow> inv w \<Longrightarrow> content w @ concat (map put es) = concat (map got es) @ content w'"
proof (induction rule: run.induct)
  case (run_Cons w e w' es w'')
  from step_content [OF run_Cons.prems run_Cons.hyps(1)]
  have "content w @ put e @ concat (map put es) = got e @ content w' @ concat (map put es)"
    by (metis append.assoc)
  with run_Cons.IH [OF step_inv [OF run_Cons.prems run_Cons.hyps(1)]] show ?case
    by simp
qed simp

text \<open>What has been received is at any time a prefix of what was there and what has been sent.\<close>

lemma received_prefix:
  assumes "run step w es w'" and "inv w"
  shows "take (length (concat (map got es))) (content w @ concat (map put es)) = concat (map got es)"
  by (simp add: fifo [OF assms])

end

section \<open>The calls\<close>

datatype bio_event = Wrote nat "byte list" | Got nat "byte list" | Command nat bio_cmd

text \<open>The calls for the objects at \<open>A\<close>; the buffers of the caller are as long as the lengths that go with them.\<close>

inductive io_step :: "nat set \<Rightarrow> bio_world \<Rightarrow> bio_event \<Rightarrow> bio_world \<Rightarrow> bool"
  for A :: "nat set" where
  io_write: "x \<in> A \<Longrightarrow> n \<le> INT_MAX \<Longrightarrow> nat n \<le> length inp \<Longrightarrow> BIO_write (Some x) inp n w = (Ret r, w') \<Longrightarrow>
    io_step A w (Wrote x (take (nat r) inp)) w'"
| io_read: "x \<in> A \<Longrightarrow> n \<le> INT_MAX \<Longrightarrow> BIO_read (Some x) False n w = (Ret (r, data), w') \<Longrightarrow> io_step A w (Got x data) w'"
| io_gets: "x \<in> A \<Longrightarrow> n \<le> INT_MAX \<Longrightarrow> BIO_gets (Some x) n w = (Ret (r, data), w') \<Longrightarrow>
    io_step A w (Got x (take (nat r) data)) w'"
| io_command: "x \<in> A \<Longrightarrow> BIO_ctrl (Some x) cmd larg parg w = (Ret r, w') \<Longrightarrow> io_step A w (Command x cmd) w'"

fun sent :: "nat \<Rightarrow> bio_event \<Rightarrow> byte list" where
  "sent a (Wrote x bs) = (if x = a then bs else [])"
| "sent a e = []"

fun received :: "nat \<Rightarrow> bio_event \<Rightarrow> byte list" where
  "received a (Got x bs) = (if x = a then bs else [])"
| "received a e = []"

section \<open>Connected pairs\<close>

lemma put_bytes_queue: "put_bytes bs c = (r, c') \<Longrightarrow> queue c' = queue c @ take (nat r) bs \<and> capacity c' = capacity c \<and> r \<le> int (length bs)"
  by (auto simp: put_bytes_def Let_def split: if_splits)

lemma take_bytes_queue: "take_bytes n c = ((r, data), c') \<Longrightarrow> queue c = data @ queue c' \<and> capacity c' = capacity c"
  by (auto simp: take_bytes_def Let_def split: if_splits)

text \<open>How a call at \<open>a\<close> changes the two queues.\<close>

definition moves :: "nat \<Rightarrow> nat \<Rightarrow> byte list \<Rightarrow> byte list \<Rightarrow> bio_world \<Rightarrow> bio_world \<Rightarrow> bool" where
  "moves a b s t w w' \<longleftrightarrow> connected a b w' \<and> queue (outgoing a w) @ s = queue (outgoing a w') \<and>
     queue (outgoing b w) = t @ queue (outgoing b w') \<and>
     capacity (outgoing a w') = capacity (outgoing a w) \<and> capacity (outgoing b w') = capacity (outgoing b w)"

lemma moves_refl: "connected a b w \<Longrightarrow> moves a b [] [] w w"
  by (simp add: moves_def)

lemma write_moves:
  assumes "connected a b w" and "n \<le> INT_MAX" and "nat n \<le> length inp" and "BIO_write (Some a) inp n w = (Ret r, w')"
  shows "moves a b (take (nat r) inp) [] w w'"
proof (cases "0 < n")
  case True
  obtain r1 c where c: "put_bytes (take (nat n) inp) (outgoing a w) = (r1, c)"
    by fastforce
  have "length (take (nat n) inp) = nat n"
    using assms(3) by simp
  with put_bytes_queue [OF c] True have "r1 \<le> n" and q: "queue c = queue (outgoing a w) @ take (nat r1) (take (nat n) inp)"
    and "capacity c = capacity (outgoing a w)"
    by simp_all
  then have "queue c = queue (outgoing a w) @ take (nat r1) inp" and "capacity c = capacity (outgoing a w)"
    by (simp_all add: min_absorb1 nat_mono)
  with BIO_write_pair [OF assms(1) True assms(2,3) c] assms(4) show ?thesis
    by (auto simp: moves_def)
next
  case False
  obtain x p where "end_of w a x p"
    using assms(1) by (rule connectedE)
  with False assms(1,4) show ?thesis
    by (auto simp: BIO_write_def run_at end_of_def moves_refl)
qed

lemma read_moves:
  assumes "connected a b w" and "n \<le> INT_MAX" and "BIO_read (Some a) False n w = (Ret (r, data), w')"
  shows "moves a b [] data w w'"
proof (cases "0 < n")
  case True
  obtain r1 c where c: "take_bytes (nat n) (outgoing b w) = (r1, c)"
    by fastforce
  from BIO_read_pair [OF assms(1) True assms(2) c] assms(3) take_bytes_queue c show ?thesis
    by (cases r1) (auto simp: moves_def)
next
  case False
  obtain x p where "end_of w a x p"
    using assms(1) by (rule connectedE)
  with False assms(1,3) show ?thesis
    by (auto simp: BIO_read_def run_at end_of_def moves_refl)
qed

lemma gets_moves:
  assumes "connected a b w" and "BIO_gets (Some a) n w = (Ret (r, data), w')"
  shows "moves a b [] (take (nat r) data) w w'"
proof -
  obtain x p where "end_of w a x p"
    using assms(1) by (rule connectedE)
  with assms show ?thesis
    by (auto simp: BIO_gets_def run_at end_of_def moves_refl bgets_def)
qed

lemma get_pair_keeps: "(Ret r, w') = bnd (get_pair x) (\<lambda>p. ret (f p)) w \<Longrightarrow> w' = w"
  by (auto simp: get_pair_def get_bio_def bnd_def split: option.splits bio_ptr.splits)

lemma command_moves:
  assumes "connected a b w" and "BIO_ctrl (Some a) cmd larg parg w = (Ret r, w')"
  shows "moves a b [] [] w w'"
proof -
  obtain x p y q where x: "end_of w a x p" and y: "end_of w b y q" and p: "end_ok p" "bb_peer p = Some b"
    and q: "end_ok q" "bb_peer q = Some a" and ne: "a \<noteq> b"
    using assms(1) by (rule connectedE)
  have upd: "moves a b [] [] w (w\<lparr>bios := (bios w)(a \<mapsto> x')\<rparr>)"
    if "b_ptr x' = PairPtr p'" "b_method x' = b_method x" "b_init x' = b_init x" "end_ok p'" "bb_peer p' = bb_peer p"
      "queue (channel p') = queue (channel p)" "bb_size p' = bb_size p" for x' p'
  proof -
    have "pair_of (w\<lparr>bios := (bios w)(a \<mapsto> x')\<rparr>) a = Some p'" "pair_of (w\<lparr>bios := (bios w)(a \<mapsto> x')\<rparr>) b = Some q"
      using that x ne end_of_pair [OF y] by (simp_all add: pair_of_def end_of_def)
    with that ne p q end_of_pair [OF x] end_of_pair [OF y] show ?thesis
      by (simp add: moves_def connected_def outgoing_def channel_def)
  qed
  have "end_ok (p\<lparr>bb_request := 0\<rparr>)" "end_ok (p\<lparr>bb_closed := True\<rparr>)" "queue (channel (p\<lparr>bb_request := 0\<rparr>)) = queue (channel p)"
    "queue (channel (p\<lparr>bb_closed := True\<rparr>)) = queue (channel p)"
    using p(1) by (cases "bb_buf p"; simp add: end_ok_def ring_ok_def channel_def pending_def)+
  note ends = this
  have "BIO_ctrl (Some a) cmd larg parg w = bio_ctrl a cmd larg parg w"
    using x by (simp add: BIO_ctrl_def run_at end_of_def ctrl_def)
  with assms show ?thesis
    using x y p(1) q(1)
    by (cases cmd) (auto simp: bio_ctrl_def run_at end_of_def p(2) moves_refl upd ends split: option.splits dest!: get_pair_keeps)
qed

text \<open>\<open>BIO_write\<close> and its kin, at either end.\<close>

lemma step_moves:
  assumes "io_step {a, b} w e w'" and "connected a b w"
  shows "moves a b (sent a e) (received a e) w w' \<and> received b e = [] \<and> sent b e = [] \<or>
    moves b a (sent b e) (received b e) w w' \<and> received a e = [] \<and> sent a e = []"
proof -
  note con = assms(2) connected_sym [OF assms(2)]
  have ne: "a \<noteq> b"
    using con by (simp add: connected_def)
  from assms(1) show ?thesis
  proof cases
    case (io_write x n inp r)
    with con ne show ?thesis
      by (auto dest: write_moves)
  next
    case (io_read x n r data)
    with con ne show ?thesis
      by (auto dest: read_moves)
  next
    case (io_gets x n r data)
    with con ne show ?thesis
      by (auto dest: gets_moves)
  next
    case (io_command x cmd larg parg r)
    with con ne show ?thesis
      by (auto dest: command_moves)
  qed
qed

lemma connected_bound: "connected a b w \<Longrightarrow> length (queue (outgoing a w)) \<le> capacity (outgoing a w)"
  by (erule connectedE) (simp add: outgoing_def channel_def end_of_pair end_ok_def length_pending, simp add: ring_ok_def)

interpretation pair_queue: byte_queue "io_step {a, b}" "\<lambda>w. connected a b w \<and> capacity (outgoing a w) = k"
  "\<lambda>w. queue (outgoing a w)" "sent a" "received b" for a b k
proof unfold_locales
  fix w e w'
  assume inv: "connected a b w \<and> capacity (outgoing a w) = k" and "io_step {a, b} w e w'"
  then have "moves a b (sent a e) (received a e) w w' \<and> received b e = [] \<or> moves b a (sent b e) (received b e) w w' \<and> sent a e = []"
    using step_moves by blast
  then show "connected a b w' \<and> capacity (outgoing a w') = k"
    and "queue (outgoing a w) @ sent a e = received b e @ queue (outgoing a w')"
    using inv by (auto simp: moves_def dest: connected_sym)
qed

text \<open>C13: The calls on a connected pair are the operations of two queues, one for each direction. A write takes as many bytes as there is
room for, and a read gives as many as there are; with no room, or no bytes, the call asks for a retry, unless the writing
side is shut down. Nothing else is changed.\<close>

theorem pair_is_two_queues:
  assumes "connected a b w" and "0 < n" and "n \<le> INT_MAX" and "nat n \<le> length inp"
    and "put_bytes (take (nat n) inp) (outgoing a w) = (r, c)" and "take_bytes (nat n) (outgoing b w) = ((k, data), d)"
  shows "(\<exists>w'. BIO_write (Some a) inp n w = (Ret r, w') \<and> connected a b w' \<and>
      outgoing a w' = c \<and> outgoing b w' = outgoing b w \<and> only_at {a} w w' \<and>
      retry_of w' a = (if r = -1 \<and> \<not> shut c then BIO_FLAGS_WRITE OR BIO_FLAGS_SHOULD_RETRY else 0)) \<and>
    (\<exists>w'. BIO_read (Some a) False n w = (Ret (k, data), w') \<and> connected a b w' \<and>
      outgoing a w' = outgoing a w \<and> outgoing b w' = d \<and> only_at {a, b} w w' \<and>
      retry_of w' a = (if k = -1 then BIO_FLAGS_READ OR BIO_FLAGS_SHOULD_RETRY else 0))"
  using BIO_write_pair [OF assms(1-5)] BIO_read_pair [OF assms(1-3,6)] by auto

lemma small_pair_channels:
  "outgoing 0 small_pair = \<lparr>queue = [], capacity = 4, shut = False\<rparr>" "outgoing 1 small_pair = \<lparr>queue = [], capacity = 4, shut = False\<rparr>"
  by (simp_all add: small_pair_def) code_simp+

text \<open>Six bytes for a room of four, and nothing to read.\<close>

lemma pair_is_two_queues_witness:
  "(\<exists>w'. BIO_write (Some 0) [1, 2, 3, 4, 5, 6] 6 small_pair = (Ret 4, w') \<and> connected 0 1 w' \<and>
      outgoing 0 w' = \<lparr>queue = [1, 2, 3, 4], capacity = 4, shut = False\<rparr> \<and> outgoing 1 w' = outgoing 1 small_pair \<and>
      only_at {0} small_pair w' \<and> retry_of w' 0 = 0) \<and>
    (\<exists>w'. BIO_read (Some 0) False 6 small_pair = (Ret (-1, []), w') \<and> connected 0 1 w' \<and>
      outgoing 0 w' = outgoing 0 small_pair \<and> outgoing 1 w' = \<lparr>queue = [], capacity = 4, shut = False\<rparr> \<and>
      only_at {0, 1} small_pair w' \<and> retry_of w' 0 = BIO_FLAGS_READ OR BIO_FLAGS_SHOULD_RETRY)"
  using pair_is_two_queues [OF small_pair(1), of 6 "[1, 2, 3, 4, 5, 6]" 4 "\<lparr>queue = [1, 2, 3, 4], capacity = 4, shut = False\<rparr>" "-1" "[]"
      "\<lparr>queue = [], capacity = 4, shut = False\<rparr>"]
  by (simp add: INT_MAX_def small_pair_channels put_bytes_def take_bytes_def del: One_nat_def)

text \<open>C14: Whatever calls are made on the two ends of a pair, in any order, reads, writes and commands: the bytes that have been received
at one end, with those that still wait, are those that have been sent at the other, in order, and no more wait than the buffer holds.\<close>

theorem pair_is_fifo:
  assumes "connected a b w" and "run (io_step {a, b}) w es w'"
  shows "connected a b w' \<and>
    queue (outgoing a w) @ concat (map (sent a) es) = concat (map (received b) es) @ queue (outgoing a w') \<and>
    queue (outgoing b w) @ concat (map (sent b) es) = concat (map (received a) es) @ queue (outgoing b w') \<and>
    length (queue (outgoing a w')) \<le> capacity (outgoing a w) \<and> length (queue (outgoing b w')) \<le> capacity (outgoing b w)"
proof -
  have rev: "connected b a w" "run (io_step {b, a}) w es w'"
    using assms by (auto simp: insert_commute dest: connected_sym)
  have "connected a b w' \<and> capacity (outgoing a w') = capacity (outgoing a w)"
    and "connected b a w' \<and> capacity (outgoing b w') = capacity (outgoing b w)"
    using pair_queue.run_inv assms rev by blast+
  then show ?thesis
    using pair_queue.fifo [OF assms(2)] pair_queue.fifo [OF rev(2)] assms(1) rev(1) connected_bound by metis
qed

text \<open>Three bytes go in and two come out.\<close>

lemma pair_is_fifo_witness:
  "\<exists>w'. connected 0 1 w' \<and> queue (outgoing 0 w') = [3]"
proof -
  obtain w1 where w1: "BIO_write (Some 0) [1, 2, 3] 3 small_pair = (Ret 3, w1)" "connected 0 1 w1"
    "outgoing 0 w1 = \<lparr>queue = [1, 2, 3], capacity = 4, shut = False\<rparr>"
    using BIO_write_pair [OF small_pair(1), of 3 "[1, 2, 3]" 3 "\<lparr>queue = [1, 2, 3], capacity = 4, shut = False\<rparr>"]
    by (auto simp: INT_MAX_def small_pair_channels put_bytes_def)
  obtain w2 where w2: "BIO_read (Some 1) False 2 w1 = (Ret (2, [1, 2]), w2)"
    using BIO_read_pair [OF connected_sym [OF w1(2)], of 2 "(2, [1, 2])" "\<lparr>queue = [3], capacity = 4, shut = False\<rparr>"]
    by (auto simp: INT_MAX_def w1(3) take_bytes_def)
  have "io_step {0, 1} small_pair (Wrote 0 [1, 2, 3]) w1" and "io_step {0, 1} w1 (Got 1 [1, 2]) w2"
    using io_write [of 0 "{0, 1}", OF _ _ _ w1(1)] io_read [of 1 "{0, 1}", OF _ _ w2] by (simp_all add: INT_MAX_def)
  then have "run (io_step {0, 1}) small_pair [Wrote 0 [1, 2, 3], Got 1 [1, 2]] w2"
    by blast
  from pair_is_fifo [OF small_pair(1) this] show ?thesis
    by (auto simp: small_pair_channels)
qed

end
