(* ===== verification/Bio_Mem.thy ===== *)
theory Bio_Mem
  imports Bio_Channel
begin

text \<open>
  What the memory \<open>BIO\<close>s of \<open>Bio\<close> promise: a writable one is a queue of bytes without a bound but the largest \<open>int\<close>, and a
  read-only one gives its bytes in order.
\<close>

unbundle bit_operations_syntax

section \<open>The state of a memory BIO\<close>

definition memory_of :: "bio_world \<Rightarrow> nat \<Rightarrow> (bio \<times> byte list \<times> buf_mem) option" where
  "memory_of w a = (case bios w a of None \<Rightarrow> None
     | Some x \<Rightarrow> (case b_ptr x of
         BufPtr m \<Rightarrow> (if b_method x = Some mem_method \<and> b_init x then map_option (\<lambda>mem. (x, mem)) (bufs w m) else None)
       | _ \<Rightarrow> None))"

text \<open>\<open>eof\<close> is what a read returns when there is nothing left.\<close>

definition mem_ok :: "nat \<Rightarrow> bool \<Rightarrow> int \<Rightarrow> bio_world \<Rightarrow> bool" where
  "mem_ok a ro eof w \<longleftrightarrow> (case memory_of w a of None \<Rightarrow> False
     | Some (x, before, b) \<Rightarrow> rdonly x = ro \<and> b_num x = eof \<and> buf_ok b \<and> int (length (bm_data b)) \<le> INT_MAX)"

definition mem_left :: "nat \<Rightarrow> bio_world \<Rightarrow> byte list" where
  "mem_left a w = (case memory_of w a of None \<Rightarrow> [] | Some (x, before, b) \<Rightarrow> bm_data b)"

definition mem_at :: "bio_world \<Rightarrow> nat \<Rightarrow> bio \<Rightarrow> nat \<Rightarrow> byte list \<Rightarrow> buf_mem \<Rightarrow> bool" where
  "mem_at w a x m before b \<longleftrightarrow> bios w a = Some x \<and> b_ptr x = BufPtr m \<and> b_method x = Some mem_method \<and> b_init x \<and>
     bufs w m = Some (before, b)"

lemma memory_of_at: "mem_at w a x m before b \<Longrightarrow> memory_of w a = Some (x, before, b)"
  by (simp add: mem_at_def memory_of_def)

lemma mem_okE:
  assumes "mem_ok a ro eof w"
  obtains x m before b where "mem_at w a x m before b" and "mem_left a w = bm_data b" and "rdonly x = ro" and "b_num x = eof"
    and "buf_ok b" and "int (length (bm_data b)) \<le> INT_MAX"
  using assms
  by (auto simp: mem_ok_def memory_of_def mem_at_def mem_left_def split: option.splits bio_ptr.splits if_splits)

lemma mem_okI:
  assumes "mem_at w a x m before b" and "rdonly x = ro" and "b_num x = eof" and "buf_ok b" and "int (length (bm_data b)) \<le> INT_MAX"
  shows "mem_ok a ro eof w" and "mem_left a w = bm_data b"
  using assms by (simp_all add: mem_ok_def mem_left_def memory_of_at)

lemma get_buf_at: "bufs w m = Some mem \<Longrightarrow> get_buf m w = (Ret mem, w)"
  by (simp add: get_buf_def)

lemma buf_of_at: "b_ptr x = BufPtr m \<Longrightarrow> buf_of x w = (Ret m, w)"
  by (simp add: buf_of_def)

lemma put_buf_at: "put_buf m mem w = (Ret (), w\<lparr>bufs := (bufs w)(m := mem)\<rparr>)"
  by (simp add: put_buf_def)

lemmas mem_run = run_at get_buf_at buf_of_at put_buf_at

lemmas retry_values = kRetryFlags_def BIO_FLAGS_RWS_def BIO_FLAGS_READ_def BIO_FLAGS_WRITE_def BIO_FLAGS_IO_SPECIAL_def
  BIO_FLAGS_SHOULD_RETRY_def BIO_FLAGS_MEM_RDONLY_def

lemma flags_keep_rdonly [simp]:
  "rdonly (x\<lparr>b_flags := b_flags x AND NOT kRetryFlags, b_retry_reason := z\<rparr>) = rdonly x"
  "rdonly (x\<lparr>b_retry_reason := z, b_flags := b_flags x AND NOT kRetryFlags OR (BIO_FLAGS_READ OR BIO_FLAGS_SHOULD_RETRY)\<rparr>) = rdonly x"
  "rdonly (x\<lparr>b_num_read := nr\<rparr>) = rdonly x"
  "rdonly (x\<lparr>b_num_write := nr\<rparr>) = rdonly x"
proof -
  have and_keeps: "(f AND NOT kRetryFlags) AND BIO_FLAGS_MEM_RDONLY = f AND BIO_FLAGS_MEM_RDONLY" for f
  proof -
    have "NOT kRetryFlags AND BIO_FLAGS_MEM_RDONLY = BIO_FLAGS_MEM_RDONLY"
      by (simp add: retry_values)
    then show ?thesis
      by (simp add: and.assoc)
  qed
  have "(b_flags x AND NOT kRetryFlags) AND BIO_FLAGS_MEM_RDONLY = b_flags x AND BIO_FLAGS_MEM_RDONLY"
    "(b_flags x AND NOT kRetryFlags OR (BIO_FLAGS_READ OR BIO_FLAGS_SHOULD_RETRY)) AND BIO_FLAGS_MEM_RDONLY = b_flags x AND BIO_FLAGS_MEM_RDONLY"
    using and_keeps [of "b_flags x"] by (simp_all add: bit.conj_disj_distrib2) (simp_all add: retry_values)
  then show "rdonly (x\<lparr>b_flags := b_flags x AND NOT kRetryFlags, b_retry_reason := z\<rparr>) = rdonly x"
    "rdonly (x\<lparr>b_retry_reason := z, b_flags := b_flags x AND NOT kRetryFlags OR (BIO_FLAGS_READ OR BIO_FLAGS_SHOULD_RETRY)\<rparr>) = rdonly x"
    by (simp_all add: rdonly_def)
qed (simp_all add: rdonly_def)

section \<open>Reading and writing\<close>

text \<open>A read of \<open>n\<close> bytes gives as many as there are.\<close>

lemma mem_read_run:
  assumes "mem_ok a ro eof w" and n: "0 < n" "n \<le> INT_MAX"
  defines "k \<equiv> min (nat n) (length (mem_left a w))"
  shows "\<exists>w'. mem_read a False n w = (Ret (if k = 0 then eof else int k, take k (mem_left a w)), w') \<and>
    mem_ok a ro eof w' \<and> mem_left a w' = drop k (mem_left a w) \<and> allocs w' = allocs w"
proof -
  obtain x m before b where at: "mem_at w a x m before b" and ok: "mem_left a w = bm_data b" "rdonly x = ro" "b_num x = eof"
    "buf_ok b" "int (length (bm_data b)) \<le> INT_MAX"
    using assms(1) by (rule mem_okE)
  let ?x = "x\<lparr>b_flags := b_flags x AND NOT kRetryFlags, b_retry_reason := 0\<rparr>"
  show ?thesis
  proof (cases "bm_data b = []")
    case True
    let ?y = "x\<lparr>b_retry_reason := 0, b_flags := b_flags x AND NOT kRetryFlags OR (BIO_FLAGS_READ OR BIO_FLAGS_SHOULD_RETRY)\<rparr>"
    let ?w = "w\<lparr>bios := (bios w)(a \<mapsto> (if eof \<noteq> 0 then ?y else ?x))\<rparr>"
    have run: "mem_read a False n w = (Ret (eof, []), ?w)"
      using at n True ok by (simp add: mem_read_def mem_at_def mem_run INT_MAX_def)
    have "mem_at ?w a (if eof \<noteq> 0 then ?y else ?x) m before b" "rdonly (if eof \<noteq> 0 then ?y else ?x) = ro"
      "b_num (if eof \<noteq> 0 then ?y else ?x) = eof"
      using at ok by (simp_all add: mem_at_def)
    note mem_okI [OF this ok(4,5)]
    with run True ok(1) show ?thesis
      by (simp add: k_def)
  next
    case False
    have k: "0 < k" "k \<le> length (bm_data b)" "k = nat (if int (length (bm_data b)) < INT_MAX \<and> int (length (bm_data b)) < n then int (length (bm_data b)) else n)"
      using False n ok by (auto simp: k_def)
    let ?w = "w\<lparr>bios := (bios w)(a \<mapsto> ?x), bufs := (bufs w)(m \<mapsto> (if ro then before @ take k (bm_data b) else before, b\<lparr>bm_data := drop k (bm_data b)\<rparr>))\<rparr>"
    have run: "mem_read a False n w = (Ret (int k, take k (bm_data b)), ?w)"
      using at n k False ok by (simp add: mem_read_def mem_at_def mem_run)
    have at': "mem_at ?w a ?x m (if ro then before @ take k (bm_data b) else before) (b\<lparr>bm_data := drop k (bm_data b)\<rparr>)" "rdonly ?x = ro"
      "b_num ?x = eof" "buf_ok (b\<lparr>bm_data := drop k (bm_data b)\<rparr>)" "int (length (bm_data (b\<lparr>bm_data := drop k (bm_data b)\<rparr>))) \<le> INT_MAX"
      using at ok by (simp_all add: mem_at_def buf_ok_def)
    from mem_okI [OF at'] run k(1) ok(1) show ?thesis
      by simp
  qed
qed

lemma attempt_alloc: "\<exists>ans as. attempt (alloc n) w = (Ret ans, w\<lparr>allocs := as\<rparr>)"
proof (cases "allocs w")
  case Nil
  then have "w\<lparr>allocs := []\<rparr> = w"
    by (metis bio_world.surjective bio_world.update_convs(4))
  with Nil show ?thesis
    by (auto simp: attempt_def alloc_def intro!: exI [of _ None] exI [of _ "[]"])
next
  case (Cons x xs)
  then show ?thesis
    by (cases x) (auto simp: attempt_def alloc_def)
qed

lemma grow_clean_run:
  assumes "bufs w m = Some (before, b)" and "buf_ok b"
  shows "\<exists>r b' as. grow_clean m len w = (Ret r, w\<lparr>allocs := as, bufs := (bufs w)(m \<mapsto> (before, b'))\<rparr>) \<and> buf_ok b' \<and>
    (case r of None \<Rightarrow> b' = b | Some l \<Rightarrow> l = len \<and>
       bm_data b' = take (unat len) (bm_data b @ replicate (unat len - length (bm_data b)) 0))"
proof -
  obtain ans as where ans: "attempt (alloc 0) w = (Ret ans, w\<lparr>allocs := as\<rparr>)"
    using attempt_alloc by blast
  have grow: "case BUF_MEM_grow (\<lambda>_. ans \<noteq> None) len b of
      (Ret l, b') \<Rightarrow> l = len \<and> buf_ok b' \<and> bm_data b' = take (unat len) (bm_data b @ replicate (unat len - length (bm_data b)) 0)
    | (Fail, b') \<Rightarrow> b' = b | (Stuck, _) \<Rightarrow> False"
    using buf_mem_operations [OF assms(2), of "[]", THEN conjunct2] by simp
  show ?thesis
  proof (cases "BUF_MEM_grow (\<lambda>_. ans \<noteq> None) len b" rule: res_cases_prod)
    case (1 l b')
    with grow ans assms(1) show ?thesis
      by (intro exI [of _ "Some l"] exI [of _ b'] exI [of _ as]) (simp add: grow_clean_def mem_run BUF_MEM_grow_clean_def)
  next
    case (2 b')
    with grow ans assms show ?thesis
      by (intro exI [of _ None] exI [of _ b] exI [of _ as]) (simp add: grow_clean_def mem_run BUF_MEM_grow_clean_def)
  next
    case (3 b')
    with grow show ?thesis
      by simp
  qed
qed

text \<open>A write is done in full, or not at all.\<close>

lemma mem_write_run:
  assumes "mem_ok a False eof w" and n: "0 < n" "n \<le> INT_MAX" "nat n \<le> length inp"
  shows "\<exists>r w'. mem_write a inp n w = (Ret r, w') \<and> (r = n \<or> r = -1) \<and>
    mem_ok a False eof w' \<and> mem_left a w' = mem_left a w @ take (nat r) inp"
proof -
  obtain x m before b where at: "mem_at w a x m before b" and ok: "mem_left a w = bm_data b" "rdonly x = False" "b_num x = eof"
    "buf_ok b" "int (length (bm_data b)) \<le> INT_MAX"
    using assms(1) by (rule mem_okE)
  let ?x = "x\<lparr>b_flags := b_flags x AND NOT kRetryFlags, b_retry_reason := 0\<rparr>" and ?l = "length (bm_data b)"
  let ?w = "w\<lparr>bios := (bios w)(a \<mapsto> ?x)\<rparr>"
  have len: "to_int ?l = int ?l"
    using ok(5) by (rule to_int_nat)
  note run = mem_write_def mem_at_def mem_run len
  have at': "mem_at (?w\<lparr>allocs := as, bufs := (bufs w)(m \<mapsto> (before, b'))\<rparr>) a ?x m before b'" "rdonly ?x = False" "b_num ?x = eof" for as b'
    using at ok by (simp_all add: mem_at_def)
  show ?thesis
  proof (cases "INT_MAX - int ?l < n")
    case True
    have "mem_at ?w a ?x m before b" "rdonly ?x = False" "b_num ?x = eof"
      using at ok by (simp_all add: mem_at_def)
    from mem_okI [OF this ok(4,5)] True at ok(1,2) show ?thesis
      by (auto simp: run)
  next
    case False
    define k where "k = ?l + nat n"
    have k: "int ?l + n = int k" "int k \<le> INT_MAX"
      using False n by (simp_all add: k_def)
    then have k64: "unat (of_nat k :: u64) = k"
      by (intro unat_of_nat_u64) (simp add: INT_MAX_def)
    have w: "bufs ?w m = Some (before, b)"
      using at by (simp add: mem_at_def)
    obtain r b' as where grow: "grow_clean m (of_nat k) ?w = (Ret r, ?w\<lparr>allocs := as, bufs := (bufs ?w)(m \<mapsto> (before, b'))\<rparr>)"
      and b': "buf_ok b'" "case r of None \<Rightarrow> b' = b | Some l \<Rightarrow> l = of_nat k \<and> bm_data b' = take k (bm_data b @ replicate (k - ?l) 0)"
      using grow_clean_run [OF w ok(4)] k64 by metis
    show ?thesis
    proof (cases r)
      case None
      with b' have [simp]: "b' = b"
        by simp
      from mem_okI [OF at' ok(4,5)] None grow at ok(1,2) False k(1) show ?thesis
        by (auto simp: run)
    next
      case (Some l)
      with b'(2) have l: "l = of_nat k" and data: "bm_data b' = bm_data b @ replicate (nat n) 0"
        by (simp_all add: k_def)
      then have parts: "length (bm_data b') = k" "take ?l (bm_data b') = bm_data b" "drop k (bm_data b') = []"
        by (simp_all add: k_def)
      have word: "(of_int (int k) :: u64) = of_int (int ?l) + of_int n"
        by (simp flip: k(1))
      let ?b = "b'\<lparr>bm_data := bm_data b @ take (nat n) inp\<rparr>"
      have b: "buf_ok ?b" "int (length (bm_data ?b)) \<le> INT_MAX"
        using b'(1) data n k by (simp_all add: buf_ok_def min_absorb2 k_def)
      have "mem_write a inp n w = (Ret n, ?w\<lparr>allocs := as, bufs := (bufs w)(m \<mapsto> (before, ?b))\<rparr>)"
        using at ok(2) False n grow Some l parts k(1) word by (simp add: run)
      with mem_okI [OF at' b] ok(1) show ?thesis
        by auto
    qed
  qed
qed

lemma count_run:
  assumes "mem_ok a ro eof w"
  shows "\<exists>w'. upd_bio a (\<lambda>x. x\<lparr>b_num_read := f x\<rparr>) w = (Ret (), w') \<and> mem_ok a ro eof w' \<and> mem_left a w' = mem_left a w \<and> allocs w' = allocs w"
    and "\<exists>w'. upd_bio a (\<lambda>x. x\<lparr>b_num_write := f x\<rparr>) w = (Ret (), w') \<and> mem_ok a ro eof w' \<and> mem_left a w' = mem_left a w \<and> allocs w' = allocs w"
proof -
  obtain x m before b where at: "mem_at w a x m before b" and ok: "mem_left a w = bm_data b" "rdonly x = ro" "b_num x = eof"
    "buf_ok b" "int (length (bm_data b)) \<le> INT_MAX"
    using assms by (rule mem_okE)
  have r: "mem_at (w\<lparr>bios := (bios w)(a \<mapsto> x\<lparr>b_num_read := f x\<rparr>)\<rparr>) a (x\<lparr>b_num_read := f x\<rparr>) m before b"
    "rdonly (x\<lparr>b_num_read := f x\<rparr>) = ro" "b_num (x\<lparr>b_num_read := f x\<rparr>) = eof"
    and wr: "mem_at (w\<lparr>bios := (bios w)(a \<mapsto> x\<lparr>b_num_write := f x\<rparr>)\<rparr>) a (x\<lparr>b_num_write := f x\<rparr>) m before b"
    "rdonly (x\<lparr>b_num_write := f x\<rparr>) = ro" "b_num (x\<lparr>b_num_write := f x\<rparr>) = eof"
    using at ok by (simp_all add: mem_at_def)
  show "\<exists>w'. upd_bio a (\<lambda>x. x\<lparr>b_num_read := f x\<rparr>) w = (Ret (), w') \<and> mem_ok a ro eof w' \<and> mem_left a w' = mem_left a w \<and> allocs w' = allocs w"
    using mem_okI [OF r ok(4,5)] at ok(1) by (simp add: upd_bio_at mem_at_def)
  show "\<exists>w'. upd_bio a (\<lambda>x. x\<lparr>b_num_write := f x\<rparr>) w = (Ret (), w') \<and> mem_ok a ro eof w' \<and> mem_left a w' = mem_left a w \<and> allocs w' = allocs w"
    using mem_okI [OF wr ok(4,5)] at ok(1) by (simp add: upd_bio_at mem_at_def)
qed

lemma BIO_read_memory:
  assumes "mem_ok a ro eof w" and "0 < n" "n \<le> INT_MAX"
  shows "\<exists>w'. BIO_read (Some a) False n w = (Ret (if mem_left a w = [] then eof else int (min (nat n) (length (mem_left a w))),
      take (nat n) (mem_left a w)), w') \<and>
    mem_ok a ro eof w' \<and> mem_left a w' = drop (nat n) (mem_left a w) \<and> allocs w' = allocs w"
proof -
  define k where "k = min (nat n) (length (mem_left a w))"
  have k: "k = 0 \<longleftrightarrow> mem_left a w = []" "take (nat n) (mem_left a w) = take k (mem_left a w)" "drop (nat n) (mem_left a w) = drop k (mem_left a w)"
    using assms(2) by (auto simp: k_def min_def)
  obtain x m before b where at: "mem_at w a x m before b"
    using assms(1) by (rule mem_okE)
  obtain w1 where w1: "mem_read a False n w = (Ret (if k = 0 then eof else int k, take k (mem_left a w)), w1)"
    "mem_ok a ro eof w1" "mem_left a w1 = drop k (mem_left a w)" "allocs w1 = allocs w"
    using mem_read_run [OF assms(1-3)] unfolding k_def by blast
  define r where "r = (if k = 0 then eof else int k)"
  obtain w2 where w2: "upd_bio a (\<lambda>x. x\<lparr>b_num_read := b_num_read x + of_int r\<rparr>) w1 = (Ret (), w2)"
    "mem_ok a ro eof w2" "mem_left a w2 = mem_left a w1" "allocs w2 = allocs w1"
    using count_run(1) [OF w1(2), of "\<lambda>x. b_num_read x + of_int r"] by blast
  have "mem_read a False n w = (Ret (r, take k (mem_left a w)), w1)"
    and r: "r = (if mem_left a w = [] then eof else int k)"
    using w1(1) k(1) by (simp_all add: r_def)
  with at assms(2) w1 w2 show ?thesis
    unfolding k k_def [symmetric] r [symmetric] by (cases "0 < r") (auto simp: BIO_read_def mem_at_def mem_run bread_def)
qed

lemma BIO_write_memory:
  assumes "mem_ok a False eof w" and "0 < n" "n \<le> INT_MAX" "nat n \<le> length inp"
  shows "\<exists>r w'. BIO_write (Some a) inp n w = (Ret r, w') \<and> (r = n \<or> r = -1) \<and>
    mem_ok a False eof w' \<and> mem_left a w' = mem_left a w @ take (nat r) inp"
proof -
  obtain x m before b where at: "mem_at w a x m before b"
    using assms(1) by (rule mem_okE)
  obtain r w1 where w1: "mem_write a inp n w = (Ret r, w1)" "r = n \<or> r = -1"
    "mem_ok a False eof w1" "mem_left a w1 = mem_left a w @ take (nat r) inp"
    using mem_write_run [OF assms] by blast
  obtain w2 where w2: "upd_bio a (\<lambda>x. x\<lparr>b_num_write := b_num_write x + of_int r\<rparr>) w1 = (Ret (), w2)"
    "mem_ok a False eof w2" "mem_left a w2 = mem_left a w1"
    using count_run(2) [OF w1(3), of "\<lambda>x. b_num_write x + of_int r"] by blast
  show ?thesis
    using at assms(2) w1 w2 by (cases "0 < r") (auto simp: BIO_write_def mem_at_def mem_run bwrite_def)
qed

text \<open>A line: the bytes up to a newline.\<close>

lemma line_length_le: "line_length p j \<le> j" "line_length p j \<le> length p"
  by (induction p j rule: line_length.induct) auto

lemma line_length_pos: "0 < j \<Longrightarrow> p \<noteq> [] \<Longrightarrow> 0 < line_length p j"
  by (cases p; cases j) auto

lemma line_length_full: "length p \<le> j \<Longrightarrow> line_length p (length p) = line_length p j"
proof (induction p arbitrary: j)
  case Nil
  then show ?case
    by (cases j) simp_all
next
  case (Cons c p)
  then show ?case
    by (cases j) simp_all
qed

lemma to_int_0 [simp]: "to_int 0 = 0"
  by (simp add: to_int_def)

lemma BIO_gets_memory:
  assumes "mem_ok a ro eof w" and "n \<le> INT_MAX" and "0 < n"
  defines "k \<equiv> line_length (mem_left a w) (nat (n - 1))"
  shows "\<exists>w'. BIO_gets (Some a) n w = (Ret (int k, take k (mem_left a w) @ [0]), w') \<and>
    mem_ok a ro eof w' \<and> mem_left a w' = drop k (mem_left a w)"
proof -
  obtain x m before b where at: "mem_at w a x m before b" and ok: "mem_left a w = bm_data b" "rdonly x = ro" "b_num x = eof"
    "buf_ok b" "int (length (bm_data b)) \<le> INT_MAX"
    using assms(1) by (rule mem_okE)
  let ?x = "x\<lparr>b_flags := b_flags x AND NOT kRetryFlags, b_retry_reason := 0\<rparr>"
  let ?w = "w\<lparr>bios := (bios w)(a \<mapsto> ?x)\<rparr>"
  have at': "mem_at ?w a ?x m before b" "rdonly ?x = ro" "b_num ?x = eof"
    using at ok by (simp_all add: mem_at_def)
  note ok' = mem_okI [OF this ok(4,5)]
  have len: "to_int (length (bm_data b)) = int (length (bm_data b))"
    using ok(5) by (rule to_int_nat)
  define j where "j = (if n - 1 < int (length (bm_data b)) then n - 1 else int (length (bm_data b)))"
  have j: "line_length (bm_data b) (nat j) = k" "j \<le> INT_MAX"
    using ok(1,5) assms(2) line_length_full by (auto simp: j_def k_def)
  show ?thesis
  proof (cases "j \<le> 0")
    case True
    then have "k = 0"
      using j(1) by simp
    moreover have "mem_gets a n w = (Ret (0, [0]), ?w)"
      using True at assms(3)
      by (cases "n - 1 < int (length (bm_data b))") (simp_all add: mem_gets_def mem_at_def mem_run len j_def)
    ultimately show ?thesis
      using at ok' ok(1) assms(3) by (simp add: BIO_gets_def mem_at_def mem_run bgets_def)
  next
    case False
    then have "bm_data b \<noteq> []"
      by (auto simp: j_def split: if_splits)
    with False have k: "0 < int k" "int k \<le> INT_MAX" "k \<le> length (bm_data b)"
      using line_length_pos [of "nat j" "bm_data b"] line_length_le [of "bm_data b" "nat j"] j ok(5)
      by auto
    then obtain w1 where w1: "mem_read a False (int k) ?w = (Ret (int k, take k (bm_data b)), w1)"
      "mem_ok a ro eof w1" "mem_left a w1 = drop k (bm_data b)"
      using mem_read_run [OF ok'(1) k(1,2)] ok'(2) by (auto simp: min_absorb1)
    obtain w2 where w2: "upd_bio a (\<lambda>x. x\<lparr>b_num_read := b_num_read x + of_int (int k)\<rparr>) w1 = (Ret (), w2)"
      "mem_ok a ro eof w2" "mem_left a w2 = mem_left a w1"
      using count_run(1) [OF w1(2), of "\<lambda>x. b_num_read x + of_int (int k)"] by blast
    have "mem_gets a n w = (Ret (int k, take k (bm_data b) @ [0]), w1)"
      using False at k(1) w1 j(1)
      by (cases "n - 1 < int (length (bm_data b))") (simp_all add: mem_gets_def mem_at_def mem_run len j_def)
    then show ?thesis
      using at k(1) w1 w2 ok(1) assms(3) by (simp add: BIO_gets_def mem_at_def mem_run bgets_def)
  qed
qed

section \<open>A writable memory BIO is a queue\<close>

text \<open>All commands but those that clear or replace the buffer leave the bytes alone.\<close>

fun keeps_data :: "bio_event \<Rightarrow> bool" where
  "keeps_data (Command x cmd) \<longleftrightarrow> cmd \<noteq> BIO_CTRL_RESET \<and> cmd \<noteq> BIO_C_SET_BUF_MEM"
| "keeps_data e \<longleftrightarrow> True"

lemma BIO_ctrl_memory:
  assumes "mem_ok a ro eof w" and "BIO_ctrl (Some a) cmd larg parg w = (Ret r, w')" and "cmd \<noteq> BIO_CTRL_RESET" "cmd \<noteq> BIO_C_SET_BUF_MEM"
  shows "(\<exists>eof. mem_ok a ro eof w') \<and> mem_left a w' = mem_left a w"
proof -
  obtain x m before b where at: "mem_at w a x m before b" and ok: "mem_left a w = bm_data b" "rdonly x = ro" "b_num x = eof"
    "buf_ok b" "int (length (bm_data b)) \<le> INT_MAX"
    using assms(1) by (rule mem_okE)
  have upd: "mem_ok a ro (b_num x') (w\<lparr>bios := (bios w)(a \<mapsto> x')\<rparr>)" "mem_left a (w\<lparr>bios := (bios w)(a \<mapsto> x')\<rparr>) = bm_data b"
    if "b_ptr x' = b_ptr x" "b_method x' = b_method x" "b_init x' = b_init x" "b_flags x' = b_flags x" for x'
  proof -
    have "mem_at (w\<lparr>bios := (bios w)(a \<mapsto> x')\<rparr>) a x' m before b" "rdonly x' = ro"
      using that at ok by (simp_all add: mem_at_def rdonly_def)
    from mem_okI [OF this refl ok(4,5)]
    show "mem_ok a ro (b_num x') (w\<lparr>bios := (bios w)(a \<mapsto> x')\<rparr>)" "mem_left a (w\<lparr>bios := (bios w)(a \<mapsto> x')\<rparr>) = bm_data b" .
  qed
  have "BIO_ctrl (Some a) cmd larg parg w = mem_ctrl a cmd larg parg w"
    using at by (simp add: BIO_ctrl_def mem_run mem_at_def ctrl_def)
  then show ?thesis
    using assms at ok(1) upd [of "x\<lparr>b_num := long_to_int larg\<rparr>"] upd [of "x\<lparr>b_shutdown := long_to_int larg\<rparr>"]
    by (auto simp: mem_ctrl_def mem_at_def mem_run split: if_splits)
qed

interpretation memory_queue: byte_queue "\<lambda>w e w'. io_step {a} w e w' \<and> keeps_data e" "\<lambda>w. \<exists>eof. mem_ok a False eof w"
  "mem_left a" "sent a" "received a" for a
proof unfold_locales
  fix w e w'
  assume "\<exists>eof. mem_ok a False eof w" and "io_step {a} w e w' \<and> keeps_data e"
  then obtain eof where ok: "mem_ok a False eof w" and step: "io_step {a} w e w'" and e: "keeps_data e"
    by blast
  obtain x m before b where at: "mem_at w a x m before b"
    using ok by (rule mem_okE)
  from step have "(\<exists>eof. mem_ok a False eof w') \<and> mem_left a w @ sent a e = received a e @ mem_left a w'"
  proof cases
    case (io_write y n inp r)
    show ?thesis
    proof (cases "0 < n")
      case True
      with BIO_write_memory [OF ok True io_write(3,4)] io_write show ?thesis
        by auto
    next
      case False
      with io_write at ok show ?thesis
        by (auto simp: BIO_write_def mem_run mem_at_def)
    qed
  next
    case (io_read y n r data)
    show ?thesis
    proof (cases "0 < n")
      case True
      with BIO_read_memory [OF ok True io_read(3)] io_read show ?thesis
        by auto
    next
      case False
      with io_read at ok show ?thesis
        by (auto simp: BIO_read_def mem_run mem_at_def)
    qed
  next
    case (io_gets y n r data)
    show ?thesis
    proof (cases "0 < n")
      case True
      with BIO_gets_memory [OF ok io_gets(3) True] io_gets line_length_le show ?thesis
        by auto
    next
      case False
      with io_gets at ok show ?thesis
        by (auto simp: BIO_gets_def mem_run mem_at_def bgets_def)
    qed
  next
    case (io_command y cmd larg parg r)
    with e BIO_ctrl_memory [OF ok] show ?thesis
      by auto
  qed
  then show "\<exists>eof. mem_ok a False eof w'" and "mem_left a w @ sent a e = received a e @ mem_left a w'"
    by simp_all
qed

text \<open>C17: A writable memory BIO.\<close>

theorem memory_is_fifo:
  assumes "mem_ok a False eof w" and "run (\<lambda>w e w'. io_step {a} w e w' \<and> keeps_data e) w es w'"
  shows "(\<exists>eof'. mem_ok a False eof' w') \<and>
    mem_left a w @ concat (map (sent a) es) = concat (map (received a) es) @ mem_left a w'"
  using memory_queue.run_inv memory_queue.fifo assms by blast

definition small_memory :: bio_world where
  "small_memory = snd (BIO_new mem_method (empty_world (replicate 4 (Some (\<lambda>_. 0)))))"

text \<open>What is written, if there is memory for it, is what waits.\<close>

lemma memory_is_fifo_witness:
  "\<exists>r w'. BIO_write (Some 0) [1, 2, 3] 3 small_memory = (Ret r, w') \<and> mem_left 0 w' = take (nat r) [1, 2, 3]"
proof -
  have ok: "mem_ok 0 False (-1) small_memory" "mem_left 0 small_memory = []"
    by (simp_all add: small_memory_def) code_simp+
  obtain r w' where w': "BIO_write (Some 0) [1, 2, 3] 3 small_memory = (Ret r, w')"
    using BIO_write_memory [OF ok(1), of 3 "[1, 2, 3]"] by (auto simp: INT_MAX_def)
  have "io_step {0} small_memory (Wrote 0 (take (nat r) [1, 2, 3])) w'"
    using w' by (intro io_write [where n = 3]) (simp_all add: INT_MAX_def)
  then have "run (\<lambda>w e w'. io_step {0} w e w' \<and> keeps_data e) small_memory [Wrote 0 (take (nat r) [1, 2, 3])] w'"
    by (auto intro!: run_Cons run_Nil)
  from memory_is_fifo [OF ok(1) this] ok(2) w' show ?thesis
    by simp
qed

end
