(* ===== verification/Bio_Read.thy ===== *)
theory Bio_Read
  imports Bio_Mem Cbs_Der
begin

text \<open>
  Reading an ASN.1 element from a \<open>BIO\<close>. What \<open>BIO_read_asn1\<close> needs of the \<open>BIO\<close> is an interface, a reader that gives as many
  bytes as it is asked for, if it has them; a memory \<open>BIO\<close> and the end of a pair provide it.
\<close>

unbundle bit_operations_syntax

section \<open>Readers\<close>

text \<open>\<open>eof\<close> is the result when there is nothing to read: 0 for the end of the data, \<open>-1\<close> for more to come.\<close>

locale reader =
  fixes inv :: "bio_world \<Rightarrow> bool"
    and content :: "bio_world \<Rightarrow> byte list"
    and bio :: "nat option"
    and eof :: int
  assumes read_some: "inv w \<Longrightarrow> 0 < n \<Longrightarrow> n \<le> INT_MAX \<Longrightarrow> content w \<noteq> [] \<Longrightarrow>
      \<exists>w'. BIO_read bio False n w = (Ret (int (min (nat n) (length (content w))), take (nat n) (content w)), w') \<and>
        inv w' \<and> content w' = drop (nat n) (content w) \<and> allocs w' = allocs w"
    and read_none: "inv w \<Longrightarrow> 0 < n \<Longrightarrow> n \<le> INT_MAX \<Longrightarrow> content w = [] \<Longrightarrow>
      \<exists>w'. BIO_read bio False n w = (Ret (eof, []), w') \<and> inv w' \<and> content w' = [] \<and> allocs w' = allocs w"
    and read_zero: "inv w \<Longrightarrow> BIO_read bio False 0 w = (Ret (0, []), w)"
    and inv_allocs: "inv w \<Longrightarrow> inv (w\<lparr>allocs := as\<rparr>) \<and> content (w\<lparr>allocs := as\<rparr>) = content w"
    and eof_values: "inv w \<Longrightarrow> eof = 0 \<or> eof = -1"
begin

lemma read_exactly_run:
  assumes "inv w" and "int n \<le> INT_MAX"
  shows "\<exists>w'. read_exactly bio n w = (if n \<le> length (content w) then Ret (take n (content w)) else Fail, w') \<and>
    inv w' \<and> content w' = drop n (content w) \<and> allocs w' = allocs w"
proof (cases "n = 0")
  case True
  with read_zero [OF assms(1)] assms(1) show ?thesis
    by (simp add: read_exactly_def)
next
  case False
  then have n: "0 < int n"
    by simp
  note int = to_int_nat [OF assms(2)]
  show ?thesis
  proof (cases "content w = []")
    case True
    obtain w' where "BIO_read bio False (int n) w = (Ret (eof, []), w')" "inv w'" "content w' = []" "allocs w' = allocs w"
      using read_none [OF assms(1) n assms(2) True] by blast
    with True False eof_values [OF assms(1)] show ?thesis
      by (intro exI [of _ w']) (auto simp: read_exactly_def int)
  next
    case nonempty: False
    obtain w' where "BIO_read bio False (int n) w = (Ret (int (min n (length (content w))), take n (content w)), w')"
      "inv w'" "content w' = drop n (content w)" "allocs w' = allocs w"
      using read_some [OF assms(1) n assms(2) nonempty] by auto
    then show ?thesis
      by (auto simp: read_exactly_def int min_def)
  qed
qed

lemma alloc_run:
  assumes "inv w" and "None \<notin> set (allocs w)" and "allocs w \<noteq> []"
  shows "\<exists>d w'. alloc k w = (Ret d, w') \<and> inv w' \<and> content w' = content w \<and> allocs w' = tl (allocs w)"
proof -
  obtain g as where "allocs w = Some g # as"
    using assms(2,3) by (cases "allocs w"; cases "hd (allocs w)") auto
  with inv_allocs [OF assms(1), of as] show ?thesis
    by (simp add: alloc_def)
qed

text \<open>Every round of the loop reads a byte or is the last one.\<close>

lemma read_all_run:
  assumes "inv w" and "length out < len \<or> len = max_len" and "length out \<le> len" and "len \<le> max_len" and "len - length out \<le> 8192"
    and "max_len - length out < fuel" and "None \<notin> set (allocs w)" and "max_len - length out \<le> length (allocs w)"
  shows "\<exists>w'. read_all_loop fuel bio out len max_len w =
      (if eof = 0 \<and> length out + length (content w) < max_len then Ret (out @ content w) else Fail, w') \<and>
    inv w' \<and> (length out + length (content w) < max_len \<longrightarrow> content w' = [])"
  using assms
proof (induction fuel arbitrary: w out len)
  case (Suc fuel)
  show ?case
  proof (cases "length out = len")
    case True
    with Suc.prems show ?thesis
      by simp
  next
    case False
    define todo where "todo = len - length out"
    have todo: "0 < todo" "todo \<le> 8192" "int todo < INT_MAX"
      using False Suc.prems(3,5) by (simp_all add: todo_def INT_MAX_def)
    then have n: "0 < int todo" "int todo \<le> INT_MAX"
      by simp_all
    show ?thesis
    proof (cases "content w = []")
      case True
      obtain w' where "BIO_read bio False (int todo) w = (Ret (eof, []), w')" "inv w'" "content w' = []"
        using read_none [OF Suc.prems(1) n True] by blast
      with True False todo eof_values [OF Suc.prems(1)] Suc.prems(2-4) show ?thesis
        by (auto simp: run_at simp flip: todo_def)
    next
      case nonempty: False
      define k where "k = min todo (length (content w))"
      have k: "0 < k" "k \<le> todo" "k \<le> length (content w)" "take todo (content w) = take k (content w)" "drop todo (content w) = drop k (content w)"
        using todo nonempty by (auto simp: k_def min_def)
      obtain w1 where w1: "BIO_read bio False (int todo) w = (Ret (int k, take k (content w)), w1)" "inv w1"
        "content w1 = drop k (content w)" "allocs w1 = allocs w"
        using read_some [OF Suc.prems(1) n nonempty] unfolding nat_int k(4,5) k_def [symmetric] by blast
      let ?out = "out @ take k (content w)"
      have out: "length ?out = length out + k" "?out @ content w1 = out @ content w"
        "length ?out + length (content w1) = length out + length (content w)"
        using k(3) by (simp_all add: w1(3))
      show ?thesis
      proof (cases "len < max_len \<and> len - length ?out < kChunkSize div 2")
        case True
        define len' where "len' = (if max_len < len + kChunkSize then max_len else len + kChunkSize)"
        have "allocs w1 \<noteq> []"
          using Suc.prems(3,4,8) k(1) todo(1) by (auto simp: w1(4) todo_def)
        then obtain d w2 where w2: "alloc 0 w1 = (Ret d, w2)" "inv w2" "content w2 = content w1" "allocs w2 = tl (allocs w)"
          using alloc_run [OF w1(2)] Suc.prems(7) by (metis w1(4))
        have run: "read_all_loop (Suc fuel) bio out len max_len w = read_all_loop fuel bio ?out len' max_len w2"
          using False True todo k(1) w1(1) w2(1) by (simp add: run_at len'_def flip: todo_def)
        have "\<exists>w'. read_all_loop fuel bio ?out len' max_len w2 =
            (if eof = 0 \<and> length ?out + length (content w2) < max_len then Ret (?out @ content w2) else Fail, w') \<and>
          inv w' \<and> (length ?out + length (content w2) < max_len \<longrightarrow> content w' = [])"
          using Suc.prems True k out(1) todo \<open>allocs w1 \<noteq> []\<close> w1(4)
          by (intro Suc.IH [OF w2(2)]) (auto simp: len'_def w2(4) kChunkSize_def todo_def dest: list.set_sel(2))
        then show ?thesis
          unfolding run w2(3) out(2,3) .
      next
        case full: False
        have run: "read_all_loop (Suc fuel) bio out len max_len w = read_all_loop fuel bio ?out len max_len w1"
          using False full todo k(1) w1(1) by (auto simp: run_at simp flip: todo_def)
        have "\<exists>w'. read_all_loop fuel bio ?out len max_len w1 =
            (if eof = 0 \<and> length ?out + length (content w1) < max_len then Ret (?out @ content w1) else Fail, w') \<and>
          inv w' \<and> (length ?out + length (content w1) < max_len \<longrightarrow> content w' = [])"
          using Suc.prems full k out(1) todo
          by (intro Suc.IH [OF w1(2)]) (auto simp: w1(4) kChunkSize_def todo_def)
        then show ?thesis
          unfolding run out(2,3) .
      qed
    qed
  qed
qed simp

lemma bio_read_all_run:
  assumes "inv w" and "None \<notin> set (allocs w)" and "Suc max_len \<le> length (allocs w)" and "length hdr \<le> 4096"
  shows "\<exists>w'. bio_read_all bio hdr max_len w =
      (if eof = 0 \<and> length hdr + length (content w) < max_len then Ret (hdr @ content w) else Fail, w') \<and>
    inv w' \<and> (length hdr + length (content w) < max_len \<longrightarrow> content w' = [])"
proof (cases "max_len < length hdr")
  case True
  with assms(1) show ?thesis
    by (simp add: bio_read_all_def)
next
  case False
  define len where "len = (if max_len < length hdr + kChunkSize then max_len else length hdr + kChunkSize)"
  obtain d w1 where w1: "alloc 0 w = (Ret d, w1)" "inv w1" "content w1 = content w" "allocs w1 = tl (allocs w)"
    using alloc_run [OF assms(1,2)] assms(3) by (metis Suc_le_length_iff list.distinct(1))
  have "None \<notin> set (allocs w1)" "max_len \<le> length (allocs w1)"
    using assms(2,3) by (cases "allocs w"; simp add: w1(4))+
  then have "\<exists>w'. read_all_loop (Suc max_len) bio hdr len max_len w1 =
      (if eof = 0 \<and> length hdr + length (content w1) < max_len then Ret (hdr @ content w1) else Fail, w') \<and>
    inv w' \<and> (length hdr + length (content w1) < max_len \<longrightarrow> content w' = [])"
    using False by (intro read_all_run [OF w1(2)]) (auto simp: len_def kChunkSize_def)
  note loop = this [unfolded w1(3)]
  have "bio_read_all bio hdr max_len w = read_all_loop (Suc max_len) bio hdr len max_len w1"
    using False w1(1) by (simp add: bio_read_all_def len_def del: read_all_loop.simps)
  then show ?thesis
    using loop by (simp only:)
qed

text \<open>The last part of \<open>BIO_read_asn1\<close>, when the header is read and says that \<open>n\<close> bytes follow.\<close>

lemma rest_run:
  assumes "inv w" and "None \<notin> set (allocs w)" and "allocs w \<noteq> []"
  shows "\<exists>w'. (if max_len < n + length header \<or> INT_MAX < int n then fail
      else seq (alloc 0) (bnd (read_exactly bio n) (\<lambda>data. ret (header @ data)))) w =
      (if n + length header \<le> max_len \<and> int n \<le> INT_MAX \<and> n \<le> length (content w) then Ret (header @ take n (content w)) else Fail, w') \<and>
    inv w' \<and> (n + length header \<le> max_len \<and> int n \<le> INT_MAX \<longrightarrow> content w' = drop n (content w))"
proof (cases "max_len < n + length header \<or> INT_MAX < int n")
  case True
  with assms(1) show ?thesis
    by auto
next
  case False
  obtain d w1 where w1: "alloc 0 w = (Ret d, w1)" "inv w1" "content w1 = content w"
    using alloc_run [OF assms] by blast
  obtain w2 where w2: "read_exactly bio n w1 = (if n \<le> length (content w1) then Ret (take n (content w1)) else Fail, w2)"
    "inv w2" "content w2 = drop n (content w1)"
    using read_exactly_run [OF w1(2), of n] False by auto
  with w1(1,3) False show ?thesis
    by (cases "n \<le> length (content w)") simp_all
qed

end

section \<open>Headers\<close>

text \<open>The length bytes of a definite length, as the code checks them.\<close>

lemma foldl_be_word: "foldl (\<lambda>n b. push_bit 8 n OR ucast b) 0 bs = (be_word bs :: u32)"
  by (simp add: be_word_def)

lemma long_length:
  assumes "(l :: byte) AND 0x80 \<noteq> 0" and "length bs = unat (l AND 0x7F)" and "bs \<noteq> []" and "length bs \<le> 4"
    and "\<not> (be_word bs :: u32) < 128" and "drop_bit ((length bs - 1) * 8) (be_word bs :: u32) \<noteq> 0"
  shows "l # bs = der_len (unat (be_word bs :: u32)) \<and> 128 \<le> unat (be_word bs :: u32)"
proof -
  have nat: "unat (be_word bs :: u32) = be_nat bs"
    using assms(4) by (simp add: unat_be_word)
  have "hd bs \<noteq> 0"
    using long_minimal_iff [of bs "length bs"] assms(3,4,6) by (simp add: mult.commute)
  then have bs: "be_min (be_nat bs) = bs"
    by (simp add: be_min_unique)
  have "128 \<le> be_nat bs"
    using assms(5) nat by (simp add: word_less_nat_alt)
  moreover have "l = of_nat (128 + length bs)"
    using byte_long_split [OF assms(1)] assms(2) by (metis of_nat_unat ucast_id)
  ultimately show ?thesis
    by (simp add: nat der_len_def bs)
qed

lemma long_length_conv:
  assumes "128 \<le> n" and "n < 2 ^ 32"
  shows "\<exists>l bs. der_len n = l # bs \<and> l AND 0x80 \<noteq> 0 \<and> length bs = unat (l AND 0x7F) \<and> bs \<noteq> [] \<and> length bs \<le> 4 \<and>
    \<not> (be_word bs :: u32) < 128 \<and> drop_bit ((length bs - 1) * 8) (be_word bs :: u32) \<noteq> 0 \<and> unat (be_word bs :: u32) = n"
proof -
  let ?bs = "be_min n"
  have len: "0 < length ?bs" "length ?bs \<le> 4"
    using be_min_32 [OF assms] by simp_all
  have nat: "unat (be_word ?bs :: u32) = n"
    using len(2) by (simp add: unat_be_word)
  have l: "unat (of_nat (128 + length ?bs) :: byte) = 128 + length ?bs"
    using len(2) by (simp only: unsigned_of_nat) (simp add: take_bit_nat_eq_self)
  then have "(of_nat (128 + length ?bs) :: byte) AND 0x80 \<noteq> 0"
    by (simp only: byte_small_iff not_less le_add1)
  with byte_long_split [OF this] l have "(of_nat (128 + length ?bs) :: byte) AND 0x80 \<noteq> 0" and
    "length ?bs = unat ((of_nat (128 + length ?bs) :: byte) AND 0x7F)"
    by linarith+
  moreover have "drop_bit ((length ?bs - 1) * 8) (be_word ?bs :: u32) \<noteq> 0"
    using long_minimal_iff [of ?bs "length ?bs"] len hd_be_min [of n] assms(1) by (simp add: mult.commute)
  moreover have "\<not> (be_word ?bs :: u32) < 128"
    using nat assms(1) by (simp add: word_less_nat_alt)
  ultimately show ?thesis
    using len nat assms(1) by (intro exI [of _ "of_nat (128 + length ?bs)"] exI [of _ ?bs]) (simp add: der_len_def)
qed

section \<open>Reading an element\<close>

text \<open>What \<open>BIO_read_asn1\<close> can give: an element at the front of \<open>c\<close>, or everything when the element has an indefinite length.\<close>

definition asn1_front :: "nat \<Rightarrow> int \<Rightarrow> byte list \<Rightarrow> byte list \<Rightarrow> bool" where
  "asn1_front max_len eof c d \<longleftrightarrow>
     (\<exists>t e r. short_tag t \<and> d = der t e \<and> c = d @ r \<and> length d \<le> max_len \<and> int (length e) \<le> INT_MAX) \<or>
     (\<exists>t r. short_tag t \<and> t AND 0x20 \<noteq> 0 \<and> c = t # 0x80 # r \<and> d = c \<and> length d < max_len \<and> eof = 0)"

lemma der_len_prefix_free:
  assumes "der_len n @ r = der_len n' @ r'" and "n < 2 ^ 32" and "n' < 2 ^ 32"
  shows "n = n' \<and> r = r'"
proof (cases "n < 128")
  case True
  then have b: "unat (of_nat n :: byte) = n" "(of_nat n :: byte) AND 0x80 = 0"
    by (simp_all add: unsigned_of_nat take_bit_nat_eq_self byte_small_iff)
  then have "n' = unat (of_nat n :: byte) \<and> r = r'"
    using assms(1,3) True by (simp add: der_len_short der_len_short_Cons)
  with b show ?thesis
    by simp
next
  case False
  then obtain l bs where l: "der_len n = l # bs" "l AND 0x80 \<noteq> 0" "length bs = unat (l AND 0x7F)"
    using long_length_conv [of n] assms(2) by auto
  have "\<not> n' < 128"
  proof
    assume small: "n' < 128"
    then have "(of_nat n' :: byte) AND 0x80 = 0"
      by (simp add: unsigned_of_nat take_bit_nat_eq_self byte_small_iff)
    with assms(1) l(1,2) small show False
      by (simp add: der_len_short)
  qed
  then obtain l' bs' where l': "der_len n' = l' # bs'" "length bs' = unat (l' AND 0x7F)"
    using long_length_conv [of n'] assms(3) by auto
  have eq: "l = l'" "bs = bs'" "r = r'"
    using assms(1) l l' by auto
  then have "der_len n = der_len n'"
    using l l' by simp
  then have "be_min n = be_min n'"
    using False \<open>\<not> n' < 128\<close> by (simp add: der_len_def)
  then have "n = n'"
    by (metis be_nat_be_min)
  with eq show ?thesis
    by simp
qed

lemma not_indefinite:
  assumes "int n \<le> INT_MAX"
  shows "0x80 # r \<noteq> der_len n @ r'"
proof (cases "n < 128")
  case True
  then have "(of_nat n :: byte) AND 0x80 = 0"
    by (simp add: unsigned_of_nat take_bit_nat_eq_self byte_small_iff)
  with True show ?thesis
    by (auto simp: der_len_short)
next
  case False
  with long_length_conv [of n] assms show ?thesis
    by (auto simp: INT_MAX_def)
qed

lemma asn1_front_definite:
  assumes "c = t # der_len n @ r" and "short_tag t" and "n < 2 ^ 32"
  shows "asn1_front max_len eof c d \<longleftrightarrow>
    n + length (t # der_len n) \<le> max_len \<and> int n \<le> INT_MAX \<and> n \<le> length r \<and> d = (t # der_len n) @ take n r"
proof
  assume "asn1_front max_len eof c d"
  then show "n + length (t # der_len n) \<le> max_len \<and> int n \<le> INT_MAX \<and> n \<le> length r \<and> d = (t # der_len n) @ take n r"
    unfolding asn1_front_def
  proof (elim disjE exE conjE)
    fix t' e r'
    assume d: "d = der t' e" "c = d @ r'" "length d \<le> max_len" "int (length e) \<le> INT_MAX"
    have "length e < 2 ^ 32"
      using d(4) by (simp add: INT_MAX_def)
    moreover have "der_len n @ r = der_len (length e) @ e @ r'"
      using d(1,2) assms(1) by (simp add: der_def)
    ultimately have "n = length e \<and> r = e @ r'"
      using der_len_prefix_free assms(3) by blast
    with d assms(1) show ?thesis
      by (auto simp: der_def)
  next
    fix t' r'
    assume "c = t' # 0x80 # r'"
    then have eq: "der_len n @ r = 0x80 # r'"
      using assms(1) by simp
    show ?thesis
    proof (cases "n < 128")
      case True
      then have "(of_nat n :: byte) AND 0x80 = 0"
        by (simp add: unsigned_of_nat take_bit_nat_eq_self byte_small_iff)
      with eq True show ?thesis
        by (simp add: der_len_short)
    next
      case False
      with eq long_length_conv [of n] assms(3) show ?thesis
        by auto
    qed
  qed
next
  assume "n + length (t # der_len n) \<le> max_len \<and> int n \<le> INT_MAX \<and> n \<le> length r \<and> d = (t # der_len n) @ take n r"
  with assms show "asn1_front max_len eof c d"
    unfolding asn1_front_def
    by (intro disjI1 exI [of _ t] exI [of _ "take n r"] exI [of _ "drop n r"]) (simp add: der_def min_absorb2)
qed

context reader
begin

text \<open>A header that is not that of an element with a one-byte tag and a definite length.\<close>

lemma BIO_read_asn1_definite:
  assumes "inv w" and "None \<notin> set (allocs w)" and "allocs w \<noteq> []"
    and c: "content w = t # der_len n @ r" and t: "short_tag t" and n: "n < 2 ^ 32"
  defines "hdr \<equiv> t # der_len n"
  shows "\<exists>w'. BIO_read_asn1 bio max_len w =
      (if n + length hdr \<le> max_len \<and> int n \<le> INT_MAX \<and> n \<le> length r then Ret (hdr @ take n r) else Fail, w') \<and>
    inv w' \<and> (n + length hdr \<le> max_len \<and> int n \<le> INT_MAX \<longrightarrow> content w' = drop n r)"
proof (cases "n < 128")
  case True
  then have l: "der_len n = [of_nat n]" "unat (of_nat n :: byte) = n"
    by (simp_all add: der_len_def unsigned_of_nat take_bit_nat_eq_self)
  then have small: "(of_nat n :: byte) AND 0x80 = 0"
    using True by (simp add: byte_small_iff)
  obtain w1 where w1: "read_exactly bio 2 w = (Ret [t, of_nat n], w1)" "inv w1" "content w1 = r" "allocs w1 = allocs w"
    using read_exactly_run [OF assms(1), of 2] c l(1) by (auto simp: INT_MAX_def numeral_2_eq_2)
  have "BIO_read_asn1 bio max_len w = (if max_len < n + length hdr \<or> INT_MAX < int n then fail
      else seq (alloc 0) (bnd (read_exactly bio n) (\<lambda>data. ret (hdr @ data)))) w1"
    using w1(1) t small by (simp add: BIO_read_asn1_def Let_def short_tag_def l hdr_def)
  then show ?thesis
    using rest_run [OF w1(2), where header = hdr and n = n and max_len = max_len, unfolded w1(3,4), OF assms(2,3)] by (simp only:)
next
  case False
  then obtain l bs where l: "der_len n = l # bs" "l AND 0x80 \<noteq> 0" "length bs = unat (l AND 0x7F)" "bs \<noteq> []" "length bs \<le> 4"
    "\<not> (be_word bs :: u32) < 128" "drop_bit ((length bs - 1) * 8) (be_word bs :: u32) \<noteq> 0" "unat (be_word bs :: u32) = n"
    using long_length_conv [of n] n by auto
  obtain w1 where w1: "read_exactly bio 2 w = (Ret [t, l], w1)" "inv w1" "content w1 = bs @ r" "allocs w1 = allocs w"
    using read_exactly_run [OF assms(1), of 2] c l(1) by (auto simp: INT_MAX_def numeral_2_eq_2)
  have "int (length bs) \<le> INT_MAX"
    using l(5) by (simp add: INT_MAX_def)
  then obtain w2 where w2: "read_exactly bio (length bs) w1 = (Ret bs, w2)" "inv w2" "content w2 = r" "allocs w2 = allocs w"
    using read_exactly_run [OF w1(2), of "length bs"] w1(3,4) by auto
  have "BIO_read_asn1 bio max_len w = (if max_len < n + length hdr \<or> INT_MAX < int n then fail
      else seq (alloc 0) (bnd (read_exactly bio n) (\<lambda>data. ret (hdr @ data)))) w2"
    using w1(1) w2(1) t l(2,4-7) by (simp add: BIO_read_asn1_def Let_def short_tag_def hdr_def foldl_be_word l(1,8) flip: l(3))
  then show ?thesis
    using rest_run [OF w2(2), where header = hdr and n = n and max_len = max_len, unfolded w2(3,4), OF assms(2,3)] by (simp only:)
qed

lemma BIO_read_asn1_short:
  assumes "inv w" and "length (content w) < 2"
  shows "\<exists>w'. BIO_read_asn1 bio max_len w = (Fail, w') \<and> inv w'"
  using read_exactly_run [OF assms(1), of 2] assms(2) by (auto simp: INT_MAX_def BIO_read_asn1_def)

lemma BIO_read_asn1_indefinite:
  assumes "inv w" and "None \<notin> set (allocs w)" and "Suc max_len \<le> length (allocs w)"
    and c: "content w = t # 0x80 # r" and t: "short_tag t" "t AND 0x20 \<noteq> 0"
  shows "\<exists>w'. BIO_read_asn1 bio max_len w = (if eof = 0 \<and> length (content w) < max_len then Ret (content w) else Fail, w') \<and>
    inv w' \<and> (length (content w) < max_len \<longrightarrow> content w' = [])"
proof -
  obtain w1 where w1: "read_exactly bio 2 w = (Ret [t, 0x80], w1)" "inv w1" "content w1 = r" "allocs w1 = allocs w"
    using read_exactly_run [OF assms(1), of 2] c by (auto simp: INT_MAX_def numeral_2_eq_2)
  have "BIO_read_asn1 bio max_len w = bio_read_all bio [t, 0x80] max_len w1"
    using w1(1) t by (simp add: BIO_read_asn1_def Let_def short_tag_def)
  moreover obtain w2 where "bio_read_all bio [t, 0x80] max_len w1 =
      (if eof = 0 \<and> length (content w) < max_len then Ret (content w) else Fail, w2)"
    "inv w2" "length (content w) < max_len \<longrightarrow> content w2 = []"
    using bio_read_all_run [OF w1(2), of max_len "[t, 0x80]"] assms(2,3) unfolding w1(3,4) c by auto
  ultimately show ?thesis
    by simp
qed

lemma BIO_read_asn1_other:
  assumes "inv w" and c: "content w = t # l # r" and no: "\<not> (short_tag t \<and> t AND 0x20 \<noteq> 0 \<and> l = 0x80)"
    and nd: "\<And>n r'. short_tag t \<Longrightarrow> n < 2 ^ 32 \<Longrightarrow> l # r \<noteq> der_len n @ r'"
  shows "\<exists>w'. BIO_read_asn1 bio max_len w = (Fail, w') \<and> inv w'"
proof -
  obtain w1 where w1: "read_exactly bio 2 w = (Ret [t, l], w1)" "inv w1" "content w1 = r" "allocs w1 = allocs w"
    using read_exactly_run [OF assms(1), of 2] c by (auto simp: INT_MAX_def numeral_2_eq_2)
  show ?thesis
  proof (cases "short_tag t")
    case False
    with w1 show ?thesis
      by (simp add: BIO_read_asn1_def Let_def short_tag_def)
  next
    case t: True
    have long: "l AND 0x80 \<noteq> 0"
      using nd [OF t, of "unat l" r] unat_byte_less [of l] by (auto simp: der_len_short byte_small_iff)
    define k where "k = unat (l AND 0x7F)"
    have k: "k = 0 \<Longrightarrow> l = 0x80"
      using byte_long_split [OF long] by (simp add: k_def word_unat_eq_iff)
    show ?thesis
    proof (cases "k = 0 \<or> 4 < k")
      case True
      with w1(1,2) t long no k show ?thesis
        by (auto simp: BIO_read_asn1_def Let_def short_tag_def simp flip: k_def)
    next
      case False
      have "int k \<le> INT_MAX"
        using False by (simp add: INT_MAX_def)
      then obtain w2 where w2: "read_exactly bio k w1 = (if k \<le> length r then Ret (take k r) else Fail, w2)" "inv w2"
        using read_exactly_run [OF w1(2), of k] w1(3) by auto
      define n where "n = unat (be_word (take k r) :: u32)"
      have "k \<le> length r \<Longrightarrow> (be_word (take k r) :: u32) < 128 \<or> drop_bit ((k - 1) * 8) (be_word (take k r) :: u32) = 0"
      proof (rule ccontr)
        assume k: "k \<le> length r" and "\<not> ((be_word (take k r) :: u32) < 128 \<or> drop_bit ((k - 1) * 8) (be_word (take k r) :: u32) = 0)"
        then have "l # take k r = der_len n \<and> 128 \<le> n"
          unfolding n_def using False long by (intro long_length) (auto simp: k_def)
        then have "l # r = der_len n @ drop k r"
          by (metis append_Cons append_take_drop_id)
        moreover have "n < 2 ^ 32"
          using unsigned_less [of "be_word (take k r) :: u32"] by (simp add: n_def)
        ultimately show False
          using nd [OF t] by blast
      qed
      with w1(1) w2 t long False show ?thesis
        by (cases "k \<le> length r") (auto simp: BIO_read_asn1_def Let_def short_tag_def foldl_be_word simp flip: k_def)
    qed
  qed
qed

lemma read_element:
  assumes "inv w" and "None \<notin> set (allocs w)" and "Suc max_len \<le> length (allocs w)"
  shows "\<exists>out w'. BIO_read_asn1 bio max_len w = (out, w') \<and> inv w' \<and> (case out of
      Ret d \<Rightarrow> asn1_front max_len eof (content w) d \<and> content w = d @ content w'
    | Fail \<Rightarrow> (\<forall>d. \<not> asn1_front max_len eof (content w) d)
    | Stuck \<Rightarrow> False)"
proof -
  have "allocs w \<noteq> []"
    using assms(3) by auto
  note more = assms(2) this
  consider (short) "length (content w) < 2"
    | (definite) t n r where "content w = t # der_len n @ r" "short_tag t" "n < 2 ^ 32"
    | (indefinite) t r where "content w = t # 0x80 # r" "short_tag t" "t AND 0x20 \<noteq> 0"
    | (other) t l r where "content w = t # l # r" "\<not> (short_tag t \<and> t AND 0x20 \<noteq> 0 \<and> l = 0x80)"
      "\<And>n r'. short_tag t \<Longrightarrow> n < 2 ^ 32 \<Longrightarrow> l # r \<noteq> der_len n @ r'"
  proof (cases "content w")
    case (Cons t s)
    show thesis
    proof (cases s)
      case Nil
      with Cons short show thesis
        by simp
    next
      case (Cons l r)
      with \<open>content w = t # s\<close> show thesis
        using definite indefinite other by metis
    qed
  qed (use short in simp)
  then show ?thesis
  proof cases
    case short
    then have "\<not> asn1_front max_len eof (content w) d" for d
      by (auto simp: asn1_front_def der_def der_len_def)
    with BIO_read_asn1_short [OF assms(1) short] show ?thesis
      by fastforce
  next
    case definite
    from BIO_read_asn1_definite [OF assms(1) more definite, of max_len] show ?thesis
      using asn1_front_definite [OF definite, of max_len eof] definite(1) by (auto split: if_splits)
  next
    case indefinite
    then have "asn1_front max_len eof (content w) d \<longleftrightarrow> d = content w \<and> length d < max_len \<and> eof = 0" for d
      using not_indefinite [of _ r] by (fastforce simp: asn1_front_def der_def)
    with BIO_read_asn1_indefinite [OF assms indefinite] show ?thesis
      by (auto split: if_splits)
  next
    case other
    then have "\<not> asn1_front max_len eof (content w) d" for d
      by (fastforce simp: asn1_front_def der_def INT_MAX_def)
    with BIO_read_asn1_other [OF assms(1) other] show ?thesis
      by fastforce
  qed
qed

end

section \<open>Memory and pairs are readers\<close>

interpretation memory_reader: reader "\<lambda>w. mem_ok a ro eof w \<and> (eof = 0 \<or> eof = -1)" "mem_left a" "Some a" eof for a ro eof
proof unfold_locales
  fix w n
  assume inv: "mem_ok a ro eof w \<and> (eof = 0 \<or> eof = -1)" and n: "0 < n" "n \<le> INT_MAX"
  show "\<exists>w'. BIO_read (Some a) False n w = (Ret (int (min (nat n) (length (mem_left a w))), take (nat n) (mem_left a w)), w') \<and>
      (mem_ok a ro eof w' \<and> (eof = 0 \<or> eof = -1)) \<and> mem_left a w' = drop (nat n) (mem_left a w) \<and> allocs w' = allocs w"
    if "mem_left a w \<noteq> []"
    using BIO_read_memory [of a ro eof w n] inv n that by auto
  show "\<exists>w'. BIO_read (Some a) False n w = (Ret (eof, []), w') \<and> (mem_ok a ro eof w' \<and> (eof = 0 \<or> eof = -1)) \<and> mem_left a w' = [] \<and> allocs w' = allocs w"
    if "mem_left a w = []"
    using BIO_read_memory [of a ro eof w n] inv n that by auto
next
  fix w as
  assume inv: "mem_ok a ro eof w \<and> (eof = 0 \<or> eof = -1)"
  then show "BIO_read (Some a) False 0 w = (Ret (0, []), w)"
    by (auto simp: BIO_read_def mem_run mem_at_def elim!: mem_okE)
  have "memory_of (w\<lparr>allocs := as\<rparr>) a = memory_of w a"
    by (auto simp: memory_of_def split: option.splits bio_ptr.splits)
  with inv show "(mem_ok a ro eof (w\<lparr>allocs := as\<rparr>) \<and> (eof = 0 \<or> eof = -1)) \<and> mem_left a (w\<lparr>allocs := as\<rparr>) = mem_left a w"
    and "eof = 0 \<or> eof = -1"
    by (simp_all add: mem_ok_def mem_left_def)
qed

lemma take_bytes_result:
  assumes "0 < n"
  shows "take_bytes n c = ((if queue c = [] then if shut c then 0 else -1 else int (min n (length (queue c))), take n (queue c)),
    c\<lparr>queue := drop n (queue c)\<rparr>)"
  by (cases "n \<le> length (queue c)") (auto simp: take_bytes_def Let_def min_def)

interpretation pair_reader: reader "\<lambda>w. connected a b w \<and> eof = (if shut (outgoing b w) then 0 else -1)" "\<lambda>w. queue (outgoing b w)"
  "Some a" eof for a b eof
proof unfold_locales
  fix w n
  assume inv: "connected a b w \<and> eof = (if shut (outgoing b w) then 0 else -1)" and n: "0 < n" "n \<le> INT_MAX"
  obtain w' where w': "BIO_read (Some a) False n w = (Ret (fst (take_bytes (nat n) (outgoing b w))), w')" "connected a b w'"
    "outgoing b w' = snd (take_bytes (nat n) (outgoing b w))" "only_at {a, b} w w'"
    using BIO_read_pair [of a b w n] inv n by (metis prod.collapse)
  have "allocs w' = allocs w"
    using w'(4) by (auto simp: only_at_def)
  with w' inv n(1) show "\<exists>w'. BIO_read (Some a) False n w =
        (Ret (int (min (nat n) (length (queue (outgoing b w)))), take (nat n) (queue (outgoing b w))), w') \<and>
      (connected a b w' \<and> eof = (if shut (outgoing b w') then 0 else -1)) \<and>
      queue (outgoing b w') = drop (nat n) (queue (outgoing b w)) \<and> allocs w' = allocs w" if "queue (outgoing b w) \<noteq> []"
    using that by (simp add: take_bytes_result)
  from w' inv n(1) \<open>allocs w' = allocs w\<close> show "\<exists>w'. BIO_read (Some a) False n w = (Ret (eof, []), w') \<and>
      (connected a b w' \<and> eof = (if shut (outgoing b w') then 0 else -1)) \<and> queue (outgoing b w') = [] \<and> allocs w' = allocs w"
    if "queue (outgoing b w) = []"
    using that by (simp add: take_bytes_result)
next
  fix w as
  assume inv: "connected a b w \<and> eof = (if shut (outgoing b w) then 0 else -1)"
  then show "BIO_read (Some a) False 0 w = (Ret (0, []), w)"
    by (auto simp: BIO_read_def run_at end_of_def elim!: connectedE)
  have "pair_of (w\<lparr>allocs := as\<rparr>) x = pair_of w x" for x
    by (simp add: pair_of_def)
  with inv show "(connected a b (w\<lparr>allocs := as\<rparr>) \<and> eof = (if shut (outgoing b (w\<lparr>allocs := as\<rparr>)) then 0 else -1)) \<and>
      queue (outgoing b (w\<lparr>allocs := as\<rparr>)) = queue (outgoing b w)"
    by (simp add: connected_def outgoing_def)
  from inv show "eof = 0 \<or> eof = -1"
    by simp
qed

section \<open>What is read\<close>

lemma new_mem_buf_run:
  assumes "None \<notin> set (allocs w)" and "2 \<le> length (allocs w)" and "int (length bs) \<le> INT_MAX"
  shows "\<exists>w'. BIO_new_mem_buf (Some bs) (int (length bs)) w = (Ret (next_addr w), w') \<and> mem_ok (next_addr w) True 0 w' \<and>
    mem_left (next_addr w) w' = bs \<and> allocs w' = drop 2 (allocs w)"
proof -
  obtain g h as where w: "allocs w = Some g # Some h # as"
    using assms(1,2) by (cases "allocs w"; cases "tl (allocs w)"; cases "hd (allocs w)"; cases "hd (tl (allocs w))") auto
  have "length bs < 2 ^ 64"
    using assms(3) by (simp add: INT_MAX_def)
  then have max: "unat (of_nat (length bs) :: u64) = length bs"
    by (rule unat_of_nat_u64)
  have flag: "(BIO_FLAGS_MEM_RDONLY AND BIO_FLAGS_MEM_RDONLY) \<noteq> 0"
    by (simp add: BIO_FLAGS_MEM_RDONLY_def)
  show ?thesis
    using assms(3) max flag
    by (simp add: BIO_new_mem_buf_def BIO_new_def new_addr_def alloc_def w put_bio_def create_def mem_new_def attempt_def mem_run
        mem_ok_def mem_left_def memory_of_def rdonly_def buf_ok_def)
qed

text \<open>What \<open>bio.h\<close> says of \<open>BIO_read_asn1\<close> on a BIO with the bytes \<open>bs\<close>: it gives the first element when that has a one-byte
tag, its DER length and no more than \<open>max_len\<close> bytes; when the first element is constructed and of indefinite length it gives
the full contents, unless there are more than \<open>max_len\<close> bytes of them. Otherwise there is nothing it could give.\<close>

definition indefinite_form :: "byte list \<Rightarrow> bool" where
  "indefinite_form bs = (case bs of t # l # r \<Rightarrow> short_tag t \<and> t AND 0x20 \<noteq> 0 \<and> l = 0x80 | _ \<Rightarrow> False)"

definition documented_front :: "nat \<Rightarrow> byte list \<Rightarrow> byte list \<Rightarrow> bool" where
  "documented_front max_len bs d \<longleftrightarrow>
     (\<exists>t e r. short_tag t \<and> d = der t e \<and> bs = d @ r \<and> length d \<le> max_len) \<or>
     indefinite_form bs \<and> d = bs \<and> length bs \<le> max_len"

lemma indefinite_form_iff:
  "indefinite_form bs \<longleftrightarrow> (\<exists>t r. short_tag t \<and> t AND 0x20 \<noteq> 0 \<and> bs = t # 0x80 # r)"
  by (auto simp: indefinite_form_def split: list.splits)

lemma asn1_front_documented:
  assumes "int (length bs) \<le> INT_MAX" and "\<not> (indefinite_form bs \<and> length bs = max_len)"
  shows "asn1_front max_len 0 bs d \<longleftrightarrow> documented_front max_len bs d"
proof -
  have "int (length e) \<le> INT_MAX" if "bs = der t e @ r" for t e r
    using assms(1) that by (simp add: length_der)
  moreover have "length bs < max_len \<longleftrightarrow> length bs \<le> max_len" if "indefinite_form bs"
    using assms(2) that by auto
  ultimately show ?thesis
    unfolding asn1_front_def documented_front_def indefinite_form_iff by blast
qed

lemma read_memory_element:
  assumes "None \<notin> set (allocs w)" and "max_len + 3 \<le> length (allocs w)" and "int (length bs) \<le> INT_MAX"
  shows "\<exists>a w1 out w2. BIO_new_mem_buf (Some bs) (int (length bs)) w = (Ret a, w1) \<and> BIO_read_asn1 (Some a) max_len w1 = (out, w2) \<and>
    (case out of
       Ret d \<Rightarrow> asn1_front max_len 0 bs d \<and> bs = d @ mem_left a w2
     | Fail \<Rightarrow> (\<forall>d. \<not> asn1_front max_len 0 bs d)
     | Stuck \<Rightarrow> False)"
proof -
  obtain w1 where w1: "BIO_new_mem_buf (Some bs) (int (length bs)) w = (Ret (next_addr w), w1)" "mem_ok (next_addr w) True 0 w1"
    "mem_left (next_addr w) w1 = bs" "allocs w1 = drop 2 (allocs w)"
    using new_mem_buf_run [OF assms(1) _ assms(3)] assms(2) by auto
  have "None \<notin> set (allocs w1)" "Suc max_len \<le> length (allocs w1)"
    using assms(1,2) by (auto simp: w1(4) dest: in_set_dropD)
  from memory_reader.read_element [OF _ this, of "next_addr w" True 0] w1(1-3) show ?thesis
    by auto
qed

text \<open>At the limit itself the code departs from its description: \<open>max_len\<close> bytes are not more than \<open>max_len\<close>, but refused.\<close>

lemma exact_limit_is_refused:
  assumes "None \<notin> set (allocs w)" and "max_len + 3 \<le> length (allocs w)" and "int (length bs) \<le> INT_MAX"
    and "indefinite_form bs" and "length bs = max_len"
  shows "documented_front max_len bs bs \<and>
    (\<exists>a w1 w2. BIO_new_mem_buf (Some bs) (int (length bs)) w = (Ret a, w1) \<and> BIO_read_asn1 (Some a) max_len w1 = (Fail, w2))"
proof
  show "documented_front max_len bs bs"
    using assms(4,5) by (simp add: documented_front_def)
  have "\<not> asn1_front max_len 0 bs d" for d
    using assms(3-5) not_indefinite by (fastforce simp: asn1_front_def indefinite_form_iff der_def)
  with read_memory_element [OF assms(1-3)]
  show "\<exists>a w1 w2. BIO_new_mem_buf (Some bs) (int (length bs)) w = (Ret a, w1) \<and> BIO_read_asn1 (Some a) max_len w1 = (Fail, w2)"
    by (fastforce split: res.splits)
qed

text \<open>C18: \<open>BIO_read_asn1\<close> on the bytes \<open>bs\<close> does what \<open>bio.h\<close> says. It reads the first element when that has a one-byte tag,
its DER length and no more than \<open>max_len\<close> bytes, and leaves what follows it; of a constructed element of indefinite length it
takes everything there is, if that is no more than \<open>max_len\<close> bytes. Anything else is refused, and no assertion fails. The
allocator has memory. One case is not in it: indefinite contents of exactly \<open>max_len\<close> bytes, which the description admits and
the code refuses.\<close>

theorem read_element_of_buffer:
  assumes "None \<notin> set (allocs w)" and "max_len + 3 \<le> length (allocs w)" and "int (length bs) \<le> INT_MAX"
    and "\<not> (indefinite_form bs \<and> length bs = max_len)"
  shows "\<exists>a w1 out w2. BIO_new_mem_buf (Some bs) (int (length bs)) w = (Ret a, w1) \<and> BIO_read_asn1 (Some a) max_len w1 = (out, w2) \<and>
    (case out of
       Ret d \<Rightarrow> documented_front max_len bs d \<and> bs = d @ mem_left a w2
     | Fail \<Rightarrow> (\<forall>d. \<not> documented_front max_len bs d)
     | Stuck \<Rightarrow> False)"
  using read_memory_element [OF assms(1-3)] unfolding asn1_front_documented [OF assms(3,4)] .

text \<open>A SEQUENCE of an INTEGER, with a byte after it.\<close>

lemma read_element_of_buffer_witness:
  "\<exists>a w1 w2. BIO_new_mem_buf (Some [0x30, 3, 2, 1, 5, 9]) 6 (empty_world (replicate 20 (Some (\<lambda>_. 0)))) = (Ret a, w1) \<and>
    BIO_read_asn1 (Some a) 10 w1 = (Ret [0x30, 3, 2, 1, 5], w2) \<and> mem_left a w2 = [9]"
proof -
  let ?bs = "[0x30, 3, 2, 1, 5, 9] :: byte list"
  have not_indef: "\<not> (indefinite_form ?bs \<and> length ?bs = 10)" and max: "int (length ?bs) \<le> INT_MAX"
    by (simp_all add: INT_MAX_def)
  have front: "documented_front 10 ?bs d \<longleftrightarrow> d = [0x30, 3, 2, 1, 5]" for d
  proof -
    have len: "?bs = 0x30 # der_len 3 @ [2, 1, 5, 9]" and "short_tag 0x30"
      by (simp_all add: der_len_def short_tag_def)
    from asn1_front_definite [OF this, of 10 0 d] show ?thesis
      unfolding asn1_front_documented [OF max not_indef, symmetric] len [symmetric] by (auto simp: der_len_def INT_MAX_def)
  qed
  have "None \<notin> set (allocs (empty_world (replicate 20 (Some (\<lambda>_. 0)))))"
    "10 + 3 \<le> length (allocs (empty_world (replicate 20 (Some (\<lambda>_. 0)))))"
    by (simp_all add: empty_world_def)
  from read_element_of_buffer [OF this max not_indef] obtain a w1 out w2 where
    "BIO_new_mem_buf (Some ?bs) 6 (empty_world (replicate 20 (Some (\<lambda>_. 0)))) = (Ret a, w1)" "BIO_read_asn1 (Some a) 10 w1 = (out, w2)"
    "case out of Ret d \<Rightarrow> documented_front 10 ?bs d \<and> ?bs = d @ mem_left a w2 | Fail \<Rightarrow> (\<forall>d. \<not> documented_front 10 ?bs d) | Stuck \<Rightarrow> False"
    by auto
  then show ?thesis
    by (cases out) (auto simp: front)
qed

text \<open>C19: Everything that waits in a pair whose writing side is shut down is read, and then the end; the loop ends.\<close>

theorem pair_drains:
  assumes "connected a b w" and "shut (outgoing b w)" and "None \<notin> set (allocs w)" and "max_len < length (allocs w)"
    and "length hdr \<le> 4096" and "length hdr + length (queue (outgoing b w)) < max_len"
  shows "\<exists>w'. bio_read_all (Some a) hdr max_len w = (Ret (hdr @ queue (outgoing b w)), w') \<and> connected a b w' \<and> queue (outgoing b w') = []"
  using pair_reader.bio_read_all_run [of a b w 0 max_len hdr] assms by auto

text \<open>Two bytes, written by one side before it was shut down.\<close>

definition shut_pair :: bio_world where
  "shut_pair = (small_pair
     \<lparr>bios := (bios small_pair)(0 := map_option (\<lambda>x. x\<lparr>b_ptr := PairPtr
        \<lparr>bb_peer = Some 1, bb_closed = True, bb_len = 2, bb_offset = 3, bb_size = 4, bb_buf = Some [8, 0, 0, 7], bb_request = 0\<rparr>\<rparr>) (bios small_pair 0)),
      allocs := replicate 9 (Some (\<lambda>_. 0))\<rparr>)"

lemma pair_drains_witness:
  "\<exists>w'. bio_read_all (Some 1) [6] 8 shut_pair = (Ret [6, 7, 8], w') \<and> connected 1 0 w' \<and> queue (outgoing 0 w') = []"
proof -
  have "connected 1 0 shut_pair" "outgoing 0 shut_pair = \<lparr>queue = [7, 8], capacity = 4, shut = True\<rparr>"
    by (simp_all add: shut_pair_def) code_simp+
  then show ?thesis
    using pair_drains [of 1 0 shut_pair 8 "[6]"] by (simp add: shut_pair_def)
qed

end
