(* ===== verification/Spec2Isabelle.thy ===== *)
theory Spec2Isabelle
  imports Pb_Encode_Spec Pb_Decode_Spec Cbs_Der Cbb_Oid Ber_Spec Buf Base64_Spec Stack_Spec Lhash_Spec Modes_Keys Modes_Feedback Bn_Exp Bn_Ctx Bn_Bytes Bio_Read
begin

text \<open>
  A verification library for the C code that the application of this repository links: nanopb (the
  protocol buffer codec of the Firestore client, \<open>src/pokusaj3/Pods/nanopb\<close>) and the BoringSSL
  code that its TLS stack rests on for bytes, encodings, containers, cipher modes and big numbers
  (\<open>src/pokusaj3/Pods/BoringSSL/crypto\<close>). The application itself and the other pods are Objective-C
  and C++ and are not modelled.

  How C is modelled (\<open>Prelude\<close>, \<open>Bytes\<close>). A function that reports success as a boolean is a program
  over a state: it ends with \<open>Ret\<close> and a value, with \<open>Fail\<close> (it returned false or an error code, and the state is
  what it left), or with \<open>Stuck\<close>: a failed assertion, an access outside of an object, or fuel that did
  not suffice; the theorems show that it does not happen. Sequencing is \<open>bnd\<close>. Machine integers are words of their
  width, so the arithmetic wraps where that of the code does. The targets are little-endian with 64-bit pointers and
  \<open>size_t\<close>. \<open>keeps R f\<close> says that \<open>f\<close> changes the state only along the preorder \<open>R\<close> (the locale
  \<open>preorder_rel\<close>).

  nanopb, \<open>pb_common.c\<close>, \<open>pb_encode.c\<close>, \<open>pb_decode.c\<close>:
  \<^item> \<open>Pb_Types\<close>: descriptor tables (\<open>pb_field_t\<close>), type bytes, streams and the environment \<open>env\<close> of a
    run: the descriptor tables by address and the behaviour of the callbacks, which are code of the
    user. Messages live in a flat memory of bytes, so that aliasing and overruns are what they are in C.
  \<^item> \<open>Pb_Common\<close>: the field iterator, \<open>Pb_Ostream\<close> and \<open>Pb_Istream\<close>: streams and the codecs of single
    values, \<open>Pb_Encode\<close> and \<open>Pb_Decode\<close>: the message encoder and decoder. The nesting of messages is
    bounded by a fuel argument: any fuel above the nesting depth of the message type gives the same
    result, and the theorems state how much is needed through the specification, which uses the same bound.
  \<^item> \<open>Pb_Codec\<close>: round trips of varints, zigzag and fixed-width numbers, tags; \<open>Pb_Writes\<close>: what a
    program writes to the two streams the library makes.
  \<^item> \<open>Pb_Wire\<close> is the specification of the encoder, the wire records of a message in memory, and
    \<open>Pb_Encode_Spec\<close> the proof that the encoder writes their encoding, that it never writes outside a
    buffer that is too small, and that sizes and delimited messages agree with it.
  \<^item> \<open>Pb_Store\<close> is the specification of the decoder, the stores into a structure that a list of records
    makes, and \<open>Pb_Decode_Spec\<close> the proof that the decoder makes exactly those and uses up its input.
    \<open>Pb_Demo\<close> is the message type of the witnesses.

  BoringSSL, \<open>crypto/bytestring\<close>:
  \<^item> \<open>Der\<close> is the reference: big-endian numbers and the DER of elements with one-byte tags.
  \<^item> \<open>Cbs\<close> models \<open>cbs.c\<close>, a parser being a program over the rest of its input. Reading a byte
    or stepping past the end is \<open>Stuck\<close>. \<open>Cbs_Der\<close> shows that the checks in the parsers exclude that, that no
    assertion fails, and that each parser accepts exactly the encodings of the reference; the optional elements share the locale \<open>parser_for\<close>.
  \<^item> \<open>Cbb\<close> models \<open>cbb.c\<close>: a pool of \<open>CBB\<close> objects over one buffer, fixed or growing, with allocations
    that may fail. The recursion of \<open>CBB_flush\<close> over the children gets the size of the pool as fuel, one more than
    a chain of distinct objects can have. \<open>Cbb_Spec\<close> refines it to a stack of open elements, and proves the round trips
    with the parsers of \<open>Cbs\<close>; \<open>Cbb_Oid\<close> is the conversion of object identifiers.
  \<^item> \<open>Ber\<close> models \<open>ber.c\<close> and \<open>asn1_compat.c\<close>: the recursion is limited to the 2048 levels of \<open>kMaxDepth\<close>
    by the code itself, the loops use the length of the input as fuel (each round takes a byte at
    least). \<open>Ber_Spec\<close>: BER trees and the conversion of one element to its DER, which is proved for the
    elements whose BER the walk can find (\<open>exposed\<close>) and that have no constructed BIT STRINGs; lemmas show what the
    code does with the others.

  BoringSSL, encodings and containers:
  \<^item> \<open>Buf\<close> models \<open>crypto/buf/buf.c\<close>: growing buffers and bounded string copies.
  \<^item> \<open>Constant_Time\<close> models the \<open>constant_time_*\<close> functions of \<open>crypto/internal.h\<close>; \<open>Base64\<close> and
    \<open>Base64_Spec\<close> model \<open>crypto/base64/base64.c\<close> and compare it with the standard: tables, blocks,
    streams in any chunks, round trip.
  \<^item> \<open>Stack\<close> and \<open>Stack_Spec\<close>: \<open>crypto/stack/stack.c\<close>, whose \<open>qsort\<close> and \<open>bsearch\<close> are the locale
    \<open>c_sorting\<close>, interpreted on insertion sort and bisection. The room in the array is kept by every
    operation, the truth of the mark of sorted stacks by all but \<open>sk_set\<close> and, for some copies, \<open>sk_deep_copy\<close>.
  \<^item> \<open>Lhash\<close> and \<open>Lhash_Spec\<close>: \<open>crypto/lhash/lhash.c\<close>; the contract of the hash and comparison functions
    is the locale \<open>hash_table\<close>, interpreted on the string hash and \<open>strcmp\<close> and on numbers. A table is a map up to
    equality, whatever allocation for its resizing fails, with chains of bounded average length.

  BoringSSL, \<open>crypto/fipsmodule/modes\<close>:
  \<^item> \<open>Modes\<close> models \<open>cbc.c\<close>, \<open>ctr.c\<close>, \<open>cfb.c\<close> and \<open>ofb.c\<close> over a memory of bytes, in which input and output may
    overlap as the code allows. The block cipher under its key, and the routine that encrypts several counter
    blocks, are parameters (function pointers in C). \<open>Modes_Spec\<close>: CBC with every overlap, and its round trip.
  \<^item> \<open>Modes_Stream\<close> and \<open>Modes_Keys\<close>: the locale \<open>key_stream\<close> of a state that gives a stream of bytes, interpreted
    on counter mode and output feedback; chunks of data do not matter, and the variant with a 32-bit counter is
    the same. \<open>Modes_Feedback\<close>: cipher feedback and its round trip.

  BoringSSL, \<open>crypto/fipsmodule/bn\<close>, as compiled with \<open>OPENSSL_NO_ASM\<close> and 64-bit words:
  \<^item> \<open>Bn_Words\<close> models the macros and loops of \<open>generic.c\<close> and the comparisons of word arrays. The variant with
    \<open>BN_ULLONG\<close> and that with \<open>BN_UMULT_LOHI\<close> are proved equal. The loops share the locale \<open>word_step\<close> (a step
    that keeps a carry), interpreted on multiplication, addition and subtraction. \<open>Bn_Mul\<close>: the products, column by
    column (locale \<open>column_sum\<close>, interpreted on products and squares) and row by row.
  \<^item> \<open>Bn\<close> models \<open>bn.c\<close>, \<open>cmp.c\<close>, \<open>add.c\<close>, \<open>shift.c\<close> and \<open>bytes.c\<close>: \<open>BIGNUM\<close>s at addresses that may be the same, and an
    allocator whose answers are a list of the state. The array of a \<open>BIGNUM\<close> is as long as its \<open>dmax\<close>. \<open>Bn_Spec\<close>: \<open>outcome P Q f s\<close> says that \<open>f\<close> returns
    with \<open>P\<close> or fails with \<open>Q\<close>, and never reaches beyond an array; arithmetic on the integers the numbers stand for.
    \<open>Bn_Shift\<close> and \<open>Bn_Bits\<close>: the number of bits, shifts and single bits; the bound \<open>2 ^ 25\<close> on the words of a number is
    above what \<open>bn_wexpand\<close> allows. \<open>Bn_Bytes\<close>: numbers as byte strings of either order.
  \<^item> \<open>Bn_Mont\<close>, \<open>Bn_Exp\<close> and \<open>Bn_Ctx\<close> model \<open>montgomery_inv.c\<close>, \<open>montgomery.c\<close> and the functions of \<open>exponentiation.c\<close> that
    the elliptic curves use: \<open>mont_rep m x a\<close> says that the array \<open>a\<close> represents \<open>x\<close>; products, conversions, powers and inverses
    are those of the numbers represented, and \<open>BN_MONT_CTX_set\<close> makes the context they need. The loop over the windows of an
    exponent ends because each turn lowers the bit it is at. The arrays of at most nine words are those of \<open>BN_SMALL_MAX_WORDS\<close>.

  BoringSSL, \<open>crypto/bio\<close>:
  \<^item> \<open>Bio\<close> models \<open>bio.c\<close>, \<open>pair.c\<close>, \<open>bio_mem.c\<close> and the reference counts of \<open>refcount_lock.c\<close>: \<open>BIO\<close>s and \<open>BUF_MEM\<close>s are
    objects at addresses, of the two methods that keep their data in memory. The loops over a ring and over a chain are
    partial functions whose \<open>None\<close> is a loop without an end; the fuel of \<open>free_chain\<close> is the number of addresses given out, that
    of \<open>read_all_loop\<close> the limit on the bytes, one of which each round reads.
  \<^item> \<open>Bio_Ring\<close>: a ring is a queue, and the loops return after two rounds at most. \<open>Bio_Spec\<close>: a \<open>connected\<close> pair is two bounded
    queues. \<open>Bio_Life\<close>: making and freeing pairs, with an allocator that may refuse anywhere. \<open>Bio_Channel\<close>: runs of calls and
    their order, with the locale \<open>byte_queue\<close>, interpreted on the directions of a pair and, in \<open>Bio_Mem\<close>, on writable memory.
    \<open>Bio_Read\<close>: the locale \<open>reader\<close>, interpreted on memory and pairs, and \<open>BIO_read_asn1\<close> against what
    \<open>bio.h\<close> says it gives, but for an indefinite form as long as the limit, which a lemma shows to be refused.

  Not modelled. In nanopb: the code behind \<open>PB_ENABLE_MALLOC\<close>, which the build does not define. In the
  modelled files of BoringSSL: functions that only free memory. Of the big numbers: Karatsuba multiplication, and what works on
  the temporaries of a \<open>BN_CTX\<close> (division, \<open>BN_mod_exp\<close> and its variants, gcd, primes, square roots). Elsewhere: \<open>BIO\<close>s over files and sockets
  and methods made by users, ciphers, digests,
  curves, GCM and CCM, the template engine of ASN.1 and X.509, TLS, gRPC, leveldb (C++), the Objective-C pods and the
  application. Allocators, \<open>qsort\<close> and \<open>bsearch\<close>, and the callbacks of users are parameters.
\<close>

end
